(* ===== verification/Prelude.thy ===== *)
theory Prelude
  imports Main "HOL-Library.Word"
begin

text \<open>
  Shared vocabulary of the development: machine-integer type names, little-endian byte
  accessors, and the list view of a ring buffer (an array with a head index and a count) that
  the queues of the driver share.  The named theorem collection \<open>ring_simps\<close> holds the rewrite
  rules for ring buffers and \<open>word_nat\<close> the rules that move 32-bit index arithmetic to the
  natural numbers.
\<close>

unbundle bit_operations_syntax

named_theorems ring_simps
named_theorems word_nat

type_synonym u8 = "8 word"
type_synonym u16 = "16 word"
type_synonym u32 = "32 word"
type_synonym u64 = "64 word"

section \<open>Unsigned index arithmetic\<close>

lemma unat_add_no_wrap:
  fixes a b :: "'a::len word"
  assumes "unat a + unat b < 2 ^ LENGTH('a)"
  shows "unat (a + b) = unat a + unat b"
  using assms by (simp add: unat_add_lem [THEN iffD1])

lemma unat_add_mod_no_wrap [word_nat]:
  fixes a b m :: "'a::len word"
  assumes "unat a + unat b < 2 ^ LENGTH('a)"
  shows "unat ((a + b) mod m) = (unat a + unat b) mod unat m"
  using assms by (simp add: unat_mod unat_add_no_wrap)

lemma unat_Suc_no_wrap [word_nat]:
  fixes a :: "'a::len word"
  assumes "unat a < unat (b :: 'a word)"
  shows "unat (a + 1) = Suc (unat a)"
proof -
  have "Suc (unat a) < 2 ^ LENGTH('a)"
    using assms less_le_trans [OF _ Suc_leI [OF unsigned_less [of b, where 'a = nat]]] by simp
  then show ?thesis
    by (metis Suc_eq_plus1 unat_1 unat_add_no_wrap)
qed

lemma unat_pred [word_nat]:
  fixes a :: "'a::len word"
  assumes "a \<noteq> 0"
  shows "unat (a - 1) = unat a - 1"
  using assms by (simp add: unat_minus_one)

lemma unat_pos_iff: "0 < unat (a :: 'a::len word) \<longleftrightarrow> a \<noteq> 0"
  by (simp add: unat_gt_0)

lemma unat_ucast_up [word_nat]:
  "LENGTH('a::len) \<le> LENGTH('b::len) \<Longrightarrow> unat (ucast (w :: 'a word) :: 'b word) = unat w"
  by (simp add: unsigned_ucast_eq take_bit_nat_eq_self
      less_le_trans [OF unsigned_less [of w, where 'a = nat]])

section \<open>Ring buffers\<close>

text \<open>
  \<open>ring_list xs h n\<close> reads \<open>n\<close> consecutive slots of the array \<open>xs\<close> starting at slot \<open>h\<close>,
  wrapping around at the end of the array: the logical contents of a ring buffer.
\<close>

definition ring_list :: "'a list \<Rightarrow> nat \<Rightarrow> nat \<Rightarrow> 'a list" where
  "ring_list xs h n = map (\<lambda>i. xs ! ((h + i) mod length xs)) [0..<n]"

lemma length_ring_list [simp]: "length (ring_list xs h n) = n"
  by (simp add: ring_list_def)

lemma ring_list_0 [simp]: "ring_list xs h 0 = []"
  by (simp add: ring_list_def)

lemma ring_list_empty_iff [simp]: "ring_list xs h n = [] \<longleftrightarrow> n = 0"
  by (simp add: ring_list_def)

lemma nth_ring_list [ring_simps]:
  "i < n \<Longrightarrow> ring_list xs h n ! i = xs ! ((h + i) mod length xs)"
  by (simp add: ring_list_def)

lemma ring_list_Suc:
  "ring_list xs h (Suc n) = ring_list xs h n @ [xs ! ((h + n) mod length xs)]"
  by (simp add: ring_list_def)

lemma ring_slot_inj_le:
  assumes "(h + i) mod c = (h + j) mod c" and "i \<le> j" and "j < (c::nat)"
  shows "i = j"
proof -
  have "c dvd (h + j) - (h + i)"
    using assms by (metis mod_eq_dvd_iff_nat add_le_cancel_left)
  then have "c dvd j - i" by simp
  with assms show ?thesis by (metis diff_is_0_eq dvd_imp_le le_antisym less_imp_diff_less not_le neq0_conv)
qed

lemma ring_slot_inj:
  assumes "(h + i) mod c = (h + j) mod c" and "i < c" and "j < (c::nat)"
  shows "i = j"
  using assms ring_slot_inj_le [of h i c j] ring_slot_inj_le [of h j c i]
  by (metis nat_le_linear)

lemma ring_slot_neq:
  "i < c \<Longrightarrow> j < (c::nat) \<Longrightarrow> i \<noteq> j \<Longrightarrow> (h + i) mod c \<noteq> (h + j) mod c"
  using ring_slot_inj by blast

text \<open>Enqueueing at the tail slot appends; advancing the head drops the first element.\<close>

lemma ring_list_push [ring_simps]:
  assumes "n < length xs"
  shows "ring_list (xs[(h + n) mod length xs := x]) h (Suc n) = ring_list xs h n @ [x]"
proof (rule nth_equalityI)
  fix i assume "i < length (ring_list (xs[(h + n) mod length xs := x]) h (Suc n))"
  then have i: "i \<le> n" by simp
  show "ring_list (xs[(h + n) mod length xs := x]) h (Suc n) ! i = (ring_list xs h n @ [x]) ! i"
  proof (cases "i = n")
    case True
    with assms show ?thesis
      by (simp add: nth_ring_list nth_append mod_less_divisor [OF le_less_trans [OF le0 assms]])
  next
    case False
    with i assms have "(h + i) mod length xs \<noteq> (h + n) mod length xs"
      by (intro ring_slot_neq) auto
    with False i show ?thesis
      by (simp add: nth_ring_list nth_append)
  qed
qed simp

lemma ring_list_Cons [ring_simps]:
  "ring_list xs h (Suc n) = xs ! (h mod length xs) # ring_list xs (Suc h) n"
  unfolding ring_list_def by (simp add: upt_conv_Cons map_Suc_upt [symmetric] del: upt_Suc)

lemma ring_list_mod_head [ring_simps]:
  "ring_list xs (h mod length xs) n = ring_list xs h n"
  by (simp add: ring_list_def mod_simps)

lemma ring_list_pop [ring_simps]:
  assumes "0 < n"
  shows "ring_list xs h n = xs ! (h mod length xs) # ring_list xs (Suc h mod length xs) (n - 1)"
  using assms by (cases n) (simp_all add: ring_list_Cons ring_list_mod_head)

lemma hd_ring_list [ring_simps]:
  "0 < n \<Longrightarrow> hd (ring_list xs h n) = xs ! (h mod length xs)"
  by (simp add: ring_list_pop)

lemma last_ring_list [ring_simps]:
  "0 < n \<Longrightarrow> last (ring_list xs h n) = xs ! ((h + n - 1) mod length xs)"
  by (cases n) (simp_all add: ring_list_Suc)

lemma ring_list_update_head:
  assumes "0 < n" and "n \<le> length xs"
  shows "ring_list (xs[h mod length xs := x]) (Suc h mod length xs) (n - 1)
       = ring_list xs (Suc h mod length xs) (n - 1)"
proof (rule nth_equalityI)
  fix i assume "i < length (ring_list (xs[h mod length xs := x]) (Suc h mod length xs) (n - 1))"
  then have i: "Suc i < n" by simp
  then have "(h + 0) mod length xs \<noteq> (h + Suc i) mod length xs"
    using assms by (intro ring_slot_neq) auto
  with i show "ring_list (xs[h mod length xs := x]) (Suc h mod length xs) (n - 1) ! i
             = ring_list xs (Suc h mod length xs) (n - 1) ! i"
    by (simp add: nth_ring_list mod_simps)
qed simp

lemma set_ring_list_subset:
  assumes "xs \<noteq> []"
  shows "set (ring_list xs h n) \<subseteq> set xs"
proof
  fix x assume "x \<in> set (ring_list xs h n)"
  then obtain i where "x = xs ! ((h + i) mod length xs)"
    by (auto simp: ring_list_def)
  with assms show "x \<in> set xs" by simp
qed

section \<open>Little-endian byte accessors\<close>

definition le16 :: "u8 \<Rightarrow> u8 \<Rightarrow> u16" where
  "le16 lo hi = ucast lo OR push_bit 8 (ucast hi)"

definition lo8 :: "u16 \<Rightarrow> u8" where
  "lo8 v = ucast v"

definition hi8 :: "u16 \<Rightarrow> u8" where
  "hi8 v = ucast (drop_bit 8 v)"

lemma le16_lo8_hi8 [simp]: "le16 (lo8 v) (hi8 v) = v"
  by (rule bit_word_eqI) (auto simp: le16_def lo8_def hi8_def bit_simps)

lemma lo8_le16 [simp]: "lo8 (le16 a b) = a"
  by (rule bit_word_eqI) (auto simp: le16_def lo8_def hi8_def bit_simps)

lemma hi8_le16 [simp]: "hi8 (le16 a b) = b"
  by (rule bit_word_eqI) (auto simp: le16_def lo8_def hi8_def bit_simps dest: bit_imp_le_length)

definition le32 :: "u8 \<Rightarrow> u8 \<Rightarrow> u8 \<Rightarrow> u8 \<Rightarrow> u32" where
  "le32 a b c d = ucast a OR push_bit 8 (ucast b) OR push_bit 16 (ucast c) OR push_bit 24 (ucast d)"

definition byte32 :: "nat \<Rightarrow> u32 \<Rightarrow> u8" where
  "byte32 i v = ucast (drop_bit (8 * i) v)"

lemma le32_bytes [simp]: "le32 (byte32 0 v) (byte32 1 v) (byte32 2 v) (byte32 3 v) = v"
proof (rule bit_word_eqI)
  fix n assume "n < LENGTH(32)"
  then show "bit (le32 (byte32 0 v) (byte32 1 v) (byte32 2 v) (byte32 3 v)) n = bit v n"
    by (cases "n < 16"; cases "n < 24") (auto simp: le32_def byte32_def bit_simps)
qed

text \<open>The little-endian 32-bit field at an offset of a byte string.\<close>

definition get32 :: "u8 list \<Rightarrow> nat \<Rightarrow> u32" where
  "get32 m i = le32 (m ! i) (m ! (i + 1)) (m ! (i + 2)) (m ! (i + 3))"

definition get16 :: "u8 list \<Rightarrow> nat \<Rightarrow> u16" where
  "get16 m i = le16 (m ! i) (m ! (i + 1))"

end
