(* ===== verification/Interfaces.thy ===== *)
theory Interfaces
  imports Prelude
begin

text \<open>
  The contracts the components share, as locales.  \<open>serial_order\<close> is the wrap-around comparison
  of fence numbers, \<open>fifo_queue\<close> a bounded queue with unrelated operations interleaved,
  \<open>guarded_system\<close> a state machine with an inductive invariant, \<open>ranked_system\<close> a machine whose
  phase never goes back, and \<open>exhausting_system\<close> one that runs out of steps.  Every component that provides one of them interprets it on its
  own operations, in its own theory.
\<close>

section \<open>Serial-number order\<close>

lemma wrap_diff_sum:
  fixes x y m :: nat
  assumes "x < m" and "y < m" and "x \<noteq> y"
  shows "(if y \<le> x then x - y else x + m - y) + (if x \<le> y then y - x else y + m - x) = m"
  using assms by auto

locale serial_order =
  fixes after :: "'a::len word \<Rightarrow> 'a word \<Rightarrow> bool"
  assumes after_iff: "after c r \<longleftrightarrow> 0 < unat (c - r) \<and> unat (c - r) < 2 ^ (LENGTH('a) - 1)"
begin

lemma after_irrefl: "\<not> after a a"
  by (simp add: after_iff)

lemma after_asym:
  assumes "after a b"
  shows "\<not> after b a"
proof
  assume "after b a"
  then have ba: "unat (b - a) < 2 ^ (LENGTH('a) - 1)" by (simp add: after_iff)
  from assms have ab: "0 < unat (a - b)" "unat (a - b) < 2 ^ (LENGTH('a) - 1)"
    by (simp_all add: after_iff)
  have "2 ^ LENGTH('a) = 2 * (2::nat) ^ (LENGTH('a) - 1)"
    by (metis len_gt_0 power_eq_if neq0_conv)
  with ab ba have "unat ((a - b) + (b - a)) = unat (a - b) + unat (b - a)"
    by (intro unat_add_no_wrap) linarith
  with ab show False by simp
qed

lemma after_total:
  assumes "a \<noteq> b" and "unat (a - b) \<noteq> 2 ^ (LENGTH('a) - 1)"
  shows "after a b \<or> after b a"
proof (rule disjCI)
  assume nb: "\<not> after b a"
  have ne: "0 < unat (a - b)" "0 < unat (b - a)"
    using assms(1) by (simp_all add: unat_gt_0)
  have split: "2 ^ LENGTH('a) = 2 * (2::nat) ^ (LENGTH('a) - 1)"
    by (metis len_gt_0 power_eq_if neq0_conv)
  have "unat (a - b) + unat (b - a) = 2 ^ LENGTH('a)"
  proof -
    have ne: "unat a \<noteq> unat b" using assms(1) by (simp add: word_unat_eq_iff)
    show ?thesis
      using wrap_diff_sum [OF unsigned_less [of a, where 'a = nat]
          unsigned_less [of b, where 'a = nat] ne]
      by (simp only: unat_sub_if_size word_size)
  qed
  with nb ne split assms(2) show "after a b"
    by (auto simp: after_iff)
qed

lemma after_trans:
  assumes "after b a" and "after c b"
    and "unat (b - a) + unat (c - b) < 2 ^ (LENGTH('a) - 1)"
  shows "after c a"
proof -
  have lt: "(2::nat) ^ (LENGTH('a) - 1) < 2 ^ LENGTH('a)"
    by (rule power_strict_increasing) auto
  have "unat ((b - a) + (c - b)) = unat (b - a) + unat (c - b)"
    using assms(3) lt by (intro unat_add_no_wrap) linarith
  then have "unat (c - a) = unat (b - a) + unat (c - b)" by simp
  with assms show ?thesis by (simp add: after_iff)
qed

end

section \<open>Queues\<close>

datatype ('e, 'o) queue_op = Enqueue 'e | Dequeue | Other 'o

text \<open>
  A run applies the operations in order; a refused operation leaves the state alone.  It returns
  the accepted elements, the delivered elements and the final state.
\<close>

fun run_queue ::
  "('e \<Rightarrow> 's \<Rightarrow> 's option) \<Rightarrow> ('s \<Rightarrow> ('e \<times> 's) option) \<Rightarrow> ('o \<Rightarrow> 's \<Rightarrow> 's option)
   \<Rightarrow> ('e, 'o) queue_op list \<Rightarrow> 's \<Rightarrow> 'e list \<times> 'e list \<times> 's" where
  "run_queue enq deq oth [] s = ([], [], s)"
| "run_queue enq deq oth (Enqueue e # ops) s =
     (case enq e s of
        None \<Rightarrow> run_queue enq deq oth ops s
      | Some s1 \<Rightarrow> (case run_queue enq deq oth ops s1 of (acc, out, t) \<Rightarrow> (e # acc, out, t)))"
| "run_queue enq deq oth (Dequeue # ops) s =
     (case deq s of
        None \<Rightarrow> run_queue enq deq oth ops s
      | Some (e, s1) \<Rightarrow> (case run_queue enq deq oth ops s1 of (acc, out, t) \<Rightarrow> (acc, e # out, t)))"
| "run_queue enq deq oth (Other x # ops) s =
     (case oth x s of
        None \<Rightarrow> run_queue enq deq oth ops s
      | Some s1 \<Rightarrow> run_queue enq deq oth ops s1)"

locale fifo_queue =
  fixes wf :: "'s \<Rightarrow> bool"
    and contents :: "'s \<Rightarrow> 'e list"
    and enq :: "'e \<Rightarrow> 's \<Rightarrow> 's option"
    and deq :: "'s \<Rightarrow> ('e \<times> 's) option"
    and oth :: "'o \<Rightarrow> 's \<Rightarrow> 's option"
  assumes enq_wf: "wf s \<Longrightarrow> enq e s = Some t \<Longrightarrow> wf t"
    and enq_contents: "wf s \<Longrightarrow> enq e s = Some t \<Longrightarrow> contents t = contents s @ [e]"
    and deq_wf: "wf s \<Longrightarrow> deq s = Some (e, t) \<Longrightarrow> wf t"
    and deq_contents: "wf s \<Longrightarrow> deq s = Some (e, t) \<Longrightarrow> contents s = e # contents t"
    and oth_wf: "wf s \<Longrightarrow> oth x s = Some t \<Longrightarrow> wf t"
    and oth_contents: "wf s \<Longrightarrow> oth x s = Some t \<Longrightarrow> contents t = contents s"
begin

text \<open>Whatever happens in between, elements leave in exactly the order they were accepted.\<close>

lemma run_fifo:
  "wf s \<Longrightarrow> run_queue enq deq oth ops s = (acc, out, t) \<Longrightarrow>
   wf t \<and> contents s @ acc = out @ contents t"
proof (induction ops arbitrary: s acc out)
  case Nil
  then show ?case by simp
next
  case (Cons op ops)
  show ?case
  proof (cases op)
    case (Enqueue e)
    show ?thesis
    proof (cases "enq e s")
      case None
      with Cons Enqueue show ?thesis by simp
    next
      case (Some s1)
      with Cons.prems Enqueue obtain acc' where
        r: "run_queue enq deq oth ops s1 = (acc', out, t)" and a: "acc = e # acc'"
        by (auto split: prod.splits)
      from Cons.IH [OF enq_wf [OF Cons.prems(1) Some] r] a
      show ?thesis by (simp add: enq_contents [OF Cons.prems(1) Some])
    qed
  next
    case Dequeue
    show ?thesis
    proof (cases "deq s")
      case None
      with Cons Dequeue show ?thesis by simp
    next
      case (Some es)
      then obtain e s1 where d: "deq s = Some (e, s1)" by (cases es) auto
      with Cons.prems Dequeue obtain out' where
        r: "run_queue enq deq oth ops s1 = (acc, out', t)" and o: "out = e # out'"
        by (auto split: prod.splits)
      from Cons.IH [OF deq_wf [OF Cons.prems(1) d] r] o
      show ?thesis by (simp add: deq_contents [OF Cons.prems(1) d])
    qed
  next
    case (Other x)
    show ?thesis
    proof (cases "oth x s")
      case None
      with Cons Other show ?thesis by simp
    next
      case (Some s1)
      with Cons.prems Other have "run_queue enq deq oth ops s1 = (acc, out, t)" by simp
      from Cons.IH [OF oth_wf [OF Cons.prems(1) Some] this]
      show ?thesis by (simp add: oth_contents [OF Cons.prems(1) Some])
    qed
  qed
qed

end

section \<open>State machines\<close>

locale guarded_system =
  fixes start :: "'s \<Rightarrow> bool"
    and step :: "'s \<Rightarrow> 's \<Rightarrow> bool"
    and inv :: "'s \<Rightarrow> bool"
  assumes inv_start: "start s \<Longrightarrow> inv s"
    and inv_step: "inv s \<Longrightarrow> step s t \<Longrightarrow> inv t"
begin

lemma inv_steps: "step\<^sup>*\<^sup>* s t \<Longrightarrow> inv s \<Longrightarrow> inv t"
  by (induction rule: rtranclp_induct) (auto intro: inv_step)

lemma inv_reachable: "start s \<Longrightarrow> step\<^sup>*\<^sup>* s t \<Longrightarrow> inv t"
  by (blast intro: inv_start inv_steps)

end

locale ranked_system =
  fixes step :: "'s \<Rightarrow> 's \<Rightarrow> bool"
    and rank :: "'s \<Rightarrow> nat"
  assumes rank_step: "step s t \<Longrightarrow> rank s \<le> rank t"
begin

lemma rank_steps: "step\<^sup>*\<^sup>* s t \<Longrightarrow> rank s \<le> rank t"
  by (induction rule: rtranclp_induct) (auto dest: rank_step)

lemma rank_no_return: "step\<^sup>*\<^sup>* s t \<Longrightarrow> rank s < rank t \<Longrightarrow> \<not> step\<^sup>*\<^sup>* t s"
  using rank_steps by fastforce

end

text \<open>
  A machine every effective step of which spends at least one unit of a budget: it can make only so
  many steps, and from every state it can reach one where it has nothing left to do.
\<close>

locale exhausting_system =
  fixes step :: "'s \<Rightarrow> 's \<Rightarrow> bool"
    and inv :: "'s \<Rightarrow> bool"
    and budget :: "'s \<Rightarrow> nat"
  assumes spend_inv: "inv s \<Longrightarrow> step s t \<Longrightarrow> inv t"
    and spend: "inv s \<Longrightarrow> step s t \<Longrightarrow> budget t < budget s"
begin

lemma spend_steps: "(step ^^ n) s t \<Longrightarrow> inv s \<Longrightarrow> inv t \<and> n + budget t \<le> budget s"
proof (induction n arbitrary: t)
  case (Suc n)
  then obtain u where "(step ^^ n) s u" "step u t" by (auto elim: relpowp_Suc_E)
  with Suc.IH [of u] Suc.prems(2) show ?case using spend_inv [of u t] spend [of u t] by auto
qed simp

lemma spend_less: "step\<^sup>+\<^sup>+ s t \<Longrightarrow> inv s \<Longrightarrow> inv t \<and> budget t < budget s"
  by (induction rule: tranclp_induct) (auto dest: spend_inv spend intro: less_trans)

lemma settles: "inv s \<Longrightarrow> \<exists>t. step\<^sup>*\<^sup>* s t \<and> (\<nexists>u. step t u)"
proof (induction "budget s" arbitrary: s rule: less_induct)
  case less
  show ?case
  proof (cases "\<exists>u. step s u")
    case True
    then obtain u where u: "step s u" by blast
    from less.hyps [OF spend [OF less.prems u] spend_inv [OF less.prems u]] u show ?thesis
      by (meson converse_rtranclp_into_rtranclp)
  qed blast
qed

end

end
