(* ===== verification/Scheduler.thy ===== *)
theory Scheduler
  imports Interfaces
begin

text \<open>
  The fence scheduler of \<^verbatim>\<open>drivers/apple-agx/shared/src/apple_agx_scheduler.c\<close>: the
  bounded queue of submitted fences, the one active fence, boundary preemption and engine reset.
  A pointer to the scheduler is the record it points to (the callers pass a valid one); an
  operation that can refuse returns \<open>None\<close> where the code returns \<open>APPLE_AGX_FALSE\<close>, which it
  does before its first store, and \<open>Some\<close> of the updated record where it returns
  \<open>APPLE_AGX_TRUE\<close>.  Fences and indices are 32-bit words, the two 64-entry arrays are lists.
\<close>

section \<open>State\<close>

datatype APPLE_AGX_PREEMPTION_PHASE =
  AppleAgxPreemptionIdle
| AppleAgxPreemptionWaitCurrentBoundary
| AppleAgxPreemptionReadyToNotify
| AppleAgxPreemptionNotificationClaimed

record APPLE_AGX_SCHEDULER_CONTEXT =
  ctx_NodeOrdinal :: u32
  ctx_EngineAffinity :: u32
  ctx_Active :: bool

record APPLE_AGX_PREEMPTION =
  pre_PreemptionFence :: u32
  pre_LastCompletedFence :: u32

record APPLE_AGX_SCHEDULER =
  sch_CompletedFence :: u32
  sch_LastSubmittedFence :: u32
  sch_QueuedFence :: u32
  sch_QueueHead :: u32
  sch_QueueCount :: u32
  sch_FenceQueue :: "u32 list"
  sch_PreemptedFenceQueue :: "u32 list"
  sch_PreemptedFenceCount :: u32
  sch_ActiveFence :: u32
  sch_PendingPreemptionFence :: u32
  sch_PreemptionCutoffFence :: u32
  sch_PreemptionActiveFence :: u32
  sch_PreemptionLastCompletedFence :: u32
  sch_ContextCount :: u32
  sch_PreemptionPending :: bool
  sch_Responsive :: bool
  sch_PreemptionPhase :: APPLE_AGX_PREEMPTION_PHASE

abbreviation APPLE_AGX_SCHEDULER_QUEUE_CAPACITY :: u32 where
  "APPLE_AGX_SCHEDULER_QUEUE_CAPACITY \<equiv> 64"

section \<open>Operations\<close>

definition AppleAgxSchedulerFenceAfter :: "u32 \<Rightarrow> u32 \<Rightarrow> bool" where
  "AppleAgxSchedulerFenceAfter candidate reference =
     (let distance = candidate - reference
      in distance \<noteq> 0 \<and> distance < 0x80000000)"

definition AppleAgxSchedulerFenceAtOrAfter :: "u32 \<Rightarrow> u32 \<Rightarrow> bool" where
  "AppleAgxSchedulerFenceAtOrAfter candidate reference \<longleftrightarrow>
     candidate = reference \<or> AppleAgxSchedulerFenceAfter candidate reference"

text \<open>Initialize writes every field but the preempted array, which keeps what memory held.\<close>

definition AppleAgxSchedulerInitialize :: "APPLE_AGX_SCHEDULER \<Rightarrow> APPLE_AGX_SCHEDULER" where
  "AppleAgxSchedulerInitialize s =
     s\<lparr> sch_CompletedFence := 0, sch_LastSubmittedFence := 0, sch_QueuedFence := 0,
        sch_QueueHead := 0, sch_QueueCount := 0, sch_PreemptedFenceCount := 0,
        sch_FenceQueue := replicate 64 0,
        sch_ActiveFence := 0, sch_PendingPreemptionFence := 0,
        sch_PreemptionCutoffFence := 0, sch_PreemptionActiveFence := 0,
        sch_PreemptionLastCompletedFence := 0, sch_ContextCount := 0,
        sch_PreemptionPending := False, sch_Responsive := True,
        sch_PreemptionPhase := AppleAgxPreemptionIdle \<rparr>"

definition AppleAgxSchedulerContextInitialize ::
  "APPLE_AGX_SCHEDULER_CONTEXT \<Rightarrow> APPLE_AGX_SCHEDULER_CONTEXT" where
  "AppleAgxSchedulerContextInitialize c =
     c\<lparr> ctx_NodeOrdinal := 0, ctx_EngineAffinity := 0, ctx_Active := False \<rparr>"

definition AppleAgxSchedulerValidateEngine :: "APPLE_AGX_SCHEDULER \<Rightarrow> u32 \<Rightarrow> u32 \<Rightarrow> bool" where
  "AppleAgxSchedulerValidateEngine s nodeOrdinal engineOrdinal \<longleftrightarrow>
     \<not> (nodeOrdinal \<ge> 1 \<or> engineOrdinal \<ge> 1)"

definition AppleAgxSchedulerEngineResponsive :: "APPLE_AGX_SCHEDULER \<Rightarrow> u32 \<Rightarrow> u32 \<Rightarrow> bool" where
  "AppleAgxSchedulerEngineResponsive s nodeOrdinal engineOrdinal =
     (if \<not> AppleAgxSchedulerValidateEngine s nodeOrdinal engineOrdinal then False
      else sch_Responsive s)"

definition AppleAgxSchedulerCreateContext ::
  "APPLE_AGX_SCHEDULER \<Rightarrow> APPLE_AGX_SCHEDULER_CONTEXT \<Rightarrow> u32 \<Rightarrow> u32
   \<Rightarrow> (APPLE_AGX_SCHEDULER \<times> APPLE_AGX_SCHEDULER_CONTEXT) option" where
  "AppleAgxSchedulerCreateContext s c nodeOrdinal engineAffinity =
     (if ctx_Active c \<or> nodeOrdinal \<noteq> 0 \<or> engineAffinity \<noteq> 1 then None
      else Some (s\<lparr> sch_ContextCount := sch_ContextCount s + 1 \<rparr>,
                 c\<lparr> ctx_NodeOrdinal := nodeOrdinal, ctx_EngineAffinity := engineAffinity,
                    ctx_Active := True \<rparr>))"

definition AppleAgxSchedulerDestroyContext ::
  "APPLE_AGX_SCHEDULER \<Rightarrow> APPLE_AGX_SCHEDULER_CONTEXT
   \<Rightarrow> (APPLE_AGX_SCHEDULER \<times> APPLE_AGX_SCHEDULER_CONTEXT) option" where
  "AppleAgxSchedulerDestroyContext s c =
     (if \<not> ctx_Active c \<or> sch_ContextCount s = 0 then None
      else Some (s\<lparr> sch_ContextCount := sch_ContextCount s - 1 \<rparr>,
                 c\<lparr> ctx_NodeOrdinal := 0, ctx_EngineAffinity := 0, ctx_Active := False \<rparr>))"

definition AppleAgxSchedulerCanCompleteFence ::
  "APPLE_AGX_SCHEDULER \<Rightarrow> u32 \<Rightarrow> u32 \<Rightarrow> u32 \<Rightarrow> bool" where
  "AppleAgxSchedulerCanCompleteFence s nodeOrdinal engineOrdinal fence =
     (if \<not> AppleAgxSchedulerValidateEngine s nodeOrdinal engineOrdinal \<or> fence = 0 then False
      else if sch_PreemptionPhase s = AppleAgxPreemptionWaitCurrentBoundary \<and>
              fence \<noteq> sch_PreemptionActiveFence s then False
      else let distance = fence - sch_CompletedFence s
           in distance \<noteq> 0 \<and> distance < 0x80000000)"

definition AppleAgxSchedulerCompleteFence ::
  "APPLE_AGX_SCHEDULER \<Rightarrow> u32 \<Rightarrow> u32 \<Rightarrow> u32 \<Rightarrow> APPLE_AGX_SCHEDULER option" where
  "AppleAgxSchedulerCompleteFence s nodeOrdinal engineOrdinal fence =
     (if \<not> AppleAgxSchedulerCanCompleteFence s nodeOrdinal engineOrdinal fence then None
      else Some (s\<lparr> sch_CompletedFence := fence \<rparr>))"

definition AppleAgxSchedulerCurrentFence :: "APPLE_AGX_SCHEDULER \<Rightarrow> u32 \<Rightarrow> u32 \<Rightarrow> u32" where
  "AppleAgxSchedulerCurrentFence s nodeOrdinal engineOrdinal =
     (if \<not> AppleAgxSchedulerValidateEngine s nodeOrdinal engineOrdinal then 0
      else sch_CompletedFence s)"

definition AppleAgxSchedulerDispatchBlocked :: "APPLE_AGX_SCHEDULER \<Rightarrow> bool" where
  "AppleAgxSchedulerDispatchBlocked s \<longleftrightarrow> sch_PreemptionPhase s \<noteq> AppleAgxPreemptionIdle"

definition AppleAgxSchedulerAdmissionBlocked :: "APPLE_AGX_SCHEDULER \<Rightarrow> bool" where
  "AppleAgxSchedulerAdmissionBlocked s \<longleftrightarrow>
     sch_PreemptionPhase s \<noteq> AppleAgxPreemptionIdle \<and>
     sch_PreemptionPhase s \<noteq> AppleAgxPreemptionNotificationClaimed"

text \<open>The store both queueing operations end with: the tail slot, then \<open>QueuedFence\<close> when the
  queue was empty, then the count.\<close>

definition sched_enqueue :: "APPLE_AGX_SCHEDULER \<Rightarrow> u32 \<Rightarrow> APPLE_AGX_SCHEDULER" where
  "sched_enqueue s fence =
     s\<lparr> sch_FenceQueue := (sch_FenceQueue s)
          [unat ((sch_QueueHead s + sch_QueueCount s) mod APPLE_AGX_SCHEDULER_QUEUE_CAPACITY)
             := fence],
        sch_QueuedFence := (if sch_QueueCount s = 0 then fence else sch_QueuedFence s),
        sch_QueueCount := sch_QueueCount s + 1 \<rparr>"

definition AppleAgxSchedulerQueueFence ::
  "APPLE_AGX_SCHEDULER \<Rightarrow> u32 \<Rightarrow> u32 \<Rightarrow> u32 \<Rightarrow> APPLE_AGX_SCHEDULER option" where
  "AppleAgxSchedulerQueueFence s nodeOrdinal engineOrdinal fence =
     (if \<not> AppleAgxSchedulerValidateEngine s nodeOrdinal engineOrdinal \<or> fence = 0 \<or>
         sch_QueueCount s \<ge> APPLE_AGX_SCHEDULER_QUEUE_CAPACITY \<or>
         AppleAgxSchedulerAdmissionBlocked s \<or>
         \<not> AppleAgxSchedulerFenceAfter fence (sch_LastSubmittedFence s)
      then None
      else Some ((sched_enqueue s fence)\<lparr> sch_LastSubmittedFence := fence \<rparr>))"

text \<open>The two loops over the preempted fences: the search for the fence and the left shift
  that closes the gap.\<close>

function preempted_find :: "u32 list \<Rightarrow> u32 \<Rightarrow> nat \<Rightarrow> nat \<Rightarrow> nat" where
  "preempted_find q fence count index =
     (if index < count \<and> q ! index \<noteq> fence then preempted_find q fence count (Suc index)
      else index)"
  by pat_completeness auto
termination
  by (relation "measure (\<lambda>(q, fence, count, index). count - index)") auto

function preempted_shift :: "u32 list \<Rightarrow> nat \<Rightarrow> nat \<Rightarrow> u32 list" where
  "preempted_shift q count index =
     (if index + 1 < count then preempted_shift (q[index := q ! (index + 1)]) count (Suc index)
      else q)"
  by pat_completeness auto
termination
  by (relation "measure (\<lambda>(q, count, index). count - index)") auto

declare preempted_find.simps [simp del] preempted_shift.simps [simp del]

definition AppleAgxSchedulerQueueResubmittedPagingFence ::
  "APPLE_AGX_SCHEDULER \<Rightarrow> u32 \<Rightarrow> u32 \<Rightarrow> u32 \<Rightarrow> APPLE_AGX_SCHEDULER option" where
  "AppleAgxSchedulerQueueResubmittedPagingFence s nodeOrdinal engineOrdinal fence =
     (if \<not> AppleAgxSchedulerValidateEngine s nodeOrdinal engineOrdinal \<or> fence = 0 \<or>
         sch_QueueCount s \<ge> APPLE_AGX_SCHEDULER_QUEUE_CAPACITY \<or>
         AppleAgxSchedulerAdmissionBlocked s \<or>
         \<not> AppleAgxSchedulerFenceAfter fence (sch_CompletedFence s) \<or>
         (sch_ActiveFence s \<noteq> 0 \<and> \<not> AppleAgxSchedulerFenceAfter fence (sch_ActiveFence s))
      then None
      else if sch_QueueCount s \<noteq> 0 \<and>
              \<not> AppleAgxSchedulerFenceAfter fence
                  (sch_FenceQueue s ! unat ((sch_QueueHead s + sch_QueueCount s - 1)
                     mod APPLE_AGX_SCHEDULER_QUEUE_CAPACITY))
      then None
      else let count = unat (sch_PreemptedFenceCount s);
               index = preempted_find (sch_PreemptedFenceQueue s) fence count 0
           in if index = count then None
              else Some (sched_enqueue
                     (s\<lparr> sch_PreemptedFenceQueue :=
                           preempted_shift (sch_PreemptedFenceQueue s) count index,
                         sch_PreemptedFenceCount := sch_PreemptedFenceCount s - 1 \<rparr>) fence))"

definition AppleAgxSchedulerActivateFence ::
  "APPLE_AGX_SCHEDULER \<Rightarrow> u32 \<Rightarrow> u32 \<Rightarrow> u32 \<Rightarrow> APPLE_AGX_SCHEDULER option" where
  "AppleAgxSchedulerActivateFence s nodeOrdinal engineOrdinal fence =
     (if \<not> AppleAgxSchedulerValidateEngine s nodeOrdinal engineOrdinal \<or> fence = 0 \<or>
         sch_QueueCount s = 0 \<or> sch_QueuedFence s \<noteq> fence \<or> sch_ActiveFence s \<noteq> 0 \<or>
         AppleAgxSchedulerDispatchBlocked s
      then None
      else let head = (sch_QueueHead s + 1) mod APPLE_AGX_SCHEDULER_QUEUE_CAPACITY;
               count = sch_QueueCount s - 1
           in Some (s\<lparr> sch_QueueHead := head, sch_QueueCount := count,
                       sch_QueuedFence :=
                         (if count \<noteq> 0 then sch_FenceQueue s ! unat head else 0),
                       sch_ActiveFence := fence \<rparr>))"

definition AppleAgxSchedulerCompleteActiveFence ::
  "APPLE_AGX_SCHEDULER \<Rightarrow> u32 \<Rightarrow> u32 \<Rightarrow> u32 \<Rightarrow> APPLE_AGX_SCHEDULER option" where
  "AppleAgxSchedulerCompleteActiveFence s nodeOrdinal engineOrdinal fence =
     (if \<not> AppleAgxSchedulerValidateEngine s nodeOrdinal engineOrdinal \<or> fence = 0 \<or>
         sch_ActiveFence s \<noteq> fence
      then None
      else case AppleAgxSchedulerCompleteFence s nodeOrdinal engineOrdinal fence of
             None \<Rightarrow> None
           | Some t \<Rightarrow> Some (t\<lparr> sch_ActiveFence := 0 \<rparr>))"

definition AppleAgxSchedulerLastSubmittedFence :: "APPLE_AGX_SCHEDULER \<Rightarrow> u32 \<Rightarrow> u32 \<Rightarrow> u32" where
  "AppleAgxSchedulerLastSubmittedFence s nodeOrdinal engineOrdinal =
     (if \<not> AppleAgxSchedulerValidateEngine s nodeOrdinal engineOrdinal then 0
      else sch_LastSubmittedFence s)"

definition AppleAgxSchedulerQueuedFence :: "APPLE_AGX_SCHEDULER \<Rightarrow> u32 \<Rightarrow> u32 \<Rightarrow> u32" where
  "AppleAgxSchedulerQueuedFence s nodeOrdinal engineOrdinal =
     (if \<not> AppleAgxSchedulerValidateEngine s nodeOrdinal engineOrdinal then 0
      else sch_QueuedFence s)"

definition AppleAgxSchedulerActiveFence :: "APPLE_AGX_SCHEDULER \<Rightarrow> u32 \<Rightarrow> u32 \<Rightarrow> u32" where
  "AppleAgxSchedulerActiveFence s nodeOrdinal engineOrdinal =
     (if \<not> AppleAgxSchedulerValidateEngine s nodeOrdinal engineOrdinal then 0
      else sch_ActiveFence s)"

definition AppleAgxSchedulerHasOutstandingFence :: "APPLE_AGX_SCHEDULER \<Rightarrow> u32 \<Rightarrow> u32 \<Rightarrow> bool" where
  "AppleAgxSchedulerHasOutstandingFence s nodeOrdinal engineOrdinal =
     (if \<not> AppleAgxSchedulerValidateEngine s nodeOrdinal engineOrdinal then False
      else sch_QueuedFence s \<noteq> 0 \<or> sch_ActiveFence s \<noteq> 0)"

text \<open>The copy of the queued fences, in queue order, to the front of the preempted array.\<close>

function preempted_copy :: "u32 list \<Rightarrow> u32 list \<Rightarrow> u32 \<Rightarrow> nat \<Rightarrow> nat \<Rightarrow> u32 list" where
  "preempted_copy dst src head count index =
     (if index < count
      then preempted_copy
             (dst[index := src ! unat ((head + of_nat index)
                                         mod APPLE_AGX_SCHEDULER_QUEUE_CAPACITY)])
             src head count (Suc index)
      else dst)"
  by pat_completeness auto
termination
  by (relation "measure (\<lambda>(dst, src, head, count, index). count - index)") auto

declare preempted_copy.simps [simp del]

definition AppleAgxSchedulerBeginBoundaryPreemption ::
  "APPLE_AGX_SCHEDULER \<Rightarrow> u32 \<Rightarrow> u32 \<Rightarrow> u32 \<Rightarrow> u32 \<Rightarrow> u32 \<Rightarrow> APPLE_AGX_SCHEDULER option" where
  "AppleAgxSchedulerBeginBoundaryPreemption s nodeOrdinal engineOrdinal preemptionFence
       cutoffFence activeFence =
     (if \<not> AppleAgxSchedulerValidateEngine s nodeOrdinal engineOrdinal \<or>
         preemptionFence = 0 \<or>
         sch_PreemptionPhase s \<noteq> AppleAgxPreemptionIdle \<or>
         cutoffFence \<noteq> sch_LastSubmittedFence s \<or>
         activeFence \<noteq> sch_ActiveFence s \<or>
         \<not> AppleAgxSchedulerFenceAtOrAfter cutoffFence (sch_CompletedFence s) \<or>
         (activeFence \<noteq> 0 \<and>
          (\<not> AppleAgxSchedulerFenceAfter activeFence (sch_CompletedFence s) \<or>
           \<not> AppleAgxSchedulerFenceAtOrAfter cutoffFence activeFence))
      then None
      else Some (s\<lparr> sch_PreemptedFenceCount := sch_QueueCount s,
                    sch_PreemptedFenceQueue :=
                      preempted_copy (sch_PreemptedFenceQueue s) (sch_FenceQueue s)
                        (sch_QueueHead s) (unat (sch_QueueCount s)) 0,
                    sch_QueuedFence := 0, sch_QueueHead := 0, sch_QueueCount := 0,
                    sch_PendingPreemptionFence := preemptionFence,
                    sch_PreemptionCutoffFence := cutoffFence,
                    sch_PreemptionActiveFence := activeFence,
                    sch_PreemptionLastCompletedFence := sch_CompletedFence s,
                    sch_PreemptionPending := True,
                    sch_PreemptionPhase :=
                      (if activeFence = 0 then AppleAgxPreemptionReadyToNotify
                       else AppleAgxPreemptionWaitCurrentBoundary) \<rparr>))"

definition AppleAgxSchedulerPreemptionPhase ::
  "APPLE_AGX_SCHEDULER \<Rightarrow> APPLE_AGX_PREEMPTION_PHASE" where
  "AppleAgxSchedulerPreemptionPhase s = sch_PreemptionPhase s"

definition AppleAgxSchedulerPreemptionCutoffFence :: "APPLE_AGX_SCHEDULER \<Rightarrow> u32" where
  "AppleAgxSchedulerPreemptionCutoffFence s = sch_PreemptionCutoffFence s"

definition AppleAgxSchedulerObserveBoundaryCompletion ::
  "APPLE_AGX_SCHEDULER \<Rightarrow> u32 \<Rightarrow> u32 \<Rightarrow> u32 \<Rightarrow> APPLE_AGX_SCHEDULER option" where
  "AppleAgxSchedulerObserveBoundaryCompletion s nodeOrdinal engineOrdinal completedFence =
     (if \<not> AppleAgxSchedulerValidateEngine s nodeOrdinal engineOrdinal \<or>
         sch_PreemptionPhase s \<noteq> AppleAgxPreemptionWaitCurrentBoundary \<or>
         completedFence = 0 \<or>
         sch_PreemptionActiveFence s \<noteq> completedFence \<or>
         sch_CompletedFence s \<noteq> completedFence
      then None
      else Some (s\<lparr> sch_PreemptionActiveFence := 0,
                    sch_PreemptionLastCompletedFence := completedFence,
                    sch_PreemptionPhase := AppleAgxPreemptionReadyToNotify \<rparr>))"

definition AppleAgxSchedulerClaimBoundaryPreemption ::
  "APPLE_AGX_SCHEDULER \<Rightarrow> (APPLE_AGX_SCHEDULER \<times> APPLE_AGX_PREEMPTION) option" where
  "AppleAgxSchedulerClaimBoundaryPreemption s =
     (if sch_PreemptionPhase s \<noteq> AppleAgxPreemptionReadyToNotify then None
      else Some (s\<lparr> sch_PreemptionPhase := AppleAgxPreemptionNotificationClaimed \<rparr>,
                 \<lparr> pre_PreemptionFence = sch_PendingPreemptionFence s,
                   pre_LastCompletedFence = sch_PreemptionLastCompletedFence s \<rparr>))"

definition AppleAgxSchedulerCommitBoundaryPreemption ::
  "APPLE_AGX_SCHEDULER \<Rightarrow> u32 \<Rightarrow> APPLE_AGX_SCHEDULER option" where
  "AppleAgxSchedulerCommitBoundaryPreemption s preemptionFence =
     (if sch_PreemptionPhase s \<noteq> AppleAgxPreemptionNotificationClaimed \<or>
         sch_PendingPreemptionFence s \<noteq> preemptionFence
      then None
      else Some (s\<lparr> sch_PendingPreemptionFence := 0, sch_PreemptionCutoffFence := 0,
                    sch_PreemptionActiveFence := 0, sch_PreemptionLastCompletedFence := 0,
                    sch_PreemptionPending := False,
                    sch_PreemptionPhase := AppleAgxPreemptionIdle \<rparr>))"

text \<open>\<open>BeginPreemption\<close> may begin and then fail to claim, so it returns the flag and the state
  separately.\<close>

definition AppleAgxSchedulerBeginPreemption ::
  "APPLE_AGX_SCHEDULER \<Rightarrow> u32 \<Rightarrow> u32 \<Rightarrow> u32
   \<Rightarrow> APPLE_AGX_SCHEDULER \<times> APPLE_AGX_PREEMPTION option" where
  "AppleAgxSchedulerBeginPreemption s nodeOrdinal engineOrdinal preemptionFence =
     (case AppleAgxSchedulerBeginBoundaryPreemption s nodeOrdinal engineOrdinal preemptionFence
             (sch_CompletedFence s) 0 of
        None \<Rightarrow> (s, None)
      | Some t \<Rightarrow> (case AppleAgxSchedulerClaimBoundaryPreemption t of
                     None \<Rightarrow> (t, None)
                   | Some (u, preemption) \<Rightarrow> (u, Some preemption)))"

definition AppleAgxSchedulerAcknowledgePreemption ::
  "APPLE_AGX_SCHEDULER \<Rightarrow> u32 \<Rightarrow> APPLE_AGX_SCHEDULER option" where
  "AppleAgxSchedulerAcknowledgePreemption s preemptionFence =
     AppleAgxSchedulerCommitBoundaryPreemption s preemptionFence"

definition AppleAgxSchedulerAbortPreemption ::
  "APPLE_AGX_SCHEDULER \<Rightarrow> u32 \<Rightarrow> APPLE_AGX_SCHEDULER option" where
  "AppleAgxSchedulerAbortPreemption s preemptionFence =
     (if \<not> sch_PreemptionPending s \<or>
         sch_PendingPreemptionFence s \<noteq> preemptionFence \<or>
         sch_PreemptionPhase s = AppleAgxPreemptionNotificationClaimed
      then None
      else Some (s\<lparr> sch_PendingPreemptionFence := 0, sch_PreemptionCutoffFence := 0,
                    sch_PreemptionActiveFence := 0, sch_PreemptionLastCompletedFence := 0,
                    sch_PreemptedFenceCount := 0,
                    sch_PreemptionPending := False,
                    sch_PreemptionPhase := AppleAgxPreemptionIdle \<rparr>))"

text \<open>The three loops of the engine reset: keep the preempted fences that still follow the last
  kept one, move them up behind the room for the discarded queue, and copy the queue in front.\<close>

function reset_keep :: "u32 list \<Rightarrow> u32 \<Rightarrow> nat \<Rightarrow> nat \<Rightarrow> nat \<Rightarrow> nat \<Rightarrow> u32 list \<times> nat" where
  "reset_keep q after count room index kept =
     (if index < count \<and> kept < room
      then if AppleAgxSchedulerFenceAfter (q ! index) after
           then reset_keep (q[kept := q ! index]) (q ! index) count room (Suc index) (Suc kept)
           else reset_keep q after count room (Suc index) kept
      else (q, kept))"
  by pat_completeness auto
termination
  by (relation "measure (\<lambda>(q, after, count, room, index, kept). count - index)") auto

declare reset_keep.simps [simp del]

fun reset_move :: "u32 list \<Rightarrow> nat \<Rightarrow> nat \<Rightarrow> u32 list" where
  "reset_move q queued 0 = q"
| "reset_move q queued (Suc index) =
     reset_move (q[index + queued := q ! index]) queued index"

definition AppleAgxSchedulerResetEngine ::
  "APPLE_AGX_SCHEDULER \<Rightarrow> u32 \<Rightarrow> u32 \<Rightarrow> (APPLE_AGX_SCHEDULER \<times> u32) option" where
  "AppleAgxSchedulerResetEngine s nodeOrdinal engineOrdinal =
     (if \<not> AppleAgxSchedulerValidateEngine s nodeOrdinal engineOrdinal then None
      else
        let lastAborted = (if sch_ActiveFence s \<noteq> 0 then sch_ActiveFence s
                           else sch_CompletedFence s);
            after = (if sch_QueueCount s \<noteq> 0
                     then sch_FenceQueue s ! unat ((sch_QueueHead s + sch_QueueCount s - 1)
                            mod APPLE_AGX_SCHEDULER_QUEUE_CAPACITY)
                     else lastAborted);
            queued = unat (sch_QueueCount s);
            (q1, kept) = reset_keep (sch_PreemptedFenceQueue s) after
                           (unat (sch_PreemptedFenceCount s))
                           (unat (APPLE_AGX_SCHEDULER_QUEUE_CAPACITY - sch_QueueCount s)) 0 0;
            q2 = reset_move q1 queued kept;
            q3 = preempted_copy q2 (sch_FenceQueue s) (sch_QueueHead s) queued 0
        in Some (s\<lparr> sch_PreemptedFenceQueue := q3,
                    sch_PreemptedFenceCount := sch_QueueCount s + of_nat kept,
                    sch_QueuedFence := 0, sch_QueueHead := 0, sch_QueueCount := 0,
                    sch_ActiveFence := 0,
                    sch_PendingPreemptionFence := 0, sch_PreemptionCutoffFence := 0,
                    sch_PreemptionActiveFence := 0, sch_PreemptionLastCompletedFence := 0,
                    sch_PreemptionPending := False,
                    sch_PreemptionPhase := AppleAgxPreemptionIdle,
                    sch_Responsive := True \<rparr>, lastAborted))"


section \<open>The fence order\<close>

interpretation sched_order: serial_order AppleAgxSchedulerFenceAfter
  by unfold_locales
     (simp add: AppleAgxSchedulerFenceAfter_def Let_def unat_gt_0 word_less_nat_alt)

section \<open>Contents and well-formedness\<close>

definition sched_fifo :: "APPLE_AGX_SCHEDULER \<Rightarrow> u32 list" where
  "sched_fifo s = ring_list (sch_FenceQueue s) (unat (sch_QueueHead s)) (unat (sch_QueueCount s))"

definition sched_preempted :: "APPLE_AGX_SCHEDULER \<Rightarrow> u32 list" where
  "sched_preempted s = take (unat (sch_PreemptedFenceCount s)) (sch_PreemptedFenceQueue s)"

text \<open>The array part of the invariant, and how the preemption fields agree with the phase.\<close>

definition sched_arrays :: "APPLE_AGX_SCHEDULER \<Rightarrow> bool" where
  "sched_arrays s \<longleftrightarrow>
     length (sch_FenceQueue s) = 64 \<and> length (sch_PreemptedFenceQueue s) = 64 \<and>
     unat (sch_QueueHead s) < 64 \<and> unat (sch_QueueCount s) \<le> 64 \<and>
     unat (sch_PreemptedFenceCount s) \<le> 64 \<and>
     0 \<notin> set (sched_fifo s) \<and>
     sch_QueuedFence s = (if sch_QueueCount s = 0 then 0 else hd (sched_fifo s))"

definition sched_phase_ok :: "APPLE_AGX_SCHEDULER \<Rightarrow> bool" where
  "sched_phase_ok s \<longleftrightarrow>
     (sch_PreemptionPending s \<longleftrightarrow> sch_PreemptionPhase s \<noteq> AppleAgxPreemptionIdle) \<and>
     (sch_PendingPreemptionFence s = 0 \<longleftrightarrow> sch_PreemptionPhase s = AppleAgxPreemptionIdle) \<and>
     (sch_PreemptionActiveFence s \<noteq> 0 \<longleftrightarrow>
        sch_PreemptionPhase s = AppleAgxPreemptionWaitCurrentBoundary) \<and>
     (sch_PreemptionPhase s = AppleAgxPreemptionWaitCurrentBoundary \<longrightarrow>
        sch_QueueCount s = 0 \<and>
        (sch_ActiveFence s = 0 \<or> sch_ActiveFence s = sch_PreemptionActiveFence s)) \<and>
     (sch_PreemptionPhase s = AppleAgxPreemptionReadyToNotify \<longrightarrow> sch_QueueCount s = 0)"

definition sched_wf :: "APPLE_AGX_SCHEDULER \<Rightarrow> bool" where
  "sched_wf s \<longleftrightarrow> sched_arrays s \<and> sched_phase_ok s"

lemma sched_slot [word_nat]:
  fixes h c :: u32
  assumes "unat h < 64" and "unat c \<le> 64"
  shows "unat ((h + c) mod 64) = (unat h + unat c) mod 64"
  using assms by (simp add: unat_add_mod_no_wrap)

lemma sched_tail_slot [word_nat]:
  fixes h c :: u32
  assumes "unat h < 64" and "unat c \<le> 64" and "c \<noteq> 0"
  shows "unat ((h + c - 1) mod 64) = (unat h + unat c - 1) mod 64"
proof -
  have "unat (h + (c - 1)) = unat h + (unat c - 1)"
    using assms unat_add_no_wrap [of h "c - 1"] by (simp add: unat_minus_one)
  moreover have "0 < unat c" using assms(3) by (simp add: unat_gt_0)
  ultimately show ?thesis by (simp add: unat_mod add_diff_eq)
qed

lemma sched_fifo_enqueue:
  assumes "sched_arrays s" and "sch_QueueCount s < 64"
  shows "sched_fifo (sched_enqueue s f) = sched_fifo s @ [f]"
proof -
  from assms have b: "unat (sch_QueueHead s) < 64" "unat (sch_QueueCount s) < 64"
    and l: "length (sch_FenceQueue s) = 64"
    by (simp_all add: sched_arrays_def word_less_nat_alt)
  have c: "unat (sch_QueueCount s + 1) = Suc (unat (sch_QueueCount s))"
    using assms(2) unat_Suc_no_wrap [of "sch_QueueCount s" 64] by (simp add: word_less_nat_alt)
  show ?thesis
    using ring_list_push [of "unat (sch_QueueCount s)" "sch_FenceQueue s" "unat (sch_QueueHead s)" f]
    by (simp add: sched_fifo_def sched_enqueue_def c l b less_imp_le sched_slot)
qed

lemma sched_arrays_enqueue:
  assumes "sched_arrays s" and "sch_QueueCount s < 64" and "f \<noteq> 0"
  shows "sched_arrays (sched_enqueue s f)"
proof -
  have c: "unat (sch_QueueCount s + 1) = Suc (unat (sch_QueueCount s))"
    using assms(2) unat_Suc_no_wrap [of "sch_QueueCount s" 64] by (simp add: word_less_nat_alt)
  have n0: "sch_QueueCount s + 1 \<noteq> 0" using c by (metis nat.distinct(1) unat_0)
  have "length (sched_fifo s) = unat (sch_QueueCount s)" by (simp add: sched_fifo_def)
  then have "sched_fifo s = [] \<longleftrightarrow> sch_QueueCount s = 0" by (metis length_0_conv unat_0_iff)
  with assms c n0 show ?thesis
    unfolding sched_arrays_def sched_fifo_enqueue [OF assms(1,2)]
    by (auto simp: sched_enqueue_def word_less_nat_alt)
qed

lemma sched_fifo_activate:
  assumes "sched_arrays s" and "sch_QueueCount s \<noteq> 0"
  shows "sched_fifo s = hd (sched_fifo s)
           # ring_list (sch_FenceQueue s) (unat ((sch_QueueHead s + 1) mod 64))
               (unat (sch_QueueCount s - 1))"
proof -
  from assms have b: "unat (sch_QueueHead s) < 64" "0 < unat (sch_QueueCount s)"
    and l: "length (sch_FenceQueue s) = 64"
    by (simp_all add: sched_arrays_def unat_gt_0)
  have h: "unat ((sch_QueueHead s + 1) mod 64) = Suc (unat (sch_QueueHead s)) mod 64"
    using b by (simp add: unat_add_mod_no_wrap)
  have c: "unat (sch_QueueCount s - 1) = unat (sch_QueueCount s) - 1"
    using assms(2) by (simp add: unat_minus_one)
  show ?thesis
    using b by (simp add: sched_fifo_def ring_list_pop [OF b(2)] l h c)
qed


section \<open>Reference behaviour of the loops\<close>

lemma preempted_find_spec:
  "index \<le> count \<Longrightarrow>
   index \<le> preempted_find q f count index \<and> preempted_find q f count index \<le> count \<and>
   (\<forall>j. index \<le> j \<and> j < preempted_find q f count index \<longrightarrow> q ! j \<noteq> f) \<and>
   (preempted_find q f count index < count \<longrightarrow> q ! preempted_find q f count index = f)"
proof (induction q f count index rule: preempted_find.induct)
  case (1 q f count index)
  show ?case
  proof (cases "index < count \<and> q ! index \<noteq> f")
    case True
    with 1 show ?thesis
      by (subst (1 2 3 4 5) preempted_find.simps) (auto simp: Suc_le_eq nat_less_le)
  next
    case False
    with 1 show ?thesis by (subst (1 2 3 4 5) preempted_find.simps) auto
  qed
qed

lemma length_preempted_shift [simp]: "length (preempted_shift q count index) = length q"
  by (induction q count index rule: preempted_shift.induct)
     (simp add: preempted_shift.simps)

lemma take_preempted_shift:
  "index < count \<Longrightarrow> count \<le> length q \<Longrightarrow>
   take (count - 1) (preempted_shift q count index) = take index q @ drop (Suc index) (take count q)"
proof (induction q count index rule: preempted_shift.induct)
  case (1 q count index)
  show ?case
  proof (cases "index + 1 < count")
    case True
    let ?q = "q[index := q ! (index + 1)]"
    have "take (count - 1) (preempted_shift ?q count (Suc index))
        = take (Suc index) ?q @ drop (Suc (Suc index)) (take count ?q)"
      using 1 True by simp
    also have "take (Suc index) ?q = take index q @ [q ! Suc index]"
      using 1 True by (simp add: take_Suc_conv_app_nth)
    also have "drop (Suc (Suc index)) (take count ?q) = drop (Suc (Suc index)) (take count q)"
      by (simp add: take_update_swap drop_update_cancel)
    finally show ?thesis
      using True 1 by (subst preempted_shift.simps) (simp add: Cons_nth_drop_Suc [symmetric])
  next
    case False
    with 1 have "count = Suc index" by simp
    then show ?thesis by (subst preempted_shift.simps) simp
  qed
qed

lemma remove1_first:
  assumes "i < length xs" and "xs ! i = x" and "\<forall>j<i. xs ! j \<noteq> x"
  shows "remove1 x xs = take i xs @ drop (Suc i) xs"
proof -
  have "xs = take i xs @ x # drop (Suc i) xs"
    using assms(1,2) by (metis id_take_nth_drop)
  moreover have "x \<notin> set (take i xs)"
    using assms by (auto simp: in_set_conv_nth)
  ultimately show ?thesis
    by (metis remove1.simps(2) remove1_append)
qed

text \<open>The search and the shift together delete the first occurrence.\<close>

lemma preempted_delete:
  assumes "count \<le> length q" and "preempted_find q f count 0 \<noteq> count"
  shows "take (count - 1) (preempted_shift q count (preempted_find q f count 0))
           = remove1 f (take count q)"
    and "f \<in> set (take count q)"
proof -
  let ?i = "preempted_find q f count 0"
  have i: "?i < count" "q ! ?i = f" "\<forall>j<?i. q ! j \<noteq> f"
    using preempted_find_spec [of 0 count q f] assms(2) by auto
  have r: "remove1 f (take count q) = take ?i (take count q) @ drop (Suc ?i) (take count q)"
    using i assms(1) by (intro remove1_first) auto
  show "take (count - 1) (preempted_shift q count ?i) = remove1 f (take count q)"
    unfolding r take_preempted_shift [OF i(1) assms(1)] using i(1) by (simp add: min_def)
  have "take count q ! ?i \<in> set (take count q)"
    using i(1) assms(1) by (intro nth_mem) simp
  then show "f \<in> set (take count q)" using i(1,2) by simp
qed

lemma preempted_find_absent:
  assumes "f \<in> set (take count q)" and "count \<le> length q"
  shows "preempted_find q f count 0 \<noteq> count"
proof -
  from assms obtain j where "j < count" "q ! j = f"
    by (auto simp: in_set_conv_nth)
  then show ?thesis using preempted_find_spec [of 0 count q f] by (metis le0)
qed

lemma length_preempted_copy [simp]:
  "length (preempted_copy dst src head count index) = length dst"
  by (induction dst src head count index rule: preempted_copy.induct)
     (simp add: preempted_copy.simps)

lemma preempted_copy_from:
  assumes "unat head < 64" and "length src = 64" and "count \<le> 64" and "count \<le> length dst"
    and "index \<le> count"
  shows "preempted_copy dst src head count index
       = take index dst @ drop index (ring_list src (unat head) count) @ drop count dst"
  using assms
proof (induction dst src head count index rule: preempted_copy.induct)
  case (1 dst src head count index)
  show ?case
  proof (cases "index < count")
    case True
    have s: "unat ((head + of_nat index) mod 64) = (unat head + index) mod 64"
      using 1 True by (simp add: unat_add_mod_no_wrap unat_of_nat)
    let ?x = "src ! ((unat head + index) mod 64)"
    have d: "drop index (ring_list src (unat head) count)
           = ?x # drop (Suc index) (ring_list src (unat head) count)"
      using True 1 by (simp add: Cons_nth_drop_Suc [symmetric] nth_ring_list)
    have t: "take (Suc index) (dst[index := ?x]) = take index dst @ [?x]"
      using True 1 by (simp add: take_Suc_conv_app_nth)
    show ?thesis
      using True 1 s d t by (subst preempted_copy.simps) simp
  next
    case False
    with 1 show ?thesis by (subst preempted_copy.simps) simp
  qed
qed

lemma preempted_copy_spec:
  assumes "unat head < 64" and "length src = 64" and "count \<le> 64" and "count \<le> length dst"
  shows "preempted_copy dst src head count 0
       = ring_list src (unat head) count @ drop count dst"
  using preempted_copy_from [OF assms, of 0] by simp

text \<open>What the engine reset keeps of the fences preempted earlier: each fence that follows the
  last one kept, while there is room.\<close>

fun keep_after :: "u32 \<Rightarrow> nat \<Rightarrow> u32 list \<Rightarrow> u32 list" where
  "keep_after a 0 xs = []"
| "keep_after a (Suc room) [] = []"
| "keep_after a (Suc room) (x # xs) =
     (if AppleAgxSchedulerFenceAfter x a then x # keep_after x room xs
      else keep_after a (Suc room) xs)"

lemma keep_after_Nil [simp]: "keep_after a room [] = []"
  by (cases room) simp_all

lemma length_keep_after: "length (keep_after a room xs) \<le> room"
  by (induction a room xs rule: keep_after.induct) auto

lemma set_keep_after: "set (keep_after a room xs) \<subseteq> set xs"
  by (induction a room xs rule: keep_after.induct) auto

lemma reset_keep_spec:
  "kept \<le> index \<Longrightarrow> index \<le> count \<Longrightarrow> count \<le> length q \<Longrightarrow> kept \<le> room \<Longrightarrow>
   reset_keep q after count room index kept = (q', k) \<Longrightarrow>
   length q' = length q \<and> k \<le> room \<and> k \<le> count \<and>
   take k q' = take kept q @ keep_after after (room - kept) (drop index (take count q))"
proof (induction q after count room index kept arbitrary: q' k rule: reset_keep.induct)
  case (1 q after count room index kept)
  show ?case
  proof (cases "index < count \<and> kept < room")
    case False
    with "1.prems" have "q' = q" "k = kept"
      by (auto simp: reset_keep.simps [of q after count room index kept])
    with "1.prems" False show ?thesis by (auto simp: not_less)
  next
    case True
    then have d: "drop index (take count q) = q ! index # drop (Suc index) (take count q)"
      using "1.prems" by (simp add: Cons_nth_drop_Suc [symmetric])
    from True have r: "room - kept = Suc (room - Suc kept)" by linarith
    show ?thesis
    proof (cases "AppleAgxSchedulerFenceAfter (q ! index) after")
      case after: True
      let ?q = "q[kept := q ! index]"
      have "reset_keep ?q (q ! index) count room (Suc index) (Suc kept) = (q', k)"
        using "1.prems" True after by (simp add: reset_keep.simps [of q after count room index kept])
      from "1.IH"(1) [OF True after _ _ _ _ this] "1.prems" True
      have "length q' = length q \<and> k \<le> room \<and> k \<le> count \<and>
        take k q' = take (Suc kept) ?q @
          keep_after (q ! index) (room - Suc kept) (drop (Suc index) (take count ?q))"
        by simp
      moreover have "take (Suc kept) ?q = take kept q @ [q ! index]"
        using "1.prems" True by (simp add: take_Suc_conv_app_nth)
      moreover have "drop (Suc index) (take count ?q) = drop (Suc index) (take count q)"
        using "1.prems" by (simp add: take_update_swap drop_update_cancel)
      ultimately show ?thesis using after d r by simp
    next
      case after: False
      have "reset_keep q after count room (Suc index) kept = (q', k)"
        using "1.prems" True after by (simp add: reset_keep.simps [of q after count room index kept])
      from "1.IH"(2) [OF True after _ _ _ _ this] "1.prems" True
      show ?thesis using after d r by simp
    qed
  qed
qed

lemma length_reset_move [simp]: "length (reset_move q queued n) = length q"
  by (induction q queued n rule: reset_move.induct) simp_all

lemma nth_reset_move:
  "n + queued \<le> length q \<Longrightarrow> j < n \<Longrightarrow> reset_move q queued n ! (j + queued) = q ! j"
proof (induction q queued n arbitrary: j rule: reset_move.induct)
  case (1 q queued)
  then show ?case by simp
next
  case (2 q queued n)
  have above: "m \<le> n + queued \<Longrightarrow> reset_move p queued m' ! (m + queued) = p ! (m + queued)"
    if "m' \<le> m" for p m m'
    using that by (induction p queued m' rule: reset_move.induct) auto
  show ?case
  proof (cases "j = n")
    case True
    with 2 above [of n n "q[n + queued := q ! n]"] show ?thesis by simp
  next
    case False
    with 2 show ?thesis by simp
  qed
qed

lemma take_reset_move:
  assumes "n + queued \<le> length q"
  shows "take n (drop queued (reset_move q queued n)) = take n q"
  using assms by (intro nth_equalityI) (auto simp: nth_reset_move add.commute)


section \<open>Functional behaviour of each operation\<close>

lemmas sched_refuse_defs =
  AppleAgxSchedulerValidateEngine_def AppleAgxSchedulerAdmissionBlocked_def
  AppleAgxSchedulerDispatchBlocked_def

lemma QueueFence_Some:
  assumes "AppleAgxSchedulerQueueFence s n e f = Some t"
  shows "f \<noteq> 0" and "sch_QueueCount s < 64"
    and "sch_PreemptionPhase s \<in> {AppleAgxPreemptionIdle, AppleAgxPreemptionNotificationClaimed}"
    and "AppleAgxSchedulerFenceAfter f (sch_LastSubmittedFence s)"
    and "t = (sched_enqueue s f)\<lparr> sch_LastSubmittedFence := f \<rparr>"
  using assms
  by (auto simp: AppleAgxSchedulerQueueFence_def sched_refuse_defs split: if_splits)

lemma Resubmitted_Some:
  assumes "AppleAgxSchedulerQueueResubmittedPagingFence s n e f = Some t" and "sched_arrays s"
  shows "f \<noteq> 0" and "sch_QueueCount s < 64"
    and "sch_PreemptionPhase s \<in> {AppleAgxPreemptionIdle, AppleAgxPreemptionNotificationClaimed}"
    and "AppleAgxSchedulerFenceAfter f (sch_CompletedFence s)"
    and "f \<in> set (sched_preempted s)"
    and "sched_preempted t = remove1 f (sched_preempted s)"
    and "sched_fifo t = sched_fifo s @ [f]"
    and "sched_arrays t"
    and "sched_phase_ok s \<Longrightarrow> sched_phase_ok t"
    and "sch_LastSubmittedFence t = sch_LastSubmittedFence s"
    and "sch_QueueCount s \<noteq> 0 \<longrightarrow> AppleAgxSchedulerFenceAfter f (last (sched_fifo s))"
proof -
  let ?c = "unat (sch_PreemptedFenceCount s)"
  let ?q = "sch_PreemptedFenceQueue s"
  let ?i = "preempted_find ?q f ?c 0"
  let ?s = "s\<lparr> sch_PreemptedFenceQueue := preempted_shift ?q ?c ?i,
                sch_PreemptedFenceCount := sch_PreemptedFenceCount s - 1 \<rparr>"
  from assms show g: "f \<noteq> 0" "sch_QueueCount s < 64"
    "sch_PreemptionPhase s \<in> {AppleAgxPreemptionIdle, AppleAgxPreemptionNotificationClaimed}"
    "AppleAgxSchedulerFenceAfter f (sch_CompletedFence s)"
    by (auto simp: AppleAgxSchedulerQueueResubmittedPagingFence_def sched_refuse_defs Let_def
        split: if_splits)
  from assms have i: "?i \<noteq> ?c" and t: "t = sched_enqueue ?s f"
    by (auto simp: AppleAgxSchedulerQueueResubmittedPagingFence_def Let_def split: if_splits)
  from assms(2) have l: "?c \<le> length ?q" by (simp add: sched_arrays_def)
  have "?c \<noteq> 0" using preempted_find_spec [of 0 ?c ?q f] i by (metis le0 le_0_eq)
  then have c0: "sch_PreemptedFenceCount s \<noteq> 0" by (metis unat_0)
  then have c1: "unat (sch_PreemptedFenceCount s - 1) = ?c - 1" by (simp add: unat_minus_one)
  show "f \<in> set (sched_preempted s)"
    using preempted_delete(2) [OF l i] by (simp add: sched_preempted_def)
  show "sched_preempted t = remove1 f (sched_preempted s)"
    using preempted_delete(1) [OF l i] by (simp add: sched_preempted_def t sched_enqueue_def c1)
  have a: "sched_arrays ?s"
    using assms(2) c1 by (auto simp: sched_arrays_def sched_fifo_def)
  have "sched_fifo ?s = sched_fifo s" by (simp add: sched_fifo_def)
  with sched_fifo_enqueue [OF a, of f] g(2) show "sched_fifo t = sched_fifo s @ [f]"
    by (simp add: t)
  from sched_arrays_enqueue [OF a] g show "sched_arrays t" by (simp add: t)
  show "sched_phase_ok s \<Longrightarrow> sched_phase_ok t"
    using g(3) by (auto simp: sched_phase_ok_def t sched_enqueue_def)
  show "sch_LastSubmittedFence t = sch_LastSubmittedFence s" by (simp add: t sched_enqueue_def)
  have lw: "last (sched_fifo s) = sch_FenceQueue s !
      unat ((sch_QueueHead s + sch_QueueCount s - 1) mod 64)" if "sch_QueueCount s \<noteq> 0"
    using assms(2) that
    by (simp add: sched_arrays_def sched_fifo_def last_ring_list sched_tail_slot unat_gt_0)
  from assms show "sch_QueueCount s \<noteq> 0 \<longrightarrow> AppleAgxSchedulerFenceAfter f (last (sched_fifo s))"
    by (auto simp: AppleAgxSchedulerQueueResubmittedPagingFence_def Let_def lw split: if_splits)
qed

lemma ActivateFence_Some:
  assumes "AppleAgxSchedulerActivateFence s n e f = Some t" and "sched_arrays s"
  shows "f \<noteq> 0" and "sch_PreemptionPhase s = AppleAgxPreemptionIdle"
    and "sched_fifo s = f # sched_fifo t" and "sch_ActiveFence s = 0" and "sch_ActiveFence t = f"
    and "sched_arrays t" and "sched_phase_ok s \<Longrightarrow> sched_phase_ok t"
    and "sch_CompletedFence t = sch_CompletedFence s"
proof -
  let ?h = "(sch_QueueHead s + 1) mod 64"
  let ?c = "sch_QueueCount s - 1"
  from assms show g: "f \<noteq> 0" "sch_PreemptionPhase s = AppleAgxPreemptionIdle"
    "sch_ActiveFence s = 0"
    by (auto simp: AppleAgxSchedulerActivateFence_def sched_refuse_defs Let_def split: if_splits)
  from assms have c0: "sch_QueueCount s \<noteq> 0" and q: "sch_QueuedFence s = f"
    and t: "t = s\<lparr> sch_QueueHead := ?h, sch_QueueCount := ?c,
                   sch_QueuedFence := (if ?c \<noteq> 0 then sch_FenceQueue s ! unat ?h else 0),
                   sch_ActiveFence := f \<rparr>"
    by (auto simp: AppleAgxSchedulerActivateFence_def Let_def split: if_splits)
  have hd: "hd (sched_fifo s) = f" using assms(2) c0 q by (simp add: sched_arrays_def)
  show fifo: "sched_fifo s = f # sched_fifo t"
    using sched_fifo_activate [OF assms(2) c0] hd by (simp add: sched_fifo_def t)
  show "sch_ActiveFence t = f" "sch_CompletedFence t = sch_CompletedFence s" by (simp_all add: t)
  have h: "unat ?h < 64" by (simp add: unat_mod)
  have c: "unat ?c = unat (sch_QueueCount s) - 1" using c0 by (simp add: unat_minus_one)
  have fields: "sch_FenceQueue t = sch_FenceQueue s" "sch_QueueHead t = ?h" "sch_QueueCount t = ?c"
    "sch_PreemptedFenceQueue t = sch_PreemptedFenceQueue s"
    "sch_PreemptedFenceCount t = sch_PreemptedFenceCount s"
    "sch_QueuedFence t = (if ?c \<noteq> 0 then sch_FenceQueue s ! unat ?h else 0)"
    by (simp_all add: t)
  have "0 \<notin> set (sched_fifo t)" using assms(2) fifo by (simp add: sched_arrays_def)
  moreover have "hd (sched_fifo t) = sch_FenceQueue s ! unat ?h" if "?c \<noteq> 0"
    using assms(2) h that unat_pos_iff [of ?c]
    by (simp add: fields sched_fifo_def sched_arrays_def hd_ring_list)
  moreover have "unat ?c \<le> 64" using assms(2) c unfolding sched_arrays_def by linarith
  ultimately show "sched_arrays t"
    using assms(2) h unfolding sched_arrays_def fields by simp
  show "sched_phase_ok s \<Longrightarrow> sched_phase_ok t"
    using g by (auto simp: sched_phase_ok_def t)
qed

lemma BeginBoundary_Some:
  assumes "AppleAgxSchedulerBeginBoundaryPreemption s n e p cutoff act = Some t" and "sched_arrays s"
  shows "sch_PreemptionPhase s = AppleAgxPreemptionIdle" and "p \<noteq> 0"
    and "cutoff = sch_LastSubmittedFence s" and "act = sch_ActiveFence s"
    and "sched_preempted t = sched_fifo s" and "sched_fifo t = []"
    and "sch_PreemptionPhase t = (if act = 0 then AppleAgxPreemptionReadyToNotify
                                  else AppleAgxPreemptionWaitCurrentBoundary)"
    and "sched_arrays t" and "sched_phase_ok t"
    and "sch_CompletedFence t = sch_CompletedFence s"
proof -
  from assms show g: "sch_PreemptionPhase s = AppleAgxPreemptionIdle" "p \<noteq> 0"
    "cutoff = sch_LastSubmittedFence s" "act = sch_ActiveFence s"
    by (auto simp: AppleAgxSchedulerBeginBoundaryPreemption_def split: if_splits)
  let ?q = "preempted_copy (sch_PreemptedFenceQueue s) (sch_FenceQueue s) (sch_QueueHead s)
              (unat (sch_QueueCount s)) 0"
  from assms have t: "t = s\<lparr> sch_PreemptedFenceCount := sch_QueueCount s,
                    sch_PreemptedFenceQueue := ?q,
                    sch_QueuedFence := 0, sch_QueueHead := 0, sch_QueueCount := 0,
                    sch_PendingPreemptionFence := p,
                    sch_PreemptionCutoffFence := cutoff,
                    sch_PreemptionActiveFence := act,
                    sch_PreemptionLastCompletedFence := sch_CompletedFence s,
                    sch_PreemptionPending := True,
                    sch_PreemptionPhase :=
                      (if act = 0 then AppleAgxPreemptionReadyToNotify
                       else AppleAgxPreemptionWaitCurrentBoundary) \<rparr>"
    by (auto simp: AppleAgxSchedulerBeginBoundaryPreemption_def split: if_splits)
  have q: "?q = sched_fifo s @ drop (unat (sch_QueueCount s)) (sch_PreemptedFenceQueue s)"
    using assms(2) unfolding sched_fifo_def
    by (intro preempted_copy_spec) (simp_all add: sched_arrays_def)
  show "sched_preempted t = sched_fifo s"
    by (simp add: sched_preempted_def t q) (simp add: sched_fifo_def)
  show f: "sched_fifo t = []" by (simp add: sched_fifo_def t)
  show "sch_PreemptionPhase t = (if act = 0 then AppleAgxPreemptionReadyToNotify
                                 else AppleAgxPreemptionWaitCurrentBoundary)"
    "sch_CompletedFence t = sch_CompletedFence s" by (simp_all add: t)
  show "sched_arrays t"
    unfolding sched_arrays_def f using assms(2) by (simp add: t sched_arrays_def)
  show "sched_phase_ok t" using g by (simp add: sched_phase_ok_def t)
qed

lemma ResetEngine_Some:
  assumes "AppleAgxSchedulerResetEngine s n e = Some (t, lastAborted)" and "sched_arrays s"
  shows "lastAborted = (if sch_ActiveFence s \<noteq> 0 then sch_ActiveFence s else sch_CompletedFence s)"
    and "sched_fifo t = []"
    and "sched_preempted t = sched_fifo s
           @ keep_after (if sched_fifo s = [] then lastAborted else last (sched_fifo s))
               (64 - length (sched_fifo s)) (sched_preempted s)"
    and "sched_arrays t" and "sched_phase_ok t" and "sch_ActiveFence t = 0"
    and "sch_PreemptionPhase t = AppleAgxPreemptionIdle" and "sch_Responsive t"
proof -
  let ?c = "unat (sch_QueueCount s)"
  let ?last = "if sch_ActiveFence s \<noteq> 0 then sch_ActiveFence s else sch_CompletedFence s"
  let ?after = "if sch_QueueCount s \<noteq> 0
                then sch_FenceQueue s ! unat ((sch_QueueHead s + sch_QueueCount s - 1) mod 64)
                else ?last"
  obtain q1 kept where k: "reset_keep (sch_PreemptedFenceQueue s) ?after
      (unat (sch_PreemptedFenceCount s)) (unat (64 - sch_QueueCount s)) 0 0 = (q1, kept)"
    by fastforce
  let ?q3 = "preempted_copy (reset_move q1 ?c kept) (sch_FenceQueue s) (sch_QueueHead s) ?c 0"
  from assms(1) k have la: "lastAborted = ?last"
    and t: "t = s\<lparr> sch_PreemptedFenceQueue := ?q3,
                    sch_PreemptedFenceCount := sch_QueueCount s + of_nat kept,
                    sch_QueuedFence := 0, sch_QueueHead := 0, sch_QueueCount := 0,
                    sch_ActiveFence := 0,
                    sch_PendingPreemptionFence := 0, sch_PreemptionCutoffFence := 0,
                    sch_PreemptionActiveFence := 0, sch_PreemptionLastCompletedFence := 0,
                    sch_PreemptionPending := False,
                    sch_PreemptionPhase := AppleAgxPreemptionIdle,
                    sch_Responsive := True \<rparr>"
    by (auto simp: AppleAgxSchedulerResetEngine_def Let_def split: if_splits)
  show "lastAborted = ?last" by (rule la)
  have room: "unat (64 - sch_QueueCount s) = 64 - ?c"
    using assms(2) by (simp add: sched_arrays_def unat_sub word_le_nat_alt)
  have ks: "length q1 = 64 \<and> kept \<le> 64 - ?c \<and>
      take kept q1 = keep_after ?after (64 - ?c) (sched_preempted s)"
    using reset_keep_spec [OF _ _ _ _ k] assms(2)
    by (simp add: room sched_arrays_def sched_preempted_def)
  have "?c \<le> 64" using assms(2) by (simp add: sched_arrays_def)
  with ks have bc: "?c + kept \<le> 64" by linarith
  have q3: "?q3 = sched_fifo s @ drop ?c (reset_move q1 ?c kept)"
    unfolding sched_fifo_def using assms(2) ks bc
    by (intro preempted_copy_spec) (auto simp: sched_arrays_def)
  have cnt: "unat (sch_QueueCount s + of_nat kept) = ?c + kept"
    using bc by (simp add: unat_add_no_wrap unat_of_nat)
  have after: "?after = (if sched_fifo s = [] then lastAborted else last (sched_fifo s))"
    using assms(2) la
    by (simp add: sched_fifo_def sched_arrays_def last_ring_list sched_tail_slot unat_gt_0
        unat_0_iff)
  have "sched_preempted t = sched_fifo s @ take kept (drop ?c (reset_move q1 ?c kept))"
    by (simp add: sched_preempted_def t cnt q3) (simp add: sched_fifo_def)
  also have "take kept (drop ?c (reset_move q1 ?c kept)) = take kept q1"
    using ks bc by (intro take_reset_move) simp
  finally show "sched_preempted t = sched_fifo s
      @ keep_after (if sched_fifo s = [] then lastAborted else last (sched_fifo s))
          (64 - length (sched_fifo s)) (sched_preempted s)"
    using ks after by (simp add: sched_fifo_def)
  show f: "sched_fifo t = []" by (simp add: sched_fifo_def t)
  show "sched_arrays t"
    unfolding sched_arrays_def f using assms(2) ks bc cnt
    by (simp add: t sched_arrays_def del: length_preempted_copy)
       (simp add: q3 sched_fifo_def)
  show "sched_phase_ok t" "sch_ActiveFence t = 0"
    "sch_PreemptionPhase t = AppleAgxPreemptionIdle" "sch_Responsive t"
    by (simp_all add: sched_phase_ok_def t)
qed


section \<open>The scheduler as a state machine\<close>

definition sched_start :: "APPLE_AGX_SCHEDULER \<Rightarrow> bool" where
  "sched_start s \<longleftrightarrow>
     (\<exists>m. length (sch_PreemptedFenceQueue m) = 64 \<and> s = AppleAgxSchedulerInitialize m)"

inductive sched_step :: "APPLE_AGX_SCHEDULER \<Rightarrow> APPLE_AGX_SCHEDULER \<Rightarrow> bool" where
  create: "AppleAgxSchedulerCreateContext s c n a = Some (t, c') \<Longrightarrow> sched_step s t"
| destroy: "AppleAgxSchedulerDestroyContext s c = Some (t, c') \<Longrightarrow> sched_step s t"
| complete: "AppleAgxSchedulerCompleteFence s n e f = Some t \<Longrightarrow> sched_step s t"
| queue: "AppleAgxSchedulerQueueFence s n e f = Some t \<Longrightarrow> sched_step s t"
| resubmit: "AppleAgxSchedulerQueueResubmittedPagingFence s n e f = Some t \<Longrightarrow> sched_step s t"
| activate: "AppleAgxSchedulerActivateFence s n e f = Some t \<Longrightarrow> sched_step s t"
| complete_active: "AppleAgxSchedulerCompleteActiveFence s n e f = Some t \<Longrightarrow> sched_step s t"
| begin_boundary:
    "AppleAgxSchedulerBeginBoundaryPreemption s n e p cutoff act = Some t \<Longrightarrow> sched_step s t"
| observe: "AppleAgxSchedulerObserveBoundaryCompletion s n e f = Some t \<Longrightarrow> sched_step s t"
| claim: "AppleAgxSchedulerClaimBoundaryPreemption s = Some (t, r) \<Longrightarrow> sched_step s t"
| commit: "AppleAgxSchedulerCommitBoundaryPreemption s p = Some t \<Longrightarrow> sched_step s t"
| begin_preemption: "AppleAgxSchedulerBeginPreemption s n e p = (t, r) \<Longrightarrow> sched_step s t"
| acknowledge: "AppleAgxSchedulerAcknowledgePreemption s p = Some t \<Longrightarrow> sched_step s t"
| abort: "AppleAgxSchedulerAbortPreemption s p = Some t \<Longrightarrow> sched_step s t"
| reset: "AppleAgxSchedulerResetEngine s n e = Some (t, f) \<Longrightarrow> sched_step s t"

text \<open>Operations that store to no array and no queue index keep the array part.\<close>

lemma sched_arrays_cong:
  assumes "sched_arrays s"
    and "sch_FenceQueue t = sch_FenceQueue s" "sch_QueueHead t = sch_QueueHead s"
    "sch_QueueCount t = sch_QueueCount s" "sch_QueuedFence t = sch_QueuedFence s"
    "sch_PreemptedFenceQueue t = sch_PreemptedFenceQueue s"
    "sch_PreemptedFenceCount t = sch_PreemptedFenceCount s \<or> sch_PreemptedFenceCount t = 0"
  shows "sched_arrays t" and "sched_fifo t = sched_fifo s"
proof -
  show f: "sched_fifo t = sched_fifo s" using assms by (simp add: sched_fifo_def)
  show "sched_arrays t" using assms unfolding sched_arrays_def f by auto
qed

lemma CompleteFence_keep:
  assumes "AppleAgxSchedulerCompleteFence s n e f = Some t"
  shows "sched_arrays s \<Longrightarrow> sched_arrays t" and "sched_fifo t = sched_fifo s"
    and "sched_phase_ok s \<Longrightarrow> sched_phase_ok t"
    and "sch_PreemptionPhase t = sch_PreemptionPhase s"
proof -
  from assms have t: "t = s\<lparr> sch_CompletedFence := f \<rparr>"
    by (simp add: AppleAgxSchedulerCompleteFence_def split: if_splits)
  show "sched_arrays s \<Longrightarrow> sched_arrays t" by (rule sched_arrays_cong [of s t]) (simp_all add: t)
  show "sched_fifo t = sched_fifo s" by (simp add: sched_fifo_def t)
  show "sched_phase_ok s \<Longrightarrow> sched_phase_ok t" by (simp add: sched_phase_ok_def t)
  show "sch_PreemptionPhase t = sch_PreemptionPhase s" by (simp add: t)
qed

lemma CompleteActiveFence_Some:
  assumes "AppleAgxSchedulerCompleteActiveFence s n e f = Some t"
  shows "sched_arrays s \<Longrightarrow> sched_arrays t" and "sched_fifo t = sched_fifo s"
    and "sched_phase_ok s \<Longrightarrow> sched_phase_ok t"
    and "sch_PreemptionPhase t = sch_PreemptionPhase s"
    and "sch_ActiveFence s = f" and "f \<noteq> 0"
    and "AppleAgxSchedulerFenceAfter f (sch_CompletedFence s)"
    and "t = s\<lparr> sch_CompletedFence := f, sch_ActiveFence := 0 \<rparr>"
proof -
  from assms show t: "t = s\<lparr> sch_CompletedFence := f, sch_ActiveFence := 0 \<rparr>"
    and "sch_ActiveFence s = f" "f \<noteq> 0"
    and "AppleAgxSchedulerFenceAfter f (sch_CompletedFence s)"
    by (auto simp: AppleAgxSchedulerCompleteActiveFence_def AppleAgxSchedulerCompleteFence_def
        AppleAgxSchedulerCanCompleteFence_def AppleAgxSchedulerFenceAfter_def Let_def
        split: if_splits)
  show "sched_arrays s \<Longrightarrow> sched_arrays t" by (rule sched_arrays_cong [of s t]) (simp_all add: t)
  show "sched_fifo t = sched_fifo s" by (simp add: sched_fifo_def t)
  show "sched_phase_ok s \<Longrightarrow> sched_phase_ok t" by (simp add: sched_phase_ok_def t)
  show "sch_PreemptionPhase t = sch_PreemptionPhase s" by (simp add: t)
qed

lemma Observe_Some:
  assumes "AppleAgxSchedulerObserveBoundaryCompletion s n e f = Some t"
  shows "sched_arrays s \<Longrightarrow> sched_arrays t" and "sched_fifo t = sched_fifo s"
    and "sched_phase_ok s \<Longrightarrow> sched_phase_ok t"
    and "sch_PreemptionPhase s = AppleAgxPreemptionWaitCurrentBoundary"
proof -
  from assms have t: "t = s\<lparr> sch_PreemptionActiveFence := 0,
                    sch_PreemptionLastCompletedFence := f,
                    sch_PreemptionPhase := AppleAgxPreemptionReadyToNotify \<rparr>"
    and ph: "sch_PreemptionPhase s = AppleAgxPreemptionWaitCurrentBoundary"
    by (auto simp: AppleAgxSchedulerObserveBoundaryCompletion_def split: if_splits)
  show "sched_arrays s \<Longrightarrow> sched_arrays t" by (rule sched_arrays_cong [of s t]) (simp_all add: t)
  show "sched_fifo t = sched_fifo s" by (simp add: sched_fifo_def t)
  show "sched_phase_ok s \<Longrightarrow> sched_phase_ok t" using ph by (auto simp: sched_phase_ok_def t)
  show "sch_PreemptionPhase s = AppleAgxPreemptionWaitCurrentBoundary" by (rule ph)
qed

lemma Claim_Some:
  assumes "AppleAgxSchedulerClaimBoundaryPreemption s = Some (t, r)"
  shows "sched_arrays s \<Longrightarrow> sched_arrays t" and "sched_fifo t = sched_fifo s"
    and "sched_phase_ok s \<Longrightarrow> sched_phase_ok t"
    and "sch_PreemptionPhase s = AppleAgxPreemptionReadyToNotify"
proof -
  from assms have t: "t = s\<lparr> sch_PreemptionPhase := AppleAgxPreemptionNotificationClaimed \<rparr>"
    and ph: "sch_PreemptionPhase s = AppleAgxPreemptionReadyToNotify"
    by (auto simp: AppleAgxSchedulerClaimBoundaryPreemption_def split: if_splits)
  show "sched_arrays s \<Longrightarrow> sched_arrays t" by (rule sched_arrays_cong [of s t]) (simp_all add: t)
  show "sched_fifo t = sched_fifo s" by (simp add: sched_fifo_def t)
  show "sched_phase_ok s \<Longrightarrow> sched_phase_ok t" using ph by (auto simp: sched_phase_ok_def t)
  show "sch_PreemptionPhase s = AppleAgxPreemptionReadyToNotify" by (rule ph)
qed

lemma Commit_Some:
  assumes "AppleAgxSchedulerCommitBoundaryPreemption s p = Some t"
  shows "sched_arrays s \<Longrightarrow> sched_arrays t" and "sched_fifo t = sched_fifo s"
    and "sched_phase_ok t"
    and "sch_PreemptionPhase s = AppleAgxPreemptionNotificationClaimed"
    and "sch_PreemptionPhase t = AppleAgxPreemptionIdle"
    and "sched_preempted t = sched_preempted s"
proof -
  from assms have t: "t = s\<lparr> sch_PendingPreemptionFence := 0, sch_PreemptionCutoffFence := 0,
                    sch_PreemptionActiveFence := 0, sch_PreemptionLastCompletedFence := 0,
                    sch_PreemptionPending := False,
                    sch_PreemptionPhase := AppleAgxPreemptionIdle \<rparr>"
    and ph: "sch_PreemptionPhase s = AppleAgxPreemptionNotificationClaimed"
    by (auto simp: AppleAgxSchedulerCommitBoundaryPreemption_def split: if_splits)
  show "sched_arrays s \<Longrightarrow> sched_arrays t" by (rule sched_arrays_cong [of s t]) (simp_all add: t)
  show "sched_fifo t = sched_fifo s" by (simp add: sched_fifo_def t)
  show "sched_phase_ok t" by (simp add: sched_phase_ok_def t)
  show "sch_PreemptionPhase s = AppleAgxPreemptionNotificationClaimed" by (rule ph)
  show "sch_PreemptionPhase t = AppleAgxPreemptionIdle" by (simp add: t)
  show "sched_preempted t = sched_preempted s" by (simp add: sched_preempted_def t)
qed

lemma Abort_Some:
  assumes "AppleAgxSchedulerAbortPreemption s p = Some t"
  shows "sched_arrays s \<Longrightarrow> sched_arrays t" and "sched_fifo t = sched_fifo s"
    and "sched_phase_ok t"
    and "sch_PreemptionPhase s \<noteq> AppleAgxPreemptionNotificationClaimed"
    and "sched_preempted t = []"
proof -
  from assms have t: "t = s\<lparr> sch_PendingPreemptionFence := 0, sch_PreemptionCutoffFence := 0,
                    sch_PreemptionActiveFence := 0, sch_PreemptionLastCompletedFence := 0,
                    sch_PreemptedFenceCount := 0,
                    sch_PreemptionPending := False,
                    sch_PreemptionPhase := AppleAgxPreemptionIdle \<rparr>"
    and ph: "sch_PreemptionPhase s \<noteq> AppleAgxPreemptionNotificationClaimed"
    by (auto simp: AppleAgxSchedulerAbortPreemption_def split: if_splits)
  show "sched_arrays s \<Longrightarrow> sched_arrays t" by (rule sched_arrays_cong [of s t]) (simp_all add: t)
  show "sched_fifo t = sched_fifo s" by (simp add: sched_fifo_def t)
  show "sched_phase_ok t" by (simp add: sched_phase_ok_def t)
  show "sch_PreemptionPhase s \<noteq> AppleAgxPreemptionNotificationClaimed" by (rule ph)
  show "sched_preempted t = []" by (simp add: sched_preempted_def t)
qed

lemma QueueFence_keep:
  assumes "AppleAgxSchedulerQueueFence s n e f = Some t" and "sched_arrays s"
  shows "sched_arrays t" and "sched_fifo t = sched_fifo s @ [f]"
    and "sched_phase_ok s \<Longrightarrow> sched_phase_ok t"
    and "sched_preempted t = sched_preempted s"
proof -
  note q = QueueFence_Some [OF assms(1)]
  let ?e = "sched_enqueue s f"
  have e: "sched_arrays ?e" using sched_arrays_enqueue [OF assms(2) q(2,1)] .
  have ft: "sched_fifo t = sched_fifo ?e" by (simp add: sched_fifo_def q(5))
  show "sched_fifo t = sched_fifo s @ [f]"
    using sched_fifo_enqueue [OF assms(2) q(2)] ft by simp
  show "sched_arrays t" using e by (rule sched_arrays_cong) (simp_all add: q(5))
  show "sched_phase_ok s \<Longrightarrow> sched_phase_ok t"
    using q(3) by (auto simp: sched_phase_ok_def q(5) sched_enqueue_def)
  show "sched_preempted t = sched_preempted s"
    by (simp add: sched_preempted_def q(5) sched_enqueue_def)
qed

lemma sched_wf_start: "sched_start s \<Longrightarrow> sched_wf s"
  by (auto simp: sched_start_def sched_wf_def sched_arrays_def sched_phase_ok_def
      sched_fifo_def AppleAgxSchedulerInitialize_def)

lemma context_count_wf:
  assumes "sched_wf s"
  shows "sched_wf (s\<lparr> sch_ContextCount := k \<rparr>)"
  using assms sched_arrays_cong(1) [of s "s\<lparr> sch_ContextCount := k \<rparr>"]
  by (simp add: sched_wf_def sched_phase_ok_def)

lemma context_wf:
  "AppleAgxSchedulerCreateContext s c n a = Some (t, c') \<Longrightarrow> sched_wf s \<Longrightarrow> sched_wf t"
  "AppleAgxSchedulerDestroyContext s c = Some (t, c') \<Longrightarrow> sched_wf s \<Longrightarrow> sched_wf t"
  by (auto simp: AppleAgxSchedulerCreateContext_def AppleAgxSchedulerDestroyContext_def
      context_count_wf split: if_splits)

lemma begin_preemption_wf:
  assumes "AppleAgxSchedulerBeginPreemption s n e p = (t, r)" and "sched_wf s"
  shows "sched_wf t"
proof (cases "AppleAgxSchedulerBeginBoundaryPreemption s n e p (sch_CompletedFence s) 0")
  case None
  with assms show ?thesis by (simp add: AppleAgxSchedulerBeginPreemption_def)
next
  case (Some u)
  with assms(2) have u: "sched_wf u"
    by (simp add: sched_wf_def BeginBoundary_Some)
  show ?thesis
  proof (cases "AppleAgxSchedulerClaimBoundaryPreemption u")
    case None
    with assms(1) Some u show ?thesis by (simp add: AppleAgxSchedulerBeginPreemption_def)
  next
    case (Some v)
    with assms(1) \<open>_ = Some u\<close> have "AppleAgxSchedulerClaimBoundaryPreemption u = Some (t, snd v)"
      by (cases v) (simp add: AppleAgxSchedulerBeginPreemption_def)
    with u show ?thesis by (simp add: sched_wf_def Claim_Some)
  qed
qed

lemma sched_step_wf: "sched_step s t \<Longrightarrow> sched_wf s \<Longrightarrow> sched_wf t"
proof (induction rule: sched_step.induct)
  case (create s c n a t c') then show ?case by (rule context_wf(1))
next
  case (destroy s c t c') then show ?case by (rule context_wf(2))
next
  case complete then show ?case by (simp add: sched_wf_def CompleteFence_keep)
next
  case queue then show ?case by (simp add: sched_wf_def QueueFence_keep)
next
  case resubmit then show ?case by (simp add: sched_wf_def Resubmitted_Some)
next
  case activate then show ?case by (simp add: sched_wf_def ActivateFence_Some)
next
  case complete_active then show ?case by (simp add: sched_wf_def CompleteActiveFence_Some)
next
  case begin_boundary then show ?case by (simp add: sched_wf_def BeginBoundary_Some)
next
  case observe then show ?case by (simp add: sched_wf_def Observe_Some)
next
  case claim then show ?case by (simp add: sched_wf_def Claim_Some)
next
  case commit then show ?case by (simp add: sched_wf_def Commit_Some)
next
  case begin_preemption then show ?case by (rule begin_preemption_wf)
next
  case acknowledge
  then show ?case
    by (simp add: sched_wf_def Commit_Some AppleAgxSchedulerAcknowledgePreemption_def)
next
  case abort then show ?case by (simp add: sched_wf_def Abort_Some)
next
  case reset then show ?case by (simp add: sched_wf_def ResetEngine_Some)
qed

interpretation sched_machine: guarded_system sched_start sched_step sched_wf
  by unfold_locales (auto intro: sched_wf_start sched_step_wf)


section \<open>The fence queue as a FIFO\<close>

text \<open>The operations of the client that touch neither the queue nor the preempted fences.\<close>

datatype sched_other =
  OtherComplete u32 | OtherCompleteActive u32 | OtherObserve u32 | OtherClaim | OtherCommit u32

definition sched_enq :: "u32 \<Rightarrow> APPLE_AGX_SCHEDULER \<Rightarrow> APPLE_AGX_SCHEDULER option" where
  "sched_enq f s = AppleAgxSchedulerQueueFence s 0 0 f"

definition sched_deq :: "APPLE_AGX_SCHEDULER \<Rightarrow> (u32 \<times> APPLE_AGX_SCHEDULER) option" where
  "sched_deq s =
     map_option (\<lambda>t. (sch_QueuedFence s, t))
       (AppleAgxSchedulerActivateFence s 0 0 (sch_QueuedFence s))"

fun sched_oth :: "sched_other \<Rightarrow> APPLE_AGX_SCHEDULER \<Rightarrow> APPLE_AGX_SCHEDULER option" where
  "sched_oth (OtherComplete f) s = AppleAgxSchedulerCompleteFence s 0 0 f"
| "sched_oth (OtherCompleteActive f) s = AppleAgxSchedulerCompleteActiveFence s 0 0 f"
| "sched_oth (OtherObserve f) s = AppleAgxSchedulerObserveBoundaryCompletion s 0 0 f"
| "sched_oth OtherClaim s = map_option fst (AppleAgxSchedulerClaimBoundaryPreemption s)"
| "sched_oth (OtherCommit p) s = AppleAgxSchedulerCommitBoundaryPreemption s p"

lemma sched_oth_step: "sched_oth x s = Some t \<Longrightarrow> sched_step s t"
  by (cases x) (auto intro: sched_step.intros)

lemma sched_oth_fifo: "sched_oth x s = Some t \<Longrightarrow> sched_fifo t = sched_fifo s"
  by (cases x)
     (auto simp: CompleteFence_keep CompleteActiveFence_Some Observe_Some Claim_Some Commit_Some)

interpretation sched_queue: fifo_queue sched_wf sched_fifo sched_enq sched_deq sched_oth
proof unfold_locales
  fix s t :: APPLE_AGX_SCHEDULER and e x
  show "sched_wf s \<Longrightarrow> sched_enq e s = Some t \<Longrightarrow> sched_wf t"
    by (auto simp: sched_enq_def intro: sched_step_wf sched_step.queue)
  show "sched_wf s \<Longrightarrow> sched_enq e s = Some t \<Longrightarrow> sched_fifo t = sched_fifo s @ [e]"
    by (auto simp: sched_enq_def sched_wf_def QueueFence_keep)
  show "sched_wf s \<Longrightarrow> sched_deq s = Some (e, t) \<Longrightarrow> sched_wf t"
    by (auto simp: sched_deq_def intro: sched_step_wf sched_step.activate)
  show "sched_wf s \<Longrightarrow> sched_deq s = Some (e, t) \<Longrightarrow> sched_fifo s = e # sched_fifo t"
    by (auto simp: sched_deq_def sched_wf_def dest: ActivateFence_Some(3))
  show "sched_wf s \<Longrightarrow> sched_oth x s = Some t \<Longrightarrow> sched_wf t"
    by (auto intro: sched_step_wf sched_oth_step)
  show "sched_wf s \<Longrightarrow> sched_oth x s = Some t \<Longrightarrow> sched_fifo t = sched_fifo s"
    by (rule sched_oth_fifo)
qed

section \<open>Properties\<close>

text \<open>A booted scheduler, for the witnesses.\<close>

definition sched_boot :: APPLE_AGX_SCHEDULER where
  "sched_boot =
     \<lparr> sch_CompletedFence = 0, sch_LastSubmittedFence = 0, sch_QueuedFence = 0,
       sch_QueueHead = 0, sch_QueueCount = 0, sch_FenceQueue = replicate 64 0,
       sch_PreemptedFenceQueue = replicate 64 0, sch_PreemptedFenceCount = 0,
       sch_ActiveFence = 0, sch_PendingPreemptionFence = 0, sch_PreemptionCutoffFence = 0,
       sch_PreemptionActiveFence = 0, sch_PreemptionLastCompletedFence = 0,
       sch_ContextCount = 0, sch_PreemptionPending = False, sch_Responsive = True,
       sch_PreemptionPhase = AppleAgxPreemptionIdle \<rparr>"

lemma sched_boot_start: "sched_start sched_boot"
  unfolding sched_start_def
  by (rule exI [of _ sched_boot]) (simp add: sched_boot_def AppleAgxSchedulerInitialize_def)

lemma sched_boot_wf: "sched_wf sched_boot"
  by (rule sched_wf_start [OF sched_boot_start])

lemma sched_boot_queue_example:
  "AppleAgxSchedulerQueueFence sched_boot 0 0 7 =
     Some (sched_boot\<lparr> sch_FenceQueue := (replicate 64 0)[0 := 7], sch_QueuedFence := 7,
                       sch_QueueCount := 1, sch_LastSubmittedFence := 7 \<rparr>)"
  by (simp add: AppleAgxSchedulerQueueFence_def sched_refuse_defs sched_enqueue_def
      AppleAgxSchedulerFenceAfter_def sched_boot_def)

text \<open>C24. In every state the scheduler can reach from \<open>AppleAgxSchedulerInitialize\<close> by any
  sequence of its operations, both arrays and the queue indices stay in bounds, \<open>QueuedFence\<close> is
  the oldest queued fence (zero exactly when the queue is empty), no queued fence is zero, and the
  preemption fields agree with the preemption phase.\<close>

theorem sched_reachable_wf:
  assumes "sched_start s" and "sched_step\<^sup>*\<^sup>* s t"
  shows "sched_wf t"
  using assms by (rule sched_machine.inv_reachable)

theorem sched_reachable_wf_witness:
  "sched_wf (sched_boot\<lparr> sch_FenceQueue := (replicate 64 0)[0 := 7], sch_QueuedFence := 7,
                         sch_QueueCount := 1, sch_LastSubmittedFence := 7 \<rparr>)"
  by (rule sched_reachable_wf [OF sched_boot_start])
     (rule r_into_rtranclp, rule sched_step.queue [OF sched_boot_queue_example])



section \<open>Preemption and resubmission as one protocol\<close>

text \<open>The client hands the preempted fences back one at a time.\<close>

fun sched_resubmit_all :: "u32 list \<Rightarrow> APPLE_AGX_SCHEDULER \<Rightarrow> APPLE_AGX_SCHEDULER option" where
  "sched_resubmit_all [] s = Some s"
| "sched_resubmit_all (f # fs) s =
     Option.bind (AppleAgxSchedulerQueueResubmittedPagingFence s 0 0 f) (sched_resubmit_all fs)"

text \<open>The whole protocol: stop at the boundary of the active fence, tell the client, hand back.\<close>

definition sched_preempt_and_resume ::
  "APPLE_AGX_SCHEDULER \<Rightarrow> u32 \<Rightarrow> APPLE_AGX_SCHEDULER option" where
  "sched_preempt_and_resume s p =
     Option.bind (AppleAgxSchedulerBeginBoundaryPreemption s 0 0 p (sch_LastSubmittedFence s)
                    (sch_ActiveFence s)) (\<lambda>t.
     Option.bind (if sch_ActiveFence s = 0 then Some t
                  else Option.bind
                    (AppleAgxSchedulerCompleteActiveFence t 0 0 (sch_ActiveFence s))
                    (\<lambda>u. AppleAgxSchedulerObserveBoundaryCompletion u 0 0 (sch_ActiveFence s)))
       (\<lambda>v.
     Option.bind (AppleAgxSchedulerClaimBoundaryPreemption v) (\<lambda>(w, r).
     if pre_PreemptionFence r = p
     then Option.bind (AppleAgxSchedulerCommitBoundaryPreemption w (pre_PreemptionFence r))
            (sched_resubmit_all (sched_preempted w))
     else None)))"

lemma Resubmitted_accepts:
  assumes "sched_arrays s" and "sch_PreemptionPhase s = AppleAgxPreemptionIdle"
    and "f \<noteq> 0" and "length (sched_fifo s) < 64" and "f \<in> set (sched_preempted s)"
    and "AppleAgxSchedulerFenceAfter f (sch_CompletedFence s)" and "sch_ActiveFence s = 0"
    and "sched_fifo s \<noteq> [] \<longrightarrow> AppleAgxSchedulerFenceAfter f (last (sched_fifo s))"
  shows "\<exists>t. AppleAgxSchedulerQueueResubmittedPagingFence s 0 0 f = Some t \<and>
    sch_PreemptionPhase t = AppleAgxPreemptionIdle \<and> sch_ActiveFence t = 0 \<and>
    sch_CompletedFence t = sch_CompletedFence s"
proof -
  let ?c = "unat (sch_PreemptedFenceCount s)"
  have i: "preempted_find (sch_PreemptedFenceQueue s) f ?c 0 \<noteq> ?c"
    using assms(1,5) by (intro preempted_find_absent)
      (simp_all add: sched_preempted_def sched_arrays_def)
  have c: "\<not> 64 \<le> sch_QueueCount s"
    using assms(4) by (simp add: sched_fifo_def word_le_nat_alt)
  have l: "sch_QueueCount s \<noteq> 0 \<longrightarrow> AppleAgxSchedulerFenceAfter f (sch_FenceQueue s !
      unat ((sch_QueueHead s + sch_QueueCount s - 1) mod 64))"
    using assms(1,8)
    by (simp add: sched_arrays_def sched_fifo_def last_ring_list sched_tail_slot unat_gt_0
        unat_0_iff)
  from assms i c l show ?thesis
    by (simp add: AppleAgxSchedulerQueueResubmittedPagingFence_def sched_refuse_defs Let_def
        sched_enqueue_def) blast
qed

lemma sched_resubmit_all_fifo:
  "sched_arrays s \<Longrightarrow> sch_PreemptionPhase s = AppleAgxPreemptionIdle \<Longrightarrow> sch_ActiveFence s = 0 \<Longrightarrow>
   sched_preempted s = fs \<Longrightarrow> length (sched_fifo s) + length fs \<le> 64 \<Longrightarrow> 0 \<notin> set fs \<Longrightarrow>
   successively (\<lambda>x y. AppleAgxSchedulerFenceAfter y x) (sched_fifo s @ fs) \<Longrightarrow>
   \<forall>f\<in>set fs. AppleAgxSchedulerFenceAfter f (sch_CompletedFence s) \<Longrightarrow>
   \<exists>t. sched_resubmit_all fs s = Some t \<and> sched_fifo t = sched_fifo s @ fs \<and>
       sched_preempted t = [] \<and> sch_PreemptionPhase t = AppleAgxPreemptionIdle \<and>
       sch_CompletedFence t = sch_CompletedFence s"
proof (induction fs arbitrary: s)
  case Nil
  then show ?case by simp
next
  case (Cons f fs)
  have chain: "sched_fifo s \<noteq> [] \<longrightarrow> AppleAgxSchedulerFenceAfter f (last (sched_fifo s))"
    using Cons.prems(7) by (auto simp: successively_append_iff)
  obtain u where u: "AppleAgxSchedulerQueueResubmittedPagingFence s 0 0 f = Some u"
    and k: "sch_PreemptionPhase u = AppleAgxPreemptionIdle" "sch_ActiveFence u = 0"
      "sch_CompletedFence u = sch_CompletedFence s"
    using Cons.prems chain Resubmitted_accepts [of s f] by auto
  note r = Resubmitted_Some [OF u Cons.prems(1)]
  have "\<exists>t. sched_resubmit_all fs u = Some t \<and> sched_fifo t = sched_fifo u @ fs \<and>
       sched_preempted t = [] \<and> sch_PreemptionPhase t = AppleAgxPreemptionIdle \<and>
       sch_CompletedFence t = sch_CompletedFence u"
    using Cons.prems k r by (intro Cons.IH) auto
  with u r k show ?case by simp
qed

lemma sched_preempt_and_resume_fifo:
  assumes "sched_wf s" and "sch_PreemptionPhase s = AppleAgxPreemptionIdle" and "p \<noteq> 0"
    and "successively (\<lambda>x y. AppleAgxSchedulerFenceAfter y x) (sched_fifo s)"
    and "sch_ActiveFence s \<noteq> 0 \<longrightarrow>
           AppleAgxSchedulerFenceAfter (sch_ActiveFence s) (sch_CompletedFence s) \<and>
           AppleAgxSchedulerFenceAtOrAfter (sch_LastSubmittedFence s) (sch_ActiveFence s)"
    and "AppleAgxSchedulerFenceAtOrAfter (sch_LastSubmittedFence s) (sch_CompletedFence s)"
    and "c = (if sch_ActiveFence s = 0 then sch_CompletedFence s else sch_ActiveFence s)"
    and "\<forall>f\<in>set (sched_fifo s). AppleAgxSchedulerFenceAfter f c"
  shows "\<exists>t. sched_preempt_and_resume s p = Some t \<and> sched_fifo t = sched_fifo s \<and>
           sched_preempted t = [] \<and> sch_PreemptionPhase t = AppleAgxPreemptionIdle \<and>
           sch_CompletedFence t = c"
proof -
  let ?a = "sch_ActiveFence s"
  obtain t where t: "AppleAgxSchedulerBeginBoundaryPreemption s 0 0 p
      (sch_LastSubmittedFence s) ?a = Some t"
  proof -
    have "\<not> (?a \<noteq> 0 \<and> (\<not> AppleAgxSchedulerFenceAfter ?a (sch_CompletedFence s) \<or>
        \<not> AppleAgxSchedulerFenceAtOrAfter (sch_LastSubmittedFence s) ?a))"
      using assms(5) by blast
    with that assms(2,3,6) show ?thesis
      by (simp only: AppleAgxSchedulerBeginBoundaryPreemption_def AppleAgxSchedulerValidateEngine_def)
        simp
  qed
  note b = BeginBoundary_Some [OF t] and wf = assms(1) [unfolded sched_wf_def]
  have tf: "sch_ActiveFence t = ?a" "sch_PreemptionActiveFence t = ?a"
    "sch_PendingPreemptionFence t = p"
    using t by (auto simp: AppleAgxSchedulerBeginBoundaryPreemption_def split: if_splits)
  obtain v where v: "(if ?a = 0 then Some t
      else Option.bind (AppleAgxSchedulerCompleteActiveFence t 0 0 ?a)
             (\<lambda>u. AppleAgxSchedulerObserveBoundaryCompletion u 0 0 ?a)) = Some v"
    and vf: "sch_PreemptionPhase v = AppleAgxPreemptionReadyToNotify" "sch_ActiveFence v = 0"
      "sch_PendingPreemptionFence v = p" "sch_CompletedFence v = c"
      "sched_preempted v = sched_fifo s" "sched_fifo v = []" "sched_arrays v"
  proof (cases "?a = 0")
    case True
    with that b wf tf assms(7) show ?thesis by (auto simp: tf)
  next
    case False
    define v where "v = t\<lparr> sch_CompletedFence := ?a, sch_ActiveFence := 0,
      sch_PreemptionActiveFence := 0, sch_PreemptionLastCompletedFence := ?a,
      sch_PreemptionPhase := AppleAgxPreemptionReadyToNotify \<rparr>"
    have "Option.bind (AppleAgxSchedulerCompleteActiveFence t 0 0 ?a)
             (\<lambda>u. AppleAgxSchedulerObserveBoundaryCompletion u 0 0 ?a) = Some v"
      using False tf b wf assms(5)
      by (simp add: AppleAgxSchedulerCompleteActiveFence_def AppleAgxSchedulerCompleteFence_def
          AppleAgxSchedulerCanCompleteFence_def AppleAgxSchedulerObserveBoundaryCompletion_def
          AppleAgxSchedulerValidateEngine_def AppleAgxSchedulerFenceAfter_def Let_def v_def)
    moreover have "sched_arrays v" "sched_fifo v = sched_fifo t"
      using b(8) wf sched_arrays_cong [of t v] by (auto simp: v_def)
    moreover have "sched_preempted v = sched_preempted t"
      by (simp add: v_def sched_preempted_def)
    ultimately show ?thesis
      using that [of v] False b(5,6) wf tf assms(7) by (simp add: v_def)
  qed
  let ?w = "v\<lparr> sch_PreemptionPhase := AppleAgxPreemptionNotificationClaimed \<rparr>"
  let ?r = "\<lparr> pre_PreemptionFence = p,
              pre_LastCompletedFence = sch_PreemptionLastCompletedFence v \<rparr>"
  have w: "AppleAgxSchedulerClaimBoundaryPreemption v = Some (?w, ?r)"
    by (simp add: AppleAgxSchedulerClaimBoundaryPreemption_def vf)
  obtain x where x: "AppleAgxSchedulerCommitBoundaryPreemption ?w p = Some x"
    by (simp add: AppleAgxSchedulerCommitBoundaryPreemption_def vf)
  then have xf: "sch_ActiveFence x = 0" "sch_CompletedFence x = c"
    by (auto simp: AppleAgxSchedulerCommitBoundaryPreemption_def vf split: if_splits)
  have wk: "sched_arrays ?w" "sched_fifo ?w = []" "sched_preempted ?w = sched_fifo s"
    using Claim_Some [OF w] vf by (simp_all add: sched_preempted_def)
  note k = Commit_Some [OF x]
  have "\<exists>t. sched_resubmit_all (sched_fifo s) x = Some t \<and>
       sched_fifo t = sched_fifo x @ sched_fifo s \<and> sched_preempted t = [] \<and>
       sch_PreemptionPhase t = AppleAgxPreemptionIdle \<and> sch_CompletedFence t = sch_CompletedFence x"
    using k wk xf assms(4,8) wf
    by (intro sched_resubmit_all_fifo) (auto simp: sched_arrays_def sched_fifo_def)
  then show ?thesis
    using t v w x wk k xf by (simp add: sched_preempt_and_resume_def)
qed

text \<open>A scheduler with fence 1 active and fences 2 and 3 queued, for the witnesses.\<close>

definition sched_demo :: APPLE_AGX_SCHEDULER where
  "sched_demo = sched_boot\<lparr> sch_LastSubmittedFence := 3, sch_QueuedFence := 2, sch_QueueHead := 1,
     sch_QueueCount := 2, sch_FenceQueue := [1, 2, 3] @ replicate 61 0, sch_ActiveFence := 1 \<rparr>"

lemma sched_demo_fifo: "sched_fifo sched_demo = [2, 3]"
  by (simp add: sched_fifo_def sched_demo_def ring_list_def upt_conv_Cons)

lemma sched_demo_wf: "sched_wf sched_demo"
  unfolding sched_wf_def sched_arrays_def sched_demo_fifo
  by (simp add: sched_demo_def sched_boot_def sched_phase_ok_def)

text \<open>C28. Preemption loses and reorders nothing: from any well-formed idle scheduler whose fences
  are in submission order, beginning a boundary preemption, completing the active fence, observing
  it, claiming and committing the notification and handing the preempted fences back all succeed,
  and the queue then holds exactly the fences it held before, in the same order, with only the
  active fence completed.\<close>

theorem sched_preemption_roundtrip:
  assumes "sched_wf s" and "sch_PreemptionPhase s = AppleAgxPreemptionIdle" and "p \<noteq> 0"
    and "successively (\<lambda>x y. AppleAgxSchedulerFenceAfter y x) (sched_fifo s)"
    and "sch_ActiveFence s \<noteq> 0 \<longrightarrow>
           AppleAgxSchedulerFenceAfter (sch_ActiveFence s) (sch_CompletedFence s) \<and>
           AppleAgxSchedulerFenceAtOrAfter (sch_LastSubmittedFence s) (sch_ActiveFence s)"
    and "AppleAgxSchedulerFenceAtOrAfter (sch_LastSubmittedFence s) (sch_CompletedFence s)"
    and "c = (if sch_ActiveFence s = 0 then sch_CompletedFence s else sch_ActiveFence s)"
    and "\<forall>f\<in>set (sched_fifo s). AppleAgxSchedulerFenceAfter f c"
  shows "\<exists>t. sched_preempt_and_resume s p = Some t \<and> sched_fifo t = sched_fifo s \<and>
           sched_preempted t = [] \<and> sch_PreemptionPhase t = AppleAgxPreemptionIdle \<and>
           sch_CompletedFence t = c"
  by (rule sched_preempt_and_resume_fifo) fact+

theorem sched_preemption_roundtrip_witness:
  "\<exists>t. sched_preempt_and_resume sched_demo 9 = Some t \<and> sched_fifo t = [2, 3] \<and>
       sch_CompletedFence t = 1"
proof -
  have "\<exists>t. sched_preempt_and_resume sched_demo 9 = Some t \<and>
      sched_fifo t = sched_fifo sched_demo \<and> sched_preempted t = [] \<and>
      sch_PreemptionPhase t = AppleAgxPreemptionIdle \<and> sch_CompletedFence t = 1"
    by (rule sched_preemption_roundtrip [OF sched_demo_wf])
       (simp_all add: sched_demo_fifo, simp_all add: sched_demo_def sched_boot_def
          AppleAgxSchedulerFenceAfter_def AppleAgxSchedulerFenceAtOrAfter_def)
  then show ?thesis by (auto simp: sched_demo_fifo)
qed



text \<open>An engine reset drops no queued fence: it reports the active fence (or the last completed
  one) as the last aborted, empties the queue, and leaves the whole queue, in order, at the front of
  the preempted fences, followed by those earlier preempted fences that still continue the order,
  up to the capacity of 64.\<close>

theorem sched_reset_keeps_queue:
  assumes "AppleAgxSchedulerResetEngine s n e = Some (t, lastAborted)" and "sched_wf s"
  shows "lastAborted = (if sch_ActiveFence s \<noteq> 0 then sch_ActiveFence s else sch_CompletedFence s) \<and>
         sched_fifo t = [] \<and> sch_ActiveFence t = 0 \<and> sch_Responsive t \<and>
         sch_PreemptionPhase t = AppleAgxPreemptionIdle \<and>
         length (sched_preempted t) \<le> 64 \<and>
         sched_preempted t = sched_fifo s
           @ keep_after (if sched_fifo s = [] then lastAborted else last (sched_fifo s))
               (64 - length (sched_fifo s)) (sched_preempted s)"
proof -
  have a: "sched_arrays s" using assms(2) by (simp add: sched_wf_def)
  note r = ResetEngine_Some [OF assms(1) a]
  have "length (sched_preempted t) \<le> 64"
    using r(4) by (simp add: sched_arrays_def sched_preempted_def)
  with r show ?thesis by blast
qed

theorem sched_reset_keeps_queue_witness:
  "\<exists>t. AppleAgxSchedulerResetEngine sched_demo 0 0 = Some (t, 1) \<and> sched_preempted t = [2, 3]"
proof -
  obtain t a where t: "AppleAgxSchedulerResetEngine sched_demo 0 0 = Some (t, a)"
    by (cases "AppleAgxSchedulerResetEngine sched_demo 0 0")
       (auto simp: AppleAgxSchedulerResetEngine_def AppleAgxSchedulerValidateEngine_def Let_def
         split: prod.splits)
  have p: "sched_preempted sched_demo = []"
    by (simp add: sched_preempted_def sched_demo_def sched_boot_def)
  from sched_reset_keeps_queue [OF t sched_demo_wf] have "a = 1" "sched_preempted t = [2, 3]"
    by (simp_all add: sched_demo_fifo p) (simp add: sched_demo_def)
  with t show ?thesis by blast
qed

lemmas sched_op_defs =
  AppleAgxSchedulerCreateContext_def AppleAgxSchedulerDestroyContext_def
  AppleAgxSchedulerCompleteFence_def AppleAgxSchedulerQueueFence_def
  AppleAgxSchedulerQueueResubmittedPagingFence_def sched_enqueue_def
  AppleAgxSchedulerActivateFence_def AppleAgxSchedulerCompleteActiveFence_def
  AppleAgxSchedulerBeginBoundaryPreemption_def AppleAgxSchedulerObserveBoundaryCompletion_def
  AppleAgxSchedulerClaimBoundaryPreemption_def AppleAgxSchedulerCommitBoundaryPreemption_def
  AppleAgxSchedulerBeginPreemption_def AppleAgxSchedulerAcknowledgePreemption_def
  AppleAgxSchedulerAbortPreemption_def AppleAgxSchedulerResetEngine_def

text \<open>The completed fence only moves forward: every operation either leaves it alone or
  replaces it by a fence that follows it in wrap-around order, and never by zero.\<close>

theorem sched_completion_monotone:
  assumes "sched_step s t"
  shows "sch_CompletedFence t = sch_CompletedFence s \<or>
         AppleAgxSchedulerFenceAfter (sch_CompletedFence t) (sch_CompletedFence s) \<and>
         sch_CompletedFence t \<noteq> 0"
  using assms
proof cases
  case complete
  then show ?thesis
    by (auto simp: AppleAgxSchedulerCompleteFence_def AppleAgxSchedulerCanCompleteFence_def
        AppleAgxSchedulerFenceAfter_def Let_def split: if_splits)
next
  case (complete_active n e f)
  then show ?thesis using CompleteActiveFence_Some(6-8) [OF complete_active] by simp
qed (auto simp: sched_op_defs Let_def
      split: if_splits option.splits prod.splits)

theorem sched_completion_monotone_witness:
  "AppleAgxSchedulerFenceAfter (sch_CompletedFence (sched_demo\<lparr> sch_CompletedFence := 1 \<rparr>))
     (sch_CompletedFence sched_demo)"
proof -
  have "AppleAgxSchedulerCompleteFence sched_demo 0 0 1 =
      Some (sched_demo\<lparr> sch_CompletedFence := 1 \<rparr>)"
    by (simp add: AppleAgxSchedulerCompleteFence_def AppleAgxSchedulerCanCompleteFence_def
        AppleAgxSchedulerValidateEngine_def sched_demo_def sched_boot_def)
  from sched_completion_monotone [OF sched_step.complete [OF this]]
  show ?thesis by (simp add: sched_demo_def sched_boot_def)
qed

text \<open>The edges of the preemption protocol.\<close>

inductive sched_phase_move ::
  "APPLE_AGX_PREEMPTION_PHASE \<Rightarrow> APPLE_AGX_PREEMPTION_PHASE \<Rightarrow> bool" where
  begin_wait: "sched_phase_move AppleAgxPreemptionIdle AppleAgxPreemptionWaitCurrentBoundary"
| begin_ready: "sched_phase_move AppleAgxPreemptionIdle AppleAgxPreemptionReadyToNotify"
| begin_claimed: "sched_phase_move AppleAgxPreemptionIdle AppleAgxPreemptionNotificationClaimed"
| boundary: "sched_phase_move AppleAgxPreemptionWaitCurrentBoundary AppleAgxPreemptionReadyToNotify"
| notify: "sched_phase_move AppleAgxPreemptionReadyToNotify AppleAgxPreemptionNotificationClaimed"
| give_up: "sched_phase_move p AppleAgxPreemptionIdle"

inductive_simps sched_phase_move_simps:
  "sched_phase_move AppleAgxPreemptionIdle q"
  "sched_phase_move AppleAgxPreemptionWaitCurrentBoundary q"
  "sched_phase_move AppleAgxPreemptionReadyToNotify q"
  "sched_phase_move AppleAgxPreemptionNotificationClaimed q"
  "sched_phase_move p AppleAgxPreemptionIdle"

lemma sched_step_phase:
  assumes "sched_step s t"
  shows "(sch_PreemptionPhase t = sch_PreemptionPhase s \<or>
          sched_phase_move (sch_PreemptionPhase s) (sch_PreemptionPhase t)) \<and>
         (sch_PreemptionPhase s = AppleAgxPreemptionNotificationClaimed \<and>
          sch_PreemptionPhase t \<noteq> AppleAgxPreemptionNotificationClaimed \<longrightarrow>
          AppleAgxSchedulerCommitBoundaryPreemption s (sch_PendingPreemptionFence s) = Some t \<or>
          (\<exists>n e a. AppleAgxSchedulerResetEngine s n e = Some (t, a)))"
  using assms
proof cases
  case (commit p)
  then show ?thesis
    by (auto simp: AppleAgxSchedulerCommitBoundaryPreemption_def sched_phase_move_simps
        split: if_splits)
next
  case (acknowledge p)
  then show ?thesis
    by (auto simp: AppleAgxSchedulerAcknowledgePreemption_def
        AppleAgxSchedulerCommitBoundaryPreemption_def sched_phase_move_simps split: if_splits)
next
  case (reset n e f)
  then have "sch_PreemptionPhase t = AppleAgxPreemptionIdle"
    by (auto simp: AppleAgxSchedulerResetEngine_def Let_def split: if_splits prod.splits)
  with reset show ?thesis by (auto simp: sched_phase_move_simps)
next
  case (create c n a c')
  then have "sch_PreemptionPhase t = sch_PreemptionPhase s"
    by (auto simp: AppleAgxSchedulerCreateContext_def split: if_splits)
  then show ?thesis by simp
next
  case (destroy c c')
  then have "sch_PreemptionPhase t = sch_PreemptionPhase s"
    by (auto simp: AppleAgxSchedulerDestroyContext_def split: if_splits)
  then show ?thesis by simp
next
  case (complete n e f)
  then show ?thesis by (simp add: CompleteFence_keep(4))
next
  case (queue n e f)
  then have "sch_PreemptionPhase t = sch_PreemptionPhase s"
    using QueueFence_Some(5) [OF queue] by (simp add: sched_enqueue_def)
  then show ?thesis by simp
next
  case (resubmit n e f)
  then have "sch_PreemptionPhase t = sch_PreemptionPhase s"
    by (auto simp: AppleAgxSchedulerQueueResubmittedPagingFence_def Let_def sched_enqueue_def
        split: if_splits)
  then show ?thesis by simp
next
  case (activate n e f)
  then have "sch_PreemptionPhase t = sch_PreemptionPhase s"
    by (auto simp: AppleAgxSchedulerActivateFence_def Let_def split: if_splits)
  then show ?thesis by simp
next
  case (complete_active n e f)
  then show ?thesis by (simp add: CompleteActiveFence_Some(4))
next
  case (begin_boundary n e p cutoff act)
  then have "sch_PreemptionPhase s = AppleAgxPreemptionIdle"
    by (auto simp: AppleAgxSchedulerBeginBoundaryPreemption_def split: if_splits)
  then show ?thesis by (cases "sch_PreemptionPhase t") (simp_all add: sched_phase_move_simps)
next
  case (observe n e f)
  then have "sch_PreemptionPhase s = AppleAgxPreemptionWaitCurrentBoundary"
    "sch_PreemptionPhase t = AppleAgxPreemptionReadyToNotify"
    by (auto simp: AppleAgxSchedulerObserveBoundaryCompletion_def split: if_splits)
  then show ?thesis by (simp add: sched_phase_move_simps)
next
  case (claim r)
  then have "sch_PreemptionPhase s = AppleAgxPreemptionReadyToNotify"
    "sch_PreemptionPhase t = AppleAgxPreemptionNotificationClaimed"
    by (auto simp: AppleAgxSchedulerClaimBoundaryPreemption_def split: if_splits)
  then show ?thesis by (simp add: sched_phase_move_simps)
next
  case (begin_preemption n e p r)
  then have "t = s \<or> sch_PreemptionPhase s = AppleAgxPreemptionIdle"
    by (auto simp: AppleAgxSchedulerBeginPreemption_def AppleAgxSchedulerBeginBoundaryPreemption_def
        split: if_splits)
  then show ?thesis by (cases "sch_PreemptionPhase t") (auto simp: sched_phase_move_simps)
next
  case (abort p)
  then have "sch_PreemptionPhase s \<noteq> AppleAgxPreemptionNotificationClaimed"
    "sch_PreemptionPhase t = AppleAgxPreemptionIdle"
    by (auto simp: AppleAgxSchedulerAbortPreemption_def split: if_splits)
  then show ?thesis by (simp add: sched_phase_move_simps)
qed

text \<open>The preemption phase follows its protocol: every operation keeps the phase or takes one of
  the edges of \<open>sched_phase_move\<close>, and a claimed notification ends only by its own commit or by
  an engine reset, never by an abort.\<close>

theorem sched_phase_protocol:
  assumes "sched_step s t"
  shows "(sch_PreemptionPhase t = sch_PreemptionPhase s \<or>
          sched_phase_move (sch_PreemptionPhase s) (sch_PreemptionPhase t)) \<and>
         (sch_PreemptionPhase s = AppleAgxPreemptionNotificationClaimed \<and>
          sch_PreemptionPhase t \<noteq> AppleAgxPreemptionNotificationClaimed \<longrightarrow>
          AppleAgxSchedulerCommitBoundaryPreemption s (sch_PendingPreemptionFence s) = Some t \<or>
          (\<exists>n e a. AppleAgxSchedulerResetEngine s n e = Some (t, a)))"
  by (rule sched_step_phase) fact

theorem sched_phase_protocol_witness:
  "sched_phase_move AppleAgxPreemptionReadyToNotify AppleAgxPreemptionNotificationClaimed"
proof -
  let ?s = "sched_demo\<lparr> sch_PreemptionPhase := AppleAgxPreemptionReadyToNotify \<rparr>"
  let ?t = "?s\<lparr> sch_PreemptionPhase := AppleAgxPreemptionNotificationClaimed \<rparr>"
  obtain r where "AppleAgxSchedulerClaimBoundaryPreemption ?s = Some (?t, r)"
    by (simp add: AppleAgxSchedulerClaimBoundaryPreemption_def)
  from sched_phase_protocol [OF sched_step.claim [OF this]] show ?thesis by simp
qed

end
