(* ===== verification/Submission.thy ===== *)
theory Submission
  imports Interfaces
begin

text \<open>
  The submission queue and the completion transaction of
  \<^verbatim>\<open>drivers/apple-agx/shared/src/apple_agx_submission.c\<close>: the ring of DMA packets the
  scheduler owns, the paging-replay ledger that re-admits discarded paging packets, and the receipt
  chain across the irreversible completion report.  A caller-owned array that the queue points to
  is an optional list (\<open>None\<close> is NULL) of the length the caller passes as its capacity; operations
  that refuse before their first store return \<open>None\<close>, and the two that store first return the flag
  beside the stored value.
\<close>

section \<open>State\<close>

datatype APPLE_AGX_SUBMISSION_KIND =
  AppleAgxSubmissionInvalid
| AppleAgxSubmissionGdi
| AppleAgxSubmissionPaging
| AppleAgxSubmissionContextSwitch
| AppleAgxSubmissionNull

record APPLE_AGX_SUBMISSION =
  sub_Kind :: APPLE_AGX_SUBMISSION_KIND
  sub_Fence :: u32
  sub_NodeOrdinal :: u32
  sub_EngineOrdinal :: u32
  sub_SegmentId :: u32
  sub_Flags :: u32
  sub_DmaAddress :: u64
  sub_DmaBytes :: u32
  sub_Reserved :: u32

record APPLE_AGX_SUBMISSION_ENTRY =
  ent_Submission :: APPLE_AGX_SUBMISSION
  ent_PrivateDataToken :: u64
  ent_PrivateDataBytes :: u32
  ent_PrivateDataStart :: u32
  ent_PrivateDataEnd :: u32
  ent_DmaSubmissionStart :: u32
  ent_DmaSubmissionEnd :: u32

record APPLE_AGX_SUBMISSION_QUEUE =
  sq_Entries :: "APPLE_AGX_SUBMISSION_ENTRY list option"
  sq_Capacity :: u32
  sq_Head :: u32
  sq_Count :: u32
  sq_CompletedFence :: u32
  sq_LastSubmittedFence :: u32
  sq_PublishedFence :: u32
  sq_ClaimedCompletionFence :: u32
  sq_PagingReplayFences :: "u32 list option"
  sq_PagingReplayCapacity :: u32
  sq_PagingReplayHead :: u32
  sq_PagingReplayCount :: u32

datatype APPLE_AGX_COMPLETION_PHASE =
  AppleAgxCompletionIdle
| AppleAgxCompletionClaimed
| AppleAgxCompletionSchedulerCommitted
| AppleAgxCompletionLocalCommitted
| AppleAgxCompletionBackendRetired
| AppleAgxCompletionReported

record APPLE_AGX_COMPLETION_TRANSACTION =
  ct_Phase :: APPLE_AGX_COMPLETION_PHASE
  ct_Fence :: u32
  ct_NodeOrdinal :: u32
  ct_EngineOrdinal :: u32

abbreviation FLAG_PAGING :: u32 where "FLAG_PAGING \<equiv> 0x1"
abbreviation FLAG_NULL_RENDERING :: u32 where "FLAG_NULL_RENDERING \<equiv> 0x8"
abbreviation FLAG_CONTEXT_SWITCH :: u32 where "FLAG_CONTEXT_SWITCH \<equiv> 0x40"
abbreviation FLAG_RESUBMISSION :: u32 where "FLAG_RESUBMISSION \<equiv> 0x80"
abbreviation FLAGS_ALLOWED :: u32 where "FLAGS_ALLOWED \<equiv> 0x1ff"

section \<open>Operations\<close>

definition AppleAgxSubmissionZero :: "APPLE_AGX_SUBMISSION \<Rightarrow> APPLE_AGX_SUBMISSION" where
  "AppleAgxSubmissionZero s =
     s\<lparr> sub_Kind := AppleAgxSubmissionInvalid, sub_Fence := 0, sub_NodeOrdinal := 0,
        sub_EngineOrdinal := 0, sub_SegmentId := 0, sub_Flags := 0, sub_DmaAddress := 0,
        sub_DmaBytes := 0, sub_Reserved := 0 \<rparr>"

definition AppleAgxSubmissionEntryZero ::
  "APPLE_AGX_SUBMISSION_ENTRY \<Rightarrow> APPLE_AGX_SUBMISSION_ENTRY" where
  "AppleAgxSubmissionEntryZero e =
     e\<lparr> ent_Submission := AppleAgxSubmissionZero (ent_Submission e),
        ent_PrivateDataToken := 0, ent_PrivateDataBytes := 0, ent_PrivateDataStart := 0,
        ent_PrivateDataEnd := 0, ent_DmaSubmissionStart := 0, ent_DmaSubmissionEnd := 0 \<rparr>"

definition AppleAgxFenceAfter :: "u32 \<Rightarrow> u32 \<Rightarrow> bool" where
  "AppleAgxFenceAfter candidate reference =
     (let distance = candidate - reference
      in distance \<noteq> 0 \<and> distance < 0x80000000)"

definition AppleAgxFenceAtOrAfter :: "u32 \<Rightarrow> u32 \<Rightarrow> bool" where
  "AppleAgxFenceAtOrAfter candidate reference \<longleftrightarrow>
     candidate = reference \<or> AppleAgxFenceAfter candidate reference"

function submission_zero_entries ::
  "APPLE_AGX_SUBMISSION_ENTRY list \<Rightarrow> nat \<Rightarrow> nat \<Rightarrow> APPLE_AGX_SUBMISSION_ENTRY list" where
  "submission_zero_entries es capacity index =
     (if index < capacity
      then submission_zero_entries (es[index := AppleAgxSubmissionEntryZero (es ! index)])
             capacity (Suc index)
      else es)"
  by pat_completeness auto
termination
  by (relation "measure (\<lambda>(es, capacity, index). capacity - index)") auto

declare submission_zero_entries.simps [simp del]

definition AppleAgxSubmissionQueueInitialize ::
  "APPLE_AGX_SUBMISSION_QUEUE \<Rightarrow> APPLE_AGX_SUBMISSION_ENTRY list option \<Rightarrow> u32
   \<Rightarrow> bool \<times> APPLE_AGX_SUBMISSION_QUEUE" where
  "AppleAgxSubmissionQueueInitialize q entries capacity =
     (let q0 = q\<lparr> sq_Entries := None, sq_Capacity := 0, sq_Head := 0, sq_Count := 0,
                  sq_CompletedFence := 0, sq_LastSubmittedFence := 0, sq_PublishedFence := 0,
                  sq_ClaimedCompletionFence := 0, sq_PagingReplayFences := None,
                  sq_PagingReplayCapacity := 0, sq_PagingReplayHead := 0,
                  sq_PagingReplayCount := 0 \<rparr>
      in case entries of
           None \<Rightarrow> (False, q0)
         | Some es \<Rightarrow>
             (if capacity = 0 then (False, q0)
              else (True, q0\<lparr> sq_Entries := Some (submission_zero_entries es (unat capacity) 0),
                              sq_Capacity := capacity \<rparr>)))"

function submission_zero_fences :: "u32 list \<Rightarrow> nat \<Rightarrow> nat \<Rightarrow> u32 list" where
  "submission_zero_fences r capacity index =
     (if index < capacity then submission_zero_fences (r[index := 0]) capacity (Suc index) else r)"
  by pat_completeness auto
termination
  by (relation "measure (\<lambda>(r, capacity, index). capacity - index)") auto

declare submission_zero_fences.simps [simp del]

definition AppleAgxSubmissionQueueConfigurePagingReplay ::
  "APPLE_AGX_SUBMISSION_QUEUE \<Rightarrow> u32 list option \<Rightarrow> u32
   \<Rightarrow> APPLE_AGX_SUBMISSION_QUEUE option" where
  "AppleAgxSubmissionQueueConfigurePagingReplay q replayFences replayCapacity =
     (if sq_Entries q = None \<or> sq_Capacity q = 0 \<or> sq_Count q \<noteq> 0 \<or>
         sq_PublishedFence q \<noteq> 0 \<or> sq_ClaimedCompletionFence q \<noteq> 0 \<or>
         sq_PagingReplayFences q \<noteq> None \<or> replayFences = None \<or>
         replayCapacity < sq_Capacity q
      then None
      else Some (q\<lparr> sq_PagingReplayFences :=
                      Some (submission_zero_fences (the replayFences) (unat replayCapacity) 0),
                    sq_PagingReplayCapacity := replayCapacity \<rparr>))"

definition AppleAgxSubmissionQueuePagingReplayDebt :: "APPLE_AGX_SUBMISSION_QUEUE \<Rightarrow> u32" where
  "AppleAgxSubmissionQueuePagingReplayDebt q = sq_PagingReplayCount q"

definition AppleAgxSubmissionQueueReplayBlocked :: "APPLE_AGX_SUBMISSION_QUEUE \<Rightarrow> bool" where
  "AppleAgxSubmissionQueueReplayBlocked q \<longleftrightarrow> sq_PagingReplayCount q \<noteq> 0"

text \<open>\<open>Describe\<close> zeroes its output before it checks, so a refusal also returns the zeroed packet.\<close>

definition AppleAgxSubmissionDescribe ::
  "u32 \<Rightarrow> u32 \<Rightarrow> u32 \<Rightarrow> u32 \<Rightarrow> u64 \<Rightarrow> u32 \<Rightarrow> u32 \<Rightarrow> u32 \<Rightarrow> u32 \<Rightarrow> APPLE_AGX_SUBMISSION
   \<Rightarrow> bool \<times> APPLE_AGX_SUBMISSION" where
  "AppleAgxSubmissionDescribe fence nodeOrdinal engineOrdinal segmentId dmaBufferAddress
       dmaBufferBytes submissionStart submissionEnd flags submission =
     (let zero = AppleAgxSubmissionZero submission;
          bytes = submissionEnd - submissionStart;
          kind = (if flags AND FLAG_CONTEXT_SWITCH \<noteq> 0 then AppleAgxSubmissionContextSwitch
                  else if flags AND FLAG_NULL_RENDERING \<noteq> 0 then AppleAgxSubmissionNull
                  else if flags AND FLAG_PAGING \<noteq> 0 then AppleAgxSubmissionPaging
                  else AppleAgxSubmissionGdi)
      in if fence = 0 \<or> nodeOrdinal \<noteq> 0 \<or> engineOrdinal \<noteq> 0 \<or>
            flags AND NOT FLAGS_ALLOWED \<noteq> 0 \<or>
            submissionStart > submissionEnd \<or> submissionEnd > dmaBufferBytes
         then (False, zero)
         else if flags AND FLAG_CONTEXT_SWITCH \<noteq> 0 \<and>
                 (bytes \<noteq> 0 \<or> flags AND NOT (FLAG_CONTEXT_SWITCH OR FLAG_PAGING) \<noteq> 0)
         then (False, zero)
         else if bytes \<noteq> 0 \<and>
                 (dmaBufferAddress = 0 \<or> dmaBufferAddress > NOT 0 - ucast submissionStart)
         then (False, zero)
         else if bytes = 0 \<and> kind \<noteq> AppleAgxSubmissionContextSwitch \<and>
                 kind \<noteq> AppleAgxSubmissionNull
         then (False, zero)
         else (True, zero\<lparr> sub_Kind := kind, sub_Fence := fence,
                           sub_NodeOrdinal := nodeOrdinal, sub_EngineOrdinal := engineOrdinal,
                           sub_SegmentId := segmentId, sub_Flags := flags,
                           sub_DmaAddress :=
                             (if bytes \<noteq> 0 then dmaBufferAddress + ucast submissionStart
                              else dmaBufferAddress),
                           sub_DmaBytes := bytes \<rparr>))"

definition AppleAgxSubmissionMayCompleteInSoftware :: "APPLE_AGX_SUBMISSION \<Rightarrow> bool" where
  "AppleAgxSubmissionMayCompleteInSoftware s \<longleftrightarrow>
     sub_Kind s = AppleAgxSubmissionNull \<or>
     (sub_Kind s = AppleAgxSubmissionContextSwitch \<and> sub_DmaBytes s = 0)"

text \<open>Slot \<open>index\<close> of the ring, counted from the head.\<close>

definition submission_slot :: "u32 \<Rightarrow> u32 \<Rightarrow> nat \<Rightarrow> nat" where
  "submission_slot head capacity index = unat ((head + of_nat index) mod capacity)"

text \<open>The two loops of a replay admission: the scan that refuses a duplicate fence and finds the
  first later packet, and the shift of the later packets by one slot, from the back.\<close>

function accept_scan ::
  "APPLE_AGX_SUBMISSION_ENTRY list \<Rightarrow> u32 \<Rightarrow> u32 \<Rightarrow> nat \<Rightarrow> u32 \<Rightarrow> nat \<Rightarrow> nat \<Rightarrow> nat option" where
  "accept_scan es head capacity count fence index insertOffset =
     (if index < count
      then let entry = es ! submission_slot head capacity index
           in if sub_Fence (ent_Submission entry) = fence then None
              else accept_scan es head capacity count fence (Suc index)
                     (if insertOffset = count \<and>
                         AppleAgxFenceAfter (sub_Fence (ent_Submission entry)) fence
                      then index else insertOffset)
      else Some insertOffset)"
  by pat_completeness auto
termination
  by (relation "measure (\<lambda>(es, head, capacity, count, fence, index, off). count - index)") auto

fun accept_shift ::
  "APPLE_AGX_SUBMISSION_ENTRY list \<Rightarrow> u32 \<Rightarrow> u32 \<Rightarrow> nat \<Rightarrow> nat
   \<Rightarrow> APPLE_AGX_SUBMISSION_ENTRY list" where
  "accept_shift es head capacity 0 insertOffset = es"
| "accept_shift es head capacity (Suc index) insertOffset =
     (if Suc index > insertOffset
      then accept_shift
             (es[submission_slot head capacity (Suc index) :=
                   es ! submission_slot head capacity index])
             head capacity index insertOffset
      else es)"

declare accept_scan.simps [simp del]

definition submission_paging_replay :: "APPLE_AGX_SUBMISSION \<Rightarrow> bool" where
  "submission_paging_replay s \<longleftrightarrow>
     sub_Kind s = AppleAgxSubmissionPaging \<and> sub_Flags s AND FLAG_RESUBMISSION \<noteq> 0"

definition AppleAgxSubmissionQueueAccept ::
  "APPLE_AGX_SUBMISSION_QUEUE \<Rightarrow> APPLE_AGX_SUBMISSION \<Rightarrow> u64 \<Rightarrow> u32 \<Rightarrow> u32 \<Rightarrow> u32 \<Rightarrow> u32 \<Rightarrow> u32
   \<Rightarrow> APPLE_AGX_SUBMISSION_QUEUE option" where
  "AppleAgxSubmissionQueueAccept q s token privBytes privStart privEnd dmaStart dmaEnd =
     (let pagingReplay = submission_paging_replay s;
          es = the (sq_Entries q); count = unat (sq_Count q)
      in if sq_Entries q = None \<or> sq_Capacity q = 0 \<or> sq_Count q \<ge> sq_Capacity q \<or>
            sub_Kind s = AppleAgxSubmissionInvalid \<or> sub_Reserved s \<noteq> 0 \<or>
            (sq_PagingReplayCount q \<noteq> 0 \<and> \<not> pagingReplay) \<or>
            (\<not> pagingReplay \<and> \<not> AppleAgxFenceAfter (sub_Fence s) (sq_LastSubmittedFence q)) \<or>
            (pagingReplay \<and>
             (\<not> AppleAgxFenceAfter (sub_Fence s) (sq_CompletedFence q) \<or>
              AppleAgxFenceAfter (sub_Fence s) (sq_LastSubmittedFence q))) \<or>
            privStart > privEnd \<or> privEnd > privBytes \<or> dmaStart > dmaEnd \<or>
            dmaEnd - dmaStart \<noteq> sub_DmaBytes s \<or>
            (sub_Kind s = AppleAgxSubmissionGdi \<and>
             (token = 0 \<or> privBytes = 0 \<or> privStart \<noteq> 0 \<or> privEnd = 0)) \<or>
            ((token = 0) \<noteq> (privBytes = 0))
         then None
         else if pagingReplay \<and>
                 (sq_PagingReplayFences q = None \<or> sq_PagingReplayCount q = 0 \<or>
                  the (sq_PagingReplayFences q) ! unat (sq_PagingReplayHead q) \<noteq> sub_Fence s)
         then None
         else case (if pagingReplay
                    then accept_scan es (sq_Head q) (sq_Capacity q) count (sub_Fence s) 0 count
                    else Some count) of
                None \<Rightarrow> None
              | Some off \<Rightarrow>
                  let es1 = (if pagingReplay
                             then accept_shift es (sq_Head q) (sq_Capacity q) count off else es);
                      slot = submission_slot (sq_Head q) (sq_Capacity q) off;
                      entry = (AppleAgxSubmissionEntryZero (es1 ! slot))
                                \<lparr> ent_Submission := s, ent_PrivateDataToken := token,
                                  ent_PrivateDataBytes := privBytes,
                                  ent_PrivateDataStart := privStart,
                                  ent_PrivateDataEnd := privEnd,
                                  ent_DmaSubmissionStart := dmaStart,
                                  ent_DmaSubmissionEnd := dmaEnd \<rparr>;
                      q1 = q\<lparr> sq_Entries := Some (es1[slot := entry]),
                              sq_Count := sq_Count q + 1 \<rparr>
                  in Some (if pagingReplay
                           then q1\<lparr> sq_PagingReplayFences :=
                                      Some ((the (sq_PagingReplayFences q))
                                              [unat (sq_PagingReplayHead q) := 0]),
                                    sq_PagingReplayHead :=
                                      (if sq_PagingReplayCount q - 1 = 0 then 0
                                       else (sq_PagingReplayHead q + 1)
                                              mod sq_PagingReplayCapacity q),
                                    sq_PagingReplayCount := sq_PagingReplayCount q - 1 \<rparr>
                           else q1\<lparr> sq_LastSubmittedFence := sub_Fence s \<rparr>))"

definition submission_head :: "APPLE_AGX_SUBMISSION_QUEUE \<Rightarrow> APPLE_AGX_SUBMISSION_ENTRY" where
  "submission_head q = the (sq_Entries q) ! unat (sq_Head q)"

definition submission_no_head :: "APPLE_AGX_SUBMISSION_QUEUE \<Rightarrow> bool" where
  "submission_no_head q \<longleftrightarrow> sq_Entries q = None \<or> sq_Capacity q = 0 \<or> sq_Count q = 0"

definition AppleAgxSubmissionQueuePeek ::
  "APPLE_AGX_SUBMISSION_QUEUE \<Rightarrow> APPLE_AGX_SUBMISSION_ENTRY option" where
  "AppleAgxSubmissionQueuePeek q =
     (if submission_no_head q then None else Some (submission_head q))"

definition AppleAgxSubmissionQueueMarkPublished ::
  "APPLE_AGX_SUBMISSION_QUEUE \<Rightarrow> u32 \<Rightarrow> APPLE_AGX_SUBMISSION_QUEUE option" where
  "AppleAgxSubmissionQueueMarkPublished q fence =
     (if fence = 0 \<or> submission_no_head q \<or> sq_PublishedFence q \<noteq> 0 \<or>
         sq_PagingReplayCount q \<noteq> 0 \<or> sub_Fence (ent_Submission (submission_head q)) \<noteq> fence
      then None
      else Some (q\<lparr> sq_PublishedFence := fence \<rparr>))"

definition AppleAgxSubmissionQueueClaimCompletion ::
  "APPLE_AGX_SUBMISSION_QUEUE \<Rightarrow> u32 \<Rightarrow> APPLE_AGX_SUBMISSION_QUEUE option" where
  "AppleAgxSubmissionQueueClaimCompletion q fence =
     (if fence = 0 \<or> submission_no_head q \<or> sq_ClaimedCompletionFence q \<noteq> 0 \<or>
         sub_Fence (ent_Submission (submission_head q)) \<noteq> fence
      then None
      else Some (q\<lparr> sq_ClaimedCompletionFence := fence \<rparr>))"

definition AppleAgxSubmissionQueueReleaseCompletion ::
  "APPLE_AGX_SUBMISSION_QUEUE \<Rightarrow> u32 \<Rightarrow> APPLE_AGX_SUBMISSION_QUEUE option" where
  "AppleAgxSubmissionQueueReleaseCompletion q fence =
     (if fence = 0 \<or> sq_ClaimedCompletionFence q \<noteq> fence then None
      else Some (q\<lparr> sq_ClaimedCompletionFence := 0 \<rparr>))"

text \<open>The stores every removal of the head shares: the published mark goes when it names the
  fence, the slot is zeroed, the head advances and the count drops.\<close>

definition submission_drop_head ::
  "APPLE_AGX_SUBMISSION_QUEUE \<Rightarrow> APPLE_AGX_SUBMISSION_QUEUE" where
  "submission_drop_head q =
     q\<lparr> sq_Entries := Some ((the (sq_Entries q))
          [unat (sq_Head q) := AppleAgxSubmissionEntryZero (submission_head q)]),
        sq_Head := (sq_Head q + 1) mod sq_Capacity q,
        sq_Count := sq_Count q - 1 \<rparr>"

definition AppleAgxSubmissionQueueCommitCompletion ::
  "APPLE_AGX_SUBMISSION_QUEUE \<Rightarrow> u32 \<Rightarrow> APPLE_AGX_SUBMISSION_QUEUE option" where
  "AppleAgxSubmissionQueueCommitCompletion q fence =
     (if fence = 0 \<or> submission_no_head q \<or> sq_ClaimedCompletionFence q \<noteq> fence then None
      else if sub_Fence (ent_Submission (submission_head q)) \<noteq> fence then None
      else Some (submission_drop_head
             (q\<lparr> sq_CompletedFence := fence,
                 sq_PublishedFence :=
                   (if sq_PublishedFence q = fence then 0 else sq_PublishedFence q),
                 sq_ClaimedCompletionFence := 0 \<rparr>)))"

definition AppleAgxSubmissionQueueCommitRetirement ::
  "APPLE_AGX_SUBMISSION_QUEUE \<Rightarrow> u32 \<Rightarrow> APPLE_AGX_SUBMISSION_QUEUE option" where
  "AppleAgxSubmissionQueueCommitRetirement q fence =
     (if fence = 0 \<or> submission_no_head q \<or> sq_ClaimedCompletionFence q \<noteq> fence then None
      else if sub_Fence (ent_Submission (submission_head q)) \<noteq> fence then None
      else Some (submission_drop_head
             (q\<lparr> sq_PublishedFence :=
                   (if sq_PublishedFence q = fence then 0 else sq_PublishedFence q),
                 sq_ClaimedCompletionFence := 0 \<rparr>)))"

text \<open>Discarding through a cutoff counts the paging packets first, so that it can refuse before
  its first store, and then drops the packets one by one, recording each paging fence.\<close>

function discard_count ::
  "APPLE_AGX_SUBMISSION_ENTRY list \<Rightarrow> u32 \<Rightarrow> u32 \<Rightarrow> nat \<Rightarrow> u32 \<Rightarrow> nat \<Rightarrow> nat \<Rightarrow> nat" where
  "discard_count es head capacity count cutoff index paging =
     (if index < count
      then let entry = es ! submission_slot head capacity index
           in if AppleAgxFenceAfter (sub_Fence (ent_Submission entry)) cutoff then paging
              else discard_count es head capacity count cutoff (Suc index)
                     (if sub_Kind (ent_Submission entry) = AppleAgxSubmissionPaging
                      then Suc paging else paging)
      else paging)"
  by pat_completeness auto
termination
  by (relation "measure (\<lambda>(es, head, capacity, count, cutoff, index, paging). count - index)") auto

declare discard_count.simps [simp del]

definition discard_record :: "APPLE_AGX_SUBMISSION_QUEUE \<Rightarrow> APPLE_AGX_SUBMISSION_QUEUE" where
  "discard_record q =
     (if sub_Kind (ent_Submission (submission_head q)) = AppleAgxSubmissionPaging
      then q\<lparr> sq_PagingReplayFences :=
                map_option (\<lambda>r. r[unat (sq_PagingReplayCount q) :=
                                     sub_Fence (ent_Submission (submission_head q))])
                  (sq_PagingReplayFences q),
              sq_PagingReplayCount := sq_PagingReplayCount q + 1 \<rparr>
      else q)"

lemma discard_record_count [simp]: "sq_Count (discard_record q) = sq_Count q"
  by (simp add: discard_record_def)

lemma submission_drop_head_count [simp]: "sq_Count (submission_drop_head q) = sq_Count q - 1"
  by (simp add: submission_drop_head_def)

function discard_loop ::
  "APPLE_AGX_SUBMISSION_QUEUE \<Rightarrow> u32 \<Rightarrow> u32 \<Rightarrow> APPLE_AGX_SUBMISSION_QUEUE \<times> u32" where
  "discard_loop q cutoff discarded =
     (if sq_Count q \<noteq> 0
      then if AppleAgxFenceAfter (sub_Fence (ent_Submission (submission_head q))) cutoff
           then (q, discarded)
           else discard_loop (submission_drop_head (discard_record q)) cutoff (discarded + 1)
      else (q, discarded))"
  by pat_completeness auto
termination
  by (relation "measure (\<lambda>(q, cutoff, discarded). unat (sq_Count q))")
     (auto simp: unat_minus_one unat_gt_0)

declare discard_loop.simps [simp del]

definition AppleAgxSubmissionQueueDiscardPreemptedThrough ::
  "APPLE_AGX_SUBMISSION_QUEUE \<Rightarrow> u32 \<Rightarrow> (APPLE_AGX_SUBMISSION_QUEUE \<times> u32) option" where
  "AppleAgxSubmissionQueueDiscardPreemptedThrough q cutoff =
     (if sq_Entries q = None \<or> sq_Capacity q = 0 \<or> sq_ClaimedCompletionFence q \<noteq> 0 \<or>
         sq_PublishedFence q \<noteq> 0 \<or> sq_PagingReplayCount q \<noteq> 0 \<or>
         \<not> AppleAgxFenceAtOrAfter cutoff (sq_CompletedFence q)
      then None
      else let paging = discard_count (the (sq_Entries q)) (sq_Head q) (sq_Capacity q)
                          (unat (sq_Count q)) cutoff 0 0
           in if paging \<noteq> 0 \<and> (sq_PagingReplayFences q = None \<or>
                               unat (sq_PagingReplayCapacity q) < paging)
              then None
              else Some (discard_loop q cutoff 0))"

definition AppleAgxSubmissionQueueResetPagingReplay ::
  "APPLE_AGX_SUBMISSION_QUEUE \<Rightarrow> bool \<Rightarrow> APPLE_AGX_SUBMISSION_QUEUE option" where
  "AppleAgxSubmissionQueueResetPagingReplay q quiesced =
     (if \<not> quiesced \<or> sq_PagingReplayFences q = None \<or> sq_PagingReplayCapacity q = 0 \<or>
         sq_PublishedFence q \<noteq> 0 \<or> sq_ClaimedCompletionFence q \<noteq> 0
      then None
      else Some (q\<lparr> sq_PagingReplayFences :=
                      Some (submission_zero_fences (the (sq_PagingReplayFences q))
                              (unat (sq_PagingReplayCapacity q)) 0),
                    sq_PagingReplayHead := 0, sq_PagingReplayCount := 0 \<rparr>))"

definition AppleAgxSubmissionQueueComplete ::
  "APPLE_AGX_SUBMISSION_QUEUE \<Rightarrow> u32 \<Rightarrow> APPLE_AGX_SUBMISSION_QUEUE option" where
  "AppleAgxSubmissionQueueComplete q fence =
     (if submission_no_head q \<or> sq_ClaimedCompletionFence q \<noteq> 0 then None
      else if fence \<noteq> sub_Fence (ent_Submission (submission_head q)) then None
      else Some (submission_drop_head
             (q\<lparr> sq_CompletedFence := fence,
                 sq_PublishedFence :=
                   (if sq_PublishedFence q = fence then 0 else sq_PublishedFence q) \<rparr>)))"

definition AppleAgxSubmissionQueueFault ::
  "APPLE_AGX_SUBMISSION_QUEUE \<Rightarrow> u32 \<Rightarrow> APPLE_AGX_SUBMISSION_QUEUE option" where
  "AppleAgxSubmissionQueueFault q fence =
     (if submission_no_head q \<or> sq_ClaimedCompletionFence q \<noteq> 0 then None
      else if fence \<noteq> sub_Fence (ent_Submission (submission_head q)) then None
      else Some (submission_drop_head
             (q\<lparr> sq_PublishedFence :=
                   (if sq_PublishedFence q = fence then 0 else sq_PublishedFence q) \<rparr>)))"

subsection \<open>The completion transaction\<close>

definition AppleAgxCompletionTransactionInitialize ::
  "APPLE_AGX_COMPLETION_TRANSACTION \<Rightarrow> APPLE_AGX_COMPLETION_TRANSACTION" where
  "AppleAgxCompletionTransactionInitialize t =
     t\<lparr> ct_Phase := AppleAgxCompletionIdle, ct_Fence := 0, ct_NodeOrdinal := 0,
        ct_EngineOrdinal := 0 \<rparr>"

definition AppleAgxCompletionTransactionBegin ::
  "APPLE_AGX_COMPLETION_TRANSACTION \<Rightarrow> u32 \<Rightarrow> u32 \<Rightarrow> u32
   \<Rightarrow> APPLE_AGX_COMPLETION_TRANSACTION option" where
  "AppleAgxCompletionTransactionBegin t fence nodeOrdinal engineOrdinal =
     (if fence = 0 \<or> ct_Phase t \<noteq> AppleAgxCompletionIdle then None
      else Some (t\<lparr> ct_Fence := fence, ct_NodeOrdinal := nodeOrdinal,
                    ct_EngineOrdinal := engineOrdinal, ct_Phase := AppleAgxCompletionClaimed \<rparr>))"

definition AppleAgxCompletionTransactionMatches ::
  "APPLE_AGX_COMPLETION_TRANSACTION \<Rightarrow> u32 \<Rightarrow> u32 \<Rightarrow> u32 \<Rightarrow> bool" where
  "AppleAgxCompletionTransactionMatches t fence nodeOrdinal engineOrdinal \<longleftrightarrow>
     fence \<noteq> 0 \<and> ct_Phase t \<noteq> AppleAgxCompletionIdle \<and> ct_Fence t = fence \<and>
     ct_NodeOrdinal t = nodeOrdinal \<and> ct_EngineOrdinal t = engineOrdinal"

definition AppleAgxCompletionTransitionValid ::
  "APPLE_AGX_COMPLETION_PHASE \<Rightarrow> APPLE_AGX_COMPLETION_PHASE \<Rightarrow> bool" where
  "AppleAgxCompletionTransitionValid expected next' \<longleftrightarrow>
     (expected = AppleAgxCompletionClaimed \<and> next' = AppleAgxCompletionSchedulerCommitted) \<or>
     (expected = AppleAgxCompletionSchedulerCommitted \<and>
      next' = AppleAgxCompletionLocalCommitted) \<or>
     (expected = AppleAgxCompletionLocalCommitted \<and> next' = AppleAgxCompletionBackendRetired)"

definition AppleAgxCompletionTransactionAdvance ::
  "APPLE_AGX_COMPLETION_TRANSACTION \<Rightarrow> u32 \<Rightarrow> u32 \<Rightarrow> u32 \<Rightarrow> APPLE_AGX_COMPLETION_PHASE
   \<Rightarrow> APPLE_AGX_COMPLETION_PHASE \<Rightarrow> APPLE_AGX_COMPLETION_TRANSACTION option" where
  "AppleAgxCompletionTransactionAdvance t fence nodeOrdinal engineOrdinal expected next' =
     (if \<not> AppleAgxCompletionTransitionValid expected next' \<or>
         \<not> AppleAgxCompletionTransactionMatches t fence nodeOrdinal engineOrdinal \<or>
         ct_Phase t \<noteq> expected
      then None
      else Some (t\<lparr> ct_Phase := next' \<rparr>))"

definition AppleAgxCompletionTransactionCanReport ::
  "APPLE_AGX_COMPLETION_TRANSACTION \<Rightarrow> u32 \<Rightarrow> u32 \<Rightarrow> u32 \<Rightarrow> bool" where
  "AppleAgxCompletionTransactionCanReport t fence nodeOrdinal engineOrdinal \<longleftrightarrow>
     AppleAgxCompletionTransactionMatches t fence nodeOrdinal engineOrdinal \<and>
     ct_Phase t = AppleAgxCompletionBackendRetired"

definition AppleAgxCompletionTransactionMarkReported ::
  "APPLE_AGX_COMPLETION_TRANSACTION \<Rightarrow> APPLE_AGX_COMPLETION_TRANSACTION" where
  "AppleAgxCompletionTransactionMarkReported t = t\<lparr> ct_Phase := AppleAgxCompletionReported \<rparr>"

definition AppleAgxCompletionTransactionFinish ::
  "APPLE_AGX_COMPLETION_TRANSACTION \<Rightarrow> u32 \<Rightarrow> u32 \<Rightarrow> u32
   \<Rightarrow> APPLE_AGX_COMPLETION_TRANSACTION option" where
  "AppleAgxCompletionTransactionFinish t fence nodeOrdinal engineOrdinal =
     (if \<not> AppleAgxCompletionTransactionMatches t fence nodeOrdinal engineOrdinal \<or>
         ct_Phase t \<noteq> AppleAgxCompletionReported
      then None
      else Some (AppleAgxCompletionTransactionInitialize t))"

section \<open>Contents and well-formedness\<close>

interpretation submission_order: serial_order AppleAgxFenceAfter
  by unfold_locales (simp add: AppleAgxFenceAfter_def Let_def unat_gt_0 word_less_nat_alt)

definition sq_fifo :: "APPLE_AGX_SUBMISSION_QUEUE \<Rightarrow> APPLE_AGX_SUBMISSION_ENTRY list" where
  "sq_fifo q = (case sq_Entries q of None \<Rightarrow> []
                | Some es \<Rightarrow> ring_list es (unat (sq_Head q)) (unat (sq_Count q)))"

definition ent_fence :: "APPLE_AGX_SUBMISSION_ENTRY \<Rightarrow> u32" where
  "ent_fence e = sub_Fence (ent_Submission e)"

definition ent_paging :: "APPLE_AGX_SUBMISSION_ENTRY \<Rightarrow> bool" where
  "ent_paging e \<longleftrightarrow> sub_Kind (ent_Submission e) = AppleAgxSubmissionPaging"

definition sq_replay :: "APPLE_AGX_SUBMISSION_QUEUE \<Rightarrow> u32 list" where
  "sq_replay q = (case sq_PagingReplayFences q of None \<Rightarrow> []
     | Some r \<Rightarrow> take (unat (sq_PagingReplayCount q)) (drop (unat (sq_PagingReplayHead q)) r))"

definition sq_ring :: "APPLE_AGX_SUBMISSION_QUEUE \<Rightarrow> bool" where
  "sq_ring q \<longleftrightarrow> (case sq_Entries q of
       None \<Rightarrow> sq_Capacity q = 0 \<and> sq_Count q = 0
     | Some es \<Rightarrow> length es = unat (sq_Capacity q) \<and> 0 < unat (sq_Capacity q) \<and>
                  unat (sq_Capacity q) \<le> 2 ^ 31 \<and> unat (sq_Head q) < unat (sq_Capacity q) \<and>
                  unat (sq_Count q) \<le> unat (sq_Capacity q))"

definition sq_ledger :: "APPLE_AGX_SUBMISSION_QUEUE \<Rightarrow> bool" where
  "sq_ledger q \<longleftrightarrow> (case sq_PagingReplayFences q of
       None \<Rightarrow> sq_PagingReplayCount q = 0 \<and> sq_PagingReplayHead q = 0
     | Some r \<Rightarrow> length r = unat (sq_PagingReplayCapacity q) \<and>
                 0 < unat (sq_PagingReplayCapacity q) \<and>
                 unat (sq_Capacity q) \<le> unat (sq_PagingReplayCapacity q) \<and>
                 unat (sq_PagingReplayHead q) + unat (sq_PagingReplayCount q)
                   \<le> unat (sq_PagingReplayCapacity q) \<and>
                 (sq_PagingReplayCount q = 0 \<longrightarrow> sq_PagingReplayHead q = 0))"

definition sq_marks :: "APPLE_AGX_SUBMISSION_QUEUE \<Rightarrow> bool" where
  "sq_marks q \<longleftrightarrow>
     (sq_PublishedFence q \<noteq> 0 \<longrightarrow> sq_PagingReplayCount q = 0 \<and> sq_fifo q \<noteq> [] \<and>
        ent_fence (hd (sq_fifo q)) = sq_PublishedFence q) \<and>
     (sq_ClaimedCompletionFence q \<noteq> 0 \<longrightarrow>
        sq_ClaimedCompletionFence q \<in> ent_fence ` set (sq_fifo q))"

text \<open>What admission checked of every queued packet.\<close>

definition ent_valid :: "APPLE_AGX_SUBMISSION_ENTRY \<Rightarrow> bool" where
  "ent_valid e \<longleftrightarrow>
     sub_Kind (ent_Submission e) \<noteq> AppleAgxSubmissionInvalid \<and>
     sub_Reserved (ent_Submission e) = 0 \<and>
     ent_PrivateDataStart e \<le> ent_PrivateDataEnd e \<and>
     ent_PrivateDataEnd e \<le> ent_PrivateDataBytes e \<and>
     ent_DmaSubmissionStart e \<le> ent_DmaSubmissionEnd e \<and>
     ent_DmaSubmissionEnd e - ent_DmaSubmissionStart e = sub_DmaBytes (ent_Submission e) \<and>
     (sub_Kind (ent_Submission e) = AppleAgxSubmissionGdi \<longrightarrow>
        ent_PrivateDataToken e \<noteq> 0 \<and> ent_PrivateDataBytes e \<noteq> 0 \<and>
        ent_PrivateDataStart e = 0 \<and> ent_PrivateDataEnd e \<noteq> 0) \<and>
     (ent_PrivateDataToken e = 0 \<longleftrightarrow> ent_PrivateDataBytes e = 0)"

definition sq_wf :: "APPLE_AGX_SUBMISSION_QUEUE \<Rightarrow> bool" where
  "sq_wf q \<longleftrightarrow>
     sq_ring q \<and> sq_ledger q \<and> sq_marks q \<and> (\<forall>e\<in>set (sq_fifo q). ent_valid e)"

lemma sq_ring_Some:
  assumes "sq_ring q" and "sq_Entries q = Some es"
  shows "length es = unat (sq_Capacity q)" and "0 < unat (sq_Capacity q)"
    and "unat (sq_Capacity q) \<le> 2 ^ 31" and "unat (sq_Head q) < unat (sq_Capacity q)"
    and "unat (sq_Count q) \<le> unat (sq_Capacity q)"
  using assms by (simp_all add: sq_ring_def)

lemma submission_slot_nat [word_nat]:
  assumes "unat h < unat c" and "unat c \<le> 2 ^ 31" and "i \<le> unat c"
  shows "submission_slot h c i = (unat h + i) mod unat c"
proof -
  have i: "unat (of_nat i :: u32) = i"
    using assms by (simp add: unat_of_nat)
  with assms show ?thesis
    by (simp add: submission_slot_def unat_add_mod_no_wrap)
qed

section \<open>Reference behaviour of the loops\<close>

lemma length_submission_zero_entries [simp]:
  "length (submission_zero_entries es capacity index) = length es"
  by (induction es capacity index rule: submission_zero_entries.induct)
     (simp add: submission_zero_entries.simps)

lemma length_submission_zero_fences [simp]:
  "length (submission_zero_fences r capacity index) = length r"
  by (induction r capacity index rule: submission_zero_fences.induct)
     (simp add: submission_zero_fences.simps)

lemma submission_zero_fences_spec:
  "index \<le> capacity \<Longrightarrow> length r = capacity \<Longrightarrow>
   submission_zero_fences r capacity index = take index r @ replicate (capacity - index) 0"
proof (induction r capacity index rule: submission_zero_fences.induct)
  case (1 r capacity index)
  show ?case
  proof (cases "index < capacity")
    case True
    then have "capacity - index = Suc (capacity - Suc index)" by linarith
    with 1 True show ?thesis
      by (subst submission_zero_fences.simps) (simp add: take_Suc_conv_app_nth)
  next
    case False
    with 1 show ?thesis by (subst submission_zero_fences.simps) simp
  qed
qed

lemma accept_scan_ring:
  assumes "unat h < unat c" and "unat c \<le> 2 ^ 31" and "length es = unat c" and "n \<le> unat c"
    and "index \<le> n"
  shows "accept_scan es h c n f index off =
     (if f \<in> ent_fence ` set (drop index (ring_list es (unat h) n)) then None
      else Some (if off \<noteq> n then off
        else index + length (takeWhile (\<lambda>e. \<not> AppleAgxFenceAfter (ent_fence e) f)
                               (drop index (ring_list es (unat h) n)))))"
  using assms
proof (induction es h c n f index off rule: accept_scan.induct)
  case (1 es h c n f index off)
  show ?case
  proof (cases "index < n")
    case False
    with 1 show ?thesis by (subst accept_scan.simps) simp
  next
    case True
    let ?e = "es ! ((unat h + index) mod unat c)"
    have s: "submission_slot h c index = (unat h + index) mod unat c"
      using 1 True by (intro submission_slot_nat) auto
    have d: "drop index (ring_list es (unat h) n) = ?e # drop (Suc index) (ring_list es (unat h) n)"
      using True 1 by (simp add: Cons_nth_drop_Suc [symmetric] nth_ring_list)
    show ?thesis
    proof (cases "ent_fence ?e = f")
      case eq: True
      then show ?thesis
        using True by (subst accept_scan.simps) (simp add: s d ent_fence_def Let_def)
    next
      case False
      then have ne: "sub_Fence (ent_Submission (es ! submission_slot h c index)) \<noteq> f"
        by (simp add: s ent_fence_def)
      note IH = "1.IH" [OF True refl ne "1.prems"(1-4)]
      show ?thesis
        using True False IH "1.prems"
        by (subst accept_scan.simps) (auto simp: s d ent_fence_def Let_def)
    qed
  qed
qed

lemma length_accept_shift [simp]: "length (accept_shift es h c index off) = length es"
  by (induction es h c index off rule: accept_shift.induct) simp_all

lemma nth_accept_shift:
  "unat h < unat c \<Longrightarrow> unat c \<le> 2 ^ 31 \<Longrightarrow> length es = unat c \<Longrightarrow> i < unat c \<Longrightarrow> k \<le> i \<Longrightarrow>
   j < unat c \<Longrightarrow>
   accept_shift es h c i k ! ((unat h + j) mod unat c) =
     es ! ((unat h + (if k < j \<and> j \<le> i then j - 1 else j)) mod unat c)"
proof (induction es h c i k arbitrary: j rule: accept_shift.induct)
  case (1 es h c k)
  then show ?case by simp
next
  case (2 es h c i k)
  have s: "submission_slot h c (Suc i) = (unat h + Suc i) mod unat c"
    "submission_slot h c i = (unat h + i) mod unat c"
    using submission_slot_nat [of h c "Suc i"] submission_slot_nat [of h c i] "2.prems"
    by simp_all
  let ?es = "es[(unat h + Suc i) mod unat c := es ! ((unat h + i) mod unat c)]"
  show ?case
  proof (cases "k \<le> i")
    case False
    with 2 show ?thesis by auto
  next
    case True
    have IH: "accept_shift ?es h c i k ! ((unat h + j) mod unat c) =
        ?es ! ((unat h + (if k < j \<and> j \<le> i then j - 1 else j)) mod unat c)"
      using 2 True unfolding s by simp
    let ?j = "if k < j \<and> j \<le> i then j - 1 else j"
    have "?es ! ((unat h + ?j) mod unat c) =
        es ! ((unat h + (if k < j \<and> j \<le> Suc i then j - 1 else j)) mod unat c)"
    proof (cases "j = Suc i")
      case True
      with 2 \<open>k \<le> i\<close> show ?thesis by simp
    next
      case False
      then have "(unat h + ?j) mod unat c \<noteq> (unat h + Suc i) mod unat c"
        using 2 by (intro ring_slot_neq) auto
      with False show ?thesis by auto
    qed
    with IH 2 True show ?thesis by (simp add: s)
  qed
qed

text \<open>Scan, shift and store together insert one element at an offset of the ring.\<close>

lemma ring_list_insert:
  assumes "unat h < unat c" and "unat c \<le> 2 ^ 31" and "length es = unat c" and "n < unat c"
    and "k \<le> n"
  shows "ring_list ((accept_shift es h c n k)[(unat h + k) mod unat c := x]) (unat h) (Suc n)
       = take k (ring_list es (unat h) n) @ x # drop k (ring_list es (unat h) n)"
    (is "?l = ?r")
proof (rule nth_equalityI)
  show "length ?l = length ?r" using assms by simp
next
  fix j assume "j < length ?l"
  then have j: "j \<le> n" by simp
  let ?s = "accept_shift es h c n k"
  have "?l ! j = ?s[(unat h + k) mod unat c := x] ! ((unat h + j) mod unat c)"
    using j assms by (simp add: nth_ring_list)
  also have "\<dots> = (if j = k then x else ?s ! ((unat h + j) mod unat c))"
  proof (cases "j = k")
    case True
    with assms show ?thesis by simp
  next
    case False
    then have "(unat h + j) mod unat c \<noteq> (unat h + k) mod unat c"
      using assms j by (intro ring_slot_neq) auto
    with False show ?thesis by simp
  qed
  also have "\<dots> = ?r ! j"
    using assms j
    by (auto simp: nth_accept_shift nth_append nth_Cons' nth_ring_list min_def)
  finally show "?l ! j = ?r ! j" .
qed

lemma ring_list_same_slots:
  assumes "length es = length es'" and "\<forall>i<n. es ! ((h + i) mod length es) = es' ! ((h + i) mod length es)"
  shows "ring_list es h n = ring_list es' h n"
  using assms by (simp add: ring_list_def)

section \<open>Functional behaviour of each operation\<close>

text \<open>Admission: without the replay flag the packet goes to the back; with it, in front of the
  first packet whose fence follows its own.\<close>

definition insert_fence ::
  "APPLE_AGX_SUBMISSION_ENTRY \<Rightarrow> APPLE_AGX_SUBMISSION_ENTRY list \<Rightarrow> APPLE_AGX_SUBMISSION_ENTRY list"
where
  "insert_fence e es =
     takeWhile (\<lambda>x. \<not> AppleAgxFenceAfter (ent_fence x) (ent_fence e)) es @ e
     # dropWhile (\<lambda>x. \<not> AppleAgxFenceAfter (ent_fence x) (ent_fence e)) es"

definition submission_entry ::
  "APPLE_AGX_SUBMISSION \<Rightarrow> u64 \<Rightarrow> u32 \<Rightarrow> u32 \<Rightarrow> u32 \<Rightarrow> u32 \<Rightarrow> u32 \<Rightarrow> APPLE_AGX_SUBMISSION_ENTRY"
where
  "submission_entry s token privBytes privStart privEnd dmaStart dmaEnd =
     \<lparr> ent_Submission = s, ent_PrivateDataToken = token, ent_PrivateDataBytes = privBytes,
       ent_PrivateDataStart = privStart, ent_PrivateDataEnd = privEnd,
       ent_DmaSubmissionStart = dmaStart, ent_DmaSubmissionEnd = dmaEnd \<rparr>"

lemma submission_entry_fill:
  "(AppleAgxSubmissionEntryZero x)
     \<lparr> ent_Submission := s, ent_PrivateDataToken := token, ent_PrivateDataBytes := privBytes,
       ent_PrivateDataStart := privStart, ent_PrivateDataEnd := privEnd,
       ent_DmaSubmissionStart := dmaStart, ent_DmaSubmissionEnd := dmaEnd \<rparr>
   = submission_entry s token privBytes privStart privEnd dmaStart dmaEnd"
  by (cases x) (simp add: submission_entry_def AppleAgxSubmissionEntryZero_def)

lemma ent_fence_submission_entry [simp]: "ent_fence (submission_entry s tk b s1 e1 s2 e2) = sub_Fence s"
  by (simp add: ent_fence_def submission_entry_def)

lemma accept_guards:
  assumes "AppleAgxSubmissionQueueAccept q s tk b s1 e1 s2 e2 = Some t"
  shows "sq_Entries q \<noteq> None" and "sq_Count q < sq_Capacity q"
    and "sub_Kind s \<noteq> AppleAgxSubmissionInvalid"
    and "sq_PagingReplayCount q \<noteq> 0 \<longrightarrow> submission_paging_replay s"
    and "\<not> submission_paging_replay s \<longrightarrow>
         AppleAgxFenceAfter (sub_Fence s) (sq_LastSubmittedFence q)"
    and "submission_paging_replay s \<longrightarrow>
         AppleAgxFenceAfter (sub_Fence s) (sq_CompletedFence q) \<and>
         sq_PagingReplayFences q \<noteq> None \<and> sq_PagingReplayCount q \<noteq> 0 \<and>
         the (sq_PagingReplayFences q) ! unat (sq_PagingReplayHead q) = sub_Fence s"
    and "ent_valid (submission_entry s tk b s1 e1 s2 e2)"
  using assms
  by (auto simp: AppleAgxSubmissionQueueAccept_def Let_def not_less ent_valid_def
      submission_entry_def split: if_splits)

lemma accept_normal:
  assumes "AppleAgxSubmissionQueueAccept q s tk b s1 e1 s2 e2 = Some t"
    and "\<not> submission_paging_replay s" and "sq_ring q"
  shows "sq_fifo t = sq_fifo q @ [submission_entry s tk b s1 e1 s2 e2]" and "sq_ring t"
    and "sq_PagingReplayCount q = 0"
    and "sq_LastSubmittedFence t = sub_Fence s"
    and "sq_PagingReplayFences t = sq_PagingReplayFences q"
    and "sq_PagingReplayCapacity t = sq_PagingReplayCapacity q"
    and "sq_PagingReplayHead t = sq_PagingReplayHead q"
    and "sq_PagingReplayCount t = sq_PagingReplayCount q"
    and "sq_PublishedFence t = sq_PublishedFence q"
    and "sq_ClaimedCompletionFence t = sq_ClaimedCompletionFence q"
    and "sq_CompletedFence t = sq_CompletedFence q" and "sq_Capacity t = sq_Capacity q"
proof -
  note g = accept_guards [OF assms(1)]
  from g(1) obtain es where es: "sq_Entries q = Some es" by blast
  note r = sq_ring_Some [OF assms(3) es]
  let ?n = "unat (sq_Count q)"
  let ?slot = "submission_slot (sq_Head q) (sq_Capacity q) ?n"
  have lt: "?n < unat (sq_Capacity q)" using g(2) by (simp add: word_less_nat_alt)
  have slot: "?slot = (unat (sq_Head q) + ?n) mod unat (sq_Capacity q)"
    using r by (intro submission_slot_nat) auto
  have t: "t = q\<lparr> sq_Entries := Some (es[?slot := submission_entry s tk b s1 e1 s2 e2]),
                  sq_Count := sq_Count q + 1, sq_LastSubmittedFence := sub_Fence s \<rparr>"
    using assms(1,2)
    by (simp add: AppleAgxSubmissionQueueAccept_def es Let_def submission_entry_fill split: if_splits)
  have c: "unat (sq_Count q + 1) = Suc ?n" by (rule unat_Suc_no_wrap) (rule lt)
  show "sq_fifo t = sq_fifo q @ [submission_entry s tk b s1 e1 s2 e2]"
    using ring_list_push [of ?n es "unat (sq_Head q)"] r lt
    by (simp add: sq_fifo_def t es c slot)
  show "sq_ring t" using assms(3) lt c by (simp add: sq_ring_def t es)
  show "sq_PagingReplayCount q = 0" using g(4) assms(2) by blast
qed (use assms(1,2) in \<open>auto simp: AppleAgxSubmissionQueueAccept_def Let_def split: if_splits\<close>)

lemma accept_replay:
  assumes "AppleAgxSubmissionQueueAccept q s tk b s1 e1 s2 e2 = Some t"
    and "submission_paging_replay s" and "sq_ring q" and "sq_ledger q"
  shows "sq_fifo t = insert_fence (submission_entry s tk b s1 e1 s2 e2) (sq_fifo q)"
    and "sq_ring t" and "sq_ledger t" and "sq_replay q = sub_Fence s # sq_replay t"
    and "sub_Fence s \<notin> ent_fence ` set (sq_fifo q)"
    and "sq_LastSubmittedFence t = sq_LastSubmittedFence q"
    and "sq_PublishedFence t = sq_PublishedFence q"
    and "sq_ClaimedCompletionFence t = sq_ClaimedCompletionFence q"
    and "sq_CompletedFence t = sq_CompletedFence q" and "sq_Capacity t = sq_Capacity q"
proof -
  note g = accept_guards [OF assms(1)]
  from g(1,6) assms(2) obtain es rp where es: "sq_Entries q = Some es"
    and rp: "sq_PagingReplayFences q = Some rp" by blast
  note r = sq_ring_Some [OF assms(3) es]
  let ?n = "unat (sq_Count q)" and ?h = "unat (sq_Head q)" and ?c = "unat (sq_Capacity q)"
  let ?e = "submission_entry s tk b s1 e1 s2 e2"
  have lt: "?n < ?c" using g(2) by (simp add: word_less_nat_alt)
  let ?k = "length (takeWhile (\<lambda>e. \<not> AppleAgxFenceAfter (ent_fence e) (sub_Fence s)) (sq_fifo q))"
  have fifo: "sq_fifo q = ring_list es ?h ?n" by (simp add: sq_fifo_def es)
  have kn: "?k \<le> ?n" using length_takeWhile_le [of _ "sq_fifo q"] by (simp add: fifo)
  have scan: "accept_scan es (sq_Head q) (sq_Capacity q) ?n (sub_Fence s) 0 ?n =
      (if sub_Fence s \<in> ent_fence ` set (sq_fifo q) then None else Some ?k)"
    using accept_scan_ring [of "sq_Head q" "sq_Capacity q" es ?n 0 "sub_Fence s" ?n] r lt
    by (simp add: fifo)
  show fresh: "sub_Fence s \<notin> ent_fence ` set (sq_fifo q)"
    using assms(1,2) by (auto simp: AppleAgxSubmissionQueueAccept_def es Let_def scan split: if_splits)
  have slot: "submission_slot (sq_Head q) (sq_Capacity q) ?k = (?h + ?k) mod ?c"
    using r lt kn by (intro submission_slot_nat) auto
  let ?es = "(accept_shift es (sq_Head q) (sq_Capacity q) ?n ?k)[(?h + ?k) mod ?c := ?e]"
  have t: "t = q\<lparr> sq_Entries := Some ?es, sq_Count := sq_Count q + 1,
      sq_PagingReplayFences := Some (rp[unat (sq_PagingReplayHead q) := 0]),
      sq_PagingReplayHead := (if sq_PagingReplayCount q - 1 = 0 then 0
          else (sq_PagingReplayHead q + 1) mod sq_PagingReplayCapacity q),
      sq_PagingReplayCount := sq_PagingReplayCount q - 1 \<rparr>"
    using assms(1,2) fresh
    by (simp add: AppleAgxSubmissionQueueAccept_def es rp Let_def scan slot submission_entry_fill
        split: if_splits)
  have c: "unat (sq_Count q + 1) = Suc ?n" by (rule unat_Suc_no_wrap) (rule lt)
  have "sq_fifo t = take ?k (sq_fifo q) @ ?e # drop ?k (sq_fifo q)"
    using ring_list_insert [of "sq_Head q" "sq_Capacity q" es ?n ?k ?e] r lt kn
    by (simp add: sq_fifo_def t es c)
  then show "sq_fifo t = insert_fence ?e (sq_fifo q)"
    by (simp add: insert_fence_def takeWhile_eq_take [symmetric] dropWhile_eq_drop [symmetric])
  show "sq_ring t" using assms(3) lt c by (simp add: sq_ring_def t es)
  have l: "length rp = unat (sq_PagingReplayCapacity q)" "?c \<le> unat (sq_PagingReplayCapacity q)"
    "unat (sq_PagingReplayHead q) + unat (sq_PagingReplayCount q) \<le> length rp"
    using assms(4) rp by (auto simp: sq_ledger_def)
  have n0: "sq_PagingReplayCount q \<noteq> 0" using g(6) assms(2) by blast
  have rc: "unat (sq_PagingReplayCount q - 1) = unat (sq_PagingReplayCount q) - 1"
    using n0 by (rule unat_pred)
  have np: "0 < unat (sq_PagingReplayCount q)" using n0 by (simp add: unat_gt_0)
  have rh: "unat ((sq_PagingReplayHead q + 1) mod sq_PagingReplayCapacity q) =
      Suc (unat (sq_PagingReplayHead q))" if "sq_PagingReplayCount q - 1 \<noteq> 0"
  proof -
    have "unat (sq_PagingReplayCount q - 1) \<noteq> 0" using that by (simp add: unat_0_iff)
    then have "Suc (unat (sq_PagingReplayHead q)) < length rp" using l rc by linarith
    moreover have "unat (sq_PagingReplayHead q + 1) = Suc (unat (sq_PagingReplayHead q))"
      using l np by (intro unat_Suc_no_wrap [of _ "sq_PagingReplayCapacity q"]) linarith
    ultimately show ?thesis using l by (simp add: unat_mod)
  qed
  have hl: "unat (sq_PagingReplayHead q) < length rp" using l np by linarith
  have hd: "rp ! unat (sq_PagingReplayHead q) = sub_Fence s" using g(6) assms(2) rp by simp
  show "sq_ledger t"
    using assms(4) rp l rc rh np by (auto simp: sq_ledger_def t)
  obtain m where m: "unat (sq_PagingReplayCount q) = Suc m" using np gr0_implies_Suc by blast
  have "sq_replay q = sub_Fence s # take m (drop (Suc (unat (sq_PagingReplayHead q))) rp)"
    using hl hd by (simp add: sq_replay_def rp m Cons_nth_drop_Suc [symmetric])
  moreover have "sq_replay t = take m (drop (Suc (unat (sq_PagingReplayHead q))) rp)"
  proof (cases "sq_PagingReplayCount q - 1 = 0")
    case True
    then have "m = 0" using rc m by simp
    with True show ?thesis by (simp add: sq_replay_def t)
  next
    case False
    then show ?thesis by (simp add: sq_replay_def t rh rc m)
  qed
  ultimately show "sq_replay q = sub_Fence s # sq_replay t" by simp
qed (use assms(1,2) in \<open>auto simp: AppleAgxSubmissionQueueAccept_def Let_def
       split: if_splits option.splits\<close>)

lemma submission_head_fifo:
  assumes "sq_ring q" and "\<not> submission_no_head q"
  shows "sq_fifo q \<noteq> []" and "hd (sq_fifo q) = submission_head q"
proof -
  from assms(2) obtain es where es: "sq_Entries q = Some es" and c: "sq_Count q \<noteq> 0"
    by (auto simp: submission_no_head_def)
  note r = sq_ring_Some [OF assms(1) es]
  have "0 < unat (sq_Count q)" using c by (simp add: unat_gt_0)
  with r show "sq_fifo q \<noteq> []" "hd (sq_fifo q) = submission_head q"
    by (simp_all add: sq_fifo_def es hd_ring_list submission_head_def)
qed

lemma no_head_iff: "sq_ring q \<Longrightarrow> submission_no_head q \<longleftrightarrow> sq_fifo q = []"
  by (auto simp: submission_no_head_def sq_fifo_def sq_ring_def unat_0_iff split: option.splits)

lemma drop_head_fifo:
  assumes "sq_ring q" and "\<not> submission_no_head q"
  shows "sq_fifo q = submission_head q # sq_fifo (submission_drop_head q)"
    and "sq_ring (submission_drop_head q)"
proof -
  from assms(2) obtain es where es: "sq_Entries q = Some es" and c: "sq_Count q \<noteq> 0"
    by (auto simp: submission_no_head_def)
  note r = sq_ring_Some [OF assms(1) es]
  let ?n = "unat (sq_Count q)" and ?h = "unat (sq_Head q)"
  have n: "0 < ?n" using c by (simp add: unat_gt_0)
  have n1: "unat (sq_Count q - 1) = ?n - 1" using c by (rule unat_pred)
  have h1: "unat ((sq_Head q + 1) mod sq_Capacity q) = Suc ?h mod unat (sq_Capacity q)"
    using r by (simp add: unat_add_mod_no_wrap)
  let ?z = "AppleAgxSubmissionEntryZero (submission_head q)"
  have "ring_list (es[?h := ?z]) (Suc ?h mod length es) (?n - 1) =
      ring_list es (Suc ?h mod length es) (?n - 1)"
    using ring_list_update_head [of ?n es ?h ?z] n r by simp
  then show "sq_fifo q = submission_head q # sq_fifo (submission_drop_head q)"
    using ring_list_pop [OF n, of es ?h] r
    by (simp add: sq_fifo_def es submission_drop_head_def n1 h1 submission_head_def)
  show "sq_ring (submission_drop_head q)"
    using r n1 by (simp add: sq_ring_def es submission_drop_head_def h1)
qed

lemma drop_head_frame [simp]:
  "sq_Capacity (submission_drop_head q) = sq_Capacity q"
  "sq_CompletedFence (submission_drop_head q) = sq_CompletedFence q"
  "sq_LastSubmittedFence (submission_drop_head q) = sq_LastSubmittedFence q"
  "sq_PublishedFence (submission_drop_head q) = sq_PublishedFence q"
  "sq_ClaimedCompletionFence (submission_drop_head q) = sq_ClaimedCompletionFence q"
  "sq_PagingReplayFences (submission_drop_head q) = sq_PagingReplayFences q"
  "sq_PagingReplayCapacity (submission_drop_head q) = sq_PagingReplayCapacity q"
  "sq_PagingReplayHead (submission_drop_head q) = sq_PagingReplayHead q"
  "sq_PagingReplayCount (submission_drop_head q) = sq_PagingReplayCount q"
  by (simp_all add: submission_drop_head_def)

lemma discard_record_frame [simp]:
  "sq_Entries (discard_record q) = sq_Entries q" "sq_Head (discard_record q) = sq_Head q"
  "sq_Capacity (discard_record q) = sq_Capacity q"
  "sq_CompletedFence (discard_record q) = sq_CompletedFence q"
  "sq_LastSubmittedFence (discard_record q) = sq_LastSubmittedFence q"
  "sq_PublishedFence (discard_record q) = sq_PublishedFence q"
  "sq_ClaimedCompletionFence (discard_record q) = sq_ClaimedCompletionFence q"
  "sq_PagingReplayCapacity (discard_record q) = sq_PagingReplayCapacity q"
  "sq_PagingReplayHead (discard_record q) = sq_PagingReplayHead q"
  by (simp_all add: discard_record_def)

lemma discard_record_contents [simp]:
  "sq_fifo (discard_record q) = sq_fifo q" "submission_head (discard_record q) = submission_head q"
  "sq_ring (discard_record q) = sq_ring q" "submission_no_head (discard_record q) = submission_no_head q"
  by (simp_all add: sq_fifo_def submission_head_def sq_ring_def submission_no_head_def
      split: option.split)

lemma sq_replay_drop_head [simp]: "sq_replay (submission_drop_head q) = sq_replay q"
  by (simp add: sq_replay_def split: option.split)

lemma sq_ledger_drop_head [simp]: "sq_ledger (submission_drop_head q) = sq_ledger q"
  by (simp add: sq_ledger_def split: option.split)

text \<open>How many paging packets the pre-scan counts.\<close>

lemma discard_count_ring:
  assumes "unat h < unat c" and "unat c \<le> 2 ^ 31" and "length es = unat c" and "n \<le> unat c"
    and "index \<le> n"
  shows "discard_count es h c n cutoff index paging =
     paging + length (filter ent_paging (takeWhile (\<lambda>e. \<not> AppleAgxFenceAfter (ent_fence e) cutoff)
       (drop index (ring_list es (unat h) n))))"
  using assms
proof (induction es h c n cutoff index paging rule: discard_count.induct)
  case (1 es h c n cutoff index paging)
  show ?case
  proof (cases "index < n")
    case False
    with 1 show ?thesis by (subst discard_count.simps) simp
  next
    case True
    let ?e = "es ! ((unat h + index) mod unat c)"
    have s: "submission_slot h c index = (unat h + index) mod unat c"
      using 1 True by (intro submission_slot_nat) auto
    have d: "drop index (ring_list es (unat h) n) = ?e # drop (Suc index) (ring_list es (unat h) n)"
      using True 1 by (simp add: Cons_nth_drop_Suc [symmetric] nth_ring_list)
    show ?thesis
    proof (cases "AppleAgxFenceAfter (ent_fence ?e) cutoff")
      case after: True
      then show ?thesis
        using True by (subst discard_count.simps) (simp add: s d ent_fence_def Let_def)
    next
      case False
      then have ne: "\<not> AppleAgxFenceAfter
          (sub_Fence (ent_Submission (es ! submission_slot h c index))) cutoff"
        by (simp add: s ent_fence_def)
      note IH = "1.IH" [OF True refl ne "1.prems"(1-4)]
      show ?thesis
        using True False IH "1.prems"
        by (subst discard_count.simps) (auto simp: s d ent_fence_def ent_paging_def [abs_def] Let_def)
    qed
  qed
qed

lemma discard_record_replay:
  assumes "sq_PagingReplayFences q = Some rp" and "sq_PagingReplayHead q = 0"
    and "ent_paging (submission_head q) \<longrightarrow> unat (sq_PagingReplayCount q) < length rp"
    and "length rp = unat (sq_PagingReplayCapacity q)"
  shows "\<exists>rp'. sq_PagingReplayFences (discard_record q) = Some rp' \<and> length rp' = length rp"
    and "sq_replay (discard_record q) =
           sq_replay q @ (if ent_paging (submission_head q) then [ent_fence (submission_head q)] else [])"
    and "unat (sq_PagingReplayCount (discard_record q)) = unat (sq_PagingReplayCount q)
           + (if ent_paging (submission_head q) then 1 else 0)"
proof -
  let ?c = "unat (sq_PagingReplayCount q)"
  have c: "unat (sq_PagingReplayCount q + 1) = Suc ?c" if "ent_paging (submission_head q)"
    using assms(3,4) that by (intro unat_Suc_no_wrap [of _ "sq_PagingReplayCapacity q"]) simp
  show "\<exists>rp'. sq_PagingReplayFences (discard_record q) = Some rp' \<and> length rp' = length rp"
    using assms(1) by (simp add: discard_record_def)
  show "sq_replay (discard_record q) =
      sq_replay q @ (if ent_paging (submission_head q) then [ent_fence (submission_head q)] else [])"
    using assms c
    by (simp add: sq_replay_def discard_record_def ent_paging_def ent_fence_def
        take_Suc_conv_app_nth)
  show "unat (sq_PagingReplayCount (discard_record q)) = ?c
      + (if ent_paging (submission_head q) then 1 else 0)"
    using c by (simp add: discard_record_def ent_paging_def)
qed

lemma discard_record_none:
  "\<not> ent_paging (submission_head q) \<Longrightarrow> discard_record q = q"
  by (simp add: discard_record_def ent_paging_def)

text \<open>The whole discard: the packets up to the first one after the cutoff leave, and the paging
  fences among them enter the ledger in queue order.\<close>

definition discard_prefix ::
  "u32 \<Rightarrow> APPLE_AGX_SUBMISSION_ENTRY list \<Rightarrow> APPLE_AGX_SUBMISSION_ENTRY list" where
  "discard_prefix cutoff es = takeWhile (\<lambda>e. \<not> AppleAgxFenceAfter (ent_fence e) cutoff) es"

definition discard_rest ::
  "u32 \<Rightarrow> APPLE_AGX_SUBMISSION_ENTRY list \<Rightarrow> APPLE_AGX_SUBMISSION_ENTRY list" where
  "discard_rest cutoff es = dropWhile (\<lambda>e. \<not> AppleAgxFenceAfter (ent_fence e) cutoff) es"

definition discard_room :: "APPLE_AGX_SUBMISSION_QUEUE \<Rightarrow> nat \<Rightarrow> bool" where
  "discard_room q n \<longleftrightarrow> n = 0 \<or>
     (\<exists>rp. sq_PagingReplayFences q = Some rp \<and> length rp = unat (sq_PagingReplayCapacity q) \<and>
           sq_PagingReplayHead q = 0 \<and> unat (sq_PagingReplayCount q) + n \<le> length rp)"

lemma discard_room_record:
  assumes "discard_room q n" and "ent_paging (submission_head q) \<longrightarrow> n = Suc m"
    and "\<not> ent_paging (submission_head q) \<longrightarrow> n = m"
  shows "discard_room (submission_drop_head (discard_record q)) m"
proof (cases "ent_paging (submission_head q)")
  case False
  with assms show ?thesis by (simp add: discard_record_none discard_room_def)
next
  case True
  with assms obtain rp where rp: "sq_PagingReplayFences q = Some rp"
    "length rp = unat (sq_PagingReplayCapacity q)" "sq_PagingReplayHead q = 0"
    "unat (sq_PagingReplayCount q) + Suc m \<le> length rp"
    by (auto simp: discard_room_def)
  then have "ent_paging (submission_head q) \<longrightarrow> unat (sq_PagingReplayCount q) < length rp" by simp
  note r = discard_record_replay [OF rp(1,3) this rp(2)]
  from r(1) obtain rp' where "sq_PagingReplayFences (discard_record q) = Some rp'"
    "length rp' = length rp" by blast
  with rp r(3) True show ?thesis by (simp add: discard_room_def)
qed

lemma discard_record_sq_replay:
  assumes "discard_room q n" and "ent_paging (submission_head q) \<longrightarrow> n = Suc m"
  shows "sq_replay (discard_record q) =
      sq_replay q @ (if ent_paging (submission_head q) then [ent_fence (submission_head q)] else [])"
proof (cases "ent_paging (submission_head q)")
  case False
  then show ?thesis by (simp add: discard_record_none)
next
  case True
  with assms obtain rp where rp: "sq_PagingReplayFences q = Some rp"
    "length rp = unat (sq_PagingReplayCapacity q)" "sq_PagingReplayHead q = 0"
    "unat (sq_PagingReplayCount q) < length rp"
    by (auto simp: discard_room_def)
  then show ?thesis by (intro discard_record_replay(2) [of q rp]) simp_all
qed

lemma discard_record_ledger:
  assumes "sq_ledger q" and "discard_room q n" and "ent_paging (submission_head q) \<longrightarrow> n = Suc m"
  shows "sq_ledger (discard_record q)"
proof (cases "ent_paging (submission_head q)")
  case False
  with assms show ?thesis by (simp add: discard_record_none)
next
  case True
  with assms obtain rp where rp: "sq_PagingReplayFences q = Some rp"
    "length rp = unat (sq_PagingReplayCapacity q)" "sq_PagingReplayHead q = 0"
    "unat (sq_PagingReplayCount q) + Suc m \<le> length rp"
    by (auto simp: discard_room_def)
  then have "ent_paging (submission_head q) \<longrightarrow> unat (sq_PagingReplayCount q) < length rp" by simp
  note r = discard_record_replay [OF rp(1,3) this rp(2)]
  from r(1) obtain rp' where "sq_PagingReplayFences (discard_record q) = Some rp'"
    "length rp' = length rp" by blast
  with assms(1) rp r(3) True show ?thesis by (simp add: sq_ledger_def)
qed

lemma discard_loop_spec:
  "sq_ring q \<Longrightarrow> sq_Entries q \<noteq> None \<Longrightarrow> sq_Capacity q \<noteq> 0 \<Longrightarrow>
   discard_room q (length (filter ent_paging (discard_prefix cutoff (sq_fifo q)))) \<Longrightarrow>
   discard_loop q cutoff d = (t, d') \<Longrightarrow>
   sq_fifo t = discard_rest cutoff (sq_fifo q) \<and>
   sq_replay t = sq_replay q @ map ent_fence (filter ent_paging (discard_prefix cutoff (sq_fifo q))) \<and>
   d' = d + of_nat (length (discard_prefix cutoff (sq_fifo q))) \<and> sq_ring t \<and>
   (sq_ledger q \<longrightarrow> sq_ledger t) \<and>
   sq_Capacity t = sq_Capacity q \<and> sq_CompletedFence t = sq_CompletedFence q \<and>
   sq_LastSubmittedFence t = sq_LastSubmittedFence q \<and>
   sq_PublishedFence t = sq_PublishedFence q \<and>
   sq_ClaimedCompletionFence t = sq_ClaimedCompletionFence q \<and>
   sq_PagingReplayHead t = sq_PagingReplayHead q \<and>
   sq_PagingReplayCapacity t = sq_PagingReplayCapacity q"
proof (induction q cutoff d rule: discard_loop.induct)
  case (1 q cutoff d)
  show ?case
  proof (cases "submission_no_head q")
    case True
    then have "sq_fifo q = []" using no_head_iff [OF "1.prems"(1)] by simp
    moreover have "sq_Count q = 0" using True "1.prems" by (simp add: submission_no_head_def)
    ultimately show ?thesis
      using "1.prems" by (subst (asm) discard_loop.simps)
        (auto simp: discard_prefix_def discard_rest_def discard_room_def)
  next
    case False
    then have c: "sq_Count q \<noteq> 0" by (simp add: submission_no_head_def)
    let ?e = "submission_head q" and ?q = "submission_drop_head (discard_record q)"
    note f = drop_head_fifo [of "discard_record q", simplified, OF "1.prems"(1) False]
    show ?thesis
    proof (cases "AppleAgxFenceAfter (ent_fence ?e) cutoff")
      case True
      with c "1.prems" f show ?thesis
        by (subst (asm) discard_loop.simps)
          (auto simp: discard_prefix_def discard_rest_def discard_room_def ent_fence_def)
    next
      case na: False
      then have rec: "discard_loop ?q cutoff (d + 1) = (t, d')"
        using c "1.prems"(5) by (simp add: discard_loop.simps [of q cutoff d] ent_fence_def)
      have e: "sq_Entries ?q \<noteq> None" by (simp add: submission_drop_head_def)
      have p: "discard_prefix cutoff (sq_fifo q) = ?e # discard_prefix cutoff (sq_fifo ?q)"
        "discard_rest cutoff (sq_fifo q) = discard_rest cutoff (sq_fifo ?q)"
        using f na by (simp_all add: discard_prefix_def discard_rest_def)
      let ?n = "length (filter ent_paging (discard_prefix cutoff (sq_fifo q)))"
      let ?m = "length (filter ent_paging (discard_prefix cutoff (sq_fifo ?q)))"
      have nm: "ent_paging ?e \<longrightarrow> ?n = Suc ?m" "\<not> ent_paging ?e \<longrightarrow> ?n = ?m"
        by (simp_all add: p)
      have room: "discard_room ?q ?m" by (rule discard_room_record [OF "1.prems"(4) nm])
      have rep: "sq_replay (discard_record q) = sq_replay q @ (if ent_paging ?e then [ent_fence ?e] else [])"
        using discard_record_sq_replay [OF "1.prems"(4) nm(1)] by simp
      have cap: "sq_Capacity ?q \<noteq> 0" using "1.prems"(3) by simp
      have na': "\<not> AppleAgxFenceAfter (sub_Fence (ent_Submission ?e)) cutoff"
        using na by (simp add: ent_fence_def)
      have led: "sq_ledger q \<longrightarrow> sq_ledger (discard_record q)"
        using discard_record_ledger [OF _ "1.prems"(4) nm(1)] by blast
      from "1.IH" [OF c na' f(2) e cap room rec] led show ?thesis
        by (simp add: p rep)
    qed
  qed
qed

lemma Discard_Some:
  assumes "AppleAgxSubmissionQueueDiscardPreemptedThrough q cutoff = Some (t, n)" and "sq_wf q"
  shows "sq_fifo t = discard_rest cutoff (sq_fifo q)"
    and "sq_replay t = map ent_fence (filter ent_paging (discard_prefix cutoff (sq_fifo q)))"
    and "n = of_nat (length (discard_prefix cutoff (sq_fifo q)))"
    and "sq_CompletedFence t = sq_CompletedFence q"
    and "sq_LastSubmittedFence t = sq_LastSubmittedFence q" and "sq_wf t"
    and "sq_Capacity t = sq_Capacity q"
proof -
  from assms(2) have w: "sq_ring q" "sq_ledger q" by (simp_all add: sq_wf_def)
  from assms(1) obtain es where es: "sq_Entries q = Some es" and c0: "sq_Capacity q \<noteq> 0"
    and z: "sq_ClaimedCompletionFence q = 0" "sq_PublishedFence q = 0" "sq_PagingReplayCount q = 0"
    by (auto simp: AppleAgxSubmissionQueueDiscardPreemptedThrough_def split: if_splits)
  note r = sq_ring_Some [OF w(1) es]
  let ?n = "length (filter ent_paging (discard_prefix cutoff (sq_fifo q)))"
  have cnt: "discard_count es (sq_Head q) (sq_Capacity q) (unat (sq_Count q)) cutoff 0 0 = ?n"
    using discard_count_ring [of "sq_Head q" "sq_Capacity q" es "unat (sq_Count q)" 0 cutoff 0] r
    by (simp add: discard_prefix_def sq_fifo_def es)
  from assms(1) es z c0 have room: "?n = 0 \<or> sq_PagingReplayFences q \<noteq> None \<and>
      ?n \<le> unat (sq_PagingReplayCapacity q)" and l: "discard_loop q cutoff 0 = (t, n)"
    by (auto simp: AppleAgxSubmissionQueueDiscardPreemptedThrough_def cnt Let_def split: if_splits)
  have "discard_room q ?n"
    using room w(2) z(3) by (auto simp: discard_room_def sq_ledger_def)
  from discard_loop_spec [OF w(1) _ c0 this l] es
  have d: "sq_fifo t = discard_rest cutoff (sq_fifo q)"
    "sq_replay t = sq_replay q @ map ent_fence (filter ent_paging (discard_prefix cutoff (sq_fifo q)))"
    "n = of_nat (length (discard_prefix cutoff (sq_fifo q)))" "sq_ring t" "sq_ledger t"
    "sq_CompletedFence t = sq_CompletedFence q" "sq_LastSubmittedFence t = sq_LastSubmittedFence q"
    "sq_PublishedFence t = 0" "sq_ClaimedCompletionFence t = 0" "sq_Capacity t = sq_Capacity q"
    using w z by auto
  have "sq_replay q = []" by (simp add: sq_replay_def z split: option.split)
  with d show "sq_fifo t = discard_rest cutoff (sq_fifo q)"
    "sq_replay t = map ent_fence (filter ent_paging (discard_prefix cutoff (sq_fifo q)))"
    "n = of_nat (length (discard_prefix cutoff (sq_fifo q)))"
    "sq_CompletedFence t = sq_CompletedFence q" "sq_LastSubmittedFence t = sq_LastSubmittedFence q"
    "sq_Capacity t = sq_Capacity q"
    by simp_all
  have "\<forall>e\<in>set (sq_fifo t). ent_valid e"
    using assms(2) d(1) by (auto simp: sq_wf_def discard_rest_def dest: set_dropWhileD)
  then show "sq_wf t" using d by (simp add: sq_wf_def sq_marks_def)
qed

text \<open>Removing the head, as every completion path does it.\<close>

definition sq_removed ::
  "u32 \<Rightarrow> APPLE_AGX_SUBMISSION_QUEUE \<Rightarrow> APPLE_AGX_SUBMISSION_QUEUE \<Rightarrow> bool" where
  "sq_removed fence q t \<longleftrightarrow>
     sq_fifo q \<noteq> [] \<and> ent_fence (hd (sq_fifo q)) = fence \<and> sq_fifo t = tl (sq_fifo q) \<and>
     sq_ring t \<and> sq_replay t = sq_replay q \<and> sq_LastSubmittedFence t = sq_LastSubmittedFence q \<and>
     sq_ClaimedCompletionFence t = 0 \<and>
     sq_PublishedFence t = (if sq_PublishedFence q = fence then 0 else sq_PublishedFence q)"

lemma sq_removed_wf:
  assumes "sq_removed fence q t" and "sq_wf q" and "sq_ledger t"
  shows "sq_wf t" and "sq_PublishedFence t = 0"
  using assms by (auto simp: sq_wf_def sq_marks_def sq_removed_def dest: list.set_sel(2))

lemma sq_removed_drop_head:
  assumes "sq_wf q" and "\<not> submission_no_head q" and "ent_fence (submission_head q) = fence"
    and "sq_Entries q' = sq_Entries q" "sq_Head q' = sq_Head q" "sq_Count q' = sq_Count q"
    "sq_Capacity q' = sq_Capacity q" "sq_LastSubmittedFence q' = sq_LastSubmittedFence q"
    "sq_PagingReplayFences q' = sq_PagingReplayFences q"
    "sq_PagingReplayCapacity q' = sq_PagingReplayCapacity q"
    "sq_PagingReplayHead q' = sq_PagingReplayHead q"
    "sq_PagingReplayCount q' = sq_PagingReplayCount q"
    "sq_ClaimedCompletionFence q' = 0"
    "sq_PublishedFence q' = (if sq_PublishedFence q = fence then 0 else sq_PublishedFence q)"
  shows "sq_removed fence q (submission_drop_head q')" and "sq_wf (submission_drop_head q')"
proof -
  have same: "sq_fifo q' = sq_fifo q" "submission_head q' = submission_head q"
    "submission_no_head q' = submission_no_head q" "sq_replay q' = sq_replay q"
    using assms by (simp_all add: sq_fifo_def submission_head_def submission_no_head_def sq_replay_def
        cong: option.case_cong)
  have ring: "sq_ring q'" "sq_ring q" "sq_ledger q'"
    using assms by (simp_all add: sq_ring_def sq_wf_def sq_ledger_def cong: option.case_cong)
  note d = drop_head_fifo [OF ring(1), unfolded same, OF assms(2)]
  note h = submission_head_fifo [OF ring(2) assms(2)]
  show r: "sq_removed fence q (submission_drop_head q')"
    using d h assms same by (simp add: sq_removed_def)
  have "sq_ledger (submission_drop_head q')" using ring(3) by simp
  with r assms(1) show "sq_wf (submission_drop_head q')" by (rule sq_removed_wf(1))
qed

lemma CommitCompletion_Some:
  assumes "AppleAgxSubmissionQueueCommitCompletion q fence = Some t" and "sq_wf q"
  shows "sq_removed fence q t" and "sq_wf t" and "sq_CompletedFence t = fence"
    and "sq_ClaimedCompletionFence q = fence" and "fence \<noteq> 0"
  using assms
  by (auto simp: AppleAgxSubmissionQueueCommitCompletion_def ent_fence_def
      intro!: sq_removed_drop_head split: if_splits)

lemma CommitRetirement_Some:
  assumes "AppleAgxSubmissionQueueCommitRetirement q fence = Some t" and "sq_wf q"
  shows "sq_removed fence q t" and "sq_wf t" and "sq_CompletedFence t = sq_CompletedFence q"
    and "sq_ClaimedCompletionFence q = fence" and "fence \<noteq> 0"
  using assms
  by (auto simp: AppleAgxSubmissionQueueCommitRetirement_def ent_fence_def
      intro!: sq_removed_drop_head split: if_splits)

lemma Complete_Some:
  assumes "AppleAgxSubmissionQueueComplete q fence = Some t" and "sq_wf q"
  shows "sq_removed fence q t" and "sq_wf t" and "sq_CompletedFence t = fence"
    and "sq_ClaimedCompletionFence q = 0"
  using assms
  by (auto simp: AppleAgxSubmissionQueueComplete_def ent_fence_def
      intro!: sq_removed_drop_head split: if_splits)

lemma Fault_Some:
  assumes "AppleAgxSubmissionQueueFault q fence = Some t" and "sq_wf q"
  shows "sq_removed fence q t" and "sq_wf t" and "sq_CompletedFence t = sq_CompletedFence q"
    and "sq_ClaimedCompletionFence q = 0"
  using assms
  by (auto simp: AppleAgxSubmissionQueueFault_def ent_fence_def
      intro!: sq_removed_drop_head split: if_splits)

text \<open>Stores to the two completion marks leave the contents alone.\<close>

lemma sq_mark_frame [simp]:
  "sq_fifo (q\<lparr> sq_PublishedFence := f \<rparr>) = sq_fifo q" "sq_ring (q\<lparr> sq_PublishedFence := f \<rparr>) = sq_ring q"
  "sq_ledger (q\<lparr> sq_PublishedFence := f \<rparr>) = sq_ledger q"
  "sq_replay (q\<lparr> sq_PublishedFence := f \<rparr>) = sq_replay q"
  "sq_fifo (q\<lparr> sq_ClaimedCompletionFence := f \<rparr>) = sq_fifo q"
  "sq_ring (q\<lparr> sq_ClaimedCompletionFence := f \<rparr>) = sq_ring q"
  "sq_ledger (q\<lparr> sq_ClaimedCompletionFence := f \<rparr>) = sq_ledger q"
  "sq_replay (q\<lparr> sq_ClaimedCompletionFence := f \<rparr>) = sq_replay q"
  by (simp_all add: sq_fifo_def sq_ring_def sq_ledger_def sq_replay_def cong: option.case_cong)

lemma MarkPublished_Some:
  assumes "AppleAgxSubmissionQueueMarkPublished q f = Some t" and "sq_wf q"
  shows "sq_wf t" and "sq_fifo t = sq_fifo q" and "sq_PublishedFence t = f"
proof -
  from assms(1) have t: "t = q\<lparr> sq_PublishedFence := f \<rparr>" and h: "\<not> submission_no_head q"
    "sq_PagingReplayCount q = 0" "ent_fence (submission_head q) = f"
    by (auto simp: AppleAgxSubmissionQueueMarkPublished_def ent_fence_def split: if_splits)
  show "sq_fifo t = sq_fifo q" "sq_PublishedFence t = f" by (simp_all add: t)
  show "sq_wf t"
    using assms(2) h submission_head_fifo [of q] by (simp add: t sq_wf_def sq_marks_def)
qed

lemma ClaimCompletion_Some:
  assumes "AppleAgxSubmissionQueueClaimCompletion q f = Some t" and "sq_wf q"
  shows "sq_wf t" and "sq_fifo t = sq_fifo q"
proof -
  from assms(1) have t: "t = q\<lparr> sq_ClaimedCompletionFence := f \<rparr>" and h: "\<not> submission_no_head q"
    "ent_fence (submission_head q) = f"
    by (auto simp: AppleAgxSubmissionQueueClaimCompletion_def ent_fence_def split: if_splits)
  show "sq_fifo t = sq_fifo q" by (simp add: t)
  have "sq_ring q" using assms(2) by (simp add: sq_wf_def)
  from submission_head_fifo [OF this h(1)] h(2) have "f \<in> ent_fence ` set (sq_fifo q)"
    by (metis hd_in_set imageI)
  with assms(2) show "sq_wf t" by (simp add: t sq_wf_def sq_marks_def)
qed

lemma ReleaseCompletion_Some:
  assumes "AppleAgxSubmissionQueueReleaseCompletion q f = Some t" and "sq_wf q"
  shows "sq_wf t" and "sq_fifo t = sq_fifo q"
  using assms
  by (auto simp: AppleAgxSubmissionQueueReleaseCompletion_def sq_wf_def sq_marks_def split: if_splits)

lemma set_insert_fence [simp]: "set (insert_fence e es) = insert e (set es)"
proof -
  have "set es = set (takeWhile P es) \<union> set (dropWhile P es)" for P :: "_ \<Rightarrow> bool"
    by (metis set_append takeWhile_dropWhile_id)
  then show ?thesis by (auto simp: insert_fence_def)
qed

lemma Accept_wf:
  assumes "AppleAgxSubmissionQueueAccept q s tk b s1 e1 s2 e2 = Some t" and "sq_wf q"
  shows "sq_wf t"
proof (cases "submission_paging_replay s")
  case False
  from assms(2) have w: "sq_ring q" "sq_ledger q" "sq_marks q" by (simp_all add: sq_wf_def)
  note a = accept_normal [OF assms(1) False w(1)]
  have "sq_ledger t" using w(2) a(5-8,12) by (simp add: sq_ledger_def cong: option.case_cong)
  moreover have "sq_marks t" using w(3) a(1,8-10) by (auto simp: sq_marks_def)
  moreover have "\<forall>e\<in>set (sq_fifo t). ent_valid e"
    using a(1) accept_guards(7) [OF assms(1)] assms(2) by (auto simp: sq_wf_def)
  ultimately show ?thesis using a(2) by (simp add: sq_wf_def)
next
  case True
  from assms(2) have w: "sq_ring q" "sq_ledger q" "sq_marks q" by (simp_all add: sq_wf_def)
  note a = accept_replay [OF assms(1) True w(1,2)]
  have "sq_PagingReplayCount q \<noteq> 0" using accept_guards(6) [OF assms(1)] True by blast
  with w(3) have "sq_PublishedFence q = 0" by (auto simp: sq_marks_def)
  with w(3) a(1,7,8) have "sq_marks t" by (auto simp: sq_marks_def)
  moreover have "\<forall>e\<in>set (sq_fifo t). ent_valid e"
    using a(1) accept_guards(7) [OF assms(1)] assms(2) by (auto simp: sq_wf_def)
  ultimately show ?thesis using a(2,3) by (simp add: sq_wf_def)
qed

lemma Configure_wf:
  assumes "AppleAgxSubmissionQueueConfigurePagingReplay q (Some r) c = Some t" and "length r = unat c"
    and "sq_wf q"
  shows "sq_wf t"
proof -
  from assms(1) have t: "t = q\<lparr> sq_PagingReplayFences := Some (submission_zero_fences r (unat c) 0),
      sq_PagingReplayCapacity := c \<rparr>" and g: "sq_Capacity q \<noteq> 0" "\<not> c < sq_Capacity q"
    "sq_PublishedFence q = 0" "sq_ClaimedCompletionFence q = 0" "sq_PagingReplayFences q = None"
    by (auto simp: AppleAgxSubmissionQueueConfigurePagingReplay_def split: if_splits)
  have "unat (sq_Capacity q) \<le> unat c" "0 < unat (sq_Capacity q)"
    using g by (simp_all add: not_less word_le_nat_alt unat_gt_0)
  then have "sq_ledger t"
    using assms(2,3) g(5) by (auto simp: t sq_ledger_def sq_wf_def)
  moreover have "sq_ring t" using assms(3) by (simp add: t sq_ring_def sq_wf_def cong: option.case_cong)
  moreover have "sq_fifo t = sq_fifo q" by (simp add: t sq_fifo_def cong: option.case_cong)
  ultimately show ?thesis using g assms(3) by (simp add: sq_wf_def sq_marks_def t)
qed

lemma ResetPagingReplay_wf:
  assumes "AppleAgxSubmissionQueueResetPagingReplay q b = Some t" and "sq_wf q"
  shows "sq_wf t" and "sq_fifo t = sq_fifo q" and "sq_replay t = []"
proof -
  from assms(1) obtain r where r: "sq_PagingReplayFences q = Some r"
    and t: "t = q\<lparr> sq_PagingReplayFences :=
        Some (submission_zero_fences r (unat (sq_PagingReplayCapacity q)) 0),
      sq_PagingReplayHead := 0, sq_PagingReplayCount := 0 \<rparr>"
    and g: "sq_PublishedFence q = 0" "sq_ClaimedCompletionFence q = 0"
    by (auto simp: AppleAgxSubmissionQueueResetPagingReplay_def split: if_splits)
  have "sq_ledger t" using assms(2) r by (simp add: t sq_ledger_def sq_wf_def)
  moreover have "sq_ring t" using assms(2) by (simp add: t sq_ring_def sq_wf_def cong: option.case_cong)
  moreover show f: "sq_fifo t = sq_fifo q" by (simp add: t sq_fifo_def cong: option.case_cong)
  ultimately show "sq_wf t" using g assms(2) by (simp add: sq_wf_def sq_marks_def t)
  show "sq_replay t = []" by (simp add: t sq_replay_def)
qed

section \<open>The queue as a state machine\<close>

definition sq_start :: "APPLE_AGX_SUBMISSION_QUEUE \<Rightarrow> bool" where
  "sq_start q \<longleftrightarrow> (\<exists>m es c. length es = unat c \<and> unat c \<le> 2 ^ 31 \<and>
     AppleAgxSubmissionQueueInitialize m (Some es) c = (True, q))"

inductive sq_step :: "APPLE_AGX_SUBMISSION_QUEUE \<Rightarrow> APPLE_AGX_SUBMISSION_QUEUE \<Rightarrow> bool" where
  configure: "AppleAgxSubmissionQueueConfigurePagingReplay q (Some r) c = Some t \<Longrightarrow>
      length r = unat c \<Longrightarrow> sq_step q t"
| accept: "AppleAgxSubmissionQueueAccept q s tk b s1 e1 s2 e2 = Some t \<Longrightarrow> sq_step q t"
| publish: "AppleAgxSubmissionQueueMarkPublished q f = Some t \<Longrightarrow> sq_step q t"
| claim: "AppleAgxSubmissionQueueClaimCompletion q f = Some t \<Longrightarrow> sq_step q t"
| release: "AppleAgxSubmissionQueueReleaseCompletion q f = Some t \<Longrightarrow> sq_step q t"
| commit: "AppleAgxSubmissionQueueCommitCompletion q f = Some t \<Longrightarrow> sq_step q t"
| retire: "AppleAgxSubmissionQueueCommitRetirement q f = Some t \<Longrightarrow> sq_step q t"
| discard: "AppleAgxSubmissionQueueDiscardPreemptedThrough q f = Some (t, n) \<Longrightarrow> sq_step q t"
| reset: "AppleAgxSubmissionQueueResetPagingReplay q b = Some t \<Longrightarrow> sq_step q t"
| complete: "AppleAgxSubmissionQueueComplete q f = Some t \<Longrightarrow> sq_step q t"
| fault: "AppleAgxSubmissionQueueFault q f = Some t \<Longrightarrow> sq_step q t"

lemma sq_wf_start: "sq_start q \<Longrightarrow> sq_wf q"
  by (auto simp: sq_start_def sq_wf_def sq_ring_def sq_ledger_def sq_marks_def sq_fifo_def Let_def
      AppleAgxSubmissionQueueInitialize_def unat_gt_0 split: if_splits)

lemma sq_step_wf: "sq_step q t \<Longrightarrow> sq_wf q \<Longrightarrow> sq_wf t"
proof (induction rule: sq_step.induct)
  case configure then show ?case by (rule Configure_wf)
next
  case accept then show ?case by (rule Accept_wf)
next
  case publish then show ?case by (rule MarkPublished_Some)
next
  case claim then show ?case by (rule ClaimCompletion_Some)
next
  case release then show ?case by (rule ReleaseCompletion_Some)
next
  case commit then show ?case by (rule CommitCompletion_Some)
next
  case retire then show ?case by (rule CommitRetirement_Some)
next
  case discard then show ?case by (rule Discard_Some)
next
  case reset then show ?case by (rule ResetPagingReplay_wf)
next
  case complete then show ?case by (rule Complete_Some)
next
  case fault then show ?case by (rule Fault_Some)
qed

interpretation sq_machine: guarded_system sq_start sq_step sq_wf
  by unfold_locales (auto intro: sq_wf_start sq_step_wf)

section \<open>The queue as a FIFO\<close>

definition sq_enq ::
  "APPLE_AGX_SUBMISSION_ENTRY \<Rightarrow> APPLE_AGX_SUBMISSION_QUEUE \<Rightarrow> APPLE_AGX_SUBMISSION_QUEUE option"
where
  "sq_enq e q =
     (if submission_paging_replay (ent_Submission e) then None
      else AppleAgxSubmissionQueueAccept q (ent_Submission e) (ent_PrivateDataToken e)
             (ent_PrivateDataBytes e) (ent_PrivateDataStart e) (ent_PrivateDataEnd e)
             (ent_DmaSubmissionStart e) (ent_DmaSubmissionEnd e))"

text \<open>Delivering the head: claim its completion and commit it.\<close>

definition sq_deq ::
  "APPLE_AGX_SUBMISSION_QUEUE \<Rightarrow> (APPLE_AGX_SUBMISSION_ENTRY \<times> APPLE_AGX_SUBMISSION_QUEUE) option"
where
  "sq_deq q =
     Option.bind (AppleAgxSubmissionQueuePeek q) (\<lambda>e.
     Option.bind (AppleAgxSubmissionQueueClaimCompletion q (ent_fence e)) (\<lambda>t.
     map_option (Pair e) (AppleAgxSubmissionQueueCommitCompletion t (ent_fence e))))"

datatype submission_other = OtherPublish u32 | OtherClaim u32 | OtherRelease u32

fun sq_oth ::
  "submission_other \<Rightarrow> APPLE_AGX_SUBMISSION_QUEUE \<Rightarrow> APPLE_AGX_SUBMISSION_QUEUE option" where
  "sq_oth (OtherPublish f) q = AppleAgxSubmissionQueueMarkPublished q f"
| "sq_oth (OtherClaim f) q = AppleAgxSubmissionQueueClaimCompletion q f"
| "sq_oth (OtherRelease f) q = AppleAgxSubmissionQueueReleaseCompletion q f"

lemma submission_entry_fields [simp]:
  "submission_entry (ent_Submission e) (ent_PrivateDataToken e) (ent_PrivateDataBytes e)
     (ent_PrivateDataStart e) (ent_PrivateDataEnd e) (ent_DmaSubmissionStart e)
     (ent_DmaSubmissionEnd e) = e"
  by (cases e) (simp add: submission_entry_def)

lemma sq_enq_Some:
  assumes "sq_enq e q = Some t" and "sq_wf q"
  shows "sq_wf t" and "sq_fifo t = sq_fifo q @ [e]"
proof -
  from assms(1) have a: "\<not> submission_paging_replay (ent_Submission e)"
    "AppleAgxSubmissionQueueAccept q (ent_Submission e) (ent_PrivateDataToken e)
       (ent_PrivateDataBytes e) (ent_PrivateDataStart e) (ent_PrivateDataEnd e)
       (ent_DmaSubmissionStart e) (ent_DmaSubmissionEnd e) = Some t"
    by (simp_all add: sq_enq_def split: if_splits)
  show "sq_wf t" by (rule Accept_wf [OF a(2) assms(2)])
  show "sq_fifo t = sq_fifo q @ [e]"
    using accept_normal(1) [OF a(2,1)] assms(2) by (simp add: sq_wf_def)
qed

lemma sq_deq_Some:
  assumes "sq_deq q = Some (e, t)" and "sq_wf q"
  shows "sq_wf t" and "sq_fifo q = e # sq_fifo t"
proof -
  from assms(1) obtain u where e: "AppleAgxSubmissionQueuePeek q = Some e"
    and u: "AppleAgxSubmissionQueueClaimCompletion q (ent_fence e) = Some u"
    and t: "AppleAgxSubmissionQueueCommitCompletion u (ent_fence e) = Some t"
    by (auto simp: sq_deq_def bind_eq_Some_conv)
  note c = ClaimCompletion_Some [OF u assms(2)]
  note r = CommitCompletion_Some [OF t c(1)]
  show "sq_wf t" by (rule r(2))
  have h: "\<not> submission_no_head q" "e = submission_head q"
    using e by (auto simp: AppleAgxSubmissionQueuePeek_def split: if_splits)
  have "hd (sq_fifo q) = e" "sq_fifo q \<noteq> []"
    using submission_head_fifo [of q] h assms(2) by (simp_all add: sq_wf_def)
  with r(1) c(2) show "sq_fifo q = e # sq_fifo t"
    by (metis list.collapse sq_removed_def)
qed

interpretation sq_queue: fifo_queue sq_wf sq_fifo sq_enq sq_deq sq_oth
proof unfold_locales
  fix q t :: APPLE_AGX_SUBMISSION_QUEUE and e x
  show "sq_wf q \<Longrightarrow> sq_enq e q = Some t \<Longrightarrow> sq_wf t" by (rule sq_enq_Some)
  show "sq_wf q \<Longrightarrow> sq_enq e q = Some t \<Longrightarrow> sq_fifo t = sq_fifo q @ [e]" by (rule sq_enq_Some)
  show "sq_wf q \<Longrightarrow> sq_deq q = Some (e, t) \<Longrightarrow> sq_wf t" by (rule sq_deq_Some)
  show "sq_wf q \<Longrightarrow> sq_deq q = Some (e, t) \<Longrightarrow> sq_fifo q = e # sq_fifo t" by (rule sq_deq_Some)
  show "sq_wf q \<Longrightarrow> sq_oth x q = Some t \<Longrightarrow> sq_wf t"
    by (cases x) (auto intro: MarkPublished_Some ClaimCompletion_Some ReleaseCompletion_Some)
  show "sq_wf q \<Longrightarrow> sq_oth x q = Some t \<Longrightarrow> sq_fifo t = sq_fifo q"
    by (cases x) (auto intro: MarkPublished_Some ClaimCompletion_Some ReleaseCompletion_Some)
qed

section \<open>Discard and replay as one protocol\<close>

text \<open>The client resubmits a discarded paging packet with the RESUBMISSION flag set.\<close>

definition resubmitted :: "APPLE_AGX_SUBMISSION_ENTRY \<Rightarrow> APPLE_AGX_SUBMISSION_ENTRY" where
  "resubmitted e = e\<lparr> ent_Submission := (ent_Submission e)
     \<lparr> sub_Flags := sub_Flags (ent_Submission e) OR FLAG_RESUBMISSION \<rparr> \<rparr>"

fun sq_replay_all ::
  "APPLE_AGX_SUBMISSION_ENTRY list \<Rightarrow> APPLE_AGX_SUBMISSION_QUEUE
   \<Rightarrow> APPLE_AGX_SUBMISSION_QUEUE option" where
  "sq_replay_all [] q = Some q"
| "sq_replay_all (e # es) q =
     Option.bind (AppleAgxSubmissionQueueAccept q (ent_Submission e) (ent_PrivateDataToken e)
                    (ent_PrivateDataBytes e) (ent_PrivateDataStart e) (ent_PrivateDataEnd e)
                    (ent_DmaSubmissionStart e) (ent_DmaSubmissionEnd e))
       (sq_replay_all es)"

definition sq_before :: "APPLE_AGX_SUBMISSION_ENTRY \<Rightarrow> APPLE_AGX_SUBMISSION_ENTRY \<Rightarrow> bool" where
  "sq_before x y \<longleftrightarrow> AppleAgxFenceAfter (ent_fence y) (ent_fence x)"

lemma resubmitted_simps [simp]:
  "ent_fence (resubmitted e) = ent_fence e" "ent_paging (resubmitted e) = ent_paging e"
  "ent_valid (resubmitted e) = ent_valid e"
  "sub_Kind (ent_Submission (resubmitted e)) = sub_Kind (ent_Submission e)"
  by (simp_all add: resubmitted_def ent_fence_def ent_paging_def ent_valid_def)

lemma sq_before_resubmitted [simp]:
  "sq_before (resubmitted x) y = sq_before x y" "sq_before x (resubmitted y) = sq_before x y"
  by (simp_all add: sq_before_def)

lemma submission_paging_replay_resubmitted:
  "ent_paging e \<Longrightarrow> submission_paging_replay (ent_Submission (resubmitted e))"
proof -
  assume "ent_paging e"
  moreover have "(f OR m) AND m = m" for f m :: u32 by (rule bit_word_eqI) (auto simp: bit_simps)
  ultimately show ?thesis
    by (simp add: submission_paging_replay_def resubmitted_def ent_paging_def)
qed

lemma insert_fence_between:
  assumes "\<forall>x\<in>set xs. sq_before x e" and "\<forall>y\<in>set ys. sq_before e y"
  shows "insert_fence e (xs @ ys) = xs @ e # ys"
proof -
  have n: "\<forall>x\<in>set xs. \<not> AppleAgxFenceAfter (ent_fence x) (ent_fence e)"
    using assms(1) submission_order.after_asym by (auto simp: sq_before_def)
  have y: "ys = [] \<or> AppleAgxFenceAfter (ent_fence (hd ys)) (ent_fence e)"
    using assms(2) by (cases ys) (auto simp: sq_before_def)
  have "takeWhile (\<lambda>x. \<not> AppleAgxFenceAfter (ent_fence x) (ent_fence e)) ys = []"
    "dropWhile (\<lambda>x. \<not> AppleAgxFenceAfter (ent_fence x) (ent_fence e)) ys = ys"
    using y by (cases ys; simp)+
  with n show ?thesis
    by (simp add: insert_fence_def takeWhile_append dropWhile_append)
qed

lemma accept_accepts_replay:
  assumes "sq_wf q" and "sq_replay q = ent_fence e # fs" and "ent_valid e"
    and "submission_paging_replay (ent_Submission e)"
    and "length (sq_fifo q) < unat (sq_Capacity q)"
    and "AppleAgxFenceAfter (ent_fence e) (sq_CompletedFence q)"
    and "\<not> AppleAgxFenceAfter (ent_fence e) (sq_LastSubmittedFence q)"
    and "ent_fence e \<notin> ent_fence ` set (sq_fifo q)" and "sq_Entries q \<noteq> None"
  shows "AppleAgxSubmissionQueueAccept q (ent_Submission e) (ent_PrivateDataToken e)
      (ent_PrivateDataBytes e) (ent_PrivateDataStart e) (ent_PrivateDataEnd e)
      (ent_DmaSubmissionStart e) (ent_DmaSubmissionEnd e) \<noteq> None"
proof -
  from assms(9) obtain es where es: "sq_Entries q = Some es" by blast
  have w: "sq_ring q" "sq_ledger q" using assms(1) by (simp_all add: sq_wf_def)
  note r = sq_ring_Some [OF w(1) es]
  have fifo: "sq_fifo q = ring_list es (unat (sq_Head q)) (unat (sq_Count q))"
    by (simp add: sq_fifo_def es)
  have scan: "accept_scan es (sq_Head q) (sq_Capacity q) (unat (sq_Count q)) (ent_fence e) 0
      (unat (sq_Count q)) \<noteq> None"
    using accept_scan_ring [of "sq_Head q" "sq_Capacity q" es "unat (sq_Count q)" 0 "ent_fence e"]
      r assms(8) by (simp add: fifo)
  obtain rp where rp: "sq_PagingReplayFences q = Some rp"
    using assms(2) by (auto simp: sq_replay_def split: option.splits)
  have cnt: "sq_PagingReplayCount q \<noteq> 0"
    using assms(2) by (auto simp: sq_replay_def rp)
  then have pos: "0 < unat (sq_PagingReplayCount q)" by (simp add: unat_gt_0)
  then have "unat (sq_PagingReplayHead q) < length rp"
    using w(2) by (simp add: sq_ledger_def rp)
  then have hd: "rp ! unat (sq_PagingReplayHead q) = ent_fence e"
    using assms(2) by (metis list.sel(1) hd_drop_conv_nth hd_take pos
        sq_replay_def rp option.simps(5))
  have cap: "\<not> sq_Capacity q \<le> sq_Count q" "sq_Capacity q \<noteq> 0"
    using assms(5) r(2) by (auto simp: fifo word_le_nat_alt)
  show ?thesis
    using assms(3,4,6,7) scan cnt hd cap
    by (auto simp: AppleAgxSubmissionQueueAccept_def es rp Let_def ent_valid_def ent_fence_def)
qed

lemma sq_replay_all_fifo:
  "sq_wf q \<Longrightarrow> sq_Entries q \<noteq> None \<Longrightarrow> sq_fifo q = xs @ ys \<Longrightarrow> sq_replay q = map ent_fence es \<Longrightarrow>
   \<forall>e\<in>set es. ent_valid e \<and> submission_paging_replay (ent_Submission e) \<and>
     AppleAgxFenceAfter (ent_fence e) (sq_CompletedFence q) \<and>
     \<not> AppleAgxFenceAfter (ent_fence e) (sq_LastSubmittedFence q) \<Longrightarrow>
   sorted_wrt sq_before (xs @ es @ ys) \<Longrightarrow>
   length xs + length es + length ys \<le> unat (sq_Capacity q) \<Longrightarrow>
   \<exists>t. sq_replay_all es q = Some t \<and> sq_fifo t = xs @ es @ ys \<and> sq_replay t = [] \<and> sq_wf t \<and>
       sq_CompletedFence t = sq_CompletedFence q \<and>
       sq_LastSubmittedFence t = sq_LastSubmittedFence q"
proof (induction es arbitrary: q xs)
  case Nil
  then show ?case by simp
next
  case (Cons e es)
  have before: "\<forall>x\<in>set xs. sq_before x e" "\<forall>y\<in>set ys. sq_before e y"
    using Cons.prems(6) by (auto simp: sorted_wrt_append)
  have ne: "ent_fence e \<notin> ent_fence ` set (sq_fifo q)"
    using before submission_order.after_irrefl
    by (auto simp: Cons.prems(3) sq_before_def)
  have "AppleAgxSubmissionQueueAccept q (ent_Submission e) (ent_PrivateDataToken e)
      (ent_PrivateDataBytes e) (ent_PrivateDataStart e) (ent_PrivateDataEnd e)
      (ent_DmaSubmissionStart e) (ent_DmaSubmissionEnd e) \<noteq> None"
    using Cons.prems(4,5,7) ne
    by (intro accept_accepts_replay [OF Cons.prems(1) _ _ _ _ _ _ _ Cons.prems(2)])
       (simp_all add: Cons.prems(3))
  then obtain u where u: "AppleAgxSubmissionQueueAccept q (ent_Submission e)
      (ent_PrivateDataToken e) (ent_PrivateDataBytes e) (ent_PrivateDataStart e)
      (ent_PrivateDataEnd e) (ent_DmaSubmissionStart e) (ent_DmaSubmissionEnd e) = Some u" by blast
  have pr: "submission_paging_replay (ent_Submission e)" using Cons.prems(5) by simp
  have w: "sq_ring q" "sq_ledger q" using Cons.prems(1) by (simp_all add: sq_wf_def)
  note a = accept_replay [OF u pr w, unfolded submission_entry_fields]
  have "\<exists>t. sq_replay_all es u = Some t \<and> sq_fifo t = (xs @ [e]) @ es @ ys \<and> sq_replay t = [] \<and>
       sq_wf t \<and> sq_CompletedFence t = sq_CompletedFence u \<and>
       sq_LastSubmittedFence t = sq_LastSubmittedFence u"
  proof (rule Cons.IH)
    show "sq_wf u" by (rule Accept_wf [OF u Cons.prems(1)])
    show "sq_Entries u \<noteq> None"
      using u by (auto simp: AppleAgxSubmissionQueueAccept_def Let_def split: if_splits option.splits)
    show "sq_fifo u = (xs @ [e]) @ ys"
      using a(1) insert_fence_between [OF before] by (simp add: Cons.prems(3))
    show "sq_replay u = map ent_fence es" using a(4) Cons.prems(4) by simp
    show "\<forall>e\<in>set es. ent_valid e \<and> submission_paging_replay (ent_Submission e) \<and>
       AppleAgxFenceAfter (ent_fence e) (sq_CompletedFence u) \<and>
       \<not> AppleAgxFenceAfter (ent_fence e) (sq_LastSubmittedFence u)"
      using Cons.prems(5) a(6,9) by simp
    show "sorted_wrt sq_before ((xs @ [e]) @ es @ ys)" using Cons.prems(6) by simp
    show "length (xs @ [e]) + length es + length ys \<le> unat (sq_Capacity u)"
      using Cons.prems(7) a(10) by simp
  qed
  with u a(6,9) show ?case by simp
qed

section \<open>The completion transaction as a chain\<close>

text \<open>What a driver of the transaction does; it reports only when \<open>CanReport\<close> holds, as the
  comment in \<open>MarkReported\<close> requires.\<close>

datatype ct_action =
  CtBegin u32 u32 u32
| CtAdvance u32 u32 u32 APPLE_AGX_COMPLETION_PHASE APPLE_AGX_COMPLETION_PHASE
| CtReport u32 u32 u32
| CtFinish u32 u32 u32

fun ct_do ::
  "ct_action \<Rightarrow> APPLE_AGX_COMPLETION_TRANSACTION \<Rightarrow> APPLE_AGX_COMPLETION_TRANSACTION option" where
  "ct_do (CtBegin f n e) t = AppleAgxCompletionTransactionBegin t f n e"
| "ct_do (CtAdvance f n e p p') t = AppleAgxCompletionTransactionAdvance t f n e p p'"
| "ct_do (CtReport f n e) t =
     (if AppleAgxCompletionTransactionCanReport t f n e
      then Some (AppleAgxCompletionTransactionMarkReported t) else None)"
| "ct_do (CtFinish f n e) t = AppleAgxCompletionTransactionFinish t f n e"

fun ct_run ::
  "ct_action list \<Rightarrow> APPLE_AGX_COMPLETION_TRANSACTION \<Rightarrow> APPLE_AGX_COMPLETION_TRANSACTION option"
where
  "ct_run [] t = Some t"
| "ct_run (a # as) t = Option.bind (ct_do a t) (ct_run as)"

lemma ct_run_snoc: "ct_run (as @ [a]) t = Option.bind (ct_run as t) (ct_do a)"
proof (induction as arbitrary: t)
  case Nil
  then show ?case by (cases "ct_do a t") simp_all
next
  case (Cons b as)
  then show ?case by (cases "ct_do b t") simp_all
qed

text \<open>The actions that lead from idle to a phase, for one fence.\<close>

fun ct_chain :: "APPLE_AGX_COMPLETION_PHASE \<Rightarrow> u32 \<Rightarrow> u32 \<Rightarrow> u32 \<Rightarrow> ct_action list" where
  "ct_chain AppleAgxCompletionIdle f n e = []"
| "ct_chain AppleAgxCompletionClaimed f n e = [CtBegin f n e]"
| "ct_chain AppleAgxCompletionSchedulerCommitted f n e =
     [CtBegin f n e,
      CtAdvance f n e AppleAgxCompletionClaimed AppleAgxCompletionSchedulerCommitted]"
| "ct_chain AppleAgxCompletionLocalCommitted f n e =
     [CtBegin f n e,
      CtAdvance f n e AppleAgxCompletionClaimed AppleAgxCompletionSchedulerCommitted,
      CtAdvance f n e AppleAgxCompletionSchedulerCommitted AppleAgxCompletionLocalCommitted]"
| "ct_chain AppleAgxCompletionBackendRetired f n e =
     [CtBegin f n e,
      CtAdvance f n e AppleAgxCompletionClaimed AppleAgxCompletionSchedulerCommitted,
      CtAdvance f n e AppleAgxCompletionSchedulerCommitted AppleAgxCompletionLocalCommitted,
      CtAdvance f n e AppleAgxCompletionLocalCommitted AppleAgxCompletionBackendRetired]"
| "ct_chain AppleAgxCompletionReported f n e =
     [CtBegin f n e,
      CtAdvance f n e AppleAgxCompletionClaimed AppleAgxCompletionSchedulerCommitted,
      CtAdvance f n e AppleAgxCompletionSchedulerCommitted AppleAgxCompletionLocalCommitted,
      CtAdvance f n e AppleAgxCompletionLocalCommitted AppleAgxCompletionBackendRetired,
      CtReport f n e]"

lemma ct_do_chain:
  assumes "ct_do a t = Some u"
  shows "ct_chain (ct_Phase u) (ct_Fence u) (ct_NodeOrdinal u) (ct_EngineOrdinal u) =
      (if ct_Phase u = AppleAgxCompletionIdle then []
       else ct_chain (ct_Phase t) (ct_Fence t) (ct_NodeOrdinal t) (ct_EngineOrdinal t) @ [a])"
  using assms
  by (cases a)
     (auto simp: AppleAgxCompletionTransactionBegin_def AppleAgxCompletionTransactionAdvance_def
       AppleAgxCompletionTransactionCanReport_def AppleAgxCompletionTransactionMarkReported_def
       AppleAgxCompletionTransactionFinish_def AppleAgxCompletionTransactionMatches_def
       AppleAgxCompletionTransitionValid_def AppleAgxCompletionTransactionInitialize_def
       split: if_splits)

lemma ct_run_chain:
  "ct_run as t0 = Some t \<Longrightarrow> ct_Phase t0 = AppleAgxCompletionIdle \<Longrightarrow>
   \<exists>pre. as = pre @ ct_chain (ct_Phase t) (ct_Fence t) (ct_NodeOrdinal t) (ct_EngineOrdinal t)"
proof (induction as arbitrary: t rule: rev_induct)
  case Nil
  then show ?case by simp
next
  case (snoc a as)
  then obtain u where u: "ct_run as t0 = Some u" "ct_do a u = Some t"
    by (auto simp: ct_run_snoc bind_eq_Some_conv)
  from snoc.IH [OF u(1) snoc.prems(2)] obtain pre where
    "as = pre @ ct_chain (ct_Phase u) (ct_Fence u) (ct_NodeOrdinal u) (ct_EngineOrdinal u)" by blast
  then show ?case using ct_do_chain [OF u(2)] by (simp split: if_splits)
qed

text \<open>Apart from finishing, the phase never goes back.\<close>

definition ct_step ::
  "APPLE_AGX_COMPLETION_TRANSACTION \<Rightarrow> APPLE_AGX_COMPLETION_TRANSACTION \<Rightarrow> bool" where
  "ct_step t u \<longleftrightarrow> (\<exists>a. ct_do a t = Some u \<and> ct_Phase u \<noteq> AppleAgxCompletionIdle)"

definition ct_rank :: "APPLE_AGX_COMPLETION_TRANSACTION \<Rightarrow> nat" where
  "ct_rank t = length (ct_chain (ct_Phase t) (ct_Fence t) (ct_NodeOrdinal t) (ct_EngineOrdinal t))"

interpretation ct_order: ranked_system ct_step ct_rank
proof unfold_locales
  fix t u assume "ct_step t u"
  then obtain a where "ct_do a t = Some u" "ct_Phase u \<noteq> AppleAgxCompletionIdle"
    by (auto simp: ct_step_def)
  then show "ct_rank t \<le> ct_rank u" using ct_do_chain [of a t u] by (simp add: ct_rank_def)
qed

section \<open>Properties\<close>

text \<open>Packets and queues for the witnesses.\<close>

definition demo_packet :: "APPLE_AGX_SUBMISSION_KIND \<Rightarrow> u32 \<Rightarrow> APPLE_AGX_SUBMISSION" where
  "demo_packet k f = \<lparr> sub_Kind = k, sub_Fence = f, sub_NodeOrdinal = 0, sub_EngineOrdinal = 0,
     sub_SegmentId = 0, sub_Flags = 0, sub_DmaAddress = 0x1000, sub_DmaBytes = 16,
     sub_Reserved = 0 \<rparr>"

definition demo_entry :: "APPLE_AGX_SUBMISSION_KIND \<Rightarrow> u32 \<Rightarrow> APPLE_AGX_SUBMISSION_ENTRY" where
  "demo_entry k f = submission_entry (demo_packet k f) 0 0 0 0 0 16"

definition demo_queue :: APPLE_AGX_SUBMISSION_QUEUE where
  "demo_queue = \<lparr> sq_Entries = Some [demo_entry AppleAgxSubmissionPaging 1,
       demo_entry AppleAgxSubmissionNull 2, demo_entry AppleAgxSubmissionPaging 3,
       demo_entry AppleAgxSubmissionPaging 0],
     sq_Capacity = 4, sq_Head = 0, sq_Count = 3, sq_CompletedFence = 0,
     sq_LastSubmittedFence = 3, sq_PublishedFence = 0, sq_ClaimedCompletionFence = 0,
     sq_PagingReplayFences = Some [0, 0, 0, 0], sq_PagingReplayCapacity = 4,
     sq_PagingReplayHead = 0, sq_PagingReplayCount = 0 \<rparr>"

lemma demo_queue_fifo:
  "sq_fifo demo_queue = [demo_entry AppleAgxSubmissionPaging 1,
     demo_entry AppleAgxSubmissionNull 2, demo_entry AppleAgxSubmissionPaging 3]"
  by (simp add: sq_fifo_def demo_queue_def ring_list_def upt_conv_Cons)

lemma demo_queue_fences [simp]:
  "sq_CompletedFence demo_queue = 0" "sq_LastSubmittedFence demo_queue = 3"
  by (simp_all add: demo_queue_def)

lemma demo_entry_simps [simp]:
  "ent_fence (demo_entry k f) = f"
  "ent_paging (demo_entry k f) \<longleftrightarrow> k = AppleAgxSubmissionPaging"
  "ent_valid (demo_entry k f) \<longleftrightarrow> k \<noteq> AppleAgxSubmissionInvalid \<and> k \<noteq> AppleAgxSubmissionGdi"
  by (auto simp: demo_entry_def ent_fence_def ent_paging_def ent_valid_def submission_entry_def
      demo_packet_def)

lemma demo_queue_wf: "sq_wf demo_queue"
  unfolding sq_wf_def demo_queue_fifo
  by (simp add: sq_ring_def sq_ledger_def sq_marks_def demo_queue_def)

definition demo_boot :: APPLE_AGX_SUBMISSION_QUEUE where
  "demo_boot = snd (AppleAgxSubmissionQueueInitialize demo_queue
     (Some (replicate 4 (demo_entry AppleAgxSubmissionNull 0))) 4)"

lemma demo_boot_start: "sq_start demo_boot"
  unfolding sq_start_def
  by (rule exI [of _ demo_queue], rule exI [of _ "replicate 4 (demo_entry AppleAgxSubmissionNull 0)"],
      rule exI [of _ 4])
     (simp add: demo_boot_def AppleAgxSubmissionQueueInitialize_def Let_def)

lemma demo_boot_accept:
  "\<exists>t. sq_enq (demo_entry AppleAgxSubmissionPaging 7) demo_boot = Some t"
  by (simp add: sq_enq_def demo_entry_def submission_entry_def demo_packet_def demo_boot_def
      AppleAgxSubmissionQueueInitialize_def Let_def submission_paging_replay_def
      AppleAgxSubmissionQueueAccept_def AppleAgxFenceAfter_def)

text \<open>C25. In every state a successfully initialised submission queue can reach, the ring indices are
  in bounds, the replay ledger lies inside its array and starts at slot zero when empty, a published
  fence is the fence of the head and excludes a replay debt, a claimed completion fence is still
  queued, and every queued packet satisfies the admission checks.\<close>

theorem sq_reachable_wf:
  assumes "sq_start q" and "sq_step\<^sup>*\<^sup>* q t"
  shows "sq_wf t"
  using assms by (rule sq_machine.inv_reachable)

theorem sq_reachable_wf_witness: "\<exists>t. sq_enq (demo_entry AppleAgxSubmissionPaging 7) demo_boot = Some t \<and> sq_wf t"
proof -
  obtain t where t: "sq_enq (demo_entry AppleAgxSubmissionPaging 7) demo_boot = Some t"
    using demo_boot_accept by blast
  then have "sq_step demo_boot t" by (auto simp: sq_enq_def intro: sq_step.accept split: if_splits)
  with t show ?thesis using sq_reachable_wf [OF demo_boot_start r_into_rtranclp] by blast
qed

text \<open>C7. Packets complete in exactly the order they were accepted, whatever publishing, claiming
  and releasing happens in between.\<close>

theorem sq_fifo_order:
  assumes "sq_wf q" and "run_queue sq_enq sq_deq sq_oth ops q = (accepted, completed, t)"
  shows "sq_fifo q @ accepted = completed @ sq_fifo t"
  using sq_queue.run_fifo [OF assms] by simp

theorem sq_fifo_order_witness:
  "\<exists>t. sq_fifo demo_queue @ [] = [demo_entry AppleAgxSubmissionPaging 1] @ sq_fifo t"
proof -
  obtain t where "sq_deq demo_queue = Some (demo_entry AppleAgxSubmissionPaging 1, t)"
    by (simp add: sq_deq_def demo_queue_def AppleAgxSubmissionQueuePeek_def submission_no_head_def
        submission_head_def AppleAgxSubmissionQueueClaimCompletion_def ent_fence_def [symmetric]
        AppleAgxSubmissionQueueCommitCompletion_def)
  then have "run_queue sq_enq sq_deq sq_oth [Dequeue] demo_queue =
      ([], [demo_entry AppleAgxSubmissionPaging 1], t)"
    by simp
  from sq_fifo_order [OF demo_queue_wf this] show ?thesis by blast
qed

text \<open>Admission puts an ordinary packet at the back of the queue; a replayed paging packet is
  admitted only when its fence is the next one of the ledger and not queued already, goes in front
  of the first queued packet whose fence follows its own, and leaves the ledger.\<close>

theorem sq_accept_contents:
  assumes "AppleAgxSubmissionQueueAccept q s token privBytes privStart privEnd dmaStart dmaEnd = Some t"
    and "sq_wf q" and "e = submission_entry s token privBytes privStart privEnd dmaStart dmaEnd"
  shows "if submission_paging_replay s
         then sq_fifo t = insert_fence e (sq_fifo q) \<and> sq_replay q = ent_fence e # sq_replay t \<and>
              ent_fence e \<notin> ent_fence ` set (sq_fifo q) \<and>
              sq_LastSubmittedFence t = sq_LastSubmittedFence q
         else sq_fifo t = sq_fifo q @ [e] \<and> sq_replay q = [] \<and> sq_replay t = [] \<and>
              sq_LastSubmittedFence t = ent_fence e"
proof (cases "submission_paging_replay s")
  case True
  from assms(2) have w: "sq_ring q" "sq_ledger q" by (simp_all add: sq_wf_def)
  from accept_replay [OF assms(1) True w] True show ?thesis by (simp add: assms(3))
next
  case False
  from assms(2) have w: "sq_ring q" by (simp add: sq_wf_def)
  note a = accept_normal [OF assms(1) False w]
  have "sq_replay q = []" "sq_replay t = []"
    using a(3,8) by (simp_all add: sq_replay_def split: option.split)
  with a False show ?thesis by (simp add: assms(3))
qed

theorem sq_accept_contents_witness:
  "\<exists>t. sq_fifo t = sq_fifo demo_boot @ [demo_entry AppleAgxSubmissionPaging 7]"
proof -
  have n: "\<not> submission_paging_replay (demo_packet AppleAgxSubmissionPaging 7)"
    by (simp add: submission_paging_replay_def demo_packet_def)
  have "sq_enq (demo_entry AppleAgxSubmissionPaging 7) demo_boot = AppleAgxSubmissionQueueAccept
      demo_boot (demo_packet AppleAgxSubmissionPaging 7) 0 0 0 0 0 16"
    using n by (simp add: sq_enq_def demo_entry_def submission_entry_def)
  with demo_boot_accept obtain t where t: "AppleAgxSubmissionQueueAccept
      demo_boot (demo_packet AppleAgxSubmissionPaging 7) 0 0 0 0 0 16 = Some t" by metis
  have "sq_wf demo_boot" by (rule sq_wf_start [OF demo_boot_start])
  from sq_accept_contents [OF t this demo_entry_def] n show ?thesis by auto
qed

text \<open>Discarding through a cutoff removes exactly the queued packets before the first one that
  follows the cutoff, reports their number, records the fences of the paging packets among them in
  queue order, and advances neither the completed fence nor the submission watermark.\<close>

theorem sq_discard_contents:
  assumes "AppleAgxSubmissionQueueDiscardPreemptedThrough q cutoff = Some (t, n)" and "sq_wf q"
  shows "sq_fifo q = discard_prefix cutoff (sq_fifo q) @ sq_fifo t \<and>
         sq_fifo t = discard_rest cutoff (sq_fifo q) \<and>
         sq_replay t = map ent_fence (filter ent_paging (discard_prefix cutoff (sq_fifo q))) \<and>
         n = of_nat (length (discard_prefix cutoff (sq_fifo q))) \<and>
         sq_CompletedFence t = sq_CompletedFence q \<and>
         sq_LastSubmittedFence t = sq_LastSubmittedFence q \<and> sq_wf t"
proof -
  note d = Discard_Some [OF assms]
  have "sq_fifo q = discard_prefix cutoff (sq_fifo q) @ discard_rest cutoff (sq_fifo q)"
    by (simp add: discard_prefix_def discard_rest_def)
  with d show ?thesis by simp
qed

lemma demo_discard:
  obtains t n where "AppleAgxSubmissionQueueDiscardPreemptedThrough demo_queue 2 = Some (t, n)"
proof -
  have r: "sq_ring demo_queue" using demo_queue_wf by (simp add: sq_wf_def)
  have e: "sq_Entries demo_queue = Some (the (sq_Entries demo_queue))" by (simp add: demo_queue_def)
  note s = sq_ring_Some [OF r e]
  have c: "discard_count (the (sq_Entries demo_queue)) (sq_Head demo_queue) (sq_Capacity demo_queue)
      (unat (sq_Count demo_queue)) 2 0 0 =
      length (filter ent_paging (discard_prefix 2 (sq_fifo demo_queue)))"
    using discard_count_ring [OF s(4,3,1,5), of 0 2 0]
    by (simp add: discard_prefix_def sq_fifo_def demo_queue_def)
  have "length (filter ent_paging (discard_prefix 2 (sq_fifo demo_queue))) = 1"
    by (simp add: demo_queue_fifo discard_prefix_def AppleAgxFenceAfter_def)
  with c have "AppleAgxSubmissionQueueDiscardPreemptedThrough demo_queue 2 \<noteq> None"
    by (simp add: AppleAgxSubmissionQueueDiscardPreemptedThrough_def)
       (simp add: demo_queue_def AppleAgxFenceAtOrAfter_def AppleAgxFenceAfter_def)
  with that show ?thesis by fast
qed

theorem sq_discard_contents_witness:
  "\<exists>t. AppleAgxSubmissionQueueDiscardPreemptedThrough demo_queue 2 = Some (t, 2) \<and>
       sq_fifo t = [demo_entry AppleAgxSubmissionPaging 3] \<and> sq_replay t = [1]"
proof -
  obtain t n where t: "AppleAgxSubmissionQueueDiscardPreemptedThrough demo_queue 2 = Some (t, n)"
    by (rule demo_discard)
  have "discard_prefix 2 (sq_fifo demo_queue) =
      [demo_entry AppleAgxSubmissionPaging 1, demo_entry AppleAgxSubmissionNull 2]"
    "discard_rest 2 (sq_fifo demo_queue) = [demo_entry AppleAgxSubmissionPaging 3]"
    by (simp_all add: demo_queue_fifo discard_prefix_def discard_rest_def AppleAgxFenceAfter_def)
  with sq_discard_contents [OF t demo_queue_wf] t show ?thesis by auto
qed

text \<open>C29. Discard and replay lose and reorder no paging packet: when the queue is in serial order
  and its fences lie after the completed one and not after the watermark, resubmitting the discarded
  paging packets in order is accepted every time and leaves them, in order, in front of the packets
  the discard preserved, with an empty ledger.\<close>

theorem sq_discard_replay_roundtrip:
  assumes "AppleAgxSubmissionQueueDiscardPreemptedThrough q cutoff = Some (t, n)" and "sq_wf q"
    and "sorted_wrt sq_before (sq_fifo q)"
    and "\<forall>e\<in>set (sq_fifo q). AppleAgxFenceAfter (ent_fence e) (sq_CompletedFence q) \<and>
           \<not> AppleAgxFenceAfter (ent_fence e) (sq_LastSubmittedFence q)"
    and "paging = map resubmitted (filter ent_paging (discard_prefix cutoff (sq_fifo q)))"
  shows "\<exists>u. sq_replay_all paging t = Some u \<and> sq_wf u \<and> sq_replay u = [] \<and>
             sq_fifo u = paging @ discard_rest cutoff (sq_fifo q)"
proof -
  note d = Discard_Some [OF assms(1,2)]
  let ?p = "discard_prefix cutoff (sq_fifo q)" and ?r = "discard_rest cutoff (sq_fifo q)"
  have split: "sq_fifo q = ?p @ ?r" by (simp add: discard_prefix_def discard_rest_def)
  have sub: "set ?p \<subseteq> set (sq_fifo q)" by (subst (2) split) simp
  have cap: "length (sq_fifo q) \<le> unat (sq_Capacity q)"
    using assms(2) by (auto simp: sq_wf_def sq_ring_def sq_fifo_def split: option.splits)
  have "sq_Capacity q \<noteq> 0"
    using assms(1)
    by (auto simp: AppleAgxSubmissionQueueDiscardPreemptedThrough_def split: if_splits)
  then have ne: "sq_Entries t \<noteq> None"
    using d(6,7) by (cases "sq_Entries t") (auto simp: sq_wf_def sq_ring_def)
  have fences: "map ent_fence paging = sq_replay t" by (simp add: assms(5) d(2))
  have sorted: "sorted_wrt sq_before ([] @ paging @ ?r)"
  proof -
    have "sorted_wrt sq_before (?p @ ?r)" using assms(3) split by simp
    then show ?thesis
      by (auto simp: assms(5) sorted_wrt_append sorted_wrt_map sorted_wrt_filter)
  qed
  have len: "length ([] :: APPLE_AGX_SUBMISSION_ENTRY list) + length paging + length ?r
      \<le> unat (sq_Capacity t)"
  proof -
    have "length paging \<le> length ?p" by (simp add: assms(5))
    moreover have "length ?p + length ?r = length (sq_fifo q)" by (metis length_append split)
    ultimately show ?thesis using cap d(7) by simp
  qed
  have ok: "\<forall>e\<in>set paging. ent_valid e \<and> submission_paging_replay (ent_Submission e) \<and>
      AppleAgxFenceAfter (ent_fence e) (sq_CompletedFence t) \<and>
      \<not> AppleAgxFenceAfter (ent_fence e) (sq_LastSubmittedFence t)"
    using assms(2,4) sub submission_paging_replay_resubmitted
    by (auto simp: assms(5) d(4,5) sq_wf_def)
  have "\<exists>u. sq_replay_all paging t = Some u \<and> sq_fifo u = [] @ paging @ ?r \<and> sq_replay u = [] \<and>
      sq_wf u \<and> sq_CompletedFence u = sq_CompletedFence t \<and>
      sq_LastSubmittedFence u = sq_LastSubmittedFence t"
    using d(1) by (intro sq_replay_all_fifo [OF d(6) ne _ fences [symmetric] ok sorted len]) simp
  then show ?thesis by auto
qed

theorem sq_discard_replay_roundtrip_witness:
  "\<exists>t n u. AppleAgxSubmissionQueueDiscardPreemptedThrough demo_queue 2 = Some (t, n) \<and>
       sq_replay_all [resubmitted (demo_entry AppleAgxSubmissionPaging 1)] t = Some u \<and>
       map ent_fence (sq_fifo u) = [1, 3]"
proof -
  obtain t n where t: "AppleAgxSubmissionQueueDiscardPreemptedThrough demo_queue 2 = Some (t, n)"
    by (rule demo_discard)
  have p: "discard_prefix 2 (sq_fifo demo_queue) =
      [demo_entry AppleAgxSubmissionPaging 1, demo_entry AppleAgxSubmissionNull 2]"
    "discard_rest 2 (sq_fifo demo_queue) = [demo_entry AppleAgxSubmissionPaging 3]"
    by (simp_all add: demo_queue_fifo discard_prefix_def discard_rest_def AppleAgxFenceAfter_def)
  have "\<exists>u. sq_replay_all [resubmitted (demo_entry AppleAgxSubmissionPaging 1)] t = Some u \<and>
      sq_wf u \<and> sq_replay u = [] \<and>
      sq_fifo u = [resubmitted (demo_entry AppleAgxSubmissionPaging 1)]
        @ discard_rest 2 (sq_fifo demo_queue)"
    by (rule sq_discard_replay_roundtrip [OF t demo_queue_wf])
       (auto simp: p [unfolded demo_queue_fifo] demo_queue_fifo sq_before_def AppleAgxFenceAfter_def)
  then obtain u where "sq_replay_all [resubmitted (demo_entry AppleAgxSubmissionPaging 1)] t = Some u"
    and "map ent_fence (sq_fifo u) = [1, 3]" using p by auto
  with t show ?thesis by (intro exI conjI)
qed

text \<open>A described submission is a faithful, overflow-free DMA interval: describing succeeds only
  for a nonzero fence on the only node and engine and an interval inside the buffer, the reported
  address and length are those of the interval, the address did not wrap, an empty interval belongs
  to a context switch or null packet only, and a refusal leaves the zeroed packet.\<close>

theorem submission_describe_sound:
  assumes "AppleAgxSubmissionDescribe fence node engine segment address bytes start end' flags m = (ok, s)"
  shows "(ok \<longrightarrow> fence \<noteq> 0 \<and> node = 0 \<and> engine = 0 \<and> start \<le> end' \<and> end' \<le> bytes \<and>
            sub_Fence s = fence \<and> sub_Flags s = flags \<and> sub_Kind s \<noteq> AppleAgxSubmissionInvalid \<and>
            sub_Reserved s = 0 \<and> unat (sub_DmaBytes s) = unat end' - unat start \<and>
            (sub_DmaBytes s \<noteq> 0 \<longrightarrow> address \<noteq> 0 \<and>
               unat (sub_DmaAddress s) = unat address + unat start) \<and>
            (sub_DmaBytes s = 0 \<longrightarrow>
               sub_Kind s \<in> {AppleAgxSubmissionContextSwitch, AppleAgxSubmissionNull})) \<and>
         (\<not> ok \<longrightarrow> s = AppleAgxSubmissionZero m)"
proof -
  have nowrap: "unat (address + ucast start) = unat address + unat start"
    if "\<not> address > NOT 0 - (ucast start :: u64)"
  proof -
    have "unat (NOT 0 - (ucast start :: u64)) = 2 ^ 64 - 1 - unat start"
    proof -
      have "unat (ucast start :: u64) = unat start" by (simp add: unat_ucast_up)
      moreover have "(ucast start :: u64) \<le> NOT 0" by simp
      ultimately show ?thesis
        by (simp add: unat_sub unsigned_minus_1_eq_mask mask_eq_exp_minus_1)
    qed
    with that have "unat address \<le> 2 ^ 64 - 1 - unat start"
      by (simp add: not_less word_le_nat_alt)
    moreover have "unat start < 2 ^ 64" using unsigned_less [of start, where 'a = nat] by simp
    ultimately show ?thesis
      by (subst unat_add_no_wrap) (simp_all add: unat_ucast_up)
  qed
  show ?thesis
    using assms nowrap
    by (auto simp: AppleAgxSubmissionDescribe_def Let_def AppleAgxSubmissionZero_def unat_sub
        not_less split: if_splits)
qed

theorem submission_describe_sound_witness:
  "sub_DmaAddress (snd (AppleAgxSubmissionDescribe 1 0 0 0 0x1000 64 16 48 0
     (demo_packet AppleAgxSubmissionGdi 9))) = 0x1010"
proof -
  obtain s where s: "AppleAgxSubmissionDescribe 1 0 0 0 0x1000 64 16 48 0
      (demo_packet AppleAgxSubmissionGdi 9) = (True, s)" "sub_DmaBytes s = 32"
    by (simp add: AppleAgxSubmissionDescribe_def)
  with submission_describe_sound [OF s(1)] have "unat (sub_DmaAddress s) = 0x1010" by simp
  with s(1) show ?thesis by (simp add: word_unat_eq_iff)
qed

text \<open>C26. A completion is reported to the system only at the end of its whole receipt chain: any
  run of transaction operations from idle that ends in the reported phase ends with begin, the
  scheduler, local and backend commits in this order and one report, all for one nonzero fence on
  one node and engine.\<close>

theorem completion_report_chain:
  assumes "ct_run acts t0 = Some t" and "ct_Phase t0 = AppleAgxCompletionIdle"
    and "ct_Phase t = AppleAgxCompletionReported"
  shows "\<exists>before f n e. acts = before @
     [CtBegin f n e,
      CtAdvance f n e AppleAgxCompletionClaimed AppleAgxCompletionSchedulerCommitted,
      CtAdvance f n e AppleAgxCompletionSchedulerCommitted AppleAgxCompletionLocalCommitted,
      CtAdvance f n e AppleAgxCompletionLocalCommitted AppleAgxCompletionBackendRetired,
      CtReport f n e]"
  using ct_run_chain [OF assms(1,2)] assms(3) by auto

theorem completion_report_chain_witness:
  "\<exists>before f n e. ct_chain AppleAgxCompletionReported 5 0 0 = before @
     [CtBegin f n e,
      CtAdvance f n e AppleAgxCompletionClaimed AppleAgxCompletionSchedulerCommitted,
      CtAdvance f n e AppleAgxCompletionSchedulerCommitted AppleAgxCompletionLocalCommitted,
      CtAdvance f n e AppleAgxCompletionLocalCommitted AppleAgxCompletionBackendRetired,
      CtReport f n e]"
proof -
  let ?t = "\<lparr> ct_Phase = AppleAgxCompletionIdle, ct_Fence = 0, ct_NodeOrdinal = 0,
              ct_EngineOrdinal = 0 \<rparr>"
  have "ct_run (ct_chain AppleAgxCompletionReported 5 0 0) ?t =
      Some \<lparr> ct_Phase = AppleAgxCompletionReported, ct_Fence = 5, ct_NodeOrdinal = 0,
              ct_EngineOrdinal = 0 \<rparr>"
    by (simp add: AppleAgxCompletionTransactionBegin_def AppleAgxCompletionTransactionAdvance_def
        AppleAgxCompletionTransactionCanReport_def AppleAgxCompletionTransactionMarkReported_def
        AppleAgxCompletionTransactionMatches_def AppleAgxCompletionTransitionValid_def)
  from completion_report_chain [OF this] show ?thesis by simp
qed

end
