(* ===== verification/WorkQueue.thy ===== *)
theory WorkQueue
  imports Submission
begin

text \<open>
  The firmware work queue of \<^verbatim>\<open>drivers/apple-agx/shared/src/apple_agx_work_queue.c\<close>: a
  power-of-nothing ring (any capacity from 2 to 0x500) of command addresses with one job in flight,
  and the run message the doorbell carries.  The ring slots and the message are lists; the loop over
  the message bytes is written out as the zeroed message it leaves.
\<close>

section \<open>State\<close>

record APPLE_AGX_WORK_QUEUE_ITEM =
  wi_WorkCommandAddress :: u64
  wi_Fence :: u32
  wi_ExpectedStamp :: u32
  wi_RingIndex :: u32
  wi_NextWritePointer :: u32
  wi_QueueType :: u32
  wi_EventNumber :: u32
  wi_NewQueue :: u32

record APPLE_AGX_WORK_QUEUE =
  wq_CommandQueueAddress :: u64
  wq_Capacity :: u32
  wq_CpuWritePointer :: u32
  wq_GpuDonePointer :: u32
  wq_QueueType :: u32
  wq_EventNumber :: u32
  wq_PendingFence :: u32
  wq_ExpectedStamp :: u32
  wq_FirstRun :: bool
  wq_PendingNewQueue :: bool
  wq_HasPending :: bool
  wq_Faulted :: bool

abbreviation WORK_QUEUE_RING_CAPACITY :: u32 where "WORK_QUEUE_RING_CAPACITY \<equiv> 0x500"

section \<open>Operations\<close>

definition AppleAgxPutU32 :: "u8 list \<Rightarrow> nat \<Rightarrow> u32 \<Rightarrow> u8 list" where
  "AppleAgxPutU32 m i v =
     m[i := ucast (v AND 0xff), i + 1 := ucast (drop_bit 8 v AND 0xff),
       i + 2 := ucast (drop_bit 16 v AND 0xff), i + 3 := ucast (drop_bit 24 v AND 0xff)]"

definition AppleAgxPutU64 :: "u8 list \<Rightarrow> nat \<Rightarrow> u64 \<Rightarrow> u8 list" where
  "AppleAgxPutU64 m i v =
     AppleAgxPutU32 (AppleAgxPutU32 m i (ucast v)) (i + 4) (ucast (drop_bit 32 v))"

definition AppleAgxStampReached :: "u32 \<Rightarrow> u32 \<Rightarrow> bool" where
  "AppleAgxStampReached observed expected \<longleftrightarrow> observed - expected < 0x80000000"

definition AppleAgxWorkQueueClearPending :: "APPLE_AGX_WORK_QUEUE \<Rightarrow> APPLE_AGX_WORK_QUEUE" where
  "AppleAgxWorkQueueClearPending q =
     q\<lparr> wq_PendingFence := 0, wq_ExpectedStamp := 0, wq_PendingNewQueue := False,
        wq_HasPending := False \<rparr>"

definition AppleAgxWorkQueueInitialize ::
  "APPLE_AGX_WORK_QUEUE \<Rightarrow> u32 \<Rightarrow> u32 \<Rightarrow> u64 \<Rightarrow> u32 \<Rightarrow> APPLE_AGX_WORK_QUEUE option" where
  "AppleAgxWorkQueueInitialize q queueType eventNumber commandQueueAddress capacity =
     (if queueType > 2 \<or> eventNumber \<ge> 128 \<or> commandQueueAddress = 0 \<or>
         commandQueueAddress AND 7 \<noteq> 0 \<or> capacity < 2 \<or> capacity > WORK_QUEUE_RING_CAPACITY
      then None
      else Some (AppleAgxWorkQueueClearPending
             (q\<lparr> wq_CommandQueueAddress := commandQueueAddress, wq_Capacity := capacity,
                 wq_CpuWritePointer := 0, wq_GpuDonePointer := 0, wq_QueueType := queueType,
                 wq_EventNumber := eventNumber, wq_FirstRun := True, wq_Faulted := False \<rparr>)))"

definition AppleAgxWorkQueuePrepare ::
  "APPLE_AGX_WORK_QUEUE \<Rightarrow> APPLE_AGX_SUBMISSION \<Rightarrow> u64 \<Rightarrow> u32
   \<Rightarrow> APPLE_AGX_WORK_QUEUE_ITEM option" where
  "AppleAgxWorkQueuePrepare q s workCommandAddress expectedStamp =
     (if wq_HasPending q \<or> wq_Faulted q \<or> wq_Capacity q < 2 \<or>
         wq_CpuWritePointer q \<ge> wq_Capacity q \<or> wq_GpuDonePointer q \<ge> wq_Capacity q \<or>
         sub_Kind s \<noteq> AppleAgxSubmissionGdi \<or> sub_Fence s = 0 \<or> workCommandAddress = 0 \<or>
         workCommandAddress AND 0x1f \<noteq> 0 \<or> expectedStamp = 0
      then None
      else let next' = (if wq_CpuWritePointer q + 1 = wq_Capacity q then 0
                        else wq_CpuWritePointer q + 1)
           in if next' = wq_GpuDonePointer q then None
              else Some \<lparr> wi_WorkCommandAddress = workCommandAddress, wi_Fence = sub_Fence s,
                          wi_ExpectedStamp = expectedStamp,
                          wi_RingIndex = wq_CpuWritePointer q, wi_NextWritePointer = next',
                          wi_QueueType = wq_QueueType q, wi_EventNumber = wq_EventNumber q,
                          wi_NewQueue = (if wq_FirstRun q then 1 else 0) \<rparr>)"

definition AppleAgxWorkQueueCanCommit ::
  "APPLE_AGX_WORK_QUEUE \<Rightarrow> APPLE_AGX_WORK_QUEUE_ITEM \<Rightarrow> u32 \<Rightarrow> bool" where
  "AppleAgxWorkQueueCanCommit q item ringSlotCount =
     (if wq_Capacity q < 2 \<or> wq_CpuWritePointer q \<ge> wq_Capacity q then False
      else let expectedNext = (if wq_CpuWritePointer q + 1 = wq_Capacity q then 0
                               else wq_CpuWritePointer q + 1)
           in \<not> (wq_HasPending q \<or> wq_Faulted q \<or> ringSlotCount \<noteq> wq_Capacity q \<or>
                 wi_RingIndex item \<noteq> wq_CpuWritePointer q \<or>
                 wi_RingIndex item \<ge> ringSlotCount \<or> wi_QueueType item \<noteq> wq_QueueType q \<or>
                 wi_EventNumber item \<noteq> wq_EventNumber q \<or>
                 wi_NextWritePointer item \<noteq> expectedNext \<or>
                 expectedNext = wq_GpuDonePointer q \<or>
                 wi_NewQueue item \<noteq> (if wq_FirstRun q then 1 else 0) \<or>
                 wi_Fence item = 0 \<or> wi_ExpectedStamp item = 0 \<or>
                 wi_WorkCommandAddress item = 0 \<or>
                 wi_WorkCommandAddress item AND 0x1f \<noteq> 0))"

text \<open>The ring slots are the caller's array; commit returns it updated.\<close>

definition AppleAgxWorkQueueCommit ::
  "APPLE_AGX_WORK_QUEUE \<Rightarrow> APPLE_AGX_WORK_QUEUE_ITEM \<Rightarrow> u64 list option \<Rightarrow> u32
   \<Rightarrow> (APPLE_AGX_WORK_QUEUE \<times> u64 list) option" where
  "AppleAgxWorkQueueCommit q item ringSlots ringSlotCount =
     (case ringSlots of
        None \<Rightarrow> None
      | Some slots \<Rightarrow>
          (if \<not> AppleAgxWorkQueueCanCommit q item ringSlotCount then None
           else Some (q\<lparr> wq_CpuWritePointer := wi_NextWritePointer item,
                         wq_PendingFence := wi_Fence item,
                         wq_ExpectedStamp := wi_ExpectedStamp item,
                         wq_PendingNewQueue := wi_NewQueue item \<noteq> 0,
                         wq_FirstRun := False, wq_HasPending := True \<rparr>,
                      slots[unat (wi_RingIndex item) := wi_WorkCommandAddress item])))"

definition AppleAgxWorkQueueEncodeRunMessageG13V13_5 ::
  "APPLE_AGX_WORK_QUEUE \<Rightarrow> u8 list \<Rightarrow> u8 list option" where
  "AppleAgxWorkQueueEncodeRunMessageG13V13_5 q message =
     (if \<not> wq_HasPending q \<or> wq_Faulted q \<or> wq_CommandQueueAddress q = 0 then None
      else let m0 = replicate 0x30 0 @ drop 0x30 message;
               m1 = AppleAgxPutU32 m0 0x00 (wq_QueueType q);
               m2 = AppleAgxPutU64 m1 0x04 (wq_CommandQueueAddress q);
               m3 = AppleAgxPutU32 m2 0x0c (wq_CpuWritePointer q);
               m4 = AppleAgxPutU32 m3 0x10 (wq_EventNumber q)
           in Some (AppleAgxPutU32 m4 0x14 (if wq_PendingNewQueue q then 1 else 0)))"

definition AppleAgxWorkQueueObserveCompletion ::
  "APPLE_AGX_WORK_QUEUE \<Rightarrow> u32 \<Rightarrow> u32 \<Rightarrow> u32 \<Rightarrow> (APPLE_AGX_WORK_QUEUE \<times> u32) option" where
  "AppleAgxWorkQueueObserveCompletion q eventNumber observedStamp gpuDonePointer =
     (if \<not> wq_HasPending q \<or> wq_Faulted q \<or> eventNumber \<noteq> wq_EventNumber q \<or>
         gpuDonePointer \<noteq> wq_CpuWritePointer q \<or>
         \<not> AppleAgxStampReached observedStamp (wq_ExpectedStamp q)
      then None
      else Some (AppleAgxWorkQueueClearPending (q\<lparr> wq_GpuDonePointer := gpuDonePointer \<rparr>),
                 wq_PendingFence q))"

definition AppleAgxWorkQueueAbort ::
  "APPLE_AGX_WORK_QUEUE \<Rightarrow> u32 \<Rightarrow> APPLE_AGX_WORK_QUEUE option" where
  "AppleAgxWorkQueueAbort q fence =
     (if \<not> wq_HasPending q \<or> fence \<noteq> wq_PendingFence q then None
      else Some ((AppleAgxWorkQueueClearPending q)\<lparr> wq_Faulted := True \<rparr>))"

section \<open>Invariant and step relation\<close>

definition wq_next :: "APPLE_AGX_WORK_QUEUE \<Rightarrow> u32 \<Rightarrow> u32" where
  "wq_next q p = (if p + 1 = wq_Capacity q then 0 else p + 1)"

text \<open>Unless faulted, the write pointer is one slot past the done pointer exactly while a job is in
  flight, and the job's fence and stamp are nonzero then.\<close>

definition wq_wf :: "APPLE_AGX_WORK_QUEUE \<Rightarrow> bool" where
  "wq_wf q \<longleftrightarrow>
     2 \<le> unat (wq_Capacity q) \<and> unat (wq_Capacity q) \<le> 0x500 \<and>
     wq_CpuWritePointer q < wq_Capacity q \<and> wq_GpuDonePointer q < wq_Capacity q \<and>
     unat (wq_EventNumber q) < 128 \<and> wq_CommandQueueAddress q \<noteq> 0 \<and>
     (wq_HasPending q \<longrightarrow> \<not> wq_Faulted q) \<and>
     (wq_HasPending q \<longleftrightarrow> wq_PendingFence q \<noteq> 0) \<and>
     (wq_HasPending q \<longrightarrow> wq_ExpectedStamp q \<noteq> 0 \<and> \<not> wq_FirstRun q) \<and>
     (\<not> wq_Faulted q \<longrightarrow>
        wq_CpuWritePointer q =
          (if wq_HasPending q then wq_next q (wq_GpuDonePointer q) else wq_GpuDonePointer q))"

definition wq_start :: "APPLE_AGX_WORK_QUEUE \<Rightarrow> bool" where
  "wq_start q \<longleftrightarrow> (\<exists>m ty ev a c. AppleAgxWorkQueueInitialize m ty ev a c = Some q)"

inductive wq_step :: "APPLE_AGX_WORK_QUEUE \<Rightarrow> APPLE_AGX_WORK_QUEUE \<Rightarrow> bool" where
  commit: "AppleAgxWorkQueueCommit q item (Some slots) n = Some (t, slots') \<Longrightarrow> wq_step q t"
| observe: "AppleAgxWorkQueueObserveCompletion q e st d = Some (t, f) \<Longrightarrow> wq_step q t"
| abort: "AppleAgxWorkQueueAbort q f = Some t \<Longrightarrow> wq_step q t"

inductive_cases wq_stepE: "wq_step q t"

lemma wq_wf_start: "wq_start q \<Longrightarrow> wq_wf q"
  by (auto simp: wq_start_def wq_wf_def AppleAgxWorkQueueInitialize_def
      AppleAgxWorkQueueClearPending_def word_less_nat_alt word_le_nat_alt split: if_splits)

lemma wq_next_less:
  assumes "p < wq_Capacity q" and "2 \<le> unat (wq_Capacity q)"
  shows "wq_next q p < wq_Capacity q" and "wq_next q p \<noteq> p"
proof -
  have s: "unat (p + 1) = Suc (unat p)"
    using assms(1) by (intro unat_Suc_no_wrap) (simp add: word_less_nat_alt)
  have "p + 1 \<noteq> p" using s by (metis n_not_Suc_n)
  moreover have "p + 1 = wq_Capacity q \<Longrightarrow> p \<noteq> 0"
    using s assms(2) by (metis One_nat_def not_less_eq_eq numeral_2_eq_2 order_refl unat_0)
  ultimately show "wq_next q p < wq_Capacity q" "wq_next q p \<noteq> p"
    using assms s
    by (auto simp: wq_next_def word_less_nat_alt word_unat_eq_iff)
qed

lemma wq_Commit_Some:
  assumes "AppleAgxWorkQueueCommit q item (Some slots) n = Some (t, slots')"
  shows "\<not> wq_HasPending q" and "\<not> wq_Faulted q" and "n = wq_Capacity q"
    and "wi_RingIndex item = wq_CpuWritePointer q" and "wi_Fence item \<noteq> 0"
    and "wi_ExpectedStamp item \<noteq> 0" and "wi_WorkCommandAddress item \<noteq> 0"
    and "wi_NextWritePointer item = wq_next q (wq_CpuWritePointer q)"
    and "wi_NextWritePointer item \<noteq> wq_GpuDonePointer q"
    and "slots' = slots[unat (wq_CpuWritePointer q) := wi_WorkCommandAddress item]"
    and "t = q\<lparr> wq_CpuWritePointer := wi_NextWritePointer item, wq_PendingFence := wi_Fence item,
                wq_ExpectedStamp := wi_ExpectedStamp item,
                wq_PendingNewQueue := wi_NewQueue item \<noteq> 0,
                wq_FirstRun := False, wq_HasPending := True \<rparr>"
  using assms
  by (auto simp: AppleAgxWorkQueueCommit_def AppleAgxWorkQueueCanCommit_def wq_next_def Let_def
      split: if_splits)

lemma wq_step_wf:
  assumes "wq_step q t" and "wq_wf q"
  shows "wq_wf t"
  using assms(1)
proof cases
  case (commit item slots n slots')
  note c = wq_Commit_Some [OF commit]
  have "wq_next q (wq_CpuWritePointer q) < wq_Capacity q"
    using assms(2) by (intro wq_next_less) (simp_all add: wq_wf_def)
  with assms(2) c show ?thesis by (auto simp: wq_wf_def wq_next_def)
next
  case (observe e st d f)
  with assms(2) show ?thesis
    by (auto simp: wq_wf_def AppleAgxWorkQueueObserveCompletion_def
        AppleAgxWorkQueueClearPending_def wq_next_def split: if_splits)
next
  case (abort f)
  with assms(2) show ?thesis
    by (auto simp: wq_wf_def AppleAgxWorkQueueAbort_def
        AppleAgxWorkQueueClearPending_def split: if_splits)
qed

interpretation wq_machine: guarded_system wq_start wq_step wq_wf
  by unfold_locales (auto intro: wq_wf_start wq_step_wf)

section \<open>The run message\<close>

lemma ff_mask: "(0xff :: u32) = mask 8"
  by (simp add: mask_eq_exp_minus_1)

lemma byte32_masked [simp]: "ucast (drop_bit n v AND 0xff :: u32) = (ucast (drop_bit n v) :: u8)"
  by (rule bit_word_eqI) (auto simp: ff_mask bit_simps)

lemma byte32_masked_0 [simp]: "ucast (v AND 0xff :: u32) = (ucast v :: u8)"
  by (rule bit_word_eqI) (auto simp: ff_mask bit_simps)

lemma length_PutU32 [simp]: "length (AppleAgxPutU32 m i v) = length m"
  by (simp add: AppleAgxPutU32_def)

lemma length_PutU64 [simp]: "length (AppleAgxPutU64 m i v) = length m"
  by (simp add: AppleAgxPutU64_def)

lemma get32_PutU32_same [simp]:
  "i + 3 < length m \<Longrightarrow> get32 (AppleAgxPutU32 m i v) i = v"
  using le32_bytes [of v] by (simp add: get32_def AppleAgxPutU32_def byte32_def)

lemma nth_PutU32_other:
  "j < i \<or> i + 3 < j \<Longrightarrow> AppleAgxPutU32 m i v ! j = m ! j"
  by (auto simp: AppleAgxPutU32_def)

lemma get32_PutU32_other [simp]:
  "j + 3 < i \<or> i + 3 < j \<Longrightarrow> get32 (AppleAgxPutU32 m i v) j = get32 m j"
  by (auto simp: get32_def nth_PutU32_other)

lemma get32_PutU64:
  assumes "i + 7 < length m"
  shows "get32 (AppleAgxPutU64 m i v) i = ucast v"
    and "get32 (AppleAgxPutU64 m i v) (i + 4) = ucast (drop_bit 32 v)"
    and "j + 3 < i \<or> i + 7 < j \<Longrightarrow> get32 (AppleAgxPutU64 m i v) j = get32 m j"
  using assms get32_PutU32_other [of j "i + 4"] get32_PutU32_other [of j i]
  by (auto simp: AppleAgxPutU64_def)

text \<open>A decoder of the message, as the firmware reads it.\<close>

definition run_message_address :: "u8 list \<Rightarrow> u64" where
  "run_message_address m = ucast (get32 m 4) OR push_bit 32 (ucast (get32 m 8))"

lemma u64_halves: "ucast (ucast v :: u32) OR push_bit 32 (ucast (ucast (drop_bit 32 v) :: u32)) = (v :: u64)"
proof (rule bit_word_eqI)
  fix n assume "n < LENGTH(64)"
  then show "bit (ucast (ucast v :: u32) OR push_bit 32 (ucast (ucast (drop_bit 32 v) :: u32)) :: u64) n
      = bit v n"
    by (cases "n < 32") (auto simp: bit_simps)
qed

lemma run_message_fields:
  assumes "AppleAgxWorkQueueEncodeRunMessageG13V13_5 q message = Some m" and "length message = 0x30"
  shows "length m = 0x30" and "get32 m 0 = wq_QueueType q"
    and "run_message_address m = wq_CommandQueueAddress q"
    and "get32 m 0x0c = wq_CpuWritePointer q" and "get32 m 0x10 = wq_EventNumber q"
    and "get32 m 0x14 = (if wq_PendingNewQueue q then 1 else 0)"
proof -
  define m0 :: "u8 list" where "m0 = replicate 0x30 0"
  from assms have m: "m = AppleAgxPutU32 (AppleAgxPutU32 (AppleAgxPutU32 (AppleAgxPutU64
      (AppleAgxPutU32 m0 0x00 (wq_QueueType q)) 0x04 (wq_CommandQueueAddress q))
      0x0c (wq_CpuWritePointer q)) 0x10 (wq_EventNumber q)) 0x14
      (if wq_PendingNewQueue q then 1 else 0)"
    by (auto simp: AppleAgxWorkQueueEncodeRunMessageG13V13_5_def m0_def Let_def split: if_splits)
  have l: "length m0 = 0x30" by (simp add: m0_def)
  show "length m = 0x30" using l by (simp add: m)
  show "get32 m 0 = wq_QueueType q" using l by (simp add: m get32_PutU64(3))
  have "get32 m 4 = ucast (wq_CommandQueueAddress q)"
    using l by (simp add: m get32_PutU64(1))
  moreover have "get32 m 8 = ucast (drop_bit 32 (wq_CommandQueueAddress q))"
    using l get32_PutU64(2) [of 4 "AppleAgxPutU32 m0 0 (wq_QueueType q)"] by (simp add: m)
  ultimately show "run_message_address m = wq_CommandQueueAddress q"
    by (simp add: run_message_address_def u64_halves)
  show "get32 m 0x0c = wq_CpuWritePointer q" "get32 m 0x10 = wq_EventNumber q"
    "get32 m 0x14 = (if wq_PendingNewQueue q then 1 else 0)"
    using l by (simp_all add: m)
qed

section \<open>Properties\<close>

definition wq_demo :: APPLE_AGX_WORK_QUEUE where
  "wq_demo = \<lparr> wq_CommandQueueAddress = 0x8000, wq_Capacity = 4, wq_CpuWritePointer = 3,
     wq_GpuDonePointer = 3, wq_QueueType = 1, wq_EventNumber = 5, wq_PendingFence = 0,
     wq_ExpectedStamp = 0, wq_FirstRun = False, wq_PendingNewQueue = False,
     wq_HasPending = False, wq_Faulted = False \<rparr>"

lemma wq_demo_wf: "wq_wf wq_demo"
  by (simp add: wq_wf_def wq_demo_def)



text \<open>An idle, unfaulted queue runs a render job through: preparing succeeds, committing stores
  the command address in the slot at the write pointer and nothing else, no second job can be
  prepared while it is in flight, and a completion whose stamp has been reached returns exactly the
  submission's fence and leaves the queue idle one slot further.\<close>

theorem wq_job_cycle:
  assumes "wq_wf q" and "\<not> wq_HasPending q" and "\<not> wq_Faulted q"
    and "sub_Kind s = AppleAgxSubmissionGdi" and "sub_Fence s \<noteq> 0"
    and "address \<noteq> 0" and "address AND 0x1f = 0" and "stamp \<noteq> 0"
    and "AppleAgxStampReached observed stamp"
  shows "\<exists>item t u. AppleAgxWorkQueuePrepare q s address stamp = Some item \<and>
     AppleAgxWorkQueueCommit q item (Some slots) (wq_Capacity q) =
       Some (t, slots[unat (wq_CpuWritePointer q) := address]) \<and>
     (\<forall>s' a st. AppleAgxWorkQueuePrepare t s' a st = None) \<and>
     AppleAgxWorkQueueObserveCompletion t (wq_EventNumber q) observed (wi_NextWritePointer item) =
       Some (u, sub_Fence s) \<and>
     \<not> wq_HasPending u \<and> \<not> wq_Faulted u \<and>
     wq_CpuWritePointer u = wq_next q (wq_CpuWritePointer q) \<and>
     wq_GpuDonePointer u = wq_CpuWritePointer u \<and> wq_wf u"
proof -
  have c: "\<not> wq_Capacity q < 2" "\<not> wq_Capacity q \<le> wq_CpuWritePointer q"
    "\<not> wq_Capacity q \<le> wq_GpuDonePointer q" and eq: "wq_GpuDonePointer q = wq_CpuWritePointer q"
    and lt: "wq_CpuWritePointer q < wq_Capacity q" "2 \<le> unat (wq_Capacity q)"
    using assms(1-3) by (auto simp: wq_wf_def word_less_nat_alt word_le_nat_alt)
  let ?n = "wq_next q (wq_CpuWritePointer q)"
  have n: "?n \<noteq> wq_CpuWritePointer q" using wq_next_less(2) [OF lt] .
  let ?item = "\<lparr> wi_WorkCommandAddress = address, wi_Fence = sub_Fence s,
      wi_ExpectedStamp = stamp, wi_RingIndex = wq_CpuWritePointer q, wi_NextWritePointer = ?n,
      wi_QueueType = wq_QueueType q, wi_EventNumber = wq_EventNumber q,
      wi_NewQueue = (if wq_FirstRun q then 1 else 0) \<rparr>"
  let ?t = "q\<lparr> wq_CpuWritePointer := ?n, wq_PendingFence := sub_Fence s,
      wq_ExpectedStamp := stamp, wq_PendingNewQueue := wq_FirstRun q,
      wq_FirstRun := False, wq_HasPending := True \<rparr>"
  let ?u = "AppleAgxWorkQueueClearPending (?t\<lparr> wq_GpuDonePointer := ?n \<rparr>)"
  have p: "AppleAgxWorkQueuePrepare q s address stamp = Some ?item"
    using assms(2-8) c eq n by (simp add: AppleAgxWorkQueuePrepare_def wq_next_def Let_def)
  have k: "AppleAgxWorkQueueCommit q ?item (Some slots) (wq_Capacity q) =
      Some (?t, slots[unat (wq_CpuWritePointer q) := address])"
    using assms(2-8) c eq n
    by (simp add: AppleAgxWorkQueueCommit_def AppleAgxWorkQueueCanCommit_def wq_next_def Let_def)
  have o: "AppleAgxWorkQueueObserveCompletion ?t (wq_EventNumber q) observed ?n =
      Some (?u, sub_Fence s)"
    using assms(3,9) by (simp add: AppleAgxWorkQueueObserveCompletion_def)
  have "wq_wf ?u"
    using wq_step_wf [OF wq_step.observe [OF o] wq_step_wf [OF wq_step.commit [OF k] assms(1)]] .
  moreover have "\<forall>s' a st. AppleAgxWorkQueuePrepare ?t s' a st = None"
    by (simp add: AppleAgxWorkQueuePrepare_def)
  ultimately show ?thesis
    using p k o assms(3)
    by (intro exI [of _ ?item] exI [of _ ?t] exI [of _ ?u])
       (simp add: AppleAgxWorkQueueClearPending_def)
qed

theorem wq_job_cycle_witness:
  "\<exists>item t. AppleAgxWorkQueuePrepare wq_demo (demo_packet AppleAgxSubmissionGdi 7) 0x40 9 = Some item \<and>
     AppleAgxWorkQueueCommit wq_demo item (Some [0, 0, 0, 0]) 4 = Some (t, [0, 0, 0, 0x40])"
proof -
  have c: "wq_Capacity wq_demo = 4" "unat (wq_CpuWritePointer wq_demo) = 3"
    by (simp_all add: wq_demo_def)
  have s: "[0, 0, 0, 0][3 := 0x40 :: u64] = [0, 0, 0, 0x40]" by simp
  show ?thesis
    using wq_job_cycle [OF wq_demo_wf, of "demo_packet AppleAgxSubmissionGdi 7" "0x40" 9 10
        "[0, 0, 0, 0]", unfolded c s]
    by (auto simp: demo_packet_def AppleAgxStampReached_def) (auto simp: wq_demo_def)
qed

text \<open>The run message round-trips: its 48 bytes decode, little-endian, to the queue type, the
  64-bit command queue address, the write pointer, the event number and the new-queue flag.\<close>

theorem wq_run_message_roundtrip:
  assumes "AppleAgxWorkQueueEncodeRunMessageG13V13_5 q message = Some m" and "length message = 0x30"
  shows "length m = 0x30 \<and> get32 m 0 = wq_QueueType q \<and>
         run_message_address m = wq_CommandQueueAddress q \<and>
         get32 m 0x0c = wq_CpuWritePointer q \<and> get32 m 0x10 = wq_EventNumber q \<and>
         get32 m 0x14 = (if wq_PendingNewQueue q then 1 else 0)"
  using run_message_fields [OF assms] by blast

theorem wq_run_message_roundtrip_witness:
  "\<exists>m. AppleAgxWorkQueueEncodeRunMessageG13V13_5
         (wq_demo\<lparr> wq_HasPending := True \<rparr>) (replicate 0x30 1) = Some m \<and>
       run_message_address m = 0x8000"
proof -
  obtain m where m: "AppleAgxWorkQueueEncodeRunMessageG13V13_5
      (wq_demo\<lparr> wq_HasPending := True \<rparr>) (replicate 0x30 1) = Some m"
    by (simp add: AppleAgxWorkQueueEncodeRunMessageG13V13_5_def wq_demo_def)
  from wq_run_message_roundtrip [OF m] have "run_message_address m = 0x8000"
    by (simp add: wq_demo_def)
  with m show ?thesis by blast
qed

end
