(* ===== verification/EventAllocator.thy ===== *)
theory EventAllocator
  imports Prelude
begin

text \<open>
  The firmware event allocator of \<^verbatim>\<open>drivers/apple-agx/shared/src/apple_agx_event_allocator.c\<close>:
  128 event numbers kept as a bitmap of four 32-bit words, handed out three at a time under a lease.
  The abstract state is the set of free events.  The byte-wise zeroing of the structure is the zero
  record it leaves.
\<close>

section \<open>State\<close>

record APPLE_AGX_EVENT_PAIR =
  ep_Ta :: u32
  ep_D3 :: u32
  ep_Compute :: u32
  ep_Lease :: u32

record APPLE_AGX_EVENT_ALLOCATOR =
  ea_Reserved :: "u32 list"
  ea_Leases :: "u32 list"
  ea_NextLease :: u32
  ea_Initialized :: bool

section \<open>Operations\<close>

definition AppleAgxEventZero :: APPLE_AGX_EVENT_ALLOCATOR where
  "AppleAgxEventZero = \<lparr> ea_Reserved = replicate 4 0, ea_Leases = replicate 128 0,
     ea_NextLease = 0, ea_Initialized = False \<rparr>"

definition AppleAgxEventReserved :: "APPLE_AGX_EVENT_ALLOCATOR \<Rightarrow> u32 \<Rightarrow> bool" where
  "AppleAgxEventReserved a event \<longleftrightarrow>
     ea_Reserved a ! unat (event div 32) AND push_bit (unat (event mod 32)) 1 \<noteq> 0"

definition AppleAgxEventSetReserved ::
  "APPLE_AGX_EVENT_ALLOCATOR \<Rightarrow> u32 \<Rightarrow> bool \<Rightarrow> APPLE_AGX_EVENT_ALLOCATOR" where
  "AppleAgxEventSetReserved a event reserved =
     (let mask = push_bit (unat (event mod 32)) 1; i = unat (event div 32)
      in a\<lparr> ea_Reserved := (ea_Reserved a)
           [i := (if reserved then ea_Reserved a ! i OR mask
                  else ea_Reserved a ! i AND NOT mask)] \<rparr>)"

definition AppleAgxEventAllocatorInitialize ::
  "APPLE_AGX_EVENT_ALLOCATOR \<Rightarrow> APPLE_AGX_EVENT_ALLOCATOR" where
  "AppleAgxEventAllocatorInitialize a =
     AppleAgxEventZero\<lparr> ea_NextLease := 1, ea_Initialized := True \<rparr>"

text \<open>The search for the three lowest free events; 128 stands for none, as in the code.\<close>

function event_scan ::
  "APPLE_AGX_EVENT_ALLOCATOR \<Rightarrow> nat \<Rightarrow> nat \<Rightarrow> nat \<Rightarrow> nat \<times> nat \<times> nat" where
  "event_scan a ta first second =
     (if ta < 128
      then if AppleAgxEventReserved a (of_nat ta) then event_scan a (Suc ta) first second
           else if first = 128 then event_scan a (Suc ta) ta second
           else if second = 128 then event_scan a (Suc ta) first ta
           else (first, second, ta)
      else (first, second, 128))"
  by pat_completeness auto
termination
  by (relation "measure (\<lambda>(a, ta, first, second). 128 - ta)") auto

declare event_scan.simps [simp del]

definition AppleAgxEventAllocatorReservePair ::
  "APPLE_AGX_EVENT_ALLOCATOR \<Rightarrow> (APPLE_AGX_EVENT_ALLOCATOR \<times> APPLE_AGX_EVENT_PAIR) option" where
  "AppleAgxEventAllocatorReservePair a =
     (if \<not> ea_Initialized a then None
      else case event_scan a 0 128 128 of (first, second, third) \<Rightarrow>
        if third = 128 then None
        else let lease = (if ea_NextLease a = 0 then 1 else ea_NextLease a);
                 a1 = a\<lparr> ea_NextLease := lease + 1 \<rparr>;
                 a2 = AppleAgxEventSetReserved a1 (of_nat first) True;
                 a3 = AppleAgxEventSetReserved a2 (of_nat second) True;
                 a4 = AppleAgxEventSetReserved a3 (of_nat third) True
             in Some (a4\<lparr> ea_Leases := (ea_Leases a4)
                            [first := lease, second := lease, third := lease] \<rparr>,
                      \<lparr> ep_Ta = of_nat first, ep_D3 = of_nat second, ep_Compute = of_nat third,
                        ep_Lease = lease \<rparr>))"

definition AppleAgxEventAllocatorReleasePair ::
  "APPLE_AGX_EVENT_ALLOCATOR \<Rightarrow> APPLE_AGX_EVENT_PAIR \<Rightarrow> APPLE_AGX_EVENT_ALLOCATOR option" where
  "AppleAgxEventAllocatorReleasePair a p =
     (if \<not> ea_Initialized a \<or> ep_Ta p \<ge> 128 \<or> ep_D3 p \<ge> 128 \<or> ep_Compute p \<ge> 128 \<or>
         ep_Ta p = ep_D3 p \<or> ep_Ta p = ep_Compute p \<or> ep_D3 p = ep_Compute p \<or>
         ep_Lease p = 0 \<or> \<not> AppleAgxEventReserved a (ep_Ta p) \<or>
         \<not> AppleAgxEventReserved a (ep_D3 p) \<or>
         ea_Leases a ! unat (ep_Ta p) \<noteq> ep_Lease p \<or> ea_Leases a ! unat (ep_D3 p) \<noteq> ep_Lease p
      then None
      else if \<not> AppleAgxEventReserved a (ep_Compute p) \<or>
              ea_Leases a ! unat (ep_Compute p) \<noteq> ep_Lease p
      then None
      else let a1 = AppleAgxEventSetReserved a (ep_Ta p) False;
               a2 = AppleAgxEventSetReserved a1 (ep_D3 p) False;
               a3 = AppleAgxEventSetReserved a2 (ep_Compute p) False
           in Some (a3\<lparr> ea_Leases := (ea_Leases a3)
                          [unat (ep_Ta p) := 0, unat (ep_D3 p) := 0,
                           unat (ep_Compute p) := 0] \<rparr>))"

section \<open>Contents\<close>

definition ea_free :: "APPLE_AGX_EVENT_ALLOCATOR \<Rightarrow> nat list" where
  "ea_free a = filter (\<lambda>e. \<not> AppleAgxEventReserved a (of_nat e)) [0..<128]"

definition ea_wf :: "APPLE_AGX_EVENT_ALLOCATOR \<Rightarrow> bool" where
  "ea_wf a \<longleftrightarrow> length (ea_Reserved a) = 4 \<and> length (ea_Leases a) = 128 \<and> ea_Initialized a \<and>
     (\<forall>e<128. AppleAgxEventReserved a (of_nat e) \<longleftrightarrow> ea_Leases a ! e \<noteq> 0)"

lemma unat_event [simp]: "e < 128 \<Longrightarrow> unat (of_nat e :: u32) = e"
  by (simp add: unat_of_nat)

lemma event_word [simp]: "e < 128 \<Longrightarrow> unat ((of_nat e :: u32) div 32) = e div 32"
  by (simp add: unat_div)

lemma event_bit [simp]: "e < 128 \<Longrightarrow> unat ((of_nat e :: u32) mod 32) = e mod 32"
  by (simp add: unat_mod)

lemma reserved_bit:
  "e < 128 \<Longrightarrow> AppleAgxEventReserved a (of_nat e) \<longleftrightarrow> bit (ea_Reserved a ! (e div 32)) (e mod 32)"
  unfolding AppleAgxEventReserved_def bit_iff_and_push_bit_not_eq_0
  by (simp only: event_word event_bit)

lemma SetReserved_frame [simp]:
  "length (ea_Reserved (AppleAgxEventSetReserved a e b)) = length (ea_Reserved a)"
  "ea_Leases (AppleAgxEventSetReserved a e b) = ea_Leases a"
  "ea_NextLease (AppleAgxEventSetReserved a e b) = ea_NextLease a"
  "ea_Initialized (AppleAgxEventSetReserved a e b) = ea_Initialized a"
  by (simp_all add: AppleAgxEventSetReserved_def Let_def)

lemma event_split: "(e :: nat) div 32 = f div 32 \<Longrightarrow> e mod 32 = f mod 32 \<Longrightarrow> e = f"
  by (metis mult_div_mod_eq)

lemma SetReserved_test:
  assumes "e < 128" and "f < 128" and "length (ea_Reserved a) = 4"
  shows "AppleAgxEventReserved (AppleAgxEventSetReserved a (of_nat f) b) (of_nat e) \<longleftrightarrow>
         (if e = f then b else AppleAgxEventReserved a (of_nat e))"
proof -
  have d: "f div 32 < 4" "e div 32 < 4" using assms by auto
  show ?thesis
    using assms d event_split [of e f]
    by (cases "e div 32 = f div 32")
       (auto simp: reserved_bit AppleAgxEventSetReserved_def Let_def bit_simps)
qed

lemma Leases_update_test [simp]:
  "AppleAgxEventReserved (a\<lparr> ea_Leases := l \<rparr>) e = AppleAgxEventReserved a e"
  "AppleAgxEventReserved (a\<lparr> ea_NextLease := n \<rparr>) e = AppleAgxEventReserved a e"
  by (simp_all add: AppleAgxEventReserved_def)

fun pick3 :: "nat list \<Rightarrow> nat \<times> nat \<times> nat" where
  "pick3 [] = (128, 128, 128)"
| "pick3 [a] = (a, 128, 128)"
| "pick3 [a, b] = (a, b, 128)"
| "pick3 (a # b # c # xs) = (a, b, c)"

lemma event_scan_pick:
  "acc = (if first = 128 then [] else if second = 128 then [first] else [first, second]) \<Longrightarrow>
   first = 128 \<longrightarrow> second = 128 \<Longrightarrow> ta \<le> 128 \<Longrightarrow>
   event_scan a ta first second =
     pick3 (acc @ filter (\<lambda>e. \<not> AppleAgxEventReserved a (of_nat e)) [ta..<128])"
proof (induction a ta first second arbitrary: acc rule: event_scan.induct)
  case (1 a ta first second)
  show ?case
  proof (cases "ta < 128")
    case False
    with 1 show ?thesis by (subst event_scan.simps) simp
  next
    case True
    then have u: "[ta..<128] = ta # [Suc ta..<128]" by (simp add: upt_conv_Cons)
    show ?thesis
      using 1 True by (subst event_scan.simps) (simp add: u del: upt_Suc)
  qed
qed

lemma event_scan_free: "event_scan a 0 128 128 = pick3 (ea_free a)"
  using event_scan_pick [of "[]" 128 128 0 a] by (simp add: ea_free_def)

lemma ea_free_less: "e \<in> set (ea_free a) \<Longrightarrow> e < 128"
  by (simp add: ea_free_def)

lemma ea_free_distinct: "distinct (ea_free a)"
  by (simp add: ea_free_def)

lemma pick3_cases:
  assumes "pick3 xs = (a, b, c)" and "\<forall>x\<in>set xs. x < 128"
  shows "c = 128 \<longleftrightarrow> length xs < 3" and "c \<noteq> 128 \<Longrightarrow> xs = a # b # c # drop 3 xs"
  using assms by (cases xs rule: pick3.cases; auto)+

lemma ReservePair_None_iff:
  assumes "ea_Initialized a"
  shows "AppleAgxEventAllocatorReservePair a = None \<longleftrightarrow> length (ea_free a) < 3"
proof -
  obtain x y z where p: "pick3 (ea_free a) = (x, y, z)" by (cases "pick3 (ea_free a)")
  have "\<forall>e\<in>set (ea_free a). e < 128" by (simp add: ea_free_less)
  from pick3_cases(1) [OF p this] assms show ?thesis
    by (simp add: AppleAgxEventAllocatorReservePair_def event_scan_free p Let_def)
qed

lemma ReservePair_Some:
  assumes "AppleAgxEventAllocatorReservePair a = Some (t, p)" and "ea_wf a"
  shows "\<exists>x y z. ea_free a = x # y # z # ea_free t \<and>
           ep_Ta p = of_nat x \<and> ep_D3 p = of_nat y \<and> ep_Compute p = of_nat z"
    and "ea_wf t" and "ep_Lease p \<noteq> 0"
    and "ea_Leases t = (ea_Leases a)[unat (ep_Ta p) := ep_Lease p, unat (ep_D3 p) := ep_Lease p,
                                     unat (ep_Compute p) := ep_Lease p]"
proof -
  obtain x y z where s: "pick3 (ea_free a) = (x, y, z)" by (cases "pick3 (ea_free a)")
  have l128: "\<forall>e\<in>set (ea_free a). e < 128" by (simp add: ea_free_less)
  note pc = pick3_cases [OF s l128]
  from assms have init: "ea_Initialized a" "length (ea_Reserved a) = 4" "length (ea_Leases a) = 128"
    by (simp_all add: ea_wf_def)
  have z: "z \<noteq> 128"
    using assms(1) by (auto simp: AppleAgxEventAllocatorReservePair_def event_scan_free s split: if_splits)
  note f = pc(2) [OF z]
  have lt: "x < 128" "y < 128" "z < 128" using f l128 by (metis list.set_intros)+
  have ds: "x \<noteq> y" "x \<noteq> z" "y \<noteq> z" "distinct (drop 3 (ea_free a))"
    "x \<notin> set (drop 3 (ea_free a))" "y \<notin> set (drop 3 (ea_free a))" "z \<notin> set (drop 3 (ea_free a))"
    using ea_free_distinct [of a] by (subst (asm) f; simp)+
  define lease where "lease = (if ea_NextLease a = 0 then 1 else ea_NextLease a)"
  have l0: "lease \<noteq> 0" by (simp add: lease_def)
  let ?a = "AppleAgxEventSetReserved (AppleAgxEventSetReserved (AppleAgxEventSetReserved
      (a\<lparr> ea_NextLease := lease + 1 \<rparr>) (of_nat x) True) (of_nat y) True) (of_nat z) True"
  from assms(1) init z have
    t: "t = ?a\<lparr> ea_Leases := (ea_Leases a)[x := lease, y := lease, z := lease] \<rparr>"
    and p: "p = \<lparr> ep_Ta = of_nat x, ep_D3 = of_nat y, ep_Compute = of_nat z, ep_Lease = lease \<rparr>"
    by (simp_all add: AppleAgxEventAllocatorReservePair_def event_scan_free s Let_def lease_def)
  have r: "AppleAgxEventReserved t (of_nat e) \<longleftrightarrow>
      e = x \<or> e = y \<or> e = z \<or> AppleAgxEventReserved a (of_nat e)" if "e < 128" for e
    using that lt init by (simp add: t SetReserved_test)
  have "ea_free t = filter (\<lambda>e. e \<noteq> x \<and> e \<noteq> y \<and> e \<noteq> z) (ea_free a)"
    unfolding ea_free_def filter_filter by (rule filter_cong) (auto simp: r)
  also have "\<dots> = drop 3 (ea_free a)"
    by (subst f) (use ds in \<open>auto simp: filter_id_conv\<close>)
  finally have "ea_free a = x # y # z # ea_free t" using f by simp
  then show "\<exists>x y z. ea_free a = x # y # z # ea_free t \<and>
      ep_Ta p = of_nat x \<and> ep_D3 p = of_nat y \<and> ep_Compute p = of_nat z"
    by (auto simp: p)
  show "ep_Lease p \<noteq> 0" by (simp add: p l0)
  show "ea_Leases t = (ea_Leases a)[unat (ep_Ta p) := ep_Lease p, unat (ep_D3 p) := ep_Lease p,
      unat (ep_Compute p) := ep_Lease p]"
    using lt by (simp add: t p)
  have "AppleAgxEventReserved t (of_nat e) \<longleftrightarrow> ea_Leases t ! e \<noteq> 0" if "e < 128" for e
    using that assms(2) lt l0 init by (auto simp: r) (auto simp: t ea_wf_def nth_list_update split: if_splits)
  then show "ea_wf t" using init by (simp add: ea_wf_def t)
qed

lemma ReleasePair_Some:
  assumes "AppleAgxEventAllocatorReleasePair a p = Some t" and "ea_wf a"
  shows "ea_wf t" and "ep_Ta p < 128" and "ep_D3 p < 128" and "ep_Compute p < 128"
    and "distinct [ep_Ta p, ep_D3 p, ep_Compute p]"
    and "\<forall>e\<in>{ep_Ta p, ep_D3 p, ep_Compute p}. ea_Leases a ! unat e = ep_Lease p \<and> ep_Lease p \<noteq> 0"
    and "e < 128 \<Longrightarrow> AppleAgxEventReserved t (of_nat e) \<longleftrightarrow>
           e \<notin> unat ` {ep_Ta p, ep_D3 p, ep_Compute p} \<and> AppleAgxEventReserved a (of_nat e)"
    and "ea_Leases t = (ea_Leases a)[unat (ep_Ta p) := 0, unat (ep_D3 p) := 0,
                                     unat (ep_Compute p) := 0]"
proof -
  from assms(1) show g: "ep_Ta p < 128" "ep_D3 p < 128" "ep_Compute p < 128"
    "distinct [ep_Ta p, ep_D3 p, ep_Compute p]"
    "\<forall>e\<in>{ep_Ta p, ep_D3 p, ep_Compute p}. ea_Leases a ! unat e = ep_Lease p \<and> ep_Lease p \<noteq> 0"
    by (auto simp: AppleAgxEventAllocatorReleasePair_def not_le split: if_splits)
  define x y z where "x = unat (ep_Ta p)" and "y = unat (ep_D3 p)" and "z = unat (ep_Compute p)"
  have lt: "x < 128" "y < 128" "z < 128"
    using g(1-3) by (simp_all add: x_def y_def z_def word_less_nat_alt)
  have w: "ep_Ta p = of_nat x" "ep_D3 p = of_nat y" "ep_Compute p = of_nat z"
    by (simp_all add: x_def y_def z_def)
  have len: "length (ea_Reserved a) = 4" "length (ea_Leases a) = 128" "ea_Initialized a"
    using assms(2) by (simp_all add: ea_wf_def)
  let ?a = "AppleAgxEventSetReserved (AppleAgxEventSetReserved (AppleAgxEventSetReserved a
      (ep_Ta p) False) (ep_D3 p) False) (ep_Compute p) False"
  from assms(1) have t: "t = ?a\<lparr> ea_Leases := (ea_Leases a)[x := 0, y := 0, z := 0] \<rparr>"
    by (auto simp: AppleAgxEventAllocatorReleasePair_def x_def y_def z_def Let_def split: if_splits)
  have r: "AppleAgxEventReserved t (of_nat e) \<longleftrightarrow>
      e \<noteq> x \<and> e \<noteq> y \<and> e \<noteq> z \<and> AppleAgxEventReserved a (of_nat e)" if "e < 128" for e
    using that lt len by (simp add: t w SetReserved_test)
  then show "e < 128 \<Longrightarrow> AppleAgxEventReserved t (of_nat e) \<longleftrightarrow>
      e \<notin> unat ` {ep_Ta p, ep_D3 p, ep_Compute p} \<and> AppleAgxEventReserved a (of_nat e)"
    by (auto simp: x_def y_def z_def)
  show "ea_Leases t = (ea_Leases a)[unat (ep_Ta p) := 0, unat (ep_D3 p) := 0,
      unat (ep_Compute p) := 0]"
    by (simp add: t x_def y_def z_def)
  have "AppleAgxEventReserved t (of_nat e) \<longleftrightarrow> ea_Leases t ! e \<noteq> 0" if "e < 128" for e
    using that assms(2) lt len by (auto simp: r) (auto simp: t ea_wf_def nth_list_update split: if_splits)
  then show "ea_wf t" using len by (simp add: ea_wf_def t)
qed

section \<open>Properties\<close>

definition ea_demo :: APPLE_AGX_EVENT_ALLOCATOR where
  "ea_demo = AppleAgxEventAllocatorInitialize AppleAgxEventZero"

lemma ea_initialize_wf: "ea_wf (AppleAgxEventAllocatorInitialize a)"
  by (simp add: ea_wf_def AppleAgxEventAllocatorInitialize_def AppleAgxEventZero_def
      reserved_bit)

lemma ea_initialize_free: "ea_free (AppleAgxEventAllocatorInitialize a) = [0..<128]"
  unfolding ea_free_def
  by (rule filter_True)
     (simp add: AppleAgxEventAllocatorInitialize_def AppleAgxEventZero_def reserved_bit)

text \<open>C32. Reserving a triple refines taking the three lowest free events: it fails exactly when
  fewer than three events are free, and otherwise hands out the three lowest free events, all
  distinct, under one nonzero lease recorded for each, and leaves every other event free or
  reserved as it was.\<close>

theorem event_reserve_lowest:
  assumes "ea_wf a"
  shows "case AppleAgxEventAllocatorReservePair a of
           None \<Rightarrow> length (ea_free a) < 3
         | Some (t, p) \<Rightarrow> ea_wf t \<and> ep_Lease p \<noteq> 0 \<and>
             ea_free a = unat (ep_Ta p) # unat (ep_D3 p) # unat (ep_Compute p) # ea_free t \<and>
             ea_Leases t = (ea_Leases a)[unat (ep_Ta p) := ep_Lease p,
               unat (ep_D3 p) := ep_Lease p, unat (ep_Compute p) := ep_Lease p]"
proof (cases "AppleAgxEventAllocatorReservePair a")
  case None
  then have "length (ea_free a) < 3"
    using ReservePair_None_iff [of a] assms by (simp add: ea_wf_def)
  then show ?thesis by (simp only: None option.case)
next
  case (Some tp)
  then obtain t p where tp: "AppleAgxEventAllocatorReservePair a = Some (t, p)" by (cases tp) simp
  note r = ReservePair_Some [OF tp assms]
  from r(1) obtain x y z where f: "ea_free a = x # y # z # ea_free t"
    and p: "ep_Ta p = of_nat x" "ep_D3 p = of_nat y" "ep_Compute p = of_nat z" by blast
  have "x < 128" "y < 128" "z < 128" using ea_free_less [of _ a] by (auto simp: f)
  then have "ea_free a = unat (ep_Ta p) # unat (ep_D3 p) # unat (ep_Compute p) # ea_free t"
    using f by (simp add: p)
  with r(2-4) show ?thesis by (simp only: tp option.case prod.case) blast
qed

theorem event_reserve_lowest_witness:
  "\<exists>t p. AppleAgxEventAllocatorReservePair ea_demo = Some (t, p) \<and> ep_Ta p = 0 \<and> ep_Compute p = 2"
proof -
  have w: "ea_wf ea_demo" and f: "ea_free ea_demo = [0..<128]"
    by (simp_all add: ea_demo_def ea_initialize_wf ea_initialize_free)
  have f3: "[0..<128] = 0 # 1 # 2 # [3..<128]" by (simp add: upt_conv_Cons numeral_3_eq_3)
  show ?thesis
  proof (cases "AppleAgxEventAllocatorReservePair ea_demo")
    case None
    with event_reserve_lowest [OF w] show ?thesis by (simp add: f)
  next
    case (Some tp)
    then obtain t p where "AppleAgxEventAllocatorReservePair ea_demo = Some (t, p)"
      by (cases tp) simp
    with event_reserve_lowest [OF w] have "unat (ep_Ta p) = 0" "unat (ep_Compute p) = 2"
      by (simp_all add: f f3)
    then have "ep_Ta p = 0" "ep_Compute p = 2"
      by (simp_all add: word_unat_eq_iff)
    with \<open>_ = Some (t, p)\<close> show ?thesis by blast
  qed
qed

text \<open>Releasing a triple just reserved always succeeds and restores the free events and the
  leases exactly; and a release frees only distinct reserved events whose recorded lease is the
  caller's, so a stale or forged pair frees nothing.\<close>

theorem event_release_exact:
  assumes "ea_wf a"
  shows "(\<forall>t p. AppleAgxEventAllocatorReservePair a = Some (t, p) \<longrightarrow>
            (\<exists>u. AppleAgxEventAllocatorReleasePair t p = Some u \<and> ea_wf u \<and>
                 ea_free u = ea_free a \<and> ea_Leases u = ea_Leases a)) \<and>
         (\<forall>p u. AppleAgxEventAllocatorReleasePair a p = Some u \<longrightarrow> ea_wf u \<and>
            distinct [ep_Ta p, ep_D3 p, ep_Compute p] \<and>
            (\<forall>e\<in>{ep_Ta p, ep_D3 p, ep_Compute p}. e < 128 \<and> ep_Lease p \<noteq> 0 \<and>
               ea_Leases a ! unat e = ep_Lease p))"
proof (intro conjI allI impI)
  fix t p assume r: "AppleAgxEventAllocatorReservePair a = Some (t, p)"
  note s = ReservePair_Some [OF r assms]
  from s(1) obtain x y z where f: "ea_free a = x # y # z # ea_free t"
    and p: "ep_Ta p = of_nat x" "ep_D3 p = of_nat y" "ep_Compute p = of_nat z" by blast
  have lt: "x < 128" "y < 128" "z < 128" using ea_free_less [of _ a] by (auto simp: f)
  have d: "x \<noteq> y" "x \<noteq> z" "y \<noteq> z" using ea_free_distinct [of a] by (auto simp: f)
  have len: "length (ea_Leases a) = 128" "length (ea_Leases t) = 128"
    "ea_Initialized t" using assms s(2) by (simp_all add: ea_wf_def)
  have dw: "(of_nat x :: u32) \<noteq> of_nat y" "(of_nat x :: u32) \<noteq> of_nat z"
    "(of_nat y :: u32) \<noteq> of_nat z"
    using d lt by (metis unat_event)+
  have own: "ea_Leases t ! x = ep_Lease p" "ea_Leases t ! y = ep_Lease p"
    "ea_Leases t ! z = ep_Lease p"
    using lt len d by (simp_all add: s(4) p)
  have res: "AppleAgxEventReserved t (of_nat x)" "AppleAgxEventReserved t (of_nat y)"
    "AppleAgxEventReserved t (of_nat z)"
    using s(2,3) lt own by (simp_all add: ea_wf_def)
  have b: "\<not> 128 \<le> (of_nat x :: u32)" "\<not> 128 \<le> (of_nat y :: u32)" "\<not> 128 \<le> (of_nat z :: u32)"
    using lt by (simp_all add: word_le_nat_alt)
  obtain u where u: "AppleAgxEventAllocatorReleasePair t p = Some u"
    using len res own dw b s(3) lt
    by (simp add: AppleAgxEventAllocatorReleasePair_def p Let_def)
  note q = ReleasePair_Some [OF u s(2)]
  have free: "x \<in> set (ea_free a)" "y \<in> set (ea_free a)" "z \<in> set (ea_free a)" by (simp_all add: f)
  have ft: "e \<in> set (ea_free t) \<longleftrightarrow> e \<in> set (ea_free a) \<and> e \<noteq> x \<and> e \<noteq> y \<and> e \<noteq> z" for e
    using ea_free_distinct [of a] by (auto simp: f)
  have "AppleAgxEventReserved u (of_nat e) \<longleftrightarrow> AppleAgxEventReserved a (of_nat e)" if "e < 128" for e
    using q(7) [OF that] ft [of e] free lt that by (auto simp: p ea_free_def)
  then have fu: "ea_free u = ea_free a"
    unfolding ea_free_def by (intro filter_cong) auto
  have a0: "ea_Leases a ! x = 0" "ea_Leases a ! y = 0" "ea_Leases a ! z = 0"
    using assms free lt by (auto simp: ea_wf_def ea_free_def)
  have "ea_Leases u = ea_Leases a"
    using a0 d lt by (intro nth_equalityI) (auto simp: q(8) s(4) p nth_list_update len)
  with u q(1) fu show "\<exists>u. AppleAgxEventAllocatorReleasePair t p = Some u \<and> ea_wf u \<and>
      ea_free u = ea_free a \<and> ea_Leases u = ea_Leases a" by blast
next
  fix p u assume "AppleAgxEventAllocatorReleasePair a p = Some u"
  note q = ReleasePair_Some [OF this assms]
  show "ea_wf u" "distinct [ep_Ta p, ep_D3 p, ep_Compute p]" by fact+
  show "\<forall>e\<in>{ep_Ta p, ep_D3 p, ep_Compute p}. e < 128 \<and> ep_Lease p \<noteq> 0 \<and>
      ea_Leases a ! unat e = ep_Lease p" using q(2-6) by auto
qed

theorem event_release_exact_witness:
  "\<exists>t p u. AppleAgxEventAllocatorReservePair ea_demo = Some (t, p) \<and>
     AppleAgxEventAllocatorReleasePair t p = Some u \<and> ea_free u = [0..<128]"
proof -
  have w: "ea_wf ea_demo" and f: "ea_free ea_demo = [0..<128]"
    by (simp_all add: ea_demo_def ea_initialize_wf ea_initialize_free)
  have i: "ea_Initialized ea_demo" using w by (simp add: ea_wf_def)
  then have "AppleAgxEventAllocatorReservePair ea_demo \<noteq> None"
    using ReservePair_None_iff [OF i] f by simp
  then obtain t p where "AppleAgxEventAllocatorReservePair ea_demo = Some (t, p)" by auto
  with event_release_exact [OF w] f show ?thesis by metis
qed

end
