(* ===== verification/DeviceState.thy ===== *)
theory DeviceState
  imports Interfaces
begin

text \<open>
  The device phase machine of \<^verbatim>\<open>drivers/apple-agx/shared/src/apple_agx_state.c\<close>: the
  bring-up and reset phases, the table of 64 mappings and the one outstanding fence.  The constants
  of the generated header are written out: 16-KiB pages, 40 address bits, 500 ms timeout.
\<close>

section \<open>State\<close>

datatype APPLE_AGX_PHASE =
  AppleAgxPhaseOff
| AppleAgxPhaseResourcesValidated
| AppleAgxPhaseFirmwareOwned
| AppleAgxPhaseQueueReady
| AppleAgxPhaseRunning
| AppleAgxPhaseResetting
| AppleAgxPhaseStopped
| AppleAgxPhaseFailed

record APPLE_AGX_MAPPING =
  map_Base :: u64
  map_Size :: u64
  map_Permissions :: u32
  map_InUse :: bool

record APPLE_AGX_STATE =
  st_Phase :: APPLE_AGX_PHASE
  st_Mappings :: "APPLE_AGX_MAPPING list"
  st_MappingCount :: u32
  st_CompletedFence :: u64
  st_SubmittedFence :: u64
  st_SubmitTimeMs :: u64
  st_FenceOutstanding :: bool

abbreviation G2_PAGE_SIZE :: u64 where "G2_PAGE_SIZE \<equiv> 0x4000"
abbreviation G2_ADDRESS_LIMIT :: u64 where "G2_ADDRESS_LIMIT \<equiv> 0x10000000000"
abbreviation G2_WORK_TIMEOUT_MS :: u64 where "G2_WORK_TIMEOUT_MS \<equiv> 500"
abbreviation MAP_READ :: u32 where "MAP_READ \<equiv> 1"
abbreviation MAP_WRITE :: u32 where "MAP_WRITE \<equiv> 2"
abbreviation MAP_EXECUTE :: u32 where "MAP_EXECUTE \<equiv> 4"

section \<open>Operations\<close>

definition AppleAgxPhaseMayMap :: "APPLE_AGX_PHASE \<Rightarrow> bool" where
  "AppleAgxPhaseMayMap p \<longleftrightarrow>
     p = AppleAgxPhaseFirmwareOwned \<or> p = AppleAgxPhaseQueueReady \<or> p = AppleAgxPhaseRunning"

definition AppleAgxRangeValid :: "u64 \<Rightarrow> u64 \<Rightarrow> bool" where
  "AppleAgxRangeValid base size' =
     (if size' = 0 \<or> base mod G2_PAGE_SIZE \<noteq> 0 \<or> size' mod G2_PAGE_SIZE \<noteq> 0 then False
      else if base \<ge> G2_ADDRESS_LIMIT \<or> size' > G2_ADDRESS_LIMIT - base then False
      else True)"

definition AppleAgxRangesOverlap :: "u64 \<Rightarrow> u64 \<Rightarrow> u64 \<Rightarrow> u64 \<Rightarrow> bool" where
  "AppleAgxRangesOverlap leftBase leftSize rightBase rightSize \<longleftrightarrow>
     leftBase < rightBase + rightSize \<and> rightBase < leftBase + leftSize"

abbreviation mapping_zero :: APPLE_AGX_MAPPING where
  "mapping_zero \<equiv> \<lparr> map_Base = 0, map_Size = 0, map_Permissions = 0, map_InUse = False \<rparr>"

definition AppleAgxStateInitialize :: "APPLE_AGX_STATE \<Rightarrow> APPLE_AGX_STATE" where
  "AppleAgxStateInitialize s =
     s\<lparr> st_Phase := AppleAgxPhaseOff, st_MappingCount := 0, st_CompletedFence := 0,
        st_SubmittedFence := 0, st_SubmitTimeMs := 0, st_FenceOutstanding := False,
        st_Mappings := replicate 64 mapping_zero \<rparr>"

definition AppleAgxStateValidateResources :: "APPLE_AGX_STATE \<Rightarrow> APPLE_AGX_STATE option" where
  "AppleAgxStateValidateResources s =
     (if st_MappingCount s \<noteq> 0 \<or> st_FenceOutstanding s then None
      else if st_Phase s \<noteq> AppleAgxPhaseOff \<and> st_Phase s \<noteq> AppleAgxPhaseStopped then None
      else Some (s\<lparr> st_Phase := AppleAgxPhaseResourcesValidated \<rparr>))"

definition AppleAgxStateTakeFirmwareOwnership :: "APPLE_AGX_STATE \<Rightarrow> APPLE_AGX_STATE option" where
  "AppleAgxStateTakeFirmwareOwnership s =
     (if st_Phase s \<noteq> AppleAgxPhaseResourcesValidated then None
      else Some (s\<lparr> st_Phase := AppleAgxPhaseFirmwareOwned \<rparr>))"

definition AppleAgxStateMarkQueueReady :: "APPLE_AGX_STATE \<Rightarrow> APPLE_AGX_STATE option" where
  "AppleAgxStateMarkQueueReady s =
     (if st_Phase s \<noteq> AppleAgxPhaseFirmwareOwned then None
      else Some (s\<lparr> st_Phase := AppleAgxPhaseQueueReady \<rparr>))"

definition AppleAgxStateStart :: "APPLE_AGX_STATE \<Rightarrow> APPLE_AGX_STATE option" where
  "AppleAgxStateStart s =
     (if st_Phase s \<noteq> AppleAgxPhaseQueueReady then None
      else Some (s\<lparr> st_Phase := AppleAgxPhaseRunning \<rparr>))"

text \<open>The scan of the mapping table: \<open>None\<close> when an entry in use overlaps, else the first free
  index, 64 for none.\<close>

function state_scan :: "APPLE_AGX_MAPPING list \<Rightarrow> u64 \<Rightarrow> u64 \<Rightarrow> nat \<Rightarrow> nat \<Rightarrow> nat option" where
  "state_scan ms base size' index free_index =
     (if index < 64
      then let m = ms ! index
           in if \<not> map_InUse m
              then state_scan ms base size' (Suc index)
                     (if free_index = 64 then index else free_index)
              else if AppleAgxRangesOverlap base size' (map_Base m) (map_Size m) then None
              else state_scan ms base size' (Suc index) free_index
      else Some free_index)"
  by pat_completeness auto
termination
  by (relation "measure (\<lambda>(ms, base, size', index, free_index). 64 - index)") auto

declare state_scan.simps [simp del]

definition AppleAgxStateMap ::
  "APPLE_AGX_STATE \<Rightarrow> u64 \<Rightarrow> u64 \<Rightarrow> u32 \<Rightarrow> APPLE_AGX_STATE option" where
  "AppleAgxStateMap s base size' permissions =
     (if \<not> AppleAgxPhaseMayMap (st_Phase s) \<or> \<not> AppleAgxRangeValid base size' \<or>
         permissions = 0 \<or> permissions AND NOT (MAP_READ OR MAP_WRITE OR MAP_EXECUTE) \<noteq> 0 \<or>
         permissions AND (MAP_WRITE OR MAP_EXECUTE) = (MAP_WRITE OR MAP_EXECUTE) \<or>
         st_MappingCount s \<ge> 64
      then None
      else case state_scan (st_Mappings s) base size' 0 64 of
             None \<Rightarrow> None
           | Some free_index \<Rightarrow>
               (if free_index = 64 then None
                else Some (s\<lparr> st_Mappings := (st_Mappings s)
                                [free_index := \<lparr> map_Base = base, map_Size = size',
                                   map_Permissions = permissions, map_InUse = True \<rparr>],
                              st_MappingCount := st_MappingCount s + 1 \<rparr>)))"

function state_find :: "APPLE_AGX_MAPPING list \<Rightarrow> u64 \<Rightarrow> u64 \<Rightarrow> nat \<Rightarrow> nat option" where
  "state_find ms base size' index =
     (if index < 64
      then let m = ms ! index
           in if \<not> map_InUse m \<or> map_Base m \<noteq> base \<or> map_Size m \<noteq> size'
              then state_find ms base size' (Suc index)
              else Some index
      else None)"
  by pat_completeness auto
termination
  by (relation "measure (\<lambda>(ms, base, size', index). 64 - index)") auto

declare state_find.simps [simp del]

definition AppleAgxStateUnmap ::
  "APPLE_AGX_STATE \<Rightarrow> u64 \<Rightarrow> u64 \<Rightarrow> APPLE_AGX_STATE option" where
  "AppleAgxStateUnmap s base size' =
     (case state_find (st_Mappings s) base size' 0 of
        None \<Rightarrow> None
      | Some index \<Rightarrow>
          Some (s\<lparr> st_Mappings := (st_Mappings s)[index := mapping_zero],
                   st_MappingCount := st_MappingCount s - 1 \<rparr>))"

definition AppleAgxStateSubmitFence ::
  "APPLE_AGX_STATE \<Rightarrow> u64 \<Rightarrow> u64 \<Rightarrow> APPLE_AGX_STATE option" where
  "AppleAgxStateSubmitFence s fence nowMs =
     (if st_Phase s \<noteq> AppleAgxPhaseRunning \<or> st_FenceOutstanding s \<or> fence = 0 \<or>
         fence \<noteq> st_CompletedFence s + 1
      then None
      else Some (s\<lparr> st_SubmittedFence := fence, st_SubmitTimeMs := nowMs,
                    st_FenceOutstanding := True \<rparr>))"

definition AppleAgxStateCompleteFence ::
  "APPLE_AGX_STATE \<Rightarrow> u64 \<Rightarrow> APPLE_AGX_STATE option" where
  "AppleAgxStateCompleteFence s fence =
     (if st_Phase s \<noteq> AppleAgxPhaseRunning \<or> \<not> st_FenceOutstanding s \<or>
         fence \<noteq> st_SubmittedFence s
      then None
      else Some (s\<lparr> st_CompletedFence := fence, st_SubmitTimeMs := 0,
                    st_FenceOutstanding := False \<rparr>))"

definition AppleAgxStateCheckTimeout ::
  "APPLE_AGX_STATE \<Rightarrow> u64 \<Rightarrow> APPLE_AGX_STATE option" where
  "AppleAgxStateCheckTimeout s nowMs =
     (if st_Phase s \<noteq> AppleAgxPhaseRunning \<or> \<not> st_FenceOutstanding s then None
      else if nowMs < st_SubmitTimeMs s then Some (s\<lparr> st_Phase := AppleAgxPhaseResetting \<rparr>)
      else if nowMs - st_SubmitTimeMs s \<le> G2_WORK_TIMEOUT_MS then None
      else Some (s\<lparr> st_Phase := AppleAgxPhaseResetting \<rparr>))"

definition AppleAgxStateDiscardOutstandingFence ::
  "APPLE_AGX_STATE \<Rightarrow> APPLE_AGX_STATE option" where
  "AppleAgxStateDiscardOutstandingFence s =
     (if st_Phase s \<noteq> AppleAgxPhaseResetting \<or> \<not> st_FenceOutstanding s then None
      else Some (s\<lparr> st_SubmittedFence := st_CompletedFence s, st_SubmitTimeMs := 0,
                    st_FenceOutstanding := False \<rparr>))"

definition AppleAgxStateBeginReset :: "APPLE_AGX_STATE \<Rightarrow> APPLE_AGX_STATE option" where
  "AppleAgxStateBeginReset s =
     (if st_Phase s = AppleAgxPhaseOff \<or> st_Phase s = AppleAgxPhaseStopped \<or>
         st_Phase s = AppleAgxPhaseResetting
      then None
      else Some (s\<lparr> st_Phase := AppleAgxPhaseResetting \<rparr>))"

definition AppleAgxStateCompleteReset :: "APPLE_AGX_STATE \<Rightarrow> APPLE_AGX_STATE option" where
  "AppleAgxStateCompleteReset s =
     (if st_Phase s \<noteq> AppleAgxPhaseResetting \<or> st_MappingCount s \<noteq> 0 \<or> st_FenceOutstanding s
      then None
      else Some (s\<lparr> st_Phase := AppleAgxPhaseStopped \<rparr>))"

definition AppleAgxStateFail :: "APPLE_AGX_STATE \<Rightarrow> APPLE_AGX_STATE" where
  "AppleAgxStateFail s = s\<lparr> st_Phase := AppleAgxPhaseFailed \<rparr>"

section \<open>Contents and well-formedness\<close>

text \<open>The bytes a mapping covers, and the mappings in use with their slots.\<close>

definition map_bytes :: "APPLE_AGX_MAPPING \<Rightarrow> nat set" where
  "map_bytes m = {unat (map_Base m)..<unat (map_Base m) + unat (map_Size m)}"

definition map_ok :: "APPLE_AGX_MAPPING \<Rightarrow> bool" where
  "map_ok m \<longleftrightarrow> AppleAgxRangeValid (map_Base m) (map_Size m) \<and> map_Permissions m \<noteq> 0 \<and>
     map_Permissions m AND (MAP_WRITE OR MAP_EXECUTE) \<noteq> (MAP_WRITE OR MAP_EXECUTE)"

definition st_used :: "APPLE_AGX_STATE \<Rightarrow> nat set" where
  "st_used s = {i. i < 64 \<and> map_InUse (st_Mappings s ! i)}"

definition st_table :: "APPLE_AGX_STATE \<Rightarrow> bool" where
  "st_table s \<longleftrightarrow> length (st_Mappings s) = 64 \<and> unat (st_MappingCount s) = card (st_used s) \<and>
     (\<forall>i\<in>st_used s. map_ok (st_Mappings s ! i)) \<and>
     (\<forall>i\<in>st_used s. \<forall>j\<in>st_used s. i \<noteq> j \<longrightarrow>
        map_bytes (st_Mappings s ! i) \<inter> map_bytes (st_Mappings s ! j) = {})"

definition st_fences :: "APPLE_AGX_STATE \<Rightarrow> bool" where
  "st_fences s \<longleftrightarrow>
     (if st_FenceOutstanding s
      then st_SubmittedFence s = st_CompletedFence s + 1 \<and> st_SubmittedFence s \<noteq> 0 \<and>
           st_Phase s \<in> {AppleAgxPhaseRunning, AppleAgxPhaseResetting, AppleAgxPhaseFailed}
      else st_SubmittedFence s = st_CompletedFence s)"

definition st_quiet :: "APPLE_AGX_STATE \<Rightarrow> bool" where
  "st_quiet s \<longleftrightarrow>
     (st_Phase s \<in> {AppleAgxPhaseOff, AppleAgxPhaseResourcesValidated, AppleAgxPhaseStopped} \<longrightarrow>
        st_MappingCount s = 0)"

definition st_wf :: "APPLE_AGX_STATE \<Rightarrow> bool" where
  "st_wf s \<longleftrightarrow> st_table s \<and> st_fences s \<and> st_quiet s"

lemma finite_st_used [simp]: "finite (st_used s)"
  by (simp add: st_used_def)

lemma card_st_used: "card (st_used s) \<le> 64"
proof -
  have "st_used s \<subseteq> {..<64}" by (auto simp: st_used_def)
  then have "card (st_used s) \<le> card {..<64::nat}" by (intro card_mono) auto
  then show ?thesis by simp
qed

lemma range_valid_bounds:
  assumes "AppleAgxRangeValid b n"
  shows "unat b + unat n \<le> 2 ^ 40" and "0 < unat n"
proof -
  from assms have g: "n \<noteq> 0" "b < 0x10000000000" "n \<le> 0x10000000000 - b"
    by (auto simp: AppleAgxRangeValid_def not_le not_less split: if_splits)
  have "unat (0x10000000000 - b) = 2 ^ 40 - unat b"
    using g(2) by (simp add: unat_sub less_imp_le)
  moreover have "unat b < 2 ^ 40" using g(2) by (simp add: word_less_nat_alt)
  ultimately show "unat b + unat n \<le> 2 ^ 40" using g(3) by (simp add: word_le_nat_alt)
  show "0 < unat n" using g(1) by (simp add: unat_gt_0)
qed

lemma overlap_bytes:
  assumes "AppleAgxRangeValid b n" and "AppleAgxRangeValid b' n'"
  shows "AppleAgxRangesOverlap b n b' n' \<longleftrightarrow>
    {unat b..<unat b + unat n} \<inter> {unat b'..<unat b' + unat n'} \<noteq> {}"
proof -
  note r = range_valid_bounds [OF assms(1)] and r' = range_valid_bounds [OF assms(2)]
  have "unat (b' + n') = unat b' + unat n'" "unat (b + n) = unat b + unat n"
    using r r' by (simp_all add: unat_add_no_wrap)
  then have "AppleAgxRangesOverlap b n b' n' \<longleftrightarrow>
      unat b < unat b' + unat n' \<and> unat b' < unat b + unat n"
    by (simp add: AppleAgxRangesOverlap_def word_less_nat_alt)
  also have "\<dots> \<longleftrightarrow> {unat b..<unat b + unat n} \<inter> {unat b'..<unat b' + unat n'} \<noteq> {}"
    using r(2) r'(2) by auto
  finally show ?thesis .
qed

lemma state_scan_spec:
  "index \<le> 64 \<Longrightarrow> free_index = 64 \<or> free_index < index \<and> \<not> map_InUse (ms ! free_index) \<Longrightarrow>
   case state_scan ms b n index free_index of
     None \<Rightarrow> \<exists>i. index \<le> i \<and> i < 64 \<and> map_InUse (ms ! i) \<and>
               AppleAgxRangesOverlap b n (map_Base (ms ! i)) (map_Size (ms ! i))
   | Some f \<Rightarrow> (\<forall>i. index \<le> i \<and> i < 64 \<and> map_InUse (ms ! i) \<longrightarrow>
                \<not> AppleAgxRangesOverlap b n (map_Base (ms ! i)) (map_Size (ms ! i))) \<and>
               (if f = 64 then free_index = 64 \<and> (\<forall>i. index \<le> i \<and> i < 64 \<longrightarrow> map_InUse (ms ! i))
                else f < 64 \<and> \<not> map_InUse (ms ! f))"
proof (induction ms b n index free_index rule: state_scan.induct)
  case (1 ms b n index free_index)
  show ?case
  proof (cases "index < 64")
    case False
    with 1 show ?thesis by (subst state_scan.simps) auto
  next
    case True
    have all: "(\<forall>i. index \<le> i \<and> i < 64 \<longrightarrow> P i) \<longleftrightarrow> P index \<and> (\<forall>i. Suc index \<le> i \<and> i < 64 \<longrightarrow> P i)"
      for P using True by (metis Suc_leD Suc_leI le_neq_implies_less order_refl)
    have ex: "(\<exists>i. index \<le> i \<and> i < 64 \<and> P i) \<longleftrightarrow> P index \<or> (\<exists>i. Suc index \<le> i \<and> i < 64 \<and> P i)"
      for P using True by (metis Suc_leD Suc_leI le_neq_implies_less order_refl)
    show ?thesis
    proof (cases "map_InUse (ms ! index)")
      case False
      let ?f = "if free_index = 64 then index else free_index"
      have e: "state_scan ms b n index free_index = state_scan ms b n (Suc index) ?f"
        using True False by (subst state_scan.simps) (simp add: Let_def)
      have "?f = 64 \<or> ?f < Suc index \<and> \<not> map_InUse (ms ! ?f)"
        using False "1.prems" by auto
      from "1.IH"(1) [OF True refl False Suc_leI [OF True] this]
      show ?thesis
        unfolding e using False True
        by (auto split: option.splits if_splits simp: all ex dest!: Suc_leD)
           (metis le_neq_implies_less Suc_leI)+
    next
      case used: True
      show ?thesis
      proof (cases "AppleAgxRangesOverlap b n (map_Base (ms ! index)) (map_Size (ms ! index))")
        case ov: True
        then have "state_scan ms b n index free_index = None"
          using True used by (subst state_scan.simps) (simp add: Let_def)
        with True used ov show ?thesis by auto
      next
        case False
        have e: "state_scan ms b n index free_index = state_scan ms b n (Suc index) free_index"
          using True False used by (subst state_scan.simps) (simp add: Let_def)
        have "free_index = 64 \<or> free_index < Suc index \<and> \<not> map_InUse (ms ! free_index)"
          using "1.prems" by auto
        from "1.IH"(2) [OF True refl _ False Suc_leI [OF True] this] used
        show ?thesis
          unfolding e using False True used
          by (auto split: option.splits if_splits dest!: Suc_leD)
             (metis le_neq_implies_less Suc_leI)+
      qed
    qed
  qed
qed

lemma state_find_spec:
  "index \<le> 64 \<Longrightarrow>
   case state_find ms b n index of
     None \<Rightarrow> \<forall>i. index \<le> i \<and> i < 64 \<and> map_InUse (ms ! i) \<longrightarrow>
               \<not> (map_Base (ms ! i) = b \<and> map_Size (ms ! i) = n)
   | Some f \<Rightarrow> index \<le> f \<and> f < 64 \<and> map_InUse (ms ! f) \<and> map_Base (ms ! f) = b \<and> map_Size (ms ! f) = n"
proof (induction ms b n index rule: state_find.induct)
  case (1 ms b n index)
  show ?case
  proof (cases "index < 64")
    case False
    with 1 show ?thesis by (subst state_find.simps) auto
  next
    case True
    show ?thesis
    proof (cases "\<not> map_InUse (ms ! index) \<or> map_Base (ms ! index) \<noteq> b \<or> map_Size (ms ! index) \<noteq> n")
      case False
      then have "state_find ms b n index = Some index"
        using True by (subst state_find.simps) (simp add: Let_def)
      with False True show ?thesis by simp
    next
      case skip: True
      then have e: "state_find ms b n index = state_find ms b n (Suc index)"
        using True by (subst state_find.simps) (auto simp: Let_def)
      from "1.IH" [OF True refl skip Suc_leI [OF True]] skip
      show ?thesis
        unfolding e by (auto split: option.splits) (metis le_neq_implies_less Suc_leI)+
    qed
  qed
qed

text \<open>The abstract mapping table: the mappings in use, as a set.\<close>

definition st_maps :: "APPLE_AGX_STATE \<Rightarrow> (u64 \<times> u64 \<times> u32) set" where
  "st_maps s = (\<lambda>i. (map_Base (st_Mappings s ! i), map_Size (st_Mappings s ! i),
                     map_Permissions (st_Mappings s ! i))) ` st_used s"

definition map_admissible :: "u64 \<Rightarrow> u64 \<Rightarrow> u32 \<Rightarrow> bool" where
  "map_admissible b n p \<longleftrightarrow> AppleAgxRangeValid b n \<and> p \<noteq> 0 \<and>
     p AND NOT (MAP_READ OR MAP_WRITE OR MAP_EXECUTE) = 0 \<and>
     p AND (MAP_WRITE OR MAP_EXECUTE) \<noteq> (MAP_WRITE OR MAP_EXECUTE)"

lemma Map_Some:
  assumes "AppleAgxStateMap s b n p = Some t" and "st_table s"
  shows "st_table t" and "st_maps t = insert (b, n, p) (st_maps s)"
    and "AppleAgxPhaseMayMap (st_Phase s)" and "map_admissible b n p"
    and "\<forall>i\<in>st_used s. map_bytes (st_Mappings s ! i) \<inter> {unat b..<unat b + unat n} = {}"
    and "t = s\<lparr> st_Mappings := st_Mappings t, st_MappingCount := st_MappingCount t \<rparr>"
proof -
  from assms(1) show g: "AppleAgxPhaseMayMap (st_Phase s)" "map_admissible b n p"
    by (auto simp: AppleAgxStateMap_def map_admissible_def split: if_splits)
  from assms(1) obtain f where f: "state_scan (st_Mappings s) b n 0 64 = Some f" "f \<noteq> 64"
    and c: "st_MappingCount s < 64" and
    t: "t = s\<lparr> st_Mappings := (st_Mappings s)[f := \<lparr> map_Base = b, map_Size = n,
         map_Permissions = p, map_InUse = True \<rparr>], st_MappingCount := st_MappingCount s + 1 \<rparr>"
    by (auto simp: AppleAgxStateMap_def not_le split: if_splits option.splits)
  from state_scan_spec [of 0 64 "st_Mappings s" b n] f
  have free: "f < 64" "\<not> map_InUse (st_Mappings s ! f)" and
    no: "\<And>i. i < 64 \<Longrightarrow> map_InUse (st_Mappings s ! i) \<Longrightarrow>
      \<not> AppleAgxRangesOverlap b n (map_Base (st_Mappings s ! i)) (map_Size (st_Mappings s ! i))"
    by auto
  have len: "length (st_Mappings s) = 64" using assms(2) by (simp add: st_table_def)
  have used: "st_used t = insert f (st_used s)" "f \<notin> st_used s"
    using free len by (auto simp: st_used_def t nth_list_update)
  have rv: "AppleAgxRangeValid b n" using g(2) by (simp add: map_admissible_def)
  show disj: "\<forall>i\<in>st_used s. map_bytes (st_Mappings s ! i) \<inter> {unat b..<unat b + unat n} = {}"
  proof
    fix i assume i: "i \<in> st_used s"
    then have "\<not> AppleAgxRangesOverlap b n (map_Base (st_Mappings s ! i)) (map_Size (st_Mappings s ! i))"
      using no by (simp add: st_used_def)
    moreover have "AppleAgxRangeValid (map_Base (st_Mappings s ! i)) (map_Size (st_Mappings s ! i))"
      using i assms(2) by (auto simp: st_table_def map_ok_def)
    ultimately show "map_bytes (st_Mappings s ! i) \<inter> {unat b..<unat b + unat n} = {}"
      using overlap_bytes [OF rv] by (auto simp: map_bytes_def)
  qed
  have at: "st_Mappings t ! f = \<lparr> map_Base = b, map_Size = n, map_Permissions = p, map_InUse = True \<rparr>"
    "\<And>i. i \<noteq> f \<Longrightarrow> st_Mappings t ! i = st_Mappings s ! i"
    using free len by (simp_all add: t)
  have others: "\<And>i. i \<in> st_used s \<Longrightarrow> st_Mappings t ! i = st_Mappings s ! i"
    using at(2) used(2) by metis
  show "st_maps t = insert (b, n, p) (st_maps s)"
    unfolding st_maps_def used(1) image_insert at by (simp add: others)
  have "unat (st_MappingCount s + 1) = Suc (unat (st_MappingCount s))"
    using c by (intro unat_Suc_no_wrap [of _ 64]) (simp add: word_less_nat_alt)
  moreover have "unat (st_MappingCount t) = unat (st_MappingCount s + 1)" by (simp add: t)
  ultimately have "unat (st_MappingCount t) = card (st_used t)"
    using assms(2) used by (simp add: st_table_def)
  moreover have "\<forall>i\<in>st_used t. map_ok (st_Mappings t ! i)"
    using assms(2) g(2) by (auto simp: used(1) at(1) others st_table_def map_ok_def map_admissible_def)
  moreover have "\<forall>i\<in>st_used t. \<forall>j\<in>st_used t. i \<noteq> j \<longrightarrow>
      map_bytes (st_Mappings t ! i) \<inter> map_bytes (st_Mappings t ! j) = {}"
  proof -
    have "map_bytes (st_Mappings t ! f) = {unat b..<unat b + unat n}"
      by (simp add: at(1) map_bytes_def)
    with disj assms(2) show ?thesis
      by (simp add: used(1) others st_table_def) blast
  qed
  ultimately show "st_table t" using len by (simp add: st_table_def) (simp add: t)
  show "t = s\<lparr> st_Mappings := st_Mappings t, st_MappingCount := st_MappingCount t \<rparr>" by (simp add: t)
qed

lemma Unmap_Some:
  assumes "AppleAgxStateUnmap s b n = Some t" and "st_table s"
  shows "st_table t" and "\<exists>p. (b, n, p) \<in> st_maps s \<and> st_maps t = st_maps s - {(b, n, p)}"
    and "unat (st_MappingCount t) = unat (st_MappingCount s) - 1"
    and "t = s\<lparr> st_Mappings := st_Mappings t, st_MappingCount := st_MappingCount t \<rparr>"
proof -
  from assms(1) obtain f where f: "state_find (st_Mappings s) b n 0 = Some f" and
    t: "t = s\<lparr> st_Mappings := (st_Mappings s)[f := mapping_zero],
              st_MappingCount := st_MappingCount s - 1 \<rparr>"
    by (auto simp: AppleAgxStateUnmap_def split: option.splits)
  from state_find_spec [of 0 "st_Mappings s" b n] f
  have m: "f < 64" "map_InUse (st_Mappings s ! f)" "map_Base (st_Mappings s ! f) = b"
    "map_Size (st_Mappings s ! f) = n" by auto
  have len: "length (st_Mappings s) = 64" using assms(2) by (simp add: st_table_def)
  have used: "f \<in> st_used s" "st_used t = st_used s - {f}"
    using m len by (auto simp: st_used_def t nth_list_update split: if_splits)
  have others: "\<And>i. i \<in> st_used t \<Longrightarrow> st_Mappings t ! i = st_Mappings s ! i"
    using used by (auto simp: t)
  have c0: "st_MappingCount s \<noteq> 0"
    using used(1) assms(2) by (auto simp: st_table_def unat_0_iff [symmetric] card_eq_0_iff)
  then show c: "unat (st_MappingCount t) = unat (st_MappingCount s) - 1"
    by (simp add: t unat_pred)
  have sub: "st_used t \<subseteq> st_used s" using used by auto
  have "\<forall>i\<in>st_used t. map_ok (st_Mappings t ! i)"
    using assms(2) sub others by (auto simp: st_table_def)
  moreover have "\<forall>i\<in>st_used t. \<forall>j\<in>st_used t. i \<noteq> j \<longrightarrow>
      map_bytes (st_Mappings t ! i) \<inter> map_bytes (st_Mappings t ! j) = {}"
    using assms(2) sub by (simp add: others st_table_def) blast
  moreover have "unat (st_MappingCount t) = card (st_used t)"
    using assms(2) used c by (simp add: st_table_def card_Diff_singleton)
  ultimately show "st_table t" using len by (simp add: st_table_def) (simp add: t)
  let ?v = "\<lambda>i. (map_Base (st_Mappings s ! i), map_Size (st_Mappings s ! i),
                  map_Permissions (st_Mappings s ! i))"
  have inj: "inj_on ?v (st_used s)"
  proof (rule inj_onI)
    fix i j assume ij: "i \<in> st_used s" "j \<in> st_used s" "?v i = ?v j"
    show "i = j"
    proof (rule ccontr)
      assume "i \<noteq> j"
      with ij assms(2) have "map_bytes (st_Mappings s ! i) \<inter> map_bytes (st_Mappings s ! j) = {}"
        by (auto simp: st_table_def)
      moreover have rv: "AppleAgxRangeValid (map_Base (st_Mappings s ! i)) (map_Size (st_Mappings s ! i))"
        using ij(1) assms(2) by (auto simp: st_table_def map_ok_def)
      ultimately show False
        using range_valid_bounds(2) [OF rv] ij(3) by (auto simp: map_bytes_def)
    qed
  qed
  have "st_maps t = ?v ` (st_used s - {f})"
    unfolding st_maps_def used(2) [symmetric] by (rule image_cong) (simp_all add: others)
  also have "\<dots> = ?v ` st_used s - {?v f}"
    using inj used(1) by (auto simp: inj_on_def)
  finally have "st_maps t = st_maps s - {?v f}" by (simp add: st_maps_def)
  moreover have "?v f \<in> st_maps s" using used(1) by (simp add: st_maps_def)
  ultimately show "\<exists>p. (b, n, p) \<in> st_maps s \<and> st_maps t = st_maps s - {(b, n, p)}"
    using m(3,4) by auto
  show "t = s\<lparr> st_Mappings := st_Mappings t, st_MappingCount := st_MappingCount t \<rparr>" by (simp add: t)
qed

section \<open>The step relation\<close>

inductive st_step :: "APPLE_AGX_STATE \<Rightarrow> APPLE_AGX_STATE \<Rightarrow> bool" where
  validate: "AppleAgxStateValidateResources s = Some t \<Longrightarrow> st_step s t"
| take_firmware: "AppleAgxStateTakeFirmwareOwnership s = Some t \<Longrightarrow> st_step s t"
| queue_ready: "AppleAgxStateMarkQueueReady s = Some t \<Longrightarrow> st_step s t"
| start: "AppleAgxStateStart s = Some t \<Longrightarrow> st_step s t"
| map: "AppleAgxStateMap s b n p = Some t \<Longrightarrow> st_step s t"
| unmap: "AppleAgxStateUnmap s b n = Some t \<Longrightarrow> st_step s t"
| submit: "AppleAgxStateSubmitFence s f now = Some t \<Longrightarrow> st_step s t"
| complete: "AppleAgxStateCompleteFence s f = Some t \<Longrightarrow> st_step s t"
| timeout: "AppleAgxStateCheckTimeout s now = Some t \<Longrightarrow> st_step s t"
| discard: "AppleAgxStateDiscardOutstandingFence s = Some t \<Longrightarrow> st_step s t"
| begin_reset: "AppleAgxStateBeginReset s = Some t \<Longrightarrow> st_step s t"
| complete_reset: "AppleAgxStateCompleteReset s = Some t \<Longrightarrow> st_step s t"
| fail: "st_step s (AppleAgxStateFail s)"

definition st_start :: "APPLE_AGX_STATE \<Rightarrow> bool" where
  "st_start s \<longleftrightarrow> (\<exists>m. s = AppleAgxStateInitialize m)"

lemma st_table_frame [simp]:
  "st_table (s\<lparr> st_Phase := p \<rparr>) = st_table s"
  "st_table (s\<lparr> st_CompletedFence := f \<rparr>) = st_table s"
  "st_table (s\<lparr> st_SubmittedFence := f \<rparr>) = st_table s"
  "st_table (s\<lparr> st_SubmitTimeMs := f \<rparr>) = st_table s"
  "st_table (s\<lparr> st_FenceOutstanding := b \<rparr>) = st_table s"
  by (simp_all add: st_table_def st_used_def)

lemma st_wf_start: "st_start s \<Longrightarrow> st_wf s"
  by (auto simp: st_start_def st_wf_def st_table_def st_fences_def st_quiet_def st_used_def
      AppleAgxStateInitialize_def)

lemmas st_phase_defs =
  AppleAgxStateValidateResources_def AppleAgxStateTakeFirmwareOwnership_def
  AppleAgxStateMarkQueueReady_def AppleAgxStateStart_def AppleAgxStateSubmitFence_def
  AppleAgxStateCompleteFence_def AppleAgxStateCheckTimeout_def
  AppleAgxStateDiscardOutstandingFence_def AppleAgxStateBeginReset_def
  AppleAgxStateCompleteReset_def AppleAgxStateFail_def

lemma st_step_wf:
  assumes "st_step s t" and "st_wf s"
  shows "st_wf t"
  using assms(1)
proof cases
  case (map b n p)
  note m = Map_Some [OF map]
  have w: "st_table s" "st_fences s" using assms(2) by (simp_all add: st_wf_def)
  have "st_Phase t = st_Phase s" "st_FenceOutstanding t = st_FenceOutstanding s"
    "st_SubmittedFence t = st_SubmittedFence s" "st_CompletedFence t = st_CompletedFence s"
    by (subst m(6) [OF w(1)], simp)+
  with m(1,3) [OF w(1)] w show ?thesis
    by (auto simp: st_wf_def st_fences_def st_quiet_def AppleAgxPhaseMayMap_def)
next
  case (unmap b n)
  note m = Unmap_Some [OF unmap]
  have w: "st_table s" "st_fences s" "st_quiet s" using assms(2) by (simp_all add: st_wf_def)
  have "st_Phase t = st_Phase s" "st_FenceOutstanding t = st_FenceOutstanding s"
    "st_SubmittedFence t = st_SubmittedFence s" "st_CompletedFence t = st_CompletedFence s"
    by (subst m(4) [OF w(1)], simp)+
  moreover have "st_MappingCount s = 0 \<Longrightarrow> st_MappingCount t = 0"
    using m(3) [OF w(1)] by (simp add: unat_0_iff [symmetric])
  ultimately show ?thesis using m(1) [OF w(1)] w
    by (auto simp: st_wf_def st_fences_def st_quiet_def split: if_splits)
qed (use assms(2) in \<open>auto simp: st_wf_def st_fences_def st_quiet_def st_phase_defs
       split: if_splits\<close>)

interpretation st_machine: guarded_system st_start st_step st_wf
  by unfold_locales (auto intro: st_wf_start st_step_wf)

section \<open>Properties\<close>

definition st_demo :: APPLE_AGX_STATE where
  "st_demo = \<lparr> st_Phase = AppleAgxPhaseRunning, st_Mappings = replicate 64 mapping_zero,
     st_MappingCount = 0, st_CompletedFence = 4, st_SubmittedFence = 4, st_SubmitTimeMs = 0,
     st_FenceOutstanding = False \<rparr>"

lemma st_demo_used: "st_used st_demo = {}"
  by (simp add: st_used_def st_demo_def)

lemma st_demo_wf: "st_wf st_demo"
  by (simp add: st_wf_def st_table_def st_fences_def st_quiet_def st_demo_used)
     (simp add: st_demo_def)

text \<open>C30. In every reachable device state the mapping count is the number of mappings in use, all
  of them are page-aligned, lie below 2^40, are not both writable and executable and are pairwise
  disjoint; an outstanding fence is the successor of the completed one and exists only while
  running, resetting or failed; and nothing is mapped while off, validated or stopped.\<close>

theorem state_reachable_wf:
  assumes "st_start s" and "st_step\<^sup>*\<^sup>* s t"
  shows "st_wf t"
  using assms by (rule st_machine.inv_reachable)

theorem state_reachable_wf_witness: "st_wf (AppleAgxStateFail (AppleAgxStateInitialize st_demo))"
proof -
  have "st_start (AppleAgxStateInitialize st_demo)" unfolding st_start_def by blast
  then show ?thesis
    by (rule state_reachable_wf) (rule r_into_rtranclp, rule st_step.fail)
qed

text \<open>Mapping refines insertion into a set of disjoint ranges: it succeeds exactly when the phase
  allows it, the range and permissions are admissible, a slot is free and no mapping in use shares a
  byte with the range; it adds that mapping and no other, and unmapping it afterwards succeeds and
  gives back the mappings there were.\<close>

theorem state_map_roundtrip:
  assumes "st_wf s"
  shows "(AppleAgxStateMap s b n p \<noteq> None \<longleftrightarrow>
            AppleAgxPhaseMayMap (st_Phase s) \<and> map_admissible b n p \<and> card (st_used s) < 64 \<and>
            (\<forall>i\<in>st_used s. map_bytes (st_Mappings s ! i) \<inter> {unat b..<unat b + unat n} = {})) \<and>
         (\<forall>t. AppleAgxStateMap s b n p = Some t \<longrightarrow>
            st_maps t = insert (b, n, p) (st_maps s) \<and>
            (\<exists>u. AppleAgxStateUnmap t b n = Some u \<and> st_maps u = st_maps s))"
proof (intro conjI allI impI)
  have tab: "st_table s" using assms by (simp add: st_wf_def)
  have cnt: "unat (st_MappingCount s) = card (st_used s)" using tab by (simp add: st_table_def)
  show "AppleAgxStateMap s b n p \<noteq> None \<longleftrightarrow>
      AppleAgxPhaseMayMap (st_Phase s) \<and> map_admissible b n p \<and> card (st_used s) < 64 \<and>
      (\<forall>i\<in>st_used s. map_bytes (st_Mappings s ! i) \<inter> {unat b..<unat b + unat n} = {})"
    (is "?l \<longleftrightarrow> ?r")
  proof
    assume ?l
    then obtain t where t: "AppleAgxStateMap s b n p = Some t" by blast
    then have "st_MappingCount s < 64"
      by (auto simp: AppleAgxStateMap_def not_le split: if_splits)
    then have "card (st_used s) < 64" using cnt by (simp add: word_less_nat_alt)
    with Map_Some [OF t tab] show ?r by blast
  next
    assume r: ?r
    then have rv: "AppleAgxRangeValid b n" by (simp add: map_admissible_def)
    have c: "\<not> 64 \<le> st_MappingCount s" using r cnt by (simp add: word_le_nat_alt)
    have no: "\<not> AppleAgxRangesOverlap b n (map_Base (st_Mappings s ! i)) (map_Size (st_Mappings s ! i))"
      if "i \<in> st_used s" for i
    proof -
      have "AppleAgxRangeValid (map_Base (st_Mappings s ! i)) (map_Size (st_Mappings s ! i))"
        using that tab by (auto simp: st_table_def map_ok_def)
      then show ?thesis using overlap_bytes [OF rv] r that by (auto simp: map_bytes_def)
    qed
    have "\<exists>i<64. \<not> map_InUse (st_Mappings s ! i)"
    proof (rule ccontr)
      assume "\<not> ?thesis"
      then have "st_used s = {..<64}" by (auto simp: st_used_def)
      with r show False by simp
    qed
    with state_scan_spec [of 0 64 "st_Mappings s" b n] no
    obtain f where "state_scan (st_Mappings s) b n 0 64 = Some f" "f \<noteq> 64"
      by (auto simp: st_used_def split: option.splits if_splits)
    with r c show ?l by (auto simp: AppleAgxStateMap_def map_admissible_def)
  qed
  fix t assume t: "AppleAgxStateMap s b n p = Some t"
  note m = Map_Some [OF t tab]
  show "st_maps t = insert (b, n, p) (st_maps s)" by (rule m(2))
  have fresh: "(b, n, q) \<notin> st_maps s" for q
  proof
    assume "(b, n, q) \<in> st_maps s"
    then obtain i where i: "i \<in> st_used s" "map_Base (st_Mappings s ! i) = b"
      "map_Size (st_Mappings s ! i) = n" by (auto simp: st_maps_def)
    with m(5) have "{unat b..<unat b + unat n} = {}" by (force simp: map_bytes_def)
    moreover have "0 < unat n" using m(4) by (intro range_valid_bounds(2) [of b]) (simp add: map_admissible_def)
    ultimately show False by simp
  qed
  have "(b, n, p) \<in> st_maps t" by (simp add: m(2))
  then obtain i where i: "i < 64" "map_InUse (st_Mappings t ! i)" "map_Base (st_Mappings t ! i) = b"
    "map_Size (st_Mappings t ! i) = n"
    by (auto simp: st_maps_def st_used_def)
  with state_find_spec [of 0 "st_Mappings t" b n]
  have "AppleAgxStateUnmap t b n \<noteq> None" by (auto simp: AppleAgxStateUnmap_def split: option.splits)
  then obtain u where u: "AppleAgxStateUnmap t b n = Some u" by blast
  from Unmap_Some(2) [OF u m(1)] m(2) fresh have "st_maps u = st_maps s" by auto
  with u show "\<exists>u. AppleAgxStateUnmap t b n = Some u \<and> st_maps u = st_maps s" by blast
qed

theorem state_map_roundtrip_witness:
  "\<exists>t u. AppleAgxStateMap st_demo 0x4000 0x8000 MAP_READ = Some t \<and>
     AppleAgxStateUnmap t 0x4000 0x8000 = Some u \<and> st_maps u = {}"
proof -
  have e: "st_used st_demo = {}" by (simp add: st_used_def st_demo_def)
  have a: "map_admissible 0x4000 0x8000 MAP_READ" "AppleAgxPhaseMayMap (st_Phase st_demo)"
    by (simp_all add: map_admissible_def AppleAgxRangeValid_def AppleAgxPhaseMayMap_def st_demo_def)
  note r = state_map_roundtrip [OF st_demo_wf, of "0x4000" "0x8000" MAP_READ]
  have "AppleAgxStateMap st_demo 0x4000 0x8000 MAP_READ \<noteq> None" using r a by (simp add: e)
  then obtain t where t: "AppleAgxStateMap st_demo 0x4000 0x8000 MAP_READ = Some t" by blast
  moreover have "st_maps st_demo = {}" by (simp add: st_maps_def e)
  ultimately show ?thesis using r by auto
qed

end
