(* ===== verification/DeviceMemory.thy ===== *)
theory DeviceMemory
  imports Interfaces
begin

text \<open>
  The device memory objects of \<^verbatim>\<open>drivers/apple-agx/shared/src/apple_agx_memory.c\<close>: the
  allocation of an aligned view, and the ownership states from CPU to GPU and back.  The platform's
  allocator is a parameter: a record of optional functions (\<open>None\<close> is a NULL callback) that return
  what the callback returns and the values it leaves in its out parameters.  Pointers and handles
  are addresses, zero for NULL; the list of freed handles is returned beside the object.
\<close>

section \<open>State\<close>

datatype APPLE_AGX_MEMORY_RESULT =
  AppleAgxMemoryResultOk
| AppleAgxMemoryResultInvalidArgument
| AppleAgxMemoryResultAllocationFailed
| AppleAgxMemoryResultOutOfRange
| AppleAgxMemoryResultBusy
| AppleAgxMemoryResultNotPrepared
| AppleAgxMemoryResultStaleFence

datatype APPLE_AGX_MEMORY_STATE =
  AppleAgxMemoryEmpty
| AppleAgxMemoryCpuOwned
| AppleAgxMemoryPrepared
| AppleAgxMemoryGpuMapped
| AppleAgxMemoryInFlight
| AppleAgxMemoryCompleted

record APPLE_AGX_MEMORY_OBJECT =
  mo_AllocationCpuBase :: u64
  mo_CpuAddress :: u64
  mo_AllocationHandle :: u64
  mo_AllocationDeviceBase :: u64
  mo_DeviceAddress :: u64
  mo_AllocationLength :: u64
  mo_Length :: u64
  mo_DevicePages :: "u64 list option"
  mo_DevicePageCount :: u32
  mo_GpuVirtualAddress :: u64
  mo_SubmittedFence :: u64
  mo_Context :: u32
  mo_State :: APPLE_AGX_MEMORY_STATE

text \<open>\<open>AllocateContiguous\<close> returns the flag, the CPU base, the device base and the handle;
  \<open>AllocatePageList\<close> the flag, the CPU base, the pages, their number and the handle.\<close>

record APPLE_AGX_MEMORY_IO =
  io_AllocateContiguous :: "(u64 \<Rightarrow> bool \<times> u64 \<times> u64 \<times> u64) option"
  io_FreeContiguous :: "(u64 \<Rightarrow> bool) option"
  io_AllocatePageList :: "(u64 \<Rightarrow> bool \<times> u64 \<times> u64 list option \<times> u32 \<times> u64) option"
  io_FreePageList :: "(u64 \<Rightarrow> bool) option"

abbreviation MEMORY_PAGE_SIZE :: u64 where "MEMORY_PAGE_SIZE \<equiv> 0x4000"
abbreviation MEMORY_DEVICE_ADDRESS_LIMIT :: u64 where
  "MEMORY_DEVICE_ADDRESS_LIMIT \<equiv> 0x10000000000"

section \<open>Operations\<close>

definition AppleAgxMemoryZero :: "APPLE_AGX_MEMORY_OBJECT \<Rightarrow> APPLE_AGX_MEMORY_OBJECT" where
  "AppleAgxMemoryZero o' =
     o'\<lparr> mo_AllocationCpuBase := 0, mo_CpuAddress := 0, mo_AllocationHandle := 0,
         mo_AllocationDeviceBase := 0, mo_DeviceAddress := 0, mo_AllocationLength := 0,
         mo_Length := 0, mo_DevicePages := None, mo_DevicePageCount := 0,
         mo_GpuVirtualAddress := 0, mo_SubmittedFence := 0, mo_Context := 0,
         mo_State := AppleAgxMemoryEmpty \<rparr>"

definition AppleAgxMemoryIoValid :: "APPLE_AGX_MEMORY_IO \<Rightarrow> bool" where
  "AppleAgxMemoryIoValid io \<longleftrightarrow>
     io_AllocateContiguous io \<noteq> None \<and> io_FreeContiguous io \<noteq> None \<and>
     (io_AllocatePageList io = None \<and> io_FreePageList io = None \<or>
      io_AllocatePageList io \<noteq> None \<and> io_FreePageList io \<noteq> None)"

definition AppleAgxMemoryFenceAfter :: "u64 \<Rightarrow> u64 \<Rightarrow> bool" where
  "AppleAgxMemoryFenceAfter candidate reference =
     (let distance = candidate - reference
      in distance \<noteq> 0 \<and> distance < 0x8000000000000000)"

definition AppleAgxMemoryAllocateAligned ::
  "APPLE_AGX_MEMORY_IO \<Rightarrow> u64 \<Rightarrow> u64 \<Rightarrow> APPLE_AGX_MEMORY_OBJECT
   \<Rightarrow> APPLE_AGX_MEMORY_RESULT \<times> APPLE_AGX_MEMORY_OBJECT \<times> u64 list" where
  "AppleAgxMemoryAllocateAligned io len alignment o' =
     (if \<not> AppleAgxMemoryIoValid io \<or> len = 0 \<or> len AND (MEMORY_PAGE_SIZE - 1) \<noteq> 0 \<or>
         alignment < MEMORY_PAGE_SIZE \<or> alignment AND (alignment - 1) \<noteq> 0 \<or>
         alignment AND (MEMORY_PAGE_SIZE - 1) \<noteq> 0 \<or> len > NOT 0 - alignment
      then (AppleAgxMemoryResultInvalidArgument, o', [])
      else if mo_State o' \<noteq> AppleAgxMemoryEmpty then (AppleAgxMemoryResultBusy, o', [])
      else case io_AllocatePageList io of
        Some allocate \<Rightarrow>
          (case allocate len of (ok, cpu_base, device_pages, device_page_count, handle) \<Rightarrow>
            if \<not> ok \<or> cpu_base = 0 \<or> handle = 0 \<or> device_pages = None \<or>
               ucast device_page_count \<noteq> len div MEMORY_PAGE_SIZE \<or> the device_pages ! 0 = 0
            then (AppleAgxMemoryResultAllocationFailed, AppleAgxMemoryZero o',
                  if handle \<noteq> 0 then [handle] else [])
            else (AppleAgxMemoryResultOk,
                  o'\<lparr> mo_AllocationCpuBase := cpu_base, mo_CpuAddress := cpu_base,
                      mo_AllocationHandle := handle,
                      mo_AllocationDeviceBase := the device_pages ! 0,
                      mo_DeviceAddress := the device_pages ! 0,
                      mo_AllocationLength := len, mo_Length := len,
                      mo_DevicePages := device_pages, mo_DevicePageCount := device_page_count,
                      mo_GpuVirtualAddress := 0, mo_SubmittedFence := 0, mo_Context := 0,
                      mo_State := AppleAgxMemoryCpuOwned \<rparr>, []))
      | None \<Rightarrow>
          (let allocation_length = len + alignment
           in case the (io_AllocateContiguous io) allocation_length of
             (ok, cpu_base, device_base, handle) \<Rightarrow>
               if \<not> ok then (AppleAgxMemoryResultAllocationFailed, AppleAgxMemoryZero o', [])
               else if cpu_base = 0 \<or> handle = 0 \<or> device_base = 0 \<or>
                       device_base > NOT 0 - allocation_length
               then (AppleAgxMemoryResultAllocationFailed, AppleAgxMemoryZero o',
                     if handle \<noteq> 0 then [handle] else [])
               else let alignment_offset = (alignment - (device_base AND (alignment - 1)))
                                             AND (alignment - 1)
                    in if device_base + alignment_offset \<ge> MEMORY_DEVICE_ADDRESS_LIMIT \<or>
                          len > MEMORY_DEVICE_ADDRESS_LIMIT - (device_base + alignment_offset)
                       then (AppleAgxMemoryResultOutOfRange, AppleAgxMemoryZero o', [handle])
                       else (AppleAgxMemoryResultOk,
                             o'\<lparr> mo_AllocationCpuBase := cpu_base,
                                 mo_CpuAddress := cpu_base + alignment_offset,
                                 mo_AllocationHandle := handle,
                                 mo_AllocationDeviceBase := device_base,
                                 mo_DeviceAddress := device_base + alignment_offset,
                                 mo_AllocationLength := allocation_length, mo_Length := len,
                                 mo_DevicePages := None, mo_DevicePageCount := 0,
                                 mo_GpuVirtualAddress := 0, mo_SubmittedFence := 0,
                                 mo_Context := 0,
                                 mo_State := AppleAgxMemoryCpuOwned \<rparr>, [])))"

definition AppleAgxMemoryAllocate ::
  "APPLE_AGX_MEMORY_IO \<Rightarrow> u64 \<Rightarrow> APPLE_AGX_MEMORY_OBJECT
   \<Rightarrow> APPLE_AGX_MEMORY_RESULT \<times> APPLE_AGX_MEMORY_OBJECT \<times> u64 list" where
  "AppleAgxMemoryAllocate io len o' =
     AppleAgxMemoryAllocateAligned io len MEMORY_PAGE_SIZE o'"

definition AppleAgxMemoryMarkCpuWritten ::
  "APPLE_AGX_MEMORY_OBJECT \<Rightarrow> APPLE_AGX_MEMORY_RESULT \<times> APPLE_AGX_MEMORY_OBJECT" where
  "AppleAgxMemoryMarkCpuWritten o' =
     (if mo_State o' = AppleAgxMemoryEmpty then (AppleAgxMemoryResultInvalidArgument, o')
      else if mo_State o' = AppleAgxMemoryInFlight \<or> mo_State o' = AppleAgxMemoryGpuMapped
      then (AppleAgxMemoryResultBusy, o')
      else if mo_GpuVirtualAddress o' \<noteq> 0 then (AppleAgxMemoryResultBusy, o')
      else (AppleAgxMemoryResultOk,
            o'\<lparr> mo_State := AppleAgxMemoryCpuOwned, mo_SubmittedFence := 0 \<rparr>))"

definition AppleAgxMemoryMarkPrepared ::
  "APPLE_AGX_MEMORY_OBJECT \<Rightarrow> APPLE_AGX_MEMORY_RESULT \<times> APPLE_AGX_MEMORY_OBJECT" where
  "AppleAgxMemoryMarkPrepared o' =
     (if mo_State o' = AppleAgxMemoryEmpty then (AppleAgxMemoryResultInvalidArgument, o')
      else if mo_State o' \<noteq> AppleAgxMemoryCpuOwned then (AppleAgxMemoryResultBusy, o')
      else (AppleAgxMemoryResultOk, o'\<lparr> mo_State := AppleAgxMemoryPrepared \<rparr>))"

definition AppleAgxMemoryMarkGpuMapped ::
  "APPLE_AGX_MEMORY_OBJECT \<Rightarrow> u32 \<Rightarrow> u64
   \<Rightarrow> APPLE_AGX_MEMORY_RESULT \<times> APPLE_AGX_MEMORY_OBJECT" where
  "AppleAgxMemoryMarkGpuMapped o' context' gpuVirtualAddress =
     (if gpuVirtualAddress = 0 \<or> gpuVirtualAddress AND (MEMORY_PAGE_SIZE - 1) \<noteq> 0 \<or>
         context' \<ge> 64
      then (AppleAgxMemoryResultInvalidArgument, o')
      else if mo_State o' \<noteq> AppleAgxMemoryPrepared then (AppleAgxMemoryResultNotPrepared, o')
      else (AppleAgxMemoryResultOk,
            o'\<lparr> mo_Context := context', mo_GpuVirtualAddress := gpuVirtualAddress,
                mo_State := AppleAgxMemoryGpuMapped \<rparr>))"

definition AppleAgxMemoryMarkSubmitted ::
  "APPLE_AGX_MEMORY_OBJECT \<Rightarrow> u64 \<Rightarrow> APPLE_AGX_MEMORY_RESULT \<times> APPLE_AGX_MEMORY_OBJECT" where
  "AppleAgxMemoryMarkSubmitted o' fence =
     (if fence = 0 then (AppleAgxMemoryResultInvalidArgument, o')
      else if mo_State o' \<noteq> AppleAgxMemoryGpuMapped \<and> mo_State o' \<noteq> AppleAgxMemoryCompleted
      then (AppleAgxMemoryResultBusy, o')
      else if mo_State o' = AppleAgxMemoryCompleted \<and>
              \<not> AppleAgxMemoryFenceAfter fence (mo_SubmittedFence o')
      then (AppleAgxMemoryResultStaleFence, o')
      else (AppleAgxMemoryResultOk,
            o'\<lparr> mo_SubmittedFence := fence, mo_State := AppleAgxMemoryInFlight \<rparr>))"

definition AppleAgxMemoryMarkCompleted ::
  "APPLE_AGX_MEMORY_OBJECT \<Rightarrow> u64 \<Rightarrow> APPLE_AGX_MEMORY_RESULT \<times> APPLE_AGX_MEMORY_OBJECT" where
  "AppleAgxMemoryMarkCompleted o' fence =
     (if fence = 0 then (AppleAgxMemoryResultInvalidArgument, o')
      else if mo_State o' \<noteq> AppleAgxMemoryInFlight then (AppleAgxMemoryResultBusy, o')
      else if fence \<noteq> mo_SubmittedFence o' then (AppleAgxMemoryResultStaleFence, o')
      else (AppleAgxMemoryResultOk, o'\<lparr> mo_State := AppleAgxMemoryCompleted \<rparr>))"

definition AppleAgxMemoryMarkAborted ::
  "APPLE_AGX_MEMORY_OBJECT \<Rightarrow> u64 \<Rightarrow> APPLE_AGX_MEMORY_RESULT \<times> APPLE_AGX_MEMORY_OBJECT" where
  "AppleAgxMemoryMarkAborted o' fence = AppleAgxMemoryMarkCompleted o' fence"

definition AppleAgxMemoryMarkGpuUnmapped ::
  "APPLE_AGX_MEMORY_OBJECT \<Rightarrow> APPLE_AGX_MEMORY_RESULT \<times> APPLE_AGX_MEMORY_OBJECT" where
  "AppleAgxMemoryMarkGpuUnmapped o' =
     (if mo_State o' = AppleAgxMemoryEmpty then (AppleAgxMemoryResultInvalidArgument, o')
      else if mo_State o' = AppleAgxMemoryInFlight then (AppleAgxMemoryResultBusy, o')
      else if mo_State o' \<noteq> AppleAgxMemoryGpuMapped \<and> mo_State o' \<noteq> AppleAgxMemoryCompleted
      then (AppleAgxMemoryResultInvalidArgument, o')
      else (AppleAgxMemoryResultOk,
            o'\<lparr> mo_Context := 0, mo_GpuVirtualAddress := 0, mo_SubmittedFence := 0,
                mo_State := AppleAgxMemoryPrepared \<rparr>))"

definition AppleAgxMemoryRelease ::
  "APPLE_AGX_MEMORY_IO \<Rightarrow> APPLE_AGX_MEMORY_OBJECT
   \<Rightarrow> APPLE_AGX_MEMORY_RESULT \<times> APPLE_AGX_MEMORY_OBJECT \<times> u64 list" where
  "AppleAgxMemoryRelease io o' =
     (if \<not> AppleAgxMemoryIoValid io then (AppleAgxMemoryResultInvalidArgument, o', [])
      else if mo_State o' = AppleAgxMemoryEmpty then (AppleAgxMemoryResultOk, o', [])
      else if mo_State o' \<noteq> AppleAgxMemoryCpuOwned \<and> mo_State o' \<noteq> AppleAgxMemoryPrepared
      then (AppleAgxMemoryResultBusy, o', [])
      else if \<not> the (if mo_DevicePages o' \<noteq> None then io_FreePageList io
                    else io_FreeContiguous io) (mo_AllocationHandle o')
      then (AppleAgxMemoryResultAllocationFailed, o', [])
      else (AppleAgxMemoryResultOk, AppleAgxMemoryZero o', [mo_AllocationHandle o']))"

section \<open>Alignment\<close>

lemma unat_two_power: "k < LENGTH('a) \<Longrightarrow> unat (2 ^ k :: 'a::len word) = 2 ^ k"
  by transfer (simp add: nat_power_eq nat_take_bit_eq take_bit_nat_eq_self)

lemma power_of_two:
  fixes a :: u64
  assumes "a AND (a - 1) = 0" and "a \<noteq> 0"
  shows "\<exists>k<64. a = 2 ^ k"
proof -
  have a1: "1 \<le> unat a" using assms(2) by (simp add: unat_gt_0 Suc_le_eq)
  obtain k where k: "2 ^ k \<le> unat a" "unat a < 2 ^ (k + 1)"
    using ex_power_ivl1 [OF order_refl a1] by blast
  have "(2::nat) ^ k < 2 ^ 64"
    by (rule le_less_trans [OF k(1)]) (use unsigned_less [of a, where 'a = nat] in simp)
  then have k64: "k < 64" by (rule power_less_imp_less_exp [rotated]) simp
  have "unat a = 2 ^ k"
  proof (rule ccontr)
    assume "unat a \<noteq> 2 ^ k"
    with k have r: "2 ^ k \<le> unat a - 1" "unat a - 1 < 2 ^ (k + 1)" by linarith+
    have div1: "n div 2 ^ k = 1" if "2 ^ k \<le> n" "n < 2 ^ (k + 1)" for n :: nat
      using that by (intro div_nat_eqI) auto
    have bu: "bit (unat w) k \<Longrightarrow> bit w k" for w :: u64 by (simp add: bit_unsigned_iff)
    have "bit (unat a) k" "bit (unat (a - 1)) k"
      using div1 [OF k] div1 [OF r] assms(2) by (simp_all add: bit_iff_odd unat_minus_one)
    then have b: "bit a k" "bit (a - 1) k" by (simp_all add: bu)
    have "bit (a AND (a - 1)) k" using b by (simp add: bit_simps)
    with assms(1) show False by simp
  qed
  then have "a = 2 ^ k" using k64 by (simp add: word_unat_eq_iff unat_two_power)
  with k64 show ?thesis by blast
qed

text \<open>The offset brings any base up to the next multiple of the alignment.\<close>

definition align_offset :: "u64 \<Rightarrow> u64 \<Rightarrow> u64" where
  "align_offset base a = (a - (base AND (a - 1))) AND (a - 1)"

lemma align_offset_nat:
  assumes "a AND (a - 1) = 0" and "a \<noteq> 0"
  shows "unat (align_offset base a) = (unat a - unat base mod unat a) mod unat a"
proof -
  from power_of_two [OF assms] obtain k where k: "k < 64" "a = 2 ^ k" by blast
  have m: "w AND (a - 1) = take_bit k w" for w :: u64
    by (simp add: k take_bit_eq_mask mask_eq_exp_minus_1)
  have ua: "unat a = 2 ^ k" using k by (simp add: unat_two_power)
  have tb: "unat (take_bit k w) = unat w mod unat a" for w :: u64
    unfolding ua by (simp add: unsigned_take_bit_eq flip: take_bit_eq_mod)
  have le: "take_bit k base \<le> a"
    using tb [of base] by (simp add: word_le_nat_alt ua less_imp_le)
  show ?thesis
    unfolding align_offset_def m tb using le by (simp add: unat_sub tb)
qed

lemma align_offset_aligned:
  assumes "a AND (a - 1) = 0" and "a \<noteq> 0"
  shows "unat (align_offset base a) < unat a"
    and "(unat base + unat (align_offset base a)) mod unat a = 0"
proof -
  have a: "0 < unat a" using assms(2) by (simp add: unat_gt_0)
  show "unat (align_offset base a) < unat a" using a by (simp add: align_offset_nat [OF assms])
  let ?r = "unat base mod unat a"
  have "(unat base + unat (align_offset base a)) mod unat a
      = (?r + (unat a - ?r)) mod unat a"
    by (simp add: align_offset_nat [OF assms] mod_simps)
  also have "?r + (unat a - ?r) = unat a" using a by (simp add: less_imp_le)
  finally show "(unat base + unat (align_offset base a)) mod unat a = 0" by simp
qed

section \<open>Ownership\<close>

definition mo_wf :: "APPLE_AGX_MEMORY_OBJECT \<Rightarrow> bool" where
  "mo_wf o' \<longleftrightarrow>
     (mo_GpuVirtualAddress o' \<noteq> 0 \<longleftrightarrow> mo_State o' \<in>
        {AppleAgxMemoryGpuMapped, AppleAgxMemoryInFlight, AppleAgxMemoryCompleted}) \<and>
     (mo_State o' \<in> {AppleAgxMemoryInFlight, AppleAgxMemoryCompleted} \<longleftrightarrow>
        mo_SubmittedFence o' \<noteq> 0) \<and>
     (mo_State o' = AppleAgxMemoryEmpty \<longleftrightarrow> mo_AllocationHandle o' = 0) \<and>
     mo_Context o' < 64"

text \<open>One operation on an object, with its result.\<close>

inductive mo_step ::
  "APPLE_AGX_MEMORY_OBJECT \<Rightarrow> APPLE_AGX_MEMORY_RESULT \<Rightarrow> APPLE_AGX_MEMORY_OBJECT \<Rightarrow> bool" where
  allocate: "AppleAgxMemoryAllocateAligned io len alignment m = (r, t, freed) \<Longrightarrow> mo_step m r t"
| cpu_written: "AppleAgxMemoryMarkCpuWritten m = (r, t) \<Longrightarrow> mo_step m r t"
| prepared: "AppleAgxMemoryMarkPrepared m = (r, t) \<Longrightarrow> mo_step m r t"
| gpu_mapped: "AppleAgxMemoryMarkGpuMapped m c va = (r, t) \<Longrightarrow> mo_step m r t"
| submitted: "AppleAgxMemoryMarkSubmitted m f = (r, t) \<Longrightarrow> mo_step m r t"
| completed: "AppleAgxMemoryMarkCompleted m f = (r, t) \<Longrightarrow> mo_step m r t"
| aborted: "AppleAgxMemoryMarkAborted m f = (r, t) \<Longrightarrow> mo_step m r t"
| gpu_unmapped: "AppleAgxMemoryMarkGpuUnmapped m = (r, t) \<Longrightarrow> mo_step m r t"
| release: "AppleAgxMemoryRelease io m = (r, t, freed) \<Longrightarrow> mo_step m r t"

lemma mo_zero_wf [simp]: "mo_wf (AppleAgxMemoryZero m)"
  by (simp add: mo_wf_def AppleAgxMemoryZero_def)

lemma allocate_cases:
  assumes "AppleAgxMemoryAllocateAligned io len alignment m = (r, t, freed)"
  shows "(r \<noteq> AppleAgxMemoryResultOk \<and> t = m) \<or>
         (mo_State m = AppleAgxMemoryEmpty \<and> r \<noteq> AppleAgxMemoryResultOk \<and> t = AppleAgxMemoryZero m) \<or>
         (mo_State m = AppleAgxMemoryEmpty \<and> r = AppleAgxMemoryResultOk \<and> freed = [] \<and>
          mo_State t = AppleAgxMemoryCpuOwned \<and> mo_AllocationHandle t \<noteq> 0 \<and>
          mo_GpuVirtualAddress t = 0 \<and> mo_SubmittedFence t = 0 \<and> mo_Context t = 0)"
  using assms
  by (auto simp: AppleAgxMemoryAllocateAligned_def Let_def split: if_splits option.splits prod.splits)

lemma mo_step_wf:
  assumes "mo_step m r t" and "mo_wf m"
  shows "mo_wf t"
  using assms(1)
proof cases
  case (allocate io len alignment freed)
  from allocate_cases [OF this] show ?thesis
  proof (elim disjE conjE)
    assume "t = AppleAgxMemoryZero m"
    then show ?thesis by simp
  qed (use assms(2) in \<open>auto simp: mo_wf_def\<close>)
next
  case (cpu_written)
  with assms(2) show ?thesis
    by (auto simp: AppleAgxMemoryMarkCpuWritten_def mo_wf_def split: if_splits)
next
  case (prepared)
  with assms(2) show ?thesis
    by (auto simp: AppleAgxMemoryMarkPrepared_def mo_wf_def split: if_splits)
next
  case (gpu_mapped c va)
  with assms(2) show ?thesis
    by (auto simp: AppleAgxMemoryMarkGpuMapped_def mo_wf_def not_le split: if_splits)
next
  case (submitted f)
  with assms(2) show ?thesis
    by (auto simp: AppleAgxMemoryMarkSubmitted_def mo_wf_def split: if_splits)
next
  case (completed f)
  with assms(2) show ?thesis
    by (auto simp: AppleAgxMemoryMarkCompleted_def mo_wf_def split: if_splits)
next
  case (aborted f)
  with assms(2) show ?thesis
    by (auto simp: AppleAgxMemoryMarkAborted_def AppleAgxMemoryMarkCompleted_def mo_wf_def
        split: if_splits)
next
  case (gpu_unmapped)
  with assms(2) show ?thesis
    by (auto simp: AppleAgxMemoryMarkGpuUnmapped_def mo_wf_def split: if_splits)
next
  case (release io freed)
  then have "t = m \<or> t = AppleAgxMemoryZero m"
    by (auto simp: AppleAgxMemoryRelease_def split: if_splits)
  with assms(2) show ?thesis by auto
qed

definition mo_start :: "APPLE_AGX_MEMORY_OBJECT \<Rightarrow> bool" where
  "mo_start m \<longleftrightarrow> (\<exists>m0. m = AppleAgxMemoryZero m0)"

interpretation mo_machine: guarded_system mo_start "\<lambda>m t. \<exists>r. mo_step m r t" mo_wf
  by unfold_locales (auto simp: mo_start_def intro: mo_step_wf)

section \<open>Properties\<close>

text \<open>A contiguous allocation that succeeds is an aligned view inside the block it got: the
  device address is a multiple of the requested alignment, the view lies inside the allocated block
  and below the 40-bit device limit, the CPU address has the same offset, and nothing was freed.\<close>

theorem memory_allocate_aligned:
  assumes "AppleAgxMemoryAllocateAligned io len alignment m = (AppleAgxMemoryResultOk, t, freed)"
    and "io_AllocatePageList io = None"
  shows "unat (mo_DeviceAddress t) mod unat alignment = 0 \<and>
         unat (mo_AllocationDeviceBase t) \<le> unat (mo_DeviceAddress t) \<and>
         unat (mo_DeviceAddress t) + unat (mo_Length t)
           \<le> unat (mo_AllocationDeviceBase t) + unat (mo_AllocationLength t) \<and>
         unat (mo_DeviceAddress t) + unat len \<le> 2 ^ 40 \<and> mo_Length t = len \<and>
         mo_CpuAddress t - mo_AllocationCpuBase t =
           mo_DeviceAddress t - mo_AllocationDeviceBase t \<and> freed = []"
proof -
  obtain ok cpu base handle where a:
    "the (io_AllocateContiguous io) (len + alignment) = (ok, cpu, base, handle)"
    by (metis prod_cases4)
  let ?off = "align_offset base alignment"
  from assms have g: "\<not> alignment < 0x4000" "alignment AND (alignment - 1) = 0"
    "\<not> len > NOT 0 - alignment" "\<not> base > NOT 0 - (len + alignment)"
    "\<not> base + ?off \<ge> 0x10000000000" "\<not> len > 0x10000000000 - (base + ?off)"
    and t: "mo_DeviceAddress t = base + ?off" "mo_AllocationDeviceBase t = base"
    "mo_AllocationLength t = len + alignment" "mo_Length t = len" "freed = []"
    "mo_CpuAddress t = cpu + ?off" "mo_AllocationCpuBase t = cpu"
    by (auto simp: AppleAgxMemoryAllocateAligned_def a Let_def align_offset_def split: if_splits)
  have max: "unat (NOT 0 - w) = 2 ^ 64 - 1 - unat w" for w :: u64
    by (simp add: unat_sub unsigned_minus_1_eq_mask mask_eq_exp_minus_1)
  have "unat len \<le> 2 ^ 64 - 1 - unat alignment"
    using g(3) by (simp only: not_less word_le_nat_alt max)
  moreover have "unat alignment \<le> 2 ^ 64 - 1"
    using unsigned_less [of alignment, where 'a = nat] by simp
  ultimately have la: "unat len + unat alignment < 2 ^ 64" by simp
  then have al: "unat (len + alignment) = unat len + unat alignment"
    by (simp add: unat_add_no_wrap)
  have "unat base \<le> 2 ^ 64 - 1 - unat (len + alignment)"
    using g(4) by (simp only: not_less word_le_nat_alt max)
  with la have bb: "unat base + (unat len + unat alignment) < 2 ^ 64" unfolding al by linarith
  have a0: "alignment \<noteq> 0" using g(1) by auto
  note al_off = align_offset_aligned [OF g(2) a0, of base]
  have dev: "unat (base + ?off) = unat base + unat ?off"
    using bb al_off(1) by (simp add: unat_add_no_wrap)
  have "unat (base + ?off) < 2 ^ 40" using g(5) by (simp add: word_le_nat_alt)
  moreover have "unat len \<le> unat (0x10000000000 - (base + ?off))"
    using g(6) by (simp add: not_less word_le_nat_alt)
  moreover have "unat (0x10000000000 - (base + ?off)) = 2 ^ 40 - unat (base + ?off)"
    using g(5) by (simp add: unat_sub)
  ultimately have "unat (base + ?off) + unat len \<le> 2 ^ 40" by linarith
  then show ?thesis using al_off dev al by (simp add: t)
qed

definition io_demo :: APPLE_AGX_MEMORY_IO where
  "io_demo = \<lparr> io_AllocateContiguous = Some (\<lambda>n. (True, 0x100000, 0x9000, 7)),
     io_FreeContiguous = Some (\<lambda>h. True), io_AllocatePageList = None, io_FreePageList = None \<rparr>"

definition mo_demo :: APPLE_AGX_MEMORY_OBJECT where
  "mo_demo = \<lparr> mo_AllocationCpuBase = 0, mo_CpuAddress = 0, mo_AllocationHandle = 0,
     mo_AllocationDeviceBase = 0, mo_DeviceAddress = 0, mo_AllocationLength = 0, mo_Length = 0,
     mo_DevicePages = None, mo_DevicePageCount = 0, mo_GpuVirtualAddress = 0,
     mo_SubmittedFence = 0, mo_Context = 0, mo_State = AppleAgxMemoryEmpty \<rparr>"

theorem memory_allocate_aligned_witness:
  "\<exists>t. AppleAgxMemoryAllocateAligned io_demo 0x4000 0x4000 mo_demo = (AppleAgxMemoryResultOk, t, []) \<and>
       unat (mo_DeviceAddress t) mod 0x4000 = 0"
proof -
  obtain t where t: "AppleAgxMemoryAllocateAligned io_demo 0x4000 0x4000 mo_demo =
      (AppleAgxMemoryResultOk, t, [])"
    by (simp add: AppleAgxMemoryAllocateAligned_def AppleAgxMemoryIoValid_def io_demo_def mo_demo_def)
  have "io_AllocatePageList io_demo = None" by (simp add: io_demo_def)
  from memory_allocate_aligned [OF t this] t show ?thesis by auto
qed

text \<open>Every operation on an object in flight is refused, but the exact completion.\<close>

lemma in_flight_refused:
  assumes "mo_State m = AppleAgxMemoryInFlight"
  shows "fst (AppleAgxMemoryMarkCpuWritten m) \<noteq> AppleAgxMemoryResultOk"
    and "snd (AppleAgxMemoryMarkCpuWritten m) = m"
    and "fst (AppleAgxMemoryMarkPrepared m) \<noteq> AppleAgxMemoryResultOk"
    and "snd (AppleAgxMemoryMarkPrepared m) = m"
    and "fst (AppleAgxMemoryMarkGpuMapped m c va) \<noteq> AppleAgxMemoryResultOk"
    and "snd (AppleAgxMemoryMarkGpuMapped m c va) = m"
    and "fst (AppleAgxMemoryMarkSubmitted m f) \<noteq> AppleAgxMemoryResultOk"
    and "snd (AppleAgxMemoryMarkSubmitted m f) = m"
    and "fst (AppleAgxMemoryMarkGpuUnmapped m) \<noteq> AppleAgxMemoryResultOk"
    and "snd (AppleAgxMemoryMarkGpuUnmapped m) = m"
    and "fst (AppleAgxMemoryRelease io m) \<noteq> AppleAgxMemoryResultOk"
    and "fst (snd (AppleAgxMemoryRelease io m)) = m"
    and "fst (AppleAgxMemoryAllocateAligned io len alignment m) \<noteq> AppleAgxMemoryResultOk"
    and "fst (snd (AppleAgxMemoryAllocateAligned io len alignment m)) = m"
    and "AppleAgxMemoryMarkCompleted m f = (r, t) \<Longrightarrow>
      t = m \<and> r \<noteq> AppleAgxMemoryResultOk \<or>
      t = m\<lparr> mo_State := AppleAgxMemoryCompleted \<rparr> \<and> r = AppleAgxMemoryResultOk \<and>
      f = mo_SubmittedFence m"
  using assms
  by (auto simp: AppleAgxMemoryMarkCpuWritten_def AppleAgxMemoryMarkPrepared_def
      AppleAgxMemoryMarkGpuMapped_def AppleAgxMemoryMarkSubmitted_def
      AppleAgxMemoryMarkCompleted_def AppleAgxMemoryMarkGpuUnmapped_def
      AppleAgxMemoryRelease_def AppleAgxMemoryAllocateAligned_def split: if_splits)

lemma in_flight_step:
  assumes "mo_step m r t" and f: "mo_State m = AppleAgxMemoryInFlight"
  shows "t = m \<and> r \<noteq> AppleAgxMemoryResultOk \<or>
    t = m\<lparr> mo_State := AppleAgxMemoryCompleted \<rparr> \<and>
    AppleAgxMemoryMarkCompleted m (mo_SubmittedFence m) = (AppleAgxMemoryResultOk, t)"
  using assms(1)
proof cases
  case (allocate io len alignment freed)
  with in_flight_refused(13,14) [OF f, of io len alignment] show ?thesis by simp
next
  case cpu_written
  with in_flight_refused(1,2) [OF f] show ?thesis by simp
next
  case prepared
  with in_flight_refused(3,4) [OF f] show ?thesis by simp
next
  case (gpu_mapped c va)
  with in_flight_refused(5,6) [OF f, of c va] show ?thesis by simp
next
  case (submitted g)
  with in_flight_refused(7,8) [OF f, of g] show ?thesis by simp
next
  case (completed g)
  with in_flight_refused(15) [OF f, of g r t] show ?thesis by auto
next
  case (aborted g)
  with in_flight_refused(15) [OF f, of g r t] show ?thesis
    by (auto simp: AppleAgxMemoryMarkAborted_def)
next
  case gpu_unmapped
  with in_flight_refused(9,10) [OF f] show ?thesis by simp
next
  case (release io freed)
  with in_flight_refused(11,12) [OF f, of io] show ?thesis by simp
qed

lemma resubmitted_after:
  assumes "mo_step m r t" and c: "mo_State m = AppleAgxMemoryCompleted"
    and i: "mo_State t = AppleAgxMemoryInFlight"
  shows "AppleAgxMemoryFenceAfter (mo_SubmittedFence t) (mo_SubmittedFence m)"
  using assms(1)
proof cases
  case (allocate io len alignment freed)
  then show ?thesis using allocate_cases [OF allocate] c i by (auto simp: AppleAgxMemoryZero_def)
next
  case (release io freed)
  then show ?thesis
    using c i by (auto simp: AppleAgxMemoryRelease_def AppleAgxMemoryZero_def split: if_splits)
next
  case (submitted f)
  then show ?thesis using c i by (auto simp: AppleAgxMemoryMarkSubmitted_def split: if_splits)
qed (use c i in \<open>auto simp: AppleAgxMemoryMarkCpuWritten_def AppleAgxMemoryMarkPrepared_def
      AppleAgxMemoryMarkGpuMapped_def AppleAgxMemoryMarkCompleted_def
      AppleAgxMemoryMarkAborted_def AppleAgxMemoryMarkGpuUnmapped_def split: if_splits\<close>)

text \<open>C31. An object in flight belongs to the GPU until its own fence retires: no operation frees,
  remaps, unmaps, resubmits or hands it to the CPU, and the only one that changes it is a completion
  or abort with exactly the submitted fence; and a completed object is resubmitted only with a fence
  that follows the one it completed.\<close>

theorem memory_in_flight_owned:
  assumes "mo_step m r t"
  shows "(mo_State m = AppleAgxMemoryInFlight \<longrightarrow>
            t = m \<and> r \<noteq> AppleAgxMemoryResultOk \<or>
            t = m\<lparr> mo_State := AppleAgxMemoryCompleted \<rparr> \<and>
            AppleAgxMemoryMarkCompleted m (mo_SubmittedFence m) = (AppleAgxMemoryResultOk, t)) \<and>
         (mo_State m = AppleAgxMemoryCompleted \<and> mo_State t = AppleAgxMemoryInFlight \<longrightarrow>
            AppleAgxMemoryFenceAfter (mo_SubmittedFence t) (mo_SubmittedFence m))"
  using in_flight_step [OF assms] resubmitted_after [OF assms] by blast

theorem memory_in_flight_owned_witness:
  "AppleAgxMemoryMarkGpuUnmapped (mo_demo\<lparr> mo_State := AppleAgxMemoryInFlight \<rparr>) =
     (AppleAgxMemoryResultBusy, mo_demo\<lparr> mo_State := AppleAgxMemoryInFlight \<rparr>)"
proof -
  let ?m = "mo_demo\<lparr> mo_State := AppleAgxMemoryInFlight \<rparr>"
  obtain r t where u: "AppleAgxMemoryMarkGpuUnmapped ?m = (r, t)" by fastforce
  from memory_in_flight_owned [OF mo_step.gpu_unmapped [OF u]] have
    "t = ?m \<or> t = ?m\<lparr> mo_State := AppleAgxMemoryCompleted \<rparr>" by simp blast
  with u show ?thesis by (auto simp: AppleAgxMemoryMarkGpuUnmapped_def)
qed

end
