(* ===== verification/Uat.thy ===== *)
theory Uat
  imports Interfaces
begin

text \<open>
  The unified address translation codec of \<^verbatim>\<open>drivers/apple-agx/shared/src/apple_agx_uat.c\<close>: the
  page and table descriptors, the pair of translation table base registers and the range check.
  A result code other than \<open>AppleAgxUatResultOk\<close> is the left side of a sum, the value stored through
  the out parameter the right side.  Out parameters are taken to be present.
\<close>

section \<open>Data\<close>

datatype APPLE_AGX_UAT_RESULT =
  AppleAgxUatResultOk
| AppleAgxUatResultInvalidArgument
| AppleAgxUatResultUnsupportedContext
| AppleAgxUatResultMisaligned
| AppleAgxUatResultOutOfRange
| AppleAgxUatResultOverflow
| AppleAgxUatResultUnsupportedProtection
| AppleAgxUatResultAlreadyMapped
| AppleAgxUatResultCapacity
| AppleAgxUatResultAllocationFailed
| AppleAgxUatResultNotMapped

text \<open>\<open>AppleAgxUatProtectionNone\<close> is the value 0 the code casts into the enumeration when it clears a
  mapping; it stands for every value that has no case.\<close>

datatype APPLE_AGX_UAT_PROTECTION =
  AppleAgxUatProtectionNone
| AppleAgxUatFirmwareDeviceReadWrite
| AppleAgxUatFirmwareSharedReadWrite
| AppleAgxUatFirmwareGpuSharedReadWrite
| AppleAgxUatFirmwarePrivateReadWrite
| AppleAgxUatFirmwareGpuPrivateReadWrite
| AppleAgxUatFirmwareReadWriteGpuReadOnly
| AppleAgxUatGpuSharedReadOnly
| AppleAgxUatGpuSharedWriteOnly
| AppleAgxUatGpuSharedReadWrite
| AppleAgxUatGpuPipelineShared

fun prot_value :: "APPLE_AGX_UAT_PROTECTION \<Rightarrow> nat" where
  "prot_value AppleAgxUatProtectionNone = 0"
| "prot_value AppleAgxUatFirmwareDeviceReadWrite = 1"
| "prot_value AppleAgxUatFirmwareSharedReadWrite = 2"
| "prot_value AppleAgxUatFirmwareGpuSharedReadWrite = 3"
| "prot_value AppleAgxUatFirmwarePrivateReadWrite = 4"
| "prot_value AppleAgxUatFirmwareGpuPrivateReadWrite = 5"
| "prot_value AppleAgxUatFirmwareReadWriteGpuReadOnly = 6"
| "prot_value AppleAgxUatGpuSharedReadOnly = 7"
| "prot_value AppleAgxUatGpuSharedWriteOnly = 8"
| "prot_value AppleAgxUatGpuSharedReadWrite = 9"
| "prot_value AppleAgxUatGpuPipelineShared = 10"

datatype APPLE_AGX_UAT_HALF = AppleAgxUatTtbr0 | AppleAgxUatTtbr1

record APPLE_AGX_UAT_ROOTS =
  rt_Ttbr0PhysicalAddress :: u64
  rt_Ttbr1PhysicalAddress :: u64

record APPLE_AGX_UAT_TTBR_PAIR =
  tp_Ttbr0 :: u64
  tp_Ttbr1 :: u64

abbreviation UAT_PAGE_SIZE :: u64 where "UAT_PAGE_SIZE \<equiv> 0x4000"
abbreviation UAT_PAGE_MASK :: u64 where "UAT_PAGE_MASK \<equiv> 0x3fff"
abbreviation UAT_PHYSICAL_LIMIT :: u64 where "UAT_PHYSICAL_LIMIT \<equiv> 0x10000000000"
abbreviation UAT_LOW_LIMIT :: u64 where "UAT_LOW_LIMIT \<equiv> 0x8000000000"
abbreviation UAT_HIGH_BASE :: u64 where "UAT_HIGH_BASE \<equiv> 0xffffff8000000000"
abbreviation UAT_CONTEXT_COUNT :: u32 where "UAT_CONTEXT_COUNT \<equiv> 64"
abbreviation UAT_FIRMWARE_CONTEXT :: u32 where "UAT_FIRMWARE_CONTEXT \<equiv> 0"

abbreviation PTE_OWNER :: u64 where "PTE_OWNER \<equiv> 0x0080000000000000"
abbreviation PTE_UXN :: u64 where "PTE_UXN \<equiv> 0x0040000000000000"
abbreviation PTE_PXN :: u64 where "PTE_PXN \<equiv> 0x0020000000000000"
abbreviation PTE_NON_GLOBAL :: u64 where "PTE_NON_GLOBAL \<equiv> 0x800"
abbreviation PTE_ACCESS_FLAG :: u64 where "PTE_ACCESS_FLAG \<equiv> 0x400"
abbreviation PTE_LEAF_TABLE :: u64 where "PTE_LEAF_TABLE \<equiv> 3"

abbreviation ATTR_CACHED :: u64 where "ATTR_CACHED \<equiv> 0"
abbreviation ATTR_DEVICE :: u64 where "ATTR_DEVICE \<equiv> 1"
abbreviation ATTR_SHARED_INNER_NC :: u64 where "ATTR_SHARED_INNER_NC \<equiv> 2"
abbreviation AP_FIRMWARE_GPU :: u64 where "AP_FIRMWARE_GPU \<equiv> 0"
abbreviation AP_FIRMWARE :: u64 where "AP_FIRMWARE \<equiv> 1"
abbreviation AP_GPU :: u64 where "AP_GPU \<equiv> 2"

section \<open>Operations\<close>

text \<open>The memory attribute, the access permission and the two execute-never flags of each
  protection; \<open>None\<close> for the default case.\<close>

fun prot_case :: "APPLE_AGX_UAT_PROTECTION \<Rightarrow> (u64 \<times> u64 \<times> bool \<times> bool) option" where
  "prot_case AppleAgxUatFirmwareDeviceReadWrite = Some (ATTR_DEVICE, AP_FIRMWARE, True, False)"
| "prot_case AppleAgxUatFirmwareSharedReadWrite =
     Some (ATTR_SHARED_INNER_NC, AP_FIRMWARE, True, False)"
| "prot_case AppleAgxUatFirmwareGpuSharedReadWrite =
     Some (ATTR_SHARED_INNER_NC, AP_FIRMWARE_GPU, True, True)"
| "prot_case AppleAgxUatFirmwarePrivateReadWrite = Some (ATTR_CACHED, AP_FIRMWARE, True, False)"
| "prot_case AppleAgxUatFirmwareGpuPrivateReadWrite =
     Some (ATTR_CACHED, AP_FIRMWARE_GPU, True, True)"
| "prot_case AppleAgxUatFirmwareReadWriteGpuReadOnly = Some (ATTR_CACHED, AP_FIRMWARE, True, True)"
| "prot_case AppleAgxUatGpuSharedReadOnly = Some (ATTR_SHARED_INNER_NC, AP_GPU, False, False)"
| "prot_case AppleAgxUatGpuSharedWriteOnly = Some (ATTR_SHARED_INNER_NC, AP_GPU, False, True)"
| "prot_case AppleAgxUatGpuSharedReadWrite = Some (ATTR_SHARED_INNER_NC, AP_GPU, True, False)"
| "prot_case AppleAgxUatGpuPipelineShared =
     Some (ATTR_SHARED_INNER_NC, AP_FIRMWARE_GPU, True, True)"
| "prot_case AppleAgxUatProtectionNone = None"

definition AppleAgxUatProtectionBits ::
  "u32 \<Rightarrow> APPLE_AGX_UAT_PROTECTION \<Rightarrow> APPLE_AGX_UAT_RESULT + u64" where
  "AppleAgxUatProtectionBits context' protection =
     (if context' \<ge> UAT_CONTEXT_COUNT then Inl AppleAgxUatResultUnsupportedContext
      else case prot_case protection of
        None \<Rightarrow> Inl AppleAgxUatResultUnsupportedProtection
      | Some (attribute, ap, uxn, pxn) \<Rightarrow>
          (if context' = UAT_FIRMWARE_CONTEXT \<and>
              prot_value protection \<ge> prot_value AppleAgxUatGpuSharedReadOnly \<or>
              context' \<noteq> UAT_FIRMWARE_CONTEXT \<and>
              prot_value protection \<le> prot_value AppleAgxUatFirmwareReadWriteGpuReadOnly
           then Inl AppleAgxUatResultUnsupportedProtection
           else Inr (PTE_OWNER OR PTE_ACCESS_FLAG OR push_bit 6 ap OR push_bit 2 attribute OR
                     PTE_LEAF_TABLE OR (if uxn then PTE_UXN else 0) OR
                     (if pxn then PTE_PXN else 0) OR
                     (if context' \<noteq> UAT_FIRMWARE_CONTEXT then PTE_NON_GLOBAL else 0))))"

definition AppleAgxUatEncodeTableDescriptor :: "u64 \<Rightarrow> APPLE_AGX_UAT_RESULT + u64" where
  "AppleAgxUatEncodeTableDescriptor physicalAddress =
     (if physicalAddress AND UAT_PAGE_MASK \<noteq> 0 then Inl AppleAgxUatResultMisaligned
      else if physicalAddress \<ge> UAT_PHYSICAL_LIMIT then Inl AppleAgxUatResultOutOfRange
      else Inr (physicalAddress OR PTE_LEAF_TABLE))"

definition AppleAgxUatEncodeTtbrPair ::
  "u32 \<Rightarrow> APPLE_AGX_UAT_ROOTS \<Rightarrow> APPLE_AGX_UAT_RESULT + APPLE_AGX_UAT_TTBR_PAIR" where
  "AppleAgxUatEncodeTtbrPair context' roots =
     (if context' \<ge> UAT_CONTEXT_COUNT then Inl AppleAgxUatResultUnsupportedContext
      else case AppleAgxUatEncodeTableDescriptor (rt_Ttbr0PhysicalAddress roots) of
        Inl result \<Rightarrow> Inl result
      | Inr _ \<Rightarrow>
          (case AppleAgxUatEncodeTableDescriptor (rt_Ttbr1PhysicalAddress roots) of
             Inl result \<Rightarrow> Inl result
           | Inr _ \<Rightarrow>
               (let asid = push_bit 48 (ucast context') :: u64
                in Inr \<lparr> tp_Ttbr0 = asid OR rt_Ttbr0PhysicalAddress roots OR 1,
                         tp_Ttbr1 = asid OR rt_Ttbr1PhysicalAddress roots OR 1 \<rparr>)))"

definition AppleAgxUatClearTtbrPair :: "APPLE_AGX_UAT_TTBR_PAIR \<Rightarrow> APPLE_AGX_UAT_TTBR_PAIR" where
  "AppleAgxUatClearTtbrPair pair = pair\<lparr> tp_Ttbr0 := 0, tp_Ttbr1 := 0 \<rparr>"

definition AppleAgxUatEncodePageDescriptor ::
  "u32 \<Rightarrow> u64 \<Rightarrow> APPLE_AGX_UAT_PROTECTION \<Rightarrow> APPLE_AGX_UAT_RESULT + u64" where
  "AppleAgxUatEncodePageDescriptor context' physicalAddress protection =
     (case AppleAgxUatProtectionBits context' protection of
        Inl result \<Rightarrow> Inl result
      | Inr bits \<Rightarrow>
          (if physicalAddress AND UAT_PAGE_MASK \<noteq> 0 then Inl AppleAgxUatResultMisaligned
           else if physicalAddress \<ge> UAT_PHYSICAL_LIMIT then Inl AppleAgxUatResultOutOfRange
           else Inr (physicalAddress OR bits)))"

definition AppleAgxUatValidateRange ::
  "u32 \<Rightarrow> u64 \<Rightarrow> u64 \<Rightarrow> u64 \<Rightarrow> APPLE_AGX_UAT_PROTECTION
   \<Rightarrow> APPLE_AGX_UAT_RESULT + APPLE_AGX_UAT_HALF" where
  "AppleAgxUatValidateRange context' virtualAddress physicalAddress len protection =
     (if len = 0 then Inl AppleAgxUatResultInvalidArgument
      else case AppleAgxUatProtectionBits context' protection of
        Inl result \<Rightarrow> Inl result
      | Inr _ \<Rightarrow>
          (if (virtualAddress OR physicalAddress OR len) AND UAT_PAGE_MASK \<noteq> 0
           then Inl AppleAgxUatResultMisaligned
           else if len - 1 > NOT virtualAddress then Inl AppleAgxUatResultOverflow
           else let last_virtual = virtualAddress + len - 1
                in if physicalAddress \<ge> UAT_PHYSICAL_LIMIT \<or>
                      len > UAT_PHYSICAL_LIMIT - physicalAddress
                   then Inl AppleAgxUatResultOutOfRange
                   else if virtualAddress < UAT_LOW_LIMIT \<and> last_virtual < UAT_LOW_LIMIT
                   then Inr AppleAgxUatTtbr0
                   else if virtualAddress \<ge> UAT_HIGH_BASE then Inr AppleAgxUatTtbr1
                   else Inl AppleAgxUatResultOutOfRange))"

section \<open>Descriptor fields\<close>

text \<open>The fields hardware reads from a descriptor.\<close>

abbreviation UAT_ADDRESS_MASK :: u64 where "UAT_ADDRESS_MASK \<equiv> 0x000000ffffffc000"

definition desc_address :: "u64 \<Rightarrow> u64" where "desc_address d = d AND UAT_ADDRESS_MASK"
definition desc_bits :: "u64 \<Rightarrow> u64" where "desc_bits d = d AND NOT UAT_ADDRESS_MASK"

lemma and_not_self:
  fixes a m :: "'a::len word"
  assumes "a AND m = 0"
  shows "a AND NOT m = a"
proof -
  have "a AND (m OR NOT m) = (a AND m) OR (a AND NOT m)"
    by (rule bit.conj_disj_distrib)
  then show ?thesis using assms by simp
qed

lemma page_address_mask:
  assumes "pa AND UAT_PAGE_MASK = 0" and "pa < UAT_PHYSICAL_LIMIT"
  shows "pa AND UAT_ADDRESS_MASK = pa"
proof -
  have "unat pa < 2 ^ 40" using assms(2) by (simp add: word_less_nat_alt)
  then have "unat (take_bit 40 pa) = unat pa"
    by (simp add: unsigned_take_bit_eq take_bit_nat_eq_self)
  then have t: "pa AND mask 40 = pa" by (simp add: word_unat_eq_iff flip: take_bit_eq_mask)
  have "UAT_ADDRESS_MASK = mask 40 AND NOT UAT_PAGE_MASK" by (simp add: mask_eq_exp_minus_1)
  then have "pa AND UAT_ADDRESS_MASK = (pa AND mask 40) AND NOT UAT_PAGE_MASK"
    by (simp only: and.assoc)
  then show ?thesis unfolding t using and_not_self [OF assms(1)] by simp
qed

lemma page_address_and:
  assumes "pa AND UAT_ADDRESS_MASK = pa" and "UAT_ADDRESS_MASK AND x = 0"
  shows "pa AND x = 0"
proof -
  have "pa AND x = pa AND (UAT_ADDRESS_MASK AND x)"
    unfolding and.assoc [symmetric] assms(1) ..
  then show ?thesis unfolding assms(2) by simp
qed

lemma prot_bits_fields:
  assumes "AppleAgxUatProtectionBits c p = Inr b"
  shows "b AND UAT_ADDRESS_MASK = 0" and "b AND 3 = 3"
proof -
  from assms obtain attribute ap uxn pxn where
    p: "prot_case p = Some (attribute, ap, uxn, pxn)"
    and b: "b = PTE_OWNER OR PTE_ACCESS_FLAG OR push_bit 6 ap OR push_bit 2 attribute OR
                PTE_LEAF_TABLE OR (if uxn then PTE_UXN else 0) OR
                (if pxn then PTE_PXN else 0) OR
                (if c \<noteq> UAT_FIRMWARE_CONTEXT then PTE_NON_GLOBAL else 0)"
    by (auto simp: AppleAgxUatProtectionBits_def split: if_splits option.splits)
  show "b AND UAT_ADDRESS_MASK = 0" "b AND 3 = 3"
    unfolding b using p by (cases p; simp; cases "c = UAT_FIRMWARE_CONTEXT"; simp; clarsimp)+
qed

lemma encode_page_Inr:
  assumes "AppleAgxUatEncodePageDescriptor c pa p = Inr d"
  obtains b where "AppleAgxUatProtectionBits c p = Inr b" and "d = pa OR b"
    and "pa AND UAT_ADDRESS_MASK = pa" and "pa AND UAT_PAGE_MASK = 0" and "pa < UAT_PHYSICAL_LIMIT"
  using assms page_address_mask [of pa]
  by (auto simp: AppleAgxUatEncodePageDescriptor_def not_le split: sum.splits if_splits)

lemma encode_page_address:
  assumes "AppleAgxUatEncodePageDescriptor c pa p = Inr d"
  shows "d AND UAT_ADDRESS_MASK = pa" and "d AND 3 = 3"
proof -
  from encode_page_Inr [OF assms] obtain b where
    b: "AppleAgxUatProtectionBits c p = Inr b" "d = pa OR b" "pa AND UAT_ADDRESS_MASK = pa" .
  have "pa AND 3 = 0" by (rule page_address_and [OF b(3)]) simp
  with b prot_bits_fields [OF b(1)] show "d AND UAT_ADDRESS_MASK = pa" "d AND 3 = 3"
    by (simp_all add: bit.conj_disj_distrib2)
qed

lemma encode_page_bits:
  assumes "AppleAgxUatEncodePageDescriptor c pa p = Inr d"
  shows "AppleAgxUatProtectionBits c p = Inr (desc_bits d)"
proof -
  from encode_page_Inr [OF assms] obtain b where
    b: "AppleAgxUatProtectionBits c p = Inr b" "d = pa OR b" "pa AND UAT_ADDRESS_MASK = pa" .
  have "pa AND NOT UAT_ADDRESS_MASK = 0"
    by (rule page_address_and [OF b(3)]) simp
  moreover have "b AND NOT UAT_ADDRESS_MASK = b"
    by (rule and_not_self [OF prot_bits_fields(1) [OF b(1)]])
  ultimately show ?thesis
    using b by (simp add: desc_bits_def bit.conj_disj_distrib2)
qed

lemma encode_table_address:
  assumes "AppleAgxUatEncodeTableDescriptor pa = Inr d"
  shows "d AND UAT_ADDRESS_MASK = pa" and "d AND 3 = 3" and "pa AND UAT_ADDRESS_MASK = pa"
proof -
  from assms have d: "d = pa OR 3" and "pa AND UAT_PAGE_MASK = 0" "pa < UAT_PHYSICAL_LIMIT"
    by (auto simp: AppleAgxUatEncodeTableDescriptor_def not_le split: if_splits)
  then show m: "pa AND UAT_ADDRESS_MASK = pa" by (intro page_address_mask)
  have "pa AND 3 = 0" by (rule page_address_and [OF m]) simp
  with m show "d AND UAT_ADDRESS_MASK = pa" "d AND 3 = 3"
    by (simp_all add: d bit.conj_disj_distrib2)
qed

lemma aligned_sum:
  assumes "(va OR pa OR len) AND UAT_PAGE_MASK = (0::u64)"
  shows "va AND UAT_PAGE_MASK = 0" and "pa AND UAT_PAGE_MASK = 0" and "len AND UAT_PAGE_MASK = 0"
  using assms by (simp_all add: bit.conj_disj_distrib2 or_eq_0_iff)

lemma page_mod: "unat (w :: u64) mod 2 ^ 14 = unat (w AND UAT_PAGE_MASK)"
proof -
  have "w AND UAT_PAGE_MASK = take_bit 14 w"
    by (simp add: take_bit_eq_mask mask_eq_exp_minus_1)
  then have "unat (w AND UAT_PAGE_MASK) = take_bit 14 (unat w)"
    by (simp only: unsigned_take_bit_eq)
  then show ?thesis by (simp only: take_bit_eq_mod)
qed

lemma page_aligned_iff: "w AND UAT_PAGE_MASK = 0 \<longleftrightarrow> 2 ^ 14 dvd unat (w :: u64)"
  by (simp only: dvd_eq_mod_eq_0 page_mod unat_eq_0)

text \<open>The protections of the two kinds of context are disjoint, and their bits determine them.\<close>

definition prot_word :: "APPLE_AGX_UAT_PROTECTION \<Rightarrow> u64" where
  "prot_word p =
     (case prot_case p of
        None \<Rightarrow> 0
      | Some (attribute, ap, uxn, pxn) \<Rightarrow>
          PTE_OWNER OR PTE_ACCESS_FLAG OR push_bit 6 ap OR push_bit 2 attribute OR
          PTE_LEAF_TABLE OR (if uxn then PTE_UXN else 0) OR (if pxn then PTE_PXN else 0) OR
          (if prot_value p \<ge> 7 then PTE_NON_GLOBAL else 0))"

lemma prot_bits_Inr_iff:
  "AppleAgxUatProtectionBits c p = Inr b \<longleftrightarrow>
     c < UAT_CONTEXT_COUNT \<and> p \<noteq> AppleAgxUatProtectionNone \<and> b = prot_word p \<and>
     (c = UAT_FIRMWARE_CONTEXT \<longleftrightarrow> prot_value p \<le> 6)"
  by (cases p) (auto simp: AppleAgxUatProtectionBits_def prot_word_def not_le not_less)

lemma prot_word_inj:
  "prot_word p = prot_word p' \<Longrightarrow> p' \<noteq> AppleAgxUatProtectionNone \<Longrightarrow>
   p \<noteq> AppleAgxUatProtectionNone \<Longrightarrow> p = p'"
  by (cases p; cases p') (simp_all add: prot_word_def)

lemma prot_word_global:
  "p \<noteq> AppleAgxUatProtectionNone \<Longrightarrow>
   prot_word p AND PTE_NON_GLOBAL = 0 \<longleftrightarrow> prot_value p \<le> 6"
  by (cases p) (simp_all add: prot_word_def)

section \<open>Properties\<close>

text \<open>A page descriptor decodes to what was encoded: the address field is the physical page,
  the low bits mark a valid leaf, and the address and the remaining bits determine the page, the
  protection and whether the mapping belongs to the firmware context; the two kinds of context never
  share a protection.\<close>

theorem uat_page_descriptor_decodes:
  assumes "AppleAgxUatEncodePageDescriptor c pa p = Inr d"
    and "AppleAgxUatEncodePageDescriptor c' pa' p' = Inr d"
  shows "desc_address d = pa \<and> d AND 3 = 3 \<and> pa' = pa \<and> p' = p \<and>
         (c' = UAT_FIRMWARE_CONTEXT \<longleftrightarrow> c = UAT_FIRMWARE_CONTEXT) \<and>
         (c = UAT_FIRMWARE_CONTEXT \<longleftrightarrow> d AND PTE_NON_GLOBAL = 0) \<and>
         (c = UAT_FIRMWARE_CONTEXT \<longleftrightarrow>
            prot_value p \<le> prot_value AppleAgxUatFirmwareReadWriteGpuReadOnly)"
proof -
  from encode_page_Inr [OF assms(1)] obtain b where
    b: "AppleAgxUatProtectionBits c p = Inr b" "d = pa OR b" "pa AND UAT_ADDRESS_MASK = pa" .
  have p: "p \<noteq> AppleAgxUatProtectionNone" "b = prot_word p"
    "c = UAT_FIRMWARE_CONTEXT \<longleftrightarrow> prot_value p \<le> 6"
    using b(1) by (simp_all add: prot_bits_Inr_iff)
  have p': "p' \<noteq> AppleAgxUatProtectionNone" "desc_bits d = prot_word p'"
    "c' = UAT_FIRMWARE_CONTEXT \<longleftrightarrow> prot_value p' \<le> 6"
    using encode_page_bits [OF assms(2)] by (simp_all add: prot_bits_Inr_iff)
  have "desc_bits d = prot_word p"
    using encode_page_bits [OF assms(1)] by (simp add: prot_bits_Inr_iff)
  with p p' have eq: "p' = p" using prot_word_inj by metis
  have "pa AND PTE_NON_GLOBAL = 0" by (rule page_address_and [OF b(3)]) simp
  then have "d AND PTE_NON_GLOBAL = prot_word p AND PTE_NON_GLOBAL"
    by (simp add: b(2) p(2) bit.conj_disj_distrib2)
  with p p' eq prot_word_global [OF p(1)] show ?thesis
    using encode_page_address [OF assms(1)] encode_page_address [OF assms(2)]
    by (simp add: desc_address_def)
qed

theorem uat_page_descriptor_decodes_witness:
  "desc_address 0x00e0000123454c0b = 0x123454000"
proof -
  have "AppleAgxUatEncodePageDescriptor 1 0x123454000 AppleAgxUatGpuPipelineShared =
          Inr 0x00e0000123454c0b"
    by (simp add: AppleAgxUatEncodePageDescriptor_def AppleAgxUatProtectionBits_def
        word_le_nat_alt)
  with uat_page_descriptor_decodes [OF this this] show ?thesis by simp
qed

lemma unat_not: "unat (NOT w :: u64) = 2 ^ 64 - 1 - unat w"
proof -
  have "NOT w = NOT 0 - w" by (simp add: not_eq_complement)
  then show ?thesis by (simp add: unat_sub unsigned_minus_1_eq_mask mask_eq_exp_minus_1)
qed

lemma unat_last:
  assumes "len \<noteq> (0::u64)" and "\<not> len - 1 > NOT va"
  shows "unat va + unat len \<le> 2 ^ 64" and "unat (va + len - 1) = unat va + unat len - 1"
proof -
  have l: "unat (len - 1) = unat len - 1" "0 < unat len"
    using assms(1) by (simp_all add: unat_minus_one unat_gt_0)
  have "unat len - 1 \<le> 2 ^ 64 - 1 - unat va"
    using assms(2) by (simp add: word_less_nat_alt l unat_not)
  moreover have "unat va < 2 ^ 64" using unsigned_less [of va, where 'a = nat] by simp
  ultimately show le: "unat va + unat len \<le> 2 ^ 64" using l(2) by linarith
  have "unat (va + (len - 1)) = unat va + unat (len - 1)"
    using le l by (intro unat_add_no_wrap) simp
  then show "unat (va + len - 1) = unat va + unat len - 1" using l by (simp add: algebra_simps)
qed

text \<open>The check in natural numbers.\<close>

lemma validate_range_iff:
  "AppleAgxUatValidateRange c va pa len p = Inr half \<longleftrightarrow>
     (\<exists>b. AppleAgxUatProtectionBits c p = Inr b) \<and> 0 < unat len \<and>
     2 ^ 14 dvd unat va \<and> 2 ^ 14 dvd unat pa \<and> 2 ^ 14 dvd unat len \<and>
     unat pa + unat len \<le> 2 ^ 40 \<and> unat va + unat len \<le> 2 ^ 64 \<and>
     (case half of AppleAgxUatTtbr0 \<Rightarrow> unat va + unat len \<le> 2 ^ 39
                 | AppleAgxUatTtbr1 \<Rightarrow> 2 ^ 64 - 2 ^ 39 \<le> unat va)"
proof (cases "len = 0 \<or> (\<nexists>b. AppleAgxUatProtectionBits c p = Inr b) \<or>
              (va OR pa OR len) AND UAT_PAGE_MASK \<noteq> 0 \<or> len - 1 > NOT va")
  case True
  have "len - 1 > NOT va \<Longrightarrow> len \<noteq> 0 \<Longrightarrow> \<not> unat va + unat len \<le> 2 ^ 64"
  proof -
    assume "len - 1 > NOT va" and "len \<noteq> 0"
    then have "2 ^ 64 - 1 - unat va < unat len - 1"
      by (simp add: word_less_nat_alt unat_minus_one unat_not)
    then show ?thesis by linarith
  qed
  moreover have "(va OR pa OR len) AND UAT_PAGE_MASK \<noteq> 0 \<Longrightarrow>
      \<not> (2 ^ 14 dvd unat va \<and> 2 ^ 14 dvd unat pa \<and> 2 ^ 14 dvd unat len)"
    by (simp only: page_aligned_iff [symmetric]) (auto simp: bit.conj_disj_distrib2)
  ultimately show ?thesis
    using True unfolding AppleAgxUatValidateRange_def
    by (auto split: sum.splits if_splits simp del: power_Suc)
next
  case False
  then obtain b where ok: "len \<noteq> 0" "AppleAgxUatProtectionBits c p = Inr b"
    "(va OR pa OR len) AND UAT_PAGE_MASK = 0" "\<not> len - 1 > NOT va" by auto
  note l = unat_last [OF ok(1,4)]
  have al: "2 ^ 14 dvd unat va" "2 ^ 14 dvd unat pa" "2 ^ 14 dvd unat len"
    using aligned_sum [OF ok(3)] by (simp_all only: page_aligned_iff)
  have ph: "pa \<ge> UAT_PHYSICAL_LIMIT \<or> len > UAT_PHYSICAL_LIMIT - pa \<longleftrightarrow>
      \<not> unat pa + unat len \<le> 2 ^ 40"
  proof (cases "pa \<ge> UAT_PHYSICAL_LIMIT")
    case True
    with ok(1) have "2 ^ 40 \<le> unat pa" "0 < unat len"
      by (simp_all add: word_le_nat_alt unat_gt_0)
    with True show ?thesis by simp
  next
    case False
    then have "unat (UAT_PHYSICAL_LIMIT - pa) = 2 ^ 40 - unat pa" "unat pa < 2 ^ 40"
      by (simp_all add: unat_sub word_le_nat_alt)
    then show ?thesis using False by (simp only: word_less_nat_alt simp_thms) arith
  qed
  have lo: "va < UAT_LOW_LIMIT \<and> va + len - 1 < UAT_LOW_LIMIT \<longleftrightarrow> unat va + unat len \<le> 2 ^ 39"
  proof -
    have "0 < unat len" using ok(1) by (simp add: unat_gt_0)
    moreover have "w < UAT_LOW_LIMIT \<longleftrightarrow> unat w < 2 ^ 39" for w :: u64
      by (simp add: word_less_nat_alt)
    ultimately show ?thesis unfolding l(2) by (simp only: l(2)) linarith
  qed
  have hi: "va \<ge> UAT_HIGH_BASE \<longleftrightarrow> 2 ^ 64 - 2 ^ 39 \<le> unat va"
    by (simp add: word_le_nat_alt)
  have "0 < unat len" using ok(1) by (simp add: unat_gt_0)
  have excl: "unat va + unat len \<le> 2 ^ 39 \<Longrightarrow> \<not> (2::nat) ^ 64 - 2 ^ 39 \<le> unat va" by simp
  show ?thesis
    unfolding AppleAgxUatValidateRange_def Let_def ph lo hi
    using ok l(1) al \<open>0 < unat len\<close> excl
    by (simp del: power_Suc power_numeral split: APPLE_AGX_UAT_HALF.split) auto
qed

text \<open>The range check accepts exactly the ranges the hardware can translate: a nonempty page
  aligned range with a protection of the context, whose physical end is within the 40-bit output
  space, and which lies wholly in the low half or wholly in the high half of the virtual space
  without wrapping; and it reports the half.\<close>

theorem uat_validate_range_exact:
  "AppleAgxUatValidateRange c va pa len p = Inr half \<longleftrightarrow>
     (\<exists>b. AppleAgxUatProtectionBits c p = Inr b) \<and> 0 < unat len \<and>
     2 ^ 14 dvd unat va \<and> 2 ^ 14 dvd unat pa \<and> 2 ^ 14 dvd unat len \<and>
     unat pa + unat len \<le> 2 ^ 40 \<and> unat va + unat len \<le> 2 ^ 64 \<and>
     (case half of AppleAgxUatTtbr0 \<Rightarrow> unat va + unat len \<le> 2 ^ 39
                 | AppleAgxUatTtbr1 \<Rightarrow> 2 ^ 64 - 2 ^ 39 \<le> unat va)"
  by (rule validate_range_iff)

lemma drop_asid:
  assumes "c < UAT_CONTEXT_COUNT"
  shows "drop_bit 48 (push_bit 48 (ucast c) :: u64) = ucast c"
proof (rule bit_word_eqI)
  fix n assume "n < LENGTH(64)"
  have "n < 16" if b: "bit c n"
  proof (rule ccontr)
    assume "\<not> n < 16"
    then have "(2::nat) ^ 16 \<le> 2 ^ n" by (intro power_increasing) simp_all
    moreover have "unat c < 64" using assms by (simp add: word_less_nat_alt)
    ultimately have "unat c div 2 ^ n = 0" by simp
    moreover have "bit (unat c) n" using b by (simp add: bit_unsigned_iff)
    ultimately show False by (simp add: bit_iff_odd)
  qed
  with \<open>n < LENGTH(64)\<close>
  show "bit (drop_bit 48 (push_bit 48 (ucast c) :: u64)) n = bit (ucast c :: u64) n"
    by (auto simp: bit_simps)
qed

lemma ttbr_fields:
  assumes c: "c < UAT_CONTEXT_COUNT" and m: "root AND UAT_ADDRESS_MASK = root"
    and t: "ttbr = (push_bit 48 (ucast c) OR root OR 1 :: u64)"
  shows "desc_address ttbr = root" and "unat (drop_bit 48 ttbr) = unat c" and "ttbr AND 1 = 1"
proof -
  let ?a = "push_bit 48 (ucast c) :: u64"
  have low: "?a AND x = 0" if "take_bit 48 x = x" for x
  proof (rule bit_word_eqI)
    fix n assume "n < LENGTH(64)"
    have "bit x n \<Longrightarrow> n < 48" using that by (metis bit_take_bit_iff)
    then show "bit (?a AND x) n = bit (0 :: u64) n" by (auto simp: bit_simps)
  qed
  have "?a AND UAT_ADDRESS_MASK = 0" by (rule low) simp
  with m show "desc_address ttbr = root"
    by (simp add: t desc_address_def bit.conj_disj_distrib2)
  have "?a AND 1 = 0" by (rule low) simp
  then show "ttbr AND 1 = 1" by (simp add: t bit.conj_disj_distrib2)
  have "drop_bit 48 root = drop_bit 48 (root AND UAT_ADDRESS_MASK)" unfolding m ..
  then have "drop_bit 48 root = 0" by simp
  with drop_asid [OF c] have "drop_bit 48 ttbr = ucast c" by (simp add: t)
  then show "unat (drop_bit 48 ttbr) = unat c" by (simp add: unat_ucast_up)
qed

text \<open>The register pair carries the context and both roots: the top 16 bits of each are the
  context, the address field its root, and bit 0 marks it valid; and the pair determines the context
  and the roots it was made from.\<close>

theorem uat_ttbr_pair_decodes:
  assumes "AppleAgxUatEncodeTtbrPair c roots = Inr pair"
  shows "desc_address (tp_Ttbr0 pair) = rt_Ttbr0PhysicalAddress roots \<and>
         desc_address (tp_Ttbr1 pair) = rt_Ttbr1PhysicalAddress roots \<and>
         unat (drop_bit 48 (tp_Ttbr0 pair)) = unat c \<and>
         unat (drop_bit 48 (tp_Ttbr1 pair)) = unat c \<and>
         tp_Ttbr0 pair AND 1 = 1 \<and> tp_Ttbr1 pair AND 1 = 1 \<and> c < UAT_CONTEXT_COUNT"
proof -
  from assms have c: "c < UAT_CONTEXT_COUNT"
    and r: "\<exists>d. AppleAgxUatEncodeTableDescriptor (rt_Ttbr0PhysicalAddress roots) = Inr d"
    "\<exists>d. AppleAgxUatEncodeTableDescriptor (rt_Ttbr1PhysicalAddress roots) = Inr d"
    and p: "tp_Ttbr0 pair = push_bit 48 (ucast c) OR rt_Ttbr0PhysicalAddress roots OR 1"
    "tp_Ttbr1 pair = push_bit 48 (ucast c) OR rt_Ttbr1PhysicalAddress roots OR 1"
    by (auto simp: AppleAgxUatEncodeTtbrPair_def Let_def not_le split: if_splits sum.splits)
  have m: "rt_Ttbr0PhysicalAddress roots AND UAT_ADDRESS_MASK = rt_Ttbr0PhysicalAddress roots"
    "rt_Ttbr1PhysicalAddress roots AND UAT_ADDRESS_MASK = rt_Ttbr1PhysicalAddress roots"
    using r encode_table_address(3) by blast+
  show ?thesis using ttbr_fields [OF c m(1) p(1)] ttbr_fields [OF c m(2) p(2)] c by simp
qed

theorem uat_ttbr_pair_decodes_witness:
  "\<exists>pair. AppleAgxUatEncodeTtbrPair 63
      \<lparr> rt_Ttbr0PhysicalAddress = 0x8000, rt_Ttbr1PhysicalAddress = 0xc000 \<rparr> = Inr pair \<and>
     unat (drop_bit 48 (tp_Ttbr1 pair)) = 63"
proof -
  let ?r = "\<lparr> rt_Ttbr0PhysicalAddress = 0x8000, rt_Ttbr1PhysicalAddress = 0xc000 \<rparr>"
  obtain pair where p: "AppleAgxUatEncodeTtbrPair 63 ?r = Inr pair"
    by (simp add: AppleAgxUatEncodeTtbrPair_def AppleAgxUatEncodeTableDescriptor_def
        word_le_nat_alt Let_def)
  with uat_ttbr_pair_decodes [OF p] show ?thesis by simp
qed

end
