(* ===== verification/UatTable.thy ===== *)
theory UatTable
  imports Uat
begin

text \<open>
  The page tables of an AGX address space,
  \<^verbatim>\<open>drivers/apple-agx/shared/src/apple_agx_uat_table.c\<close>, built without the full context-0 broker.
  A page record holds the address and the contents of its entry array, which no two pages share;
  a pointer to a page is its index in the inventory, a pointer to a leaf the pair of the page index
  and the entry index.  The page allocator is a parameter: a record of optional functions on an
  allocator state that the operations thread.  An array pointer of the inventory is an option.
\<close>

section \<open>Data\<close>

record APPLE_AGX_UAT_PAGE =
  pg_PhysicalAddress :: u64
  pg_EntriesAddress :: u64
  pg_Entries :: "u64 list"
  pg_Level :: u32

record APPLE_AGX_UAT_MAPPING =
  um_Context :: u32
  um_VirtualAddress :: u64
  um_PhysicalAddress :: u64
  um_Length :: u64
  um_Protection :: APPLE_AGX_UAT_PROTECTION
  um_PhysicalStride :: u64

record APPLE_AGX_UAT_RANGE =
  ur_VirtualAddress :: u64
  ur_PhysicalAddress :: u64
  ur_Length :: u64
  ur_Protection :: APPLE_AGX_UAT_PROTECTION

record APPLE_AGX_UAT_INVENTORY =
  inv_Pages :: "APPLE_AGX_UAT_PAGE list option"
  inv_PageCapacity :: u32
  inv_PageCount :: u32
  inv_Mappings :: "APPLE_AGX_UAT_MAPPING list option"
  inv_MappingCapacity :: u32
  inv_MappingCount :: u32

text \<open>\<open>AllocatePage\<close> gets the candidate record and returns the flag and the record it leaves.\<close>

record 'al APPLE_AGX_UAT_ALLOCATOR =
  al_AllocatePage :: "('al \<Rightarrow> APPLE_AGX_UAT_PAGE \<Rightarrow> bool \<times> APPLE_AGX_UAT_PAGE \<times> 'al) option"
  al_ReleasePage :: "('al \<Rightarrow> APPLE_AGX_UAT_PAGE \<Rightarrow> 'al) option"

abbreviation UAT_DESCRIPTOR_MASK :: u64 where "UAT_DESCRIPTOR_MASK \<equiv> 3"
abbreviation UAT_STRIDE_SCATTER :: u64 where "UAT_STRIDE_SCATTER \<equiv> 0xffffffffffffffff"

abbreviation uat_pages :: "APPLE_AGX_UAT_INVENTORY \<Rightarrow> APPLE_AGX_UAT_PAGE list" where
  "uat_pages iv \<equiv> the (inv_Pages iv)"

abbreviation uat_mappings :: "APPLE_AGX_UAT_INVENTORY \<Rightarrow> APPLE_AGX_UAT_MAPPING list" where
  "uat_mappings iv \<equiv> the (inv_Mappings iv)"

definition uat_release ::
  "'al APPLE_AGX_UAT_ALLOCATOR \<Rightarrow> 'al \<Rightarrow> APPLE_AGX_UAT_PAGE \<Rightarrow> 'al" where
  "uat_release alc al page = the (al_ReleasePage alc) al page"

definition page_clear :: "APPLE_AGX_UAT_PAGE \<Rightarrow> APPLE_AGX_UAT_PAGE" where
  "page_clear page =
     page\<lparr> pg_PhysicalAddress := 0, pg_EntriesAddress := 0, pg_Entries := [], pg_Level := 0 \<rparr>"

definition mapping_clear :: "APPLE_AGX_UAT_MAPPING \<Rightarrow> APPLE_AGX_UAT_MAPPING" where
  "mapping_clear mapping =
     mapping\<lparr> um_Context := 0, um_VirtualAddress := 0, um_PhysicalAddress := 0, um_Length := 0,
              um_Protection := AppleAgxUatProtectionNone, um_PhysicalStride := 0 \<rparr>"

text \<open>Reading and writing through a leaf pointer.\<close>

definition get_leaf :: "APPLE_AGX_UAT_INVENTORY \<Rightarrow> nat \<times> nat \<Rightarrow> u64" where
  "get_leaf iv leaf = pg_Entries (uat_pages iv ! fst leaf) ! snd leaf"

definition set_leaf ::
  "nat \<times> nat \<Rightarrow> u64 \<Rightarrow> APPLE_AGX_UAT_INVENTORY \<Rightarrow> APPLE_AGX_UAT_INVENTORY" where
  "set_leaf leaf v iv =
     iv\<lparr> inv_Pages := Some ((uat_pages iv)[fst leaf :=
            (uat_pages iv ! fst leaf)\<lparr> pg_Entries :=
               (pg_Entries (uat_pages iv ! fst leaf))[snd leaf := v] \<rparr>]) \<rparr>"

text \<open>The offsets a loop over the pages of a length visits.\<close>

definition uat_offsets :: "u64 \<Rightarrow> u64 list" where
  "uat_offsets len =
     map (\<lambda>i. of_nat i * UAT_PAGE_SIZE) [0..<(unat len + 0x3fff) div 0x4000]"

section \<open>Pages\<close>

definition AppleAgxUatCheckOwnerArguments ::
  "'al APPLE_AGX_UAT_ALLOCATOR \<Rightarrow> APPLE_AGX_UAT_INVENTORY \<Rightarrow> APPLE_AGX_UAT_RESULT" where
  "AppleAgxUatCheckOwnerArguments alc iv =
     (if al_AllocatePage alc = None \<or> al_ReleasePage alc = None \<or> inv_Pages iv = None \<or>
         inv_Mappings iv = None \<or> inv_PageCount iv > inv_PageCapacity iv \<or>
         inv_MappingCount iv > inv_MappingCapacity iv
      then AppleAgxUatResultInvalidArgument
      else AppleAgxUatResultOk)"

definition AppleAgxUatFindPage :: "APPLE_AGX_UAT_INVENTORY \<Rightarrow> u64 \<Rightarrow> u32 \<Rightarrow> nat option" where
  "AppleAgxUatFindPage iv physicalAddress level =
     find (\<lambda>index. pg_PhysicalAddress (uat_pages iv ! index) = physicalAddress \<and>
                   pg_Level (uat_pages iv ! index) = level)
       [0..<unat (inv_PageCount iv)]"

definition AppleAgxUatPageIsZero :: "APPLE_AGX_UAT_PAGE \<Rightarrow> bool" where
  "AppleAgxUatPageIsZero page = list_all (\<lambda>e. e = 0) (take 2048 (pg_Entries page))"

definition AppleAgxUatAllocateRecordedPage ::
  "u32 \<Rightarrow> 'al APPLE_AGX_UAT_ALLOCATOR \<Rightarrow> APPLE_AGX_UAT_INVENTORY \<Rightarrow> 'al
   \<Rightarrow> (APPLE_AGX_UAT_RESULT + nat) \<times> APPLE_AGX_UAT_INVENTORY \<times> 'al" where
  "AppleAgxUatAllocateRecordedPage level alc iv al =
     (if inv_PageCount iv \<ge> inv_PageCapacity iv then (Inl AppleAgxUatResultCapacity, iv, al)
      else case the (al_AllocatePage alc) al
                  \<lparr> pg_PhysicalAddress = 0, pg_EntriesAddress = 0, pg_Entries = [],
                    pg_Level = level \<rparr> of
        (ok, candidate, al1) \<Rightarrow>
          (if \<not> ok then (Inl AppleAgxUatResultAllocationFailed, iv, al1)
           else if pg_PhysicalAddress candidate = 0 \<or> pg_EntriesAddress candidate = 0 \<or>
                   pg_PhysicalAddress candidate AND UAT_PAGE_MASK \<noteq> 0 \<or>
                   pg_EntriesAddress candidate AND 7 \<noteq> 0 \<or>
                   pg_PhysicalAddress candidate \<ge> UAT_PHYSICAL_LIMIT \<or>
                   \<not> AppleAgxUatPageIsZero candidate
           then (Inl AppleAgxUatResultAllocationFailed, iv, uat_release alc al1 candidate)
           else let index = unat (inv_PageCount iv)
                in (Inr index,
                    iv\<lparr> inv_Pages :=
                           Some ((uat_pages iv)[index := candidate\<lparr> pg_Level := level \<rparr>]),
                         inv_PageCount := inv_PageCount iv + 1 \<rparr>, al1)))"

definition release_last ::
  "'al APPLE_AGX_UAT_ALLOCATOR \<Rightarrow> APPLE_AGX_UAT_INVENTORY \<times> 'al
   \<Rightarrow> APPLE_AGX_UAT_INVENTORY \<times> 'al" where
  "release_last alc s =
     (case s of (iv, al) \<Rightarrow>
        let index = unat (inv_PageCount iv - 1);
            page = uat_pages iv ! index
        in (iv\<lparr> inv_Pages := Some ((uat_pages iv)[index := page_clear page]),
                 inv_PageCount := inv_PageCount iv - 1 \<rparr>, uat_release alc al page))"

definition AppleAgxUatReleaseFrom ::
  "u32 \<Rightarrow> 'al APPLE_AGX_UAT_ALLOCATOR \<Rightarrow> APPLE_AGX_UAT_INVENTORY \<Rightarrow> 'al
   \<Rightarrow> APPLE_AGX_UAT_INVENTORY \<times> 'al" where
  "AppleAgxUatReleaseFrom firstPage alc iv al =
     (release_last alc ^^ (unat (inv_PageCount iv) - unat firstPage)) (iv, al)"

definition AppleAgxUatGetChild ::
  "nat \<Rightarrow> nat \<Rightarrow> u32 \<Rightarrow> 'al APPLE_AGX_UAT_ALLOCATOR \<Rightarrow> APPLE_AGX_UAT_INVENTORY \<Rightarrow> 'al
   \<Rightarrow> (APPLE_AGX_UAT_RESULT + nat) \<times> APPLE_AGX_UAT_INVENTORY \<times> 'al" where
  "AppleAgxUatGetChild parent entryIndex childLevel alc iv al =
     (let descriptor = get_leaf iv (parent, entryIndex)
      in if descriptor \<noteq> 0
         then if descriptor AND UAT_DESCRIPTOR_MASK \<noteq> UAT_DESCRIPTOR_MASK
              then (Inl AppleAgxUatResultAlreadyMapped, iv, al)
              else (case AppleAgxUatFindPage iv (descriptor AND UAT_ADDRESS_MASK) childLevel of
                      None \<Rightarrow> (Inl AppleAgxUatResultInvalidArgument, iv, al)
                    | Some child \<Rightarrow> (Inr child, iv, al))
         else case AppleAgxUatAllocateRecordedPage childLevel alc iv al of
                (Inl result, iv1, al1) \<Rightarrow> (Inl result, iv1, al1)
              | (Inr child, iv1, al1) \<Rightarrow>
                  (case AppleAgxUatEncodeTableDescriptor
                          (pg_PhysicalAddress (uat_pages iv1 ! child)) of
                     Inl result \<Rightarrow> (Inl result, iv1, al1)
                   | Inr d \<Rightarrow> (Inr child, set_leaf (parent, entryIndex) d iv1, al1)))"

definition level0_index :: "u64 \<Rightarrow> nat" where
  "level0_index va = unat (drop_bit 36 va AND 7)"

definition level1_index :: "u64 \<Rightarrow> nat" where
  "level1_index va = unat (drop_bit 25 va AND 2047)"

definition level2_index :: "u64 \<Rightarrow> nat" where
  "level2_index va = unat (drop_bit 14 va AND 2047)"

definition AppleAgxUatFindLeaf ::
  "nat \<Rightarrow> u64 \<Rightarrow> 'al APPLE_AGX_UAT_ALLOCATOR \<Rightarrow> APPLE_AGX_UAT_INVENTORY \<Rightarrow> 'al
   \<Rightarrow> (APPLE_AGX_UAT_RESULT + nat \<times> nat) \<times> APPLE_AGX_UAT_INVENTORY \<times> 'al" where
  "AppleAgxUatFindLeaf root va alc iv al =
     (case AppleAgxUatGetChild root (level0_index va) 1 alc iv al of
        (Inl result, iv1, al1) \<Rightarrow> (Inl result, iv1, al1)
      | (Inr level1, iv1, al1) \<Rightarrow>
          (case AppleAgxUatGetChild level1 (level1_index va) 2 alc iv1 al1 of
             (Inl result, iv2, al2) \<Rightarrow> (Inl result, iv2, al2)
           | (Inr level2, iv2, al2) \<Rightarrow> (Inr (level2, level2_index va), iv2, al2)))"

text \<open>The number of entries the walks over a table page look at.\<close>

definition entry_count :: "APPLE_AGX_UAT_PAGE \<Rightarrow> nat" where
  "entry_count page = (if pg_Level page = 0 then 8 else 2048)"

text \<open>An entry is cleared when its target is a page at or after the first new one.\<close>

definition clear_new ::
  "u32 \<Rightarrow> APPLE_AGX_UAT_INVENTORY \<Rightarrow> APPLE_AGX_UAT_PAGE \<Rightarrow> nat \<Rightarrow> u64 \<Rightarrow> u64" where
  "clear_new firstPage iv page entry_index v =
     (let target = v AND UAT_ADDRESS_MASK
      in if entry_index < entry_count page \<and>
            list_ex (\<lambda>child_index. target \<noteq> 0 \<and>
                       target = pg_PhysicalAddress (uat_pages iv ! child_index))
              [unat firstPage..<unat (inv_PageCount iv)]
         then 0 else v)"

definition AppleAgxUatClearNewParents ::
  "u32 \<Rightarrow> APPLE_AGX_UAT_INVENTORY \<Rightarrow> APPLE_AGX_UAT_INVENTORY" where
  "AppleAgxUatClearNewParents firstPage iv =
     iv\<lparr> inv_Pages := Some
       (map (\<lambda>(page_index, page).
           if page_index < unat (inv_PageCount iv) \<and> \<not> pg_Level page \<ge> 2
           then page\<lparr> pg_Entries := map (\<lambda>(i, v). clear_new firstPage iv page i v)
                                     (enumerate 0 (pg_Entries page)) \<rparr>
           else page)
         (enumerate 0 (uat_pages iv))) \<rparr>"

definition AppleAgxUatFindExistingLeaf ::
  "nat \<Rightarrow> u64 \<Rightarrow> APPLE_AGX_UAT_INVENTORY \<Rightarrow> APPLE_AGX_UAT_RESULT + nat \<times> nat" where
  "AppleAgxUatFindExistingLeaf root va iv =
     (case AppleAgxUatFindPage iv (get_leaf iv (root, level0_index va) AND UAT_ADDRESS_MASK) 1 of
        None \<Rightarrow> Inl AppleAgxUatResultInvalidArgument
      | Some level1 \<Rightarrow>
          (case AppleAgxUatFindPage iv
                  (get_leaf iv (level1, level1_index va) AND UAT_ADDRESS_MASK) 2 of
             None \<Rightarrow> Inl AppleAgxUatResultInvalidArgument
           | Some level2 \<Rightarrow> Inr (level2, level2_index va)))"

definition AppleAgxUatResolvePage ::
  "u32 \<Rightarrow> APPLE_AGX_UAT_ROOTS \<Rightarrow> u64 \<Rightarrow> APPLE_AGX_UAT_INVENTORY
   \<Rightarrow> APPLE_AGX_UAT_RESULT \<times> u64 \<times> u64" where
  "AppleAgxUatResolvePage context' roots va iv =
     (if context' \<ge> UAT_CONTEXT_COUNT then (AppleAgxUatResultInvalidArgument, 0, 0)
      else if va AND UAT_PAGE_MASK \<noteq> 0 then (AppleAgxUatResultMisaligned, 0, 0)
      else if va \<ge> UAT_LOW_LIMIT \<and> va < UAT_HIGH_BASE then (AppleAgxUatResultOutOfRange, 0, 0)
      else case AppleAgxUatFindPage iv
                  (if va < UAT_LOW_LIMIT then rt_Ttbr0PhysicalAddress roots
                   else rt_Ttbr1PhysicalAddress roots) 0 of
        None \<Rightarrow> (AppleAgxUatResultNotMapped, 0, 0)
      | Some root \<Rightarrow>
          (case AppleAgxUatFindExistingLeaf root va iv of
             Inl _ \<Rightarrow> (AppleAgxUatResultNotMapped, 0, 0)
           | Inr leaf \<Rightarrow>
               (let value = get_leaf iv leaf
                in if value AND UAT_DESCRIPTOR_MASK \<noteq> UAT_DESCRIPTOR_MASK \<or>
                      value AND UAT_ADDRESS_MASK = 0
                   then (AppleAgxUatResultNotMapped, 0, 0)
                   else (AppleAgxUatResultOk, value AND UAT_ADDRESS_MASK, value))))"

section \<open>Mapping\<close>

text \<open>A loop over leaves that clears each one that can be found.\<close>

definition clear_leaf :: "nat \<Rightarrow> u64 \<Rightarrow> APPLE_AGX_UAT_INVENTORY \<Rightarrow> APPLE_AGX_UAT_INVENTORY" where
  "clear_leaf root va iv =
     (case AppleAgxUatFindExistingLeaf root va iv of
        Inr leaf \<Rightarrow> set_leaf leaf 0 iv
      | Inl _ \<Rightarrow> iv)"

definition AppleAgxUatRollbackMap ::
  "nat \<Rightarrow> u64 \<Rightarrow> u64 \<Rightarrow> u32 \<Rightarrow> 'al APPLE_AGX_UAT_ALLOCATOR \<Rightarrow> APPLE_AGX_UAT_INVENTORY \<Rightarrow> 'al
   \<Rightarrow> APPLE_AGX_UAT_INVENTORY \<times> 'al" where
  "AppleAgxUatRollbackMap root va mappedLength firstPage alc iv al =
     (let iv1 = fold (\<lambda>offset. clear_leaf root (va + offset)) (uat_offsets mappedLength) iv
      in AppleAgxUatReleaseFrom firstPage alc (AppleAgxUatClearNewParents firstPage iv1) al)"

definition AppleAgxUatCreateAddressSpace ::
  "u32 \<Rightarrow> 'al APPLE_AGX_UAT_ALLOCATOR \<Rightarrow> APPLE_AGX_UAT_INVENTORY \<Rightarrow> 'al
   \<Rightarrow> APPLE_AGX_UAT_RESULT \<times> APPLE_AGX_UAT_ROOTS \<times> APPLE_AGX_UAT_INVENTORY \<times> 'al" where
  "AppleAgxUatCreateAddressSpace context' alc iv al =
     (let roots = \<lparr> rt_Ttbr0PhysicalAddress = 0, rt_Ttbr1PhysicalAddress = 0 \<rparr>
      in if context' \<ge> UAT_CONTEXT_COUNT then (AppleAgxUatResultUnsupportedContext, roots, iv, al)
         else let result = AppleAgxUatCheckOwnerArguments alc iv
              in if result \<noteq> AppleAgxUatResultOk then (result, roots, iv, al)
                 else let first_page = inv_PageCount iv
                      in case AppleAgxUatAllocateRecordedPage 0 alc iv al of
                        (Inl result, iv1, al1) \<Rightarrow> (result, roots, iv1, al1)
                      | (Inr root0, iv1, al1) \<Rightarrow>
                          (case AppleAgxUatAllocateRecordedPage 0 alc iv1 al1 of
                             (Inl result, iv2, al2) \<Rightarrow>
                               (case AppleAgxUatReleaseFrom first_page alc iv2 al2 of
                                  (iv3, al3) \<Rightarrow> (result, roots, iv3, al3))
                           | (Inr root1, iv2, al2) \<Rightarrow>
                               (AppleAgxUatResultOk,
                                \<lparr> rt_Ttbr0PhysicalAddress =
                                    pg_PhysicalAddress (uat_pages iv1 ! root0),
                                  rt_Ttbr1PhysicalAddress =
                                    pg_PhysicalAddress (uat_pages iv2 ! root1) \<rparr>, iv2, al2)))"

text \<open>The loops of the two map functions over the leaves of the range: \<open>backing\<close> lists the offset
  of each leaf with the physical page it gets.  A failure rolls the mapped part back.\<close>

fun map_leaves ::
  "u32 \<Rightarrow> nat \<Rightarrow> u64 \<Rightarrow> APPLE_AGX_UAT_PROTECTION \<Rightarrow> u32 \<Rightarrow> 'al APPLE_AGX_UAT_ALLOCATOR
   \<Rightarrow> (u64 \<times> u64) list \<Rightarrow> u64 \<Rightarrow> APPLE_AGX_UAT_INVENTORY \<Rightarrow> 'al
   \<Rightarrow> APPLE_AGX_UAT_RESULT \<times> APPLE_AGX_UAT_INVENTORY \<times> 'al" where
  "map_leaves context' root va protection first_page alc [] mapped_length iv al =
     (AppleAgxUatResultOk, iv, al)"
| "map_leaves context' root va protection first_page alc ((offset, pa) # backing) mapped_length iv al =
     (case AppleAgxUatFindLeaf root (va + offset) alc iv al of
        (Inl result, iv1, al1) \<Rightarrow>
          (result, AppleAgxUatRollbackMap root va mapped_length first_page alc iv1 al1)
      | (Inr leaf, iv1, al1) \<Rightarrow>
          (if get_leaf iv1 leaf \<noteq> 0
           then (AppleAgxUatResultAlreadyMapped,
                 AppleAgxUatRollbackMap root va mapped_length first_page alc iv1 al1)
           else case AppleAgxUatEncodePageDescriptor context' pa protection of
                  Inl result \<Rightarrow>
                    (result, AppleAgxUatRollbackMap root va mapped_length first_page alc iv1 al1)
                | Inr descriptor \<Rightarrow>
                    map_leaves context' root va protection first_page alc backing
                      (mapped_length + UAT_PAGE_SIZE) (set_leaf leaf descriptor iv1) al1))"

text \<open>Some recorded mapping of the context overlaps the range.\<close>

definition mapping_overlaps :: "u32 \<Rightarrow> u64 \<Rightarrow> u64 \<Rightarrow> APPLE_AGX_UAT_INVENTORY \<Rightarrow> bool" where
  "mapping_overlaps context' va len iv \<longleftrightarrow>
     list_ex (\<lambda>mapping.
         let last = va + len - 1;
             mapping_last = um_VirtualAddress mapping + um_Length mapping - 1
         in um_Context mapping = context' \<and> va \<le> mapping_last \<and>
            um_VirtualAddress mapping \<le> last)
       (take (unat (inv_MappingCount iv)) (uat_mappings iv))"

definition add_mapping ::
  "APPLE_AGX_UAT_MAPPING \<Rightarrow> APPLE_AGX_UAT_INVENTORY \<Rightarrow> APPLE_AGX_UAT_INVENTORY" where
  "add_mapping mapping iv =
     iv\<lparr> inv_Mappings := Some ((uat_mappings iv)[unat (inv_MappingCount iv) := mapping]),
         inv_MappingCount := inv_MappingCount iv + 1 \<rparr>"

definition root_of :: "APPLE_AGX_UAT_ROOTS \<Rightarrow> APPLE_AGX_UAT_HALF \<Rightarrow> u64" where
  "root_of roots half =
     (if half = AppleAgxUatTtbr0 then rt_Ttbr0PhysicalAddress roots
      else rt_Ttbr1PhysicalAddress roots)"

definition AppleAgxUatMap ::
  "u32 \<Rightarrow> APPLE_AGX_UAT_ROOTS \<Rightarrow> u64 \<Rightarrow> u64 \<Rightarrow> u64 \<Rightarrow> APPLE_AGX_UAT_PROTECTION
   \<Rightarrow> 'al APPLE_AGX_UAT_ALLOCATOR \<Rightarrow> APPLE_AGX_UAT_INVENTORY \<Rightarrow> 'al
   \<Rightarrow> APPLE_AGX_UAT_RESULT \<times> APPLE_AGX_UAT_INVENTORY \<times> 'al" where
  "AppleAgxUatMap context' roots va pa len protection alc iv al =
     (let result = AppleAgxUatCheckOwnerArguments alc iv
      in if result \<noteq> AppleAgxUatResultOk then (result, iv, al)
         else case AppleAgxUatValidateRange context' va pa len protection of
           Inl result \<Rightarrow> (result, iv, al)
         | Inr half \<Rightarrow>
             (if inv_MappingCount iv \<ge> inv_MappingCapacity iv
              then (AppleAgxUatResultCapacity, iv, al)
              else if mapping_overlaps context' va len iv
              then (AppleAgxUatResultAlreadyMapped, iv, al)
              else case AppleAgxUatFindPage iv (root_of roots half) 0 of
                None \<Rightarrow> (AppleAgxUatResultInvalidArgument, iv, al)
              | Some root \<Rightarrow>
                  (case map_leaves context' root va protection (inv_PageCount iv) alc
                          (map (\<lambda>offset. (offset, pa + offset)) (uat_offsets len)) 0 iv al of
                     (result, iv1, al1) \<Rightarrow>
                       (if result \<noteq> AppleAgxUatResultOk then (result, iv1, al1)
                        else (AppleAgxUatResultOk,
                              add_mapping \<lparr> um_Context = context', um_VirtualAddress = va,
                                um_PhysicalAddress = pa, um_Length = len,
                                um_Protection = protection,
                                um_PhysicalStride = UAT_PAGE_SIZE \<rparr> iv1, al1)))))"

text \<open>The check of every page of a page list; it leaves the half of the last page.\<close>

fun validate_pages ::
  "u32 \<Rightarrow> u64 \<Rightarrow> APPLE_AGX_UAT_PROTECTION \<Rightarrow> (u64 \<times> u64) list \<Rightarrow> APPLE_AGX_UAT_HALF
   \<Rightarrow> APPLE_AGX_UAT_RESULT + APPLE_AGX_UAT_HALF" where
  "validate_pages context' va protection [] half = Inr half"
| "validate_pages context' va protection ((offset, pa) # backing) half =
     (case AppleAgxUatValidateRange context' (va + offset) pa UAT_PAGE_SIZE protection of
        Inl result \<Rightarrow> Inl result
      | Inr half1 \<Rightarrow> validate_pages context' va protection backing half1)"

definition AppleAgxUatMapPageList ::
  "u32 \<Rightarrow> APPLE_AGX_UAT_ROOTS \<Rightarrow> u64 \<Rightarrow> u64 list \<Rightarrow> u32 \<Rightarrow> APPLE_AGX_UAT_PROTECTION
   \<Rightarrow> 'al APPLE_AGX_UAT_ALLOCATOR \<Rightarrow> APPLE_AGX_UAT_INVENTORY \<Rightarrow> 'al
   \<Rightarrow> APPLE_AGX_UAT_RESULT \<times> APPLE_AGX_UAT_INVENTORY \<times> 'al" where
  "AppleAgxUatMapPageList context' roots va physicalPages pageCount protection alc iv al =
     (if pageCount = 0 then (AppleAgxUatResultInvalidArgument, iv, al)
      else let len = ucast pageCount * UAT_PAGE_SIZE;
               backing = map (\<lambda>index. (of_nat index * UAT_PAGE_SIZE, physicalPages ! index))
                           [0..<unat pageCount];
               result = AppleAgxUatCheckOwnerArguments alc iv
           in if result \<noteq> AppleAgxUatResultOk then (result, iv, al)
              else case AppleAgxUatValidateRange context' va (physicalPages ! 0) len protection of
                Inl result \<Rightarrow> (result, iv, al)
              | Inr half0 \<Rightarrow>
                  (case validate_pages context' va protection backing half0 of
                     Inl result \<Rightarrow> (result, iv, al)
                   | Inr half \<Rightarrow>
                       (if inv_MappingCount iv \<ge> inv_MappingCapacity iv
                        then (AppleAgxUatResultCapacity, iv, al)
                        else if mapping_overlaps context' va len iv
                        then (AppleAgxUatResultAlreadyMapped, iv, al)
                        else case AppleAgxUatFindPage iv (root_of roots half) 0 of
                          None \<Rightarrow> (AppleAgxUatResultInvalidArgument, iv, al)
                        | Some root \<Rightarrow>
                            (case map_leaves context' root va protection (inv_PageCount iv) alc
                                    backing 0 iv al of
                               (result, iv1, al1) \<Rightarrow>
                                 (if result \<noteq> AppleAgxUatResultOk then (result, iv1, al1)
                                  else (AppleAgxUatResultOk,
                                        add_mapping \<lparr> um_Context = context',
                                          um_VirtualAddress = va,
                                          um_PhysicalAddress = physicalPages ! 0,
                                          um_Length = len, um_Protection = protection,
                                          um_PhysicalStride = UAT_STRIDE_SCATTER \<rparr> iv1,
                                        al1))))))"

section \<open>Unmapping\<close>

definition AppleAgxUatClearParentReference ::
  "u32 \<Rightarrow> u64 \<Rightarrow> APPLE_AGX_UAT_INVENTORY \<Rightarrow> APPLE_AGX_UAT_INVENTORY" where
  "AppleAgxUatClearParentReference childLevel childPhysicalAddress iv =
     (case find (\<lambda>entry. get_leaf iv entry AND UAT_ADDRESS_MASK = childPhysicalAddress)
             (concat (map (\<lambda>page_index. map (Pair page_index)
                                 [0..<entry_count (uat_pages iv ! page_index)])
               (filter (\<lambda>page_index. pg_Level (uat_pages iv ! page_index) + 1 = childLevel)
                 [0..<unat (inv_PageCount iv)]))) of
        None \<Rightarrow> iv
      | Some entry \<Rightarrow> set_leaf entry 0 iv)"

definition AppleAgxUatReleaseInventoryPage ::
  "nat \<Rightarrow> 'al APPLE_AGX_UAT_ALLOCATOR \<Rightarrow> APPLE_AGX_UAT_INVENTORY \<Rightarrow> 'al
   \<Rightarrow> APPLE_AGX_UAT_INVENTORY \<times> 'al" where
  "AppleAgxUatReleaseInventoryPage pageIndex alc iv al =
     (let released = uat_pages iv ! pageIndex;
          last_index = unat (inv_PageCount iv - 1);
          pages = (if pageIndex \<noteq> last_index
                   then (uat_pages iv)[pageIndex := uat_pages iv ! last_index] else uat_pages iv)
      in (iv\<lparr> inv_Pages := Some (pages[last_index := page_clear (pages ! last_index)]),
              inv_PageCount := inv_PageCount iv - 1 \<rparr>, uat_release alc al released))"

text \<open>The next page the pruning of a level removes.\<close>

definition find_empty :: "u32 \<Rightarrow> APPLE_AGX_UAT_INVENTORY \<Rightarrow> nat option" where
  "find_empty level iv =
     find (\<lambda>page_index. \<not> (pg_Level (uat_pages iv ! page_index) \<noteq> level \<or>
                            \<not> AppleAgxUatPageIsZero (uat_pages iv ! page_index)))
       [0..<unat (inv_PageCount iv)]"

lemma find_upt_less: "find P [0..<n] = Some i \<Longrightarrow> i < n \<and> P i"
  by (metis find_Some_iff atLeastLessThan_iff nth_mem set_upt)

lemma clear_parent_count [simp]:
  "inv_PageCount (AppleAgxUatClearParentReference level pa iv) = inv_PageCount iv"
  by (simp add: AppleAgxUatClearParentReference_def set_leaf_def split: option.split)

lemma release_page_count [simp]:
  "inv_PageCount (fst (AppleAgxUatReleaseInventoryPage i alc iv al)) = inv_PageCount iv - 1"
  by (simp add: AppleAgxUatReleaseInventoryPage_def Let_def)

function prune_level ::
  "u32 \<Rightarrow> 'al APPLE_AGX_UAT_ALLOCATOR \<Rightarrow> APPLE_AGX_UAT_INVENTORY \<Rightarrow> 'al
   \<Rightarrow> APPLE_AGX_UAT_INVENTORY \<times> 'al" where
  "prune_level level alc iv al =
     (case find_empty level iv of
        None \<Rightarrow> (iv, al)
      | Some page_index \<Rightarrow>
          (case AppleAgxUatReleaseInventoryPage page_index alc
                  (AppleAgxUatClearParentReference level
                     (pg_PhysicalAddress (uat_pages iv ! page_index)) iv) al of
             (iv1, al1) \<Rightarrow> prune_level level alc iv1 al1))"
  by pat_completeness auto
termination
proof (relation "measure (\<lambda>(level, alc, iv, al). unat (inv_PageCount iv))", goal_cases)
  case (2 level alc iv al page_index iv1 al1)
  then have "inv_PageCount iv1 = inv_PageCount iv - 1"
    by (metis clear_parent_count fst_conv release_page_count)
  moreover have "0 < unat (inv_PageCount iv)"
    using 2(1) find_upt_less by (fastforce simp: find_empty_def)
  ultimately show ?case by (simp add: unat_gt_0 unat_minus_one)
qed simp

declare prune_level.simps [simp del]

definition AppleAgxUatPruneEmptyTables ::
  "'al APPLE_AGX_UAT_ALLOCATOR \<Rightarrow> APPLE_AGX_UAT_INVENTORY \<Rightarrow> 'al
   \<Rightarrow> APPLE_AGX_UAT_INVENTORY \<times> 'al" where
  "AppleAgxUatPruneEmptyTables alc iv al =
     (case prune_level 2 alc iv al of (iv1, al1) \<Rightarrow> prune_level 1 alc iv1 al1)"

text \<open>The loop that checks that every leaf of a range is present.\<close>

definition leaves_present :: "nat \<Rightarrow> u64 \<Rightarrow> u64 \<Rightarrow> APPLE_AGX_UAT_INVENTORY \<Rightarrow> bool" where
  "leaves_present root va len iv \<longleftrightarrow>
     list_all (\<lambda>offset. case AppleAgxUatFindExistingLeaf root (va + offset) iv of
                          Inl _ \<Rightarrow> False
                        | Inr leaf \<Rightarrow> get_leaf iv leaf \<noteq> 0)
       (uat_offsets len)"

definition remove_mapping :: "nat \<Rightarrow> APPLE_AGX_UAT_INVENTORY \<Rightarrow> APPLE_AGX_UAT_INVENTORY" where
  "remove_mapping mapping_index iv =
     (let count = unat (inv_MappingCount iv); ms = uat_mappings iv;
          shifted = take mapping_index ms @ take (count - 1 - mapping_index)
                      (drop (mapping_index + 1) ms) @ drop (count - 1) ms
      in iv\<lparr> inv_Mappings := Some (shifted[count - 1 := mapping_clear (shifted ! (count - 1))]),
             inv_MappingCount := inv_MappingCount iv - 1 \<rparr>)"

definition AppleAgxUatUnmap ::
  "u32 \<Rightarrow> APPLE_AGX_UAT_ROOTS \<Rightarrow> u64 \<Rightarrow> u64 \<Rightarrow> 'al APPLE_AGX_UAT_ALLOCATOR
   \<Rightarrow> APPLE_AGX_UAT_INVENTORY \<Rightarrow> 'al
   \<Rightarrow> APPLE_AGX_UAT_RESULT \<times> APPLE_AGX_UAT_INVENTORY \<times> 'al" where
  "AppleAgxUatUnmap context' roots va len alc iv al =
     (let result = AppleAgxUatCheckOwnerArguments alc iv
      in if result \<noteq> AppleAgxUatResultOk then (result, iv, al)
         else case find (\<lambda>mapping_index.
                           um_Context (uat_mappings iv ! mapping_index) = context' \<and>
                           um_VirtualAddress (uat_mappings iv ! mapping_index) = va \<and>
                           um_Length (uat_mappings iv ! mapping_index) = len)
                     [0..<unat (inv_MappingCount iv)] of
           None \<Rightarrow> (AppleAgxUatResultNotMapped, iv, al)
         | Some mapping_index \<Rightarrow>
             (let mapping = uat_mappings iv ! mapping_index
              in case AppleAgxUatValidateRange context' va (um_PhysicalAddress mapping) len
                        (um_Protection mapping) of
                   Inl result \<Rightarrow> (result, iv, al)
                 | Inr half \<Rightarrow>
                     (case AppleAgxUatFindPage iv (root_of roots half) 0 of
                        None \<Rightarrow> (AppleAgxUatResultInvalidArgument, iv, al)
                      | Some root \<Rightarrow>
                          (if \<not> leaves_present root va len iv
                           then (AppleAgxUatResultNotMapped, iv, al)
                           else let iv1 = fold (\<lambda>offset. clear_leaf root (va + offset))
                                            (uat_offsets len) iv
                                in (AppleAgxUatResultOk,
                                    AppleAgxUatPruneEmptyTables alc
                                      (remove_mapping mapping_index iv1) al)))))"

section \<open>Batches\<close>

definition find_exact ::
  "u32 \<Rightarrow> APPLE_AGX_UAT_RANGE \<Rightarrow> APPLE_AGX_UAT_INVENTORY \<Rightarrow> nat option" where
  "find_exact context' range' iv =
     find (\<lambda>mapping_index. let mapping = uat_mappings iv ! mapping_index in
             um_Context mapping = context' \<and>
             um_VirtualAddress mapping = ur_VirtualAddress range' \<and>
             um_PhysicalAddress mapping = ur_PhysicalAddress range' \<and>
             um_Length mapping = ur_Length range' \<and>
             um_Protection mapping = ur_Protection range')
       [0..<unat (inv_MappingCount iv)]"

definition AppleAgxUatValidateExactMapping ::
  "u32 \<Rightarrow> APPLE_AGX_UAT_ROOTS \<Rightarrow> APPLE_AGX_UAT_RANGE \<Rightarrow> APPLE_AGX_UAT_INVENTORY
   \<Rightarrow> APPLE_AGX_UAT_RESULT" where
  "AppleAgxUatValidateExactMapping context' roots range' iv =
     (case AppleAgxUatValidateRange context' (ur_VirtualAddress range')
             (ur_PhysicalAddress range') (ur_Length range') (ur_Protection range') of
        Inl result \<Rightarrow> result
      | Inr half \<Rightarrow>
          (if find_exact context' range' iv = None then AppleAgxUatResultNotMapped
           else case AppleAgxUatFindPage iv (root_of roots half) 0 of
                  None \<Rightarrow> AppleAgxUatResultInvalidArgument
                | Some root \<Rightarrow>
                    (if \<not> leaves_present root (ur_VirtualAddress range') (ur_Length range') iv
                     then AppleAgxUatResultNotMapped
                     else AppleAgxUatResultOk)))"

text \<open>The unwinding of a failed batch: the ranges mapped so far, the last one first; the results
  are ignored.\<close>

fun unmap_back ::
  "u32 \<Rightarrow> APPLE_AGX_UAT_ROOTS \<Rightarrow> 'al APPLE_AGX_UAT_ALLOCATOR \<Rightarrow> APPLE_AGX_UAT_RANGE list
   \<Rightarrow> APPLE_AGX_UAT_INVENTORY \<Rightarrow> 'al \<Rightarrow> APPLE_AGX_UAT_INVENTORY \<times> 'al" where
  "unmap_back context' roots alc [] iv al = (iv, al)"
| "unmap_back context' roots alc (range' # done) iv al =
     (case AppleAgxUatUnmap context' roots (ur_VirtualAddress range') (ur_Length range') alc iv al of
        (_, iv1, al1) \<Rightarrow> unmap_back context' roots alc done iv1 al1)"

fun map_ranges ::
  "u32 \<Rightarrow> APPLE_AGX_UAT_ROOTS \<Rightarrow> 'al APPLE_AGX_UAT_ALLOCATOR \<Rightarrow> APPLE_AGX_UAT_RANGE list
   \<Rightarrow> APPLE_AGX_UAT_RANGE list \<Rightarrow> APPLE_AGX_UAT_INVENTORY \<Rightarrow> 'al
   \<Rightarrow> APPLE_AGX_UAT_RESULT \<times> APPLE_AGX_UAT_INVENTORY \<times> 'al" where
  "map_ranges context' roots alc done [] iv al = (AppleAgxUatResultOk, iv, al)"
| "map_ranges context' roots alc done (range' # ranges) iv al =
     (case AppleAgxUatMap context' roots (ur_VirtualAddress range') (ur_PhysicalAddress range')
             (ur_Length range') (ur_Protection range') alc iv al of
        (result, iv1, al1) \<Rightarrow>
          (if result \<noteq> AppleAgxUatResultOk
           then (result, unmap_back context' roots alc done iv1 al1)
           else map_ranges context' roots alc (range' # done) ranges iv1 al1))"

definition AppleAgxUatMapBatch ::
  "u32 \<Rightarrow> APPLE_AGX_UAT_ROOTS \<Rightarrow> APPLE_AGX_UAT_RANGE list \<Rightarrow> u32
   \<Rightarrow> 'al APPLE_AGX_UAT_ALLOCATOR \<Rightarrow> APPLE_AGX_UAT_INVENTORY \<Rightarrow> 'al
   \<Rightarrow> APPLE_AGX_UAT_RESULT \<times> APPLE_AGX_UAT_INVENTORY \<times> 'al" where
  "AppleAgxUatMapBatch context' roots ranges rangeCount alc iv al =
     (if rangeCount = 0 then (AppleAgxUatResultInvalidArgument, iv, al)
      else let result = AppleAgxUatCheckOwnerArguments alc iv
           in if result \<noteq> AppleAgxUatResultOk then (result, iv, al)
              else if rangeCount > inv_MappingCapacity iv - inv_MappingCount iv
              then (AppleAgxUatResultCapacity, iv, al)
              else map_ranges context' roots alc [] (take (unat rangeCount) ranges) iv al)"

fun validate_ranges ::
  "u32 \<Rightarrow> APPLE_AGX_UAT_ROOTS \<Rightarrow> APPLE_AGX_UAT_RANGE list \<Rightarrow> APPLE_AGX_UAT_INVENTORY
   \<Rightarrow> APPLE_AGX_UAT_RESULT" where
  "validate_ranges context' roots [] iv = AppleAgxUatResultOk"
| "validate_ranges context' roots (range' # ranges) iv =
     (let result = AppleAgxUatValidateExactMapping context' roots range' iv
      in if result \<noteq> AppleAgxUatResultOk then result
         else validate_ranges context' roots ranges iv)"

fun unmap_ranges ::
  "u32 \<Rightarrow> APPLE_AGX_UAT_ROOTS \<Rightarrow> 'al APPLE_AGX_UAT_ALLOCATOR \<Rightarrow> APPLE_AGX_UAT_RANGE list
   \<Rightarrow> APPLE_AGX_UAT_INVENTORY \<Rightarrow> 'al
   \<Rightarrow> APPLE_AGX_UAT_RESULT \<times> APPLE_AGX_UAT_INVENTORY \<times> 'al" where
  "unmap_ranges context' roots alc [] iv al = (AppleAgxUatResultOk, iv, al)"
| "unmap_ranges context' roots alc (range' # ranges) iv al =
     (case AppleAgxUatUnmap context' roots (ur_VirtualAddress range') (ur_Length range') alc iv al of
        (result, iv1, al1) \<Rightarrow>
          (if result \<noteq> AppleAgxUatResultOk then (result, iv1, al1)
           else unmap_ranges context' roots alc ranges iv1 al1))"

definition AppleAgxUatUnmapBatch ::
  "u32 \<Rightarrow> APPLE_AGX_UAT_ROOTS \<Rightarrow> APPLE_AGX_UAT_RANGE list \<Rightarrow> u32
   \<Rightarrow> 'al APPLE_AGX_UAT_ALLOCATOR \<Rightarrow> APPLE_AGX_UAT_INVENTORY \<Rightarrow> 'al
   \<Rightarrow> APPLE_AGX_UAT_RESULT \<times> APPLE_AGX_UAT_INVENTORY \<times> 'al" where
  "AppleAgxUatUnmapBatch context' roots ranges rangeCount alc iv al =
     (if rangeCount = 0 then (AppleAgxUatResultInvalidArgument, iv, al)
      else let result = AppleAgxUatCheckOwnerArguments alc iv
           in if result \<noteq> AppleAgxUatResultOk then (result, iv, al)
              else let rs = take (unat rangeCount) ranges;
                       valid = validate_ranges context' roots rs iv
                   in if valid \<noteq> AppleAgxUatResultOk then (valid, iv, al)
                      else unmap_ranges context' roots alc rs iv al)"

text \<open>A replacement names the old range and the new backing: \<open>(old, new)\<close>.  The validation of both
  replace functions, with the ranges seen before the current one.\<close>

fun validate_replacements ::
  "u32 \<Rightarrow> APPLE_AGX_UAT_ROOTS \<Rightarrow> (APPLE_AGX_UAT_RANGE \<times> APPLE_AGX_UAT_RANGE) list
   \<Rightarrow> APPLE_AGX_UAT_RANGE list \<Rightarrow> APPLE_AGX_UAT_INVENTORY \<Rightarrow> APPLE_AGX_UAT_RESULT" where
  "validate_replacements context' roots [] earlier iv = AppleAgxUatResultOk"
| "validate_replacements context' roots ((old, new) # rs) earlier iv =
     (if ur_VirtualAddress old \<noteq> ur_VirtualAddress new \<or> ur_Length old \<noteq> ur_Length new
      then AppleAgxUatResultInvalidArgument
      else let result = AppleAgxUatValidateExactMapping context' roots old iv
           in if result \<noteq> AppleAgxUatResultOk then result
              else case AppleAgxUatValidateRange context' (ur_VirtualAddress new)
                          (ur_PhysicalAddress new) (ur_Length new) (ur_Protection new) of
                     Inl result \<Rightarrow> result
                   | Inr _ \<Rightarrow>
                       (if list_ex (\<lambda>e. ur_VirtualAddress e = ur_VirtualAddress old \<and>
                                        ur_Length e = ur_Length old) earlier
                        then AppleAgxUatResultInvalidArgument
                        else validate_replacements context' roots rs (earlier @ [old]) iv))"

text \<open>Rewriting the leaves of one range; the physical page of a leaf is \<open>pa\<close> plus its offset times
  the stride of the mapping, one page or none.  A leaf that cannot be found is left out: the code
  would store through a null pointer there, and the validation before the loop rules it out.\<close>

definition write_leaf ::
  "u32 \<Rightarrow> nat \<Rightarrow> u64 \<Rightarrow> u64 \<Rightarrow> APPLE_AGX_UAT_PROTECTION \<Rightarrow> APPLE_AGX_UAT_INVENTORY
   \<Rightarrow> APPLE_AGX_UAT_INVENTORY" where
  "write_leaf context' root va pa protection iv =
     (case AppleAgxUatFindExistingLeaf root va iv of
        Inl _ \<Rightarrow> iv
      | Inr leaf \<Rightarrow>
          set_leaf leaf
            (case AppleAgxUatEncodePageDescriptor context' pa protection of
               Inl _ \<Rightarrow> 0
             | Inr descriptor \<Rightarrow> descriptor) iv)"

definition set_backing ::
  "nat \<Rightarrow> u64 \<Rightarrow> APPLE_AGX_UAT_PROTECTION \<Rightarrow> u64 \<Rightarrow> APPLE_AGX_UAT_INVENTORY
   \<Rightarrow> APPLE_AGX_UAT_INVENTORY" where
  "set_backing mapping_index pa protection stride iv =
     iv\<lparr> inv_Mappings := Some ((uat_mappings iv)[mapping_index :=
           (uat_mappings iv ! mapping_index)\<lparr> um_PhysicalAddress := pa,
              um_Protection := protection, um_PhysicalStride := stride \<rparr>]) \<rparr>"

fun replace_ranges ::
  "u32 \<Rightarrow> APPLE_AGX_UAT_ROOTS \<Rightarrow> u64 \<Rightarrow> (APPLE_AGX_UAT_RANGE \<times> APPLE_AGX_UAT_RANGE) list
   \<Rightarrow> APPLE_AGX_UAT_INVENTORY \<Rightarrow> APPLE_AGX_UAT_RESULT \<times> APPLE_AGX_UAT_INVENTORY" where
  "replace_ranges context' roots stride [] iv = (AppleAgxUatResultOk, iv)"
| "replace_ranges context' roots stride ((old, new) # rs) iv =
     (case find_exact context' old iv of
        None \<Rightarrow> (AppleAgxUatResultNotMapped, iv)
      | Some mapping_index \<Rightarrow>
          (case AppleAgxUatValidateRange context' (ur_VirtualAddress new)
                  (ur_PhysicalAddress new) (ur_Length new) (ur_Protection new) of
             Inl result \<Rightarrow> (result, iv)
           | Inr half \<Rightarrow>
               (case AppleAgxUatFindPage iv (root_of roots half) 0 of
                  None \<Rightarrow> (AppleAgxUatResultNotMapped, iv)
                | Some root \<Rightarrow>
                    replace_ranges context' roots stride rs
                      (set_backing mapping_index (ur_PhysicalAddress new) (ur_Protection new) stride
                        (fold (\<lambda>offset. write_leaf context' root (ur_VirtualAddress new + offset)
                                  (if stride = 0 then ur_PhysicalAddress new
                                   else ur_PhysicalAddress new + offset) (ur_Protection new))
                          (uat_offsets (ur_Length new)) iv)))))"

definition AppleAgxUatReplaceBatchWithPage ::
  "u32 \<Rightarrow> APPLE_AGX_UAT_ROOTS \<Rightarrow> APPLE_AGX_UAT_RANGE list \<Rightarrow> u32 \<Rightarrow> u64
   \<Rightarrow> APPLE_AGX_UAT_PROTECTION \<Rightarrow> 'al APPLE_AGX_UAT_ALLOCATOR \<Rightarrow> APPLE_AGX_UAT_INVENTORY
   \<Rightarrow> APPLE_AGX_UAT_RESULT \<times> APPLE_AGX_UAT_INVENTORY" where
  "AppleAgxUatReplaceBatchWithPage context' roots ranges rangeCount pa protection alc iv =
     (if rangeCount = 0 then (AppleAgxUatResultInvalidArgument, iv)
      else let result = AppleAgxUatCheckOwnerArguments alc iv
           in if result \<noteq> AppleAgxUatResultOk then (result, iv)
              else if pa AND UAT_PAGE_MASK \<noteq> 0 then (AppleAgxUatResultMisaligned, iv)
              else let rs = map (\<lambda>r. (r, r\<lparr> ur_PhysicalAddress := pa,
                                              ur_Protection := protection \<rparr>))
                              (take (unat rangeCount) ranges);
                       valid = validate_replacements context' roots rs [] iv
                   in if valid \<noteq> AppleAgxUatResultOk then (valid, iv)
                      else replace_ranges context' roots 0 rs iv)"

definition AppleAgxUatReplaceBatch ::
  "u32 \<Rightarrow> APPLE_AGX_UAT_ROOTS \<Rightarrow> APPLE_AGX_UAT_RANGE list \<Rightarrow> APPLE_AGX_UAT_RANGE list \<Rightarrow> u32
   \<Rightarrow> 'al APPLE_AGX_UAT_ALLOCATOR \<Rightarrow> APPLE_AGX_UAT_INVENTORY
   \<Rightarrow> APPLE_AGX_UAT_RESULT \<times> APPLE_AGX_UAT_INVENTORY" where
  "AppleAgxUatReplaceBatch context' roots oldRanges newRanges rangeCount alc iv =
     (if rangeCount = 0 then (AppleAgxUatResultInvalidArgument, iv)
      else let result = AppleAgxUatCheckOwnerArguments alc iv
           in if result \<noteq> AppleAgxUatResultOk then (result, iv)
              else let rs = take (unat rangeCount) (zip oldRanges newRanges);
                       valid = validate_replacements context' roots rs [] iv
                   in if valid \<noteq> AppleAgxUatResultOk then (valid, iv)
                      else replace_ranges context' roots UAT_PAGE_SIZE rs iv)"

definition AppleAgxUatDestroy ::
  "'al APPLE_AGX_UAT_ALLOCATOR \<Rightarrow> APPLE_AGX_UAT_INVENTORY \<Rightarrow> 'al
   \<Rightarrow> APPLE_AGX_UAT_INVENTORY \<times> 'al" where
  "AppleAgxUatDestroy alc iv al =
     (if al_ReleasePage alc = None then (iv, al)
      else case AppleAgxUatReleaseFrom 0 alc iv al of
        (iv1, al1) \<Rightarrow>
          (iv1\<lparr> inv_Mappings := Some
                   (map mapping_clear (take (unat (inv_MappingCount iv1)) (uat_mappings iv1)) @
                    drop (unat (inv_MappingCount iv1)) (uat_mappings iv1)),
                inv_MappingCount := 0 \<rparr>, al1))"

section \<open>Access to pages\<close>

abbreviation npages :: "APPLE_AGX_UAT_INVENTORY \<Rightarrow> nat" where
  "npages iv \<equiv> unat (inv_PageCount iv)"

abbreviation page_pa :: "APPLE_AGX_UAT_INVENTORY \<Rightarrow> nat \<Rightarrow> u64" where
  "page_pa iv i \<equiv> pg_PhysicalAddress (uat_pages iv ! i)"

abbreviation page_level :: "APPLE_AGX_UAT_INVENTORY \<Rightarrow> nat \<Rightarrow> u32" where
  "page_level iv i \<equiv> pg_Level (uat_pages iv ! i)"

lemma and_7_less: "unat (w AND 7 :: u64) < 8"
proof -
  have "unat (w AND 7) \<le> unat (7::u64)" by (simp only: word_le_nat_alt [symmetric] word_and_le1)
  then show ?thesis by simp
qed

lemma and_2047_less: "unat (w AND 2047 :: u64) < 2048"
proof -
  have "unat (w AND 2047) \<le> unat (2047::u64)"
    by (simp only: word_le_nat_alt [symmetric] word_and_le1)
  then show ?thesis by simp
qed

lemma level_index_less [simp]:
  "level0_index va < 8" "level0_index va < 2048" "level1_index va < 2048" "level2_index va < 2048"
proof -
  show "level0_index va < 8" unfolding level0_index_def by (rule and_7_less)
  then show "level0_index va < 2048" by simp
  show "level1_index va < 2048" "level2_index va < 2048"
    unfolding level1_index_def level2_index_def by (rule and_2047_less)+
qed

lemma set_leaf_frame [simp]:
  "inv_PageCount (set_leaf l v iv) = inv_PageCount iv"
  "inv_PageCapacity (set_leaf l v iv) = inv_PageCapacity iv"
  "inv_Mappings (set_leaf l v iv) = inv_Mappings iv"
  "inv_MappingCount (set_leaf l v iv) = inv_MappingCount iv"
  "inv_MappingCapacity (set_leaf l v iv) = inv_MappingCapacity iv"
  "length (uat_pages (set_leaf l v iv)) = length (uat_pages iv)"
  "page_pa (set_leaf l v iv) i = page_pa iv i"
  "page_level (set_leaf l v iv) i = page_level iv i"
  "pg_EntriesAddress (uat_pages (set_leaf l v iv) ! i) = pg_EntriesAddress (uat_pages iv ! i)"
  "length (pg_Entries (uat_pages (set_leaf l v iv) ! i)) = length (pg_Entries (uat_pages iv ! i))"
  "inv_Pages (set_leaf l v iv) \<noteq> None"
  by (cases "i = fst l"; cases "fst l < length (uat_pages iv)";
      simp add: set_leaf_def nth_list_update list_update_beyond)+

lemma get_set_leaf:
  assumes "fst l < length (uat_pages iv)" and "snd l < length (pg_Entries (uat_pages iv ! fst l))"
  shows "get_leaf (set_leaf l v iv) m = (if m = l then v else get_leaf iv m)"
  using assms by (cases l; cases m) (auto simp: get_leaf_def set_leaf_def nth_list_update)

lemma set_leaf_other_page:
  "i \<noteq> fst l \<Longrightarrow> uat_pages (set_leaf l v iv) ! i = uat_pages iv ! i"
  by (simp add: set_leaf_def)

lemma FindPage_Some:
  "AppleAgxUatFindPage iv pa l = Some i \<Longrightarrow>
   i < npages iv \<and> page_pa iv i = pa \<and> page_level iv i = l"
  unfolding AppleAgxUatFindPage_def by (drule find_upt_less) simp

lemma FindPage_frame:
  assumes "inv_PageCount iv' = inv_PageCount iv"
    and "\<And>i. i < npages iv \<Longrightarrow> page_pa iv' i = page_pa iv i \<and> page_level iv' i = page_level iv i"
  shows "AppleAgxUatFindPage iv' pa l = AppleAgxUatFindPage iv pa l"
  unfolding AppleAgxUatFindPage_def using assms by (intro find_cong) auto

lemma FindPage_set_leaf [simp]:
  "AppleAgxUatFindPage (set_leaf x v iv) pa l = AppleAgxUatFindPage iv pa l"
  by (rule FindPage_frame) simp_all

section \<open>Well-formed page tables\<close>

text \<open>Live pages have distinct, aligned, nonzero addresses and whole entry arrays; every used entry
  of a table page is a table descriptor of a live page of the next level; unused slots are clear.\<close>

definition page_ok :: "APPLE_AGX_UAT_PAGE \<Rightarrow> bool" where
  "page_ok page \<longleftrightarrow>
     pg_PhysicalAddress page \<noteq> 0 \<and> pg_PhysicalAddress page AND UAT_ADDRESS_MASK = pg_PhysicalAddress page \<and>
     pg_Level page \<le> 2 \<and> length (pg_Entries page) = 2048"

definition page_zero :: APPLE_AGX_UAT_PAGE where
  "page_zero = \<lparr> pg_PhysicalAddress = 0, pg_EntriesAddress = 0, pg_Entries = [], pg_Level = 0 \<rparr>"

lemma page_clear_zero [simp]: "page_clear page = page_zero"
  by (simp add: page_clear_def page_zero_def)

definition entry_ok :: "APPLE_AGX_UAT_INVENTORY \<Rightarrow> nat \<Rightarrow> nat \<Rightarrow> bool" where
  "entry_ok iv i e \<longleftrightarrow>
     get_leaf iv (i, e) \<noteq> 0 \<longrightarrow>
       get_leaf iv (i, e) AND UAT_DESCRIPTOR_MASK = UAT_DESCRIPTOR_MASK \<and>
       (\<exists>j<npages iv. page_pa iv j = get_leaf iv (i, e) AND UAT_ADDRESS_MASK \<and>
          page_level iv j = page_level iv i + 1)"

definition uat_wf :: "APPLE_AGX_UAT_INVENTORY \<Rightarrow> bool" where
  "uat_wf iv \<longleftrightarrow>
     inv_Pages iv \<noteq> None \<and> length (uat_pages iv) = unat (inv_PageCapacity iv) \<and>
     npages iv \<le> length (uat_pages iv) \<and>
     (\<forall>i<npages iv. page_ok (uat_pages iv ! i)) \<and>
     (\<forall>i<npages iv. \<forall>j<npages iv. page_pa iv i = page_pa iv j \<longrightarrow> i = j) \<and>
     (\<forall>i<npages iv. page_level iv i < 2 \<longrightarrow>
        (\<forall>e<entry_count (uat_pages iv ! i). entry_ok iv i e)) \<and>
     (\<forall>i. npages iv \<le> i \<longrightarrow> i < length (uat_pages iv) \<longrightarrow> uat_pages iv ! i = page_zero)"

lemma uat_wf_page:
  assumes "uat_wf iv" and "i < npages iv"
  shows "page_ok (uat_pages iv ! i)" and "i < length (uat_pages iv)"
    and "page_pa iv i \<noteq> 0" and "length (pg_Entries (uat_pages iv ! i)) = 2048"
    and "page_pa iv i AND UAT_ADDRESS_MASK = page_pa iv i"
  using assms by (auto simp: uat_wf_def page_ok_def)

lemma uat_wf_distinct:
  "uat_wf iv \<Longrightarrow> i < npages iv \<Longrightarrow> j < npages iv \<Longrightarrow> page_pa iv i = page_pa iv j \<Longrightarrow> i = j"
  by (simp add: uat_wf_def)

lemma FindPage_wf:
  assumes "uat_wf iv" and "i < npages iv" and "page_pa iv i = pa" and "page_level iv i = l"
  shows "AppleAgxUatFindPage iv pa l = Some i"
proof (cases "AppleAgxUatFindPage iv pa l")
  case None
  with assms(2-4) show ?thesis by (auto simp: AppleAgxUatFindPage_def find_None_iff)
next
  case (Some j)
  with FindPage_Some [OF Some] uat_wf_distinct [OF assms(1,2), of j] assms(3) show ?thesis by simp
qed

lemma uat_wf_set_leaf:
  assumes "uat_wf iv" and i: "i < npages iv" and e: "e < 2048"
    and ok: "page_level iv i < 2 \<Longrightarrow> e < entry_count (uat_pages iv ! i) \<Longrightarrow> v \<noteq> 0 \<Longrightarrow>
      v AND UAT_DESCRIPTOR_MASK = UAT_DESCRIPTOR_MASK \<and>
      (\<exists>j<npages iv. page_pa iv j = v AND UAT_ADDRESS_MASK \<and>
         page_level iv j = page_level iv i + 1)"
  shows "uat_wf (set_leaf (i, e) v iv)"
proof -
  let ?iv = "set_leaf (i, e) v iv"
  note get = get_set_leaf [of "(i, e)" iv, simplified, OF uat_wf_page(2) [OF assms(1,2)]]
  have g: "get_leaf ?iv m = (if m = (i, e) then v else get_leaf iv m)" for m
    using e by (intro get) (simp add: uat_wf_page(4) [OF assms(1,2)])
  have pok: "page_ok (uat_pages ?iv ! k) = page_ok (uat_pages iv ! k)" for k
    by (simp add: page_ok_def)
  have ec: "entry_count (uat_pages ?iv ! k) = entry_count (uat_pages iv ! k)" for k
    by (simp add: entry_count_def)
  have beyond: "uat_pages ?iv ! k = uat_pages iv ! k" if "npages iv \<le> k" for k
    using that i by (intro set_leaf_other_page) auto
  have eok: "entry_ok ?iv k e'" if "k < npages iv" "page_level iv k < 2"
    "e' < entry_count (uat_pages iv ! k)" for k e'
    using assms(1) that ok unfolding uat_wf_def entry_ok_def g
    by (auto simp: entry_ok_def)
  show ?thesis
    using assms(1) unfolding uat_wf_def
    by (simp only: set_leaf_frame pok ec) (auto simp: eok beyond)
qed

section \<open>Allocating pages\<close>

text \<open>What the code relies on of the allocator: a page it hands out is not already in use and comes
  with an array of 2048 entries, and a page it is given back is no longer in use.  \<open>live\<close> reads the
  set of pages in use from the allocator state.\<close>

definition page_source :: "'al APPLE_AGX_UAT_ALLOCATOR \<Rightarrow> ('al \<Rightarrow> u64 set) \<Rightarrow> bool" where
  "page_source alc live \<longleftrightarrow>
     (\<forall>al candidate ok page al1. the (al_AllocatePage alc) al candidate = (ok, page, al1) \<longrightarrow>
        (if ok then pg_PhysicalAddress page \<notin> live al \<and> length (pg_Entries page) = 2048 \<and>
                    live al1 = insert (pg_PhysicalAddress page) (live al)
         else live al1 = live al)) \<and>
     (\<forall>al page. live (uat_release alc al page) = live al - {pg_PhysicalAddress page})"

definition uat_owned :: "('al \<Rightarrow> u64 set) \<Rightarrow> APPLE_AGX_UAT_INVENTORY \<Rightarrow> 'al \<Rightarrow> bool" where
  "uat_owned live iv al \<longleftrightarrow> (\<forall>i<npages iv. page_pa iv i \<in> live al)"

definition add_page :: "APPLE_AGX_UAT_PAGE \<Rightarrow> APPLE_AGX_UAT_INVENTORY \<Rightarrow> APPLE_AGX_UAT_INVENTORY" where
  "add_page page iv = iv\<lparr> inv_Pages := Some ((uat_pages iv)[npages iv := page]),
                          inv_PageCount := inv_PageCount iv + 1 \<rparr>"

lemma page_zero_entries: "AppleAgxUatPageIsZero page \<Longrightarrow> length (pg_Entries page) = 2048 \<Longrightarrow>
  e < 2048 \<Longrightarrow> pg_Entries page ! e = 0"
  by (simp add: AppleAgxUatPageIsZero_def list_all_length)

lemma alloc_spec:
  assumes "AppleAgxUatAllocateRecordedPage level alc iv al = (r, iv1, al1)"
    and "page_source alc live" and "uat_wf iv" and "level \<le> 2"
  obtains (fail) res where "r = Inl res" "res \<noteq> AppleAgxUatResultOk" "iv1 = iv" "live al1 = live al"
  | (ok) page where "r = Inr (npages iv)" "iv1 = add_page page iv" "npages iv < length (uat_pages iv)"
      "page_ok page" "pg_Level page = level" "\<forall>e<2048. pg_Entries page ! e = 0"
      "pg_PhysicalAddress page \<notin> live al" "live al1 = insert (pg_PhysicalAddress page) (live al)"
      "unat (inv_PageCount iv + 1) = Suc (npages iv)"
proof (cases "inv_PageCount iv \<ge> inv_PageCapacity iv")
  case True
  with assms(1) show ?thesis by (intro fail) (auto simp: AppleAgxUatAllocateRecordedPage_def)
next
  case False
  then have lt: "npages iv < unat (inv_PageCapacity iv)" by (simp add: word_le_nat_alt)
  obtain ok c al2 where
    a: "the (al_AllocatePage alc) al
          \<lparr> pg_PhysicalAddress = 0, pg_EntriesAddress = 0, pg_Entries = [], pg_Level = level \<rparr>
        = (ok, c, al2)" by (metis prod_cases3)
  have src: "if ok then pg_PhysicalAddress c \<notin> live al \<and> length (pg_Entries c) = 2048 \<and>
                  live al2 = insert (pg_PhysicalAddress c) (live al) else live al2 = live al"
    using assms(2) a unfolding page_source_def by blast
  have rel: "live (uat_release alc al2 c) = live al2 - {pg_PhysicalAddress c}"
    using assms(2) unfolding page_source_def by blast
  let ?bad = "pg_PhysicalAddress c = 0 \<or> pg_EntriesAddress c = 0 \<or>
    pg_PhysicalAddress c AND UAT_PAGE_MASK \<noteq> 0 \<or> pg_EntriesAddress c AND 7 \<noteq> 0 \<or>
    pg_PhysicalAddress c \<ge> UAT_PHYSICAL_LIMIT \<or> \<not> AppleAgxUatPageIsZero c"
  show ?thesis
  proof (cases "ok \<and> \<not> ?bad")
    case True
    let ?p = "c\<lparr> pg_Level := level \<rparr>"
    have "pg_PhysicalAddress c AND UAT_ADDRESS_MASK = pg_PhysicalAddress c"
      using True by (intro page_address_mask) auto
    then have "page_ok ?p" using True src assms(4) by (simp add: page_ok_def)
    moreover have "\<forall>e<2048. pg_Entries ?p ! e = 0"
      using True src page_zero_entries [of c] by simp
    moreover have "r = Inr (npages iv)" "iv1 = add_page ?p iv" "al1 = al2"
      using assms(1) False a True
      by (auto simp: AppleAgxUatAllocateRecordedPage_def add_page_def Let_def)
    moreover have "npages iv < length (uat_pages iv)"
      using lt assms(3) by (simp add: uat_wf_def)
    ultimately show ?thesis
      using src True unat_Suc_no_wrap [OF lt] by (intro ok [of ?p]) auto
  next
    case bad: False
    with assms(1) False a src rel show ?thesis
      by (intro fail) (auto simp: AppleAgxUatAllocateRecordedPage_def split: if_splits)
  qed
qed

lemma add_page_simps:
  assumes "npages iv < length (uat_pages iv)"
  shows "i < npages iv \<Longrightarrow> uat_pages (add_page page iv) ! i = uat_pages iv ! i"
    and "uat_pages (add_page page iv) ! npages iv = page"
    and "length (uat_pages (add_page page iv)) = length (uat_pages iv)"
    and "i < npages iv \<Longrightarrow> get_leaf (add_page page iv) (i, e) = get_leaf iv (i, e)"
    and "npages iv < k \<Longrightarrow> uat_pages (add_page page iv) ! k = uat_pages iv ! k"
    and "get_leaf (add_page page iv) (npages iv, e) = pg_Entries page ! e"
  using assms by (auto simp: add_page_def get_leaf_def)

lemma uat_wf_add_page:
  assumes wf: "uat_wf iv" and lt: "npages iv < length (uat_pages iv)"
    and c: "unat (inv_PageCount iv + 1) = Suc (npages iv)"
    and p: "page_ok page" "\<forall>e<2048. pg_Entries page ! e = 0"
    and new: "\<forall>i<npages iv. page_pa iv i \<noteq> pg_PhysicalAddress page"
  shows "uat_wf (add_page page iv)"
proof -
  let ?iv = "add_page page iv"
  have n: "npages ?iv = Suc (npages iv)" using c by (simp add: add_page_def)
  note s = add_page_simps [OF lt]
  have eok: "entry_ok ?iv i e" if "i < npages iv" "entry_ok iv i e" for i e
    using that unfolding entry_ok_def s(4) [OF that(1)] n
    by (metis less_Suc_eq s(1))
  have e0: "entry_ok ?iv (npages iv) e" if "e < 2048" for e
    using that p(2) by (simp add: entry_ok_def s)
  have cap: "inv_PageCapacity ?iv = inv_PageCapacity iv" "inv_Pages ?iv \<noteq> None"
    by (simp_all add: add_page_def)
  have ec: "entry_count page \<le> 2048" by (simp add: entry_count_def)
  show ?thesis
    unfolding uat_wf_def n s(3) cap(1)
  proof (intro conjI allI impI)
    show "inv_Pages ?iv \<noteq> None" by (rule cap)
    show "length (uat_pages iv) = unat (inv_PageCapacity iv)" using wf by (simp add: uat_wf_def)
    show "Suc (npages iv) \<le> length (uat_pages iv)" using lt by simp
    fix i assume i: "i < Suc (npages iv)"
    show "page_ok (uat_pages ?iv ! i)"
      using i wf p(1) by (cases "i = npages iv") (auto simp: s uat_wf_def)
    show "entry_ok ?iv i e" if "page_level ?iv i < 2" "e < entry_count (uat_pages ?iv ! i)" for e
      using i that eok e0 ec wf by (cases "i = npages iv") (auto simp: s uat_wf_def)
    show "i = j" if "j < Suc (npages iv)" "page_pa ?iv i = page_pa ?iv j" for j
      using i that new uat_wf_distinct [OF wf, of i j]
      by (cases "i = npages iv"; cases "j = npages iv") (auto simp: s less_Suc_eq)
  next
    fix k assume "Suc (npages iv) \<le> k" "k < length (uat_pages iv)"
    then show "uat_pages ?iv ! k = page_zero" using wf by (simp add: s uat_wf_def)
  qed
qed

section \<open>Growing tables\<close>

text \<open>A table that has only grown: its pages are kept and its used entries unchanged.\<close>

definition uat_ext :: "APPLE_AGX_UAT_INVENTORY \<Rightarrow> APPLE_AGX_UAT_INVENTORY \<Rightarrow> bool" where
  "uat_ext iv iv1 \<longleftrightarrow>
     npages iv \<le> npages iv1 \<and>
     (\<forall>i<npages iv. page_pa iv1 i = page_pa iv i \<and> page_level iv1 i = page_level iv i \<and>
        (\<forall>e<2048. get_leaf iv (i, e) \<noteq> 0 \<longrightarrow> get_leaf iv1 (i, e) = get_leaf iv (i, e)))"

lemma uat_ext_refl [simp]: "uat_ext iv iv"
  by (simp add: uat_ext_def)

lemma uat_ext_trans: "uat_ext iv iv1 \<Longrightarrow> uat_ext iv1 iv2 \<Longrightarrow> uat_ext iv iv2"
  unfolding uat_ext_def
  by (intro conjI allI impI) (auto dest!: spec dest: less_le_trans order_trans)

lemma uat_ext_add_page:
  assumes "npages iv < length (uat_pages iv)" and "unat (inv_PageCount iv + 1) = Suc (npages iv)"
  shows "uat_ext iv (add_page page iv)"
  using assms(2) add_page_simps [OF assms(1)] by (simp add: uat_ext_def add_page_def)

lemma uat_ext_set_leaf:
  assumes "uat_wf iv" and "i < npages iv" and "e < 2048" and "get_leaf iv (i, e) = 0"
  shows "uat_ext iv (set_leaf (i, e) v iv)"
  using assms get_set_leaf [of "(i, e)" iv v] uat_wf_page [OF assms(1,2)]
  by (auto simp: uat_ext_def)

lemma FindPage_ext:
  assumes "AppleAgxUatFindPage iv pa l = Some i" and "uat_ext iv iv1" and "uat_wf iv1"
  shows "AppleAgxUatFindPage iv1 pa l = Some i"
proof (rule FindPage_wf [OF assms(3)])
  show "i < npages iv1" "page_pa iv1 i = pa" "page_level iv1 i = l"
    using FindPage_Some [OF assms(1)] assms(2) by (auto simp: uat_ext_def)
qed

lemma FindPage_entry_nz:
  assumes "AppleAgxUatFindPage iv (v AND UAT_ADDRESS_MASK) l = Some i" and "uat_wf iv"
  shows "v \<noteq> 0"
  using FindPage_Some [OF assms(1)] uat_wf_page(3) [OF assms(2)] by auto

lemma FindExistingLeaf_Inr:
  assumes "AppleAgxUatFindExistingLeaf root va iv = Inr leaf"
  obtains level1 level2 where
    "AppleAgxUatFindPage iv (get_leaf iv (root, level0_index va) AND UAT_ADDRESS_MASK) 1 = Some level1"
    "AppleAgxUatFindPage iv (get_leaf iv (level1, level1_index va) AND UAT_ADDRESS_MASK) 2 = Some level2"
    "leaf = (level2, level2_index va)"
  using assms by (auto simp: AppleAgxUatFindExistingLeaf_def split: option.splits)

lemma FindExistingLeaf_page:
  assumes "AppleAgxUatFindExistingLeaf root va iv = Inr (i, e)"
  shows "i < npages iv" and "page_level iv i = 2" and "e < 2048"
proof -
  from FindExistingLeaf_Inr [OF assms] obtain l1 l2 where
    f: "AppleAgxUatFindPage iv (get_leaf iv (l1, level1_index va) AND UAT_ADDRESS_MASK) 2 = Some l2"
      "(i, e) = (l2, level2_index va)" .
  then show "i < npages iv" "page_level iv i = 2" "e < 2048"
    using FindPage_Some [OF f(1)] by simp_all
qed

lemma FindExistingLeaf_ext:
  assumes "AppleAgxUatFindExistingLeaf root va iv = Inr leaf" and "uat_ext iv iv1"
    and "uat_wf iv" and "uat_wf iv1" and "root < npages iv"
  shows "AppleAgxUatFindExistingLeaf root va iv1 = Inr leaf"
proof -
  from FindExistingLeaf_Inr [OF assms(1)] obtain l1 l2 where
    f: "AppleAgxUatFindPage iv (get_leaf iv (root, level0_index va) AND UAT_ADDRESS_MASK) 1 = Some l1"
      "AppleAgxUatFindPage iv (get_leaf iv (l1, level1_index va) AND UAT_ADDRESS_MASK) 2 = Some l2"
      "leaf = (l2, level2_index va)" .
  have "get_leaf iv1 (root, level0_index va) = get_leaf iv (root, level0_index va)"
    using FindPage_entry_nz [OF f(1) assms(3)] assms(2,5) by (simp add: uat_ext_def)
  moreover have "get_leaf iv1 (l1, level1_index va) = get_leaf iv (l1, level1_index va)"
    using FindPage_entry_nz [OF f(2) assms(3)] assms(2) FindPage_Some [OF f(1)]
    by (simp add: uat_ext_def)
  ultimately show ?thesis
    unfolding AppleAgxUatFindExistingLeaf_def
    by (simp add: f(3) FindPage_ext [OF f(1) assms(2,4)] FindPage_ext [OF f(2) assms(2,4)])
qed

section \<open>Growth since a starting point\<close>

text \<open>
  The tables while a map is under way.  Since the start, pages were added and entries that were zero
  were used: in table pages for the new pages, in leaf pages for the offsets mapped so far; every
  offset mapped so far has its leaf, and the allocator has handed out exactly the new pages.
\<close>

definition uat_frame where
  "uat_frame iv = (inv_Pages iv = None, inv_PageCapacity iv, inv_Mappings iv, inv_MappingCapacity iv,
     inv_MappingCount iv)"

lemma uat_frame_steps [simp]:
  "inv_Pages iv \<noteq> None \<Longrightarrow> uat_frame (set_leaf x v iv) = uat_frame iv"
  "inv_Pages iv \<noteq> None \<Longrightarrow> uat_frame (add_page page iv) = uat_frame iv"
  by (simp_all add: uat_frame_def add_page_def)

definition used_entry ::
  "nat \<Rightarrow> u64 \<Rightarrow> u64 list \<Rightarrow> APPLE_AGX_UAT_INVENTORY \<Rightarrow> APPLE_AGX_UAT_INVENTORY \<Rightarrow> nat \<Rightarrow> nat \<Rightarrow> bool" where
  "used_entry root va offs iv0 iv i e \<longleftrightarrow>
     get_leaf iv0 (i, e) = 0 \<and>
     (if page_level iv0 i < 2
      then e < entry_count (uat_pages iv0 ! i) \<and>
           (\<exists>j. npages iv0 \<le> j \<and> j < npages iv \<and>
                page_pa iv j = get_leaf iv (i, e) AND UAT_ADDRESS_MASK)
      else \<exists>ofs\<in>set offs. AppleAgxUatFindExistingLeaf root (va + ofs) iv = Inr (i, e))"

definition uat_grown ::
  "('al \<Rightarrow> u64 set) \<Rightarrow> nat \<Rightarrow> u64 \<Rightarrow> u64 list \<Rightarrow> APPLE_AGX_UAT_INVENTORY \<Rightarrow> 'al
   \<Rightarrow> APPLE_AGX_UAT_INVENTORY \<Rightarrow> 'al \<Rightarrow> bool" where
  "uat_grown live root va offs iv0 al0 iv al \<longleftrightarrow>
     uat_wf iv \<and> uat_frame iv = uat_frame iv0 \<and>
     npages iv0 \<le> npages iv \<and> length (uat_pages iv) = length (uat_pages iv0) \<and>
     (\<forall>i<npages iv0. page_pa iv i = page_pa iv0 i \<and> page_level iv i = page_level iv0 i \<and>
        pg_EntriesAddress (uat_pages iv ! i) = pg_EntriesAddress (uat_pages iv0 ! i)) \<and>
     (\<forall>i<npages iv0. \<forall>e<2048. get_leaf iv (i, e) = get_leaf iv0 (i, e) \<or>
        used_entry root va offs iv0 iv i e) \<and>
     (\<forall>ofs\<in>set offs. \<exists>i e. AppleAgxUatFindExistingLeaf root (va + ofs) iv = Inr (i, e) \<and>
        get_leaf iv (i, e) \<noteq> 0 \<and> (i < npages iv0 \<longrightarrow> get_leaf iv0 (i, e) = 0)) \<and>
     live al = live al0 \<union> page_pa iv ` {npages iv0..<npages iv} \<and>
     (\<forall>j. npages iv0 \<le> j \<longrightarrow> j < npages iv \<longrightarrow> page_pa iv j \<notin> live al0)"

lemma uat_grown_start: "uat_wf iv \<Longrightarrow> uat_grown live root va [] iv al iv al"
  by (simp add: uat_grown_def)

lemma uat_grown_wf: "uat_grown live root va offs iv0 al0 iv al \<Longrightarrow> uat_wf iv"
  by (simp add: uat_grown_def)

lemma uat_grown_ext: "uat_grown live root va offs iv0 al0 iv al \<Longrightarrow> uat_ext iv0 iv"
  by (auto simp: uat_grown_def uat_ext_def used_entry_def)

lemma uat_grown_owned:
  assumes "uat_grown live root va offs iv0 al0 iv al" and "uat_owned live iv0 al0"
  shows "uat_owned live iv al"
  unfolding uat_owned_def
proof (intro allI impI)
  fix i assume i: "i < npages iv"
  show "page_pa iv i \<in> live al"
  proof (cases "i < npages iv0")
    case True
    with assms show ?thesis by (simp add: uat_grown_def uat_owned_def)
  next
    case False
    with i assms(1) show ?thesis by (simp add: uat_grown_def not_less)
  qed
qed

lemma used_entry_ext:
  assumes "used_entry root va offs iv0 iv i e" and "uat_ext iv iv1" and "uat_wf iv" and "uat_wf iv1"
    and "root < npages iv" and "get_leaf iv1 (i, e) = get_leaf iv (i, e)"
  shows "used_entry root va offs iv0 iv1 i e"
proof -
  have "npages iv \<le> npages iv1" "\<And>j. j < npages iv \<Longrightarrow> page_pa iv1 j = page_pa iv j"
    using assms(2) by (auto simp: uat_ext_def)
  note e = this
  note f = FindExistingLeaf_ext [OF _ assms(2-5)]
  show ?thesis
  proof (cases "page_level iv0 i < 2")
    case True
    with assms(1) obtain j where "npages iv0 \<le> j" "j < npages iv"
      "page_pa iv j = get_leaf iv (i, e) AND UAT_ADDRESS_MASK" "get_leaf iv0 (i, e) = 0"
      "e < entry_count (uat_pages iv0 ! i)"
      by (auto simp: used_entry_def)
    with True e assms(6) show ?thesis by (auto simp: used_entry_def intro!: exI [of _ j])
  next
    case False
    with assms(1) f show ?thesis by (auto simp: used_entry_def)
  qed
qed

text \<open>Every step of growth extends the tables; it changes old entries only into used ones.\<close>

lemma uat_grown_step:
  assumes g: "uat_grown live root va offs iv0 al0 iv al" and root: "root < npages iv0"
    and wf: "uat_wf iv1" and ext: "uat_ext iv iv1"
    and frame: "uat_frame iv1 = uat_frame iv"
      "length (uat_pages iv1) = length (uat_pages iv)"
      "\<And>i. i < npages iv0 \<Longrightarrow>
         pg_EntriesAddress (uat_pages iv1 ! i) = pg_EntriesAddress (uat_pages iv ! i)"
    and entries: "\<And>i e. i < npages iv0 \<Longrightarrow> e < 2048 \<Longrightarrow>
       get_leaf iv1 (i, e) \<noteq> get_leaf iv (i, e) \<Longrightarrow> used_entry root va (offs @ offs1) iv0 iv1 i e"
    and offs1: "\<And>ofs. ofs \<in> set offs1 \<Longrightarrow>
       \<exists>i e. AppleAgxUatFindExistingLeaf root (va + ofs) iv1 = Inr (i, e) \<and>
        get_leaf iv1 (i, e) \<noteq> 0 \<and> (i < npages iv0 \<longrightarrow> get_leaf iv0 (i, e) = 0)"
    and new: "live al1 = live al \<union> page_pa iv1 ` {npages iv..<npages iv1}"
      "\<And>j. npages iv \<le> j \<Longrightarrow> j < npages iv1 \<Longrightarrow> page_pa iv1 j \<notin> live al"
  shows "uat_grown live root va (offs @ offs1) iv0 al0 iv1 al1"
proof -
  have n: "npages iv0 \<le> npages iv" "npages iv \<le> npages iv1"
    using g ext by (simp_all add: uat_grown_def uat_ext_def)
  have rt: "root < npages iv" using root n(1) by simp
  have wf0: "uat_wf iv" using g by (rule uat_grown_wf)
  have pa: "\<And>i. i < npages iv \<Longrightarrow> page_pa iv1 i = page_pa iv i \<and> page_level iv1 i = page_level iv i"
    using ext by (simp add: uat_ext_def)
  have ent: "get_leaf iv1 (i, e) = get_leaf iv0 (i, e) \<or> used_entry root va (offs @ offs1) iv0 iv1 i e"
    if "i < npages iv0" "e < 2048" for i e
  proof (cases "get_leaf iv1 (i, e) = get_leaf iv (i, e)")
    case True
    have "get_leaf iv (i, e) = get_leaf iv0 (i, e) \<or> used_entry root va offs iv0 iv i e"
      using g that by (simp add: uat_grown_def)
    with True used_entry_ext [OF _ ext wf0 wf rt True, of va offs iv0] show ?thesis
      by (auto simp: used_entry_def split: if_splits)
  next
    case False
    with entries that show ?thesis by blast
  qed
  have leaf: "\<exists>i e. AppleAgxUatFindExistingLeaf root (va + ofs) iv1 = Inr (i, e) \<and>
        get_leaf iv1 (i, e) \<noteq> 0 \<and> (i < npages iv0 \<longrightarrow> get_leaf iv0 (i, e) = 0)"
    if "ofs \<in> set offs" for ofs
  proof -
    have "\<exists>i e. AppleAgxUatFindExistingLeaf root (va + ofs) iv = Inr (i, e) \<and>
        get_leaf iv (i, e) \<noteq> 0 \<and> (i < npages iv0 \<longrightarrow> get_leaf iv0 (i, e) = 0)"
      using g that unfolding uat_grown_def by (elim conjE) (erule bspec)
    then obtain i e where
      f: "AppleAgxUatFindExistingLeaf root (va + ofs) iv = Inr (i, e)"
      "get_leaf iv (i, e) \<noteq> 0" "i < npages iv0 \<longrightarrow> get_leaf iv0 (i, e) = 0"
      by (elim exE conjE)
    have "get_leaf iv1 (i, e) = get_leaf iv (i, e)"
      using ext f(2) FindExistingLeaf_page [OF f(1)] by (simp add: uat_ext_def)
    with f FindExistingLeaf_ext [OF f(1) ext wf0 wf rt] show ?thesis by auto
  qed
  have split: "{npages iv0..<npages iv1} = {npages iv0..<npages iv} \<union> {npages iv..<npages iv1}"
    using n by auto
  have im: "page_pa iv1 ` {npages iv0..<npages iv} = page_pa iv ` {npages iv0..<npages iv}"
    by (rule image_cong) (simp_all add: pa)
  have live: "live al1 = live al0 \<union> page_pa iv1 ` {npages iv0..<npages iv1}"
    using g new(1) unfolding split image_Un im by (simp add: uat_grown_def Un_assoc)
  have fresh: "page_pa iv1 j \<notin> live al0" if "npages iv0 \<le> j" "j < npages iv1" for j
    using g that pa new(2) by (cases "j < npages iv") (auto simp: uat_grown_def)
  have fr: "uat_frame iv1 = uat_frame iv0"
    using g frame(1) by (simp add: uat_grown_def)
  have len: "length (uat_pages iv1) = length (uat_pages iv0)"
    using g frame(2) by (simp add: uat_grown_def)
  have meta: "page_pa iv1 i = page_pa iv0 i \<and> page_level iv1 i = page_level iv0 i \<and>
        pg_EntriesAddress (uat_pages iv1 ! i) = pg_EntriesAddress (uat_pages iv0 ! i)"
    if "i < npages iv0" for i
    using g pa [of i] frame(3) [OF that] that n(1) by (simp add: uat_grown_def)
  have leafs: "\<forall>ofs\<in>set offs \<union> set offs1. \<exists>i e.
      AppleAgxUatFindExistingLeaf root (va + ofs) iv1 = Inr (i, e) \<and>
      get_leaf iv1 (i, e) \<noteq> 0 \<and> (i < npages iv0 \<longrightarrow> get_leaf iv0 (i, e) = 0)"
    by (rule ballI, erule UnE, erule leaf, erule offs1)
  have "npages iv0 \<le> npages iv1" using n by simp
  then show ?thesis
    unfolding uat_grown_def set_append
    by (intro conjI wf fr len live leafs allI impI ent fresh) (simp_all add: meta)
qed

lemma uat_grown_live:
  "uat_grown live root va offs iv0 al0 iv al \<Longrightarrow> live al1 = live al \<Longrightarrow>
   uat_grown live root va offs iv0 al0 iv al1"
  by (simp add: uat_grown_def)

lemma encode_table_ok:
  assumes "page_ok page"
  obtains d where "AppleAgxUatEncodeTableDescriptor (pg_PhysicalAddress page) = Inr d"
    and "d AND UAT_ADDRESS_MASK = pg_PhysicalAddress page"
    and "d AND UAT_DESCRIPTOR_MASK = UAT_DESCRIPTOR_MASK" and "d \<noteq> 0"
proof -
  let ?pa = "pg_PhysicalAddress page"
  have m: "?pa AND UAT_ADDRESS_MASK = ?pa" "?pa \<noteq> 0" using assms by (simp_all add: page_ok_def)
  have "?pa AND UAT_PAGE_MASK = 0" by (rule page_address_and [OF m(1)]) simp
  moreover have "?pa \<le> UAT_ADDRESS_MASK" using word_and_le1 [of ?pa UAT_ADDRESS_MASK] m(1) by simp
  then have "\<not> ?pa \<ge> UAT_PHYSICAL_LIMIT" by (simp add: word_le_nat_alt)
  ultimately obtain d where d: "AppleAgxUatEncodeTableDescriptor ?pa = Inr d"
    by (simp add: AppleAgxUatEncodeTableDescriptor_def)
  have "d \<noteq> 0" using encode_table_address(1) [OF d] m(2) by auto
  with d encode_table_address [OF d] show thesis by (intro that)
qed

lemma GetChild_grown:
  assumes gc: "AppleAgxUatGetChild parent e lvl alc iv al = (r, iv1, al1)"
    and g: "uat_grown live root va offs iv0 al0 iv al" and own: "uat_owned live iv0 al0"
    and src: "page_source alc live" and root: "root < npages iv0"
    and p: "parent < npages iv" "page_level iv parent < 2" "lvl = page_level iv parent + 1"
    and e: "e < entry_count (uat_pages iv ! parent)"
  shows "uat_grown live root va offs iv0 al0 iv1 al1 \<and> uat_ext iv iv1 \<and>
         (\<forall>res. r = Inl res \<longrightarrow> res \<noteq> AppleAgxUatResultOk) \<and>
         (\<forall>c. r = Inr c \<longrightarrow>
            AppleAgxUatFindPage iv1 (get_leaf iv1 (parent, e) AND UAT_ADDRESS_MASK) lvl = Some c)"
proof (cases "get_leaf iv (parent, e) = 0")
  case False
  with gc g show ?thesis
    by (auto simp: AppleAgxUatGetChild_def Let_def split: if_splits option.splits)
next
  case zero: True
  note wf = uat_grown_wf [OF g]
  have e2: "e < 2048" using e by (auto simp: entry_count_def split: if_splits)
  have lvl: "lvl \<le> 2" "page_level iv parent + 1 = lvl"
    using p(2,3) by (simp_all add: word_le_nat_alt word_less_nat_alt unat_Suc_no_wrap [of _ 2])
  obtain r0 iv2 al2 where a: "AppleAgxUatAllocateRecordedPage lvl alc iv al = (r0, iv2, al2)"
    by (metis prod_cases3)
  from a src wf lvl(1) show ?thesis
  proof (cases rule: alloc_spec)
    case (fail res)
    with gc zero a have "r = Inl res" "iv1 = iv" "al1 = al2"
      by (auto simp: AppleAgxUatGetChild_def)
    with fail g uat_grown_live [OF g] show ?thesis by simp
  next
    case (ok page)
    from encode_table_ok [OF ok(4)] obtain d where
      d: "AppleAgxUatEncodeTableDescriptor (pg_PhysicalAddress page) = Inr d"
      "d AND UAT_ADDRESS_MASK = pg_PhysicalAddress page"
      "d AND UAT_DESCRIPTOR_MASK = UAT_DESCRIPTOR_MASK" "d \<noteq> 0" .
    let ?n = "npages iv" and ?x = "(parent, e)"
    note s = add_page_simps [OF ok(3)]
    have n2: "npages iv2 = Suc ?n" using ok(2,9) by (simp add: add_page_def)
    have r: "r = Inr ?n" "iv1 = set_leaf ?x d iv2" "al1 = al2"
      using gc zero a ok(1,2) d(1) by (auto simp: AppleAgxUatGetChild_def s)
    have new: "\<forall>i<?n. page_pa iv i \<noteq> pg_PhysicalAddress page"
      using uat_grown_owned [OF g own] ok(7) by (auto simp: uat_owned_def)
    have wf2: "uat_wf iv2"
      unfolding ok(2) by (rule uat_wf_add_page [OF wf ok(3,9,4,6) new])
    have p2: "parent < npages iv2" "page_level iv2 parent = page_level iv parent"
      "get_leaf iv2 ?x = 0"
      using p(1) n2 zero by (simp_all add: ok(2) s)
    have last: "page_pa iv2 ?n = pg_PhysicalAddress page" "page_level iv2 ?n = lvl"
      using ok(5) by (simp_all add: ok(2) s)
    have wf1: "uat_wf iv1"
      unfolding r(2)
      by (rule uat_wf_set_leaf [OF wf2 p2(1) e2]) (use d last n2 lvl p2 in auto)
    have ext2: "uat_ext iv iv2" unfolding ok(2) by (rule uat_ext_add_page [OF ok(3,9)])
    have ext: "uat_ext iv iv1"
      unfolding r(2) by (rule uat_ext_trans [OF ext2 uat_ext_set_leaf [OF wf2 p2(1) e2 p2(3)]])
    have get: "get_leaf iv1 m = (if m = ?x then d else get_leaf iv2 m)" for m
      using get_set_leaf [of ?x iv2 d m] uat_wf_page [OF wf2 p2(1)] e2 by (simp add: r(2))
    have d1: "get_leaf iv1 ?x = d" by (simp add: get)
    have l1: "get_leaf iv1 ?x = d" "page_pa iv1 ?n = pg_PhysicalAddress page"
      "page_level iv1 ?n = lvl" "npages iv1 = Suc ?n"
      using last n2 d1 by (simp_all add: r(2))
    have n0: "npages iv0 \<le> ?n" using g by (simp add: uat_grown_def)
    have used: "used_entry root va (offs @ []) iv0 iv1 i e'"
      if i: "i < npages iv0" and e': "e' < 2048"
        and ne: "get_leaf iv1 (i, e') \<noteq> get_leaf iv (i, e')" for i e'
    proof -
      have ii: "i = parent" "e' = e"
        using ne i n0 s(4) [of i page e'] by (auto simp: get ok(2) split: if_splits)
      have "get_leaf iv0 (i, e) = 0"
        using g i zero e2 unfolding uat_grown_def used_entry_def ii by metis
      moreover have "page_level iv0 i = page_level iv i" using g i by (simp add: uat_grown_def)
      ultimately show ?thesis
        using p(2) e d n0 l1 ii by (auto simp: used_entry_def entry_count_def intro!: exI [of _ ?n])
    qed
    have Pages: "inv_Pages iv \<noteq> None" "inv_Pages iv2 \<noteq> None"
      using wf wf2 by (simp_all add: uat_wf_def)
    have "uat_grown live root va (offs @ []) iv0 al0 iv1 al1"
    proof (rule uat_grown_step [OF g root wf1 ext _ _ _ used])
      show "uat_frame iv1 = uat_frame iv" using Pages by (simp add: r(2) ok(2))
      show "length (uat_pages iv1) = length (uat_pages iv)" by (simp add: r(2) ok(2) s)
      show "pg_EntriesAddress (uat_pages iv1 ! i) = pg_EntriesAddress (uat_pages iv ! i)"
        if "i < npages iv0" for i using that n0 by (simp add: r(2) ok(2) s)
      show "live al1 = live al \<union> page_pa iv1 ` {?n..<npages iv1}"
        using ok(8) last(1) n2 by (simp add: r)
      show "page_pa iv1 j \<notin> live al" if "?n \<le> j" "j < npages iv1" for j
        using that ok(7) last(1) n2 by (simp add: r le_Suc_eq less_Suc_eq)
    qed auto
    moreover have "AppleAgxUatFindPage iv1 (get_leaf iv1 ?x AND UAT_ADDRESS_MASK) lvl = Some ?n"
      using l1 d(2) by (intro FindPage_wf [OF wf1]) simp_all
    ultimately show ?thesis using ext r(1) by simp
  qed
qed

lemma FindLeaf_grown:
  assumes fl: "AppleAgxUatFindLeaf root v alc iv al = (r, iv1, al1)"
    and g: "uat_grown live root va offs iv0 al0 iv al" and own: "uat_owned live iv0 al0"
    and src: "page_source alc live" and root: "root < npages iv0" "page_level iv0 root = 0"
  shows "uat_grown live root va offs iv0 al0 iv1 al1 \<and> uat_ext iv iv1 \<and>
         (\<forall>res. r = Inl res \<longrightarrow> res \<noteq> AppleAgxUatResultOk) \<and>
         (\<forall>leaf. r = Inr leaf \<longrightarrow> AppleAgxUatFindExistingLeaf root v iv1 = Inr leaf)"
proof -
  have rt: "root < npages iv" "page_level iv root = 0"
    using g root by (simp_all add: uat_grown_def)
  obtain r0 iv2 al2 where c: "AppleAgxUatGetChild root (level0_index v) 1 alc iv al = (r0, iv2, al2)"
    by (metis prod_cases3)
  from GetChild_grown [OF c g own src root(1) rt(1)] rt(2) have
    c1: "uat_grown live root va offs iv0 al0 iv2 al2" "uat_ext iv iv2"
      "\<forall>res. r0 = Inl res \<longrightarrow> res \<noteq> AppleAgxUatResultOk"
      "\<forall>c. r0 = Inr c \<longrightarrow> AppleAgxUatFindPage iv2
         (get_leaf iv2 (root, level0_index v) AND UAT_ADDRESS_MASK) 1 = Some c"
    by (simp_all add: entry_count_def)
  show ?thesis
  proof (cases r0)
    case (Inl res)
    with fl c c1 show ?thesis by (auto simp: AppleAgxUatFindLeaf_def)
  next
    case (Inr l1)
    with c1(4) have f1: "AppleAgxUatFindPage iv2
        (get_leaf iv2 (root, level0_index v) AND UAT_ADDRESS_MASK) 1 = Some l1" by simp
    have p1: "l1 < npages iv2" "page_level iv2 l1 < 2" "2 = page_level iv2 l1 + 1"
      "level1_index v < entry_count (uat_pages iv2 ! l1)"
      using FindPage_Some [OF f1] by (simp_all add: entry_count_def)
    obtain r2 iv3 al3 where
      c3: "AppleAgxUatGetChild l1 (level1_index v) 2 alc iv2 al2 = (r2, iv3, al3)"
      by (metis prod_cases3)
    from GetChild_grown [OF c3 c1(1) own src root(1) p1] have
      c2: "uat_grown live root va offs iv0 al0 iv3 al3" "uat_ext iv2 iv3"
        "\<forall>res. r2 = Inl res \<longrightarrow> res \<noteq> AppleAgxUatResultOk"
        "\<forall>c. r2 = Inr c \<longrightarrow> AppleAgxUatFindPage iv3
           (get_leaf iv3 (l1, level1_index v) AND UAT_ADDRESS_MASK) 2 = Some c"
      by blast+
    have wf2: "uat_wf iv2" and wf3: "uat_wf iv3"
      using c1(1) c2(1) by (simp_all add: uat_grown_wf)
    have r: "iv1 = iv3" "al1 = al3" "r = (case r2 of Inl res \<Rightarrow> Inl res | Inr c \<Rightarrow> Inr (c, level2_index v))"
      using fl c c3 Inr by (auto simp: AppleAgxUatFindLeaf_def split: sum.splits)
    have "root < npages iv2" using rt(1) c1(2) by (simp add: uat_ext_def)
    then have "get_leaf iv3 (root, level0_index v) = get_leaf iv2 (root, level0_index v)"
      using c2(2) FindPage_entry_nz [OF f1 wf2] by (simp add: uat_ext_def)
    then have "AppleAgxUatFindPage iv3
        (get_leaf iv3 (root, level0_index v) AND UAT_ADDRESS_MASK) 1 = Some l1"
      using FindPage_ext [OF f1 c2(2) wf3] by simp
    note f13 = this
    have "\<forall>leaf. r = Inr leaf \<longrightarrow> AppleAgxUatFindExistingLeaf root v iv1 = Inr leaf"
    proof (cases r2)
      case (Inr c)
      with c2(4) have f2: "AppleAgxUatFindPage iv3
          (get_leaf iv3 (l1, level1_index v) AND UAT_ADDRESS_MASK) 2 = Some c" by simp
      show ?thesis
        unfolding r(1,3) Inr AppleAgxUatFindExistingLeaf_def f13 option.case f2 by simp
    qed (simp add: r(3))
    moreover have "\<forall>res. r = Inl res \<longrightarrow> res \<noteq> AppleAgxUatResultOk"
      using c2(3) by (simp add: r split: sum.splits)
    ultimately show ?thesis using c2(1) uat_ext_trans [OF c1(2) c2(2)] r by simp
  qed
qed

text \<open>Leaf pages hold no table entries, so walks do not see them change.\<close>

lemma FindExistingLeaf_set_leaf:
  assumes "page_level iv i = 2" and "page_level iv root = 0"
  shows "AppleAgxUatFindExistingLeaf root v (set_leaf (i, e) x iv) =
         AppleAgxUatFindExistingLeaf root v iv"
proof -
  have g: "get_leaf (set_leaf (i, e) x iv) (k, e') = get_leaf iv (k, e')"
    if "page_level iv k \<noteq> 2" for k e'
    using that assms(1) by (cases "k = i") (auto simp: get_leaf_def set_leaf_other_page)
  have "page_level iv l1 = 1" if "AppleAgxUatFindPage iv pa 1 = Some l1" for pa l1
    using FindPage_Some [OF that] by simp
  with assms(2) show ?thesis
    by (auto simp: AppleAgxUatFindExistingLeaf_def g split: option.split)
qed

lemma SetLeaf_grown:
  assumes g: "uat_grown live root va offs iv0 al0 iv al" and own: "uat_owned live iv0 al0"
    and root: "root < npages iv0" "page_level iv0 root = 0"
    and f: "AppleAgxUatFindExistingLeaf root (va + ofs) iv = Inr leaf"
    and z: "get_leaf iv leaf = 0" and d: "d \<noteq> 0"
  shows "uat_grown live root va (offs @ [ofs]) iv0 al0 (set_leaf leaf d iv) al \<and>
         uat_ext iv (set_leaf leaf d iv) \<and>
         AppleAgxUatFindExistingLeaf root (va + ofs) (set_leaf leaf d iv) = Inr leaf \<and>
         get_leaf (set_leaf leaf d iv) leaf = d"
proof -
  obtain i e where l: "leaf = (i, e)" by (cases leaf)
  note p = FindExistingLeaf_page [OF f [unfolded l]]
  note wf = uat_grown_wf [OF g]
  have rt: "page_level iv root = 0" using g root by (simp add: uat_grown_def)
  let ?iv = "set_leaf (i, e) d iv"
  have get: "get_leaf ?iv m = (if m = (i, e) then d else get_leaf iv m)" for m
    using get_set_leaf [of "(i, e)" iv d m] uat_wf_page [OF wf p(1)] p(3) by simp
  have ext: "uat_ext iv ?iv"
    using z l by (intro uat_ext_set_leaf [OF wf p(1,3)]) simp
  have wf1: "uat_wf ?iv" by (rule uat_wf_set_leaf [OF wf p(1,3)]) (simp add: p(2))
  have f1: "AppleAgxUatFindExistingLeaf root (va + ofs) ?iv = Inr (i, e)"
    using f l by (simp add: FindExistingLeaf_set_leaf [OF p(2) rt])
  have z0: "get_leaf iv0 (i, e) = 0" if "i < npages iv0"
    using g that p(3) z l unfolding uat_grown_def used_entry_def by metis
  have "uat_grown live root va (offs @ [ofs]) iv0 al0 ?iv al"
  proof (rule uat_grown_step [OF g root(1) wf1 ext])
    show "uat_frame ?iv = uat_frame iv" using wf by (simp add: uat_wf_def)
    show "used_entry root va (offs @ [ofs]) iv0 ?iv k e'"
      if "k < npages iv0" "get_leaf ?iv (k, e') \<noteq> get_leaf iv (k, e')" for k e'
    proof -
      have "k = i" "e' = e" using that(2) by (auto simp: get split: if_splits)
      moreover have "page_level iv0 k = page_level iv k" using g that(1) by (simp add: uat_grown_def)
      ultimately show ?thesis using that(1) z0 f1 p(2) by (simp add: used_entry_def)
    qed
    show "\<exists>i e. AppleAgxUatFindExistingLeaf root (va + ofs') ?iv = Inr (i, e) \<and>
        get_leaf ?iv (i, e) \<noteq> 0 \<and> (i < npages iv0 \<longrightarrow> get_leaf iv0 (i, e) = 0)"
      if "ofs' \<in> set [ofs]" for ofs'
      using that f1 z0 d by (intro exI [of _ i] exI [of _ e]) (simp add: get)
  qed simp_all
  with ext f1 show ?thesis by (simp add: l get)
qed

section \<open>Rolling back\<close>

lemma clear_leaves:
  assumes "uat_wf iv" and "page_level iv root = 0"
  shows "let iv1 = fold (\<lambda>ofs. clear_leaf root (va + ofs)) offs iv in
         uat_wf iv1 \<and> uat_frame iv1 = uat_frame iv \<and> inv_PageCount iv1 = inv_PageCount iv \<and>
         length (uat_pages iv1) = length (uat_pages iv) \<and>
         (\<forall>i. page_pa iv1 i = page_pa iv i \<and> page_level iv1 i = page_level iv i \<and>
            pg_EntriesAddress (uat_pages iv1 ! i) = pg_EntriesAddress (uat_pages iv ! i)) \<and>
         (\<forall>i e. get_leaf iv1 (i, e) =
            (if \<exists>ofs\<in>set offs. AppleAgxUatFindExistingLeaf root (va + ofs) iv = Inr (i, e)
             then 0 else get_leaf iv (i, e)))"
  using assms
proof (induction offs arbitrary: iv)
  case Nil
  then show ?case by simp
next
  case (Cons ofs offs)
  show ?case
  proof (cases "AppleAgxUatFindExistingLeaf root (va + ofs) iv")
    case (Inl res)
    then show ?thesis using Cons.IH [OF Cons.prems] by (simp add: clear_leaf_def Let_def)
  next
    case (Inr leaf)
    obtain i e where l: "leaf = (i, e)" by (cases leaf)
    note p = FindExistingLeaf_page [OF Inr [unfolded l]]
    let ?iv = "set_leaf (i, e) 0 iv"
    have wf1: "uat_wf ?iv" by (rule uat_wf_set_leaf [OF Cons.prems(1) p(1,3)]) (simp add: p(2))
    have get: "get_leaf ?iv m = (if m = (i, e) then 0 else get_leaf iv m)" for m
      using get_set_leaf [of "(i, e)" iv 0 m] uat_wf_page [OF Cons.prems(1) p(1)] p(3) by simp
    have st: "fold (\<lambda>ofs. clear_leaf root (va + ofs)) (ofs # offs) iv =
        fold (\<lambda>ofs. clear_leaf root (va + ofs)) offs ?iv"
      using Inr l by (simp add: clear_leaf_def)
    have fr: "uat_frame ?iv = uat_frame iv" using Cons.prems(1) by (simp add: uat_wf_def)
    have "page_level ?iv root = 0" using Cons.prems(2) by simp
    from Cons.IH [OF wf1 this] show ?thesis
      unfolding st fr FindExistingLeaf_set_leaf [OF p(2) Cons.prems(2)] get
      using Inr l unfolding Let_def by auto
  qed
qed

lemma release_funpow:
  assumes "k \<le> npages iv" and "npages iv \<le> length (uat_pages iv)" and "inv_Pages iv \<noteq> None"
  shows "(release_last alc ^^ k) (iv, al) =
    (iv\<lparr> inv_Pages := Some (take (npages iv - k) (uat_pages iv) @ replicate k page_zero @
            drop (npages iv) (uat_pages iv)),
         inv_PageCount := of_nat (npages iv - k) \<rparr>,
     foldl (uat_release alc) al (rev (take k (drop (npages iv - k) (uat_pages iv)))))"
  using assms
proof (induction k arbitrary: iv al)
  case 0
  then show ?case by auto
next
  case (Suc k)
  let ?n = "npages iv" and ?P = "uat_pages iv"
  let ?i = "?n - 1"
  have n: "unat (inv_PageCount iv - 1) = ?i" using Suc.prems(1) by (intro unat_pred) auto
  let ?iv = "iv\<lparr> inv_Pages := Some (?P[?i := page_zero]), inv_PageCount := inv_PageCount iv - 1 \<rparr>"
  have st: "release_last alc (iv, al) = (?iv, uat_release alc al (?P ! ?i))"
    by (simp add: release_last_def Let_def n)
  have IH: "(release_last alc ^^ k) (?iv, uat_release alc al (?P ! ?i)) =
    (?iv\<lparr> inv_Pages := Some (take (?i - k) (?P[?i := page_zero]) @ replicate k page_zero @
            drop ?i (?P[?i := page_zero])), inv_PageCount := of_nat (?i - k) \<rparr>,
     foldl (uat_release alc) (uat_release alc al (?P ! ?i))
       (rev (take k (drop (?i - k) (?P[?i := page_zero])))))"
    using Suc.IH [of ?iv] Suc.prems n by simp
  have i: "?i < length ?P" "Suc ?i = ?n" using Suc.prems by simp_all
  have d: "drop ?i (?P[?i := page_zero]) = page_zero # drop ?n ?P"
    using i by (simp add: drop_update_swap Cons_nth_drop_Suc [symmetric])
  have t: "take (?i - k) (?P[?i := page_zero]) = take (?n - Suc k) ?P"
    using i Suc.prems(1) by simp
  have pages: "take (?n - Suc k) ?P @ replicate k page_zero @ page_zero # drop ?n ?P =
      take (?n - Suc k) ?P @ replicate (Suc k) page_zero @ drop ?n ?P"
    by (simp add: replicate_app_Cons_same)
  have seg: "take (Suc k) (drop (?n - Suc k) ?P) =
      take k (drop (?i - k) (?P[?i := page_zero])) @ [?P ! ?i]"
  proof -
    have "take (Suc k) (drop (?i - k) ?P) = take k (drop (?i - k) ?P) @ [?P ! ?i]"
      using i Suc.prems(1) by (subst take_Suc_conv_app_nth) simp_all
    moreover have "take k (drop (?i - k) (?P[?i := page_zero])) = take k (drop (?i - k) ?P)"
      using i Suc.prems(1) by (simp add: drop_update_swap)
    ultimately show ?thesis by simp
  qed
  show ?case
    unfolding funpow_Suc_right comp_def st IH seg d t pages by simp
qed

lemma live_foldl_release:
  assumes "page_source alc live"
  shows "live (foldl (uat_release alc) al pages) = live al - pg_PhysicalAddress ` set pages"
proof (induction pages arbitrary: al)
  case (Cons page pages)
  have "live (uat_release alc al page) = live al - {pg_PhysicalAddress page}"
    using assms by (simp add: page_source_def)
  with Cons [of "uat_release alc al page"] show ?case by auto
qed simp

lemma clear_parents_page:
  assumes "i < length (uat_pages iv)"
  shows "uat_pages (AppleAgxUatClearNewParents f iv) ! i =
    (if i < npages iv \<and> \<not> page_level iv i \<ge> 2
     then (uat_pages iv ! i)\<lparr> pg_Entries := map (\<lambda>(e, v). clear_new f iv (uat_pages iv ! i) e v)
            (enumerate 0 (pg_Entries (uat_pages iv ! i))) \<rparr>
     else uat_pages iv ! i)"
  using assms by (simp add: AppleAgxUatClearNewParents_def nth_enumerate_eq)

lemma clear_parents_frame [simp]:
  "inv_PageCount (AppleAgxUatClearNewParents f iv) = inv_PageCount iv"
  "length (uat_pages (AppleAgxUatClearNewParents f iv)) = length (uat_pages iv)"
  "inv_Pages iv \<noteq> None \<Longrightarrow> uat_frame (AppleAgxUatClearNewParents f iv) = uat_frame iv"
  "inv_Pages (AppleAgxUatClearNewParents f iv) \<noteq> None"
  by (simp_all add: AppleAgxUatClearNewParents_def uat_frame_def)

lemma clear_parents_simps:
  assumes "i < length (uat_pages iv)"
  shows "page_pa (AppleAgxUatClearNewParents f iv) i = page_pa iv i"
    and "page_level (AppleAgxUatClearNewParents f iv) i = page_level iv i"
    and "pg_EntriesAddress (uat_pages (AppleAgxUatClearNewParents f iv) ! i) =
         pg_EntriesAddress (uat_pages iv ! i)"
    and "length (pg_Entries (uat_pages (AppleAgxUatClearNewParents f iv) ! i)) =
         length (pg_Entries (uat_pages iv ! i))"
    and "e < length (pg_Entries (uat_pages iv ! i)) \<Longrightarrow>
      get_leaf (AppleAgxUatClearNewParents f iv) (i, e) =
      (if i < npages iv \<and> \<not> page_level iv i \<ge> 2
       then clear_new f iv (uat_pages iv ! i) e (get_leaf iv (i, e)) else get_leaf iv (i, e))"
  using assms by (simp_all add: clear_parents_page get_leaf_def nth_enumerate_eq)

lemma page_eqI:
  fixes p q :: APPLE_AGX_UAT_PAGE
  assumes "pg_PhysicalAddress p = pg_PhysicalAddress q" "pg_EntriesAddress p = pg_EntriesAddress q"
    "pg_Level p = pg_Level q" "length (pg_Entries p) = length (pg_Entries q)"
    "\<And>e. e < length (pg_Entries q) \<Longrightarrow> pg_Entries p ! e = pg_Entries q ! e"
  shows "p = q"
proof -
  have "pg_Entries p = pg_Entries q" using assms(4,5) by (intro nth_equalityI) simp_all
  then show ?thesis using assms(1-3) by simp
qed

lemma page_lt_length:
  "uat_wf iv \<Longrightarrow> i < npages iv \<Longrightarrow> i < length (uat_pages iv)"
  by (simp add: uat_wf_def)

text \<open>Clearing the leaves and the new parents brings every old page back to what it was.\<close>

lemma rollback_page:
  assumes g: "uat_grown live root va offs iv0 al0 iv al" and wf0: "uat_wf iv0"
    and own: "uat_owned live iv0 al0" and root: "root < npages iv0" "page_level iv0 root = 0"
    and i: "i < npages iv0"
  shows "uat_pages (AppleAgxUatClearNewParents (inv_PageCount iv0)
           (fold (\<lambda>ofs. clear_leaf root (va + ofs)) offs iv)) ! i = uat_pages iv0 ! i"
proof -
  let ?iv1 = "fold (\<lambda>ofs. clear_leaf root (va + ofs)) offs iv"
  let ?iv2 = "AppleAgxUatClearNewParents (inv_PageCount iv0) ?iv1"
  note wf = uat_grown_wf [OF g]
  have rt: "page_level iv root = 0" using g root by (simp add: uat_grown_def)
  note c = clear_leaves [OF wf rt, of va offs, unfolded Let_def]
  have n: "npages iv0 \<le> npages iv" using g by (simp add: uat_grown_def)
  have ii: "i < npages iv" using i n by simp
  have n1: "inv_PageCount ?iv1 = inv_PageCount iv"
    and len1: "length (uat_pages ?iv1) = length (uat_pages iv)" and wf1: "uat_wf ?iv1"
    using c by blast+
  have meta1: "page_pa ?iv1 j = page_pa iv j" "page_level ?iv1 j = page_level iv j"
    "pg_EntriesAddress (uat_pages ?iv1 ! j) = pg_EntriesAddress (uat_pages iv ! j)" for j
    using c by blast+
  have get1: "get_leaf ?iv1 (j, e) =
      (if \<exists>ofs\<in>set offs. AppleAgxUatFindExistingLeaf root (va + ofs) iv = Inr (j, e)
       then 0 else get_leaf iv (j, e))" for j e
    using c by blast
  have il: "i < length (uat_pages ?iv1)" using page_lt_length [OF wf ii] len1 by simp
  have meta0: "page_pa iv i = page_pa iv0 i" "page_level iv i = page_level iv0 i"
    "pg_EntriesAddress (uat_pages iv ! i) = pg_EntriesAddress (uat_pages iv0 ! i)"
    using g i by (simp_all add: uat_grown_def)
  have len: "length (pg_Entries (uat_pages ?iv1 ! i)) = 2048"
    "length (pg_Entries (uat_pages iv0 ! i)) = 2048"
    using uat_wf_page(4) [OF wf1, of i] uat_wf_page(4) [OF wf0 i] ii n1 by simp_all
  have entry: "get_leaf ?iv2 (i, e) = get_leaf iv0 (i, e)" if e: "e < 2048" for e
  proof -
    have u: "get_leaf iv (i, e) = get_leaf iv0 (i, e) \<or> used_entry root va offs iv0 iv i e"
      using g i e by (simp add: uat_grown_def)
    have get2: "get_leaf ?iv2 (i, e) =
      (if \<not> page_level iv i \<ge> 2
       then clear_new (inv_PageCount iv0) ?iv1 (uat_pages ?iv1 ! i) e (get_leaf ?iv1 (i, e))
       else get_leaf ?iv1 (i, e))"
      using clear_parents_simps(5) [OF il, of e "inv_PageCount iv0"] e len ii
      by (simp add: n1 meta1)
    show ?thesis
    proof (cases "page_level iv0 i < 2")
      case True
      have g1: "get_leaf ?iv1 (i, e) = get_leaf iv (i, e)"
        using True meta0(2) FindExistingLeaf_page(2) [of root _ iv i e] by (auto simp: get1)
      have c2: "get_leaf ?iv2 (i, e) =
          (if e < entry_count (uat_pages iv0 ! i) \<and>
              (\<exists>j. npages iv0 \<le> j \<and> j < npages iv \<and> get_leaf iv (i, e) AND UAT_ADDRESS_MASK \<noteq> 0 \<and>
                 get_leaf iv (i, e) AND UAT_ADDRESS_MASK = page_pa iv j)
           then 0 else get_leaf iv (i, e))"
        using True meta0 unfolding get2 clear_new_def Let_def g1
        by (auto simp: n1 meta1 list_ex_iff entry_count_def not_le)
      show ?thesis
      proof (cases "get_leaf iv (i, e) = get_leaf iv0 (i, e)")
        case same: True
        have "page_pa iv j \<noteq> get_leaf iv0 (i, e) AND UAT_ADDRESS_MASK"
          if j: "npages iv0 \<le> j" "j < npages iv" and ec: "e < entry_count (uat_pages iv0 ! i)"
            and nz: "get_leaf iv0 (i, e) AND UAT_ADDRESS_MASK \<noteq> 0" for j
        proof -
          have "entry_ok iv0 i e" using wf0 i True ec by (simp add: uat_wf_def)
          then obtain k where "k < npages iv0"
            "page_pa iv0 k = get_leaf iv0 (i, e) AND UAT_ADDRESS_MASK"
            using nz by (auto simp: entry_ok_def)
          moreover have "page_pa iv j \<notin> live al0" using g j by (simp add: uat_grown_def)
          ultimately show ?thesis using own by (auto simp: uat_owned_def)
        qed
        then show ?thesis unfolding c2 same by metis
      next
        case False
        with u True obtain j where
          "get_leaf iv0 (i, e) = 0" "e < entry_count (uat_pages iv0 ! i)" "npages iv0 \<le> j"
          "j < npages iv" "page_pa iv j = get_leaf iv (i, e) AND UAT_ADDRESS_MASK"
          by (auto simp: used_entry_def)
        then show ?thesis using uat_wf_page(3) [OF wf, of j] unfolding c2 by auto
      qed
    next
      case False
      have lv: "page_level iv i \<ge> 2" using False meta0(2) by simp
      have "\<exists>ofs\<in>set offs. AppleAgxUatFindExistingLeaf root (va + ofs) iv = Inr (i, e)"
        if "get_leaf iv (i, e) \<noteq> get_leaf iv0 (i, e)"
        using that u False by (auto simp: used_entry_def)
      moreover have "get_leaf iv0 (i, e) = 0"
        if f: "AppleAgxUatFindExistingLeaf root (va + ofs) iv = Inr (i, e)" "ofs \<in> set offs" for ofs
      proof -
        have "\<exists>i e. AppleAgxUatFindExistingLeaf root (va + ofs) iv = Inr (i, e) \<and>
            get_leaf iv (i, e) \<noteq> 0 \<and> (i < npages iv0 \<longrightarrow> get_leaf iv0 (i, e) = 0)"
          using g f(2) unfolding uat_grown_def by (elim conjE) (erule bspec)
        with f(1) i show ?thesis by auto
      qed
      ultimately show ?thesis using lv unfolding get2 get1 by auto
    qed
  qed
  show ?thesis
  proof (rule page_eqI)
    fix e assume "e < length (pg_Entries (uat_pages iv0 ! i))"
    then show "pg_Entries (uat_pages ?iv2 ! i) ! e = pg_Entries (uat_pages iv0 ! i) ! e"
      using entry [of e] len by (simp add: get_leaf_def)
  qed (simp_all add: clear_parents_simps [OF il] meta1 meta0 len)
qed

lemma take_drop_upt:
  "m \<le> n \<Longrightarrow> n \<le> length xs \<Longrightarrow> take (n - m) (drop m xs) = map ((!) xs) [m..<n]"
  by (rule nth_equalityI) auto

lemma frame_eqI:
  fixes iv iv0 :: APPLE_AGX_UAT_INVENTORY
  assumes "uat_frame iv = uat_frame iv0" "inv_PageCount iv = inv_PageCount iv0"
    "inv_Pages iv0 \<noteq> None" "uat_pages iv = uat_pages iv0"
  shows "iv = iv0"
  using assms by (cases iv; cases iv0) (auto simp: uat_frame_def)

lemma rollback_restores:
  assumes rb: "AppleAgxUatRollbackMap root va len (inv_PageCount iv0) alc iv al = (iv1, al1)"
    and o: "uat_offsets len = offs"
    and g: "uat_grown live root va offs iv0 al0 iv al" and wf0: "uat_wf iv0"
    and own: "uat_owned live iv0 al0" and src: "page_source alc live"
    and root: "root < npages iv0" "page_level iv0 root = 0"
  shows "iv1 = iv0 \<and> live al1 = live al0"
proof -
  let ?iv1 = "fold (\<lambda>ofs. clear_leaf root (va + ofs)) offs iv"
  let ?iv2 = "AppleAgxUatClearNewParents (inv_PageCount iv0) ?iv1"
  let ?N = "npages iv0" and ?n = "npages iv"
  note wf = uat_grown_wf [OF g]
  have rt: "page_level iv root = 0" using g root by (simp add: uat_grown_def)
  note c = clear_leaves [OF wf rt, of va offs, unfolded Let_def]
  have wf1: "uat_wf ?iv1" and c1: "uat_frame ?iv1 = uat_frame iv"
    "inv_PageCount ?iv1 = inv_PageCount iv" "length (uat_pages ?iv1) = length (uat_pages iv)"
    "\<And>j. page_pa ?iv1 j = page_pa iv j"
    using c by blast+
  have gg: "?N \<le> ?n" "length (uat_pages iv) = length (uat_pages iv0)"
    "uat_frame iv = uat_frame iv0" "live al = live al0 \<union> page_pa iv ` {?N..<?n}"
    using g unfolding uat_grown_def by - (elim conjE, assumption)+
  have new: "page_pa iv j \<notin> live al0" if "?N \<le> j" "j < ?n" for j
    using g that by (simp add: uat_grown_def)
  have nl: "?n \<le> length (uat_pages iv)" and P: "inv_Pages ?iv1 \<noteq> None"
    using wf wf1 by (simp_all add: uat_wf_def)
  have n2: "npages ?iv2 = ?n" "?n - (?n - ?N) = ?N" using c1(2) gg(1) by simp_all
  have rel: "(release_last alc ^^ (?n - ?N)) (?iv2, al) = (iv1, al1)"
    using rb o by (simp add: AppleAgxUatRollbackMap_def AppleAgxUatReleaseFrom_def c1(2))
  have q: "?n - ?N \<le> npages ?iv2" "npages ?iv2 \<le> length (uat_pages ?iv2)" "inv_Pages ?iv2 \<noteq> None"
    using nl c1(3) n2(1) by simp_all
  note rf = release_funpow [OF q, of alc al, unfolded rel n2]
  have iv1: "iv1 = ?iv2\<lparr> inv_Pages := Some (take ?N (uat_pages ?iv2) @
        replicate (?n - ?N) page_zero @ drop ?n (uat_pages ?iv2)), inv_PageCount := of_nat ?N \<rparr>"
    and al1: "al1 = foldl (uat_release alc) al
        (rev (take (?n - ?N) (drop ?N (uat_pages ?iv2))))"
    using rf by - (erule Pair_inject, assumption)+
  have len2: "length (uat_pages ?iv2) = length (uat_pages iv0)" using c1(3) gg(2) by simp
  have old: "uat_pages ?iv2 ! i = uat_pages iv0 ! i" if "i < ?N" for i
    by (rule rollback_page [OF g wf0 own root that])
  have zero: "uat_pages iv0 ! i = page_zero" if "?N \<le> i" "i < length (uat_pages iv0)" for i
    using wf0 that by (simp add: uat_wf_def)
  have free: "uat_pages ?iv2 ! i = page_zero" if "?n \<le> i" "i < length (uat_pages iv0)" for i
    using wf1 that c1(2,3) gg(2) by (simp add: uat_wf_def clear_parents_page)
  have pages: "take ?N (uat_pages ?iv2) @ replicate (?n - ?N) page_zero @ drop ?n (uat_pages ?iv2)
      = uat_pages iv0"
  proof (rule nth_equalityI)
    show "length (take ?N (uat_pages ?iv2) @ replicate (?n - ?N) page_zero @
        drop ?n (uat_pages ?iv2)) = length (uat_pages iv0)"
      using len2 gg nl by simp
  next
    fix i assume "i < length (take ?N (uat_pages ?iv2) @ replicate (?n - ?N) page_zero @
        drop ?n (uat_pages ?iv2))"
    then have i: "i < length (uat_pages iv0)" using len2 gg nl by simp
    have tl: "length (take ?N (uat_pages ?iv2)) = ?N" using len2 gg nl by simp
    show "(take ?N (uat_pages ?iv2) @ replicate (?n - ?N) page_zero @
        drop ?n (uat_pages ?iv2)) ! i = uat_pages iv0 ! i"
      using i old [of i] zero [of i] free [of i] gg(1) nl len2 gg(2)
      by (cases "i < ?N"; cases "i < ?n") (simp_all add: nth_append tl)
  qed
  have P0: "inv_Pages iv0 \<noteq> None" using wf0 by (simp add: uat_wf_def)
  have "iv1 = iv0"
  proof (rule frame_eqI)
    show "uat_frame iv1 = uat_frame iv0"
      using clear_parents_frame(3) [OF P, of "inv_PageCount iv0"] c1(1) gg(3) P P0
      by (simp add: iv1 uat_frame_def)
    show "inv_Pages iv0 \<noteq> None" by (rule P0)
  qed (simp_all add: iv1 pages)
  moreover have "live al1 = live al0"
  proof -
    have "set (take (?n - ?N) (drop ?N (uat_pages ?iv2))) = (!) (uat_pages ?iv2) ` {?N..<?n}"
      using take_drop_upt [OF gg(1), of "uat_pages ?iv2"] nl len2 gg(2) by simp
    then have "pg_PhysicalAddress ` set (take (?n - ?N) (drop ?N (uat_pages ?iv2))) =
        page_pa iv ` {?N..<?n}"
      using clear_parents_simps(1) [of _ ?iv1 "inv_PageCount iv0"] c1(3,4) nl
      by (simp add: image_image)
    then show ?thesis
      using live_foldl_release [OF src, of al] gg(4) new unfolding al1 by auto
  qed
  ultimately show ?thesis by simp
qed

section \<open>The map loop\<close>

definition page_offsets :: "nat \<Rightarrow> u64 list" where
  "page_offsets k = map (\<lambda>i. of_nat i * UAT_PAGE_SIZE) [0..<k]"

lemma unat_pages: "k * 0x4000 < 2 ^ 64 \<Longrightarrow> unat (of_nat (k * 0x4000) :: u64) = k * 0x4000"
  by (subst unat_of_nat) simp

lemma offsets_pages:
  assumes "k * 0x4000 < 2 ^ 64"
  shows "uat_offsets (of_nat (k * 0x4000)) = page_offsets k"
proof -
  have "(k * 0x4000 + 0x3fff) div 0x4000 = k" by (simp add: div_nat_eqI)
  then show ?thesis
    unfolding uat_offsets_def page_offsets_def unat_pages [OF assms] by simp
qed

lemma encode_page_nz: "AppleAgxUatEncodePageDescriptor c pa p = Inr d \<Longrightarrow> d \<noteq> 0"
  using encode_page_address(2) by fastforce

lemma encode_page_Inl: "AppleAgxUatEncodePageDescriptor c pa p = Inl res \<Longrightarrow> res \<noteq> AppleAgxUatResultOk"
  by (auto simp: AppleAgxUatEncodePageDescriptor_def AppleAgxUatProtectionBits_def
      split: sum.splits if_splits option.splits)

text \<open>The translation of one virtual address to a descriptor.\<close>

definition translates :: "nat \<Rightarrow> u64 \<Rightarrow> u64 \<Rightarrow> APPLE_AGX_UAT_INVENTORY \<Rightarrow> bool" where
  "translates root v d iv \<longleftrightarrow>
     d \<noteq> 0 \<and> (\<exists>leaf. AppleAgxUatFindExistingLeaf root v iv = Inr leaf \<and> get_leaf iv leaf = d)"

lemma translates_ext:
  assumes "translates root v d iv" and "uat_ext iv iv1" and "uat_wf iv" and "uat_wf iv1"
    and "root < npages iv"
  shows "translates root v d iv1"
proof -
  from assms(1) obtain i e where
    f: "AppleAgxUatFindExistingLeaf root v iv = Inr (i, e)" "get_leaf iv (i, e) = d" "d \<noteq> 0"
    by (auto simp: translates_def)
  moreover have "get_leaf iv1 (i, e) = d"
    using assms(2) f FindExistingLeaf_page [OF f(1)] by (simp add: uat_ext_def)
  ultimately show ?thesis
    using FindExistingLeaf_ext [OF f(1) assms(2-5)] by (auto simp: translates_def)
qed

lemma map_leaves_spec:
  assumes "map_leaves c root va prot (inv_PageCount iv0) alc backing (of_nat (k * 0x4000)) iv al =
      (r, iv1, al1)"
    and "map fst backing = map (\<lambda>i. of_nat i * UAT_PAGE_SIZE) [k..<k + length backing]"
    and "(k + length backing) * 0x4000 < 2 ^ 64"
    and "uat_grown live root va (page_offsets k) iv0 al0 iv al"
    and own: "uat_owned live iv0 al0" and src: "page_source alc live" and wf0: "uat_wf iv0"
    and root: "root < npages iv0" "page_level iv0 root = 0"
  shows "if r = AppleAgxUatResultOk
         then uat_grown live root va (page_offsets (k + length backing)) iv0 al0 iv1 al1 \<and>
              uat_ext iv iv1 \<and>
              (\<forall>(ofs, pa)\<in>set backing. \<exists>d. translates root (va + ofs) d iv1 \<and>
                 AppleAgxUatEncodePageDescriptor c pa prot = Inr d)
         else iv1 = iv0 \<and> live al1 = live al0"
  using assms(1-4)
proof (induction backing arbitrary: k iv al)
  case Nil
  then show ?case by simp
next
  case (Cons b backing)
  obtain ofs pa where b: "b = (ofs, pa)" by (cases b)
  have ofs: "ofs = of_nat k * UAT_PAGE_SIZE"
    and fsts: "map fst backing = map (\<lambda>i. of_nat i * UAT_PAGE_SIZE) [Suc k..<Suc k + length backing]"
    using Cons.prems(2) b by (simp_all add: upt_conv_Cons del: upt_Suc)
  have k: "k * 0x4000 < 2 ^ 64" "(Suc k + length backing) * 0x4000 < 2 ^ 64"
    using Cons.prems(3) by simp_all
  obtain r2 iv2 al2 where f: "AppleAgxUatFindLeaf root (va + ofs) alc iv al = (r2, iv2, al2)"
    by (metis prod_cases3)
  from FindLeaf_grown [OF f Cons.prems(4) own src root] have
    g2: "uat_grown live root va (page_offsets k) iv0 al0 iv2 al2" and e2: "uat_ext iv iv2"
    and err: "\<forall>res. r2 = Inl res \<longrightarrow> res \<noteq> AppleAgxUatResultOk"
    and leaf: "\<forall>leaf. r2 = Inr leaf \<longrightarrow>
       AppleAgxUatFindExistingLeaf root (va + ofs) iv2 = Inr leaf" by blast+
  have restore: "iv1 = iv0 \<and> live al1 = live al0"
    if "(iv1, al1) = AppleAgxUatRollbackMap root va (of_nat (k * 0x4000)) (inv_PageCount iv0) alc iv2 al2"
    by (rule rollback_restores [OF that [symmetric] offsets_pages [OF k(1)] g2 wf0 own src root])
  show ?case
  proof (cases r2)
    case (Inl res)
    with Cons.prems(1) f err restore show ?thesis by (auto simp: b)
  next
    case (Inr l)
    show ?thesis
    proof (cases "get_leaf iv2 l = 0")
      case False
      with Cons.prems(1) f Inr restore show ?thesis by (auto simp: b)
    next
      case zero: True
      show ?thesis
      proof (cases "AppleAgxUatEncodePageDescriptor c pa prot")
        case e: (Inl res)
        with Cons.prems(1) f Inr zero encode_page_Inl [OF e] restore show ?thesis
          by (auto simp: b)
      next
        case e: (Inr d)
        note d = encode_page_nz [OF e]
        let ?iv = "set_leaf l d iv2"
        have fl: "AppleAgxUatFindExistingLeaf root (va + ofs) iv2 = Inr l" using leaf Inr by simp
        have g3: "uat_grown live root va (page_offsets (Suc k)) iv0 al0 ?iv al2"
          and e3: "uat_ext iv2 ?iv"
          and tr: "translates root (va + ofs) d ?iv"
          using SetLeaf_grown [OF g2 own root fl zero d] d
          by (auto simp: page_offsets_def ofs translates_def)
        have st: "map_leaves c root va prot (inv_PageCount iv0) alc backing
            (of_nat (Suc k * 0x4000)) ?iv al2 = (r, iv1, al1)"
          using Cons.prems(1) f Inr zero e by (simp add: b add.commute)
        note IH = Cons.IH [OF st fsts k(2) g3]
        show ?thesis
        proof (cases "r = AppleAgxUatResultOk")
          case False
          with IH show ?thesis by simp
        next
          case True
          with IH have i: "uat_grown live root va (page_offsets (Suc k + length backing)) iv0 al0 iv1 al1"
            "uat_ext ?iv iv1"
            "\<forall>(ofs, pa)\<in>set backing. \<exists>d. translates root (va + ofs) d iv1 \<and>
                 AppleAgxUatEncodePageDescriptor c pa prot = Inr d" by simp_all
          have "root < npages ?iv" using g3 root(1) by (simp add: uat_grown_def)
          then have "translates root (va + ofs) d iv1"
            by (rule translates_ext [OF tr i(2) uat_grown_wf [OF g3] uat_grown_wf [OF i(1)]])
          with True i e uat_ext_trans [OF uat_ext_trans [OF e2 e3] i(2)] show ?thesis
            by (simp add: b)
        qed
      qed
    qed
  qed
qed

section \<open>The map functions\<close>

lemma validate_Inl:
  "AppleAgxUatValidateRange c va pa len p = Inl res \<Longrightarrow> res \<noteq> AppleAgxUatResultOk"
  by (auto simp: AppleAgxUatValidateRange_def AppleAgxUatProtectionBits_def Let_def
      split: if_splits sum.splits option.splits)

lemma validate_context: "AppleAgxUatValidateRange c va pa len p = Inr half \<Longrightarrow> c < UAT_CONTEXT_COUNT"
  by (auto simp: validate_range_iff prot_bits_Inr_iff)

definition in_half :: "APPLE_AGX_UAT_HALF \<Rightarrow> u64 \<Rightarrow> bool" where
  "in_half half v \<longleftrightarrow>
     v AND UAT_PAGE_MASK = 0 \<and>
     (case half of AppleAgxUatTtbr0 \<Rightarrow> v < UAT_LOW_LIMIT | AppleAgxUatTtbr1 \<Rightarrow> v \<ge> UAT_HIGH_BASE)"

lemma range_pages:
  assumes "AppleAgxUatValidateRange c va pa len p = Inr half" and "i < unat len div 0x4000"
  shows "in_half half (va + of_nat i * UAT_PAGE_SIZE)"
    and "unat (va + of_nat i * UAT_PAGE_SIZE) = unat va + i * 0x4000"
    and "unat (pa + of_nat i * UAT_PAGE_SIZE) = unat pa + i * 0x4000"
proof -
  have len: "(i + 1) * 0x4000 \<le> unat len"
    using assms(2) by (metis Suc_eq_plus1 Suc_leI less_eq_div_iff_mult_less_eq zero_less_numeral)
  note v = assms(1) [unfolded validate_range_iff]
  have ofs: "unat (of_nat i * UAT_PAGE_SIZE) = i * 0x4000"
    using unat_pages [of i] len v by (simp add: mult.commute)
  show va: "unat (va + of_nat i * UAT_PAGE_SIZE) = unat va + i * 0x4000"
    using len v by (subst unat_add_no_wrap) (simp_all add: ofs)
  show "unat (pa + of_nat i * UAT_PAGE_SIZE) = unat pa + i * 0x4000"
    using len v by (subst unat_add_no_wrap) (simp_all add: ofs)
  have "2 ^ 14 dvd unat (va + of_nat i * UAT_PAGE_SIZE)"
    unfolding va using v by (intro dvd_add) simp_all
  then have "(va + of_nat i * UAT_PAGE_SIZE) AND UAT_PAGE_MASK = 0"
    by (simp only: page_aligned_iff)
  moreover have "half = AppleAgxUatTtbr0 \<Longrightarrow> va + of_nat i * UAT_PAGE_SIZE < UAT_LOW_LIMIT"
    unfolding word_less_nat_alt va using v len by simp
  moreover have "half = AppleAgxUatTtbr1 \<Longrightarrow> va + of_nat i * UAT_PAGE_SIZE \<ge> UAT_HIGH_BASE"
    unfolding word_le_nat_alt va using v by simp
  ultimately show "in_half half (va + of_nat i * UAT_PAGE_SIZE)"
    unfolding in_half_def by (cases half) simp_all
qed

lemma validate_page_half:
  assumes "AppleAgxUatValidateRange c v pa UAT_PAGE_SIZE p = Inr h" and "in_half half v"
  shows "h = half"
proof (cases h; cases half)
  assume "h = AppleAgxUatTtbr0" "half = AppleAgxUatTtbr1"
  with assms show ?thesis by (simp add: validate_range_iff in_half_def word_le_nat_alt)
next
  assume "h = AppleAgxUatTtbr1" "half = AppleAgxUatTtbr0"
  with assms show ?thesis by (simp add: validate_range_iff in_half_def word_less_nat_alt)
qed simp_all

lemma validate_pages_half:
  assumes "validate_pages c va p backing half = r"
    and "\<forall>(ofs, pa)\<in>set backing. in_half half (va + ofs)"
  shows "case r of Inl res \<Rightarrow> res \<noteq> AppleAgxUatResultOk
         | Inr h \<Rightarrow> h = half \<and> (\<forall>(ofs, pa)\<in>set backing.
             \<exists>h. AppleAgxUatValidateRange c (va + ofs) pa UAT_PAGE_SIZE p = Inr h)"
  using assms
proof (induction backing)
  case (Cons b backing)
  obtain ofs pa where b: "b = (ofs, pa)" by (cases b)
  show ?case
  proof (cases "AppleAgxUatValidateRange c (va + ofs) pa UAT_PAGE_SIZE p")
    case (Inl res)
    with Cons.prems validate_Inl [OF Inl] show ?thesis by (auto simp: b)
  next
    case (Inr h)
    have "h = half" using Cons.prems(2) by (intro validate_page_half [OF Inr]) (simp add: b)
    with Inr Cons show ?thesis by (cases r) (auto simp: b)
  qed
qed auto

text \<open>Both map functions come down to the map loop over the physical pages they are given.\<close>

lemma Map_loop:
  assumes "AppleAgxUatMap c roots va pa len p alc iv al = (r, iv1, al1)"
  obtains (early) "r \<noteq> AppleAgxUatResultOk" "iv1 = iv" "al1 = al"
  | (loop) half root iv2 m n where
      "AppleAgxUatValidateRange c va pa len p = Inr half" "unat len = n * 0x4000"
      "AppleAgxUatFindPage iv (root_of roots half) 0 = Some root"
      "map_leaves c root va p (inv_PageCount iv) alc
         (map (\<lambda>i. (of_nat i * UAT_PAGE_SIZE, pa + of_nat i * UAT_PAGE_SIZE)) [0..<n]) 0 iv al =
         (r, iv2, al1)"
      "iv1 = (if r = AppleAgxUatResultOk then add_mapping m iv2 else iv2)"
      "um_VirtualAddress m = va" "um_Length m = len" "um_Context m = c"
      "\<not> mapping_overlaps c va len iv"
      "um_PhysicalAddress m = pa" "um_Protection m = p" "\<not> inv_MappingCount iv \<ge> inv_MappingCapacity iv"
      "AppleAgxUatCheckOwnerArguments alc iv = AppleAgxUatResultOk"
proof -
  show thesis
  proof (cases "\<exists>half root. AppleAgxUatCheckOwnerArguments alc iv = AppleAgxUatResultOk \<and>
      AppleAgxUatValidateRange c va pa len p = Inr half \<and>
      \<not> inv_MappingCount iv \<ge> inv_MappingCapacity iv \<and> \<not> mapping_overlaps c va len iv \<and>
      AppleAgxUatFindPage iv (root_of roots half) 0 = Some root")
    case False
    with assms show thesis
      by (intro early) (auto simp: AppleAgxUatMap_def Let_def dest: validate_Inl
          split: if_splits sum.splits option.splits)
  next
    case True
    then obtain half root where t: "AppleAgxUatCheckOwnerArguments alc iv = AppleAgxUatResultOk"
      "AppleAgxUatValidateRange c va pa len p = Inr half"
      "\<not> inv_MappingCount iv \<ge> inv_MappingCapacity iv" "\<not> mapping_overlaps c va len iv"
      "AppleAgxUatFindPage iv (root_of roots half) 0 = Some root" by blast
    define n where "n = unat len div 0x4000"
    have n: "unat len = n * 0x4000" using t(2) by (simp add: validate_range_iff n_def)
    have "of_nat (n * 0x4000) = len" unfolding n [symmetric] by simp
    then have o: "uat_offsets len = page_offsets n"
      using offsets_pages [of n] t(2) n by (auto simp: validate_range_iff)
    have "map (\<lambda>offset. (offset, pa + offset)) (page_offsets n) =
        map (\<lambda>i. (of_nat i * UAT_PAGE_SIZE, pa + of_nat i * UAT_PAGE_SIZE)) [0..<n]"
      by (simp add: page_offsets_def)
    note backing = this
    let ?m = "\<lparr> um_Context = c, um_VirtualAddress = va, um_PhysicalAddress = pa, um_Length = len,
      um_Protection = p, um_PhysicalStride = UAT_PAGE_SIZE \<rparr>"
    obtain r2 iv2 al2 where ml: "map_leaves c root va p (inv_PageCount iv) alc
        (map (\<lambda>i. (of_nat i * UAT_PAGE_SIZE, pa + of_nat i * UAT_PAGE_SIZE)) [0..<n]) 0 iv al =
        (r2, iv2, al2)" by (rule prod_cases3)
    have "AppleAgxUatMap c roots va pa len p alc iv al =
        (if r2 \<noteq> AppleAgxUatResultOk then (r2, iv2, al2)
         else (AppleAgxUatResultOk, add_mapping ?m iv2, al2))"
      unfolding AppleAgxUatMap_def Let_def t(1,2,5) o backing
      by (simp add: t(3,4,5) ml)
    from trans [OF assms [symmetric] this] have "r = r2 \<and> al1 = al2 \<and>
      iv1 = (if r = AppleAgxUatResultOk then add_mapping ?m iv2 else iv2)"
      by (auto split: if_splits)
    then have "r = r2" "al1 = al2" "iv1 = (if r = AppleAgxUatResultOk then add_mapping ?m iv2 else iv2)" by blast+
    with ml t(1,3,4) show thesis by (intro loop [OF t(2) n t(5), of iv2 ?m]) simp_all
  qed
qed

lemma MapPageList_loop:
  assumes "AppleAgxUatMapPageList c roots va pages count p alc iv al = (r, iv1, al1)"
  obtains (early) "r \<noteq> AppleAgxUatResultOk" "iv1 = iv" "al1 = al"
  | (loop) half root iv2 m len where
      "AppleAgxUatValidateRange c va (pages ! 0) len p = Inr half" "unat len = unat count * 0x4000"
      "AppleAgxUatFindPage iv (root_of roots half) 0 = Some root"
      "map_leaves c root va p (inv_PageCount iv) alc
         (map (\<lambda>i. (of_nat i * UAT_PAGE_SIZE, pages ! i)) [0..<unat count]) 0 iv al =
         (r, iv2, al1)"
      "iv1 = (if r = AppleAgxUatResultOk then add_mapping m iv2 else iv2)"
      "um_VirtualAddress m = va" "um_Length m = len" "um_Context m = c"
      "\<not> mapping_overlaps c va len iv"
      "um_PhysicalAddress m = pages ! 0" "um_Protection m = p" "\<not> inv_MappingCount iv \<ge> inv_MappingCapacity iv"
      "AppleAgxUatCheckOwnerArguments alc iv = AppleAgxUatResultOk"
proof -
  define len where "len = ucast count * UAT_PAGE_SIZE"
  define b where "b = map (\<lambda>i. (of_nat i * UAT_PAGE_SIZE, pages ! i)) [0..<unat count]"
  note fold = len_def [symmetric] b_def [symmetric]
  have "unat count < 2 ^ 32" using unsigned_less [of count, where 'a = nat] by simp
  then have "unat count * 0x4000 < 2 ^ 64" by simp
  moreover have "len = of_nat (unat count * 0x4000)" by (simp add: len_def)
  ultimately have ul: "unat len = unat count * 0x4000" using unat_pages by metis
  show thesis
  proof (cases "\<exists>half. count \<noteq> 0 \<and> AppleAgxUatCheckOwnerArguments alc iv = AppleAgxUatResultOk \<and>
      AppleAgxUatValidateRange c va (pages ! 0) len p = Inr half")
    case False
    with assms show thesis
      by (intro early) (auto simp: AppleAgxUatMapPageList_def Let_def fold dest: validate_Inl
          split: if_splits sum.splits option.splits)
  next
    case True
    then obtain half where t: "count \<noteq> 0" "AppleAgxUatCheckOwnerArguments alc iv = AppleAgxUatResultOk"
      "AppleAgxUatValidateRange c va (pages ! 0) len p = Inr half" by blast
    have "\<forall>(ofs, pa)\<in>set b. in_half half (va + ofs)"
      using range_pages(1) [OF t(3)] ul by (auto simp: b_def)
    note vp = validate_pages_half [OF refl this, of c p]
    show thesis
    proof (cases "validate_pages c va p b half = Inr half \<and>
        \<not> inv_MappingCount iv \<ge> inv_MappingCapacity iv \<and> \<not> mapping_overlaps c va len iv \<and>
        (\<exists>root. AppleAgxUatFindPage iv (root_of roots half) 0 = Some root)")
      case False
      with assms t vp show thesis
        by (intro early) (auto simp: AppleAgxUatMapPageList_def Let_def fold
            split: if_splits sum.splits option.splits)
    next
      case True
      then obtain root where root: "AppleAgxUatFindPage iv (root_of roots half) 0 = Some root"
        and u: "validate_pages c va p b half = Inr half"
        "\<not> inv_MappingCount iv \<ge> inv_MappingCapacity iv" "\<not> mapping_overlaps c va len iv"
        by blast
      let ?m = "\<lparr> um_Context = c, um_VirtualAddress = va, um_PhysicalAddress = pages ! 0,
        um_Length = len, um_Protection = p, um_PhysicalStride = UAT_STRIDE_SCATTER \<rparr>"
      obtain r2 iv2 al2 where ml: "map_leaves c root va p (inv_PageCount iv) alc b 0 iv al =
          (r2, iv2, al2)" by (rule prod_cases3)
      have "AppleAgxUatMapPageList c roots va pages count p alc iv al =
          (if r2 \<noteq> AppleAgxUatResultOk then (r2, iv2, al2)
           else (AppleAgxUatResultOk, add_mapping ?m iv2, al2))"
        unfolding AppleAgxUatMapPageList_def Let_def fold
        by (simp add: t u ml root)
      from trans [OF assms [symmetric] this] have "r = r2 \<and> al1 = al2 \<and>
        iv1 = (if r = AppleAgxUatResultOk then add_mapping ?m iv2 else iv2)"
      by (auto split: if_splits)
    then have "r = r2" "al1 = al2" "iv1 = (if r = AppleAgxUatResultOk then add_mapping ?m iv2 else iv2)" by blast+
      with ml u(2,3) t(2) show thesis by (intro loop [OF t(3) ul root, of iv2 ?m]) (simp_all add: b_def)
    qed
  qed
qed

lemma add_mapping_frame [simp]:
  "inv_Pages (add_mapping m iv) = inv_Pages iv" "inv_PageCount (add_mapping m iv) = inv_PageCount iv"
  "inv_PageCapacity (add_mapping m iv) = inv_PageCapacity iv"
  by (simp_all add: add_mapping_def)

lemma same_pages:
  assumes "inv_Pages iv1 = inv_Pages iv" and "inv_PageCount iv1 = inv_PageCount iv"
  shows "get_leaf iv1 l = get_leaf iv l" and "AppleAgxUatFindPage iv1 pa v = AppleAgxUatFindPage iv pa v"
    and "AppleAgxUatFindExistingLeaf root w iv1 = AppleAgxUatFindExistingLeaf root w iv"
    and "AppleAgxUatResolvePage c roots w iv1 = AppleAgxUatResolvePage c roots w iv"
    and "inv_PageCapacity iv1 = inv_PageCapacity iv \<Longrightarrow> uat_wf iv1 = uat_wf iv"
    and "uat_owned live iv1 al = uat_owned live iv al"
proof -
  show g: "get_leaf iv1 l = get_leaf iv l" for l using assms by (simp add: get_leaf_def)
  show f: "AppleAgxUatFindPage iv1 pa v = AppleAgxUatFindPage iv pa v" for pa v
    using assms by (simp add: AppleAgxUatFindPage_def)
  show e: "AppleAgxUatFindExistingLeaf root w iv1 = AppleAgxUatFindExistingLeaf root w iv" for root w
    by (simp add: AppleAgxUatFindExistingLeaf_def g f cong: option.case_cong)
  show "AppleAgxUatResolvePage c roots w iv1 = AppleAgxUatResolvePage c roots w iv"
    by (simp add: AppleAgxUatResolvePage_def g f e cong: option.case_cong sum.case_cong)
  show "uat_wf iv1 = uat_wf iv" if "inv_PageCapacity iv1 = inv_PageCapacity iv"
    using assms that by (simp add: uat_wf_def entry_ok_def get_leaf_def)
  show "uat_owned live iv1 al = uat_owned live iv al" using assms by (simp add: uat_owned_def)
qed

lemma Resolve_Ok:
  assumes "AppleAgxUatResolvePage c roots v iv = (AppleAgxUatResultOk, pa, d)"
  obtains root where "c < UAT_CONTEXT_COUNT" "v AND UAT_PAGE_MASK = 0"
    "\<not> (v \<ge> UAT_LOW_LIMIT \<and> v < UAT_HIGH_BASE)"
    "AppleAgxUatFindPage iv (if v < UAT_LOW_LIMIT then rt_Ttbr0PhysicalAddress roots
       else rt_Ttbr1PhysicalAddress roots) 0 = Some root"
    "translates root v d iv" "pa = d AND UAT_ADDRESS_MASK" "pa \<noteq> 0" "d AND 3 = 3"
proof -
  have nz: "w \<noteq> 0" if "w AND 3 = (3::u64)" for w using that by auto
  show thesis
    using assms nz [of d] that
    by (auto simp: AppleAgxUatResolvePage_def Let_def translates_def not_le
        split: if_splits option.splits sum.splits)
qed

lemma Resolve_intro:
  assumes "c < UAT_CONTEXT_COUNT" "v AND UAT_PAGE_MASK = 0"
    "\<not> (v \<ge> UAT_LOW_LIMIT \<and> v < UAT_HIGH_BASE)"
    "AppleAgxUatFindPage iv (if v < UAT_LOW_LIMIT then rt_Ttbr0PhysicalAddress roots
       else rt_Ttbr1PhysicalAddress roots) 0 = Some root"
    "translates root v d iv" "pa = d AND UAT_ADDRESS_MASK" "pa \<noteq> 0" "d AND 3 = 3"
  shows "AppleAgxUatResolvePage c roots v iv = (AppleAgxUatResultOk, pa, d)"
  using assms by (auto simp: AppleAgxUatResolvePage_def Let_def translates_def not_le)

lemma Resolve_ext:
  assumes "AppleAgxUatResolvePage c roots v iv = (AppleAgxUatResultOk, pa, d)"
    and "uat_ext iv iv1" and "uat_wf iv" and "uat_wf iv1"
  shows "AppleAgxUatResolvePage c roots v iv1 = (AppleAgxUatResultOk, pa, d)"
proof -
  from Resolve_Ok [OF assms(1)] obtain root where r: "c < UAT_CONTEXT_COUNT" "v AND UAT_PAGE_MASK = 0"
    "\<not> (v \<ge> UAT_LOW_LIMIT \<and> v < UAT_HIGH_BASE)"
    "AppleAgxUatFindPage iv (if v < UAT_LOW_LIMIT then rt_Ttbr0PhysicalAddress roots
       else rt_Ttbr1PhysicalAddress roots) 0 = Some root"
    "translates root v d iv" "pa = d AND UAT_ADDRESS_MASK" "pa \<noteq> 0" "d AND 3 = 3" .
  have "root < npages iv" using FindPage_Some [OF r(4)] by simp
  then show ?thesis
    by (intro Resolve_intro [OF r(1-3) FindPage_ext [OF r(4) assms(2,4)] _ r(6-8)]
        translates_ext [OF r(5) assms(2-4)])
qed

lemma loop_result:
  assumes ml: "map_leaves c root va p (inv_PageCount iv) alc
       (map (\<lambda>i. (of_nat i * UAT_PAGE_SIZE, phys i)) [0..<n]) 0 iv al = (r, iv2, al1)"
    and v: "AppleAgxUatValidateRange c va pa len p = Inr half" "unat len = n * 0x4000"
    and root: "AppleAgxUatFindPage iv (root_of roots half) 0 = Some root"
    and wf: "uat_wf iv" and own: "uat_owned live iv al" and src: "page_source alc live"
  shows "if r = AppleAgxUatResultOk
         then uat_wf iv2 \<and> uat_owned live iv2 al1 \<and> uat_ext iv iv2 \<and> c < UAT_CONTEXT_COUNT \<and>
              (\<forall>i<n. in_half half (va + of_nat i * UAT_PAGE_SIZE) \<and>
                 (\<exists>d. translates root (va + of_nat i * UAT_PAGE_SIZE) d iv2 \<and>
                      AppleAgxUatEncodePageDescriptor c (phys i) p = Inr d))
         else iv2 = iv \<and> live al1 = live al"
proof -
  let ?b = "map (\<lambda>i. (of_nat i * UAT_PAGE_SIZE, phys i)) [0..<n]"
  have n: "(0 + length ?b) * 0x4000 < 2 ^ 64"
    using v(2) unsigned_less [of len, where 'a = nat] by simp
  have ml0: "map_leaves c root va p (inv_PageCount iv) alc ?b (of_nat (0 * 0x4000)) iv al =
      (r, iv2, al1)" using ml by simp
  have fst: "map fst ?b = map (\<lambda>i. of_nat i * UAT_PAGE_SIZE) [0..<0 + length ?b]" by simp
  have g0: "uat_grown live root va (page_offsets 0) iv al iv al"
    using uat_grown_start [OF wf, of live root va al] by (simp add: page_offsets_def)
  have rt: "root < npages iv" "page_level iv root = 0" using FindPage_Some [OF root] by simp_all
  note spec = map_leaves_spec [OF ml0 fst n g0 own src wf rt]
  show ?thesis
  proof (cases "r = AppleAgxUatResultOk")
    case False
    with spec show ?thesis by simp
  next
    case True
    with spec have s: "uat_grown live root va (page_offsets (0 + length ?b)) iv al iv2 al1"
      "uat_ext iv iv2"
      "\<forall>(ofs, pa)\<in>set ?b. \<exists>d. translates root (va + ofs) d iv2 \<and>
         AppleAgxUatEncodePageDescriptor c pa p = Inr d" by simp_all
    have "in_half half (va + of_nat i * UAT_PAGE_SIZE) \<and>
        (\<exists>d. translates root (va + of_nat i * UAT_PAGE_SIZE) d iv2 \<and>
             AppleAgxUatEncodePageDescriptor c (phys i) p = Inr d)" if i: "i < n" for i
    proof -
      have "(of_nat i * UAT_PAGE_SIZE, phys i) \<in> set ?b" using i by simp
      from bspec [OF s(3) this] range_pages(1) [OF v(1), of i] v(2) i show ?thesis by simp
    qed
    with True uat_grown_wf [OF s(1)] uat_grown_owned [OF s(1) own] s(2) validate_context [OF v(1)]
    show ?thesis by simp
  qed
qed

text \<open>The physical pages a successful or refused map was asked to back the range with.\<close>

definition uat_request ::
  "u32 \<Rightarrow> APPLE_AGX_UAT_ROOTS \<Rightarrow> u64 \<Rightarrow> APPLE_AGX_UAT_PROTECTION \<Rightarrow> (nat \<Rightarrow> u64) \<Rightarrow> nat
   \<Rightarrow> 'al APPLE_AGX_UAT_ALLOCATOR \<Rightarrow> APPLE_AGX_UAT_INVENTORY \<Rightarrow> 'al \<Rightarrow> APPLE_AGX_UAT_RESULT
   \<Rightarrow> APPLE_AGX_UAT_INVENTORY \<Rightarrow> 'al \<Rightarrow> bool" where
  "uat_request c roots va p phys n alc iv al r iv1 al1 \<longleftrightarrow>
     (\<exists>pa len. AppleAgxUatMap c roots va pa len p alc iv al = (r, iv1, al1) \<and>
        phys = (\<lambda>i. pa + of_nat i * UAT_PAGE_SIZE) \<and> n = unat len div 0x4000) \<or>
     (\<exists>pages count. AppleAgxUatMapPageList c roots va pages count p alc iv al = (r, iv1, al1) \<and>
        phys = (!) pages \<and> n = unat count)"

lemma request_result:
  assumes rq: "uat_request c roots va p phys n alc iv al r iv1 al1"
    and wf: "uat_wf iv" and own: "uat_owned live iv al" and src: "page_source alc live"
  shows "if r = AppleAgxUatResultOk
         then \<exists>half root iv2 m. iv1 = add_mapping m iv2 \<and>
              AppleAgxUatFindPage iv (root_of roots half) 0 = Some root \<and>
              uat_wf iv2 \<and> uat_owned live iv2 al1 \<and> uat_ext iv iv2 \<and> c < UAT_CONTEXT_COUNT \<and>
              (\<forall>i<n. in_half half (va + of_nat i * UAT_PAGE_SIZE) \<and>
                 (\<exists>d. translates root (va + of_nat i * UAT_PAGE_SIZE) d iv2 \<and>
                      AppleAgxUatEncodePageDescriptor c (phys i) p = Inr d))
         else iv1 = iv \<and> live al1 = live al"
proof -
  from rq consider
      (map) pa len where "AppleAgxUatMap c roots va pa len p alc iv al = (r, iv1, al1)"
        "phys = (\<lambda>i. pa + of_nat i * UAT_PAGE_SIZE)" "n = unat len div 0x4000"
    | (pages) pages count where
        "AppleAgxUatMapPageList c roots va pages count p alc iv al = (r, iv1, al1)"
        "phys = (!) pages" "n = unat count"
    unfolding uat_request_def by (elim disjE exE conjE)
  then show ?thesis
  proof cases
    case (map pa len)
    from map(1) show ?thesis
    proof (cases rule: Map_loop)
      case early
      then show ?thesis by simp
    next
      case (loop half root iv2 m k)
      have k: "n = k" using map(3) loop(2) by simp
      from loop_result [OF loop(4) [folded fun_cong [OF map(2)]] loop(1,2,3) wf own src] loop(3,5)
      show ?thesis unfolding k by (cases "r = AppleAgxUatResultOk") (simp_all, blast)
    qed
  next
    case (pages pages count)
    from pages(1) show ?thesis
    proof (cases rule: MapPageList_loop)
      case early
      then show ?thesis by simp
    next
      case (loop half root iv2 m len)
      from loop_result [OF loop(4) [folded pages(2)] loop(1,2,3) wf own src] loop(3,5)
      show ?thesis unfolding pages(3) by (cases "r = AppleAgxUatResultOk") (simp_all, blast)
    qed
  qed
qed

lemma resolve_in_half:
  assumes "c < UAT_CONTEXT_COUNT" and "in_half half v"
    and "AppleAgxUatFindPage iv (root_of roots half) 0 = Some root"
    and "translates root v d iv" and "AppleAgxUatEncodePageDescriptor c pa p = Inr d" and "pa \<noteq> 0"
  shows "AppleAgxUatResolvePage c roots v iv = (AppleAgxUatResultOk, pa, d)"
proof (rule Resolve_intro [OF assms(1) _ _ _ assms(4) _ assms(6)])
  show "v AND UAT_PAGE_MASK = 0" using assms(2) by (simp add: in_half_def)
  have h: "(half = AppleAgxUatTtbr0 \<longrightarrow> v < UAT_LOW_LIMIT) \<and>
      (half = AppleAgxUatTtbr1 \<longrightarrow> \<not> v < UAT_LOW_LIMIT \<and> \<not> v < UAT_HIGH_BASE)"
    using assms(2) by (cases half) (simp_all add: in_half_def word_le_nat_alt word_less_nat_alt)
  then show "\<not> (v \<ge> UAT_LOW_LIMIT \<and> v < UAT_HIGH_BASE)"
    by (cases half) (simp_all add: not_le)
  have "(if v < UAT_LOW_LIMIT then rt_Ttbr0PhysicalAddress roots
       else rt_Ttbr1PhysicalAddress roots) = root_of roots half"
    using h by (cases half) (simp_all add: root_of_def)
  then show "AppleAgxUatFindPage iv (if v < UAT_LOW_LIMIT then rt_Ttbr0PhysicalAddress roots
       else rt_Ttbr1PhysicalAddress roots) 0 = Some root"
    by (simp only: assms(3))
  show "pa = d AND UAT_ADDRESS_MASK" "d AND 3 = 3"
    using encode_page_address [OF assms(5)] by simp_all
qed

section \<open>A concrete allocator and inventory\<close>

definition blank_entries :: "u64 list" where
  "blank_entries = replicate 2048 0"

definition pool_pages :: "u64 list" where
  "pool_pages = [0x10000, 0x14000, 0x18000, 0x1c000]"

text \<open>The allocator state is the list of the pages in use.\<close>

definition pool_allocator :: "u64 list APPLE_AGX_UAT_ALLOCATOR" where
  "pool_allocator =
     \<lparr> al_AllocatePage = Some (\<lambda>used candidate.
         case find (\<lambda>a. a \<notin> set used) pool_pages of
           None \<Rightarrow> (False, candidate, used)
         | Some a \<Rightarrow> (True, candidate\<lparr> pg_PhysicalAddress := a, pg_EntriesAddress := a,
                                        pg_Entries := blank_entries \<rparr>, a # used)),
       al_ReleasePage = Some (\<lambda>used page. removeAll (pg_PhysicalAddress page) used) \<rparr>"

lemma pool_source: "page_source pool_allocator set"
  by (auto simp: page_source_def pool_allocator_def uat_release_def blank_entries_def find_Some_iff
      split: option.splits if_splits)

definition table_demo :: "u32 \<Rightarrow> APPLE_AGX_UAT_INVENTORY" where
  "table_demo capacity =
     \<lparr> inv_Pages = Some (\<lparr> pg_PhysicalAddress = 0x10000, pg_EntriesAddress = 0x10000,
                            pg_Entries = blank_entries, pg_Level = 0 \<rparr> #
                          replicate (unat capacity - 1) page_zero),
       inv_PageCapacity = capacity, inv_PageCount = 1,
       inv_Mappings = Some [\<lparr> um_Context = 0, um_VirtualAddress = 0, um_PhysicalAddress = 0,
         um_Length = 0, um_Protection = AppleAgxUatProtectionNone, um_PhysicalStride = 0 \<rparr>],
       inv_MappingCapacity = 1, inv_MappingCount = 0 \<rparr>"

definition roots_demo :: APPLE_AGX_UAT_ROOTS where
  "roots_demo = \<lparr> rt_Ttbr0PhysicalAddress = 0x10000, rt_Ttbr1PhysicalAddress = 0 \<rparr>"

lemma blank_simps [simp]:
  "length blank_entries = 2048" "i < 2048 \<Longrightarrow> blank_entries ! i = 0"
  "list_all (\<lambda>e. e = 0) (take 2048 blank_entries)" "list_all (\<lambda>e. e = 0) blank_entries"
  by (simp_all add: blank_entries_def list_all_length)

lemma table_demo_wf:
  assumes "capacity \<noteq> 0"
  shows "uat_wf (table_demo capacity)" and "uat_owned set (table_demo capacity) [0x10000]"
proof -
  have "1 \<le> unat capacity" using assms by (simp add: unat_gt_0 Suc_le_eq)
  then show "uat_wf (table_demo capacity)"
    by (auto simp: uat_wf_def table_demo_def page_ok_def entry_ok_def get_leaf_def entry_count_def
        nth_Cons split: nat.splits)
  show "uat_owned set (table_demo capacity) [0x10000]"
    by (simp add: uat_owned_def table_demo_def)
qed

section \<open>Properties\<close>

lemma request_resolves:
  assumes "uat_request c roots va p phys n alc iv al AppleAgxUatResultOk iv1 al1"
    and "uat_wf iv" and "uat_owned live iv al" and "page_source alc live"
  shows "(\<forall>i<n. phys i \<noteq> 0 \<longrightarrow> (\<exists>d. AppleAgxUatEncodePageDescriptor c (phys i) p = Inr d \<and>
            AppleAgxUatResolvePage c roots (va + of_nat i * UAT_PAGE_SIZE) iv1 =
              (AppleAgxUatResultOk, phys i, d))) \<and>
         (\<forall>c' roots' v pa d. AppleAgxUatResolvePage c' roots' v iv = (AppleAgxUatResultOk, pa, d) \<longrightarrow>
            AppleAgxUatResolvePage c' roots' v iv1 = (AppleAgxUatResultOk, pa, d)) \<and>
         uat_wf iv1 \<and> uat_owned live iv1 al1"
proof -
  from request_result [OF assms] obtain half root iv2 m where
    iv1: "iv1 = add_mapping m iv2" and rt: "AppleAgxUatFindPage iv (root_of roots half) 0 = Some root"
    and wf2: "uat_wf iv2" and own2: "uat_owned live iv2 al1" and ext: "uat_ext iv iv2"
    and c: "c < UAT_CONTEXT_COUNT"
    and tr: "\<forall>i<n. in_half half (va + of_nat i * UAT_PAGE_SIZE) \<and>
       (\<exists>d. translates root (va + of_nat i * UAT_PAGE_SIZE) d iv2 \<and>
            AppleAgxUatEncodePageDescriptor c (phys i) p = Inr d)"
    by (simp only: simp_thms if_True) blast
  note same = same_pages [of "add_mapping m iv2" iv2, simplified]
  note rt2 = FindPage_ext [OF rt ext wf2]
  have "\<exists>d. AppleAgxUatEncodePageDescriptor c (phys i) p = Inr d \<and>
      AppleAgxUatResolvePage c roots (va + of_nat i * UAT_PAGE_SIZE) iv1 =
        (AppleAgxUatResultOk, phys i, d)" if i: "i < n" "phys i \<noteq> 0" for i
  proof -
    from tr i(1) obtain d where h: "in_half half (va + of_nat i * UAT_PAGE_SIZE)"
      and t: "translates root (va + of_nat i * UAT_PAGE_SIZE) d iv2"
      and e: "AppleAgxUatEncodePageDescriptor c (phys i) p = Inr d" by blast
    from resolve_in_half [OF c h rt2 t e i(2)] e show ?thesis by (simp add: iv1 same)
  qed
  moreover have "AppleAgxUatResolvePage c' roots' v iv1 = (AppleAgxUatResultOk, pa, d)"
    if "AppleAgxUatResolvePage c' roots' v iv = (AppleAgxUatResultOk, pa, d)" for c' roots' v pa d
    using Resolve_ext [OF that ext assms(2) wf2] by (simp add: iv1 same)
  ultimately show ?thesis using wf2 own2 by (simp add: iv1 same)
qed

text \<open>C2. A map that succeeds makes every page of its range translate to the physical page asked for
  (page zero aside, which the walk reports as unmapped) with the descriptor of its context and
  protection, leaves every translation that was there before, in any address space of the inventory,
  exactly as it was, and keeps the tables well formed and owned.\<close>

theorem uat_map_resolves:
  assumes "uat_request c roots va p phys n alc iv al AppleAgxUatResultOk iv1 al1"
    and "uat_wf iv" and "uat_owned live iv al" and "page_source alc live"
  shows "(\<forall>i<n. phys i \<noteq> 0 \<longrightarrow> (\<exists>d. AppleAgxUatEncodePageDescriptor c (phys i) p = Inr d \<and>
            AppleAgxUatResolvePage c roots (va + of_nat i * UAT_PAGE_SIZE) iv1 =
              (AppleAgxUatResultOk, phys i, d))) \<and>
         (\<forall>c' roots' v pa d. AppleAgxUatResolvePage c' roots' v iv = (AppleAgxUatResultOk, pa, d) \<longrightarrow>
            AppleAgxUatResolvePage c' roots' v iv1 = (AppleAgxUatResultOk, pa, d)) \<and>
         uat_wf iv1 \<and> uat_owned live iv1 al1"
  by (rule request_resolves [OF assms])

lemma table_demo_map:
  "\<exists>iv1 al1. AppleAgxUatMap 1 roots_demo 0 0x123454000 0x4000 AppleAgxUatGpuSharedReadWrite
     pool_allocator (table_demo 4) [0x10000] = (AppleAgxUatResultOk, iv1, al1)"
proof -
  have o: "uat_offsets 0x4000 = [0]" by (simp add: uat_offsets_def)
  have l: "level0_index 0 = 0" "level1_index 0 = 0" "level2_index 0 = 0"
    by (simp_all add: level0_index_def level1_index_def level2_index_def)
  show ?thesis
    by (simp add: AppleAgxUatMap_def AppleAgxUatCheckOwnerArguments_def table_demo_def
        pool_allocator_def AppleAgxUatValidateRange_def AppleAgxUatProtectionBits_def
        mapping_overlaps_def AppleAgxUatFindPage_def roots_demo_def root_of_def o l Let_def
        AppleAgxUatFindLeaf_def AppleAgxUatGetChild_def get_leaf_def word_le_nat_alt
        AppleAgxUatAllocateRecordedPage_def pool_pages_def AppleAgxUatPageIsZero_def
        AppleAgxUatEncodeTableDescriptor_def set_leaf_def AppleAgxUatEncodePageDescriptor_def)
qed

theorem uat_map_resolves_witness:
  "\<exists>iv1 al1. AppleAgxUatMap 1 roots_demo 0 0x123454000 0x4000 AppleAgxUatGpuSharedReadWrite
     pool_allocator (table_demo 4) [0x10000] = (AppleAgxUatResultOk, iv1, al1) \<and>
     (\<exists>d. AppleAgxUatResolvePage 1 roots_demo 0 iv1 = (AppleAgxUatResultOk, 0x123454000, d))"
proof -
  from table_demo_map obtain iv1 al1 where
    m: "AppleAgxUatMap 1 roots_demo 0 0x123454000 0x4000 AppleAgxUatGpuSharedReadWrite
      pool_allocator (table_demo 4) [0x10000] = (AppleAgxUatResultOk, iv1, al1)" by blast
  have "uat_request 1 roots_demo 0 AppleAgxUatGpuSharedReadWrite
      (\<lambda>i. 0x123454000 + of_nat i * UAT_PAGE_SIZE) (unat (0x4000::u64) div 0x4000)
      pool_allocator (table_demo 4) [0x10000] AppleAgxUatResultOk iv1 al1"
    unfolding uat_request_def using m by blast
  from uat_map_resolves [OF this table_demo_wf pool_source] m show ?thesis by fastforce
qed

text \<open>C22. A map that is refused, for whatever reason and however far it got, leaves the inventory
  exactly as it was and gives every page it had taken back to the allocator.\<close>

theorem uat_map_refused_restores:
  assumes "uat_request c roots va p phys n alc iv al r iv1 al1" and "r \<noteq> AppleAgxUatResultOk"
    and "uat_wf iv" and "uat_owned live iv al" and "page_source alc live"
  shows "iv1 = iv \<and> live al1 = live al"
  using request_result [OF assms(1,3-5)] assms(2) by simp

lemma table_demo_full:
  "fst (AppleAgxUatMap 1 roots_demo 0 0x123454000 0x4000 AppleAgxUatGpuSharedReadWrite
     pool_allocator (table_demo 2) [0x10000]) = AppleAgxUatResultCapacity"
proof -
  have o: "uat_offsets 0x4000 = [0]" by (simp add: uat_offsets_def)
  have l: "level0_index 0 = 0" "level1_index 0 = 0" "level2_index 0 = 0"
    by (simp_all add: level0_index_def level1_index_def level2_index_def)
  show ?thesis
    by (simp add: AppleAgxUatMap_def AppleAgxUatCheckOwnerArguments_def table_demo_def
        pool_allocator_def AppleAgxUatValidateRange_def AppleAgxUatProtectionBits_def
        mapping_overlaps_def AppleAgxUatFindPage_def roots_demo_def root_of_def o l Let_def
        AppleAgxUatFindLeaf_def AppleAgxUatGetChild_def get_leaf_def word_le_nat_alt
        AppleAgxUatAllocateRecordedPage_def pool_pages_def AppleAgxUatPageIsZero_def
        AppleAgxUatEncodeTableDescriptor_def set_leaf_def split_beta)
qed

theorem uat_map_refused_restores_witness:
  "\<exists>al1. AppleAgxUatMap 1 roots_demo 0 0x123454000 0x4000 AppleAgxUatGpuSharedReadWrite
     pool_allocator (table_demo 2) [0x10000] = (AppleAgxUatResultCapacity, table_demo 2, al1) \<and>
     set al1 = {0x10000}"
proof -
  obtain r iv1 al1 where
    m: "AppleAgxUatMap 1 roots_demo 0 0x123454000 0x4000 AppleAgxUatGpuSharedReadWrite
      pool_allocator (table_demo 2) [0x10000] = (r, iv1, al1)" by (rule prod_cases3)
  have rq: "uat_request 1 roots_demo 0 AppleAgxUatGpuSharedReadWrite
      (\<lambda>i. 0x123454000 + of_nat i * UAT_PAGE_SIZE) (unat (0x4000::u64) div 0x4000)
      pool_allocator (table_demo 2) [0x10000] r iv1 al1"
    unfolding uat_request_def using m by blast
  have r: "r = AppleAgxUatResultCapacity" using table_demo_full m by simp
  from uat_map_refused_restores [OF rq _ table_demo_wf pool_source] m show ?thesis by (simp add: r)
qed

section \<open>Replacing the backing of mappings\<close>

abbreviation range_key :: "APPLE_AGX_UAT_RANGE \<Rightarrow> u64 \<times> u64" where
  "range_key r \<equiv> (ur_VirtualAddress r, ur_Length r)"

definition exact :: "u32 \<Rightarrow> APPLE_AGX_UAT_RANGE \<Rightarrow> APPLE_AGX_UAT_MAPPING \<Rightarrow> bool" where
  "exact c r m \<longleftrightarrow>
     um_Context m = c \<and> um_VirtualAddress m = ur_VirtualAddress r \<and>
     um_PhysicalAddress m = ur_PhysicalAddress r \<and> um_Length m = ur_Length r \<and>
     um_Protection m = ur_Protection r"

lemma find_exact_Some:
  "find_exact c r iv = Some i \<Longrightarrow>
   i < unat (inv_MappingCount iv) \<and> exact c r (uat_mappings iv ! i)"
  unfolding find_exact_def by (drule find_upt_less) (simp add: exact_def Let_def)

lemma find_exact_iff:
  "find_exact c r iv \<noteq> None \<longleftrightarrow> (\<exists>i<unat (inv_MappingCount iv). exact c r (uat_mappings iv ! i))"
proof -
  have "find_exact c r iv = None \<longleftrightarrow>
      \<not> (\<exists>i<unat (inv_MappingCount iv). exact c r (uat_mappings iv ! i))"
    unfolding find_exact_def find_None_iff by (simp add: exact_def Let_def)
  then show ?thesis by (simp only: not_not)
qed

lemma write_leaf_frame [simp]:
  "inv_Mappings (write_leaf c root v pa p iv) = inv_Mappings iv"
  "inv_MappingCount (write_leaf c root v pa p iv) = inv_MappingCount iv"
  "AppleAgxUatFindPage (write_leaf c root v pa p iv) a l = AppleAgxUatFindPage iv a l"
  by (simp_all add: write_leaf_def split: sum.split)

lemma write_leaves_frame [simp]:
  "inv_Mappings (fold (\<lambda>o'. write_leaf c root (f o') (g o') p) offs iv) = inv_Mappings iv"
  "inv_MappingCount (fold (\<lambda>o'. write_leaf c root (f o') (g o') p) offs iv) = inv_MappingCount iv"
  "AppleAgxUatFindPage (fold (\<lambda>o'. write_leaf c root (f o') (g o') p) offs iv) a l =
   AppleAgxUatFindPage iv a l"
  by (induction offs arbitrary: iv) simp_all

lemma set_backing_frame [simp]:
  "inv_MappingCount (set_backing i pa p s iv) = inv_MappingCount iv"
  "AppleAgxUatFindPage (set_backing i pa p s iv) a l = AppleAgxUatFindPage iv a l"
  by (simp add: set_backing_def) (rule same_pages(2); simp add: set_backing_def)

text \<open>A range whose record is another one keeps it.\<close>

lemma set_backing_other:
  assumes "find_exact c old iv = Some i" and "find_exact c r iv \<noteq> None"
    and "range_key r \<noteq> range_key old"
    and "inv_Mappings iv1 = inv_Mappings iv" and "inv_MappingCount iv1 = inv_MappingCount iv"
  shows "find_exact c r (set_backing i pa p s iv1) \<noteq> None"
proof -
  from assms(2) obtain j where j: "j < unat (inv_MappingCount iv)" "exact c r (uat_mappings iv ! j)"
    unfolding find_exact_iff by blast
  have "j \<noteq> i" using find_exact_Some [OF assms(1)] j(2) assms(3) by (auto simp: exact_def)
  with j assms(4,5) show ?thesis unfolding find_exact_iff
    by (auto simp: set_backing_def intro!: exI [of _ j])
qed

lemma set_backing_exact:
  assumes "find_exact c old iv = Some i" and "range_key new = range_key old"
    and "unat (inv_MappingCount iv) \<le> length (uat_mappings iv)"
    and "inv_Mappings iv1 = inv_Mappings iv" and "inv_MappingCount iv1 = inv_MappingCount iv"
  shows "find_exact c new (set_backing i (ur_PhysicalAddress new) (ur_Protection new) s iv1) \<noteq> None"
  using find_exact_Some [OF assms(1)] assms(2-5) unfolding find_exact_iff
  by (auto simp: set_backing_def exact_def intro!: exI [of _ i])

definition replaceable ::
  "u32 \<Rightarrow> APPLE_AGX_UAT_ROOTS \<Rightarrow> APPLE_AGX_UAT_INVENTORY \<Rightarrow> APPLE_AGX_UAT_RANGE \<times> APPLE_AGX_UAT_RANGE
   \<Rightarrow> bool" where
  "replaceable c roots iv r \<longleftrightarrow>
     range_key (snd r) = range_key (fst r) \<and> find_exact c (fst r) iv \<noteq> None \<and>
     (\<exists>half. AppleAgxUatValidateRange c (ur_VirtualAddress (snd r)) (ur_PhysicalAddress (snd r))
               (ur_Length (snd r)) (ur_Protection (snd r)) = Inr half \<and>
             AppleAgxUatFindPage iv (root_of roots half) 0 \<noteq> None)"

lemma validate_same_half:
  assumes "AppleAgxUatValidateRange c va pa len p = Inr h"
    and "AppleAgxUatValidateRange c va pa' len p' = Inr h'"
  shows "h' = h"
  using assms by (cases h; cases h') (auto simp: validate_range_iff)

lemma validate_replacements_Ok:
  assumes "validate_replacements c roots rs earlier iv = AppleAgxUatResultOk"
  shows "(\<forall>r\<in>set rs. replaceable c roots iv r \<and> range_key (fst r) \<notin> range_key ` set earlier) \<and>
         distinct (map (\<lambda>r. range_key (fst r)) rs)"
  using assms
proof (induction rs arbitrary: earlier)
  case (Cons r rs)
  obtain old new where r: "r = (old, new)" by (cases r)
  from Cons.prems obtain half where
    k: "range_key new = range_key old"
    and ex: "AppleAgxUatValidateExactMapping c roots old iv = AppleAgxUatResultOk"
    and new: "AppleAgxUatValidateRange c (ur_VirtualAddress new) (ur_PhysicalAddress new)
          (ur_Length new) (ur_Protection new) = Inr half"
    and ne0: "\<not> list_ex (\<lambda>e. ur_VirtualAddress e = ur_VirtualAddress old \<and>
                 ur_Length e = ur_Length old) earlier"
    and rest: "validate_replacements c roots rs (earlier @ [old]) iv = AppleAgxUatResultOk"
    by (auto simp: r Let_def dest: validate_Inl split: if_splits sum.splits)
  have ne: "range_key old \<notin> range_key ` set earlier" using ne0 by (auto simp: list_ex_iff)
  from ex obtain half0 where
    h0: "AppleAgxUatValidateRange c (ur_VirtualAddress old) (ur_PhysicalAddress old)
          (ur_Length old) (ur_Protection old) = Inr half0"
    and fe: "find_exact c old iv \<noteq> None"
    and rt: "AppleAgxUatFindPage iv (root_of roots half0) 0 \<noteq> None"
    by (auto simp: AppleAgxUatValidateExactMapping_def dest: validate_Inl
        split: if_splits sum.splits option.splits)
  have "half = half0" using validate_same_half [OF h0, of "ur_PhysicalAddress new" "ur_Protection new" half]
      new k by simp
  with k new fe rt have "replaceable c roots iv r" by (simp add: replaceable_def r)
  with Cons.IH [OF rest] ne show ?case by (auto simp: r)
qed simp

lemma replace_ranges_Ok:
  assumes "\<forall>r\<in>set rs. replaceable c roots iv r" and "distinct (map (\<lambda>r. range_key (fst r)) rs)"
    and "unat (inv_MappingCount iv) \<le> length (uat_mappings iv)"
  shows "\<exists>iv1. replace_ranges c roots s rs iv = (AppleAgxUatResultOk, iv1) \<and>
          inv_MappingCount iv1 = inv_MappingCount iv \<and>
          (\<forall>r\<in>set rs. find_exact c (snd r) iv1 \<noteq> None) \<and>
          (\<forall>r. find_exact c r iv \<noteq> None \<longrightarrow> range_key r \<notin> (\<lambda>r. range_key (fst r)) ` set rs \<longrightarrow>
             find_exact c r iv1 \<noteq> None)"
  using assms
proof (induction rs arbitrary: iv)
  case Nil
  then show ?case by simp
next
  case (Cons r rs)
  obtain old new where r: "r = (old, new)" by (cases r)
  from Cons.prems(1) obtain half root i where
    k: "range_key new = range_key old" and fe: "find_exact c old iv = Some i"
    and v: "AppleAgxUatValidateRange c (ur_VirtualAddress new) (ur_PhysicalAddress new)
          (ur_Length new) (ur_Protection new) = Inr half"
    and rt: "AppleAgxUatFindPage iv (root_of roots half) 0 = Some root"
    by (auto simp: replaceable_def r)
  let ?iv1 = "fold (\<lambda>offset. write_leaf c root (ur_VirtualAddress new + offset)
      (if s = 0 then ur_PhysicalAddress new else ur_PhysicalAddress new + offset)
      (ur_Protection new)) (uat_offsets (ur_Length new)) iv"
  let ?iv = "set_backing i (ur_PhysicalAddress new) (ur_Protection new) s ?iv1"
  have st: "replace_ranges c roots s (r # rs) iv = replace_ranges c roots s rs ?iv"
    by (simp add: r fe v rt)
  have fr: "inv_Mappings ?iv1 = inv_Mappings iv" "inv_MappingCount ?iv1 = inv_MappingCount iv" by simp_all
  have other: "find_exact c q ?iv \<noteq> None" if "find_exact c q iv \<noteq> None" "range_key q \<noteq> range_key old" for q
    by (rule set_backing_other [OF fe that fr])
  have new: "find_exact c new ?iv \<noteq> None" by (rule set_backing_exact [OF fe k Cons.prems(3) fr])
  have old_ne: "range_key (fst q) \<noteq> range_key old" if "q \<in> set rs" for q
    using Cons.prems(2) that by (force simp: r)
  have rep: "\<forall>q\<in>set rs. replaceable c roots ?iv q"
    using Cons.prems(1) other old_ne by (auto simp: replaceable_def r)
  have ml: "unat (inv_MappingCount ?iv) \<le> length (uat_mappings ?iv)"
    using Cons.prems(3) by (simp add: set_backing_def)
  have d: "distinct (map (\<lambda>r. range_key (fst r)) rs)" using Cons.prems(2) by simp
  from Cons.IH [OF rep d ml] obtain iv1 where i: "replace_ranges c roots s rs ?iv = (AppleAgxUatResultOk, iv1)"
    "inv_MappingCount iv1 = inv_MappingCount ?iv" "\<forall>q\<in>set rs. find_exact c (snd q) iv1 \<noteq> None"
    "\<forall>q. find_exact c q ?iv \<noteq> None \<longrightarrow> range_key q \<notin> (\<lambda>r. range_key (fst r)) ` set rs \<longrightarrow>
       find_exact c q iv1 \<noteq> None" by blast
  have "range_key new \<notin> (\<lambda>r. range_key (fst r)) ` set rs"
    by (metis (mono_tags, lifting) imageE k old_ne)
  with i(4) new have "find_exact c new iv1 \<noteq> None" by blast
  moreover have "\<forall>q. find_exact c q iv \<noteq> None \<longrightarrow> range_key q \<notin> (\<lambda>r. range_key (fst r)) ` set (r # rs) \<longrightarrow>
      find_exact c q iv1 \<noteq> None"
    using i(4) other by (simp add: r)
  ultimately show ?case using i(1-3) st by (auto simp: r)
qed

text \<open>Either replace function over the pairs of old and new ranges.\<close>

definition replace_request ::
  "u32 \<Rightarrow> APPLE_AGX_UAT_ROOTS \<Rightarrow> (APPLE_AGX_UAT_RANGE \<times> APPLE_AGX_UAT_RANGE) list
   \<Rightarrow> 'al APPLE_AGX_UAT_ALLOCATOR \<Rightarrow> APPLE_AGX_UAT_INVENTORY \<Rightarrow> APPLE_AGX_UAT_RESULT
   \<Rightarrow> APPLE_AGX_UAT_INVENTORY \<Rightarrow> bool" where
  "replace_request c roots rs alc iv r iv1 \<longleftrightarrow>
     (\<exists>olds news count. AppleAgxUatReplaceBatch c roots olds news count alc iv = (r, iv1) \<and>
        rs = take (unat count) (zip olds news)) \<or>
     (\<exists>ranges count pa p. AppleAgxUatReplaceBatchWithPage c roots ranges count pa p alc iv = (r, iv1) \<and>
        rs = map (\<lambda>r. (r, r\<lparr> ur_PhysicalAddress := pa, ur_Protection := p \<rparr>))
               (take (unat count) ranges))"

lemma replace_request_cases:
  assumes "replace_request c roots rs alc iv r iv1"
  shows "r \<noteq> AppleAgxUatResultOk \<and> iv1 = iv \<or>
    validate_replacements c roots rs [] iv = AppleAgxUatResultOk \<and>
    (\<exists>s. replace_ranges c roots s rs iv = (r, iv1))"
  using assms unfolding replace_request_def
  by (auto simp: AppleAgxUatReplaceBatch_def AppleAgxUatReplaceBatchWithPage_def Let_def
      split: if_splits)



section \<open>Destruction\<close>

text \<open>C23. Destroying an inventory gives every live page back to the allocator exactly once, the last
  one first, and leaves no live page, no mapping and no table content behind.\<close>

theorem uat_destroy_releases_all:
  assumes "AppleAgxUatDestroy alc iv al = (iv1, al1)" and "al_ReleasePage alc \<noteq> None"
    and "uat_wf iv"
  shows "al1 = foldl (uat_release alc) al (rev (take (npages iv) (uat_pages iv))) \<and>
         npages iv1 = 0 \<and> inv_MappingCount iv1 = 0 \<and>
         (\<forall>i<length (uat_pages iv). uat_pages iv1 ! i = page_zero) \<and>
         (page_source alc live \<longrightarrow> live al1 = live al - page_pa iv ` {..<npages iv})"
proof -
  let ?n = "npages iv"
  have n: "?n \<le> length (uat_pages iv)" "inv_Pages iv \<noteq> None" using assms(3) by (simp_all add: uat_wf_def)
  have al1: "al1 = foldl (uat_release alc) al (rev (take ?n (uat_pages iv)))"
    and iv1: "uat_pages iv1 = replicate ?n page_zero @ drop ?n (uat_pages iv)"
    "inv_PageCount iv1 = 0" "inv_MappingCount iv1 = 0"
    using assms(1,2) release_funpow [OF order_refl n, of alc al]
    by (auto simp: AppleAgxUatDestroy_def AppleAgxUatReleaseFrom_def)
  have "uat_pages iv1 ! i = page_zero" if "i < length (uat_pages iv)" for i
    using that assms(3) n(1) by (simp add: iv1 nth_append uat_wf_def)
  moreover have "set (take ?n (uat_pages iv)) = (!) (uat_pages iv) ` {..<?n}"
    using take_drop_upt [of 0 ?n "uat_pages iv"] n(1) by (simp add: atLeast0LessThan)
  then have "live al1 = live al - page_pa iv ` {..<?n}" if "page_source alc live"
    using live_foldl_release [OF that, of al] by (simp add: al1 image_image)
  ultimately show ?thesis using al1 iv1 by simp
qed

theorem uat_destroy_releases_all_witness:
  "snd (AppleAgxUatDestroy pool_allocator (table_demo 4) [0x10000, 0x14000]) = [0x14000]"
proof -
  obtain iv1 al1 where
    d: "AppleAgxUatDestroy pool_allocator (table_demo 4) [0x10000, 0x14000] = (iv1, al1)"
    by (rule prod.exhaust)
  have "al_ReleasePage pool_allocator \<noteq> None" by (simp add: pool_allocator_def)
  from uat_destroy_releases_all [OF d this table_demo_wf(1)] d show ?thesis
    by (simp add: table_demo_def uat_release_def pool_allocator_def)
qed

section \<open>The bound of a page list\<close>

text \<open>A page list is checked as if its first page began a contiguous range of the whole length: a
  list whose pages are each acceptable is refused when its first page is too close to the end of
  the physical space.\<close>

lemma page_list_first_page_bound:
  assumes "2 ^ 40 < unat (pages ! 0) + unat count * 0x4000"
  shows "fst (AppleAgxUatMapPageList c roots va pages count p alc iv al) \<noteq> AppleAgxUatResultOk"
proof
  assume ok: "fst (AppleAgxUatMapPageList c roots va pages count p alc iv al) = AppleAgxUatResultOk"
  obtain r iv1 al1 where m: "AppleAgxUatMapPageList c roots va pages count p alc iv al = (r, iv1, al1)"
    by (rule prod_cases3)
  then show False
  proof (cases rule: MapPageList_loop)
    case early
    with ok m show False by simp
  next
    case (loop half root iv2 mp len)
    from loop(1,2) assms show False by (simp add: validate_range_iff)
  qed
qed

lemma page_list_pages_acceptable:
  "AppleAgxUatValidateRange 1 0 0xffffffc000 0x4000 AppleAgxUatGpuSharedReadWrite = Inr AppleAgxUatTtbr0"
  "AppleAgxUatValidateRange 1 0x4000 0x10000 0x4000 AppleAgxUatGpuSharedReadWrite = Inr AppleAgxUatTtbr0"
  "(2::nat) ^ 40 < unat ([0xffffffc000, 0x10000 :: u64] ! 0) + 2 * 0x4000"
  by (simp_all add: AppleAgxUatValidateRange_def AppleAgxUatProtectionBits_def word_le_nat_alt Let_def)

end
