(* ===== verification/UatUnmap.thy ===== *)
theory UatUnmap
  imports UatTable
begin

unbundle bit_operations_syntax

text \<open>
  Unmapping, the other half of \<^verbatim>\<open>drivers/apple-agx/shared/src/apple_agx_uat_table.c\<close>: the operations are those of
  \<open>UatTable\<close>, this theory shows what they do to the translations of an address space.  Unmapping prunes the
  tables that became empty and moves the last page of the inventory into the gap, so the pages are looked at by
  their physical address and not by their place: a view of the tables, and walks through it.
\<close>

section \<open>Address spaces by physical address\<close>

text \<open>The pages of an inventory, found by their physical address; where a page stands in the array does not
  matter.  A walk through the view follows the addresses of the entries.\<close>

type_synonym page_view = "u64 \<Rightarrow> (u32 \<times> (nat \<Rightarrow> u64)) option"

definition uview :: "APPLE_AGX_UAT_INVENTORY \<Rightarrow> page_view" where
  "uview iv pa =
     map_option (\<lambda>i. (page_level iv i, \<lambda>e. get_leaf iv (i, e))) (find (\<lambda>i. page_pa iv i = pa) [0..<npages iv])"

definition at_level :: "page_view \<Rightarrow> u32 \<Rightarrow> u64 \<Rightarrow> (nat \<Rightarrow> u64) option" where
  "at_level V l pa = (case V pa of Some (k, f) \<Rightarrow> if k = l then Some f else None | None \<Rightarrow> None)"

definition walk :: "page_view \<Rightarrow> u64 \<Rightarrow> u64 \<Rightarrow> u64" where
  "walk V r v =
     (case at_level V 0 r of
        None \<Rightarrow> 0
      | Some f0 \<Rightarrow>
          (case at_level V 1 (f0 (level0_index v) AND UAT_ADDRESS_MASK) of
             None \<Rightarrow> 0
           | Some f1 \<Rightarrow>
               (case at_level V 2 (f1 (level1_index v) AND UAT_ADDRESS_MASK) of
                  None \<Rightarrow> 0
                | Some f2 \<Rightarrow> f2 (level2_index v))))"

definition uat_root :: "APPLE_AGX_UAT_ROOTS \<Rightarrow> u64 \<Rightarrow> u64" where
  "uat_root roots v =
     (if v < UAT_LOW_LIMIT then rt_Ttbr0PhysicalAddress roots else rt_Ttbr1PhysicalAddress roots)"

lemma find_upt_unique:
  assumes "i < n" and "P i" and "\<And>j. j < n \<Longrightarrow> P j \<Longrightarrow> j = i"
  shows "find P [0..<n] = Some i"
proof (cases "find P [0..<n]")
  case None
  with assms(1,2) show ?thesis by (auto simp: find_None_iff)
next
  case (Some j)
  with find_upt_less [OF Some] assms(3) show ?thesis by blast
qed

lemma find_mem: "find P xs = Some x \<Longrightarrow> x \<in> set xs \<and> P x"
  by (induction xs) (auto split: if_splits)

lemma uview_page:
  assumes "uat_wf iv" and "i < npages iv"
  shows "uview iv (page_pa iv i) = Some (page_level iv i, \<lambda>e. get_leaf iv (i, e))"
proof -
  have "find (\<lambda>j. page_pa iv j = page_pa iv i) [0..<npages iv] = Some i"
    using assms by (intro find_upt_unique) (auto dest: uat_wf_distinct)
  then show ?thesis by (simp add: uview_def)
qed

lemma uview_None: "uview iv pa = None \<longleftrightarrow> (\<forall>i<npages iv. page_pa iv i \<noteq> pa)"
  by (auto simp: uview_def find_None_iff)

lemma uview_Some:
  assumes "uview iv pa = Some (l, f)"
  obtains i where "i < npages iv" "page_pa iv i = pa" "page_level iv i = l" "f = (\<lambda>e. get_leaf iv (i, e))"
  using assms by (auto simp: uview_def dest!: find_upt_less)

lemma at_level_uview:
  assumes "uat_wf iv"
  shows "at_level (uview iv) l pa = map_option (\<lambda>i e. get_leaf iv (i, e)) (AppleAgxUatFindPage iv pa l)"
proof (cases "AppleAgxUatFindPage iv pa l")
  case (Some i)
  note f = FindPage_Some [OF Some]
  then have "uview iv pa = Some (l, \<lambda>e. get_leaf iv (i, e))" using uview_page [OF assms, of i] by simp
  with Some show ?thesis by (simp add: at_level_def)
next
  case None
  have "k \<noteq> l" if "uview iv pa = Some (k, f)" for k f
  proof -
    from that obtain i where "i < npages iv" "page_pa iv i = pa" "page_level iv i = k" by (rule uview_Some)
    with FindPage_wf [OF assms this(1)] None show ?thesis by auto
  qed
  with None show ?thesis by (auto simp: at_level_def split: option.split)
qed

lemma walk_uview:
  assumes "uat_wf iv"
  shows "walk (uview iv) r v =
    (case AppleAgxUatFindPage iv r 0 of
       None \<Rightarrow> 0
     | Some root \<Rightarrow>
         (case AppleAgxUatFindExistingLeaf root v iv of Inl _ \<Rightarrow> 0 | Inr leaf \<Rightarrow> get_leaf iv leaf))"
  by (simp add: walk_def AppleAgxUatFindExistingLeaf_def at_level_uview [OF assms] split: option.split)

lemma Resolve_walk:
  assumes "uat_wf iv"
  shows "AppleAgxUatResolvePage c roots v iv =
    (if c \<ge> UAT_CONTEXT_COUNT then (AppleAgxUatResultInvalidArgument, 0, 0)
     else if v AND UAT_PAGE_MASK \<noteq> 0 then (AppleAgxUatResultMisaligned, 0, 0)
     else if v \<ge> UAT_LOW_LIMIT \<and> v < UAT_HIGH_BASE then (AppleAgxUatResultOutOfRange, 0, 0)
     else let d = walk (uview iv) (uat_root roots v) v
          in if d AND 3 \<noteq> 3 \<or> d AND UAT_ADDRESS_MASK = 0 then (AppleAgxUatResultNotMapped, 0, 0)
             else (AppleAgxUatResultOk, d AND UAT_ADDRESS_MASK, d))"
  by (simp add: AppleAgxUatResolvePage_def walk_uview [OF assms] uat_root_def Let_def
      split: option.split sum.split)

section \<open>Removing an empty page from a view\<close>

definition view_count :: "u32 \<Rightarrow> nat" where
  "view_count l = (if l = 0 then 8 else 2048)"

lemma entry_count_level: "entry_count page = view_count (pg_Level page)"
  by (simp add: entry_count_def view_count_def)

lemma index_less_view_count [simp]: "level0_index v < view_count 0" "level1_index v < view_count 1"
  by (simp_all add: view_count_def)

text \<open>\<open>W\<close> is \<open>V\<close> without the page at \<open>q\<close>, which was a table or leaf page with nothing in it, and without the
  entries that led to it.\<close>

definition pruned :: "page_view \<Rightarrow> u64 \<Rightarrow> page_view \<Rightarrow> bool" where
  "pruned V q W \<longleftrightarrow>
     (\<exists>l f. V q = Some (l, f) \<and> l \<noteq> 0 \<and> (\<forall>e<2048. f e = 0)) \<and> V 0 = None \<and> W 0 = None \<and> W q = None \<and>
     (\<forall>p. p \<noteq> q \<longrightarrow> V p = None \<longrightarrow> W p = None) \<and>
     (\<forall>p l f. p \<noteq> q \<longrightarrow> V p = Some (l, f) \<longrightarrow>
        W p = Some (l, \<lambda>e. if l < 2 \<and> e < view_count l \<and> f e AND UAT_ADDRESS_MASK = q then 0 else f e))"

lemma walk_pruned:
  assumes "pruned V q W"
  shows "walk W r v = walk V r v"
proof -
  from assms obtain k g where q: "V q = Some (k, g)" "k \<noteq> 0" "\<forall>e<2048. g e = 0" and z: "V 0 = None" "W 0 = None"
    "W q = None" and o: "\<And>p. p \<noteq> q \<Longrightarrow> V p = None \<Longrightarrow> W p = None"
    "\<And>p l f. p \<noteq> q \<Longrightarrow> V p = Some (l, f) \<Longrightarrow>
        W p = Some (l, \<lambda>e. if l < 2 \<and> e < view_count l \<and> f e AND UAT_ADDRESS_MASK = q then 0 else f e)"
    unfolding pruned_def by blast
  have none: "at_level V l 0 = None" "at_level W l 0 = None" "at_level W l q = None" for l
    using z by (simp_all add: at_level_def)
  have other: "at_level W l p = map_option (\<lambda>f e. if l < 2 \<and> e < view_count l \<and> f e AND UAT_ADDRESS_MASK = q
      then 0 else f e) (at_level V l p)" if "p \<noteq> q" for l p
    using o(1) [OF that] o(2) [OF that] by (cases "V p") (auto simp: at_level_def)
  have at_q: "f e = 0" if "at_level V l q = Some f" "e < 2048" for l f e
    using that q by (auto simp: at_level_def split: if_splits)
  have root: "at_level V 0 q = None" using q by (simp add: at_level_def)
  define leaf where "leaf = (\<lambda>U p. case at_level U 2 p of None \<Rightarrow> 0 | Some f \<Rightarrow> (f (level2_index v) :: u64))"
  have leaf: "leaf W p = leaf V p" "leaf V q = 0" "leaf V 0 = 0" for p
    using none at_q [of 2] by (cases "p = q"; auto simp: leaf_def other split: option.split)+
  define mid where "mid = (\<lambda>U p. case at_level U 1 p of None \<Rightarrow> 0
    | Some f \<Rightarrow> leaf U (f (level1_index v) AND UAT_ADDRESS_MASK))"
  have "leaf V (f (level1_index v) AND UAT_ADDRESS_MASK) = 0" if "at_level V 1 q = Some f" for f
    by (simp add: at_q [OF that] leaf(3))
  then have mid_q: "mid V q = 0" "mid V 0 = 0"
    by (simp_all add: mid_def none(1) leaf(3) split: option.split)
  have mid: "mid W p = mid V p" for p
  proof (cases "p = q")
    case True
    with none mid_q show ?thesis by (simp add: mid_def)
  next
    case False
    with leaf show ?thesis by (simp add: mid_def other split: option.split)
  qed
  have w: "walk U r v = (case at_level U 0 r of None \<Rightarrow> 0
    | Some f \<Rightarrow> mid U (f (level0_index v) AND UAT_ADDRESS_MASK))" for U
    by (simp add: walk_def mid_def leaf_def cong: option.case_cong)
  show ?thesis
  proof (cases "r = q")
    case True
    with none root show ?thesis unfolding w by simp
  next
    case False
    with mid mid_q show ?thesis unfolding w by (simp add: other split: option.split)
  qed
qed

section \<open>Pruning\<close>

text \<open>The entry \<open>e\<close> of page \<open>i\<close> is one the walks follow, and it leads to \<open>q\<close>.\<close>

definition leads :: "APPLE_AGX_UAT_INVENTORY \<Rightarrow> u64 \<Rightarrow> nat \<Rightarrow> nat \<Rightarrow> bool" where
  "leads iv q i e \<longleftrightarrow>
     i < npages iv \<and> page_level iv i < 2 \<and> e < entry_count (uat_pages iv ! i) \<and>
     get_leaf iv (i, e) AND UAT_ADDRESS_MASK = q"

text \<open>No two entries lead to the same page.\<close>

definition uat_tree :: "APPLE_AGX_UAT_INVENTORY \<Rightarrow> bool" where
  "uat_tree iv \<longleftrightarrow> (\<forall>q i e j f. q \<noteq> 0 \<longrightarrow> leads iv q i e \<longrightarrow> leads iv q j f \<longrightarrow> (i, e) = (j, f))"

lemma leads_level:
  assumes "uat_wf iv" and "k < npages iv" and "leads iv (page_pa iv k) i e"
  shows "page_level iv k = page_level iv i + 1" and "get_leaf iv (i, e) \<noteq> 0"
proof -
  show nz: "get_leaf iv (i, e) \<noteq> 0"
    using assms(3) uat_wf_page(3) [OF assms(1,2)] by (auto simp: leads_def)
  have "entry_ok iv i e" using assms(1,3) by (simp add: uat_wf_def leads_def)
  with nz assms(3) obtain j where "j < npages iv" "page_pa iv j = page_pa iv k"
    "page_level iv j = page_level iv i + 1" by (auto simp: entry_ok_def leads_def)
  with uat_wf_distinct [OF assms(1) this(1) assms(2)] show "page_level iv k = page_level iv i + 1" by simp
qed

text \<open>Clearing the reference to a page clears every entry that leads to it.\<close>

lemma clear_parent_entries:
  assumes wf: "uat_wf iv" and tree: "uat_tree iv" and k: "k < npages iv"
  defines "iv' \<equiv> AppleAgxUatClearParentReference (page_level iv k) (page_pa iv k) iv"
  shows "(\<forall>i e. i < npages iv \<longrightarrow> get_leaf iv' (i, e) = (if leads iv (page_pa iv k) i e then 0 else get_leaf iv (i, e))) \<and>
    (iv' = iv \<or> (\<exists>i e. i < npages iv \<and> e < 2048 \<and> iv' = set_leaf (i, e) 0 iv))"
proof -
  let ?es = "concat (map (\<lambda>i. map (Pair i) [0..<entry_count (uat_pages iv ! i)])
      (filter (\<lambda>i. page_level iv i + 1 = page_level iv k) [0..<npages iv]))"
  let ?P = "\<lambda>entry. get_leaf iv entry AND UAT_ADDRESS_MASK = page_pa iv k"
  have lev: "page_level iv k \<le> 2" using uat_wf_page(1) [OF wf k] by (simp add: page_ok_def)
  have low: "page_level iv i < 2" if "page_level iv i + 1 = page_level iv k" "i < npages iv" for i
  proof -
    have "page_level iv i \<le> 2" using uat_wf_page(1) [OF wf that(2)] by (simp add: page_ok_def)
    moreover have "page_level iv i \<noteq> 2" using that(1) lev by auto
    ultimately show ?thesis by simp
  qed
  have mem: "(i, e) \<in> set ?es \<and> ?P (i, e) \<longleftrightarrow> leads iv (page_pa iv k) i e" for i e
    using leads_level(1) [OF wf k, of i e] low [of i] by (auto simp: leads_def)
  show ?thesis
  proof (cases "find ?P ?es")
    case None
    have "\<not> leads iv (page_pa iv k) i e" for i e
      using None mem [of i e] unfolding find_None_iff by blast
    moreover have "iv' = iv" unfolding iv'_def AppleAgxUatClearParentReference_def None by simp
    ultimately show ?thesis by simp
  next
    case (Some entry)
    obtain i e where entry: "entry = (i, e)" by (cases entry)
    have "(i, e) \<in> set ?es \<and> ?P (i, e)" using find_mem [OF Some] unfolding entry .
    then have l: "leads iv (page_pa iv k) i e" by (simp only: mem)
    have iv': "iv' = set_leaf (i, e) 0 iv" unfolding iv'_def AppleAgxUatClearParentReference_def Some entry by simp
    have i: "i < npages iv" "e < 2048" using l by (auto simp: leads_def entry_count_def split: if_splits)
    have only: "leads iv (page_pa iv k) j f \<longleftrightarrow> (j, f) = (i, e)" for j f
    proof
      assume "leads iv (page_pa iv k) j f"
      then show "(j, f) = (i, e)"
        using tree l uat_wf_page(3) [OF wf k] unfolding uat_tree_def by blast
    qed (use l in simp)
    have "get_leaf iv' m = (if m = (i, e) then 0 else get_leaf iv m)" for m
      unfolding iv' using uat_wf_page [OF wf i(1)] i(2) by (intro get_set_leaf) simp_all
    with only iv' i show ?thesis by auto
  qed
qed

lemma clear_parent_frame:
  assumes "uat_wf iv" and "uat_tree iv" and "k < npages iv"
  defines "iv' \<equiv> AppleAgxUatClearParentReference (page_level iv k) (page_pa iv k) iv"
  shows "uat_wf iv'" and "uat_frame iv' = uat_frame iv" and "length (uat_pages iv') = length (uat_pages iv)"
    and "page_pa iv' i = page_pa iv i" and "page_level iv' i = page_level iv i"
proof -
  from clear_parent_entries [OF assms(1-3)] consider "iv' = iv"
    | (set) i e where "i < npages iv" "e < 2048" "iv' = set_leaf (i, e) 0 iv"
    unfolding iv'_def by blast
  then have "uat_wf iv' \<and> uat_frame iv' = uat_frame iv \<and> length (uat_pages iv') = length (uat_pages iv) \<and>
    (\<forall>i. page_pa iv' i = page_pa iv i \<and> page_level iv' i = page_level iv i)"
  proof cases
    case (set i e)
    have "uat_wf iv'" unfolding set(3) by (rule uat_wf_set_leaf [OF assms(1) set(1,2)]) simp
    with set(3) assms(1) show ?thesis by (simp add: uat_wf_def)
  qed (use assms(1) in simp)
  then show "uat_wf iv'" "uat_frame iv' = uat_frame iv" "length (uat_pages iv') = length (uat_pages iv)"
    "page_pa iv' i = page_pa iv i" "page_level iv' i = page_level iv i" by blast+
qed

text \<open>Taking page \<open>k\<close> out of the array puts the last page in its place.\<close>

lemma release_inventory_page:
  assumes wf: "uat_wf iv" and k: "k < npages iv"
    and r: "AppleAgxUatReleaseInventoryPage k alc iv al = (iv1, al1)"
  defines "old \<equiv> \<lambda>j. if j = k then npages iv - 1 else j"
  shows "npages iv1 = npages iv - 1" and "uat_frame iv1 = uat_frame iv"
    and "length (uat_pages iv1) = length (uat_pages iv)" and "inv_Pages iv1 \<noteq> None"
    and "j < npages iv1 \<Longrightarrow> uat_pages iv1 ! j = uat_pages iv ! old j"
    and "npages iv1 \<le> j \<Longrightarrow> j < length (uat_pages iv) \<Longrightarrow> uat_pages iv1 ! j = page_zero"
    and "al1 = uat_release alc al (uat_pages iv ! k)"
proof -
  let ?n = "npages iv"
  have n: "unat (inv_PageCount iv - 1) = ?n - 1" using k by (intro unat_pred) auto
  have len: "?n \<le> length (uat_pages iv)" using wf by (simp add: uat_wf_def)
  define ps where "ps = (if k \<noteq> ?n - 1 then (uat_pages iv)[k := uat_pages iv ! (?n - 1)] else uat_pages iv)"
  have iv1: "iv1 = iv\<lparr> inv_Pages := Some (ps[?n - 1 := page_zero]), inv_PageCount := inv_PageCount iv - 1 \<rparr>"
    "al1 = uat_release alc al (uat_pages iv ! k)"
    using r by (auto simp: AppleAgxUatReleaseInventoryPage_def Let_def n ps_def)
  then show "npages iv1 = ?n - 1" "al1 = uat_release alc al (uat_pages iv ! k)" "inv_Pages iv1 \<noteq> None"
    by (simp_all add: n)
  show "uat_frame iv1 = uat_frame iv" using iv1 wf by (auto simp: uat_frame_def uat_wf_def)
  show "length (uat_pages iv1) = length (uat_pages iv)" using iv1 by (simp add: ps_def)
  show "uat_pages iv1 ! j = uat_pages iv ! old j" if "j < npages iv1"
    using that k len by (auto simp: iv1 n ps_def old_def)
  show "uat_pages iv1 ! j = page_zero" if "npages iv1 \<le> j" "j < length (uat_pages iv)"
  proof (cases "j = ?n - 1")
    case True
    with that k len show ?thesis by (simp add: iv1 ps_def)
  next
    case False
    with that have "?n \<le> j" by (simp add: iv1 n)
    with that(2) k wf show ?thesis by (simp add: iv1 ps_def uat_wf_def)
  qed
qed

text \<open>Removing page \<open>k\<close> once no entry leads to it any more.\<close>

lemma removed_page:
  assumes wf: "uat_wf iv" and tree: "uat_tree iv" and k: "k < npages iv"
    and r: "AppleAgxUatReleaseInventoryPage k alc iv al = (iv1, al1)"
    and no: "\<And>i e. \<not> leads iv (page_pa iv k) i e"
  shows "uat_wf iv1" and "uat_tree iv1"
    and "i < npages iv \<Longrightarrow> i \<noteq> k \<Longrightarrow>
      uview iv1 (page_pa iv i) = Some (page_level iv i, \<lambda>e. get_leaf iv (i, e))"
    and "page_pa iv1 ` {..<npages iv1} = page_pa iv ` {..<npages iv} - {page_pa iv k}"
proof -
  define old where "old = (\<lambda>j. if j = k then npages iv - 1 else j)"
  define new where "new = (\<lambda>i. if i = npages iv - 1 then k else i)"
  note R = release_inventory_page [OF wf k r]
  have R5: "uat_pages iv1 ! j = uat_pages iv ! old j" if "j < npages iv1" for j
    using R(5) [OF that] by (simp add: old_def)
  have old: "old j < npages iv" "old j \<noteq> k" "new (old j) = j" if "j < npages iv1" for j
    using that R(1) k by (auto simp: old_def new_def)
  have new: "new i < npages iv1" "old (new i) = i" if "i < npages iv" "i \<noteq> k" for i
    using that R(1) k by (auto simp: old_def new_def)
  have inj: "j = j'" if "old j = old j'" "j < npages iv1" "j' < npages iv1" for j j'
    using that old(3) by metis
  have get: "get_leaf iv1 (j, e) = get_leaf iv (old j, e)" if "j < npages iv1" for j e
    using R5 [OF that] by (simp add: get_leaf_def)
  have lead: "leads iv q (old j) e" if "leads iv1 q j e" for q j e
    using that R5 [of j] get [of j] old(1) [of j] by (simp add: leads_def)
  have eok: "entry_ok iv1 j e" if j: "j < npages iv1" "page_level iv1 j < 2"
    "e < entry_count (uat_pages iv1 ! j)" for j e
    unfolding entry_ok_def
  proof
    assume nz: "get_leaf iv1 (j, e) \<noteq> 0"
    have "entry_ok iv (old j) e" using wf j R5 [OF j(1)] old(1) [OF j(1)] by (simp add: uat_wf_def)
    with nz obtain m where m: "get_leaf iv (old j, e) AND UAT_DESCRIPTOR_MASK = UAT_DESCRIPTOR_MASK"
      "m < npages iv" "page_pa iv m = get_leaf iv (old j, e) AND UAT_ADDRESS_MASK"
      "page_level iv m = page_level iv (old j) + 1" unfolding entry_ok_def get [OF j(1)] by blast
    have "m \<noteq> k" using no [of "old j" e] m(3) j old(1) [OF j(1)] R5 [OF j(1)] by (auto simp: leads_def)
    with m(2) show "get_leaf iv1 (j, e) AND UAT_DESCRIPTOR_MASK = UAT_DESCRIPTOR_MASK \<and>
       (\<exists>m<npages iv1. page_pa iv1 m = get_leaf iv1 (j, e) AND UAT_ADDRESS_MASK \<and>
          page_level iv1 m = page_level iv1 j + 1)"
      using m R5 [OF j(1)] R5 [OF new(1)] new [of m]
      by (intro conjI exI [of _ "new m"]) (simp_all add: get [OF j(1)])
  qed
  have frame: "inv_PageCapacity iv1 = inv_PageCapacity iv" using R(2) by (simp add: uat_frame_def)
  show wf1: "uat_wf iv1"
    unfolding uat_wf_def frame R(3)
  proof (intro conjI allI impI)
    show "inv_Pages iv1 \<noteq> None" by (rule R(4))
    show "length (uat_pages iv) = unat (inv_PageCapacity iv)" using wf by (simp add: uat_wf_def)
    have "npages iv \<le> length (uat_pages iv)" using wf by (simp add: uat_wf_def)
    then show "npages iv1 \<le> length (uat_pages iv)" using R(1) by linarith
    show "page_ok (uat_pages iv1 ! j)" if "j < npages iv1" for j
      using that R5 uat_wf_page(1) [OF wf old(1)] by simp
    show "j = j'" if "j < npages iv1" "j' < npages iv1" "page_pa iv1 j = page_pa iv1 j'" for j j'
      using that R5 uat_wf_distinct [OF wf, of "old j" "old j'"] old(1) inj [of j j'] by simp
  qed (use eok R(6) in auto)
  show "uat_tree iv1"
    unfolding uat_tree_def
  proof (intro allI impI)
    fix q i e j f assume a: "q \<noteq> 0" "leads iv1 q i e" "leads iv1 q j f"
    then have "(old i, e) = (old j, f)" using tree lead unfolding uat_tree_def by blast
    with a inj [of i j] show "(i, e) = (j, f)" by (simp add: leads_def)
  qed
  show "uview iv1 (page_pa iv i) = Some (page_level iv i, \<lambda>e. get_leaf iv (i, e))"
    if i: "i < npages iv" "i \<noteq> k" for i
    using uview_page [OF wf1 new(1) [OF i]] R5 [OF new(1) [OF i]] get [OF new(1) [OF i]] new(2) [OF i]
    by simp
  show "page_pa iv1 ` {..<npages iv1} = page_pa iv ` {..<npages iv} - {page_pa iv k}"
  proof (intro set_eqI iffI)
    fix a assume "a \<in> page_pa iv1 ` {..<npages iv1}"
    then obtain j where j: "j < npages iv1" "a = page_pa iv (old j)" using R5 by auto
    with old [OF j(1)] uat_wf_distinct [OF wf old(1) [OF j(1)] k]
    show "a \<in> page_pa iv ` {..<npages iv} - {page_pa iv k}" by auto
  next
    fix a assume "a \<in> page_pa iv ` {..<npages iv} - {page_pa iv k}"
    then obtain i where i: "i < npages iv" "i \<noteq> k" "a = page_pa iv i" by auto
    with new [OF i(1,2)] R5 [OF new(1) [OF i(1,2)]] show "a \<in> page_pa iv1 ` {..<npages iv1}"
      by (intro image_eqI [of _ _ "new i"]) simp_all
  qed
qed

lemma prune_step:
  assumes wf: "uat_wf iv" and tree: "uat_tree iv" and k: "k < npages iv" "page_level iv k \<noteq> 0"
    and zero: "AppleAgxUatPageIsZero (uat_pages iv ! k)"
    and r: "AppleAgxUatReleaseInventoryPage k alc
      (AppleAgxUatClearParentReference (page_level iv k) (page_pa iv k) iv) al = (iv1, al1)"
  shows "uat_wf iv1" and "uat_tree iv1" and "uat_frame iv1 = uat_frame iv"
    and "pruned (uview iv) (page_pa iv k) (uview iv1)"
    and "page_pa iv1 ` {..<npages iv1} = page_pa iv ` {..<npages iv} - {page_pa iv k}"
    and "\<exists>page. al1 = uat_release alc al page \<and> pg_PhysicalAddress page = page_pa iv k"
proof -
  let ?q = "page_pa iv k"
  define iv' where "iv' = AppleAgxUatClearParentReference (page_level iv k) ?q iv"
  note C = clear_parent_frame [OF wf tree k(1), folded iv'_def]
  have n: "inv_PageCount iv' = inv_PageCount iv" unfolding iv'_def by (rule clear_parent_count)
  have get: "get_leaf iv' (i, e) = (if leads iv ?q i e then 0 else get_leaf iv (i, e))" if "i < npages iv" for i e
    using clear_parent_entries [OF wf tree k(1)] that unfolding iv'_def by blast
  have q: "?q \<noteq> 0" by (rule uat_wf_page(3) [OF wf k(1)])
  have sub: "leads iv p i e" if "leads iv' p i e" "p \<noteq> 0" for p i e
    using that get [of i e] by (auto simp: leads_def n C entry_count_level split: if_splits)
  have tree': "uat_tree iv'" using tree sub unfolding uat_tree_def by blast
  have no: "\<not> leads iv' (page_pa iv' k) i e" for i e
  proof
    assume l: "leads iv' (page_pa iv' k) i e"
    then have "leads iv ?q i e" using sub [of ?q] q by (simp add: C)
    with l get [of i e] q show False by (simp add: leads_def n C)
  qed
  have k': "k < npages iv'" using k n by simp
  note D = removed_page [OF C(1) tree' k' r [folded iv'_def] no]
    release_inventory_page [OF C(1) k' r [folded iv'_def]]
  show "uat_wf iv1" "uat_tree iv1" by (rule D)+
  show "uat_frame iv1 = uat_frame iv" using D(6) C(2) by simp
  show ran: "page_pa iv1 ` {..<npages iv1} = page_pa iv ` {..<npages iv} - {?q}" using D(4) by (simp add: n C)
  show "\<exists>page. al1 = uat_release alc al page \<and> pg_PhysicalAddress page = ?q"
    using D(11) by (intro exI [of _ "uat_pages iv' ! k"]) (simp add: C)
  have gone: "uview iv1 p = None" if "p = ?q \<or> p = 0 \<or> uview iv p = None" for p
  proof -
    have "p \<notin> page_pa iv ` {..<npages iv} - {?q}"
      using that uat_wf_page(3) [OF wf] by (auto simp: uview_None)
    then show ?thesis unfolding ran [symmetric] uview_None by auto
  qed
  have kept: "uview iv1 p = Some (l, \<lambda>e. if l < 2 \<and> e < view_count l \<and> f e AND UAT_ADDRESS_MASK = ?q then 0 else f e)"
    if "p \<noteq> ?q" "uview iv p = Some (l, f)" for p l f
  proof -
    from that(2) obtain i where i: "i < npages iv" "page_pa iv i = p" "page_level iv i = l"
      "f = (\<lambda>e. get_leaf iv (i, e))" by (rule uview_Some)
    then have "i \<noteq> k" using that(1) by auto
    with i have "uview iv1 p = Some (l, \<lambda>e. get_leaf iv' (i, e))" using D(3) [of i] by (simp add: n C)
    then show ?thesis unfolding i(4) by (simp add: get leads_def entry_count_level i(1,3))
  qed
  have "get_leaf iv (k, e) = 0" if "e < 2048" for e
    using page_zero_entries [OF zero uat_wf_page(4) [OF wf k(1)] that] by (simp add: get_leaf_def)
  then show "pruned (uview iv) ?q (uview iv1)"
    unfolding pruned_def using uview_page [OF wf k(1)] k(2) gone kept uat_wf_page(3) [OF wf]
    by (auto simp: uview_None)
qed

section \<open>Walks by leaf\<close>

lemma unat_and_mask: "unat (w AND mask n :: u64) = unat w mod 2 ^ n"
  unfolding take_bit_eq_mask [symmetric] unsigned_take_bit_eq by (rule take_bit_eq_mod)

lemma unat_drop: "unat (drop_bit n w :: u64) = unat w div 2 ^ n"
  unfolding unat_drop_bit_eq by (rule drop_bit_eq_div)

lemma level_index_unat:
  "level0_index v = unat v div 2 ^ 36 mod 2 ^ 3"
  "level1_index v = unat v div 2 ^ 25 mod 2 ^ 11"
  "level2_index v = unat v div 2 ^ 14 mod 2 ^ 11"
proof -
  have m: "(7 :: u64) = mask 3" "(2047 :: u64) = mask 11" by (simp_all add: mask_eq_exp_minus_1)
  show "level0_index v = unat v div 2 ^ 36 mod 2 ^ 3" "level1_index v = unat v div 2 ^ 25 mod 2 ^ 11"
    "level2_index v = unat v div 2 ^ 14 mod 2 ^ 11"
    unfolding level0_index_def level1_index_def level2_index_def m unat_and_mask unat_drop by (rule refl)+
qed

lemma split_index:
  "n mod 2 ^ 39 = 2 ^ 36 * (n div 2 ^ 36 mod 2 ^ 3) + 2 ^ 25 * (n div 2 ^ 25 mod 2 ^ 11) +
     2 ^ 14 * (n div 2 ^ 14 mod 2 ^ 11) + n mod 2 ^ 14" for n :: nat
proof -
  have "n mod 2 ^ 39 = 2 ^ 36 * (n div 2 ^ 36 mod 2 ^ 3) + n mod 2 ^ 36"
    using mod_mult2_eq [of n "2 ^ 36" "2 ^ 3"] by simp
  moreover have "n mod 2 ^ 36 = 2 ^ 25 * (n div 2 ^ 25 mod 2 ^ 11) + n mod 2 ^ 25"
    using mod_mult2_eq [of n "2 ^ 25" "2 ^ 11"] by simp
  moreover have "n mod 2 ^ 25 = 2 ^ 14 * (n div 2 ^ 14 mod 2 ^ 11) + n mod 2 ^ 14"
    using mod_mult2_eq [of n "2 ^ 14" "2 ^ 11"] by simp
  ultimately show ?thesis by simp
qed

text \<open>Within one half, the three indices determine a page.\<close>

lemma index_determines:
  assumes "in_half half v" and "in_half half w" and "level0_index v = level0_index w"
    and "level1_index v = level1_index w" and "level2_index v = level2_index w"
  shows "v = w"
proof -
  have z: "unat v mod 2 ^ 14 = 0" "unat w mod 2 ^ 14 = 0"
    using assms(1,2) unfolding in_half_def page_aligned_iff by (simp_all only: dvd_eq_mod_eq_0)
  have m: "unat v mod 2 ^ 39 = unat w mod 2 ^ 39"
    using assms(3-5) unfolding level_index_unat split_index [of "unat v"] split_index [of "unat w"] z by simp
  have "unat v div 2 ^ 39 = unat w div 2 ^ 39"
  proof (cases half)
    case AppleAgxUatTtbr0
    then have "unat v < 2 ^ 39" "unat w < 2 ^ 39"
      using assms(1,2) by (simp_all add: in_half_def word_less_nat_alt)
    then show ?thesis by simp
  next
    case AppleAgxUatTtbr1
    have "n div 2 ^ 39 = 2 ^ 25 - 1" if "2 ^ 64 - 2 ^ 39 \<le> n" "n < 2 ^ 64" for n :: nat
      using that by (intro div_nat_eqI) simp_all
    moreover have "2 ^ 64 - 2 ^ 39 \<le> unat v" "2 ^ 64 - 2 ^ 39 \<le> unat w"
      using AppleAgxUatTtbr1 assms(1,2) by (simp_all add: in_half_def word_le_nat_alt)
    ultimately show ?thesis
      using unsigned_less [of v, where 'a = nat] unsigned_less [of w, where 'a = nat] by simp
  qed
  with m have "unat v = unat w" by (metis div_mult_mod_eq)
  then show ?thesis by (simp add: word_unat_eq_iff)
qed

text \<open>In a tree, two walks that end at the same leaf are the same.\<close>

lemma FindExistingLeaf_inj:
  assumes wf: "uat_wf iv" and tree: "uat_tree iv"
    and root: "root < npages iv" "page_level iv root = 0" "root' < npages iv" "page_level iv root' = 0"
    and f: "AppleAgxUatFindExistingLeaf root v iv = Inr leaf" "AppleAgxUatFindExistingLeaf root' w iv = Inr leaf"
  shows "root = root'" and "level0_index v = level0_index w" and "level1_index v = level1_index w"
    and "level2_index v = level2_index w"
proof -
  from FindExistingLeaf_Inr [OF f(1)] obtain a b where
    v: "AppleAgxUatFindPage iv (get_leaf iv (root, level0_index v) AND UAT_ADDRESS_MASK) 1 = Some a"
      "AppleAgxUatFindPage iv (get_leaf iv (a, level1_index v) AND UAT_ADDRESS_MASK) 2 = Some b"
      "leaf = (b, level2_index v)" .
  from FindExistingLeaf_Inr [OF f(2)] obtain a' b' where
    w: "AppleAgxUatFindPage iv (get_leaf iv (root', level0_index w) AND UAT_ADDRESS_MASK) 1 = Some a'"
      "AppleAgxUatFindPage iv (get_leaf iv (a', level1_index w) AND UAT_ADDRESS_MASK) 2 = Some b'"
      "leaf = (b', level2_index w)" .
  have b: "b' = b" and l2: "level2_index v = level2_index w" using v(3) w(3) by simp_all
  note pv = FindPage_Some [OF v(1)] FindPage_Some [OF v(2)]
  note pw = FindPage_Some [OF w(1)] FindPage_Some [OF w(2)]
  have "leads iv (page_pa iv b) a (level1_index v)" "leads iv (page_pa iv b) a' (level1_index w)"
    using pv pw b by (simp_all add: leads_def entry_count_def)
  then have a: "a = a'" and l1: "level1_index v = level1_index w"
    using tree uat_wf_page(3) [OF wf, of b] pv unfolding uat_tree_def by blast+
  have "leads iv (page_pa iv a) root (level0_index v)" "leads iv (page_pa iv a) root' (level0_index w)"
    using pv pw a root by (simp_all add: leads_def entry_count_def)
  then show "root = root'" "level0_index v = level0_index w"
    using tree uat_wf_page(3) [OF wf, of a] pv unfolding uat_tree_def by blast+
  show "level1_index v = level1_index w" "level2_index v = level2_index w" by (rule l1, rule l2)
qed

section \<open>Unmapping\<close>

abbreviation page_set :: "APPLE_AGX_UAT_INVENTORY \<Rightarrow> u64 set" where
  "page_set iv \<equiv> page_pa iv ` {..<npages iv}"

abbreviation root_set :: "APPLE_AGX_UAT_INVENTORY \<Rightarrow> u64 set" where
  "root_set iv \<equiv> {r. at_level (uview iv) 0 r \<noteq> None}"

lemma uat_owned_iff: "uat_owned live iv al \<longleftrightarrow> page_set iv \<subseteq> live al"
  by (auto simp: uat_owned_def)

lemma pruned_roots:
  assumes "pruned V q W"
  shows "{r. at_level W 0 r \<noteq> None} = {r. at_level V 0 r \<noteq> None}"
proof -
  from assms obtain k g where q: "V q = Some (k, g)" "k \<noteq> 0" "W q = None"
    and o: "\<And>p. p \<noteq> q \<Longrightarrow> V p = None \<Longrightarrow> W p = None"
    "\<And>p l f. p \<noteq> q \<Longrightarrow> V p = Some (l, f) \<Longrightarrow> \<exists>f'. W p = Some (l, f')"
    unfolding pruned_def by blast
  have "at_level W 0 r \<noteq> None \<longleftrightarrow> at_level V 0 r \<noteq> None" for r
  proof (cases "r = q")
    case True
    with q show ?thesis by (simp add: at_level_def)
  next
    case False
    with o(1) [OF False] o(2) [OF False] show ?thesis by (cases "V r") (auto simp: at_level_def split: if_splits)
  qed
  then show ?thesis by simp
qed

lemma source_release:
  "page_source alc live \<Longrightarrow> live (uat_release alc al page) = live al - {pg_PhysicalAddress page}"
  unfolding page_source_def by blast

text \<open>The tables lost some of their pages, which went back to the allocator, and no walk shows it.\<close>

definition trimmed ::
  "('al \<Rightarrow> u64 set) \<Rightarrow> APPLE_AGX_UAT_INVENTORY \<Rightarrow> 'al \<Rightarrow> APPLE_AGX_UAT_INVENTORY \<Rightarrow> 'al \<Rightarrow> bool" where
  "trimmed live iv al iv1 al1 \<longleftrightarrow>
     uat_wf iv1 \<and> uat_tree iv1 \<and> uat_frame iv1 = uat_frame iv \<and> root_set iv1 = root_set iv \<and>
     (\<forall>r v. walk (uview iv1) r v = walk (uview iv) r v) \<and>
     page_set iv1 \<subseteq> page_set iv \<and> live al1 = live al - (page_set iv - page_set iv1)"

lemma trimmed_refl: "uat_wf iv \<Longrightarrow> uat_tree iv \<Longrightarrow> trimmed live iv al iv al"
  by (simp add: trimmed_def)

lemma live_after:
  assumes "C \<subseteq> B" and "B \<subseteq> A" and "L' = L - (A - B)" and "L'' = L' - (B - C)"
  shows "C \<subseteq> A \<and> L'' = L - (A - C)"
  using assms by blast

lemma owned_after: "C \<subseteq> A \<Longrightarrow> A \<subseteq> L \<Longrightarrow> C \<subseteq> L - (A - C)"
  by blast

lemma trimmed_trans:
  assumes "trimmed live iv al iv1 al1" and "trimmed live iv1 al1 iv2 al2"
  shows "trimmed live iv al iv2 al2"
  using assms live_after [of "page_set iv2" "page_set iv1" "page_set iv" "live al1" "live al" "live al2"]
  unfolding trimmed_def by simp

lemma trimmed_owned: "trimmed live iv al iv1 al1 \<Longrightarrow> uat_owned live iv al \<Longrightarrow> uat_owned live iv1 al1"
  using owned_after [of "page_set iv1" "page_set iv" "live al"] by (simp add: trimmed_def uat_owned_iff)

lemma prune_level_spec:
  assumes "prune_level level alc iv al = (iv1, al1)" and "uat_wf iv" and "uat_tree iv" and "level \<noteq> 0"
    and "page_source alc live"
  shows "trimmed live iv al iv1 al1"
  using assms
proof (induction level alc iv al rule: prune_level.induct)
  case (1 level alc iv al)
  show ?case
  proof (cases "find_empty level iv")
    case None
    with "1.prems" show ?thesis by (simp add: prune_level.simps trimmed_refl)
  next
    case (Some k)
    note fe = find_upt_less [OF Some [unfolded find_empty_def]]
    have k: "k < npages iv" "page_level iv k = level" "AppleAgxUatPageIsZero (uat_pages iv ! k)"
      using fe by simp_all
    obtain iv2 al2 where rel: "AppleAgxUatReleaseInventoryPage k alc
        (AppleAgxUatClearParentReference level (page_pa iv k) iv) al = (iv2, al2)" by (rule prod.exhaust)
    have nz: "page_level iv k \<noteq> 0" using k(2) "1.prems"(4) by simp
    note S = prune_step [OF "1.prems"(2,3) k(1) nz k(3), unfolded k(2), OF rel]
    obtain page where "al2 = uat_release alc al page" "pg_PhysicalAddress page = page_pa iv k"
      using S(6) by blast
    then have "live al2 = live al - {page_pa iv k}"
      using source_release [OF "1.prems"(5), of al page] by simp
    moreover have "page_set iv - page_set iv2 = {page_pa iv k}" using k(1) unfolding S(5) by blast
    ultimately have t: "trimmed live iv al iv2 al2"
      unfolding trimmed_def using S(1-3,5) walk_pruned [OF S(4)] pruned_roots [OF S(4)] by simp
    have "prune_level level alc iv2 al2 = (iv1, al1)"
      using "1.prems"(1) Some rel by (simp add: prune_level.simps [of level alc iv])
    from "1.IH" [OF Some rel [symmetric] this S(1,2) "1.prems"(4,5)] show ?thesis by (rule trimmed_trans [OF t])
  qed
qed

lemma PruneEmptyTables_spec:
  assumes "AppleAgxUatPruneEmptyTables alc iv al = (iv1, al1)" and "uat_wf iv" and "uat_tree iv"
    and "page_source alc live"
  shows "trimmed live iv al iv1 al1"
proof -
  obtain iv2 al2 where p: "prune_level 2 alc iv al = (iv2, al2)" by (rule prod.exhaust)
  then have q: "prune_level 1 alc iv2 al2 = (iv1, al1)" using assms(1) by (simp add: AppleAgxUatPruneEmptyTables_def)
  have t: "trimmed live iv al iv2 al2" by (rule prune_level_spec [OF p assms(2,3) _ assms(4)]) simp
  then have "uat_wf iv2" "uat_tree iv2" by (simp_all add: trimmed_def)
  from prune_level_spec [OF q this _ assms(4)] show ?thesis by (intro trimmed_trans [OF t]) simp
qed

text \<open>The mappings an inventory records.\<close>

definition live_mappings :: "APPLE_AGX_UAT_INVENTORY \<Rightarrow> APPLE_AGX_UAT_MAPPING list" where
  "live_mappings iv = take (unat (inv_MappingCount iv)) (uat_mappings iv)"

lemma take_update_prefix: "length xs = n \<Longrightarrow> take n ((xs @ ys)[n := z]) = xs"
  by simp

lemma remove_mapping_live:
  assumes "k < unat (inv_MappingCount iv)" and "unat (inv_MappingCount iv) \<le> length (uat_mappings iv)"
  shows "live_mappings (remove_mapping k iv) = take k (live_mappings iv) @ drop (Suc k) (live_mappings iv)"
    and "unat (inv_MappingCount (remove_mapping k iv)) = unat (inv_MappingCount iv) - 1"
    and "length (uat_mappings (remove_mapping k iv)) = length (uat_mappings iv)"
    and "inv_Pages (remove_mapping k iv) = inv_Pages iv" "inv_PageCount (remove_mapping k iv) = inv_PageCount iv"
    "inv_PageCapacity (remove_mapping k iv) = inv_PageCapacity iv"
proof -
  let ?n = "unat (inv_MappingCount iv)" and ?ms = "uat_mappings iv"
  have n: "unat (inv_MappingCount iv - 1) = ?n - 1" using assms(1) by (intro unat_pred) auto
  let ?sh = "take k ?ms @ take (?n - 1 - k) (drop (k + 1) ?ms) @ drop (?n - 1) ?ms"
  have len: "length ?sh = length ?ms" using assms by simp
  have k: "length (take k ?ms @ take (?n - 1 - k) (drop (k + 1) ?ms)) = ?n - 1" using assms by simp
  have "take (?n - 1) (?sh[?n - 1 := z]) = take k ?ms @ take (?n - 1 - k) (drop (k + 1) ?ms)" for z
    using take_update_prefix [OF k] by (simp only: append_assoc)
  moreover have "take (?n - 1 - k) (drop (k + 1) ?ms) = drop (Suc k) (take ?n ?ms)"
    by (simp add: drop_take)
  moreover have "take k (take ?n ?ms) = take k ?ms" using assms by (simp add: min_def)
  moreover have "live_mappings (remove_mapping k iv) = take (?n - 1) (?sh[?n - 1 := mapping_clear (?sh ! (?n - 1))])"
    unfolding live_mappings_def remove_mapping_def Let_def by (simp add: n)
  ultimately show "live_mappings (remove_mapping k iv) = take k (live_mappings iv) @ drop (Suc k) (live_mappings iv)"
    by (simp only: live_mappings_def [of iv])
  show "length (uat_mappings (remove_mapping k iv)) = length ?ms"
    using len by (simp add: remove_mapping_def Let_def)
  show "unat (inv_MappingCount (remove_mapping k iv)) = ?n - 1"
    by (simp add: remove_mapping_def Let_def n)
qed (simp_all add: remove_mapping_def Let_def)

definition same_index :: "u64 \<Rightarrow> u64 \<Rightarrow> bool" where
  "same_index v w \<longleftrightarrow> level0_index v = level0_index w \<and> level1_index v = level1_index w \<and>
     level2_index v = level2_index w"

lemma FindExistingLeaf_index:
  "same_index v w \<Longrightarrow> AppleAgxUatFindExistingLeaf root v iv = AppleAgxUatFindExistingLeaf root w iv"
  by (simp add: same_index_def AppleAgxUatFindExistingLeaf_def cong: option.case_cong)

lemma walk_index: "same_index v w \<Longrightarrow> walk V r v = walk V r w"
  by (simp add: same_index_def walk_def cong: option.case_cong)

text \<open>Walks up to the leaf see table pages only.\<close>

lemma FindExistingLeaf_frame:
  assumes "inv_PageCount iv1 = inv_PageCount iv" and "\<And>i. page_pa iv1 i = page_pa iv i"
    and "\<And>i. page_level iv1 i = page_level iv i"
    and "\<And>i e. page_level iv i \<noteq> 2 \<Longrightarrow> get_leaf iv1 (i, e) = get_leaf iv (i, e)" and "page_level iv root = 0"
  shows "AppleAgxUatFindExistingLeaf root v iv1 = AppleAgxUatFindExistingLeaf root v iv"
proof -
  have f: "AppleAgxUatFindPage iv1 pa l = AppleAgxUatFindPage iv pa l" for pa l
    using assms(1-3) by (intro FindPage_frame) simp_all
  have "page_level iv l1 = 1" if "AppleAgxUatFindPage iv pa 1 = Some l1" for pa l1
    using FindPage_Some [OF that] by simp
  with assms(4,5) f show ?thesis
    by (auto simp: AppleAgxUatFindExistingLeaf_def split: option.split)
qed

lemma walk_Some:
  "uat_wf iv \<Longrightarrow> AppleAgxUatFindPage iv r 0 = Some root \<Longrightarrow> walk (uview iv) r v =
    (case AppleAgxUatFindExistingLeaf root v iv of Inl _ \<Rightarrow> 0 | Inr leaf \<Rightarrow> get_leaf iv leaf)"
  by (simp add: walk_uview)

lemma cleared_walk:
  fixes va :: u64 and offs :: "u64 list"
  assumes wf: "uat_wf iv" and tree: "uat_tree iv" and rp: "AppleAgxUatFindPage iv rp 0 = Some root"
  defines "iv1 \<equiv> fold (\<lambda>ofs. clear_leaf root (va + ofs)) offs iv"
  shows "uat_wf iv1" and "uat_tree iv1" and "uat_frame iv1 = uat_frame iv" and "page_set iv1 = page_set iv"
    and "root_set iv1 = root_set iv"
    and "walk (uview iv1) r w =
      (if r = rp \<and> (\<exists>ofs\<in>set offs. same_index w (va + ofs)) then 0 else walk (uview iv) r w)"
proof -
  note rt = FindPage_Some [OF rp]
  have C: "uat_wf iv1" "uat_frame iv1 = uat_frame iv" "inv_PageCount iv1 = inv_PageCount iv"
    "\<And>i. page_pa iv1 i = page_pa iv i" "\<And>i. page_level iv1 i = page_level iv i"
    "\<And>i e. get_leaf iv1 (i, e) = (if \<exists>ofs\<in>set offs. AppleAgxUatFindExistingLeaf root (va + ofs) iv = Inr (i, e)
       then 0 else get_leaf iv (i, e))"
    using clear_leaves [OF wf, of root va offs] rt unfolding iv1_def Let_def by blast+
  show "uat_wf iv1" "uat_frame iv1 = uat_frame iv" "page_set iv1 = page_set iv" using C by simp_all
  have keep: "get_leaf iv1 (i, e) = get_leaf iv (i, e)" if "page_level iv i \<noteq> 2" for i e
    using that FindExistingLeaf_page(2) [of root _ iv i e] unfolding C(6) by auto
  have "leads iv1 q i e = leads iv q i e" for q i e
    using keep [of i e] by (auto simp: leads_def C(3-5) entry_count_level)
  then show "uat_tree iv1" using tree by (simp add: uat_tree_def)
  have f: "AppleAgxUatFindPage iv1 pa l = AppleAgxUatFindPage iv pa l" for pa l
    using C by (intro FindPage_frame) simp_all
  then show "root_set iv1 = root_set iv" by (simp add: at_level_uview [OF wf] at_level_uview [OF C(1)])
  show "walk (uview iv1) r w =
      (if r = rp \<and> (\<exists>ofs\<in>set offs. same_index w (va + ofs)) then 0 else walk (uview iv) r w)"
  proof (cases "AppleAgxUatFindPage iv r 0")
    case None
    then show ?thesis by (simp add: walk_uview [OF wf] walk_uview [OF C(1)] f)
  next
    case (Some root')
    note rt' = FindPage_Some [OF Some]
    have e: "AppleAgxUatFindExistingLeaf root' w iv1 = AppleAgxUatFindExistingLeaf root' w iv"
      using rt' C keep by (intro FindExistingLeaf_frame) simp_all
    have same: "r = rp \<and> same_index w (va + ofs)" if "AppleAgxUatFindExistingLeaf root' w iv = Inr leaf"
      "AppleAgxUatFindExistingLeaf root (va + ofs) iv = Inr leaf" for leaf ofs
      using FindExistingLeaf_inj [OF wf tree, of root' root w leaf "va + ofs"] that rt rt'
      by (auto simp: same_index_def)
    have there: "AppleAgxUatFindExistingLeaf root (va + ofs) iv = AppleAgxUatFindExistingLeaf root' w iv"
      if "r = rp" "same_index w (va + ofs)" for ofs
      using that rp Some FindExistingLeaf_index [OF that(2)] by simp
    show ?thesis
      unfolding walk_Some [OF C(1), unfolded f, OF Some] walk_Some [OF wf Some] e
      using same there C(6) by (auto split: sum.split)
  qed
qed

lemma Unmap_cases:
  assumes "AppleAgxUatUnmap c roots va len alc iv al = (r, iv1, al1)"
  obtains (refused) "r \<noteq> AppleAgxUatResultOk" "iv1 = iv" "al1 = al"
  | (unmapped) k half root where "r = AppleAgxUatResultOk" "k < unat (inv_MappingCount iv)"
      "um_Context (uat_mappings iv ! k) = c" "um_VirtualAddress (uat_mappings iv ! k) = va"
      "um_Length (uat_mappings iv ! k) = len"
      "AppleAgxUatValidateRange c va (um_PhysicalAddress (uat_mappings iv ! k)) len
         (um_Protection (uat_mappings iv ! k)) = Inr half"
      "AppleAgxUatFindPage iv (root_of roots half) 0 = Some root"
      "AppleAgxUatPruneEmptyTables alc
         (remove_mapping k (fold (\<lambda>offset. clear_leaf root (va + offset)) (uat_offsets len) iv)) al = (iv1, al1)"
proof (cases "r = AppleAgxUatResultOk")
  case False
  with assms show thesis
    by (intro refused) (auto simp: AppleAgxUatUnmap_def Let_def split: if_splits option.splits sum.splits)
next
  case True
  with assms show thesis
    using validate_Inl
    by (auto simp: AppleAgxUatUnmap_def Let_def split: if_splits option.splits sum.splits
        dest!: find_upt_less intro: unmapped)
qed

text \<open>What an unmap does to the walks: those of its range end at nothing, all others are as they were.\<close>

lemma Unmap_walks:
  assumes u: "AppleAgxUatUnmap c roots va len alc iv al = (AppleAgxUatResultOk, iv1, al1)" and wf: "uat_wf iv" and tree: "uat_tree iv"
    and src: "page_source alc live" and cap: "unat (inv_MappingCount iv) \<le> length (uat_mappings iv)"
  obtains k half n where "k < unat (inv_MappingCount iv)" "um_Context (uat_mappings iv ! k) = c"
      "um_VirtualAddress (uat_mappings iv ! k) = va" "um_Length (uat_mappings iv ! k) = len"
      "live_mappings iv1 = take k (live_mappings iv) @ drop (Suc k) (live_mappings iv)"
      "unat len = n * 0x4000" "\<And>i. i < n \<Longrightarrow> in_half half (va + of_nat i * UAT_PAGE_SIZE)" "0 < n"
      "uat_wf iv1" "uat_tree iv1" "root_set iv1 = root_set iv" "page_set iv1 \<subseteq> page_set iv"
      "live al1 = live al - (page_set iv - page_set iv1)" "c < UAT_CONTEXT_COUNT"
      "\<And>r w. walk (uview iv1) r w =
         (if r = root_of roots half \<and> (\<exists>i<n. same_index w (va + of_nat i * UAT_PAGE_SIZE)) then 0
          else walk (uview iv) r w)"
  using u
proof (cases rule: Unmap_cases)
  case (unmapped k half root)
  let ?n = "unat len div 0x4000"
  let ?iv2 = "fold (\<lambda>offset. clear_leaf root (va + offset)) (uat_offsets len) iv"
  note v = unmapped(6)
  have len: "unat len = ?n * 0x4000" "0 < ?n" using v by (auto simp: validate_range_iff)
  then have "?n * 0x4000 < 2 ^ 64" using unsigned_less [of len, where 'a = nat] by simp
  moreover have "of_nat (?n * 0x4000) = len" unfolding len(1) [symmetric] by simp
  ultimately have offs: "uat_offsets len = page_offsets ?n" using offsets_pages by metis
  note C = cleared_walk [OF wf tree unmapped(7), of va "uat_offsets len"]
  have fr: "inv_Mappings ?iv2 = inv_Mappings iv" "inv_MappingCount ?iv2 = inv_MappingCount iv"
    using C(3) by (simp_all add: uat_frame_def)
  note R = remove_mapping_live [of k ?iv2, unfolded fr, OF unmapped(2) cap]
  note same = same_pages [OF R(4,5)]
  have wf2: "uat_wf (remove_mapping k ?iv2)" using same(5) R(6) C(1) by simp
  have "leads (remove_mapping k ?iv2) q i e = leads ?iv2 q i e" for q i e
    by (simp add: leads_def same(1) R(4,5))
  then have tree2: "uat_tree (remove_mapping k ?iv2)" using C(2) by (simp add: uat_tree_def)
  have view: "uview (remove_mapping k ?iv2) = uview ?iv2" by (simp add: uview_def fun_eq_iff same(1) R(4,5))
  note T = PruneEmptyTables_spec [OF unmapped(8) wf2 tree2 src, unfolded trimmed_def view, simplified R(4,5)]
  have lm: "live_mappings ?iv2 = live_mappings iv" by (simp add: live_mappings_def fr)
  have "uat_frame iv1 = uat_frame (remove_mapping k ?iv2)" using T by blast
  then have lm1: "live_mappings iv1 = live_mappings (remove_mapping k ?iv2)"
    by (simp add: live_mappings_def uat_frame_def)
  have "(\<exists>ofs\<in>set (page_offsets ?n). same_index w (va + ofs)) \<longleftrightarrow>
      (\<exists>i<?n. same_index w (va + of_nat i * UAT_PAGE_SIZE))" for w by (auto simp: page_offsets_def)
  note W = C(6) [unfolded offs this]
  show thesis
  proof (rule that [OF unmapped(2-5) _ len(1) range_pages(1) [OF v] len(2)])
    show "live_mappings iv1 = take k (live_mappings iv) @ drop (Suc k) (live_mappings iv)"
      unfolding lm1 R(1) lm ..
    show "uat_wf iv1" "uat_tree iv1" using T by blast+
    show "root_set iv1 = root_set iv" using T C(5) by simp
    show "page_set iv1 \<subseteq> page_set iv" "live al1 = live al - (page_set iv - page_set iv1)"
      using T C(4) by simp_all
    show "c < UAT_CONTEXT_COUNT" by (rule validate_context [OF v])
    show "walk (uview iv1) r w = (if r = root_of roots half \<and>
       (\<exists>i<?n. same_index w (va + of_nat i * UAT_PAGE_SIZE)) then 0 else walk (uview iv) r w)" for r w
      using T W [of r w] by (simp only: offs)
  qed
qed simp

section \<open>Mapping, seen by walks\<close>

text \<open>Linking a new empty table page into a free entry is the reverse of pruning it.\<close>

lemma linked_page:
  assumes wf: "uat_wf iv" and tree: "uat_tree iv" and lt: "npages iv < length (uat_pages iv)"
    and c: "unat (inv_PageCount iv + 1) = Suc (npages iv)"
    and page: "page_ok page" "\<forall>e<2048. pg_Entries page ! e = 0" "pg_Level page \<noteq> 0"
    and new: "\<forall>i<npages iv. page_pa iv i \<noteq> pg_PhysicalAddress page"
    and p: "parent < npages iv" "page_level iv parent < 2" "e < entry_count (uat_pages iv ! parent)"
      "get_leaf iv (parent, e) = 0"
    and d: "d AND UAT_ADDRESS_MASK = pg_PhysicalAddress page"
    and wf1: "uat_wf iv1" and iv1: "iv1 = set_leaf (parent, e) d (add_page page iv)"
  shows "pruned (uview iv1) (pg_PhysicalAddress page) (uview iv)" and "uat_tree iv1"
proof -
  let ?q = "pg_PhysicalAddress page" and ?n = "npages iv"
  note s = add_page_simps [OF lt]
  note wf2 = uat_wf_add_page [OF wf lt c page(1,2) new]
  have e: "e < 2048" using p(3) by (auto simp: entry_count_def split: if_splits)
  have n: "npages iv1 = Suc ?n" using c by (simp add: iv1 add_page_def)
  have pa: "page_pa iv1 i = page_pa iv i" "page_level iv1 i = page_level iv i" if "i < ?n" for i
    using that by (simp_all add: iv1 s)
  have pn: "page_pa iv1 ?n = ?q" "page_level iv1 ?n = pg_Level page" by (simp_all add: iv1 s)
  have "parent < length (uat_pages (add_page page iv))" "e < length (pg_Entries (uat_pages (add_page page iv) ! parent))"
    using p(1) lt e uat_wf_page(4) [OF wf p(1)] by (simp_all add: s)
  then have get0: "get_leaf iv1 m = (if m = (parent, e) then d else get_leaf (add_page page iv) m)" for m
    unfolding iv1 by (intro get_set_leaf) simp_all
  have get: "get_leaf iv1 (i, f) = (if (i, f) = (parent, e) then d else get_leaf iv (i, f))" if "i < ?n" for i f
    using that by (simp add: get0 s)
  have zero: "get_leaf iv1 (?n, f) = 0" if "f < 2048" for f using that p(1) page(2) by (simp add: get0 s)
  have q: "?q \<noteq> 0" using page(1) by (simp add: page_ok_def)
  have count: "f < 2048" if "f < view_count l" for f l using that by (simp add: view_count_def split: if_splits)
  have low: "i < ?n" if "leads iv1 a i f" "a \<noteq> 0" for a i f
  proof (rule ccontr)
    assume "\<not> i < ?n"
    with that have "i = ?n" "f < 2048" by (auto simp: leads_def n entry_count_level intro: count)
    with that zero show False by (simp add: leads_def)
  qed
  have fresh: "get_leaf iv (i, f) AND UAT_ADDRESS_MASK \<noteq> ?q"
    if "i < ?n" "page_level iv i < 2" "f < entry_count (uat_pages iv ! i)" for i f
  proof
    assume a: "get_leaf iv (i, f) AND UAT_ADDRESS_MASK = ?q"
    then have "get_leaf iv (i, f) \<noteq> 0" using q by auto
    moreover have "entry_ok iv i f" using wf that by (simp add: uat_wf_def)
    ultimately show False using new a by (auto simp: entry_ok_def)
  qed
  have is_q: "leads iv1 ?q i f \<longleftrightarrow> (i, f) = (parent, e)" for i f
  proof
    assume l: "leads iv1 ?q i f"
    note i = low [OF l q]
    show "(i, f) = (parent, e)"
      using l fresh [OF i, of f] by (auto simp: leads_def get [OF i] pa [OF i] entry_count_level split: if_splits)
  next
    assume "(i, f) = (parent, e)"
    then show "leads iv1 ?q i f" using p d get [OF p(1)] pa [OF p(1)] n by (simp add: leads_def entry_count_level)
  qed
  have old: "leads iv a i f" if "leads iv1 a i f" "a \<noteq> ?q" "a \<noteq> 0" for a i f
  proof -
    note i = low [OF that(1,3)]
    from that show ?thesis by (auto simp: leads_def get [OF i] pa [OF i] entry_count_level i d split: if_splits)
  qed
  show "uat_tree iv1"
    unfolding uat_tree_def
  proof (intro allI impI)
    fix a i f j g assume l: "a \<noteq> 0" "leads iv1 a i f" "leads iv1 a j g"
    show "(i, f) = (j, g)"
    proof (cases "a = ?q")
      case True
      with l is_q [of i f] is_q [of j g] show ?thesis by simp
    next
      case False
      from old [OF l(2) False l(1)] old [OF l(3) False l(1)] l(1) show ?thesis
        using tree unfolding uat_tree_def by blast
    qed
  qed
  have kept: "uview iv a = Some (l, \<lambda>f. if l < 2 \<and> f < view_count l \<and> h f AND UAT_ADDRESS_MASK = ?q then 0 else h f)"
    if "a \<noteq> ?q" "uview iv1 a = Some (l, h)" for a l h
  proof -
    from that(2) obtain i where i: "i < npages iv1" "page_pa iv1 i = a" "page_level iv1 i = l"
      "h = (\<lambda>f. get_leaf iv1 (i, f))" by (rule uview_Some)
    then have lt: "i < ?n" using that(1) pn n by (auto simp: less_Suc_eq)
    have "get_leaf iv (i, f) = (if leads iv1 ?q i f then 0 else get_leaf iv1 (i, f))" for f
      using is_q [of i f] get [OF lt, of f] p(4) by auto
    then show ?thesis
      unfolding i(4) using uview_page [OF wf lt] pa [OF lt] i(1-3) n by (simp add: leads_def entry_count_level)
  qed
  have "uview iv1 ?q = Some (pg_Level page, \<lambda>f. get_leaf iv1 (?n, f))"
    using uview_page [OF wf1, of ?n] pn n by simp
  moreover have "uview iv a = None" if "uview iv1 a = None" for a
    using that pa n by (auto simp: uview_None less_Suc_eq)
  ultimately show "pruned (uview iv1) ?q (uview iv)"
    unfolding pruned_def using page(3) zero kept new uat_wf_page(3) [OF wf] uat_wf_page(3) [OF wf1]
    by (auto simp: uview_None)
qed

lemma GetChild_view:
  assumes gc: "AppleAgxUatGetChild parent e lvl alc iv al = (Inr child, iv1, al1)"
    and wf: "uat_wf iv" and tree: "uat_tree iv" and own: "uat_owned live iv al" and src: "page_source alc live"
    and p: "parent < npages iv" "page_level iv parent < 2" "lvl = page_level iv parent + 1"
      "e < entry_count (uat_pages iv ! parent)"
  shows "uat_wf iv1" and "uat_tree iv1" and "uat_owned live iv1 al1" and "uat_ext iv iv1"
    and "uat_frame iv1 = uat_frame iv" and "walk (uview iv1) r v = walk (uview iv) r v"
    and "AppleAgxUatFindPage iv1 (get_leaf iv1 (parent, e) AND UAT_ADDRESS_MASK) lvl = Some child"
proof -
  note g0 = uat_grown_start [OF wf, of live parent 0 al]
  from GetChild_grown [OF gc g0 own src p(1) p] have g: "uat_grown live parent 0 [] iv al iv1 al1"
    and ext: "uat_ext iv iv1"
    and f: "AppleAgxUatFindPage iv1 (get_leaf iv1 (parent, e) AND UAT_ADDRESS_MASK) lvl = Some child" by simp_all
  show wf1: "uat_wf iv1" "uat_owned live iv1 al1" "uat_ext iv iv1" "uat_frame iv1 = uat_frame iv"
    "AppleAgxUatFindPage iv1 (get_leaf iv1 (parent, e) AND UAT_ADDRESS_MASK) lvl = Some child"
    using uat_grown_wf [OF g] uat_grown_owned [OF g own] g ext f by (simp_all add: uat_grown_def)
  have "unat lvl = Suc (unat (page_level iv parent))" "unat (page_level iv parent) < 2"
    using p(2,3) by (simp_all add: word_less_nat_alt unat_Suc_no_wrap [of _ 2])
  then have lvl: "lvl \<le> 2" "lvl \<noteq> 0" by (auto simp: word_le_nat_alt)
  have "uat_tree iv1 \<and> walk (uview iv1) r v = walk (uview iv) r v"
  proof (cases "get_leaf iv (parent, e) = 0")
    case False
    with gc tree show ?thesis by (auto simp: AppleAgxUatGetChild_def Let_def split: if_splits option.splits)
  next
    case zero: True
    obtain r0 iv2 al2 where a: "AppleAgxUatAllocateRecordedPage lvl alc iv al = (r0, iv2, al2)"
      by (metis prod_cases3)
    from a src wf lvl(1) show ?thesis
    proof (cases rule: alloc_spec)
      case (fail res)
      with gc zero a show ?thesis by (simp add: AppleAgxUatGetChild_def)
    next
      case (ok page)
      from encode_table_ok [OF ok(4)] obtain d where
        d: "AppleAgxUatEncodeTableDescriptor (pg_PhysicalAddress page) = Inr d"
        "d AND UAT_ADDRESS_MASK = pg_PhysicalAddress page" .
      have iv1: "iv1 = set_leaf (parent, e) d (add_page page iv)"
        using gc zero a ok(1,2) d(1) add_page_simps(2) [OF ok(3)] by (auto simp: AppleAgxUatGetChild_def)
      have new: "\<forall>i<npages iv. page_pa iv i \<noteq> pg_PhysicalAddress page"
        using own ok(7) by (auto simp: uat_owned_def)
      have nz: "pg_Level page \<noteq> 0" using ok(5) lvl by simp
      note L = linked_page [OF wf tree ok(3,9,4,6) nz new p(1,2,4) zero d(2) wf1(1) iv1]
      show ?thesis using L(2) walk_pruned [OF L(1)] by simp
    qed
  qed
  then show "uat_tree iv1" "walk (uview iv1) r v = walk (uview iv) r v" by simp_all
qed

lemma FindLeaf_view:
  assumes fl: "AppleAgxUatFindLeaf root v alc iv al = (Inr leaf, iv1, al1)"
    and wf: "uat_wf iv" and tree: "uat_tree iv" and own: "uat_owned live iv al" and src: "page_source alc live"
    and root: "root < npages iv" "page_level iv root = 0"
  shows "uat_wf iv1" and "uat_tree iv1" and "uat_owned live iv1 al1" and "uat_ext iv iv1"
    and "uat_frame iv1 = uat_frame iv" and "walk (uview iv1) r w = walk (uview iv) r w"
    and "AppleAgxUatFindExistingLeaf root v iv1 = Inr leaf"
proof -
  obtain l1 iv2 al2 where c: "AppleAgxUatGetChild root (level0_index v) 1 alc iv al = (Inr l1, iv2, al2)"
    and c3: "\<exists>l2. AppleAgxUatGetChild l1 (level1_index v) 2 alc iv2 al2 = (Inr l2, iv1, al1)"
    using fl by (auto simp: AppleAgxUatFindLeaf_def split: prod.splits sum.splits)
  from c3 obtain l2 where c2: "AppleAgxUatGetChild l1 (level1_index v) 2 alc iv2 al2 = (Inr l2, iv1, al1)" ..
  have e0: "level0_index v < entry_count (uat_pages iv ! root)" using root by (simp add: entry_count_def)
  note A = GetChild_view [OF c wf tree own src root(1) _ _ e0, unfolded root(2), simplified]
  note l1 = FindPage_Some [OF A(7)]
  have e1: "level1_index v < entry_count (uat_pages iv2 ! l1)" using l1 by (simp add: entry_count_def)
  have lv: "page_level iv2 l1 < 2" "2 = page_level iv2 l1 + 1" using l1 by simp_all
  note B = GetChild_view [OF c2 A(1-3) src conjunct1 [OF l1] lv e1]
  show "uat_wf iv1" "uat_tree iv1" "uat_owned live iv1 al1" by (rule B)+
  show "uat_ext iv iv1" by (rule uat_ext_trans [OF A(4) B(4)])
  show "uat_frame iv1 = uat_frame iv" using A(5) B(5) by simp
  show "walk (uview iv1) r w = walk (uview iv) r w" using A(6) B(6) by simp
  show "AppleAgxUatFindExistingLeaf root v iv1 = Inr leaf"
    using FindLeaf_grown [OF fl uat_grown_start [OF wf] own src root] by blast
qed

text \<open>Setting a free leaf changes the walks to it and no others.\<close>

lemma set_leaf_walk:
  assumes wf: "uat_wf iv" and tree: "uat_tree iv" and rp: "AppleAgxUatFindPage iv rp 0 = Some root"
    and f: "AppleAgxUatFindExistingLeaf root v iv = Inr leaf"
  shows "uat_wf (set_leaf leaf d iv)" and "uat_tree (set_leaf leaf d iv)"
    and "walk (uview (set_leaf leaf d iv)) r w = (if r = rp \<and> same_index w v then d else walk (uview iv) r w)"
proof -
  obtain i e where l: "leaf = (i, e)" by (cases leaf)
  let ?iv = "set_leaf leaf d iv"
  note p = FindExistingLeaf_page [OF f [unfolded l]] and rt = FindPage_Some [OF rp]
  show wf1: "uat_wf ?iv" unfolding l by (rule uat_wf_set_leaf [OF wf p(1,3)]) (simp add: p(2))
  have get: "get_leaf ?iv m = (if m = leaf then d else get_leaf iv m)" for m
    unfolding l using uat_wf_page [OF wf p(1)] p(3) by (intro get_set_leaf) simp_all
  have keep: "get_leaf ?iv (j, f) = get_leaf iv (j, f)" if "page_level iv j \<noteq> 2" for j f
    unfolding get using that p(2) by (auto simp: l)
  have "leads ?iv q j f = leads iv q j f" for q j f
    using keep [of j f] by (auto simp: leads_def entry_count_level)
  then show "uat_tree ?iv" using tree by (simp add: uat_tree_def)
  show "walk (uview ?iv) r w = (if r = rp \<and> same_index w v then d else walk (uview iv) r w)"
  proof (cases "AppleAgxUatFindPage iv r 0")
    case None
    then show ?thesis using rp by (auto simp: walk_uview [OF wf] walk_uview [OF wf1])
  next
    case (Some root')
    note rt' = FindPage_Some [OF Some]
    have e: "AppleAgxUatFindExistingLeaf root' w ?iv = AppleAgxUatFindExistingLeaf root' w iv"
      using rt' keep by (intro FindExistingLeaf_frame) simp_all
    have same: "r = rp \<and> same_index w v" if "AppleAgxUatFindExistingLeaf root' w iv = Inr leaf"
      using FindExistingLeaf_inj [OF wf tree, of root' root w leaf v] that f rt rt'
      by (auto simp: same_index_def)
    have there: "AppleAgxUatFindExistingLeaf root' w iv = Inr leaf" if "r = rp" "same_index w v"
      using that rp Some f FindExistingLeaf_index [OF that(2)] by simp
    show ?thesis
      unfolding walk_Some [OF wf1, unfolded FindPage_set_leaf, OF Some] walk_Some [OF wf Some] e
      using same there get by (auto split: sum.split)
  qed
qed

lemma map_leaves_view:
  assumes "map_leaves c root va prot first alc backing m iv al = (AppleAgxUatResultOk, iv1, al1)"
    and "uat_wf iv" and "uat_tree iv" and "uat_owned live iv al" and src: "page_source alc live"
    and "AppleAgxUatFindPage iv rp 0 = Some root"
  shows "uat_tree iv1 \<and>
    (\<forall>r w. (r = rp \<longrightarrow> (\<forall>b\<in>set backing. \<not> same_index w (va + fst b))) \<longrightarrow>
       walk (uview iv1) r w = walk (uview iv) r w) \<and>
    (\<forall>b\<in>set backing. walk (uview iv) rp (va + fst b) = 0)"
  using assms(1-4,6)
proof (induction backing arbitrary: m iv al)
  case Nil
  then show ?case by simp
next
  case (Cons b backing)
  obtain ofs pa where b: "b = (ofs, pa)" by (cases b)
  note rt = FindPage_Some [OF Cons.prems(5)]
  from Cons.prems(1) obtain leaf iv2 al2 d where
    f: "AppleAgxUatFindLeaf root (va + ofs) alc iv al = (Inr leaf, iv2, al2)" and z: "get_leaf iv2 leaf = 0"
    and d: "AppleAgxUatEncodePageDescriptor c pa prot = Inr d"
    and rest: "map_leaves c root va prot first alc backing (m + UAT_PAGE_SIZE) (set_leaf leaf d iv2) al2 =
      (AppleAgxUatResultOk, iv1, al1)"
    using FindLeaf_grown [OF _ uat_grown_start [OF Cons.prems(2)] Cons.prems(4) src, of root "va + ofs"] rt
    by (auto simp: b encode_page_Inl split: prod.splits sum.splits if_splits)
  note F = FindLeaf_view [OF f Cons.prems(2-4) src] rt
  have F': "uat_wf iv2" "uat_tree iv2" "uat_owned live iv2 al2" "uat_ext iv iv2"
    "\<And>r w. walk (uview iv2) r w = walk (uview iv) r w"
    "AppleAgxUatFindExistingLeaf root (va + ofs) iv2 = Inr leaf" using F rt by blast+
  have rp: "AppleAgxUatFindPage iv2 rp 0 = Some root" by (rule FindPage_ext [OF Cons.prems(5) F'(4,1)])
  note S = set_leaf_walk [OF F'(1,2) rp F'(6), of d]
  have own: "uat_owned live (set_leaf leaf d iv2) al2" using F'(3) by (simp add: uat_owned_def)
  have IH: "uat_tree iv1" "\<And>r w. (r = rp \<longrightarrow> (\<forall>b\<in>set backing. \<not> same_index w (va + fst b))) \<Longrightarrow>
       walk (uview iv1) r w = (if r = rp \<and> same_index w (va + ofs) then d else walk (uview iv) r w)"
    "\<And>b. b \<in> set backing \<Longrightarrow> (if same_index (va + fst b) (va + ofs) then d else walk (uview iv) rp (va + fst b)) = 0"
    using Cons.IH [OF rest S(1,2) own, unfolded FindPage_set_leaf, OF rp] unfolding S(3) F'(5) by simp_all
  have "walk (uview iv) rp (va + ofs) = 0"
    using walk_Some [OF F'(1) rp, of "va + ofs"] F'(5,6) z by simp
  moreover have "walk (uview iv) rp (va + fst b') = 0" if "b' \<in> set backing" for b'
    using IH(3) [OF that] encode_page_nz [OF d] by (simp split: if_splits)
  ultimately show ?case using IH(1,2) by (auto simp: b)
qed

section \<open>Mapping and unmapping together\<close>

lemma in_half_side:
  assumes "in_half half v"
  shows "half = (if v < UAT_LOW_LIMIT then AppleAgxUatTtbr0 else AppleAgxUatTtbr1)"
    and "uat_root roots v = root_of roots half" and "\<not> (v \<ge> UAT_LOW_LIMIT \<and> v < UAT_HIGH_BASE)"
  using assms by (cases half; simp add: in_half_def uat_root_def root_of_def word_le_nat_alt word_less_nat_alt)+

lemma in_halfI:
  assumes "v AND UAT_PAGE_MASK = 0" and "\<not> (v \<ge> UAT_LOW_LIMIT \<and> v < UAT_HIGH_BASE)"
  shows "in_half (if v < UAT_LOW_LIMIT then AppleAgxUatTtbr0 else AppleAgxUatTtbr1) v"
  using assms by (auto simp: in_half_def)

lemma Resolve_cong:
  assumes "uat_wf iv" and "uat_wf iv1"
    and "\<And>half. in_half half v \<Longrightarrow> walk (uview iv1) (uat_root roots v) v = walk (uview iv) (uat_root roots v) v"
  shows "AppleAgxUatResolvePage c roots v iv1 = AppleAgxUatResolvePage c roots v iv"
  using assms(3) [OF in_halfI] unfolding Resolve_walk [OF assms(1)] Resolve_walk [OF assms(2)] by auto

text \<open>The request of a map that succeeded, with the record it left.\<close>

lemma request_loop:
  assumes "uat_request c roots va p phys n alc iv al AppleAgxUatResultOk iv1 al1"
  obtains half root iv2 m pa len where "AppleAgxUatValidateRange c va pa len p = Inr half"
      "unat len = n * 0x4000" "AppleAgxUatFindPage iv (root_of roots half) 0 = Some root"
      "map_leaves c root va p (inv_PageCount iv) alc
         (map (\<lambda>i. (of_nat i * UAT_PAGE_SIZE, phys i)) [0..<n]) 0 iv al = (AppleAgxUatResultOk, iv2, al1)"
      "iv1 = add_mapping m iv2" "um_VirtualAddress m = va" "um_Length m = len" "um_Context m = c"
      "\<not> mapping_overlaps c va len iv" "um_PhysicalAddress m = pa" "um_Protection m = p"
      "\<not> inv_MappingCount iv \<ge> inv_MappingCapacity iv"
      "AppleAgxUatCheckOwnerArguments alc iv = AppleAgxUatResultOk"
proof -
  from assms consider
      (map) pa len where "AppleAgxUatMap c roots va pa len p alc iv al = (AppleAgxUatResultOk, iv1, al1)"
        "phys = (\<lambda>i. pa + of_nat i * UAT_PAGE_SIZE)" "n = unat len div 0x4000"
    | (pages) pages count where
        "AppleAgxUatMapPageList c roots va pages count p alc iv al = (AppleAgxUatResultOk, iv1, al1)"
        "phys = (!) pages" "n = unat count"
    unfolding uat_request_def by (elim disjE exE conjE)
  then show thesis
  proof cases
    case (map pa len)
    from map(1) show thesis
    proof (cases rule: Map_loop)
      case (loop half root iv2 m k)
      have k: "n = k" using map(3) loop(2) by simp
      show thesis
        by (rule that [OF loop(1,2,3) [folded k] _ _ loop(6-13)]) (use loop(4,5) map(2) k in simp_all)
    qed simp
  next
    case (pages pages count)
    from pages(1) show thesis
    proof (cases rule: MapPageList_loop)
      case (loop half root iv2 m len)
      show thesis
        by (rule that [OF loop(1,2,3) [folded pages(3)] _ _ loop(6-13)]) (use loop(4,5) pages(2,3) in simp_all)
    qed simp
  qed
qed

lemma loop_grown:
  assumes ml: "map_leaves c root va p (inv_PageCount iv) alc
       (map (\<lambda>i. (of_nat i * UAT_PAGE_SIZE, phys i)) [0..<n]) 0 iv al = (AppleAgxUatResultOk, iv2, al1)"
    and len: "unat (len :: u64) = n * 0x4000" and root: "AppleAgxUatFindPage iv rp 0 = Some root"
    and wf: "uat_wf iv" and own: "uat_owned live iv al" and src: "page_source alc live"
  shows "uat_grown live root va (page_offsets n) iv al iv2 al1" and "uat_ext iv iv2"
    and "i < n \<Longrightarrow> \<exists>d. translates root (va + of_nat i * UAT_PAGE_SIZE) d iv2"
proof -
  let ?b = "map (\<lambda>i. (of_nat i * UAT_PAGE_SIZE, phys i)) [0..<n]"
  have n: "(0 + length ?b) * 0x4000 < 2 ^ 64" using len unsigned_less [of len, where 'a = nat] by simp
  have ml0: "map_leaves c root va p (inv_PageCount iv) alc ?b (of_nat (0 * 0x4000)) iv al =
      (AppleAgxUatResultOk, iv2, al1)" using ml by simp
  have fst: "map fst ?b = map (\<lambda>i. of_nat i * UAT_PAGE_SIZE) [0..<0 + length ?b]" by simp
  have g0: "uat_grown live root va (page_offsets 0) iv al iv al"
    using uat_grown_start [OF wf, of live root va al] by (simp add: page_offsets_def)
  have rt: "root < npages iv" "page_level iv root = 0" using FindPage_Some [OF root] by simp_all
  from map_leaves_spec [OF ml0 fst n g0 own src wf rt] show
    "uat_grown live root va (page_offsets n) iv al iv2 al1" "uat_ext iv iv2"
    "i < n \<Longrightarrow> \<exists>d. translates root (va + of_nat i * UAT_PAGE_SIZE) d iv2" by auto
qed

text \<open>No earlier record names the range of a map that was accepted.\<close>

lemma no_such_mapping:
  assumes "\<not> mapping_overlaps c va len iv" and "AppleAgxUatValidateRange c va pa len p = Inr half"
    and "j < unat (inv_MappingCount iv)" and "unat (inv_MappingCount iv) \<le> length (uat_mappings iv)"
  shows "\<not> (um_Context (uat_mappings iv ! j) = c \<and> um_VirtualAddress (uat_mappings iv ! j) = va \<and>
    um_Length (uat_mappings iv ! j) = len)"
proof
  assume a: "um_Context (uat_mappings iv ! j) = c \<and> um_VirtualAddress (uat_mappings iv ! j) = va \<and>
    um_Length (uat_mappings iv ! j) = len"
  note v = assms(2) [unfolded validate_range_iff]
  have pos: "0 < unat len" and top: "unat va + unat len \<le> 2 ^ 64" using v by simp_all
  then have "unat (len - 1) = unat len - 1" by (intro unat_pred) auto
  moreover have "va + len - 1 = va + (len - 1)" by simp
  ultimately have "unat (va + len - 1) = unat va + (unat len - 1)"
    using top pos by (subst \<open>va + len - 1 = va + (len - 1)\<close>, subst unat_add_no_wrap) simp_all
  then have "va \<le> va + len - 1" by (simp add: word_le_nat_alt)
  moreover have "uat_mappings iv ! j \<in> set (take (unat (inv_MappingCount iv)) (uat_mappings iv))"
    using assms(3,4) by (auto simp: in_set_conv_nth)
  ultimately show False using assms(1) a by (auto simp: mapping_overlaps_def list_ex_iff Let_def)
qed

lemma add_mapping_live:
  assumes "unat (inv_MappingCount iv) < length (uat_mappings iv)" and "\<not> inv_MappingCount iv \<ge> inv_MappingCapacity iv"
  shows "unat (inv_MappingCount (add_mapping m iv)) = Suc (unat (inv_MappingCount iv))"
    and "live_mappings (add_mapping m iv) = live_mappings iv @ [m]"
    and "uat_mappings (add_mapping m iv) ! unat (inv_MappingCount iv) = m"
    and "j < unat (inv_MappingCount iv) \<Longrightarrow> uat_mappings (add_mapping m iv) ! j = uat_mappings iv ! j"
    and "length (uat_mappings (add_mapping m iv)) = length (uat_mappings iv)"
    and "inv_MappingCapacity (add_mapping m iv) = inv_MappingCapacity iv"
proof -
  show c: "unat (inv_MappingCount (add_mapping m iv)) = Suc (unat (inv_MappingCount iv))"
    using assms(2) by (simp add: add_mapping_def word_le_nat_alt unat_Suc_no_wrap [of _ "inv_MappingCapacity iv"])
  show "live_mappings (add_mapping m iv) = live_mappings iv @ [m]"
    using assms(1) unfolding live_mappings_def c by (simp add: add_mapping_def take_Suc_conv_app_nth)
qed (use assms in \<open>simp_all add: add_mapping_def\<close>)

text \<open>The tables after a map, and that its record is found again.\<close>

lemma mapped_state:
  assumes rq: "uat_request c roots va p phys n alc iv al AppleAgxUatResultOk iv1 al1"
    and wf: "uat_wf iv" and tree: "uat_tree iv" and own: "uat_owned live iv al" and src: "page_source alc live"
    and cap: "unat (inv_MappingCapacity iv) \<le> length (uat_mappings iv)"
  obtains half m where "uat_wf iv1" "uat_tree iv1" "uat_owned live iv1 al1"
    "live_mappings iv1 = live_mappings iv @ [m]" "unat (inv_MappingCount iv1) = Suc (unat (inv_MappingCount iv))"
    "unat (inv_MappingCount iv1) \<le> length (uat_mappings iv1)"
    "\<And>k. k < unat (inv_MappingCount iv1) \<Longrightarrow> um_Context (uat_mappings iv1 ! k) = c \<Longrightarrow>
       um_VirtualAddress (uat_mappings iv1 ! k) = va \<Longrightarrow> um_Length (uat_mappings iv1 ! k) = of_nat (n * 0x4000) \<Longrightarrow>
       k = unat (inv_MappingCount iv)"
    "in_half half va" "n * 0x4000 < 2 ^ 64" "length (live_mappings iv) = unat (inv_MappingCount iv)"
    "\<And>i. i < n \<Longrightarrow> walk (uview iv) (root_of roots half) (va + of_nat i * UAT_PAGE_SIZE) = 0"
    "\<And>r w. (r = root_of roots half \<longrightarrow> (\<forall>i<n. \<not> same_index w (va + of_nat i * UAT_PAGE_SIZE))) \<Longrightarrow>
       walk (uview iv1) r w = walk (uview iv) r w"
    "\<exists>iv2 al2. AppleAgxUatUnmap c roots va (of_nat (n * 0x4000)) alc iv1 al1 = (AppleAgxUatResultOk, iv2, al2)"
proof -
  from request_loop [OF rq] obtain half root iv2 m pa len where
    L: "AppleAgxUatValidateRange c va pa len p = Inr half" "unat len = n * 0x4000"
      "AppleAgxUatFindPage iv (root_of roots half) 0 = Some root"
      "map_leaves c root va p (inv_PageCount iv) alc
         (map (\<lambda>i. (of_nat i * UAT_PAGE_SIZE, phys i)) [0..<n]) 0 iv al = (AppleAgxUatResultOk, iv2, al1)"
      "iv1 = add_mapping m iv2" "um_VirtualAddress m = va" "um_Length m = len" "um_Context m = c"
      "\<not> mapping_overlaps c va len iv" "um_PhysicalAddress m = pa" "um_Protection m = p"
      "\<not> inv_MappingCount iv \<ge> inv_MappingCapacity iv"
      "AppleAgxUatCheckOwnerArguments alc iv = AppleAgxUatResultOk" .
  note G = loop_grown [OF L(4,2,3) wf own src]
  note V = map_leaves_view [OF L(4) wf tree own src L(3)]
  have fr: "inv_Mappings iv2 = inv_Mappings iv" "inv_MappingCount iv2 = inv_MappingCount iv"
    "inv_MappingCapacity iv2 = inv_MappingCapacity iv" using G(1) by (simp_all add: uat_grown_def uat_frame_def)
  have count: "unat (inv_MappingCount iv) < length (uat_mappings iv)"
    using L(12) cap by (simp add: word_le_nat_alt)
  note A = add_mapping_live [of iv2, unfolded fr, OF count L(12), where m = m, folded L(5)]
  note same = same_pages [of iv1 iv2, unfolded L(5) add_mapping_frame, OF refl refl, folded L(5)]
  have len: "len = of_nat (n * 0x4000)" unfolding L(2) [symmetric] by simp
  have n64: "n * 0x4000 < 2 ^ 64" using L(2) unsigned_less [of len, where 'a = nat] by simp
  have "0 < n" using L(1,2) by (auto simp: validate_range_iff)
  then have half: "in_half half va" using range_pages(1) [OF L(1), of 0] L(2) by simp
  have wf2: "uat_wf iv2" by (rule uat_grown_wf [OF G(1)])
  have wf1: "uat_wf iv1" using same(5) wf2 by simp
  have "leads iv1 q i e = leads iv2 q i e" for q i e by (simp add: leads_def same(1)) (simp add: L(5))
  then have tree1: "uat_tree iv1" using V by (simp add: uat_tree_def)
  have own1: "uat_owned live iv1 al1" using uat_grown_owned [OF G(1) own] by (simp add: uat_owned_def L(5))
  have view: "uview iv1 = uview iv2" by (simp add: uview_def fun_eq_iff same(1)) (simp add: L(5))
  have old: "\<not> (um_Context (uat_mappings iv1 ! j) = c \<and> um_VirtualAddress (uat_mappings iv1 ! j) = va \<and>
      um_Length (uat_mappings iv1 ! j) = len)" if "j < unat (inv_MappingCount iv)" for j
    using no_such_mapping [OF L(9,1) that] count A(4) [OF that] by simp
  have uniq: "k = unat (inv_MappingCount iv)" if "k < unat (inv_MappingCount iv1)" "um_Context (uat_mappings iv1 ! k) = c"
    "um_VirtualAddress (uat_mappings iv1 ! k) = va" "um_Length (uat_mappings iv1 ! k) = of_nat (n * 0x4000)" for k
    using old [of k] that A(1) by (auto simp: len less_Suc_eq)
  have found: "find (\<lambda>k. um_Context (uat_mappings iv1 ! k) = c \<and> um_VirtualAddress (uat_mappings iv1 ! k) = va \<and>
      um_Length (uat_mappings iv1 ! k) = len) [0..<unat (inv_MappingCount iv1)] = Some (unat (inv_MappingCount iv))"
    using uniq A(1,3) L(6-8) by (intro find_upt_unique) (auto simp: len)
  have "AppleAgxUatFindPage iv1 (root_of roots half) 0 = Some root" using FindPage_ext [OF L(3) G(2) wf2] same(2) by simp
  moreover have "leaves_present root va len iv1"
    unfolding leaves_present_def len offsets_pages [OF n64] list_all_iff
  proof
    fix ofs assume "ofs \<in> set (page_offsets n)"
    then obtain i where "i < n" "ofs = of_nat i * UAT_PAGE_SIZE" by (auto simp: page_offsets_def)
    with G(3) [OF this(1)] show "case AppleAgxUatFindExistingLeaf root (va + ofs) iv1 of Inl _ \<Rightarrow> False
        | Inr leaf \<Rightarrow> get_leaf iv1 leaf \<noteq> 0" by (auto simp: translates_def same(1,3))
  qed
  moreover have "AppleAgxUatCheckOwnerArguments alc iv1 = AppleAgxUatResultOk"
  proof -
    have "inv_PageCount iv1 \<le> inv_PageCapacity iv1" using wf1 by (simp add: uat_wf_def word_le_nat_alt)
    moreover have "inv_MappingCount iv1 \<le> inv_MappingCapacity iv1"
      using A(1,6) L(12) by (simp add: word_le_nat_alt)
    moreover have "inv_Pages iv1 \<noteq> None" using wf1 by (simp add: uat_wf_def)
    moreover have "inv_Mappings iv1 \<noteq> None" by (simp add: L(5) add_mapping_def)
    ultimately show ?thesis using L(13) by (auto simp: AppleAgxUatCheckOwnerArguments_def split: if_splits)
  qed
  ultimately have un: "\<exists>iv3 al3. AppleAgxUatUnmap c roots va len alc iv1 al1 = (AppleAgxUatResultOk, iv3, al3)"
    using found A(3) L(1,10,11) by (simp add: AppleAgxUatUnmap_def Let_def)
  have lm: "live_mappings iv2 = live_mappings iv" by (simp add: live_mappings_def fr)
  show thesis
  proof (rule that [OF wf1 tree1 own1 A(2) [unfolded lm] A(1) _ uniq half n64 _ _ _ un [unfolded len]])
    show "unat (inv_MappingCount iv1) \<le> length (uat_mappings iv1)" using A(1,5) count by simp
    show "length (live_mappings iv) = unat (inv_MappingCount iv)" using count by (simp add: live_mappings_def)
    show "walk (uview iv) (root_of roots half) (va + of_nat i * UAT_PAGE_SIZE) = 0" if "i < n" for i
      using V that by auto
    show "walk (uview iv1) r w = walk (uview iv) r w"
      if "r = root_of roots half \<longrightarrow> (\<forall>i<n. \<not> same_index w (va + of_nat i * UAT_PAGE_SIZE))" for r w
      using V that unfolding view by auto
  qed
qed

lemma table_demo_request:
  obtains iv1 al1 where
    "AppleAgxUatMap 1 roots_demo 0 0x123454000 0x4000 AppleAgxUatGpuSharedReadWrite
       pool_allocator (table_demo 4) [0x10000] = (AppleAgxUatResultOk, iv1, al1)"
    "uat_request 1 roots_demo 0 AppleAgxUatGpuSharedReadWrite
      (\<lambda>i. 0x123454000 + of_nat i * UAT_PAGE_SIZE) 1 pool_allocator (table_demo 4) [0x10000]
      AppleAgxUatResultOk iv1 al1"
proof -
  from table_demo_map obtain iv1 al1 where
    m: "AppleAgxUatMap 1 roots_demo 0 0x123454000 0x4000 AppleAgxUatGpuSharedReadWrite
      pool_allocator (table_demo 4) [0x10000] = (AppleAgxUatResultOk, iv1, al1)" by blast
  have "unat (0x4000::u64) div 0x4000 = 1" by simp
  then have "1 = unat (0x4000::u64) div 0x4000" by simp
  with m show thesis by (intro that [OF m]) (unfold uat_request_def, blast)
qed

lemma table_demo_tree:
  "uat_tree (table_demo 4)" "unat (inv_MappingCapacity (table_demo 4)) \<le> length (uat_mappings (table_demo 4))"
  by (auto simp: uat_tree_def leads_def table_demo_def get_leaf_def entry_count_def)

section \<open>Properties\<close>

lemma unmap_result:
  assumes "AppleAgxUatUnmap c roots va len alc iv al = (r, iv1, al1)"
    and "uat_wf iv" and "uat_tree iv" and "uat_owned live iv al" and "page_source alc live"
    and "unat (inv_MappingCount iv) \<le> length (uat_mappings iv)"
  shows "if r = AppleAgxUatResultOk
    then (\<forall>i < unat len div 0x4000. \<forall>pa d.
            AppleAgxUatResolvePage c roots (va + of_nat i * UAT_PAGE_SIZE) iv1 \<noteq> (AppleAgxUatResultOk, pa, d)) \<and>
         (\<forall>c' roots' v. uat_root roots' v \<noteq> uat_root roots va \<or>
            (v < UAT_LOW_LIMIT \<longleftrightarrow> va < UAT_LOW_LIMIT) \<and>
            (\<forall>i < unat len div 0x4000. v \<noteq> va + of_nat i * UAT_PAGE_SIZE) \<longrightarrow>
            AppleAgxUatResolvePage c' roots' v iv1 = AppleAgxUatResolvePage c' roots' v iv) \<and>
         (\<exists>k < length (live_mappings iv).
            um_Context (live_mappings iv ! k) = c \<and> um_VirtualAddress (live_mappings iv ! k) = va \<and>
            um_Length (live_mappings iv ! k) = len \<and>
            live_mappings iv1 = take k (live_mappings iv) @ drop (Suc k) (live_mappings iv)) \<and>
         live al1 = live al - (page_set iv - page_set iv1) \<and>
         uat_wf iv1 \<and> uat_tree iv1 \<and> uat_owned live iv1 al1
    else iv1 = iv \<and> al1 = al"
proof (cases "r = AppleAgxUatResultOk")
  case False
  from assms(1) show ?thesis by (cases rule: Unmap_cases) (use False in simp_all)
next
  case True
  obtain k half n where
    U: "k < unat (inv_MappingCount iv)" "um_Context (uat_mappings iv ! k) = c"
      "um_VirtualAddress (uat_mappings iv ! k) = va" "um_Length (uat_mappings iv ! k) = len"
      "live_mappings iv1 = take k (live_mappings iv) @ drop (Suc k) (live_mappings iv)"
      "unat len = n * 0x4000" "\<And>i. i < n \<Longrightarrow> in_half half (va + of_nat i * UAT_PAGE_SIZE)" "0 < n"
      "uat_wf iv1" "uat_tree iv1" "root_set iv1 = root_set iv" "page_set iv1 \<subseteq> page_set iv"
      "live al1 = live al - (page_set iv - page_set iv1)" "c < UAT_CONTEXT_COUNT"
      "\<And>r w. walk (uview iv1) r w =
         (if r = root_of roots half \<and> (\<exists>i<n. same_index w (va + of_nat i * UAT_PAGE_SIZE)) then 0
          else walk (uview iv) r w)" by (rule Unmap_walks [OF assms(1) [unfolded True] assms(2,3,5,6)]) (rule that; assumption)
  have n: "unat len div 0x4000 = n" using U(6) by simp
  have va: "in_half half va" using U(7) [OF U(8)] by simp
  have gone: "AppleAgxUatResolvePage c roots (va + of_nat i * UAT_PAGE_SIZE) iv1 \<noteq> (AppleAgxUatResultOk, pa, d)"
    if "i < n" for i pa d
  proof -
    have "walk (uview iv1) (uat_root roots (va + of_nat i * UAT_PAGE_SIZE)) (va + of_nat i * UAT_PAGE_SIZE) = 0"
      unfolding in_half_side(2) [OF U(7) [OF that]] U(15) using that by (auto simp: same_index_def)
    then show ?thesis unfolding Resolve_walk [OF U(9)] by simp
  qed
  have kept: "AppleAgxUatResolvePage c' roots' v iv1 = AppleAgxUatResolvePage c' roots' v iv"
    if v: "uat_root roots' v \<noteq> uat_root roots va \<or> (v < UAT_LOW_LIMIT \<longleftrightarrow> va < UAT_LOW_LIMIT) \<and>
      (\<forall>i<n. v \<noteq> va + of_nat i * UAT_PAGE_SIZE)" for c' roots' v
  proof (rule Resolve_cong [OF assms(2) U(9)])
    fix h assume h: "in_half h v"
    have "v = va + of_nat i * UAT_PAGE_SIZE"
      if "v < UAT_LOW_LIMIT \<longleftrightarrow> va < UAT_LOW_LIMIT" "i < n" "same_index v (va + of_nat i * UAT_PAGE_SIZE)" for i
    proof -
      have "h = half" using that(1) in_half_side(1) [OF h] in_half_side(1) [OF va] by simp
      with index_determines [OF h U(7) [OF that(2), folded \<open>h = half\<close>]] that(3) show ?thesis
        by (simp add: same_index_def)
    qed
    with v show "walk (uview iv1) (uat_root roots' v) v = walk (uview iv) (uat_root roots' v) v"
      unfolding U(15) in_half_side(2) [OF va, symmetric] by auto
  qed
  have "k < length (live_mappings iv)" "live_mappings iv ! k = uat_mappings iv ! k"
    using U(1) assms(6) by (simp_all add: live_mappings_def)
  then have rec: "\<exists>k < length (live_mappings iv). um_Context (live_mappings iv ! k) = c \<and>
      um_VirtualAddress (live_mappings iv ! k) = va \<and> um_Length (live_mappings iv ! k) = len \<and>
      live_mappings iv1 = take k (live_mappings iv) @ drop (Suc k) (live_mappings iv)"
    using U(2-5) by (intro exI [of _ k]) simp
  have own: "uat_owned live iv1 al1"
    using owned_after [OF U(12)] assms(4) unfolding uat_owned_iff U(13) by blast
  show ?thesis using True gone kept rec U(9,10,13) own unfolding n by simp
qed



lemma map_unmap_restores:
  assumes "uat_request c roots va p phys n alc iv al AppleAgxUatResultOk iv1 al1"
    and "uat_wf iv" and "uat_tree iv" and "uat_owned live iv al" and "page_source alc live"
    and "unat (inv_MappingCapacity iv) \<le> length (uat_mappings iv)"
  shows "\<exists>iv2 al2. AppleAgxUatUnmap c roots va (of_nat (n * 0x4000)) alc iv1 al1 = (AppleAgxUatResultOk, iv2, al2) \<and>
    (\<forall>c' roots' v. AppleAgxUatResolvePage c' roots' v iv2 = AppleAgxUatResolvePage c' roots' v iv) \<and>
    live_mappings iv2 = live_mappings iv \<and> uat_wf iv2 \<and> uat_tree iv2 \<and> uat_owned live iv2 al2"
proof -
  obtain half m where
    M: "uat_wf iv1" "uat_tree iv1" "uat_owned live iv1 al1" "live_mappings iv1 = live_mappings iv @ [m]"
      "unat (inv_MappingCount iv1) = Suc (unat (inv_MappingCount iv))" "unat (inv_MappingCount iv1) \<le> length (uat_mappings iv1)"
    "\<And>k. k < unat (inv_MappingCount iv1) \<Longrightarrow> um_Context (uat_mappings iv1 ! k) = c \<Longrightarrow>
       um_VirtualAddress (uat_mappings iv1 ! k) = va \<Longrightarrow> um_Length (uat_mappings iv1 ! k) = of_nat (n * 0x4000) \<Longrightarrow>
       k = unat (inv_MappingCount iv)"
    "in_half half va" "n * 0x4000 < 2 ^ 64" "length (live_mappings iv) = unat (inv_MappingCount iv)"
    "\<And>i. i < n \<Longrightarrow> walk (uview iv) (root_of roots half) (va + of_nat i * UAT_PAGE_SIZE) = 0"
    "\<And>r w. (r = root_of roots half \<longrightarrow> (\<forall>i<n. \<not> same_index w (va + of_nat i * UAT_PAGE_SIZE))) \<Longrightarrow>
       walk (uview iv1) r w = walk (uview iv) r w"
    "\<exists>iv2 al2. AppleAgxUatUnmap c roots va (of_nat (n * 0x4000)) alc iv1 al1 = (AppleAgxUatResultOk, iv2, al2)" by (rule mapped_state [OF assms]) (rule that; assumption)
  from M(13) obtain iv2 al2 where
    un: "AppleAgxUatUnmap c roots va (of_nat (n * 0x4000)) alc iv1 al1 = (AppleAgxUatResultOk, iv2, al2)" by blast
  obtain k half' n' where
    U: "k < unat (inv_MappingCount iv1)" "um_Context (uat_mappings iv1 ! k) = c"
      "um_VirtualAddress (uat_mappings iv1 ! k) = va" "um_Length (uat_mappings iv1 ! k) = of_nat (n * 0x4000)"
      "live_mappings iv2 = take k (live_mappings iv1) @ drop (Suc k) (live_mappings iv1)"
      "unat (of_nat (n * 0x4000) :: u64) = n' * 0x4000" "\<And>i. i < n' \<Longrightarrow> in_half half' (va + of_nat i * UAT_PAGE_SIZE)"
      "0 < n'" "uat_wf iv2" "uat_tree iv2" "root_set iv2 = root_set iv1" "page_set iv2 \<subseteq> page_set iv1"
      "live al2 = live al1 - (page_set iv1 - page_set iv2)" "c < UAT_CONTEXT_COUNT"
      "\<And>r w. walk (uview iv2) r w =
         (if r = root_of roots half' \<and> (\<exists>i<n'. same_index w (va + of_nat i * UAT_PAGE_SIZE)) then 0
          else walk (uview iv1) r w)" by (rule Unmap_walks [OF un M(1,2) assms(5) M(6)]) (rule that; assumption)
  have k: "k = unat (inv_MappingCount iv)" by (rule M(7) [OF U(1-4)])
  have n: "n' = n" using U(6) unfolding unat_pages [OF M(9)] by simp
  have h: "half' = half" using in_half_side(1) [OF M(8)] in_half_side(1) [of half' va] U(7) [OF U(8)] by simp
  have walks: "walk (uview iv2) r w = walk (uview iv) r w" for r w
  proof (cases "r = root_of roots half \<and> (\<exists>i<n. same_index w (va + of_nat i * UAT_PAGE_SIZE))")
    case True
    then obtain i where "i < n" "same_index w (va + of_nat i * UAT_PAGE_SIZE)" by blast
    with True walk_index [OF this(2)] M(11) show ?thesis unfolding U(15) n h by auto
  next
    case False
    with M(12) [of r w] show ?thesis unfolding U(15) n h by auto
  qed
  have "uat_owned live iv2 al2"
    using owned_after [OF U(12)] M(3) unfolding uat_owned_iff U(13) by blast
  moreover have "live_mappings iv2 = live_mappings iv" using U(5) M(4,10) k by simp
  moreover have "AppleAgxUatResolvePage c' roots' v iv2 = AppleAgxUatResolvePage c' roots' v iv" for c' roots' v
    by (rule Resolve_cong [OF assms(2) U(9)]) (rule walks)
  ultimately show ?thesis using un U(9,10) by blast
qed

text \<open>C4. Mapping and unmapping are a round trip: after a map that succeeded, contiguous or page by page, the unmap
  of the same range succeeds, and then every page of every address space translates as it did before the map, the
  recorded mappings are the same, and the tables are a well-formed tree of owned pages again.\<close>

theorem uat_map_unmap_roundtrip:
  assumes "uat_request c roots va p phys n alc iv al AppleAgxUatResultOk iv1 al1"
    and "uat_wf iv" and "uat_tree iv" and "uat_owned live iv al" and "page_source alc live"
    and "unat (inv_MappingCapacity iv) \<le> length (uat_mappings iv)"
  shows "\<exists>iv2 al2. AppleAgxUatUnmap c roots va (of_nat (n * 0x4000)) alc iv1 al1 = (AppleAgxUatResultOk, iv2, al2) \<and>
    (\<forall>c' roots' v. AppleAgxUatResolvePage c' roots' v iv2 = AppleAgxUatResolvePage c' roots' v iv) \<and>
    live_mappings iv2 = live_mappings iv \<and> uat_wf iv2 \<and> uat_tree iv2 \<and> uat_owned live iv2 al2"
  by (rule map_unmap_restores [OF assms])

theorem uat_map_unmap_roundtrip_witness:
  "\<exists>iv1 al1 iv2 al2. AppleAgxUatMap 1 roots_demo 0 0x123454000 0x4000 AppleAgxUatGpuSharedReadWrite
     pool_allocator (table_demo 4) [0x10000] = (AppleAgxUatResultOk, iv1, al1) \<and>
   AppleAgxUatUnmap 1 roots_demo 0 0x4000 pool_allocator iv1 al1 = (AppleAgxUatResultOk, iv2, al2) \<and>
   live_mappings iv2 = []"
proof -
  obtain iv1 al1 where m: "AppleAgxUatMap 1 roots_demo 0 0x123454000 0x4000 AppleAgxUatGpuSharedReadWrite
      pool_allocator (table_demo 4) [0x10000] = (AppleAgxUatResultOk, iv1, al1)"
    and rq: "uat_request 1 roots_demo 0 AppleAgxUatGpuSharedReadWrite
      (\<lambda>i. 0x123454000 + of_nat i * UAT_PAGE_SIZE) 1 pool_allocator (table_demo 4) [0x10000]
      AppleAgxUatResultOk iv1 al1" by (rule table_demo_request)
  have "live_mappings (table_demo 4) = []" by (simp add: live_mappings_def table_demo_def)
  with uat_map_unmap_roundtrip [OF rq table_demo_wf(1) table_demo_tree(1) table_demo_wf(2) pool_source
      table_demo_tree(2)] m show ?thesis by auto
qed

end
