(* ===== verification/UatMemory.thy ===== *)
theory UatMemory
  imports UatUnmap DeviceMemory "HOL-Library.Multiset"
begin

unbundle bit_operations_syntax

text \<open>
  The owner of the table pages, \<^verbatim>\<open>drivers/apple-agx/shared/src/apple_agx_uat_memory.c\<close>: the page allocator
  the page tables are given, over the device memory objects.  The platform's memory interface is a parameter: what
  its functions answer depends on the state of the platform, which every call moves on.  The calls that took effect
  are recorded, so that what was allocated can be compared with what was freed.
\<close>

section \<open>The platform\<close>

datatype memory_call =
  Allocated u64
| AllocateRefused
| Freed u64
| FreeRefused u64

record 'e memory_platform =
  mp_Io :: "'e \<Rightarrow> APPLE_AGX_MEMORY_IO"
  mp_Step :: "memory_call \<Rightarrow> 'e \<Rightarrow> 'e"

record 'e memory_env =
  me_World :: 'e
  me_Calls :: "memory_call list"

definition memory_step :: "'e memory_platform \<Rightarrow> memory_call list \<Rightarrow> 'e memory_env \<Rightarrow> 'e memory_env" where
  "memory_step p calls env =
     env\<lparr> me_World := fold (mp_Step p) calls (me_World env), me_Calls := me_Calls env @ calls \<rparr>"

text \<open>The calls behind an allocation: none when the arguments were refused, a refusal, an allocation that was kept,
  or one that was given back because it was unusable.\<close>

definition allocate_calls :: "APPLE_AGX_MEMORY_RESULT \<Rightarrow> APPLE_AGX_MEMORY_OBJECT \<Rightarrow> u64 list \<Rightarrow> memory_call list" where
  "allocate_calls result object frees =
     (if result = AppleAgxMemoryResultInvalidArgument \<or> result = AppleAgxMemoryResultBusy then []
      else if result = AppleAgxMemoryResultOk then [Allocated (mo_AllocationHandle object)]
      else case frees of [] \<Rightarrow> [AllocateRefused] | handle # _ \<Rightarrow> [Allocated handle, Freed handle])"

definition memory_allocate ::
  "'e memory_platform \<Rightarrow> u64 \<Rightarrow> APPLE_AGX_MEMORY_OBJECT \<Rightarrow> 'e memory_env
   \<Rightarrow> APPLE_AGX_MEMORY_RESULT \<times> APPLE_AGX_MEMORY_OBJECT \<times> 'e memory_env" where
  "memory_allocate p len object env =
     (case AppleAgxMemoryAllocate (mp_Io p (me_World env)) len object of
        (result, object', frees) \<Rightarrow>
          (result, object', memory_step p (allocate_calls result object' frees) env))"

definition memory_release ::
  "'e memory_platform \<Rightarrow> APPLE_AGX_MEMORY_OBJECT \<Rightarrow> 'e memory_env
   \<Rightarrow> APPLE_AGX_MEMORY_RESULT \<times> APPLE_AGX_MEMORY_OBJECT \<times> 'e memory_env" where
  "memory_release p object env =
     (case AppleAgxMemoryRelease (mp_Io p (me_World env)) object of
        (result, object', frees) \<Rightarrow>
          (result, object',
           memory_step p (if result = AppleAgxMemoryResultAllocationFailed
                          then [FreeRefused (mo_AllocationHandle object)] else map Freed frees) env))"

section \<open>State\<close>

datatype APPLE_AGX_UAT_MEMORY_RESULT =
  AppleAgxUatMemoryResultOk
| AppleAgxUatMemoryResultInvalidArgument
| AppleAgxUatMemoryResultCapacity
| AppleAgxUatMemoryResultAllocationFailed
| AppleAgxUatMemoryResultReleaseFailed
| AppleAgxUatMemoryResultNotOwned

record 'e APPLE_AGX_UAT_MEMORY_OWNER =
  uo_MemoryIo :: "'e memory_platform option"
  uo_Objects :: "APPLE_AGX_MEMORY_OBJECT list option"
  uo_ObjectCapacity :: u32
  uo_ObjectCount :: u32
  uo_LastResult :: APPLE_AGX_UAT_MEMORY_RESULT

abbreviation uo_platform :: "'e APPLE_AGX_UAT_MEMORY_OWNER \<Rightarrow> 'e memory_platform" where
  "uo_platform owner \<equiv> the (uo_MemoryIo owner)"

abbreviation uo_objects :: "'e APPLE_AGX_UAT_MEMORY_OWNER \<Rightarrow> APPLE_AGX_MEMORY_OBJECT list" where
  "uo_objects owner \<equiv> the (uo_Objects owner)"

section \<open>Operations\<close>

definition AppleAgxUatMemoryZeroObject :: "APPLE_AGX_MEMORY_OBJECT \<Rightarrow> APPLE_AGX_MEMORY_OBJECT" where
  "AppleAgxUatMemoryZeroObject object =
     object\<lparr> mo_AllocationCpuBase := 0, mo_CpuAddress := 0, mo_AllocationHandle := 0,
             mo_AllocationDeviceBase := 0, mo_DeviceAddress := 0, mo_AllocationLength := 0,
             mo_Length := 0, mo_GpuVirtualAddress := 0, mo_SubmittedFence := 0, mo_Context := 0,
             mo_State := AppleAgxMemoryEmpty \<rparr>"

definition AppleAgxUatMemoryOwnerValid :: "'e APPLE_AGX_UAT_MEMORY_OWNER \<Rightarrow> 'e memory_env \<Rightarrow> bool" where
  "AppleAgxUatMemoryOwnerValid owner env \<longleftrightarrow>
     uo_MemoryIo owner \<noteq> None \<and> uo_Objects owner \<noteq> None \<and> uo_ObjectCapacity owner \<noteq> 0 \<and>
     uo_ObjectCount owner \<le> uo_ObjectCapacity owner \<and>
     io_AllocateContiguous (mp_Io (uo_platform owner) (me_World env)) \<noteq> None \<and>
     io_FreeContiguous (mp_Io (uo_platform owner) (me_World env)) \<noteq> None"

definition AppleAgxUatMemoryResultFromAllocation :: "APPLE_AGX_MEMORY_RESULT \<Rightarrow> APPLE_AGX_UAT_MEMORY_RESULT" where
  "AppleAgxUatMemoryResultFromAllocation result =
     (if result = AppleAgxMemoryResultOk then AppleAgxUatMemoryResultOk
      else AppleAgxUatMemoryResultAllocationFailed)"

definition put_object ::
  "nat \<Rightarrow> APPLE_AGX_MEMORY_OBJECT \<Rightarrow> 'e APPLE_AGX_UAT_MEMORY_OWNER \<Rightarrow> 'e APPLE_AGX_UAT_MEMORY_OWNER" where
  "put_object i object owner = owner\<lparr> uo_Objects := Some ((uo_objects owner)[i := object]) \<rparr>"

definition AppleAgxUatMemoryAllocatePage ::
  "'e APPLE_AGX_UAT_MEMORY_OWNER \<times> 'e memory_env \<Rightarrow> APPLE_AGX_UAT_PAGE
   \<Rightarrow> bool \<times> APPLE_AGX_UAT_PAGE \<times> 'e APPLE_AGX_UAT_MEMORY_OWNER \<times> 'e memory_env" where
  "AppleAgxUatMemoryAllocatePage s page =
     (case s of (owner, env) \<Rightarrow>
        if \<not> AppleAgxUatMemoryOwnerValid owner env
        then (False, page, owner\<lparr> uo_LastResult := AppleAgxUatMemoryResultInvalidArgument \<rparr>, env)
        else if uo_ObjectCount owner \<ge> uo_ObjectCapacity owner
        then (False, page, owner\<lparr> uo_LastResult := AppleAgxUatMemoryResultCapacity \<rparr>, env)
        else
          let i = unat (uo_ObjectCount owner);
              object = AppleAgxUatMemoryZeroObject (uo_objects owner ! i)
          in case memory_allocate (uo_platform owner) MEMORY_PAGE_SIZE object env of
               (result, object, env) \<Rightarrow>
                 let owner = put_object i object owner
                 in if result \<noteq> AppleAgxMemoryResultOk
                    then (False, page,
                          owner\<lparr> uo_LastResult := AppleAgxUatMemoryResultFromAllocation result \<rparr>, env)
                    else if mo_CpuAddress object = 0 \<or> mo_DeviceAddress object = 0 \<or>
                            mo_CpuAddress object AND 7 \<noteq> 0 \<or>
                            mo_DeviceAddress object AND (MEMORY_PAGE_SIZE - 1) \<noteq> 0
                    then (case memory_release (uo_platform owner) object env of
                            (result, object, env) \<Rightarrow>
                              let owner = put_object i object owner
                              in if result \<noteq> AppleAgxMemoryResultOk
                                 then (False, page,
                                       owner\<lparr> uo_ObjectCount := uo_ObjectCount owner + 1,
                                              uo_LastResult := AppleAgxUatMemoryResultReleaseFailed \<rparr>, env)
                                 else (False, page,
                                       owner\<lparr> uo_LastResult := AppleAgxUatMemoryResultAllocationFailed \<rparr>, env))
                    else (True,
                          page\<lparr> pg_PhysicalAddress := mo_DeviceAddress object,
                                pg_EntriesAddress := mo_CpuAddress object,
                                pg_Entries := replicate 2048 0 \<rparr>,
                          owner\<lparr> uo_ObjectCount := uo_ObjectCount owner + 1,
                                 uo_LastResult := AppleAgxUatMemoryResultOk \<rparr>, env))"

text \<open>Closing the gap at \<open>i\<close>: the objects after it move down, and the freed last slot is cleared.\<close>

definition close_gap :: "nat \<Rightarrow> nat \<Rightarrow> APPLE_AGX_MEMORY_OBJECT list \<Rightarrow> APPLE_AGX_MEMORY_OBJECT list" where
  "close_gap i n objects =
     (let moved = take i objects @ take (n - 1 - i) (drop (i + 1) objects) @ drop (n - 1) objects
      in moved[n - 1 := AppleAgxUatMemoryZeroObject (moved ! (n - 1))])"

definition AppleAgxUatMemoryReleasePage ::
  "'e APPLE_AGX_UAT_MEMORY_OWNER \<times> 'e memory_env \<Rightarrow> APPLE_AGX_UAT_PAGE
   \<Rightarrow> 'e APPLE_AGX_UAT_MEMORY_OWNER \<times> 'e memory_env" where
  "AppleAgxUatMemoryReleasePage s page =
     (case s of (owner, env) \<Rightarrow>
        if \<not> AppleAgxUatMemoryOwnerValid owner env
        then (owner\<lparr> uo_LastResult := AppleAgxUatMemoryResultInvalidArgument \<rparr>, env)
        else
          case find (\<lambda>i. \<not> (mo_CpuAddress (uo_objects owner ! i) \<noteq> pg_EntriesAddress page \<or>
                            mo_DeviceAddress (uo_objects owner ! i) \<noteq> pg_PhysicalAddress page))
                 (rev [0..<unat (uo_ObjectCount owner)]) of
            None \<Rightarrow> (owner\<lparr> uo_LastResult := AppleAgxUatMemoryResultNotOwned \<rparr>, env)
          | Some i \<Rightarrow>
              (case memory_release (uo_platform owner) (uo_objects owner ! i) env of
                 (result, object, env) \<Rightarrow>
                   let owner = put_object i object owner
                   in if result \<noteq> AppleAgxMemoryResultOk
                      then (owner\<lparr> uo_LastResult := AppleAgxUatMemoryResultReleaseFailed \<rparr>, env)
                      else (owner\<lparr> uo_Objects := Some (close_gap i (unat (uo_ObjectCount owner)) (uo_objects owner)),
                                   uo_ObjectCount := uo_ObjectCount owner - 1 \<rparr>, env)))"

definition AppleAgxUatMemoryOwnerInitialize ::
  "'e memory_platform option \<Rightarrow> APPLE_AGX_MEMORY_OBJECT list option \<Rightarrow> u32 \<Rightarrow> 'e memory_env
   \<Rightarrow> 'e APPLE_AGX_UAT_MEMORY_OWNER \<Rightarrow> APPLE_AGX_UAT_MEMORY_RESULT \<times> 'e APPLE_AGX_UAT_MEMORY_OWNER" where
  "AppleAgxUatMemoryOwnerInitialize memoryIo objects objectCapacity env owner =
     (if memoryIo = None \<or> objects = None \<or> objectCapacity = 0 \<or>
         io_AllocateContiguous (mp_Io (the memoryIo) (me_World env)) = None \<or>
         io_FreeContiguous (mp_Io (the memoryIo) (me_World env)) = None \<or>
         list_ex (\<lambda>i. mo_State (the objects ! i) \<noteq> AppleAgxMemoryEmpty) [0..<unat objectCapacity]
      then (AppleAgxUatMemoryResultInvalidArgument, owner)
      else (AppleAgxUatMemoryResultOk,
            owner\<lparr> uo_MemoryIo := memoryIo, uo_Objects := objects, uo_ObjectCapacity := objectCapacity,
                   uo_ObjectCount := 0, uo_LastResult := AppleAgxUatMemoryResultOk \<rparr>))"

definition AppleAgxUatMemoryOwnerGetAllocator ::
  "'e APPLE_AGX_UAT_MEMORY_OWNER \<Rightarrow> 'e memory_env
   \<Rightarrow> APPLE_AGX_UAT_MEMORY_RESULT + ('e APPLE_AGX_UAT_MEMORY_OWNER \<times> 'e memory_env) APPLE_AGX_UAT_ALLOCATOR" where
  "AppleAgxUatMemoryOwnerGetAllocator owner env =
     (if \<not> AppleAgxUatMemoryOwnerValid owner env then Inl AppleAgxUatMemoryResultInvalidArgument
      else Inr \<lparr> al_AllocatePage = Some AppleAgxUatMemoryAllocatePage,
                 al_ReleasePage = Some AppleAgxUatMemoryReleasePage \<rparr>)"

function destroy_loop ::
  "'e APPLE_AGX_UAT_MEMORY_OWNER \<Rightarrow> 'e memory_env
   \<Rightarrow> APPLE_AGX_UAT_MEMORY_RESULT \<times> 'e APPLE_AGX_UAT_MEMORY_OWNER \<times> 'e memory_env" where
  "destroy_loop owner env =
     (if uo_ObjectCount owner > 0
      then let i = unat (uo_ObjectCount owner - 1)
           in case memory_release (uo_platform owner) (uo_objects owner ! i) env of
                (result, object, env) \<Rightarrow>
                  let owner = put_object i object owner
                  in if result \<noteq> AppleAgxMemoryResultOk
                     then (AppleAgxUatMemoryResultReleaseFailed,
                           owner\<lparr> uo_LastResult := AppleAgxUatMemoryResultReleaseFailed \<rparr>, env)
                     else destroy_loop (owner\<lparr> uo_ObjectCount := uo_ObjectCount owner - 1 \<rparr>) env
      else (AppleAgxUatMemoryResultOk, owner\<lparr> uo_LastResult := AppleAgxUatMemoryResultOk \<rparr>, env))"
  by pat_completeness auto
termination
  by (relation "measure (\<lambda>(owner, env). unat (uo_ObjectCount owner))")
    (auto simp: put_object_def word_gt_0 unat_minus_one unat_gt_0)

declare destroy_loop.simps [simp del]

definition AppleAgxUatMemoryOwnerDestroy ::
  "'e APPLE_AGX_UAT_MEMORY_OWNER \<Rightarrow> 'e memory_env
   \<Rightarrow> APPLE_AGX_UAT_MEMORY_RESULT \<times> 'e APPLE_AGX_UAT_MEMORY_OWNER \<times> 'e memory_env" where
  "AppleAgxUatMemoryOwnerDestroy owner env =
     (if \<not> AppleAgxUatMemoryOwnerValid owner env then (AppleAgxUatMemoryResultInvalidArgument, owner, env)
      else destroy_loop owner env)"

section \<open>The books of the platform\<close>

definition allocations :: "memory_call list \<Rightarrow> u64 multiset" where
  "allocations calls = mset (concat (map (\<lambda>c. case c of Allocated h \<Rightarrow> [h] | _ \<Rightarrow> []) calls))"

definition frees :: "memory_call list \<Rightarrow> u64 multiset" where
  "frees calls = mset (concat (map (\<lambda>c. case c of Freed h \<Rightarrow> [h] | _ \<Rightarrow> []) calls))"

lemma allocations_simps [simp]:
  "allocations [] = {#}" "allocations (xs @ ys) = allocations xs + allocations ys"
  "allocations (Allocated h # xs) = add_mset h (allocations xs)" "allocations (AllocateRefused # xs) = allocations xs"
  "allocations (Freed h # xs) = allocations xs" "allocations (FreeRefused h # xs) = allocations xs"
  by (simp_all add: allocations_def)

lemma frees_simps [simp]:
  "frees [] = {#}" "frees (xs @ ys) = frees xs + frees ys"
  "frees (Allocated h # xs) = frees xs" "frees (AllocateRefused # xs) = frees xs"
  "frees (Freed h # xs) = add_mset h (frees xs)" "frees (FreeRefused h # xs) = frees xs"
  by (simp_all add: frees_def)

lemma memory_step_calls [simp]: "me_Calls (memory_step p calls env) = me_Calls env @ calls"
  by (simp add: memory_step_def)

lemma allocate_Ok_state:
  "AppleAgxMemoryAllocate io len object = (AppleAgxMemoryResultOk, object', fs) \<Longrightarrow>
   mo_State object' = AppleAgxMemoryCpuOwned"
  unfolding AppleAgxMemoryAllocate_def AppleAgxMemoryAllocateAligned_def Let_def
  by (auto split: if_splits option.splits prod.splits)

lemma memory_allocate_books:
  assumes "memory_allocate p len object env = (r, object', env')"
  shows "r = AppleAgxMemoryResultOk \<Longrightarrow> mo_State object' = AppleAgxMemoryCpuOwned \<and>
      allocations (me_Calls env') = add_mset (mo_AllocationHandle object') (allocations (me_Calls env)) \<and>
      frees (me_Calls env') = frees (me_Calls env)"
    and "r \<noteq> AppleAgxMemoryResultOk \<Longrightarrow> \<exists>k. allocations (me_Calls env') = allocations (me_Calls env) + k \<and>
      frees (me_Calls env') = frees (me_Calls env) + k"
proof -
  obtain fs where a: "AppleAgxMemoryAllocate (mp_Io p (me_World env)) len object = (r, object', fs)"
    and env': "env' = memory_step p (allocate_calls r object' fs) env"
    using assms by (auto simp: memory_allocate_def split: prod.splits)
  show "mo_State object' = AppleAgxMemoryCpuOwned \<and>
      allocations (me_Calls env') = add_mset (mo_AllocationHandle object') (allocations (me_Calls env)) \<and>
      frees (me_Calls env') = frees (me_Calls env)" if "r = AppleAgxMemoryResultOk"
    using allocate_Ok_state a that by (auto simp: env' allocate_calls_def)
  show "\<exists>k. allocations (me_Calls env') = allocations (me_Calls env) + k \<and>
      frees (me_Calls env') = frees (me_Calls env) + k" if "r \<noteq> AppleAgxMemoryResultOk"
    using that by (cases fs) (auto simp: env' allocate_calls_def)
qed

lemma memory_release_books:
  assumes "memory_release p object env = (r, object', env')" and "mo_State object = AppleAgxMemoryCpuOwned"
  shows "allocations (me_Calls env') = allocations (me_Calls env)"
    and "r = AppleAgxMemoryResultOk \<Longrightarrow>
      frees (me_Calls env') = add_mset (mo_AllocationHandle object) (frees (me_Calls env))"
    and "r \<noteq> AppleAgxMemoryResultOk \<Longrightarrow> object' = object \<and> frees (me_Calls env') = frees (me_Calls env)"
  using assms by (auto simp: memory_release_def AppleAgxMemoryRelease_def split: if_splits prod.splits)

section \<open>What the owner holds\<close>

definition owned_objects :: "'e APPLE_AGX_UAT_MEMORY_OWNER \<Rightarrow> APPLE_AGX_MEMORY_OBJECT list" where
  "owned_objects owner = take (unat (uo_ObjectCount owner)) (uo_objects owner)"

definition owner_ok :: "'e APPLE_AGX_UAT_MEMORY_OWNER \<Rightarrow> bool" where
  "owner_ok owner \<longleftrightarrow>
     unat (uo_ObjectCapacity owner) \<le> length (uo_objects owner) \<and>
     uo_ObjectCount owner \<le> uo_ObjectCapacity owner \<and>
     (\<forall>object \<in> set (owned_objects owner). mo_State object = AppleAgxMemoryCpuOwned)"

text \<open>Everything that was allocated was freed or is held.\<close>

definition balanced :: "'e APPLE_AGX_UAT_MEMORY_OWNER \<times> 'e memory_env \<Rightarrow> bool" where
  "balanced s \<longleftrightarrow>
     owner_ok (fst s) \<and>
     allocations (me_Calls (snd s)) =
       frees (me_Calls (snd s)) + mset (map mo_AllocationHandle (owned_objects (fst s)))"

lemma owner_ok_length:
  "owner_ok owner \<Longrightarrow> unat (uo_ObjectCount owner) \<le> length (uo_objects owner)"
  by (auto simp: owner_ok_def word_le_nat_alt)

lemma owned_nth:
  "owner_ok owner \<Longrightarrow> i < unat (uo_ObjectCount owner) \<Longrightarrow> owned_objects owner ! i = uo_objects owner ! i"
  "owner_ok owner \<Longrightarrow> length (owned_objects owner) = unat (uo_ObjectCount owner)"
  by (simp_all add: owned_objects_def owner_ok_length)

lemma owned_state:
  "owner_ok owner \<Longrightarrow> i < unat (uo_ObjectCount owner) \<Longrightarrow> mo_State (uo_objects owner ! i) = AppleAgxMemoryCpuOwned"
  by (metis nth_mem owned_nth owner_ok_def)

lemma put_object_frame [simp]:
  "uo_ObjectCount (put_object i object owner) = uo_ObjectCount owner"
  "uo_ObjectCapacity (put_object i object owner) = uo_ObjectCapacity owner"
  "uo_MemoryIo (put_object i object owner) = uo_MemoryIo owner"
  "length (uo_objects (put_object i object owner)) = length (uo_objects owner)"
  "uo_LastResult (put_object i object owner) = uo_LastResult owner"
  by (simp_all add: put_object_def)

lemma put_object_beyond [simp]:
  "owned_objects (put_object (unat (uo_ObjectCount owner)) object owner) = owned_objects owner"
  by (simp add: owned_objects_def put_object_def)

lemma put_object_same: "i < length (uo_objects owner) \<Longrightarrow> uo_Objects owner \<noteq> None \<Longrightarrow>
    put_object i (uo_objects owner ! i) owner = owner"
  by (auto simp: put_object_def)

text \<open>Recording the object in the first free slot.\<close>

lemma owned_push:
  fixes r :: APPLE_AGX_UAT_MEMORY_RESULT
  assumes "owner_ok owner" and "\<not> uo_ObjectCount owner \<ge> uo_ObjectCapacity owner"
    and "mo_State object = AppleAgxMemoryCpuOwned"
  defines "owner' \<equiv> (put_object (unat (uo_ObjectCount owner)) object owner)\<lparr> uo_ObjectCount := uo_ObjectCount owner + 1,
    uo_LastResult := r \<rparr>"
  shows "owned_objects owner' = owned_objects owner @ [object]" and "owner_ok owner'"
proof -
  let ?n = "unat (uo_ObjectCount owner)"
  have lt: "?n < unat (uo_ObjectCapacity owner)" using assms(2) by (simp add: word_le_nat_alt)
  then have n: "unat (uo_ObjectCount owner + 1) = Suc ?n" by (rule unat_Suc_no_wrap)
  have "?n < length (uo_objects owner)" using lt assms(1) by (simp add: owner_ok_def)
  then show o: "owned_objects owner' = owned_objects owner @ [object]"
    by (simp add: owner'_def owned_objects_def n put_object_def take_Suc_conv_app_nth)
  show "owner_ok owner'"
    using assms(1,3) lt n unfolding owner_ok_def o by (auto simp: owner'_def word_le_nat_alt)
qed

lemma close_gap_take:
  assumes "i < n" and "n \<le> length xs"
  shows "take (n - 1) (close_gap i n xs) = take i xs @ drop (Suc i) (take n xs)"
    and "length (close_gap i n xs) = length xs"
proof -
  let ?p = "take i xs @ take (n - 1 - i) (drop (i + 1) xs)"
  have l: "length ?p = n - 1" using assms by simp
  have "take (n - 1) (close_gap i n xs) = ?p"
    unfolding close_gap_def Let_def append_assoc [symmetric] by (rule take_update_prefix [OF l])
  then show "take (n - 1) (close_gap i n xs) = take i xs @ drop (Suc i) (take n xs)" by (simp add: drop_take)
  show "length (close_gap i n xs) = length xs" using assms by (simp add: close_gap_def Let_def)
qed

section \<open>The operations keep the books\<close>

lemma owner_ok_frame:
  assumes "owner_ok owner" and "owned_objects owner' = owned_objects owner"
    and "uo_ObjectCount owner' = uo_ObjectCount owner" and "uo_ObjectCapacity owner' = uo_ObjectCapacity owner"
    and "length (uo_objects owner') = length (uo_objects owner)"
  shows "owner_ok owner'"
  using assms by (simp add: owner_ok_def)

lemma balanced_frame:
  assumes "balanced (owner, env)" and "owned_objects owner' = owned_objects owner"
    and "uo_ObjectCount owner' = uo_ObjectCount owner" and "uo_ObjectCapacity owner' = uo_ObjectCapacity owner"
    and "length (uo_objects owner') = length (uo_objects owner)"
    and "allocations (me_Calls env') = allocations (me_Calls env) + k" and "frees (me_Calls env') = frees (me_Calls env) + k"
  shows "balanced (owner', env')"
  using assms owner_ok_frame [of owner owner'] by (simp add: balanced_def)

lemma owned_objects_result [simp]:
  "owned_objects (owner\<lparr> uo_LastResult := r \<rparr>) = owned_objects owner"
  by (simp add: owned_objects_def)

lemma AllocatePage_balanced:
  assumes "AppleAgxUatMemoryAllocatePage (owner, env) page = (ok, page', owner', env')"
    and b: "balanced (owner, env)"
  shows "balanced (owner', env')"
proof (cases "\<not> AppleAgxUatMemoryOwnerValid owner env \<or> uo_ObjectCount owner \<ge> uo_ObjectCapacity owner")
  case True
  with assms show ?thesis
    by (auto simp: AppleAgxUatMemoryAllocatePage_def intro!: balanced_frame [OF b, where k = "{#}"] split: if_splits)
next
  case False
  let ?i = "unat (uo_ObjectCount owner)" and ?p = "uo_platform owner"
  have ok: "owner_ok owner" using b by (simp add: balanced_def)
  obtain r1 obj1 env1 where
    a: "memory_allocate ?p MEMORY_PAGE_SIZE (AppleAgxUatMemoryZeroObject (uo_objects owner ! ?i)) env = (r1, obj1, env1)"
    by (rule prod_cases3)
  note A = memory_allocate_books [OF a]
  show ?thesis
  proof (cases "r1 = AppleAgxMemoryResultOk")
    case r1: False
    with A(2) obtain k where k: "allocations (me_Calls env1) = allocations (me_Calls env) + k"
      "frees (me_Calls env1) = frees (me_Calls env) + k" by blast
    from assms(1) False a r1 have "owner' = (put_object ?i obj1 owner)\<lparr> uo_LastResult := AppleAgxUatMemoryResultFromAllocation r1 \<rparr>"
      "env' = env1" by (auto simp: AppleAgxUatMemoryAllocatePage_def Let_def)
    then show ?thesis by (intro balanced_frame [OF b _ _ _ _ k [folded \<open>env' = env1\<close>]]) simp_all
  next
    case r1: True
    let ?bad = "mo_CpuAddress obj1 = 0 \<or> mo_DeviceAddress obj1 = 0 \<or> mo_CpuAddress obj1 AND 7 \<noteq> 0 \<or>
      mo_DeviceAddress obj1 AND (MEMORY_PAGE_SIZE - 1) \<noteq> 0"
    have st: "mo_State obj1 = AppleAgxMemoryCpuOwned"
      and a1: "allocations (me_Calls env1) = add_mset (mo_AllocationHandle obj1) (allocations (me_Calls env))"
        "frees (me_Calls env1) = frees (me_Calls env)" using A(1) [OF r1] by blast+
    have nb: "\<not> uo_ObjectCount owner \<ge> uo_ObjectCapacity owner" using False by blast
    note push = owned_push [OF ok nb st]
    obtain r2 obj2 env2 where rel: "memory_release ?p obj1 env1 = (r2, obj2, env2)" by (rule prod_cases3)
    note R = memory_release_books [OF rel st]
    consider (good) "\<not> ?bad" | (kept) "?bad" "r2 \<noteq> AppleAgxMemoryResultOk" | (freed) "?bad" "r2 = AppleAgxMemoryResultOk"
      by blast
    then show ?thesis
    proof cases
      case good
      with assms(1) False a r1 have "owner' = (put_object ?i obj1 owner)\<lparr> uo_ObjectCount := uo_ObjectCount owner + 1,
          uo_LastResult := AppleAgxUatMemoryResultOk \<rparr>" "env' = env1"
        by (auto simp: AppleAgxUatMemoryAllocatePage_def Let_def split: if_splits)
      with push a1 b show ?thesis by (simp add: balanced_def)
    next
      case kept
      have "put_object ?i obj2 (put_object ?i obj1 owner) = put_object ?i obj1 owner"
        using R(3) [OF kept(2)] by (simp add: put_object_def)
      with assms(1) False a r1 kept rel have "owner' = (put_object ?i obj1 owner)\<lparr> uo_ObjectCount := uo_ObjectCount owner + 1,
          uo_LastResult := AppleAgxUatMemoryResultReleaseFailed \<rparr>" "env' = env2"
        by (auto simp: AppleAgxUatMemoryAllocatePage_def Let_def split: if_splits)
      with push a1 b R(1) R(3) [OF kept(2)] show ?thesis by (simp add: balanced_def)
    next
      case freed
      have "owner' = (put_object ?i obj2 (put_object ?i obj1 owner))\<lparr> uo_LastResult := AppleAgxUatMemoryResultAllocationFailed \<rparr>"
          "env' = env2"
        using assms(1) False a r1 freed rel
        by (auto simp: AppleAgxUatMemoryAllocatePage_def Let_def split: if_splits)
      moreover have "owned_objects (put_object ?i obj2 (put_object ?i obj1 owner)) = owned_objects owner"
        by (simp add: put_object_def owned_objects_def)
      ultimately show ?thesis
        using a1 R(1) R(2) [OF freed(2)]
        by (intro balanced_frame [OF b, where k = "{#mo_AllocationHandle obj1#}"]) simp_all
    qed
  qed
qed

lemma find_rev_upt: "find P (rev [0..<n]) = Some i \<Longrightarrow> i < n \<and> P i"
  using find_mem [of P "rev [0..<n]" i] by auto

lemma mset_remove_nth: "i < length xs \<Longrightarrow> mset xs = add_mset (xs ! i) (mset (take i xs @ drop (Suc i) xs))"
  by (metis id_take_nth_drop mset.simps(2) mset_append union_mset_add_mset_right)

text \<open>Releasing the object in slot \<open>i\<close>: refused, nothing changed but the calls; freed, it is no longer held.\<close>

lemma released_slot:
  assumes b: "balanced (owner, env)" and i: "i < unat (uo_ObjectCount owner)" and s: "uo_Objects owner \<noteq> None"
    and rel: "memory_release p (uo_objects owner ! i) env = (r, obj, env')"
  shows "r \<noteq> AppleAgxMemoryResultOk \<Longrightarrow> put_object i obj owner = owner \<and> balanced (owner, env')"
    and "r = AppleAgxMemoryResultOk \<Longrightarrow> length (uo_objects owner') = length (uo_objects owner) \<Longrightarrow>
      uo_ObjectCapacity owner' = uo_ObjectCapacity owner \<Longrightarrow> uo_ObjectCount owner' = uo_ObjectCount owner - 1 \<Longrightarrow>
      owned_objects owner' = take i (owned_objects owner) @ drop (Suc i) (owned_objects owner) \<Longrightarrow> balanced (owner', env')"
proof -
  have ok: "owner_ok owner" using b by (simp add: balanced_def)
  note R = memory_release_books [OF rel owned_state [OF ok i]]
  have len: "i < length (uo_objects owner)" using i owner_ok_length [OF ok] by simp
  show "put_object i obj owner = owner \<and> balanced (owner, env')" if "r \<noteq> AppleAgxMemoryResultOk"
    using R(1) R(3) [OF that] b put_object_same [OF len s] by (simp add: balanced_def)
  show "balanced (owner', env')" if r: "r = AppleAgxMemoryResultOk"
    and o: "length (uo_objects owner') = length (uo_objects owner)" "uo_ObjectCapacity owner' = uo_ObjectCapacity owner"
      "uo_ObjectCount owner' = uo_ObjectCount owner - 1"
      "owned_objects owner' = take i (owned_objects owner) @ drop (Suc i) (owned_objects owner)"
  proof -
    have n: "unat (uo_ObjectCount owner - 1) = unat (uo_ObjectCount owner) - 1" using i by (intro unat_pred) auto
    have "set (owned_objects owner') \<subseteq> set (owned_objects owner)"
      unfolding o(4) using set_take_subset set_drop_subset by fastforce
    then have "owner_ok owner'" using ok o(1-3) n unfolding owner_ok_def by (auto simp: word_le_nat_alt)
    moreover have "mset (map mo_AllocationHandle (owned_objects owner)) =
        add_mset (mo_AllocationHandle (uo_objects owner ! i)) (mset (map mo_AllocationHandle (owned_objects owner')))"
      using mset_remove_nth [of i "map mo_AllocationHandle (owned_objects owner)"] i owned_nth [OF ok]
      unfolding o(4) by (simp add: take_map drop_map)
    ultimately show ?thesis using b R(1) R(2) [OF r] by (simp add: balanced_def)
  qed
qed

lemma ReleasePage_balanced:
  assumes "AppleAgxUatMemoryReleasePage (owner, env) page = (owner', env')" and b: "balanced (owner, env)"
  shows "balanced (owner', env')"
proof (cases "find (\<lambda>i. \<not> (mo_CpuAddress (uo_objects owner ! i) \<noteq> pg_EntriesAddress page \<or>
      mo_DeviceAddress (uo_objects owner ! i) \<noteq> pg_PhysicalAddress page)) (rev [0..<unat (uo_ObjectCount owner)])")
  case None
  with assms show ?thesis
    by (auto simp: AppleAgxUatMemoryReleasePage_def intro!: balanced_frame [OF b, where k = "{#}"] split: if_splits)
next
  case (Some i)
  show ?thesis
  proof (cases "AppleAgxUatMemoryOwnerValid owner env")
    case False
    with assms show ?thesis
      by (auto simp: AppleAgxUatMemoryReleasePage_def intro!: balanced_frame [OF b, where k = "{#}"])
  next
    case valid: True
    then have s: "uo_Objects owner \<noteq> None" by (simp add: AppleAgxUatMemoryOwnerValid_def)
    have i: "i < unat (uo_ObjectCount owner)" using find_rev_upt [OF Some] by blast
    have ok: "owner_ok owner" using b by (simp add: balanced_def)
    obtain r obj env1 where rel: "memory_release (uo_platform owner) (uo_objects owner ! i) env = (r, obj, env1)"
      by (rule prod_cases3)
    note S = released_slot [OF b i s rel]
    show ?thesis
    proof (cases "r = AppleAgxMemoryResultOk")
      case False
      with assms(1) valid Some rel S(1) [OF False] have "owner' = owner\<lparr> uo_LastResult := AppleAgxUatMemoryResultReleaseFailed \<rparr>"
        "env' = env1" by (auto simp: AppleAgxUatMemoryReleasePage_def Let_def)
      with S(1) [OF False] show ?thesis by (auto intro: balanced_frame [where k = "{#}" and owner = owner and env = env1])
    next
      case True
      let ?n = "unat (uo_ObjectCount owner)" and ?xs = "(uo_objects owner)[i := obj]"
      from assms(1) valid Some rel True have o': "owner' = (put_object i obj owner)\<lparr> uo_Objects := Some (close_gap i ?n ?xs),
          uo_ObjectCount := uo_ObjectCount owner - 1 \<rparr>" "env' = env1"
        by (auto simp: AppleAgxUatMemoryReleasePage_def Let_def put_object_def)
      have n: "unat (uo_ObjectCount owner - 1) = ?n - 1" using i by (intro unat_pred) auto
      have len: "?n \<le> length ?xs" using owner_ok_length [OF ok] by simp
      note C = close_gap_take [OF i len]
      have "owned_objects owner' = take i (owned_objects owner) @ drop (Suc i) (owned_objects owner)"
        using C(1) i by (simp add: o' owned_objects_def n drop_take drop_update_cancel min_def)
      then show ?thesis unfolding o'(2) using C(2) by (intro S(2) [OF True]) (simp_all add: o')
    qed
  qed
qed

lemma destroy_loop_balanced:
  assumes "destroy_loop owner env = (r, owner', env')" and "balanced (owner, env)" and "uo_Objects owner \<noteq> None"
  shows "balanced (owner', env') \<and> (r = AppleAgxUatMemoryResultOk \<longrightarrow> uo_ObjectCount owner' = 0)"
  using assms
proof (induction owner env rule: destroy_loop.induct)
  case (1 owner env)
  show ?case
  proof (cases "uo_ObjectCount owner > 0")
    case False
    with "1.prems" have "owner' = owner\<lparr> uo_LastResult := AppleAgxUatMemoryResultOk \<rparr>" "env' = env"
      by (auto simp: destroy_loop.simps)
    with "1.prems"(2) False show ?thesis
      by (auto simp: word_gt_0 intro: balanced_frame [where k = "{#}" and owner = owner and env = env])
  next
    case True
    define i where "i = unat (uo_ObjectCount owner - 1)"
    have n: "i = unat (uo_ObjectCount owner) - 1" using True by (simp add: i_def word_gt_0 unat_minus_one)
    have "0 < unat (uo_ObjectCount owner)" using True by (simp add: word_less_nat_alt)
    then have i: "i < unat (uo_ObjectCount owner)" "Suc i = unat (uo_ObjectCount owner)" using n by simp_all
    obtain r1 obj env1 where rel: "memory_release (uo_platform owner) (uo_objects owner ! i) env = (r1, obj, env1)"
      by (rule prod_cases3)
    note S = released_slot [OF "1.prems"(2) i(1) "1.prems"(3) rel]
    show ?thesis
    proof (cases "r1 = AppleAgxMemoryResultOk")
      case False
      with "1.prems"(1) True rel S(1) [OF False] have "owner' = owner\<lparr> uo_LastResult := AppleAgxUatMemoryResultReleaseFailed \<rparr>"
        "env' = env1" "r = AppleAgxUatMemoryResultReleaseFailed"
        by (auto simp: destroy_loop.simps [of owner env] Let_def i_def [symmetric])
      with S(1) [OF False] show ?thesis by (auto intro: balanced_frame [where k = "{#}" and owner = owner and env = env1])
    next
      case ok: True
      let ?o = "(put_object i obj owner)\<lparr> uo_ObjectCount := uo_ObjectCount owner - 1 \<rparr>"
      have rest: "destroy_loop ?o env1 = (r, owner', env')"
        using "1.prems"(1) True rel ok by (simp add: destroy_loop.simps [of owner env] Let_def i_def [symmetric])
      have oo: "owner_ok owner" using "1.prems"(2) by (simp add: balanced_def)
      have "owned_objects ?o = take i (owned_objects owner) @ drop (Suc i) (owned_objects owner)"
        using i owned_nth(2) [OF oo] by (simp add: owned_objects_def put_object_def i_def [symmetric] min_def)
      then have "balanced (?o, env1)" by (intro S(2) [OF ok]) (simp_all add: put_object_def)
      moreover have "uo_Objects ?o \<noteq> None" by (simp add: put_object_def)
      ultimately show ?thesis
        using "1.IH" [OF True refl, folded i_def, OF rel [symmetric] refl refl] rest ok by simp
    qed
  qed
qed

section \<open>The page tables as a client of an allocator\<close>

text \<open>Whatever an allocator keeps true of its own state stays true when the page tables use it, since they reach
  it through its two functions only.\<close>

locale page_client =
  fixes alc :: "'al APPLE_AGX_UAT_ALLOCATOR" and keeps :: "'al \<Rightarrow> bool"
  assumes allocate_keeps: "keeps al \<Longrightarrow> the (al_AllocatePage alc) al page = (b, page', al1) \<Longrightarrow> keeps al1"
    and release_keeps: "keeps al \<Longrightarrow> keeps (uat_release alc al page)"
begin

lemma recorded_keeps:
  assumes "AppleAgxUatAllocateRecordedPage level alc iv al = (r, iv1, al1)" and "keeps al"
  shows "keeps al1"
proof -
  obtain b page' al2 where a: "the (al_AllocatePage alc) al \<lparr> pg_PhysicalAddress = 0, pg_EntriesAddress = 0,
      pg_Entries = [], pg_Level = level \<rparr> = (b, page', al2)" by (rule prod_cases3)
  have "al1 = al \<or> al1 = al2 \<or> al1 = uat_release alc al2 page'"
    using assms(1) a by (auto simp: AppleAgxUatAllocateRecordedPage_def Let_def split: if_splits)
  with allocate_keeps [OF assms(2) a] assms(2) release_keeps show ?thesis by blast
qed

lemma release_from_keeps:
  assumes "AppleAgxUatReleaseFrom first alc iv al = (iv1, al1)" and "keeps al"
  shows "keeps al1"
proof -
  have one: "keeps (snd s) \<Longrightarrow> keeps (snd (release_last alc s))" for s
    by (cases s) (simp add: release_last_def Let_def release_keeps)
  have "keeps (snd ((release_last alc ^^ n) (iv, al)))" for n
    by (induction n) (use assms(2) one in simp_all)
  with assms(1) show ?thesis by (metis AppleAgxUatReleaseFrom_def snd_conv)
qed

lemma rollback_keeps:
  "AppleAgxUatRollbackMap root va n first alc iv al = (iv1, al1) \<Longrightarrow> keeps al \<Longrightarrow> keeps al1"
  by (auto simp: AppleAgxUatRollbackMap_def Let_def dest: release_from_keeps)

lemma child_keeps:
  assumes "AppleAgxUatGetChild parent e level alc iv al = (r, iv1, al1)" and "keeps al"
  shows "keeps al1"
proof -
  obtain r0 iv2 al2 where a: "AppleAgxUatAllocateRecordedPage level alc iv al = (r0, iv2, al2)" by (rule prod_cases3)
  have "al1 = al \<or> al1 = al2"
    using assms(1) a by (auto simp: AppleAgxUatGetChild_def Let_def split: if_splits option.splits sum.splits)
  with recorded_keeps [OF a assms(2)] assms(2) show ?thesis by blast
qed

lemma leaf_keeps:
  assumes "AppleAgxUatFindLeaf root va alc iv al = (r, iv1, al1)" and "keeps al"
  shows "keeps al1"
proof -
  obtain r0 iv2 al2 where a: "AppleAgxUatGetChild root (level0_index va) 1 alc iv al = (r0, iv2, al2)" by (rule prod_cases3)
  note k = child_keeps [OF a assms(2)]
  show ?thesis
  proof (cases r0)
    case (Inl x)
    with assms(1) a k show ?thesis by (simp add: AppleAgxUatFindLeaf_def)
  next
    case (Inr l1)
    obtain r3 iv3 al3 where c: "AppleAgxUatGetChild l1 (level1_index va) 2 alc iv2 al2 = (r3, iv3, al3)" by (rule prod_cases3)
    with assms(1) a Inr have "al1 = al3" by (auto simp: AppleAgxUatFindLeaf_def split: sum.splits)
    with child_keeps [OF c k] show ?thesis by simp
  qed
qed

lemma map_leaves_keeps:
  "map_leaves c root va prot first alc backing m iv al = (r, iv1, al1) \<Longrightarrow> keeps al \<Longrightarrow> keeps al1"
proof (induction backing arbitrary: m iv al)
  case (Cons b backing)
  obtain ofs pa where b: "b = (ofs, pa)" by (cases b)
  obtain r2 iv2 al2 where f: "AppleAgxUatFindLeaf root (va + ofs) alc iv al = (r2, iv2, al2)" by (rule prod_cases3)
  note k = leaf_keeps [OF f Cons.prems(2)]
  have undone: "keeps al1" if "(iv1, al1) = AppleAgxUatRollbackMap root va m first alc iv2 al2"
    using rollback_keeps [OF that [symmetric] k] .
  show ?case
    using Cons.prems(1) Cons.IH [OF _ k] undone by (auto simp: b f split: sum.splits if_splits)
qed simp

lemma map_keeps:
  "AppleAgxUatMap c roots va pa len p alc iv al = (r, iv1, al1) \<Longrightarrow> keeps al \<Longrightarrow> keeps al1"
  by (auto simp: AppleAgxUatMap_def Let_def dest: map_leaves_keeps split: if_splits sum.splits option.splits prod.splits)

lemma map_page_list_keeps:
  "AppleAgxUatMapPageList c roots va pages n p alc iv al = (r, iv1, al1) \<Longrightarrow> keeps al \<Longrightarrow> keeps al1"
  by (auto simp: AppleAgxUatMapPageList_def Let_def dest: map_leaves_keeps
      split: if_splits sum.splits option.splits prod.splits)

lemma prune_keeps_for:
  "prune_level level alc' iv al = (iv1, al1) \<Longrightarrow> alc' = alc \<Longrightarrow> keeps al \<Longrightarrow> keeps al1"
proof (induction level alc' iv al rule: prune_level.induct)
  case (1 level alc' iv al)
  show ?case
  proof (cases "find_empty level iv")
    case None
    with "1.prems" show ?thesis by (simp add: prune_level.simps)
  next
    case (Some k)
    obtain iv2 al2 where rel: "AppleAgxUatReleaseInventoryPage k alc'
        (AppleAgxUatClearParentReference level (page_pa iv k) iv) al = (iv2, al2)" by (rule prod.exhaust)
    then have "keeps al2" using release_keeps [OF "1.prems"(3)] "1.prems"(2)
      by (auto simp: AppleAgxUatReleaseInventoryPage_def Let_def)
    moreover have "prune_level level alc' iv2 al2 = (iv1, al1)"
      using "1.prems"(1) Some rel by (simp add: prune_level.simps [of level alc' iv])
    ultimately show ?thesis using "1.IH" [OF Some rel [symmetric]] "1.prems"(2) by blast
  qed
qed

lemmas prune_keeps = prune_keeps_for [OF _ refl]

lemma unmap_keeps:
  "AppleAgxUatUnmap c roots va len alc iv al = (r, iv1, al1) \<Longrightarrow> keeps al \<Longrightarrow> keeps al1"
  by (auto simp: AppleAgxUatUnmap_def Let_def AppleAgxUatPruneEmptyTables_def dest!: prune_keeps
      split: if_splits sum.splits option.splits prod.splits)

lemma create_keeps:
  assumes "AppleAgxUatCreateAddressSpace c alc iv al = (r, roots, iv1, al1)" and "keeps al"
  shows "keeps al1"
  using assms recorded_keeps release_from_keeps
  by (auto simp: AppleAgxUatCreateAddressSpace_def Let_def split: if_splits sum.splits prod.splits)

lemma tables_destroy_keeps: "AppleAgxUatDestroy alc iv al = (iv1, al1) \<Longrightarrow> keeps al \<Longrightarrow> keeps al1"
  by (auto simp: AppleAgxUatDestroy_def dest: release_from_keeps split: if_splits prod.splits)

end

definition uat_memory_allocator :: "('e APPLE_AGX_UAT_MEMORY_OWNER \<times> 'e memory_env) APPLE_AGX_UAT_ALLOCATOR" where
  "uat_memory_allocator =
     \<lparr> al_AllocatePage = Some AppleAgxUatMemoryAllocatePage, al_ReleasePage = Some AppleAgxUatMemoryReleasePage \<rparr>"

interpretation table_pages: page_client uat_memory_allocator balanced
proof
  fix al page b page' al1
  assume "balanced al" "the (al_AllocatePage uat_memory_allocator) al page = (b, page', al1)"
  then show "balanced al1"
    by (cases al; cases al1) (auto simp: uat_memory_allocator_def dest: AllocatePage_balanced)
next
  fix al page assume "balanced al"
  then show "balanced (uat_release uat_memory_allocator al page)"
    by (cases al; cases "AppleAgxUatMemoryReleasePage al page")
      (auto simp: uat_memory_allocator_def uat_release_def dest: ReleasePage_balanced)
qed

section \<open>Runs of an owner\<close>

definition owner_start :: "'e APPLE_AGX_UAT_MEMORY_OWNER \<times> 'e memory_env \<Rightarrow> bool" where
  "owner_start s \<longleftrightarrow>
     me_Calls (snd s) = [] \<and>
     (\<exists>memoryIo objects capacity owner.
        unat capacity \<le> length (the objects) \<and>
        AppleAgxUatMemoryOwnerInitialize memoryIo objects capacity (snd s) owner =
          (AppleAgxUatMemoryResultOk, fst s))"

inductive owner_step ::
  "'e APPLE_AGX_UAT_MEMORY_OWNER \<times> 'e memory_env \<Rightarrow> 'e APPLE_AGX_UAT_MEMORY_OWNER \<times> 'e memory_env \<Rightarrow> bool" where
  take_page: "AppleAgxUatMemoryAllocatePage s page = (ok, page', t) \<Longrightarrow> owner_step s t"
| give_page: "AppleAgxUatMemoryReleasePage s page = t \<Longrightarrow> owner_step s t"
| give_all: "AppleAgxUatMemoryOwnerDestroy owner env = (r, t) \<Longrightarrow> owner_step (owner, env) t"

lemma destroy_balanced:
  assumes "AppleAgxUatMemoryOwnerDestroy owner env = (r, owner', env')" and "balanced (owner, env)"
  shows "balanced (owner', env') \<and> (r = AppleAgxUatMemoryResultOk \<longrightarrow> uo_ObjectCount owner' = 0)"
  using assms destroy_loop_balanced [of owner env r owner' env']
  by (auto simp: AppleAgxUatMemoryOwnerDestroy_def AppleAgxUatMemoryOwnerValid_def split: if_splits)

interpretation owner_runs: guarded_system owner_start owner_step balanced
proof
  fix s :: "'e APPLE_AGX_UAT_MEMORY_OWNER \<times> 'e memory_env"
  assume "owner_start s"
  then show "balanced s"
    by (cases s) (auto simp: owner_start_def balanced_def AppleAgxUatMemoryOwnerInitialize_def owned_objects_def owner_ok_def
        split: if_splits)
next
  fix s t :: "'e APPLE_AGX_UAT_MEMORY_OWNER \<times> 'e memory_env"
  assume b: "balanced s" and st: "owner_step s t"
  from st b show "balanced t"
  proof cases
    case (take_page page ok page')
    with b show ?thesis by (cases s; cases t) (auto dest: AllocatePage_balanced)
  next
    case (give_page page)
    with b show ?thesis by (cases s; cases t) (auto dest: ReleasePage_balanced)
  next
    case (give_all owner env r)
    with b show ?thesis by (cases t) (auto dest: destroy_balanced)
  qed
qed

section \<open>Properties\<close>

definition demo_platform :: "unit memory_platform" where
  "demo_platform =
     \<lparr> mp_Io = (\<lambda>_. \<lparr> io_AllocateContiguous = Some (\<lambda>len. (True, 0x200000, 0x10000, 0x77)),
                       io_FreeContiguous = Some (\<lambda>handle. True),
                       io_AllocatePageList = None, io_FreePageList = None \<rparr>),
       mp_Step = (\<lambda>call world. world) \<rparr>"

definition demo_object :: APPLE_AGX_MEMORY_OBJECT where
  "demo_object =
     \<lparr> mo_AllocationCpuBase = 0, mo_CpuAddress = 0, mo_AllocationHandle = 0, mo_AllocationDeviceBase = 0,
       mo_DeviceAddress = 0, mo_AllocationLength = 0, mo_Length = 0, mo_DevicePages = None, mo_DevicePageCount = 0,
       mo_GpuVirtualAddress = 0, mo_SubmittedFence = 0, mo_Context = 0, mo_State = AppleAgxMemoryEmpty \<rparr>"

definition demo_owner :: "unit APPLE_AGX_UAT_MEMORY_OWNER" where
  "demo_owner =
     \<lparr> uo_MemoryIo = Some demo_platform, uo_Objects = Some [demo_object], uo_ObjectCapacity = 1, uo_ObjectCount = 0,
       uo_LastResult = AppleAgxUatMemoryResultOk \<rparr>"

definition demo_env :: "unit memory_env" where
  "demo_env = \<lparr> me_World = (), me_Calls = [] \<rparr>"

lemma demo_owner_start: "owner_start (demo_owner, demo_env)"
  unfolding owner_start_def
  by (intro conjI exI [of _ "Some demo_platform"] exI [of _ "Some [demo_object]"] exI [of _ 1] exI [of _ demo_owner])
    (simp_all add: AppleAgxUatMemoryOwnerInitialize_def demo_env_def demo_owner_def demo_platform_def demo_object_def)



end
