(* ===== verification/Residency.thy ===== *)
theory Residency
  imports UatMemory
begin

unbundle bit_operations_syntax

text \<open>
  Residency, \<^verbatim>\<open>drivers/apple-agx/shared/src/apple_agx_residency.c\<close>: a device memory object and its mapping in an
  address space, kept together, and the life of an address space that owns its table pages.  It is a composition: the
  objects are those of \<open>DeviceMemory\<close>, the page tables those of \<open>UatTable\<close>, and a context's table pages come from the
  owner of \<open>UatMemory\<close>.  \<open>Status\<close> is always given, so it is a result.
\<close>

section \<open>State\<close>

datatype APPLE_AGX_RESIDENCY_CONTEXT_RESULT =
  AppleAgxResidencyContextResultOk
| AppleAgxResidencyContextResultInvalidArgument
| AppleAgxResidencyContextResultBusy
| AppleAgxResidencyContextResultMemoryOwner
| AppleAgxResidencyContextResultUat

record 'e APPLE_AGX_RESIDENCY_CONTEXT =
  rc_Context :: u32
  rc_Initialized :: bool
  rc_MemoryOwner :: "'e APPLE_AGX_UAT_MEMORY_OWNER"
  rc_Allocator :: "('e APPLE_AGX_UAT_MEMORY_OWNER \<times> 'e memory_env) APPLE_AGX_UAT_ALLOCATOR"
  rc_Inventory :: APPLE_AGX_UAT_INVENTORY
  rc_Roots :: APPLE_AGX_UAT_ROOTS

record APPLE_AGX_RESIDENCY_STATUS =
  rs_MemoryResult :: APPLE_AGX_MEMORY_RESULT
  rs_UatResult :: APPLE_AGX_UAT_RESULT
  rs_UatMemoryResult :: APPLE_AGX_UAT_MEMORY_RESULT
  rs_ContextResult :: APPLE_AGX_RESIDENCY_CONTEXT_RESULT

section \<open>Operations\<close>

definition AppleAgxResidencySetStatus ::
  "APPLE_AGX_MEMORY_RESULT \<Rightarrow> APPLE_AGX_UAT_RESULT \<Rightarrow> APPLE_AGX_RESIDENCY_STATUS" where
  "AppleAgxResidencySetStatus memoryResult uatResult =
     \<lparr> rs_MemoryResult = memoryResult, rs_UatResult = uatResult, rs_UatMemoryResult = AppleAgxUatMemoryResultOk,
       rs_ContextResult = AppleAgxResidencyContextResultOk \<rparr>"

definition AppleAgxResidencySetContextStatus ::
  "APPLE_AGX_RESIDENCY_CONTEXT_RESULT \<Rightarrow> APPLE_AGX_UAT_MEMORY_RESULT \<Rightarrow> APPLE_AGX_UAT_RESULT
   \<Rightarrow> APPLE_AGX_RESIDENCY_STATUS" where
  "AppleAgxResidencySetContextStatus contextResult uatMemoryResult uatResult =
     \<lparr> rs_MemoryResult = AppleAgxMemoryResultOk, rs_UatResult = uatResult, rs_UatMemoryResult = uatMemoryResult,
       rs_ContextResult = contextResult \<rparr>"

definition AppleAgxResidencyAligned64K :: "u64 \<Rightarrow> bool" where
  "AppleAgxResidencyAligned64K v \<longleftrightarrow> v \<noteq> 0 \<and> v AND (0x10000 - 1) = 0"

definition AppleAgxResidencyContextCreate ::
  "'e APPLE_AGX_RESIDENCY_CONTEXT \<Rightarrow> u32 \<Rightarrow> 'e memory_platform option \<Rightarrow> APPLE_AGX_MEMORY_OBJECT list option \<Rightarrow> u32
   \<Rightarrow> APPLE_AGX_UAT_PAGE list option \<Rightarrow> u32 \<Rightarrow> APPLE_AGX_UAT_MAPPING list option \<Rightarrow> u32 \<Rightarrow> 'e memory_env
   \<Rightarrow> bool \<times> APPLE_AGX_RESIDENCY_STATUS \<times> 'e APPLE_AGX_RESIDENCY_CONTEXT \<times> 'e memory_env" where
  "AppleAgxResidencyContextCreate rc context' memoryIo pageObjects pageObjectCapacity pages pageCapacity mappings
     mappingCapacity env =
     (if memoryIo = None \<or> pageObjects = None \<or> pages = None \<or> mappings = None \<or> context' = 0 \<or>
         rc_Initialized rc \<or> pageObjectCapacity = 0 \<or> pageCapacity = 0 \<or> mappingCapacity = 0 \<or>
         pageObjectCapacity < pageCapacity
      then (False, AppleAgxResidencySetContextStatus AppleAgxResidencyContextResultInvalidArgument
                     AppleAgxUatMemoryResultInvalidArgument AppleAgxUatResultInvalidArgument, rc, env)
      else
        case AppleAgxUatMemoryOwnerInitialize memoryIo pageObjects pageObjectCapacity env (rc_MemoryOwner rc) of
          (memory_result, owner) \<Rightarrow>
            if memory_result \<noteq> AppleAgxUatMemoryResultOk
            then (False, AppleAgxResidencySetContextStatus AppleAgxResidencyContextResultMemoryOwner memory_result
                           AppleAgxUatResultOk, rc\<lparr> rc_MemoryOwner := owner \<rparr>, env)
            else
              let rc = rc\<lparr> rc_MemoryOwner := owner, rc_Initialized := True, rc_Context := context' \<rparr>
              in case AppleAgxUatMemoryOwnerGetAllocator owner env of
                   Inl memory_result \<Rightarrow>
                     (False, AppleAgxResidencySetContextStatus AppleAgxResidencyContextResultMemoryOwner memory_result
                               AppleAgxUatResultOk, rc, env)
                 | Inr allocator \<Rightarrow>
                     (case AppleAgxUatCreateAddressSpace context' allocator
                             \<lparr> inv_Pages = pages, inv_PageCapacity = pageCapacity, inv_PageCount = 0,
                               inv_Mappings = mappings, inv_MappingCapacity = mappingCapacity,
                               inv_MappingCount = 0 \<rparr> (owner, env) of
                        (uat_result, roots, iv, owner, env) \<Rightarrow>
                          let rc = rc\<lparr> rc_Allocator := allocator, rc_Inventory := iv, rc_Roots := roots,
                                       rc_MemoryOwner := owner \<rparr>
                          in if uat_result \<noteq> AppleAgxUatResultOk
                             then (case AppleAgxUatMemoryOwnerDestroy owner env of
                                     (memory_result, owner, env) \<Rightarrow>
                                       let rc = rc\<lparr> rc_MemoryOwner := owner \<rparr>;
                                           rc = (if memory_result = AppleAgxUatMemoryResultOk
                                                 then rc\<lparr> rc_Initialized := False, rc_Context := 0 \<rparr> else rc)
                                       in (False, AppleAgxResidencySetContextStatus AppleAgxResidencyContextResultUat
                                                    memory_result uat_result, rc, env))
                             else (True, AppleAgxResidencySetContextStatus AppleAgxResidencyContextResultOk
                                           AppleAgxUatMemoryResultOk AppleAgxUatResultOk, rc, env)))"

definition AppleAgxResidencyContextDestroy ::
  "'e APPLE_AGX_RESIDENCY_CONTEXT \<Rightarrow> 'e memory_env
   \<Rightarrow> bool \<times> APPLE_AGX_RESIDENCY_STATUS \<times> 'e APPLE_AGX_RESIDENCY_CONTEXT \<times> 'e memory_env" where
  "AppleAgxResidencyContextDestroy rc env =
     (if \<not> rc_Initialized rc
      then (False, AppleAgxResidencySetContextStatus AppleAgxResidencyContextResultInvalidArgument
                     AppleAgxUatMemoryResultInvalidArgument AppleAgxUatResultInvalidArgument, rc, env)
      else if inv_MappingCount (rc_Inventory rc) \<noteq> 0
      then (False, AppleAgxResidencySetContextStatus AppleAgxResidencyContextResultBusy
                     AppleAgxUatMemoryResultOk AppleAgxUatResultAlreadyMapped, rc, env)
      else
        case AppleAgxUatDestroy (rc_Allocator rc) (rc_Inventory rc) (rc_MemoryOwner rc, env) of
          (iv, owner, env) \<Rightarrow>
            (case AppleAgxUatMemoryOwnerDestroy owner env of
               (memory_result, owner, env) \<Rightarrow>
                 let rc = rc\<lparr> rc_Inventory := iv, rc_MemoryOwner := owner \<rparr>
                 in if memory_result \<noteq> AppleAgxUatMemoryResultOk
                    then (False, AppleAgxResidencySetContextStatus AppleAgxResidencyContextResultMemoryOwner
                                   memory_result AppleAgxUatResultOk, rc, env)
                    else (True, AppleAgxResidencySetContextStatus AppleAgxResidencyContextResultOk
                                  AppleAgxUatMemoryResultOk AppleAgxUatResultOk,
                          rc\<lparr> rc_Context := 0, rc_Initialized := False,
                              rc_Roots := \<lparr> rt_Ttbr0PhysicalAddress = 0, rt_Ttbr1PhysicalAddress = 0 \<rparr> \<rparr>, env)))"

text \<open>Mapping the pages of an object, as a list or as one range.\<close>

definition map_object ::
  "APPLE_AGX_MEMORY_OBJECT \<Rightarrow> u32 \<Rightarrow> APPLE_AGX_UAT_ROOTS \<Rightarrow> u64 \<Rightarrow> 'al APPLE_AGX_UAT_ALLOCATOR
   \<Rightarrow> APPLE_AGX_UAT_INVENTORY \<Rightarrow> 'al \<Rightarrow> APPLE_AGX_UAT_RESULT \<times> APPLE_AGX_UAT_INVENTORY \<times> 'al" where
  "map_object object context' roots va alc iv al =
     (case mo_DevicePages object of
        Some pages \<Rightarrow> AppleAgxUatMapPageList context' roots va pages (mo_DevicePageCount object)
                        AppleAgxUatGpuSharedReadWrite alc iv al
      | None \<Rightarrow> AppleAgxUatMap context' roots va (mo_DeviceAddress object) (mo_Length object)
                  AppleAgxUatGpuSharedReadWrite alc iv al)"

definition AppleAgxResidencyMap64K ::
  "APPLE_AGX_MEMORY_OBJECT \<Rightarrow> u32 \<Rightarrow> APPLE_AGX_UAT_ROOTS \<Rightarrow> u64 \<Rightarrow> 'al APPLE_AGX_UAT_ALLOCATOR
   \<Rightarrow> APPLE_AGX_UAT_INVENTORY \<Rightarrow> 'al
   \<Rightarrow> bool \<times> APPLE_AGX_RESIDENCY_STATUS \<times> APPLE_AGX_MEMORY_OBJECT \<times> APPLE_AGX_UAT_INVENTORY \<times> 'al" where
  "AppleAgxResidencyMap64K object context' roots gpuVirtualAddress alc iv al =
     (let status = AppleAgxResidencySetStatus AppleAgxMemoryResultInvalidArgument AppleAgxUatResultInvalidArgument
      in if mo_State object \<noteq> AppleAgxMemoryPrepared \<or> context' = 0 \<or>
            \<not> AppleAgxResidencyAligned64K (mo_Length object) \<or> \<not> AppleAgxResidencyAligned64K gpuVirtualAddress
         then (False, status, object, iv, al)
         else if mo_DevicePages object \<noteq> None \<and>
                 ucast (mo_DevicePageCount object) \<noteq> mo_Length object div MEMORY_PAGE_SIZE
         then (False, status, object, iv, al)
         else if mo_DevicePages object = None \<and> \<not> AppleAgxResidencyAligned64K (mo_DeviceAddress object)
         then (False, status, object, iv, al)
         else
           case map_object object context' roots gpuVirtualAddress alc iv al of
             (uat_result, iv, al) \<Rightarrow>
               if uat_result \<noteq> AppleAgxUatResultOk
               then (False, AppleAgxResidencySetStatus AppleAgxMemoryResultOk uat_result, object, iv, al)
               else
                 case AppleAgxMemoryMarkGpuMapped object context' gpuVirtualAddress of
                   (memory_result, object) \<Rightarrow>
                     if memory_result \<noteq> AppleAgxMemoryResultOk
                     then (case AppleAgxUatUnmap context' roots gpuVirtualAddress (mo_Length object) alc iv al of
                             (uat_result, iv, al) \<Rightarrow>
                               (False, AppleAgxResidencySetStatus memory_result uat_result, object, iv, al))
                     else (True, AppleAgxResidencySetStatus AppleAgxMemoryResultOk AppleAgxUatResultOk, object, iv, al))"

definition AppleAgxResidencyUnmap64K ::
  "APPLE_AGX_MEMORY_OBJECT \<Rightarrow> APPLE_AGX_UAT_ROOTS \<Rightarrow> 'al APPLE_AGX_UAT_ALLOCATOR \<Rightarrow> APPLE_AGX_UAT_INVENTORY \<Rightarrow> 'al
   \<Rightarrow> bool \<times> APPLE_AGX_RESIDENCY_STATUS \<times> APPLE_AGX_MEMORY_OBJECT \<times> APPLE_AGX_UAT_INVENTORY \<times> 'al" where
  "AppleAgxResidencyUnmap64K object roots alc iv al =
     (let status = AppleAgxResidencySetStatus AppleAgxMemoryResultInvalidArgument AppleAgxUatResultInvalidArgument
      in if mo_State object = AppleAgxMemoryInFlight
         then (False, AppleAgxResidencySetStatus AppleAgxMemoryResultBusy AppleAgxUatResultOk, object, iv, al)
         else if (mo_State object \<noteq> AppleAgxMemoryGpuMapped \<and> mo_State object \<noteq> AppleAgxMemoryCompleted) \<or>
                 mo_Context object = 0 \<or> \<not> AppleAgxResidencyAligned64K (mo_GpuVirtualAddress object) \<or>
                 \<not> AppleAgxResidencyAligned64K (mo_Length object)
         then (False, status, object, iv, al)
         else if mo_DevicePages object = None \<and> \<not> AppleAgxResidencyAligned64K (mo_DeviceAddress object)
         then (False, status, object, iv, al)
         else
           let context' = mo_Context object; gpu_virtual_address = mo_GpuVirtualAddress object
           in case AppleAgxUatUnmap context' roots gpu_virtual_address (mo_Length object) alc iv al of
                (uat_result, iv, al) \<Rightarrow>
                  if uat_result \<noteq> AppleAgxUatResultOk
                  then (False, AppleAgxResidencySetStatus AppleAgxMemoryResultOk uat_result, object, iv, al)
                  else
                    case AppleAgxMemoryMarkGpuUnmapped object of
                      (memory_result, object) \<Rightarrow>
                        if memory_result \<noteq> AppleAgxMemoryResultOk
                        then (case map_object object context' roots gpu_virtual_address alc iv al of
                                (uat_result, iv, al) \<Rightarrow>
                                  (False, AppleAgxResidencySetStatus memory_result uat_result, object, iv, al))
                        else (True, AppleAgxResidencySetStatus AppleAgxMemoryResultOk AppleAgxUatResultOk,
                              object, iv, al))"

section \<open>Objects and their pages\<close>

text \<open>The physical page behind the page \<open>i\<close> of an object.\<close>

definition object_page :: "APPLE_AGX_MEMORY_OBJECT \<Rightarrow> nat \<Rightarrow> u64" where
  "object_page object i =
     (case mo_DevicePages object of Some pages \<Rightarrow> pages ! i | None \<Rightarrow> mo_DeviceAddress object + of_nat i * UAT_PAGE_SIZE)"

abbreviation object_pages :: "APPLE_AGX_MEMORY_OBJECT \<Rightarrow> nat" where
  "object_pages object \<equiv> unat (mo_Length object) div 0x4000"

lemma aligned_64K:
  assumes "AppleAgxResidencyAligned64K v"
  shows "v \<noteq> 0" and "2 ^ 14 dvd unat v" and "v AND UAT_PAGE_MASK = 0" and "of_nat (unat v div 0x4000 * 0x4000) = v"
proof -
  show "v \<noteq> 0" using assms by (simp add: AppleAgxResidencyAligned64K_def)
  have "v AND mask 16 = 0" using assms by (simp add: AppleAgxResidencyAligned64K_def mask_eq_exp_minus_1)
  then have "unat v mod 2 ^ 16 = 0" using unat_and_mask [of v 16] by simp
  then have "2 ^ 16 dvd unat v" by (simp only: dvd_eq_mod_eq_0)
  then show d: "2 ^ 14 dvd unat v" by (rule dvd_trans [rotated]) simp
  then show "v AND UAT_PAGE_MASK = 0" by (simp only: page_aligned_iff)
  have e: "unat v div 0x4000 * 0x4000 = unat v" using d by simp
  show "of_nat (unat v div 0x4000 * 0x4000) = v" unfolding e by simp
qed

text \<open>The guards of the map function that come before the page tables are touched.\<close>

definition mappable :: "APPLE_AGX_MEMORY_OBJECT \<Rightarrow> u32 \<Rightarrow> u64 \<Rightarrow> bool" where
  "mappable object c va \<longleftrightarrow>
     mo_State object = AppleAgxMemoryPrepared \<and> c \<noteq> 0 \<and> AppleAgxResidencyAligned64K (mo_Length object) \<and>
     AppleAgxResidencyAligned64K va \<and>
     (mo_DevicePages object \<noteq> None \<longrightarrow> ucast (mo_DevicePageCount object) = mo_Length object div MEMORY_PAGE_SIZE) \<and>
     (mo_DevicePages object = None \<longrightarrow> AppleAgxResidencyAligned64K (mo_DeviceAddress object))"

lemma map_object_request:
  assumes "map_object object c roots va alc iv al = (r, iv1, al1)" and "mappable object c va"
  shows "uat_request c roots va AppleAgxUatGpuSharedReadWrite (object_page object) (object_pages object) alc iv al r iv1 al1"
proof (cases "mo_DevicePages object")
  case None
  then have "object_page object = (\<lambda>i. mo_DeviceAddress object + of_nat i * UAT_PAGE_SIZE)"
    by (simp add: object_page_def fun_eq_iff)
  with None assms(1) show ?thesis unfolding uat_request_def map_object_def by auto
next
  case (Some pages)
  have "object_page object = (!) pages" using Some by (simp add: object_page_def fun_eq_iff)
  moreover have "ucast (mo_DevicePageCount object) = mo_Length object div MEMORY_PAGE_SIZE"
    using assms(2) Some by (simp add: mappable_def)
  then have "unat (ucast (mo_DevicePageCount object) :: u64) = object_pages object" by (simp add: unat_div)
  then have "object_pages object = unat (mo_DevicePageCount object)" by (simp add: unat_ucast_up)
  ultimately show ?thesis using Some assms(1) unfolding uat_request_def map_object_def by auto
qed

lemma Map64K_cases:
  assumes "AppleAgxResidencyMap64K object c roots va alc iv al = (ok, status, object1, iv1, al1)"
    and "uat_wf iv" and "uat_owned live iv al" and "page_source alc live"
  obtains (refused) "\<not> ok" "object1 = object" "iv1 = iv" "live al1 = live al"
  | (mapped) "ok" "mappable object c va"
      "object1 = object\<lparr> mo_Context := c, mo_GpuVirtualAddress := va, mo_State := AppleAgxMemoryGpuMapped \<rparr>"
      "uat_request c roots va AppleAgxUatGpuSharedReadWrite (object_page object) (object_pages object) alc iv al
         AppleAgxUatResultOk iv1 al1"
proof (cases "mappable object c va")
  case False
  with assms(1) show thesis
    by (intro refused) (auto simp: AppleAgxResidencyMap64K_def mappable_def Let_def split: if_splits)
next
  case True
  obtain r iv2 al2 where m: "map_object object c roots va alc iv al = (r, iv2, al2)" by (rule prod_cases3)
  note rq = map_object_request [OF m True]
  note R = request_result [OF rq assms(2-4)]
  show thesis
  proof (cases "r = AppleAgxUatResultOk")
    case False
    with R have "iv2 = iv" "live al2 = live al" by simp_all
    with assms(1) True m False show thesis
      by (intro refused) (auto simp: AppleAgxResidencyMap64K_def mappable_def Let_def split: if_splits)
  next
    case ok: True
    then have c: "c < 64" using R by auto
    have va: "va \<noteq> 0" "va AND 0x3fff = 0" using aligned_64K(1,3) [of va] True by (simp_all add: mappable_def)
    have "AppleAgxMemoryMarkGpuMapped object c va = (AppleAgxMemoryResultOk,
        object\<lparr> mo_Context := c, mo_GpuVirtualAddress := va, mo_State := AppleAgxMemoryGpuMapped \<rparr>)"
      using va c True by (simp add: AppleAgxMemoryMarkGpuMapped_def mappable_def)
    with assms(1) True m ok have "ok" "iv1 = iv2" "al1 = al2"
      "object1 = object\<lparr> mo_Context := c, mo_GpuVirtualAddress := va, mo_State := AppleAgxMemoryGpuMapped \<rparr>"
      by (auto simp: AppleAgxResidencyMap64K_def mappable_def Let_def)
    with rq ok True show thesis by (intro mapped) simp_all
  qed
qed

text \<open>Unmapping an object that is mapped where it says and not in flight.\<close>

lemma Unmap64K_Ok:
  assumes "mo_State object = AppleAgxMemoryGpuMapped \<or> mo_State object = AppleAgxMemoryCompleted"
    and "mo_Context object \<noteq> 0" and "AppleAgxResidencyAligned64K (mo_GpuVirtualAddress object)"
    and "AppleAgxResidencyAligned64K (mo_Length object)"
    and "mo_DevicePages object = None \<Longrightarrow> AppleAgxResidencyAligned64K (mo_DeviceAddress object)"
    and "AppleAgxUatUnmap (mo_Context object) roots (mo_GpuVirtualAddress object) (mo_Length object) alc iv al =
      (AppleAgxUatResultOk, iv1, al1)"
  shows "AppleAgxResidencyUnmap64K object roots alc iv al =
    (True, AppleAgxResidencySetStatus AppleAgxMemoryResultOk AppleAgxUatResultOk,
     object\<lparr> mo_Context := 0, mo_GpuVirtualAddress := 0, mo_SubmittedFence := 0, mo_State := AppleAgxMemoryPrepared \<rparr>,
     iv1, al1)"
  using assms by (auto simp: AppleAgxResidencyUnmap64K_def AppleAgxMemoryMarkGpuUnmapped_def Let_def)

section \<open>The life of a context\<close>

text \<open>A context is used through the two map functions; the table pages they take and give back are the owner's.\<close>

inductive context_step ::
  "'e APPLE_AGX_RESIDENCY_CONTEXT \<times> 'e memory_env \<Rightarrow> 'e APPLE_AGX_RESIDENCY_CONTEXT \<times> 'e memory_env \<Rightarrow> bool" where
  map_step: "AppleAgxResidencyMap64K object c (rc_Roots rc) va (rc_Allocator rc) (rc_Inventory rc)
       (rc_MemoryOwner rc, env) = (ok, status, object1, iv1, owner1, env1) \<Longrightarrow>
     context_step (rc, env) (rc\<lparr> rc_Inventory := iv1, rc_MemoryOwner := owner1 \<rparr>, env1)"
| unmap_step: "AppleAgxResidencyUnmap64K object (rc_Roots rc) (rc_Allocator rc) (rc_Inventory rc)
       (rc_MemoryOwner rc, env) = (ok, status, object1, iv1, owner1, env1) \<Longrightarrow>
     context_step (rc, env) (rc\<lparr> rc_Inventory := iv1, rc_MemoryOwner := owner1 \<rparr>, env1)"
| destroy_step: "AppleAgxResidencyContextDestroy rc env = (False, status, rc1, env1) \<Longrightarrow>
     context_step (rc, env) (rc1, env1)"

definition context_created :: "'e APPLE_AGX_RESIDENCY_CONTEXT \<times> 'e memory_env \<Rightarrow> bool" where
  "context_created s \<longleftrightarrow>
     (\<exists>rc c memoryIo objects objectCapacity pages pageCapacity mappings mappingCapacity env ok status.
        AppleAgxResidencyContextCreate rc c memoryIo objects objectCapacity pages pageCapacity mappings
          mappingCapacity env = (ok, status, fst s, snd s) \<and>
        me_Calls env = [] \<and> \<not> rc_Initialized rc \<and> unat objectCapacity \<le> length (the objects) \<and>
        (rc_Initialized (fst s) \<or> ok))"

definition context_books :: "'e APPLE_AGX_RESIDENCY_CONTEXT \<times> 'e memory_env \<Rightarrow> bool" where
  "context_books s \<longleftrightarrow> rc_Allocator (fst s) = uat_memory_allocator \<and> balanced (rc_MemoryOwner (fst s), snd s)"

lemma initialized_balanced:
  assumes "AppleAgxUatMemoryOwnerInitialize memoryIo objects capacity env owner = (AppleAgxUatMemoryResultOk, owner1)"
    and "me_Calls env = []" and "unat capacity \<le> length (the objects)"
  shows "balanced (owner1, env)"
  by (rule owner_runs.inv_start) (use assms in \<open>auto simp: owner_start_def\<close>)

lemma allocator_of_owner:
  "AppleAgxUatMemoryOwnerGetAllocator owner env = Inr allocator \<Longrightarrow> allocator = uat_memory_allocator"
  by (simp add: AppleAgxUatMemoryOwnerGetAllocator_def uat_memory_allocator_def split: if_splits)

lemma map_object_keeps:
  "map_object object c roots va uat_memory_allocator iv s = (r, iv1, s1) \<Longrightarrow> balanced s \<Longrightarrow> balanced s1"
  by (auto simp: map_object_def dest: table_pages.map_keeps table_pages.map_page_list_keeps split: option.splits)

lemma Map64K_keeps:
  assumes "AppleAgxResidencyMap64K object c roots va uat_memory_allocator iv s = (ok, status, object1, iv1, s1)" and "balanced s"
  shows "balanced s1"
proof -
  obtain r iv2 s2 where m: "map_object object c roots va uat_memory_allocator iv s = (r, iv2, s2)" by (rule prod_cases3)
  note k = map_object_keeps [OF m assms(2)]
  obtain r3 iv3 s3 where u: "AppleAgxUatUnmap c roots va (mo_Length object) uat_memory_allocator iv2 s2 = (r3, iv3, s3)"
    by (rule prod_cases3)
  note k3 = table_pages.unmap_keeps [OF u k]
  have same: "mo_Length (snd (AppleAgxMemoryMarkGpuMapped object c va)) = mo_Length object"
    by (simp add: AppleAgxMemoryMarkGpuMapped_def)
  have "s1 = s \<or> s1 = s2 \<or> s1 = s3"
    using assms(1) m u same by (auto simp: AppleAgxResidencyMap64K_def Let_def split: if_splits prod.splits)
  with k k3 assms(2) show ?thesis by blast
qed

lemma Unmap64K_keeps:
  assumes "AppleAgxResidencyUnmap64K object roots uat_memory_allocator iv s = (ok, status, object1, iv1, s1)" and "balanced s"
  shows "balanced s1"
proof -
  obtain r iv2 s2 where u: "AppleAgxUatUnmap (mo_Context object) roots (mo_GpuVirtualAddress object) (mo_Length object)
      uat_memory_allocator iv s = (r, iv2, s2)" by (rule prod_cases3)
  note k = table_pages.unmap_keeps [OF u assms(2)]
  obtain o1 where o1: "snd (AppleAgxMemoryMarkGpuUnmapped object) = o1" by blast
  obtain r3 iv3 s3 where m: "map_object o1 (mo_Context object) roots (mo_GpuVirtualAddress object)
      uat_memory_allocator iv2 s2 = (r3, iv3, s3)" by (rule prod_cases3)
  note k3 = map_object_keeps [OF m k]
  have "s1 = s \<or> s1 = s2 \<or> s1 = s3"
    using assms(1) m u o1 by (auto simp: AppleAgxResidencyUnmap64K_def Let_def split: if_splits prod.splits)
  with k k3 assms(2) show ?thesis by blast
qed

text \<open>A destroy gives the table pages back and then what is left of the owner's.\<close>

lemma context_destroy_keeps:
  assumes "AppleAgxResidencyContextDestroy rc env = (ok, status, rc1, env1)" and "context_books (rc, env)"
  shows "context_books (rc1, env1) \<and> (ok \<longrightarrow> uo_ObjectCount (rc_MemoryOwner rc1) = 0 \<and> \<not> rc_Initialized rc1)"
proof -
  have alc: "rc_Allocator rc = uat_memory_allocator" and b: "balanced (rc_MemoryOwner rc, env)"
    using assms(2) by (simp_all add: context_books_def)
  obtain iv2 owner2 env2 where d: "AppleAgxUatDestroy uat_memory_allocator (rc_Inventory rc) (rc_MemoryOwner rc, env) =
      (iv2, owner2, env2)" by (rule prod_cases3)
  obtain r3 owner3 env3 where o: "AppleAgxUatMemoryOwnerDestroy owner2 env2 = (r3, owner3, env3)" by (rule prod_cases3)
  note B = destroy_balanced [OF o table_pages.tables_destroy_keeps [OF d b]]
  from assms(1) B b alc show ?thesis
    by (auto simp: AppleAgxResidencyContextDestroy_def d o Let_def context_books_def split: if_splits)
qed

lemma context_created_books:
  assumes "AppleAgxResidencyContextCreate rc c memoryIo objects objectCapacity pages pageCapacity mappings mappingCapacity env =
      (ok, status, rc1, env1)"
    and "me_Calls env = []" and "\<not> rc_Initialized rc" and "unat objectCapacity \<le> length (the objects)"
  shows "(rc_Initialized rc1 \<longrightarrow> context_books (rc1, env1)) \<and> (ok \<longrightarrow> rc_Initialized rc1) \<and>
    (\<not> rc_Initialized rc1 \<longrightarrow> allocations (me_Calls env1) = frees (me_Calls env1))"
proof -
  obtain r2 owner2 where i: "AppleAgxUatMemoryOwnerInitialize memoryIo objects objectCapacity env (rc_MemoryOwner rc) =
      (r2, owner2)" by (rule prod.exhaust)
  show ?thesis
  proof (cases "memoryIo = None \<or> objects = None \<or> pages = None \<or> mappings = None \<or> c = 0 \<or> objectCapacity = 0 \<or>
      pageCapacity = 0 \<or> mappingCapacity = 0 \<or> objectCapacity < pageCapacity \<or> r2 \<noteq> AppleAgxUatMemoryResultOk")
    case True
    with assms i show ?thesis by (auto simp: AppleAgxResidencyContextCreate_def split: if_splits)
  next
    case False
    then have r2: "r2 = AppleAgxUatMemoryResultOk" by blast
    note b = initialized_balanced [OF i [unfolded r2] assms(2,4)]
    have "AppleAgxUatMemoryOwnerValid owner2 env"
      using i r2 by (auto simp: AppleAgxUatMemoryOwnerInitialize_def AppleAgxUatMemoryOwnerValid_def split: if_splits)
    then have g: "AppleAgxUatMemoryOwnerGetAllocator owner2 env = Inr uat_memory_allocator"
      by (simp add: AppleAgxUatMemoryOwnerGetAllocator_def uat_memory_allocator_def)
    obtain u roots iv3 owner3 env3 where cr: "AppleAgxUatCreateAddressSpace c uat_memory_allocator
        \<lparr> inv_Pages = pages, inv_PageCapacity = pageCapacity, inv_PageCount = 0, inv_Mappings = mappings,
          inv_MappingCapacity = mappingCapacity, inv_MappingCount = 0 \<rparr> (owner2, env) = (u, roots, iv3, owner3, env3)"
      by (rule prod_cases5)
    note b3 = table_pages.create_keeps [OF cr b]
    obtain r4 owner4 env4 where d: "AppleAgxUatMemoryOwnerDestroy owner3 env3 = (r4, owner4, env4)" by (rule prod_cases3)
    note B = destroy_balanced [OF d b3]
    from False assms(1,3) i g cr d B b3 show ?thesis
      by (auto simp: AppleAgxResidencyContextCreate_def Let_def context_books_def balanced_def owned_objects_def
          split: if_splits)
  qed
qed

interpretation context_runs: guarded_system context_created context_step context_books
proof
  fix s :: "'e APPLE_AGX_RESIDENCY_CONTEXT \<times> 'e memory_env"
  assume "context_created s"
  then show "context_books s"
    using context_created_books by (cases s) (fastforce simp: context_created_def)
next
  fix s t :: "'e APPLE_AGX_RESIDENCY_CONTEXT \<times> 'e memory_env"
  assume b: "context_books s" and st: "context_step s t"
  from st b show "context_books t"
  proof cases
    case (map_step object c rc va env ok status object1 iv1 owner1 env1)
    with b Map64K_keeps [of object c "rc_Roots rc" va "rc_Inventory rc" "(rc_MemoryOwner rc, env)"]
    show ?thesis by (simp add: context_books_def)
  next
    case (unmap_step object rc env ok status object1 iv1 owner1 env1)
    with b Unmap64K_keeps [of object "rc_Roots rc" "rc_Inventory rc" "(rc_MemoryOwner rc, env)"]
    show ?thesis by (simp add: context_books_def)
  next
    case (destroy_step rc env status rc1 env1)
    with b context_destroy_keeps show ?thesis by blast
  qed
qed

section \<open>A concrete object\<close>

definition demo_resident :: APPLE_AGX_MEMORY_OBJECT where
  "demo_resident = demo_object\<lparr> mo_AllocationHandle := 0x77, mo_DeviceAddress := 0x123450000, mo_Length := 0x10000,
     mo_State := AppleAgxMemoryPrepared \<rparr>"

lemma demo_offsets: "uat_offsets 0x10000 = [0, 0x4000, 0x8000, 0xc000]"
  by (simp add: uat_offsets_def upt_rec)

lemma demo_indices:
  "level0_index 0x10000 = 0" "level1_index 0x10000 = 0" "level2_index 0x10000 = 4"
  "level0_index 0x14000 = 0" "level1_index 0x14000 = 0" "level2_index 0x14000 = 5"
  "level0_index 0x18000 = 0" "level1_index 0x18000 = 0" "level2_index 0x18000 = 6"
  "level0_index 0x1c000 = 0" "level1_index 0x1c000 = 0" "level2_index 0x1c000 = 7"
  by (simp_all add: level0_index_def level1_index_def level2_index_def)

lemma demo_lists: "replicate 3 x = [x, x, x]" "[0..<3] = [0, 1, 2 :: nat]" "[0..<2] = [0, 1 :: nat]"
  by (simp_all add: numeral_3_eq_3 numeral_2_eq_2)

lemma demo_map:
  "\<exists>iv1 al1. AppleAgxUatMap 1 roots_demo 0x10000 0x123450000 0x10000 AppleAgxUatGpuSharedReadWrite
     pool_allocator (table_demo 4) [0x10000] = (AppleAgxUatResultOk, iv1, al1)"
  by (simp add: AppleAgxUatMap_def AppleAgxUatCheckOwnerArguments_def table_demo_def
      pool_allocator_def AppleAgxUatValidateRange_def AppleAgxUatProtectionBits_def
      mapping_overlaps_def AppleAgxUatFindPage_def roots_demo_def root_of_def demo_offsets demo_indices Let_def
      AppleAgxUatFindLeaf_def AppleAgxUatGetChild_def get_leaf_def word_le_nat_alt
      AppleAgxUatAllocateRecordedPage_def pool_pages_def AppleAgxUatPageIsZero_def
      AppleAgxUatEncodeTableDescriptor_def set_leaf_def AppleAgxUatEncodePageDescriptor_def demo_lists)

lemma demo_object_simps [simp]:
  "mo_DevicePages demo_resident = None" "mo_DeviceAddress demo_resident = 0x123450000"
  "mo_Length demo_resident = 0x10000" "mo_State demo_resident = AppleAgxMemoryPrepared"
  by (simp_all add: demo_resident_def demo_object_def)

lemma demo_map64K:
  obtains status object1 iv1 al1 where
    "AppleAgxResidencyMap64K demo_resident 1 roots_demo 0x10000 pool_allocator (table_demo 4) [0x10000] =
       (True, status, object1, iv1, al1)"
proof -
  from demo_map obtain iv1 al1 where m: "AppleAgxUatMap 1 roots_demo 0x10000 0x123450000 0x10000
      AppleAgxUatGpuSharedReadWrite pool_allocator (table_demo 4) [0x10000] = (AppleAgxUatResultOk, iv1, al1)" by blast
  have "fst (AppleAgxResidencyMap64K demo_resident 1 roots_demo 0x10000 pool_allocator (table_demo 4) [0x10000])"
    by (simp add: AppleAgxResidencyMap64K_def AppleAgxResidencyAligned64K_def map_object_def m Let_def
        AppleAgxMemoryMarkGpuMapped_def split_beta word_le_nat_alt)
  then show thesis using that by (metis (full_types) prod.collapse)
qed

text \<open>An object that was mapped goes through submission and completion and is unmapped again.\<close>

lemma job_cycle:
  assumes "AppleAgxResidencyMap64K object c roots va alc iv al = (True, status, object1, iv1, al1)"
    and "uat_wf iv" and "uat_tree iv" and "uat_owned live iv al" and "page_source alc live"
    and "unat (inv_MappingCapacity iv) \<le> length (uat_mappings iv)"
    and "AppleAgxMemoryMarkSubmitted object1 fence = (AppleAgxMemoryResultOk, object2)"
    and "AppleAgxMemoryMarkCompleted object2 fence = (AppleAgxMemoryResultOk, object3)"
  shows "AppleAgxResidencyUnmap64K object2 roots alc iv1 al1 =
      (False, AppleAgxResidencySetStatus AppleAgxMemoryResultBusy AppleAgxUatResultOk, object2, iv1, al1) \<and>
    (\<exists>iv2 al2. AppleAgxResidencyUnmap64K object3 roots alc iv1 al1 =
       (True, AppleAgxResidencySetStatus AppleAgxMemoryResultOk AppleAgxUatResultOk,
        object\<lparr> mo_Context := 0, mo_GpuVirtualAddress := 0, mo_SubmittedFence := 0 \<rparr>, iv2, al2) \<and>
       (\<forall>c' roots' v. AppleAgxUatResolvePage c' roots' v iv2 = AppleAgxUatResolvePage c' roots' v iv) \<and>
       live_mappings iv2 = live_mappings iv \<and> uat_wf iv2 \<and> uat_tree iv2 \<and> uat_owned live iv2 al2)"
  using assms(1,2,4,5)
proof (cases rule: Map64K_cases)
  case refused
  then show ?thesis by simp
next
  case mapped
  have g: "mo_State object = AppleAgxMemoryPrepared" "c \<noteq> 0" "AppleAgxResidencyAligned64K (mo_Length object)"
    "AppleAgxResidencyAligned64K va"
    "mo_DevicePages object = None \<Longrightarrow> AppleAgxResidencyAligned64K (mo_DeviceAddress object)"
    using mapped(2) by (simp_all add: mappable_def)
  have o2: "object2 = object1\<lparr> mo_SubmittedFence := fence, mo_State := AppleAgxMemoryInFlight \<rparr>"
    using assms(7) by (simp add: AppleAgxMemoryMarkSubmitted_def split: if_splits)
  have o3: "object3 = object2\<lparr> mo_State := AppleAgxMemoryCompleted \<rparr>"
    using assms(8) by (simp add: AppleAgxMemoryMarkCompleted_def split: if_splits)
  from map_unmap_restores [OF mapped(4) assms(2-6)] obtain iv2 al2 where
    u: "AppleAgxUatUnmap c roots va (of_nat (object_pages object * 0x4000)) alc iv1 al1 = (AppleAgxUatResultOk, iv2, al2)"
    and r: "\<forall>c' roots' v. AppleAgxUatResolvePage c' roots' v iv2 = AppleAgxUatResolvePage c' roots' v iv"
      "live_mappings iv2 = live_mappings iv" "uat_wf iv2" "uat_tree iv2" "uat_owned live iv2 al2" by blast
  have "AppleAgxResidencyUnmap64K object3 roots alc iv1 al1 =
     (True, AppleAgxResidencySetStatus AppleAgxMemoryResultOk AppleAgxUatResultOk,
      object3\<lparr> mo_Context := 0, mo_GpuVirtualAddress := 0, mo_SubmittedFence := 0, mo_State := AppleAgxMemoryPrepared \<rparr>,
      iv2, al2)"
    using g u aligned_64K(4) [OF g(3)] by (intro Unmap64K_Ok) (simp_all add: o3 o2 mapped(3))
  moreover have "object3\<lparr> mo_Context := 0, mo_GpuVirtualAddress := 0, mo_SubmittedFence := 0, mo_State := AppleAgxMemoryPrepared \<rparr> =
      object\<lparr> mo_Context := 0, mo_GpuVirtualAddress := 0, mo_SubmittedFence := 0 \<rparr>"
    using g(1) by (simp add: o3 o2 mapped(3))
  moreover have "AppleAgxResidencyUnmap64K object2 roots alc iv1 al1 =
      (False, AppleAgxResidencySetStatus AppleAgxMemoryResultBusy AppleAgxUatResultOk, object2, iv1, al1)"
    by (simp add: AppleAgxResidencyUnmap64K_def Let_def o2)
  ultimately show ?thesis using r by auto
qed

section \<open>Properties\<close>

text \<open>C20. Making an object resident is atomic: when it succeeds, the object records exactly its place and every page of
  it translates there to its own physical page, while every earlier translation stands; when it is refused, at
  whatever point, the object and the page tables are as they were and the pages that were taken are given back.\<close>

theorem residency_map_atomic:
  assumes "AppleAgxResidencyMap64K object c roots va alc iv al = (ok, status, object1, iv1, al1)"
    and "uat_wf iv" and "uat_owned live iv al" and "page_source alc live"
  shows "if ok
    then object1 = object\<lparr> mo_Context := c, mo_GpuVirtualAddress := va, mo_State := AppleAgxMemoryGpuMapped \<rparr> \<and>
         (\<forall>i < object_pages object. object_page object i \<noteq> 0 \<longrightarrow>
            (\<exists>d. AppleAgxUatResolvePage c roots (va + of_nat i * UAT_PAGE_SIZE) iv1 =
                   (AppleAgxUatResultOk, object_page object i, d))) \<and>
         (\<forall>c' roots' v pa d. AppleAgxUatResolvePage c' roots' v iv = (AppleAgxUatResultOk, pa, d) \<longrightarrow>
            AppleAgxUatResolvePage c' roots' v iv1 = (AppleAgxUatResultOk, pa, d)) \<and>
         uat_wf iv1 \<and> uat_owned live iv1 al1
    else object1 = object \<and> iv1 = iv \<and> live al1 = live al"
  using assms
proof (cases rule: Map64K_cases)
  case mapped
  with request_resolves [OF mapped(4) assms(2-4)] show ?thesis by simp blast
qed simp

theorem residency_map_atomic_witness:
  "\<exists>status object1 iv1 al1 d.
     AppleAgxResidencyMap64K demo_resident 1 roots_demo 0x10000 pool_allocator (table_demo 4) [0x10000] =
       (True, status, object1, iv1, al1) \<and>
     AppleAgxUatResolvePage 1 roots_demo 0x1c000 iv1 = (AppleAgxUatResultOk, 0x12345c000, d)"
proof -
  obtain status object1 iv1 al1 where
    m: "AppleAgxResidencyMap64K demo_resident 1 roots_demo 0x10000 pool_allocator (table_demo 4) [0x10000] =
      (True, status, object1, iv1, al1)" by (rule demo_map64K)
  have "object_page demo_resident 3 = 0x12345c000" by (simp add: object_page_def)
  with residency_map_atomic [OF m table_demo_wf pool_source] have
    "\<exists>d. AppleAgxUatResolvePage 1 roots_demo 0x1c000 iv1 = (AppleAgxUatResultOk, 0x12345c000, d)"
    by (auto dest!: spec [of _ 3])
  with m show ?thesis by blast
qed

text \<open>C11. The whole cycle of a resident object: mapped, submitted, completed, unmapped.  While its fence is in flight
  the unmap is refused and changes nothing; once the fence is complete the unmap succeeds, and then the object is
  what it was before the map and every page of every address space translates as it did before the map.\<close>

theorem residency_job_cycle:
  assumes "AppleAgxResidencyMap64K object c roots va alc iv al = (True, status, object1, iv1, al1)"
    and "uat_wf iv" and "uat_tree iv" and "uat_owned live iv al" and "page_source alc live"
    and "unat (inv_MappingCapacity iv) \<le> length (uat_mappings iv)"
    and "AppleAgxMemoryMarkSubmitted object1 fence = (AppleAgxMemoryResultOk, object2)"
    and "AppleAgxMemoryMarkCompleted object2 fence = (AppleAgxMemoryResultOk, object3)"
  shows "AppleAgxResidencyUnmap64K object2 roots alc iv1 al1 =
      (False, AppleAgxResidencySetStatus AppleAgxMemoryResultBusy AppleAgxUatResultOk, object2, iv1, al1) \<and>
    (\<exists>iv2 al2. AppleAgxResidencyUnmap64K object3 roots alc iv1 al1 =
       (True, AppleAgxResidencySetStatus AppleAgxMemoryResultOk AppleAgxUatResultOk,
        object\<lparr> mo_Context := 0, mo_GpuVirtualAddress := 0, mo_SubmittedFence := 0 \<rparr>, iv2, al2) \<and>
       (\<forall>c' roots' v. AppleAgxUatResolvePage c' roots' v iv2 = AppleAgxUatResolvePage c' roots' v iv) \<and>
       live_mappings iv2 = live_mappings iv \<and> uat_wf iv2 \<and> uat_tree iv2 \<and> uat_owned live iv2 al2)"
  by (rule job_cycle [OF assms])

theorem residency_job_cycle_witness:
  "\<exists>status object1 object2 object3 iv1 al1 iv2 al2.
     AppleAgxResidencyMap64K demo_resident 1 roots_demo 0x10000 pool_allocator (table_demo 4) [0x10000] =
       (True, status, object1, iv1, al1) \<and>
     AppleAgxMemoryMarkSubmitted object1 5 = (AppleAgxMemoryResultOk, object2) \<and>
     AppleAgxMemoryMarkCompleted object2 5 = (AppleAgxMemoryResultOk, object3) \<and>
     AppleAgxResidencyUnmap64K object3 roots_demo pool_allocator iv1 al1 =
       (True, AppleAgxResidencySetStatus AppleAgxMemoryResultOk AppleAgxUatResultOk, demo_resident, iv2, al2)"
proof -
  obtain status object1 iv1 al1 where
    m: "AppleAgxResidencyMap64K demo_resident 1 roots_demo 0x10000 pool_allocator (table_demo 4) [0x10000] =
      (True, status, object1, iv1, al1)" by (rule demo_map64K)
  have o1: "mo_State object1 = AppleAgxMemoryGpuMapped"
    by (rule Map64K_cases [OF m table_demo_wf pool_source]) simp_all
  define object2 where "object2 = object1\<lparr> mo_SubmittedFence := 5, mo_State := AppleAgxMemoryInFlight \<rparr>"
  have s: "AppleAgxMemoryMarkSubmitted object1 5 = (AppleAgxMemoryResultOk, object2)"
    using o1 by (simp add: AppleAgxMemoryMarkSubmitted_def object2_def)
  obtain object3 where e: "AppleAgxMemoryMarkCompleted object2 5 = (AppleAgxMemoryResultOk, object3)"
    by (simp add: AppleAgxMemoryMarkCompleted_def object2_def)
  have "demo_resident\<lparr> mo_Context := 0, mo_GpuVirtualAddress := 0, mo_SubmittedFence := 0 \<rparr> = demo_resident"
    by (simp add: demo_resident_def demo_object_def)
  with residency_job_cycle [OF m table_demo_wf(1) table_demo_tree(1) table_demo_wf(2) pool_source table_demo_tree(2) s e] m s e
  show ?thesis by auto
qed


definition demo_context :: "unit APPLE_AGX_RESIDENCY_CONTEXT" where
  "demo_context =
     \<lparr> rc_Context = 0, rc_Initialized = False, rc_MemoryOwner = demo_owner, rc_Allocator = uat_memory_allocator,
       rc_Inventory = table_demo 1, rc_Roots = roots_demo \<rparr>"

lemma blank_entries_zero [simp]: "list_all (\<lambda>e. e = 0) (replicate 2048 0)"
  by (simp add: list_all_length)

lemma demo_create:
  "\<exists>status rc env. AppleAgxResidencyContextCreate demo_context 1 (Some demo_platform) (Some [demo_object, demo_object]) 2
     (Some [page_zero, page_zero]) 2 (Some []) 1 demo_env = (True, status, rc, env) \<and>
   me_Calls env = [Allocated 0x77, Allocated 0x77]"
  by (simp add: AppleAgxResidencyContextCreate_def AppleAgxUatMemoryOwnerInitialize_def demo_context_def demo_env_def
      demo_platform_def demo_object_def upt_rec AppleAgxUatMemoryOwnerGetAllocator_def AppleAgxUatMemoryOwnerValid_def
      Let_def AppleAgxUatCreateAddressSpace_def AppleAgxUatCheckOwnerArguments_def AppleAgxUatAllocateRecordedPage_def
      AppleAgxUatMemoryAllocatePage_def memory_allocate_def AppleAgxMemoryAllocate_def AppleAgxMemoryAllocateAligned_def
      AppleAgxMemoryIoValid_def AppleAgxUatMemoryZeroObject_def put_object_def allocate_calls_def memory_step_def
      AppleAgxUatPageIsZero_def word_le_nat_alt demo_owner_def)


end
