(* ===== verification/SpiHid.thy ===== *)
theory SpiHid
  imports Interfaces
begin

text \<open>
  The SPI-HID transport of the internal keyboard and trackpad,
  \<^verbatim>\<open>drivers/apple-input/protocol/src\<close>: the checksum (\<^verbatim>\<open>apple_spihid_crc.c\<close>), the packet and
  message codec (\<^verbatim>\<open>apple_spihid_packet.c\<close>), the reassembly of messages
  (\<^verbatim>\<open>apple_spihid_reassembly.c\<close>), the interrupt hand-off (\<^verbatim>\<open>apple_spihid_transport.c\<close>) and the
  descriptor store (\<^verbatim>\<open>apple_spihid_descriptors.c\<close>).  A buffer is the list of its bytes and its size
  the length of the list; a packet buffer has 256 bytes.  A status that reports a failure is the
  left side of a sum, the value stored through the out parameter the right side.
\<close>

section \<open>Data\<close>

datatype ai_status =
  AI_OK | AI_COMPLETE | AI_ERR_ARGUMENT | AI_ERR_CRC | AI_ERR_LENGTH | AI_ERR_SEQUENCE
| AI_ERR_TIMEOUT | AI_ERR_PROTOCOL

datatype ai_trackpad_init_phase =
  AI_TRACKPAD_INIT_IDLE | AI_TRACKPAD_INIT_DIMENSIONS | AI_TRACKPAD_INIT_MULTITOUCH
| AI_TRACKPAD_INIT_READY | AI_TRACKPAD_INIT_OFFLINE

record ai_discovery_request =
  dq_target :: u8
  dq_type :: u8
  dq_report :: u8
  dq_device :: u8
  dq_response_length :: u16

record ai_packet_view =
  pk_flags :: u8
  pk_device :: u8
  pk_offset :: u16
  pk_remaining :: u16
  pk_length :: u16
  pk_data :: "u8 list option"

record ai_message_view =
  mv_flags :: u8
  mv_device :: u8
  mv_data :: "u8 list"
  mv_length :: u64

record ai_protocol_message =
  pm_type :: u8
  pm_report :: u8
  pm_device :: u8
  pm_id :: u8
  pm_response_length :: u16
  pm_payload :: "u8 list"
  pm_payload_length :: u16

record ai_reassembler =
  ra_active :: bool
  ra_flags :: u8
  ra_device :: u8
  ra_used :: u64
  ra_total :: u64
  ra_data :: "u8 list"

record ai_descriptor_slot =
  ds_valid :: bool
  ds_device :: u8
  ds_length :: u16
  ds_bytes :: "u8 list"

record ai_descriptor_store =
  dst_keyboard :: ai_descriptor_slot
  dst_trackpad :: ai_descriptor_slot

record ai_transport_queue =
  tq_pending :: bool
  tq_worker_active :: bool
  tq_coalesced_irqs :: u32

section \<open>Checksum\<close>

definition crc_bit :: "u16 \<Rightarrow> u16" where
  "crc_bit crc = (if crc AND 1 \<noteq> 0 then drop_bit 1 crc XOR 0xa001 else drop_bit 1 crc)"

definition crc_byte :: "u16 \<Rightarrow> u8 \<Rightarrow> u16" where
  "crc_byte crc b = (crc_bit ^^ 8) (crc XOR ucast b)"

definition ai_crc16_usb :: "u16 \<Rightarrow> u8 list \<Rightarrow> u16" where
  "ai_crc16_usb seed bytes = foldl crc_byte seed bytes"

section \<open>Packets and messages\<close>

definition get_le16 :: "u8 list \<Rightarrow> nat \<Rightarrow> u16" where
  "get_le16 bytes i = le16 (bytes ! i) (bytes ! (i + 1))"

definition put_le16 :: "nat \<Rightarrow> u16 \<Rightarrow> u8 list \<Rightarrow> u8 list" where
  "put_le16 i v bytes = bytes[i := lo8 v, i + 1 := hi8 v]"

definition ai_write_status_valid :: "u8 list \<Rightarrow> bool" where
  "ai_write_status_valid status \<longleftrightarrow>
     length status = 4 \<and> list_all (\<lambda>i. status ! i = [0xac, 0x27, 0x68, 0xd5] ! i) [0..<4]"

definition ai_packet_decode :: "u8 list \<Rightarrow> ai_status + ai_packet_view" where
  "ai_packet_decode raw =
     (if ai_crc16_usb 0 (take 254 raw) \<noteq> get_le16 raw 254 then Inl AI_ERR_CRC
      else let len = get_le16 raw 6
           in if len > 246 then Inl AI_ERR_LENGTH
              else Inr \<lparr> pk_flags = raw ! 0, pk_device = raw ! 1, pk_offset = get_le16 raw 2,
                         pk_remaining = get_le16 raw 4, pk_length = len,
                         pk_data = Some (drop 8 raw) \<rparr>)"

definition ai_message_decode :: "u8 list \<Rightarrow> ai_status + ai_protocol_message" where
  "ai_message_decode raw =
     (if length raw < 10 then Inl AI_ERR_LENGTH
      else let payload_length = get_le16 raw 6;
               expected = unat payload_length + 10
           in if length raw \<noteq> expected then Inl AI_ERR_LENGTH
              else if ai_crc16_usb 0 (take (length raw - 2) raw) \<noteq> get_le16 raw (length raw - 2)
              then Inl AI_ERR_CRC
              else Inr \<lparr> pm_type = raw ! 0, pm_report = raw ! 1, pm_device = raw ! 2,
                         pm_id = raw ! 3, pm_response_length = get_le16 raw 4,
                         pm_payload = drop 8 raw, pm_payload_length = payload_length \<rparr>)"

text \<open>Storing a checksum of \<open>n\<close> bytes starting at \<open>start\<close> right behind them or at the packet's end.\<close>

definition put_crc :: "nat \<Rightarrow> nat \<Rightarrow> nat \<Rightarrow> u8 list \<Rightarrow> u8 list" where
  "put_crc i start n raw = put_le16 i (ai_crc16_usb 0 (take n (drop start raw))) raw"

definition ai_discovery_request_encode :: "ai_discovery_request \<Rightarrow> u8 \<Rightarrow> u8 list" where
  "ai_discovery_request_encode request message_id =
     (let raw = replicate 256 0;
          raw = raw[0 := 0x40, 1 := dq_target request];
          raw = put_le16 6 10 raw;
          raw = raw[8 := dq_type request, 9 := dq_report request, 10 := dq_device request,
                    11 := message_id];
          raw = put_le16 12 (dq_response_length request) raw;
          raw = put_le16 14 0 raw;
          raw = put_crc 16 8 8 raw
      in put_crc 254 0 254 raw)"

definition ai_trackpad_init_request_encode ::
  "ai_trackpad_init_phase \<Rightarrow> u8 \<Rightarrow> ai_status + u8 list" where
  "ai_trackpad_init_request_encode phase message_id =
     (if phase \<noteq> AI_TRACKPAD_INIT_DIMENSIONS \<and> phase \<noteq> AI_TRACKPAD_INIT_MULTITOUCH
      then Inl AI_ERR_SEQUENCE
      else let raw = replicate 256 0;
               raw = raw[0 := 0x40, 1 := 0x02];
               (raw, message_size) =
                 (if phase = AI_TRACKPAD_INIT_DIMENSIONS
                  then (put_le16 12 0x0020
                          (raw[8 := 0x32, 9 := 0xd9, 10 := 0, 11 := message_id]), 10)
                  else (put_le16 16 0x0102 (put_le16 14 2 (put_le16 12 2
                          (raw[8 := 0x52, 9 := 0x02, 11 := message_id]))), 12 :: nat));
               raw = put_le16 6 (of_nat message_size) raw;
               raw = put_crc (8 + message_size - 2) 8 (message_size - 2) raw
           in Inr (put_crc 254 0 254 raw))"

section \<open>Reassembly\<close>

definition ai_reassembler_reset :: "ai_reassembler \<Rightarrow> ai_reassembler" where
  "ai_reassembler_reset s =
     s\<lparr> ra_active := False, ra_flags := 0, ra_device := 0, ra_used := 0, ra_total := 0,
        ra_data := replicate 2048 0 \<rparr>"

text \<open>Copying \<open>n\<close> bytes to an offset of a buffer.\<close>

definition mem_copy :: "nat \<Rightarrow> u8 list \<Rightarrow> nat \<Rightarrow> u8 list \<Rightarrow> u8 list" where
  "mem_copy i src n dst = take i dst @ take n src @ drop (i + n) dst"

definition ai_reassembler_push ::
  "ai_reassembler \<Rightarrow> ai_packet_view \<Rightarrow> ai_status \<times> ai_reassembler \<times> ai_message_view option" where
  "ai_reassembler_push s packet =
     (if pk_length packet \<noteq> 0 \<and> pk_data packet = None then (AI_ERR_ARGUMENT, s, None)
      else
        let end' = ucast (pk_offset packet) + ucast (pk_length packet) :: u64;
            total = end' + ucast (pk_remaining packet)
        in if end' < ucast (pk_offset packet) \<or> total < end' \<or> total > 2048 \<or>
              pk_length packet > 246
           then (AI_ERR_LENGTH, ai_reassembler_reset s, None)
           else if pk_offset packet \<noteq> 0 \<and>
                   (\<not> ra_active s \<or> pk_flags packet \<noteq> ra_flags s \<or>
                    pk_device packet \<noteq> ra_device s \<or> ucast (pk_offset packet) \<noteq> ra_used s \<or>
                    total \<noteq> ra_total s)
           then (AI_ERR_SEQUENCE, ai_reassembler_reset s, None)
           else
             let s1 = (if pk_offset packet = 0
                       then s\<lparr> ra_active := True, ra_flags := pk_flags packet,
                               ra_device := pk_device packet, ra_used := 0, ra_total := total \<rparr>
                       else s);
                 s2 = (if pk_length packet \<noteq> 0
                       then s1\<lparr> ra_data := mem_copy (unat (pk_offset packet))
                                  (the (pk_data packet)) (unat (pk_length packet)) (ra_data s1) \<rparr>
                       else s1);
                 s3 = s2\<lparr> ra_used := end' \<rparr>
             in if pk_remaining packet \<noteq> 0 then (AI_OK, s3, None)
                else if ra_used s3 \<noteq> ra_total s3
                then (AI_ERR_SEQUENCE, ai_reassembler_reset s3, None)
                else (AI_COMPLETE, s3\<lparr> ra_active := False \<rparr>,
                      Some \<lparr> mv_flags = ra_flags s3, mv_device = ra_device s3,
                             mv_data = ra_data s3, mv_length = ra_total s3 \<rparr>))"

section \<open>Interrupt hand-off\<close>

definition ai_transport_queue_reset :: "ai_transport_queue \<Rightarrow> ai_transport_queue" where
  "ai_transport_queue_reset q =
     q\<lparr> tq_pending := False, tq_worker_active := False, tq_coalesced_irqs := 0 \<rparr>"

definition ai_transport_irq :: "ai_transport_queue \<Rightarrow> bool \<times> ai_transport_queue" where
  "ai_transport_irq q =
     (if tq_pending q \<or> tq_worker_active q
      then (False, q\<lparr> tq_pending := True, tq_coalesced_irqs := tq_coalesced_irqs q + 1 \<rparr>)
      else (True, q\<lparr> tq_pending := True \<rparr>))"

definition ai_transport_worker_begin :: "ai_transport_queue \<Rightarrow> bool \<times> ai_transport_queue" where
  "ai_transport_worker_begin q =
     (if tq_worker_active q \<or> \<not> tq_pending q then (False, q)
      else (True, q\<lparr> tq_pending := False, tq_worker_active := True \<rparr>))"

definition ai_transport_worker_complete ::
  "ai_transport_queue \<Rightarrow> bool \<Rightarrow> bool \<times> ai_transport_queue" where
  "ai_transport_worker_complete q interrupt_asserted =
     (if \<not> tq_worker_active q then (False, q)
      else let q1 = q\<lparr> tq_worker_active := False \<rparr>;
               q2 = (if interrupt_asserted then q1\<lparr> tq_pending := True \<rparr> else q1)
           in (tq_pending q2, q2))"

section \<open>Descriptor store\<close>

definition slot_zero :: ai_descriptor_slot where
  "slot_zero = \<lparr> ds_valid = False, ds_device = 0, ds_length = 0, ds_bytes = replicate 512 0 \<rparr>"

definition ai_descriptor_store_reset :: "ai_descriptor_store \<Rightarrow> ai_descriptor_store" where
  "ai_descriptor_store_reset store = store\<lparr> dst_keyboard := slot_zero, dst_trackpad := slot_zero \<rparr>"

definition ai_descriptor_store_put ::
  "ai_descriptor_store \<Rightarrow> u8 \<Rightarrow> u8 list \<Rightarrow> ai_status \<times> ai_descriptor_store" where
  "ai_descriptor_store_put store device bytes =
     (if length bytes = 0 then (AI_ERR_ARGUMENT, store)
      else if length bytes > 512 then (AI_ERR_LENGTH, store)
      else let slot = slot_zero\<lparr> ds_bytes := mem_copy 0 bytes (length bytes) (ds_bytes slot_zero),
                                 ds_device := device, ds_length := of_nat (length bytes),
                                 ds_valid := True \<rparr>
           in if device = 1 then (AI_OK, store\<lparr> dst_keyboard := slot \<rparr>)
              else if device = 2 then (AI_OK, store\<lparr> dst_trackpad := slot \<rparr>)
              else (AI_ERR_PROTOCOL, store))"

definition ai_descriptor_store_get :: "ai_descriptor_store \<Rightarrow> u8 \<Rightarrow> ai_descriptor_slot option" where
  "ai_descriptor_store_get store device =
     (let slot = (if device = 1 then Some (dst_keyboard store)
                  else if device = 2 then Some (dst_trackpad store) else None)
      in case slot of None \<Rightarrow> None | Some s \<Rightarrow> (if ds_valid s then Some s else None))"

section \<open>Checksum lemmas\<close>

text \<open>One step of the shift register loses nothing: its top bit tells what was shifted out.\<close>

lemma crc_bit_top: "bit (crc_bit c) 15 \<longleftrightarrow> bit c 0"
proof -
  have "bit (0xa001 :: u16) 15" by simp
  moreover have "\<not> bit c 16" using bit_imp_le_length [of c 16] by auto
  ultimately show ?thesis by (auto simp: crc_bit_def bit_simps and_one_eq mod_2_eq_odd bit_0)
qed

lemma xor_cancel: "x XOR k = y XOR k \<longleftrightarrow> x = y" for x y k :: "'a::len word"
  by (auto simp: bit_eq_iff bit_simps)

lemma xor_cancel_left: "k XOR x = k XOR y \<longleftrightarrow> x = y" for x y k :: "'a::len word"
  by (simp only: xor.commute [of k] xor_cancel)

lemma crc_bit_inj: "crc_bit x = crc_bit y \<Longrightarrow> x = y"
proof -
  assume eq: "crc_bit x = crc_bit y"
  then have b0: "bit x 0 \<longleftrightarrow> bit y 0" using crc_bit_top by metis
  have "drop_bit 1 x = drop_bit 1 y"
    using eq b0 by (auto simp: crc_bit_def and_one_eq mod_2_eq_odd bit_0 xor_cancel split: if_splits)
  then have d: "bit x (Suc n) = bit y (Suc n)" for n
    by (metis bit_drop_bit_eq comp_apply plus_1_eq_Suc)
  show "x = y"
  proof (rule bit_word_eqI)
    fix n show "bit x n = bit y n" using b0 d by (cases n) auto
  qed
qed

lemma crc_bits_inj: "(crc_bit ^^ n) x = (crc_bit ^^ n) y \<Longrightarrow> x = y"
  by (induction n) (auto dest: crc_bit_inj)

lemma crc_byte_inj: "crc_byte x b = crc_byte y b \<Longrightarrow> x = y"
  unfolding crc_byte_def by (drule crc_bits_inj) (simp only: xor_cancel)

lemma crc_byte_inj_byte: "crc_byte x a = crc_byte x b \<Longrightarrow> a = b"
proof -
  assume "crc_byte x a = crc_byte x b"
  then have "x XOR ucast a = x XOR (ucast b :: u16)"
    unfolding crc_byte_def by (rule crc_bits_inj)
  then have "(ucast a :: u16) = ucast b" by (simp only: xor_cancel_left)
  then have "unat (ucast a :: u16) = unat (ucast b :: u16)" by simp
  then show "a = b" by (simp add: unat_ucast_up word_unat_eq_iff)
qed

lemma crc_seed_inj: "ai_crc16_usb x bytes = ai_crc16_usb y bytes \<Longrightarrow> x = y"
  unfolding ai_crc16_usb_def
  by (induction bytes arbitrary: x y) (auto dest: crc_byte_inj)

lemma crc_byte_change:
  assumes "i < length bytes" and "b \<noteq> bytes ! i"
  shows "ai_crc16_usb seed (bytes[i := b]) \<noteq> ai_crc16_usb seed bytes"
proof
  assume eq: "ai_crc16_usb seed (bytes[i := b]) = ai_crc16_usb seed bytes"
  let ?s = "foldl crc_byte seed (take i bytes)" and ?r = "drop (Suc i) bytes"
  have "ai_crc16_usb seed (bytes[i := b]) = ai_crc16_usb (crc_byte ?s b) ?r"
    using assms(1) by (simp add: ai_crc16_usb_def upd_conv_take_nth_drop)
  moreover have "ai_crc16_usb seed bytes = ai_crc16_usb (crc_byte ?s (bytes ! i)) ?r"
    unfolding ai_crc16_usb_def by (subst id_take_nth_drop [OF assms(1)]) simp
  ultimately have "crc_byte ?s b = crc_byte ?s (bytes ! i)"
    using eq crc_seed_inj by metis
  then show False using assms(2) crc_byte_inj_byte by blast
qed

lemma get_le16_change:
  assumes "i + 1 < length raw" and "k = i \<or> k = i + 1" and "b \<noteq> raw ! k"
  shows "get_le16 (raw[k := b]) i \<noteq> get_le16 raw i"
proof
  assume "get_le16 (raw[k := b]) i = get_le16 raw i"
  then have "lo8 (get_le16 (raw[k := b]) i) = lo8 (get_le16 raw i)"
    "hi8 (get_le16 (raw[k := b]) i) = hi8 (get_le16 raw i)" by simp_all
  with assms show False by (auto simp: get_le16_def nth_list_update split: if_splits)
qed

lemma get_put_le16:
  assumes "i + 1 < length raw"
  shows "get_le16 (put_le16 i v raw) i = v"
  using assms by (simp add: get_le16_def put_le16_def)

lemma put_le16_frame [simp]:
  "length (put_le16 i v raw) = length raw"
  "k \<noteq> i \<Longrightarrow> k \<noteq> i + 1 \<Longrightarrow> put_le16 i v raw ! k = raw ! k"
  by (simp_all add: put_le16_def)

lemma take_put_le16: "n \<le> i \<Longrightarrow> take n (put_le16 i v raw) = take n raw"
  by (simp add: put_le16_def)

lemma put_crc_frame [simp]:
  "length (put_crc i s n raw) = length raw"
  "k \<noteq> i \<Longrightarrow> k \<noteq> i + 1 \<Longrightarrow> put_crc i s n raw ! k = raw ! k"
  by (simp_all add: put_crc_def)

lemma take_put_crc: "n \<le> i \<Longrightarrow> take n (put_crc i s m raw) = take n raw"
  by (simp add: put_crc_def take_put_le16)

lemma get_put_crc:
  assumes "i + 1 < length raw"
  shows "get_le16 (put_crc i s n raw) i = ai_crc16_usb 0 (take n (drop s raw))"
  using get_put_le16 [OF assms] by (simp add: put_crc_def)

section \<open>Properties of the codec\<close>

text \<open>The checksum catches every packet with one corrupted byte: if a packet passes the check,
  the same packet with any single byte, of the data or of the checksum itself, replaced by a
  different one is rejected with the checksum error.\<close>

theorem packet_single_byte_detected:
  assumes "length raw = 256" and "ai_packet_decode raw \<noteq> Inl AI_ERR_CRC"
    and "i < 256" and "b \<noteq> raw ! i"
  shows "ai_packet_decode (raw[i := b]) = Inl AI_ERR_CRC"
proof -
  have ok: "ai_crc16_usb 0 (take 254 raw) = get_le16 raw 254"
    using assms(2) by (rule contrapos_np) (simp add: ai_packet_decode_def)
  have "ai_crc16_usb 0 (take 254 (raw[i := b])) \<noteq> get_le16 (raw[i := b]) 254"
  proof (cases "i < 254")
    case True
    then have "ai_crc16_usb 0 (take 254 (raw[i := b])) \<noteq> ai_crc16_usb 0 (take 254 raw)"
      using assms(1,4) crc_byte_change [of i "take 254 raw" b 0] by (simp add: take_update_swap)
    moreover have "get_le16 (raw[i := b]) 254 = get_le16 raw 254"
      using True by (simp add: get_le16_def)
    ultimately show ?thesis using ok by simp
  next
    case False
    then have "get_le16 (raw[i := b]) 254 \<noteq> get_le16 raw 254"
      using assms by (intro get_le16_change) auto
    with False ok show ?thesis by simp
  qed
  then show ?thesis by (simp add: ai_packet_decode_def)
qed

text \<open>The encoder stores the fields into \<open>request_fields\<close> and then the two checksums, neither of which
  touches the bytes before it.\<close>

definition request_fields :: "ai_discovery_request \<Rightarrow> u8 \<Rightarrow> u8 list" where
  "request_fields request message_id =
     put_le16 14 0 (put_le16 12 (dq_response_length request)
       ((put_le16 6 10 ((replicate 256 0)[0 := 0x40, 1 := dq_target request]))
          [8 := dq_type request, 9 := dq_report request, 10 := dq_device request,
           11 := message_id]))"

lemma request_fields_get:
  fixes request message_id
  defines "raw \<equiv> request_fields request message_id"
  shows "length raw = 256" "get_le16 raw 6 = 10" "get_le16 raw 2 = 0" "get_le16 raw 4 = 0"
    "raw ! 0 = 0x40" "raw ! 1 = dq_target request" "raw ! 8 = dq_type request"
    "raw ! 9 = dq_report request" "raw ! 10 = dq_device request" "raw ! 11 = message_id"
    "get_le16 raw 12 = dq_response_length request" "get_le16 raw 14 = 0"
  unfolding raw_def
  by (simp_all add: request_fields_def get_le16_def put_le16_def)
    (simp_all add: lo8_def hi8_def le16_def)

lemma discovery_request_encode:
  fixes request message_id
  defines "raw \<equiv> ai_discovery_request_encode request message_id"
    and "sent \<equiv> request_fields request message_id"
  shows "length raw = 256" and "k < 16 \<Longrightarrow> raw ! k = sent ! k"
    and "get_le16 raw 16 = ai_crc16_usb 0 (take 8 (drop 8 raw))"
    and "get_le16 raw 254 = ai_crc16_usb 0 (take 254 raw)"
proof -
  define raw1 where "raw1 = put_crc 16 8 8 sent"
  have enc: "raw = put_crc 254 0 254 raw1"
    by (simp add: ai_discovery_request_encode_def Let_def raw_def raw1_def sent_def
        request_fields_def)
  have len: "length sent = 256" "length raw1 = 256"
    by (simp_all add: raw1_def sent_def request_fields_get)
  then show l: "length raw = 256" by (simp add: enc)
  show nth: "raw ! k = sent ! k" if "k < 16" for k
    using that by (simp add: enc raw1_def)
  have "take 8 (drop 8 raw) = take 8 (drop 8 sent)"
    by (rule nth_equalityI) (simp_all add: nth len l)
  moreover have "get_le16 raw 16 = get_le16 raw1 16"
    by (simp add: get_le16_def enc)
  ultimately show "get_le16 raw 16 = ai_crc16_usb 0 (take 8 (drop 8 raw))"
    using get_put_crc [of 16 sent 8 8] len by (simp add: raw1_def)
  show "get_le16 raw 254 = ai_crc16_usb 0 (take 254 raw)"
    using get_put_crc [of 254 raw1 0 254] take_put_crc [of 254 254 0 254 raw1] len by (simp add: enc)
qed

lemma discovery_request_get:
  assumes "k < 15"
  shows "get_le16 (ai_discovery_request_encode request message_id) k =
    get_le16 (request_fields request message_id) k"
  using assms by (simp add: get_le16_def discovery_request_encode)

lemma discovery_request_packet:
  fixes request message_id
  defines "raw \<equiv> ai_discovery_request_encode request message_id"
  shows "ai_packet_decode raw = Inr \<lparr> pk_flags = 0x40, pk_device = dq_target request,
    pk_offset = 0, pk_remaining = 0, pk_length = 10, pk_data = Some (drop 8 raw) \<rparr>"
  unfolding raw_def
  by (simp add: ai_packet_decode_def discovery_request_get discovery_request_encode
      request_fields_get Let_def del: One_nat_def)

text \<open>The requests the driver sends are what the receiver decodes: an encoded discovery request is a
  256-byte packet that passes the packet check, is a single unfragmented write of ten bytes to the
  target, and carries a message that passes the message check and has exactly the fields of the
  request and the message id.\<close>

theorem discovery_request_roundtrip:
  "let raw = ai_discovery_request_encode request message_id in
     length raw = 256 \<and>
     (\<exists>packet message. ai_packet_decode raw = Inr packet \<and>
        pk_flags packet = 0x40 \<and> pk_device packet = dq_target request \<and>
        pk_offset packet = 0 \<and> pk_remaining packet = 0 \<and> pk_length packet = 10 \<and>
        ai_message_decode (take 10 (the (pk_data packet))) = Inr message \<and>
        pm_type message = dq_type request \<and> pm_report message = dq_report request \<and>
        pm_device message = dq_device request \<and> pm_id message = message_id \<and>
        pm_response_length message = dq_response_length request \<and> pm_payload_length message = 0)"
proof -
  let ?raw = "ai_discovery_request_encode request message_id"
  let ?m = "take 10 (drop 8 ?raw)"
  have "get_le16 ?m k = get_le16 ?raw (8 + k)" if "k < 9" for k
    using that by (simp add: get_le16_def discovery_request_encode)
  then obtain message where "ai_message_decode ?m = Inr message"
    "pm_type message = dq_type request" "pm_report message = dq_report request"
    "pm_device message = dq_device request" "pm_id message = message_id"
    "pm_response_length message = dq_response_length request" "pm_payload_length message = 0"
    using discovery_request_encode(3) [of request message_id]
    by (simp add: ai_message_decode_def discovery_request_get discovery_request_encode
        request_fields_get Let_def del: One_nat_def)
  with discovery_request_packet show ?thesis by (simp add: discovery_request_encode(1) Let_def)
qed

section \<open>Reassembly of messages\<close>

text \<open>The bytes a packet carries, and the packets the decoder produces: their data is present and at
  least as long as they say.\<close>

definition pk_bytes :: "ai_packet_view \<Rightarrow> u8 list" where
  "pk_bytes p = take (unat (pk_length p)) (the (pk_data p))"

definition packet_ok :: "ai_packet_view \<Rightarrow> bool" where
  "packet_ok p \<longleftrightarrow> pk_data p \<noteq> None \<and> unat (pk_length p) \<le> length (the (pk_data p))"

abbreviation pk_end :: "ai_packet_view \<Rightarrow> nat" where
  "pk_end p \<equiv> unat (pk_offset p) + unat (pk_length p)"

abbreviation pk_total :: "ai_packet_view \<Rightarrow> nat" where
  "pk_total p \<equiv> pk_end p + unat (pk_remaining p)"

lemma length_pk_bytes: "packet_ok p \<Longrightarrow> length (pk_bytes p) = unat (pk_length p)"
  by (simp add: packet_ok_def pk_bytes_def)

lemma unat_end: "unat (ucast (pk_offset p) + ucast (pk_length p) :: u64) = pk_end p"
  and unat_total: "unat (ucast (pk_offset p) + ucast (pk_length p) + ucast (pk_remaining p) :: u64)
     = pk_total p"
proof -
  have w: "unat x < 2 ^ 16" for x :: u16 using unsigned_less [of x, where 'a = nat] by simp
  have b: "unat (pk_offset p) < 2 ^ 16" "unat (pk_length p) < 2 ^ 16" "unat (pk_remaining p) < 2 ^ 16"
    by (rule w)+
  show e: "unat (ucast (pk_offset p) + ucast (pk_length p) :: u64) = pk_end p"
    using b by (subst unat_add_no_wrap) (simp_all add: unat_ucast_up)
  show "unat (ucast (pk_offset p) + ucast (pk_length p) + ucast (pk_remaining p) :: u64) = pk_total p"
    using b by (subst unat_add_no_wrap) (simp_all add: unat_ucast_up e)
qed

text \<open>A packet continues the message under assembly.\<close>

definition continues :: "ai_reassembler \<Rightarrow> ai_packet_view \<Rightarrow> bool" where
  "continues s p \<longleftrightarrow>
     ra_active s \<and> pk_flags p = ra_flags s \<and> pk_device p = ra_device s \<and>
     unat (pk_offset p) = unat (ra_used s) \<and> pk_total p = unat (ra_total s)"

lemma length_mem_copy:
  "n \<le> length src \<Longrightarrow> i + n \<le> length dst \<Longrightarrow> length (mem_copy i src n dst) = length dst"
  by (simp add: mem_copy_def)

lemma take_mem_copy:
  "n \<le> length src \<Longrightarrow> i + n \<le> length dst \<Longrightarrow>
   take (i + n) (mem_copy i src n dst) = take i dst @ take n src"
  by (simp add: mem_copy_def)

lemma push_cases:
  assumes "ai_reassembler_push s p = (r, s1, m)" and "packet_ok p"
  obtains (refused) "r = AI_ERR_LENGTH \<or> r = AI_ERR_SEQUENCE" "\<not> ra_active s1" "m = None"
      "ra_data s1 = replicate 2048 0"
      "\<not> (pk_total p \<le> 2048 \<and> unat (pk_length p) \<le> 246 \<and>
         (unat (pk_offset p) = 0 \<or> continues s p))"
  | (taken) "pk_total p \<le> 2048" "unat (pk_length p) \<le> 246" "unat (pk_offset p) = 0 \<or> continues s p"
      "ra_flags s1 = pk_flags p" "ra_device s1 = pk_device p" "unat (ra_used s1) = pk_end p"
      "unat (ra_total s1) = pk_total p"
      "ra_data s1 = mem_copy (unat (pk_offset p)) (the (pk_data p)) (unat (pk_length p)) (ra_data s)"
      "if pk_remaining p = 0
       then r = AI_COMPLETE \<and> \<not> ra_active s1 \<and>
            m = Some \<lparr> mv_flags = pk_flags p, mv_device = pk_device p, mv_data = ra_data s1,
                       mv_length = ra_total s1 \<rparr>
       else r = AI_OK \<and> ra_active s1 \<and> m = None"
proof -
  let ?e = "ucast (pk_offset p) + ucast (pk_length p) :: u64"
  let ?t = "?e + ucast (pk_remaining p)"
  have u: "unat (ucast (pk_offset p) :: u64) = unat (pk_offset p)" by (simp add: unat_ucast_up)
  have nowrap: "\<not> ?e < ucast (pk_offset p)" "\<not> ?t < ?e"
    by (simp_all only: word_less_nat_alt unat_end unat_total u)
  have big: "?t > 2048 \<longleftrightarrow> pk_total p > 2048" by (simp add: word_less_nat_alt unat_total)
  have long: "pk_length p > 246 \<longleftrightarrow> unat (pk_length p) > 246" by (simp add: word_less_nat_alt)
  have off: "pk_offset p = 0 \<longleftrightarrow> unat (pk_offset p) = 0" by (simp add: unat_eq_0)
  have cont: "\<not> (\<not> ra_active s \<or> pk_flags p \<noteq> ra_flags s \<or> pk_device p \<noteq> ra_device s \<or>
      ucast (pk_offset p) \<noteq> ra_used s \<or> ?t \<noteq> ra_total s) \<longleftrightarrow> continues s p"
    by (auto simp: continues_def word_unat_eq_iff unat_total unat_ucast_up)
  have zero: "mem_copy i src 0 dst = dst" for i src and dst :: "u8 list" by (simp add: mem_copy_def)
  have arg: "\<not> (pk_length p \<noteq> 0 \<and> pk_data p = None)" using assms(2) by (simp add: packet_ok_def)
  consider (bad) "pk_total p > 2048 \<or> unat (pk_length p) > 246"
    | (seq) "pk_total p \<le> 2048" "unat (pk_length p) \<le> 246" "unat (pk_offset p) \<noteq> 0" "\<not> continues s p"
    | (good) "pk_total p \<le> 2048" "unat (pk_length p) \<le> 246" "unat (pk_offset p) = 0 \<or> continues s p"
    by linarith
  then show thesis
  proof cases
    case bad
    have "ai_reassembler_push s p = (AI_ERR_LENGTH, ai_reassembler_reset s, None)"
      unfolding ai_reassembler_push_def Let_def if_not_P [OF arg] big long using bad by simp
    with assms(1) bad show thesis by (intro refused) (auto simp: ai_reassembler_reset_def)
  next
    case seq
    have "\<not> (pk_total p > 2048 \<or> unat (pk_length p) > 246)" using seq by simp
    then have "ai_reassembler_push s p = (AI_ERR_SEQUENCE, ai_reassembler_reset s, None)"
      unfolding ai_reassembler_push_def Let_def if_not_P [OF arg] big long off
      using nowrap seq cont by simp
    with assms(1) seq show thesis by (intro refused) (auto simp: ai_reassembler_reset_def)
  next
    case good
    let ?s1 = "if unat (pk_offset p) = 0
       then s\<lparr> ra_active := True, ra_flags := pk_flags p, ra_device := pk_device p, ra_used := 0,
               ra_total := ?t \<rparr> else s"
    let ?s3 = "?s1\<lparr> ra_data := mem_copy (unat (pk_offset p)) (the (pk_data p)) (unat (pk_length p))
       (ra_data s), ra_used := ?e \<rparr>"
    have not: "\<not> (pk_total p > 2048 \<or> unat (pk_length p) > 246)" using good by simp
    have eq: "ra_total ?s1 = ?t" "ra_active ?s1" "ra_flags ?s1 = pk_flags p"
      "ra_device ?s1 = pk_device p" "ra_data ?s1 = ra_data s"
      using good(3) cont by auto
    have copy: "(if pk_length p \<noteq> 0 then ?s1\<lparr> ra_data := mem_copy (unat (pk_offset p))
        (the (pk_data p)) (unat (pk_length p)) (ra_data ?s1) \<rparr> else ?s1)\<lparr> ra_used := ?e \<rparr> = ?s3"
      by (auto simp: zero eq(5))
    have rest: "ra_used ?s3 = ?e" "ra_total ?s3 = ?t" using eq by simp_all
    have g1: "\<not> (?e < ucast (pk_offset p) \<or> ?t < ?e \<or> 2048 < pk_total p \<or> 246 < unat (pk_length p))"
      using nowrap not by simp
    have g2: "\<not> (unat (pk_offset p) \<noteq> 0 \<and>
        (\<not> ra_active s \<or> pk_flags p \<noteq> ra_flags s \<or> pk_device p \<noteq> ra_device s \<or>
         ucast (pk_offset p) \<noteq> ra_used s \<or> ?t \<noteq> ra_total s))"
      using good(3) unfolding cont [symmetric] by argo
    have "ai_reassembler_push s p =
        (if pk_remaining p \<noteq> 0 then (AI_OK, ?s3, None)
         else (AI_COMPLETE, ?s3\<lparr> ra_active := False \<rparr>,
               Some \<lparr> mv_flags = ra_flags ?s3, mv_device = ra_device ?s3, mv_data = ra_data ?s3,
                      mv_length = ra_total ?s3 \<rparr>))"
      unfolding ai_reassembler_push_def Let_def if_not_P [OF arg] big long off
        if_not_P [OF g1] if_not_P [OF g2] copy rest
      by (cases "pk_remaining p = 0") simp_all
    with assms(1) eq rest show thesis
      by (intro taken [OF good]) (auto simp: unat_end unat_total split: if_splits)
  qed
qed

text \<open>Pushing packets one after another.\<close>

fun push_all ::
  "ai_reassembler \<Rightarrow> ai_packet_view list \<Rightarrow> (ai_status \<times> ai_message_view option) list \<times> ai_reassembler" where
  "push_all s [] = ([], s)"
| "push_all s (p # ps) =
     (case ai_reassembler_push s p of
        (r, s1, m) \<Rightarrow> (case push_all s1 ps of (rs, s2) \<Rightarrow> ((r, m) # rs, s2)))"

lemma push_all_append:
  "push_all s (ps @ qs) =
     (case push_all s ps of (rs, s1) \<Rightarrow> (case push_all s1 qs of (rs', s2) \<Rightarrow> (rs @ rs', s2)))"
  by (induction ps arbitrary: s) (auto split: prod.splits)

text \<open>Fragments in order: same flags and device, each at the offset the last one ended, all agreeing
  on the total length.\<close>

fun in_order :: "u8 \<Rightarrow> u8 \<Rightarrow> nat \<Rightarrow> nat \<Rightarrow> ai_packet_view list \<Rightarrow> nat \<Rightarrow> bool" where
  "in_order f d tot start [] stop \<longleftrightarrow> start = stop"
| "in_order f d tot start (p # ps) stop \<longleftrightarrow>
     pk_flags p = f \<and> pk_device p = d \<and> unat (pk_offset p) = start \<and> pk_total p = tot \<and>
     in_order f d tot (pk_end p) ps stop"

lemma in_order_snoc:
  "in_order f d tot start (ps @ [p]) stop \<longleftrightarrow>
     in_order f d tot start ps (unat (pk_offset p)) \<and> pk_flags p = f \<and> pk_device p = d \<and>
     pk_total p = tot \<and> stop = pk_end p"
  by (induction ps arbitrary: start) auto

definition ra_wf :: "ai_reassembler \<Rightarrow> bool" where
  "ra_wf s \<longleftrightarrow>
     length (ra_data s) = 2048 \<and>
     (ra_active s \<longrightarrow> unat (ra_used s) \<le> unat (ra_total s) \<and> unat (ra_total s) \<le> 2048)"

lemma push_wf:
  assumes "ai_reassembler_push s p = (r, s1, m)" and "packet_ok p" and "ra_wf s"
  shows "ra_wf s1"
  using assms(1,2)
proof (cases rule: push_cases)
  case refused
  then show ?thesis by (simp add: ra_wf_def)
next
  case taken
  with assms(2,3) show ?thesis by (simp add: ra_wf_def packet_ok_def length_mem_copy)
qed

text \<open>The message under assembly is the data of the last fragments pushed.\<close>

definition assembled :: "ai_reassembler \<Rightarrow> ai_packet_view list \<Rightarrow> bool" where
  "assembled s ps \<longleftrightarrow>
     (ra_active s \<longrightarrow> (\<exists>pre qs. ps = pre @ qs \<and>
        in_order (ra_flags s) (ra_device s) (unat (ra_total s)) 0 qs (unat (ra_used s)) \<and>
        take (unat (ra_used s)) (ra_data s) = concat (map pk_bytes qs)))"

text \<open>A packet that is taken extends the fragments that were in order.\<close>

lemma taken_in_order:
  assumes a: "assembled s ps" and wf: "ra_wf s" and ok: "packet_ok p"
    and t: "pk_total p \<le> 2048" "unat (pk_offset p) = 0 \<or> continues s p"
      "ra_data s1 = mem_copy (unat (pk_offset p)) (the (pk_data p)) (unat (pk_length p)) (ra_data s)"
  shows "\<exists>pre qs. ps @ [p] = pre @ qs \<and>
      in_order (pk_flags p) (pk_device p) (pk_total p) 0 qs (pk_end p) \<and>
      take (pk_end p) (ra_data s1) = concat (map pk_bytes qs)"
proof -
  have take: "take (pk_end p) (ra_data s1) = take (unat (pk_offset p)) (ra_data s) @ pk_bytes p"
    using t ok wf by (simp add: take_mem_copy pk_bytes_def packet_ok_def ra_wf_def)
  show ?thesis
  proof (cases "unat (pk_offset p) = 0")
    case True
    with take show ?thesis by (intro exI [of _ ps] exI [of _ "[p]"]) simp
  next
    case False
    with t(2) have c: "continues s p" by simp
    have eqs: "ra_flags s = pk_flags p" "ra_device s = pk_device p" "unat (ra_total s) = pk_total p"
      "unat (ra_used s) = unat (pk_offset p)" "ra_active s"
      using c by (simp_all add: continues_def)
    obtain pre qs where "ps = pre @ qs"
      "in_order (pk_flags p) (pk_device p) (pk_total p) 0 qs (unat (pk_offset p))"
      "take (unat (pk_offset p)) (ra_data s) = concat (map pk_bytes qs)"
      using a eqs by (auto simp: assembled_def)
    with take show ?thesis
      by - (rule exI [of _ pre], rule exI [of _ "qs @ [p]"], simp add: in_order_snoc)
  qed
qed

lemma push_assembled:
  assumes p: "ai_reassembler_push s p = (r, s1, m)" and ok: "packet_ok p" and "ra_wf s" and "assembled s ps"
  shows "assembled s1 (ps @ [p])"
  using p ok
proof (cases rule: push_cases)
  case refused
  then show ?thesis by (simp add: assembled_def)
next
  case taken
  show ?thesis
    using taken_in_order [OF assms(4,3) ok taken(1,3,8)] taken(4-7) by (simp add: assembled_def)
qed

lemma push_all_assembled:
  assumes "push_all s ps = (rs, s1)" and "\<forall>p\<in>set ps. packet_ok p" and "ra_wf s" and "assembled s qs"
  shows "ra_wf s1 \<and> assembled s1 (qs @ ps)"
  using assms
proof (induction ps arbitrary: s qs rs)
  case (Cons p ps)
  obtain r s2 m where p: "ai_reassembler_push s p = (r, s2, m)" by (rule prod_cases3)
  obtain rs' where r: "push_all s2 ps = (rs', s1)" using Cons.prems(1) p by (auto split: prod.splits)
  have ok: "packet_ok p" "\<forall>p\<in>set ps. packet_ok p" using Cons.prems(2) by simp_all
  from Cons.IH [OF r ok(2) push_wf [OF p ok(1) Cons.prems(3)]
      push_assembled [OF p ok(1) Cons.prems(3,4)]] show ?case by simp
qed simp

text \<open>The packets of a message cut into pieces.\<close>

fun fragments :: "u8 \<Rightarrow> u8 \<Rightarrow> nat \<Rightarrow> u8 list list \<Rightarrow> ai_packet_view list" where
  "fragments f d start [] = []"
| "fragments f d start (c # cs) =
     \<lparr> pk_flags = f, pk_device = d, pk_offset = of_nat start,
       pk_remaining = of_nat (length (concat cs)), pk_length = of_nat (length c),
       pk_data = Some c \<rparr> # fragments f d (start + length c) cs"

lemma unat_u16: "n < 2 ^ 16 \<Longrightarrow> unat (of_nat n :: u16) = n"
  by (simp add: unat_of_nat)

lemma push_fragments:
  assumes "cs \<noteq> []" and "\<forall>c\<in>set cs. c \<noteq> [] \<and> length c \<le> 246"
    and "start + length (concat cs) \<le> 2048" and "ra_wf s"
    and "start \<noteq> 0 \<Longrightarrow> ra_active s \<and> ra_flags s = f \<and> ra_device s = d \<and>
      unat (ra_used s) = start \<and> unat (ra_total s) = start + length (concat cs)"
  shows "\<exists>m s1. push_all s (fragments f d start cs) =
      (replicate (length cs - 1) (AI_OK, None) @ [(AI_COMPLETE, Some m)], s1) \<and>
      mv_flags m = f \<and> mv_device m = d \<and> unat (mv_length m) = start + length (concat cs) \<and>
      take (start + length (concat cs)) (mv_data m) = take start (ra_data s) @ concat cs"
  using assms
proof (induction cs arbitrary: start s)
  case (Cons c cs)
  define p where "p = \<lparr> pk_flags = f, pk_device = d, pk_offset = of_nat start,
       pk_remaining = of_nat (length (concat cs)), pk_length = of_nat (length c), pk_data = Some c \<rparr>"
  have c: "c \<noteq> []" "length c \<le> 246" "start + length c + length (concat cs) \<le> 2048"
    using Cons.prems(2,3) by simp_all
  have u: "unat (pk_offset p) = start" "unat (pk_length p) = length c"
    "unat (pk_remaining p) = length (concat cs)"
    using c by (simp_all add: p_def unat_u16 del: length_concat)
  have pd: "pk_flags p = f" "pk_device p = d" "pk_data p = Some c"
    "fragments f d start (c # cs) = p # fragments f d (start + length c) cs"
    by (simp_all add: p_def)
  have ok: "packet_ok p" using u(2) pd(3) by (simp add: packet_ok_def)
  have cont: "start \<noteq> 0 \<Longrightarrow> continues s p"
    using Cons.prems(5) by (simp add: continues_def u pd del: length_concat)
  obtain r s1 m where p: "ai_reassembler_push s p = (r, s1, m)" by (rule prod_cases3)
  from p ok show ?case
  proof (cases rule: push_cases)
    case refused
    have "pk_total p \<le> 2048" "unat (pk_length p) \<le> 246"
      using c by (simp_all add: u del: length_concat)
    with refused(5) cont u(1) show ?thesis by auto
  next
    case taken
    have tk: "take (start + length c) (ra_data s1) = take start (ra_data s) @ c"
      using c Cons.prems(4) unfolding taken(8) u pd by (simp add: take_mem_copy ra_wf_def)
    show ?thesis
    proof (cases "cs = []")
      case True
      then have z: "pk_remaining p = 0" by (simp add: p_def)
      from taken(9) [unfolded if_P [OF z]] taken(7) tk p True show ?thesis
        unfolding pd(4) by (simp add: u pd z)
    next
      case False
      then have ne: "length (concat cs) \<noteq> 0" using Cons.prems(2) by (cases cs) auto
      then have z: "pk_remaining p \<noteq> 0" using u(3) by (metis unat_0)
      note more = taken(9) [unfolded if_not_P [OF z]]
      have st: "start + length c \<noteq> 0 \<Longrightarrow> ra_active s1 \<and> ra_flags s1 = f \<and> ra_device s1 = d \<and>
          unat (ra_used s1) = start + length c \<and>
          unat (ra_total s1) = start + length c + length (concat cs)"
        using more taken(4-7) by (simp add: u pd del: length_concat)
      obtain m1 s2 where IH: "push_all s1 (fragments f d (start + length c) cs) =
          (replicate (length cs - 1) (AI_OK, None) @ [(AI_COMPLETE, Some m1)], s2)"
        "mv_flags m1 = f" "mv_device m1 = d"
        "unat (mv_length m1) = start + length c + length (concat cs)"
        "take (start + length c + length (concat cs)) (mv_data m1) =
           take (start + length c) (ra_data s1) @ concat cs"
        using Cons.IH [OF False _ c(3) push_wf [OF p ok Cons.prems(4)] st] Cons.prems(2) by auto
      have "length cs = Suc (length cs - 1)" using False by simp
      then have "replicate (length cs) x = x # replicate (length cs - 1) x" for x :: "ai_status \<times> ai_message_view option"
        by (metis replicate_Suc)
      with IH p more tk show ?thesis unfolding pd(4) by (simp add: add.assoc)
    qed
  qed
qed simp

text \<open>C18. A message is delivered only as it was sent: when a push completes, the last packets pushed
  are fragments of one message in order, from offset zero to the total length, all with the flags and
  device of the delivered message, and the message is exactly their data; and the message fits the
  buffer.\<close>

theorem reassembly_sound:
  assumes "push_all (ai_reassembler_reset s) ps = (rs, s1)" and "\<forall>p\<in>set (ps @ [p]). packet_ok p"
    and "ai_reassembler_push s1 p = (AI_COMPLETE, s2, m)"
  shows "\<exists>msg pre qs. m = Some msg \<and> ps @ [p] = pre @ qs \<and>
      in_order (mv_flags msg) (mv_device msg) (unat (mv_length msg)) 0 qs (unat (mv_length msg)) \<and>
      take (unat (mv_length msg)) (mv_data msg) = concat (map pk_bytes qs) \<and>
      unat (mv_length msg) \<le> 2048 \<and> length (mv_data msg) = 2048"
proof -
  have wf0: "ra_wf (ai_reassembler_reset s)" and a0: "assembled (ai_reassembler_reset s) []"
    by (simp_all add: ra_wf_def assembled_def ai_reassembler_reset_def)
  have ok: "packet_ok p" "\<forall>p\<in>set ps. packet_ok p" using assms(2) by simp_all
  have wf: "ra_wf s1" and a: "assembled s1 ps"
    using push_all_assembled [OF assms(1) ok(2) wf0 a0] by simp_all
  have wf2: "ra_wf s2" by (rule push_wf [OF assms(3) ok(1) wf])
  from assms(3) ok(1) show ?thesis
  proof (cases rule: push_cases)
    case taken
    have z: "pk_remaining p = 0" using taken(9) by (auto split: if_splits)
    then have m: "m = Some \<lparr> mv_flags = pk_flags p, mv_device = pk_device p, mv_data = ra_data s2,
        mv_length = ra_total s2 \<rparr>" using taken(9) by simp
    from taken_in_order [OF a wf ok(1) taken(1,3,8)] taken(1,7) z wf2 show ?thesis
      by (simp add: m ra_wf_def)
  qed auto
qed

text \<open>C19. Every message that fits the buffer arrives: cut into nonempty pieces of at most a packet's
  data and pushed in order, whatever was under assembly before, every packet but the last is
  accepted and the last completes with exactly the message, its flags and its device.\<close>

theorem reassembly_complete:
  assumes "cs \<noteq> []" and "\<forall>c\<in>set cs. c \<noteq> [] \<and> length c \<le> 246"
    and "length (concat cs) \<le> 2048" and "ra_wf s"
  shows "\<exists>m s1. push_all s (fragments f d 0 cs) =
      (replicate (length cs - 1) (AI_OK, None) @ [(AI_COMPLETE, Some m)], s1) \<and>
      mv_flags m = f \<and> mv_device m = d \<and>
      take (unat (mv_length m)) (mv_data m) = concat cs"
proof -
  have "0 + length (concat cs) \<le> 2048" using assms(3) by simp
  from push_fragments [OF assms(1,2) this assms(4), of f d] show ?thesis
    by (simp del: length_concat) (metis (no_types))
qed


section \<open>The interrupt hand-off\<close>

text \<open>
  How \<^verbatim>\<open>AiInputInterruptIsr\<close> and \<^verbatim>\<open>AiTransportWorker\<close> of
  \<^verbatim>\<open>drivers/apple-input/windows/src/transport.c\<close> use the queue, each under the interrupt lock.  The
  interrupt routine queues a work item when it is told to, and takes the hand-off back when the
  framework refuses the item; it returns whether an item was queued.  A worker that finishes a pass
  goes on at once when there is more to do and its packet budget is not used up, and otherwise
  leaves the level-triggered pin to schedule the next item; it returns whether it goes on.
\<close>

definition isr_handoff :: "ai_transport_queue \<Rightarrow> bool \<Rightarrow> bool \<times> ai_transport_queue" where
  "isr_handoff q accepted =
     (case ai_transport_irq q of
        (queue_worker, q1) \<Rightarrow>
          (if queue_worker
           then if accepted then (True, q1)
                else (False, snd (ai_transport_worker_complete
                               (snd (ai_transport_worker_begin q1)) False))
           else (False, q1)))"

definition worker_finish :: "ai_transport_queue \<Rightarrow> bool \<Rightarrow> bool \<Rightarrow> bool \<times> ai_transport_queue" where
  "worker_finish q asserted budget_left =
     (case ai_transport_worker_complete q asserted of
        (drain_again, q1) \<Rightarrow>
          (if drain_again \<and> budget_left then ai_transport_worker_begin q1
           else if drain_again then (False, q1\<lparr> tq_pending := False \<rparr>)
           else (False, q1)))"

text \<open>The queue with the number of queued work items and of running workers.\<close>

record handoff =
  ho_queue :: ai_transport_queue
  ho_items :: nat
  ho_workers :: nat

inductive ho_step :: "handoff \<Rightarrow> handoff \<Rightarrow> bool" where
  isr: "isr_handoff (ho_queue h) accepted = (queued, q) \<Longrightarrow>
    ho_step h (h\<lparr> ho_queue := q, ho_items := ho_items h + (if queued then 1 else 0) \<rparr>)"
| start: "0 < ho_items h \<Longrightarrow> ai_transport_worker_begin (ho_queue h) = (running, q) \<Longrightarrow>
    ho_step h (h\<lparr> ho_queue := q, ho_items := ho_items h - 1,
                  ho_workers := ho_workers h + (if running then 1 else 0) \<rparr>)"
| finish: "0 < ho_workers h \<Longrightarrow> worker_finish (ho_queue h) asserted budget_left = (again, q) \<Longrightarrow>
    ho_step h (h\<lparr> ho_queue := q,
                  ho_workers := ho_workers h - (if again then 0 else 1) \<rparr>)"

definition ho_wf :: "handoff \<Rightarrow> bool" where
  "ho_wf h \<longleftrightarrow>
     ho_workers h = (if tq_worker_active (ho_queue h) then 1 else 0) \<and>
     ho_items h = (if tq_pending (ho_queue h) \<and> \<not> tq_worker_active (ho_queue h) then 1 else 0)"

definition ho_start :: "handoff \<Rightarrow> bool" where
  "ho_start h \<longleftrightarrow>
     (\<exists>q. ho_queue h = ai_transport_queue_reset q) \<and> ho_items h = 0 \<and> ho_workers h = 0"

lemmas handoff_defs =
  isr_handoff_def worker_finish_def ai_transport_irq_def ai_transport_worker_begin_def
  ai_transport_worker_complete_def ai_transport_queue_reset_def Let_def

lemma ho_step_wf: "ho_wf h \<Longrightarrow> ho_step h h' \<Longrightarrow> ho_wf h'"
  by (erule ho_step.cases) (auto simp: ho_wf_def handoff_defs split: if_splits prod.splits)

lemma ho_start_wf: "ho_start h \<Longrightarrow> ho_wf h"
  by (auto simp: ho_start_def ho_wf_def handoff_defs)

interpretation ho_machine: guarded_system ho_start ho_step ho_wf
  by unfold_locales (erule ho_start_wf, erule (1) ho_step_wf)


section \<open>Witnesses\<close>

definition queue_demo :: ai_transport_queue where
  "queue_demo = ai_transport_queue_reset
     \<lparr> tq_pending = False, tq_worker_active = False, tq_coalesced_irqs = 0 \<rparr>"


definition request_demo :: ai_discovery_request where
  "request_demo = \<lparr> dq_target = 0xd0, dq_type = 0x20, dq_report = 1, dq_device = 0,
     dq_response_length = 512 \<rparr>"

theorem packet_single_byte_detected_witness:
  "ai_packet_decode ((ai_discovery_request_encode request_demo 7)[9 := 0x55]) = Inl AI_ERR_CRC"
proof -
  let ?raw = "ai_discovery_request_encode request_demo 7"
  have "ai_packet_decode ?raw \<noteq> Inl AI_ERR_CRC" by (simp add: discovery_request_packet)
  moreover have "?raw ! 9 = 1"
    by (simp add: discovery_request_encode request_fields_get request_demo_def)
  ultimately show ?thesis
    by (intro packet_single_byte_detected) (simp_all add: discovery_request_encode)
qed

definition reassembler_demo :: ai_reassembler where
  "reassembler_demo = \<lparr> ra_active = False, ra_flags = 0, ra_device = 0, ra_used = 0, ra_total = 0,
     ra_data = replicate 2048 0 \<rparr>"

theorem reassembly_complete_witness:
  "\<exists>m s1. push_all reassembler_demo (fragments 0x20 2 0 [[1, 2, 3], [4, 5]]) =
     ([(AI_OK, None), (AI_COMPLETE, Some m)], s1) \<and>
     take (unat (mv_length m)) (mv_data m) = [1, 2, 3, 4, 5]"
proof -
  have "ra_wf reassembler_demo" by (simp add: ra_wf_def reassembler_demo_def)
  then have "\<exists>m s1. push_all reassembler_demo (fragments 0x20 2 0 [[1, 2, 3], [4, 5]]) =
      (replicate (length [[1, 2, 3], [4, 5 :: u8]] - 1) (AI_OK, None) @ [(AI_COMPLETE, Some m)], s1) \<and>
      mv_flags m = 0x20 \<and> mv_device m = 2 \<and>
      take (unat (mv_length m)) (mv_data m) = concat [[1, 2, 3], [4, 5]]"
    by (intro reassembly_complete) auto
  then show ?thesis by (auto simp del: fragments.simps push_all.simps)
qed

theorem reassembly_sound_witness:
  "\<exists>s2 m. ai_reassembler_push (ai_reassembler_reset reassembler_demo)
     \<lparr> pk_flags = 0x20, pk_device = 2, pk_offset = 0, pk_remaining = 0, pk_length = 2,
       pk_data = Some [8, 9] \<rparr> = (AI_COMPLETE, s2, Some m) \<and> take 2 (mv_data m) = [8, 9]"
proof -
  let ?p = "\<lparr> pk_flags = 0x20, pk_device = 2, pk_offset = 0, pk_remaining = 0, pk_length = 2,
       pk_data = Some [8, 9] \<rparr>"
  let ?s = "ai_reassembler_reset reassembler_demo"
  obtain r s2 m where push: "ai_reassembler_push ?s ?p = (r, s2, m)" by (rule prod_cases3)
  have ok: "packet_ok ?p" by (simp add: packet_ok_def)
  from push ok obtain msg where fin: "r = AI_COMPLETE" "m = Some msg" "mv_length msg = ra_total s2"
    "unat (ra_total s2) = 2"
    by (cases rule: push_cases) auto
  have "push_all ?s [] = ([], ?s)" by simp
  moreover have "\<forall>p\<in>set ([] @ [?p]). packet_ok p" using ok by simp
  ultimately obtain msg' pre qs where q: "m = Some msg'" "[] @ [?p] = pre @ qs"
    "in_order (mv_flags msg') (mv_device msg') (unat (mv_length msg')) 0 qs (unat (mv_length msg'))"
    "take (unat (mv_length msg')) (mv_data msg') = concat (map pk_bytes qs)"
    using reassembly_sound push unfolding fin(1) by blast
  have "qs = [] \<or> qs = [?p]" using q(2) by (cases pre) auto
  then have "take 2 (mv_data msg) = [8, 9]"
    using fin q(1,3,4) by (auto simp: pk_bytes_def)
  with push fin show ?thesis by simp
qed

end
