(* ===== verification/Discovery.thy ===== *)
theory Discovery
  imports SpiHid
begin

text \<open>
  The handshakes of the input device, \<^verbatim>\<open>drivers/apple-input/protocol/src\<close>: the discovery of the
  keyboard and trackpad interfaces (\<^verbatim>\<open>apple_spihid_discovery.c\<close>), the trackpad initialisation
  (\<^verbatim>\<open>apple_spihid_trackpad.c\<close>) with the parser of the dimensions it asks for and the axis contract
  made from them (\<^verbatim>\<open>apple_trackpad_axis.c\<close>), and the SPI transfer plan (\<^verbatim>\<open>apple_spi_plan.c\<close>).
  Times are 64-bit microsecond counts and saturate; signed 32-bit coordinates are integers, which is
  exact because nothing here computes on them.
\<close>

section \<open>Phases\<close>

datatype ai_discovery_phase =
  AI_DISCOVERY_IDLE | AI_DISCOVERY_WAIT_BOOT | AI_DISCOVERY_IDENTITY
| AI_DISCOVERY_INTERFACE_MANAGEMENT | AI_DISCOVERY_INTERFACE_KEYBOARD
| AI_DISCOVERY_INTERFACE_TRACKPAD | AI_DISCOVERY_KEYBOARD_DESCRIPTOR
| AI_DISCOVERY_TRACKPAD_DESCRIPTOR | AI_DISCOVERY_READY | AI_DISCOVERY_OFFLINE

text \<open>The numeric value of a phase; the code compares phases and adds one to them.\<close>

primrec phase_value :: "ai_discovery_phase \<Rightarrow> nat" where
  "phase_value AI_DISCOVERY_IDLE = 0"
| "phase_value AI_DISCOVERY_WAIT_BOOT = 1"
| "phase_value AI_DISCOVERY_IDENTITY = 2"
| "phase_value AI_DISCOVERY_INTERFACE_MANAGEMENT = 3"
| "phase_value AI_DISCOVERY_INTERFACE_KEYBOARD = 4"
| "phase_value AI_DISCOVERY_INTERFACE_TRACKPAD = 5"
| "phase_value AI_DISCOVERY_KEYBOARD_DESCRIPTOR = 6"
| "phase_value AI_DISCOVERY_TRACKPAD_DESCRIPTOR = 7"
| "phase_value AI_DISCOVERY_READY = 8"
| "phase_value AI_DISCOVERY_OFFLINE = 9"

lemma phase_value_inj: "phase_value p = phase_value q \<Longrightarrow> p = q"
  by (cases p; cases q) simp_all

instantiation ai_discovery_phase :: linorder
begin

definition less_eq_ai_discovery_phase :: "ai_discovery_phase \<Rightarrow> ai_discovery_phase \<Rightarrow> bool" where
  "p \<le> q \<longleftrightarrow> phase_value p \<le> phase_value q"

definition less_ai_discovery_phase :: "ai_discovery_phase \<Rightarrow> ai_discovery_phase \<Rightarrow> bool" where
  "p < q \<longleftrightarrow> phase_value p < phase_value q"

instance
  by standard (auto simp: less_eq_ai_discovery_phase_def less_ai_discovery_phase_def
      dest: phase_value_inj)

end

lemmas phase_order = less_eq_ai_discovery_phase_def less_ai_discovery_phase_def

primrec phase_next :: "ai_discovery_phase \<Rightarrow> ai_discovery_phase" where
  "phase_next AI_DISCOVERY_IDLE = AI_DISCOVERY_WAIT_BOOT"
| "phase_next AI_DISCOVERY_WAIT_BOOT = AI_DISCOVERY_IDENTITY"
| "phase_next AI_DISCOVERY_IDENTITY = AI_DISCOVERY_INTERFACE_MANAGEMENT"
| "phase_next AI_DISCOVERY_INTERFACE_MANAGEMENT = AI_DISCOVERY_INTERFACE_KEYBOARD"
| "phase_next AI_DISCOVERY_INTERFACE_KEYBOARD = AI_DISCOVERY_INTERFACE_TRACKPAD"
| "phase_next AI_DISCOVERY_INTERFACE_TRACKPAD = AI_DISCOVERY_KEYBOARD_DESCRIPTOR"
| "phase_next AI_DISCOVERY_KEYBOARD_DESCRIPTOR = AI_DISCOVERY_TRACKPAD_DESCRIPTOR"
| "phase_next AI_DISCOVERY_TRACKPAD_DESCRIPTOR = AI_DISCOVERY_READY"
| "phase_next AI_DISCOVERY_READY = AI_DISCOVERY_OFFLINE"
| "phase_next AI_DISCOVERY_OFFLINE = AI_DISCOVERY_OFFLINE"

section \<open>Data\<close>

record ai_discovery =
  dc_phase :: ai_discovery_phase
  dc_retry_count :: u8
  dc_retry_limit :: u8
  dc_request_id :: u32
  dc_deadline_us :: u64

record ai_trackpad_dimensions =
  td_width_hundredths_mm :: u32
  td_height_hundredths_mm :: u32
  td_min_x :: int
  td_min_y :: int
  td_max_x :: int
  td_max_y :: int
  td_valid :: bool

record ai_trackpad_init =
  ti_phase :: ai_trackpad_init_phase
  ti_retry_count :: u8
  ti_retry_limit :: u8
  ti_message_id :: u8
  ti_deadline_us :: u64
  ti_dimensions :: ai_trackpad_dimensions

record ai_trackpad_axis =
  ax_logical_min :: int
  ax_logical_max :: int
  ax_physical_min :: int
  ax_physical_max :: int
  ax_unit :: u32
  ax_unit_exponent :: int
  ax_valid :: bool

record ai_trackpad_axis_contract =
  axc_x :: ai_trackpad_axis
  axc_y :: ai_trackpad_axis
  axc_valid :: bool

record ai_spi_transfer_plan =
  sp_clock_divider :: u16
  sp_words :: u16
  sp_bytes_per_word :: u8
  sp_poll :: bool

datatype ai_spi_register_op_kind = AI_SPI_REGISTER_WRITE | AI_SPI_REGISTER_MASK

record ai_spi_register_op =
  so_kind :: ai_spi_register_op_kind
  so_offset :: u16
  so_clear_mask :: u32
  so_set_value :: u32

section \<open>Discovery\<close>

definition deadline_after :: "u64 \<Rightarrow> u64 \<Rightarrow> u64" where
  "deadline_after now_us timeout_us =
     (let d = now_us + timeout_us in if d < now_us then - 1 else d)"

definition arm_request :: "ai_discovery \<Rightarrow> u64 \<Rightarrow> u64 \<Rightarrow> ai_discovery" where
  "arm_request s now_us timeout_us =
     s\<lparr> dc_request_id := dc_request_id s + 1, dc_deadline_us := deadline_after now_us timeout_us \<rparr>"

definition arm_deadline :: "ai_discovery \<Rightarrow> u64 \<Rightarrow> u64 \<Rightarrow> ai_discovery" where
  "arm_deadline s now_us timeout_us = s\<lparr> dc_deadline_us := deadline_after now_us timeout_us \<rparr>"

definition ai_discovery_start :: "u64 \<Rightarrow> u64 \<Rightarrow> u8 \<Rightarrow> ai_discovery" where
  "ai_discovery_start now_us timeout_us retry_limit =
     arm_deadline \<lparr> dc_phase = AI_DISCOVERY_WAIT_BOOT, dc_retry_count = 0,
       dc_retry_limit = retry_limit, dc_request_id = 0, dc_deadline_us = 0 \<rparr> now_us timeout_us"

definition ai_discovery_accept_boot ::
  "ai_discovery \<Rightarrow> u8 list \<Rightarrow> u64 \<Rightarrow> u64 \<Rightarrow> ai_status \<times> ai_discovery" where
  "ai_discovery_accept_boot s marker now_us timeout_us =
     (if dc_phase s \<noteq> AI_DISCOVERY_WAIT_BOOT then (AI_ERR_SEQUENCE, s)
      else if length marker \<noteq> 4 then (AI_ERR_LENGTH, s)
      else if \<not> list_all (\<lambda>i. marker ! i = [0xa0, 0x80, 0x00, 0x00] ! i) [0..<4]
      then (AI_ERR_PROTOCOL, s)
      else (AI_OK, arm_deadline (s\<lparr> dc_retry_count := 0, dc_phase := AI_DISCOVERY_IDENTITY \<rparr>)
                     now_us timeout_us))"

definition ai_discovery_accept ::
  "ai_discovery \<Rightarrow> u32 \<Rightarrow> bool \<Rightarrow> u64 \<Rightarrow> u64 \<Rightarrow> ai_status \<times> ai_discovery" where
  "ai_discovery_accept s request_id response_valid now_us timeout_us =
     (if dc_phase s < AI_DISCOVERY_IDENTITY \<or> dc_phase s > AI_DISCOVERY_TRACKPAD_DESCRIPTOR
      then (AI_ERR_SEQUENCE, s)
      else if request_id \<noteq> dc_request_id s then (AI_ERR_SEQUENCE, s)
      else if \<not> response_valid then (AI_ERR_PROTOCOL, s\<lparr> dc_phase := AI_DISCOVERY_OFFLINE \<rparr>)
      else let s1 = s\<lparr> dc_retry_count := 0, dc_phase := phase_next (dc_phase s) \<rparr>
           in if dc_phase s1 = AI_DISCOVERY_READY then (AI_COMPLETE, s1)
              else (AI_OK, arm_request s1 now_us timeout_us))"

definition ai_discovery_poll :: "ai_discovery \<Rightarrow> u64 \<Rightarrow> u64 \<Rightarrow> ai_status \<times> ai_discovery" where
  "ai_discovery_poll s now_us timeout_us =
     (if dc_phase s < AI_DISCOVERY_WAIT_BOOT \<or> dc_phase s > AI_DISCOVERY_TRACKPAD_DESCRIPTOR
      then (if dc_phase s = AI_DISCOVERY_READY then AI_COMPLETE else AI_ERR_SEQUENCE, s)
      else if now_us < dc_deadline_us s then (AI_OK, s)
      else if dc_retry_count s \<ge> dc_retry_limit s
      then (AI_ERR_TIMEOUT, s\<lparr> dc_phase := AI_DISCOVERY_OFFLINE \<rparr>)
      else let s1 = s\<lparr> dc_retry_count := dc_retry_count s + 1 \<rparr>
           in (AI_ERR_TIMEOUT,
               if dc_phase s1 = AI_DISCOVERY_WAIT_BOOT then arm_deadline s1 now_us timeout_us
               else arm_request s1 now_us timeout_us))"

definition ai_discovery_request_for_phase ::
  "ai_discovery_phase \<Rightarrow> ai_status + ai_discovery_request" where
  "ai_discovery_request_for_phase phase =
     (let out = \<lparr> dq_target = 0xd0, dq_type = 0x20, dq_report = 0, dq_device = 0,
                  dq_response_length = 512 \<rparr>
      in case phase of
           AI_DISCOVERY_IDENTITY \<Rightarrow>
             Inr (out\<lparr> dq_report := 0x01, dq_device := 0xd0, dq_response_length := 0 \<rparr>)
         | AI_DISCOVERY_INTERFACE_MANAGEMENT \<Rightarrow> Inr (out\<lparr> dq_report := 0x02, dq_device := 0 \<rparr>)
         | AI_DISCOVERY_INTERFACE_KEYBOARD \<Rightarrow> Inr (out\<lparr> dq_report := 0x02, dq_device := 1 \<rparr>)
         | AI_DISCOVERY_INTERFACE_TRACKPAD \<Rightarrow> Inr (out\<lparr> dq_report := 0x02, dq_device := 2 \<rparr>)
         | AI_DISCOVERY_KEYBOARD_DESCRIPTOR \<Rightarrow> Inr (out\<lparr> dq_report := 0x10, dq_device := 1 \<rparr>)
         | AI_DISCOVERY_TRACKPAD_DESCRIPTOR \<Rightarrow> Inr (out\<lparr> dq_report := 0x10, dq_device := 2 \<rparr>)
         | _ \<Rightarrow> Inl AI_ERR_SEQUENCE)"

definition ai_discovery_response_matches ::
  "ai_discovery_phase \<Rightarrow> ai_message_view \<Rightarrow> ai_protocol_message \<Rightarrow> bool" where
  "ai_discovery_response_matches phase wire message =
     (if pm_payload_length message = 0 \<or> mv_flags wire \<noteq> 0x40 \<or> mv_device wire \<noteq> 0xd0 \<or>
         pm_type message \<noteq> 0x20
      then False
      else case ai_discovery_request_for_phase phase of
             Inl _ \<Rightarrow> False
           | Inr expected \<Rightarrow>
               pm_report message = dq_report expected \<and> pm_device message = dq_device expected)"

section \<open>Trackpad dimensions and axes\<close>

definition ai_trackpad_get_le32 :: "u8 list \<Rightarrow> nat \<Rightarrow> u32" where
  "ai_trackpad_get_le32 bytes i = get32 bytes i"

definition ai_trackpad_get_i16 :: "u8 list \<Rightarrow> nat \<Rightarrow> int" where
  "ai_trackpad_get_i16 bytes i =
     (let value = ucast (get_le16 bytes i) :: u32
      in sint (if value AND 0x8000 \<noteq> 0 then value OR 0xffff0000 else value))"

definition dimensions_zero :: ai_trackpad_dimensions where
  "dimensions_zero = \<lparr> td_width_hundredths_mm = 0, td_height_hundredths_mm = 0, td_min_x = 0,
     td_min_y = 0, td_max_x = 0, td_max_y = 0, td_valid = False \<rparr>"

text \<open>The output is cleared first and stays cleared when the report is refused.\<close>

definition ai_trackpad_dimensions_parse :: "u8 list \<Rightarrow> nat \<Rightarrow> ai_status \<times> ai_trackpad_dimensions" where
  "ai_trackpad_dimensions_parse report len =
     (if len < 17 then (AI_ERR_LENGTH, dimensions_zero)
      else if report ! 0 \<noteq> 0xd9 then (AI_ERR_PROTOCOL, dimensions_zero)
      else let result = \<lparr> td_width_hundredths_mm = ai_trackpad_get_le32 report 1,
                          td_height_hundredths_mm = ai_trackpad_get_le32 report 5,
                          td_min_x = ai_trackpad_get_i16 report 9,
                          td_min_y = ai_trackpad_get_i16 report 11,
                          td_max_x = ai_trackpad_get_i16 report 13,
                          td_max_y = ai_trackpad_get_i16 report 15, td_valid = False \<rparr>
           in if td_width_hundredths_mm result = 0 \<or> td_height_hundredths_mm result = 0 \<or>
                 td_min_x result \<ge> td_max_x result \<or> td_min_y result \<ge> td_max_y result
              then (AI_ERR_PROTOCOL, dimensions_zero)
              else (AI_OK, result\<lparr> td_valid := True \<rparr>))"

definition ai_trackpad_hundredths_mm_to_hundredths_inch :: "u32 \<Rightarrow> int option" where
  "ai_trackpad_hundredths_mm_to_hundredths_inch hundredths_mm =
     (if hundredths_mm = 0 then None
      else let scaled = (ucast hundredths_mm * 5 + 63 :: u64) div 127
           in if scaled = 0 \<or> scaled > 0x7fffffff then None else Some (uint scaled))"

definition axis_zero :: ai_trackpad_axis where
  "axis_zero = \<lparr> ax_logical_min = 0, ax_logical_max = 0, ax_physical_min = 0, ax_physical_max = 0,
     ax_unit = 0, ax_unit_exponent = 0, ax_valid = False \<rparr>"

definition ai_trackpad_axis_contract_from_dimensions ::
  "ai_trackpad_dimensions \<Rightarrow> ai_status \<times> ai_trackpad_axis_contract" where
  "ai_trackpad_axis_contract_from_dimensions d =
     (let zero = \<lparr> axc_x = axis_zero, axc_y = axis_zero, axc_valid = False \<rparr>
      in if \<not> td_valid d \<or> td_min_x d \<ge> td_max_x d \<or> td_min_y d \<ge> td_max_y d
         then (AI_ERR_PROTOCOL, zero)
         else case ai_trackpad_hundredths_mm_to_hundredths_inch (td_width_hundredths_mm d) of
             None \<Rightarrow> (AI_ERR_PROTOCOL, zero)
           | Some px \<Rightarrow>
               (case ai_trackpad_hundredths_mm_to_hundredths_inch (td_height_hundredths_mm d) of
                  None \<Rightarrow> (AI_ERR_PROTOCOL, zero)
                | Some py \<Rightarrow>
                    (AI_OK, \<lparr> axc_x = axis_zero\<lparr> ax_logical_min := td_min_x d,
                                ax_logical_max := td_max_x d, ax_physical_max := px,
                                ax_unit := 0x13, ax_unit_exponent := - 2, ax_valid := True \<rparr>,
                              axc_y = axis_zero\<lparr> ax_logical_min := td_min_y d,
                                ax_logical_max := td_max_y d, ax_physical_max := py,
                                ax_unit := 0x13, ax_unit_exponent := - 2, ax_valid := True \<rparr>,
                              axc_valid = True \<rparr>)))"

section \<open>Trackpad initialisation\<close>

definition arm_init_deadline :: "ai_trackpad_init \<Rightarrow> u64 \<Rightarrow> u64 \<Rightarrow> ai_trackpad_init" where
  "arm_init_deadline s now_us timeout_us = s\<lparr> ti_deadline_us := deadline_after now_us timeout_us \<rparr>"

definition ai_trackpad_init_start :: "u8 \<Rightarrow> u64 \<Rightarrow> u64 \<Rightarrow> u8 \<Rightarrow> ai_trackpad_init" where
  "ai_trackpad_init_start message_id now_us timeout_us retry_limit =
     arm_init_deadline \<lparr> ti_phase = AI_TRACKPAD_INIT_DIMENSIONS, ti_retry_count = 0,
       ti_retry_limit = retry_limit, ti_message_id = message_id, ti_deadline_us = 0,
       ti_dimensions = dimensions_zero \<rparr> now_us timeout_us"

definition ai_trackpad_init_response_matches ::
  "ai_trackpad_init \<Rightarrow> ai_message_view \<Rightarrow> ai_protocol_message \<Rightarrow> bool" where
  "ai_trackpad_init_response_matches s wire message =
     (if mv_flags wire \<noteq> 0x40 \<or> pm_id message \<noteq> ti_message_id s then False
      else if ti_phase s = AI_TRACKPAD_INIT_DIMENSIONS
      then mv_device wire = 0x02 \<and> pm_type message = 0x32 \<and> pm_report message = 0xd9 \<and>
           pm_device message = 0x00 \<and> pm_payload_length message \<ge> 17
      else if ti_phase s = AI_TRACKPAD_INIT_MULTITOUCH
      then mv_device wire = 0x02 \<and> pm_type message = 0x52 \<and> pm_report message = 0x02
      else False)"

definition ai_trackpad_init_accept ::
  "ai_trackpad_init \<Rightarrow> ai_message_view \<Rightarrow> ai_protocol_message \<Rightarrow> u64 \<Rightarrow> u64
   \<Rightarrow> ai_status \<times> ai_trackpad_init" where
  "ai_trackpad_init_accept s wire message now_us timeout_us =
     (if \<not> ai_trackpad_init_response_matches s wire message then (AI_ERR_SEQUENCE, s)
      else
        let (status, s) =
          (if ti_phase s = AI_TRACKPAD_INIT_DIMENSIONS
           then case ai_trackpad_dimensions_parse (pm_payload message)
                       (unat (pm_payload_length message)) of
                  (st, d) \<Rightarrow> (st, s\<lparr> ti_dimensions := d \<rparr>)
           else (AI_OK, s))
        in if status \<noteq> AI_OK then (status, s)
           else let s1 = s\<lparr> ti_retry_count := 0, ti_message_id := ti_message_id s + 1 \<rparr>
                in if ti_phase s1 = AI_TRACKPAD_INIT_DIMENSIONS
                   then (AI_OK, arm_init_deadline (s1\<lparr> ti_phase := AI_TRACKPAD_INIT_MULTITOUCH \<rparr>)
                                  now_us timeout_us)
                   else (AI_COMPLETE, s1\<lparr> ti_phase := AI_TRACKPAD_INIT_READY \<rparr>))"

definition ai_trackpad_init_poll ::
  "ai_trackpad_init \<Rightarrow> u64 \<Rightarrow> u64 \<Rightarrow> ai_status \<times> ai_trackpad_init" where
  "ai_trackpad_init_poll s now_us timeout_us =
     (if ti_phase s \<noteq> AI_TRACKPAD_INIT_DIMENSIONS \<and> ti_phase s \<noteq> AI_TRACKPAD_INIT_MULTITOUCH
      then (if ti_phase s = AI_TRACKPAD_INIT_READY then AI_COMPLETE else AI_ERR_SEQUENCE, s)
      else if now_us < ti_deadline_us s then (AI_OK, s)
      else if ti_retry_count s \<ge> ti_retry_limit s
      then (AI_ERR_TIMEOUT, s\<lparr> ti_phase := AI_TRACKPAD_INIT_OFFLINE \<rparr>)
      else (AI_ERR_TIMEOUT,
            arm_init_deadline (s\<lparr> ti_retry_count := ti_retry_count s + 1,
                                  ti_message_id := ti_message_id s + 1 \<rparr>) now_us timeout_us))"

section \<open>SPI transfers\<close>

definition ai_spi_plan_transfer ::
  "u32 \<Rightarrow> u32 \<Rightarrow> u8 \<Rightarrow> u64 \<Rightarrow> ai_status + ai_spi_transfer_plan" where
  "ai_spi_plan_transfer reference_hz target_hz bits_per_word byte_length =
     (if reference_hz = 0 \<or> target_hz = 0 \<or> bits_per_word = 0 \<or> bits_per_word > 32
      then Inl AI_ERR_ARGUMENT
      else let bytes_per_word = (if bits_per_word > 16 then 4 else if bits_per_word > 8 then 2 else 1)
           in if byte_length mod ucast (bytes_per_word :: u8) \<noteq> 0 \<or>
                 byte_length div ucast bytes_per_word > 0xffff
              then Inl AI_ERR_LENGTH
              else let divider = (ucast reference_hz + ucast target_hz - 1 :: u64) div ucast target_hz;
                       divider = (if divider > 0x7ff then 0x7ff else divider)
                   in Inr \<lparr> sp_clock_divider = ucast divider,
                            sp_words = ucast (byte_length div ucast bytes_per_word),
                            sp_bytes_per_word = bytes_per_word,
                            sp_poll = (200000 * ucast bits_per_word * 8 \<le> (ucast target_hz :: u64)) \<rparr>)"

definition spi_plan :: "ai_spi_register_op list" where
  "spi_plan =
     [\<lparr> so_kind = AI_SPI_REGISTER_WRITE, so_offset = 0x00c, so_clear_mask = 0, so_set_value = push_bit 1 1 \<rparr>,
      \<lparr> so_kind = AI_SPI_REGISTER_MASK, so_offset = 0x150, so_clear_mask = push_bit 24 1, so_set_value = 0 \<rparr>,
      \<lparr> so_kind = AI_SPI_REGISTER_MASK, so_offset = 0x154, so_clear_mask = push_bit 9 1, so_set_value = push_bit 1 1 \<rparr>,
      \<lparr> so_kind = AI_SPI_REGISTER_WRITE, so_offset = 0x000, so_clear_mask = 0,
        so_set_value = push_bit 2 1 OR push_bit 3 1 \<rparr>,
      \<lparr> so_kind = AI_SPI_REGISTER_WRITE, so_offset = 0x004, so_clear_mask = 0, so_set_value = push_bit 5 1 \<rparr>,
      \<lparr> so_kind = AI_SPI_REGISTER_WRITE, so_offset = 0x138, so_clear_mask = 0, so_set_value = 0 \<rparr>,
      \<lparr> so_kind = AI_SPI_REGISTER_WRITE, so_offset = 0x130, so_clear_mask = 0, so_set_value = 0 \<rparr>,
      \<lparr> so_kind = AI_SPI_REGISTER_WRITE, so_offset = 0x160, so_clear_mask = 0, so_set_value = 0 \<rparr>,
      \<lparr> so_kind = AI_SPI_REGISTER_WRITE, so_offset = 0x168, so_clear_mask = 0, so_set_value = 0 \<rparr>]"

text \<open>The number of operations, and the output buffer after the call: filled when it is there and
  large enough, unchanged otherwise.\<close>

definition ai_spi_init_plan ::
  "ai_spi_register_op list option \<Rightarrow> nat \<times> ai_spi_register_op list option" where
  "ai_spi_init_plan out =
     (let count = length spi_plan
      in case out of
           None \<Rightarrow> (count, None)
         | Some buf \<Rightarrow>
             (count, Some (if length buf \<ge> count then spi_plan @ drop count buf else buf)))"

section \<open>Discovery as a machine\<close>

text \<open>The calls the transport makes; a step is a call that changes the state.\<close>

datatype dc_event = Boot "u8 list" u64 u64 | Answer u32 bool u64 u64 | Poll u64 u64

fun dc_apply :: "dc_event \<Rightarrow> ai_discovery \<Rightarrow> ai_status \<times> ai_discovery" where
  "dc_apply (Boot marker now_us timeout_us) d = ai_discovery_accept_boot d marker now_us timeout_us"
| "dc_apply (Answer request_id valid now_us timeout_us) d =
     ai_discovery_accept d request_id valid now_us timeout_us"
| "dc_apply (Poll now_us timeout_us) d = ai_discovery_poll d now_us timeout_us"

inductive dc_step :: "ai_discovery \<Rightarrow> ai_discovery \<Rightarrow> bool" where
  "dc_apply e d = (r, d') \<Longrightarrow> d' \<noteq> d \<Longrightarrow> dc_step d d'"

text \<open>The phases in which an event is awaited, and those in which it is the answer to a request.\<close>

abbreviation waiting :: "ai_discovery \<Rightarrow> bool" where
  "waiting d \<equiv> AI_DISCOVERY_WAIT_BOOT \<le> dc_phase d \<and> dc_phase d \<le> AI_DISCOVERY_TRACKPAD_DESCRIPTOR"

abbreviation requesting :: "ai_discovery \<Rightarrow> bool" where
  "requesting d \<equiv> AI_DISCOVERY_IDENTITY \<le> dc_phase d \<and> dc_phase d \<le> AI_DISCOVERY_TRACKPAD_DESCRIPTOR"

lemmas dc_defs = ai_discovery_accept_boot_def ai_discovery_accept_def ai_discovery_poll_def
  arm_deadline_def arm_request_def Let_def

lemma dc_step_cases:
  assumes "dc_step d d'"
  obtains (boot) "dc_phase d = AI_DISCOVERY_WAIT_BOOT" "dc_phase d' = AI_DISCOVERY_IDENTITY"
      "dc_retry_count d' = 0" "dc_retry_limit d' = dc_retry_limit d" "dc_request_id d' = dc_request_id d"
  | (answer) "requesting d" "dc_phase d' = phase_next (dc_phase d)" "dc_retry_count d' = 0"
      "dc_retry_limit d' = dc_retry_limit d"
      "dc_request_id d' = dc_request_id d + (if dc_phase d' = AI_DISCOVERY_READY then 0 else 1)"
  | (offline) "waiting d" "d' = d\<lparr> dc_phase := AI_DISCOVERY_OFFLINE \<rparr>"
  | (retry) "waiting d" "dc_retry_count d < dc_retry_limit d" "dc_phase d' = dc_phase d"
      "dc_retry_count d' = dc_retry_count d + 1" "dc_retry_limit d' = dc_retry_limit d"
      "dc_request_id d' = dc_request_id d + (if dc_phase d = AI_DISCOVERY_WAIT_BOOT then 0 else 1)"
proof -
  from assms obtain e r where "dc_apply e d = (r, d')" "d' \<noteq> d" by (auto elim: dc_step.cases)
  then show thesis
  proof (cases e)
    case (Boot m n t)
    with \<open>dc_apply e d = (r, d')\<close> \<open>d' \<noteq> d\<close> show thesis
      by (intro boot) (auto simp: dc_defs split: if_splits)
  next
    case (Answer i v n t)
    show thesis
    proof (cases v)
      case True
      with Answer \<open>dc_apply e d = (r, d')\<close> \<open>d' \<noteq> d\<close> show thesis
        by (intro answer) (auto simp: dc_defs split: if_splits)
    next
      case False
      with Answer \<open>dc_apply e d = (r, d')\<close> \<open>d' \<noteq> d\<close> show thesis
        by (intro offline) (auto simp: dc_defs phase_order split: if_splits)
    qed
  next
    case (Poll n t)
    show thesis
    proof (cases "dc_retry_limit d \<le> dc_retry_count d")
      case True
      with Poll \<open>dc_apply e d = (r, d')\<close> \<open>d' \<noteq> d\<close> show thesis
        by (intro offline) (auto simp: dc_defs split: if_splits)
    next
      case False
      with Poll \<open>dc_apply e d = (r, d')\<close> \<open>d' \<noteq> d\<close> show thesis
        by (intro retry) (auto simp: dc_defs split: if_splits)
    qed
  qed
qed

text \<open>The budget of a handshake: every phase left, with all its retries, and a last timeout.\<close>

definition dc_budget :: "ai_discovery \<Rightarrow> nat" where
  "dc_budget d =
     (if waiting d
      then (8 - phase_value (dc_phase d)) * (unat (dc_retry_limit d) + 1) -
           unat (dc_retry_count d)
      else 0)"

definition dc_wf :: "ai_discovery \<Rightarrow> bool" where
  "dc_wf d \<longleftrightarrow>
     dc_phase d \<noteq> AI_DISCOVERY_IDLE \<and>
     unat (dc_retry_count d) \<le> unat (dc_retry_limit d) \<and>
     unat (dc_request_id d) + dc_budget d \<le> 7 * (unat (dc_retry_limit d) + 1)"

lemma phase_value_next:
  "p < AI_DISCOVERY_OFFLINE \<Longrightarrow> phase_value (phase_next p) = phase_value p + 1"
  by (cases p) (simp_all add: phase_order)

lemma retry_step: "x < y \<Longrightarrow> unat (x + 1 :: u8) = unat x + 1"
  by (simp add: unat_Suc_no_wrap word_less_nat_alt)

lemma dc_budget_wait: "dc_wf d \<Longrightarrow> waiting d \<Longrightarrow> 0 < dc_budget d"
  by (cases "dc_phase d") (auto simp: dc_budget_def dc_wf_def phase_order)

lemma phase_next_not_idle [simp]: "phase_next p \<noteq> AI_DISCOVERY_IDLE"
  by (cases p) simp_all

lemma request_id_step:
  assumes "dc_wf d" and "waiting d"
  shows "unat (dc_request_id d + 1) = unat (dc_request_id d) + 1"
proof -
  have "unat (dc_retry_limit d) < 256"
    using unsigned_less [of "dc_retry_limit d", where 'a = nat] by simp
  with assms dc_budget_wait [OF assms] show ?thesis
    unfolding dc_wf_def by (subst unat_add_no_wrap) simp_all
qed

lemma dc_budget_next:
  assumes "dc_wf d" and "requesting d" and "dc_phase d' = phase_next (dc_phase d)"
    and "dc_retry_count d' = 0" and "dc_retry_limit d' = dc_retry_limit d"
  shows "dc_budget d' < dc_budget d"
  using assms by (cases "dc_phase d") (auto simp: dc_budget_def dc_wf_def phase_order)

lemma dc_budget_retry:
  assumes "waiting d" and "unat (dc_retry_count d') = unat (dc_retry_count d) + 1"
    and "dc_phase d' = dc_phase d" and "unat (dc_retry_count d) < unat (dc_retry_limit d)"
    and "dc_retry_limit d' = dc_retry_limit d"
  shows "dc_budget d' < dc_budget d"
  using assms by (cases "dc_phase d") (auto simp: dc_budget_def phase_order)

lemma dc_step_spend:
  assumes wf: "dc_wf d" and "dc_step d d'"
  shows "dc_wf d' \<and> dc_budget d' < dc_budget d \<and>
         (requesting d \<longrightarrow> requesting d' \<longrightarrow> unat (dc_request_id d') = unat (dc_request_id d) + 1)"
  using assms(2)
proof (cases rule: dc_step_cases)
  case boot
  then show ?thesis using wf by (auto simp: dc_wf_def dc_budget_def phase_order)
next
  case answer
  have w: "waiting d" using answer(1) by (simp add: phase_order)
  note b = dc_budget_next [OF wf answer(1-4)]
  with b wf request_id_step [OF wf w] answer show ?thesis by (auto simp: dc_wf_def phase_order)
next
  case offline
  then show ?thesis using wf dc_budget_wait [OF wf] by (auto simp: dc_wf_def dc_budget_def phase_order)
next
  case retry
  have c: "unat (dc_retry_count d') = unat (dc_retry_count d) + 1"
    using retry(2,4) by (simp add: retry_step)
  have l: "unat (dc_retry_count d) < unat (dc_retry_limit d)" using retry(2) by (simp add: word_less_nat_alt)
  note b = dc_budget_retry [OF retry(1) c retry(3) l retry(5)]
  with b c l wf request_id_step [OF wf retry(1)] retry show ?thesis by (auto simp: dc_wf_def phase_order)
qed

interpretation dc_machine: exhausting_system dc_step dc_wf dc_budget
  by unfold_locales (use dc_step_spend in blast)+

lemma start_budget:
  "dc_wf (ai_discovery_start now_us timeout_us retry_limit) \<and>
   dc_budget (ai_discovery_start now_us timeout_us retry_limit) = 7 * (unat retry_limit + 1)"
  by (simp add: ai_discovery_start_def arm_deadline_def dc_wf_def dc_budget_def phase_order)

text \<open>A handshake that still waits can always be moved on by the clock.\<close>

lemma waiting_step: "waiting d \<Longrightarrow> \<exists>d'. dc_step d d'"
proof -
  assume w: "waiting d"
  have "snd (ai_discovery_poll d (dc_deadline_us d) 0) \<noteq> d"
  proof (cases "dc_retry_limit d \<le> dc_retry_count d")
    case True
    with w show ?thesis by (cases d) (auto simp: dc_defs phase_order)
  next
    case False
    have "dc_retry_count (snd (ai_discovery_poll d (dc_deadline_us d) 0)) = dc_retry_count d + 1"
      using False w by (auto simp: dc_defs phase_order)
    then show ?thesis by (metis add.right_neutral add_left_cancel zero_neq_one)
  qed
  then show ?thesis
    by (intro exI dc_step.intros [of "Poll (dc_deadline_us d) 0"]) (auto simp: prod_eq_iff)
qed

lemma stuck_done:
  "dc_wf d \<Longrightarrow> (\<nexists>d'. dc_step d d') \<Longrightarrow>
   dc_phase d = AI_DISCOVERY_READY \<or> dc_phase d = AI_DISCOVERY_OFFLINE"
  using waiting_step [of d] by (cases "dc_phase d") (auto simp: dc_wf_def phase_order)

text \<open>C39. Discovery always settles: from its start, whatever boot markers, answers and polls arrive and
  whenever they do, at most seven times one more than the retry limit of them change the state; a
  state that nothing can change any more is ready or offline; and such a state can be reached from
  every state, so the handshake never hangs.\<close>

theorem discovery_settles:
  assumes "(dc_step ^^ n) (ai_discovery_start now_us timeout_us retry_limit) d"
  shows "n \<le> 7 * (unat retry_limit + 1) \<and>
         ((\<nexists>d'. dc_step d d') \<longrightarrow> dc_phase d = AI_DISCOVERY_READY \<or> dc_phase d = AI_DISCOVERY_OFFLINE) \<and>
         (\<exists>d'. dc_step\<^sup>*\<^sup>* d d' \<and> (dc_phase d' = AI_DISCOVERY_READY \<or> dc_phase d' = AI_DISCOVERY_OFFLINE))"
proof -
  have wf: "dc_wf d" and n: "n + dc_budget d \<le> 7 * (unat retry_limit + 1)"
    using dc_machine.spend_steps [OF assms] start_budget by auto
  obtain d' where d': "dc_step\<^sup>*\<^sup>* d d'" "\<nexists>u. dc_step d' u" using dc_machine.settles [OF wf] by blast
  then have "dc_wf d'" using dc_machine.spend_steps wf by (metis rtranclp_power)
  with d' n stuck_done [OF wf] stuck_done [of d'] show ?thesis by auto
qed

text \<open>Phases never go back, and along a run every new request gets a larger number.\<close>

lemma dc_phase_step: "dc_step d d' \<Longrightarrow> phase_value (dc_phase d) \<le> phase_value (dc_phase d')"
proof (erule dc_step_cases)
  assume "requesting d" "dc_phase d' = phase_next (dc_phase d)"
  then show ?thesis by (cases "dc_phase d") simp_all
qed (simp_all add: phase_order)

interpretation dc_phases: ranked_system dc_step "\<lambda>d. phase_value (dc_phase d)"
  by unfold_locales (rule dc_phase_step)

lemma request_id_grows:
  assumes "dc_step\<^sup>+\<^sup>+ d d'" and "dc_wf d" and "requesting d"
  shows "requesting d' \<longrightarrow> unat (dc_request_id d) < unat (dc_request_id d')"
  using assms
proof (induction rule: tranclp_induct)
  case (base e)
  then show ?case using dc_step_spend by fastforce
next
  case (step e f)
  have wf: "dc_wf e" using dc_machine.spend_less [OF step.hyps(1)] step.prems by blast
  show ?case
  proof
    assume f: "requesting f"
    have "phase_value (dc_phase d) \<le> phase_value (dc_phase e)"
      using dc_phases.rank_steps step.hyps(1) by (simp add: tranclp_into_rtranclp)
    with dc_phase_step [OF step.hyps(2)] f step.prems(2) have e: "requesting e"
      by (auto simp: phase_order)
    with step.IH step.prems dc_step_spend [OF wf step.hyps(2)] f show
      "unat (dc_request_id d) < unat (dc_request_id f)" by simp
  qed
qed

text \<open>A late answer is never taken for a later request: once a request has been answered,
  repeated after a timeout or given up, its number is never current again, however the handshake
  goes on, so an answer that carries it, valid or not, is refused and changes nothing.\<close>

theorem stale_answer_refused:
  assumes "dc_step\<^sup>*\<^sup>* (ai_discovery_start now0 timeout0 retry_limit) d" and "requesting d"
    and "dc_step\<^sup>+\<^sup>+ d d'"
  shows "ai_discovery_accept d' (dc_request_id d) valid now_us timeout_us = (AI_ERR_SEQUENCE, d')"
proof -
  have "dc_wf d" using assms(1) dc_machine.spend_steps start_budget by (metis rtranclp_power)
  from request_id_grows [OF assms(3) this assms(2)] show ?thesis
    by (auto simp: ai_discovery_accept_def phase_order)
qed

section \<open>Requests and answers\<close>

text \<open>Every phase that sends a request has its own, and the answer matches in that phase only.\<close>

lemma request_for_phase_exact:
  "(\<exists>q. ai_discovery_request_for_phase p = Inr q) \<longleftrightarrow>
   AI_DISCOVERY_IDENTITY \<le> p \<and> p \<le> AI_DISCOVERY_TRACKPAD_DESCRIPTOR"
  by (cases p) (simp_all add: ai_discovery_request_for_phase_def phase_order Let_def)

lemma response_matches_unique:
  assumes "ai_discovery_response_matches p wire message" and "ai_discovery_response_matches q wire message"
  shows "p = q"
  using assms by (cases p; cases q)
    (simp_all add: ai_discovery_response_matches_def ai_discovery_request_for_phase_def Let_def split: if_splits)

section \<open>Witnesses\<close>

definition dc_demo :: "ai_discovery" where
  "dc_demo = ai_discovery_start 100 50 1"

lemma dc_demo_boot:
  "dc_step dc_demo \<lparr> dc_phase = AI_DISCOVERY_IDENTITY, dc_retry_count = 0, dc_retry_limit = 1,
     dc_request_id = 0, dc_deadline_us = 160 \<rparr>"
  by (rule dc_step.intros [of "Boot [0xa0, 0x80, 0, 0] 110 50" _ AI_OK])
    (simp_all add: dc_demo_def ai_discovery_start_def dc_defs deadline_after_def upt_rec)

lemma dc_demo_retry:
  "dc_step \<lparr> dc_phase = AI_DISCOVERY_IDENTITY, dc_retry_count = 0, dc_retry_limit = 1,
     dc_request_id = 0, dc_deadline_us = 160 \<rparr>
   \<lparr> dc_phase = AI_DISCOVERY_IDENTITY, dc_retry_count = 1, dc_retry_limit = 1,
     dc_request_id = 1, dc_deadline_us = 220 \<rparr>"
  by (rule dc_step.intros [of "Poll 170 50" _ AI_ERR_TIMEOUT])
    (simp_all add: dc_defs deadline_after_def phase_order)

theorem discovery_settles_witness:
  "\<exists>d. (dc_step ^^ 2) dc_demo d \<and> dc_request_id d = 1 \<and> (2 :: nat) \<le> 14 \<and>
     (\<exists>d'. dc_step\<^sup>*\<^sup>* d d' \<and> (dc_phase d' = AI_DISCOVERY_READY \<or> dc_phase d' = AI_DISCOVERY_OFFLINE))"
proof -
  let ?d = "\<lparr> dc_phase = AI_DISCOVERY_IDENTITY, dc_retry_count = 1, dc_retry_limit = 1,
     dc_request_id = 1, dc_deadline_us = 220 \<rparr>"
  have two: "(dc_step ^^ 2) dc_demo ?d"
    using dc_demo_boot dc_demo_retry by (auto simp: numeral_2_eq_2)
  from discovery_settles [OF this [unfolded dc_demo_def]] two show ?thesis
    by (intro exI [of _ ?d]) simp
qed

theorem stale_answer_refused_witness:
  "\<exists>d. (dc_step ^^ 2) dc_demo d \<and> ai_discovery_accept d 0 True 180 50 = (AI_ERR_SEQUENCE, d)"
proof -
  let ?c = "\<lparr> dc_phase = AI_DISCOVERY_IDENTITY, dc_retry_count = 0, dc_retry_limit = 1,
     dc_request_id = 0, dc_deadline_us = 160 \<rparr>"
  let ?d = "\<lparr> dc_phase = AI_DISCOVERY_IDENTITY, dc_retry_count = 1, dc_retry_limit = 1,
     dc_request_id = 1, dc_deadline_us = 220 \<rparr>"
  have "ai_discovery_accept ?d (dc_request_id ?c) True 180 50 = (AI_ERR_SEQUENCE, ?d)"
    using dc_demo_boot dc_demo_retry
    by (intro stale_answer_refused [of 100 50 1]) (auto simp: dc_demo_def phase_order)
  moreover have "(dc_step ^^ 2) dc_demo ?d"
    using dc_demo_boot dc_demo_retry by (auto simp: numeral_2_eq_2)
  ultimately show ?thesis by (intro exI [of _ ?d]) simp
qed

section \<open>Trackpad initialisation as a machine\<close>

text \<open>A step is a call that moves the phase, the retries or the message id; a refused dimensions
  report changes only the stored dimensions.\<close>

datatype ti_event = Reply ai_message_view ai_protocol_message u64 u64 | Tick u64 u64

fun ti_apply :: "ti_event \<Rightarrow> ai_trackpad_init \<Rightarrow> ai_status \<times> ai_trackpad_init" where
  "ti_apply (Reply wire message now_us timeout_us) s =
     ai_trackpad_init_accept s wire message now_us timeout_us"
| "ti_apply (Tick now_us timeout_us) s = ai_trackpad_init_poll s now_us timeout_us"

inductive ti_step :: "ai_trackpad_init \<Rightarrow> ai_trackpad_init \<Rightarrow> bool" where
  "ti_apply e s = (r, t) \<Longrightarrow> ti_phase t \<noteq> ti_phase s \<or> ti_message_id t \<noteq> ti_message_id s \<Longrightarrow>
   ti_step s t"

definition ti_left :: "ai_trackpad_init_phase \<Rightarrow> nat" where
  "ti_left p = (if p = AI_TRACKPAD_INIT_DIMENSIONS then 2
                else if p = AI_TRACKPAD_INIT_MULTITOUCH then 1 else 0)"

definition ti_budget :: "ai_trackpad_init \<Rightarrow> nat" where
  "ti_budget s = ti_left (ti_phase s) * (unat (ti_retry_limit s) + 1) - unat (ti_retry_count s)"

definition ti_wf :: "ai_trackpad_init \<Rightarrow> bool" where
  "ti_wf s \<longleftrightarrow> unat (ti_retry_count s) \<le> unat (ti_retry_limit s) \<and> ti_phase s \<noteq> AI_TRACKPAD_INIT_IDLE"

lemma ti_accept_cases:
  assumes "ai_trackpad_init_accept s wire message now_us timeout_us = (r, t)"
  obtains (same) "ti_phase t = ti_phase s" "ti_message_id t = ti_message_id s"
  | (first) "ti_phase s = AI_TRACKPAD_INIT_DIMENSIONS" "ti_phase t = AI_TRACKPAD_INIT_MULTITOUCH"
      "ti_retry_count t = 0" "ti_retry_limit t = ti_retry_limit s" "r = AI_OK" "td_valid (ti_dimensions t)"
  | (last) "ti_phase s = AI_TRACKPAD_INIT_MULTITOUCH" "ti_phase t = AI_TRACKPAD_INIT_READY"
      "ti_retry_count t = 0" "ti_retry_limit t = ti_retry_limit s" "r = AI_COMPLETE"
      "ti_dimensions t = ti_dimensions s"
proof (cases "ai_trackpad_init_response_matches s wire message")
  case False
  with assms show thesis by (intro same) (auto simp: ai_trackpad_init_accept_def)
next
  case True
  then consider "ti_phase s = AI_TRACKPAD_INIT_DIMENSIONS" | "ti_phase s = AI_TRACKPAD_INIT_MULTITOUCH"
    by (auto simp: ai_trackpad_init_response_matches_def split: if_splits)
  then show thesis
  proof cases
    case 1
    show thesis
    proof (cases "fst (ai_trackpad_dimensions_parse (pm_payload message)
        (unat (pm_payload_length message))) = AI_OK")
      case ok: True
      with True 1 assms show thesis
        by (intro first) (auto simp: ai_trackpad_init_accept_def arm_init_deadline_def Let_def
            ai_trackpad_dimensions_parse_def split: if_splits)
    next
      case False
      with True 1 assms show thesis
        by (intro same) (auto simp: ai_trackpad_init_accept_def Let_def split: prod.splits if_splits)
    qed
  next
    case 2
    with True assms show thesis
      by (intro last) (auto simp: ai_trackpad_init_accept_def Let_def)
  qed
qed

lemma retry_less: "x < y \<Longrightarrow> Suc (unat (x :: u8)) \<le> unat y"
  by (simp add: word_less_nat_alt)

lemma ti_step_spend:
  assumes "ti_wf s" and "ti_step s t"
  shows "ti_wf t \<and> ti_budget t < ti_budget s"
proof -
  from assms(2) obtain e r where e: "ti_apply e s = (r, t)"
    "ti_phase t \<noteq> ti_phase s \<or> ti_message_id t \<noteq> ti_message_id s"
    by (auto elim: ti_step.cases)
  show ?thesis
  proof (cases e)
    case (Reply wire message n u)
    with e have "ai_trackpad_init_accept s wire message n u = (r, t)" by simp
    then show ?thesis using assms(1) e(2)
      by (cases rule: ti_accept_cases) (auto simp: ti_wf_def ti_budget_def ti_left_def)
  next
    case (Tick n u)
    with e assms(1) show ?thesis
      by (auto simp: ai_trackpad_init_poll_def arm_init_deadline_def ti_wf_def ti_budget_def ti_left_def
          retry_step not_le split: if_splits dest: retry_less)
  qed
qed

interpretation ti_machine: exhausting_system ti_step ti_wf ti_budget
  by unfold_locales (use ti_step_spend in blast)+

text \<open>The initialisation settles within two rounds of retries, ready or offline.\<close>

lemma trackpad_init_settles:
  assumes "(ti_step ^^ n) (ai_trackpad_init_start message_id now_us timeout_us retry_limit) t"
  shows "n \<le> 2 * (unat retry_limit + 1)"
proof -
  have "ti_wf (ai_trackpad_init_start message_id now_us timeout_us retry_limit)"
    "ti_budget (ai_trackpad_init_start message_id now_us timeout_us retry_limit) =
       2 * (unat retry_limit + 1)"
    by (simp_all add: ai_trackpad_init_start_def arm_init_deadline_def ti_wf_def ti_budget_def ti_left_def)
  with ti_machine.spend_steps [OF assms] show ?thesis by simp
qed

section \<open>Transfer plans\<close>

text \<open>A plan moves every byte, in words of at least the asked width, at no more than the asked clock
  unless the divider is at its largest value.\<close>

lemma unat_ucast_down:
  "unat x < 2 ^ LENGTH('b::len) \<Longrightarrow> unat (ucast (x :: 'a::len word) :: 'b word) = unat x"
  by (simp add: unsigned_ucast_eq take_bit_nat_eq_self)

lemma ceiling_division: "0 < t \<Longrightarrow> r \<le> (r + t - 1) div t * (t :: nat)"
proof -
  assume t: "0 < t"
  have "r + t - 1 < (r + t - 1) div t * t + t" using t using dividend_less_div_times [of t "r + t - 1"] by simp
  with t show ?thesis by linarith
qed

lemma spi_plan_transfer_exact:
  assumes "ai_spi_plan_transfer reference_hz target_hz bits byte_length = Inr p"
  shows "unat (sp_words p) * unat (sp_bytes_per_word p) = unat byte_length"
    and "unat bits \<le> 8 * unat (sp_bytes_per_word p)"
    and "unat (sp_clock_divider p) < 0x7ff \<Longrightarrow>
         unat reference_hz \<le> unat (sp_clock_divider p) * unat target_hz"
proof -
  let ?b = "(if bits > 16 then 4 else if bits > 8 then 2 else 1) :: u8"
  let ?d = "(ucast reference_hz + ucast target_hz - 1 :: u64) div ucast target_hz"
  have g: "target_hz \<noteq> 0" "bits \<le> 32" "byte_length mod ucast ?b = 0" "byte_length div ucast ?b \<le> 0xffff"
    and p: "sp_words p = ucast (byte_length div ucast ?b)" "sp_bytes_per_word p = ?b"
      "sp_clock_divider p = ucast (if ?d > 0x7ff then 0x7ff else ?d)"
    using assms by (auto simp: ai_spi_plan_transfer_def Let_def not_less split: if_splits)
  have ub: "unat (ucast ?b :: u64) = unat ?b" by (simp add: unat_ucast_up)
  have "unat (byte_length div ucast ?b) \<le> 65535" using g(4) by (simp add: word_le_nat_alt)
  then have w: "unat (sp_words p) = unat byte_length div unat ?b"
    unfolding p by (subst unat_ucast_down) (simp_all add: unat_div ub)
  have "unat byte_length mod unat ?b = 0"
    using arg_cong [OF g(3), of unat] unfolding unat_mod ub by simp
  with w show "unat (sp_words p) * unat (sp_bytes_per_word p) = unat byte_length"
    unfolding p(2) by (simp only: w) (metis add.right_neutral div_mult_mod_eq)
  show "unat bits \<le> 8 * unat (sp_bytes_per_word p)"
    using g(2) unfolding p(2) by (auto simp: word_less_nat_alt word_le_nat_alt not_less)
  have lt: "unat x < 2 ^ 32" for x :: u32 using unsigned_less [of x, where 'a = nat] by simp
  have t0: "0 < unat target_hz" using g(1) by (simp add: unat_gt_0)
  have s: "unat (ucast reference_hz + ucast target_hz :: u64) = unat reference_hz + unat target_hz"
    using lt [of reference_hz] lt [of target_hz]
    by (subst unat_add_no_wrap) (simp_all add: unat_ucast_up)
  then have "(ucast reference_hz + ucast target_hz :: u64) \<noteq> 0"
    using t0 by (metis add_is_0 less_numeral_extra(3) unat_0)
  with s have d: "unat ?d = (unat reference_hz + unat target_hz - 1) div unat target_hz"
    by (simp add: unat_div unat_pred unat_ucast_up)
  show "unat reference_hz \<le> unat (sp_clock_divider p) * unat target_hz"
    if sat: "unat (sp_clock_divider p) < 0x7ff"
  proof -
    have le: "\<not> ?d > 0x7ff" using sat unfolding p(3) by (cases "?d > 0x7ff") simp_all
    then have "unat ?d \<le> 0x7ff" by (simp add: word_less_nat_alt)
    then have "unat (sp_clock_divider p) = unat ?d"
      unfolding p(3) if_not_P [OF le] by (intro unat_ucast_down) simp
    with d ceiling_division [OF t0, of "unat reference_hz"] show ?thesis by simp
  qed
qed

end
