(* ===== verification/HidContract.thy ===== *)
theory HidContract
  imports SpiHid
begin

text \<open>
  The input-report contract of a HID report descriptor,
  \<^verbatim>\<open>drivers/apple-input/protocol/src/apple_hid_contract.c\<close>: the item loop of the parser and the check
  of a report against the contract, and a reference semantics of descriptors, over unbounded numbers
  and in two passes, that the parser is equivalent to.  The loop's offset is the rest of the
  descriptor still to read; the bounded stack of global states is a list, its top first.
\<close>

section \<open>Data\<close>

record ai_hid_global_state =
  hg_report_size :: u32
  hg_report_count :: u32
  hg_report_id :: u8

record ai_hid_input_contract =
  hc_valid :: bool
  hc_uses_report_ids :: bool
  hc_bytes_by_id :: "u16 list"

text \<open>The locals of the parser's loop.\<close>

record hid_parser =
  hp_globals :: ai_hid_global_state
  hp_stack :: "ai_hid_global_state list"
  hp_bits_by_id :: "u32 list"
  hp_uses_report_ids :: bool
  hp_report_count :: nat

section \<open>The parser\<close>

definition ai_hid_unsigned_value :: "u8 list \<Rightarrow> nat \<Rightarrow> u32" where
  "ai_hid_unsigned_value bytes n =
     fold (\<lambda>index value. value OR push_bit (index * 8) (ucast (bytes ! index))) [0..<n] 0"

definition hid_global_item :: "u8 \<Rightarrow> u32 \<Rightarrow> hid_parser \<Rightarrow> ai_status + hid_parser" where
  "hid_global_item tag value s =
     (if tag = 7 then Inr (s\<lparr> hp_globals := (hp_globals s)\<lparr> hg_report_size := value \<rparr> \<rparr>)
      else if tag = 8
      then (if value = 0 \<or> value \<ge> 256 then Inl AI_ERR_PROTOCOL
            else Inr (s\<lparr> hp_globals := (hp_globals s)\<lparr> hg_report_id := ucast value \<rparr>,
                         hp_uses_report_ids := True \<rparr>))
      else if tag = 9 then Inr (s\<lparr> hp_globals := (hp_globals s)\<lparr> hg_report_count := value \<rparr> \<rparr>)
      else if tag = 10
      then (if length (hp_stack s) = 4 then Inl AI_ERR_PROTOCOL
            else Inr (s\<lparr> hp_stack := hp_globals s # hp_stack s \<rparr>))
      else if tag = 11
      then (case hp_stack s of
              [] \<Rightarrow> Inl AI_ERR_PROTOCOL
            | g # st \<Rightarrow> Inr (s\<lparr> hp_globals := g, hp_stack := st \<rparr>))
      else Inr s)"

definition hid_input_item :: "hid_parser \<Rightarrow> ai_status + hid_parser" where
  "hid_input_item s =
     (let g = hp_globals s;
          maximum_bits = 0xffff * 8 :: u64
      in if hg_report_size g = 0 \<or> hg_report_count g = 0 then Inl AI_ERR_PROTOCOL
         else let contribution = ucast (hg_report_size g) * ucast (hg_report_count g);
                  total = ucast (hp_bits_by_id s ! unat (hg_report_id g)) + contribution
              in if contribution > maximum_bits \<or> total > maximum_bits then Inl AI_ERR_LENGTH
                 else Inr (s\<lparr> hp_bits_by_id := (hp_bits_by_id s)[unat (hg_report_id g) := ucast total],
                              hp_report_count := hp_report_count s + 1 \<rparr>))"

definition hid_item_size :: "u8 \<Rightarrow> nat" where
  "hid_item_size prefix = (let n = unat (prefix AND 0x03) in if n = 3 then 4 else n)"

function hid_items :: "hid_parser \<Rightarrow> u8 list \<Rightarrow> ai_status + hid_parser" where
  "hid_items s [] = Inr s"
| "hid_items s (prefix # rest) =
     (if prefix = 0xfe then Inl AI_ERR_PROTOCOL
      else if hid_item_size prefix > length rest then Inl AI_ERR_LENGTH
      else let item_size = hid_item_size prefix;
               item_type = drop_bit 2 prefix AND 0x03;
               item_tag = drop_bit 4 prefix;
               value = ai_hid_unsigned_value rest item_size
           in case (if item_type = 1 then hid_global_item item_tag value s
                    else if item_type = 0 \<and> item_tag = 8 then hid_input_item s
                    else Inr s) of
                Inl e \<Rightarrow> Inl e
              | Inr s1 \<Rightarrow> hid_items s1 (drop item_size rest))"
  by pat_completeness auto
termination by (relation "measure (\<lambda>(s, d). length d)") auto

declare hid_items.simps [simp del]

definition report_bytes :: "bool \<Rightarrow> u32 \<Rightarrow> u32" where
  "report_bytes uses_report_ids bits =
     (let bytes = (bits + 7) div 8 in if uses_report_ids then bytes + 1 else bytes)"

text \<open>The bytes of every report; it fails on the first report that is too long.\<close>

fun hid_sizes :: "bool \<Rightarrow> u32 list \<Rightarrow> (u16 list) option" where
  "hid_sizes uses [] = Some []"
| "hid_sizes uses (bits # rest) =
     (if bits = 0 then map_option ((#) 0) (hid_sizes uses rest)
      else if report_bytes uses bits > 0xffff then None
      else map_option ((#) (ucast (report_bytes uses bits))) (hid_sizes uses rest))"

definition contract_zero :: ai_hid_input_contract where
  "contract_zero = \<lparr> hc_valid = False, hc_uses_report_ids = False,
     hc_bytes_by_id = replicate 256 0 \<rparr>"

definition hid_parser_start :: hid_parser where
  "hid_parser_start = \<lparr> hp_globals = \<lparr> hg_report_size = 0, hg_report_count = 0, hg_report_id = 0 \<rparr>,
     hp_stack = [], hp_bits_by_id = replicate 256 0, hp_uses_report_ids = False,
     hp_report_count = 0 \<rparr>"

definition ai_hid_input_contract_parse ::
  "u8 list \<Rightarrow> ai_hid_input_contract \<Rightarrow> ai_status \<times> ai_hid_input_contract" where
  "ai_hid_input_contract_parse descriptor out =
     (if length descriptor = 0 then (AI_ERR_ARGUMENT, out)
      else case hid_items hid_parser_start descriptor of
             Inl e \<Rightarrow> (e, contract_zero)
           | Inr s \<Rightarrow>
               (if length (hp_stack s) \<noteq> 0 \<or> hp_report_count s = 0
                then (AI_ERR_PROTOCOL, contract_zero)
                else if hp_uses_report_ids s \<and> hp_bits_by_id s ! 0 \<noteq> 0
                then (AI_ERR_PROTOCOL, contract_zero)
                else case hid_sizes (hp_uses_report_ids s) (hp_bits_by_id s) of
                       None \<Rightarrow> (AI_ERR_LENGTH, contract_zero)
                     | Some bytes \<Rightarrow>
                         (AI_OK, \<lparr> hc_valid = True, hc_uses_report_ids = hp_uses_report_ids s,
                                   hc_bytes_by_id = bytes \<rparr>)))"

definition ai_hid_input_report_valid :: "ai_hid_input_contract \<Rightarrow> u8 list \<Rightarrow> u8 option" where
  "ai_hid_input_report_valid contract report =
     (if \<not> hc_valid contract \<or> length report = 0 then None
      else let rid = (if hc_uses_report_ids contract then report ! 0 else 0);
               bytes = hc_bytes_by_id contract ! unat rid
           in if bytes = 0 \<or> unat bytes \<noteq> length report then None else Some rid)"

section \<open>Reference semantics of descriptors\<close>

text \<open>A short item: its type, its tag and its value, a little-endian number.\<close>

datatype hid_item = Item nat nat nat

fun le_value :: "u8 list \<Rightarrow> nat" where
  "le_value [] = 0"
| "le_value (b # bs) = unat b + 256 * le_value bs"

text \<open>A descriptor as its items; long items are not supported.\<close>

function hid_tokens :: "u8 list \<Rightarrow> hid_item list option" where
  "hid_tokens [] = Some []"
| "hid_tokens (p # rest) =
     (if p = 0xfe \<or> length rest < hid_item_size p then None
      else map_option
             ((#) (Item (unat p div 4 mod 4) (unat p div 16) (le_value (take (hid_item_size p) rest))))
             (hid_tokens (drop (hid_item_size p) rest)))"
  by pat_completeness auto
termination by (relation "measure length") auto

declare hid_tokens.simps [simp del]

text \<open>What an item does to the report size, count and id in effect and to the stack of such triples,
  and the input field it declares, if any: the report the field belongs to and its size in bits.\<close>

type_synonym hid_env = "nat \<times> nat \<times> nat"

fun hid_item_step ::
  "hid_env \<Rightarrow> hid_env list \<Rightarrow> hid_item \<Rightarrow> ((nat \<times> nat) list \<times> hid_env \<times> hid_env list) option" where
  "hid_item_step (sz, count, rid) st (Item ty tag v) =
     (if ty = 1 \<and> tag = 7 then Some ([], (v, count, rid), st)
      else if ty = 1 \<and> tag = 8
      then (if v = 0 \<or> 256 \<le> v then None else Some ([], (sz, count, v), st))
      else if ty = 1 \<and> tag = 9 then Some ([], (sz, v, rid), st)
      else if ty = 1 \<and> tag = 10
      then (if length st = 4 then None else Some ([], (sz, count, rid), (sz, count, rid) # st))
      else if ty = 1 \<and> tag = 11
      then (case st of [] \<Rightarrow> None | g # st' \<Rightarrow> Some ([], g, st'))
      else if ty = 0 \<and> tag = 8
      then (if sz = 0 \<or> count = 0 then None
            else Some ([(rid, sz * count)], (sz, count, rid), st))
      else Some ([], (sz, count, rid), st))"

text \<open>The input fields of a list of items and the stack they leave.\<close>

fun hid_fields :: "hid_env \<Rightarrow> hid_env list \<Rightarrow> hid_item list \<Rightarrow> ((nat \<times> nat) list \<times> hid_env list) option" where
  "hid_fields g st [] = Some ([], st)"
| "hid_fields g st (item # items) =
     (case hid_item_step g st item of
        None \<Rightarrow> None
      | Some (f, g', st') \<Rightarrow> map_option (apfst ((@) f)) (hid_fields g' st' items))"

definition field_bits :: "(nat \<times> nat) list \<Rightarrow> nat \<Rightarrow> nat" where
  "field_bits fs rid = sum_list (map snd (filter (\<lambda>f. fst f = rid) fs))"

definition uses_ids :: "hid_item list \<Rightarrow> bool" where
  "uses_ids items = list_ex (\<lambda>it. case it of Item ty tag v \<Rightarrow> ty = 1 \<and> tag = 8) items"

definition report_length :: "bool \<Rightarrow> nat \<Rightarrow> nat" where
  "report_length ids bits = (if bits = 0 then 0 else (bits + 7) div 8 + (if ids then 1 else 0))"

section \<open>Values and items\<close>

lemma le_value_snoc: "le_value (xs @ [b]) = le_value xs + 256 ^ length xs * unat b"
  by (induction xs) (simp_all add: algebra_simps)

lemma le_value_less: "le_value xs < 256 ^ length xs"
proof (induction xs)
  case (Cons b bs)
  have "unat b < 256" using unsigned_less [of b, where 'a = nat] by simp
  then have "unat b + 256 * le_value bs < 256 * (le_value bs + 1)" by simp
  also have "\<dots> \<le> 256 * 256 ^ length bs" using Cons.IH by (intro mult_left_mono) simp_all
  finally show ?case by simp
qed simp

text \<open>Storing a byte above a value is adding it.\<close>

lemma unat_or_push:
  fixes v :: u32 and b :: u8
  assumes "unat v < 256 ^ n" and "n < 4"
  shows "unat (v OR push_bit (n * 8) (ucast b)) = unat v + 256 ^ n * unat b"
proof -
  have p: "256 ^ n = (2::nat) ^ (n * 8)" using power_mult [of "2::nat" 8 n] by (simp add: mult.commute)
  have b: "unat b < 256" using unsigned_less [of b, where 'a = nat] by simp
  have high: "(256::nat) ^ n * 256 \<le> 2 ^ 32"
    using power_increasing [of "n * 8 + 8" 32 "2::nat"] assms(2) by (simp add: p power_add)
  have pb: "unat (push_bit (n * 8) (ucast b :: u32)) = 256 ^ n * unat b"
  proof -
    have "256 ^ n * unat b < 256 ^ n * 256" using b by simp
    with high have "256 ^ n * unat b < 2 ^ 32" by linarith
    moreover have "unat (push_bit (n * 8) (ucast b :: u32)) = take_bit 32 (push_bit (n * 8) (unat b))"
      unfolding unsigned_push_bit_eq by (simp add: unat_ucast_up)
    ultimately show ?thesis by (simp add: push_bit_eq_mult take_bit_nat_eq_self p mult.commute)
  qed
  have "v AND push_bit (n * 8) (ucast b) = 0"
  proof (rule bit_word_eqI)
    fix k assume "k < LENGTH(32)"
    have "\<not> bit v k" if "n * 8 \<le> k"
    proof -
      have "unat v < 2 ^ k" using assms(1) that unfolding p
        by (meson less_le_trans one_le_numeral power_increasing)
      then have "\<not> bit (unat v) k" by (simp add: bit_iff_odd)
      then show ?thesis by (simp add: bit_unsigned_iff)
    qed
    then show "bit (v AND push_bit (n * 8) (ucast b)) k = bit 0 k" by (auto simp: bit_simps)
  qed
  then have "v OR push_bit (n * 8) (ucast b) = v + push_bit (n * 8) (ucast b)"
    by (simp add: disjunctive_add_eq_or)
  moreover have "unat v + 256 ^ n * unat b < 2 ^ 32"
  proof -
    have "256 ^ n * unat b + 256 ^ n \<le> 256 ^ n * 256" using b
      by (metis Suc_leI mult_Suc_right mult_le_mono2 add.commute)
    with assms(1) high show ?thesis by linarith
  qed
  ultimately show ?thesis using pb by (simp add: unat_add_no_wrap)
qed

lemma unat_hid_value:
  "n \<le> 4 \<Longrightarrow> n \<le> length bytes \<Longrightarrow> unat (ai_hid_unsigned_value bytes n) = le_value (take n bytes)"
proof (induction n)
  case (Suc n)
  have "unat (ai_hid_unsigned_value bytes n) = le_value (take n bytes)" using Suc by simp
  with Suc.prems le_value_less [of "take n bytes"] show ?case
    by (simp add: ai_hid_unsigned_value_def unat_or_push take_Suc_conv_app_nth le_value_snoc)
qed (simp add: ai_hid_unsigned_value_def)

lemma prefix_type: "unat (drop_bit 2 p AND 3) = unat (p :: u8) div 4 mod 4"
proof -
  have "drop_bit 2 p AND 3 = take_bit 2 (drop_bit 2 p)"
    by (simp add: take_bit_eq_mask mask_eq_exp_minus_1)
  then show ?thesis by (simp add: drop_bit_eq_div take_bit_eq_mod unat_div unat_mod)
qed

lemma prefix_tag: "unat (drop_bit 4 (p :: u8)) = unat p div 16"
  by (simp add: drop_bit_eq_div unat_div)

lemma item_size_le: "hid_item_size p \<le> 4"
proof -
  have "p AND 3 = take_bit 2 p" by (simp add: take_bit_eq_mask mask_eq_exp_minus_1)
  then have "unat (p AND 3) = unat p mod 4"
    by (simp only: unsigned_take_bit_eq) (simp add: take_bit_eq_mod)
  then have "unat (p AND 3) < 4" by simp
  then show ?thesis by (simp add: hid_item_size_def Let_def)
qed

lemma field_bits_simps [simp]:
  "field_bits [] i = 0"
  "field_bits ((r, b) # fs) i = (if r = i then b else 0) + field_bits fs i"
  "field_bits (fs @ gs) i = field_bits fs i + field_bits gs i"
  by (simp_all add: field_bits_def)

section \<open>The parser against the reference\<close>

abbreviation env_of :: "ai_hid_global_state \<Rightarrow> hid_env" where
  "env_of g \<equiv> (unat (hg_report_size g), unat (hg_report_count g), unat (hg_report_id g))"

abbreviation max_bits :: nat where
  "max_bits \<equiv> 524280"

text \<open>The bits of all reports are within the bound.\<close>

definition hp_wf :: "hid_parser \<Rightarrow> bool" where
  "hp_wf s \<longleftrightarrow> length (hp_bits_by_id s) = 256 \<and> (\<forall>i<256. unat (hp_bits_by_id s ! i) \<le> max_bits)"

text \<open>The parser has gone on from \<open>s\<close> with the fields \<open>fs\<close> to the stack \<open>st\<close>.\<close>

definition advanced :: "hid_parser \<Rightarrow> (nat \<times> nat) list \<Rightarrow> hid_env list \<Rightarrow> bool \<Rightarrow> hid_parser \<Rightarrow> bool" where
  "advanced s fs st ids t \<longleftrightarrow>
     hp_wf t \<and> map env_of (hp_stack t) = st \<and>
     (hp_uses_report_ids t \<longleftrightarrow> hp_uses_report_ids s \<or> ids) \<and>
     hp_report_count t = hp_report_count s + length fs \<and>
     (\<forall>i<256. unat (hp_bits_by_id t ! i) = unat (hp_bits_by_id s ! i) + field_bits fs i)"

definition fits :: "hid_parser \<Rightarrow> (nat \<times> nat) list \<Rightarrow> bool" where
  "fits s fs \<longleftrightarrow> (\<forall>i<256. unat (hp_bits_by_id s ! i) + field_bits fs i \<le> max_bits)"

lemma advanced_trans:
  "advanced s fs st ids t \<Longrightarrow> advanced t gs st' ids' u \<Longrightarrow> advanced s (fs @ gs) st' (ids \<or> ids') u"
  by (auto simp: advanced_def)

lemma fits_step: "advanced s fs st ids t \<Longrightarrow> fits s (fs @ gs) \<longleftrightarrow> fits t gs"
  by (simp add: advanced_def fits_def add.assoc)

lemma fits_prefix: "fits s (fs @ gs) \<Longrightarrow> fits s fs"
  unfolding fits_def field_bits_simps by (meson add_leD1 le_trans add_le_mono le_refl le_add1)

lemma advanced_same:
  "hp_wf s \<Longrightarrow> hp_bits_by_id t = hp_bits_by_id s \<Longrightarrow> hp_report_count t = hp_report_count s \<Longrightarrow>
   (hp_uses_report_ids t \<longleftrightarrow> hp_uses_report_ids s \<or> ids) \<Longrightarrow> map env_of (hp_stack t) = st \<Longrightarrow>
   advanced s [] st ids t"
  by (simp add: advanced_def hp_wf_def)

lemma unat_mult_u32: "unat (ucast (a :: u32) * ucast (b :: u32) :: u64) = unat a * unat b"
proof -
  have lt: "unat x < 2 ^ 32" for x :: u32 using unsigned_less [of x, where 'a = nat] by simp
  have "unat a * unat b < 2 ^ 32 * 2 ^ 32" using lt [of a] lt [of b] by (intro mult_strict_mono) auto
  then have "unat (ucast a :: u64) * unat (ucast b :: u64) < 2 ^ LENGTH(64)" by (simp add: unat_ucast_up)
  then show ?thesis by (simp add: unat_mult_lem [THEN iffD1] unat_ucast_up)
qed

lemma global_item_step:
  assumes "hp_wf s"
  shows "case hid_item_step (env_of (hp_globals s)) (map env_of (hp_stack s)) (Item 1 (unat tag) (unat v)) of
      None \<Rightarrow> isl (hid_global_item tag v s)
    | Some (f, g, st) \<Rightarrow> f = [] \<and> (\<exists>t. hid_global_item tag v s = Inr t \<and> env_of (hp_globals t) = g \<and>
        advanced s [] st (tag = 8) t)"
proof -
  have tags: "unat tag = n \<longleftrightarrow> tag = of_nat n" if "n < 256" for n
    using that by (auto simp: word_unat_eq_iff unat_of_nat)
  have v8: "v < 256 \<Longrightarrow> unat (ucast v :: u8) = unat v"
    by (simp add: word_less_nat_alt unsigned_ucast_eq take_bit_nat_eq_self)
  consider "tag = 7" | "tag = 8" | "tag = 9" | "tag = 10" | "tag = 11" "hp_stack s = []"
    | g st where "tag = 11" "hp_stack s = g # st"
    | "tag \<noteq> 7" "tag \<noteq> 8" "tag \<noteq> 9" "tag \<noteq> 10" "tag \<noteq> 11"
    by (cases "hp_stack s") auto
  then show ?thesis
    by cases (use assms v8 in \<open>auto simp: hid_global_item_def tags advanced_same unat_eq_0
        word_le_nat_alt word_less_nat_alt split: if_splits\<close>)
qed

lemma input_item_step:
  assumes wf: "hp_wf s"
  shows "case hid_item_step (env_of (hp_globals s)) (map env_of (hp_stack s)) (Item 0 8 v) of
      None \<Rightarrow> isl (hid_input_item s)
    | Some (f, g, st) \<Rightarrow>
        if fits s f
        then \<exists>t. hid_input_item s = Inr t \<and> env_of (hp_globals t) = g \<and> advanced s f st False t
        else isl (hid_input_item s)"
proof (cases "hg_report_size (hp_globals s) = 0 \<or> hg_report_count (hp_globals s) = 0")
  case True
  then show ?thesis by (auto simp: hid_input_item_def Let_def)
next
  case False
  let ?g = "hp_globals s"
  let ?r = "unat (hg_report_id ?g)"
  let ?c = "unat (hg_report_size ?g) * unat (hg_report_count ?g)"
  let ?cw = "ucast (hg_report_size ?g) * ucast (hg_report_count ?g) :: u64"
  let ?old = "hp_bits_by_id s ! ?r"
  let ?tw = "ucast ?old + ?cw"
  have r: "?r < 256" using unsigned_less [of "hg_report_id ?g", where 'a = nat] by simp
  have old: "unat ?old \<le> max_bits" using wf r by (simp add: hp_wf_def)
  have len: "length (hp_bits_by_id s) = 256" using wf by (simp add: hp_wf_def)
  have big: "\<not> (?cw > 0xffff * 8 \<or> ?tw > 0xffff * 8) \<longleftrightarrow> unat ?old + ?c \<le> max_bits"
  proof (cases "?c \<le> max_bits")
    case True
    then have "unat ?tw = unat ?old + ?c"
      using old by (subst unat_add_no_wrap) (simp_all add: unat_mult_u32 unat_ucast_up)
    with True show ?thesis by (simp add: word_less_nat_alt unat_mult_u32 not_less)
  next
    case False
    then show ?thesis by (simp add: word_less_nat_alt unat_mult_u32)
  qed
  have fit: "fits s [(?r, ?c)] \<longleftrightarrow> unat ?old + ?c \<le> max_bits"
    using wf r by (auto simp: fits_def hp_wf_def)
  have eq: "hid_input_item s = (if ?cw > 0xffff * 8 \<or> ?tw > 0xffff * 8 then Inl AI_ERR_LENGTH
      else Inr (s\<lparr> hp_bits_by_id := (hp_bits_by_id s)[?r := ucast ?tw],
                   hp_report_count := hp_report_count s + 1 \<rparr>))"
    using False by (simp add: hid_input_item_def Let_def)
  show ?thesis
  proof (cases "unat ?old + ?c \<le> max_bits")
    case True
    then have "unat ?tw = unat ?old + ?c"
      using old by (subst unat_add_no_wrap) (simp_all add: unat_mult_u32 unat_ucast_up)
    with True have t: "unat (ucast ?tw :: u32) = unat ?old + ?c"
      by (simp add: unsigned_ucast_eq take_bit_nat_eq_self)
    have "advanced s [(?r, ?c)] (map env_of (hp_stack s)) False
        (s\<lparr> hp_bits_by_id := (hp_bits_by_id s)[?r := ucast ?tw],
           hp_report_count := hp_report_count s + 1 \<rparr>)"
      using wf True t len r by (auto simp: advanced_def hp_wf_def nth_list_update)
    with True big fit False show ?thesis by (simp add: eq unat_eq_0)
  next
    case nf: False
    with big fit False show ?thesis by (simp add: eq unat_eq_0)
  qed
qed

declare hid_item_step.simps [simp del]

text \<open>One item, whatever it is.\<close>

definition code_item :: "u8 \<Rightarrow> u8 \<Rightarrow> u32 \<Rightarrow> hid_parser \<Rightarrow> ai_status + hid_parser" where
  "code_item item_type item_tag value s =
     (if item_type = 1 then hid_global_item item_tag value s
      else if item_type = 0 \<and> item_tag = 8 then hid_input_item s
      else Inr s)"

lemma item_step:
  assumes wf: "hp_wf s"
  shows "case hid_item_step (env_of (hp_globals s)) (map env_of (hp_stack s)) (Item (unat ty) (unat tag) (unat v)) of
      None \<Rightarrow> isl (code_item ty tag v s)
    | Some (f, g, st) \<Rightarrow>
        if fits s f
        then \<exists>t. code_item ty tag v s = Inr t \<and> env_of (hp_globals t) = g \<and>
                 advanced s f st (unat ty = 1 \<and> unat tag = 8) t
        else isl (code_item ty tag v s)"
proof -
  have nums: "unat ty = 1 \<longleftrightarrow> ty = 1" "unat ty = 0 \<longleftrightarrow> ty = 0" "unat tag = 8 \<longleftrightarrow> tag = 8"
    by (auto simp: word_unat_eq_iff)
  have f0: "fits s []" using wf by (simp add: fits_def hp_wf_def)
  consider "ty = 1" | "ty = 0" "tag = 8" | "ty \<noteq> 1" "\<not> (ty = 0 \<and> tag = 8)" by blast
  then show ?thesis
  proof cases
    case 1
    with global_item_step [OF wf, of tag v] f0 show ?thesis
      by (auto simp: code_item_def nums split: option.splits)
  next
    case 2
    with input_item_step [OF wf, of "unat v"] show ?thesis
      by (auto simp: code_item_def split: option.splits)
  next
    case 3
    then have "unat ty \<noteq> Suc 0" "unat ty = 0 \<longrightarrow> unat tag \<noteq> 8" using nums by auto
    then have "hid_item_step (env_of (hp_globals s)) (map env_of (hp_stack s))
        (Item (unat ty) (unat tag) (unat v)) = Some ([], env_of (hp_globals s), map env_of (hp_stack s))"
      using nums by (simp add: hid_item_step.simps)
    moreover have "\<not> (unat ty = 1 \<and> unat tag = 8)" using 3 nums by simp
    moreover have "code_item ty tag v s = Inr s" using 3 by (auto simp: code_item_def)
    ultimately show ?thesis using f0 advanced_same [OF wf, of s False] by (simp only:) simp
  qed
qed

lemma hid_items_Cons:
  "hid_items s (prefix # rest) =
     (if prefix = 0xfe then Inl AI_ERR_PROTOCOL
      else if hid_item_size prefix > length rest then Inl AI_ERR_LENGTH
      else case code_item (drop_bit 2 prefix AND 3) (drop_bit 4 prefix)
                  (ai_hid_unsigned_value rest (hid_item_size prefix)) s of
             Inl e \<Rightarrow> Inl e
           | Inr s1 \<Rightarrow> hid_items s1 (drop (hid_item_size prefix) rest))"
  by (subst hid_items.simps) (simp add: Let_def code_item_def)

text \<open>The parser's loop agrees with the reference.\<close>

definition items_agree :: "hid_parser \<Rightarrow> u8 list \<Rightarrow> bool" where
  "items_agree s d \<longleftrightarrow>
     (case hid_tokens d of
        None \<Rightarrow> isl (hid_items s d)
      | Some items \<Rightarrow>
          (case hid_fields (env_of (hp_globals s)) (map env_of (hp_stack s)) items of
             None \<Rightarrow> isl (hid_items s d)
           | Some (fs, st) \<Rightarrow>
               if fits s fs then \<exists>t. hid_items s d = Inr t \<and> advanced s fs st (uses_ids items) t
               else isl (hid_items s d)))"

lemma uses_ids_Cons [simp]:
  "uses_ids (Item ty tag v # items) \<longleftrightarrow> (ty = 1 \<and> tag = 8) \<or> uses_ids items"
  by (simp add: uses_ids_def)

text \<open>An item that is accepted hands over to the rest; a refused one refuses the whole.\<close>

lemma items_agree_Cons:
  assumes ok: "p \<noteq> 0xfe" "\<not> length rest < hid_item_size p" and wf: "hp_wf s"
    and IH: "\<And>t. hp_wf t \<Longrightarrow> items_agree t (drop (hid_item_size p) rest)"
  shows "items_agree s (p # rest)"
proof -
  let ?n = "hid_item_size p"
  let ?it = "Item (unat p div 4 mod 4) (unat p div 16) (le_value (take ?n rest))"
  let ?c = "code_item (drop_bit 2 p AND 3) (drop_bit 4 p) (ai_hid_unsigned_value rest ?n) s"
  let ?step = "hid_item_step (env_of (hp_globals s)) (map env_of (hp_stack s)) ?it"
  have toks: "hid_tokens (p # rest) = map_option ((#) ?it) (hid_tokens (drop ?n rest))"
    using ok by (simp add: hid_tokens.simps)
  have its: "hid_items s (p # rest) =
      (case ?c of Inl e \<Rightarrow> Inl e | Inr s1 \<Rightarrow> hid_items s1 (drop ?n rest))"
    using ok by (simp add: hid_items_Cons)
  have v: "unat (ai_hid_unsigned_value rest ?n) = le_value (take ?n rest)"
    using ok item_size_le by (intro unat_hid_value) auto
  note st = item_step [OF wf, of "drop_bit 2 p AND 3" "drop_bit 4 p"
      "ai_hid_unsigned_value rest ?n", unfolded prefix_type prefix_tag v]
  show ?thesis
  proof (cases ?step)
    case None
    with st have "isl (hid_items s (p # rest))" by (auto simp: its split: sum.split)
    with None show ?thesis by (simp add: items_agree_def toks split: option.split)
  next
    case (Some r)
    obtain f g st' where r: "r = (f, g, st')" by (rule prod_cases3)
    show ?thesis
    proof (cases "fits s f")
      case False
      with st Some r have "isl (hid_items s (p # rest))" by (auto simp: its split: sum.split)
      with Some r False show ?thesis
        by (auto simp: items_agree_def toks split: option.split dest: fits_prefix)
    next
      case True
      with st Some r obtain t where t: "?c = Inr t" "env_of (hp_globals t) = g"
        "advanced s f st' (unat p div 4 mod 4 = 1 \<and> unat p div 16 = 8) t" by auto
      have a: "hp_wf t" "map env_of (hp_stack t) = st'" using t(3) by (auto simp: advanced_def)
      have e: "hid_items s (p # rest) = hid_items t (drop ?n rest)" by (simp add: its t(1))
      show ?thesis
      proof (cases "hid_tokens (drop ?n rest)")
        case None
        with IH [OF a(1)] show ?thesis by (simp add: items_agree_def toks e)
      next
        case its': (Some items)
        show ?thesis
        proof (cases "hid_fields g st' items")
          case None
          with IH [OF a(1)] its' Some r show ?thesis by (simp add: items_agree_def toks e t(2) a(2))
        next
          case fs: (Some fs)
          obtain gs st2 where "fs = (gs, st2)" by (cases fs)
          with fs IH [OF a(1)] its' Some r show ?thesis
            by (auto simp: items_agree_def toks e t(2) a(2) fits_step [OF t(3)] split: if_splits
                dest: advanced_trans [OF t(3)])
        qed
      qed
    qed
  qed
qed

lemma items_agree_all: "hp_wf s \<Longrightarrow> items_agree s d"
proof (induction "length d" arbitrary: s d rule: less_induct)
  case less
  show ?case
  proof (cases d)
    case Nil
    with less.prems show ?thesis
      by (auto simp: items_agree_def hid_items.simps hid_tokens.simps fits_def hp_wf_def uses_ids_def
          intro: advanced_same)
  next
    case (Cons p rest)
    show ?thesis
    proof (cases "p = 0xfe \<or> length rest < hid_item_size p")
      case True
      with Cons show ?thesis by (auto simp: items_agree_def hid_items_Cons hid_tokens.simps)
    next
      case False
      then show ?thesis
        unfolding Cons using less.prems
        by (intro items_agree_Cons less.hyps) (auto simp: Cons)
    qed
  qed
qed

section \<open>The contract\<close>

text \<open>The contract of a descriptor by the reference: every declaration is complete, the states pushed
  are popped, there is an input field, fields belong to a numbered report when ids are used, and
  every report is at most 65535 bytes long.\<close>

definition hid_contract :: "u8 list \<Rightarrow> ai_hid_input_contract option" where
  "hid_contract d =
     (case hid_tokens d of
        None \<Rightarrow> None
      | Some items \<Rightarrow>
          (case hid_fields (0, 0, 0) [] items of
             None \<Rightarrow> None
           | Some (fs, st) \<Rightarrow>
               let len = (\<lambda>i. report_length (uses_ids items) (field_bits fs i))
               in if st = [] \<and> fs \<noteq> [] \<and> \<not> (uses_ids items \<and> field_bits fs 0 \<noteq> 0) \<and>
                     list_all (\<lambda>i. len i \<le> 65535) [0..<256]
                  then Some \<lparr> hc_valid = True, hc_uses_report_ids = uses_ids items,
                              hc_bytes_by_id = map (\<lambda>i. of_nat (len i)) [0..<256] \<rparr>
                  else None))"

lemma unat_report_bytes:
  assumes "unat bits \<le> max_bits" and "bits \<noteq> 0"
  shows "unat (report_bytes uses bits) = report_length uses (unat bits)"
proof -
  have "unat (bits + 7) = unat bits + 7" using assms(1) by (subst unat_add_no_wrap) simp_all
  then have d: "unat ((bits + 7) div 8) = (unat bits + 7) div 8" by (simp add: unat_div)
  have "(unat bits + 7) div 8 \<le> (max_bits + 7) div 8" using assms(1) by (intro div_le_mono) simp
  then have "unat ((bits + 7) div 8 + 1) = (unat bits + 7) div 8 + 1"
    using d by (subst unat_add_no_wrap) simp_all
  with d assms(2) show ?thesis by (simp add: report_bytes_def report_length_def Let_def unat_eq_0)
qed

lemma hid_sizes_exact:
  assumes "\<forall>b\<in>set bits. unat b \<le> max_bits"
  shows "hid_sizes uses bits =
    (if \<forall>b\<in>set bits. report_length uses (unat b) \<le> 65535
     then Some (map (\<lambda>b. of_nat (report_length uses (unat b))) bits) else None)"
  using assms
proof (induction bits)
  case (Cons b bits)
  show ?case
  proof (cases "b = 0")
    case True
    with Cons show ?thesis by (simp add: report_length_def)
  next
    case False
    have u: "unat (report_bytes uses b) = report_length uses (unat b)"
      using Cons.prems False by (intro unat_report_bytes) simp_all
    then have "(ucast (report_bytes uses b) :: u16) = of_nat (report_length uses (unat b))"
      by (metis of_nat_unat)
    with u False Cons show ?thesis by (simp add: word_less_nat_alt not_less)
  qed
qed simp

lemma report_length_bits: "report_length ids bits \<le> 65535 \<Longrightarrow> bits \<le> max_bits"
  by (auto simp: report_length_def split: if_splits)

lemma contract_of_parser:
  assumes "advanced hid_parser_start fs st ids t"
  shows "hp_bits_by_id t = map (\<lambda>i. of_nat (field_bits fs i)) [0..<256]"
    and "i < 256 \<Longrightarrow> unat (hp_bits_by_id t ! i) = field_bits fs i"
proof -
  have l: "length (hp_bits_by_id t) = 256"
    and n: "\<And>i. i < 256 \<Longrightarrow> unat (hp_bits_by_id t ! i) = field_bits fs i"
    using assms by (auto simp: advanced_def hp_wf_def hid_parser_start_def)
  show "hp_bits_by_id t = map (\<lambda>i. of_nat (field_bits fs i)) [0..<256]"
    by (rule nth_equalityI) (use l n in \<open>auto simp: n [symmetric]\<close>)
  show "unat (hp_bits_by_id t ! i) = field_bits fs i" if "i < 256" using n that by blast
qed

lemma code_item_error: "code_item ty tag v s = Inl e \<Longrightarrow> e \<noteq> AI_OK"
  by (auto simp: code_item_def hid_global_item_def hid_input_item_def Let_def split: if_splits list.splits)

lemma hid_items_error: "hid_items s d = Inl e \<Longrightarrow> e \<noteq> AI_OK"
proof (induction "length d" arbitrary: s d rule: less_induct)
  case less
  show ?case
  proof (cases d)
    case (Cons p rest)
    show ?thesis
    proof (cases "p = 0xfe \<or> length rest < hid_item_size p")
      case True
      with less.prems Cons show ?thesis by (auto simp: hid_items_Cons split: if_splits)
    next
      case False
      have "hid_items s1 (drop (hid_item_size p) rest) = Inl e \<Longrightarrow> e \<noteq> AI_OK" for s1
        by (rule less.hyps) (simp_all add: Cons)
      with less.prems Cons False show ?thesis
        by (simp add: hid_items_Cons split: sum.splits) (metis code_item_error)
    qed
  qed (use less.prems in \<open>simp add: hid_items.simps\<close>)
qed

lemma fits_start:
  "\<forall>i<256. report_length ids (field_bits fs i) \<le> 65535 \<Longrightarrow> fits hid_parser_start fs"
  by (auto simp: fits_def hid_parser_start_def intro: report_length_bits)

lemma items_agree_start:
  "case hid_tokens d of
     None \<Rightarrow> isl (hid_items hid_parser_start d)
   | Some items \<Rightarrow>
       (case hid_fields (0, 0, 0) [] items of
          None \<Rightarrow> isl (hid_items hid_parser_start d)
        | Some (fs, st) \<Rightarrow>
            if fits hid_parser_start fs
            then \<exists>t. hid_items hid_parser_start d = Inr t \<and> advanced hid_parser_start fs st (uses_ids items) t
            else isl (hid_items hid_parser_start d))"
proof -
  have "hp_wf hid_parser_start" "env_of (hp_globals hid_parser_start) = (0, 0, 0)"
    "hp_stack hid_parser_start = []"
    by (simp_all add: hp_wf_def hid_parser_start_def)
  then show ?thesis using items_agree_all [of hid_parser_start d] unfolding items_agree_def
    by (simp only: list.map)
qed

text \<open>The end of the parse, once the loop has succeeded.\<close>

lemma parse_accepted:
  assumes t: "hid_items hid_parser_start d = Inr t" and a: "advanced hid_parser_start fs st ids t"
    and d: "d \<noteq> []"
  shows "ai_hid_input_contract_parse d out = (AI_OK, c) \<longleftrightarrow>
    st = [] \<and> fs \<noteq> [] \<and> \<not> (ids \<and> field_bits fs 0 \<noteq> 0) \<and>
    (\<forall>i<256. report_length ids (field_bits fs i) \<le> 65535) \<and>
    c = \<lparr> hc_valid = True, hc_uses_report_ids = ids,
          hc_bytes_by_id = map (\<lambda>i. of_nat (report_length ids (field_bits fs i))) [0..<256] \<rparr>"
proof -
  let ?bits = "hp_bits_by_id t"
  have u: "unat (?bits ! i) = field_bits fs i" if "i < 256" for i
    by (rule contract_of_parser(2) [OF a that])
  have len: "length ?bits = 256" and le: "\<forall>i<256. unat (?bits ! i) \<le> max_bits"
    and st: "length (hp_stack t) = length st" and ids: "hp_uses_report_ids t = ids"
    and n: "hp_report_count t = length fs"
    using a by (auto simp: advanced_def hp_wf_def hid_parser_start_def)
  have m: "map (\<lambda>b. of_nat (report_length ids (unat b))) ?bits =
      (map (\<lambda>i. of_nat (report_length ids (field_bits fs i))) [0..<256] :: u16 list)"
    by (rule nth_equalityI) (simp_all add: len u)
  have all: "(\<forall>b\<in>set ?bits. report_length ids (unat b) \<le> 65535) \<longleftrightarrow>
      (\<forall>i<256. report_length ids (field_bits fs i) \<le> 65535)"
    using len u by (simp add: all_set_conv_all_nth)
  have sizes: "hid_sizes ids ?bits =
      (if \<forall>i<256. report_length ids (field_bits fs i) \<le> 65535
       then Some (map (\<lambda>i. of_nat (report_length ids (field_bits fs i))) [0..<256]) else None)"
    using hid_sizes_exact [of ?bits ids] len le unfolding all m by (simp add: all_set_conv_all_nth)
  have zero: "?bits ! 0 \<noteq> 0 \<longleftrightarrow> field_bits fs 0 \<noteq> 0" using u [of 0] by (simp add: unat_eq_0 flip: u)
  show ?thesis
    using d st n unfolding ai_hid_input_contract_parse_def t sum.case ids sizes zero
    by (auto split: if_splits)
qed

text \<open>C8. The parser computes exactly the contract of the reference semantics: over every byte string it
  succeeds if and only if the reference accepts it, and then with the same contract.  Its fixed-width
  arithmetic, bounded stack and single pass never change the outcome, and its loop always ends.\<close>

theorem hid_contract_equivalent:
  "ai_hid_input_contract_parse d out = (AI_OK, c) \<longleftrightarrow> hid_contract d = Some c"
proof (cases "d = []")
  case True
  then show ?thesis by (simp add: ai_hid_input_contract_parse_def hid_contract_def hid_tokens.simps Let_def)
next
  case ne: False
  show ?thesis
  proof (cases "hid_items hid_parser_start d")
    case (Inl e)
    with items_agree_start [of d] have "hid_contract d = None"
      using fits_start
      by (fastforce simp: hid_contract_def Let_def list_all_iff split: option.splits if_splits)
    with Inl ne show ?thesis by (auto simp: ai_hid_input_contract_parse_def dest: hid_items_error)
  next
    case (Inr t)
    with items_agree_start [of d] obtain items fs st where
      s: "hid_tokens d = Some items" "hid_fields (0, 0, 0) [] items = Some (fs, st)"
      "advanced hid_parser_start fs st (uses_ids items) t"
      by (auto split: option.splits if_splits)
    show ?thesis
      unfolding parse_accepted [OF Inr s(3) ne] hid_contract_def
      by (auto simp: s Let_def list_all_iff)
  qed
qed

text \<open>A report is accepted exactly when the contract knows its id and its length.\<close>

lemma report_valid_exact:
  assumes "hid_contract d = Some c"
  shows "ai_hid_input_report_valid c report = Some i \<longleftrightarrow>
    report \<noteq> [] \<and> i = (if hc_uses_report_ids c then report ! 0 else 0) \<and>
    unat (hc_bytes_by_id c ! unat i) = length report"
proof -
  have "hc_valid c"
    using assms by (auto simp: hid_contract_def Let_def split: option.splits if_splits)
  then show ?thesis by (auto simp: ai_hid_input_report_valid_def Let_def split: if_splits)
qed

end
