(* ===== verification/Assignment.thy ===== *)
theory Assignment
  imports Prelude "HOL-Library.While_Combinator"
begin

text \<open>
  The rectangular assignment of \<^verbatim>\<open>drivers/apple-input/protocol/src/apple_trackpad_frame.c\<close>
  (\<^verbatim>\<open>coordinate_cost\<close> and \<^verbatim>\<open>minimum_assignment\<close>) that matches the contacts of two frames.  The
  fixed work arrays are lists of twelve entries, entry 0 of the column arrays being the row that is
  looking for a column; \<^verbatim>\<open>uint8_t\<close> indices are natural numbers and the 64-bit costs integers, which
  the bounds proved here justify: every intermediate value stays far below 2 to the 63.  A
  \<^verbatim>\<open>do\<close> loop is one execution of its body followed by \<open>while_option\<close>, so a loop that did not end
  would be \<open>None\<close>.
\<close>

section \<open>Data\<close>

record ai_apple_trackpad_contact =
  ac_x :: int
  ac_y :: int

record ai_apple_trackpad_frame =
  af_button :: bool
  af_count :: nat
  af_contacts :: "ai_apple_trackpad_contact list"

record ai_trackpad_physical_slot =
  ps_active :: bool
  ps_admitted :: bool
  ps_windows_id :: nat
  ps_x :: int
  ps_y :: int

text \<open>The locals of the row loop.\<close>

record hungarian =
  hu_u :: "int list"
  hu_v :: "int list"
  hu_minv :: "int list"
  hu_p :: "nat list"
  hu_way :: "nat list"
  hu_used :: "bool list"
  hu_j0 :: nat

section \<open>Cost\<close>

definition cost_max :: int where
  "cost_max = 0x00ffffffffffffff"

definition coordinate_cost :: "ai_trackpad_physical_slot \<Rightarrow> ai_apple_trackpad_contact \<Rightarrow> int" where
  "coordinate_cost slot contact =
     (let dx = ps_x slot - ac_x contact;
          dy = ps_y slot - ac_y contact;
          ax = (if dx < 0 then - dx else dx);
          ay = (if dy < 0 then - dy else dy);
          x2 = (ax * ax) mod 2 ^ 64;
          y2 = (ay * ay) mod 2 ^ 64
      in if x2 > cost_max \<or> y2 > cost_max - x2 then cost_max else x2 + y2)"

section \<open>One row\<close>

text \<open>One iteration over column \<open>j\<close> of the scan of row \<open>i0\<close> from column \<open>j0\<close>; the scan carries the
  smallest slack \<open>delta\<close> and its column \<open>j1\<close>.\<close>

definition relax ::
  "int list list \<Rightarrow> nat \<Rightarrow> nat \<Rightarrow> nat \<Rightarrow> hungarian \<times> int \<times> nat \<Rightarrow> hungarian \<times> int \<times> nat" where
  "relax cost i0 j0 j s =
     (case s of (h, delta, j1) \<Rightarrow>
        if hu_used h ! j then (h, delta, j1)
        else let current = cost ! (i0 - 1) ! (j - 1) - hu_u h ! i0 - hu_v h ! j;
                 h = (if current < hu_minv h ! j
                      then h\<lparr> hu_minv := (hu_minv h)[j := current], hu_way := (hu_way h)[j := j0] \<rparr>
                      else h)
             in if hu_minv h ! j < delta \<or> (hu_minv h ! j = delta \<and> j1 = 0)
                then (h, hu_minv h ! j, j)
                else (h, delta, j1))"

text \<open>Moving the potentials by \<open>delta\<close> at column \<open>j\<close>.\<close>

definition adjust :: "int \<Rightarrow> nat \<Rightarrow> hungarian \<Rightarrow> hungarian" where
  "adjust delta j h =
     (if hu_used h ! j
      then h\<lparr> hu_u := (hu_u h)[hu_p h ! j := hu_u h ! (hu_p h ! j) + delta],
              hu_v := (hu_v h)[j := hu_v h ! j - delta] \<rparr>
      else h\<lparr> hu_minv := (hu_minv h)[j := hu_minv h ! j - delta] \<rparr>)"

definition search_body :: "int list list \<Rightarrow> nat \<Rightarrow> hungarian \<Rightarrow> hungarian" where
  "search_body cost columns h =
     (let h = h\<lparr> hu_used := (hu_used h)[hu_j0 h := True] \<rparr>;
          i0 = hu_p h ! hu_j0 h;
          (h, delta, j1) = fold (relax cost i0 (hu_j0 h)) [1..<columns + 1] (h, cost_max, 0);
          h = fold (adjust delta) [0..<columns + 1] h
      in h\<lparr> hu_j0 := j1 \<rparr>)"

definition search :: "int list list \<Rightarrow> nat \<Rightarrow> hungarian \<Rightarrow> hungarian option" where
  "search cost columns h =
     while_option (\<lambda>h. hu_p h ! hu_j0 h \<noteq> 0) (search_body cost columns) (search_body cost columns h)"

definition augment_body :: "hungarian \<Rightarrow> hungarian" where
  "augment_body h =
     (let j1 = hu_way h ! hu_j0 h
      in h\<lparr> hu_p := (hu_p h)[hu_j0 h := hu_p h ! j1], hu_j0 := j1 \<rparr>)"

definition augment :: "hungarian \<Rightarrow> hungarian option" where
  "augment h = while_option (\<lambda>h. hu_j0 h \<noteq> 0) augment_body (augment_body h)"

definition reset_columns :: "nat \<Rightarrow> hungarian \<Rightarrow> hungarian" where
  "reset_columns columns h =
     fold (\<lambda>j h. h\<lparr> hu_minv := (hu_minv h)[j := cost_max], hu_used := (hu_used h)[j := False] \<rparr>)
       [0..<columns + 1] h"

definition assign_row :: "int list list \<Rightarrow> nat \<Rightarrow> nat \<Rightarrow> hungarian \<Rightarrow> hungarian option" where
  "assign_row cost columns i h =
     (let h = reset_columns columns (h\<lparr> hu_j0 := 0, hu_p := (hu_p h)[0 := i] \<rparr>)
      in case search cost columns h of None \<Rightarrow> None | Some h \<Rightarrow> augment h)"

fun assign_rows :: "int list list \<Rightarrow> nat \<Rightarrow> nat list \<Rightarrow> hungarian \<Rightarrow> hungarian option" where
  "assign_rows cost columns [] h = Some h"
| "assign_rows cost columns (i # is) h =
     (case assign_row cost columns i h of
        None \<Rightarrow> None
      | Some h \<Rightarrow> assign_rows cost columns is h)"

section \<open>The assignment\<close>

definition hungarian_start :: hungarian where
  "hungarian_start = \<lparr> hu_u = replicate 12 0, hu_v = replicate 12 0, hu_minv = replicate 12 0,
     hu_p = replicate 12 0, hu_way = replicate 12 0, hu_used = replicate 12 False, hu_j0 = 0 \<rparr>"

definition cost_matrix ::
  "ai_trackpad_physical_slot list \<Rightarrow> ai_apple_trackpad_contact list \<Rightarrow> nat list \<Rightarrow> bool
   \<Rightarrow> nat \<Rightarrow> nat \<Rightarrow> int list list" where
  "cost_matrix slots contacts old_slots rows_are_old rows columns =
     map (\<lambda>i. map (\<lambda>j.
            let old_index = (if rows_are_old then i else j);
                new_index = (if rows_are_old then j else i)
            in coordinate_cost (slots ! (old_slots ! old_index)) (contacts ! new_index))
          [0..<columns]) [0..<rows]"

text \<open>The pairs of column \<open>j\<close> written to the two result arrays.\<close>

definition write_pair :: "bool \<Rightarrow> nat list \<Rightarrow> nat \<Rightarrow> int list \<times> int list \<Rightarrow> int list \<times> int list" where
  "write_pair rows_are_old p j r =
     (case r of (old_to_new, new_to_old) \<Rightarrow>
        if p ! j = 0 then r
        else let row = p ! j - 1;
                 old_index = (if rows_are_old then row else j - 1);
                 new_index = (if rows_are_old then j - 1 else row)
             in (old_to_new[old_index := int new_index], new_to_old[new_index := int old_index]))"

definition minimum_assignment ::
  "ai_trackpad_physical_slot list \<Rightarrow> ai_apple_trackpad_frame \<Rightarrow> nat list \<Rightarrow> nat
   \<Rightarrow> int list \<Rightarrow> int list \<Rightarrow> (int list \<times> int list) option" where
  "minimum_assignment slots frame old_slots old_count old_to_new new_to_old =
     (let rows_are_old = (old_count \<le> af_count frame);
          rows = (if rows_are_old then old_count else af_count frame);
          columns = (if rows_are_old then af_count frame else old_count);
          cost = cost_matrix slots (af_contacts frame) old_slots rows_are_old rows columns
      in case assign_rows cost columns [1..<rows + 1] hungarian_start of
           None \<Rightarrow> None
         | Some h \<Rightarrow>
             Some (fold (write_pair rows_are_old (hu_p h)) [1..<columns + 1]
                     (old_to_new, new_to_old)))"

section \<open>The loops of one row\<close>

text \<open>The matrix entry of a row and a column, both counted from one, and its slack.\<close>

abbreviation entry :: "int list list \<Rightarrow> nat \<Rightarrow> nat \<Rightarrow> int" where
  "entry cost r j \<equiv> cost ! (r - 1) ! (j - 1)"

definition slack :: "(nat \<Rightarrow> nat \<Rightarrow> int) \<Rightarrow> (nat \<Rightarrow> int) \<Rightarrow> (nat \<Rightarrow> int) \<Rightarrow> nat \<Rightarrow> nat \<Rightarrow> int" where
  "slack c u v r j = c r j - u r - v j"

text \<open>The arrays have their twelve entries.\<close>

definition sized :: "hungarian \<Rightarrow> bool" where
  "sized h \<longleftrightarrow> length (hu_u h) = 12 \<and> length (hu_v h) = 12 \<and> length (hu_minv h) = 12 \<and>
     length (hu_p h) = 12 \<and> length (hu_way h) = 12 \<and> length (hu_used h) = 12"

text \<open>The scan of the columns \<open>1..k\<close>: every unused column has the smaller of its old slack and the
  one from the row, remembers the column it is reached from, and the unused column with the smallest
  slack is found.\<close>

definition scanned_arrays :: "int list list \<Rightarrow> nat \<Rightarrow> nat \<Rightarrow> hungarian \<Rightarrow> nat \<Rightarrow> hungarian \<Rightarrow> bool" where
  "scanned_arrays cost i0 c h k t \<longleftrightarrow>
     hu_u t = hu_u h \<and> hu_v t = hu_v h \<and> hu_p t = hu_p h \<and> hu_used t = hu_used h \<and> sized t \<and>
     (\<forall>j<12. let new = slack (entry cost) ((!) (hu_u h)) ((!) (hu_v h)) i0 j;
                 hit = 1 \<le> j \<and> j \<le> k \<and> \<not> hu_used h ! j \<and> new < hu_minv h ! j
             in hu_minv t ! j = (if hit then new else hu_minv h ! j) \<and>
                hu_way t ! j = (if hit then c else hu_way h ! j))"

definition scanned_min :: "nat \<Rightarrow> hungarian \<Rightarrow> int \<Rightarrow> nat \<Rightarrow> bool" where
  "scanned_min k t delta j1 \<longleftrightarrow>
     (\<forall>j. 1 \<le> j \<longrightarrow> j \<le> k \<longrightarrow> \<not> hu_used t ! j \<longrightarrow> delta \<le> hu_minv t ! j \<and> j1 \<noteq> 0) \<and>
     (if j1 = 0 then delta = cost_max
      else 1 \<le> j1 \<and> j1 \<le> k \<and> \<not> hu_used t ! j1 \<and> delta = hu_minv t ! j1 \<and> delta \<le> cost_max)"

text \<open>One column: its slack and the smallest slack.\<close>

lemma relax_step:
  assumes t: "scanned_arrays cost i0 c h k t" "scanned_min k t delta j1"
    and h: "sized h" "\<not> hu_used h ! Suc k \<Longrightarrow> hu_minv h ! Suc k \<le> cost_max" and k: "Suc k < 12"
  shows "case relax cost i0 c (Suc k) (t, delta, j1) of
    (t', delta', j1') \<Rightarrow> scanned_arrays cost i0 c h (Suc k) t' \<and> scanned_min (Suc k) t' delta' j1'"
proof (cases "hu_used h ! Suc k")
  case True
  moreover have "hu_used t = hu_used h" using t(1) by (simp add: scanned_arrays_def)
  moreover have "scanned_arrays cost i0 c h (Suc k) t"
    using True t(1) by (auto simp: scanned_arrays_def Let_def le_Suc_eq)
  moreover have "scanned_min (Suc k) t delta j1"
    using True t(2) calculation(2) by (auto simp: scanned_min_def le_Suc_eq split: if_splits)
  ultimately show ?thesis by (simp add: relax_def)
next
  case False
  let ?new = "slack (entry cost) ((!) (hu_u h)) ((!) (hu_v h)) i0 (Suc k)"
  define t1 where "t1 = (if ?new < hu_minv h ! Suc k
    then t\<lparr> hu_minv := (hu_minv t)[Suc k := ?new], hu_way := (hu_way t)[Suc k := c] \<rparr> else t)"
  have eqs: "hu_u t = hu_u h" "hu_v t = hu_v h" "hu_p t = hu_p h" "hu_used t = hu_used h" "sized t"
    "hu_minv t ! Suc k = hu_minv h ! Suc k" "hu_way t ! Suc k = hu_way h ! Suc k"
    using t(1) k by (auto simp: scanned_arrays_def Let_def)
  have arrays: "scanned_arrays cost i0 c h (Suc k) t1"
  proof -
    let ?n = "slack (entry cost) ((!) (hu_u h)) ((!) (hu_v h)) i0"
    have "sized t1" using eqs(5) by (simp add: t1_def sized_def)
    moreover have "hu_u t1 = hu_u h" "hu_v t1 = hu_v h" "hu_p t1 = hu_p h" "hu_used t1 = hu_used h"
      using eqs by (simp_all add: t1_def)
    moreover have "hu_minv t1 ! j = (if 1 \<le> j \<and> j \<le> Suc k \<and> \<not> hu_used h ! j \<and> ?n j < hu_minv h ! j
          then ?n j else hu_minv h ! j) \<and>
        hu_way t1 ! j = (if 1 \<le> j \<and> j \<le> Suc k \<and> \<not> hu_used h ! j \<and> ?n j < hu_minv h ! j
          then c else hu_way h ! j)" if j: "j < 12" for j
    proof (cases "j = Suc k")
      case True
      then show ?thesis using eqs k False by (auto simp: t1_def sized_def)
    next
      case ne: False
      then have "hu_minv t1 ! j = hu_minv t ! j" "hu_way t1 ! j = hu_way t ! j" by (auto simp: t1_def)
      then show ?thesis using t(1) j ne by (simp add: scanned_arrays_def Let_def le_Suc_eq)
    qed
    ultimately show ?thesis unfolding scanned_arrays_def Let_def by blast
  qed
  have r: "relax cost i0 c (Suc k) (t, delta, j1) =
      (if hu_minv t1 ! Suc k < delta \<or> (hu_minv t1 ! Suc k = delta \<and> j1 = 0)
       then (t1, hu_minv t1 ! Suc k, Suc k) else (t1, delta, j1))"
    using False by (simp add: relax_def eqs slack_def Let_def t1_def)
  have other: "hu_minv t1 ! j = hu_minv t ! j" if "j \<noteq> Suc k" for j
    using that by (auto simp: t1_def)
  have used: "hu_used t1 = hu_used t" by (simp add: t1_def)
  have m: "hu_minv t1 ! Suc k \<le> cost_max"
    using eqs k h(2) [OF False] by (auto simp: t1_def sized_def intro: less_imp_le [OF less_le_trans])
  have low: "delta \<le> hu_minv t ! j" if "1 \<le> j" "j \<le> k" "\<not> hu_used t ! j" for j
    using t(2) that unfolding scanned_min_def by blast
  let ?less = "hu_minv t1 ! Suc k < delta \<or> (hu_minv t1 ! Suc k = delta \<and> j1 = 0)"
  show ?thesis
  proof (cases ?less)
    case True
    then have le: "hu_minv t1 ! Suc k \<le> delta" by auto
    have "hu_minv t1 ! Suc k \<le> hu_minv t1 ! j" if "1 \<le> j" "j \<le> Suc k" "\<not> hu_used t ! j" for j
    proof (cases "j = Suc k")
      case ne: False
      then have "delta \<le> hu_minv t ! j" using that by (intro low) simp_all
      with le other [OF ne] show ?thesis by simp
    qed simp
    then have "scanned_min (Suc k) t1 (hu_minv t1 ! Suc k) (Suc k)"
      using False m by (simp add: scanned_min_def used eqs(4))
    with arrays True show ?thesis by (simp add: r)
  next
    case ge: False
    have j1: "j1 \<noteq> 0" using ge t(2) m by (auto simp: scanned_min_def split: if_splits)
    have "delta \<le> hu_minv t1 ! j" if "1 \<le> j" "j \<le> Suc k" "\<not> hu_used t ! j" for j
    proof (cases "j = Suc k")
      case ne: False
      then have "delta \<le> hu_minv t ! j" using that by (intro low) simp_all
      with other [OF ne] show ?thesis by simp
    qed (use ge in simp)
    moreover have "1 \<le> j1" "j1 \<le> k" "\<not> hu_used t ! j1" "delta = hu_minv t ! j1" "delta \<le> cost_max"
      using t(2) j1 by (simp_all add: scanned_min_def)
    ultimately have "scanned_min (Suc k) t1 delta j1"
      using j1 other [of j1] by (simp add: scanned_min_def used)
    with arrays ge j1 show ?thesis by (simp add: r)
  qed
qed

lemma relax_fold:
  assumes "sized h" and "k \<le> 11"
    and "\<forall>j. 1 \<le> j \<longrightarrow> j \<le> k \<longrightarrow> \<not> hu_used h ! j \<longrightarrow> hu_minv h ! j \<le> cost_max"
  shows "case fold (relax cost i0 c) [1..<k + 1] (h, cost_max, 0) of
    (t, delta, j1) \<Rightarrow> scanned_arrays cost i0 c h k t \<and> scanned_min k t delta j1"
  using assms(2,3)
proof (induction k)
  case 0
  show ?case using assms(1) by (simp add: scanned_arrays_def scanned_min_def)
next
  case (Suc k)
  obtain t delta j1 where f: "fold (relax cost i0 c) [1..<k + 1] (h, cost_max, 0) = (t, delta, j1)"
    by (rule prod_cases3)
  have "scanned_arrays cost i0 c h k t" "scanned_min k t delta j1" using Suc f by simp_all
  from relax_step [OF this assms(1)] Suc.prems f show ?case by simp
qed

text \<open>The adjustment of the columns \<open>0..k\<close>: the rows of the used columns gain \<open>delta\<close>, the used
  columns and the slacks of the others lose it.\<close>

definition adjusted :: "int \<Rightarrow> nat \<Rightarrow> hungarian \<Rightarrow> hungarian \<Rightarrow> bool" where
  "adjusted delta k h t \<longleftrightarrow>
     hu_p t = hu_p h \<and> hu_way t = hu_way h \<and> hu_used t = hu_used h \<and> sized t \<and>
     (\<forall>r<12. hu_u t ! r = hu_u h ! r + (if \<exists>j\<le>k. hu_used h ! j \<and> hu_p h ! j = r then delta else 0)) \<and>
     (\<forall>j<12. hu_v t ! j = hu_v h ! j - (if j \<le> k \<and> hu_used h ! j then delta else 0)) \<and>
     (\<forall>j<12. hu_minv t ! j = hu_minv h ! j - (if j \<le> k \<and> \<not> hu_used h ! j then delta else 0))"

lemma adjust_step:
  assumes t: "adjusted delta k h t" and h: "sized h" and k: "Suc k < 12"
    and p: "hu_used h ! Suc k \<Longrightarrow> hu_p h ! Suc k < 12 \<and>
      (\<forall>j\<le>k. hu_used h ! j \<longrightarrow> hu_p h ! j \<noteq> hu_p h ! Suc k)"
  shows "adjusted delta (Suc k) h (adjust delta (Suc k) t)"
proof -
  have eqs: "hu_p t = hu_p h" "hu_way t = hu_way h" "hu_used t = hu_used h" "sized t"
    "hu_u t ! r = hu_u h ! r + (if \<exists>j\<le>k. hu_used h ! j \<and> hu_p h ! j = r then delta else 0)"
    "hu_v t ! j = hu_v h ! j - (if j \<le> k \<and> hu_used h ! j then delta else 0)"
    "hu_minv t ! j = hu_minv h ! j - (if j \<le> k \<and> \<not> hu_used h ! j then delta else 0)"
    if "r < 12" "j < 12" for r j
    using t that by (auto simp: adjusted_def)
  note eq = eqs(1-4) [of 0 0, simplified] 
  show ?thesis
  proof (cases "hu_used h ! Suc k")
    case True
    let ?t = "adjust delta (Suc k) t"
    have a: "?t = t\<lparr> hu_u := (hu_u t)[hu_p h ! Suc k := hu_u t ! (hu_p h ! Suc k) + delta],
        hu_v := (hu_v t)[Suc k := hu_v t ! Suc k - delta] \<rparr>"
      using True eq by (simp add: adjust_def)
    have "hu_u ?t ! r = hu_u h ! r + (if \<exists>j\<le>Suc k. hu_used h ! j \<and> hu_p h ! j = r then delta else 0)"
      if "r < 12" for r
    proof (cases "r = hu_p h ! Suc k")
      case r: True
      then have "\<not> (\<exists>j\<le>k. hu_used h ! j \<and> hu_p h ! j = r)" using p [OF True] by auto
      with eqs(5) [OF that that] r True that eq(4) show ?thesis
        by (auto simp: a sized_def)
    next
      case False
      then have "(\<exists>j\<le>Suc k. hu_used h ! j \<and> hu_p h ! j = r) \<longleftrightarrow> (\<exists>j\<le>k. hu_used h ! j \<and> hu_p h ! j = r)"
        by (auto simp: le_Suc_eq)
      with eqs(5) [OF that that] False show ?thesis by (simp add: a)
    qed
    moreover have "hu_v ?t ! j = hu_v h ! j - (if j \<le> Suc k \<and> hu_used h ! j then delta else 0)"
      if "j < 12" for j
      using eqs(6) [OF that that] True that eq(4) k
      by (cases "j = Suc k") (auto simp: a sized_def le_Suc_eq)
    moreover have "hu_minv ?t ! j = hu_minv h ! j - (if j \<le> Suc k \<and> \<not> hu_used h ! j then delta else 0)"
      if "j < 12" for j
      using eqs(7) [OF that that] True by (cases "j = Suc k") (auto simp: a le_Suc_eq)
    moreover have "hu_p ?t = hu_p h" "hu_way ?t = hu_way h" "hu_used ?t = hu_used h" "sized ?t"
      using eq by (simp_all add: a sized_def)
    ultimately show ?thesis unfolding adjusted_def by blast
  next
    case False
    let ?t = "adjust delta (Suc k) t"
    have a: "?t = t\<lparr> hu_minv := (hu_minv t)[Suc k := hu_minv t ! Suc k - delta] \<rparr>"
      using False eq by (simp add: adjust_def)
    have "hu_u ?t ! r = hu_u h ! r + (if \<exists>j\<le>Suc k. hu_used h ! j \<and> hu_p h ! j = r then delta else 0)"
      if "r < 12" for r
    proof -
      have "(\<exists>j\<le>Suc k. hu_used h ! j \<and> hu_p h ! j = r) \<longleftrightarrow> (\<exists>j\<le>k. hu_used h ! j \<and> hu_p h ! j = r)"
        using False by (auto simp: le_Suc_eq)
      with eqs(5) [OF that that] show ?thesis by (simp add: a)
    qed
    moreover have "hu_v ?t ! j = hu_v h ! j - (if j \<le> Suc k \<and> hu_used h ! j then delta else 0)"
      if "j < 12" for j
      using eqs(6) [OF that that] False by (cases "j = Suc k") (auto simp: a le_Suc_eq)
    moreover have "hu_minv ?t ! j = hu_minv h ! j - (if j \<le> Suc k \<and> \<not> hu_used h ! j then delta else 0)"
      if "j < 12" for j
      using eqs(7) [OF that that] False that eq(4) k
      by (cases "j = Suc k") (auto simp: a sized_def le_Suc_eq)
    moreover have "hu_p ?t = hu_p h" "hu_way ?t = hu_way h" "hu_used ?t = hu_used h" "sized ?t"
      using eq by (simp_all add: a sized_def)
    ultimately show ?thesis unfolding adjusted_def by blast
  qed
qed

lemma adjust_fold:
  assumes h: "sized h" and k: "k \<le> 11" and p: "\<forall>j\<le>k. hu_used h ! j \<longrightarrow> hu_p h ! j < 12"
    and inj: "inj_on ((!) (hu_p h)) {j. j \<le> k \<and> hu_used h ! j}"
  shows "adjusted delta k h (fold (adjust delta) [0..<k + 1] h)"
  using k p inj
proof (induction k)
  case 0
  have "hu_p h ! 0 < 12" if "hu_used h ! 0" using 0 that by simp
  with h show ?case by (auto simp: adjusted_def adjust_def sized_def nth_list_update)
next
  case (Suc k)
  have "inj_on ((!) (hu_p h)) {j. j \<le> k \<and> hu_used h ! j}"
    by (rule inj_on_subset [OF Suc.prems(3)]) auto
  then have "adjusted delta k h (fold (adjust delta) [0..<k + 1] h)" using Suc by simp
  moreover have "hu_p h ! j \<noteq> hu_p h ! Suc k" if "hu_used h ! Suc k" "j \<le> k" "hu_used h ! j" for j
    using inj_onD [OF Suc.prems(3), of j "Suc k"] that by auto
  ultimately have "adjusted delta (Suc k) h (adjust delta (Suc k) (fold (adjust delta) [0..<k + 1] h))"
    using Suc.prems by (intro adjust_step h) auto
  then show ?case by simp
qed

lemma reset_columns_fold:
  assumes "sized h" and "k \<le> 11"
  shows "let t = reset_columns k h in hu_u t = hu_u h \<and> hu_v t = hu_v h \<and> hu_p t = hu_p h \<and>
    hu_j0 t = hu_j0 h \<and> sized t \<and> (\<forall>j\<le>k. hu_minv t ! j = cost_max \<and> \<not> hu_used t ! j)"
  using assms(2)
proof (induction k)
  case 0
  then show ?case using assms(1) by (simp add: reset_columns_def sized_def Let_def)
next
  case (Suc k)
  then show ?case
    by (auto simp: reset_columns_def sized_def Let_def le_Suc_eq nth_list_update)
qed

section \<open>The invariants of the search\<close>

abbreviation slack_of :: "int list list \<Rightarrow> hungarian \<Rightarrow> nat \<Rightarrow> nat \<Rightarrow> int" where
  "slack_of cost h \<equiv> slack (entry cost) ((!) (hu_u h)) ((!) (hu_v h))"

abbreviation used_columns :: "nat \<Rightarrow> hungarian \<Rightarrow> nat set" where
  "used_columns m h \<equiv> {j. j \<le> m \<and> hu_used h ! j}"

text \<open>Rows \<open>1..k\<close> each have a column of \<open>1..m\<close>, and no two the same.\<close>

definition matching :: "nat \<Rightarrow> nat \<Rightarrow> hungarian \<Rightarrow> bool" where
  "matching m k h \<longleftrightarrow>
     (\<forall>j\<in>{1..m}. hu_p h ! j \<le> k) \<and>
     inj_on ((!) (hu_p h)) {j \<in> {1..m}. hu_p h ! j \<noteq> 0} \<and>
     (\<forall>r\<in>{1..k}. \<exists>j\<in>{1..m}. hu_p h ! j = r)"

text \<open>The potentials are feasible, tight on the matched columns, and within the bound \<open>b\<close>; free
  columns and the rows after \<open>k\<close> have none.\<close>

definition feasible :: "int list list \<Rightarrow> nat \<Rightarrow> nat \<Rightarrow> nat \<Rightarrow> int \<Rightarrow> hungarian \<Rightarrow> bool" where
  "feasible cost n m k b h \<longleftrightarrow>
     (\<forall>r\<in>{1..n}. \<forall>j\<in>{1..m}. 0 \<le> slack_of cost h r j) \<and>
     (\<forall>j\<in>{1..m}. hu_p h ! j \<noteq> 0 \<longrightarrow> slack_of cost h (hu_p h ! j) j = 0) \<and>
     (\<forall>j\<in>{1..m}. hu_v h ! j \<le> 0 \<and> - b \<le> hu_v h ! j \<and> (hu_p h ! j = 0 \<longrightarrow> hu_v h ! j = 0)) \<and>
     (\<forall>r\<in>{1..n}. 0 \<le> hu_u h ! r \<and> hu_u h ! r \<le> b \<and> (k < r \<longrightarrow> hu_u h ! r = 0))"

text \<open>The used columns form a tree rooted at column 0 along the way, all its edges tight; the current
  column hangs on it; and every other column knows its smallest slack to the rows of the tree.\<close>

definition tree :: "int list list \<Rightarrow> nat \<Rightarrow> nat \<Rightarrow> hungarian \<Rightarrow> bool" where
  "tree cost m i h \<longleftrightarrow>
     (let U = used_columns m h; red = (\<lambda>c j. slack_of cost h (hu_p h ! c) j)
      in hu_p h ! 0 = i \<and> hu_j0 h \<le> m \<and> hu_j0 h \<notin> U \<and>
         (U = {} \<longrightarrow> hu_j0 h = 0 \<and> (\<forall>j\<in>{1..m}. hu_minv h ! j = cost_max)) \<and>
         (U \<noteq> {} \<longrightarrow> 0 \<in> U \<and> hu_way h ! hu_j0 h \<in> U \<and> red (hu_way h ! hu_j0 h) (hu_j0 h) = 0 \<and>
           (\<forall>j\<in>{1..m} - U. hu_way h ! j \<in> U \<and> hu_minv h ! j = red (hu_way h ! j) j \<and>
              (\<forall>c\<in>U. hu_minv h ! j \<le> red c j))) \<and>
         (\<forall>j\<in>U - {0}. hu_p h ! j \<noteq> 0 \<and> hu_way h ! j \<in> U \<and> red (hu_way h ! j) j = 0) \<and>
         (\<exists>rk. (\<forall>j\<in>U. rk j < card U) \<and> (\<forall>j\<in>U - {0}. rk (hu_way h ! j) < rk j)))"

text \<open>The entries of the matrix are small: costs up to \<open>K\<close> with twelve times \<open>K\<close> below the
  saturation value.\<close>

definition small_costs :: "int list list \<Rightarrow> nat \<Rightarrow> nat \<Rightarrow> int \<Rightarrow> bool" where
  "small_costs cost n m K \<longleftrightarrow>
     (\<forall>r\<in>{1..n}. \<forall>j\<in>{1..m}. 0 \<le> entry cost r j \<and> entry cost r j \<le> K) \<and> 12 * K < cost_max \<and> 0 \<le> K"

definition row_dims :: "int list list \<Rightarrow> nat \<Rightarrow> nat \<Rightarrow> nat \<Rightarrow> int \<Rightarrow> bool" where
  "row_dims cost n m i K \<longleftrightarrow>
     1 \<le> i \<and> i \<le> n \<and> n \<le> m \<and> m \<le> 11 \<and> small_costs cost n m K"

text \<open>The state of the search for row \<open>i\<close>; the potential of the row bounds how far the others moved.\<close>

definition searching :: "int list list \<Rightarrow> nat \<Rightarrow> nat \<Rightarrow> nat \<Rightarrow> int \<Rightarrow> hungarian \<Rightarrow> bool" where
  "searching cost n m i K h \<longleftrightarrow>
     sized h \<and> matching m (i - 1) h \<and> feasible cost n m i ((int i - 1) * K + hu_u h ! i) h \<and>
     tree cost m i h"

text \<open>The rows of the tree are distinct, and there are columns outside the tree and free ones.\<close>

lemma matchingD:
  assumes "matching m k h"
  shows "j \<in> {1..m} \<Longrightarrow> hu_p h ! j \<le> k"
    and "inj_on ((!) (hu_p h)) {j \<in> {1..m}. hu_p h ! j \<noteq> 0}"
    and "r \<in> {1..k} \<Longrightarrow> \<exists>j\<in>{1..m}. hu_p h ! j = r"
  using assms by (simp_all only: matching_def)

lemma matching_inj:
  assumes "matching m k h" and "S \<subseteq> {1..m}" and "\<forall>j\<in>S. hu_p h ! j \<noteq> 0"
  shows "inj_on ((!) (hu_p h)) S" and "card S \<le> k"
proof -
  show inj: "inj_on ((!) (hu_p h)) S"
    using assms(2,3) by (intro inj_on_subset [OF matchingD(2) [OF assms(1)]]) auto
  have "(!) (hu_p h) ` S \<subseteq> {1..k}"
  proof (rule image_subsetI)
    fix j assume "j \<in> S"
    then have "j \<in> {1..m}" "hu_p h ! j \<noteq> 0" using assms(2,3) by auto
    with matchingD(1) [OF assms(1)] show "hu_p h ! j \<in> {1..k}" by (simp add: Suc_le_eq)
  qed
  from card_mono [OF _ this] show "card S \<le> k" by (simp add: card_image inj)
qed

lemma free_column:
  assumes "matching m k h" and "k < m"
  shows "\<exists>j\<in>{1..m}. hu_p h ! j = 0"
proof (rule ccontr)
  assume "\<not> ?thesis"
  with matching_inj(2) [OF assms(1) subset_refl] assms(2) show False by simp
qed

lemma tree_rows:
  assumes m: "matching m (i - 1) h" and i: "1 \<le> i" and p0: "hu_p h ! 0 = i"
    and S: "0 \<in> S" "S \<subseteq> {0..m}" "\<forall>j\<in>S - {0}. hu_p h ! j \<noteq> 0"
  shows "inj_on ((!) (hu_p h)) S" and "(!) (hu_p h) ` S \<subseteq> {1..i}" and "card S \<le> i"
proof -
  have sub: "S - {0} \<subseteq> {1..m}" using S(2) by (auto simp: Suc_le_eq)
  note inj = matching_inj [OF m sub S(3)]
  have le: "hu_p h ! j \<le> i - 1" if "j \<in> S - {0}" for j
    using matchingD(1) [OF m subsetD [OF sub that]] .
  have ne: "hu_p h ! j \<noteq> i" if "j \<in> S - {0}" for j using le [OF that] i by linarith
  have S': "S = insert 0 (S - {0})" using S(1) by blast
  show "inj_on ((!) (hu_p h)) S"
  proof (subst S', subst inj_on_insert, intro conjI)
    show "hu_p h ! 0 \<notin> (!) (hu_p h) ` (S - {0} - {0})"
      using ne unfolding p0 by (metis DiffD1 imageE)
  qed (use inj(1) in blast)
  show "(!) (hu_p h) ` S \<subseteq> {1..i}"
  proof
    fix r assume "r \<in> (!) (hu_p h) ` S"
    then obtain j where j: "j \<in> S" "r = hu_p h ! j" by blast
    show "r \<in> {1..i}"
    proof (cases "j = 0")
      case True
      with j p0 i show ?thesis by simp
    next
      case False
      with j S(3) le [of j] show ?thesis by (auto simp: Suc_le_eq)
    qed
  qed
  have "finite S" using S(2) finite_subset by blast
  with inj(2) i show "card S \<le> i" using S(1) by (simp add: card_Diff_singleton)
qed

lemma slack_small:
  assumes "row_dims cost n m i K" and "searching cost n m i K h" and "r \<in> {1..n}" and "j \<in> {1..m}"
  shows "slack_of cost h r j < cost_max" and "hu_u h ! i \<le> K"
proof -
  have d: "1 \<le> i" "i \<le> n" "n \<le> m" "m \<le> 11" "12 * K < cost_max" "0 \<le> K"
    and c: "\<forall>r\<in>{1..n}. \<forall>j\<in>{1..m}. entry cost r j \<le> K"
    using assms(1) by (auto simp: row_dims_def small_costs_def)
  let ?b = "(int i - 1) * K + hu_u h ! i"
  have f: "feasible cost n m i ?b h" and m: "matching m (i - 1) h"
    using assms(2) by (simp_all add: searching_def)
  obtain j0 where j0: "j0 \<in> {1..m}" "hu_p h ! j0 = 0"
    using free_column [OF m] d(1-3) by fastforce
  have "i \<in> {1..n}" using d by simp
  with f j0 have "0 \<le> slack_of cost h i j0" "hu_v h ! j0 = 0" by (simp_all add: feasible_def)
  moreover have "entry cost i j0 \<le> K" using c \<open>i \<in> {1..n}\<close> j0 by blast
  ultimately show u: "hu_u h ! i \<le> K" by (simp add: slack_def)
  have "0 \<le> hu_u h ! r" "- ?b \<le> hu_v h ! j" using f assms(3,4) by (simp_all add: feasible_def)
  moreover have "entry cost r j \<le> K" using c assms(3,4) by blast
  ultimately have "slack_of cost h r j \<le> K + ?b" by (simp add: slack_def)
  also have "\<dots> \<le> (int i + 1) * K" using u by (simp add: algebra_simps)
  also have "\<dots> \<le> 12 * K" using d by (intro mult_right_mono) auto
  finally show "slack_of cost h r j < cost_max" using d(5) by simp
qed

section \<open>One step of the search\<close>

text \<open>The scan keeps the tree: with the current column used, every other column knows its smallest
  slack to the rows of the tree.\<close>

definition scanned_tree :: "int list list \<Rightarrow> nat \<Rightarrow> hungarian \<Rightarrow> bool" where
  "scanned_tree cost m t \<longleftrightarrow>
     (let U = used_columns m t; red = (\<lambda>c j. slack_of cost t (hu_p t ! c) j)
      in 0 \<in> U \<and>
         (\<forall>j\<in>{1..m} - U. hu_way t ! j \<in> U \<and> hu_minv t ! j = red (hu_way t ! j) j \<and>
            (\<forall>c\<in>U. hu_minv t ! j \<le> red c j)) \<and>
         (\<forall>j\<in>U - {0}. hu_p t ! j \<noteq> 0 \<and> hu_way t ! j \<in> U \<and> red (hu_way t ! j) j = 0) \<and>
         (\<exists>rk. (\<forall>j\<in>U. rk j < card U) \<and> (\<forall>j\<in>U - {0}. rk (hu_way t ! j) < rk j)))"

lemma scan_step:
  assumes d: "row_dims cost n m i K" and s: "searching cost n m i K h" and p: "hu_p h ! hu_j0 h \<noteq> 0"
    and h1: "h1 = h\<lparr> hu_used := (hu_used h)[hu_j0 h := True] \<rparr>"
    and t: "scanned_arrays cost (hu_p h ! hu_j0 h) (hu_j0 h) h1 m t"
  shows "scanned_tree cost m t" and "used_columns m t = insert (hu_j0 h) (used_columns m h)"
proof -
  let ?c = "hu_j0 h" and ?U = "used_columns m h" and ?U' = "used_columns m t"
  let ?red = "\<lambda>c j. slack_of cost h (hu_p h ! c) j"
  have dims: "1 \<le> i" "i \<le> n" "n \<le> m" "m \<le> 11" using d by (simp_all add: row_dims_def)
  have sz: "length (hu_used h) = 12" using s by (simp add: searching_def sized_def)
  have T: "tree cost m i h" and M: "matching m (i - 1) h" using s by (simp_all add: searching_def)
  have c: "?c \<le> m" "?c \<notin> ?U" "hu_p h ! 0 = i" using T by (simp_all add: tree_def Let_def)
  have eqs: "hu_u t = hu_u h" "hu_v t = hu_v h" "hu_p t = hu_p h"
    "hu_used t = (hu_used h)[?c := True]" using t by (simp_all add: scanned_arrays_def h1)
  show U': "?U' = insert ?c ?U" using c dims sz by (auto simp: eqs nth_list_update)
  have vals: "hu_minv t ! j = (if ?red ?c j < hu_minv h ! j then ?red ?c j else hu_minv h ! j)"
    "hu_way t ! j = (if ?red ?c j < hu_minv h ! j then ?c else hu_way h ! j)"
    if "j \<in> {1..m} - ?U'" for j
  proof -
    have "j < 12" "1 \<le> j" "j \<le> m" "\<not> hu_used t ! j" using that dims by auto
    with t show "hu_minv t ! j = (if ?red ?c j < hu_minv h ! j then ?red ?c j else hu_minv h ! j)"
      "hu_way t ! j = (if ?red ?c j < hu_minv h ! j then ?c else hu_way h ! j)"
      by (simp_all add: scanned_arrays_def h1 Let_def)
  qed
  have way_used: "hu_way t ! j = hu_way h ! j" if "j \<in> ?U'" for j
  proof -
    have "j < 12" "hu_used t ! j" using that dims by auto
    with t show ?thesis by (simp add: scanned_arrays_def h1 Let_def)
  qed
  have root: "0 \<in> ?U'" using T unfolding U' by (auto simp: tree_def Let_def)
  have slacks: "hu_way t ! j \<in> ?U' \<and> hu_minv t ! j = ?red (hu_way t ! j) j \<and>
      (\<forall>c\<in>?U'. hu_minv t ! j \<le> ?red c j)" if j: "j \<in> {1..m} - ?U'" for j
  proof (cases "?U = {}")
    case True
    have "hu_p h ! ?c \<in> {1..n}" using True T dims by (simp add: tree_def Let_def)
    from slack_small(1) [OF d s this] j T True have "?red ?c j < hu_minv h ! j"
      by (simp add: tree_def Let_def)
    with True vals [OF j] show ?thesis by (auto simp: U')
  next
    case False
    have old: "hu_way h ! j \<in> ?U" "hu_minv h ! j = ?red (hu_way h ! j) j"
      "\<forall>c\<in>?U. hu_minv h ! j \<le> ?red c j"
      using T False j unfolding tree_def Let_def U' by blast+
    show ?thesis
    proof (cases "?red ?c j < hu_minv h ! j")
      case True
      with old(3) vals [OF j] show ?thesis unfolding U' by force
    next
      case nl: False
      with old vals [OF j] show ?thesis unfolding U' by force
    qed
  qed
  have edges: "hu_p h ! j \<noteq> 0 \<and> hu_way t ! j \<in> ?U' \<and> ?red (hu_way t ! j) j = 0"
    if j: "j \<in> ?U' - {0}" for j
  proof (cases "j = ?c")
    case True
    then have "?U \<noteq> {}" using j T by (auto simp: tree_def Let_def)
    with T True j p way_used [of j] show ?thesis by (simp add: tree_def Let_def U')
  next
    case False
    then have "j \<in> ?U - {0}" using j U' by blast
    with T j way_used [of j] show ?thesis unfolding tree_def Let_def U' by force
  qed
  obtain rk where rk: "\<forall>j\<in>?U. rk j < card ?U" "\<forall>j\<in>?U - {0}. rk (hu_way h ! j) < rk j"
    using T unfolding tree_def Let_def by blast
  let ?rk = "rk(?c := card ?U)"
  have fin: "finite ?U" by simp
  have "\<forall>j\<in>?U'. ?rk j < card ?U'" using rk(1) c(2) unfolding U' by (auto simp: less_Suc_eq)
  moreover have "?rk (hu_way t ! j) < ?rk j" if j: "j \<in> ?U' - {0}" for j
  proof (cases "j = ?c")
    case True
    then have "?U \<noteq> {}" using j T by (auto simp: tree_def Let_def)
    then have "hu_way h ! ?c \<in> ?U" using T by (simp add: tree_def Let_def)
    with True rk(1) way_used [of j] j c(2) show ?thesis by auto
  next
    case False
    then have jU: "j \<in> ?U - {0}" using j U' by blast
    then have "hu_way h ! j \<in> ?U" using T unfolding tree_def Let_def by blast
    then have "hu_way h ! j \<noteq> ?c" using c(2) by metis
    with rk(2) jU way_used [of j] j False show ?thesis by simp
  qed
  ultimately show "scanned_tree cost m t"
    using root slacks edges unfolding scanned_tree_def Let_def eqs(1-3) by blast
qed

text \<open>The adjustment keeps the tree and the potentials, and makes the edge to the new column tight.\<close>

lemma adjusted_slack:
  assumes a: "adjusted delta m t t2" and m: "m \<le> 11" and "r \<le> 11" and "j \<le> m"
  shows "slack_of cost t2 r j = slack_of cost t r j
    - (if r \<in> (!) (hu_p t) ` used_columns m t then delta else 0)
    + (if j \<in> used_columns m t then delta else 0)"
proof -
  have "hu_u t2 ! r = hu_u t ! r + (if \<exists>j\<le>m. hu_used t ! j \<and> hu_p t ! j = r then delta else 0)"
    "hu_v t2 ! j = hu_v t ! j - (if j \<le> m \<and> hu_used t ! j then delta else 0)"
    using a assms by (auto simp: adjusted_def)
  moreover have "(\<exists>j\<le>m. hu_used t ! j \<and> hu_p t ! j = r) \<longleftrightarrow> r \<in> (!) (hu_p t) ` used_columns m t"
    by auto
  ultimately show ?thesis by (simp add: slack_def)
qed

lemma adjust_tree:
  assumes a: "adjusted delta m t t2" and st: "scanned_tree cost m t" and m: "m \<le> 11"
    and p: "\<forall>j\<le>m. hu_p t ! j \<le> 11"
  shows "scanned_tree cost m t2"
proof -
  let ?U = "used_columns m t"
  have eqs: "hu_p t2 = hu_p t" "hu_way t2 = hu_way t" "hu_used t2 = hu_used t"
    using a by (simp_all add: adjusted_def)
  have U: "used_columns m t2 = ?U" by (simp add: eqs)
  have red: "slack_of cost t2 (hu_p t2 ! c) j = slack_of cost t (hu_p t ! c) j - (if j \<in> ?U then 0 else delta)"
    if "c \<in> ?U" "j \<le> m" for c j
    using adjusted_slack [OF a m _ that(2), of "hu_p t ! c" cost] p that(1) unfolding eqs(1) by auto
  have minv: "hu_minv t2 ! j = hu_minv t ! j - delta" if "j \<in> {1..m} - ?U" for j
  proof -
    have "j < 12" "j \<le> m" "\<not> hu_used t ! j" using that m by auto
    with a show ?thesis by (simp add: adjusted_def)
  qed
  have s: "hu_way t ! j \<in> ?U" "hu_minv t ! j = slack_of cost t (hu_p t ! (hu_way t ! j)) j"
    "\<forall>c\<in>?U. hu_minv t ! j \<le> slack_of cost t (hu_p t ! c) j" if "j \<in> {1..m} - ?U" for j
    using st that unfolding scanned_tree_def Let_def by blast+
  have e: "hu_p t ! j \<noteq> 0" "hu_way t ! j \<in> ?U" "slack_of cost t (hu_p t ! (hu_way t ! j)) j = 0"
    if "j \<in> ?U - {0}" for j
    using st that unfolding scanned_tree_def Let_def by blast+
  have "hu_way t2 ! j \<in> ?U \<and> hu_minv t2 ! j = slack_of cost t2 (hu_p t2 ! (hu_way t2 ! j)) j \<and>
      (\<forall>c\<in>?U. hu_minv t2 ! j \<le> slack_of cost t2 (hu_p t2 ! c) j)" if j: "j \<in> {1..m} - ?U" for j
  proof -
    have jm: "j \<le> m" "j \<notin> ?U" using j by auto
    have "slack_of cost t2 (hu_p t2 ! c) j = slack_of cost t (hu_p t ! c) j - delta" if "c \<in> ?U" for c
      using red [OF that jm(1)] unfolding if_not_P [OF jm(2)] .
    with s [OF j] minv [OF j] show ?thesis unfolding eqs(2) by simp
  qed
  moreover have "hu_p t2 ! j \<noteq> 0 \<and> hu_way t2 ! j \<in> ?U \<and> slack_of cost t2 (hu_p t2 ! (hu_way t2 ! j)) j = 0"
    if j: "j \<in> ?U - {0}" for j
  proof -
    have jm: "j \<le> m" "j \<in> ?U" using j by auto
    from red [OF e(2) [OF j] jm(1)] e [OF j] jm(2) show ?thesis unfolding eqs(1,2) by simp
  qed
  moreover have "0 \<in> ?U" "\<exists>rk. (\<forall>j\<in>?U. rk j < card ?U) \<and> (\<forall>j\<in>?U - {0}. rk (hu_way t2 ! j) < rk j)"
    using st unfolding scanned_tree_def Let_def eqs(2) by blast+
  ultimately show ?thesis unfolding scanned_tree_def Let_def U by blast
qed

lemma feasibleD:
  assumes "feasible cost n m k b h"
  shows "r \<in> {1..n} \<Longrightarrow> j \<in> {1..m} \<Longrightarrow> 0 \<le> slack_of cost h r j"
    and "j \<in> {1..m} \<Longrightarrow> hu_p h ! j \<noteq> 0 \<Longrightarrow> slack_of cost h (hu_p h ! j) j = 0"
    and "j \<in> {1..m} \<Longrightarrow> hu_v h ! j \<le> 0 \<and> - b \<le> hu_v h ! j \<and> (hu_p h ! j = 0 \<longrightarrow> hu_v h ! j = 0)"
    and "r \<in> {1..n} \<Longrightarrow> 0 \<le> hu_u h ! r \<and> hu_u h ! r \<le> b \<and> (k < r \<longrightarrow> hu_u h ! r = 0)"
  using assms unfolding feasible_def by blast+

lemma adjust_feasible:
  assumes a: "adjusted delta m t t2" and f: "feasible cost n m i b t" and M: "matching m (i - 1) t"
    and d: "1 \<le> i" "i \<le> n" "n \<le> m" "m \<le> 11" and p0: "hu_p t ! 0 = i"
    and U: "0 \<in> used_columns m t" "\<forall>j\<in>used_columns m t - {0}. hu_p t ! j \<noteq> 0"
    and delta: "0 \<le> delta"
      "\<forall>j\<in>{1..m} - used_columns m t. \<forall>c\<in>used_columns m t. delta \<le> slack_of cost t (hu_p t ! c) j"
  shows "feasible cost n m i (b + delta) t2"
proof -
  let ?U = "used_columns m t"
  let ?R = "(!) (hu_p t) ` ?U"
  have sub: "?U \<subseteq> {0..m}" by auto
  note rows = tree_rows [OF M d(1) p0 U(1) sub U(2)]
  have eqs: "hu_p t2 = hu_p t" using a by (simp add: adjusted_def)
  have sl: "slack_of cost t2 r j = slack_of cost t r j - (if r \<in> ?R then delta else 0) +
      (if j \<in> ?U then delta else 0)" if "r \<in> {1..n}" "j \<in> {1..m}" for r j
    using adjusted_slack [OF a d(4)] that d by simp
  have v: "hu_v t2 ! j = hu_v t ! j - (if j \<in> ?U then delta else 0)" if "j \<in> {1..m}" for j
    using a that d(4) by (auto simp: adjusted_def)
  have u: "hu_u t2 ! r = hu_u t ! r + (if r \<in> ?R then delta else 0)" if "r \<in> {1..n}" for r
  proof -
    have "(\<exists>j\<le>m. hu_used t ! j \<and> hu_p t ! j = r) \<longleftrightarrow> r \<in> ?R" by auto
    with a that d show ?thesis by (simp add: adjusted_def)
  qed
  have f1: "0 \<le> slack_of cost t r j" if "r \<in> {1..n}" "j \<in> {1..m}" for r j
    by (rule feasibleD(1) [OF f that])
  have "0 \<le> slack_of cost t2 r j" if rj: "r \<in> {1..n}" "j \<in> {1..m}" for r j
  proof (cases "r \<in> ?R \<and> j \<notin> ?U")
    case True
    then obtain c where c: "c \<in> ?U" "r = hu_p t ! c" by (auto simp: image_iff)
    have "j \<in> {1..m} - ?U" using True rj(2) by simp
    from bspec [OF bspec [OF delta(2) this] c(1)] have "delta \<le> slack_of cost t r j" by (simp add: c(2))
    moreover have "slack_of cost t2 r j = slack_of cost t r j - delta"
      using sl [OF rj] True by (simp only: if_P if_not_P simp_thms)
    ultimately show ?thesis by simp
  next
    case False
    then have "(if r \<in> ?R then delta else 0) \<le> (if j \<in> ?U then delta else 0)" using delta(1) by simp
    with sl [OF rj] f1 [OF rj] show ?thesis by linarith
  qed
  moreover have "slack_of cost t2 (hu_p t2 ! j) j = 0" if j: "j \<in> {1..m}" "hu_p t2 ! j \<noteq> 0" for j
  proof -
    have pj: "hu_p t ! j \<in> {1..i - 1}" using matchingD(1) [OF M j(1)] j(2) by (simp add: eqs Suc_le_eq)
    then have pn: "hu_p t ! j \<in> {1..n}" using d by auto
    have z: "slack_of cost t (hu_p t ! j) j = 0" using feasibleD(2) [OF f j(1)] j(2) eqs by simp
    have "hu_p t ! j \<in> ?R \<longleftrightarrow> j \<in> ?U"
    proof
      assume "hu_p t ! j \<in> ?R"
      then obtain c where c: "c \<in> ?U" "hu_p t ! j = hu_p t ! c" by blast
      have "c \<noteq> 0"
      proof
        assume "c = 0"
        with c(2) p0 pj d(1) show False by simp
      qed
      with c(1) have "c \<in> {1..m}" by auto
      with c(2) j matchingD(2) [OF M] have "j = c" unfolding eqs by (auto dest: inj_onD)
      with c(1) show "j \<in> ?U" by simp
    qed blast
    with sl [OF pn j(1)] z show ?thesis unfolding eqs by (simp split: if_splits)
  qed
  moreover have "hu_v t2 ! j \<le> 0 \<and> - (b + delta) \<le> hu_v t2 ! j \<and> (hu_p t2 ! j = 0 \<longrightarrow> hu_v t2 ! j = 0)"
    if j: "j \<in> {1..m}" for j
  proof -
    have "hu_v t ! j \<le> 0" "- b \<le> hu_v t ! j" "hu_p t ! j = 0 \<longrightarrow> hu_v t ! j = 0"
      using feasibleD(3) [OF f j] by blast+
    moreover have "j \<in> ?U \<longrightarrow> hu_p t ! j \<noteq> 0" using U(2) j by auto
    ultimately show ?thesis using v [OF j] delta(1) unfolding eqs by (auto split: if_splits)
  qed
  moreover have "0 \<le> hu_u t2 ! r \<and> hu_u t2 ! r \<le> b + delta \<and> (i < r \<longrightarrow> hu_u t2 ! r = 0)"
    if r: "r \<in> {1..n}" for r
  proof -
    have "0 \<le> hu_u t ! r" "hu_u t ! r \<le> b" "i < r \<longrightarrow> hu_u t ! r = 0"
      using feasibleD(4) [OF f r] by blast+
    moreover have "i < r \<longrightarrow> r \<notin> ?R" using rows(2) by auto
    ultimately show ?thesis using u [OF r] delta(1) by (auto split: if_splits)
  qed
  ultimately show ?thesis unfolding feasible_def by blast
qed

text \<open>There is always a column outside the tree, because the tree has at most as many columns as rows
  have been taken.\<close>

lemma column_outside:
  assumes "card U \<le> i" and "0 \<in> U" and "i \<le> (m :: nat)" and "finite U"
  shows "\<exists>j\<in>{1..m}. j \<notin> U"
proof (rule ccontr)
  assume "\<not> ?thesis"
  then have "{0..m} \<subseteq> U" using assms(2) by (auto simp: Suc_le_eq)
  from card_mono [OF assms(4) this] assms(1,3) show False by simp
qed

lemma tree_minv:
  assumes d: "row_dims cost n m i K" and s: "searching cost n m i K h" and j: "j \<in> {1..m} - used_columns m h"
  shows "hu_minv h ! j \<le> cost_max"
proof (cases "used_columns m h = {}")
  case True
  have "tree cost m i h" using s by (simp add: searching_def)
  with True j show ?thesis unfolding tree_def Let_def by (metis DiffD1 order_refl)
next
  case False
  let ?U = "used_columns m h"
  have T: "tree cost m i h" and M: "matching m (i - 1) h" using s by (simp_all add: searching_def)
  have t: "0 \<in> ?U" "hu_p h ! 0 = i" "\<forall>j\<in>?U - {0}. hu_p h ! j \<noteq> 0" "hu_way h ! j \<in> ?U"
    "hu_minv h ! j = slack_of cost h (hu_p h ! (hu_way h ! j)) j"
    using T False j unfolding tree_def Let_def by blast+
  have "1 \<le> i" "i \<le> n" using d by (simp_all add: row_dims_def)
  with tree_rows(2) [OF M _ t(2,1) _ t(3)] t(4) have "hu_p h ! (hu_way h ! j) \<in> {1..n}" by fastforce
  from slack_small(1) [OF d s this, of j] j t(5) show ?thesis by simp
qed

lemma tree_at:
  assumes st: "scanned_tree cost m t" and "hu_p t ! 0 = i" and j: "j1 \<in> {1..m} - used_columns m t"
    and z: "hu_minv t ! j1 = 0"
  shows "tree cost m i (t\<lparr> hu_j0 := j1 \<rparr>)"
proof -
  let ?t = "t\<lparr> hu_j0 := j1 \<rparr>" and ?U = "used_columns m t"
  have e: "hu_p ?t = hu_p t" "hu_u ?t = hu_u t" "hu_v ?t = hu_v t" "hu_way ?t = hu_way t"
    "hu_minv ?t = hu_minv t" "hu_used ?t = hu_used t" "hu_j0 ?t = j1" by simp_all
  have A: "0 \<in> ?U" and B: "\<forall>j\<in>{1..m} - ?U. hu_way t ! j \<in> ?U \<and>
      hu_minv t ! j = slack_of cost t (hu_p t ! (hu_way t ! j)) j \<and>
      (\<forall>c\<in>?U. hu_minv t ! j \<le> slack_of cost t (hu_p t ! c) j)"
    and C: "\<forall>j\<in>?U - {0}. hu_p t ! j \<noteq> 0 \<and> hu_way t ! j \<in> ?U \<and>
      slack_of cost t (hu_p t ! (hu_way t ! j)) j = 0"
    and D: "\<exists>rk. (\<forall>j\<in>?U. rk j < card ?U) \<and> (\<forall>j\<in>?U - {0}. rk (hu_way t ! j) < rk j)"
    using st unfolding scanned_tree_def Let_def by - (elim conjE, assumption)+
  have j': "j1 \<le> m" "j1 \<notin> ?U" "hu_way t ! j1 \<in> ?U"
    "slack_of cost t (hu_p t ! (hu_way t ! j1)) j1 = 0"
    using j bspec [OF B j] z by simp_all
  show ?thesis
    unfolding tree_def Let_def e using A j' by (intro conjI impI B C D assms(2)) auto
qed

text \<open>The whole step, from the state after the scan.\<close>

lemma search_step_adjust:
  assumes d: "row_dims cost n m i K" and S: "sized t" and M: "matching m (i - 1) t"
    and F: "feasible cost n m i b t" and p0: "hu_p t ! 0 = i"
    and st: "scanned_tree cost m t" and mn: "scanned_min m t delta j1"
  defines "t2 \<equiv> fold (adjust delta) [0..<m + 1] t"
  shows "sized t2" and "feasible cost n m i (b + delta) t2" and "tree cost m i (t2\<lparr> hu_j0 := j1 \<rparr>)"
    and "hu_p t2 = hu_p t" and "hu_used t2 = hu_used t" and "hu_u t2 ! i = hu_u t ! i + delta"
proof -
  let ?U = "used_columns m t"
  have dims: "1 \<le> i" "i \<le> n" "n \<le> m" "m \<le> 11" using d by (simp_all add: row_dims_def)
  have root: "0 \<in> ?U" "\<forall>j\<in>?U - {0}. hu_p t ! j \<noteq> 0" using st unfolding scanned_tree_def Let_def by blast+
  have sub: "?U \<subseteq> {0..m}" by auto
  note rows = tree_rows [OF M dims(1) p0 root(1) sub root(2)]
  have "finite ?U" by simp
  then obtain j where "j \<in> {1..m}" "j \<notin> ?U"
    using column_outside [OF rows(3) root(1) le_trans [OF dims(2,3)]] by blast
  then have j1: "1 \<le> j1" "j1 \<le> m" "\<not> hu_used t ! j1" "delta = hu_minv t ! j1"
    and least: "\<And>j. 1 \<le> j \<Longrightarrow> j \<le> m \<Longrightarrow> \<not> hu_used t ! j \<Longrightarrow> delta \<le> hu_minv t ! j"
    using mn by (auto simp: scanned_min_def split: if_splits)
  have j1U: "j1 \<in> {1..m} - ?U" using j1 by simp
  have known: "hu_way t ! j \<in> ?U" "hu_minv t ! j = slack_of cost t (hu_p t ! (hu_way t ! j)) j"
    "\<forall>c\<in>?U. hu_minv t ! j \<le> slack_of cost t (hu_p t ! c) j" if "j \<in> {1..m} - ?U" for j
    using st that unfolding scanned_tree_def Let_def by blast+
  have "hu_p t ! (hu_way t ! j1) \<in> {1..n}" using rows(2) known(1) [OF j1U] dims(2) by fastforce
  from feasibleD(1) [OF F this, of j1] known(2) [OF j1U] j1 have pos: "0 \<le> delta" by simp
  have low: "\<forall>j\<in>{1..m} - ?U. \<forall>c\<in>?U. delta \<le> slack_of cost t (hu_p t ! c) j"
  proof (intro ballI)
    fix j c assume j: "j \<in> {1..m} - ?U" and c: "c \<in> ?U"
    have "delta \<le> hu_minv t ! j" using j by (intro least) auto
    also have "\<dots> \<le> slack_of cost t (hu_p t ! c) j" by (rule bspec [OF known(3) [OF j] c])
    finally show "delta \<le> slack_of cost t (hu_p t ! c) j" .
  qed
  have p12: "hu_p t ! j \<le> 11" if "j \<le> m" for j
  proof (cases "j = 0")
    case False
    then have "j \<in> {1..m}" using that by simp
    from matchingD(1) [OF M this] dims show ?thesis by simp
  qed (use p0 dims in simp)
  have a: "adjusted delta m t t2"
  proof -
    have "\<forall>j\<le>m. hu_used t ! j \<longrightarrow> hu_p t ! j < 12"
      using p12 by (simp add: less_Suc_eq_le eval_nat_numeral)
    from adjust_fold [OF S dims(4) this rows(1)] show ?thesis unfolding t2_def .
  qed
  show "sized t2" "hu_p t2 = hu_p t" "hu_used t2 = hu_used t" using a by (simp_all add: adjusted_def)
  show "feasible cost n m i (b + delta) t2"
    by (rule adjust_feasible [OF a F M dims p0 root pos low])
  show "hu_u t2 ! i = hu_u t ! i + delta"
    using a dims root(1) p0 by (auto simp: adjusted_def)
  have st2: "scanned_tree cost m t2" using p12 by (intro adjust_tree [OF a st dims(4)]) blast
  have U2: "used_columns m t2 = ?U" using a by (simp add: adjusted_def)
  have "hu_minv t2 ! j1 = 0" using a j1 dims by (auto simp: adjusted_def)
  moreover have "hu_p t2 ! 0 = i" using a p0 by (simp add: adjusted_def)
  ultimately show "tree cost m i (t2\<lparr> hu_j0 := j1 \<rparr>)"
    using j1U by (intro tree_at [OF st2]) (simp_all add: U2)
qed

lemma search_step:
  assumes d: "row_dims cost n m i K" and s: "searching cost n m i K h" and p: "hu_p h ! hu_j0 h \<noteq> 0"
  defines "h' \<equiv> search_body cost m h"
  shows "searching cost n m i K h'" and "hu_p h' = hu_p h"
    and "used_columns m h' = insert (hu_j0 h) (used_columns m h)"
proof -
  let ?b = "(int i - 1) * K + hu_u h ! i"
  have dims: "1 \<le> i" "i \<le> n" "n \<le> m" "m \<le> 11" using d by (simp_all add: row_dims_def)
  have T: "tree cost m i h" and M: "matching m (i - 1) h" and S: "sized h" and F: "feasible cost n m i ?b h"
    using s by (simp_all add: searching_def)
  define h1 where "h1 = h\<lparr> hu_used := (hu_used h)[hu_j0 h := True] \<rparr>"
  obtain t delta j1 where f: "fold (relax cost (hu_p h ! hu_j0 h) (hu_j0 h)) [1..<m + 1] (h1, cost_max, 0) =
      (t, delta, j1)" by (rule prod_cases3)
  define t2 where "t2 = fold (adjust delta) [0..<m + 1] t"
  have h': "h' = t2\<lparr> hu_j0 := j1 \<rparr>"
    using f by (simp add: h'_def search_body_def Let_def h1_def t2_def)
  have S1: "sized h1" using S by (simp add: h1_def sized_def)
  have "hu_minv h1 ! j \<le> cost_max" if "1 \<le> j" "j \<le> m" "\<not> hu_used h1 ! j" for j
  proof -
    have "hu_j0 h < 12" using T dims by (simp add: tree_def Let_def)
    then have "\<not> hu_used h ! j" using that(3) S
      by (auto simp: h1_def sized_def nth_list_update split: if_splits)
    with that tree_minv [OF d s, of j] show ?thesis by (simp add: h1_def)
  qed
  then have sc: "scanned_arrays cost (hu_p h ! hu_j0 h) (hu_j0 h) h1 m t" "scanned_min m t delta j1"
    using relax_fold [OF S1 dims(4), of cost "hu_p h ! hu_j0 h" "hu_j0 h"] unfolding f by auto
  note st = scan_step [OF d s p h1_def sc(1)]
  have eqs: "hu_u t = hu_u h" "hu_v t = hu_v h" "hu_p t = hu_p h" "sized t"
    using sc(1) by (simp_all add: scanned_arrays_def h1_def)
  have Mt: "matching m (i - 1) t" and Ft: "feasible cost n m i ?b t" and p0: "hu_p t ! 0 = i"
    using M F T by (simp_all add: matching_def feasible_def eqs tree_def Let_def)
  note r = search_step_adjust [OF d eqs(4) Mt Ft p0 st(1) sc(2), folded t2_def]
  show "hu_p h' = hu_p h" by (simp add: h' r(4) eqs)
  show "used_columns m h' = insert (hu_j0 h) (used_columns m h)"
    using st(2) by (simp add: h' r(5))
  have "matching m (i - 1) h'" using Mt by (simp add: h' matching_def r(4))
  moreover have "feasible cost n m i ((int i - 1) * K + hu_u h' ! i) h'"
    using r(2) by (simp add: h' feasible_def r(6) eqs add.assoc)
  moreover have "sized h'" using r(1) by (simp add: h' sized_def)
  ultimately show "searching cost n m i K h'" using r(3) by (simp add: searching_def h')
qed

text \<open>The search ends at a free column.\<close>

lemma search_ends:
  assumes d: "row_dims cost n m i K" and s: "searching cost n m i K h" and p: "hu_p h ! hu_j0 h \<noteq> 0"
  shows "\<exists>t. search cost m h = Some t \<and> searching cost n m i K t \<and> hu_p t ! hu_j0 t = 0 \<and>
    hu_p t = hu_p h \<and> used_columns m t \<noteq> {}"
proof -
  let ?P = "\<lambda>t. searching cost n m i K t \<and> hu_p t = hu_p h \<and> used_columns m t \<noteq> {}"
  let ?b = "\<lambda>t. hu_p t ! hu_j0 t \<noteq> 0"
  let ?c = "search_body cost m"
  have step: "?P (?c t) \<and> card (used_columns m (?c t)) = Suc (card (used_columns m t))"
    if "searching cost n m i K t" "hu_p t = hu_p h" "?b t" for t
  proof -
    have "hu_j0 t \<notin> used_columns m t" using that(1) by (simp add: searching_def tree_def Let_def)
    with search_step [OF d that(1,3)] that(2) show ?thesis by auto
  qed
  have P0: "?P (?c h)" using step [OF s refl p] by blast
  have less: "13 - card (used_columns m (?c t)) < 13 - card (used_columns m t)" if "?P t" "?b t" for t
  proof -
    have "card (used_columns m t) \<le> card {0..11 :: nat}"
      using d by (intro card_mono) (auto simp: row_dims_def)
    with step [of t] that show ?thesis by simp
  qed
  obtain t where t: "while_option ?b ?c (?c h) = Some t"
    using measure_while_option_Some [where P = ?P and f = "\<lambda>t. 13 - card (used_columns m t)" and b = ?b
        and c = ?c and s = "?c h"] step less P0 by blast
  have "?P t" by (rule while_option_rule [where P = ?P, OF _ t P0]) (use step in blast)
  moreover have "hu_p t ! hu_j0 t = 0" using while_option_stop [OF t] by simp
  ultimately show ?thesis using t by (simp add: search_def)
qed

section \<open>Augmenting along the way\<close>

text \<open>While the path is being shifted the current column is a hole: all other columns, column 0 among
  them, hold the rows \<open>1..i\<close>, each once, on tight edges; below the hole the way is untouched.\<close>

definition hole ::
  "int list list \<Rightarrow> nat \<Rightarrow> nat \<Rightarrow> (nat \<Rightarrow> nat) \<Rightarrow> hungarian \<Rightarrow> hungarian \<Rightarrow> bool" where
  "hole cost m i rk h0 h \<longleftrightarrow>
     (let c = hu_j0 h; U = used_columns m h0; C = {0..m} - {c}
      in sized h \<and> hu_u h = hu_u h0 \<and> hu_v h = hu_v h0 \<and> hu_way h = hu_way h0 \<and>
         (c \<in> U \<or> c = hu_j0 h0) \<and>
         (\<forall>j\<in>C. hu_p h ! j \<le> i) \<and>
         inj_on ((!) (hu_p h)) {j \<in> C. hu_p h ! j \<noteq> 0} \<and>
         (\<forall>r\<in>{1..i}. \<exists>j\<in>C. hu_p h ! j = r) \<and>
         (\<forall>j\<in>C - {0}. hu_p h ! j \<noteq> 0 \<longrightarrow> slack_of cost h0 (hu_p h ! j) j = 0) \<and>
         (\<forall>j\<in>C - {0}. hu_p h ! j = 0 \<longrightarrow> hu_v h ! j = 0) \<and>
         (\<forall>j\<in>U. rk j < rk c \<longrightarrow> hu_p h ! j = hu_p h0 ! j))"

lemma inj_on_move:
  assumes "inj_on f {j \<in> A - {c}. f j \<noteq> (0::nat)}" and "d \<in> A" and "c \<in> A" and "d \<noteq> c"
  shows "inj_on (f(c := f d)) {j \<in> A - {d}. (f(c := f d)) j \<noteq> 0}"
proof (rule inj_onI)
  fix a b assume ab: "a \<in> {j \<in> A - {d}. (f(c := f d)) j \<noteq> 0}" "b \<in> {j \<in> A - {d}. (f(c := f d)) j \<noteq> 0}"
    "(f(c := f d)) a = (f(c := f d)) b"
  let ?s = "\<lambda>j. if j = c then d else j"
  have "?s a \<in> {j \<in> A - {c}. f j \<noteq> 0}" "?s b \<in> {j \<in> A - {c}. f j \<noteq> 0}" "f (?s a) = f (?s b)"
    using ab assms(2-4) by (auto split: if_splits)
  from inj_onD [OF assms(1) this(3,1,2)] have "?s a = ?s b" .
  with ab show "a = b" by (auto split: if_splits)
qed

text \<open>What the search leaves behind: the tree with a rank for which the way goes down.\<close>

definition way_down :: "int list list \<Rightarrow> nat \<Rightarrow> (nat \<Rightarrow> nat) \<Rightarrow> hungarian \<Rightarrow> bool" where
  "way_down cost m rk h \<longleftrightarrow>
     (let U = used_columns m h; c = hu_j0 h
      in c \<in> {1..m} - U \<and> hu_p h ! c = 0 \<and>
         (\<forall>j\<in>insert c U - {0}. hu_way h ! j \<in> U \<and> rk (hu_way h ! j) < rk j \<and>
            slack_of cost h (hu_p h ! (hu_way h ! j)) j = 0 \<and> hu_p h ! (hu_way h ! j) \<noteq> 0))"

lemma hole_step:
  assumes h: "hole cost m i rk h0 h" and w: "way_down cost m rk h0" and m: "m \<le> 11" and c: "hu_j0 h \<noteq> 0"
  shows "hole cost m i rk h0 (augment_body h)" and "rk (hu_j0 (augment_body h)) < rk (hu_j0 h)"
proof -
  let ?U = "used_columns m h0"
  let ?c = "hu_j0 h"
  define d where "d = hu_way h ! ?c"
  let ?h = "augment_body h"
  have H: "sized h" "hu_u h = hu_u h0" "hu_v h = hu_v h0" "hu_way h = hu_way h0" "?c \<in> ?U \<or> ?c = hu_j0 h0"
    and le: "\<forall>j\<in>{0..m} - {?c}. hu_p h ! j \<le> i"
    and inj: "inj_on ((!) (hu_p h)) {j \<in> {0..m} - {?c}. hu_p h ! j \<noteq> 0}"
    and sur: "\<forall>r\<in>{1..i}. \<exists>j\<in>{0..m} - {?c}. hu_p h ! j = r"
    and tight: "\<forall>j\<in>{0..m} - {?c} - {0}. hu_p h ! j \<noteq> 0 \<longrightarrow> slack_of cost h0 (hu_p h ! j) j = 0"
    and free: "\<forall>j\<in>{0..m} - {?c} - {0}. hu_p h ! j = 0 \<longrightarrow> hu_v h ! j = 0"
    and low: "\<forall>j\<in>?U. rk j < rk ?c \<longrightarrow> hu_p h ! j = hu_p h0 ! j"
    using h unfolding hole_def Let_def by - (elim conjE, assumption)+
  have W: "\<forall>j\<in>insert (hu_j0 h0) ?U - {0}. hu_way h0 ! j \<in> ?U \<and> rk (hu_way h0 ! j) < rk j \<and>
      slack_of cost h0 (hu_p h0 ! (hu_way h0 ! j)) j = 0 \<and> hu_p h0 ! (hu_way h0 ! j) \<noteq> 0"
    and j0: "hu_j0 h0 \<in> {1..m} - ?U"
    using w unfolding way_down_def Let_def by - (elim conjE, assumption)+
  have "?c \<in> insert (hu_j0 h0) ?U - {0}" using H(5) c by blast
  from bspec [OF W this] have d: "d \<in> ?U" "rk d < rk ?c" "slack_of cost h0 (hu_p h0 ! d) ?c = 0"
    "hu_p h0 ! d \<noteq> 0" unfolding d_def H(4) by simp_all
  have pd: "hu_p h ! d = hu_p h0 ! d" using low d(1,2) by blast
  have cm: "?c \<le> m" "?c \<le> 11" using H(5) j0 m by auto
  have dc: "d \<noteq> ?c" using d(2) by auto
  have dm: "d \<in> {0..m}" "d \<in> {0..m} - {?c}" using d(1) dc by auto
  have a: "?h = h\<lparr> hu_p := (hu_p h)[?c := hu_p h ! d], hu_j0 := d \<rparr>"
    by (simp add: augment_body_def Let_def d_def)
  have p: "(!) (hu_p ?h) = ((!) (hu_p h))(?c := hu_p h ! d)"
    using H(1) cm by (auto simp: a sized_def)
  show "rk (hu_j0 ?h) < rk ?c" using d(2) by (simp add: a)
  have le': "hu_p ?h ! j \<le> i" if "j \<in> {0..m} - {d}" for j
    using le that dm(2) unfolding p by auto
  have inj': "inj_on ((!) (hu_p ?h)) {j \<in> {0..m} - {d}. hu_p ?h ! j \<noteq> 0}"
    using inj_on_move [OF inj dm(1) _ dc] cm(1) unfolding p by simp
  have sur': "\<exists>j\<in>{0..m} - {d}. hu_p ?h ! j = r" if r: "r \<in> {1..i}" for r
  proof -
    obtain j where j: "j \<in> {0..m} - {?c}" "hu_p h ! j = r" using bspec [OF sur r] by blast
    show ?thesis
    proof (cases "j = d")
      case True
      with j(2) dc cm(1) show ?thesis unfolding p by (intro bexI [of _ ?c]) auto
    next
      case False
      with j show ?thesis unfolding p by (intro bexI [of _ j]) auto
    qed
  qed
  have tight': "hu_p ?h ! j \<noteq> 0 \<longrightarrow> slack_of cost h0 (hu_p ?h ! j) j = 0"
    and free': "hu_p ?h ! j = 0 \<longrightarrow> hu_v h ! j = 0" if "j \<in> {0..m} - {d} - {0}" for j
    using tight free that d(3,4) pd unfolding p by auto
  have low': "rk j < rk d \<longrightarrow> hu_p ?h ! j = hu_p h0 ! j" if "j \<in> ?U" for j
    using low that d(2) unfolding p by auto
  have e: "hu_j0 ?h = d" "hu_u ?h = hu_u h" "hu_v ?h = hu_v h" "hu_way ?h = hu_way h" "sized ?h"
    using H(1) by (simp_all add: a sized_def)
  show "hole cost m i rk h0 ?h"
    unfolding hole_def Let_def e(1-4)
    using H(2-4) d(1) le' sur' tight' free' low' by (intro conjI ballI e(5) inj') simp_all
qed

lemma search_hole:
  assumes d: "row_dims cost n m i K" and s: "searching cost n m i K t" and p: "hu_p t ! hu_j0 t = 0"
    and ne: "used_columns m t \<noteq> {}"
  shows "\<exists>rk. way_down cost m rk t \<and> hole cost m i rk t t"
proof -
  let ?U = "used_columns m t" and ?c = "hu_j0 t"
  have dims: "1 \<le> i" using d by (simp add: row_dims_def)
  have T: "tree cost m i t" and M: "matching m (i - 1) t" and S: "sized t"
    and F: "feasible cost n m i ((int i - 1) * K + hu_u t ! i) t" using s by (simp_all add: searching_def)
  obtain rk where rk: "\<forall>j\<in>?U. rk j < card ?U" "\<forall>j\<in>?U - {0}. rk (hu_way t ! j) < rk j"
    using T unfolding tree_def Let_def by blast
  have p0: "hu_p t ! 0 = i" and cU: "?c \<le> m" "?c \<notin> ?U" and "0 \<in> ?U"
    and wc: "hu_way t ! ?c \<in> ?U" "slack_of cost t (hu_p t ! (hu_way t ! ?c)) ?c = 0"
    using T ne unfolding tree_def Let_def by blast+
  then have c: "?c \<in> {1..m} - ?U" by (cases "?c = 0") auto
  have e: "hu_p t ! j \<noteq> 0" "hu_way t ! j \<in> ?U" "slack_of cost t (hu_p t ! (hu_way t ! j)) j = 0"
    if "j \<in> ?U - {0}" for j
    using T that unfolding tree_def Let_def by blast+
  have nz: "hu_p t ! j \<noteq> 0" if "j \<in> ?U" for j
    using e(1) [of j] that p0 dims by (cases "j = 0") auto
  let ?rk = "rk(?c := card ?U)"
  have r: "?rk (hu_way t ! j) < ?rk j" if "j \<in> insert ?c ?U - {0}" for j
  proof (cases "j = ?c")
    case True
    with rk(1) wc(1) cU(2) show ?thesis by auto
  next
    case False
    then have j: "j \<in> ?U - {0}" using that by blast
    have "hu_way t ! j \<noteq> ?c" using e(2) [OF j] cU(2) by metis
    with bspec [OF rk(2) j] False show ?thesis by simp
  qed
  have "way_down cost m ?rk t"
    unfolding way_down_def Let_def
  proof (intro conjI ballI c p)
    fix j assume j: "j \<in> insert ?c ?U - {0}"
    show "?rk (hu_way t ! j) < ?rk j" by (rule r [OF j])
    show w: "hu_way t ! j \<in> ?U"
    proof (cases "j = ?c")
      case False
      then have "j \<in> ?U - {0}" using j by blast
      from e(2) [OF this] show ?thesis .
    qed (use wc(1) in simp)
    show "hu_p t ! (hu_way t ! j) \<noteq> 0" by (rule nz [OF w])
    show "slack_of cost t (hu_p t ! (hu_way t ! j)) j = 0"
    proof (cases "j = ?c")
      case False
      then have "j \<in> ?U - {0}" using j by blast
      from e(3) [OF this] show ?thesis .
    qed (use wc(2) in simp)
  qed
  moreover have "hole cost m i ?rk t t"
    unfolding hole_def Let_def
  proof (intro conjI ballI impI S refl)
    fix j assume "j \<in> {0..m} - {?c}"
    then show "hu_p t ! j \<le> i"
      using matchingD(1) [OF M, of j] p0 by (cases "j = 0") auto
  next
    let ?S = "{j \<in> {0..m} - {?c}. hu_p t ! j \<noteq> 0}"
    show "inj_on ((!) (hu_p t)) ?S"
      by (rule tree_rows(1) [OF M dims p0]) (use p0 dims c in auto)
  next
    fix r assume r: "r \<in> {1..i}"
    show "\<exists>j\<in>{0..m} - {?c}. hu_p t ! j = r"
    proof (cases "r = i")
      case True
      with p0 c show ?thesis by (intro bexI [of _ 0]) auto
    next
      case False
      then have "r \<in> {1..i - 1}" using r by auto
      from matchingD(3) [OF M this] p r show ?thesis by (metis Diff_iff atLeastAtMost_iff le0
            less_one not_less singletonD)
    qed
  next
    fix j assume j: "j \<in> {0..m} - {?c} - {0}"
    then have "j \<in> {1..m}" by auto
    with feasibleD(2,3) [OF F] show "hu_p t ! j \<noteq> 0 \<Longrightarrow> slack_of cost t (hu_p t ! j) j = 0"
      "hu_p t ! j = 0 \<Longrightarrow> hu_v t ! j = 0" by blast+
  qed simp
  ultimately show ?thesis by blast
qed

lemma augment_ends:
  assumes h: "hole cost m i rk t t" and w: "way_down cost m rk t" and m: "m \<le> 11"
  shows "\<exists>t'. augment t = Some t' \<and> hole cost m i rk t t' \<and> hu_j0 t' = 0"
proof -
  have "hu_j0 t \<noteq> 0" using w by (auto simp: way_down_def Let_def)
  note first = hole_step [OF h w m this]
  let ?P = "hole cost m i rk t" and ?b = "\<lambda>h. hu_j0 h \<noteq> 0" and ?f = "\<lambda>h. rk (hu_j0 h)"
  have step: "?P (augment_body s) \<and> ?f (augment_body s) < ?f s" if "?P s" "?b s" for s
    using hole_step [OF that(1) w m] that(2) by blast
  obtain t' where t': "while_option ?b augment_body (augment_body t) = Some t'"
    using measure_while_option_Some [where P = ?P and f = ?f and b = ?b and c = augment_body
        and s = "augment_body t"] step first(1) by blast
  have "?P t'" by (rule while_option_rule [where P = ?P, OF _ t' first(1)]) (use step in blast)
  moreover have "hu_j0 t' = 0" using while_option_stop [OF t'] by simp
  ultimately show ?thesis using t' by (simp add: augment_def)
qed

section \<open>All rows\<close>

text \<open>After row \<open>k\<close>.\<close>

definition rows_done :: "int list list \<Rightarrow> nat \<Rightarrow> nat \<Rightarrow> nat \<Rightarrow> int \<Rightarrow> hungarian \<Rightarrow> bool" where
  "rows_done cost n m k K h \<longleftrightarrow> sized h \<and> matching m k h \<and> feasible cost n m k (int k * K) h"

lemma row_start:
  assumes d: "row_dims cost n m i K" and r: "rows_done cost n m (i - 1) K h"
  defines "t \<equiv> reset_columns m (h\<lparr> hu_j0 := 0, hu_p := (hu_p h)[0 := i] \<rparr>)"
  shows "searching cost n m i K t" and "hu_p t ! hu_j0 t = i"
proof -
  have dims: "1 \<le> i" "i \<le> n" "n \<le> m" "m \<le> 11" using d by (simp_all add: row_dims_def)
  have S: "sized h" and M: "matching m (i - 1) h" and F: "feasible cost n m (i - 1) (int (i - 1) * K) h"
    using r by (simp_all add: rows_done_def)
  let ?h = "h\<lparr> hu_j0 := 0, hu_p := (hu_p h)[0 := i] \<rparr>"
  have "sized ?h" using S by (simp add: sized_def)
  from reset_columns_fold [OF this dims(4)] have t: "hu_u t = hu_u h" "hu_v t = hu_v h"
    "hu_p t = (hu_p h)[0 := i]" "hu_j0 t = 0" "sized t" "\<forall>j\<le>m. hu_minv t ! j = cost_max \<and> \<not> hu_used t ! j"
    by (simp_all add: t_def Let_def)
  have p: "hu_p t ! j = hu_p h ! j" if "j \<in> {1..m}" for j using that by (simp add: t(3))
  have p0: "hu_p t ! 0 = i" using S by (simp add: t(3) sized_def)
  then show "hu_p t ! hu_j0 t = i" by (simp add: t(4))
  have "inj_on ((!) (hu_p t)) {j \<in> {1..m}. hu_p t ! j \<noteq> 0} =
      inj_on ((!) (hu_p h)) {j \<in> {1..m}. hu_p h ! j \<noteq> 0}"
  proof -
    have "{j \<in> {1..m}. hu_p t ! j \<noteq> 0} = {j \<in> {1..m}. hu_p h ! j \<noteq> 0}" using p by auto
    then show ?thesis by (simp only:) (rule inj_on_cong, use p in simp)
  qed
  then have "matching m (i - 1) t"
    using M p unfolding matching_def by simp
  moreover have "hu_u h ! i = 0" using feasibleD(4) [OF F, of i] dims by simp
  then have "feasible cost n m i ((int i - 1) * K + hu_u t ! i) t"
    using F dims p unfolding feasible_def t(1,2) by (auto simp: of_nat_diff)
  moreover have "tree cost m i t"
    using t(4,6) p0 by (auto simp: tree_def Let_def)
  ultimately show "searching cost n m i K t" using t(5) by (simp add: searching_def)
qed

lemma assign_row_done:
  assumes d: "row_dims cost n m i K" and r: "rows_done cost n m (i - 1) K h"
  shows "\<exists>t. assign_row cost m i h = Some t \<and> rows_done cost n m i K t"
proof -
  have dims: "1 \<le> i" "i \<le> n" "n \<le> m" "m \<le> 11" using d by (simp_all add: row_dims_def)
  let ?h = "reset_columns m (h\<lparr> hu_j0 := 0, hu_p := (hu_p h)[0 := i] \<rparr>)"
  note start = row_start [OF d r]
  obtain t where t: "search cost m ?h = Some t" "searching cost n m i K t" "hu_p t ! hu_j0 t = 0"
    "used_columns m t \<noteq> {}"
    using search_ends [OF d start(1)] start(2) dims by auto
  obtain rk where rk: "way_down cost m rk t" "hole cost m i rk t t"
    using search_hole [OF d t(2-4)] by blast
  obtain t' where t': "augment t = Some t'" "hole cost m i rk t t'" "hu_j0 t' = 0"
    using augment_ends [OF rk(2,1) dims(4)] by blast
  have F: "feasible cost n m i ((int i - 1) * K + hu_u t ! i) t" using t(2) by (simp add: searching_def)
  have "hu_u t ! i \<le> K"
    using slack_small(2) [OF d t(2), of 1 1] dims by simp
  then have b: "(int i - 1) * K + hu_u t ! i \<le> int i * K" by (simp add: algebra_simps)
  have C: "{0..m} - {0} = {1..m}" by auto
  have H: "sized t'" "hu_u t' = hu_u t" "hu_v t' = hu_v t"
    and le: "\<forall>j\<in>{1..m}. hu_p t' ! j \<le> i"
    and inj: "inj_on ((!) (hu_p t')) {j \<in> {1..m}. hu_p t' ! j \<noteq> 0}"
    and sur: "\<forall>r\<in>{1..i}. \<exists>j\<in>{1..m}. hu_p t' ! j = r"
    and tight: "\<forall>j\<in>{1..m} - {0}. hu_p t' ! j \<noteq> 0 \<longrightarrow> slack_of cost t (hu_p t' ! j) j = 0"
    and free: "\<forall>j\<in>{1..m} - {0}. hu_p t' ! j = 0 \<longrightarrow> hu_v t' ! j = 0"
    using t'(2) unfolding hole_def Let_def t'(3) C by - (elim conjE, assumption)+
  have "matching m i t'" unfolding matching_def using le inj sur by (intro conjI)
  moreover have "feasible cost n m i (int i * K) t'"
    unfolding feasible_def
  proof (intro conjI ballI impI)
    fix r j assume "r \<in> {1..n}" "j \<in> {1..m}"
    with feasibleD(1) [OF F] show "0 \<le> slack_of cost t' r j" unfolding H .
  next
    fix j assume j: "j \<in> {1..m}"
    then have "j \<in> {1..m} - {0}" by simp
    with tight free show "hu_p t' ! j \<noteq> 0 \<Longrightarrow> slack_of cost t' (hu_p t' ! j) j = 0"
      "hu_p t' ! j = 0 \<Longrightarrow> hu_v t' ! j = 0" unfolding H(2,3) by blast+
    show "hu_v t' ! j \<le> 0" "- (int i * K) \<le> hu_v t' ! j"
      using feasibleD(3) [OF F j] b unfolding H by linarith+
  next
    fix r assume r: "r \<in> {1..n}"
    show "0 \<le> hu_u t' ! r" "hu_u t' ! r \<le> int i * K" "i < r \<Longrightarrow> hu_u t' ! r = 0"
      using feasibleD(4) [OF F r] b unfolding H by auto
  qed
  ultimately show ?thesis using H(1) t(1) t'(1) by (simp add: assign_row_def Let_def rows_done_def)
qed

lemma assign_rows_done:
  assumes "\<forall>i\<in>{Suc k..n}. row_dims cost n m i K" and "rows_done cost n m k K h" and "k \<le> n"
  shows "\<exists>t. assign_rows cost m [Suc k..<n + 1] h = Some t \<and> rows_done cost n m n K t"
  using assms
proof (induction "n - k" arbitrary: k h)
  case 0
  then show ?case by simp
next
  case (Suc x)
  then have k: "k < n" by simp
  obtain t where t: "assign_row cost m (Suc k) h = Some t" "rows_done cost n m (Suc k) K t"
    using assign_row_done [of cost n m "Suc k" K h] Suc.prems k by auto
  have "x = n - Suc k" using Suc.hyps(2) by simp
  then show ?case
  proof -
    have "[Suc k..<n + 1] = Suc k # [Suc (Suc k)..<n + 1]" using k by (simp add: upt_conv_Cons del: upt_Suc)
    then show ?thesis using Suc.hyps(1) [OF \<open>x = n - Suc k\<close> _ t(2)] Suc.prems(1) k t(1)
      by (simp del: upt_Suc)
  qed
qed

section \<open>Optimality\<close>

text \<open>An assignment between \<open>a\<close> things and \<open>b\<close> others: pairs that share no component, as many as the
  smaller side has.\<close>

definition is_assignment :: "nat \<Rightarrow> nat \<Rightarrow> (nat \<times> nat) set \<Rightarrow> bool" where
  "is_assignment a b M \<longleftrightarrow>
     M \<subseteq> {..<a} \<times> {..<b} \<and> inj_on fst M \<and> inj_on snd M \<and> card M = min a b"

lemma is_assignment_swap: "is_assignment a b M \<Longrightarrow> is_assignment b a (prod.swap ` M)"
proof -
  assume M: "is_assignment a b M"
  then have "inj_on snd M" "inj_on fst M" by (simp_all add: is_assignment_def)
  then have "inj_on fst (prod.swap ` M)" "inj_on snd (prod.swap ` M)"
    by (auto simp: inj_on_def)
  moreover have "card (prod.swap ` M) = min b a"
    using M by (simp add: is_assignment_def card_image min.commute)
  ultimately show ?thesis using M by (auto simp: is_assignment_def)
qed

text \<open>The pairs of row and column the final array holds, both counted from zero.\<close>

definition rc_pairs :: "hungarian \<Rightarrow> nat \<Rightarrow> (nat \<times> nat) set" where
  "rc_pairs h m = (\<lambda>j. (hu_p h ! j - 1, j - 1)) ` {j \<in> {1..m}. hu_p h ! j \<noteq> 0}"

lemma rc_pairs_assignment:
  assumes M: "matching m n h" and le: "n \<le> m"
  shows "is_assignment n m (rc_pairs h m)"
proof -
  let ?J = "{j \<in> {1..m}. hu_p h ! j \<noteq> 0}"
  have inj: "inj_on ((!) (hu_p h)) ?J" by (rule matchingD(2) [OF M])
  have j: "inj_on (\<lambda>j. j - 1) ?J" by (rule inj_onI) auto
  have r: "inj_on (\<lambda>j. hu_p h ! j - 1) ?J"
  proof (rule inj_onI)
    fix j k assume a: "j \<in> ?J" "k \<in> ?J" "hu_p h ! j - 1 = hu_p h ! k - 1"
    then have "hu_p h ! j \<noteq> 0" "hu_p h ! k \<noteq> 0" by simp_all
    with a(3) have "hu_p h ! j = hu_p h ! k" by arith
    from inj_onD [OF inj this a(1,2)] show "j = k" .
  qed
  have pr: "inj_on (\<lambda>j. (hu_p h ! j - 1, j - 1)) ?J" using j by (auto simp: inj_on_def)
  have "(!) (hu_p h) ` ?J = {1..n}"
  proof
    show "(!) (hu_p h) ` ?J \<subseteq> {1..n}" using matchingD(1) [OF M] by (auto simp: Suc_le_eq)
    show "{1..n} \<subseteq> (!) (hu_p h) ` ?J"
    proof
      fix x assume x: "x \<in> {1..n}"
      then obtain j where "j \<in> {1..m}" "hu_p h ! j = x" using matchingD(3) [OF M] by blast
      with x show "x \<in> (!) (hu_p h) ` ?J" by force
    qed
  qed
  then have "card ?J = n" using card_image [OF inj] by simp
  then have "card (rc_pairs h m) = n" using card_image [OF pr] by (simp add: rc_pairs_def)
  moreover have "inj_on fst (rc_pairs h m)"
    using r by (auto simp: rc_pairs_def intro!: inj_onI dest: inj_onD)
  moreover have "inj_on snd (rc_pairs h m)"
    using j by (auto simp: rc_pairs_def intro!: inj_onI dest: inj_onD)
  moreover have "rc_pairs h m \<subseteq> {..<n} \<times> {..<m}"
  proof
    fix x assume "x \<in> rc_pairs h m"
    then obtain j where j: "j \<in> {1..m}" "hu_p h ! j \<noteq> 0" "x = (hu_p h ! j - 1, j - 1)"
      by (auto simp: rc_pairs_def)
    with matchingD(1) [OF M j(1)] show "x \<in> {..<n} \<times> {..<m}" by auto
  qed
  ultimately show ?thesis using le by (simp add: is_assignment_def)
qed

text \<open>The potentials bound the cost of every assignment from below, and the one found meets them.\<close>

lemma potential_bound:
  assumes F: "feasible cost n m n b h" and M: "is_assignment n m A" and le: "n \<le> m"
  shows "(\<Sum>r<n. hu_u h ! (r + 1)) + (\<Sum>j<m. hu_v h ! (j + 1)) \<le> (\<Sum>(r, j)\<in>A. cost ! r ! j)"
proof -
  have A: "A \<subseteq> {..<n} \<times> {..<m}" "inj_on fst A" "inj_on snd A" "card A = n"
    using M le by (simp_all add: is_assignment_def min_def)
  have fin: "finite A" using A(1) finite_subset by blast
  have fst: "fst ` A = {..<n}"
  proof (rule card_subset_eq)
    show "fst ` A \<subseteq> {..<n}" using A(1) by auto
    show "card (fst ` A) = card {..<n}" using A(2,4) by (simp add: card_image)
  qed simp
  have "(\<Sum>j<m. hu_v h ! (j + 1)) \<le> (\<Sum>j\<in>snd ` A. hu_v h ! (j + 1))"
  proof -
    have "snd ` A \<subseteq> {..<m}" using A(1) by auto
    then have "(\<Sum>j<m. hu_v h ! (j + 1)) =
        (\<Sum>j\<in>{..<m} - snd ` A. hu_v h ! (j + 1)) + (\<Sum>j\<in>snd ` A. hu_v h ! (j + 1))"
      by (simp add: sum.subset_diff)
    moreover have "(\<Sum>j\<in>{..<m} - snd ` A. hu_v h ! (j + 1)) \<le> 0"
      using feasibleD(3) [OF F] by (intro sum_nonpos) auto
    ultimately show ?thesis by linarith
  qed
  also have "\<dots> = (\<Sum>x\<in>A. hu_v h ! (snd x + 1))" by (simp add: sum.reindex [OF A(3)])
  finally have v: "(\<Sum>j<m. hu_v h ! (j + 1)) \<le> (\<Sum>x\<in>A. hu_v h ! (snd x + 1))" .
  have u: "(\<Sum>r<n. hu_u h ! (r + 1)) = (\<Sum>x\<in>A. hu_u h ! (fst x + 1))"
    by (simp add: fst [symmetric] sum.reindex [OF A(2)])
  have "hu_u h ! (fst x + 1) + hu_v h ! (snd x + 1) \<le> cost ! fst x ! snd x" if "x \<in> A" for x
  proof -
    have "fst x + 1 \<in> {1..n}" "snd x + 1 \<in> {1..m}" using A(1) that by auto
    from feasibleD(1) [OF F this] show ?thesis by (simp add: slack_def)
  qed
  then have "(\<Sum>x\<in>A. hu_u h ! (fst x + 1) + hu_v h ! (snd x + 1)) \<le> (\<Sum>x\<in>A. cost ! fst x ! snd x)"
    by (rule sum_mono)
  then have "(\<Sum>x\<in>A. hu_u h ! (fst x + 1)) + (\<Sum>x\<in>A. hu_v h ! (snd x + 1)) \<le>
      (\<Sum>(r, j)\<in>A. cost ! r ! j)" by (simp only: sum.distrib case_prod_unfold)
  with u v show ?thesis by linarith
qed

lemma potential_met:
  assumes F: "feasible cost n m n b h" and M: "matching m n h" and le: "n \<le> m"
  shows "(\<Sum>(r, j)\<in>rc_pairs h m. cost ! r ! j) =
    (\<Sum>r<n. hu_u h ! (r + 1)) + (\<Sum>j<m. hu_v h ! (j + 1))"
proof -
  let ?A = "rc_pairs h m"
  have A: "?A \<subseteq> {..<n} \<times> {..<m}" "inj_on fst ?A" "inj_on snd ?A" "card ?A = n"
    using rc_pairs_assignment [OF M le] le by (simp_all add: is_assignment_def min_def)
  have fin: "finite ?A" using A(1) finite_subset by blast
  have fst: "fst ` ?A = {..<n}"
  proof (rule card_subset_eq)
    show "fst ` ?A \<subseteq> {..<n}" using A(1) by auto
    show "card (fst ` ?A) = card {..<n}" using A(2,4) by (simp add: card_image)
  qed simp
  have "hu_v h ! (j + 1) = 0" if "j \<in> {..<m} - snd ` ?A" for j
  proof -
    have j: "j + 1 \<in> {1..m}" using that by simp
    have "hu_p h ! (j + 1) = 0"
    proof (rule ccontr)
      assume "hu_p h ! (j + 1) \<noteq> 0"
      with j have "(hu_p h ! (j + 1) - 1, j) \<in> ?A" unfolding rc_pairs_def by force
      with that show False by force
    qed
    with feasibleD(3) [OF F j] show ?thesis by simp
  qed
  then have "(\<Sum>j<m. hu_v h ! (j + 1)) = (\<Sum>j\<in>snd ` ?A. hu_v h ! (j + 1))"
    using A(1) by (intro sum.mono_neutral_right) auto
  then have v: "(\<Sum>j<m. hu_v h ! (j + 1)) = (\<Sum>x\<in>?A. hu_v h ! (snd x + 1))"
    by (simp add: sum.reindex [OF A(3)])
  have u: "(\<Sum>r<n. hu_u h ! (r + 1)) = (\<Sum>x\<in>?A. hu_u h ! (fst x + 1))"
    by (simp add: fst [symmetric] sum.reindex [OF A(2)])
  have "cost ! fst x ! snd x = hu_u h ! (fst x + 1) + hu_v h ! (snd x + 1)" if x: "x \<in> ?A" for x
  proof -
    obtain j where j: "j \<in> {1..m}" "hu_p h ! j \<noteq> 0" "x = (hu_p h ! j - 1, j - 1)"
      using x by (auto simp: rc_pairs_def)
    from feasibleD(2) [OF F j(1,2)] j show ?thesis by (simp add: slack_def)
  qed
  then have "(\<Sum>x\<in>?A. cost ! fst x ! snd x) = (\<Sum>x\<in>?A. hu_u h ! (fst x + 1) + hu_v h ! (snd x + 1))"
    by (rule sum.cong [OF refl])
  then have "(\<Sum>(r, j)\<in>?A. cost ! r ! j) =
      (\<Sum>x\<in>?A. hu_u h ! (fst x + 1)) + (\<Sum>x\<in>?A. hu_v h ! (snd x + 1))"
    by (simp only: sum.distrib case_prod_unfold)
  with u v show ?thesis by linarith
qed

section \<open>The result arrays\<close>

text \<open>Two arrays record a set of pairs: the first maps left components to right ones, the second right
  ones to left ones, minus one standing for no partner.\<close>

definition records :: "(nat \<times> nat) set \<Rightarrow> int list \<Rightarrow> int list \<Rightarrow> bool" where
  "records S o2n n2o \<longleftrightarrow>
     length o2n = 11 \<and> length n2o = 11 \<and>
     (\<forall>a<11. (o2n ! a = - 1 \<or> 0 \<le> o2n ! a) \<and> (\<forall>b. o2n ! a = int b \<longleftrightarrow> (a, b) \<in> S)) \<and>
     (\<forall>b<11. (n2o ! b = - 1 \<or> 0 \<le> n2o ! b) \<and> (\<forall>a. n2o ! b = int a \<longleftrightarrow> (a, b) \<in> S))"

lemma records_insert:
  assumes "records S o2n n2o" and "a < 11" and "b < 11" and "a \<notin> fst ` S" and "b \<notin> snd ` S"
  shows "records (insert (a, b) S) (o2n[a := int b]) (n2o[b := int a])"
proof -
  have "(a, y) \<notin> S" "(x, b) \<notin> S" for x y using assms(4,5) by force+
  with assms(1-3) show ?thesis by (auto simp: records_def nth_list_update)
qed

lemma rc_pairs_Suc:
  "rc_pairs h (Suc k) =
     (if hu_p h ! Suc k = 0 then rc_pairs h k else insert (hu_p h ! Suc k - 1, k) (rc_pairs h k))"
proof -
  have "{j \<in> {1..Suc k}. hu_p h ! j \<noteq> 0} =
      (if hu_p h ! Suc k = 0 then {j \<in> {1..k}. hu_p h ! j \<noteq> 0}
       else insert (Suc k) {j \<in> {1..k}. hu_p h ! j \<noteq> 0})"
    by (auto simp: le_Suc_eq)
  then show ?thesis by (simp add: rc_pairs_def)
qed

abbreviation oriented :: "bool \<Rightarrow> (nat \<times> nat) set \<Rightarrow> (nat \<times> nat) set" where
  "oriented rows_are_old S \<equiv> (if rows_are_old then S else prod.swap ` S)"

lemma write_pairs:
  assumes M: "matching m n h" and d: "n \<le> m" "m \<le> 11" and r: "records {} o2n n2o" and k: "k \<le> m"
  shows "case fold (write_pair ro (hu_p h)) [1..<k + 1] (o2n, n2o) of
    (o2n', n2o') \<Rightarrow> records (oriented ro (rc_pairs h k)) o2n' n2o'"
  using k
proof (induction k)
  case 0
  show ?case using r by (simp add: rc_pairs_def)
next
  case (Suc k)
  obtain o1 n1 where f: "fold (write_pair ro (hu_p h)) [1..<k + 1] (o2n, n2o) = (o1, n1)" by fastforce
  have IH: "records (oriented ro (rc_pairs h k)) o1 n1" using Suc f by simp
  let ?r = "hu_p h ! Suc k - 1"
  have step: "fold (write_pair ro (hu_p h)) [1..<Suc k + 1] (o2n, n2o) = write_pair ro (hu_p h) (Suc k) (o1, n1)"
    using f by simp
  show ?case
  proof (cases "hu_p h ! Suc k = 0")
    case True
    with IH show ?thesis unfolding step by (cases ro) (simp_all add: write_pair_def rc_pairs_Suc)
  next
    case False
    have sk: "Suc k \<in> {1..m}" using Suc.prems by simp
    have r: "?r < 11" "k < 11" using matchingD(1) [OF M sk] d Suc.prems False by simp_all
    have new: "?r \<notin> fst ` rc_pairs h k" "k \<notin> snd ` rc_pairs h k"
    proof -
      show "?r \<notin> fst ` rc_pairs h k"
      proof
        assume "?r \<in> fst ` rc_pairs h k"
        then obtain j where j: "j \<in> {1..k}" "hu_p h ! j \<noteq> 0" "hu_p h ! Suc k - 1 = hu_p h ! j - 1"
          by (auto simp: rc_pairs_def)
        then have e: "hu_p h ! Suc k = hu_p h ! j" using False by arith
        have "j \<in> {1..m}" using j(1) Suc.prems by simp
        from inj_onD [OF matchingD(2) [OF M] e] False j this sk show False by simp
      qed
      show "k \<notin> snd ` rc_pairs h k" by (auto simp: rc_pairs_def)
    qed
    show ?thesis
    proof (cases ro)
      case True
      with records_insert [OF _ r, of "rc_pairs h k" o1 n1] IH new False show ?thesis
        unfolding step by (simp add: write_pair_def rc_pairs_Suc Let_def)
    next
      case ro: False
      have "k \<notin> fst ` prod.swap ` rc_pairs h k" "?r \<notin> snd ` prod.swap ` rc_pairs h k"
        using new by (simp_all add: image_image)
      with records_insert [OF _ r(2,1), of "prod.swap ` rc_pairs h k" o1 n1] IH False ro show ?thesis
        unfolding step by (simp add: write_pair_def rc_pairs_Suc Let_def)
    qed
  qed
qed

section \<open>Costs\<close>

text \<open>Sixteen-bit coordinates, and the squared distance.\<close>

abbreviation coord16 :: "int \<Rightarrow> bool" where
  "coord16 x \<equiv> - 32768 \<le> x \<and> x \<le> 32767"

abbreviation slot16 :: "ai_trackpad_physical_slot \<Rightarrow> bool" where
  "slot16 s \<equiv> coord16 (ps_x s) \<and> coord16 (ps_y s)"

abbreviation contact16 :: "ai_apple_trackpad_contact \<Rightarrow> bool" where
  "contact16 c \<equiv> coord16 (ac_x c) \<and> coord16 (ac_y c)"

definition dist2 :: "ai_trackpad_physical_slot \<Rightarrow> ai_apple_trackpad_contact \<Rightarrow> int" where
  "dist2 s c = (ps_x s - ac_x c) ^ 2 + (ps_y s - ac_y c) ^ 2"

lemma square16:
  assumes "coord16 x" and "coord16 y"
  shows "0 \<le> (x - y) ^ 2" and "(x - y) ^ 2 \<le> 65535 ^ 2"
proof -
  have "\<bar>x - y\<bar> \<le> 65535" using assms by linarith
  then show "(x - y) ^ 2 \<le> 65535 ^ 2" by (metis abs_ge_zero power2_abs power_mono)
qed simp

lemma coordinate_cost_dist2:
  assumes "slot16 s" and "contact16 c"
  shows "coordinate_cost s c = dist2 s c" and "0 \<le> dist2 s c" and "dist2 s c \<le> 2 * 65535 ^ 2"
proof -
  have ab: "(if d < 0 then - d else d) * (if d < 0 then - d else d) = d ^ 2" for d :: int
    by (simp add: power2_eq_square)
  note x = square16 [of "ps_x s" "ac_x c"] and y = square16 [of "ps_y s" "ac_y c"]
  show "0 \<le> dist2 s c" "dist2 s c \<le> 2 * 65535 ^ 2" using x y assms by (simp_all add: dist2_def)
  have "(ps_x s - ac_x c) ^ 2 mod 2 ^ 64 = (ps_x s - ac_x c) ^ 2"
    "(ps_y s - ac_y c) ^ 2 mod 2 ^ 64 = (ps_y s - ac_y c) ^ 2"
    using x y assms by (simp_all add: mod_pos_pos_trivial)
  then show "coordinate_cost s c = dist2 s c"
    using x y assms unfolding coordinate_cost_def Let_def ab by (simp add: dist2_def cost_max_def)
qed

section \<open>The assignment\<close>

lemma hungarian_start_done:
  assumes "small_costs cost n m K" and "n \<le> m" and "m \<le> 11"
  shows "rows_done cost n m 0 K hungarian_start"
proof -
  have z: "hu_p hungarian_start ! j = 0" "hu_u hungarian_start ! j = 0" "hu_v hungarian_start ! j = 0"
    if "j \<le> m" for j
    using that assms(3) by (simp_all add: hungarian_start_def)
  have "matching m 0 hungarian_start"
  proof -
    have "{j \<in> {1..m}. hu_p hungarian_start ! j \<noteq> 0} = {}" using z(1) by auto
    with z(1) show ?thesis unfolding matching_def by (simp only: inj_on_empty) simp
  qed
  moreover have "feasible cost n m 0 (int 0 * K) hungarian_start"
    using assms z by (simp add: feasible_def slack_def small_costs_def)
  ultimately show ?thesis by (simp add: rows_done_def sized_def hungarian_start_def)
qed

text \<open>The assignment of a matrix of small costs: found, complete and optimal.\<close>

lemma assign_rows_optimal:
  assumes c: "small_costs cost n m K" and d: "n \<le> m" "m \<le> 11"
  shows "\<exists>h. assign_rows cost m [1..<n + 1] hungarian_start = Some h \<and> matching m n h \<and>
    is_assignment n m (rc_pairs h m) \<and>
    (\<forall>A. is_assignment n m A \<longrightarrow> (\<Sum>(r, j)\<in>rc_pairs h m. cost ! r ! j) \<le> (\<Sum>(r, j)\<in>A. cost ! r ! j))"
proof -
  have "\<forall>i\<in>{Suc 0..n}. row_dims cost n m i K" using c d by (simp add: row_dims_def)
  from assign_rows_done [OF this hungarian_start_done [OF c d]] obtain h where
    h: "assign_rows cost m [1..<n + 1] hungarian_start = Some h" "rows_done cost n m n K h" by auto
  then have M: "matching m n h" and F: "feasible cost n m n (int n * K) h" by (simp_all add: rows_done_def)
  from h(1) M rc_pairs_assignment [OF M d(1)] potential_met [OF F M d(1)] potential_bound [OF F _ d(1)]
  show ?thesis by (intro exI [of _ h]) simp
qed

lemma sum_swap: "(\<Sum>(b, a)\<in>prod.swap ` A. f a b) = (\<Sum>(a, b)\<in>A. f a b)"
proof -
  have "inj_on prod.swap A" by simp
  from sum.reindex [OF this, of "\<lambda>(b, a). f a b"] show ?thesis by (simp add: case_prod_unfold)
qed

lemma swap_swap_image [simp]: "prod.swap ` prod.swap ` A = A"
  by (simp add: image_image)

text \<open>The arrays the tracker passes in record no pair.\<close>

abbreviation no_pairs :: "int list" where
  "no_pairs \<equiv> replicate 11 (- 1)"

lemma records_none: "records {} no_pairs no_pairs"
  by (simp add: records_def)

text \<open>The cost of an old contact and a new one, by their places in the two lists.\<close>

definition pair_cost ::
  "ai_trackpad_physical_slot list \<Rightarrow> ai_apple_trackpad_frame \<Rightarrow> nat list \<Rightarrow> nat \<Rightarrow> nat \<Rightarrow> int" where
  "pair_cost slots frame old_slots a b =
     coordinate_cost (slots ! (old_slots ! a)) (af_contacts frame ! b)"

definition in_range16 ::
  "ai_trackpad_physical_slot list \<Rightarrow> ai_apple_trackpad_frame \<Rightarrow> nat list \<Rightarrow> nat \<Rightarrow> bool" where
  "in_range16 slots frame old_slots old_count \<longleftrightarrow>
     old_count \<le> 11 \<and> af_count frame \<le> 11 \<and>
     (\<forall>a<old_count. slot16 (slots ! (old_slots ! a))) \<and>
     (\<forall>b<af_count frame. contact16 (af_contacts frame ! b))"

lemma pair_cost_small:
  assumes "in_range16 slots frame old_slots old_count" and "a < old_count" and "b < af_count frame"
  shows "0 \<le> pair_cost slots frame old_slots a b" and "pair_cost slots frame old_slots a b \<le> 2 * 65535 ^ 2"
    and "pair_cost slots frame old_slots a b = dist2 (slots ! (old_slots ! a)) (af_contacts frame ! b)"
proof -
  have "slot16 (slots ! (old_slots ! a))" "contact16 (af_contacts frame ! b)"
    using assms by (simp_all add: in_range16_def)
  from coordinate_cost_dist2 [OF this] show "0 \<le> pair_cost slots frame old_slots a b"
    "pair_cost slots frame old_slots a b \<le> 2 * 65535 ^ 2"
    "pair_cost slots frame old_slots a b = dist2 (slots ! (old_slots ! a)) (af_contacts frame ! b)"
    by (simp_all add: pair_cost_def)
qed

lemma minimum_assignment_pairs:
  assumes r: "in_range16 slots frame old_slots old_count"
  defines "c \<equiv> pair_cost slots frame old_slots"
  shows "\<exists>o2n n2o M.
    minimum_assignment slots frame old_slots old_count no_pairs no_pairs = Some (o2n, n2o) \<and>
    records M o2n n2o \<and> is_assignment old_count (af_count frame) M \<and>
    (\<forall>A. is_assignment old_count (af_count frame) A \<longrightarrow> (\<Sum>(a, b)\<in>M. c a b) \<le> (\<Sum>(a, b)\<in>A. c a b))"
proof -
  define ro where "ro = (old_count \<le> af_count frame)"
  define n where "n = (if ro then old_count else af_count frame)"
  define m where "m = (if ro then af_count frame else old_count)"
  define cost where "cost = cost_matrix slots (af_contacts frame) old_slots ro n m"
  have d: "n \<le> m" "m \<le> 11" using r by (auto simp: n_def m_def ro_def in_range16_def)
  have entry: "cost ! x ! y = (if ro then c x y else c y x)" if "x < n" "y < m" for x y
    using that by (simp add: cost_def cost_matrix_def c_def pair_cost_def Let_def)
  have "small_costs cost n m (2 * 65535 ^ 2)"
    unfolding small_costs_def
  proof (intro conjI ballI)
    fix x y assume "x \<in> {1..n}" "y \<in> {1..m}"
    then have xy: "x - 1 < n" "y - 1 < m" by auto
    with pair_cost_small [OF r] show "0 \<le> entry cost x y" "entry cost x y \<le> 2 * 65535 ^ 2"
      unfolding entry [OF xy] c_def by (auto simp: n_def m_def split: if_splits)
  qed (simp_all add: cost_max_def)
  from assign_rows_optimal [OF this d] obtain h where
    h: "assign_rows cost m [1..<n + 1] hungarian_start = Some h" "matching m n h"
      "is_assignment n m (rc_pairs h m)"
      "\<And>A. is_assignment n m A \<Longrightarrow> (\<Sum>(r, j)\<in>rc_pairs h m. cost ! r ! j) \<le> (\<Sum>(r, j)\<in>A. cost ! r ! j)"
    by blast
  obtain o2n n2o where f: "fold (write_pair ro (hu_p h)) [1..<m + 1] (no_pairs, no_pairs) = (o2n, n2o)"
    by fastforce
  let ?M = "oriented ro (rc_pairs h m)"
  have run: "minimum_assignment slots frame old_slots old_count no_pairs no_pairs = Some (o2n, n2o)"
    using h(1) f unfolding minimum_assignment_def Let_def cost_def n_def m_def ro_def by simp
  have rec: "records ?M o2n n2o" using write_pairs [OF h(2) d records_none order_refl, of ro] unfolding f by simp
  have total: "(\<Sum>(r, j)\<in>A. cost ! r ! j) = (\<Sum>(a, b)\<in>oriented ro A. c a b)" if "is_assignment n m A" for A
  proof -
    have "A \<subseteq> {..<n} \<times> {..<m}" using that by (simp add: is_assignment_def)
    then have "(\<Sum>(r, j)\<in>A. cost ! r ! j) = (\<Sum>(r, j)\<in>A. if ro then c r j else c j r)"
      by (intro sum.cong) (auto simp: entry)
    then show ?thesis by (simp add: sum_swap)
  qed
  have flip: "is_assignment old_count (af_count frame) (oriented ro A)" if "is_assignment n m A" for A
    using that is_assignment_swap [OF that] by (cases ro) (simp_all add: n_def m_def)
  have unflip: "is_assignment n m (oriented ro A) \<and> oriented ro (oriented ro A) = A"
    if "is_assignment old_count (af_count frame) A" for A
    using that is_assignment_swap [OF that] by (cases ro) (simp_all add: n_def m_def)
  have "(\<Sum>(a, b)\<in>?M. c a b) \<le> (\<Sum>(a, b)\<in>A. c a b)"
    if A: "is_assignment old_count (af_count frame) A" for A
  proof -
    have B: "is_assignment n m (oriented ro A)" and e: "oriented ro (oriented ro A) = A"
      using unflip [OF A] by (rule conjunct1, rule conjunct2)
    from h(4) [OF B] show ?thesis unfolding total [OF h(3)] total [OF B] e .
  qed
  with run rec flip [OF h(3)] show ?thesis by blast
qed

text \<open>C1. The matching of two frames is complete, the arrays are inverse to each other, and the
  sum of squared distances is the least possible: for contacts with 16-bit coordinates the assignment
  returns, matches as many contacts as the smaller frame has, and no other such matching has a smaller
  sum of squared distances.\<close>

theorem assignment_optimal:
  assumes "in_range16 slots frame old_slots old_count"
  shows "\<exists>o2n n2o M.
    minimum_assignment slots frame old_slots old_count no_pairs no_pairs = Some (o2n, n2o) \<and>
    records M o2n n2o \<and> is_assignment old_count (af_count frame) M \<and>
    (\<forall>A. is_assignment old_count (af_count frame) A \<longrightarrow>
       (\<Sum>(a, b)\<in>M. dist2 (slots ! (old_slots ! a)) (af_contacts frame ! b)) \<le>
       (\<Sum>(a, b)\<in>A. dist2 (slots ! (old_slots ! a)) (af_contacts frame ! b)))"
proof -
  have total: "(\<Sum>(a, b)\<in>A. pair_cost slots frame old_slots a b) =
      (\<Sum>(a, b)\<in>A. dist2 (slots ! (old_slots ! a)) (af_contacts frame ! b))"
    if "is_assignment old_count (af_count frame) A" for A
    using that pair_cost_small(3) [OF assms] by (intro sum.cong) (auto simp: is_assignment_def)
  from minimum_assignment_pairs [OF assms] show ?thesis
    by (elim exE conjE, intro exI conjI) (assumption | simp add: total)+
qed

section \<open>Witness\<close>

text \<open>Two fingers that cross over: the assignment prefers the two short moves.\<close>

definition slots_demo :: "ai_trackpad_physical_slot list" where
  "slots_demo =
     [\<lparr> ps_active = True, ps_admitted = True, ps_windows_id = 0, ps_x = 0, ps_y = 0 \<rparr>,
      \<lparr> ps_active = True, ps_admitted = True, ps_windows_id = 1, ps_x = 100, ps_y = 0 \<rparr>]"

definition frame_demo :: ai_apple_trackpad_frame where
  "frame_demo = \<lparr> af_button = False, af_count = 2,
     af_contacts = [\<lparr> ac_x = 101, ac_y = 2 \<rparr>, \<lparr> ac_x = 3, ac_y = 1 \<rparr>] \<rparr>"

theorem assignment_optimal_witness:
  "\<exists>o2n n2o M. minimum_assignment slots_demo frame_demo [0, 1] 2 no_pairs no_pairs = Some (o2n, n2o) \<and>
     records M o2n n2o \<and> is_assignment 2 2 M \<and>
     (\<Sum>(a, b)\<in>M. dist2 (slots_demo ! ([0, 1] ! a)) (af_contacts frame_demo ! b)) \<le> 15"
proof -
  have "in_range16 slots_demo frame_demo [0, 1] 2"
    by (simp add: in_range16_def slots_demo_def frame_demo_def less_2_cases_iff)
  from assignment_optimal [OF this] obtain o2n n2o M where
    r: "minimum_assignment slots_demo frame_demo [0, 1] 2 no_pairs no_pairs = Some (o2n, n2o)"
      "records M o2n n2o" "is_assignment 2 2 M"
    and best: "\<And>A. is_assignment 2 2 A \<Longrightarrow>
      (\<Sum>(a, b)\<in>M. dist2 (slots_demo ! ([0, 1] ! a)) (af_contacts frame_demo ! b)) \<le>
      (\<Sum>(a, b)\<in>A. dist2 (slots_demo ! ([0, 1] ! a)) (af_contacts frame_demo ! b))"
    by (auto simp: frame_demo_def)
  have "is_assignment 2 2 {(0, 1), (1, 0)}" by (simp add: is_assignment_def)
  from best [OF this] r show ?thesis by (auto simp: dist2_def slots_demo_def frame_demo_def)
qed

end
