(* ===== verification/Tracker.thy ===== *)
theory Tracker
  imports Assignment Discovery "HOL-Library.Multiset"
begin

text \<open>
  The trackpad frames of \<^verbatim>\<open>drivers/apple-input/protocol/src/apple_trackpad_frame.c\<close>: the decoder
  of a raw report, and the tracker that gives the contacts of successive frames the identifiers
  Windows sees.  Counts and identifiers are natural numbers, coordinates integers; the C arrays are
  lists of their full length.  The one loop whose end is not evident is that of the assignment: the
  tracker's update is \<open>None\<close> where it would not return.
\<close>

section \<open>Decoding\<close>

definition get_le_i16 :: "u8 list \<Rightarrow> nat \<Rightarrow> int" where
  "get_le_i16 bytes i =
     (let value = get_le16 bytes i
      in if value AND 0x8000 \<noteq> 0 then uint value - 0x10000 else uint value)"

definition ai_apple_trackpad_release_candidate :: "u8 list \<Rightarrow> bool" where
  "ai_apple_trackpad_release_candidate report =
     (if length report < 48 - 2 then False
      else let contact_count = unat (report ! 30)
           in if contact_count > 11 then False
              else let expected_length = 48 - 2 + contact_count * 30
                   in if length report \<noteq> expected_length then False
                      else if contact_count = 0 then True
                      else list_ex (\<lambda>index. get_le16 report (48 + index * 30 + 16) = 0)
                             [0..<contact_count])"

definition contact_zero :: ai_apple_trackpad_contact where
  "contact_zero = \<lparr> ac_x = 0, ac_y = 0 \<rparr>"

definition frame_zero :: ai_apple_trackpad_frame where
  "frame_zero = \<lparr> af_button = False, af_count = 0, af_contacts = replicate 11 contact_zero \<rparr>"

definition decode_contact :: "u8 list \<Rightarrow> nat \<Rightarrow> ai_apple_trackpad_frame \<Rightarrow> ai_apple_trackpad_frame" where
  "decode_contact report index out =
     (let contact = 48 + index * 30
      in if get_le16 report (contact + 16) = 0 then out
         else out\<lparr> af_contacts := (af_contacts out)[af_count out :=
                     \<lparr> ac_x = get_le_i16 report (contact + 2), ac_y = get_le_i16 report (contact + 4) \<rparr>],
                   af_count := af_count out + 1 \<rparr>)"

definition ai_apple_trackpad_decode :: "u8 list \<Rightarrow> ai_status \<times> ai_apple_trackpad_frame" where
  "ai_apple_trackpad_decode report =
     (if length report < 48 - 2 then (AI_ERR_LENGTH, frame_zero)
      else let wire_count = unat (report ! 30)
           in if wire_count > 11 then (AI_ERR_LENGTH, frame_zero)
              else let expected_length = 48 - 2 + wire_count * 30
                   in if length report \<noteq> expected_length then (AI_ERR_LENGTH, frame_zero)
                      else if report ! 1 \<noteq> report ! 31 \<or> report ! 1 > 1
                      then (AI_ERR_PROTOCOL, frame_zero)
                      else (AI_OK, fold (decode_contact report) [0..<wire_count]
                                     (frame_zero\<lparr> af_button := report ! 1 \<noteq> 0 \<rparr>)))"

section \<open>The tracker\<close>

record ai_trackpad_tracker =
  tr_slots :: "ai_trackpad_physical_slot list"

record ai_trackpad_output_contact =
  oc_tip :: bool
  oc_id :: nat
  oc_x :: int
  oc_y :: int

record ai_trackpad_output_frame =
  ou_button :: bool
  ou_count :: nat
  ou_active_count :: nat
  ou_suppressed_count :: nat
  ou_contacts :: "ai_trackpad_output_contact list"

definition output_zero :: ai_trackpad_output_frame where
  "output_zero = \<lparr> ou_button = False, ou_count = 0, ou_active_count = 0, ou_suppressed_count = 0,
     ou_contacts = replicate 5 \<lparr> oc_tip = False, oc_id = 0, oc_x = 0, oc_y = 0 \<rparr> \<rparr>"

definition append_output ::
  "ai_trackpad_output_frame \<Rightarrow> bool \<Rightarrow> nat \<Rightarrow> int \<Rightarrow> int \<Rightarrow> ai_trackpad_output_frame" where
  "append_output out tip i x y =
     out\<lparr> ou_contacts := (ou_contacts out)[ou_count out :=
            \<lparr> oc_tip = tip, oc_id = i, oc_x = x, oc_y = y \<rparr>],
          ou_count := ou_count out + 1,
          ou_active_count := ou_active_count out + (if tip then 1 else 0) \<rparr>"

text \<open>The inner loop of the insertion sort, from place \<open>j\<close> down, and the sort.\<close>

fun insert_down ::
  "ai_trackpad_output_contact \<Rightarrow> nat \<Rightarrow> ai_trackpad_output_contact list \<Rightarrow> ai_trackpad_output_contact list" where
  "insert_down value 0 xs = xs[0 := value]"
| "insert_down value (Suc j) xs =
     (if oc_id (xs ! j) > oc_id value then insert_down value j (xs[Suc j := xs ! j])
      else xs[Suc j := value])"

definition sort_output_by_id :: "ai_trackpad_output_frame \<Rightarrow> ai_trackpad_output_frame" where
  "sort_output_by_id out =
     out\<lparr> ou_contacts := fold (\<lambda>i xs. insert_down (xs ! i) i xs) [1..<ou_count out] (ou_contacts out) \<rparr>"

text \<open>The slots in use, and the identifiers that no slot in use holds.\<close>

definition used_slots :: "ai_trackpad_physical_slot list \<Rightarrow> nat list" where
  "used_slots slots = filter (\<lambda>index. ps_active (slots ! index)) [0..<11]"

definition ids_available :: "ai_trackpad_physical_slot list \<Rightarrow> nat list \<Rightarrow> bool list" where
  "ids_available slots old_slots =
     fold (\<lambda>index available.
             let slot = slots ! (old_slots ! index)
             in if ps_admitted slot \<and> ps_windows_id slot < 5
                then available[ps_windows_id slot := False] else available)
       [0..<length old_slots] (replicate 5 True)"

text \<open>One old contact: it moves to its new place, or it is released.\<close>

definition update_old ::
  "ai_apple_trackpad_frame \<Rightarrow> nat list \<Rightarrow> int list \<Rightarrow> nat
   \<Rightarrow> ai_trackpad_physical_slot list \<times> ai_trackpad_output_frame
   \<Rightarrow> ai_trackpad_physical_slot list \<times> ai_trackpad_output_frame" where
  "update_old frame old_slots old_to_new index s =
     (case s of (slots, out) \<Rightarrow>
        let k = old_slots ! index; slot = slots ! k
        in if old_to_new ! index \<ge> 0
           then let contact = af_contacts frame ! nat (old_to_new ! index);
                    slot = slot\<lparr> ps_x := ac_x contact, ps_y := ac_y contact \<rparr>
                in (slots[k := slot],
                    if ps_admitted slot
                    then append_output out True (ps_windows_id slot) (ps_x slot) (ps_y slot) else out)
           else (slots[k := slot\<lparr> ps_active := False, ps_admitted := False \<rparr>],
                 if ps_admitted slot
                 then append_output out False (ps_windows_id slot) (ps_x slot) (ps_y slot) else out))"

text \<open>The new contacts: each takes the first free slot, and the first available identifier if there is
  one.\<close>

fun update_new ::
  "ai_apple_trackpad_frame \<Rightarrow> int list \<Rightarrow> nat list
   \<Rightarrow> ai_trackpad_physical_slot list \<Rightarrow> bool list \<Rightarrow> ai_trackpad_output_frame
   \<Rightarrow> ai_status \<times> ai_trackpad_physical_slot list \<times> ai_trackpad_output_frame" where
  "update_new frame new_to_old [] slots available out = (AI_OK, slots, out)"
| "update_new frame new_to_old (index # rest) slots available out =
     (if new_to_old ! index \<ge> 0 then update_new frame new_to_old rest slots available out
      else case find (\<lambda>k. \<not> ps_active (slots ! k)) [0..<11] of
             None \<Rightarrow> (AI_ERR_PROTOCOL, slots, out)
           | Some k \<Rightarrow>
               let contact = af_contacts frame ! index;
                   slot = (slots ! k)\<lparr> ps_active := True, ps_admitted := False,
                                       ps_x := ac_x contact, ps_y := ac_y contact \<rparr>
               in case find (\<lambda>i. available ! i) [0..<5] of
                    None \<Rightarrow> update_new frame new_to_old rest (slots[k := slot]) available out
                  | Some i \<Rightarrow>
                      update_new frame new_to_old rest
                        (slots[k := slot\<lparr> ps_admitted := True, ps_windows_id := i \<rparr>])
                        (available[i := False])
                        (append_output out True i (ps_x slot) (ps_y slot)))"

definition count_suppressed ::
  "ai_trackpad_physical_slot list \<Rightarrow> ai_trackpad_output_frame \<Rightarrow> ai_trackpad_output_frame" where
  "count_suppressed slots out =
     fold (\<lambda>index out. if ps_active (slots ! index) \<and> \<not> ps_admitted (slots ! index)
                       then out\<lparr> ou_suppressed_count := ou_suppressed_count out + 1 \<rparr> else out)
       [0..<11] out"

definition ai_trackpad_tracker_update ::
  "ai_trackpad_tracker \<Rightarrow> ai_apple_trackpad_frame
   \<Rightarrow> (ai_status \<times> ai_trackpad_tracker \<times> ai_trackpad_output_frame) option" where
  "ai_trackpad_tracker_update tracker frame =
     (if af_count frame > 11 then Some (AI_ERR_LENGTH, tracker, output_zero)
      else
        let out = output_zero\<lparr> ou_button := af_button frame \<rparr>;
            slots = tr_slots tracker;
            old_slots = used_slots slots;
            available = ids_available slots old_slots
        in case minimum_assignment slots frame old_slots (length old_slots)
                  (replicate 11 (- 1)) (replicate 11 (- 1)) of
             None \<Rightarrow> None
           | Some (old_to_new, new_to_old) \<Rightarrow>
               (case fold (update_old frame old_slots old_to_new) [0..<length old_slots] (slots, out) of
                  (slots, out) \<Rightarrow>
                    (case update_new frame new_to_old [0..<af_count frame] slots available out of
                       (status, slots, out) \<Rightarrow>
                         if status \<noteq> AI_OK then Some (status, tracker\<lparr> tr_slots := slots \<rparr>, out)
                         else Some (AI_OK, tracker\<lparr> tr_slots := slots \<rparr>,
                                    sort_output_by_id (count_suppressed slots out)))))"

section \<open>Coordinates\<close>

text \<open>A sixteen-bit word with its top bit set is the larger half of the range.\<close>

lemma top_bit_16: "w AND 0x8000 \<noteq> 0 \<longleftrightarrow> 0x8000 \<le> uint (w :: u16)"
proof -
  have e: "(0x8000 :: u16) = push_bit 15 1" by simp
  have top: "bit (0x8000 :: u16) n \<longleftrightarrow> n = 15" if "n < 16" for n
    using that unfolding e bit_push_bit_iff by (auto simp: bit_1_iff)
  have m: "w AND 0x8000 = (if bit w 15 then 0x8000 else 0)"
  proof (rule bit_word_eqI)
    fix n assume "n < LENGTH(16)"
    then have "n < 16" by simp
    from top [OF this] show "bit (w AND 0x8000) n = bit (if bit w 15 then 0x8000 else 0 :: u16) n"
      unfolding bit_and_iff by (cases "n = 15") auto
  qed
  have less: "uint w < 65536" using unsigned_less [of w, where 'a = int] by simp
  have "w AND 0x8000 \<noteq> 0 \<longleftrightarrow> bit w 15" by (simp add: m)
  also have "\<dots> \<longleftrightarrow> bit (uint w) 15" by (simp add: bit_uint_iff)
  also have "\<dots> \<longleftrightarrow> odd (uint w div 32768)" by (simp add: bit_iff_odd)
  also have "\<dots> \<longleftrightarrow> 0x8000 \<le> uint w"
  proof -
    define q r where "q = uint w div 32768" and "r = uint w mod 32768"
    have s: "uint w = 32768 * q + r" "0 \<le> r" "r < 32768" by (simp_all add: q_def r_def)
    moreover have "0 \<le> uint w" by simp
    ultimately have "q = 0 \<or> q = 1" using less by linarith
    with s show ?thesis unfolding q_def [symmetric] by auto
  qed
  finally show ?thesis .
qed

lemma get_le_i16_range: "coord16 (get_le_i16 bytes i)"
proof -
  have "uint (get_le16 bytes i) < 65536" "0 \<le> uint (get_le16 bytes i)"
    using unsigned_less [of "get_le16 bytes i", where 'a = int] by simp_all
  then have "- 32768 \<le> uint (get_le16 bytes i)" "uint (get_le16 bytes i) - 65536 < 0" by linarith+
  then show ?thesis by (auto simp: get_le_i16_def Let_def top_bit_16)
qed

text \<open>A frame the tracker accepts: eleven contact entries with sixteen-bit coordinates.  Every frame
  the decoder returns is one.\<close>

definition frame_ok :: "ai_apple_trackpad_frame \<Rightarrow> bool" where
  "frame_ok f \<longleftrightarrow> af_count f \<le> 11 \<and> length (af_contacts f) = 11 \<and> (\<forall>b<11. contact16 (af_contacts f ! b))"

lemma decode_fold:
  assumes "n \<le> 11" and "length (af_contacts f) = 11" and "af_count f = 0"
    and "\<forall>b<11. contact16 (af_contacts f ! b)"
  shows "let g = fold (decode_contact report) [0..<n] f
    in frame_ok g \<and> af_count g \<le> n"
  using assms(1)
proof (induction n)
  case 0
  with assms show ?case by (simp add: frame_ok_def)
next
  case (Suc n)
  let ?g = "fold (decode_contact report) [0..<n] f"
  have IH: "frame_ok ?g" "af_count ?g \<le> n" using Suc by (simp_all add: Let_def)
  then have "frame_ok (decode_contact report n ?g)" "af_count (decode_contact report n ?g) \<le> Suc n"
    using Suc.prems by (auto simp: frame_ok_def decode_contact_def Let_def nth_list_update get_le_i16_range)
  then show ?case by (simp add: Let_def)
qed

lemma decode_ok: "frame_ok (snd (ai_apple_trackpad_decode report))"
proof -
  have z: "frame_ok frame_zero" by (simp add: frame_ok_def frame_zero_def contact_zero_def)
  have "frame_ok (fold (decode_contact report) [0..<n] (frame_zero\<lparr> af_button := b \<rparr>))" if "n \<le> 11" for n b
    using decode_fold [OF that, of "frame_zero\<lparr> af_button := b \<rparr>" report]
    by (simp add: Let_def frame_zero_def contact_zero_def)
  then show ?thesis using z by (auto simp: ai_apple_trackpad_decode_def Let_def)
qed

section \<open>The output list\<close>

text \<open>The output holds the contacts \<open>L\<close>.\<close>

definition out_holds :: "ai_trackpad_output_contact list \<Rightarrow> ai_trackpad_output_frame \<Rightarrow> bool" where
  "out_holds L out \<longleftrightarrow>
     length (ou_contacts out) = 5 \<and> length L \<le> 5 \<and> ou_count out = length L \<and>
     take (length L) (ou_contacts out) = L \<and> ou_active_count out = length (filter oc_tip L) \<and>
     ou_suppressed_count out = 0"

lemma append_output_holds:
  assumes "out_holds L out" and "length L < 5"
  shows "out_holds (L @ [\<lparr> oc_tip = t, oc_id = i, oc_x = x, oc_y = y \<rparr>]) (append_output out t i x y)"
  using assms by (auto simp: out_holds_def append_output_def take_Suc_conv_app_nth)

lemma ids_bound: "distinct (map f L) \<Longrightarrow> \<forall>c\<in>set L. f c < (5::nat) \<Longrightarrow> length L \<le> 5"
proof -
  assume d: "distinct (map f L)" and b: "\<forall>c\<in>set L. f c < 5"
  have "length L = card (set (map f L))" using distinct_card [OF d] by simp
  also have "\<dots> \<le> card {..<5::nat}" using b by (intro card_mono) auto
  finally show ?thesis by simp
qed

section \<open>The invariant of the tracker\<close>

text \<open>Eleven slots; a slot with an identifier is in use; no two hold the same identifier; the
  coordinates of the slots in use are sixteen-bit.\<close>

definition slots_ok :: "ai_trackpad_physical_slot list \<Rightarrow> bool" where
  "slots_ok slots \<longleftrightarrow>
     length slots = 11 \<and>
     (\<forall>k<11. ps_admitted (slots ! k) \<longrightarrow> ps_active (slots ! k) \<and> ps_windows_id (slots ! k) < 5) \<and>
     inj_on (\<lambda>k. ps_windows_id (slots ! k)) {k. k < 11 \<and> ps_admitted (slots ! k)} \<and>
     (\<forall>k<11. ps_active (slots ! k) \<longrightarrow> slot16 (slots ! k))"

text \<open>The identifiers in use with their places, and the places of all contacts.\<close>

definition held :: "ai_trackpad_physical_slot list \<Rightarrow> (nat \<times> int \<times> int) set" where
  "held slots = (\<lambda>k. (ps_windows_id (slots ! k), ps_x (slots ! k), ps_y (slots ! k))) `
     {k. k < 11 \<and> ps_admitted (slots ! k)}"

definition held_ids :: "ai_trackpad_physical_slot list \<Rightarrow> nat set" where
  "held_ids slots = (\<lambda>k. ps_windows_id (slots ! k)) ` {k. k < 11 \<and> ps_admitted (slots ! k)}"

definition places :: "ai_trackpad_physical_slot list \<Rightarrow> (int \<times> int) multiset" where
  "places slots = {# (ps_x s, ps_y s). s \<in># filter_mset ps_active (mset slots) #}"

lemma used_slots_props:
  "set (used_slots slots) = {k. k < 11 \<and> ps_active (slots ! k)}" "distinct (used_slots slots)"
  "length (used_slots slots) \<le> 11"
  using length_filter_le [of "\<lambda>k. ps_active (slots ! k)" "[0..<11]"]
  by (auto simp: used_slots_def)

lemma used_slots_nth:
  "a < length (used_slots slots) \<Longrightarrow> used_slots slots ! a < 11 \<and> ps_active (slots ! (used_slots slots ! a))"
  using nth_mem [of a "used_slots slots"] used_slots_props(1) [of slots] by auto

section \<open>The old contacts\<close>

text \<open>What becomes of the \<open>a\<close>-th slot in use, and what is reported for it.\<close>

definition moved :: "ai_apple_trackpad_frame \<Rightarrow> int list \<Rightarrow> nat \<Rightarrow> ai_trackpad_physical_slot \<Rightarrow> ai_trackpad_physical_slot" where
  "moved frame o2n a s =
     (if o2n ! a \<ge> 0
      then s\<lparr> ps_x := ac_x (af_contacts frame ! nat (o2n ! a)), ps_y := ac_y (af_contacts frame ! nat (o2n ! a)) \<rparr>
      else s\<lparr> ps_active := False, ps_admitted := False \<rparr>)"

definition report_old ::
  "ai_apple_trackpad_frame \<Rightarrow> int list \<Rightarrow> nat list \<Rightarrow> ai_trackpad_physical_slot list \<Rightarrow> nat \<Rightarrow> ai_trackpad_output_contact" where
  "report_old frame o2n old slots a =
     (let s = slots ! (old ! a); t = moved frame o2n a s
      in \<lparr> oc_tip = o2n ! a \<ge> 0, oc_id = ps_windows_id s, oc_x = ps_x t, oc_y = ps_y t \<rparr>)"

definition reports_old ::
  "ai_apple_trackpad_frame \<Rightarrow> int list \<Rightarrow> nat list \<Rightarrow> ai_trackpad_physical_slot list \<Rightarrow> nat \<Rightarrow> ai_trackpad_output_contact list" where
  "reports_old frame o2n old slots k =
     map (report_old frame o2n old slots) (filter (\<lambda>a. ps_admitted (slots ! (old ! a))) [0..<k])"

lemma reports_old_ids:
  assumes "slots_ok slots" and "k \<le> length (used_slots slots)"
  shows "distinct (map oc_id (reports_old frame o2n (used_slots slots) slots k))"
    and "\<forall>c\<in>set (reports_old frame o2n (used_slots slots) slots k). oc_id c < 5"
    and "length (reports_old frame o2n (used_slots slots) slots k) \<le> 5"
proof -
  let ?old = "used_slots slots"
  let ?A = "filter (\<lambda>a. ps_admitted (slots ! (?old ! a))) [0..<k]"
  have a: "?old ! a < 11" "ps_admitted (slots ! (?old ! a))" if "a \<in> set ?A" for a
    using that used_slots_nth [of a slots] assms(2) by auto
  have "inj_on (\<lambda>a. ps_windows_id (slots ! (?old ! a))) (set ?A)"
  proof (rule inj_onI)
    fix a b assume ab: "a \<in> set ?A" "b \<in> set ?A"
      "ps_windows_id (slots ! (?old ! a)) = ps_windows_id (slots ! (?old ! b))"
    have "inj_on (\<lambda>k. ps_windows_id (slots ! k)) {k. k < 11 \<and> ps_admitted (slots ! k)}"
      using assms(1) by (simp add: slots_ok_def)
    from inj_onD [OF this ab(3)] a [OF ab(1)] a [OF ab(2)] have "?old ! a = ?old ! b" by simp
    then show "a = b" using nth_eq_iff_index_eq [OF used_slots_props(2), of a slots b] ab(1,2) assms(2) by auto
  qed
  moreover have "map oc_id (reports_old frame o2n ?old slots k) = map (\<lambda>a. ps_windows_id (slots ! (?old ! a))) ?A"
    by (simp add: reports_old_def report_old_def Let_def)
  ultimately show d: "distinct (map oc_id (reports_old frame o2n ?old slots k))"
    by (simp add: distinct_map)
  show b: "\<forall>c\<in>set (reports_old frame o2n ?old slots k). oc_id c < 5"
  proof
    fix c assume "c \<in> set (reports_old frame o2n ?old slots k)"
    then obtain x where x: "x \<in> set ?A" "c = report_old frame o2n ?old slots x"
      unfolding reports_old_def set_map by blast
    have "\<forall>k<11. ps_admitted (slots ! k) \<longrightarrow> ps_windows_id (slots ! k) < 5"
      using assms(1) by (simp add: slots_ok_def)
    with a [OF x(1)] x(2) show "oc_id c < 5" by (simp add: report_old_def Let_def)
  qed
  show "length (reports_old frame o2n ?old slots k) \<le> 5" by (rule ids_bound [OF d b])
qed

lemma reports_old_Suc:
  "reports_old frame o2n old slots (Suc k) =
     (if ps_admitted (slots ! (old ! k)) then reports_old frame o2n old slots k @ [report_old frame o2n old slots k]
      else reports_old frame o2n old slots k)"
  by (simp add: reports_old_def)

lemma old_fold:
  assumes ok: "slots_ok slots" and out: "out_holds [] out" and k: "k \<le> length (used_slots slots)"
  defines "old \<equiv> used_slots slots"
  shows "case fold (update_old frame old o2n) [0..<k] (slots, out) of (slots1, out1) \<Rightarrow>
    length slots1 = 11 \<and> (\<forall>a<k. slots1 ! (old ! a) = moved frame o2n a (slots ! (old ! a))) \<and>
    (\<forall>j. j \<notin> set (take k old) \<longrightarrow> slots1 ! j = slots ! j) \<and>
    out_holds (reports_old frame o2n old slots k) out1 \<and> ou_button out1 = ou_button out"
  using k
proof (induction k)
  case 0
  then show ?case using ok out by (simp add: reports_old_def slots_ok_def)
next
  case (Suc k)
  obtain s1 out1 where f: "fold (update_old frame old o2n) [0..<k] (slots, out) = (s1, out1)" by fastforce
  have k: "k < length old" using Suc.prems by (simp add: old_def)
  have IH: "length s1 = 11" "\<forall>a<k. s1 ! (old ! a) = moved frame o2n a (slots ! (old ! a))"
    "\<forall>j. j \<notin> set (take k old) \<longrightarrow> s1 ! j = slots ! j" "out_holds (reports_old frame o2n old slots k) out1"
    "ou_button out1 = ou_button out"
    using Suc f by simp_all
  have d: "distinct old" unfolding old_def by (rule used_slots_props)
  have new: "old ! k \<notin> set (take k old)"
    using d k by (simp add: distinct_conv_nth in_set_conv_nth)
  then have sk: "s1 ! (old ! k) = slots ! (old ! k)" using IH(3) by blast
  have lt: "old ! k < 11" using used_slots_nth [of k slots] k by (simp add: old_def)
  have len: "length (reports_old frame o2n old slots k) < 5" if "ps_admitted (slots ! (old ! k))"
  proof -
    have "length (reports_old frame o2n old slots (Suc k)) \<le> 5"
      unfolding old_def using Suc.prems by (intro reports_old_ids(3) ok)
    with that show ?thesis by (simp add: reports_old_Suc)
  qed
  let ?out = "if ps_admitted (slots ! (old ! k))
    then append_output out1 (o2n ! k \<ge> 0) (ps_windows_id (slots ! (old ! k)))
      (ps_x (moved frame o2n k (slots ! (old ! k)))) (ps_y (moved frame o2n k (slots ! (old ! k)))) else out1"
  have step: "update_old frame old o2n k (s1, out1) = (s1[old ! k := moved frame o2n k (slots ! (old ! k))], ?out)"
    by (simp add: update_old_def Let_def sk moved_def)
  have "out_holds (reports_old frame o2n old slots (Suc k)) ?out"
    using append_output_holds [OF IH(4) len] IH(4) by (simp add: reports_old_Suc report_old_def Let_def)
  moreover have "ou_button ?out = ou_button out" using IH(5) by (simp add: append_output_def)
  moreover have "s1[old ! k := moved frame o2n k (slots ! (old ! k))] ! (old ! a) =
      moved frame o2n a (slots ! (old ! a))" if "a < Suc k" for a
  proof (cases "a = k")
    case True
    then show ?thesis using IH(1) lt by simp
  next
    case False
    then have "a < k" using that by simp
    then have "old ! a \<noteq> old ! k" using d k by (simp add: nth_eq_iff_index_eq)
    with IH(2) \<open>a < k\<close> show ?thesis by simp
  qed
  moreover have "s1[old ! k := moved frame o2n k (slots ! (old ! k))] ! j = slots ! j"
    if "j \<notin> set (take (Suc k) old)" for j
    using that IH(3) k by (simp add: take_Suc_conv_app_nth)
  ultimately show ?case using f step IH(1) by simp
qed

section \<open>The new contacts\<close>

lemma slots_okD:
  assumes "slots_ok slots"
  shows "length slots = 11" and "k < 11 \<Longrightarrow> ps_admitted (slots ! k) \<Longrightarrow> ps_active (slots ! k)"
    and "k < 11 \<Longrightarrow> ps_admitted (slots ! k) \<Longrightarrow> ps_windows_id (slots ! k) < 5"
    and "inj_on (\<lambda>k. ps_windows_id (slots ! k)) {k. k < 11 \<and> ps_admitted (slots ! k)}"
    and "k < 11 \<Longrightarrow> ps_active (slots ! k) \<Longrightarrow> slot16 (slots ! k)"
  using assms by (simp_all add: slots_ok_def)

text \<open>A free slot is taken.\<close>

lemma take_slot:
  assumes ok: "slots_ok slots" and k: "k < 11" "\<not> ps_active (slots ! k)"
    and s: "ps_active s" "slot16 s" "ps_admitted s \<Longrightarrow> ps_windows_id s < 5 \<and> ps_windows_id s \<notin> held_ids slots"
  shows "slots_ok (slots[k := s])" and "places (slots[k := s]) = add_mset (ps_x s, ps_y s) (places slots)"
    and "held (slots[k := s]) =
      held slots \<union> (if ps_admitted s then {(ps_windows_id s, ps_x s, ps_y s)} else {})"
    and "held_ids (slots[k := s]) = held_ids slots \<union> (if ps_admitted s then {ps_windows_id s} else {})"
proof -
  have len: "length slots = 11" by (rule slots_okD(1) [OF ok])
  have nk: "\<not> ps_admitted (slots ! k)" using slots_okD(2) [OF ok k(1)] k(2) by blast
  have adm: "{j. j < 11 \<and> ps_admitted (slots[k := s] ! j)} =
      {j. j < 11 \<and> ps_admitted (slots ! j)} \<union> (if ps_admitted s then {k} else {})"
    using nk k(1) len by (auto simp: nth_list_update)
  have same: "slots[k := s] ! j = slots ! j" if "j \<in> {j. j < 11 \<and> ps_admitted (slots ! j)}" for j
    using that nk by (cases "j = k") auto
  have at: "slots[k := s] ! k = s" using k(1) len by simp
  show "held (slots[k := s]) = held slots \<union> (if ps_admitted s then {(ps_windows_id s, ps_x s, ps_y s)} else {})"
    unfolding held_def adm image_Un by (intro arg_cong2 [where f = "(\<union>)"] image_cong) (simp_all add: same at)
  show "held_ids (slots[k := s]) = held_ids slots \<union> (if ps_admitted s then {ps_windows_id s} else {})"
    unfolding held_ids_def adm image_Un by (intro arg_cong2 [where f = "(\<union>)"] image_cong) (simp_all add: same at)
  have "inj_on (\<lambda>j. ps_windows_id (slots[k := s] ! j)) {j. j < 11 \<and> ps_admitted (slots ! j)}"
    using slots_okD(4) [OF ok] by (rule inj_on_cong [THEN iffD1, rotated]) (simp add: same)
  then have inj: "inj_on (\<lambda>j. ps_windows_id (slots[k := s] ! j)) {j. j < 11 \<and> ps_admitted (slots[k := s] ! j)}"
  proof (cases "ps_admitted s")
    case True
    have "ps_windows_id s \<notin> (\<lambda>j. ps_windows_id (slots[k := s] ! j)) ` {j. j < 11 \<and> ps_admitted (slots ! j)}"
      using s(3) [OF True] by (auto simp: held_ids_def same [simplified])
    then show ?thesis unfolding adm using True \<open>inj_on _ _\<close> nk by (simp add: at)
  next
    case False
    with \<open>inj_on _ _\<close> show ?thesis unfolding adm by simp
  qed
  show "slots_ok (slots[k := s])"
    unfolding slots_ok_def
  proof (intro conjI allI impI inj)
    fix j :: nat assume j: "j < 11"
    show "ps_admitted (slots[k := s] ! j) \<Longrightarrow> ps_active (slots[k := s] ! j)"
      "ps_admitted (slots[k := s] ! j) \<Longrightarrow> ps_windows_id (slots[k := s] ! j) < 5"
      using slots_okD(2,3) [OF ok j] s(1,3) at by (cases "j = k"; simp)+
    assume "ps_active (slots[k := s] ! j)"
    then have "slot16 (slots[k := s] ! j)" using slots_okD(5) [OF ok j] s(2) at by (cases "j = k") simp_all
    then show "- 32768 \<le> ps_x (slots[k := s] ! j)" "ps_x (slots[k := s] ! j) \<le> 32767"
      "- 32768 \<le> ps_y (slots[k := s] ! j)" "ps_y (slots[k := s] ! j) \<le> 32767" by simp_all
  qed (simp add: len)
  show "places (slots[k := s]) = add_mset (ps_x s, ps_y s) (places slots)"
    using k len s(1) by (simp add: places_def mset_update)
qed

definition place_of :: "ai_apple_trackpad_frame \<Rightarrow> nat \<Rightarrow> int \<times> int" where
  "place_of frame b = (ac_x (af_contacts frame ! b), ac_y (af_contacts frame ! b))"

abbreviation triple :: "ai_trackpad_output_contact \<Rightarrow> nat \<times> int \<times> int" where
  "triple c \<equiv> (oc_id c, oc_x c, oc_y c)"

text \<open>Nothing reported or held has an available identifier.\<close>

definition new_ok ::
  "ai_trackpad_physical_slot list \<Rightarrow> bool list \<Rightarrow> ai_trackpad_output_contact list \<Rightarrow> bool" where
  "new_ok slots available L \<longleftrightarrow>
     slots_ok slots \<and> length available = 5 \<and> distinct (map oc_id L) \<and>
     (\<forall>c\<in>set L. oc_id c < 5 \<and> \<not> available ! oc_id c) \<and> (\<forall>i\<in>held_ids slots. \<not> available ! i)"

lemma held_ids_less: "slots_ok slots \<Longrightarrow> i \<in> held_ids slots \<Longrightarrow> i < 5"
  by (auto simp: held_ids_def dest: slots_okD(3))

lemma free_slot:
  assumes ok: "slots_ok slots" and "size (places slots) < 11"
  obtains k where "find (\<lambda>k. \<not> ps_active (slots ! k)) [0..<11] = Some k" "k < 11" "\<not> ps_active (slots ! k)"
proof (cases "find (\<lambda>k. \<not> ps_active (slots ! k)) [0..<11]")
  case None
  have len: "length slots = 11" by (rule slots_okD(1) [OF ok])
  from None have "\<forall>k<11. ps_active (slots ! k)" by (auto simp: find_None_iff)
  then have "filter ps_active slots = slots" using len by (simp add: filter_id_conv all_set_conv_all_nth)
  then have "filter_mset ps_active (mset slots) = mset slots" by (metis mset_filter)
  then have "size (places slots) = 11" using len by (simp add: places_def)
  with assms(2) show ?thesis by simp
next
  case (Some k)
  then show ?thesis by (intro that) (auto simp: find_Some_iff)
qed

lemma update_new_correct:
  assumes "new_ok slots available L" and "out_holds L out" and "frame_ok frame" and "\<forall>i\<in>set rest. i < 11"
    and "size (places slots) + length (filter (\<lambda>i. n2o ! i < 0) rest) \<le> 11"
  shows "\<exists>slots' out' L'. update_new frame n2o rest slots available out = (AI_OK, slots', out') \<and>
    slots_ok slots' \<and> out_holds (L @ L') out' \<and> distinct (map oc_id (L @ L')) \<and>
    (\<forall>c\<in>set (L @ L'). oc_id c < 5) \<and> (\<forall>c\<in>set L'. oc_tip c) \<and>
    held slots' = held slots \<union> triple ` set L' \<and>
    places slots' = places slots + mset (map (place_of frame) (filter (\<lambda>i. n2o ! i < 0) rest)) \<and>
    ou_button out' = ou_button out"
  using assms(1,2,4,5)
proof (induction rest arbitrary: slots available L out)
  case Nil
  then show ?case by (intro exI [of _ slots] exI [of _ out] exI [of _ "[]"]) (auto simp: new_ok_def)
next
  case (Cons i rest)
  show ?case
  proof (cases "n2o ! i \<ge> 0")
    case True
    with Cons.IH [OF Cons.prems(1,2)] Cons.prems(3,4) show ?thesis by simp
  next
    case False
    have ok: "slots_ok slots" using Cons.prems(1) by (simp add: new_ok_def)
    have room: "size (places slots) + length (filter (\<lambda>i. n2o ! i < 0) rest) < 11"
      using Cons.prems(4) False by simp
    then have "size (places slots) < 11" by simp
    from free_slot [OF ok this] obtain k where
      k: "find (\<lambda>k. \<not> ps_active (slots ! k)) [0..<11] = Some k" "k < 11" "\<not> ps_active (slots ! k)" .
    let ?c = "af_contacts frame ! i"
    let ?s = "(slots ! k)\<lparr> ps_active := True, ps_admitted := False, ps_x := ac_x ?c, ps_y := ac_y ?c \<rparr>"
    have c: "slot16 ?s" using assms(3) Cons.prems(3) by (simp add: frame_ok_def)
    show ?thesis
    proof (cases "find (\<lambda>i. available ! i) [0..<5]")
      case None
      note t = take_slot [OF ok k(2,3), of ?s]
      have t: "slots_ok (slots[k := ?s])" "places (slots[k := ?s]) = add_mset (place_of frame i) (places slots)"
        "held (slots[k := ?s]) = held slots" "held_ids (slots[k := ?s]) = held_ids slots"
        using t c by (simp_all add: place_of_def)
      have "new_ok (slots[k := ?s]) available L" using Cons.prems(1) t by (simp add: new_ok_def)
      from Cons.IH [OF this Cons.prems(2)] Cons.prems(3) room t False k(1) None show ?thesis
        by (simp add: Let_def)
    next
      case (Some y)
      then have y: "y < 5" "available ! y" by (auto simp: find_Some_iff)
      let ?t = "?s\<lparr> ps_admitted := True, ps_windows_id := y \<rparr>"
      let ?o = "\<lparr> oc_tip = True, oc_id = y, oc_x = ac_x ?c, oc_y = ac_y ?c \<rparr>"
      have fresh: "y \<notin> held_ids slots" "y \<notin> oc_id ` set L" using Cons.prems(1) y by (auto simp: new_ok_def)
      note t = take_slot [OF ok k(2,3), of ?t]
      have t: "slots_ok (slots[k := ?t])" "places (slots[k := ?t]) = add_mset (place_of frame i) (places slots)"
        "held (slots[k := ?t]) = held slots \<union> {triple ?o}" "held_ids (slots[k := ?t]) = insert y (held_ids slots)"
        using t c y fresh by (simp_all add: place_of_def)
      have av: "available[y := False] ! j \<longleftrightarrow> j \<noteq> y \<and> available ! j" if "j < 5" for j
        using that y Cons.prems(1) by (cases "j = y") (simp_all add: new_ok_def)
      have L1: "distinct (map oc_id (L @ [?o]))" "\<forall>c\<in>set (L @ [?o]). oc_id c < 5"
        using Cons.prems(1) fresh y by (auto simp: new_ok_def)
      have "length L < 5" using ids_bound [OF L1] by simp
      then have out: "out_holds (L @ [?o]) (append_output out True y (ac_x ?c) (ac_y ?c))"
        by (intro append_output_holds Cons.prems(2))
      have "new_ok (slots[k := ?t]) (available[y := False]) (L @ [?o])"
        using Cons.prems(1) t(1,4) L1 held_ids_less [OF ok] y by (auto simp: new_ok_def av)
      from Cons.IH [OF this out] Cons.prems(3) room t(2) obtain slots' out' L' where
        r: "update_new frame n2o rest (slots[k := ?t]) (available[y := False])
              (append_output out True y (ac_x ?c) (ac_y ?c)) = (AI_OK, slots', out')"
          "slots_ok slots'" "out_holds ((L @ [?o]) @ L') out'" "distinct (map oc_id ((L @ [?o]) @ L'))"
          "\<forall>c\<in>set ((L @ [?o]) @ L'). oc_id c < 5" "\<forall>c\<in>set L'. oc_tip c"
          "held slots' = held (slots[k := ?t]) \<union> triple ` set L'"
          "places slots' = places (slots[k := ?t]) + mset (map (place_of frame) (filter (\<lambda>i. n2o ! i < 0) rest))"
          "ou_button out' = ou_button (append_output out True y (ac_x ?c) (ac_y ?c))"
        by auto
      have "ou_button out' = ou_button out" using r(9) by (simp add: append_output_def)
      with r t(2,3) False k(1) Some show ?thesis
        by (intro exI [of _ slots'] exI [of _ out'] exI [of _ "?o # L'"]) (simp add: Let_def Un_assoc)
    qed
  qed
qed

section \<open>Sorting the output\<close>

lemma insert_down_correct:
  assumes "j < length xs" and "sorted (map oc_id (take j xs))"
  shows "length (insert_down v j xs) = length xs" and "\<forall>m>j. insert_down v j xs ! m = xs ! m"
    and "mset (take (Suc j) (insert_down v j xs)) = add_mset v (mset (take j xs))"
    and "sorted (map oc_id (take (Suc j) (insert_down v j xs)))"
proof -
  have "length (insert_down v j xs) = length xs \<and> (\<forall>m>j. insert_down v j xs ! m = xs ! m) \<and>
      mset (take (Suc j) (insert_down v j xs)) = add_mset v (mset (take j xs)) \<and>
      sorted (map oc_id (take (Suc j) (insert_down v j xs)))"
    using assms
  proof (induction j arbitrary: xs)
    case 0
    then show ?case by (cases xs) auto
  next
    case (Suc j)
    have t: "take (Suc j) xs = take j xs @ [xs ! j]" using Suc.prems(1) by (simp add: take_Suc_conv_app_nth)
    have s: "sorted (map oc_id (take j xs))" "\<forall>c\<in>set (take j xs). oc_id c \<le> oc_id (xs ! j)"
      using Suc.prems(2) by (auto simp: t sorted_append)
    show ?case
    proof (cases "oc_id (xs ! j) > oc_id v")
      case True
      let ?xs = "xs[Suc j := xs ! j]"
      let ?ys = "insert_down v j ?xs"
      have IH: "length ?ys = length xs" "\<forall>m>j. ?ys ! m = ?xs ! m"
        "mset (take (Suc j) ?ys) = add_mset v (mset (take j xs))" "sorted (map oc_id (take (Suc j) ?ys))"
        using Suc.IH [of ?xs] Suc.prems(1) s(1) by simp_all
      have y: "?ys ! Suc j = xs ! j" using IH(2) Suc.prems(1) by simp
      have e: "take (Suc (Suc j)) ?ys = take (Suc j) ?ys @ [xs ! j]"
        using IH(1) Suc.prems(1) y by (simp add: take_Suc_conv_app_nth)
      have "set (take (Suc j) ?ys) = insert v (set (take j xs))"
        using arg_cong [OF IH(3), of set_mset] by simp
      then have "\<forall>c\<in>set (take (Suc j) ?ys). oc_id c \<le> oc_id (xs ! j)" using s(2) True by auto
      with IH e t True show ?thesis by (simp add: sorted_append)
    next
      case False
      have e: "take (Suc (Suc j)) (xs[Suc j := v]) = take (Suc j) xs @ [v]"
        using Suc.prems(1) by (simp add: take_Suc_conv_app_nth)
      have "\<forall>c\<in>set (take (Suc j) xs). oc_id c \<le> oc_id v" using s(2) False by (auto simp: t)
      with Suc.prems(2) False e show ?thesis by (simp add: sorted_append)
    qed
  qed
  then show "length (insert_down v j xs) = length xs" "\<forall>m>j. insert_down v j xs ! m = xs ! m"
    "mset (take (Suc j) (insert_down v j xs)) = add_mset v (mset (take j xs))"
    "sorted (map oc_id (take (Suc j) (insert_down v j xs)))" by blast+
qed

lemma sort_fold:
  assumes "n \<le> length xs"
  defines "ys \<equiv> fold (\<lambda>i xs. insert_down (xs ! i) i xs) [1..<n] xs"
  shows "length ys = length xs" and "mset (take n ys) = mset (take n xs)" and "sorted (map oc_id (take n ys))"
proof -
  have "length zs = length xs \<and> (\<forall>m\<ge>max 1 k. zs ! m = xs ! m) \<and>
      mset (take (max 1 k) zs) = mset (take (max 1 k) xs) \<and> sorted (map oc_id (take (max 1 k) zs))"
    if "zs = fold (\<lambda>i xs. insert_down (xs ! i) i xs) [1..<k] xs" "k \<le> n" for k zs
    using that
  proof (induction k arbitrary: zs)
    case 0
    then show ?case by (cases xs) auto
  next
    case (Suc k)
    show ?case
    proof (cases "k = 0")
      case True
      with Suc.prems show ?thesis by (cases xs) auto
    next
      case False
      let ?us = "fold (\<lambda>i xs. insert_down (xs ! i) i xs) [1..<k] xs"
      have m: "max 1 k = k" "max 1 (Suc k) = Suc k" using False by simp_all
      have IH: "length ?us = length xs" "\<forall>m\<ge>k. ?us ! m = xs ! m" "mset (take k ?us) = mset (take k xs)"
        "sorted (map oc_id (take k ?us))" using Suc.IH [OF refl] Suc.prems(2) unfolding m by simp_all
      have z: "zs = insert_down (?us ! k) k ?us" using Suc.prems(1) False by simp
      have k: "k < length ?us" using Suc.prems(2) assms(1) IH(1) by simp
      note d = insert_down_correct [OF k IH(4), of "?us ! k", folded z]
      have "mset (take (Suc k) xs) = add_mset (xs ! k) (mset (take k xs))"
        using k IH(1) by (simp add: take_Suc_conv_app_nth)
      with d IH show ?thesis unfolding m by (simp add: Suc_le_eq)
    qed
  qed
  from this [OF refl order_refl] have r: "length ys = length xs"
    "mset (take (max 1 n) ys) = mset (take (max 1 n) xs)" "sorted (map oc_id (take (max 1 n) ys))"
    unfolding ys_def by blast+
  then show "length ys = length xs" by blast
  show "mset (take n ys) = mset (take n xs)" "sorted (map oc_id (take n ys))"
    using r(2,3) by (cases "n = 0"; simp add: max_def split: if_splits)+
qed

lemma sort_output_holds:
  assumes "out_holds L out"
  shows "\<exists>L'. out_holds L' (sort_output_by_id out) \<and> mset L' = mset L \<and> sorted (map oc_id L')"
proof -
  have h: "length (ou_contacts out) = 5" "length L \<le> 5" "ou_count out = length L"
    "take (length L) (ou_contacts out) = L" using assms by (simp_all add: out_holds_def)
  let ?ys = "fold (\<lambda>i xs. insert_down (xs ! i) i xs) [1..<length L] (ou_contacts out)"
  let ?L = "take (length L) ?ys"
  have n: "length L \<le> length (ou_contacts out)" using h by simp
  note s = sort_fold [OF n]
  have m: "mset ?L = mset L" using s(2) unfolding h(4) .
  from mset_eq_length [OF this] have "length ?L = length L" .
  moreover have "length (filter oc_tip ?L) = length (filter oc_tip L)"
    by (rule mset_eq_length) (simp only: mset_filter m)
  ultimately have "out_holds ?L (sort_output_by_id out)"
    using assms s(1) h(1-3) unfolding out_holds_def sort_output_by_id_def by simp
  with m s(3) show ?thesis by blast
qed

lemma count_suppressed_eq:
  "count_suppressed slots out = out\<lparr> ou_suppressed_count := ou_suppressed_count out +
     length (filter (\<lambda>k. ps_active (slots ! k) \<and> \<not> ps_admitted (slots ! k)) [0..<11]) \<rparr>"
proof -
  have "fold (\<lambda>k out. if P k then out\<lparr> ou_suppressed_count := ou_suppressed_count out + 1 \<rparr> else out) xs o1 =
      o1\<lparr> ou_suppressed_count := ou_suppressed_count o1 + length (filter P xs) \<rparr>"
    for P :: "nat \<Rightarrow> bool" and xs and o1 :: ai_trackpad_output_frame
    by (induction xs arbitrary: o1) auto
  then show ?thesis unfolding count_suppressed_def .
qed

section \<open>From one frame to the next\<close>

lemma ids_available_held:
  assumes ok: "slots_ok slots" and i: "i < 5"
  shows "ids_available slots (used_slots slots) ! i \<longleftrightarrow> i \<notin> held_ids slots"
    and "length (ids_available slots (used_slots slots)) = 5"
proof -
  let ?old = "used_slots slots"
  let ?f = "\<lambda>index available. let slot = slots ! (?old ! index)
    in if ps_admitted slot \<and> ps_windows_id slot < 5 then available[ps_windows_id slot := False] else available"
  have step: "length (fold ?f [0..<k] (replicate 5 True)) = 5 \<and>
      (fold ?f [0..<k] (replicate 5 True) ! i \<longleftrightarrow>
        \<not> (\<exists>a<k. ps_admitted (slots ! (?old ! a)) \<and> ps_windows_id (slots ! (?old ! a)) = i))" for k
  proof (induction k)
    case (Suc k)
    let ?av = "fold ?f [0..<k] (replicate 5 True)" and ?s = "slots ! (?old ! k)"
    have e: "fold ?f [0..<Suc k] (replicate 5 True) = ?f k ?av" by simp
    have ex: "(\<exists>a<Suc k. P a) \<longleftrightarrow> (\<exists>a<k. P a) \<or> P k" for P by (auto simp: less_Suc_eq)
    show ?case unfolding e ex using Suc i by (auto simp: Let_def nth_list_update)
  qed (use i in simp)
  have "ids_available slots ?old = fold ?f [0..<length ?old] (replicate 5 True)"
    by (simp add: ids_available_def)
  with step [of "length ?old"] have l: "length (ids_available slots ?old) = 5"
    and v: "ids_available slots ?old ! i \<longleftrightarrow>
      \<not> (\<exists>a<length ?old. ps_admitted (slots ! (?old ! a)) \<and> ps_windows_id (slots ! (?old ! a)) = i)" by simp_all
  show "length (ids_available slots ?old) = 5" by (rule l)
  have "(\<exists>a<length ?old. ps_admitted (slots ! (?old ! a)) \<and> ps_windows_id (slots ! (?old ! a)) = i) \<longleftrightarrow>
      i \<in> held_ids slots"
  proof
    assume "\<exists>a<length ?old. ps_admitted (slots ! (?old ! a)) \<and> ps_windows_id (slots ! (?old ! a)) = i"
    then show "i \<in> held_ids slots" using used_slots_nth [of _ slots] by (auto simp: held_ids_def)
  next
    assume "i \<in> held_ids slots"
    then obtain k where k: "k < 11" "ps_admitted (slots ! k)" "ps_windows_id (slots ! k) = i"
      by (auto simp: held_ids_def)
    then have "k \<in> set ?old" using slots_okD(2) [OF ok] by (simp add: used_slots_props)
    then show "\<exists>a<length ?old. ps_admitted (slots ! (?old ! a)) \<and> ps_windows_id (slots ! (?old ! a)) = i"
      using k by (auto simp: in_set_conv_nth)
  qed
  with v show "ids_available slots ?old ! i \<longleftrightarrow> i \<notin> held_ids slots" by simp
qed

text \<open>The slots once the old contacts have moved or gone.\<close>

definition old_moved ::
  "ai_apple_trackpad_frame \<Rightarrow> int list \<Rightarrow> ai_trackpad_physical_slot list \<Rightarrow> ai_trackpad_physical_slot list \<Rightarrow> bool" where
  "old_moved frame o2n slots slots1 \<longleftrightarrow>
     length slots1 = 11 \<and>
     (\<forall>a<length (used_slots slots).
        slots1 ! (used_slots slots ! a) = moved frame o2n a (slots ! (used_slots slots ! a))) \<and>
     (\<forall>j. j \<notin> set (used_slots slots) \<longrightarrow> slots1 ! j = slots ! j)"

lemma old_moved_in_use:
  assumes m: "old_moved frame o2n slots slots1" and k: "k < 11"
  shows "ps_active (slots1 ! k) \<longleftrightarrow> (\<exists>a<length (used_slots slots). used_slots slots ! a = k \<and> 0 \<le> o2n ! a)"
proof (cases "k \<in> set (used_slots slots)")
  case True
  then obtain a where a: "a < length (used_slots slots)" "used_slots slots ! a = k" by (auto simp: in_set_conv_nth)
  have "ps_active (slots ! k)" using True used_slots_props(1) by blast
  moreover have "slots1 ! k = moved frame o2n a (slots ! k)" using m a by (auto simp: old_moved_def)
  ultimately have "ps_active (slots1 ! k) \<longleftrightarrow> 0 \<le> o2n ! a" by (simp add: moved_def)
  moreover have "b = a" if "b < length (used_slots slots)" "used_slots slots ! b = k" for b
    using nth_eq_iff_index_eq [OF used_slots_props(2) that(1) a(1)] that(2) a(2) by simp
  ultimately show ?thesis using a by blast
next
  case False
  then have "slots1 ! k = slots ! k" "\<not> ps_active (slots ! k)"
    using m k used_slots_props(1) [of slots] by (auto simp: old_moved_def)
  with False show ?thesis by auto
qed

lemma old_moved_admitted:
  assumes ok: "slots_ok slots" and m: "old_moved frame o2n slots slots1" and k: "k < 11"
  shows "ps_admitted (slots1 ! k) \<longleftrightarrow> ps_active (slots1 ! k) \<and> ps_admitted (slots ! k)"
    and "ps_windows_id (slots1 ! k) = ps_windows_id (slots ! k)"
proof -
  have "(ps_admitted (slots1 ! k) \<longleftrightarrow> ps_active (slots1 ! k) \<and> ps_admitted (slots ! k)) \<and>
      ps_windows_id (slots1 ! k) = ps_windows_id (slots ! k)"
  proof (cases "k \<in> set (used_slots slots)")
    case True
    then obtain a where a: "a < length (used_slots slots)" "used_slots slots ! a = k" by (auto simp: in_set_conv_nth)
    have "ps_active (slots ! k)" using True used_slots_props(1) by blast
    moreover have "slots1 ! k = moved frame o2n a (slots ! k)" using m a by (auto simp: old_moved_def)
    ultimately show ?thesis by (simp add: moved_def)
  next
    case False
    then have "slots1 ! k = slots ! k" "\<not> ps_active (slots ! k)"
      using m k used_slots_props(1) [of slots] by (auto simp: old_moved_def)
    then show ?thesis using slots_okD(2) [OF ok k] by auto
  qed
  then show "ps_admitted (slots1 ! k) \<longleftrightarrow> ps_active (slots1 ! k) \<and> ps_admitted (slots ! k)"
    "ps_windows_id (slots1 ! k) = ps_windows_id (slots ! k)" by blast+
qed

lemma mset_indices: "mset xs = image_mset ((!) xs) (mset_set {..<length xs})"
proof -
  have "mset xs = mset (map ((!) xs) [0..<length xs])" by (simp only: map_nth)
  also have "\<dots> = image_mset ((!) xs) (mset_set {..<length xs})"
    by (simp only: mset_map mset_upt atLeast0LessThan)
  finally show ?thesis .
qed

lemma places_indices:
  assumes "length slots = 11"
  shows "places slots = image_mset (\<lambda>k. (ps_x (slots ! k), ps_y (slots ! k)))
    (mset_set {k. k < 11 \<and> ps_active (slots ! k)})"
proof -
  have "filter_mset ps_active (mset slots) =
      image_mset ((!) slots) (filter_mset (\<lambda>k. ps_active (slots ! k)) (mset_set {..<11}))"
    using assms by (simp add: mset_indices [of slots] filter_mset_image_mset comp_def)
  also have "filter_mset (\<lambda>k. ps_active (slots ! k)) (mset_set {..<11}) = mset_set {k. k < 11 \<and> ps_active (slots ! k)}"
    by (simp add: filter_mset_mset_set)
  finally show ?thesis by (simp add: places_def image_mset.compositionality comp_def)
qed

text \<open>After the old contacts the slots in use are at the places of the matched new contacts.\<close>

lemma old_moved_places:
  assumes m: "old_moved frame o2n slots slots1"
    and r: "records M o2n n2o" and A: "is_assignment (length (used_slots slots)) (af_count frame) M"
  shows "places slots1 = image_mset (place_of frame) (mset_set (snd ` M))"
proof -
  let ?old = "used_slots slots"
  let ?A = "{a. a < length ?old \<and> 0 \<le> o2n ! a}"
  have len: "length slots1 = 11" using m by (simp add: old_moved_def)
  have MA: "M \<subseteq> {..<length ?old} \<times> {..<af_count frame}" "inj_on fst M" "inj_on snd M"
    using A by (simp_all add: is_assignment_def)
  have pair: "o2n ! a = int b \<longleftrightarrow> (a, b) \<in> M" if "a < length ?old" for a b
    using r that used_slots_props(3) [of slots] by (simp add: records_def)
  have A_eq: "?A = fst ` M"
  proof
    show "?A \<subseteq> fst ` M"
    proof
      fix a assume a: "a \<in> ?A"
      then have "o2n ! a = int (nat (o2n ! a))" by simp
      with pair a have "(a, nat (o2n ! a)) \<in> M" by blast
      then show "a \<in> fst ` M" by force
    qed
    show "fst ` M \<subseteq> ?A"
    proof
      fix a assume "a \<in> fst ` M"
      then obtain b where b: "(a, b) \<in> M" by force
      then have "a < length ?old" using MA(1) by auto
      with pair b show "a \<in> ?A" by (metis (mono_tags) mem_Collect_eq of_nat_0_le_iff)
    qed
  qed
  have active: "{k. k < 11 \<and> ps_active (slots1 ! k)} = (!) ?old ` ?A"
    using old_moved_in_use [OF m] used_slots_nth [of _ slots] by auto
  have inj: "inj_on ((!) ?old) ?A"
    by (rule inj_onI) (simp add: nth_eq_iff_index_eq [OF used_slots_props(2)])
  have "places slots1 = image_mset (\<lambda>k. (ps_x (slots1 ! k), ps_y (slots1 ! k))) (image_mset ((!) ?old) (mset_set ?A))"
    by (simp only: places_indices [OF len] active image_mset_mset_set [OF inj])
  also have "\<dots> = image_mset (\<lambda>a. place_of frame (nat (o2n ! a))) (mset_set ?A)"
    unfolding image_mset.compositionality comp_def
    using m by (intro image_mset_cong) (auto simp: old_moved_def moved_def place_of_def)
  also have "\<dots> = image_mset (\<lambda>a. place_of frame (nat (o2n ! a))) (image_mset fst (mset_set M))"
    by (simp only: A_eq image_mset_mset_set [OF MA(2)])
  also have "\<dots> = image_mset (\<lambda>x. place_of frame (snd x)) (mset_set M)"
    unfolding image_mset.compositionality comp_def
  proof (rule image_mset_cong)
    fix x assume "x \<in># mset_set M"
    then have "x \<in> M" by (metis count_mset_set(3) not_in_iff count_mset_set(2))
    moreover from this have "fst x < length ?old" using MA(1) by auto
    ultimately have "o2n ! fst x = int (snd x)" using pair by simp
    then show "place_of frame (nat (o2n ! fst x)) = place_of frame (snd x)" by simp
  qed
  also have "\<dots> = image_mset (place_of frame) (mset_set (snd ` M))"
    by (simp only: image_mset_mset_set [OF MA(3), symmetric] image_mset.compositionality comp_def)
  finally show ?thesis .
qed

text \<open>The new contacts without an old one are those outside the assignment.\<close>

lemma unmatched_new:
  assumes "records M o2n n2o" and "is_assignment a n M" and "n \<le> 11"
  shows "{b. b < n \<and> n2o ! b < 0} = {..<n} - snd ` M"
proof (intro set_eqI iffI)
  fix b assume b: "b \<in> {b. b < n \<and> n2o ! b < 0}"
  have "b \<notin> snd ` M"
  proof
    assume "b \<in> snd ` M"
    then obtain x where "(x, b) \<in> M" by force
    with assms b have "n2o ! b = int x" by (simp add: records_def)
    with b show False by simp
  qed
  with b show "b \<in> {..<n} - snd ` M" by simp
next
  fix b assume b: "b \<in> {..<n} - snd ` M"
  have "\<not> 0 \<le> n2o ! b"
  proof
    assume "0 \<le> n2o ! b"
    then have "n2o ! b = int (nat (n2o ! b))" by simp
    moreover have "b < 11" using b assms(3) by simp
    ultimately have "(nat (n2o ! b), b) \<in> M" using assms(1) unfolding records_def by blast
    with b show False by force
  qed
  with b show "b \<in> {b. b < n \<and> n2o ! b < 0}" by simp
qed

lemma places_all:
  assumes r: "records M o2n n2o" and A: "is_assignment a n M" and n: "n \<le> 11"
  shows "image_mset f (mset_set (snd ` M)) + mset (map f (filter (\<lambda>b. n2o ! b < 0) [0..<n])) = mset (map f [0..<n])"
    and "card (snd ` M) + length (filter (\<lambda>b. n2o ! b < 0) [0..<n]) = n"
proof -
  have sub: "snd ` M \<subseteq> {..<n}" using A by (auto simp: is_assignment_def)
  have f: "mset (filter (\<lambda>b. n2o ! b < 0) [0..<n]) = mset_set ({..<n} - snd ` M)"
  proof -
    have "mset (filter (\<lambda>b. n2o ! b < 0) [0..<n]) = filter_mset (\<lambda>b. n2o ! b < 0) (mset_set {..<n})"
      by (simp only: mset_filter mset_upt atLeast0LessThan)
    also have "\<dots> = mset_set {b. b < n \<and> n2o ! b < 0}" by (simp add: filter_mset_mset_set)
    finally show ?thesis by (simp only: unmatched_new [OF assms])
  qed
  have u: "mset_set (snd ` M) + mset_set ({..<n} - snd ` M) = mset [0..<n]"
  proof -
    have fin: "finite (snd ` M)" using sub finite_subset by blast
    have "mset_set (snd ` M \<union> ({..<n} - snd ` M)) = mset_set (snd ` M) + mset_set ({..<n} - snd ` M)"
      by (rule mset_set_Union) (use fin in auto)
    moreover have "snd ` M \<union> ({..<n} - snd ` M) = {..<n}" using sub by blast
    ultimately show ?thesis by (simp only: mset_upt atLeast0LessThan)
  qed
  show "image_mset f (mset_set (snd ` M)) + mset (map f (filter (\<lambda>b. n2o ! b < 0) [0..<n])) = mset (map f [0..<n])"
    by (simp only: mset_map f u [symmetric] image_mset_union)
  have "size (mset_set (snd ` M)) + size (mset (filter (\<lambda>b. n2o ! b < 0) [0..<n])) = size (mset [0..<n])"
    by (simp only: f u [symmetric] size_union)
  then show "card (snd ` M) + length (filter (\<lambda>b. n2o ! b < 0) [0..<n]) = n"
    by (simp only: size_mset_set size_mset length_upt diff_zero)
qed

lemma old_moved_ok:
  assumes ok: "slots_ok slots" and m: "old_moved frame o2n slots slots1" and f: "frame_ok frame"
    and o: "\<forall>a<length (used_slots slots). o2n ! a < int (af_count frame)"
  shows "slots_ok slots1" and "held_ids slots1 \<subseteq> held_ids slots"
proof -
  note adm = old_moved_admitted [OF ok m]
  have sub: "{k. k < 11 \<and> ps_admitted (slots1 ! k)} \<subseteq> {k. k < 11 \<and> ps_admitted (slots ! k)}"
    using adm by auto
  show "held_ids slots1 \<subseteq> held_ids slots"
    unfolding held_ids_def using adm by (auto simp: image_iff)
  have "inj_on (\<lambda>k. ps_windows_id (slots1 ! k)) {k. k < 11 \<and> ps_admitted (slots1 ! k)}"
  proof (rule inj_onI)
    fix j k assume a: "j \<in> {k. k < 11 \<and> ps_admitted (slots1 ! k)}" "k \<in> {k. k < 11 \<and> ps_admitted (slots1 ! k)}"
      "ps_windows_id (slots1 ! j) = ps_windows_id (slots1 ! k)"
    then have "ps_windows_id (slots ! j) = ps_windows_id (slots ! k)" using adm(2) by simp
    from inj_onD [OF slots_okD(4) [OF ok] this] a(1,2) sub show "j = k" by blast
  qed
  moreover have "slot16 (slots1 ! k)" if k: "k < 11" "ps_active (slots1 ! k)" for k
  proof -
    obtain a where a: "a < length (used_slots slots)" "used_slots slots ! a = k" "0 \<le> o2n ! a"
      using old_moved_in_use [OF m k(1)] k(2) by blast
    then have "slots1 ! k = moved frame o2n a (slots ! k)" using m by (auto simp: old_moved_def)
    moreover have "nat (o2n ! a) < 11" using o a f by (auto simp: frame_ok_def nat_less_iff)
    ultimately show ?thesis using a(3) f by (simp add: moved_def frame_ok_def)
  qed
  ultimately show "slots_ok slots1"
    using m adm slots_okD(3) [OF ok] unfolding slots_ok_def old_moved_def by simp
qed

text \<open>What is reported for the old contacts: those that stay with their identifiers and new places, the
  others released.\<close>

lemma reports_old_held:
  assumes ok: "slots_ok slots" and m: "old_moved frame o2n slots slots1"
  defines "L \<equiv> reports_old frame o2n (used_slots slots) slots (length (used_slots slots))"
  shows "triple ` {c \<in> set L. oc_tip c} = held slots1" and "oc_id ` set L = held_ids slots"
proof -
  let ?old = "used_slots slots"
  note adm = old_moved_admitted [OF ok m]
  have L: "set L = report_old frame o2n ?old slots ` {a. a < length ?old \<and> ps_admitted (slots ! (?old ! a))}"
    by (auto simp: L_def reports_old_def)
  have adm_old: "{k. k < 11 \<and> ps_admitted (slots ! k)} = (!) ?old ` {a. a < length ?old \<and> ps_admitted (slots ! (?old ! a))}"
  proof (intro set_eqI iffI)
    fix k assume k: "k \<in> {k. k < 11 \<and> ps_admitted (slots ! k)}"
    then have "k \<in> set ?old" using slots_okD(2) [OF ok] by (auto simp: used_slots_props)
    with k show "k \<in> (!) ?old ` {a. a < length ?old \<and> ps_admitted (slots ! (?old ! a))}"
      by (auto simp: in_set_conv_nth)
  qed (auto simp: used_slots_nth)
  show "oc_id ` set L = held_ids slots"
    unfolding held_ids_def adm_old L image_image by (simp add: report_old_def Let_def)
  have at: "slots1 ! (?old ! a) = moved frame o2n a (slots ! (?old ! a))" if "a < length ?old" for a
    using m that by (simp add: old_moved_def)
  have "{k. k < 11 \<and> ps_admitted (slots1 ! k)} =
      (!) ?old ` {a. a < length ?old \<and> ps_admitted (slots ! (?old ! a)) \<and> 0 \<le> o2n ! a}"
  proof (intro set_eqI iffI)
    fix k assume k: "k \<in> {k. k < 11 \<and> ps_admitted (slots1 ! k)}"
    then obtain a where "a < length ?old" "?old ! a = k" "0 \<le> o2n ! a"
      using adm(1) old_moved_in_use [OF m] by auto
    with k adm(1) show "k \<in> (!) ?old ` {a. a < length ?old \<and> ps_admitted (slots ! (?old ! a)) \<and> 0 \<le> o2n ! a}"
      by auto
  next
    fix k assume "k \<in> (!) ?old ` {a. a < length ?old \<and> ps_admitted (slots ! (?old ! a)) \<and> 0 \<le> o2n ! a}"
    then obtain a where "a < length ?old" "ps_admitted (slots ! (?old ! a))" "0 \<le> o2n ! a" "k = ?old ! a" by blast
    with at used_slots_nth [of a slots] show "k \<in> {k. k < 11 \<and> ps_admitted (slots1 ! k)}" by (simp add: moved_def)
  qed
  then have "held slots1 = (\<lambda>a. (ps_windows_id (slots1 ! (?old ! a)), ps_x (slots1 ! (?old ! a)), ps_y (slots1 ! (?old ! a)))) `
      {a. a < length ?old \<and> ps_admitted (slots ! (?old ! a)) \<and> 0 \<le> o2n ! a}"
    by (simp add: held_def image_image)
  also have "\<dots> = (\<lambda>a. triple (report_old frame o2n ?old slots a)) `
      {a. a < length ?old \<and> ps_admitted (slots ! (?old ! a)) \<and> 0 \<le> o2n ! a}"
    by (rule image_cong) (auto simp: at report_old_def moved_def Let_def)
  also have "\<dots> = triple ` {c \<in> set L. oc_tip c}"
  proof -
    have tip: "oc_tip (report_old frame o2n ?old slots a) \<longleftrightarrow> 0 \<le> o2n ! a" for a
      by (simp add: report_old_def Let_def)
    have "{c \<in> set L. oc_tip c} = report_old frame o2n ?old slots `
        {a. a < length ?old \<and> ps_admitted (slots ! (?old ! a)) \<and> 0 \<le> o2n ! a}"
      unfolding L using tip by blast
    then show ?thesis by (simp only: image_image)
  qed
  finally show "triple ` {c \<in> set L. oc_tip c} = held slots1" by simp
qed

lemma held_ids_held: "held_ids slots = fst ` held slots"
  by (simp add: held_ids_def held_def image_image)
text \<open>The first half of an update: the assignment and the old contacts.\<close>

lemma update_old_part:
  assumes ok: "slots_ok slots" and f: "frame_ok frame"
  defines "old \<equiv> used_slots slots"
  shows "\<exists>o2n n2o M slots1 out1.
    minimum_assignment slots frame old (length old) (replicate 11 (- 1)) (replicate 11 (- 1)) = Some (o2n, n2o) \<and>
    fold (update_old frame old o2n) [0..<length old] (slots, output_zero\<lparr> ou_button := b \<rparr>) = (slots1, out1) \<and>
    records M o2n n2o \<and> is_assignment (length old) (af_count frame) M \<and> old_moved frame o2n slots slots1 \<and>
    out_holds (reports_old frame o2n old slots (length old)) out1 \<and> ou_button out1 = b"
proof -
  have "in_range16 slots frame old (length old)"
    using f used_slots_props(3) [of slots] used_slots_nth [of _ slots] slots_okD(5) [OF ok]
    by (simp add: in_range16_def frame_ok_def old_def)
  from minimum_assignment_pairs [OF this] obtain o2n n2o M where
    m: "minimum_assignment slots frame old (length old) no_pairs no_pairs = Some (o2n, n2o)"
      "records M o2n n2o" "is_assignment (length old) (af_count frame) M" by blast
  obtain slots1 out1 where
    e: "fold (update_old frame old o2n) [0..<length old] (slots, output_zero\<lparr> ou_button := b \<rparr>) = (slots1, out1)"
    by fastforce
  have "out_holds [] (output_zero\<lparr> ou_button := b \<rparr>)" by (simp add: out_holds_def output_zero_def)
  note of = old_fold [OF ok this order_refl, of frame o2n, folded old_def, unfolded e prod.case]
  then have "old_moved frame o2n slots slots1" by (simp add: old_moved_def old_def)
  with m e of show ?thesis
    by (intro exI [of _ o2n] exI [of _ n2o] exI [of _ M] exI [of _ slots1] exI [of _ out1]) simp
qed

text \<open>What the second half relies on: no identifier that was reported or is still held is available.\<close>

lemma new_ok_start:
  assumes ok: "slots_ok slots" and f: "frame_ok frame" and m: "old_moved frame o2n slots slots1"
    and r: "records M o2n n2o" and A: "is_assignment (length (used_slots slots)) (af_count frame) M"
  shows "new_ok slots1 (ids_available slots (used_slots slots))
    (reports_old frame o2n (used_slots slots) slots (length (used_slots slots)))" (is "new_ok _ ?av ?L")
proof -
  let ?old = "used_slots slots"
  have "o2n ! a < int (af_count frame)" if a: "a < length ?old" for a
  proof (cases "0 \<le> o2n ! a")
    case True
    then have "o2n ! a = int (nat (o2n ! a))" by simp
    moreover have "a < 11" using a used_slots_props(3) [of slots] by simp
    ultimately have "(a, nat (o2n ! a)) \<in> M" using r unfolding records_def by blast
    then show ?thesis using A True by (auto simp: is_assignment_def)
  qed simp
  then have o: "slots_ok slots1" "held_ids slots1 \<subseteq> held_ids slots" by (simp_all add: old_moved_ok [OF ok m f])
  have ids: "oc_id ` set ?L = held_ids slots" by (rule reports_old_held(2) [OF ok m])
  have av: "\<not> ?av ! i" if "i \<in> held_ids slots" for i
    using ids_available_held(1) [OF ok held_ids_less [OF ok that]] that by simp
  have rep: "oc_id c \<in> held_ids slots" if "c \<in> set ?L" for c using ids that by blast
  note d = reports_old_ids(1,2) [OF ok order_refl, of frame o2n]
  have len: "length ?av = 5" by (rule ids_available_held(2) [OF ok, of 0]) simp
  show ?thesis unfolding new_ok_def
  proof (intro conjI ballI)
    show "slots_ok slots1" "length ?av = 5" "distinct (map oc_id ?L)" by (rule o len d)+
    show "oc_id c < 5" "\<not> ?av ! oc_id c" if "c \<in> set ?L" for c
      using d(2) that by (blast, intro av rep that)
    show "\<not> ?av ! i" if "i \<in> held_ids slots1" for i using o(2) that by (intro av) blast
  qed
qed

text \<open>An update as a whole, before the output is sorted.\<close>

lemma update_parts:
  assumes ok: "slots_ok (tr_slots t)" and f: "frame_ok frame"
  shows "\<exists>slots' out L. ai_trackpad_tracker_update t frame =
      Some (AI_OK, t\<lparr> tr_slots := slots' \<rparr>, sort_output_by_id (count_suppressed slots' out)) \<and>
    slots_ok slots' \<and> out_holds L out \<and> distinct (map oc_id L) \<and> (\<forall>c\<in>set L. oc_id c < 5) \<and>
    triple ` {c \<in> set L. oc_tip c} = held slots' \<and>
    oc_id ` {c \<in> set L. \<not> oc_tip c} = held_ids (tr_slots t) - held_ids slots' \<and>
    places slots' = mset (map (place_of frame) [0..<af_count frame]) \<and> ou_button out = af_button frame"
proof -
  let ?slots = "tr_slots t" let ?old = "used_slots ?slots" let ?n = "af_count frame"
  obtain o2n n2o M slots1 out1 where
    m: "minimum_assignment ?slots frame ?old (length ?old) (replicate 11 (- 1)) (replicate 11 (- 1)) = Some (o2n, n2o)"
      "fold (update_old frame ?old o2n) [0..<length ?old] (?slots, output_zero\<lparr> ou_button := af_button frame \<rparr>) = (slots1, out1)"
    and r: "records M o2n n2o" and A: "is_assignment (length ?old) ?n M" and mv: "old_moved frame o2n ?slots slots1"
    and out1: "out_holds (reports_old frame o2n ?old ?slots (length ?old)) out1" "ou_button out1 = af_button frame"
    using update_old_part [OF ok f, of "af_button frame"] by blast
  let ?L = "reports_old frame o2n ?old ?slots (length ?old)"
  have n: "?n \<le> 11" using f by (simp add: frame_ok_def)
  have p: "places slots1 = image_mset (place_of frame) (mset_set (snd ` M))" by (rule old_moved_places [OF mv r A])
  have "size (places slots1) + length (filter (\<lambda>i. n2o ! i < 0) [0..<?n]) \<le> 11"
    unfolding p size_image_mset size_mset_set places_all(2) [OF r A n] by (rule n)
  from update_new_correct [OF new_ok_start [OF ok f mv r A] out1(1) f _ this] n obtain slots' out' L' where
    u: "update_new frame n2o [0..<?n] slots1 (ids_available ?slots ?old) out1 = (AI_OK, slots', out')"
      "slots_ok slots'" "out_holds (?L @ L') out'" "distinct (map oc_id (?L @ L'))" "\<forall>c\<in>set (?L @ L'). oc_id c < 5"
      "\<forall>c\<in>set L'. oc_tip c" "held slots' = held slots1 \<union> triple ` set L'"
      "places slots' = places slots1 + mset (map (place_of frame) (filter (\<lambda>i. n2o ! i < 0) [0..<?n]))"
      "ou_button out' = ou_button out1" by auto
  have run: "ai_trackpad_tracker_update t frame =
      Some (AI_OK, t\<lparr> tr_slots := slots' \<rparr>, sort_output_by_id (count_suppressed slots' out'))"
    using n unfolding ai_trackpad_tracker_update_def by (simp add: m u(1) Let_def)
  have places: "places slots' = mset (map (place_of frame) [0..<?n])"
    unfolding u(8) p by (rule places_all(1) [OF r A n])
  have held: "triple ` {c \<in> set (?L @ L'). oc_tip c} = held slots'"
  proof -
    have "{c \<in> set (?L @ L'). oc_tip c} = {c \<in> set ?L. oc_tip c} \<union> set L'" using u(6) by auto
    then show ?thesis by (simp only: image_Un reports_old_held(1) [OF ok mv] u(7))
  qed
  have rel: "oc_id ` {c \<in> set (?L @ L'). \<not> oc_tip c} = held_ids ?slots - held_ids slots'"
  proof -
    have "held_ids slots' = oc_id ` {c \<in> set (?L @ L'). oc_tip c}"
      by (simp only: held_ids_held held [symmetric] image_image fst_conv)
    moreover have "{c \<in> set (?L @ L'). \<not> oc_tip c} = {c \<in> set ?L. \<not> oc_tip c}" using u(6) by auto
    moreover have "inj_on oc_id (set (?L @ L'))" using u(4) by (simp only: distinct_map)
    ultimately show ?thesis unfolding reports_old_held(2) [OF ok mv, symmetric] by (auto simp: inj_on_def)
  qed
  show ?thesis
    using run u(2-5) held rel places u(9) out1(2)
    by (intro exI [of _ slots'] exI [of _ out'] exI [of _ "?L @ L'"]) simp
qed

section \<open>The property of the tracker\<close>

text \<open>What an update promises: from the slots \<open>before\<close> and a frame, the slots \<open>after\<close> hold the frame's
  contacts, each once; the report names every identifier held now, with its place, as a touch, every
  identifier given up as a release, in increasing order and none twice; and the contacts without an
  identifier are counted.\<close>

definition update_promise ::
  "ai_trackpad_physical_slot list \<Rightarrow> ai_apple_trackpad_frame \<Rightarrow> ai_trackpad_physical_slot list
   \<Rightarrow> ai_trackpad_output_frame \<Rightarrow> bool" where
  "update_promise before frame after out \<longleftrightarrow>
     (let L = take (ou_count out) (ou_contacts out)
      in slots_ok after \<and> places after = mset (map (place_of frame) [0..<af_count frame]) \<and>
         ou_count out \<le> 5 \<and> sorted (map oc_id L) \<and> distinct (map oc_id L) \<and>
         triple ` {c \<in> set L. oc_tip c} = held after \<and>
         oc_id ` {c \<in> set L. \<not> oc_tip c} = held_ids before - held_ids after \<and>
         ou_active_count out = card (held_ids after) \<and>
         ou_active_count out + ou_suppressed_count out = af_count frame \<and>
         ou_button out = af_button frame)"

lemma held_card:
  assumes ok: "slots_ok slots"
  shows "card (held_ids slots) + length (filter (\<lambda>k. ps_active (slots ! k) \<and> \<not> ps_admitted (slots ! k)) [0..<11]) =
    size (places slots)"
proof -
  let ?A = "{k. k < 11 \<and> ps_admitted (slots ! k)}"
  let ?S = "{k. k < 11 \<and> ps_active (slots ! k) \<and> \<not> ps_admitted (slots ! k)}"
  have len: "length slots = 11" by (rule slots_okD(1) [OF ok])
  have fin: "finite ?A" "finite ?S" by simp_all
  have a: "card (held_ids slots) = card ?A" unfolding held_ids_def by (rule card_image [OF slots_okD(4) [OF ok]])
  have s: "length (filter (\<lambda>k. ps_active (slots ! k) \<and> \<not> ps_admitted (slots ! k)) [0..<11]) = card ?S"
  proof -
    have "set (filter (\<lambda>k. ps_active (slots ! k) \<and> \<not> ps_admitted (slots ! k)) [0..<11]) = ?S" by auto
    then show ?thesis using distinct_card [of "filter (\<lambda>k. ps_active (slots ! k) \<and> \<not> ps_admitted (slots ! k)) [0..<11]"]
      by simp
  qed
  have "{k. k < 11 \<and> ps_active (slots ! k)} = ?A \<union> ?S" using slots_okD(2) [OF ok] by auto
  then have "size (places slots) = card (?A \<union> ?S)"
    by (simp only: places_indices [OF len] size_image_mset size_mset_set)
  also have "\<dots> = card ?A + card ?S" by (rule card_Un_disjoint [OF fin]) auto
  finally show ?thesis using a s by simp
qed

lemma sort_suppressed:
  "sort_output_by_id (out\<lparr> ou_suppressed_count := n \<rparr>) = (sort_output_by_id out)\<lparr> ou_suppressed_count := n \<rparr>"
  by (simp add: sort_output_by_id_def)

lemma update_promised:
  assumes ok: "slots_ok (tr_slots t)" and f: "frame_ok frame"
  shows "\<exists>t' out. ai_trackpad_tracker_update t frame = Some (AI_OK, t', out) \<and>
    update_promise (tr_slots t) frame (tr_slots t') out"
proof -
  from update_parts [OF ok f] obtain slots' out L where
    run: "ai_trackpad_tracker_update t frame =
      Some (AI_OK, t\<lparr> tr_slots := slots' \<rparr>, sort_output_by_id (count_suppressed slots' out))"
    and ok': "slots_ok slots'" and out: "out_holds L out" and d: "distinct (map oc_id L)"
    and tips: "triple ` {c \<in> set L. oc_tip c} = held slots'"
    and rel: "oc_id ` {c \<in> set L. \<not> oc_tip c} = held_ids (tr_slots t) - held_ids slots'"
    and pl: "places slots' = mset (map (place_of frame) [0..<af_count frame])" and b: "ou_button out = af_button frame"
    by (elim exE conjE)
  from sort_output_holds [OF out] obtain L' where
    L': "out_holds L' (sort_output_by_id out)" "mset L' = mset L" "sorted (map oc_id L')" by blast
  have same: "set L' = set L" "distinct (map oc_id L')"
    using L'(2) d by (metis set_mset_mset, metis mset_map mset_eq_imp_distinct_iff)
  define supp where "supp = length (filter (\<lambda>k. ps_active (slots' ! k) \<and> \<not> ps_admitted (slots' ! k)) [0..<11])"
  let ?out = "(sort_output_by_id out)\<lparr> ou_suppressed_count := supp \<rparr>"
  have o: "sort_output_by_id (count_suppressed slots' out) = ?out"
    using out by (simp add: count_suppressed_eq sort_suppressed out_holds_def supp_def)
  have h: "ou_count ?out = length L'" "length L' \<le> 5" "take (length L') (ou_contacts ?out) = L'"
    "ou_active_count ?out = length (filter oc_tip L')" using L'(1) by (simp_all add: out_holds_def)
  have active: "length (filter oc_tip L') = card (held_ids slots')"
  proof -
    have "distinct (map oc_id (filter oc_tip L'))" by (rule distinct_map_filter [OF same(2)])
    from distinct_card [OF this] have "length (filter oc_tip L') = card (oc_id ` {c \<in> set L. oc_tip c})"
      by (simp add: same)
    also have "oc_id ` {c \<in> set L. oc_tip c} = held_ids slots'"
      by (simp only: held_ids_held tips [symmetric] image_image fst_conv)
    finally show ?thesis .
  qed
  have total: "card (held_ids slots') + supp = af_count frame"
    using held_card [OF ok'] pl by (simp add: supp_def)
  have "update_promise (tr_slots t) frame slots' ?out"
    unfolding update_promise_def Let_def h(1) h(3)
    using ok' pl h(2,4) L'(3) same tips rel active total b by (simp add: sort_output_by_id_def)
  with run o show ?thesis by (intro exI [of _ "t\<lparr> tr_slots := slots' \<rparr>"] exI [of _ ?out]) simp
qed

text \<open>The tracker as the driver's device context starts with it, and a frame of six contacts.\<close>

definition tracker_zero :: ai_trackpad_tracker where
  "tracker_zero = \<lparr> tr_slots = replicate 11
     \<lparr> ps_active = False, ps_admitted = False, ps_windows_id = 0, ps_x = 0, ps_y = 0 \<rparr> \<rparr>"

definition six_fingers :: ai_apple_trackpad_frame where
  "six_fingers = \<lparr> af_button = False, af_count = 6,
     af_contacts = map (\<lambda>b. \<lparr> ac_x = 100 * int b, ac_y = - int b \<rparr>) [0..<11] \<rparr>"

lemma tracker_zero_ok: "slots_ok (tr_slots tracker_zero)"
proof -
  have idle: "\<not> ps_active (tr_slots tracker_zero ! k)" "\<not> ps_admitted (tr_slots tracker_zero ! k)" if "k < 11" for k
    using that by (simp_all add: tracker_zero_def)
  then have none: "{k. k < 11 \<and> ps_admitted (tr_slots tracker_zero ! k)} = {}" by blast
  have "length (tr_slots tracker_zero) = 11" by (simp add: tracker_zero_def)
  with idle show ?thesis unfolding slots_ok_def none by simp
qed

lemma six_fingers_ok: "frame_ok six_fingers"
  unfolding frame_ok_def six_fingers_def by (simp add: All_less_Suc numeral_eq_Suc)

text \<open>C9. From slots in order (eleven of them, the identifiers of those admitted below five and no two
  the same) and a frame of at most eleven contacts with sixteen-bit coordinates, the tracker's update
  returns, without an error, with slots in order again: the slots in use are at the places of the frame's
  contacts, each once; the report lists, in increasing order and without repetition, a touch at its place
  for every identifier now held and a release for every identifier given up; an identifier is never given
  to two contacts, nor taken again in the frame that releases it; and the contacts without an identifier
  are the suppressed ones.\<close>

theorem tracker_update_keeps_promise:
  assumes "slots_ok (tr_slots tracker)" and "frame_ok frame"
  shows "\<exists>tracker' out. ai_trackpad_tracker_update tracker frame = Some (AI_OK, tracker', out) \<and>
    update_promise (tr_slots tracker) frame (tr_slots tracker') out"
  by (rule update_promised [OF assms])

theorem tracker_update_keeps_promise_witness:
  "\<exists>tracker' out. ai_trackpad_tracker_update tracker_zero six_fingers = Some (AI_OK, tracker', out) \<and>
     slots_ok (tr_slots tracker') \<and> ou_active_count out + ou_suppressed_count out = 6"
proof -
  from tracker_update_keeps_promise [OF tracker_zero_ok six_fingers_ok] obtain tracker' out where
    "ai_trackpad_tracker_update tracker_zero six_fingers = Some (AI_OK, tracker', out)"
    "update_promise (tr_slots tracker_zero) six_fingers (tr_slots tracker') out" by blast
  moreover have "af_count six_fingers = 6" by (simp add: six_fingers_def)
  ultimately show ?thesis by (intro exI [of _ tracker'] exI [of _ out]) (simp add: update_promise_def Let_def)
qed

end
