(* ===== verification/Ptp.thy ===== *)
theory Ptp
  imports Tracker
begin

text \<open>
  The precision-touchpad reports, \<^verbatim>\<open>drivers/apple-input/protocol/src/apple_precision_touchpad.c\<close>: the input
  report Windows reads the contacts of a frame from, and the feature reports that switch the mode.  A
  buffer is the list of its bytes, its capacity the length; an encoder returns the status, the buffer
  and the length it reports.  Input modes are bytes.
\<close>

section \<open>State\<close>

record ai_ptp_feature_state =
  pf_input_mode :: u8
  pf_pending_input_mode :: u8
  pf_mode_change_pending :: bool
  pf_neutral_pending :: bool
  pf_surface_enabled :: bool
  pf_button_enabled :: bool

abbreviation AI_PTP_REPORT_INPUT :: u8 where "AI_PTP_REPORT_INPUT \<equiv> 1"
abbreviation AI_PTP_REPORT_CAPABILITIES :: u8 where "AI_PTP_REPORT_CAPABILITIES \<equiv> 2"
abbreviation AI_PTP_REPORT_CERTIFICATION :: u8 where "AI_PTP_REPORT_CERTIFICATION \<equiv> 3"
abbreviation AI_PTP_REPORT_INPUT_MODE :: u8 where "AI_PTP_REPORT_INPUT_MODE \<equiv> 4"
abbreviation AI_PTP_REPORT_SELECTIVE :: u8 where "AI_PTP_REPORT_SELECTIVE \<equiv> 5"

definition ptp_default_certification :: "u8 list" where
  "ptp_default_certification = [
     0xfc, 0x28, 0xfe, 0x84, 0x40, 0xcb, 0x9a, 0x87, 0x0d, 0xbe, 0x57, 0x3c, 0xb6, 0x70, 0x09, 0x88,
     0x07, 0x97, 0x2d, 0x2b, 0xe3, 0x38, 0x34, 0xb6, 0x6c, 0xed, 0xb0, 0xf7, 0xe5, 0x9c, 0xf6, 0xc2,
     0x2e, 0x84, 0x1b, 0xe8, 0xb4, 0x51, 0x78, 0x43, 0x1f, 0x28, 0x4b, 0x7c, 0x2d, 0x53, 0xaf, 0xfc,
     0x47, 0x70, 0x1b, 0x59, 0x6f, 0x74, 0x43, 0xc4, 0xf3, 0x47, 0x18, 0x53, 0x1a, 0xa2, 0xa1, 0x71,
     0xc7, 0x95, 0x0e, 0x31, 0x55, 0x21, 0xd3, 0xb5, 0x1e, 0xe9, 0x0c, 0xba, 0xec, 0xb8, 0x89, 0x19,
     0x3e, 0xb3, 0xaf, 0x75, 0x81, 0x9d, 0x53, 0xb9, 0x41, 0x57, 0xf4, 0x6d, 0x39, 0x25, 0x29, 0x7c,
     0x87, 0xd9, 0xb4, 0x98, 0x45, 0x7d, 0xa7, 0x26, 0x9c, 0x65, 0x3b, 0x85, 0x68, 0x89, 0xd7, 0x3b,
     0xbd, 0xff, 0x14, 0x67, 0xf2, 0x2b, 0xf0, 0x2a, 0x41, 0x54, 0xf0, 0xfd, 0x2c, 0x66, 0x7c, 0xf8,
     0xc0, 0x8f, 0x33, 0x13, 0x03, 0xf1, 0xd3, 0xc1, 0x0b, 0x89, 0xd9, 0x1b, 0x62, 0xcd, 0x51, 0xb7,
     0x80, 0xb8, 0xaf, 0x3a, 0x10, 0xc1, 0x8a, 0x5b, 0xe8, 0x8a, 0x56, 0xf0, 0x8c, 0xaa, 0xfa, 0x35,
     0xe9, 0x42, 0xc4, 0xd8, 0x55, 0xc3, 0x38, 0xcc, 0x2b, 0x53, 0x5c, 0x69, 0x52, 0xd5, 0xc8, 0x73,
     0x02, 0x38, 0x7c, 0x73, 0xb6, 0x41, 0xe7, 0xff, 0x05, 0xd8, 0x2b, 0x79, 0x9a, 0xe2, 0x34, 0x60,
     0x8f, 0xa3, 0x32, 0x1f, 0x09, 0x78, 0x62, 0xbc, 0x80, 0xe3, 0x0f, 0xbd, 0x65, 0x20, 0x08, 0x13,
     0xc1, 0xe2, 0xee, 0x53, 0x2d, 0x86, 0x7e, 0xa7, 0x5a, 0xc5, 0xd3, 0x7d, 0x98, 0xbe, 0x31, 0x48,
     0x1f, 0xfb, 0xda, 0xaf, 0xa2, 0xa8, 0x6a, 0x89, 0xd6, 0xbf, 0xf2, 0xd3, 0x32, 0x2a, 0x9a, 0xe4,
     0xcf, 0x17, 0xb7, 0xb8, 0xf4, 0xe1, 0x33, 0x08, 0x24, 0x8b, 0xc4, 0x43, 0xa5, 0xe5, 0x24, 0xc2]"

definition axis_contract_valid :: "ai_trackpad_axis_contract \<Rightarrow> bool" where
  "axis_contract_valid axes \<longleftrightarrow>
     axc_valid axes \<and> ax_valid (axc_x axes) \<and> ax_valid (axc_y axes) \<and>
     ax_logical_min (axc_x axes) < ax_logical_max (axc_x axes) \<and>
     ax_logical_min (axc_y axes) < ax_logical_max (axc_y axes) \<and>
     ax_physical_min (axc_x axes) < ax_physical_max (axc_x axes) \<and>
     ax_physical_min (axc_y axes) < ax_physical_max (axc_y axes) \<and>
     ax_unit (axc_x axes) = ax_unit (axc_y axes) \<and>
     ax_unit_exponent (axc_x axes) = ax_unit_exponent (axc_y axes)"

definition normalize_axis :: "int \<Rightarrow> int \<Rightarrow> int \<Rightarrow> u16" where
  "normalize_axis value' minimum maximum =
     (let clamped = (if value' < minimum then minimum else value');
          clamped = (if clamped > maximum then maximum else clamped);
          delta = of_int (clamped - minimum) :: u64;
          range' = of_int (maximum - minimum) :: u64
      in ucast ((delta * 4095 + range' div 2) div range'))"

section \<open>Input reports\<close>

definition ai_ptp_feature_init :: ai_ptp_feature_state where
  "ai_ptp_feature_init = \<lparr> pf_input_mode = 0, pf_pending_input_mode = 0, pf_mode_change_pending = False,
     pf_neutral_pending = False, pf_surface_enabled = True, pf_button_enabled = True \<rparr>"

definition ai_ptp_encode_neutral :: "u16 \<Rightarrow> u8 list \<Rightarrow> ai_status \<times> u8 list \<times> nat" where
  "ai_ptp_encode_neutral scan_time report =
     (if length report < 35 then (AI_ERR_LENGTH, report, 0)
      else let report = replicate 35 0 @ drop 35 report;
               report = report[0 := AI_PTP_REPORT_INPUT];
               report = put_le16 31 scan_time report
           in (AI_OK, report, 35))"

text \<open>The loop over the contacts of the frame, with the number of entries written so far.\<close>

fun emit_contacts ::
  "ai_trackpad_axis_contract \<Rightarrow> ai_trackpad_output_contact list \<Rightarrow> nat \<Rightarrow> u8 list \<Rightarrow> ai_status \<times> nat \<times> u8 list" where
  "emit_contacts axes [] emitted report = (AI_OK, emitted, report)"
| "emit_contacts axes (source # rest) emitted report =
     (let destination = 1 + emitted * 6
      in if oc_id source \<ge> 5 then (AI_ERR_PROTOCOL, emitted, report)
         else let x = normalize_axis (oc_x source) (ax_logical_min (axc_x axes)) (ax_logical_max (axc_x axes));
                  y = normalize_axis (oc_y source) (ax_logical_min (axc_y axes)) (ax_logical_max (axc_y axes));
                  report = report[destination := 1 OR (if oc_tip source then 2 else 0)];
                  report = report[destination + 1 := of_nat (oc_id source)];
                  report = put_le16 (destination + 2) x report;
                  report = put_le16 (destination + 4) (4095 - y) report
              in emit_contacts axes rest (emitted + 1) report)"

definition ai_ptp_encode_input ::
  "ai_trackpad_axis_contract \<Rightarrow> ai_trackpad_output_frame \<Rightarrow> u16 \<Rightarrow> ai_ptp_feature_state \<Rightarrow> u8 list
   \<Rightarrow> ai_status \<times> u8 list \<times> nat" where
  "ai_ptp_encode_input axes frame scan_time features report =
     (if ou_count frame > 5 then (AI_ERR_LENGTH, report, 0)
      else if \<not> axis_contract_valid axes then (AI_ERR_PROTOCOL, report, 0)
      else if pf_input_mode features \<noteq> 3 \<or> pf_mode_change_pending features then (AI_OK, report, 0)
      else if length report < 35 then (AI_ERR_LENGTH, report, 0)
      else
        let report = replicate 35 0 @ drop 35 report;
            report = report[0 := AI_PTP_REPORT_INPUT]
        in case (if pf_surface_enabled features
                 then emit_contacts axes (take (ou_count frame) (ou_contacts frame)) 0 report
                 else (AI_OK, 0, report)) of
             (status, emitted, report) \<Rightarrow>
               if status \<noteq> AI_OK then (status, report, 0)
               else let report = put_le16 31 scan_time report;
                        report = report[33 := of_nat emitted];
                        report = report[34 := (if pf_button_enabled features \<and> ou_button frame then 1 else 0)]
                    in (AI_OK, report, 35))"

section \<open>Feature reports\<close>

definition ai_ptp_get_feature ::
  "ai_ptp_feature_state \<Rightarrow> u8 \<Rightarrow> u8 list \<Rightarrow> ai_status \<times> u8 list \<times> nat" where
  "ai_ptp_get_feature s report_id buffer =
     (let required = (if report_id = AI_PTP_REPORT_CERTIFICATION then 257 else 2)
      in if report_id \<notin> {AI_PTP_REPORT_CAPABILITIES, AI_PTP_REPORT_CERTIFICATION, AI_PTP_REPORT_INPUT_MODE,
                          AI_PTP_REPORT_SELECTIVE}
         then (AI_ERR_PROTOCOL, buffer, 0)
         else if length buffer < required then (AI_ERR_LENGTH, buffer, 0)
         else
           let buffer = replicate required 0 @ drop required buffer;
               buffer = buffer[0 := report_id];
               buffer =
                 (if report_id = AI_PTP_REPORT_CAPABILITIES then buffer[1 := 5]
                  else if report_id = AI_PTP_REPORT_CERTIFICATION
                  then take 1 buffer @ ptp_default_certification @ drop 257 buffer
                  else if report_id = AI_PTP_REPORT_INPUT_MODE
                  then buffer[1 := (if pf_mode_change_pending s then pf_pending_input_mode s else pf_input_mode s)]
                  else buffer[1 := (if pf_surface_enabled s then 1 else 0) OR (if pf_button_enabled s then 2 else 0)])
           in (AI_OK, buffer, required))"

text \<open>The second component tells whether a neutral report is required.\<close>

definition ai_ptp_set_feature ::
  "ai_ptp_feature_state \<Rightarrow> u8 \<Rightarrow> u8 list \<Rightarrow> bool \<Rightarrow> ai_status \<times> bool \<times> ai_ptp_feature_state" where
  "ai_ptp_set_feature s report_id buffer contacts_active =
     (if length buffer \<noteq> 2 then (AI_ERR_LENGTH, False, s)
      else if buffer ! 0 \<noteq> report_id then (AI_ERR_PROTOCOL, False, s)
      else if report_id = AI_PTP_REPORT_INPUT_MODE
      then let requested = (if buffer ! 1 = 3 then 3 else 0)
           in if pf_mode_change_pending s \<and> pf_pending_input_mode s = requested then (AI_OK, False, s)
              else if \<not> pf_mode_change_pending s \<and> pf_input_mode s = requested then (AI_OK, False, s)
              else if contacts_active
              then (AI_OK, True, s\<lparr> pf_pending_input_mode := requested, pf_mode_change_pending := True,
                                    pf_neutral_pending := True \<rparr>)
              else (AI_OK, False, s\<lparr> pf_input_mode := requested, pf_pending_input_mode := requested,
                                     pf_mode_change_pending := False, pf_neutral_pending := False \<rparr>)
      else if report_id = AI_PTP_REPORT_SELECTIVE
      then (if buffer ! 1 AND 0xfc \<noteq> 0 then (AI_ERR_PROTOCOL, False, s)
            else (AI_OK, False, s\<lparr> pf_surface_enabled := buffer ! 1 AND 1 \<noteq> 0,
                                   pf_button_enabled := buffer ! 1 AND 2 \<noteq> 0 \<rparr>))
      else (AI_ERR_PROTOCOL, False, s))"

definition ai_ptp_feature_take_neutral :: "ai_ptp_feature_state \<Rightarrow> bool \<times> ai_ptp_feature_state" where
  "ai_ptp_feature_take_neutral s = (pf_neutral_pending s, s\<lparr> pf_neutral_pending := False \<rparr>)"

definition ai_ptp_feature_contacts_update ::
  "ai_ptp_feature_state \<Rightarrow> bool \<Rightarrow> bool \<times> ai_ptp_feature_state" where
  "ai_ptp_feature_contacts_update s contacts_active =
     (if pf_mode_change_pending s \<and> contacts_active then (False, s)
      else let s = (if pf_mode_change_pending s
                    then s\<lparr> pf_input_mode := pf_pending_input_mode s, pf_mode_change_pending := False,
                            pf_neutral_pending := False \<rparr> else s)
           in (pf_input_mode s = 3, s))"

section \<open>Scaling an axis\<close>

text \<open>The place on the axis: the nearest of 4096 steps to where the coordinate, held inside the limits, lies.\<close>

definition axis_place :: "int \<Rightarrow> int \<Rightarrow> int \<Rightarrow> nat" where
  "axis_place value' minimum maximum =
     nat (((max minimum (min maximum value') - minimum) * 4095 + (maximum - minimum) div 2) div (maximum - minimum))"

definition int32_axis :: "ai_trackpad_axis \<Rightarrow> bool" where
  "int32_axis a \<longleftrightarrow> - (2 ^ 31) \<le> ax_logical_min a \<and> ax_logical_max a < 2 ^ 31"

lemma axis_place_bound:
  assumes "minimum < maximum"
  shows "axis_place value' minimum maximum \<le> 4095"
proof -
  let ?r = "maximum - minimum" and ?d = "max minimum (min maximum value') - minimum"
  have "?d * 4095 + ?r div 2 < 4096 * ?r" using assms by (auto simp: max_def min_def)
  moreover have "(?d * 4095 + ?r div 2) div ?r * ?r \<le> ?d * 4095 + ?r div 2"
    using assms by (simp add: minus_mod_eq_div_mult [symmetric])
  ultimately have "(?d * 4095 + ?r div 2) div ?r * ?r < 4096 * ?r" by linarith
  then have "(?d * 4095 + ?r div 2) div ?r < 4096" by (rule mult_right_less_imp_less) (use assms in simp)
  then show ?thesis unfolding axis_place_def by linarith
qed

text \<open>Within half a step of the exact place.\<close>

lemma half_step:
  fixes r :: int
  assumes "x = d * 4095 + r div 2 - m" and "0 \<le> m" and "m < r"
  shows "2 * \<bar>x - 4095 * d\<bar> \<le> r"
  using assms by presburger

lemma axis_place_near:
  assumes "minimum < maximum"
  shows "2 * \<bar>int (axis_place value' minimum maximum) * (maximum - minimum) -
    4095 * (max minimum (min maximum value') - minimum)\<bar> \<le> maximum - minimum"
proof -
  let ?r = "maximum - minimum" and ?d = "max minimum (min maximum value') - minimum"
  let ?n = "?d * 4095 + ?r div 2"
  have r: "0 < ?r" and d: "0 \<le> ?d" using assms by (auto simp: max_def min_def)
  have "0 \<le> ?n div ?r" using r d by (intro pos_imp_zdiv_nonneg_iff [THEN iffD2]) auto
  then have "int (axis_place value' minimum maximum) * ?r = ?n - ?n mod ?r"
    unfolding axis_place_def by (simp add: minus_mod_eq_div_mult [symmetric])
  then show ?thesis using r by (rule_tac half_step) auto
qed

lemma normalize_axis_place:
  assumes "minimum < maximum" and "- (2 ^ 31) \<le> minimum" and "maximum < 2 ^ 31"
  shows "normalize_axis value' minimum maximum = of_nat (axis_place value' minimum maximum)"
proof -
  let ?r = "maximum - minimum" and ?d = "max minimum (min maximum value') - minimum"
  have r: "0 < ?r" "?r < 2 ^ 32" and d: "0 \<le> ?d" "?d \<le> ?r" using assms by (auto simp: max_def min_def)
  obtain R D where RD: "?r = int R" "?d = int D" using r d by (metis nonneg_int_cases less_imp_le)
  have b: "R < 2 ^ 32" "D \<le> R" "0 < R" using r d unfolding RD by auto
  have clamped: "(let clamped = (if value' < minimum then minimum else value')
      in if clamped > maximum then maximum else clamped) = max minimum (min maximum value')"
    using assms by (simp add: Let_def max_def min_def)
  have place: "axis_place value' minimum maximum = (D * 4095 + R div 2) div R"
  proof -
    have "(int D * 4095 + int R div 2) div int R = int ((D * 4095 + R div 2) div R)" by (simp add: zdiv_int)
    then show ?thesis unfolding axis_place_def RD by (simp only: nat_int)
  qed
  have "D * 4095 + R div 2 \<le> 4096 * R" using b div_le_dividend [of R 2] by linarith
  also have "\<dots> < 2 ^ 64" using b by simp
  finally have small: "D * 4095 + R div 2 < 2 ^ 64" .
  have "(of_nat R :: u64) div 2 = of_nat (R div 2)" using b by (simp add: word_unat_eq_iff unat_div unat_of_nat)
  then have "(of_nat D * 4095 + of_nat R div 2 :: u64) = of_nat (D * 4095 + R div 2)" by simp
  then have "unat ((of_nat D * 4095 + of_nat R div 2) :: u64) = D * 4095 + R div 2"
    using small by (simp only: unat_of_nat) simp
  moreover have "unat (of_nat R :: u64) = R" using b by (simp add: unat_of_nat)
  ultimately have "unat ((of_nat D * 4095 + of_nat R div 2) div of_nat R :: u64) = axis_place value' minimum maximum"
    unfolding place by (simp add: unat_div)
  then have "((of_nat D * 4095 + of_nat R div 2) div of_nat R :: u64) = of_nat (axis_place value' minimum maximum)"
    by (metis of_nat_unat ucast_id)
  moreover have "normalize_axis value' minimum maximum =
      ucast ((of_nat D * 4095 + of_nat R div 2) div of_nat R :: u64)"
    using clamped RD unfolding normalize_axis_def Let_def by simp
  moreover have "take_bit 64 (axis_place value' minimum maximum) = axis_place value' minimum maximum"
    using axis_place_bound [OF assms(1), of value'] by (simp add: take_bit_nat_eq_self)
  ultimately show ?thesis by (simp add: unsigned_of_nat)
qed

section \<open>What a report shows\<close>

text \<open>The fields of the entry of a contact, as the report descriptor lays them out.\<close>

definition report_entry :: "u8 list \<Rightarrow> nat \<Rightarrow> u8 \<times> u8 \<times> u16 \<times> u16" where
  "report_entry report k = (report ! (6 * k + 1), report ! (6 * k + 2), get_le16 report (6 * k + 3), get_le16 report (6 * k + 5))"

definition contact_entry :: "ai_trackpad_axis_contract \<Rightarrow> ai_trackpad_output_contact \<Rightarrow> u8 \<times> u8 \<times> u16 \<times> u16" where
  "contact_entry axes c =
     ((if oc_tip c then 3 else 1), of_nat (oc_id c),
      of_nat (axis_place (oc_x c) (ax_logical_min (axc_x axes)) (ax_logical_max (axc_x axes))),
      of_nat (4095 - axis_place (oc_y c) (ax_logical_min (axc_y axes)) (ax_logical_max (axc_y axes))))"

definition good_axes :: "ai_trackpad_axis_contract \<Rightarrow> bool" where
  "good_axes axes \<longleftrightarrow> axis_contract_valid axes \<and> int32_axis (axc_x axes) \<and> int32_axis (axc_y axes)"

lemma good_axesD:
  assumes "good_axes axes"
  shows "normalize_axis v (ax_logical_min (axc_x axes)) (ax_logical_max (axc_x axes)) =
      of_nat (axis_place v (ax_logical_min (axc_x axes)) (ax_logical_max (axc_x axes)))"
    and "4095 - normalize_axis v (ax_logical_min (axc_y axes)) (ax_logical_max (axc_y axes)) =
      of_nat (4095 - axis_place v (ax_logical_min (axc_y axes)) (ax_logical_max (axc_y axes)))"
  using assms normalize_axis_place axis_place_bound
  unfolding good_axes_def axis_contract_valid_def int32_axis_def by (auto simp: of_nat_diff)

lemma emit_contacts_ok:
  assumes axes: "good_axes axes" and ids: "\<forall>c \<in> set cs. oc_id c < 5" and room: "6 * (n + length cs) < 31"
    and len: "35 \<le> length report"
  shows "\<exists>report'. emit_contacts axes cs n report = (AI_OK, n + length cs, report') \<and> length report' = length report \<and>
    (\<forall>k<length cs. report_entry report' (n + k) = contact_entry axes (cs ! k)) \<and>
    (\<forall>i. i \<le> 6 * n \<or> 6 * (n + length cs) < i \<longrightarrow> report' ! i = report ! i)"
  using ids room len
proof (induction cs arbitrary: n report)
  case (Cons c cs)
  let ?x = "normalize_axis (oc_x c) (ax_logical_min (axc_x axes)) (ax_logical_max (axc_x axes))"
  let ?y = "4095 - normalize_axis (oc_y c) (ax_logical_min (axc_y axes)) (ax_logical_max (axc_y axes))"
  let ?r = "put_le16 (6 * n + 5) ?y (put_le16 (6 * n + 3) ?x
    (report[6 * n + 1 := 1 OR (if oc_tip c then 2 else 0), 6 * n + 2 := of_nat (oc_id c)]))"
  have step: "emit_contacts axes (c # cs) n report = emit_contacts axes cs (Suc n) ?r"
    using Cons.prems by (simp add: Let_def algebra_simps numeral_3_eq_3)
  obtain report' where rest: "emit_contacts axes cs (Suc n) ?r = (AI_OK, Suc n + length cs, report')"
    "length report' = length report" "\<forall>k<length cs. report_entry report' (Suc n + k) = contact_entry axes (cs ! k)"
    "\<forall>i. i \<le> 6 * Suc n \<or> 6 * (Suc n + length cs) < i \<longrightarrow> report' ! i = ?r ! i"
    using Cons.IH [of "Suc n" ?r] Cons.prems by auto
  have kept: "report' ! i = ?r ! i" if "i \<le> 6 * n + 6" for i using rest(4) that by simp
  have here: "report_entry ?r n = contact_entry axes c"
    using Cons.prems good_axesD [OF axes]
    by (simp add: report_entry_def contact_entry_def get_le16_def put_le16_def nth_list_update)
  have "report_entry report' n = report_entry ?r n" using kept by (simp add: report_entry_def get_le16_def)
  then have "\<forall>k<length (c # cs). report_entry report' (n + k) = contact_entry axes ((c # cs) ! k)"
    using here rest(3) by (auto simp: less_Suc_eq_0_disj)
  moreover have "\<forall>i. i \<le> 6 * n \<or> 6 * (n + length (c # cs)) < i \<longrightarrow> report' ! i = report ! i"
    using rest(4) by (auto simp: put_le16_def nth_list_update)
  ultimately show ?case using step rest(1,2) by auto
qed simp


lemma update_ids:
  assumes before: "slots_ok before" and promise: "update_promise before frame after out"
  shows "\<forall>c \<in> set (take (ou_count out) (ou_contacts out)). oc_id c < 5"
proof
  fix c assume c: "c \<in> set (take (ou_count out) (ou_contacts out))"
  have after: "slots_ok after" using promise by (simp add: update_promise_def Let_def)
  show "oc_id c < 5"
  proof (cases "oc_tip c")
    case True
    then have "triple c \<in> held after" using promise c by (auto simp: update_promise_def Let_def)
    then have "oc_id c \<in> held_ids after" by (auto simp: held_ids_held image_iff intro: bexI [rotated])
    then show ?thesis by (rule held_ids_less [OF after])
  next
    case False
    then have "oc_id c \<in> held_ids before" using promise c by (auto simp: update_promise_def Let_def)
    then show ?thesis by (rule held_ids_less [OF before])
  qed
qed

text \<open>The whole report: its number, the entries in use and the rest blank, the time, the count and the button.\<close>

definition report_shows ::
  "ai_trackpad_axis_contract \<Rightarrow> ai_trackpad_output_contact list \<Rightarrow> bool \<Rightarrow> u16 \<Rightarrow> u8 list \<Rightarrow> bool" where
  "report_shows axes cs button scan_time report \<longleftrightarrow>
     report ! 0 = AI_PTP_REPORT_INPUT \<and>
     (\<forall>k<length cs. report_entry report k = contact_entry axes (cs ! k)) \<and>
     (\<forall>i. 6 * length cs < i \<and> i < 31 \<longrightarrow> report ! i = 0) \<and>
     get_le16 report 31 = scan_time \<and> report ! 33 = of_nat (length cs) \<and>
     report ! 34 = (if button then 1 else 0)"

lemma encode_shows:
  assumes axes: "good_axes axes" and mode: "pf_input_mode features = 3" "\<not> pf_mode_change_pending features"
    and room: "35 \<le> length report" and n: "ou_count frame \<le> 5"
    and ids: "\<forall>c \<in> set (take (ou_count frame) (ou_contacts frame)). oc_id c < 5"
  shows "\<exists>report'. ai_ptp_encode_input axes frame scan_time features report = (AI_OK, report', 35) \<and>
    report_shows axes (if pf_surface_enabled features then take (ou_count frame) (ou_contacts frame) else [])
      (pf_button_enabled features \<and> ou_button frame) scan_time report' \<and> drop 35 report' = drop 35 report"
proof -
  define cs where "cs = (if pf_surface_enabled features then take (ou_count frame) (ou_contacts frame) else [])"
  let ?blank = "(replicate 35 0 @ drop 35 report)[0 := AI_PTP_REPORT_INPUT]"
  have cs: "length cs \<le> 5" "\<forall>c \<in> set cs. oc_id c < 5" using n ids by (auto simp: cs_def)
  obtain r where emit: "emit_contacts axes cs 0 ?blank = (AI_OK, length cs, r)" "length r = length ?blank"
    "\<forall>k<length cs. report_entry r k = contact_entry axes (cs ! k)"
    "\<forall>i. i \<le> 0 \<or> 6 * length cs < i \<longrightarrow> r ! i = ?blank ! i"
    using emit_contacts_ok [OF axes cs(2), of 0 ?blank] cs(1) room by auto
  let ?r = "(put_le16 31 scan_time r)[33 := of_nat (length cs), 34 := (if pf_button_enabled features \<and> ou_button frame then 1 else 0)]"
  have len: "length r = length report" "length ?r = length report" using emit(2) room by auto
  have low: "?r ! i = r ! i" if "i < 31" for i using that by (simp add: put_le16_def)
  have blank: "r ! 0 = AI_PTP_REPORT_INPUT" "6 * length cs < i \<Longrightarrow> i < 31 \<Longrightarrow> r ! i = 0" for i
    using emit(4) by (auto simp: nth_append)
  have entries: "report_entry ?r k = report_entry r k" if "k < length cs" for k
    using that cs(1) low unfolding report_entry_def get_le16_def by simp
  have tail: "drop 35 ?r = drop 35 report"
  proof (rule nth_equalityI)
    fix i assume "i < length (drop 35 ?r)"
    then have i: "35 + i < length report" using len by simp
    then have "?r ! (35 + i) = r ! (35 + i)" by (simp add: put_le16_def)
    also have "\<dots> = ?blank ! (35 + i)" using emit(4) cs(1) by simp
    finally show "drop 35 ?r ! i = drop 35 report ! i" using i len by (simp add: nth_append)
  qed (use len in simp)
  have "ai_ptp_encode_input axes frame scan_time features report = (AI_OK, ?r, 35)"
    using n mode room axes emit(1) unfolding ai_ptp_encode_input_def good_axes_def cs_def
    by (auto simp: Let_def)
  moreover have "report_shows axes cs (pf_button_enabled features \<and> ou_button frame) scan_time ?r"
    unfolding report_shows_def using emit(3) entries low blank room len
    by (auto simp: get_le16_def put_le16_def nth_list_update)
  ultimately show ?thesis using tail unfolding cs_def by blast
qed

section \<open>Changing the mode\<close>

definition pf_wf :: "ai_ptp_feature_state \<Rightarrow> bool" where
  "pf_wf s \<longleftrightarrow> pf_input_mode s \<in> {0, 3} \<and> pf_pending_input_mode s \<in> {0, 3} \<and>
     (pf_neutral_pending s \<longrightarrow> pf_mode_change_pending s)"

text \<open>The calls on the feature state, each with whether contacts were on the surface.\<close>

inductive ptp_step :: "bool \<Rightarrow> ai_ptp_feature_state \<Rightarrow> ai_ptp_feature_state \<Rightarrow> bool" where
  set: "ai_ptp_set_feature s report_id buffer contacts = (status, neutral, s') \<Longrightarrow> ptp_step contacts s s'"
| take: "ai_ptp_feature_take_neutral s = (pending, s') \<Longrightarrow> ptp_step contacts s s'"
| update: "ai_ptp_feature_contacts_update s contacts = (ready, s') \<Longrightarrow> ptp_step contacts s s'"

inductive ptp_reachable :: "ai_ptp_feature_state \<Rightarrow> bool" where
  start: "ptp_reachable ai_ptp_feature_init"
| step: "ptp_reachable s \<Longrightarrow> ptp_step contacts s s' \<Longrightarrow> ptp_reachable s'"

lemma ptp_step_mode:
  assumes "ptp_step contacts s s'" and "pf_wf s"
  shows "pf_wf s' \<and> (pf_input_mode s' \<noteq> pf_input_mode s \<longrightarrow> \<not> contacts \<and> \<not> pf_mode_change_pending s')"
  using assms
proof cases
  case (set report_id buffer status neutral)
  then show ?thesis using assms(2) unfolding ai_ptp_set_feature_def pf_wf_def by (auto simp: Let_def split: if_splits)
next
  case (take pending)
  then show ?thesis using assms(2) unfolding ai_ptp_feature_take_neutral_def pf_wf_def by auto
next
  case (update ready)
  then show ?thesis using assms(2) unfolding ai_ptp_feature_contacts_update_def pf_wf_def
    by (auto simp: Let_def split: if_splits)
qed

lemma ptp_reachable_wf: "ptp_reachable s \<Longrightarrow> pf_wf s"
proof (induction rule: ptp_reachable.induct)
  case start
  show ?case by (simp add: ai_ptp_feature_init_def pf_wf_def)
next
  case (step s contacts s')
  then show ?case using ptp_step_mode by blast
qed

section \<open>Properties\<close>

text \<open>C17. The report of a frame: from slots in order and a frame of at most eleven contacts, in the touchpad
  mode and with limits of the axes that make sense, what the tracker reports is always encoded, and the
  report read back by its layout is exactly it: every contact with its touch bit, its identifier and the
  nearest of 4096 places on each axis (the vertical one turned over), the entries behind blank, the time,
  the number of contacts and the button; nothing behind the 35 bytes is written.\<close>

theorem ptp_report_decodes:
  assumes "slots_ok (tr_slots tracker)" and "frame_ok frame" and "good_axes axes"
    and "pf_input_mode features = 3" and "\<not> pf_mode_change_pending features" and "35 \<le> length report"
  shows "\<exists>tracker' out report'. ai_trackpad_tracker_update tracker frame = Some (AI_OK, tracker', out) \<and>
    ai_ptp_encode_input axes out scan_time features report = (AI_OK, report', 35) \<and>
    report_shows axes (if pf_surface_enabled features then take (ou_count out) (ou_contacts out) else [])
      (pf_button_enabled features \<and> af_button frame) scan_time report' \<and> drop 35 report' = drop 35 report"
proof -
  obtain tracker' out where track: "ai_trackpad_tracker_update tracker frame = Some (AI_OK, tracker', out)"
    "update_promise (tr_slots tracker) frame (tr_slots tracker') out" using update_promised [OF assms(1,2)] by blast
  then have count: "ou_count out \<le> 5" and button: "ou_button out = af_button frame"
    by (simp_all add: update_promise_def Let_def)
  from encode_shows [OF assms(3-6) count update_ids [OF assms(1) track(2)]] track(1) show ?thesis
    unfolding button by blast
qed

definition demo_axes :: ai_trackpad_axis_contract where
  "demo_axes = (let a = \<lparr> ax_logical_min = - 6000, ax_logical_max = 6000, ax_physical_min = 0, ax_physical_max = 500,
     ax_unit = 0x13, ax_unit_exponent = - 2, ax_valid = True \<rparr> in \<lparr> axc_x = a, axc_y = a, axc_valid = True \<rparr>)"

theorem ptp_report_decodes_witness:
  "\<exists>tracker' out report'. ai_trackpad_tracker_update tracker_zero six_fingers = Some (AI_OK, tracker', out) \<and>
    ai_ptp_encode_input demo_axes out 7 (ai_ptp_feature_init\<lparr> pf_input_mode := 3 \<rparr>) (replicate 35 0) = (AI_OK, report', 35) \<and>
    get_le16 report' 31 = 7"
proof -
  let ?f = "ai_ptp_feature_init\<lparr> pf_input_mode := 3 \<rparr>"
  have "good_axes demo_axes" by (simp add: demo_axes_def good_axes_def axis_contract_valid_def int32_axis_def Let_def)
  moreover have "pf_input_mode ?f = 3" "\<not> pf_mode_change_pending ?f" by (simp_all add: ai_ptp_feature_init_def)
  moreover have "35 \<le> length (replicate 35 (0 :: u8))" by simp
  ultimately show ?thesis using ptp_report_decodes [OF tracker_zero_ok six_fingers_ok, of demo_axes ?f "replicate 35 0" 7]
    unfolding report_shows_def by blast
qed

text \<open>The mode changes only when the fingers are off: in every state the calls can lead to, the modes are
  the mouse or the touchpad mode and a neutral report is owed only while a change waits; a call that
  changes the mode in force is made with no contact on the surface and leaves no change waiting.\<close>

theorem ptp_mode_protocol:
  assumes "ptp_reachable s" and "ptp_step contacts s s'"
  shows "pf_wf s' \<and> (pf_input_mode s' \<noteq> pf_input_mode s \<longrightarrow> \<not> contacts \<and> \<not> pf_mode_change_pending s')"
  by (rule ptp_step_mode [OF assms(2) ptp_reachable_wf [OF assms(1)]])

theorem ptp_mode_protocol_witness:
  "\<exists>s s'. ptp_step True ai_ptp_feature_init s \<and> pf_mode_change_pending s \<and> pf_input_mode s = 0 \<and>
    ptp_step False s s' \<and> pf_wf s' \<and> pf_input_mode s' = 3"
proof -
  let ?s = "ai_ptp_feature_init\<lparr> pf_pending_input_mode := 3, pf_mode_change_pending := True, pf_neutral_pending := True \<rparr>"
  let ?t = "ai_ptp_feature_init\<lparr> pf_pending_input_mode := 3, pf_input_mode := 3 \<rparr>"
  have one: "ptp_step True ai_ptp_feature_init ?s"
    by (rule ptp_step.set [of _ AI_PTP_REPORT_INPUT_MODE "[4, 3]" _ AI_OK True])
      (simp add: ai_ptp_set_feature_def ai_ptp_feature_init_def)
  have two: "ptp_step False ?s ?t"
    by (rule ptp_step.update [of _ _ True]) (simp add: ai_ptp_feature_contacts_update_def ai_ptp_feature_init_def)
  have "ptp_reachable ?s" using ptp_reachable.start one by (rule ptp_reachable.step)
  from ptp_mode_protocol [OF this two] one two show ?thesis by (force simp: ai_ptp_feature_init_def)
qed

text \<open>A mode that was asked for is the mode that is reported, whether it is in force already or waits.\<close>

lemma ptp_mode_reads_back:
  assumes "ai_ptp_set_feature s AI_PTP_REPORT_INPUT_MODE [AI_PTP_REPORT_INPUT_MODE, mode] contacts = (status, neutral, s')"
    and "2 \<le> length buffer"
  shows "\<exists>buffer'. ai_ptp_get_feature s' AI_PTP_REPORT_INPUT_MODE buffer = (AI_OK, buffer', 2) \<and>
    buffer' ! 1 = (if mode = 3 then 3 else 0)"
  using assms unfolding ai_ptp_set_feature_def ai_ptp_get_feature_def
  by (cases buffer; cases "tl buffer") (auto simp: Let_def numeral_2_eq_2 split: if_splits)

end
