(* ===== verification/Shadow.thy ===== *)
theory Shadow
  imports Prelude
begin

unbundle bit_operations_syntax

text \<open>
  The shadow of a DMA buffer, \<^verbatim>\<open>drivers/apple-agx/shared/src/apple_agx_dma_shadow.c\<close>: a header and a log of
  records in one block of bytes, each record a piece of the DMA buffer with the place it belongs to.  The
  storage is the list of its bytes, at least as many as the capacity; a structure laid over it is read field
  by field, little endian.  A cursor is a natural number: it never passes the bytes in use, because a record
  is checked to lie in what remains before the cursor moves past it.
\<close>

section \<open>Layout\<close>

record APPLE_AGX_DMA_SHADOW_HEADER =
  dh_Magic :: u32
  dh_Version :: u32
  dh_BytesUsed :: u32
  dh_Capacity :: u32
  dh_RecordCount :: u32
  dh_State :: u32
  dh_Fence :: u32

record APPLE_AGX_DMA_SHADOW_RECORD =
  dr_Magic :: u32
  dr_Version :: u32
  dr_RecordBytes :: u32
  dr_DmaOffset :: u32
  dr_DmaBytes :: u32
  dr_Reserved :: u32

record APPLE_AGX_DMA_SHADOW =
  ds_Storage :: "u8 list option"
  ds_Capacity :: u32
  ds_BytesUsed :: u32

text \<open>The bytes of a view are the place in the storage they start at.\<close>

record APPLE_AGX_DMA_SHADOW_VIEW =
  dv_DmaOffset :: u32
  dv_DmaBytes :: u32
  dv_Bytes :: "nat option"

abbreviation SHADOW_MAGIC :: u32 where "SHADOW_MAGIC \<equiv> 0x53475841"
abbreviation SHADOW_VERSION :: u32 where "SHADOW_VERSION \<equiv> 3"
abbreviation SHADOW_WRITABLE :: u32 where "SHADOW_WRITABLE \<equiv> 1"
abbreviation SHADOW_SEALED :: u32 where "SHADOW_SEALED \<equiv> 2"

definition AppleAgxDmaShadowHeader :: "u8 list \<Rightarrow> APPLE_AGX_DMA_SHADOW_HEADER" where
  "AppleAgxDmaShadowHeader st = \<lparr> dh_Magic = get32 st 0, dh_Version = get32 st 4, dh_BytesUsed = get32 st 8,
     dh_Capacity = get32 st 12, dh_RecordCount = get32 st 16, dh_State = get32 st 20, dh_Fence = get32 st 24 \<rparr>"

definition shadow_record :: "u8 list \<Rightarrow> nat \<Rightarrow> APPLE_AGX_DMA_SHADOW_RECORD" where
  "shadow_record st c = \<lparr> dr_Magic = get32 st c, dr_Version = get32 st (c + 4), dr_RecordBytes = get32 st (c + 8),
     dr_DmaOffset = get32 st (c + 12), dr_DmaBytes = get32 st (c + 16), dr_Reserved = get32 st (c + 20) \<rparr>"

definition bytes32 :: "u32 \<Rightarrow> u8 list" where
  "bytes32 v = [byte32 0 v, byte32 1 v, byte32 2 v, byte32 3 v]"

definition header_bytes :: "APPLE_AGX_DMA_SHADOW_HEADER \<Rightarrow> u8 list" where
  "header_bytes h = bytes32 (dh_Magic h) @ bytes32 (dh_Version h) @ bytes32 (dh_BytesUsed h) @ bytes32 (dh_Capacity h) @
     bytes32 (dh_RecordCount h) @ bytes32 (dh_State h) @ bytes32 (dh_Fence h)"

definition record_bytes :: "APPLE_AGX_DMA_SHADOW_RECORD \<Rightarrow> u8 list" where
  "record_bytes r = bytes32 (dr_Magic r) @ bytes32 (dr_Version r) @ bytes32 (dr_RecordBytes r) @
     bytes32 (dr_DmaOffset r) @ bytes32 (dr_DmaBytes r) @ bytes32 (dr_Reserved r)"

text \<open>Copying bytes to a place of the storage.\<close>

definition AppleAgxDmaShadowCopy :: "u8 list \<Rightarrow> nat \<Rightarrow> u8 list \<Rightarrow> u8 list" where
  "AppleAgxDmaShadowCopy destination place source =
     take place destination @ source @ drop (place + length source) destination"

definition AppleAgxDmaShadowZero :: "u8 list \<Rightarrow> nat \<Rightarrow> nat \<Rightarrow> u8 list" where
  "AppleAgxDmaShadowZero destination place bytes = AppleAgxDmaShadowCopy destination place (replicate bytes 0)"

section \<open>Records\<close>

definition AppleAgxDmaShadowRecordBytes :: "u32 \<Rightarrow> u32 option" where
  "AppleAgxDmaShadowRecordBytes dmaBytes =
     (if dmaBytes = 0 \<or> dmaBytes > NOT 0 - 24 then None
      else let raw = 24 + dmaBytes
           in if raw > NOT 0 - 7 then None else Some ((raw + 8 - 1) AND NOT 7))"

definition AppleAgxDmaShadowRecordValid :: "APPLE_AGX_DMA_SHADOW_RECORD \<Rightarrow> nat \<Rightarrow> bool" where
  "AppleAgxDmaShadowRecordValid r remaining \<longleftrightarrow>
     24 \<le> remaining \<and> dr_Magic r = SHADOW_MAGIC \<and> dr_Version r = SHADOW_VERSION \<and> dr_Reserved r = 0 \<and>
     AppleAgxDmaShadowRecordBytes (dr_DmaBytes r) = Some (dr_RecordBytes r) \<and>
     unat (dr_RecordBytes r) \<le> remaining \<and> dr_DmaOffset r \<le> NOT 0 - dr_DmaBytes r"

lemma record_bytes_nat:
  assumes "AppleAgxDmaShadowRecordBytes n = Some b"
  shows "unat b = 8 * ((unat n + 31) div 8)" and "0 < unat n" and "unat n + 31 < 2 ^ 32"
proof -
  have n: "n \<noteq> 0" "n \<le> NOT 0 - 24" "24 + n \<le> NOT 0 - 7" and b: "b = (24 + n + 8 - 1) AND NOT 7"
    using assms by (auto simp: AppleAgxDmaShadowRecordBytes_def Let_def split: if_splits)
  have "unat n \<le> 4294967271" using n(2) by (simp add: word_le_nat_alt)
  then have "unat (24 + n) = 24 + unat n" by (subst unat_add_lem [THEN iffD1]) auto
  then have small: "unat n \<le> 4294967264" using n(3) by (simp add: word_le_nat_alt)
  then have sum: "unat (n + 31) = unat n + 31" by (subst unat_add_lem [THEN iffD1]) auto
  have "b = (n + 31) AND NOT (mask 3)" using b by (simp add: mask_eq_exp_minus_1 algebra_simps)
  also have "\<dots> = push_bit 3 (drop_bit 3 (n + 31))" by (rule bit_word_eqI) (auto simp: bit_simps)
  finally have "unat b = unat (push_bit 3 (drop_bit 3 (n + 31)))" by simp
  also have "\<dots> = unat ((n + 31) div 8 * 8)" by (simp add: push_bit_eq_mult drop_bit_eq_div)
  also have "\<dots> = unat ((n + 31) div 8) * 8"
    using sum small by (subst unat_mult_lem [THEN iffD1]) (auto simp: unat_div)
  also have "\<dots> = 8 * ((unat n + 31) div 8)" by (simp add: unat_div sum)
  finally show "unat b = 8 * ((unat n + 31) div 8)" .
  show "0 < unat n" using n(1) by (simp add: unat_gt_0)
  show "unat n + 31 < 2 ^ 32" using small by simp
qed

lemma record_valid_positive:
  "AppleAgxDmaShadowRecordValid r remaining \<Longrightarrow> 24 + unat (dr_DmaBytes r) \<le> unat (dr_RecordBytes r)"
  "AppleAgxDmaShadowRecordValid r remaining \<Longrightarrow> 0 < unat (dr_RecordBytes r)"
  "AppleAgxDmaShadowRecordValid r remaining \<Longrightarrow> 0 < unat (dr_DmaBytes r)"
  using record_bytes_nat [of "dr_DmaBytes r" "dr_RecordBytes r"]
  unfolding AppleAgxDmaShadowRecordValid_def by auto

section \<open>Validation\<close>

text \<open>The loop over the records from a cursor on that looks for one that is malformed or meets the piece of the
  buffer from \<open>start\<close> to \<open>end'\<close>: the inner loop of the validation, and the loop of the append.\<close>

function no_overlap :: "u8 list \<Rightarrow> nat \<Rightarrow> u32 \<Rightarrow> u32 \<Rightarrow> nat \<Rightarrow> bool" where
  "no_overlap st used start end' cursor =
     (if cursor < used
      then let other = shadow_record st cursor;
               otherEnd = dr_DmaOffset other + dr_DmaBytes other
           in if \<not> AppleAgxDmaShadowRecordValid other (used - cursor) then False
              else if start < otherEnd \<and> dr_DmaOffset other < end' then False
              else no_overlap st used start end' (cursor + unat (dr_RecordBytes other))
      else True)"
  by pat_completeness auto

termination
proof (relation "measure (\<lambda>(st, used, start, end', cursor). used - cursor)", goal_cases)
  case (2 st used start end' cursor other otherEnd)
  then have "0 < unat (dr_RecordBytes (shadow_record st cursor))" using record_valid_positive(2) by blast
  then show ?case using 2 by auto
qed simp

text \<open>The outer loop: the cursor and the count it ends with, or nothing when a record is refused.\<close>

function validate_records :: "u8 list \<Rightarrow> nat \<Rightarrow> nat \<Rightarrow> u32 \<Rightarrow> (nat \<times> u32) option" where
  "validate_records st used cursor records =
     (if cursor < used
      then let record' = shadow_record st cursor;
               recordEnd = dr_DmaOffset record' + dr_DmaBytes record'
           in if \<not> AppleAgxDmaShadowRecordValid record' (used - cursor) then None
              else if \<not> no_overlap st used (dr_DmaOffset record') recordEnd (cursor + unat (dr_RecordBytes record')) then None
              else validate_records st used (cursor + unat (dr_RecordBytes record')) (records + 1)
      else Some (cursor, records))"
  by pat_completeness auto

termination
proof (relation "measure (\<lambda>(st, used, cursor, records). used - cursor)", goal_cases)
  case (2 st used cursor records record' recordEnd)
  then have "0 < unat (dr_RecordBytes (shadow_record st cursor))" using record_valid_positive(2) by blast
  then show ?case using 2 by auto
qed simp

declare no_overlap.simps [simp del] validate_records.simps [simp del]

definition AppleAgxDmaShadowValidate :: "u8 list \<Rightarrow> u32 \<Rightarrow> bool" where
  "AppleAgxDmaShadowValidate st bytesUsed \<longleftrightarrow>
     (let header = AppleAgxDmaShadowHeader st
      in 28 \<le> bytesUsed \<and> dh_Magic header = SHADOW_MAGIC \<and> dh_Version header = SHADOW_VERSION \<and>
         (dh_State header = SHADOW_WRITABLE \<or> dh_State header = SHADOW_SEALED) \<and>
         \<not> (dh_State header = SHADOW_WRITABLE \<and> dh_Fence header \<noteq> 0) \<and>
         \<not> (dh_State header = SHADOW_SEALED \<and> dh_Fence header = 0) \<and>
         bytesUsed \<le> dh_Capacity header \<and> dh_BytesUsed header = bytesUsed \<and>
         (case validate_records st (unat bytesUsed) 28 0 of
            None \<Rightarrow> False
          | Some (cursor, records) \<Rightarrow> cursor = unat bytesUsed \<and> records = dh_RecordCount header))"

section \<open>Operations\<close>

definition AppleAgxDmaShadowInitialize :: "u8 list option \<Rightarrow> u32 \<Rightarrow> APPLE_AGX_DMA_SHADOW" where
  "AppleAgxDmaShadowInitialize storage capacity =
     (case storage of
        None \<Rightarrow> \<lparr> ds_Storage = None, ds_Capacity = capacity, ds_BytesUsed = 0 \<rparr>
      | Some st \<Rightarrow>
          if capacity < 28 then \<lparr> ds_Storage = Some st, ds_Capacity = capacity, ds_BytesUsed = 0 \<rparr>
          else let st = AppleAgxDmaShadowZero st 0 (unat capacity);
                   st = AppleAgxDmaShadowCopy st 0 (header_bytes \<lparr> dh_Magic = SHADOW_MAGIC, dh_Version = SHADOW_VERSION,
                          dh_BytesUsed = 28, dh_Capacity = capacity, dh_RecordCount = 0, dh_State = SHADOW_WRITABLE,
                          dh_Fence = 0 \<rparr>)
               in \<lparr> ds_Storage = Some st, ds_Capacity = capacity, ds_BytesUsed = 28 \<rparr>)"

definition AppleAgxDmaShadowSeal :: "APPLE_AGX_DMA_SHADOW \<Rightarrow> u32 \<Rightarrow> APPLE_AGX_DMA_SHADOW option" where
  "AppleAgxDmaShadowSeal shadow fence =
     (case ds_Storage shadow of
        None \<Rightarrow> None
      | Some st \<Rightarrow>
          if fence = 0 \<or> \<not> AppleAgxDmaShadowValidate st (ds_BytesUsed shadow) \<or>
             dh_State (AppleAgxDmaShadowHeader st) \<noteq> SHADOW_WRITABLE then None
          else let st = AppleAgxDmaShadowCopy st 24 (bytes32 fence);
                   st = AppleAgxDmaShadowCopy st 20 (bytes32 SHADOW_SEALED)
               in Some (shadow\<lparr> ds_Storage := Some st \<rparr>))"

definition AppleAgxDmaShadowIsSealedForFence :: "u8 list \<Rightarrow> u32 \<Rightarrow> u32 \<Rightarrow> bool" where
  "AppleAgxDmaShadowIsSealedForFence st bytesUsed fence \<longleftrightarrow>
     fence \<noteq> 0 \<and> AppleAgxDmaShadowValidate st bytesUsed \<and>
     dh_State (AppleAgxDmaShadowHeader st) = SHADOW_SEALED \<and> dh_Fence (AppleAgxDmaShadowHeader st) = fence"

definition AppleAgxDmaShadowIsSealed :: "u8 list \<Rightarrow> u32 \<Rightarrow> bool" where
  "AppleAgxDmaShadowIsSealed st bytesUsed \<longleftrightarrow>
     AppleAgxDmaShadowValidate st bytesUsed \<and> dh_State (AppleAgxDmaShadowHeader st) = SHADOW_SEALED"

definition AppleAgxDmaShadowOpen :: "u8 list option \<Rightarrow> u32 \<Rightarrow> bool \<times> APPLE_AGX_DMA_SHADOW" where
  "AppleAgxDmaShadowOpen storage capacity =
     (let closed = \<lparr> ds_Storage = None, ds_Capacity = 0, ds_BytesUsed = 0 \<rparr>
      in case storage of
           None \<Rightarrow> (False, closed)
         | Some st \<Rightarrow>
             let header = AppleAgxDmaShadowHeader st
             in if capacity < 28 \<or> dh_Capacity header \<noteq> capacity \<or> dh_BytesUsed header > capacity \<or>
                   \<not> AppleAgxDmaShadowValidate st (dh_BytesUsed header)
                then (False, closed)
                else (True, \<lparr> ds_Storage = Some st, ds_Capacity = capacity, ds_BytesUsed = dh_BytesUsed header \<rparr>))"

definition AppleAgxDmaShadowIsVirgin :: "u8 list \<Rightarrow> u32 \<Rightarrow> bool" where
  "AppleAgxDmaShadowIsVirgin bytes capacity \<longleftrightarrow>
     capacity \<noteq> 0 \<and> list_all (\<lambda>index. bytes ! index = 0) [0..<unat capacity]"

definition AppleAgxDmaShadowAppend ::
  "APPLE_AGX_DMA_SHADOW \<Rightarrow> u32 \<Rightarrow> u8 list \<Rightarrow> u32 \<Rightarrow> APPLE_AGX_DMA_SHADOW option" where
  "AppleAgxDmaShadowAppend shadow dmaOffset bytes byteCount =
     (case ds_Storage shadow of
        None \<Rightarrow> None
      | Some st \<Rightarrow>
          if ds_BytesUsed shadow > ds_Capacity shadow \<or> dmaOffset > NOT 0 - byteCount then None
          else case AppleAgxDmaShadowRecordBytes byteCount of
                 None \<Rightarrow> None
               | Some recordBytes \<Rightarrow>
                   let used = unat (ds_BytesUsed shadow); header = AppleAgxDmaShadowHeader st
                   in if recordBytes > ds_Capacity shadow - ds_BytesUsed shadow \<or>
                         \<not> AppleAgxDmaShadowValidate st (ds_BytesUsed shadow) \<or>
                         dh_State header \<noteq> SHADOW_WRITABLE \<or> dh_RecordCount header = NOT 0 \<or>
                         \<not> no_overlap st used dmaOffset (dmaOffset + byteCount) 28
                      then None
                      else
                        let st = AppleAgxDmaShadowCopy st used (record_bytes \<lparr> dr_Magic = SHADOW_MAGIC,
                                   dr_Version = SHADOW_VERSION, dr_RecordBytes = recordBytes, dr_DmaOffset = dmaOffset,
                                   dr_DmaBytes = byteCount, dr_Reserved = 0 \<rparr>);
                            st = AppleAgxDmaShadowCopy st (used + 24) (take (unat byteCount) bytes);
                            st = AppleAgxDmaShadowZero st (used + 24 + unat byteCount)
                                   (unat (recordBytes - 24 - byteCount));
                            bytesUsed = ds_BytesUsed shadow + recordBytes;
                            st = AppleAgxDmaShadowCopy st 8 (bytes32 bytesUsed);
                            st = AppleAgxDmaShadowCopy st 16 (bytes32 (dh_RecordCount header + 1))
                        in Some (shadow\<lparr> ds_Storage := Some st, ds_BytesUsed := bytesUsed \<rparr>))"

text \<open>The loops that follow the records of a shadow that was validated without looking at them again: the first
  record that fulfils a condition, and the end of the furthest one.  On a record of size zero they would go on
  for ever, which is the value \<open>None\<close>.\<close>

partial_function (option) shadow_scan ::
  "(APPLE_AGX_DMA_SHADOW_RECORD \<Rightarrow> bool) \<Rightarrow> u8 list \<Rightarrow> nat \<Rightarrow> nat \<Rightarrow> nat option option" where
  "shadow_scan wanted st used cursor =
     (if \<not> cursor < used then Some None
      else if wanted (shadow_record st cursor) then Some (Some cursor)
      else shadow_scan wanted st used (cursor + unat (dr_RecordBytes (shadow_record st cursor))))"

partial_function (option) extent_loop :: "u8 list \<Rightarrow> nat \<Rightarrow> nat \<Rightarrow> u32 \<Rightarrow> u32 option" where
  "extent_loop st used cursor extent =
     (if \<not> cursor < used then Some extent
      else extent_loop st used (cursor + unat (dr_RecordBytes (shadow_record st cursor)))
             (max extent (dr_DmaOffset (shadow_record st cursor) + dr_DmaBytes (shadow_record st cursor))))"

definition AppleAgxDmaShadowExtent :: "u8 list \<Rightarrow> u32 \<Rightarrow> (bool \<times> u32) option" where
  "AppleAgxDmaShadowExtent st bytesUsed =
     (if \<not> AppleAgxDmaShadowValidate st bytesUsed then Some (False, 0)
      else case extent_loop st (unat bytesUsed) 28 0 of None \<Rightarrow> None | Some extent \<Rightarrow> Some (True, extent))"

definition AppleAgxDmaShadowFind ::
  "u8 list \<Rightarrow> u32 \<Rightarrow> u32 \<Rightarrow> u32 \<Rightarrow> APPLE_AGX_DMA_SHADOW_VIEW \<Rightarrow> (bool \<times> APPLE_AGX_DMA_SHADOW_VIEW) option" where
  "AppleAgxDmaShadowFind st bytesUsed dmaOffset dmaBytes view =
     (if dmaBytes = 0 \<or> \<not> AppleAgxDmaShadowValidate st bytesUsed then Some (False, view)
      else case shadow_scan (\<lambda>r. dr_DmaOffset r = dmaOffset \<and> dr_DmaBytes r = dmaBytes) st (unat bytesUsed) 28 of
             None \<Rightarrow> None
           | Some None \<Rightarrow> Some (False, \<lparr> dv_DmaOffset = 0, dv_DmaBytes = 0, dv_Bytes = None \<rparr>)
           | Some (Some cursor) \<Rightarrow>
               Some (True, \<lparr> dv_DmaOffset = dmaOffset, dv_DmaBytes = dmaBytes, dv_Bytes = Some (cursor + 24) \<rparr>))"

text \<open>A record that holds the eight bytes at an offset, the eight bytes of a value, and where they lie.\<close>

definition covers_u64 :: "u32 \<Rightarrow> APPLE_AGX_DMA_SHADOW_RECORD \<Rightarrow> bool" where
  "covers_u64 patchOffset r \<longleftrightarrow>
     patchOffset \<ge> dr_DmaOffset r \<and> patchOffset + 8 \<le> dr_DmaOffset r + dr_DmaBytes r"

definition bytes64 :: "u64 \<Rightarrow> u8 list" where
  "bytes64 v = map (\<lambda>index. ucast (drop_bit (index * 8) v)) [0..<8]"

definition patch_place :: "u8 list \<Rightarrow> u32 \<Rightarrow> nat \<Rightarrow> nat" where
  "patch_place st patchOffset cursor = cursor + 24 + unat (patchOffset - dr_DmaOffset (shadow_record st cursor))"

definition AppleAgxDmaShadowPatchU64 :: "u8 list \<Rightarrow> u32 \<Rightarrow> u32 \<Rightarrow> u64 \<Rightarrow> (bool \<times> u8 list) option" where
  "AppleAgxDmaShadowPatchU64 st bytesUsed patchOffset v =
     (if patchOffset > NOT 0 - 8 \<or> \<not> AppleAgxDmaShadowValidate st bytesUsed \<or>
         dh_State (AppleAgxDmaShadowHeader st) \<noteq> SHADOW_WRITABLE
      then Some (False, st)
      else case shadow_scan (covers_u64 patchOffset) st (unat bytesUsed) 28 of
             None \<Rightarrow> None
           | Some None \<Rightarrow> Some (False, st)
           | Some (Some cursor) \<Rightarrow>
               Some (True, AppleAgxDmaShadowCopy st (patch_place st patchOffset cursor) (bytes64 v)))"

text \<open>The loop shared by the two comparisons.\<close>

definition matches_u64 :: "u8 list \<Rightarrow> u32 \<Rightarrow> u32 \<Rightarrow> u64 \<Rightarrow> bool option" where
  "matches_u64 st bytesUsed patchOffset v =
     (case shadow_scan (covers_u64 patchOffset) st (unat bytesUsed) 28 of
        None \<Rightarrow> None
      | Some None \<Rightarrow> Some False
      | Some (Some cursor) \<Rightarrow>
          Some (list_all (\<lambda>index. st ! (patch_place st patchOffset cursor + index) = bytes64 v ! index) [0..<8]))"

definition AppleAgxDmaShadowMatchesU64 :: "u8 list \<Rightarrow> u32 \<Rightarrow> u32 \<Rightarrow> u64 \<Rightarrow> bool option" where
  "AppleAgxDmaShadowMatchesU64 st bytesUsed patchOffset v =
     (if patchOffset > NOT 0 - 8 \<or> \<not> AppleAgxDmaShadowIsSealed st bytesUsed then Some False
      else matches_u64 st bytesUsed patchOffset v)"

definition AppleAgxDmaShadowMatchesWritableU64 :: "u8 list \<Rightarrow> u32 \<Rightarrow> u32 \<Rightarrow> u64 \<Rightarrow> bool option" where
  "AppleAgxDmaShadowMatchesWritableU64 st bytesUsed patchOffset v =
     (if patchOffset > NOT 0 - 8 \<or> \<not> AppleAgxDmaShadowValidate st bytesUsed \<or>
         dh_State (AppleAgxDmaShadowHeader st) \<noteq> SHADOW_WRITABLE
      then Some False
      else matches_u64 st bytesUsed patchOffset v)"

definition AppleAgxDmaShadowRecordAtOffset :: "u8 list \<Rightarrow> u32 \<Rightarrow> u32 \<Rightarrow> nat option option" where
  "AppleAgxDmaShadowRecordAtOffset st bytesUsed dmaOffset =
     shadow_scan (\<lambda>r. dr_DmaOffset r = dmaOffset) st (unat bytesUsed) 28"

partial_function (option) covers_loop :: "u8 list \<Rightarrow> u32 \<Rightarrow> u32 \<Rightarrow> u32 \<Rightarrow> bool option" where
  "covers_loop st bytesUsed end' current =
     (if \<not> current < end' then Some (current = end')
      else case AppleAgxDmaShadowRecordAtOffset st bytesUsed current of
             None \<Rightarrow> None
           | Some place \<Rightarrow>
               (case place of
                  None \<Rightarrow> Some False
                | Some cursor \<Rightarrow>
                    if dr_DmaBytes (shadow_record st cursor) > end' - current then Some False
                    else covers_loop st bytesUsed end' (current + dr_DmaBytes (shadow_record st cursor))))"

definition AppleAgxDmaShadowCoversSubmission :: "u8 list \<Rightarrow> u32 \<Rightarrow> u32 \<Rightarrow> u32 \<Rightarrow> bool option" where
  "AppleAgxDmaShadowCoversSubmission st bytesUsed start end' =
     (if start \<ge> end' \<or> \<not> AppleAgxDmaShadowValidate st bytesUsed then Some False
      else covers_loop st bytesUsed end' start)"

text \<open>The copy itself; a record that is not found would be a null pointer read, also the value \<open>None\<close>.\<close>

partial_function (option) copy_loop ::
  "u8 list \<Rightarrow> u32 \<Rightarrow> u32 \<Rightarrow> u32 \<Rightarrow> u32 \<Rightarrow> u8 list \<Rightarrow> (u32 \<times> u8 list) option" where
  "copy_loop st bytesUsed end' current outputOffset destination =
     (if \<not> current < end' then Some (outputOffset, destination)
      else case AppleAgxDmaShadowRecordAtOffset st bytesUsed current of
             None \<Rightarrow> None
           | Some place \<Rightarrow>
               (case place of
                  None \<Rightarrow> None
                | Some cursor \<Rightarrow>
                    copy_loop st bytesUsed end' (current + dr_DmaBytes (shadow_record st cursor))
                      (outputOffset + dr_DmaBytes (shadow_record st cursor))
                      (AppleAgxDmaShadowCopy destination (unat outputOffset)
                         (take (unat (dr_DmaBytes (shadow_record st cursor))) (drop (cursor + 24) st)))))"

definition AppleAgxDmaShadowCopySubmission ::
  "u8 list \<Rightarrow> u32 \<Rightarrow> u32 \<Rightarrow> u32 \<Rightarrow> u8 list \<Rightarrow> u32 \<Rightarrow> (bool \<times> u32 \<times> u8 list) option" where
  "AppleAgxDmaShadowCopySubmission st bytesUsed start end' destination capacity =
     (if start \<ge> end' \<or> \<not> AppleAgxDmaShadowValidate st bytesUsed \<or> end' - start > capacity
      then Some (False, 0, destination)
      else case AppleAgxDmaShadowCoversSubmission st bytesUsed start end' of
             None \<Rightarrow> None
           | Some covers \<Rightarrow>
               if \<not> covers then Some (False, 0, destination)
               else case copy_loop st bytesUsed end' start 0 destination of
                      None \<Rightarrow> None
                    | Some (outputOffset, destination) \<Rightarrow> Some (True, outputOffset, destination))"

section \<open>Bytes\<close>

lemma length_copy [simp]:
  "place + length xs \<le> length st \<Longrightarrow> length (AppleAgxDmaShadowCopy st place xs) = length st"
  by (simp add: AppleAgxDmaShadowCopy_def)

lemma nth_copy:
  assumes "place + length xs \<le> length st"
  shows "AppleAgxDmaShadowCopy st place xs ! i = (if place \<le> i \<and> i < place + length xs then xs ! (i - place) else st ! i)"
  using assms by (auto simp: AppleAgxDmaShadowCopy_def nth_append)

lemma length_bytes32 [simp]: "length (bytes32 v) = 4" by (simp add: bytes32_def)
lemma length_header_bytes [simp]: "length (header_bytes h) = 28" by (simp add: header_bytes_def)
lemma length_record_bytes [simp]: "length (record_bytes r) = 24" by (simp add: record_bytes_def)
lemma length_bytes64 [simp]: "length (bytes64 v) = 8" by (simp add: bytes64_def)

lemma get32_cong:
  assumes "\<And>k. k < 4 \<Longrightarrow> st ! (i + k) = st' ! (i + k)"
  shows "get32 st i = get32 st' i"
  using assms [of 0] assms [of 1] assms [of 2] assms [of 3] by (simp add: get32_def)

lemma get32_bytes32:
  assumes "\<And>k. k < 4 \<Longrightarrow> st ! (i + k) = bytes32 v ! k"
  shows "get32 st i = v"
  using assms [of 0] assms [of 1] assms [of 2] assms [of 3] le32_bytes [of v]
  by (simp add: get32_def bytes32_def numeral_2_eq_2 numeral_3_eq_3)

lemma get32_copy_other:
  "place + length xs \<le> length st \<Longrightarrow> i + 4 \<le> place \<or> place + length xs \<le> i \<Longrightarrow>
    get32 (AppleAgxDmaShadowCopy st place xs) i = get32 st i"
  by (rule get32_cong) (auto simp: nth_copy)

lemma get32_copy_same:
  "place + 4 \<le> length st \<Longrightarrow> get32 (AppleAgxDmaShadowCopy st place (bytes32 v)) place = v"
  by (rule get32_bytes32) (auto simp: nth_copy)

lemma get32_copied:
  "place + length xs \<le> length st \<Longrightarrow> j + 4 \<le> length xs \<Longrightarrow>
    get32 (AppleAgxDmaShadowCopy st place xs) (place + j) = get32 xs j"
  by (simp add: get32_def nth_copy)

text \<open>A field of a structure written field by field.\<close>

lemma get32_field: "j = length xs \<Longrightarrow> get32 (xs @ bytes32 v @ ys) j = v"
  by (rule get32_bytes32) (simp add: nth_append)

lemma get32_first: "get32 (bytes32 v @ ys) 0 = v"
  using get32_field [of 0 "[]" v ys] by simp

lemma get32_next: "4 \<le> j \<Longrightarrow> get32 (bytes32 v @ ys) j = get32 ys (j - 4)"
  by (auto simp: get32_def nth_append dest!: le_Suc_ex)

lemma get32_last: "get32 (bytes32 v) 0 = v"
  using get32_first [of v "[]"] by simp

lemma record_copied:
  assumes "place + 24 \<le> length st"
  shows "shadow_record (AppleAgxDmaShadowCopy st place (record_bytes r)) place = r"
proof -
  have "get32 (AppleAgxDmaShadowCopy st place (record_bytes r)) (place + j) = get32 (record_bytes r) j" if "j + 4 \<le> 24" for j
    using that assms by (intro get32_copied) simp_all
  from this [of 0] this [of 4] this [of 8] this [of 12] this [of 16] this [of 20] show ?thesis
    by (simp add: shadow_record_def record_bytes_def get32_first get32_next get32_last)
qed

lemma record_cong:
  assumes "\<And>k. k < 24 \<Longrightarrow> st ! (c + k) = st' ! (c + k)"
  shows "shadow_record st c = shadow_record st' c"
proof -
  have "get32 st (c + j) = get32 st' (c + j)" if "j + 4 \<le> 24" for j
    using that assms by (intro get32_cong) (simp add: add.assoc)
  from this [of 0] this [of 4] this [of 8] this [of 12] this [of 16] this [of 20] show ?thesis
    by (simp add: shadow_record_def)
qed

section \<open>The chain of records\<close>

text \<open>The cursors of well-formed records that lie end to end from a cursor to the end of the bytes in use.\<close>

primrec chain :: "u8 list \<Rightarrow> nat \<Rightarrow> nat \<Rightarrow> nat list \<Rightarrow> bool" where
  "chain st used c [] \<longleftrightarrow> c = used"
| "chain st used c (d # ds) \<longleftrightarrow> d = c \<and> c < used \<and> AppleAgxDmaShadowRecordValid (shadow_record st c) (used - c) \<and>
     chain st used (c + unat (dr_RecordBytes (shadow_record st c))) ds"

abbreviation off :: "u8 list \<Rightarrow> nat \<Rightarrow> nat" where "off st d \<equiv> unat (dr_DmaOffset (shadow_record st d))"
abbreviation len :: "u8 list \<Rightarrow> nat \<Rightarrow> nat" where "len st d \<equiv> unat (dr_DmaBytes (shadow_record st d))"

lemma chain_first:
  assumes "c < used" and "AppleAgxDmaShadowRecordValid (shadow_record st c) (used - c)"
  shows "(\<exists>ds. chain st used c ds \<and> R ds) \<longleftrightarrow>
    (\<exists>ds. chain st used (c + unat (dr_RecordBytes (shadow_record st c))) ds \<and> R (c # ds))"
proof
  assume "\<exists>ds. chain st used c ds \<and> R ds"
  then obtain ds where ds: "chain st used c ds" "R ds" by blast
  then show "\<exists>ds. chain st used (c + unat (dr_RecordBytes (shadow_record st c))) ds \<and> R (c # ds)"
    using assms by (cases ds) auto
next
  assume "\<exists>ds. chain st used (c + unat (dr_RecordBytes (shadow_record st c))) ds \<and> R (c # ds)"
  then obtain ds where "chain st used (c + unat (dr_RecordBytes (shadow_record st c))) ds" "R (c # ds)" by blast
  then show "\<exists>ds. chain st used c ds \<and> R ds" using assms by (intro exI [of _ "c # ds"]) simp
qed

lemma chain_unique: "chain st used c ds \<Longrightarrow> chain st used c ds' \<Longrightarrow> ds = ds'"
proof (induction ds arbitrary: c ds')
  case Nil
  then show ?case by (cases ds') auto
next
  case (Cons d ds)
  then show ?case by (cases ds') auto
qed

text \<open>Two pieces of the buffer have no byte in common.\<close>

definition apart :: "nat \<Rightarrow> nat \<Rightarrow> nat \<Rightarrow> nat \<Rightarrow> bool" where
  "apart s n s' n' \<longleftrightarrow> s + n \<le> s' \<or> s' + n' \<le> s"

lemma unat_not_room:
  fixes a b :: u32
  assumes "a \<le> - 1 - b"
  shows "unat a + unat b < 2 ^ 32" and "unat (a + b) = unat a + unat b"
proof -
  have "unat (- 1 - b) = unat (- 1 :: u32) - unat b" by (rule unat_sub) simp
  then have "unat a \<le> 2 ^ 32 - 1 - unat b"
    using assms by (simp add: word_le_nat_alt unsigned_minus_1_eq_mask mask_eq_exp_minus_1)
  moreover have "unat b < 2 ^ LENGTH(32)" by (rule unsigned_less)
  ultimately show "unat a + unat b < 2 ^ 32" by simp
  then show "unat (a + b) = unat a + unat b" by (simp add: unat_add_no_wrap)
qed

lemma record_end:
  assumes "AppleAgxDmaShadowRecordValid r remaining"
  shows "unat (dr_DmaOffset r + dr_DmaBytes r) = unat (dr_DmaOffset r) + unat (dr_DmaBytes r)"
    and "unat (dr_DmaOffset r) + unat (dr_DmaBytes r) < 2 ^ 32"
proof -
  have "dr_DmaOffset r \<le> - 1 - dr_DmaBytes r" using assms by (simp add: AppleAgxDmaShadowRecordValid_def)
  then show "unat (dr_DmaOffset r) + unat (dr_DmaBytes r) < 2 ^ 32"
    and "unat (dr_DmaOffset r + dr_DmaBytes r) = unat (dr_DmaOffset r) + unat (dr_DmaBytes r)"
    by (rule unat_not_room)+
qed

lemma meets_arith:
  fixes s n e o' l e' :: nat
  assumes "e' = o' + l" and "e = s + n" and "0 < n" and "0 < l"
  shows "(s < e' \<and> o' < e) \<longleftrightarrow> \<not> apart s n o' l"
  using assms by (auto simp: apart_def)

lemma no_overlap_iff:
  shows "c \<le> used \<Longrightarrow> unat e = unat s + n \<Longrightarrow> 0 < n \<Longrightarrow> no_overlap st used s e c \<longleftrightarrow>
    (\<exists>ds. chain st used c ds \<and> (\<forall>d \<in> set ds. apart (unat s) n (off st d) (len st d)))"
proof (induction st used s e c rule: no_overlap.induct)
  case (1 st used s e c)
  let ?r = "shadow_record st c"
  note e = 1(3) and n = 1(4)
  show ?case
  proof (cases "c < used \<and> AppleAgxDmaShadowRecordValid ?r (used - c)")
    case False
    then show ?thesis
    proof (cases "c < used")
      case True
      then have "\<not> chain st used c ds" for ds using False by (cases ds) auto
      then show ?thesis using True False by (subst no_overlap.simps) (simp add: Let_def)
    next
      case end': False
      then have "chain st used c []" using 1(2) by simp
      moreover have "no_overlap st used s e c" using end' by (subst no_overlap.simps) simp
      ultimately show ?thesis by (intro iffI exI [of _ "[]"]) auto
    qed
  next
    case True
    then have ok: "AppleAgxDmaShadowRecordValid ?r (used - c)" and c: "c < used" by blast+
    let ?c = "c + unat (dr_RecordBytes ?r)"
    have next': "?c \<le> used" using ok c unfolding AppleAgxDmaShadowRecordValid_def by linarith
    have meets: "(s < dr_DmaOffset ?r + dr_DmaBytes ?r \<and> dr_DmaOffset ?r < e) \<longleftrightarrow>
        \<not> apart (unat s) n (off st c) (len st c)"
      unfolding word_less_nat_alt by (rule meets_arith [OF record_end(1) [OF ok] e n record_valid_positive(3) [OF ok]])
    have "no_overlap st used s e c \<longleftrightarrow> apart (unat s) n (off st c) (len st c) \<and> no_overlap st used s e ?c"
      using meets c ok by (subst no_overlap.simps) (auto simp: Let_def)
    moreover have "no_overlap st used s e ?c \<longleftrightarrow>
        (\<exists>ds. chain st used ?c ds \<and> (\<forall>d \<in> set ds. apart (unat s) n (off st d) (len st d)))"
      if "apart (unat s) n (off st c) (len st c)"
      using 1(1) [OF c refl refl _ _ next' e n] ok meets that by blast
    ultimately show ?thesis unfolding chain_first [OF c ok] by auto
  qed
qed

text \<open>The records of a chain, pairwise apart.\<close>

abbreviation spread :: "u8 list \<Rightarrow> nat list \<Rightarrow> bool" where
  "spread st \<equiv> sorted_wrt (\<lambda>d d'. apart (off st d) (len st d) (off st d') (len st d'))"

lemma validate_records_iff:
  "c \<le> used \<Longrightarrow> validate_records st used c k = Some x \<longleftrightarrow>
    (\<exists>ds. chain st used c ds \<and> spread st ds \<and> x = (used, k + of_nat (length ds)))"
proof (induction st used c k rule: validate_records.induct)
  case (1 st used c k)
  let ?r = "shadow_record st c"
  show ?case
  proof (cases "c < used")
    case False
    then have "chain st used c ds \<longleftrightarrow> ds = []" for ds using 1(2) by (cases ds) auto
    then show ?thesis using False 1(2) by (subst validate_records.simps) auto
  next
    case c: True
    show ?thesis
    proof (cases "AppleAgxDmaShadowRecordValid ?r (used - c)")
      case False
      then have "\<not> chain st used c ds" for ds using c by (cases ds) auto
      then show ?thesis using c False by (subst validate_records.simps) (simp add: Let_def)
    next
      case ok: True
      let ?c = "c + unat (dr_RecordBytes ?r)"
      have next': "?c \<le> used" using ok c unfolding AppleAgxDmaShadowRecordValid_def by linarith
      let ?free = "no_overlap st used (dr_DmaOffset ?r) (dr_DmaOffset ?r + dr_DmaBytes ?r) ?c"
      have free: "?free \<longleftrightarrow> (\<exists>ds. chain st used ?c ds \<and> (\<forall>d \<in> set ds. apart (off st c) (len st c) (off st d) (len st d)))"
        by (rule no_overlap_iff [OF next' record_end(1) [OF ok] record_valid_positive(3) [OF ok]])
      have step: "validate_records st used c k = (if ?free then validate_records st used ?c (k + 1) else None)"
        using c ok by (subst validate_records.simps) (simp add: Let_def)
      show ?thesis
      proof (cases ?free)
        case True
        then obtain ds where ds: "chain st used ?c ds" "\<forall>d \<in> set ds. apart (off st c) (len st c) (off st d) (len st d)"
          using free by blast
        have ex: "(\<exists>ds'. chain st used ?c ds' \<and> R ds') \<longleftrightarrow> R ds" for R
          using ds(1) chain_unique [OF ds(1)] by blast
        note IH = 1(1) [OF c refl refl _ _ next']
        have "validate_records st used c k = Some x \<longleftrightarrow>
            (\<exists>ds. chain st used ?c ds \<and> spread st ds \<and> x = (used, k + 1 + of_nat (length ds)))"
          using step True IH ok by simp
        also have "\<dots> \<longleftrightarrow> (\<exists>ds. chain st used c ds \<and> spread st ds \<and> x = (used, k + of_nat (length ds)))"
          unfolding chain_first [OF c ok] ex using ds(2) by (simp add: add.assoc)
        finally show ?thesis .
      next
        case False
        then show ?thesis unfolding chain_first [OF c ok] using step free by auto
      qed
    qed
  qed
qed


lemma chain_facts:
  "chain st used c ds \<Longrightarrow> d \<in> set ds \<Longrightarrow> c \<le> d \<and> d + 24 + len st d \<le> used \<and> 0 < len st d \<and>
    off st d + len st d < 2 ^ 32 \<and> unat (dr_DmaOffset (shadow_record st d) + dr_DmaBytes (shadow_record st d)) = off st d + len st d"
proof (induction ds arbitrary: c)
  case (Cons e ds)
  then have ok: "AppleAgxDmaShadowRecordValid (shadow_record st c) (used - c)" and c: "c < used" "e = c" by auto
  show ?case
  proof (cases "d = c")
    case True
    have "unat (dr_RecordBytes (shadow_record st c)) \<le> used - c" using ok by (simp add: AppleAgxDmaShadowRecordValid_def)
    then show ?thesis using True c record_valid_positive [OF ok] record_end [OF ok] by auto
  next
    case False
    then show ?thesis using Cons.IH [of "c + unat (dr_RecordBytes (shadow_record st c))"] Cons.prems c by auto
  qed
qed simp

text \<open>A chain is a matter of the bytes from its cursor on; it can be continued.\<close>

lemma chain_grow:
  "chain st used c ds \<Longrightarrow> (\<And>i. c \<le> i \<Longrightarrow> i < used \<Longrightarrow> st' ! i = st ! i) \<Longrightarrow> used \<le> used' \<Longrightarrow> chain st' used' used es \<Longrightarrow>
    chain st' used' c (ds @ es) \<and> (\<forall>d \<in> set ds. shadow_record st' d = shadow_record st d)"
proof (induction ds arbitrary: c)
  case (Cons d ds)
  let ?r = "shadow_record st c"
  from Cons.prems(1) have ok: "AppleAgxDmaShadowRecordValid ?r (used - c)" and c: "c < used" "d = c"
    and rest: "chain st used (c + unat (dr_RecordBytes ?r)) ds" by auto
  have "24 \<le> used - c" using ok by (simp add: AppleAgxDmaShadowRecordValid_def)
  then have same: "shadow_record st' c = ?r" using Cons.prems(2) by (intro record_cong) auto
  have "AppleAgxDmaShadowRecordValid ?r (used' - c)" using ok Cons.prems(3) unfolding AppleAgxDmaShadowRecordValid_def by linarith
  then show ?case using Cons.IH [OF rest] Cons.prems c same by auto
qed simp

lemma chain_spread_cong:
  "(\<forall>d \<in> set ds. shadow_record st' d = shadow_record st d) \<Longrightarrow> spread st' ds \<longleftrightarrow> spread st ds"
  by (induction ds) auto

definition header_ok :: "u8 list \<Rightarrow> u32 \<Rightarrow> bool" where
  "header_ok st used \<longleftrightarrow>
     (let header = AppleAgxDmaShadowHeader st
      in 28 \<le> used \<and> dh_Magic header = SHADOW_MAGIC \<and> dh_Version header = SHADOW_VERSION \<and>
         (dh_State header = SHADOW_WRITABLE \<and> dh_Fence header = 0 \<or> dh_State header = SHADOW_SEALED \<and> dh_Fence header \<noteq> 0) \<and>
         used \<le> dh_Capacity header \<and> dh_BytesUsed header = used)"

text \<open>What the validation establishes.\<close>

definition shadow_ok :: "u8 list \<Rightarrow> u32 \<Rightarrow> nat list \<Rightarrow> bool" where
  "shadow_ok st used ds \<longleftrightarrow> header_ok st used \<and> chain st (unat used) 28 ds \<and> spread st ds \<and>
     of_nat (length ds) = dh_RecordCount (AppleAgxDmaShadowHeader st)"

lemma Validate_iff: "AppleAgxDmaShadowValidate st used \<longleftrightarrow> (\<exists>ds. shadow_ok st used ds)"
proof (cases "28 \<le> used")
  case True
  then have "28 \<le> unat used" by (simp add: word_le_nat_alt)
  note it = validate_records_iff [OF this, of st 0]
  have "(case validate_records st (unat used) 28 0 of None \<Rightarrow> False
      | Some (cursor, records) \<Rightarrow> cursor = unat used \<and> records = dh_RecordCount (AppleAgxDmaShadowHeader st)) \<longleftrightarrow>
    validate_records st (unat used) 28 0 = Some (unat used, dh_RecordCount (AppleAgxDmaShadowHeader st))"
    by (auto split: option.split)
  also have "\<dots> \<longleftrightarrow> (\<exists>ds. chain st (unat used) 28 ds \<and> spread st ds \<and>
      of_nat (length ds) = dh_RecordCount (AppleAgxDmaShadowHeader st))" unfolding it by auto
  finally show ?thesis unfolding AppleAgxDmaShadowValidate_def shadow_ok_def header_ok_def Let_def by auto
qed (simp add: AppleAgxDmaShadowValidate_def shadow_ok_def header_ok_def Let_def)

lemma scan_chain:
  "chain st used c ds \<Longrightarrow> shadow_scan wanted st used c = Some (find (\<lambda>d. wanted (shadow_record st d)) ds)"
proof (induction ds arbitrary: c)
  case Nil
  then show ?case by (subst shadow_scan.simps) simp
next
  case (Cons d ds)
  then show ?case by (subst shadow_scan.simps) auto
qed

section \<open>The DMA buffer a shadow stands for\<close>

function shadow_walk :: "u8 list \<Rightarrow> nat \<Rightarrow> nat \<Rightarrow> nat list" where
  "shadow_walk st used c =
     (if c < used \<and> AppleAgxDmaShadowRecordValid (shadow_record st c) (used - c)
      then c # shadow_walk st used (c + unat (dr_RecordBytes (shadow_record st c))) else [])"
  by pat_completeness auto

termination
proof (relation "measure (\<lambda>(st, used, c). used - c)", goal_cases)
  case (2 st used c)
  then show ?case using record_valid_positive(2) [of "shadow_record st c" "used - c"] by auto
qed simp

declare shadow_walk.simps [simp del]

lemma walk_chain: "chain st used c ds \<Longrightarrow> shadow_walk st used c = ds"
  by (induction ds arbitrary: c) (auto simp: shadow_walk.simps [of st used])

definition holds_byte :: "u8 list \<Rightarrow> nat \<Rightarrow> nat \<Rightarrow> bool" where
  "holds_byte st i d \<longleftrightarrow> off st d \<le> i \<and> i < off st d + len st d"

definition dma_memory :: "u8 list \<Rightarrow> u32 \<Rightarrow> nat \<Rightarrow> u8 option" where
  "dma_memory st used i =
     (case find (holds_byte st i) (shadow_walk st (unat used) 28) of
        None \<Rightarrow> None | Some d \<Rightarrow> Some (st ! (d + 24 + (i - off st d))))"

lemma spread_unique:
  "spread st ds \<Longrightarrow> d \<in> set ds \<Longrightarrow> e \<in> set ds \<Longrightarrow> holds_byte st i d \<Longrightarrow> holds_byte st i e \<Longrightarrow> d = e"
  by (induction ds) (auto simp: apart_def holds_byte_def)

lemma dma_at:
  assumes "shadow_ok st used ds" and "d \<in> set ds" and "holds_byte st i d"
  shows "dma_memory st used i = Some (st ! (d + 24 + (i - off st d)))"
proof -
  have walk: "shadow_walk st (unat used) 28 = ds" and sp: "spread st ds" using assms(1) by (auto simp: shadow_ok_def walk_chain)
  obtain e where e: "find (holds_byte st i) ds = Some e" "e \<in> set ds" "holds_byte st i e"
    using assms(2,3) by (metis find_None_iff find_Some_iff not_None_eq nth_mem)
  then show ?thesis using spread_unique [OF sp assms(2) e(2) assms(3) e(3)] by (simp add: dma_memory_def walk)
qed

lemma dma_nowhere:
  assumes "shadow_ok st used ds" and "\<forall>d \<in> set ds. \<not> holds_byte st i d"
  shows "dma_memory st used i = None"
proof -
  have walk: "shadow_walk st (unat used) 28 = ds" using assms(1) by (auto simp: shadow_ok_def walk_chain)
  have "find (holds_byte st i) ds = None" using assms(2) by (auto simp: find_None_iff)
  then show ?thesis by (simp add: dma_memory_def walk)
qed

lemma dma_memory_holds:
  assumes "shadow_ok st used ds"
  shows "dma_memory st used i = Some b \<longleftrightarrow> (\<exists>d \<in> set ds. holds_byte st i d \<and> b = st ! (d + 24 + (i - off st d)))"
  using dma_at [OF assms] dma_nowhere [OF assms] by fastforce

section \<open>Appending\<close>

lemma header_cong:
  assumes "\<And>i. i < 28 \<Longrightarrow> st' ! i = st ! i"
  shows "AppleAgxDmaShadowHeader st' = AppleAgxDmaShadowHeader st"
proof -
  have "get32 st' j = get32 st j" if "j + 4 \<le> 28" for j using that assms by (intro get32_cong) simp
  from this [of 0] this [of 4] this [of 8] this [of 12] this [of 16] this [of 20] this [of 24] show ?thesis
    by (simp add: AppleAgxDmaShadowHeader_def)
qed

text \<open>The storage an append leaves: the log as before, the new record at its end, and the two counters.\<close>

definition appended :: "u8 list \<Rightarrow> nat \<Rightarrow> u32 \<Rightarrow> APPLE_AGX_DMA_SHADOW_RECORD \<Rightarrow> u8 list \<Rightarrow> u8 list \<Rightarrow> bool" where
  "appended st used bytesUsed r bytes st' \<longleftrightarrow>
     length st' = length st \<and> (\<forall>i. 28 \<le> i \<and> i < used \<longrightarrow> st' ! i = st ! i) \<and> shadow_record st' used = r \<and>
     (\<forall>j < unat (dr_DmaBytes r). st' ! (used + 24 + j) = bytes ! j) \<and>
     AppleAgxDmaShadowHeader st' = (AppleAgxDmaShadowHeader st)
       \<lparr> dh_BytesUsed := bytesUsed, dh_RecordCount := dh_RecordCount (AppleAgxDmaShadowHeader st) + 1 \<rparr>"

lemma append_writes:
  assumes "28 \<le> used" and "used + 24 + n + pad \<le> length st" and "n = unat (dr_DmaBytes r)" and "n \<le> length bytes"
  shows "appended st used v r bytes
    (AppleAgxDmaShadowCopy (AppleAgxDmaShadowCopy
      (AppleAgxDmaShadowZero (AppleAgxDmaShadowCopy (AppleAgxDmaShadowCopy st used (record_bytes r)) (used + 24) (take n bytes))
        (used + 24 + n) pad) 8 (bytes32 v)) 16 (bytes32 (dh_RecordCount (AppleAgxDmaShadowHeader st) + 1)))"
  (is "appended _ _ _ _ _ ?st'")
proof -
  let ?k = "bytes32 (dh_RecordCount (AppleAgxDmaShadowHeader st) + 1)"
  define st1 where "st1 = AppleAgxDmaShadowCopy st used (record_bytes r)"
  define st3 where "st3 = AppleAgxDmaShadowCopy (AppleAgxDmaShadowCopy st1 (used + 24) (take n bytes))
    (used + 24 + n) (replicate pad 0)"
  have l: "length st1 = length st" "length st3 = length st" using assms by (simp_all add: st1_def st3_def)
  have st': "?st' = AppleAgxDmaShadowCopy (AppleAgxDmaShadowCopy st3 8 (bytes32 v)) 16 ?k"
    by (simp add: st3_def st1_def AppleAgxDmaShadowZero_def)
  have n1: "st1 ! i = (if used \<le> i \<and> i < used + 24 then record_bytes r ! (i - used) else st ! i)" for i
    using assms by (simp add: st1_def nth_copy)
  have n3: "st3 ! i = (if used + 24 + n \<le> i \<and> i < used + 24 + n + pad then 0
      else if used + 24 \<le> i \<and> i < used + 24 + n then bytes ! (i - (used + 24)) else st1 ! i)" for i
    using assms l by (auto simp: st3_def nth_copy)
  have n': "?st' ! i = (if 16 \<le> i \<and> i < 20 then ?k ! (i - 16) else if 8 \<le> i \<and> i < 12 then bytes32 v ! (i - 8) else st3 ! i)" for i
    unfolding st' using assms l by (simp add: nth_copy)
  have "shadow_record ?st' used = shadow_record st1 used" using assms n' n3 by (intro record_cong) auto
  also have "\<dots> = r" unfolding st1_def using assms by (intro record_copied) simp
  finally have rec: "shadow_record ?st' used = r" .
  have other: "get32 ?st' j = get32 st j" if "j + 4 \<le> 8 \<or> j = 12 \<or> 20 \<le> j \<and> j + 4 \<le> 28" for j
    using that assms n' n3 n1 by (intro get32_cong) auto
  have "get32 ?st' 8 = v" "get32 ?st' 16 = dh_RecordCount (AppleAgxDmaShadowHeader st) + 1"
    using n' by (auto intro!: get32_bytes32)
  then have head: "AppleAgxDmaShadowHeader ?st' = (AppleAgxDmaShadowHeader st)
      \<lparr> dh_BytesUsed := v, dh_RecordCount := dh_RecordCount (AppleAgxDmaShadowHeader st) + 1 \<rparr>"
    using other [of 0] other [of 4] other [of 12] other [of 20] other [of 24] by (simp add: AppleAgxDmaShadowHeader_def)
  have "length ?st' = length st" unfolding st' using assms l by simp
  then show ?thesis unfolding appended_def using rec head n' n3 n1 assms by auto
qed

lemma appended_ok:
  assumes ok: "shadow_ok st used ds" and app: "appended st (unat used) (used + dr_RecordBytes r) r bytes st'"
    and r: "AppleAgxDmaShadowRecordValid r (unat (dr_RecordBytes r))"
    and fit: "unat used + unat (dr_RecordBytes r) \<le> unat (dh_Capacity (AppleAgxDmaShadowHeader st))"
    and free: "\<forall>d \<in> set ds. apart (unat (dr_DmaOffset r)) (unat (dr_DmaBytes r)) (off st d) (len st d)"
  shows "shadow_ok st' (used + dr_RecordBytes r) (ds @ [unat used])"
    and "\<forall>d \<in> set ds. shadow_record st' d = shadow_record st d"
proof -
  have head: "header_ok st used" and ch: "chain st (unat used) 28 ds" and sp: "spread st ds"
    and count: "of_nat (length ds) = dh_RecordCount (AppleAgxDmaShadowHeader st)" using ok by (auto simp: shadow_ok_def)
  have "unat used + unat (dr_RecordBytes r) < 2 ^ LENGTH(32)" using fit by (rule order.strict_trans1) (rule unsigned_less)
  then have sum: "unat (used + dr_RecordBytes r) = unat used + unat (dr_RecordBytes r)" by (rule unat_add_no_wrap)
  have a: "\<And>i. 28 \<le> i \<Longrightarrow> i < unat used \<Longrightarrow> st' ! i = st ! i" "shadow_record st' (unat used) = r"
    "AppleAgxDmaShadowHeader st' = (AppleAgxDmaShadowHeader st)
       \<lparr> dh_BytesUsed := used + dr_RecordBytes r, dh_RecordCount := dh_RecordCount (AppleAgxDmaShadowHeader st) + 1 \<rparr>"
    using app by (auto simp: appended_def)
  have "chain st' (unat (used + dr_RecordBytes r)) (unat used) [unat used]"
    using a(2) r sum record_valid_positive(2) [OF r] by simp
  note grown = chain_grow [OF ch a(1) _ this]
  have both: "chain st' (unat (used + dr_RecordBytes r)) 28 (ds @ [unat used])"
    "\<forall>d \<in> set ds. shadow_record st' d = shadow_record st d" using grown sum by auto
  then show "\<forall>d \<in> set ds. shadow_record st' d = shadow_record st d" by blast
  have "spread st' (ds @ [unat used])"
    using both(2) sp free a(2) chain_spread_cong [OF both(2)] by (auto simp: sorted_wrt_append apart_def)
  moreover have "header_ok st' (used + dr_RecordBytes r)"
    using head fit sum unfolding header_ok_def a(3) by (auto simp: Let_def word_le_nat_alt)
  ultimately show "shadow_ok st' (used + dr_RecordBytes r) (ds @ [unat used])"
    using both(1) count a(3) by (simp add: shadow_ok_def add.commute)
qed

text \<open>What an append that succeeds found and left.\<close>

lemma append_cases:
  assumes run: "AppleAgxDmaShadowAppend shadow offset bytes n = Some shadow'"
    and size: "ds_Storage shadow = Some st" "unat (ds_Capacity shadow) \<le> length st" "unat n \<le> length bytes"
  obtains ds r st' where "shadow_ok st (ds_BytesUsed shadow) ds" "dh_State (AppleAgxDmaShadowHeader st) = SHADOW_WRITABLE"
    "dr_DmaOffset r = offset" "dr_DmaBytes r = n" "AppleAgxDmaShadowRecordValid r (unat (dr_RecordBytes r))"
    "unat (ds_BytesUsed shadow) + unat (dr_RecordBytes r) \<le> unat (ds_Capacity shadow)"
    "\<forall>d \<in> set ds. apart (unat offset) (unat n) (off st d) (len st d)"
    "appended st (unat (ds_BytesUsed shadow)) (ds_BytesUsed shadow + dr_RecordBytes r) r bytes st'"
    "shadow' = shadow\<lparr> ds_Storage := Some st', ds_BytesUsed := ds_BytesUsed shadow + dr_RecordBytes r \<rparr>"
proof -
  let ?u = "ds_BytesUsed shadow" and ?c = "ds_Capacity shadow"
  obtain b where b: "AppleAgxDmaShadowRecordBytes n = Some b" using run size by (auto simp: AppleAgxDmaShadowAppend_def split: if_splits option.splits)
  let ?r = "\<lparr> dr_Magic = SHADOW_MAGIC, dr_Version = SHADOW_VERSION, dr_RecordBytes = b, dr_DmaOffset = offset,
    dr_DmaBytes = n, dr_Reserved = 0 \<rparr>"
  have g: "?u \<le> ?c" "offset \<le> - 1 - n" "b \<le> ?c - ?u" "AppleAgxDmaShadowValidate st ?u"
    "dh_State (AppleAgxDmaShadowHeader st) = SHADOW_WRITABLE" "no_overlap st (unat ?u) offset (offset + n) 28"
    using run size b by (auto simp: AppleAgxDmaShadowAppend_def Let_def not_less split: if_splits)
  obtain ds where ds: "shadow_ok st ?u ds" using g(4) Validate_iff by blast
  have u: "28 \<le> unat ?u" using ds by (simp add: shadow_ok_def header_ok_def Let_def word_le_nat_alt)
  have "unat (?c - ?u) = unat ?c - unat ?u" by (rule unat_sub) (rule g(1))
  then have room: "unat ?u + unat b \<le> unat ?c" using g(1,3) by (simp add: word_le_nat_alt)
  have n: "0 < unat n" "24 + unat n \<le> unat b" using record_bytes_nat [OF b] by auto
  have valid: "AppleAgxDmaShadowRecordValid ?r (unat (dr_RecordBytes ?r))"
    using b g(2) n by (simp add: AppleAgxDmaShadowRecordValid_def)
  obtain es where "chain st (unat ?u) 28 es" "\<forall>d \<in> set es. apart (unat offset) (unat n) (off st d) (len st d)"
    using g(6) no_overlap_iff [OF u unat_not_room(2) [OF g(2)] n(1), of st] by blast
  then have free: "\<forall>d \<in> set ds. apart (unat offset) (unat n) (off st d) (len st d)"
    using ds chain_unique unfolding shadow_ok_def by blast
  have "unat (b - 24 - n) = unat b - 24 - unat n"
    using n by (simp add: unat_sub word_le_nat_alt)
  then have pad: "unat ?u + 24 + unat n + unat (b - 24 - n) \<le> length st" using room n size(2) by linarith
  note w = append_writes [OF u pad, of ?r bytes "?u + b"]
  show ?thesis
  proof (rule that [OF ds g(5) _ _ valid _ free])
    show "appended st (unat ?u) (?u + dr_RecordBytes ?r) ?r bytes (the (ds_Storage shadow'))"
      using w run size b by (auto simp: AppleAgxDmaShadowAppend_def Let_def split: if_splits)
    show "shadow' = shadow\<lparr> ds_Storage := Some (the (ds_Storage shadow')), ds_BytesUsed := ?u + dr_RecordBytes ?r \<rparr>"
      using run size b by (auto simp: AppleAgxDmaShadowAppend_def Let_def split: if_splits)
  qed (use room in simp_all)
qed

lemma append_memory:
  assumes ok: "shadow_ok st used ds" and app: "appended st (unat used) (used + dr_RecordBytes r) r bytes st'"
    and new: "shadow_ok st' (used + dr_RecordBytes r) (ds @ [unat used])"
    and same: "\<forall>d \<in> set ds. shadow_record st' d = shadow_record st d"
  shows "dma_memory st' (used + dr_RecordBytes r) i =
    (if unat (dr_DmaOffset r) \<le> i \<and> i < unat (dr_DmaOffset r) + unat (dr_DmaBytes r)
     then Some (bytes ! (i - unat (dr_DmaOffset r))) else dma_memory st used i)"
proof -
  have rec: "shadow_record st' (unat used) = r" and payload: "\<forall>j < unat (dr_DmaBytes r). st' ! (unat used + 24 + j) = bytes ! j"
    and low: "\<forall>i. 28 \<le> i \<and> i < unat used \<longrightarrow> st' ! i = st ! i" using app by (auto simp: appended_def)
  show ?thesis
  proof (cases "holds_byte st' i (unat used)")
    case True
    then have i: "unat (dr_DmaOffset r) \<le> i" "i < unat (dr_DmaOffset r) + unat (dr_DmaBytes r)"
      by (simp_all add: holds_byte_def rec)
    then have "i - unat (dr_DmaOffset r) < unat (dr_DmaBytes r)" by linarith
    from payload [rule_format, OF this]
    have "st' ! (unat used + 24 + (i - unat (dr_DmaOffset r))) = bytes ! (i - unat (dr_DmaOffset r))" .
    then show ?thesis using dma_at [OF new _ True] i unfolding rec by simp
  next
    case False
    have "dma_memory st' (used + dr_RecordBytes r) i = dma_memory st used i"
    proof (cases "\<exists>d \<in> set ds. holds_byte st i d")
      case True
      then obtain d where d: "d \<in> set ds" "holds_byte st i d" by blast
      have hold: "holds_byte st' i d" using d same by (simp add: holds_byte_def)
      have "28 \<le> d \<and> d + 24 + len st d \<le> unat used" using chain_facts [OF _ d(1)] ok by (auto simp: shadow_ok_def)
      then have "28 \<le> d + 24 + (i - off st d) \<and> d + 24 + (i - off st d) < unat used"
        using d(2) unfolding holds_byte_def by linarith
      from low [rule_format, OF this]
      have "st' ! (d + 24 + (i - off st d)) = st ! (d + 24 + (i - off st d))" .
      then show ?thesis using dma_at [OF new _ hold] dma_at [OF ok d] d(1) same by simp
    next
      case none: False
      then have "\<forall>d \<in> set (ds @ [unat used]). \<not> holds_byte st' i d" using False same by (auto simp: holds_byte_def)
      then show ?thesis using dma_nowhere [OF new] dma_nowhere [OF ok] none by simp
    qed
    then show ?thesis using False by (auto simp: holds_byte_def rec)
  qed
qed


section \<open>Sealing and patching\<close>

lemma chain_records:
  "(\<forall>d \<in> set ds. shadow_record st' d = shadow_record st d) \<Longrightarrow> chain st' used c ds \<longleftrightarrow> chain st used c ds"
  by (induction ds arbitrary: c) auto

lemma chain_order: "chain st used c ds \<Longrightarrow> sorted_wrt (\<lambda>d e. d + 24 + len st d \<le> e) ds"
proof (induction ds arbitrary: c)
  case (Cons d ds)
  let ?r = "shadow_record st c"
  from Cons.prems have ok: "AppleAgxDmaShadowRecordValid ?r (used - c)" and d: "d = c"
    and rest: "chain st used (c + unat (dr_RecordBytes ?r)) ds" by auto
  show ?case using Cons.IH [OF rest] chain_facts [OF rest] record_valid_positive(1) [OF ok] unfolding d by fastforce
qed simp

lemma chain_apart:
  assumes "chain st used c ds" and "d \<in> set ds" and "e \<in> set ds"
  shows "d = e \<or> d + 24 + len st d \<le> e \<or> e + 24 + len st e \<le> d"
proof -
  obtain i j where ij: "i < length ds" "j < length ds" "d = ds ! i" "e = ds ! j" using assms(2,3) by (auto simp: in_set_conv_nth)
  show ?thesis using sorted_wrt_nth_less [OF chain_order [OF assms(1)], of i j] sorted_wrt_nth_less [OF chain_order [OF assms(1)], of j i] ij
    by (cases i j rule: linorder_cases) auto
qed

text \<open>A shadow with the same header, but for its state and fence, and the same records is as good.\<close>

lemma same_records_ok:
  assumes ok: "shadow_ok st used ds" and same: "\<forall>d \<in> set ds. shadow_record st' d = shadow_record st d"
    and head: "header_ok st' used" "dh_RecordCount (AppleAgxDmaShadowHeader st') = dh_RecordCount (AppleAgxDmaShadowHeader st)"
  shows "shadow_ok st' used ds"
  using ok head chain_records [OF same] chain_spread_cong [OF same] by (simp add: shadow_ok_def)

lemma same_records_memory:
  assumes ok: "shadow_ok st used ds" and ok': "shadow_ok st' used ds" and same: "\<forall>d \<in> set ds. shadow_record st' d = shadow_record st d"
    and bytes: "\<And>d. d \<in> set ds \<Longrightarrow> holds_byte st i d \<Longrightarrow> st' ! (d + 24 + (i - off st d)) = st ! (d + 24 + (i - off st d))"
  shows "dma_memory st' used i = dma_memory st used i"
proof (cases "\<exists>d \<in> set ds. holds_byte st i d")
  case True
  then obtain d where d: "d \<in> set ds" "holds_byte st i d" by blast
  then have "holds_byte st' i d" using same by (simp add: holds_byte_def)
  then show ?thesis using dma_at [OF ok d] dma_at [OF ok' d(1)] bytes [OF d] same d(1) by simp
next
  case False
  then have "\<forall>d \<in> set ds. \<not> holds_byte st' i d" using same by (auto simp: holds_byte_def)
  then show ?thesis using dma_nowhere [OF ok'] dma_nowhere [OF ok] False by simp
qed

lemma seal_cases:
  assumes run: "AppleAgxDmaShadowSeal shadow fence = Some shadow'" and st: "ds_Storage shadow = Some st" "28 \<le> length st"
  obtains st' ds where "shadow' = shadow\<lparr> ds_Storage := Some st' \<rparr>" "length st' = length st"
    "shadow_ok st (ds_BytesUsed shadow) ds" "shadow_ok st' (ds_BytesUsed shadow) ds"
    "dh_State (AppleAgxDmaShadowHeader st') = SHADOW_SEALED" "dh_Fence (AppleAgxDmaShadowHeader st') = fence"
    "dma_memory st' (ds_BytesUsed shadow) = dma_memory st (ds_BytesUsed shadow)"
proof -
  let ?u = "ds_BytesUsed shadow"
  let ?st1 = "AppleAgxDmaShadowCopy st 24 (bytes32 fence)"
  let ?st = "AppleAgxDmaShadowCopy ?st1 20 (bytes32 SHADOW_SEALED)"
  have g: "fence \<noteq> 0" "AppleAgxDmaShadowValidate st ?u" "shadow' = shadow\<lparr> ds_Storage := Some ?st \<rparr>"
    using run st by (auto simp: AppleAgxDmaShadowSeal_def Let_def split: if_splits)
  obtain ds where ds: "shadow_ok st ?u ds" using g(2) Validate_iff by blast
  have high: "?st ! i = st ! i" if "28 \<le> i" for i using that st by (simp add: nth_copy)
  have "28 \<le> d" if "d \<in> set ds" for d using chain_facts [OF _ that] ds by (auto simp: shadow_ok_def)
  then have same: "\<forall>d \<in> set ds. shadow_record ?st d = shadow_record st d" using high by (intro ballI record_cong) fastforce
  have "get32 ?st j = get32 st j" if "j + 4 \<le> 20" for j using that st by (simp add: get32_copy_other)
  moreover have "get32 ?st 20 = SHADOW_SEALED" using st by (simp add: get32_copy_same)
  moreover have "get32 ?st 24 = fence" using st by (simp add: get32_copy_other get32_copy_same)
  ultimately have head: "AppleAgxDmaShadowHeader ?st = (AppleAgxDmaShadowHeader st)\<lparr> dh_State := SHADOW_SEALED, dh_Fence := fence \<rparr>"
    by (simp add: AppleAgxDmaShadowHeader_def)
  have ok': "shadow_ok ?st ?u ds"
    using ds g(1) by (intro same_records_ok [OF ds same]) (auto simp: head header_ok_def shadow_ok_def Let_def)
  have "dma_memory ?st ?u = dma_memory st ?u"
    using same_records_memory [OF ds ok' same] high \<open>\<And>d. d \<in> set ds \<Longrightarrow> 28 \<le> d\<close> by (intro ext) (simp add: trans_le_add1)
  then show ?thesis using that [OF g(3) _ ds ok'] st by (simp add: head)
qed

text \<open>Writing inside the bytes of one record.\<close>

lemma payload_write:
  assumes ok: "shadow_ok st used ds" and d: "d \<in> set ds"
    and other: "\<And>i. i < d + 24 \<or> d + 24 + len st d \<le> i \<Longrightarrow> st' ! i = st ! i"
  shows "shadow_ok st' used ds" and "\<forall>e \<in> set ds. shadow_record st' e = shadow_record st e"
    and "AppleAgxDmaShadowHeader st' = AppleAgxDmaShadowHeader st"
    and "\<not> holds_byte st i d \<Longrightarrow> dma_memory st' used i = dma_memory st used i"
proof -
  have ch: "chain st (unat used) 28 ds" using ok by (simp add: shadow_ok_def)
  have "28 \<le> d" using chain_facts [OF ch d] by blast
  then show head: "AppleAgxDmaShadowHeader st' = AppleAgxDmaShadowHeader st" using other by (intro header_cong) simp
  show same: "\<forall>e \<in> set ds. shadow_record st' e = shadow_record st e"
  proof (intro ballI record_cong other)
    fix e k :: nat assume "e \<in> set ds" "k < 24"
    then show "e + k < d + 24 \<or> d + 24 + len st d \<le> e + k" using chain_apart [OF ch d, of e] by auto
  qed
  show ok': "shadow_ok st' used ds"
    using ok by (intro same_records_ok [OF ok same]) (simp_all add: header_ok_def shadow_ok_def head)
  assume no: "\<not> holds_byte st i d"
  show "dma_memory st' used i = dma_memory st used i"
  proof (rule same_records_memory [OF ok ok' same], rule other)
    fix e assume e: "e \<in> set ds" "holds_byte st i e"
    then have "e \<noteq> d" using no by blast
    then show "e + 24 + (i - off st e) < d + 24 \<or> d + 24 + len st d \<le> e + 24 + (i - off st e)"
      using chain_apart [OF ch d e(1)] e(2) unfolding holds_byte_def by linarith
  qed
qed

lemma covers_iff:
  assumes "chain st used c ds" and "d \<in> set ds" and "offset \<le> - 1 - 8"
  shows "covers_u64 offset (shadow_record st d) \<longleftrightarrow> off st d \<le> unat offset \<and> unat offset + 8 \<le> off st d + len st d"
  using chain_facts [OF assms(1,2)] unat_not_room(2) [OF assms(3)]
  by (simp add: covers_u64_def word_le_nat_alt)

lemma patch_cases:
  assumes run: "AppleAgxDmaShadowPatchU64 st used offset v = Some (True, st')" and size: "unat used \<le> length st"
  obtains ds d where "shadow_ok st used ds" "dh_State (AppleAgxDmaShadowHeader st) = SHADOW_WRITABLE" "offset \<le> - 1 - 8"
    "find (\<lambda>d. covers_u64 offset (shadow_record st d)) ds = Some d" "d \<in> set ds"
    "off st d \<le> unat offset" "unat offset + 8 \<le> off st d + len st d"
    "st' = AppleAgxDmaShadowCopy st (d + 24 + (unat offset - off st d)) (bytes64 v)"
    "d + 24 + (unat offset - off st d) + 8 \<le> length st"
proof -
  have g: "offset \<le> - 1 - 8" "AppleAgxDmaShadowValidate st used" "dh_State (AppleAgxDmaShadowHeader st) = SHADOW_WRITABLE"
    using run by (auto simp: AppleAgxDmaShadowPatchU64_def not_less split: if_splits)
  obtain ds where ds: "shadow_ok st used ds" using g(2) Validate_iff by blast
  then have ch: "chain st (unat used) 28 ds" by (simp add: shadow_ok_def)
  obtain d where d: "find (\<lambda>d. covers_u64 offset (shadow_record st d)) ds = Some d"
    "st' = AppleAgxDmaShadowCopy st (patch_place st offset d) (bytes64 v)"
    using run g scan_chain [OF ch, of "covers_u64 offset"]
    by (auto simp: AppleAgxDmaShadowPatchU64_def split: if_splits option.splits)
  then have in': "d \<in> set ds" "covers_u64 offset (shadow_record st d)" by (auto simp: find_Some_iff)
  have at: "off st d \<le> unat offset" "unat offset + 8 \<le> off st d + len st d" using covers_iff [OF ch in'(1) g(1)] in'(2) by auto
  have place: "patch_place st offset d = d + 24 + (unat offset - off st d)"
    using at(1) by (simp add: patch_place_def unat_sub word_le_nat_alt)
  have "d + 24 + len st d \<le> unat used" using chain_facts [OF ch in'(1)] by blast
  then have "d + 24 + (unat offset - off st d) + 8 \<le> length st" using at size by linarith
  then show ?thesis using that [OF ds g(3,1) d(1) in'(1) at] d(2) place by simp
qed

lemma patch_result:
  assumes run: "AppleAgxDmaShadowPatchU64 st used offset v = Some (True, st')" and size: "unat used \<le> length st"
  shows "AppleAgxDmaShadowValidate st' used" and "length st' = length st"
    and "dma_memory st' used i = (if unat offset \<le> i \<and> i < unat offset + 8 then Some (bytes64 v ! (i - unat offset))
      else dma_memory st used i)"
    and "AppleAgxDmaShadowMatchesWritableU64 st' used offset v = Some True"
proof -
  obtain ds d where ok: "shadow_ok st used ds" and w: "dh_State (AppleAgxDmaShadowHeader st) = SHADOW_WRITABLE"
    and offset: "offset \<le> - 1 - 8" and find: "find (\<lambda>d. covers_u64 offset (shadow_record st d)) ds = Some d" and d: "d \<in> set ds"
    and at: "off st d \<le> unat offset" "unat offset + 8 \<le> off st d + len st d"
    and st': "st' = AppleAgxDmaShadowCopy st (d + 24 + (unat offset - off st d)) (bytes64 v)"
    and room: "d + 24 + (unat offset - off st d) + 8 \<le> length st" by (rule patch_cases [OF run size])
  let ?p = "d + 24 + (unat offset - off st d)"
  have nth: "st' ! j = (if ?p \<le> j \<and> j < ?p + 8 then bytes64 v ! (j - ?p) else st ! j)" for j
    unfolding st' using room by (simp add: nth_copy)
  then have "st' ! j = st ! j" if "j < d + 24 \<or> d + 24 + len st d \<le> j" for j using that at by auto
  note pw = payload_write [OF ok d this]
  show "length st' = length st" unfolding st' using room by simp
  show valid: "AppleAgxDmaShadowValidate st' used" using pw(1) Validate_iff by blast
  show "dma_memory st' used i = (if unat offset \<le> i \<and> i < unat offset + 8 then Some (bytes64 v ! (i - unat offset))
      else dma_memory st used i)"
  proof (cases "holds_byte st i d")
    case True
    then have hold: "holds_byte st' i d" and i: "off st d \<le> i" using pw(2) d by (simp_all add: holds_byte_def)
    have "dma_memory st' used i = Some (st' ! (d + 24 + (i - off st d)))" using dma_at [OF pw(1) d hold] pw(2) d by simp
    moreover have "?p \<le> d + 24 + (i - off st d) \<and> d + 24 + (i - off st d) < ?p + 8 \<longleftrightarrow> unat offset \<le> i \<and> i < unat offset + 8"
      and "unat offset \<le> i \<Longrightarrow> d + 24 + (i - off st d) - ?p = i - unat offset" using at i by auto
    ultimately show ?thesis using nth [of "d + 24 + (i - off st d)"] dma_at [OF ok d True] by simp
  next
    case False
    then show ?thesis using pw(4) at by (auto simp: holds_byte_def)
  qed
  have "find (\<lambda>d. covers_u64 offset (shadow_record st' d)) ds = Some d"
    using find pw(2) by (metis (no_types, lifting) find_cong)
  moreover have "chain st' (unat used) 28 ds" using pw(1) by (simp add: shadow_ok_def)
  moreover have "patch_place st' offset d = ?p" using at(1) pw(2) d by (simp add: patch_place_def unat_sub word_le_nat_alt)
  ultimately have "matches_u64 st' used offset v = Some True"
    using nth by (simp add: matches_u64_def scan_chain list_all_iff)
  then show "AppleAgxDmaShadowMatchesWritableU64 st' used offset v = Some True"
    using offset valid w pw(3) by (simp add: AppleAgxDmaShadowMatchesWritableU64_def not_less)
qed

section \<open>Copying a submission\<close>

lemma at_offset_chain:
  "chain st (unat used) 28 ds \<Longrightarrow>
    AppleAgxDmaShadowRecordAtOffset st used current = Some (find (\<lambda>d. dr_DmaOffset (shadow_record st d) = current) ds)"
  by (simp add: AppleAgxDmaShadowRecordAtOffset_def scan_chain)

text \<open>One step of the loops: a record that begins at the place and ends inside the interval.\<close>

lemma submission_step:
  assumes "chain st (unat used) 28 ds" and "find (\<lambda>d. dr_DmaOffset (shadow_record st d) = current) ds = Some d"
    and "\<not> dr_DmaBytes (shadow_record st d) > end' - current" and "current < end'"
  shows "d \<in> set ds" and "off st d = unat current" and "0 < len st d" and "d + 24 + len st d \<le> unat used"
    and "unat (current + dr_DmaBytes (shadow_record st d)) = unat current + len st d"
    and "unat current + len st d \<le> unat end'"
proof -
  show d: "d \<in> set ds" and off': "off st d = unat current" using assms(2) by (auto simp: find_Some_iff)
  note f = chain_facts [OF assms(1) d]
  then show "0 < len st d" "d + 24 + len st d \<le> unat used" by blast+
  have "unat (end' - current) = unat end' - unat current" using assms(4) by (simp add: unat_sub word_less_nat_alt word_le_nat_alt)
  then show le: "unat current + len st d \<le> unat end'" using assms(3,4) by (auto simp: word_less_nat_alt)
  have "unat current + len st d < 2 ^ LENGTH(32)" using le by (rule order.strict_trans1) (rule unsigned_less)
  then show "unat (current + dr_DmaBytes (shadow_record st d)) = unat current + len st d" by (rule unat_add_no_wrap)
qed

lemma covers_loop_ends:
  assumes ch: "chain st (unat used) 28 ds"
  shows "\<exists>b. covers_loop st used end' current = Some b"
proof (induction "unat end' - unat current" arbitrary: current rule: less_induct)
  case less
  show ?case
  proof (cases "current < end' \<and> (\<exists>d. find (\<lambda>d. dr_DmaOffset (shadow_record st d) = current) ds = Some d \<and>
      \<not> dr_DmaBytes (shadow_record st d) > end' - current)")
    case False
    then show ?thesis by (subst covers_loop.simps) (auto simp: at_offset_chain [OF ch] split: option.split)
  next
    case True
    then obtain d where c: "current < end'" and d: "find (\<lambda>d. dr_DmaOffset (shadow_record st d) = current) ds = Some d"
      and fits: "\<not> dr_DmaBytes (shadow_record st d) > end' - current" by blast
    note s = submission_step [OF ch d fits c]
    have "\<exists>b. covers_loop st used end' (current + dr_DmaBytes (shadow_record st d)) = Some b"
      by (rule less) (use s c in \<open>simp add: word_less_nat_alt\<close>)
    then show ?thesis using c d fits by (subst covers_loop.simps) (simp add: at_offset_chain [OF ch])
  qed
qed

lemma copy_loop_covers:
  assumes ok: "shadow_ok st used ds" and size: "unat used \<le> length st"
  shows "covers_loop st used end' current = Some True \<Longrightarrow> unat out + (unat end' - unat current) \<le> length dest \<Longrightarrow>
    unat out + (unat end' - unat current) < 2 ^ 32 \<Longrightarrow>
    \<exists>dest'. copy_loop st used end' current out dest = Some (out + (end' - current), dest') \<and> current \<le> end' \<and>
      length dest' = length dest \<and>
      (\<forall>i. unat current \<le> i \<and> i < unat end' \<longrightarrow> dma_memory st used i = Some (dest' ! (unat out + (i - unat current)))) \<and>
      (\<forall>j. j < unat out \<or> unat out + (unat end' - unat current) \<le> j \<longrightarrow> dest' ! j = dest ! j)"
proof (induction "unat end' - unat current" arbitrary: current out dest rule: less_induct)
  case less
  have ch: "chain st (unat used) 28 ds" using ok by (simp add: shadow_ok_def)
  show ?case
  proof (cases "current < end'")
    case False
    then have "current = end'" using less.prems(1) by (subst (asm) covers_loop.simps) simp
    then show ?thesis by (subst copy_loop.simps) auto
  next
    case c: True
    from less.prems(1) c obtain d where d: "find (\<lambda>d. dr_DmaOffset (shadow_record st d) = current) ds = Some d"
      and fits: "\<not> dr_DmaBytes (shadow_record st d) > end' - current"
      and rest: "covers_loop st used end' (current + dr_DmaBytes (shadow_record st d)) = Some True"
      by (subst (asm) covers_loop.simps) (auto simp: at_offset_chain [OF ch] split: option.splits if_splits)
    note s = submission_step [OF ch d fits c]
    let ?n = "len st d" and ?next = "current + dr_DmaBytes (shadow_record st d)" and ?out = "out + dr_DmaBytes (shadow_record st d)"
    let ?xs = "take ?n (drop (d + 24) st)"
    let ?dest = "AppleAgxDmaShadowCopy dest (unat out) ?xs"
    have xs: "length ?xs = ?n" "\<And>k. k < ?n \<Longrightarrow> ?xs ! k = st ! (d + 24 + k)" using s(4) size by auto
    have out: "unat ?out = unat out + ?n" using less.prems(3) s(5,6) by (intro unat_add_no_wrap) auto
    have fit: "unat out + length ?xs \<le> length dest" using less.prems(2) s(6) xs(1) by linarith
    then have dest: "length ?dest = length dest"
      "\<And>j. ?dest ! j = (if unat out \<le> j \<and> j < unat out + ?n then st ! (d + 24 + (j - unat out)) else dest ! j)"
      using xs by (auto simp: nth_copy)
    have less': "unat end' - unat ?next < unat end' - unat current" using s(3,5,6) by linarith
    have room: "unat ?out + (unat end' - unat ?next) \<le> length ?dest" "unat ?out + (unat end' - unat ?next) < 2 ^ 32"
      using less.prems(2,3) s(5,6) out dest(1) by auto
    obtain dest' where dest': "copy_loop st used end' ?next ?out ?dest = Some (?out + (end' - ?next), dest')"
      "?next \<le> end'" "length dest' = length dest"
      "\<forall>i. unat ?next \<le> i \<and> i < unat end' \<longrightarrow> dma_memory st used i = Some (dest' ! (unat ?out + (i - unat ?next)))"
      "\<forall>j. j < unat ?out \<or> unat ?out + (unat end' - unat ?next) \<le> j \<longrightarrow> dest' ! j = ?dest ! j"
      using less.hyps [OF less' rest room] unfolding dest(1) by blast
    have run: "copy_loop st used end' current out dest = Some (out + (end' - current), dest')"
      using c d dest'(1) by (subst copy_loop.simps) (simp add: at_offset_chain [OF ch])
    have here: "dma_memory st used i = Some (dest' ! (unat out + (i - unat current)))"
      if i: "unat current \<le> i" "i < unat current + ?n" for i
    proof -
      have "holds_byte st i d" using i s(2) by (simp add: holds_byte_def)
      then have "dma_memory st used i = Some (st ! (d + 24 + (i - unat current)))" using dma_at [OF ok s(1)] s(2) by simp
      moreover have "dest' ! (unat out + (i - unat current)) = ?dest ! (unat out + (i - unat current))"
        using dest'(5) i out by auto
      moreover have "\<dots> = st ! (d + 24 + (i - unat current))" unfolding dest(2) using i by auto
      ultimately show ?thesis by simp
    qed
    have "dma_memory st used i = Some (dest' ! (unat out + (i - unat current)))" if "unat current \<le> i" "i < unat end'" for i
    proof (cases "i < unat current + ?n")
      case False
      then have "unat ?out + (i - unat ?next) = unat out + (i - unat current)" using out s(5) by simp
      then show ?thesis using dest'(4) that False s(5) by (metis not_less)
    qed (use here that in blast)
    moreover have "dest' ! j = dest ! j" if "j < unat out \<or> unat out + (unat end' - unat current) \<le> j" for j
    proof -
      have "dest' ! j = ?dest ! j" using that out s(5,6) dest'(5) by auto
      then show ?thesis unfolding dest(2) using that s(6) by auto
    qed
    ultimately show ?thesis using run c dest'(3) by (auto simp: less_imp_le)
  qed
qed


lemma unat_less_power: "unat w < 2 ^ 32" for w :: u32
proof -
  have "unat w < 2 ^ LENGTH(32)" by (rule unsigned_less)
  then show ?thesis by simp
qed

section \<open>A shadow to start from\<close>

lemma header_copied:
  assumes "28 \<le> length st"
  shows "AppleAgxDmaShadowHeader (AppleAgxDmaShadowCopy st 0 (header_bytes h)) = h"
proof -
  have "get32 (AppleAgxDmaShadowCopy st 0 (header_bytes h)) j = get32 (header_bytes h) j" if "j + 4 \<le> 28" for j
    using that assms get32_copied [of 0 "header_bytes h" st j] by simp
  from this [of 0] this [of 4] this [of 8] this [of 12] this [of 16] this [of 20] this [of 24] show ?thesis
    by (simp add: AppleAgxDmaShadowHeader_def header_bytes_def get32_first get32_next get32_last)
qed

lemma initialize_ok:
  assumes "28 \<le> capacity" and "unat capacity \<le> length st"
  obtains st' where "AppleAgxDmaShadowInitialize (Some st) capacity =
      \<lparr> ds_Storage = Some st', ds_Capacity = capacity, ds_BytesUsed = 28 \<rparr>" "length st' = length st" "shadow_ok st' 28 []"
    "AppleAgxDmaShadowHeader st' = \<lparr> dh_Magic = SHADOW_MAGIC, dh_Version = SHADOW_VERSION, dh_BytesUsed = 28,
       dh_Capacity = capacity, dh_RecordCount = 0, dh_State = SHADOW_WRITABLE, dh_Fence = 0 \<rparr>"
proof -
  let ?h = "\<lparr> dh_Magic = SHADOW_MAGIC, dh_Version = SHADOW_VERSION, dh_BytesUsed = 28,
    dh_Capacity = capacity, dh_RecordCount = 0, dh_State = SHADOW_WRITABLE, dh_Fence = 0 \<rparr>"
  let ?z = "AppleAgxDmaShadowZero st 0 (unat capacity)"
  let ?st = "AppleAgxDmaShadowCopy ?z 0 (header_bytes ?h)"
  have c: "28 \<le> unat capacity" using assms(1) by (simp add: word_le_nat_alt)
  have z: "length ?z = length st" using assms by (simp add: AppleAgxDmaShadowZero_def)
  have head: "AppleAgxDmaShadowHeader ?st = ?h" using z c assms(2) by (intro header_copied) simp
  have "shadow_ok ?st 28 []" using assms(1) by (simp add: shadow_ok_def header_ok_def head Let_def)
  then show ?thesis using that [of ?st] head z c assms by (simp add: AppleAgxDmaShadowInitialize_def Let_def not_less)
qed

text \<open>An append is accepted whenever there is room and no byte is there already.\<close>

lemma append_accepts:
  assumes ok: "shadow_ok st (ds_BytesUsed shadow) ds" and st: "ds_Storage shadow = Some st"
    and w: "dh_State (AppleAgxDmaShadowHeader st) = SHADOW_WRITABLE" "dh_RecordCount (AppleAgxDmaShadowHeader st) \<noteq> - 1"
    and n: "AppleAgxDmaShadowRecordBytes n = Some b" "offset \<le> - 1 - n"
    and room: "ds_BytesUsed shadow \<le> ds_Capacity shadow" "b \<le> ds_Capacity shadow - ds_BytesUsed shadow"
    and free: "\<forall>d \<in> set ds. apart (unat offset) (unat n) (off st d) (len st d)"
  shows "\<exists>shadow'. AppleAgxDmaShadowAppend shadow offset bytes n = Some shadow'"
proof -
  have u: "28 \<le> unat (ds_BytesUsed shadow)" using ok by (simp add: shadow_ok_def header_ok_def Let_def word_le_nat_alt)
  have "no_overlap st (unat (ds_BytesUsed shadow)) offset (offset + n) 28"
    using no_overlap_iff [OF u unat_not_room(2) [OF n(2)] record_bytes_nat(2) [OF n(1)], of st] ok free
    by (auto simp: shadow_ok_def)
  moreover have "AppleAgxDmaShadowValidate st (ds_BytesUsed shadow)" using ok Validate_iff by blast
  ultimately show ?thesis using st w n room by (simp add: AppleAgxDmaShadowAppend_def Let_def not_less)
qed

text \<open>A block of 96 bytes with one record, eight bytes that belong to place 16 of the buffer.\<close>

definition demo_shadow :: APPLE_AGX_DMA_SHADOW where
  "demo_shadow = AppleAgxDmaShadowInitialize (Some (replicate 96 0)) 96"

lemma record_bytes_8: "AppleAgxDmaShadowRecordBytes 8 = Some 32"
proof -
  obtain b where b: "AppleAgxDmaShadowRecordBytes 8 = Some b" by (simp add: AppleAgxDmaShadowRecordBytes_def Let_def)
  have "unat b = 32" using record_bytes_nat(1) [OF b] by simp
  then have "b = 32" by (simp add: word_unat_eq_iff)
  then show ?thesis using b by simp
qed

lemma demo_appended:
  obtains st st' where "demo_shadow = \<lparr> ds_Storage = Some st, ds_Capacity = 96, ds_BytesUsed = 28 \<rparr>"
    "AppleAgxDmaShadowAppend demo_shadow 16 [1, 2, 3, 4, 5, 6, 7, 8] 8 =
       Some \<lparr> ds_Storage = Some st', ds_Capacity = 96, ds_BytesUsed = 60 \<rparr>" "length st = 96" "length st' = 96"
    "dh_Capacity (AppleAgxDmaShadowHeader st) = 96"
    "shadow_ok st' 60 [28]" "off st' 28 = 16" "len st' 28 = 8" "dh_State (AppleAgxDmaShadowHeader st') = SHADOW_WRITABLE"
proof -
  have c: "28 \<le> (96 :: u32)" "unat (96 :: u32) \<le> length (replicate 96 (0 :: u8))" by simp_all
  obtain st where init: "demo_shadow = \<lparr> ds_Storage = Some st, ds_Capacity = 96, ds_BytesUsed = 28 \<rparr>"
    "length st = length (replicate 96 (0 :: u8))" "shadow_ok st 28 []"
    "AppleAgxDmaShadowHeader st = \<lparr> dh_Magic = SHADOW_MAGIC, dh_Version = SHADOW_VERSION, dh_BytesUsed = 28,
       dh_Capacity = 96, dh_RecordCount = 0, dh_State = SHADOW_WRITABLE, dh_Fence = 0 \<rparr>"
    by (rule initialize_ok [OF c, folded demo_shadow_def])
  then have st: "demo_shadow = \<lparr> ds_Storage = Some st, ds_Capacity = 96, ds_BytesUsed = 28 \<rparr>"
    "length st = 96" "shadow_ok st 28 []" "dh_State (AppleAgxDmaShadowHeader st) = SHADOW_WRITABLE"
    "dh_RecordCount (AppleAgxDmaShadowHeader st) = 0" "dh_Capacity (AppleAgxDmaShadowHeader st) = 96" by simp_all
  have ok: "shadow_ok st (ds_BytesUsed demo_shadow) []" using st(3) unfolding st(1) by simp
  obtain shadow' where run: "AppleAgxDmaShadowAppend demo_shadow 16 [1, 2, 3, 4, 5, 6, 7, 8] 8 = Some shadow'"
    using append_accepts [OF ok _ _ _ record_bytes_8, of 16 "[1, 2, 3, 4, 5, 6, 7, 8]"] st(4,5) unfolding st(1) by auto
  have size: "ds_Storage demo_shadow = Some st" "unat (ds_Capacity demo_shadow) \<le> length st"
    "unat (8 :: u32) \<le> length [1 :: u8, 2, 3, 4, 5, 6, 7, 8]" using st(2) unfolding st(1) by simp_all
  obtain ds r st' where a: "shadow_ok st (ds_BytesUsed demo_shadow) ds" and writable: "dh_State (AppleAgxDmaShadowHeader st) = SHADOW_WRITABLE"
    and a': "dr_DmaOffset r = 16" "dr_DmaBytes r = 8"
    "AppleAgxDmaShadowRecordValid r (unat (dr_RecordBytes r))"
    "unat (ds_BytesUsed demo_shadow) + unat (dr_RecordBytes r) \<le> unat (ds_Capacity demo_shadow)"
    "\<forall>d \<in> set ds. apart (unat (16 :: u32)) (unat (8 :: u32)) (off st d) (len st d)"
    "appended st (unat (ds_BytesUsed demo_shadow)) (ds_BytesUsed demo_shadow + dr_RecordBytes r) r [1, 2, 3, 4, 5, 6, 7, 8] st'"
    "shadow' = demo_shadow\<lparr> ds_Storage := Some st', ds_BytesUsed := ds_BytesUsed demo_shadow + dr_RecordBytes r \<rparr>"
    by (rule append_cases [OF run size])
  note a = a a'
  have ds: "ds = []" using a(1) st(3) chain_unique [of st 28 28 "[]" ds] unfolding shadow_ok_def st(1) by simp
  have b: "dr_RecordBytes r = 32" using a(3,4) record_bytes_8 by (simp add: AppleAgxDmaShadowRecordValid_def)
  have "shadow_ok st' 60 [28]" using appended_ok(1) [OF a(1,7,4)] a(2,3,5,6) st(6) b ds unfolding st(1) by simp
  moreover have "shadow_record st' 28 = r" "length st' = 96" "dh_State (AppleAgxDmaShadowHeader st') = SHADOW_WRITABLE"
    using a(7) st(2,4) unfolding st(1) by (simp_all add: appended_def)
  ultimately show ?thesis using that [OF st(1) _ st(2) _ st(6), of st'] run a(2,3) b unfolding a(8) st(1) by simp
qed

section \<open>Properties\<close>

text \<open>C13. The shadow is a write-once image of the DMA buffer: an append that succeeds puts exactly its bytes at
  exactly its place, where no byte was, keeps every other byte, and leaves a shadow that validates again and
  stays inside its capacity; nothing is overwritten.\<close>

theorem shadow_append_extends:
  assumes "AppleAgxDmaShadowAppend shadow offset bytes n = Some shadow'" and "ds_Storage shadow = Some st"
    and "unat (ds_Capacity shadow) \<le> length st" and "unat n \<le> length bytes"
    and "dh_Capacity (AppleAgxDmaShadowHeader st) = ds_Capacity shadow"
  shows "\<exists>st'. ds_Storage shadow' = Some st' \<and> length st' = length st \<and>
    AppleAgxDmaShadowValidate st' (ds_BytesUsed shadow') \<and> ds_BytesUsed shadow' \<le> ds_Capacity shadow' \<and>
    (\<forall>i. unat offset \<le> i \<and> i < unat offset + unat n \<longrightarrow> dma_memory st (ds_BytesUsed shadow) i = None) \<and>
    (\<forall>i. dma_memory st' (ds_BytesUsed shadow') i =
       (if unat offset \<le> i \<and> i < unat offset + unat n then Some (bytes ! (i - unat offset))
        else dma_memory st (ds_BytesUsed shadow) i))"
proof -
  obtain ds r st' where a: "shadow_ok st (ds_BytesUsed shadow) ds" and writable: "dh_State (AppleAgxDmaShadowHeader st) = SHADOW_WRITABLE"
    and a': "dr_DmaOffset r = offset" "dr_DmaBytes r = n"
    "AppleAgxDmaShadowRecordValid r (unat (dr_RecordBytes r))"
    "unat (ds_BytesUsed shadow) + unat (dr_RecordBytes r) \<le> unat (ds_Capacity shadow)"
    "\<forall>d \<in> set ds. apart (unat offset) (unat n) (off st d) (len st d)"
    "appended st (unat (ds_BytesUsed shadow)) (ds_BytesUsed shadow + dr_RecordBytes r) r bytes st'"
    "shadow' = shadow\<lparr> ds_Storage := Some st', ds_BytesUsed := ds_BytesUsed shadow + dr_RecordBytes r \<rparr>"
    by (rule append_cases [OF assms(1-4)])
  note a = a a'
  note new = appended_ok [OF a(1,7,4)]
  have n: "shadow_ok st' (ds_BytesUsed shadow + dr_RecordBytes r) (ds @ [unat (ds_BytesUsed shadow)])"
    "\<forall>d \<in> set ds. shadow_record st' d = shadow_record st d" using new a(2,3,5,6) assms(5) by simp_all
  have free: "dma_memory st (ds_BytesUsed shadow) i = None" if "unat offset \<le> i" "i < unat offset + unat n" for i
    using that a(6) by (intro dma_nowhere [OF a(1)]) (auto simp: holds_byte_def apart_def)
  have "unat (ds_BytesUsed shadow) + unat (dr_RecordBytes r) < 2 ^ LENGTH(32)"
    using a(5) by (rule order.strict_trans1) (rule unsigned_less)
  from unat_add_no_wrap [OF this] have "unat (ds_BytesUsed shadow + dr_RecordBytes r) \<le> unat (ds_Capacity shadow)"
    using a(5) by simp
  then have "ds_BytesUsed shadow + dr_RecordBytes r \<le> ds_Capacity shadow" by (simp add: word_le_nat_alt)
  moreover have "AppleAgxDmaShadowValidate st' (ds_BytesUsed shadow + dr_RecordBytes r)" using n(1) Validate_iff by blast
  moreover have "length st' = length st" using a(7) by (simp add: appended_def)
  moreover have "dma_memory st' (ds_BytesUsed shadow + dr_RecordBytes r) i =
      (if unat offset \<le> i \<and> i < unat offset + unat n then Some (bytes ! (i - unat offset))
       else dma_memory st (ds_BytesUsed shadow) i)" for i
    using append_memory [OF a(1,7) n, of i] unfolding a(2,3) .
  ultimately show ?thesis using free unfolding a(8) by (intro exI [of _ st'] conjI allI impI) simp_all
qed

theorem shadow_append_extends_witness:
  "\<exists>shadow' st'. AppleAgxDmaShadowAppend demo_shadow 16 [1, 2, 3, 4, 5, 6, 7, 8] 8 = Some shadow' \<and>
    ds_Storage shadow' = Some st' \<and> dma_memory st' (ds_BytesUsed shadow') 19 = Some 4"
proof -
  obtain st st' where d: "demo_shadow = \<lparr> ds_Storage = Some st, ds_Capacity = 96, ds_BytesUsed = 28 \<rparr>"
    "AppleAgxDmaShadowAppend demo_shadow 16 [1, 2, 3, 4, 5, 6, 7, 8] 8 =
       Some \<lparr> ds_Storage = Some st', ds_Capacity = 96, ds_BytesUsed = 60 \<rparr>" "length st = 96"
    "dh_Capacity (AppleAgxDmaShadowHeader st) = 96" by (rule demo_appended) (rule that)
  have f: "ds_Storage demo_shadow = Some st" "ds_Capacity demo_shadow = 96" unfolding d(1) by simp_all
  have "dma_memory st' 60 19 = Some 4" using shadow_append_extends [OF d(2) f(1)] f(2) d(3,4) by simp
  then show ?thesis using d(2) by simp
qed

text \<open>C35. Sealing freezes the image: after a seal that succeeds the shadow is the sealed one for exactly that
  fence, it shows the same bytes of the DMA buffer, and no append, no patch and no second seal changes it.\<close>

theorem shadow_seal_freezes:
  assumes "AppleAgxDmaShadowSeal shadow fence = Some shadow'" and "ds_Storage shadow = Some st" and "28 \<le> length st"
  shows "\<exists>st'. ds_Storage shadow' = Some st' \<and> ds_BytesUsed shadow' = ds_BytesUsed shadow \<and>
    (\<forall>f. AppleAgxDmaShadowIsSealedForFence st' (ds_BytesUsed shadow) f = (f = fence)) \<and>
    dma_memory st' (ds_BytesUsed shadow) = dma_memory st (ds_BytesUsed shadow) \<and>
    AppleAgxDmaShadowAppend shadow' offset bytes n = None \<and>
    AppleAgxDmaShadowPatchU64 st' (ds_BytesUsed shadow) patchOffset v = Some (False, st') \<and>
    AppleAgxDmaShadowSeal shadow' fence' = None"
proof -
  obtain st' ds where s: "shadow' = shadow\<lparr> ds_Storage := Some st' \<rparr>" "length st' = length st"
    "shadow_ok st (ds_BytesUsed shadow) ds" "shadow_ok st' (ds_BytesUsed shadow) ds"
    "dh_State (AppleAgxDmaShadowHeader st') = SHADOW_SEALED" "dh_Fence (AppleAgxDmaShadowHeader st') = fence"
    "dma_memory st' (ds_BytesUsed shadow) = dma_memory st (ds_BytesUsed shadow)" by (rule seal_cases [OF assms])
  have fence: "fence \<noteq> 0" using assms(1,2) by (auto simp: AppleAgxDmaShadowSeal_def split: if_splits)
  have valid: "AppleAgxDmaShadowValidate st' (ds_BytesUsed shadow)" using s(4) Validate_iff by blast
  have "AppleAgxDmaShadowAppend shadow' offset bytes n = None" and "AppleAgxDmaShadowSeal shadow' fence' = None"
    unfolding s(1) AppleAgxDmaShadowAppend_def AppleAgxDmaShadowSeal_def using s(5)
    by (simp_all add: Let_def split: option.split)
  moreover have "AppleAgxDmaShadowPatchU64 st' (ds_BytesUsed shadow) patchOffset v = Some (False, st')"
    using s(5) by (simp add: AppleAgxDmaShadowPatchU64_def)
  moreover have "AppleAgxDmaShadowIsSealedForFence st' (ds_BytesUsed shadow) f = (f = fence)" for f
    using valid s(5,6) fence by (auto simp: AppleAgxDmaShadowIsSealedForFence_def)
  ultimately show ?thesis using s(1,7) by (intro exI [of _ st'] conjI allI) simp_all
qed

lemma demo_sealed: "\<exists>st shadow'. ds_Storage demo_shadow = Some st \<and> length st = 96 \<and> ds_BytesUsed demo_shadow = 28 \<and>
  AppleAgxDmaShadowSeal demo_shadow 7 = Some shadow'"
proof -
  have c: "28 \<le> (96 :: u32)" "unat (96 :: u32) \<le> length (replicate 96 (0 :: u8))" by simp_all
  obtain st where init: "demo_shadow = \<lparr> ds_Storage = Some st, ds_Capacity = 96, ds_BytesUsed = 28 \<rparr>"
    "length st = length (replicate 96 (0 :: u8))" "shadow_ok st 28 []"
    "AppleAgxDmaShadowHeader st = \<lparr> dh_Magic = SHADOW_MAGIC, dh_Version = SHADOW_VERSION, dh_BytesUsed = 28,
       dh_Capacity = 96, dh_RecordCount = 0, dh_State = SHADOW_WRITABLE, dh_Fence = 0 \<rparr>"
    by (rule initialize_ok [OF c, folded demo_shadow_def])
  then have "AppleAgxDmaShadowValidate st 28" "dh_State (AppleAgxDmaShadowHeader st) = SHADOW_WRITABLE" "length st = 96"
    using Validate_iff by auto
  then show ?thesis unfolding init(1) by (simp add: AppleAgxDmaShadowSeal_def Let_def)
qed

theorem shadow_seal_freezes_witness:
  "\<exists>shadow' st'. AppleAgxDmaShadowSeal demo_shadow 7 = Some shadow' \<and> ds_Storage shadow' = Some st' \<and>
    AppleAgxDmaShadowIsSealedForFence st' 28 7 \<and> AppleAgxDmaShadowAppend shadow' 0 [1] 1 = None"
proof -
  obtain st shadow' where d: "ds_Storage demo_shadow = Some st" "length st = 96" "ds_BytesUsed demo_shadow = 28"
    "AppleAgxDmaShadowSeal demo_shadow 7 = Some shadow'" using demo_sealed by blast
  then have "28 \<le> length st" by simp
  from shadow_seal_freezes [OF d(4,1) this, of 0 "[1]" 1 0 0 0] d(3,4) show ?thesis by auto
qed

text \<open>C14. The copy of a submission is exact and all or nothing: it returns, for any storage; when it reports
  success it has copied the interval and nothing else, byte for byte what the shadow holds for it, and
  every byte of the interval is held; when it refuses it has written nothing.\<close>

theorem shadow_copy_exact:
  assumes "unat bytesUsed \<le> length st" and "unat capacity \<le> length destination"
  shows "\<exists>ok n destination'. AppleAgxDmaShadowCopySubmission st bytesUsed start end' destination capacity =
      Some (ok, n, destination') \<and>
    (if ok then start < end' \<and> n = end' - start \<and> n \<le> capacity \<and> length destination' = length destination \<and>
       (\<forall>i. unat start \<le> i \<and> i < unat end' \<longrightarrow> dma_memory st bytesUsed i = Some (destination' ! (i - unat start))) \<and>
       (\<forall>j. unat n \<le> j \<longrightarrow> destination' ! j = destination ! j)
     else n = 0 \<and> destination' = destination)"
proof (cases "start < end' \<and> AppleAgxDmaShadowValidate st bytesUsed \<and> end' - start \<le> capacity")
  case False
  then show ?thesis by (auto simp: AppleAgxDmaShadowCopySubmission_def not_less not_le)
next
  case True
  then obtain ds where ok: "shadow_ok st bytesUsed ds" and s: "start < end'" "end' - start \<le> capacity"
    and valid: "AppleAgxDmaShadowValidate st bytesUsed" using Validate_iff by blast
  then have ch: "chain st (unat bytesUsed) 28 ds" by (simp add: shadow_ok_def)
  obtain b where covers: "covers_loop st bytesUsed end' start = Some b" using covers_loop_ends [OF ch] by blast
  have n: "unat (end' - start) = unat end' - unat start" using s(1) by (simp add: unat_sub word_less_nat_alt word_le_nat_alt)
  show ?thesis
  proof (cases b)
    case False
    then have "AppleAgxDmaShadowCopySubmission st bytesUsed start end' destination capacity = Some (False, 0, destination)"
      using s valid covers by (simp add: AppleAgxDmaShadowCopySubmission_def AppleAgxDmaShadowCoversSubmission_def)
    then show ?thesis by (intro exI [of _ False] exI [of _ 0] exI [of _ destination]) simp
  next
    case True
    have "unat end' - unat start \<le> unat capacity" using s(2) n by (simp add: word_le_nat_alt)
    then have fit: "unat (0 :: u32) + (unat end' - unat start) \<le> length destination"
      "unat (0 :: u32) + (unat end' - unat start) < 2 ^ 32"
      using assms(2) unat_less_power [of "end' - start"] n by auto
    have "covers_loop st bytesUsed end' start = Some True" using covers True by simp
    from copy_loop_covers [OF ok assms(1) this fit] obtain d' where
      d': "copy_loop st bytesUsed end' start 0 destination = Some (0 + (end' - start), d')" "length d' = length destination"
      "\<forall>i. unat start \<le> i \<and> i < unat end' \<longrightarrow> dma_memory st bytesUsed i = Some (d' ! (unat (0 :: u32) + (i - unat start)))"
      "\<forall>j. j < unat (0 :: u32) \<or> unat (0 :: u32) + (unat end' - unat start) \<le> j \<longrightarrow> d' ! j = destination ! j" by blast
    have "AppleAgxDmaShadowCopySubmission st bytesUsed start end' destination capacity = Some (True, end' - start, d')"
      using s valid covers True d'(1)
      by (simp add: AppleAgxDmaShadowCopySubmission_def AppleAgxDmaShadowCoversSubmission_def not_le)
    then show ?thesis using s d' n by (intro exI [of _ True] exI [of _ "end' - start"] exI [of _ d']) simp
  qed
qed

theorem shadow_copy_exact_witness:
  "\<exists>st d'. AppleAgxDmaShadowCopySubmission st 60 16 24 (replicate 9 0) 9 = Some (True, 8, d') \<and>
    dma_memory st 60 17 = Some (d' ! 1) \<and> d' ! 8 = 0"
proof -
  obtain st' where d: "length st' = 96" "shadow_ok st' 60 [28]" "off st' 28 = 16" "len st' 28 = 8"
    by (rule demo_appended) (rule that)
  have w: "dr_DmaOffset (shadow_record st' 28) = 16" "dr_DmaBytes (shadow_record st' 28) = 8"
    using d(3,4) by (simp_all add: word_unat_eq_iff)
  have ch: "chain st' (unat (60 :: u32)) 28 [28]" using d(2) by (simp add: shadow_ok_def)
  have "covers_loop st' 60 24 16 = Some True"
    by (subst covers_loop.simps, subst covers_loop.simps) (simp add: at_offset_chain [OF ch] w)
  moreover have "AppleAgxDmaShadowValidate st' 60" using d(2) Validate_iff by blast
  moreover have "copy_loop st' 60 24 16 0 (replicate 9 0) \<noteq> None"
    by (subst copy_loop.simps, subst copy_loop.simps) (simp add: at_offset_chain [OF ch] w)
  ultimately obtain n d' where run: "AppleAgxDmaShadowCopySubmission st' 60 16 24 (replicate 9 0) 9 = Some (True, n, d')"
    by (auto simp: AppleAgxDmaShadowCopySubmission_def AppleAgxDmaShadowCoversSubmission_def)
  have size: "unat (60 :: u32) \<le> length st'" "unat (9 :: u32) \<le> length (replicate 9 (0 :: u8))" using d(1) by simp_all
  from shadow_copy_exact [OF size, of 16 24] run show ?thesis by (intro exI [of _ st'] exI [of _ d']) auto
qed

text \<open>C36. A patch writes eight bytes and nothing else: one that succeeds leaves a shadow that validates, whose
  image differs exactly in the eight bytes at the offset, which are the value's in little-endian order, and
  the comparison with that value then says yes.\<close>

theorem shadow_patch_reads_back:
  assumes "AppleAgxDmaShadowPatchU64 st bytesUsed offset v = Some (True, st')" and "unat bytesUsed \<le> length st"
  shows "AppleAgxDmaShadowValidate st' bytesUsed \<and> length st' = length st \<and>
    (\<forall>i. dma_memory st' bytesUsed i = (if unat offset \<le> i \<and> i < unat offset + 8
       then Some (bytes64 v ! (i - unat offset)) else dma_memory st bytesUsed i)) \<and>
    AppleAgxDmaShadowMatchesWritableU64 st' bytesUsed offset v = Some True"
  using patch_result [OF assms] by blast

theorem shadow_patch_reads_back_witness:
  "\<exists>st st'. AppleAgxDmaShadowPatchU64 st 60 16 0x0102 = Some (True, st') \<and>
    AppleAgxDmaShadowMatchesWritableU64 st' 60 16 0x0102 = Some True \<and> dma_memory st' 60 16 = Some 2"
proof -
  obtain st where d: "length st = 96" "shadow_ok st 60 [28]" "off st 28 = 16" "len st 28 = 8"
    "dh_State (AppleAgxDmaShadowHeader st) = SHADOW_WRITABLE" by (rule demo_appended) (rule that)
  have w: "dr_DmaOffset (shadow_record st 28) = 16" "dr_DmaBytes (shadow_record st 28) = 8"
    using d(3,4) by (simp_all add: word_unat_eq_iff)
  have ch: "chain st (unat (60 :: u32)) 28 [28]" using d(2) by (simp add: shadow_ok_def)
  have "AppleAgxDmaShadowValidate st 60" using d(2) Validate_iff by blast
  then obtain st' where run: "AppleAgxDmaShadowPatchU64 st 60 16 0x0102 = Some (True, st')"
    using d(5) scan_chain [OF ch] by (simp add: AppleAgxDmaShadowPatchU64_def covers_u64_def w)
  have size: "unat (60 :: u32) \<le> length st" using d(1) by simp
  have "bytes64 0x0102 ! 0 = 2" by (simp add: bytes64_def)
  with shadow_patch_reads_back [OF run size] have "AppleAgxDmaShadowMatchesWritableU64 st' 60 16 0x0102 = Some True"
    "dma_memory st' 60 16 = Some 2" by simp_all
  with run show ?thesis by blast
qed

end
