(* ===== verification/Rtkit.thy ===== *)
theory Rtkit
  imports Prelude Interfaces
begin

text \<open>
  The management protocol of the graphics coprocessor: the message codec of
  \<^verbatim>\<open>drivers/apple-agx/shared/src/apple_agx_rtkit.c\<close> and the boot handshake of
  \<^verbatim>\<open>drivers/apple-agx/shared/src/apple_agx_rtkit_boot.c\<close>.  The message types are the numbers of the C
  enumeration, since a decoder stores whatever number a message carries before it refuses it; a
  decoder returns its verdict and the structure it leaves.  The count of an output is a natural
  number: it is shown never to pass the eight messages of the array.
\<close>

section \<open>The codec\<close>

abbreviation AppleAgxRtkitManagementHello :: u32 where "AppleAgxRtkitManagementHello \<equiv> 1"
abbreviation AppleAgxRtkitManagementHelloAck :: u32 where "AppleAgxRtkitManagementHelloAck \<equiv> 2"
abbreviation AppleAgxRtkitManagementPing :: u32 where "AppleAgxRtkitManagementPing \<equiv> 3"
abbreviation AppleAgxRtkitManagementPong :: u32 where "AppleAgxRtkitManagementPong \<equiv> 4"
abbreviation AppleAgxRtkitManagementStartEndpoint :: u32 where "AppleAgxRtkitManagementStartEndpoint \<equiv> 5"
abbreviation AppleAgxRtkitManagementSetIopPower :: u32 where "AppleAgxRtkitManagementSetIopPower \<equiv> 6"
abbreviation AppleAgxRtkitManagementIopPowerAck :: u32 where "AppleAgxRtkitManagementIopPowerAck \<equiv> 7"
abbreviation AppleAgxRtkitManagementEndpointMap :: u32 where "AppleAgxRtkitManagementEndpointMap \<equiv> 8"
abbreviation AppleAgxRtkitManagementSetApPower :: u32 where "AppleAgxRtkitManagementSetApPower \<equiv> 0x0b"

abbreviation RTKIT_INVALID_MESSAGE :: u64 where "RTKIT_INVALID_MESSAGE \<equiv> NOT 0"
abbreviation RTKIT_MANAGEMENT_TYPE_MASK :: u64 where "RTKIT_MANAGEMENT_TYPE_MASK \<equiv> push_bit 52 0xff"

record APPLE_AGX_RTKIT_MANAGEMENT =
  mg_Type :: u32
  mg_State :: u32
  mg_Endpoint :: u32
  mg_Flag :: u32
  mg_MinVersion :: u32
  mg_MaxVersion :: u32
  mg_Last :: u32
  mg_Base :: u32
  mg_Bitmap :: u32

definition AppleAgxRtkitManagementType :: "u32 \<Rightarrow> u64" where
  "AppleAgxRtkitManagementType t = push_bit 52 (ucast t)"

definition AppleAgxRtkitHelloAck :: "u32 \<Rightarrow> u32 \<Rightarrow> u64" where
  "AppleAgxRtkitHelloAck minVersion maxVersion =
     (if minVersion > maxVersion \<or> maxVersion > 0xffff then RTKIT_INVALID_MESSAGE
      else AppleAgxRtkitManagementType AppleAgxRtkitManagementHelloAck OR
           push_bit 16 (ucast maxVersion) OR ucast minVersion)"

definition AppleAgxRtkitEndpointMapAck :: "u32 \<Rightarrow> u32 \<Rightarrow> u32 \<Rightarrow> u64" where
  "AppleAgxRtkitEndpointMapAck base last' more' =
     (if base > 7 \<or> last' > 1 \<or> more' > 1 then RTKIT_INVALID_MESSAGE
      else AppleAgxRtkitManagementType AppleAgxRtkitManagementEndpointMap OR
           push_bit 51 (ucast last') OR push_bit 32 (ucast base) OR ucast more')"

definition AppleAgxRtkitClearManagement :: APPLE_AGX_RTKIT_MANAGEMENT where
  "AppleAgxRtkitClearManagement = \<lparr> mg_Type = 0, mg_State = 0, mg_Endpoint = 0, mg_Flag = 0,
     mg_MinVersion = 0, mg_MaxVersion = 0, mg_Last = 0, mg_Base = 0, mg_Bitmap = 0 \<rparr>"

definition AppleAgxRtkitSetIopPower :: "u32 \<Rightarrow> u64" where
  "AppleAgxRtkitSetIopPower state =
     (if ucast state > (0xffff :: u64) then RTKIT_INVALID_MESSAGE
      else AppleAgxRtkitManagementType AppleAgxRtkitManagementSetIopPower OR ucast state)"

definition AppleAgxRtkitSetApPower :: "u32 \<Rightarrow> u64" where
  "AppleAgxRtkitSetApPower state =
     (if ucast state > (0xffff :: u64) then RTKIT_INVALID_MESSAGE
      else AppleAgxRtkitManagementType AppleAgxRtkitManagementSetApPower OR ucast state)"

definition AppleAgxRtkitStartEndpoint :: "u32 \<Rightarrow> u32 \<Rightarrow> u64" where
  "AppleAgxRtkitStartEndpoint endpoint flag =
     (if ucast endpoint > (0xff :: u64) \<or> ucast flag > (0x3 :: u64) then RTKIT_INVALID_MESSAGE
      else AppleAgxRtkitManagementType AppleAgxRtkitManagementStartEndpoint OR
           push_bit 32 (ucast endpoint) OR ucast flag)"

definition AppleAgxRtkitStopEndpoint :: "u32 \<Rightarrow> u64" where
  "AppleAgxRtkitStopEndpoint endpoint = AppleAgxRtkitStartEndpoint endpoint 1"

definition AppleAgxRtkitPing :: u64 where
  "AppleAgxRtkitPing = AppleAgxRtkitManagementType AppleAgxRtkitManagementPing"

definition AppleAgxRtkitDoorbell :: "u32 \<Rightarrow> u64" where
  "AppleAgxRtkitDoorbell channel =
     (if ucast channel > (0xffff :: u64) then RTKIT_INVALID_MESSAGE
      else push_bit 48 0x83 OR ucast channel)"

definition AppleAgxRtkitInitdata :: "u64 \<Rightarrow> u64" where
  "AppleAgxRtkitInitdata address =
     (if address > push_bit 44 1 - 1 then RTKIT_INVALID_MESSAGE
      else push_bit 48 0x81 OR address)"

definition AppleAgxRtkitDecodeManagement :: "u64 \<Rightarrow> bool \<times> APPLE_AGX_RTKIT_MANAGEMENT" where
  "AppleAgxRtkitDecodeManagement message =
     (let type' = ucast (drop_bit 52 (message AND RTKIT_MANAGEMENT_TYPE_MASK)) :: u32;
          decoded = AppleAgxRtkitClearManagement\<lparr> mg_Type := type' \<rparr>
      in if type' = AppleAgxRtkitManagementHello \<or> type' = AppleAgxRtkitManagementHelloAck
         then (if message AND NOT (RTKIT_MANAGEMENT_TYPE_MASK OR 0xffffffff) \<noteq> 0 then (False, decoded)
               else (True, decoded\<lparr> mg_MinVersion := ucast (message AND 0xffff),
                                    mg_MaxVersion := ucast (drop_bit 16 message AND 0xffff) \<rparr>))
         else if type' = AppleAgxRtkitManagementPing \<or> type' = AppleAgxRtkitManagementPong
         then (message = AppleAgxRtkitManagementType type', decoded)
         else if type' = AppleAgxRtkitManagementStartEndpoint
         then (if message AND NOT (RTKIT_MANAGEMENT_TYPE_MASK OR push_bit 32 0xff OR 0x3) \<noteq> 0
               then (False, decoded)
               else (True, decoded\<lparr> mg_Endpoint := ucast (drop_bit 32 message AND 0xff),
                                    mg_Flag := ucast (message AND 0x3) \<rparr>))
         else if type' = AppleAgxRtkitManagementSetIopPower \<or>
                 type' = AppleAgxRtkitManagementIopPowerAck \<or>
                 type' = AppleAgxRtkitManagementSetApPower
         then (if message AND NOT (RTKIT_MANAGEMENT_TYPE_MASK OR 0xffff) \<noteq> 0 then (False, decoded)
               else (True, decoded\<lparr> mg_State := ucast (message AND 0xffff) \<rparr>))
         else if type' = AppleAgxRtkitManagementEndpointMap
         then (if message AND NOT (RTKIT_MANAGEMENT_TYPE_MASK OR push_bit 51 1 OR push_bit 32 0x7 OR
                                   0xffffffff) \<noteq> 0
               then (False, decoded)
               else (True, decoded\<lparr> mg_Last := (if message AND push_bit 51 1 \<noteq> 0 then 1 else 0),
                                    mg_Base := ucast (drop_bit 32 (message AND push_bit 32 0x7)),
                                    mg_Bitmap := ucast (message AND 0xffffffff) \<rparr>))
         else (False, AppleAgxRtkitClearManagement))"

text \<open>The endpoint is stored only when the selector is one.\<close>

definition AppleAgxRtkitDecodeEndpoint :: "u64 \<Rightarrow> u32 option" where
  "AppleAgxRtkitDecodeEndpoint selector =
     (if selector AND NOT 0xff \<noteq> 0 then None else Some (ucast selector))"

section \<open>The boot handshake\<close>

datatype APPLE_AGX_RTKIT_BOOT_PHASE =
    AppleAgxRtkitBootOff | AppleAgxRtkitBootAwaitingHello | AppleAgxRtkitBootAwaitingEndpointMap
  | AppleAgxRtkitBootAwaitingPower | AppleAgxRtkitBootReady | AppleAgxRtkitBootFailed

datatype APPLE_AGX_RTKIT_BOOT_RESULT =
    AppleAgxRtkitBootResultOk | AppleAgxRtkitBootResultInvalidArgument
  | AppleAgxRtkitBootResultInvalidState | AppleAgxRtkitBootResultProtocolViolation

record APPLE_AGX_RTKIT_BOOT_OUTPUT =
  bo_Count :: nat
  bo_Message :: "u64 list"

record APPLE_AGX_RTKIT_BOOT =
  rb_Phase :: APPLE_AGX_RTKIT_BOOT_PHASE
  rb_NegotiatedVersion :: u32
  rb_EndpointMap :: "u32 list"
  rb_Begun :: bool
  rb_HelloSeen :: bool
  rb_EndpointMapComplete :: bool
  rb_IopPowerReady :: bool
  rb_ApPowerRequested :: bool
  rb_ApPowerReady :: bool

definition AppleAgxRtkitBootClearOutput :: APPLE_AGX_RTKIT_BOOT_OUTPUT where
  "AppleAgxRtkitBootClearOutput = \<lparr> bo_Count = 0, bo_Message = replicate 8 0 \<rparr>"

definition AppleAgxRtkitBootFail ::
  "APPLE_AGX_RTKIT_BOOT \<Rightarrow> APPLE_AGX_RTKIT_BOOT_RESULT \<times> APPLE_AGX_RTKIT_BOOT" where
  "AppleAgxRtkitBootFail boot =
     (AppleAgxRtkitBootResultProtocolViolation, boot\<lparr> rb_Phase := AppleAgxRtkitBootFailed \<rparr>)"

definition AppleAgxRtkitBootUpdatePhase :: "APPLE_AGX_RTKIT_BOOT \<Rightarrow> APPLE_AGX_RTKIT_BOOT" where
  "AppleAgxRtkitBootUpdatePhase boot =
     (if \<not> rb_HelloSeen boot then boot\<lparr> rb_Phase := AppleAgxRtkitBootAwaitingHello \<rparr>
      else if \<not> rb_EndpointMapComplete boot then boot\<lparr> rb_Phase := AppleAgxRtkitBootAwaitingEndpointMap \<rparr>
      else if \<not> rb_IopPowerReady boot \<or> \<not> rb_ApPowerReady boot
      then boot\<lparr> rb_Phase := AppleAgxRtkitBootAwaitingPower \<rparr>
      else boot\<lparr> rb_Phase := AppleAgxRtkitBootReady \<rparr>)"

definition AppleAgxRtkitBootInitialize :: APPLE_AGX_RTKIT_BOOT where
  "AppleAgxRtkitBootInitialize = \<lparr> rb_Phase = AppleAgxRtkitBootAwaitingHello,
     rb_NegotiatedVersion = 0, rb_EndpointMap = replicate 8 0, rb_Begun = False, rb_HelloSeen = False,
     rb_EndpointMapComplete = False, rb_IopPowerReady = False, rb_ApPowerRequested = False,
     rb_ApPowerReady = False \<rparr>"

definition AppleAgxRtkitBootBegin ::
  "APPLE_AGX_RTKIT_BOOT
   \<Rightarrow> APPLE_AGX_RTKIT_BOOT_RESULT \<times> APPLE_AGX_RTKIT_BOOT \<times> APPLE_AGX_RTKIT_BOOT_OUTPUT" where
  "AppleAgxRtkitBootBegin boot =
     (if rb_Begun boot \<or> rb_Phase boot \<noteq> AppleAgxRtkitBootAwaitingHello
      then (AppleAgxRtkitBootResultInvalidState, boot, AppleAgxRtkitBootClearOutput)
      else (AppleAgxRtkitBootResultOk, boot\<lparr> rb_Begun := True \<rparr>,
            \<lparr> bo_Count = 1, bo_Message = (replicate 8 0)[0 := AppleAgxRtkitSetIopPower 0x220] \<rparr>))"

text \<open>One more message of the output.\<close>

definition put_message :: "u64 \<Rightarrow> APPLE_AGX_RTKIT_BOOT_OUTPUT \<Rightarrow> APPLE_AGX_RTKIT_BOOT_OUTPUT" where
  "put_message m out =
     out\<lparr> bo_Message := (bo_Message out)[bo_Count out := m], bo_Count := bo_Count out + 1 \<rparr>"

text \<open>The starts of the endpoints the coprocessor advertises and the driver supports.\<close>

definition start_endpoints :: "u32 \<Rightarrow> APPLE_AGX_RTKIT_BOOT_OUTPUT \<Rightarrow> APPLE_AGX_RTKIT_BOOT_OUTPUT" where
  "start_endpoints map0 out =
     fold (\<lambda>endpoint out. if map0 AND 0x51e AND push_bit endpoint 1 \<noteq> 0
                          then put_message (AppleAgxRtkitStartEndpoint (of_nat endpoint) 2) out else out)
       [1..<16] out"

definition AppleAgxRtkitBootHandle ::
  "APPLE_AGX_RTKIT_BOOT \<Rightarrow> u64 \<Rightarrow> u32
   \<Rightarrow> APPLE_AGX_RTKIT_BOOT_RESULT \<times> APPLE_AGX_RTKIT_BOOT \<times> APPLE_AGX_RTKIT_BOOT_OUTPUT" where
  "AppleAgxRtkitBootHandle boot payload endpoint =
     (let output = AppleAgxRtkitBootClearOutput;
          failed = (\<lambda>boot output. case AppleAgxRtkitBootFail boot of (r, b) \<Rightarrow> (r, b, output));
          passed = (\<lambda>boot output. (AppleAgxRtkitBootResultOk, AppleAgxRtkitBootUpdatePhase boot, output));
          (valid, message) = AppleAgxRtkitDecodeManagement payload
      in if \<not> rb_Begun boot \<or> rb_Phase boot = AppleAgxRtkitBootReady \<or>
            rb_Phase boot = AppleAgxRtkitBootFailed
         then (AppleAgxRtkitBootResultInvalidState, boot, output)
         else if endpoint \<noteq> 0 \<or> \<not> valid then failed boot output
         else if mg_Type message = AppleAgxRtkitManagementHello
         then (if rb_HelloSeen boot \<or> mg_MinVersion message > mg_MaxVersion message
               then failed boot output
               else let version = mg_MaxVersion message;
                        ack = AppleAgxRtkitHelloAck version version;
                        output = output\<lparr> bo_Message := (bo_Message output)[0 := ack] \<rparr>
                    in if ack = RTKIT_INVALID_MESSAGE then failed boot output
                       else passed (boot\<lparr> rb_NegotiatedVersion := version, rb_HelloSeen := True \<rparr>)
                              (output\<lparr> bo_Count := 1 \<rparr>))
         else if mg_Type message = AppleAgxRtkitManagementEndpointMap
         then (if \<not> rb_HelloSeen boot \<or> rb_EndpointMapComplete boot then failed boot output
               else let boot = boot\<lparr> rb_EndpointMap :=
                                (rb_EndpointMap boot)[unat (mg_Base message) := mg_Bitmap message] \<rparr>;
                        output = put_message (AppleAgxRtkitEndpointMapAck (mg_Base message)
                                   (mg_Last message) (if mg_Last message \<noteq> 0 then 0 else 1)) output
                    in if mg_Last message \<noteq> 0
                       then passed (boot\<lparr> rb_EndpointMapComplete := True, rb_ApPowerRequested := True \<rparr>)
                              (put_message (AppleAgxRtkitSetApPower 0x20)
                                 (start_endpoints (rb_EndpointMap boot ! 0) output))
                       else passed boot output)
         else if mg_Type message = AppleAgxRtkitManagementIopPowerAck
         then (if rb_IopPowerReady boot \<or> mg_State message \<noteq> 0x20 then failed boot output
               else passed (boot\<lparr> rb_IopPowerReady := True \<rparr>) output)
         else if mg_Type message = AppleAgxRtkitManagementSetApPower
         then (if \<not> rb_ApPowerRequested boot \<or> rb_ApPowerReady boot \<or> mg_State message \<noteq> 0x20
               then failed boot output
               else passed (boot\<lparr> rb_ApPowerReady := True \<rparr>) output)
         else failed boot output)"

definition AppleAgxRtkitBootIsReady :: "APPLE_AGX_RTKIT_BOOT \<Rightarrow> bool" where
  "AppleAgxRtkitBootIsReady boot \<longleftrightarrow> rb_Phase boot = AppleAgxRtkitBootReady"

section \<open>The codec is exact\<close>

text \<open>The management messages, and the one word that stands for each.\<close>

definition valid_management :: "APPLE_AGX_RTKIT_MANAGEMENT \<Rightarrow> bool" where
  "valid_management d \<longleftrightarrow>
     (let t = mg_Type d; z = AppleAgxRtkitClearManagement\<lparr> mg_Type := t \<rparr>
      in (t = 1 \<or> t = 2) \<and> mg_MinVersion d \<le> 0xffff \<and> mg_MaxVersion d \<le> 0xffff \<and>
         d = z\<lparr> mg_MinVersion := mg_MinVersion d, mg_MaxVersion := mg_MaxVersion d \<rparr> \<or>
         (t = 3 \<or> t = 4) \<and> d = z \<or>
         t = 5 \<and> mg_Endpoint d \<le> 0xff \<and> mg_Flag d \<le> 3 \<and>
         d = z\<lparr> mg_Endpoint := mg_Endpoint d, mg_Flag := mg_Flag d \<rparr> \<or>
         (t = 6 \<or> t = 7 \<or> t = 11) \<and> mg_State d \<le> 0xffff \<and> d = z\<lparr> mg_State := mg_State d \<rparr> \<or>
         t = 8 \<and> mg_Last d \<le> 1 \<and> mg_Base d \<le> 7 \<and>
         d = z\<lparr> mg_Last := mg_Last d, mg_Base := mg_Base d, mg_Bitmap := mg_Bitmap d \<rparr>)"

definition management_word :: "APPLE_AGX_RTKIT_MANAGEMENT \<Rightarrow> u64" where
  "management_word d =
     push_bit 52 (ucast (mg_Type d)) OR ucast (mg_MinVersion d) OR push_bit 16 (ucast (mg_MaxVersion d)) OR
     push_bit 32 (ucast (mg_Endpoint d)) OR ucast (mg_Flag d) OR ucast (mg_State d) OR
     push_bit 51 (ucast (mg_Last d)) OR push_bit 32 (ucast (mg_Base d)) OR ucast (mg_Bitmap d)"

lemma low_masks:
  "(0xff :: u64) = mask 8" "(0xffff :: u64) = mask 16" "(0xffffffff :: u64) = mask 32" "(0x3 :: u64) = mask 2"
  "(0x7 :: u64) = mask 3"
  by (simp_all add: mask_eq_exp_minus_1)

lemma low_bits:
  assumes "unat w < 2 ^ k" and "k \<le> n"
  shows "\<not> bit (w :: 'a::len word) n"
proof
  assume "bit w n"
  then have "bit (unat w) n" by (simp add: bit_unsigned_iff bit_imp_possible_bit)
  moreover have "unat w < 2 ^ n" using assms less_le_trans [OF _ power_increasing] by fastforce
  ultimately show False by (simp add: bit_iff_odd)
qed

lemma outside_iff: "m AND NOT a = 0 \<longleftrightarrow> (\<forall>n<64. bit m n \<longrightarrow> bit a n)" for m a :: u64
proof -
  have "m AND NOT a = 0 \<longleftrightarrow> (\<forall>n<64. \<not> bit (m AND NOT a) n)" by (auto intro: bit_word_eqI)
  then show ?thesis by (auto simp: bit_simps)
qed

lemma type_field:
  fixes m :: u64
  shows "push_bit 52 (ucast (ucast (drop_bit 52 (m AND push_bit 52 (mask 8))) :: u32)) = m AND push_bit 52 (mask 8)"
  by (rule bit_word_eqI) (auto simp: bit_simps)

lemma type_of_word:
  fixes low :: u64
  assumes "unat t < 2 ^ 8" and "\<forall>n\<ge>52. \<not> bit low n"
  shows "ucast (drop_bit 52 ((push_bit 52 (ucast t) OR low) AND push_bit 52 (mask 8))) = (t :: u32)"
proof (rule bit_word_eqI)
  fix n assume "n < LENGTH(32)"
  then show "bit (ucast (drop_bit 52 ((push_bit 52 (ucast t) OR low) AND push_bit 52 (mask 8))) :: u32) n = bit t n"
    using assms(2) low_bits [OF assms(1), of n] by (cases "n < 8") (auto simp: bit_simps)
qed

text \<open>A word within the fields of its type is the sum of the fields.\<close>

lemma hello_fields:
  fixes m :: u64
  assumes "m AND NOT (push_bit 52 (mask 8) OR mask 32) = 0"
  shows "(m AND push_bit 52 (mask 8)) OR ucast (ucast (m AND mask 16) :: u32) OR
    push_bit 16 (ucast (ucast (drop_bit 16 m AND mask 16) :: u32)) = m"
proof (rule bit_word_eqI)
  fix n assume n: "n < LENGTH(64)"
  with assms have "bit m n \<longrightarrow> bit (push_bit 52 (mask 8) OR mask 32 :: u64) n" unfolding outside_iff by simp
  with n show "bit ((m AND push_bit 52 (mask 8)) OR ucast (ucast (m AND mask 16) :: u32) OR
    push_bit 16 (ucast (ucast (drop_bit 16 m AND mask 16) :: u32))) n = bit m n"
    by (cases "n < 16"; cases "n < 32") (auto simp: bit_simps)
qed

lemma endpoint_fields:
  fixes m :: u64
  assumes "m AND NOT (push_bit 52 (mask 8) OR push_bit 32 (mask 8) OR mask 2) = 0"
  shows "(m AND push_bit 52 (mask 8)) OR push_bit 32 (ucast (ucast (drop_bit 32 m AND mask 8) :: u32)) OR
    ucast (ucast (m AND mask 2) :: u32) = m"
proof (rule bit_word_eqI)
  fix n assume n: "n < LENGTH(64)"
  with assms have "bit m n \<longrightarrow> bit (push_bit 52 (mask 8) OR push_bit 32 (mask 8) OR mask 2 :: u64) n" unfolding outside_iff by simp
  with n show "bit ((m AND push_bit 52 (mask 8)) OR push_bit 32 (ucast (ucast (drop_bit 32 m AND mask 8) :: u32)) OR
    ucast (ucast (m AND mask 2) :: u32)) n = bit m n"
    by (cases "n < 2"; cases "n < 32"; cases "n < 40") (auto simp: bit_simps)
qed

lemma state_fields:
  fixes m :: u64
  assumes "m AND NOT (push_bit 52 (mask 8) OR mask 16) = 0"
  shows "(m AND push_bit 52 (mask 8)) OR ucast (ucast (m AND mask 16) :: u32) = m"
proof (rule bit_word_eqI)
  fix n assume n: "n < LENGTH(64)"
  with assms have "bit m n \<longrightarrow> bit (push_bit 52 (mask 8) OR mask 16 :: u64) n" unfolding outside_iff by simp
  with n show "bit ((m AND push_bit 52 (mask 8)) OR ucast (ucast (m AND mask 16) :: u32)) n = bit m n"
    by (cases "n < 16") (auto simp: bit_simps)
qed

lemma bit_51: "bit (2251799813685248 :: int) n \<longleftrightarrow> n = 51"
proof -
  have "(2251799813685248 :: int) = 2 ^ 51" by simp
  then show ?thesis by (simp only: bit_exp_iff) auto
qed

lemma last_bit: "m AND push_bit 51 1 \<noteq> 0 \<longleftrightarrow> bit m 51" for m :: u64
proof -
  have "m AND push_bit 51 1 = (if bit m 51 then push_bit 51 1 else 0)"
    by (rule bit_word_eqI) (auto simp: bit_simps bit_51)
  then show ?thesis by simp
qed

lemma map_fields:
  fixes m :: u64
  assumes "m AND NOT (push_bit 52 (mask 8) OR push_bit 51 1 OR push_bit 32 (mask 3) OR mask 32) = 0"
  shows "(m AND push_bit 52 (mask 8)) OR push_bit 51 (of_bool (bit m 51)) OR
    push_bit 32 (ucast (ucast (drop_bit 32 (m AND push_bit 32 (mask 3))) :: u32)) OR
    ucast (ucast (m AND mask 32) :: u32) = m"
proof (rule bit_word_eqI)
  fix n assume n: "n < LENGTH(64)"
  with assms have "bit m n \<longrightarrow> bit (push_bit 52 (mask 8) OR push_bit 51 1 OR push_bit 32 (mask 3) OR mask 32 :: u64) n" unfolding outside_iff by simp
  with n show "bit ((m AND push_bit 52 (mask 8)) OR push_bit 51 (of_bool (bit m 51)) OR
    push_bit 32 (ucast (ucast (drop_bit 32 (m AND push_bit 32 (mask 3))) :: u32)) OR
    ucast (ucast (m AND mask 32) :: u32)) n = bit m n"
    by (cases "n = 51"; cases "n < 32"; cases "n < 35"; cases "n < 52") (auto simp: bit_simps bit_51)
qed

text \<open>The bounds of the fields.\<close>

lemma field_bound: "unat (ucast (w AND mask k :: u64) :: u32) < 2 ^ k"
proof -
  have "unat (w AND mask k) < 2 ^ k" by (simp add: take_bit_eq_mask [symmetric] unsigned_take_bit_eq)
  moreover have "unat (ucast (w AND mask k) :: u32) \<le> unat (w AND mask k)"
    by (simp add: unsigned_ucast_eq)
  ultimately show ?thesis by simp
qed

text \<open>The decoder accepts a word exactly when it stands for a management message, and returns that
  message.\<close>

lemma cleared_fields [simp]:
  "mg_Type AppleAgxRtkitClearManagement = 0" "mg_State AppleAgxRtkitClearManagement = 0"
  "mg_Endpoint AppleAgxRtkitClearManagement = 0" "mg_Flag AppleAgxRtkitClearManagement = 0"
  "mg_MinVersion AppleAgxRtkitClearManagement = 0" "mg_MaxVersion AppleAgxRtkitClearManagement = 0"
  "mg_Last AppleAgxRtkitClearManagement = 0" "mg_Base AppleAgxRtkitClearManagement = 0"
  "mg_Bitmap AppleAgxRtkitClearManagement = 0"
  by (simp_all add: AppleAgxRtkitClearManagement_def)

lemma field_bounds:
  "ucast (w AND mask 16 :: u64) \<le> (0xffff :: u32)" "ucast (w AND mask 8 :: u64) \<le> (0xff :: u32)"
  "ucast (w AND mask 2 :: u64) \<le> (3 :: u32)" 
  using field_bound [of w 16] field_bound [of w 8] field_bound [of w 2]
  by (simp_all add: word_le_nat_alt)

lemma base_bound: "ucast (drop_bit 32 (m AND push_bit 32 (mask 3)) :: u64) \<le> (7 :: u32)"
proof -
  have "drop_bit 32 (m AND push_bit 32 (mask 3)) = drop_bit 32 m AND mask 3"
    by (rule bit_word_eqI) (auto simp: bit_simps)
  then show ?thesis using field_bound [of "drop_bit 32 m" 3] by (simp add: word_le_nat_alt)
qed

lemma decode_sound:
  assumes "AppleAgxRtkitDecodeManagement m = (True, d)"
  shows "valid_management d \<and> management_word d = m"
proof -
  let ?t = "ucast (drop_bit 52 (m AND RTKIT_MANAGEMENT_TYPE_MASK)) :: u32"
  let ?z = "AppleAgxRtkitClearManagement\<lparr> mg_Type := ?t \<rparr>"
  have T: "push_bit 52 (ucast ?t) = m AND push_bit 52 (mask 8)" by (simp only: low_masks type_field)
  consider (hello) "?t = 1 \<or> ?t = 2" | (ping) "?t = 3 \<or> ?t = 4" | (start) "?t = 5"
    | (state) "?t = 6 \<or> ?t = 7 \<or> ?t = 11" | (map) "?t = 8"
    using assms unfolding AppleAgxRtkitDecodeManagement_def Let_def by (metis prod.inject)
  then show ?thesis
  proof cases
    case hello
    then have d: "m AND NOT (push_bit 52 (mask 8) OR mask 32) = 0"
      "d = ?z\<lparr> mg_MinVersion := ucast (m AND mask 16), mg_MaxVersion := ucast (drop_bit 16 m AND mask 16) \<rparr>"
      using assms unfolding AppleAgxRtkitDecodeManagement_def Let_def low_masks by (auto split: if_splits)
    have "management_word d = m"
      unfolding d(2) management_word_def using hello_fields [OF d(1)] T by (simp add: or.assoc)
    moreover have "valid_management d"
      using hello field_bounds unfolding d(2) valid_management_def Let_def by simp
    ultimately show ?thesis by blast
  next
    case ping
    then have "m = push_bit 52 (ucast ?t)" "d = ?z"
      using assms unfolding AppleAgxRtkitDecodeManagement_def Let_def AppleAgxRtkitManagementType_def
      by (auto split: if_splits)
    then show ?thesis using ping unfolding valid_management_def Let_def management_word_def by simp
  next
    case start
    then have d: "m AND NOT (push_bit 52 (mask 8) OR push_bit 32 (mask 8) OR mask 2) = 0"
      "d = ?z\<lparr> mg_Endpoint := ucast (drop_bit 32 m AND mask 8), mg_Flag := ucast (m AND mask 2) \<rparr>"
      using assms unfolding AppleAgxRtkitDecodeManagement_def Let_def low_masks by (auto split: if_splits)
    have "management_word d = m"
      unfolding d(2) management_word_def using endpoint_fields [OF d(1)] T by (simp add: or.assoc)
    moreover have "valid_management d"
      using start field_bounds unfolding d(2) valid_management_def Let_def by simp
    ultimately show ?thesis by blast
  next
    case state
    then have d: "m AND NOT (push_bit 52 (mask 8) OR mask 16) = 0" "d = ?z\<lparr> mg_State := ucast (m AND mask 16) \<rparr>"
      using assms unfolding AppleAgxRtkitDecodeManagement_def Let_def low_masks by (auto split: if_splits)
    have "management_word d = m"
      unfolding d(2) management_word_def using state_fields [OF d(1)] T by simp
    moreover have "valid_management d"
      using state field_bounds unfolding d(2) valid_management_def Let_def by simp
    ultimately show ?thesis by blast
  next
    case map
    then have d: "m AND NOT (push_bit 52 (mask 8) OR push_bit 51 1 OR push_bit 32 (mask 3) OR mask 32) = 0"
      "d = ?z\<lparr> mg_Last := (if bit m 51 then 1 else 0), mg_Base := ucast (drop_bit 32 (m AND push_bit 32 (mask 3))),
              mg_Bitmap := ucast (m AND mask 32) \<rparr>"
      using assms unfolding AppleAgxRtkitDecodeManagement_def Let_def low_masks last_bit by (auto split: if_splits)
    have "management_word d = m"
      unfolding d(2) management_word_def using map_fields [OF d(1)] T by (cases "bit m 51") (simp_all add: or.assoc)
    moreover have "valid_management d"
      using map base_bound unfolding d(2) valid_management_def Let_def by simp
    ultimately show ?thesis by blast
  qed
qed

text \<open>The other way round: the fields of a word put together from bounded fields.\<close>

lemma bits_hello:
  fixes t a b :: u32
  assumes "unat t < 2 ^ 8" "unat a < 2 ^ 16" "unat b < 2 ^ 16"
  defines "w \<equiv> push_bit 52 (ucast t) OR ucast a OR push_bit 16 (ucast b) :: u64"
  shows "w AND NOT (push_bit 52 (mask 8) OR mask 32) = 0" "ucast (w AND mask 16) = a"
    "ucast (drop_bit 16 w AND mask 16) = b"
proof -
  note l = assms(1-3) [THEN low_bits]
  have lt: "n < 8" if "bit t n" for n using l(1) [of n] that by (meson not_le)
  show "w AND NOT (push_bit 52 (mask 8) OR mask 32) = 0"
    unfolding outside_iff w_def using lt [of "_ - 52"] l(2) l(3) [of "_ - 16"]
    by (auto simp: bit_simps not_less)
  show "ucast (w AND mask 16) = a"
    by (rule bit_word_eqI; unfold w_def; case_tac "n < 16") (auto simp: bit_simps l(2))
  show "ucast (drop_bit 16 w AND mask 16) = b"
    by (rule bit_word_eqI; unfold w_def; case_tac "n < 16") (auto simp: bit_simps l)
qed

lemma bits_endpoint:
  fixes t a b :: u32
  assumes "unat t < 2 ^ 8" "unat a < 2 ^ 8" "unat b < 2 ^ 2"
  defines "w \<equiv> push_bit 52 (ucast t) OR push_bit 32 (ucast a) OR ucast b :: u64"
  shows "w AND NOT (push_bit 52 (mask 8) OR push_bit 32 (mask 8) OR mask 2) = 0"
    "ucast (drop_bit 32 w AND mask 8) = a" "ucast (w AND mask 2) = b"
proof -
  note l = assms(1-3) [THEN low_bits]
  have lt: "n < 8" if "bit t n" for n using l(1) [of n] that by (meson not_le)
  show "w AND NOT (push_bit 52 (mask 8) OR push_bit 32 (mask 8) OR mask 2) = 0"
    unfolding outside_iff w_def using lt [of "_ - 52"] l(3) l(2) [of "_ - 32"]
    by (auto simp: bit_simps not_less)
  show "ucast (w AND mask 2) = b"
    by (rule bit_word_eqI; unfold w_def; case_tac "n < 2") (auto simp: bit_simps l(3))
  show "ucast (drop_bit 32 w AND mask 8) = a"
    by (rule bit_word_eqI; unfold w_def; case_tac "n < 8") (auto simp: bit_simps l)
qed

lemma bits_state:
  fixes t a :: u32
  assumes "unat t < 2 ^ 8" "unat a < 2 ^ 16"
  defines "w \<equiv> push_bit 52 (ucast t) OR ucast a :: u64"
  shows "w AND NOT (push_bit 52 (mask 8) OR mask 16) = 0" "ucast (w AND mask 16) = a"
proof -
  note l = assms(1-2) [THEN low_bits]
  have lt: "n < 8" if "bit t n" for n using l(1) [of n] that by (meson not_le)
  show "w AND NOT (push_bit 52 (mask 8) OR mask 16) = 0"
    unfolding outside_iff w_def using lt [of "_ - 52"] l(2) by (auto simp: bit_simps not_less)
  show "ucast (w AND mask 16) = a"
    by (rule bit_word_eqI; unfold w_def; case_tac "n < 16") (auto simp: bit_simps l(2))
qed

lemma bits_map:
  fixes t a b :: u32 and x :: bool
  assumes "unat t < 2 ^ 8" "unat a < 2 ^ 3"
  defines "w \<equiv> push_bit 52 (ucast t) OR push_bit 51 (of_bool x) OR push_bit 32 (ucast a) OR ucast b :: u64"
  shows "w AND NOT (push_bit 52 (mask 8) OR push_bit 51 1 OR push_bit 32 (mask 3) OR mask 32) = 0"
    "bit w 51 = x" "ucast (drop_bit 32 (w AND push_bit 32 (mask 3))) = a" "ucast (w AND mask 32) = b"
proof -
  note l = assms(1-2) [THEN low_bits]
  have lt: "n < 8" if "bit t n" for n using l(1) [of n] that by (meson not_le)
  have l': "\<not> bit b n" if "32 \<le> n" for n using that bit_imp_le_length [of b n] by auto
  show "w AND NOT (push_bit 52 (mask 8) OR push_bit 51 1 OR push_bit 32 (mask 3) OR mask 32) = 0"
    unfolding outside_iff w_def using lt [of "_ - 52"] l(2) [of "_ - 32"] l'
    by (auto simp: bit_simps not_less bit_51)
  show "bit w 51 = x"
    unfolding w_def using l l' by (auto simp: bit_simps)
  show "ucast (drop_bit 32 (w AND push_bit 32 (mask 3))) = a"
    by (rule bit_word_eqI; unfold w_def; case_tac "n < 3") (auto simp: bit_simps l l')
  show "ucast (w AND mask 32) = b"
    by (rule bit_word_eqI; unfold w_def) (auto simp: bit_simps)
qed

lemma valid_cases:
  assumes "valid_management d"
  obtains (hello) "mg_Type d = 1 \<or> mg_Type d = 2" "unat (mg_MinVersion d) < 2 ^ 16" "unat (mg_MaxVersion d) < 2 ^ 16"
      "mg_State d = 0" "mg_Endpoint d = 0" "mg_Flag d = 0" "mg_Last d = 0" "mg_Base d = 0" "mg_Bitmap d = 0"
    | (ping) "mg_Type d = 3 \<or> mg_Type d = 4" "mg_MinVersion d = 0" "mg_MaxVersion d = 0"
      "mg_State d = 0" "mg_Endpoint d = 0" "mg_Flag d = 0" "mg_Last d = 0" "mg_Base d = 0" "mg_Bitmap d = 0"
    | (start) "mg_Type d = 5" "unat (mg_Endpoint d) < 2 ^ 8" "unat (mg_Flag d) < 2 ^ 2" "mg_MinVersion d = 0"
      "mg_MaxVersion d = 0" "mg_State d = 0" "mg_Last d = 0" "mg_Base d = 0" "mg_Bitmap d = 0"
    | (state) "mg_Type d = 6 \<or> mg_Type d = 7 \<or> mg_Type d = 11" "unat (mg_State d) < 2 ^ 16" "mg_MinVersion d = 0"
      "mg_MaxVersion d = 0" "mg_Endpoint d = 0" "mg_Flag d = 0" "mg_Last d = 0" "mg_Base d = 0" "mg_Bitmap d = 0"
    | (map) "mg_Type d = 8" "mg_Last d = 0 \<or> mg_Last d = 1" "unat (mg_Base d) < 2 ^ 3" "mg_MinVersion d = 0"
      "mg_MaxVersion d = 0" "mg_State d = 0" "mg_Endpoint d = 0" "mg_Flag d = 0"
proof -
  have le1: "v \<le> 1 \<longleftrightarrow> v = 0 \<or> v = 1" for v :: u32 by (auto simp: le_less)
  have bnd: "v \<le> 0xffff \<longleftrightarrow> unat v < 2 ^ 16" "v \<le> 0xff \<longleftrightarrow> unat v < 2 ^ 8" "v \<le> 3 \<longleftrightarrow> unat v < 2 ^ 2"
    "v \<le> 7 \<longleftrightarrow> unat v < 2 ^ 3" for v :: u32 by (auto simp: word_le_nat_alt)
  show ?thesis using assms that unfolding valid_management_def Let_def le1 bnd
    by (cases d) (simp add: AppleAgxRtkitClearManagement_def; elim disjE conjE; simp)
qed

lemma decode_complete:
  assumes "valid_management d"
  shows "AppleAgxRtkitDecodeManagement (management_word d) = (True, d)"
proof -
  let ?t = "mg_Type d" and ?w = "management_word d"
  have small: "unat (v :: u32) < 2 ^ k \<Longrightarrow> s + k \<le> n \<Longrightarrow> \<not> bit (push_bit s (ucast v) :: u64) n" for v k s n
    using low_bits [of v k] by (auto simp: bit_simps)
  have type: "ucast (drop_bit 52 (?w AND push_bit 52 (mask 8))) = ?t"
    if "?w = push_bit 52 (ucast ?t) OR low" "unat ?t < 2 ^ 8" "\<And>n. n \<ge> 52 \<Longrightarrow> \<not> bit low n" for low
    unfolding that(1) using that(2,3) by (intro type_of_word) auto
  note unf = AppleAgxRtkitDecodeManagement_def Let_def low_masks last_bit
  let ?z = "AppleAgxRtkitClearManagement\<lparr> mg_Type := ?t \<rparr>"
  from assms show ?thesis
  proof (cases rule: valid_cases)
    case hello
    have w: "?w = push_bit 52 (ucast ?t) OR ucast (mg_MinVersion d) OR push_bit 16 (ucast (mg_MaxVersion d))"
      unfolding management_word_def using hello by simp
    have t: "unat ?t < 2 ^ 8" using hello(1) by auto
    have ty: "ucast (drop_bit 52 (?w AND push_bit 52 (mask 8))) = ?t"
      using small [OF hello(2), of 0] small [OF hello(3), of 16]
      by (intro type [OF w [unfolded or.assoc] t]) (simp add: bit_or_iff)
    note f = bits_hello [OF t hello(2,3), folded w]
    have d: "?z\<lparr> mg_MinVersion := mg_MinVersion d, mg_MaxVersion := mg_MaxVersion d \<rparr> = d"
      using hello by (cases d) (auto simp: AppleAgxRtkitClearManagement_def)
    show ?thesis unfolding unf ty f d using hello(1) by (elim disjE) simp_all
  next
    case ping
    have w: "?w = push_bit 52 (ucast ?t)"
      unfolding management_word_def using ping by simp
    have t: "unat ?t < 2 ^ 8" using ping(1) by auto
    have ty: "ucast (drop_bit 52 (?w AND push_bit 52 (mask 8))) = ?t"
      by (rule type [of 0, OF _ t]) (simp_all add: w)
    have d: "?z = d"
      using ping by (cases d) (auto simp: AppleAgxRtkitClearManagement_def)
    have m: "?w = AppleAgxRtkitManagementType ?t" by (simp add: w AppleAgxRtkitManagementType_def)
    show ?thesis unfolding unf ty d m [symmetric] using ping(1) by (elim disjE) simp_all
  next
    case start
    have w: "?w = push_bit 52 (ucast ?t) OR push_bit 32 (ucast (mg_Endpoint d)) OR ucast (mg_Flag d)"
      unfolding management_word_def using start by simp
    have t: "unat ?t < 2 ^ 8" using start(1) by auto
    have ty: "ucast (drop_bit 52 (?w AND push_bit 52 (mask 8))) = ?t"
      using small [OF start(3), of 0] small [OF start(2), of 32]
      by (intro type [OF w [unfolded or.assoc] t]) (simp add: bit_or_iff)
    note f = bits_endpoint [OF t start(2,3), folded w]
    have d: "?z\<lparr> mg_Endpoint := mg_Endpoint d, mg_Flag := mg_Flag d \<rparr> = d"
      using start by (cases d) (auto simp: AppleAgxRtkitClearManagement_def)
    show ?thesis unfolding unf ty f d using start(1) by simp
  next
    case state
    have w: "?w = push_bit 52 (ucast ?t) OR ucast (mg_State d)"
      unfolding management_word_def using state by simp
    have t: "unat ?t < 2 ^ 8" using state(1) by auto
    have ty: "ucast (drop_bit 52 (?w AND push_bit 52 (mask 8))) = ?t"
      using small [OF state(2), of 0] by (intro type [OF w t]) simp
    note f = bits_state [OF t state(2), folded w]
    have d: "?z\<lparr> mg_State := mg_State d \<rparr> = d"
      using state by (cases d) (auto simp: AppleAgxRtkitClearManagement_def)
    show ?thesis unfolding unf ty f d using state(1) by (elim disjE) simp_all
  next
    case map
    have w: "?w = push_bit 52 (ucast ?t) OR push_bit 51 (of_bool (mg_Last d = 1)) OR push_bit 32 (ucast (mg_Base d)) OR
        ucast (mg_Bitmap d)"
      unfolding management_word_def using map by auto
    have t: "unat ?t < 2 ^ 8" using map(1) by auto
    have bm: "\<not> bit (ucast (mg_Bitmap d) :: u64) n" if "n \<ge> 52" for n
      using that bit_imp_le_length [of "mg_Bitmap d" n] by (auto simp: bit_simps)
    have lb: "\<not> bit (push_bit 51 (of_bool (mg_Last d = 1)) :: u64) n" if "n \<ge> 52" for n
      using that by (cases "mg_Last d = 1") (simp_all add: bit_simps bit_51)
    have ty: "ucast (drop_bit 52 (?w AND push_bit 52 (mask 8))) = ?t"
      using small [OF map(3), of 32] bm lb
      by (intro type [OF w [unfolded or.assoc] t]) (simp add: bit_or_iff)
    note f = bits_map [OF t map(3), of "mg_Last d = 1" "mg_Bitmap d", folded w]
    have d: "?z\<lparr> mg_Last := (if mg_Last d = 1 then 1 else 0), mg_Base := mg_Base d, mg_Bitmap := mg_Bitmap d \<rparr> = d"
      using map by (cases d) (auto simp: AppleAgxRtkitClearManagement_def)
    show ?thesis unfolding unf ty f d using map(1) by simp
  qed
qed

section \<open>The encoders\<close>

text \<open>Every message an encoder makes from arguments in range is the word of that message.\<close>

lemma encoder_words:
  "a \<le> b \<Longrightarrow> b \<le> 0xffff \<Longrightarrow> AppleAgxRtkitHelloAck a b =
     management_word (AppleAgxRtkitClearManagement\<lparr> mg_Type := 2, mg_MinVersion := a, mg_MaxVersion := b \<rparr>)"
  "base \<le> 7 \<Longrightarrow> l \<le> 1 \<Longrightarrow> more' \<le> 1 \<Longrightarrow> AppleAgxRtkitEndpointMapAck base l more' =
     management_word (AppleAgxRtkitClearManagement\<lparr> mg_Type := 8, mg_Last := l, mg_Base := base, mg_Bitmap := more' \<rparr>)"
  "s \<le> 0xffff \<Longrightarrow> AppleAgxRtkitSetIopPower s =
     management_word (AppleAgxRtkitClearManagement\<lparr> mg_Type := 6, mg_State := s \<rparr>)"
  "s \<le> 0xffff \<Longrightarrow> AppleAgxRtkitSetApPower s =
     management_word (AppleAgxRtkitClearManagement\<lparr> mg_Type := 11, mg_State := s \<rparr>)"
  "e \<le> 0xff \<Longrightarrow> f \<le> 3 \<Longrightarrow> AppleAgxRtkitStartEndpoint e f =
     management_word (AppleAgxRtkitClearManagement\<lparr> mg_Type := 5, mg_Endpoint := e, mg_Flag := f \<rparr>)"
  "AppleAgxRtkitPing = management_word (AppleAgxRtkitClearManagement\<lparr> mg_Type := 3 \<rparr>)"
  by (auto simp: AppleAgxRtkitHelloAck_def AppleAgxRtkitEndpointMapAck_def AppleAgxRtkitSetIopPower_def
      AppleAgxRtkitSetApPower_def AppleAgxRtkitStartEndpoint_def AppleAgxRtkitPing_def
      AppleAgxRtkitManagementType_def management_word_def word_le_nat_alt word_less_nat_alt or.assoc or.commute or.left_commute unsigned_ucast_eq
      take_bit_nat_eq_self)

definition is_message :: "u64 \<Rightarrow> bool" where
  "is_message w \<longleftrightarrow> fst (AppleAgxRtkitDecodeManagement w)"

lemma is_message_word: "valid_management d \<Longrightarrow> is_message (management_word d)"
  by (simp add: is_message_def decode_complete)

lemma encoder_messages:
  "b \<le> 0xffff \<Longrightarrow> is_message (AppleAgxRtkitHelloAck b b)"
  "base \<le> 7 \<Longrightarrow> l \<le> 1 \<Longrightarrow> more' \<le> 1 \<Longrightarrow> is_message (AppleAgxRtkitEndpointMapAck base l more')"
  "s \<le> 0xffff \<Longrightarrow> is_message (AppleAgxRtkitSetIopPower s)" "s \<le> 0xffff \<Longrightarrow> is_message (AppleAgxRtkitSetApPower s)"
  "e \<le> 0xff \<Longrightarrow> f \<le> 3 \<Longrightarrow> is_message (AppleAgxRtkitStartEndpoint e f)"
  by (simp_all add: encoder_words is_message_word valid_management_def Let_def)

section \<open>What the boot handshake sends\<close>

definition output_ok :: "APPLE_AGX_RTKIT_BOOT_OUTPUT \<Rightarrow> bool" where
  "output_ok out \<longleftrightarrow> length (bo_Message out) = 8 \<and> bo_Count out \<le> 8 \<and> (\<forall>i<bo_Count out. is_message (bo_Message out ! i))"

lemma put_message_ok:
  assumes "output_ok out" and "is_message m" and "bo_Count out < 8"
  shows "output_ok (put_message m out)" and "bo_Count (put_message m out) = Suc (bo_Count out)"
  using assms by (auto simp: output_ok_def put_message_def nth_list_update less_Suc_eq)

lemma clear_output_ok: "output_ok AppleAgxRtkitBootClearOutput" "bo_Count AppleAgxRtkitBootClearOutput = 0"
  by (simp_all add: output_ok_def AppleAgxRtkitBootClearOutput_def)

lemma put_fold_ok:
  assumes "output_ok out" and "\<forall>e\<in>set es. P e \<longrightarrow> is_message (f e)" and "bo_Count out + length (filter P es) \<le> 8"
  shows "output_ok (fold (\<lambda>e out. if P e then put_message (f e) out else out) es out)"
    and "bo_Count (fold (\<lambda>e out. if P e then put_message (f e) out else out) es out) = bo_Count out + length (filter P es)"
proof -
  have "output_ok (fold (\<lambda>e out. if P e then put_message (f e) out else out) es out) \<and>
      bo_Count (fold (\<lambda>e out. if P e then put_message (f e) out else out) es out) = bo_Count out + length (filter P es)"
    using assms
  proof (induction es arbitrary: out)
    case (Cons e es)
    show ?case
    proof (cases "P e")
      case True
      then have "output_ok (put_message (f e) out)" "bo_Count (put_message (f e) out) = Suc (bo_Count out)"
        using put_message_ok [OF Cons.prems(1), of "f e"] Cons.prems(2,3) by auto
      with Cons.IH [of "put_message (f e) out"] Cons.prems(2,3) True show ?thesis by simp
    next
      case False
      with Cons.IH [of out] Cons.prems show ?thesis by simp
    qed
  qed simp
  then show "output_ok (fold (\<lambda>e out. if P e then put_message (f e) out else out) es out)"
    "bo_Count (fold (\<lambda>e out. if P e then put_message (f e) out else out) es out) = bo_Count out + length (filter P es)"
    by simp_all
qed

text \<open>Six system endpoints are supported.\<close>

lemma supported_endpoints:
  "length (filter (\<lambda>e. map0 AND 0x51e AND push_bit e 1 \<noteq> 0) [1..<16]) \<le> 6" for map0 :: u32
proof -
  have "filter (\<lambda>e. map0 AND 0x51e AND push_bit e 1 \<noteq> 0) [1..<16] =
      filter (\<lambda>e. map0 AND 0x51e AND push_bit e 1 \<noteq> 0) (filter (\<lambda>e. 0x51e AND push_bit e (1 :: u32) \<noteq> 0) [1..<16])"
    unfolding filter_filter by (rule filter_cong) auto
  also have "length \<dots> \<le> length (filter (\<lambda>e. 0x51e AND push_bit e (1 :: u32) \<noteq> 0) [1..<16])"
    by (rule length_filter_le)
  also have "\<dots> = 6" by (simp add: upt_rec)
  finally show ?thesis .
qed

lemma start_endpoints_ok:
  assumes "output_ok out" and "bo_Count out \<le> 1"
  shows "output_ok (start_endpoints map0 out)" and "bo_Count (start_endpoints map0 out) < 8"
proof -
  let ?P = "\<lambda>e. map0 AND 0x51e AND push_bit e 1 \<noteq> 0"
  have "\<forall>e\<in>set [1..<16]. is_message (AppleAgxRtkitStartEndpoint (of_nat e) 2)"
  proof
    fix e assume "e \<in> set [1..<16::nat]"
    then have "(of_nat e :: u32) \<le> 0xff" by (simp add: word_le_nat_alt unat_of_nat)
    then show "is_message (AppleAgxRtkitStartEndpoint (of_nat e) 2)" by (intro encoder_messages) simp_all
  qed
  then have m: "\<forall>e\<in>set [1..<16]. ?P e \<longrightarrow> is_message (AppleAgxRtkitStartEndpoint (of_nat e) 2)" by blast
  have n: "bo_Count out + length (filter ?P [1..<16]) \<le> 7" using supported_endpoints [of map0] assms(2) by linarith
  then have n8: "bo_Count out + length (filter ?P [1..<16]) \<le> 8" by linarith
  show "output_ok (start_endpoints map0 out)"
    unfolding start_endpoints_def by (rule put_fold_ok(1) [OF assms(1) m n8])
  show "bo_Count (start_endpoints map0 out) < 8"
    unfolding start_endpoints_def put_fold_ok(2) [OF assms(1) m n8] using n by linarith
qed

text \<open>What a management message can be.\<close>

lemma decoded_bounds:
  assumes "AppleAgxRtkitDecodeManagement p = (True, d)"
  shows "mg_MaxVersion d \<le> 0xffff" and "mg_Base d \<le> 7" and "mg_Last d \<le> 1"
proof -
  note v = conjunct1 [OF decode_sound [OF assms]]
  show "mg_MaxVersion d \<le> 0xffff" by (cases rule: valid_cases [OF v]) (simp_all add: word_le_nat_alt)
  show "mg_Base d \<le> 7" by (cases rule: valid_cases [OF v]) (simp_all add: word_le_nat_alt)
  show "mg_Last d \<le> 1" by (cases rule: valid_cases [OF v]) (simp_all add: word_le_nat_alt, (elim disjE; simp)?)
qed

lemma hello_ack_valid: "v \<le> 0xffff \<Longrightarrow> AppleAgxRtkitHelloAck v v \<noteq> RTKIT_INVALID_MESSAGE"
proof
  assume v: "v \<le> 0xffff" and e: "AppleAgxRtkitHelloAck v v = RTKIT_INVALID_MESSAGE"
  from encoder_messages(1) [OF v] have "is_message (- 1)" unfolding e by simp
  then show False by (simp add: is_message_def AppleAgxRtkitDecodeManagement_def Let_def)
qed

lemma handle_output_ok:
  assumes "AppleAgxRtkitBootHandle boot p e = (r, boot', out)"
  shows "output_ok out"
proof -
  obtain v d where d: "AppleAgxRtkitDecodeManagement p = (v, d)" by fastforce
  have clear: "output_ok AppleAgxRtkitBootClearOutput" "bo_Count AppleAgxRtkitBootClearOutput = 0"
    "bo_Message AppleAgxRtkitBootClearOutput = replicate 8 0"
    by (simp_all add: clear_output_ok) (simp add: AppleAgxRtkitBootClearOutput_def)
  let ?ack = "AppleAgxRtkitHelloAck (mg_MaxVersion d) (mg_MaxVersion d)"
  let ?map = "put_message (AppleAgxRtkitEndpointMapAck (mg_Base d) (mg_Last d) (if mg_Last d \<noteq> 0 then 0 else 1))
    AppleAgxRtkitBootClearOutput"
  have unset: "output_ok (AppleAgxRtkitBootClearOutput\<lparr> bo_Message := (replicate 8 0)[0 := ?ack] \<rparr>)"
    by (simp add: output_ok_def clear)
  have "output_ok out" if v: "v"
  proof -
    note b = decoded_bounds [OF d [unfolded v [THEN eq_True [THEN iffD2]]]]
    have hello: "output_ok (AppleAgxRtkitBootClearOutput\<lparr> bo_Message := (replicate 8 0)[0 := ?ack], bo_Count := Suc 0 \<rparr>)"
      using encoder_messages(1) [OF b(1)] by (simp add: output_ok_def)
    have map: "output_ok ?map" "bo_Count ?map \<le> 1"
      using put_message_ok [OF clear(1), of "AppleAgxRtkitEndpointMapAck (mg_Base d) (mg_Last d) (if mg_Last d \<noteq> 0 then 0 else 1)"]
        encoder_messages(2) [OF b(2,3), of "if mg_Last d \<noteq> 0 then 0 else 1"] clear(2) by auto
    have last': "output_ok (put_message (AppleAgxRtkitSetApPower 0x20) (start_endpoints m ?map))" for m
      by (rule put_message_ok(1) [OF start_endpoints_ok(1) [OF map] _ start_endpoints_ok(2) [OF map]])
        (rule encoder_messages; simp)
    show ?thesis
      using assms v unset hello map(1) last' clear
      unfolding AppleAgxRtkitBootHandle_def Let_def d AppleAgxRtkitBootFail_def
      by (auto split: if_splits)
  qed
  moreover have "output_ok out" if "\<not> v"
    using assms that clear unfolding AppleAgxRtkitBootHandle_def Let_def d AppleAgxRtkitBootFail_def
    by (auto split: if_splits)
  ultimately show ?thesis by blast
qed

text \<open>What the handshake makes of one message while it is under way.\<close>

definition under_way :: "APPLE_AGX_RTKIT_BOOT \<Rightarrow> bool" where
  "under_way b \<longleftrightarrow> rb_Begun b \<and> rb_Phase b \<noteq> AppleAgxRtkitBootReady \<and> rb_Phase b \<noteq> AppleAgxRtkitBootFailed"

abbreviation boot_next :: "u64 \<Rightarrow> APPLE_AGX_RTKIT_BOOT \<Rightarrow> APPLE_AGX_RTKIT_BOOT" where
  "boot_next p b \<equiv> fst (snd (AppleAgxRtkitBootHandle b p 0))"

abbreviation failed_boot :: "APPLE_AGX_RTKIT_BOOT \<Rightarrow> APPLE_AGX_RTKIT_BOOT" where
  "failed_boot b \<equiv> b\<lparr> rb_Phase := AppleAgxRtkitBootFailed \<rparr>"

lemma boot_next_stuck: "\<not> under_way b \<Longrightarrow> boot_next p b = b"
  by (auto simp: under_way_def AppleAgxRtkitBootHandle_def Let_def split: prod.split)

lemma boot_next_invalid: "under_way b \<Longrightarrow> AppleAgxRtkitDecodeManagement p = (False, d) \<Longrightarrow> boot_next p b = failed_boot b"
  by (auto simp: under_way_def AppleAgxRtkitBootHandle_def AppleAgxRtkitBootFail_def Let_def)

lemma boot_next_valid:
  assumes "under_way b" and "AppleAgxRtkitDecodeManagement p = (True, d)"
  shows "boot_next p b =
    (if mg_Type d = 1
     then (if rb_HelloSeen b \<or> mg_MinVersion d > mg_MaxVersion d then failed_boot b
           else AppleAgxRtkitBootUpdatePhase (b\<lparr> rb_NegotiatedVersion := mg_MaxVersion d, rb_HelloSeen := True \<rparr>))
     else if mg_Type d = 8
     then (if \<not> rb_HelloSeen b \<or> rb_EndpointMapComplete b then failed_boot b
           else if mg_Last d \<noteq> 0
           then AppleAgxRtkitBootUpdatePhase
             (b\<lparr> rb_EndpointMap := (rb_EndpointMap b)[unat (mg_Base d) := mg_Bitmap d],
                rb_EndpointMapComplete := True, rb_ApPowerRequested := True \<rparr>)
           else AppleAgxRtkitBootUpdatePhase
             (b\<lparr> rb_EndpointMap := (rb_EndpointMap b)[unat (mg_Base d) := mg_Bitmap d] \<rparr>))
     else if mg_Type d = 7
     then (if rb_IopPowerReady b \<or> mg_State d \<noteq> 0x20 then failed_boot b
           else AppleAgxRtkitBootUpdatePhase (b\<lparr> rb_IopPowerReady := True \<rparr>))
     else if mg_Type d = 11
     then (if \<not> rb_ApPowerRequested b \<or> rb_ApPowerReady b \<or> mg_State d \<noteq> 0x20 then failed_boot b
           else AppleAgxRtkitBootUpdatePhase (b\<lparr> rb_ApPowerReady := True \<rparr>))
     else failed_boot b)"
  using assms(1) hello_ack_valid [OF decoded_bounds(1) [OF assms(2)]]
  unfolding under_way_def AppleAgxRtkitBootHandle_def AppleAgxRtkitBootFail_def Let_def assms(2)
  by simp

section \<open>The dialogue of the handshake\<close>

text \<open>What the coprocessor has to say: its hello; endpoint maps of which the last is so marked; and the two
  power acknowledgements, the one for the application processor after the maps, the one for the
  coprocessor at any time.\<close>

definition is_hello :: "APPLE_AGX_RTKIT_MANAGEMENT \<Rightarrow> bool" where
  "is_hello d \<longleftrightarrow> mg_Type d = 1 \<and> mg_MinVersion d \<le> mg_MaxVersion d"

definition is_map :: "APPLE_AGX_RTKIT_MANAGEMENT \<Rightarrow> bool" where
  "is_map d \<longleftrightarrow> mg_Type d = 8 \<and> mg_Last d = 0"

definition is_last_map :: "APPLE_AGX_RTKIT_MANAGEMENT \<Rightarrow> bool" where
  "is_last_map d \<longleftrightarrow> mg_Type d = 8 \<and> mg_Last d \<noteq> 0"

definition is_ap_power :: "APPLE_AGX_RTKIT_MANAGEMENT \<Rightarrow> bool" where
  "is_ap_power d \<longleftrightarrow> mg_Type d = 11 \<and> mg_State d = 0x20"

abbreviation of_iop :: "APPLE_AGX_RTKIT_MANAGEMENT \<Rightarrow> bool" where
  "of_iop d \<equiv> mg_Type d = 7"

inductive spoken :: "nat \<Rightarrow> APPLE_AGX_RTKIT_MANAGEMENT list \<Rightarrow> bool" where
  silence: "spoken 0 []"
| hello: "spoken 0 ds \<Longrightarrow> is_hello d \<Longrightarrow> spoken (Suc 0) (ds @ [d])"
| one_map: "spoken (Suc 0) ds \<Longrightarrow> is_map d \<Longrightarrow> spoken (Suc 0) (ds @ [d])"
| last_map: "spoken (Suc 0) ds \<Longrightarrow> is_last_map d \<Longrightarrow> spoken 2 (ds @ [d])"
| ap_power: "spoken 2 ds \<Longrightarrow> is_ap_power d \<Longrightarrow> spoken 3 (ds @ [d])"

definition dialogue :: "APPLE_AGX_RTKIT_MANAGEMENT list \<Rightarrow> bool" where
  "dialogue ds \<longleftrightarrow>
     (\<exists>hello maps final power. filter (\<lambda>d. \<not> of_iop d) ds = hello # maps @ [final, power] \<and>
        is_hello hello \<and> (\<forall>d\<in>set maps. is_map d) \<and> is_last_map final \<and> is_ap_power power) \<and>
     map mg_State (filter of_iop ds) = [0x20]"
inductive_cases spoken_snocE: "spoken n (ds @ [d])"
inductive_cases spoken_NilE: "spoken n []"

text \<open>What was said determines how far the dialogue is.\<close>

lemma kinds_apart:
  "\<not> (is_map d \<and> is_last_map d)" "\<not> (is_hello d \<and> is_map d)" "\<not> (is_hello d \<and> is_last_map d)"
  "\<not> (is_hello d \<and> is_ap_power d)" "\<not> (is_map d \<and> is_ap_power d)" "\<not> (is_last_map d \<and> is_ap_power d)"
  by (simp_all add: is_hello_def is_map_def is_last_map_def is_ap_power_def)

lemma spoken_fun: "spoken n ds \<Longrightarrow> spoken m ds \<Longrightarrow> n = m"
proof (induction arbitrary: m rule: spoken.induct)
  case silence
  then show ?case by (auto elim: spoken_NilE)
next
  case (hello ds d)
  from hello.prems show ?case by (rule spoken_snocE) (use hello kinds_apart in blast)+
next
  case (one_map ds d)
  from one_map.prems show ?case by (rule spoken_snocE) (use one_map kinds_apart in blast)+
next
  case (last_map ds d)
  from last_map.prems show ?case by (rule spoken_snocE) (use last_map kinds_apart in blast)+
next
  case (ap_power ds d)
  from ap_power.prems show ?case by (rule spoken_snocE) (use ap_power kinds_apart in blast)+
qed

lemma spoken_le: "spoken n ds \<Longrightarrow> n \<le> 3"
  by (induction rule: spoken.induct) auto

lemma spoken_prefix: "spoken n (ds @ [d]) \<Longrightarrow> \<exists>m. spoken m ds"
  by (auto elim: spoken_snocE)

text \<open>The next thing that can be said.\<close>

lemma spoken_next:
  assumes "spoken n ds"
  shows "spoken m (ds @ [d]) \<longleftrightarrow> n = 0 \<and> m = Suc 0 \<and> is_hello d \<or> n = Suc 0 \<and> m = Suc 0 \<and> is_map d \<or>
    n = Suc 0 \<and> m = 2 \<and> is_last_map d \<or> n = 2 \<and> m = 3 \<and> is_ap_power d"
proof
  assume "spoken m (ds @ [d])"
  then show "n = 0 \<and> m = Suc 0 \<and> is_hello d \<or> n = Suc 0 \<and> m = Suc 0 \<and> is_map d \<or>
    n = Suc 0 \<and> m = 2 \<and> is_last_map d \<or> n = 2 \<and> m = 3 \<and> is_ap_power d"
    using spoken_fun [OF assms] by (elim spoken_snocE) auto
qed (use assms in \<open>auto intro: spoken.intros\<close>)

lemma spoken_lists:
  "spoken n ds \<longleftrightarrow>
     n = 0 \<and> ds = [] \<or>
     (\<exists>hello maps. is_hello hello \<and> (\<forall>d\<in>set maps. is_map d) \<and>
        (n = Suc 0 \<and> ds = hello # maps \<or>
         (\<exists>final. is_last_map final \<and>
            (n = 2 \<and> ds = hello # maps @ [final] \<or>
             (\<exists>power. is_ap_power power \<and> n = 3 \<and> ds = hello # maps @ [final, power])))))"
  (is "_ \<longleftrightarrow> ?R n ds")
proof
  show "spoken n ds \<Longrightarrow> ?R n ds"
  proof (induction rule: spoken.induct)
    case (one_map ds d)
    then obtain hello maps where "is_hello hello" "\<forall>d\<in>set maps. is_map d" "ds = hello # maps" by auto
    with one_map(2) have "is_hello hello" "\<forall>d\<in>set (maps @ [d]). is_map d" "ds @ [d] = hello # (maps @ [d])" by auto
    then show ?case by blast
  qed force+
  have one: "spoken (Suc 0) (hello # maps)" if "is_hello hello" "\<forall>d\<in>set maps. is_map d" for hello maps
    using that(2)
  proof (induction maps rule: rev_induct)
    case Nil
    show ?case using spoken.hello [OF silence that(1)] by simp
  next
    case (snoc d maps)
    then show ?case using spoken.one_map [of "hello # maps" d] by simp
  qed
  have two: "spoken 2 (hello # maps @ [final])"
    if "is_hello hello" "\<forall>d\<in>set maps. is_map d" "is_last_map final" for hello maps final
    using spoken.last_map [OF one [OF that(1,2)] that(3)] by simp
  have three: "spoken 3 (hello # maps @ [final, power])"
    if "is_hello hello" "\<forall>d\<in>set maps. is_map d" "is_last_map final" "is_ap_power power" for hello maps final power
    using spoken.ap_power [OF two [OF that(1-3)] that(4)] by simp
  show "?R n ds \<Longrightarrow> spoken n ds" using one two three silence by blast
qed

lemma dialogue_spoken:
  "dialogue ds \<longleftrightarrow> spoken 3 (filter (\<lambda>d. \<not> of_iop d) ds) \<and> map mg_State (filter of_iop ds) = [0x20]"
  unfolding dialogue_def spoken_lists by auto
section \<open>The handshake follows the dialogue\<close>

definition boot_started :: APPLE_AGX_RTKIT_BOOT where
  "boot_started = fst (snd (AppleAgxRtkitBootBegin AppleAgxRtkitBootInitialize))"

text \<open>The state after the messages \<open>ps\<close>, and what they said.\<close>

definition boot_run :: "u64 list \<Rightarrow> APPLE_AGX_RTKIT_BOOT" where
  "boot_run ps = fold boot_next ps boot_started"

definition heard :: "u64 list \<Rightarrow> APPLE_AGX_RTKIT_MANAGEMENT list" where
  "heard ps = map (\<lambda>p. snd (AppleAgxRtkitDecodeManagement p)) ps"

abbreviation core :: "u64 list \<Rightarrow> APPLE_AGX_RTKIT_MANAGEMENT list" where
  "core ps \<equiv> filter (\<lambda>d. \<not> of_iop d) (heard ps)"

abbreviation iop_states :: "u64 list \<Rightarrow> u32 list" where
  "iop_states ps \<equiv> map mg_State (filter of_iop (heard ps))"

definition talk :: "u64 list \<Rightarrow> bool" where
  "talk ps \<longleftrightarrow> list_all is_message ps \<and> dialogue (heard ps)"

text \<open>The messages so far can still become a dialogue, and the state agrees with how far they are.\<close>

definition in_talk :: "u64 list \<Rightarrow> bool" where
  "in_talk ps \<longleftrightarrow> list_all is_message ps \<and> (\<exists>n. spoken n (core ps)) \<and> iop_states ps \<in> {[], [0x20]}"

definition boot_at :: "APPLE_AGX_RTKIT_BOOT \<Rightarrow> nat \<Rightarrow> bool \<Rightarrow> bool" where
  "boot_at b n iop \<longleftrightarrow>
     rb_Begun b \<and> (rb_HelloSeen b \<longleftrightarrow> 1 \<le> n) \<and> (rb_EndpointMapComplete b \<longleftrightarrow> 2 \<le> n) \<and>
     (rb_ApPowerRequested b \<longleftrightarrow> 2 \<le> n) \<and> (rb_ApPowerReady b \<longleftrightarrow> 3 \<le> n) \<and> (rb_IopPowerReady b \<longleftrightarrow> iop) \<and>
     rb_Phase b \<noteq> AppleAgxRtkitBootFailed \<and> (rb_Phase b = AppleAgxRtkitBootReady \<longleftrightarrow> 3 \<le> n \<and> iop)"

lemma in_talk_prefix: "in_talk (ps @ [p]) \<Longrightarrow> in_talk ps"
  by (auto simp: in_talk_def heard_def append_eq_Cons_conv split: if_splits dest: spoken_prefix)

lemma talk_iff: "talk ps \<longleftrightarrow> in_talk ps \<and> spoken 3 (core ps) \<and> iop_states ps = [0x20]"
  by (auto simp: talk_def in_talk_def dialogue_spoken)

lemma boot_at_start: "boot_at boot_started 0 False"
  by (simp add: boot_at_def boot_started_def AppleAgxRtkitBootBegin_def AppleAgxRtkitBootInitialize_def)

lemma boot_at_update:
  assumes "rb_Begun b" "rb_HelloSeen b \<longleftrightarrow> 1 \<le> n" "rb_EndpointMapComplete b \<longleftrightarrow> 2 \<le> n"
    "rb_ApPowerRequested b \<longleftrightarrow> 2 \<le> n" "rb_ApPowerReady b \<longleftrightarrow> 3 \<le> n" "rb_IopPowerReady b \<longleftrightarrow> iop"
  shows "boot_at (AppleAgxRtkitBootUpdatePhase b) n iop"
  using assms by (auto simp: boot_at_def AppleAgxRtkitBootUpdatePhase_def)

text \<open>One message on from a state that is not ready.\<close>

lemma boot_at_way: "boot_at b n iop \<Longrightarrow> \<not> (3 \<le> n \<and> iop) \<Longrightarrow> under_way b"
  by (auto simp: boot_at_def under_way_def)

lemma core_step:
  assumes n: "spoken n ds" and b: "boot_at b n iop" and open': "\<not> (3 \<le> n \<and> iop)"
    and d: "AppleAgxRtkitDecodeManagement p = (True, d)" and other: "\<not> of_iop d"
  shows "(\<exists>m. spoken m (ds @ [d]) \<and> boot_at (boot_next p b) m iop) \<or>
    (\<nexists>m. spoken m (ds @ [d])) \<and> boot_next p b = failed_boot b"
proof -
  note run = boot_next_valid [OF boot_at_way [OF b open'] d]
  have at: "boot_at (AppleAgxRtkitBootUpdatePhase b') m iop"
    if "rb_Begun b'" "rb_HelloSeen b' \<longleftrightarrow> 1 \<le> m" "rb_EndpointMapComplete b' \<longleftrightarrow> 2 \<le> m"
      "rb_ApPowerRequested b' \<longleftrightarrow> 2 \<le> m" "rb_ApPowerReady b' \<longleftrightarrow> 3 \<le> m"
      "rb_IopPowerReady b' \<longleftrightarrow> rb_IopPowerReady b" for b' m
    using b that by (intro boot_at_update) (simp_all add: boot_at_def)
  have b': "rb_Begun b" "rb_HelloSeen b \<longleftrightarrow> 1 \<le> n" "rb_EndpointMapComplete b \<longleftrightarrow> 2 \<le> n"
    "rb_ApPowerRequested b \<longleftrightarrow> 2 \<le> n" "rb_ApPowerReady b \<longleftrightarrow> 3 \<le> n" using b by (simp_all add: boot_at_def)
  consider (hello) "n = 0" "is_hello d" | (map) "n = 1" "is_map d" | (final) "n = 1" "is_last_map d"
    | (power) "n = 2" "is_ap_power d"
    | (none) "\<not> (n = 0 \<and> is_hello d)" "\<not> (n = 1 \<and> (is_map d \<or> is_last_map d))" "\<not> (n = 2 \<and> is_ap_power d)"
    by blast
  then show ?thesis
  proof cases
    case hello
    then have "boot_at (boot_next p b) 1 iop" unfolding run using b' by (auto simp: is_hello_def intro!: at)
    moreover have "spoken 1 (ds @ [d])" using hello by (simp add: spoken_next [OF n])
    ultimately show ?thesis by blast
  next
    case map
    then have "boot_at (boot_next p b) 1 iop" unfolding run using b' by (auto simp: is_map_def intro!: at)
    moreover have "spoken 1 (ds @ [d])" using map by (simp add: spoken_next [OF n])
    ultimately show ?thesis by blast
  next
    case final
    then have "boot_at (boot_next p b) 2 iop" unfolding run using b' by (auto simp: is_last_map_def intro!: at)
    moreover have "spoken 2 (ds @ [d])" using final by (simp add: spoken_next [OF n])
    ultimately show ?thesis by blast
  next
    case power
    then have "boot_at (boot_next p b) 3 iop" unfolding run using b' by (auto simp: is_ap_power_def intro!: at)
    moreover have "spoken 3 (ds @ [d])" using power by (simp add: spoken_next [OF n])
    ultimately show ?thesis by blast
  next
    case none
    have "n = 0 \<or> n = 1 \<or> n = 2 \<or> n = 3" using spoken_le [OF n] by linarith
    then have "boot_next p b = failed_boot b"
      unfolding run using none b' other
      by (elim disjE) (auto simp: is_hello_def is_map_def is_last_map_def is_ap_power_def)
    moreover have "\<nexists>m. spoken m (ds @ [d])" using none by (simp add: spoken_next [OF n])
    ultimately show ?thesis by blast
  qed
qed

lemma iop_step:
  assumes b: "boot_at b n iop" and open': "\<not> (3 \<le> n \<and> iop)"
    and d: "AppleAgxRtkitDecodeManagement p = (True, d)" and iop: "of_iop d"
  shows "if \<not> iop \<and> mg_State d = 0x20 then boot_at (boot_next p b) n True else boot_next p b = failed_boot b"
proof -
  have "boot_at (AppleAgxRtkitBootUpdatePhase (b\<lparr> rb_IopPowerReady := True \<rparr>)) n True"
    using b by (intro boot_at_update) (simp_all add: boot_at_def)
  moreover have "rb_IopPowerReady b \<longleftrightarrow> iop" using b by (simp add: boot_at_def)
  ultimately show ?thesis unfolding boot_next_valid [OF boot_at_way [OF b open'] d] using iop by simp
qed

lemma boot_next_talk:
  assumes t: "in_talk ps" and n: "spoken n (core ps)" and b: "boot_at b n (iop_states ps = [0x20])"
    and open': "\<not> (3 \<le> n \<and> iop_states ps = [0x20])"
  shows "if in_talk (ps @ [p])
    then \<exists>m. spoken m (core (ps @ [p])) \<and> boot_at (boot_next p b) m (iop_states (ps @ [p]) = [0x20])
    else rb_Phase (boot_next p b) = AppleAgxRtkitBootFailed"
proof -
  obtain v d where d: "AppleAgxRtkitDecodeManagement p = (v, d)" by fastforce
  have h: "heard (ps @ [p]) = heard ps @ [d]" by (simp add: heard_def d)
  have iops: "iop_states ps = [] \<or> iop_states ps = [0x20]" using t by (auto simp: in_talk_def)
  show ?thesis
  proof (cases v)
    case False
    then have "\<not> in_talk (ps @ [p])" by (simp add: in_talk_def is_message_def d)
    then show ?thesis using boot_next_invalid [OF boot_at_way [OF b open']] d False by simp
  next
    case True
    then have d': "AppleAgxRtkitDecodeManagement p = (True, d)" using d by simp
    have valid: "list_all is_message (ps @ [p])" using t d' by (simp add: in_talk_def is_message_def)
    show ?thesis
    proof (cases "of_iop d")
      case True
      then have c: "core (ps @ [p]) = core ps" "iop_states (ps @ [p]) = iop_states ps @ [mg_State d]"
        by (simp_all add: h)
      have "in_talk (ps @ [p]) \<longleftrightarrow> iop_states ps \<noteq> [0x20] \<and> mg_State d = 0x20"
        using valid n iops unfolding in_talk_def c by auto
      with iop_step [OF b open' d' True] n iops show ?thesis unfolding c by auto
    next
      case False
      then have c: "core (ps @ [p]) = core ps @ [d]" "iop_states (ps @ [p]) = iop_states ps"
        by (simp_all add: h)
      have "in_talk (ps @ [p]) \<longleftrightarrow> (\<exists>m. spoken m (core ps @ [d]))"
        using valid iops unfolding in_talk_def c by auto
      with core_step [OF n b open' d' False] show ?thesis unfolding c by auto
    qed
  qed
qed

lemma boot_at_talk:
  assumes "spoken n (core ps)" and "boot_at b n (iop_states ps = [0x20])" and "in_talk ps"
  shows "rb_Phase b = AppleAgxRtkitBootReady \<longleftrightarrow> talk ps" and "3 \<le> n \<and> iop_states ps = [0x20] \<longleftrightarrow> talk ps"
proof -
  have "spoken 3 (core ps) \<longleftrightarrow> 3 \<le> n"
    using spoken_fun [OF assms(1)] spoken_le [OF assms(1)] assms(1) by (metis le_antisym order_refl)
  then show e: "3 \<le> n \<and> iop_states ps = [0x20] \<longleftrightarrow> talk ps" using assms(3) by (simp add: talk_iff)
  show "rb_Phase b = AppleAgxRtkitBootReady \<longleftrightarrow> talk ps"
    using assms(2) unfolding boot_at_def e by blast
qed

lemma boot_run_snoc: "boot_run (ps @ [p]) = boot_next p (boot_run ps)"
  by (simp add: boot_run_def)

lemma boot_run_states:
  "if \<exists>k\<le>length ps. talk (take k ps) then rb_Phase (boot_run ps) = AppleAgxRtkitBootReady
   else if in_talk ps then \<exists>n. spoken n (core ps) \<and> boot_at (boot_run ps) n (iop_states ps = [0x20])
   else rb_Phase (boot_run ps) = AppleAgxRtkitBootFailed"
proof (induction ps rule: rev_induct)
  case Nil
  have "\<not> talk []" by (simp add: talk_def dialogue_def heard_def)
  moreover have "boot_at (boot_run []) 0 (iop_states [] = [0x20])"
    using boot_at_start by (simp add: boot_run_def heard_def)
  moreover have "spoken 0 (core [])" by (simp add: heard_def spoken.silence)
  ultimately show ?case by (auto simp: in_talk_def heard_def)
next
  case (snoc p ps)
  have ex: "(\<exists>k\<le>length (ps @ [p]). talk (take k (ps @ [p]))) \<longleftrightarrow>
      (\<exists>k\<le>length ps. talk (take k ps)) \<or> talk (ps @ [p])"
    by (auto simp: le_Suc_eq)
  have stuck: "boot_run (ps @ [p]) = boot_run ps"
    if "rb_Phase (boot_run ps) = AppleAgxRtkitBootReady \<or> rb_Phase (boot_run ps) = AppleAgxRtkitBootFailed"
    unfolding boot_run_snoc using that by (intro boot_next_stuck) (auto simp: under_way_def)
  consider (ready) "\<exists>k\<le>length ps. talk (take k ps)"
    | (open') "\<not> (\<exists>k\<le>length ps. talk (take k ps))" "in_talk ps"
    | (failed) "\<not> (\<exists>k\<le>length ps. talk (take k ps))" "\<not> in_talk ps" by blast
  then show ?case
  proof cases
    case ready
    then show ?thesis using snoc stuck unfolding ex by simp
  next
    case failed
    then have "\<not> in_talk (ps @ [p])" using in_talk_prefix by blast
    then show ?thesis using failed snoc stuck unfolding ex by (simp add: talk_iff)
  next
    case open'
    with snoc obtain n where n: "spoken n (core ps)" "boot_at (boot_run ps) n (iop_states ps = [0x20])" by auto
    have "\<not> talk ps" using open'(1) by (metis order_refl take_all)
    then have "\<not> (3 \<le> n \<and> iop_states ps = [0x20])" unfolding boot_at_talk(2) [OF n open'(2)] .
    note s = boot_next_talk [OF open'(2) n this, of p, folded boot_run_snoc]
    show ?thesis
    proof (cases "in_talk (ps @ [p])")
      case False
      then show ?thesis using s open' unfolding ex by (simp add: talk_iff)
    next
      case True
      then obtain m where m: "spoken m (core (ps @ [p]))"
        "boot_at (boot_run (ps @ [p])) m (iop_states (ps @ [p]) = [0x20])" using s by auto
      have ready: "rb_Phase (boot_run (ps @ [p])) = AppleAgxRtkitBootReady \<longleftrightarrow> talk (ps @ [p])"
        by (rule boot_at_talk(1) [OF m True])
      show ?thesis
      proof (cases "talk (ps @ [p])")
        case t: True
        show ?thesis unfolding ex if_P [OF disjI2 [OF t]] using ready t by blast
      next
        case t: False
        with open'(1) have no: "\<not> ((\<exists>k\<le>length ps. talk (take k ps)) \<or> talk (ps @ [p]))" by blast
        show ?thesis unfolding ex if_not_P [OF no] if_P [OF True] using m by blast
      qed
    qed
  qed
qed

lemma boot_ready_iff: "AppleAgxRtkitBootIsReady (boot_run ps) \<longleftrightarrow> (\<exists>k\<le>length ps. talk (take k ps))"
proof -
  have "rb_Phase (boot_run ps) \<noteq> AppleAgxRtkitBootReady" if no: "\<not> (\<exists>k\<le>length ps. talk (take k ps))"
  proof (cases "in_talk ps")
    case True
    then obtain n where n: "spoken n (core ps)" "boot_at (boot_run ps) n (iop_states ps = [0x20])"
      using boot_run_states [of ps] no by auto
    have "\<not> talk ps" using no by (metis order_refl take_all)
    then show ?thesis using boot_at_talk(1) [OF n True] by blast
  qed (use boot_run_states [of ps] no in simp)
  then show ?thesis using boot_run_states [of ps] unfolding AppleAgxRtkitBootIsReady_def by argo
qed

section \<open>Properties\<close>


text \<open>C10. Started and fed the messages \<open>ps\<close> of the management endpoint, whatever they are, the handshake is
  ready if and only if some first part of them is a complete dialogue: the hello with a version range,
  then endpoint maps of which exactly the last is so marked, then the power acknowledgement of the
  application processor, with exactly one power acknowledgement of the coprocessor at any place among
  them, both for the state 0x20, and nothing else.\<close>

theorem rtkit_boot_dialogue:
  "AppleAgxRtkitBootIsReady (boot_run ps) \<longleftrightarrow> (\<exists>k. k \<le> length ps \<and> talk (take k ps))"
  using boot_ready_iff by blast

text \<open>The handshake never fills its array of eight messages past the end, in any state and for any
  payload and endpoint, and every message it puts there is one the codec accepts.\<close>

theorem rtkit_boot_output_bounded:
  "case AppleAgxRtkitBootHandle boot payload endpoint of (r, boot', out) \<Rightarrow>
     length (bo_Message out) = 8 \<and> bo_Count out \<le> 8 \<and> list_all is_message (take (bo_Count out) (bo_Message out))"
proof -
  obtain r boot' out where h: "AppleAgxRtkitBootHandle boot payload endpoint = (r, boot', out)"
    by (metis prod_cases3)
  from handle_output_ok [OF h] show ?thesis
    unfolding h by (auto simp: output_ok_def list_all_length)
qed

end
