(* ===== verification/Transport.thy ===== *)
theory Transport
  imports Rtkit
begin

text \<open>
  The mailbox of the coprocessor, \<^verbatim>\<open>drivers/apple-agx/shared/src/apple_agx_asc_transport.c\<close>, and the lock
  shared with its firmware, \<^verbatim>\<open>drivers/apple-agx/shared/src/apple_agx_gfx_handoff.c\<close>.  The callbacks of the
  two I/O structures are functions on an environment of any type \<open>'e\<close> that stands for the device, the
  firmware and the clock; a callback pointer that the code tests for null is an option.  A read that
  fails gives no value, and its target keeps what it had.  The polling loops need not end, since the
  environment may never become ready and its clock may stand still: they are partial functions, whose
  value is \<open>None\<close> where the C function does not return.
\<close>

section \<open>The mailbox\<close>

datatype APPLE_AGX_ASC_RESULT =
    AppleAgxAscResultOk | AppleAgxAscResultInvalidArgument | AppleAgxAscResultTimeout
  | AppleAgxAscResultClockRegression | AppleAgxAscResultTransportFailed

record APPLE_AGX_ASC_MESSAGE =
  am_Payload :: u64
  am_Endpoint :: u32

record 'e APPLE_AGX_ASC_IO =
  io_NowMs :: "('e \<Rightarrow> u64 \<times> 'e) option"
  io_Read32 :: "(u32 \<Rightarrow> 'e \<Rightarrow> u32 option \<times> 'e) option"
  io_Read64 :: "(u32 \<Rightarrow> 'e \<Rightarrow> u64 option \<times> 'e) option"
  io_Write32 :: "(u32 \<Rightarrow> u32 \<Rightarrow> 'e \<Rightarrow> bool \<times> 'e) option"
  io_Write64 :: "(u32 \<Rightarrow> u64 \<Rightarrow> 'e \<Rightarrow> bool \<times> 'e) option"
  io_Pause :: "('e \<Rightarrow> bool \<times> 'e) option"

abbreviation ASC_CPU_CONTROL_OFFSET :: u32 where "ASC_CPU_CONTROL_OFFSET \<equiv> 0x44"
abbreviation ASC_CPU_STATUS_OFFSET :: u32 where "ASC_CPU_STATUS_OFFSET \<equiv> 0x48"
abbreviation ASC_INBOX_CTRL_OFFSET :: u32 where "ASC_INBOX_CTRL_OFFSET \<equiv> 0x8110"
abbreviation ASC_OUTBOX_CTRL_OFFSET :: u32 where "ASC_OUTBOX_CTRL_OFFSET \<equiv> 0x8114"
abbreviation ASC_INBOX0_OFFSET :: u32 where "ASC_INBOX0_OFFSET \<equiv> 0x8800"
abbreviation ASC_INBOX1_OFFSET :: u32 where "ASC_INBOX1_OFFSET \<equiv> 0x8808"
abbreviation ASC_OUTBOX0_OFFSET :: u32 where "ASC_OUTBOX0_OFFSET \<equiv> 0x8830"
abbreviation ASC_OUTBOX1_OFFSET :: u32 where "ASC_OUTBOX1_OFFSET \<equiv> 0x8838"
abbreviation ASC_CPU_RUN :: u32 where "ASC_CPU_RUN \<equiv> 0x10"
abbreviation ASC_CPU_RUNNING :: u32 where "ASC_CPU_RUNNING \<equiv> 1"
abbreviation ASC_CPU_STOPPED :: u32 where "ASC_CPU_STOPPED \<equiv> 2"
abbreviation ASC_MAILBOX_FULL :: u32 where "ASC_MAILBOX_FULL \<equiv> 0x10000"
abbreviation ASC_MAILBOX_EMPTY :: u32 where "ASC_MAILBOX_EMPTY \<equiv> 0x20000"

definition AppleAgxAscReadIoValid :: "'e APPLE_AGX_ASC_IO \<Rightarrow> bool" where
  "AppleAgxAscReadIoValid io \<longleftrightarrow> io_Read32 io \<noteq> None"

definition AppleAgxAscSendIoValid :: "'e APPLE_AGX_ASC_IO \<Rightarrow> bool" where
  "AppleAgxAscSendIoValid io \<longleftrightarrow> io_NowMs io \<noteq> None \<and> io_Read32 io \<noteq> None \<and> io_Write64 io \<noteq> None"

definition AppleAgxAscReceiveIoValid :: "'e APPLE_AGX_ASC_IO \<Rightarrow> bool" where
  "AppleAgxAscReceiveIoValid io \<longleftrightarrow> io_NowMs io \<noteq> None \<and> io_Read32 io \<noteq> None \<and> io_Read64 io \<noteq> None"

definition AppleAgxAscCheckDeadline ::
  "'e APPLE_AGX_ASC_IO \<Rightarrow> u64 \<Rightarrow> u64 \<Rightarrow> 'e \<Rightarrow> APPLE_AGX_ASC_RESULT \<times> 'e" where
  "AppleAgxAscCheckDeadline io startMs deadlineMs e =
     (case the (io_NowMs io) e of (now, e) \<Rightarrow>
        (if now < startMs then AppleAgxAscResultClockRegression
         else if now > deadlineMs then AppleAgxAscResultTimeout else AppleAgxAscResultOk, e))"

text \<open>The reads of one control register: the value is present exactly when the result is ok.\<close>

definition read_register ::
  "'e APPLE_AGX_ASC_IO \<Rightarrow> u32 \<Rightarrow> 'e \<Rightarrow> (APPLE_AGX_ASC_RESULT + u32) \<times> 'e" where
  "read_register io offset e =
     (if \<not> AppleAgxAscReadIoValid io then (Inl AppleAgxAscResultInvalidArgument, e)
      else case the (io_Read32 io) offset e of
             (None, e) \<Rightarrow> (Inl AppleAgxAscResultTransportFailed, e)
           | (Some v, e) \<Rightarrow> (Inr v, e))"

definition AppleAgxAscReadCpuStatus ::
  "'e APPLE_AGX_ASC_IO \<Rightarrow> 'e \<Rightarrow> (APPLE_AGX_ASC_RESULT + u32) \<times> 'e" where
  "AppleAgxAscReadCpuStatus io e = read_register io ASC_CPU_STATUS_OFFSET e"

definition AppleAgxAscReadInboxControl ::
  "'e APPLE_AGX_ASC_IO \<Rightarrow> 'e \<Rightarrow> (APPLE_AGX_ASC_RESULT + u32) \<times> 'e" where
  "AppleAgxAscReadInboxControl io e = read_register io ASC_INBOX_CTRL_OFFSET e"

definition AppleAgxAscReadOutboxControl ::
  "'e APPLE_AGX_ASC_IO \<Rightarrow> 'e \<Rightarrow> (APPLE_AGX_ASC_RESULT + u32) \<times> 'e" where
  "AppleAgxAscReadOutboxControl io e = read_register io ASC_OUTBOX_CTRL_OFFSET e"

definition AppleAgxAscSetRun :: "'e APPLE_AGX_ASC_IO \<Rightarrow> bool \<Rightarrow> 'e \<Rightarrow> APPLE_AGX_ASC_RESULT \<times> 'e" where
  "AppleAgxAscSetRun io run e =
     (if \<not> AppleAgxAscReadIoValid io \<or> io_Write32 io = None then (AppleAgxAscResultInvalidArgument, e)
      else case the (io_Read32 io) ASC_CPU_CONTROL_OFFSET e of
             (None, e) \<Rightarrow> (AppleAgxAscResultTransportFailed, e)
           | (Some control, e) \<Rightarrow>
               let control = (if run then control OR ASC_CPU_RUN else control AND NOT ASC_CPU_RUN)
               in case the (io_Write32 io) ASC_CPU_CONTROL_OFFSET control e of
                    (False, e) \<Rightarrow> (AppleAgxAscResultTransportFailed, e)
                  | (True, e) \<Rightarrow> (AppleAgxAscResultOk, e))"

text \<open>The three loops that wait for a register: read it, stop when it is ready, pause, and check the
  clock.  The value is that of the last read.\<close>

definition asc_pause :: "'e APPLE_AGX_ASC_IO \<Rightarrow> 'e \<Rightarrow> bool \<times> 'e" where
  "asc_pause io e = (case io_Pause io of None \<Rightarrow> (True, e) | Some pause \<Rightarrow> pause e)"

partial_function (option) asc_poll ::
  "'e APPLE_AGX_ASC_IO \<Rightarrow> u32 \<Rightarrow> (u32 \<Rightarrow> bool) \<Rightarrow> u64 \<Rightarrow> u64 \<Rightarrow> 'e \<Rightarrow> ((APPLE_AGX_ASC_RESULT + u32) \<times> 'e) option" where
  "asc_poll io offset ready startMs deadlineMs e =
     (case the (io_Read32 io) offset e of
        (None, e) \<Rightarrow> Some (Inl AppleAgxAscResultTransportFailed, e)
      | (Some v, e) \<Rightarrow>
          if ready v then Some (Inr v, e)
          else case asc_pause io e of
                 (going, e) \<Rightarrow>
                   if \<not> going then Some (Inl AppleAgxAscResultTransportFailed, e)
                   else case AppleAgxAscCheckDeadline io startMs deadlineMs e of
                          (r, e) \<Rightarrow> if r = AppleAgxAscResultOk then asc_poll io offset ready startMs deadlineMs e
                                    else Some (Inl r, e))"

text \<open>What every wait starts with: one reading of the clock.\<close>

definition asc_wait ::
  "'e APPLE_AGX_ASC_IO \<Rightarrow> u32 \<Rightarrow> (u32 \<Rightarrow> bool) \<Rightarrow> u64 \<Rightarrow> 'e \<Rightarrow> ((APPLE_AGX_ASC_RESULT + u32) \<times> 'e) option" where
  "asc_wait io offset ready deadlineMs e =
     (case the (io_NowMs io) e of (startMs, e) \<Rightarrow>
        if startMs > deadlineMs then Some (Inl AppleAgxAscResultTimeout, e)
        else asc_poll io offset ready startMs deadlineMs e)"

definition AppleAgxAscWaitRunning ::
  "'e APPLE_AGX_ASC_IO \<Rightarrow> u64 \<Rightarrow> 'e \<Rightarrow> ((APPLE_AGX_ASC_RESULT + u32) \<times> 'e) option" where
  "AppleAgxAscWaitRunning io deadlineMs e =
     (if io_NowMs io = None \<or> io_Read32 io = None then Some (Inl AppleAgxAscResultInvalidArgument, e)
      else asc_wait io ASC_CPU_STATUS_OFFSET
             (\<lambda>status. status AND ASC_CPU_RUNNING \<noteq> 0 \<and> status AND ASC_CPU_STOPPED = 0) deadlineMs e)"

definition AppleAgxAscSend ::
  "'e APPLE_AGX_ASC_IO \<Rightarrow> u64 \<Rightarrow> u32 \<Rightarrow> u64 \<Rightarrow> 'e \<Rightarrow> (APPLE_AGX_ASC_RESULT \<times> 'e) option" where
  "AppleAgxAscSend io payload endpoint deadlineMs e =
     (if \<not> AppleAgxAscSendIoValid io \<or> endpoint > 0xff then Some (AppleAgxAscResultInvalidArgument, e)
      else case asc_wait io ASC_INBOX_CTRL_OFFSET (\<lambda>control. control AND ASC_MAILBOX_FULL = 0) deadlineMs e of
             None \<Rightarrow> None
           | Some (Inl r, e) \<Rightarrow> Some (r, e)
           | Some (Inr control, e) \<Rightarrow>
               (case the (io_Write64 io) ASC_INBOX0_OFFSET payload e of
                  (False, e) \<Rightarrow> Some (AppleAgxAscResultTransportFailed, e)
                | (True, e) \<Rightarrow>
                    (case the (io_Write64 io) ASC_INBOX1_OFFSET (ucast endpoint) e of
                       (False, e) \<Rightarrow> Some (AppleAgxAscResultTransportFailed, e)
                     | (True, e) \<Rightarrow> Some (AppleAgxAscResultOk, e))))"

text \<open>The two reads that take a message out of the mailbox.\<close>

definition take_message ::
  "'e APPLE_AGX_ASC_IO \<Rightarrow> 'e \<Rightarrow> (APPLE_AGX_ASC_RESULT + APPLE_AGX_ASC_MESSAGE) \<times> 'e" where
  "take_message io e =
     (case the (io_Read64 io) ASC_OUTBOX0_OFFSET e of
        (None, e) \<Rightarrow> (Inl AppleAgxAscResultTransportFailed, e)
      | (Some payload, e) \<Rightarrow>
          (case the (io_Read64 io) ASC_OUTBOX1_OFFSET e of
             (None, e) \<Rightarrow> (Inl AppleAgxAscResultTransportFailed, e)
           | (Some selector, e) \<Rightarrow>
               (Inr \<lparr> am_Payload = payload, am_Endpoint = ucast (selector AND 0xff) \<rparr>, e)))"

text \<open>No message is \<open>Inr None\<close>.\<close>

definition AppleAgxAscTryReceive ::
  "'e APPLE_AGX_ASC_IO \<Rightarrow> 'e \<Rightarrow> (APPLE_AGX_ASC_RESULT + APPLE_AGX_ASC_MESSAGE option) \<times> 'e" where
  "AppleAgxAscTryReceive io e =
     (if io_Read32 io = None \<or> io_Read64 io = None then (Inl AppleAgxAscResultInvalidArgument, e)
      else case the (io_Read32 io) ASC_OUTBOX_CTRL_OFFSET e of
             (None, e) \<Rightarrow> (Inl AppleAgxAscResultTransportFailed, e)
           | (Some control, e) \<Rightarrow>
               if control AND ASC_MAILBOX_EMPTY \<noteq> 0 then (Inr None, e)
               else case take_message io e of
                      (Inl r, e) \<Rightarrow> (Inl r, e)
                    | (Inr m, e) \<Rightarrow> (Inr (Some m), e))"

definition AppleAgxAscReceive ::
  "'e APPLE_AGX_ASC_IO \<Rightarrow> u64 \<Rightarrow> 'e \<Rightarrow> ((APPLE_AGX_ASC_RESULT + APPLE_AGX_ASC_MESSAGE) \<times> 'e) option" where
  "AppleAgxAscReceive io deadlineMs e =
     (if \<not> AppleAgxAscReceiveIoValid io then Some (Inl AppleAgxAscResultInvalidArgument, e)
      else case asc_wait io ASC_OUTBOX_CTRL_OFFSET (\<lambda>control. control AND ASC_MAILBOX_EMPTY = 0) deadlineMs e of
             None \<Rightarrow> None
           | Some (Inl r, e) \<Rightarrow> Some (Inl r, e)
           | Some (Inr control, e) \<Rightarrow> Some (take_message io e))"

end
