(* ===== verification/Handoff.thy ===== *)
theory Handoff
  imports Prelude
begin

text \<open>
  The lock and the handshake the driver shares with the graphics firmware through one page of memory,
  \<^verbatim>\<open>drivers/apple-agx/shared/src/apple_agx_gfx_handoff.c\<close>.  The callbacks are functions on an environment
  \<open>'e\<close> that stands for the memory, the firmware and the clock; the flags of the state, unsigned chars
  that hold zero or one, are truth values.  The waits are partial functions: \<open>None\<close> is not returning.
\<close>

section \<open>State\<close>

datatype APPLE_AGX_GFX_HANDOFF_RESULT =
    AppleAgxGfxHandoffResultOk | AppleAgxGfxHandoffResultInvalidArgument
  | AppleAgxGfxHandoffResultInvalidGeometry | AppleAgxGfxHandoffResultInvalidState
  | AppleAgxGfxHandoffResultAccessFailed | AppleAgxGfxHandoffResultTimeout

record APPLE_AGX_GFX_HANDOFF_REGION =
  hr_PhysicalBase :: u64
  hr_Length :: u32

record 'e APPLE_AGX_GFX_HANDOFF_IO =
  hi_Read8 :: "(u32 \<Rightarrow> 'e \<Rightarrow> u8 option \<times> 'e) option"
  hi_Read32 :: "(u32 \<Rightarrow> 'e \<Rightarrow> u32 option \<times> 'e) option"
  hi_Read64 :: "(u32 \<Rightarrow> 'e \<Rightarrow> u64 option \<times> 'e) option"
  hi_Write8 :: "(u32 \<Rightarrow> u8 \<Rightarrow> 'e \<Rightarrow> bool \<times> 'e) option"
  hi_Write32 :: "(u32 \<Rightarrow> u32 \<Rightarrow> 'e \<Rightarrow> bool \<times> 'e) option"
  hi_Write64 :: "(u32 \<Rightarrow> u64 \<Rightarrow> 'e \<Rightarrow> bool \<times> 'e) option"
  hi_Barrier :: "('e \<Rightarrow> 'e) option"
  hi_Relax :: "('e \<Rightarrow> 'e) option"
  hi_Now :: "('e \<Rightarrow> u64 \<times> 'e) option"

record 'e APPLE_AGX_GFX_HANDOFF_STATE =
  hs_Region :: APPLE_AGX_GFX_HANDOFF_REGION
  hs_Io :: "'e APPLE_AGX_GFX_HANDOFF_IO"
  hs_Bound :: bool
  hs_Locked :: bool
  hs_Initialized :: bool

abbreviation HANDOFF_BASE :: u64 where "HANDOFF_BASE \<equiv> 0x9fff70000"
abbreviation HANDOFF_SIZE :: u32 where "HANDOFF_SIZE \<equiv> 0x4000"
abbreviation MAGIC_AP_OFFSET :: u32 where "MAGIC_AP_OFFSET \<equiv> 0x000"
abbreviation MAGIC_FW_OFFSET :: u32 where "MAGIC_FW_OFFSET \<equiv> 0x008"
abbreviation LOCK_AP_OFFSET :: u32 where "LOCK_AP_OFFSET \<equiv> 0x010"
abbreviation LOCK_FW_OFFSET :: u32 where "LOCK_FW_OFFSET \<equiv> 0x011"
abbreviation TURN_OFFSET :: u32 where "TURN_OFFSET \<equiv> 0x014"
abbreviation FLUSH_STATE_OFFSET :: u32 where "FLUSH_STATE_OFFSET \<equiv> 0x020"
abbreviation FLUSH_ADDR_OFFSET :: u32 where "FLUSH_ADDR_OFFSET \<equiv> 0x028"
abbreviation FLUSH_SIZE_OFFSET :: u32 where "FLUSH_SIZE_OFFSET \<equiv> 0x030"
abbreviation FLUSH_STRIDE :: u32 where "FLUSH_STRIDE \<equiv> 0x018"
abbreviation PPL_MAGIC :: u64 where "PPL_MAGIC \<equiv> 0x4b1d000000000002"

definition io_valid :: "'e APPLE_AGX_GFX_HANDOFF_IO \<Rightarrow> bool" where
  "io_valid io \<longleftrightarrow> hi_Read8 io \<noteq> None \<and> hi_Read32 io \<noteq> None \<and> hi_Read64 io \<noteq> None \<and>
     hi_Write8 io \<noteq> None \<and> hi_Write32 io \<noteq> None \<and> hi_Write64 io \<noteq> None \<and>
     hi_Barrier io \<noteq> None \<and> hi_Relax io \<noteq> None \<and> hi_Now io \<noteq> None"

section \<open>Accesses\<close>

text \<open>An access that succeeds is followed by the barrier.\<close>

definition fenced_read :: "'e APPLE_AGX_GFX_HANDOFF_STATE \<Rightarrow> 'v option \<times> 'e \<Rightarrow> 'v option \<times> 'e" where
  "fenced_read s r = (case r of (None, e) \<Rightarrow> (None, e) | (Some v, e) \<Rightarrow> (Some v, the (hi_Barrier (hs_Io s)) e))"

definition fenced_write :: "'e APPLE_AGX_GFX_HANDOFF_STATE \<Rightarrow> bool \<times> 'e \<Rightarrow> bool \<times> 'e" where
  "fenced_write s r = (case r of (done', e) \<Rightarrow> if done' then (True, the (hi_Barrier (hs_Io s)) e) else (False, e))"

definition read8 :: "'e APPLE_AGX_GFX_HANDOFF_STATE \<Rightarrow> u32 \<Rightarrow> 'e \<Rightarrow> u8 option \<times> 'e" where
  "read8 s offset e = fenced_read s (the (hi_Read8 (hs_Io s)) offset e)"

definition read32 :: "'e APPLE_AGX_GFX_HANDOFF_STATE \<Rightarrow> u32 \<Rightarrow> 'e \<Rightarrow> u32 option \<times> 'e" where
  "read32 s offset e = fenced_read s (the (hi_Read32 (hs_Io s)) offset e)"

definition read64 :: "'e APPLE_AGX_GFX_HANDOFF_STATE \<Rightarrow> u32 \<Rightarrow> 'e \<Rightarrow> u64 option \<times> 'e" where
  "read64 s offset e = fenced_read s (the (hi_Read64 (hs_Io s)) offset e)"

definition write8 :: "'e APPLE_AGX_GFX_HANDOFF_STATE \<Rightarrow> u32 \<Rightarrow> u8 \<Rightarrow> 'e \<Rightarrow> bool \<times> 'e" where
  "write8 s offset v e = fenced_write s (the (hi_Write8 (hs_Io s)) offset v e)"

definition write32 :: "'e APPLE_AGX_GFX_HANDOFF_STATE \<Rightarrow> u32 \<Rightarrow> u32 \<Rightarrow> 'e \<Rightarrow> bool \<times> 'e" where
  "write32 s offset v e = fenced_write s (the (hi_Write32 (hs_Io s)) offset v e)"

definition write64 :: "'e APPLE_AGX_GFX_HANDOFF_STATE \<Rightarrow> u32 \<Rightarrow> u64 \<Rightarrow> 'e \<Rightarrow> bool \<times> 'e" where
  "write64 s offset v e = fenced_write s (the (hi_Write64 (hs_Io s)) offset v e)"

definition relax_once :: "'e APPLE_AGX_GFX_HANDOFF_STATE \<Rightarrow> 'e \<Rightarrow> 'e" where
  "relax_once s e = the (hi_Relax (hs_Io s)) e"

definition timed_out :: "'e APPLE_AGX_GFX_HANDOFF_STATE \<Rightarrow> u64 \<Rightarrow> u64 \<Rightarrow> 'e \<Rightarrow> bool \<times> 'e" where
  "timed_out s start timeout e =
     (case the (hi_Now (hs_Io s)) e of (now, e) \<Rightarrow> (now - start \<ge> timeout, e))"

definition relinquish ::
  "'e APPLE_AGX_GFX_HANDOFF_STATE \<Rightarrow> APPLE_AGX_GFX_HANDOFF_RESULT \<Rightarrow> 'e \<Rightarrow> APPLE_AGX_GFX_HANDOFF_RESULT \<times> 'e" where
  "relinquish s result e =
     (case write8 s LOCK_AP_OFFSET 0 e of (done', e) \<Rightarrow>
        if \<not> done' then (AppleAgxGfxHandoffResultAccessFailed, e) else (result, e))"

section \<open>Operations\<close>

definition AppleAgxGfxHandoffBindJ313 ::
  "'e APPLE_AGX_GFX_HANDOFF_STATE \<Rightarrow> APPLE_AGX_GFX_HANDOFF_REGION \<Rightarrow> 'e APPLE_AGX_GFX_HANDOFF_IO
   \<Rightarrow> APPLE_AGX_GFX_HANDOFF_RESULT \<times> 'e APPLE_AGX_GFX_HANDOFF_STATE" where
  "AppleAgxGfxHandoffBindJ313 s r io =
     (if \<not> io_valid io \<or> hs_Bound s then (AppleAgxGfxHandoffResultInvalidArgument, s)
      else if hr_PhysicalBase r \<noteq> HANDOFF_BASE \<or> hr_Length r \<noteq> HANDOFF_SIZE \<or> hr_Length r < 0x648
      then (AppleAgxGfxHandoffResultInvalidGeometry, s)
      else (AppleAgxGfxHandoffResultOk,
            s\<lparr> hs_Region := r, hs_Io := io, hs_Locked := False, hs_Initialized := False, hs_Bound := True \<rparr>))"

text \<open>Waiting for the turn, and the loop of the acquisition.\<close>

partial_function (option) turn_wait ::
  "'e APPLE_AGX_GFX_HANDOFF_STATE \<Rightarrow> u64 \<Rightarrow> u64 \<Rightarrow> 'e \<Rightarrow> (APPLE_AGX_GFX_HANDOFF_RESULT \<times> 'e) option" where
  "turn_wait s start timeout e =
     (case read32 s TURN_OFFSET e of
        (None, e) \<Rightarrow> Some (AppleAgxGfxHandoffResultAccessFailed, e)
      | (Some turn, e) \<Rightarrow>
          if turn = 0 then Some (AppleAgxGfxHandoffResultOk, e)
          else case timed_out s start timeout e of
                 (late, e) \<Rightarrow> if late then Some (AppleAgxGfxHandoffResultTimeout, e)
                               else turn_wait s start timeout (relax_once s e))"

partial_function (option) acquire_loop ::
  "'e APPLE_AGX_GFX_HANDOFF_STATE \<Rightarrow> u64 \<Rightarrow> u64 \<Rightarrow> 'e \<Rightarrow> (APPLE_AGX_GFX_HANDOFF_RESULT \<times> 'e) option" where
  "acquire_loop s start timeout e =
     (case read8 s LOCK_FW_OFFSET e of
        (None, e) \<Rightarrow> Some (relinquish s AppleAgxGfxHandoffResultAccessFailed e)
      | (Some fw, e) \<Rightarrow>
          if fw = 0 then Some (AppleAgxGfxHandoffResultOk, e)
          else case read32 s TURN_OFFSET e of
                 (None, e) \<Rightarrow> Some (relinquish s AppleAgxGfxHandoffResultAccessFailed e)
               | (Some turn, e) \<Rightarrow>
                   if turn \<noteq> 0
                   then (case write8 s LOCK_AP_OFFSET 0 e of (done', e) \<Rightarrow>
                           if \<not> done' then Some (AppleAgxGfxHandoffResultAccessFailed, e)
                           else case turn_wait s start timeout e of
                                  None \<Rightarrow> None
                                | Some (r, e) \<Rightarrow>
                                    if r \<noteq> AppleAgxGfxHandoffResultOk then Some (r, e)
                                    else case write8 s LOCK_AP_OFFSET 1 e of (done', e) \<Rightarrow>
                                           if \<not> done' then Some (AppleAgxGfxHandoffResultAccessFailed, e)
                                           else acquire_loop s start timeout e)
                   else case timed_out s start timeout e of
                          (late, e) \<Rightarrow>
                            if late then Some (relinquish s AppleAgxGfxHandoffResultTimeout e)
                            else acquire_loop s start timeout (relax_once s e))"

definition AppleAgxGfxHandoffAcquire ::
  "'e APPLE_AGX_GFX_HANDOFF_STATE \<Rightarrow> u64 \<Rightarrow> 'e
   \<Rightarrow> (APPLE_AGX_GFX_HANDOFF_RESULT \<times> 'e APPLE_AGX_GFX_HANDOFF_STATE \<times> 'e) option" where
  "AppleAgxGfxHandoffAcquire s timeout e =
     (if \<not> hs_Bound s \<or> hs_Locked s then Some (AppleAgxGfxHandoffResultInvalidState, s, e)
      else case the (hi_Now (hs_Io s)) e of (start, e) \<Rightarrow>
        case write8 s LOCK_AP_OFFSET 1 e of (done', e) \<Rightarrow>
          if \<not> done' then Some (AppleAgxGfxHandoffResultAccessFailed, s, e)
          else case acquire_loop s start timeout e of
                 None \<Rightarrow> None
               | Some (r, e) \<Rightarrow>
                   Some (r, if r = AppleAgxGfxHandoffResultOk then s\<lparr> hs_Locked := True \<rparr> else s, e))"

definition AppleAgxGfxHandoffRelease ::
  "'e APPLE_AGX_GFX_HANDOFF_STATE \<Rightarrow> 'e
   \<Rightarrow> APPLE_AGX_GFX_HANDOFF_RESULT \<times> 'e APPLE_AGX_GFX_HANDOFF_STATE \<times> 'e" where
  "AppleAgxGfxHandoffRelease s e =
     (if \<not> hs_Bound s \<or> \<not> hs_Locked s then (AppleAgxGfxHandoffResultInvalidState, s, e)
      else case write32 s TURN_OFFSET 1 e of (done', e) \<Rightarrow>
        if \<not> done' then (AppleAgxGfxHandoffResultAccessFailed, s, e)
        else case write8 s LOCK_AP_OFFSET 0 e of (done', e) \<Rightarrow>
          if \<not> done' then (AppleAgxGfxHandoffResultAccessFailed, s, e)
          else (AppleAgxGfxHandoffResultOk, s\<lparr> hs_Locked := False \<rparr>, e))"

text \<open>Waiting for the firmware's half of the magic, with the lock held.\<close>

partial_function (option) magic_wait ::
  "'e APPLE_AGX_GFX_HANDOFF_STATE \<Rightarrow> u64 \<Rightarrow> 'e \<Rightarrow> (APPLE_AGX_GFX_HANDOFF_RESULT \<times> 'e) option" where
  "magic_wait s deadline e =
     (case read64 s MAGIC_FW_OFFSET e of
        (None, e) \<Rightarrow> Some (AppleAgxGfxHandoffResultAccessFailed, e)
      | (Some magic, e) \<Rightarrow>
          if magic = PPL_MAGIC then Some (AppleAgxGfxHandoffResultOk, e)
          else case the (hi_Now (hs_Io s)) e of (now, e) \<Rightarrow>
                 if now \<ge> deadline then Some (AppleAgxGfxHandoffResultTimeout, e)
                 else magic_wait s deadline (relax_once s e))"

fun clear_flush :: "'e APPLE_AGX_GFX_HANDOFF_STATE \<Rightarrow> nat list \<Rightarrow> 'e \<Rightarrow> bool \<times> 'e" where
  "clear_flush s [] e = (True, e)"
| "clear_flush s (index # rest) e =
     (let offset = of_nat index * FLUSH_STRIDE
      in case write64 s (FLUSH_STATE_OFFSET + offset) 0 e of (done', e) \<Rightarrow>
           if \<not> done' then (False, e)
           else case write64 s (FLUSH_ADDR_OFFSET + offset) 0 e of (done', e) \<Rightarrow>
             if \<not> done' then (False, e)
             else case write64 s (FLUSH_SIZE_OFFSET + offset) 0 e of (done', e) \<Rightarrow>
               if \<not> done' then (False, e) else clear_flush s rest e)"

definition AppleAgxGfxHandoffInitialize ::
  "'e APPLE_AGX_GFX_HANDOFF_STATE \<Rightarrow> u64 \<Rightarrow> 'e
   \<Rightarrow> (APPLE_AGX_GFX_HANDOFF_RESULT \<times> 'e APPLE_AGX_GFX_HANDOFF_STATE \<times> 'e) option" where
  "AppleAgxGfxHandoffInitialize s deadline e =
     (if \<not> hs_Bound s \<or> hs_Locked s then Some (AppleAgxGfxHandoffResultInvalidState, s, e)
      else if hs_Initialized s then Some (AppleAgxGfxHandoffResultOk, s, e)
      else case the (hi_Now (hs_Io s)) e of (now, e) \<Rightarrow>
        if now \<ge> deadline then Some (AppleAgxGfxHandoffResultTimeout, s, e)
        else case write64 s MAGIC_AP_OFFSET PPL_MAGIC e of (done', e) \<Rightarrow>
          if \<not> done' then Some (AppleAgxGfxHandoffResultAccessFailed, s, e)
          else case AppleAgxGfxHandoffAcquire s (deadline - now) e of
                 None \<Rightarrow> None
               | Some (r, s, e) \<Rightarrow>
                   if r \<noteq> AppleAgxGfxHandoffResultOk then Some (r, s, e)
                   else case magic_wait s deadline e of
                          None \<Rightarrow> None
                        | Some (r, e) \<Rightarrow>
                            (case AppleAgxGfxHandoffRelease s e of (released, s, e) \<Rightarrow>
                               if r \<noteq> AppleAgxGfxHandoffResultOk then Some (r, s, e)
                               else if released \<noteq> AppleAgxGfxHandoffResultOk then Some (released, s, e)
                               else case clear_flush s [0..<0x41] e of (done', e) \<Rightarrow>
                                      if \<not> done' then Some (AppleAgxGfxHandoffResultAccessFailed, s, e)
                                      else Some (AppleAgxGfxHandoffResultOk, s\<lparr> hs_Initialized := True \<rparr>, e)))"

section \<open>The lock byte\<close>

text \<open>What the driver relies on: its own lock byte belongs to it.  No access but a write of that byte changes it,
  neither do the barrier, the pause and the clock, and a write that fails has not changed it.  \<open>ap\<close> reads
  the byte out of the environment; everything else of the memory is the firmware's to change at any time.\<close>

definition own_lock_byte :: "'e APPLE_AGX_GFX_HANDOFF_IO \<Rightarrow> ('e \<Rightarrow> u8) \<Rightarrow> bool" where
  "own_lock_byte io ap \<longleftrightarrow> io_valid io \<and>
     (\<forall>a e. ap (snd (the (hi_Read8 io) a e)) = ap e) \<and>
     (\<forall>a e. ap (snd (the (hi_Read32 io) a e)) = ap e) \<and>
     (\<forall>a e. ap (snd (the (hi_Read64 io) a e)) = ap e) \<and>
     (\<forall>a v e. ap (snd (the (hi_Write8 io) a v e)) =
        (if fst (the (hi_Write8 io) a v e) \<and> a = LOCK_AP_OFFSET then v else ap e)) \<and>
     (\<forall>a v e. ap (snd (the (hi_Write32 io) a v e)) = ap e) \<and>
     (\<forall>a v e. ap (snd (the (hi_Write64 io) a v e)) = ap e) \<and>
     (\<forall>e. ap (the (hi_Barrier io) e) = ap e) \<and> (\<forall>e. ap (the (hi_Relax io) e) = ap e) \<and>
     (\<forall>e. ap (snd (the (hi_Now io) e)) = ap e)"

lemma own_lock_byteD:
  assumes "own_lock_byte (hs_Io s) ap"
  shows "read8 s a e = (x8, e') \<Longrightarrow> ap e' = ap e" and "read32 s a e = (x32, e') \<Longrightarrow> ap e' = ap e"
    and "read64 s a e = (x64, e') \<Longrightarrow> ap e' = ap e"
    and "write8 s LOCK_AP_OFFSET v e = (b, e') \<Longrightarrow> ap e' = (if b then v else ap e)"
    and "write32 s a w e = (b, e') \<Longrightarrow> ap e' = ap e" and "write64 s a q e = (b, e') \<Longrightarrow> ap e' = ap e"
    and "timed_out s start timeout e = (b, e') \<Longrightarrow> ap e' = ap e" and "ap (relax_once s e) = ap e"
    and "the (hi_Now (hs_Io s)) e = (now, e') \<Longrightarrow> ap e' = ap e"
  using assms unfolding own_lock_byte_def read8_def read32_def read64_def write8_def write32_def write64_def
    timed_out_def relax_once_def fenced_read_def fenced_write_def
  by (auto split: prod.splits option.splits if_splits) (metis fst_conv snd_conv)+

lemma turn_wait_ap:
  assumes ret: "turn_wait s start timeout e = Some x" and own: "own_lock_byte (hs_Io s) ap"
  shows "ap (snd x) = ap e"
proof (rule turn_wait.raw_induct [where P = "\<lambda>s start timeout e x. own_lock_byte (hs_Io s) ap \<longrightarrow> ap (snd x) = ap e",
      OF _ ret, rule_format, OF _ own], goal_cases)
  case (1 loop s start timeout e x)
  note own = 1(3) and body = 1(2)
  obtain turn e1 where turn: "read32 s TURN_OFFSET e = (turn, e1)" by fastforce
  obtain late e2 where late: "timed_out s start timeout e1 = (late, e2)" by fastforce
  have keep: "ap e1 = ap e" "ap e2 = ap e" "ap (relax_once s e2) = ap e"
    using own_lock_byteD(2) [OF own turn] own_lock_byteD(7) [OF own late] own_lock_byteD(8) [OF own, of e2] by simp_all
  show ?case using body turn late keep 1(1) [OF _ own, of start timeout "relax_once s e2" x]
    by (auto split: option.splits if_splits)
qed

lemma turn_wait_result:
  assumes ret: "turn_wait s start timeout e = Some x"
  shows "fst x \<in> {AppleAgxGfxHandoffResultOk, AppleAgxGfxHandoffResultAccessFailed, AppleAgxGfxHandoffResultTimeout}"
  by (rule turn_wait.raw_induct [where P = "\<lambda>s start timeout e x. fst x \<in>
      {AppleAgxGfxHandoffResultOk, AppleAgxGfxHandoffResultAccessFailed, AppleAgxGfxHandoffResultTimeout}", OF _ ret])
    (fastforce split: prod.splits option.splits if_splits)

text \<open>How the acquisition ends: with the byte set and the firmware's lock seen free while it was set, or with
  the byte cleared by the timeout.\<close>

definition acquired :: "'e APPLE_AGX_GFX_HANDOFF_STATE \<Rightarrow> ('e \<Rightarrow> u8) \<Rightarrow> APPLE_AGX_GFX_HANDOFF_RESULT \<times> 'e \<Rightarrow> bool" where
  "acquired s ap x \<longleftrightarrow> (case x of (r, e') \<Rightarrow>
     r \<in> {AppleAgxGfxHandoffResultOk, AppleAgxGfxHandoffResultAccessFailed, AppleAgxGfxHandoffResultTimeout} \<and>
     (r = AppleAgxGfxHandoffResultOk \<longrightarrow> ap e' = 1 \<and> (\<exists>e. ap e = 1 \<and> read8 s LOCK_FW_OFFSET e = (Some 0, e'))) \<and>
     (r = AppleAgxGfxHandoffResultTimeout \<longrightarrow> ap e' = 0))"

lemma relinquish_acquired:
  "own_lock_byte (hs_Io s) ap \<Longrightarrow> r \<in> {AppleAgxGfxHandoffResultAccessFailed, AppleAgxGfxHandoffResultTimeout} \<Longrightarrow>
    acquired s ap (relinquish s r e)"
  by (auto simp: acquired_def relinquish_def split: prod.splits dest: own_lock_byteD(4))

lemma acquire_loop_acquired:
  assumes ret: "acquire_loop s start timeout e = Some x" and own: "own_lock_byte (hs_Io s) ap" and ap: "ap e = 1"
  shows "acquired s ap x"
proof (rule acquire_loop.raw_induct [where P = "\<lambda>s start timeout e x. own_lock_byte (hs_Io s) ap \<longrightarrow> ap e = 1 \<longrightarrow> acquired s ap x",
      OF _ ret, rule_format, OF _ own ap], goal_cases)
  case (1 loop s start timeout e x)
  note IH = 1(1) and body = 1(2) and own = 1(3) and ap = 1(4)
  obtain fw e1 where fw: "read8 s LOCK_FW_OFFSET e = (fw, e1)" by fastforce
  have ap1: "ap e1 = 1" using own_lock_byteD(1) [OF own fw] ap by simp
  obtain turn e2 where turn: "read32 s TURN_OFFSET e1 = (turn, e2)" by fastforce
  have ap2: "ap e2 = 1" using own_lock_byteD(2) [OF own turn] ap1 by simp
  consider "fw = None" | "fw = Some 0" | f where "fw = Some f" "f \<noteq> 0" "turn = None"
    | f t where "fw = Some f" "f \<noteq> 0" "turn = Some t" "t \<noteq> 0" | f where "fw = Some f" "f \<noteq> 0" "turn = Some 0"
    by (cases fw; cases turn) auto
  then show ?case
  proof cases
    case 2
    then show ?thesis using body fw ap ap1 by (auto simp: acquired_def)
  next
    case 4
    obtain b e3 where off: "write8 s LOCK_AP_OFFSET 0 e2 = (b, e3)" by fastforce
    have ap3: "b \<Longrightarrow> ap e3 = 0" using own_lock_byteD(4) [OF own off] by simp
    show ?thesis
    proof (cases "b \<and> (\<exists>e4. turn_wait s start timeout e3 = Some (AppleAgxGfxHandoffResultOk, e4))")
      case False
      then show ?thesis using body fw turn 4 off ap3 turn_wait_ap [OF _ own] turn_wait_result
        by (fastforce simp: acquired_def split: option.splits if_splits)
    next
      case True
      then obtain e4 where e4: "b" "turn_wait s start timeout e3 = Some (AppleAgxGfxHandoffResultOk, e4)" by blast
      obtain c e5 where on: "write8 s LOCK_AP_OFFSET 1 e4 = (c, e5)" by fastforce
      have "c \<Longrightarrow> ap e5 = 1" using own_lock_byteD(4) [OF own on] by simp
      then show ?thesis using body fw turn 4 off e4 on IH own by (auto simp: acquired_def split: if_splits)
    qed
  next
    case 5
    obtain late e3 where late: "timed_out s start timeout e2 = (late, e3)" by fastforce
    have "ap (relax_once s e3) = 1" using own_lock_byteD(7) [OF own late] own_lock_byteD(8) [OF own] ap2 by simp
    then show ?thesis using body fw turn 5 late IH own relinquish_acquired [OF own] by (auto split: if_splits)
  qed (use body fw turn relinquish_acquired [OF own] in auto)
qed


lemma acquire_outcome:
  assumes run: "AppleAgxGfxHandoffAcquire s timeout e = Some (r, s', e')" and own: "own_lock_byte (hs_Io s) ap"
    and s: "hs_Bound s" "\<not> hs_Locked s"
  shows "(r = AppleAgxGfxHandoffResultAccessFailed \<and> s' = s) \<or>
    (acquired s ap (r, e') \<and> s' = (if r = AppleAgxGfxHandoffResultOk then s\<lparr> hs_Locked := True \<rparr> else s))"
proof -
  obtain start e1 where clock: "the (hi_Now (hs_Io s)) e = (start, e1)" by fastforce
  obtain b e2 where set: "write8 s LOCK_AP_OFFSET 1 e1 = (b, e2)" by fastforce
  have "b \<Longrightarrow> ap e2 = 1" using own_lock_byteD(4) [OF own set] by simp
  then have "b \<Longrightarrow> acquire_loop s start timeout e2 = Some x \<Longrightarrow> acquired s ap x" for x
    using acquire_loop_acquired [OF _ own] by blast
  then show ?thesis using run s clock set unfolding AppleAgxGfxHandoffAcquire_def
    by (auto split: option.splits if_splits)
qed

lemma release_outcome:
  assumes run: "AppleAgxGfxHandoffRelease s e = (r, s', e')" and own: "own_lock_byte (hs_Io s) ap"
    and s: "hs_Bound s" "hs_Locked s" and ap: "ap e = 1"
  shows "(r = AppleAgxGfxHandoffResultOk \<and> s' = s\<lparr> hs_Locked := False \<rparr> \<and> ap e' = 0) \<or>
    (r = AppleAgxGfxHandoffResultAccessFailed \<and> s' = s \<and> ap e' = 1)"
proof -
  obtain b e1 where turn: "write32 s TURN_OFFSET 1 e = (b, e1)" by fastforce
  obtain c e2 where clear: "write8 s LOCK_AP_OFFSET 0 e1 = (c, e2)" by fastforce
  have "ap e1 = 1" "ap e2 = (if c then 0 else 1)"
    using own_lock_byteD(5) [OF own turn] own_lock_byteD(4) [OF own clear] ap by simp_all
  then show ?thesis using run s turn clear unfolding AppleAgxGfxHandoffRelease_def by (auto split: if_splits)
qed

lemma magic_wait_ap:
  assumes ret: "magic_wait s deadline e = Some x" and own: "own_lock_byte (hs_Io s) ap"
  shows "ap (snd x) = ap e"
proof (rule magic_wait.raw_induct [where P = "\<lambda>s deadline e x. own_lock_byte (hs_Io s) ap \<longrightarrow> ap (snd x) = ap e",
      OF _ ret, rule_format, OF _ own], goal_cases)
  case (1 loop s deadline e x)
  note own = 1(3) and body = 1(2)
  obtain magic e1 where magic: "read64 s MAGIC_FW_OFFSET e = (magic, e1)" by fastforce
  obtain now e2 where clock: "the (hi_Now (hs_Io s)) e1 = (now, e2)" by fastforce
  have keep: "ap e1 = ap e" "ap e2 = ap e" "ap (relax_once s e2) = ap e"
    using own_lock_byteD(3) [OF own magic] own_lock_byteD(9) [OF own clock] own_lock_byteD(8) [OF own, of e2] by simp_all
  show ?case using body magic clock keep 1(1) [OF _ own, of deadline "relax_once s e2" x]
    by (auto split: option.splits if_splits)
qed

lemma clear_flush_ap: "own_lock_byte (hs_Io s) ap \<Longrightarrow> clear_flush s is e = (b, e') \<Longrightarrow> ap e' = ap e"
proof (induction s "is" e rule: clear_flush.induct)
  case (2 s i "is" e)
  let ?o = "of_nat i * FLUSH_STRIDE"
  obtain b1 e1 where w1: "write64 s (FLUSH_STATE_OFFSET + ?o) 0 e = (b1, e1)" by fastforce
  obtain b2 e2 where w2: "write64 s (FLUSH_ADDR_OFFSET + ?o) 0 e1 = (b2, e2)" by fastforce
  obtain b3 e3 where w3: "write64 s (FLUSH_SIZE_OFFSET + ?o) 0 e2 = (b3, e3)" by fastforce
  have "ap e1 = ap e" "ap e2 = ap e" "ap e3 = ap e"
    using own_lock_byteD(6) [OF 2(2) w1] own_lock_byteD(6) [OF 2(2) w2] own_lock_byteD(6) [OF 2(2) w3] by simp_all
  then show ?case using 2 w1 w2 w3 by (auto simp: Let_def split: if_splits)
qed simp

text \<open>The flag of the state and the byte in memory agree after the initialization, unless an access failed.\<close>

lemma initialize_outcome:
  assumes run: "AppleAgxGfxHandoffInitialize s deadline e = Some (r, s', e')" and own: "own_lock_byte (hs_Io s) ap"
    and s: "hs_Bound s" "\<not> hs_Locked s" and ap: "ap e = 0"
  shows "(r = AppleAgxGfxHandoffResultOk \<longrightarrow> \<not> hs_Locked s' \<and> hs_Initialized s') \<and>
    (r \<noteq> AppleAgxGfxHandoffResultAccessFailed \<longrightarrow> ap e' = (if hs_Locked s' then 1 else 0))"
proof (cases "hs_Initialized s")
  case True
  then show ?thesis using run s ap by (auto simp: AppleAgxGfxHandoffInitialize_def)
next
  case new: False
  obtain now e1 where clock: "the (hi_Now (hs_Io s)) e = (now, e1)" by fastforce
  obtain b e2 where magic: "write64 s MAGIC_AP_OFFSET PPL_MAGIC e1 = (b, e2)" by fastforce
  have ap2: "ap e1 = 0" "ap e2 = 0" using own_lock_byteD(9) [OF own clock] own_lock_byteD(6) [OF own magic] ap by simp_all
  show ?thesis
  proof (cases "\<not> deadline \<le> now \<and> b \<and> (\<exists>s3 e3. AppleAgxGfxHandoffAcquire s (deadline - now) e2 =
      Some (AppleAgxGfxHandoffResultOk, s3, e3))")
    case False
    then show ?thesis using run s new clock magic ap2 acquire_outcome [OF _ own s]
      unfolding AppleAgxGfxHandoffInitialize_def by (fastforce simp: acquired_def split: option.splits if_splits)
  next
    case True
    then obtain s3 e3 where acq: "\<not> deadline \<le> now" b
      "AppleAgxGfxHandoffAcquire s (deadline - now) e2 = Some (AppleAgxGfxHandoffResultOk, s3, e3)" by blast
    have s3: "s3 = s\<lparr> hs_Locked := True \<rparr>" "ap e3 = 1"
      using acquire_outcome [OF acq(3) own s] by (auto simp: acquired_def)
    have own3: "own_lock_byte (hs_Io s3) ap" "hs_Bound s3" "hs_Locked s3" using own s s3 by simp_all
    obtain m e4 where wait: "magic_wait s3 deadline e3 = Some (m, e4)"
      using run s new clock magic acq unfolding AppleAgxGfxHandoffInitialize_def by (auto split: option.splits)
    have ap4: "ap e4 = 1" using magic_wait_ap [OF wait own3(1)] s3 by simp
    obtain r5 s5 e5 where rel: "AppleAgxGfxHandoffRelease s3 e4 = (r5, s5, e5)" by (cases "AppleAgxGfxHandoffRelease s3 e4")
    note out = release_outcome [OF rel own3 ap4]
    obtain c e6 where flush: "clear_flush s5 [0..<0x41] e5 = (c, e6)" by fastforce
    have "own_lock_byte (hs_Io s5) ap" using out own3 by auto
    then have "ap e6 = ap e5" by (rule clear_flush_ap [OF _ flush])
    then show ?thesis using run s new clock magic acq wait rel flush out own3
      unfolding AppleAgxGfxHandoffInitialize_def by (auto split: if_splits)
  qed
qed

section \<open>The turn and the timeout\<close>

text \<open>A firmware given by what its lock byte and the turn word read; the environment is the driver's byte and
  the number of times the turn was read.\<close>

definition scripted_handoff :: "(nat \<Rightarrow> u8) \<Rightarrow> (nat \<Rightarrow> u32) \<Rightarrow> (u8 \<times> nat) APPLE_AGX_GFX_HANDOFF_IO" where
  "scripted_handoff fw turn = \<lparr>
     hi_Read8 = Some (\<lambda>offset e. (Some (if offset = LOCK_AP_OFFSET then fst e else fw (snd e)), e)),
     hi_Read32 = Some (\<lambda>offset e. (Some (turn (snd e)), (fst e, Suc (snd e)))),
     hi_Read64 = Some (\<lambda>offset e. (Some PPL_MAGIC, e)),
     hi_Write8 = Some (\<lambda>offset v e. (True, if offset = LOCK_AP_OFFSET then (v, snd e) else e)),
     hi_Write32 = Some (\<lambda>offset v e. (True, e)), hi_Write64 = Some (\<lambda>offset v e. (True, e)),
     hi_Barrier = Some (\<lambda>e. e), hi_Relax = Some (\<lambda>e. e), hi_Now = Some (\<lambda>e. (of_nat (snd e), e)) \<rparr>"

definition scripted_state :: "(nat \<Rightarrow> u8) \<Rightarrow> (nat \<Rightarrow> u32) \<Rightarrow> (u8 \<times> nat) APPLE_AGX_GFX_HANDOFF_STATE" where
  "scripted_state fw turn = \<lparr> hs_Region = \<lparr> hr_PhysicalBase = HANDOFF_BASE, hr_Length = HANDOFF_SIZE \<rparr>,
     hs_Io = scripted_handoff fw turn, hs_Bound = True, hs_Locked = False, hs_Initialized = False \<rparr>"

lemma scripted_own: "own_lock_byte (hs_Io (scripted_state fw turn)) fst"
  by (simp add: own_lock_byte_def io_valid_def scripted_state_def scripted_handoff_def)

lemmas scripted_simps = scripted_state_def scripted_handoff_def read8_def read32_def write8_def fenced_read_def
  fenced_write_def

text \<open>The timeout is looked at only while the turn stays with the firmware: one that keeps its lock and hands the
  turn to and fro between two readings keeps the driver in the loop for ever, whatever the timeout.\<close>

lemma acquire_loop_toggled:
  assumes "even n"
  shows "acquire_loop (scripted_state (\<lambda>_. 1) (\<lambda>n. if even n then 1 else 0)) start timeout (b, n) = None"
proof (rule ccontr)
  let ?s = "scripted_state (\<lambda>_. 1) (\<lambda>n. if even n then 1 else 0)"
  assume "acquire_loop ?s start timeout (b, n) \<noteq> None"
  then obtain x where ret: "acquire_loop ?s start timeout (b, n) = Some x" by blast
  have "s = ?s \<longrightarrow> even (snd e) \<longrightarrow> False" if "acquire_loop s start timeout e = Some x" for s start timeout e x
  proof (rule acquire_loop.raw_induct [where P = "\<lambda>s start timeout e x. s = ?s \<longrightarrow> even (snd e) \<longrightarrow> False", OF _ that], goal_cases)
    case (1 loop s start timeout e x)
    have "turn_wait ?s start timeout (b, Suc n) = Some (AppleAgxGfxHandoffResultOk, (b, Suc (Suc n)))" if "even n" for b n
      using that by (subst turn_wait.simps) (simp add: scripted_simps)
    then show ?case using 1(2) 1(1) [of ?s start timeout "(1, Suc (Suc (snd e)))" x]
      by (auto simp: scripted_simps split: prod.splits)
  qed
  from this [OF ret] assms show False by simp
qed

lemma acquire_toggled:
  "AppleAgxGfxHandoffAcquire (scripted_state (\<lambda>_. 1) (\<lambda>n. if even n then 1 else 0)) timeout (b, 0) = None"
  using acquire_loop_toggled [of 0 0 timeout 1]
  by (simp add: AppleAgxGfxHandoffAcquire_def write8_def fenced_write_def scripted_state_def scripted_handoff_def)

section \<open>Properties\<close>



text \<open>After the initialization the flag of the state and the byte in memory agree: under the same proviso
  and starting unlocked with the byte clear, unless an access failed the byte is set exactly when the state
  says the lock is held, and after a success it is not held.\<close>

theorem handoff_flag_agrees:
  assumes "AppleAgxGfxHandoffInitialize s deadline e = Some (r, s', e')"
    and "own_lock_byte (hs_Io s) ap" and "hs_Bound s" and "\<not> hs_Locked s" and "ap e = 0"
  shows "(r = AppleAgxGfxHandoffResultOk \<longrightarrow> \<not> hs_Locked s' \<and> hs_Initialized s') \<and>
    (r \<noteq> AppleAgxGfxHandoffResultAccessFailed \<longrightarrow> ap e' = (if hs_Locked s' then 1 else 0))"
  by (rule initialize_outcome [OF assms])

theorem handoff_flag_agrees_witness:
  "\<exists>s' e'. AppleAgxGfxHandoffInitialize (scripted_state (\<lambda>_. 1) (\<lambda>_. 0)) 1 (0, 0) =
      Some (AppleAgxGfxHandoffResultTimeout, s', e') \<and> fst e' = (if hs_Locked s' then 1 else 0)"
proof -
  let ?s = "scripted_state (\<lambda>_. 1) (\<lambda>_. 0)"
  have "acquire_loop ?s 0 1 (1, 0) = Some (AppleAgxGfxHandoffResultTimeout, (0, 1))"
    by (subst acquire_loop.simps) (simp add: scripted_simps timed_out_def relinquish_def)
  then have run: "AppleAgxGfxHandoffInitialize ?s 1 (0, 0) = Some (AppleAgxGfxHandoffResultTimeout, ?s, (0, 1))"
    by (simp add: AppleAgxGfxHandoffInitialize_def AppleAgxGfxHandoffAcquire_def write64_def scripted_simps)
  have "hs_Bound ?s" "\<not> hs_Locked ?s" "fst (0 :: u8, 0 :: nat) = 0" by (simp_all add: scripted_state_def)
  from handoff_flag_agrees [OF run scripted_own this] run show ?thesis by auto
qed

end
