(* ===== verification/Session.thy ===== *)
theory Session
  imports Transport Handoff
begin

text \<open>
  The session with the coprocessor, \<^verbatim>\<open>drivers/apple-agx/shared/src/apple_agx_rtkit_session.c\<close>: starting it
  and handing over to its firmware, the management bootstrap with the one crash-log grant, draining the
  mailbox at run time, the heartbeat, and the stop in two acknowledged steps.  The environment is that
  of the transport; a function with a loop is \<open>None\<close> where the C function does not return.  The handle
  of the shared lock may be null and is an option, as is the hook run before the management exchange.
\<close>

section \<open>State\<close>

datatype APPLE_AGX_RTKIT_SESSION_RESULT =
    AppleAgxRtkitSessionResultOk | AppleAgxRtkitSessionResultInvalidArgument
  | AppleAgxRtkitSessionResultInvalidState | AppleAgxRtkitSessionResultTimeout
  | AppleAgxRtkitSessionResultClockRegression | AppleAgxRtkitSessionResultTransportFailed
  | AppleAgxRtkitSessionResultProtocolViolation | AppleAgxRtkitSessionResultCleanupFailed
  | AppleAgxRtkitSessionResultFirmwareCrashed

datatype APPLE_AGX_RTKIT_STOP_PHASE =
    AppleAgxRtkitStopIdle | AppleAgxRtkitStopApRequested | AppleAgxRtkitStopApAcknowledged
  | AppleAgxRtkitStopIopRequested | AppleAgxRtkitStopIopAcknowledged | AppleAgxRtkitStopComplete

record APPLE_AGX_RTKIT_SESSION =
  rs_Boot :: APPLE_AGX_RTKIT_BOOT
  rs_Running :: bool
  rs_CpuReady :: bool
  rs_InboxBeforeInitValid :: bool
  rs_InboxAfterInitValid :: bool
  rs_InboxAtFailureValid :: bool
  rs_OutboxAtFailureValid :: bool
  rs_StopPhase :: APPLE_AGX_RTKIT_STOP_PHASE
  rs_InboxControlBeforeInit :: u32
  rs_InboxControlAfterInit :: u32
  rs_InboxControlAtFailure :: u32
  rs_OutboxControlAtFailure :: u32
  rs_ReceivedCount :: u32
  rs_LastRxEndpoint :: u32
  rs_LastRxPayload :: u64
  rs_CrashlogGpuAddress :: u64
  rs_CrashlogCapacityBytes :: u32
  rs_CrashlogRequestedBytes :: u32
  rs_CrashlogReplySent :: bool
  rs_CrashlogCrashed :: bool

section \<open>Helpers\<close>

fun AppleAgxRtkitSessionAscResult :: "APPLE_AGX_ASC_RESULT \<Rightarrow> APPLE_AGX_RTKIT_SESSION_RESULT" where
  "AppleAgxRtkitSessionAscResult AppleAgxAscResultOk = AppleAgxRtkitSessionResultOk"
| "AppleAgxRtkitSessionAscResult AppleAgxAscResultInvalidArgument = AppleAgxRtkitSessionResultInvalidArgument"
| "AppleAgxRtkitSessionAscResult AppleAgxAscResultTimeout = AppleAgxRtkitSessionResultTimeout"
| "AppleAgxRtkitSessionAscResult AppleAgxAscResultClockRegression = AppleAgxRtkitSessionResultClockRegression"
| "AppleAgxRtkitSessionAscResult AppleAgxAscResultTransportFailed = AppleAgxRtkitSessionResultTransportFailed"

definition AppleAgxRtkitSessionMessageIsEventWake :: "APPLE_AGX_ASC_MESSAGE \<Rightarrow> bool" where
  "AppleAgxRtkitSessionMessageIsEventWake m \<longleftrightarrow>
     am_Endpoint m = 0x20 \<and> drop_bit 48 (am_Payload m) AND 0xffff = 0x42"

fun send_all :: "'e APPLE_AGX_ASC_IO \<Rightarrow> u64 list \<Rightarrow> u64 \<Rightarrow> 'e \<Rightarrow> (APPLE_AGX_RTKIT_SESSION_RESULT \<times> 'e) option" where
  "send_all io [] deadlineMs e = Some (AppleAgxRtkitSessionResultOk, e)"
| "send_all io (m # ms) deadlineMs e =
     (case AppleAgxAscSend io m 0 deadlineMs e of
        None \<Rightarrow> None
      | Some (r, e) \<Rightarrow>
          if AppleAgxRtkitSessionAscResult r \<noteq> AppleAgxRtkitSessionResultOk
          then Some (AppleAgxRtkitSessionAscResult r, e)
          else send_all io ms deadlineMs e)"

definition AppleAgxRtkitSessionSendOutput ::
  "'e APPLE_AGX_ASC_IO \<Rightarrow> APPLE_AGX_RTKIT_BOOT_OUTPUT \<Rightarrow> u64 \<Rightarrow> 'e
   \<Rightarrow> (APPLE_AGX_RTKIT_SESSION_RESULT \<times> 'e) option" where
  "AppleAgxRtkitSessionSendOutput io output deadlineMs e =
     send_all io (take (bo_Count output) (bo_Message output)) deadlineMs e"

definition AppleAgxRtkitSessionForceRunOff ::
  "APPLE_AGX_RTKIT_SESSION \<Rightarrow> 'e APPLE_AGX_ASC_IO \<Rightarrow> APPLE_AGX_RTKIT_SESSION_RESULT \<Rightarrow> 'e
   \<Rightarrow> APPLE_AGX_RTKIT_SESSION_RESULT \<times> APPLE_AGX_RTKIT_SESSION \<times> 'e" where
  "AppleAgxRtkitSessionForceRunOff s io original e =
     (case AppleAgxAscSetRun io False e of (r, e) \<Rightarrow>
        if r = AppleAgxAscResultOk
        then (original, s\<lparr> rs_Running := False, rs_StopPhase := AppleAgxRtkitStopComplete \<rparr>, e)
        else (AppleAgxRtkitSessionResultCleanupFailed, s, e))"

definition AppleAgxRtkitSessionInitialize :: "APPLE_AGX_RTKIT_SESSION" where
  "AppleAgxRtkitSessionInitialize =
     \<lparr> rs_Boot = AppleAgxRtkitBootInitialize, rs_Running = False, rs_CpuReady = False,
       rs_InboxBeforeInitValid = False, rs_InboxAfterInitValid = False, rs_InboxAtFailureValid = False,
       rs_OutboxAtFailureValid = False, rs_StopPhase = AppleAgxRtkitStopIdle,
       rs_InboxControlBeforeInit = 0, rs_InboxControlAfterInit = 0, rs_InboxControlAtFailure = 0,
       rs_OutboxControlAtFailure = 0, rs_ReceivedCount = 0, rs_LastRxEndpoint = 0, rs_LastRxPayload = 0,
       rs_CrashlogGpuAddress = 0, rs_CrashlogCapacityBytes = 0, rs_CrashlogRequestedBytes = 0,
       rs_CrashlogReplySent = False, rs_CrashlogCrashed = False \<rparr>"

definition AppleAgxRtkitSessionCaptureFailureMailbox ::
  "APPLE_AGX_RTKIT_SESSION \<Rightarrow> 'e APPLE_AGX_ASC_IO \<Rightarrow> 'e \<Rightarrow> APPLE_AGX_RTKIT_SESSION \<times> 'e" where
  "AppleAgxRtkitSessionCaptureFailureMailbox s io e =
     (case AppleAgxAscReadInboxControl io e of (inbox, e) \<Rightarrow>
      case AppleAgxAscReadOutboxControl io e of (outbox, e) \<Rightarrow>
        let s = (case inbox of Inl r \<Rightarrow> s
                 | Inr v \<Rightarrow> s\<lparr> rs_InboxControlAtFailure := v, rs_InboxAtFailureValid := True \<rparr>);
            s = (case outbox of Inl r \<Rightarrow> s
                 | Inr v \<Rightarrow> s\<lparr> rs_OutboxControlAtFailure := v, rs_OutboxAtFailureValid := True \<rparr>)
        in (s, e))"

text \<open>The bookkeeping of one received message.\<close>

definition note_received :: "APPLE_AGX_ASC_MESSAGE \<Rightarrow> APPLE_AGX_RTKIT_SESSION \<Rightarrow> APPLE_AGX_RTKIT_SESSION" where
  "note_received m s =
     s\<lparr> rs_ReceivedCount := rs_ReceivedCount s + 1, rs_LastRxEndpoint := am_Endpoint m,
        rs_LastRxPayload := am_Payload m \<rparr>"

section \<open>Starting\<close>

definition AppleAgxRtkitSessionStartCpuAndInitializeHandoff ::
  "APPLE_AGX_RTKIT_SESSION \<Rightarrow> 'e APPLE_AGX_ASC_IO \<Rightarrow> 'e APPLE_AGX_GFX_HANDOFF_STATE option \<Rightarrow> u64 \<Rightarrow> 'e
   \<Rightarrow> (APPLE_AGX_RTKIT_SESSION_RESULT \<times> APPLE_AGX_RTKIT_SESSION \<times> 'e APPLE_AGX_GFX_HANDOFF_STATE option \<times> 'e) option"
where
  "AppleAgxRtkitSessionStartCpuAndInitializeHandoff s io handoff deadlineMs e =
     (let run_off = (\<lambda>s h r e. case AppleAgxRtkitSessionForceRunOff s io r e of (r, s, e) \<Rightarrow> Some (r, s, h, e))
      in if rs_Running s \<or>
            (rs_StopPhase s \<noteq> AppleAgxRtkitStopIdle \<and> rs_StopPhase s \<noteq> AppleAgxRtkitStopComplete)
         then Some (AppleAgxRtkitSessionResultInvalidState, s, handoff, e)
         else
           let s = s\<lparr> rs_StopPhase := AppleAgxRtkitStopIdle, rs_CpuReady := False, rs_ReceivedCount := 0,
                      rs_LastRxEndpoint := 0, rs_LastRxPayload := 0, rs_CrashlogRequestedBytes := 0,
                      rs_CrashlogReplySent := False, rs_CrashlogCrashed := False,
                      rs_Boot := AppleAgxRtkitBootInitialize \<rparr>
           in case AppleAgxAscSetRun io True e of (r, e) \<Rightarrow>
                if r \<noteq> AppleAgxAscResultOk then Some (AppleAgxRtkitSessionAscResult r, s, handoff, e)
                else
                  let s = s\<lparr> rs_Running := True \<rparr>
                  in case AppleAgxAscWaitRunning io deadlineMs e of
                       None \<Rightarrow> None
                     | Some (Inl r, e) \<Rightarrow> run_off s handoff (AppleAgxRtkitSessionAscResult r) e
                     | Some (Inr status, e) \<Rightarrow>
                         let s = s\<lparr> rs_CpuReady := True \<rparr>
                         in case handoff of
                              None \<Rightarrow> Some (AppleAgxRtkitSessionResultOk, s, None, e)
                            | Some h \<Rightarrow>
                                (case AppleAgxGfxHandoffInitialize h deadlineMs e of
                                   None \<Rightarrow> None
                                 | Some (hr, h, e) \<Rightarrow>
                                     if hr \<noteq> AppleAgxGfxHandoffResultOk
                                     then run_off s (Some h) AppleAgxRtkitSessionResultTimeout e
                                     else Some (AppleAgxRtkitSessionResultOk, s, Some h, e)))"

section \<open>The crash-log grant\<close>

definition AppleAgxRtkitSessionCrashlog ::
  "APPLE_AGX_RTKIT_SESSION \<Rightarrow> 'e APPLE_AGX_ASC_IO \<Rightarrow> u64 \<Rightarrow> u64 \<Rightarrow> 'e
   \<Rightarrow> (APPLE_AGX_RTKIT_SESSION_RESULT \<times> APPLE_AGX_RTKIT_SESSION \<times> 'e) option" where
  "AppleAgxRtkitSessionCrashlog s io payload deadlineMs e =
     (if drop_bit 52 payload \<noteq> 1 then Some (AppleAgxRtkitSessionResultProtocolViolation, s, e)
      else if rs_CrashlogReplySent s
      then Some (AppleAgxRtkitSessionResultFirmwareCrashed, s\<lparr> rs_CrashlogCrashed := True \<rparr>, e)
      else
        let s = s\<lparr> rs_CrashlogRequestedBytes := push_bit 12 (ucast (drop_bit 44 payload AND 0xff)) \<rparr>;
            address = rs_CrashlogGpuAddress s; capacity = rs_CrashlogCapacityBytes s;
            requested = rs_CrashlogRequestedBytes s
        in if payload AND (push_bit 44 1 - 1) \<noteq> 0 \<or> requested = 0 \<or> requested > capacity \<or>
              address < push_bit 44 1 - push_bit 39 1 \<or> address \<ge> push_bit 44 1 \<or>
              address AND 0x3fff \<noteq> 0 \<or> capacity = 0 \<or> capacity > 0xff000 \<or> capacity AND 0x3fff \<noteq> 0 \<or>
              ucast capacity > push_bit 44 1 - address
           then Some (AppleAgxRtkitSessionResultProtocolViolation, s, e)
           else
             let reply = push_bit 52 1 OR push_bit 44 (ucast (drop_bit 12 capacity)) OR address
             in case AppleAgxAscSend io reply 1 deadlineMs e of
                  None \<Rightarrow> None
                | Some (r, e) \<Rightarrow>
                    Some (AppleAgxRtkitSessionAscResult r,
                          if r = AppleAgxAscResultOk then s\<lparr> rs_CrashlogReplySent := True \<rparr> else s, e))"

section \<open>The management bootstrap\<close>

partial_function (option) bootstrap_loop ::
  "'e APPLE_AGX_ASC_IO \<Rightarrow> u64 \<Rightarrow> APPLE_AGX_RTKIT_SESSION \<Rightarrow> 'e
   \<Rightarrow> (APPLE_AGX_RTKIT_SESSION_RESULT \<times> APPLE_AGX_RTKIT_SESSION \<times> 'e) option" where
  "bootstrap_loop io deadlineMs s e =
     (if AppleAgxRtkitBootIsReady (rs_Boot s) then Some (AppleAgxRtkitSessionResultOk, s, e)
      else case AppleAgxAscReceive io deadlineMs e of
             None \<Rightarrow> None
           | Some (Inl r, e) \<Rightarrow>
               (case AppleAgxRtkitSessionCaptureFailureMailbox s io e of (s, e) \<Rightarrow>
                  Some (AppleAgxRtkitSessionForceRunOff s io (AppleAgxRtkitSessionAscResult r) e))
           | Some (Inr m, e) \<Rightarrow>
               let s = note_received m s
               in if am_Endpoint m = 1
                  then (case AppleAgxRtkitSessionCrashlog s io (am_Payload m) deadlineMs e of
                          None \<Rightarrow> None
                        | Some (r, s, e) \<Rightarrow>
                            if r \<noteq> AppleAgxRtkitSessionResultOk
                            then Some (AppleAgxRtkitSessionForceRunOff
                                   (s\<lparr> rs_Boot := (rs_Boot s)\<lparr> rb_Phase := AppleAgxRtkitBootFailed \<rparr> \<rparr>) io r e)
                            else bootstrap_loop io deadlineMs s e)
                  else case AppleAgxRtkitBootHandle (rs_Boot s) (am_Payload m) (am_Endpoint m) of
                         (br, boot, output) \<Rightarrow>
                           let s = s\<lparr> rs_Boot := boot \<rparr>
                           in if br \<noteq> AppleAgxRtkitBootResultOk
                              then Some (AppleAgxRtkitSessionForceRunOff s io
                                     AppleAgxRtkitSessionResultProtocolViolation e)
                              else case AppleAgxRtkitSessionSendOutput io output deadlineMs e of
                                     None \<Rightarrow> None
                                   | Some (r, e) \<Rightarrow>
                                       if r \<noteq> AppleAgxRtkitSessionResultOk
                                       then Some (AppleAgxRtkitSessionForceRunOff s io r e)
                                       else bootstrap_loop io deadlineMs s e)"

definition AppleAgxRtkitSessionCompleteManagementBootstrap ::
  "APPLE_AGX_RTKIT_SESSION \<Rightarrow> 'e APPLE_AGX_ASC_IO \<Rightarrow> u64 \<Rightarrow> 'e
   \<Rightarrow> (APPLE_AGX_RTKIT_SESSION_RESULT \<times> APPLE_AGX_RTKIT_SESSION \<times> 'e) option" where
  "AppleAgxRtkitSessionCompleteManagementBootstrap s io deadlineMs e =
     (if \<not> rs_Running s \<or> \<not> rs_CpuReady s \<or> rs_StopPhase s \<noteq> AppleAgxRtkitStopIdle \<or>
         AppleAgxRtkitBootIsReady (rs_Boot s)
      then Some (AppleAgxRtkitSessionResultInvalidState, s, e)
      else case AppleAgxRtkitBootBegin AppleAgxRtkitBootInitialize of (br, boot, output) \<Rightarrow>
        let s = s\<lparr> rs_Boot := boot \<rparr>
        in if br \<noteq> AppleAgxRtkitBootResultOk
           then Some (AppleAgxRtkitSessionForceRunOff s io AppleAgxRtkitSessionResultInvalidState e)
           else case AppleAgxAscReadInboxControl io e of (before, e) \<Rightarrow>
             let s = (case before of Inl r \<Rightarrow> s
                      | Inr v \<Rightarrow> s\<lparr> rs_InboxControlBeforeInit := v, rs_InboxBeforeInitValid := True \<rparr>)
             in case AppleAgxRtkitSessionSendOutput io output deadlineMs e of
                  None \<Rightarrow> None
                | Some (r, e) \<Rightarrow>
                    if r \<noteq> AppleAgxRtkitSessionResultOk
                    then Some (AppleAgxRtkitSessionForceRunOff s io r e)
                    else case AppleAgxAscReadInboxControl io e of (after, e) \<Rightarrow>
                      let s = (case after of Inl r \<Rightarrow> s
                               | Inr v \<Rightarrow> s\<lparr> rs_InboxControlAfterInit := v, rs_InboxAfterInitValid := True \<rparr>)
                      in bootstrap_loop io deadlineMs s e)"

definition AppleAgxRtkitSessionBoot ::
  "APPLE_AGX_RTKIT_SESSION \<Rightarrow> 'e APPLE_AGX_ASC_IO \<Rightarrow> 'e APPLE_AGX_GFX_HANDOFF_STATE option
   \<Rightarrow> (u64 \<Rightarrow> 'e \<Rightarrow> bool \<times> 'e) option \<Rightarrow> u64 \<Rightarrow> 'e
   \<Rightarrow> (APPLE_AGX_RTKIT_SESSION_RESULT \<times> APPLE_AGX_RTKIT_SESSION \<times> 'e APPLE_AGX_GFX_HANDOFF_STATE option \<times> 'e) option"
where
  "AppleAgxRtkitSessionBoot s io handoff prepare deadlineMs e =
     (case AppleAgxRtkitSessionStartCpuAndInitializeHandoff s io handoff deadlineMs e of
        None \<Rightarrow> None
      | Some (r, s, handoff, e) \<Rightarrow>
          if r \<noteq> AppleAgxRtkitSessionResultOk then Some (r, s, handoff, e)
          else case (case prepare of None \<Rightarrow> (True, e) | Some hook \<Rightarrow> hook deadlineMs e) of (ready, e) \<Rightarrow>
            if \<not> ready
            then (case AppleAgxRtkitSessionForceRunOff s io AppleAgxRtkitSessionResultTransportFailed e of
                    (r, s, e) \<Rightarrow> Some (r, s, handoff, e))
            else case AppleAgxRtkitSessionCompleteManagementBootstrap s io deadlineMs e of
                   None \<Rightarrow> None
                 | Some (r, s, e) \<Rightarrow> Some (r, s, handoff, e))"

section \<open>Run time\<close>

definition is_pong :: "APPLE_AGX_ASC_MESSAGE \<Rightarrow> bool" where
  "is_pong m \<longleftrightarrow> am_Endpoint m = 0 \<and>
     (case AppleAgxRtkitDecodeManagement (am_Payload m) of (valid, decoded) \<Rightarrow>
        valid \<and> mg_Type decoded = AppleAgxRtkitManagementPong)"

text \<open>The loop of the drain, at most \<open>n\<close> more messages; the count is of those taken out.\<close>

fun drain_loop ::
  "'e APPLE_AGX_ASC_IO \<Rightarrow> nat \<Rightarrow> APPLE_AGX_RTKIT_SESSION \<Rightarrow> u32 \<Rightarrow> 'e
   \<Rightarrow> APPLE_AGX_RTKIT_SESSION_RESULT \<times> APPLE_AGX_RTKIT_SESSION \<times> u32 \<times> 'e" where
  "drain_loop io 0 s drained e = (AppleAgxRtkitSessionResultOk, s, drained, e)"
| "drain_loop io (Suc n) s drained e =
     (case AppleAgxAscTryReceive io e of
        (Inl r, e) \<Rightarrow>
          (case AppleAgxRtkitSessionCaptureFailureMailbox s io e of (s, e) \<Rightarrow>
             (AppleAgxRtkitSessionAscResult r, s, drained, e))
      | (Inr None, e) \<Rightarrow> (AppleAgxRtkitSessionResultOk, s, drained, e)
      | (Inr (Some m), e) \<Rightarrow>
          let drained = drained + 1; s = note_received m s
          in if AppleAgxRtkitSessionMessageIsEventWake m \<or> is_pong m then drain_loop io n s drained e
             else if am_Endpoint m = 1 \<and> drop_bit 52 (am_Payload m) = 1 \<and> rs_CrashlogReplySent s
             then (case AppleAgxRtkitSessionCaptureFailureMailbox (s\<lparr> rs_CrashlogCrashed := True \<rparr>) io e of (s, e) \<Rightarrow>
                     (AppleAgxRtkitSessionResultFirmwareCrashed, s, drained, e))
             else (case AppleAgxRtkitSessionCaptureFailureMailbox s io e of (s, e) \<Rightarrow>
                     (AppleAgxRtkitSessionResultProtocolViolation, s, drained, e)))"

text \<open>What the run-time operations require of the session.\<close>

definition session_up :: "APPLE_AGX_RTKIT_SESSION \<Rightarrow> bool" where
  "session_up s \<longleftrightarrow> rs_Running s \<and> rs_CpuReady s \<and> AppleAgxRtkitBootIsReady (rs_Boot s) \<and>
     rs_StopPhase s = AppleAgxRtkitStopIdle"

definition AppleAgxRtkitSessionDrainRuntime ::
  "APPLE_AGX_RTKIT_SESSION \<Rightarrow> 'e APPLE_AGX_ASC_IO \<Rightarrow> u32 \<Rightarrow> 'e
   \<Rightarrow> APPLE_AGX_RTKIT_SESSION_RESULT \<times> APPLE_AGX_RTKIT_SESSION \<times> u32 \<times> 'e" where
  "AppleAgxRtkitSessionDrainRuntime s io maxMessages e =
     (if maxMessages = 0 \<or> maxMessages > 64 then (AppleAgxRtkitSessionResultInvalidArgument, s, 0, e)
      else if rs_CrashlogCrashed s then (AppleAgxRtkitSessionResultFirmwareCrashed, s, 0, e)
      else if \<not> session_up s then (AppleAgxRtkitSessionResultInvalidState, s, 0, e)
      else drain_loop io (unat maxMessages) s 0 e)"

partial_function (option) pong_loop ::
  "'e APPLE_AGX_ASC_IO \<Rightarrow> u64 \<Rightarrow> APPLE_AGX_RTKIT_SESSION \<Rightarrow> 'e
   \<Rightarrow> (APPLE_AGX_RTKIT_SESSION_RESULT \<times> APPLE_AGX_RTKIT_SESSION \<times> 'e) option" where
  "pong_loop io deadlineMs s e =
     (case AppleAgxAscReceive io deadlineMs e of
        None \<Rightarrow> None
      | Some (Inl r, e) \<Rightarrow>
          (case AppleAgxRtkitSessionCaptureFailureMailbox s io e of (s, e) \<Rightarrow>
             Some (AppleAgxRtkitSessionAscResult r, s, e))
      | Some (Inr m, e) \<Rightarrow>
          let s = note_received m s
          in if is_pong m then Some (AppleAgxRtkitSessionResultOk, s, e)
             else if \<not> AppleAgxRtkitSessionMessageIsEventWake m
             then Some (AppleAgxRtkitSessionResultProtocolViolation, s, e)
             else pong_loop io deadlineMs s e)"

definition AppleAgxRtkitSessionHeartbeat ::
  "APPLE_AGX_RTKIT_SESSION \<Rightarrow> 'e APPLE_AGX_ASC_IO \<Rightarrow> u64 \<Rightarrow> 'e
   \<Rightarrow> (APPLE_AGX_RTKIT_SESSION_RESULT \<times> APPLE_AGX_RTKIT_SESSION \<times> 'e) option" where
  "AppleAgxRtkitSessionHeartbeat s io deadlineMs e =
     (if \<not> session_up s then Some (AppleAgxRtkitSessionResultInvalidState, s, e)
      else case AppleAgxAscSend io AppleAgxRtkitPing 0 deadlineMs e of
             None \<Rightarrow> None
           | Some (r, e) \<Rightarrow>
               if r \<noteq> AppleAgxAscResultOk then Some (AppleAgxRtkitSessionAscResult r, s, e)
               else pong_loop io deadlineMs s e)"

section \<open>Stopping\<close>

definition AppleAgxRtkitSessionWaitPower ::
  "'e APPLE_AGX_ASC_IO \<Rightarrow> u32 \<Rightarrow> u32 \<Rightarrow> u64 \<Rightarrow> 'e \<Rightarrow> (APPLE_AGX_RTKIT_SESSION_RESULT \<times> 'e) option" where
  "AppleAgxRtkitSessionWaitPower io type' state deadlineMs e =
     (case AppleAgxAscReceive io deadlineMs e of
        None \<Rightarrow> None
      | Some (Inl r, e) \<Rightarrow> Some (AppleAgxRtkitSessionAscResult r, e)
      | Some (Inr m, e) \<Rightarrow>
          (case AppleAgxRtkitDecodeManagement (am_Payload m) of (valid, decoded) \<Rightarrow>
             if am_Endpoint m \<noteq> 0 \<or> \<not> valid then Some (AppleAgxRtkitSessionResultProtocolViolation, e)
             else if mg_Type decoded = type' \<and> mg_State decoded = state
             then Some (AppleAgxRtkitSessionResultOk, e)
             else Some (AppleAgxRtkitSessionResultProtocolViolation, e)))"

text \<open>One stage of the stop: in the phase \<open>from'\<close> it acts and, when that went well, moves to the phase
  \<open>to'\<close>; in every other phase it is passed over.\<close>

definition stop_stage ::
  "APPLE_AGX_RTKIT_STOP_PHASE \<Rightarrow> APPLE_AGX_RTKIT_STOP_PHASE \<Rightarrow> ('e \<Rightarrow> (APPLE_AGX_RTKIT_SESSION_RESULT \<times> 'e) option)
   \<Rightarrow> APPLE_AGX_RTKIT_SESSION \<Rightarrow> 'e
   \<Rightarrow> (APPLE_AGX_RTKIT_SESSION_RESULT \<times> APPLE_AGX_RTKIT_SESSION \<times> 'e) option" where
  "stop_stage from' to' act s e =
     (if rs_StopPhase s \<noteq> from' then Some (AppleAgxRtkitSessionResultOk, s, e)
      else case act e of
             None \<Rightarrow> None
           | Some (r, e) \<Rightarrow>
               if r \<noteq> AppleAgxRtkitSessionResultOk then Some (r, s, e)
               else Some (r, s\<lparr> rs_StopPhase := to' \<rparr>, e))"

definition then_stage ::
  "(APPLE_AGX_RTKIT_SESSION_RESULT \<times> APPLE_AGX_RTKIT_SESSION \<times> 'e) option
   \<Rightarrow> (APPLE_AGX_RTKIT_SESSION \<Rightarrow> 'e \<Rightarrow> (APPLE_AGX_RTKIT_SESSION_RESULT \<times> APPLE_AGX_RTKIT_SESSION \<times> 'e) option)
   \<Rightarrow> (APPLE_AGX_RTKIT_SESSION_RESULT \<times> APPLE_AGX_RTKIT_SESSION \<times> 'e) option" where
  "then_stage x f =
     (case x of None \<Rightarrow> None
      | Some (r, s, e) \<Rightarrow> if r \<noteq> AppleAgxRtkitSessionResultOk then Some (r, s, e) else f s e)"

definition send_power :: "'e APPLE_AGX_ASC_IO \<Rightarrow> u64 \<Rightarrow> u64 \<Rightarrow> 'e \<Rightarrow> (APPLE_AGX_RTKIT_SESSION_RESULT \<times> 'e) option" where
  "send_power io m deadlineMs e =
     (case AppleAgxAscSend io m 0 deadlineMs e of
        None \<Rightarrow> None | Some (r, e) \<Rightarrow> Some (AppleAgxRtkitSessionAscResult r, e))"

definition AppleAgxRtkitSessionStop ::
  "APPLE_AGX_RTKIT_SESSION \<Rightarrow> 'e APPLE_AGX_ASC_IO \<Rightarrow> u64 \<Rightarrow> 'e
   \<Rightarrow> (APPLE_AGX_RTKIT_SESSION_RESULT \<times> APPLE_AGX_RTKIT_SESSION \<times> 'e) option" where
  "AppleAgxRtkitSessionStop s io deadlineMs e =
     (if \<not> rs_Running s then Some (AppleAgxRtkitSessionResultOk, s, e)
      else if \<not> AppleAgxRtkitBootIsReady (rs_Boot s)
      then Some (AppleAgxRtkitSessionForceRunOff s io AppleAgxRtkitSessionResultOk e)
      else if rs_StopPhase s = AppleAgxRtkitStopComplete
      then Some (AppleAgxRtkitSessionResultInvalidState, s, e)
      else
        then_stage (then_stage (then_stage (then_stage
          (stop_stage AppleAgxRtkitStopIdle AppleAgxRtkitStopApRequested
             (send_power io (AppleAgxRtkitSetApPower 0x10) deadlineMs) s e)
          (stop_stage AppleAgxRtkitStopApRequested AppleAgxRtkitStopApAcknowledged
             (AppleAgxRtkitSessionWaitPower io AppleAgxRtkitManagementSetApPower 0x10 deadlineMs)))
          (stop_stage AppleAgxRtkitStopApAcknowledged AppleAgxRtkitStopIopRequested
             (send_power io (AppleAgxRtkitSetIopPower 0x10) deadlineMs)))
          (stop_stage AppleAgxRtkitStopIopRequested AppleAgxRtkitStopIopAcknowledged
             (AppleAgxRtkitSessionWaitPower io AppleAgxRtkitManagementIopPowerAck 0x10 deadlineMs)))
          (\<lambda>s e. case AppleAgxAscSetRun io False e of (r, e) \<Rightarrow>
             if r \<noteq> AppleAgxAscResultOk then Some (AppleAgxRtkitSessionResultCleanupFailed, s, e)
             else Some (AppleAgxRtkitSessionResultOk,
                    s\<lparr> rs_Running := False, rs_Boot := AppleAgxRtkitBootInitialize,
                       rs_StopPhase := AppleAgxRtkitStopComplete \<rparr>, e)))"
section \<open>What a wait returns\<close>

lemma asc_poll_result:
  assumes ret: "asc_poll io offset ready startMs deadlineMs e = Some x"
  shows "fst x \<noteq> Inl AppleAgxAscResultOk"
  by (rule asc_poll.raw_induct [where P = "\<lambda>io offset ready startMs deadlineMs e x. fst x \<noteq> Inl AppleAgxAscResultOk", OF _ ret])
    (fastforce split: prod.splits option.splits if_splits)

lemma asc_poll_Inl: "asc_poll io offset ready startMs deadlineMs e = Some (Inl r, e') \<Longrightarrow> r \<noteq> AppleAgxAscResultOk"
  using asc_poll_result by fastforce

lemma asc_wait_Inl: "asc_wait io offset ready deadlineMs e = Some (Inl r, e') \<Longrightarrow> r \<noteq> AppleAgxAscResultOk"
  by (auto simp: asc_wait_def dest: asc_poll_Inl split: prod.splits if_splits)

lemma receive_Inl: "AppleAgxAscReceive io deadlineMs e = Some (Inl r, e') \<Longrightarrow> r \<noteq> AppleAgxAscResultOk"
  by (auto simp: AppleAgxAscReceive_def take_message_def dest: asc_wait_Inl
      split: prod.splits if_splits option.splits sum.splits)

lemma wait_running_Inl: "AppleAgxAscWaitRunning io deadlineMs e = Some (Inl r, e') \<Longrightarrow> r \<noteq> AppleAgxAscResultOk"
  by (auto simp: AppleAgxAscWaitRunning_def dest: asc_wait_Inl split: if_splits)

lemma asc_result_Ok [simp]: "AppleAgxRtkitSessionAscResult r = AppleAgxRtkitSessionResultOk \<longleftrightarrow> r = AppleAgxAscResultOk"
  by (cases r) simp_all
section \<open>Starting either succeeds or switches off\<close>

text \<open>How a start may end: up and ready, or not running, or with the clean-up failed.\<close>

definition start_outcome :: "APPLE_AGX_RTKIT_SESSION_RESULT \<Rightarrow> APPLE_AGX_RTKIT_SESSION \<Rightarrow> bool" where
  "start_outcome r s \<longleftrightarrow>
     (if r = AppleAgxRtkitSessionResultOk then session_up s
      else \<not> rs_Running s \<or> r = AppleAgxRtkitSessionResultCleanupFailed)"

lemma force_run_off_outcome:
  "r \<noteq> AppleAgxRtkitSessionResultOk \<Longrightarrow>
     start_outcome (fst (AppleAgxRtkitSessionForceRunOff s io r e)) (fst (snd (AppleAgxRtkitSessionForceRunOff s io r e)))"
  by (auto simp: AppleAgxRtkitSessionForceRunOff_def start_outcome_def split: prod.split)

definition starting :: "APPLE_AGX_RTKIT_SESSION \<Rightarrow> bool" where
  "starting s \<longleftrightarrow> rs_Running s \<and> rs_CpuReady s \<and> rs_StopPhase s = AppleAgxRtkitStopIdle"

lemma starting_updates [simp]:
  "starting (note_received m s) = starting s" "starting (s\<lparr> rs_Boot := b \<rparr>) = starting s"
  by (simp_all add: starting_def note_received_def)

lemma starting_crashlog:
  "AppleAgxRtkitSessionCrashlog s io payload deadlineMs e = Some (r, s', e') \<Longrightarrow> starting s' = starting s"
  by (auto simp: AppleAgxRtkitSessionCrashlog_def starting_def Let_def split: if_splits option.splits prod.splits)

lemma bootstrap_outcome:
  assumes ret: "bootstrap_loop io deadlineMs s e = Some x" and up: "starting s"
  shows "start_outcome (fst x) (fst (snd x))"
proof -
  have "starting s \<longrightarrow> start_outcome (fst x) (fst (snd x))"
  proof (rule bootstrap_loop.raw_induct
      [where P = "\<lambda>io deadlineMs s e x. starting s \<longrightarrow> start_outcome (fst x) (fst (snd x))", OF _ ret], goal_cases)
    case (1 loop io deadlineMs s e x)
    show ?case
    proof
      assume up: "starting s"
      show "start_outcome (fst x) (fst (snd x))"
      proof (cases "AppleAgxRtkitBootIsReady (rs_Boot s)")
        case True
        with 1(2) up show ?thesis by (auto simp: start_outcome_def starting_def session_up_def)
      next
        case False
        note body = 1(2) [unfolded if_not_P [OF False]]
        obtain m e1 where rec: "AppleAgxAscReceive io deadlineMs e = Some (Inr m, e1) \<or>
            (\<exists>r. AppleAgxAscReceive io deadlineMs e = Some (Inl r, e1) \<and> r \<noteq> AppleAgxAscResultOk)"
          using body receive_Inl [of io deadlineMs e] by (auto split: option.splits sum.splits)
        show ?thesis
          using body rec up 1(1) starting_crashlog [of "note_received m s" io "am_Payload m" deadlineMs e1]
          by (auto simp: Let_def force_run_off_outcome split: prod.splits option.splits sum.splits if_splits)
      qed
    qed
  qed
  with up show ?thesis by blast
qed

lemma complete_outcome:
  assumes "AppleAgxRtkitSessionCompleteManagementBootstrap s io deadlineMs e = Some x"
    and "starting s" and "\<not> AppleAgxRtkitBootIsReady (rs_Boot s)"
  shows "start_outcome (fst x) (fst (snd x))"
proof -
  have inbox: "starting (case v of Inl r \<Rightarrow> s | Inr v \<Rightarrow> s\<lparr> rs_InboxControlBeforeInit := v, rs_InboxBeforeInitValid := True \<rparr>) = starting s"
    "starting (case v of Inl r \<Rightarrow> s | Inr v \<Rightarrow> s\<lparr> rs_InboxControlAfterInit := v, rs_InboxAfterInitValid := True \<rparr>) = starting s"
    for v :: "APPLE_AGX_ASC_RESULT + u32" and s
    by (cases v; simp add: starting_def)+
  have "rs_Running s" "rs_CpuReady s" "rs_StopPhase s = AppleAgxRtkitStopIdle"
    using assms(2) by (simp_all add: starting_def)
  with assms show ?thesis
    unfolding AppleAgxRtkitSessionCompleteManagementBootstrap_def
    by (auto simp: Let_def force_run_off_outcome inbox
        dest!: bootstrap_outcome split: prod.splits option.splits if_splits)
qed

lemma start_cpu_outcome:
  assumes "AppleAgxRtkitSessionStartCpuAndInitializeHandoff s io handoff deadlineMs e = Some (r, s', h, e')"
    and "\<not> rs_Running s"
  shows "(r = AppleAgxRtkitSessionResultOk \<longrightarrow> starting s' \<and> \<not> AppleAgxRtkitBootIsReady (rs_Boot s')) \<and>
    (r \<noteq> AppleAgxRtkitSessionResultOk \<longrightarrow> \<not> rs_Running s' \<or> r = AppleAgxRtkitSessionResultCleanupFailed)"
  using assms unfolding AppleAgxRtkitSessionStartCpuAndInitializeHandoff_def
  by (auto simp: Let_def starting_def AppleAgxRtkitSessionForceRunOff_def AppleAgxRtkitBootIsReady_def
      AppleAgxRtkitBootInitialize_def dest: wait_running_Inl
      split: prod.splits option.splits if_splits sum.splits)

lemma boot_outcome:
  assumes run: "AppleAgxRtkitSessionBoot s io handoff prepare deadlineMs e = Some (r, s', h, e')" and off: "\<not> rs_Running s"
  shows "start_outcome r s'"
proof -
  obtain r1 s1 h1 e1 where start:
    "AppleAgxRtkitSessionStartCpuAndInitializeHandoff s io handoff deadlineMs e = Some (r1, s1, h1, e1)"
    using run by (auto simp: AppleAgxRtkitSessionBoot_def split: option.splits)
  note o = start_cpu_outcome [OF start off]
  show ?thesis
  proof (cases "r1 = AppleAgxRtkitSessionResultOk")
    case False
    with run start o show ?thesis by (simp add: AppleAgxRtkitSessionBoot_def start_outcome_def)
  next
    case True
    obtain going e2 where hook: "(case prepare of None \<Rightarrow> (True, e1) | Some hook \<Rightarrow> hook deadlineMs e1) = (going, e2)"
      by fastforce
    show ?thesis
    proof (cases going)
      case False
      then show ?thesis
        using run start True hook
          force_run_off_outcome [of AppleAgxRtkitSessionResultTransportFailed s1 io e2]
        by (auto simp: AppleAgxRtkitSessionBoot_def split: prod.splits)
    next
      case going: True
      then obtain x where c: "AppleAgxRtkitSessionCompleteManagementBootstrap s1 io deadlineMs e2 = Some x"
        "fst x = r" "fst (snd x) = s'"
        using run start True hook by (auto simp: AppleAgxRtkitSessionBoot_def split: option.splits prod.splits)
      from complete_outcome [OF c(1)] o True c(2,3) show ?thesis by simp
    qed
  qed
qed

section \<open>Stopping never goes back\<close>

primrec stop_rank :: "APPLE_AGX_RTKIT_STOP_PHASE \<Rightarrow> nat" where
  "stop_rank AppleAgxRtkitStopIdle = 0"
| "stop_rank AppleAgxRtkitStopApRequested = 1"
| "stop_rank AppleAgxRtkitStopApAcknowledged = 2"
| "stop_rank AppleAgxRtkitStopIopRequested = 3"
| "stop_rank AppleAgxRtkitStopIopAcknowledged = 4"
| "stop_rank AppleAgxRtkitStopComplete = 5"

abbreviation rank_of :: "APPLE_AGX_RTKIT_SESSION \<Rightarrow> nat" where
  "rank_of s \<equiv> stop_rank (rs_StopPhase s)"

text \<open>A stage never goes back nor ends the run, and one that ends well is past its phase.\<close>

definition stage_from ::
  "nat \<Rightarrow> APPLE_AGX_RTKIT_SESSION \<Rightarrow> (APPLE_AGX_RTKIT_SESSION_RESULT \<times> APPLE_AGX_RTKIT_SESSION \<times> 'e) option \<Rightarrow> bool" where
  "stage_from n s x \<longleftrightarrow>
     (\<forall>r s' e'. x = Some (r, s', e') \<longrightarrow>
        rs_Running s' = rs_Running s \<and> rank_of s \<le> rank_of s' \<and> rank_of s' \<le> 4 \<and>
        (r = AppleAgxRtkitSessionResultOk \<longrightarrow> n \<le> rank_of s'))"

lemma stop_stage_from:
  assumes "stop_rank to' = Suc (stop_rank from')" and "rank_of s \<le> 4" "stop_rank to' \<le> 4" and "stop_rank from' \<le> rank_of s"
  shows "stage_from (Suc (stop_rank from')) s (stop_stage from' to' act s e)"
proof -
  have "Suc (stop_rank from') \<le> rank_of s" if "rs_StopPhase s \<noteq> from'"
    using that assms(4) by (cases "rs_StopPhase s"; cases from'; simp)
  then show ?thesis
    using assms unfolding stage_from_def stop_stage_def
    by (auto split: option.splits prod.splits if_splits)
qed

lemma then_stage_from:
  assumes x: "stage_from n s x"
    and f: "\<And>s' e. rs_Running s' = rs_Running s \<Longrightarrow> n \<le> rank_of s' \<Longrightarrow> rank_of s' \<le> 4 \<Longrightarrow> stage_from m s' (f s' e)"
  shows "stage_from m s (then_stage x f)"
proof (cases x)
  case None
  then show ?thesis by (simp add: stage_from_def then_stage_def)
next
  case (Some a)
  obtain r s1 e1 where a: "a = (r, s1, e1)" by (cases a)
  from x have p: "rs_Running s1 = rs_Running s" "rank_of s \<le> rank_of s1" "rank_of s1 \<le> 4"
    "r = AppleAgxRtkitSessionResultOk \<longrightarrow> n \<le> rank_of s1"
    unfolding Some a stage_from_def by blast+
  show ?thesis
  proof (cases "r = AppleAgxRtkitSessionResultOk")
    case True
    then have "stage_from m s1 (f s1 e1)" using f p by blast
    then show ?thesis unfolding Some a then_stage_def stage_from_def using True p(1,2) le_trans by auto
  next
    case False
    then show ?thesis unfolding Some a then_stage_def stage_from_def using p by auto
  qed
qed

lemma stop_stages:
  assumes "rank_of s \<le> 4"
  shows "stage_from 4 s
    (then_stage (then_stage (then_stage
      (stop_stage AppleAgxRtkitStopIdle AppleAgxRtkitStopApRequested act1 s e)
      (stop_stage AppleAgxRtkitStopApRequested AppleAgxRtkitStopApAcknowledged act2))
      (stop_stage AppleAgxRtkitStopApAcknowledged AppleAgxRtkitStopIopRequested act3))
      (stop_stage AppleAgxRtkitStopIopRequested AppleAgxRtkitStopIopAcknowledged act4))"
proof -
  have 1: "stage_from 1 s (stop_stage AppleAgxRtkitStopIdle AppleAgxRtkitStopApRequested act1 s e)"
    using stop_stage_from [of AppleAgxRtkitStopApRequested AppleAgxRtkitStopIdle s act1 e] assms by simp
  have 2: "stage_from 2 s' (stop_stage AppleAgxRtkitStopApRequested AppleAgxRtkitStopApAcknowledged act2 s' e)"
    if "1 \<le> rank_of s'" "rank_of s' \<le> 4" for s' e
    using stop_stage_from [of AppleAgxRtkitStopApAcknowledged AppleAgxRtkitStopApRequested s' act2 e] that
    by (simp add: numeral_2_eq_2)
  have 3: "stage_from 3 s' (stop_stage AppleAgxRtkitStopApAcknowledged AppleAgxRtkitStopIopRequested act3 s' e)"
    if "2 \<le> rank_of s'" "rank_of s' \<le> 4" for s' e
    using stop_stage_from [of AppleAgxRtkitStopIopRequested AppleAgxRtkitStopApAcknowledged s' act3 e] that
    by (simp add: numeral_3_eq_3)
  have 4: "stage_from 4 s' (stop_stage AppleAgxRtkitStopIopRequested AppleAgxRtkitStopIopAcknowledged act4 s' e)"
    if "3 \<le> rank_of s'" "rank_of s' \<le> 4" for s' e
    using stop_stage_from [of AppleAgxRtkitStopIopAcknowledged AppleAgxRtkitStopIopRequested s' act4 e] that by simp
  show ?thesis 
    by (rule then_stage_from [where n = 3, OF then_stage_from [where n = 2, OF then_stage_from [where n = 1, OF 1 2] 3] 4])
qed

lemma stop_outcome:
  assumes run: "AppleAgxRtkitSessionStop s io deadlineMs e = Some (r, s', e')" and on: "rs_Running s"
  shows "rank_of s \<le> rank_of s' \<and> (r = AppleAgxRtkitSessionResultOk \<longleftrightarrow> \<not> rs_Running s') \<and>
    (r = AppleAgxRtkitSessionResultOk \<longrightarrow> rs_StopPhase s' = AppleAgxRtkitStopComplete)"
proof (cases "AppleAgxRtkitBootIsReady (rs_Boot s) \<and> rs_StopPhase s \<noteq> AppleAgxRtkitStopComplete")
  case False
  have "rank_of s \<le> 5" by (cases "rs_StopPhase s") simp_all
  with False show ?thesis
    using run on unfolding AppleAgxRtkitSessionStop_def AppleAgxRtkitSessionForceRunOff_def
    by (auto split: if_splits prod.splits)
next
  case True
  then have "rank_of s \<le> 4" by (cases "rs_StopPhase s") simp_all
  note st = stop_stages [OF this, where e = e]
  let ?last = "\<lambda>s e. case AppleAgxAscSetRun io False e of (r, e) \<Rightarrow>
    if r \<noteq> AppleAgxAscResultOk then Some (AppleAgxRtkitSessionResultCleanupFailed, s, e)
    else Some (AppleAgxRtkitSessionResultOk, s\<lparr> rs_Running := False, rs_Boot := AppleAgxRtkitBootInitialize,
                  rs_StopPhase := AppleAgxRtkitStopComplete \<rparr>, e)"
  obtain x where x: "stage_from 4 s x" "AppleAgxRtkitSessionStop s io deadlineMs e = then_stage x ?last"
  proof (rule that)
    show "stage_from 4 s (then_stage (then_stage (then_stage
          (stop_stage AppleAgxRtkitStopIdle AppleAgxRtkitStopApRequested
             (send_power io (AppleAgxRtkitSetApPower 0x10) deadlineMs) s e)
          (stop_stage AppleAgxRtkitStopApRequested AppleAgxRtkitStopApAcknowledged
             (AppleAgxRtkitSessionWaitPower io AppleAgxRtkitManagementSetApPower 0x10 deadlineMs)))
          (stop_stage AppleAgxRtkitStopApAcknowledged AppleAgxRtkitStopIopRequested
             (send_power io (AppleAgxRtkitSetIopPower 0x10) deadlineMs)))
          (stop_stage AppleAgxRtkitStopIopRequested AppleAgxRtkitStopIopAcknowledged
             (AppleAgxRtkitSessionWaitPower io AppleAgxRtkitManagementIopPowerAck 0x10 deadlineMs)))" by (rule st)
  qed (use True on in \<open>simp add: AppleAgxRtkitSessionStop_def\<close>)
  then obtain r1 s1 e1 where s1: "x = Some (r1, s1, e1)"
    using run unfolding then_stage_def by (auto split: option.splits)
  have "rs_Running s1" "rank_of s \<le> rank_of s1" "rank_of s1 \<le> 4" using x(1) on unfolding s1 stage_from_def by blast+
  then show ?thesis using run unfolding x(2) s1 then_stage_def by (auto split: prod.splits if_splits)
qed

section \<open>The bootstrap ends\<close>

text \<open>A clock that goes on: a reading shows at least the time of the environment (as far as 64 bits can)
  and leaves a later one, and no callback goes back in time.\<close>

definition clock_advances :: "'e APPLE_AGX_ASC_IO \<Rightarrow> ('e \<Rightarrow> nat) \<Rightarrow> bool" where
  "clock_advances io time \<longleftrightarrow>
     (\<forall>now e v e'. io_NowMs io = Some now \<longrightarrow> now e = (v, e') \<longrightarrow> time e < time e' \<and> min (time e) (2 ^ 64 - 1) \<le> unat v) \<and>
     (\<forall>f a e. io_Read32 io = Some f \<longrightarrow> time e \<le> time (snd (f a e))) \<and>
     (\<forall>f a e. io_Read64 io = Some f \<longrightarrow> time e \<le> time (snd (f a e))) \<and>
     (\<forall>f a v e. io_Write64 io = Some f \<longrightarrow> time e \<le> time (snd (f a v e))) \<and>
     (\<forall>f e. io_Pause io = Some f \<longrightarrow> time e \<le> time (snd (f e)))"

lemma clock_advancesD:
  assumes "clock_advances io time"
  shows "io_NowMs io \<noteq> None \<Longrightarrow> the (io_NowMs io) e = (v, e') \<Longrightarrow> time e < time e' \<and> min (time e) (2 ^ 64 - 1) \<le> unat v"
    and "io_Read32 io \<noteq> None \<Longrightarrow> the (io_Read32 io) a e = (x, e') \<Longrightarrow> time e \<le> time e'"
    and "io_Read64 io \<noteq> None \<Longrightarrow> the (io_Read64 io) a e = (y, e') \<Longrightarrow> time e \<le> time e'"
    and "io_Write64 io \<noteq> None \<Longrightarrow> the (io_Write64 io) a w e = (b, e') \<Longrightarrow> time e \<le> time e'"
    and "asc_pause io e = (b, e') \<Longrightarrow> time e \<le> time e'"
  using assms unfolding clock_advances_def asc_pause_def
  by (auto split: option.splits) (metis snd_conv option.sel option.collapse)+

text \<open>Before a deadline below the largest 64-bit number there are only so many readings.\<close>

lemma asc_poll_ends:
  assumes c: "clock_advances io time" and v: "io_NowMs io \<noteq> None" "io_Read32 io \<noteq> None"
    and d: "unat deadlineMs < 2 ^ 64 - 1"
  shows "\<exists>r e'. asc_poll io offset ready startMs deadlineMs e = Some (r, e') \<and> time e \<le> time e'"
proof (induction "Suc (unat deadlineMs) - time e" arbitrary: e rule: less_induct)
  case less
  obtain x e1 where read: "the (io_Read32 io) offset e = (x, e1)" by fastforce
  note t1 = clock_advancesD(2) [OF c v(2) read]
  obtain b e2 where pause: "asc_pause io e1 = (b, e2)" by fastforce
  note t2 = clock_advancesD(5) [OF c pause]
  obtain now e3 where clock: "the (io_NowMs io) e2 = (now, e3)" by fastforce
  note t3 = clock_advancesD(1) [OF c v(1) clock]
  show ?case
  proof (cases "x = None \<or> (\<exists>v. x = Some v \<and> ready v) \<or> \<not> b")
    case True
    then show ?thesis using read pause t1 t2 by (subst asc_poll.simps) (auto split: option.split)
  next
    case False
    then obtain v where x: "x = Some v" "\<not> ready v" "b" by (cases x) auto
    have check: "AppleAgxAscCheckDeadline io startMs deadlineMs e2 =
      (if now < startMs then AppleAgxAscResultClockRegression
       else if now > deadlineMs then AppleAgxAscResultTimeout else AppleAgxAscResultOk, e3)"
      by (simp add: AppleAgxAscCheckDeadline_def clock)
    show ?thesis
    proof (cases "now < startMs \<or> now > deadlineMs")
      case True
      then show ?thesis using read pause x t1 t2 t3 check by (subst asc_poll.simps) auto
    next
      case in_time: False
      then have "unat now \<le> unat deadlineMs" by (simp add: word_less_nat_alt not_less)
      with t3 d have "time e2 \<le> unat deadlineMs" by (auto simp: min_def split: if_splits)
      with t1 t2 t3 have "Suc (unat deadlineMs) - time e3 < Suc (unat deadlineMs) - time e" by linarith
      from less.hyps [OF this] obtain r e' where
        "asc_poll io offset ready startMs deadlineMs e3 = Some (r, e')" "time e3 \<le> time e'" by blast
      then show ?thesis using read pause x t1 t2 t3 check in_time by (subst asc_poll.simps) auto
    qed
  qed
qed

lemma asc_wait_ends:
  assumes c: "clock_advances io time" and v: "io_NowMs io \<noteq> None" "io_Read32 io \<noteq> None"
    and d: "unat deadlineMs < 2 ^ 64 - 1"
  shows "\<exists>r e'. asc_wait io offset ready deadlineMs e = Some (r, e') \<and> time e < time e' \<and>
    ((\<exists>v. r = Inr v) \<longrightarrow> time e \<le> unat deadlineMs)"
proof -
  obtain start e1 where clock: "the (io_NowMs io) e = (start, e1)" by fastforce
  note t = clock_advancesD(1) [OF c v(1) clock]
  show ?thesis
  proof (cases "start > deadlineMs")
    case True
    then show ?thesis using clock t by (auto simp: asc_wait_def)
  next
    case False
    then have "unat start \<le> unat deadlineMs" by (simp add: word_less_nat_alt not_less)
    with t d have "time e \<le> unat deadlineMs" by (auto simp: min_def split: if_splits)
    with asc_poll_ends [OF c v d, of offset ready start e1] t False clock show ?thesis by (auto simp: asc_wait_def)
  qed
qed

lemma send_ends:
  assumes c: "clock_advances io time" and d: "unat deadlineMs < 2 ^ 64 - 1"
  shows "\<exists>r e'. AppleAgxAscSend io payload endpoint deadlineMs e = Some (r, e') \<and> time e \<le> time e'"
proof (cases "AppleAgxAscSendIoValid io \<and> endpoint \<le> 0xff")
  case False
  then show ?thesis by (auto simp: AppleAgxAscSend_def not_le)
next
  case True
  then have v: "io_NowMs io \<noteq> None" "io_Read32 io \<noteq> None" "io_Write64 io \<noteq> None"
    by (simp_all add: AppleAgxAscSendIoValid_def)
  obtain r e1 where w: "asc_wait io ASC_INBOX_CTRL_OFFSET (\<lambda>control. control AND ASC_MAILBOX_FULL = 0) deadlineMs e = Some (r, e1)"
    "time e < time e1" using asc_wait_ends [OF c v(1,2) d] by blast
  obtain b2 e2 where w2: "the (io_Write64 io) ASC_INBOX0_OFFSET payload e1 = (b2, e2)" by fastforce
  obtain b3 e3 where w3: "the (io_Write64 io) ASC_INBOX1_OFFSET (ucast endpoint) e2 = (b3, e3)" by fastforce
  have "time e1 \<le> time e2" "time e2 \<le> time e3" using clock_advancesD(4) [OF c v(3)] w2 w3 by blast+
  then show ?thesis using True w w2 w3 by (cases r; cases b2; cases b3) (auto simp: AppleAgxAscSend_def not_less)
qed

lemma receive_ends:
  assumes c: "clock_advances io time" and d: "unat deadlineMs < 2 ^ 64 - 1"
  shows "\<exists>r e'. AppleAgxAscReceive io deadlineMs e = Some (r, e') \<and> time e \<le> time e' \<and>
    ((\<exists>m. r = Inr m) \<longrightarrow> time e < time e' \<and> time e \<le> unat deadlineMs)"
proof (cases "AppleAgxAscReceiveIoValid io")
  case False
  then show ?thesis by (auto simp: AppleAgxAscReceive_def)
next
  case True
  then have v: "io_NowMs io \<noteq> None" "io_Read32 io \<noteq> None" "io_Read64 io \<noteq> None"
    by (simp_all add: AppleAgxAscReceiveIoValid_def)
  obtain r e1 where w: "asc_wait io ASC_OUTBOX_CTRL_OFFSET (\<lambda>control. control AND ASC_MAILBOX_EMPTY = 0) deadlineMs e = Some (r, e1)"
    "time e < time e1" "(\<exists>v. r = Inr v) \<longrightarrow> time e \<le> unat deadlineMs" using asc_wait_ends [OF c v(1,2) d] by blast
  obtain x2 e2 where r2: "the (io_Read64 io) ASC_OUTBOX0_OFFSET e1 = (x2, e2)" by fastforce
  obtain x3 e3 where r3: "the (io_Read64 io) ASC_OUTBOX1_OFFSET e2 = (x3, e3)" by fastforce
  have "time e1 \<le> time e2" "time e2 \<le> time e3" using clock_advancesD(3) [OF c v(3)] r2 r3 by blast+
  then show ?thesis using True w r2 r3
    by (cases r; cases x2; cases x3) (auto simp: AppleAgxAscReceive_def take_message_def)
qed

lemma send_all_ends:
  assumes "clock_advances io time" and "unat deadlineMs < 2 ^ 64 - 1"
  shows "\<exists>r e'. send_all io ms deadlineMs e = Some (r, e') \<and> time e \<le> time e'"
proof (induction ms arbitrary: e)
  case (Cons m ms)
  obtain r e1 where s: "AppleAgxAscSend io m 0 deadlineMs e = Some (r, e1)" "time e \<le> time e1"
    using send_ends [OF assms] by blast
  obtain r2 e2 where s2: "send_all io ms deadlineMs e1 = Some (r2, e2)" "time e1 \<le> time e2" using Cons by blast
  show ?case using s s2 by auto
qed simp

lemma crashlog_ends:
  assumes "clock_advances io time" and "unat deadlineMs < 2 ^ 64 - 1"
  shows "\<exists>r s' e'. AppleAgxRtkitSessionCrashlog s io payload deadlineMs e = Some (r, s', e') \<and> time e \<le> time e'"
proof -
  have "case AppleAgxAscSend io p 1 deadlineMs e of None \<Rightarrow> False | Some (r, e') \<Rightarrow> time e \<le> time e'" for p
    using send_ends [OF assms, of p 1 e] by auto
  from this [of "push_bit 52 1 OR push_bit 44 (ucast (drop_bit 12 (rs_CrashlogCapacityBytes s))) OR rs_CrashlogGpuAddress s"]
  have "case AppleAgxRtkitSessionCrashlog s io payload deadlineMs e of None \<Rightarrow> False | Some (r, s', e') \<Rightarrow> time e \<le> time e'"
    unfolding AppleAgxRtkitSessionCrashlog_def Let_def by (simp split: option.splits prod.splits)
  then show ?thesis by (auto split: option.splits)
qed

lemma bootstrap_ends:
  assumes c: "clock_advances io time" and d: "unat deadlineMs < 2 ^ 64 - 1"
  shows "\<exists>x. bootstrap_loop io deadlineMs s e = Some x"
proof (induction "Suc (unat deadlineMs) - time e" arbitrary: s e rule: less_induct)
  case less
  obtain r e1 where rec: "AppleAgxAscReceive io deadlineMs e = Some (r, e1)" "time e \<le> time e1"
    "(\<exists>m. r = Inr m) \<longrightarrow> time e < time e1 \<and> time e \<le> unat deadlineMs" using receive_ends [OF c d] by blast
  have next': "\<exists>x. bootstrap_loop io deadlineMs s' e' = Some x" if "r = Inr m" "time e1 \<le> time e'" for s' e' m
    using rec(3) that by (intro less.hyps) auto
  show ?case
  proof (cases "AppleAgxRtkitBootIsReady (rs_Boot s)")
    case True
    then show ?thesis by (subst bootstrap_loop.simps) simp
  next
    case False
    show ?thesis
    proof (cases r)
      case (Inl a)
      with False rec show ?thesis by (subst bootstrap_loop.simps) (simp split: prod.split del: split_paired_Ex)
    next
      case (Inr m)
      note next'' = next' [OF Inr]
      obtain cr cs ce where crash: "AppleAgxRtkitSessionCrashlog (note_received m s) io (am_Payload m) deadlineMs e1 = Some (cr, cs, ce)"
        "time e1 \<le> time ce" using crashlog_ends [OF c d] by blast
      obtain br boot out where h: "AppleAgxRtkitBootHandle (rs_Boot (note_received m s)) (am_Payload m) (am_Endpoint m) = (br, boot, out)"
        by (metis prod_cases3)
      obtain sr se where send: "AppleAgxRtkitSessionSendOutput io out deadlineMs e1 = Some (sr, se)" "time e1 \<le> time se"
        using send_all_ends [OF c d] unfolding AppleAgxRtkitSessionSendOutput_def by blast
      show ?thesis
        using False rec(1) Inr crash h send next'' [OF crash(2)] next'' [OF send(2)]
        by (subst bootstrap_loop.simps) (simp add: Let_def del: split_paired_Ex)
    qed
  qed
qed

lemma complete_ends:
  assumes c: "clock_advances io time" and d: "unat deadlineMs < 2 ^ 64 - 1"
  shows "\<exists>x. AppleAgxRtkitSessionCompleteManagementBootstrap s io deadlineMs e = Some x"
proof -
  have send: "AppleAgxRtkitSessionSendOutput io out deadlineMs e \<noteq> None" for out e
    using send_all_ends [OF c d] unfolding AppleAgxRtkitSessionSendOutput_def by (metis option.distinct(1))
  have loop: "bootstrap_loop io deadlineMs s e \<noteq> None" for s e using bootstrap_ends [OF c d] by auto
  have "AppleAgxRtkitSessionCompleteManagementBootstrap s io deadlineMs e \<noteq> None"
    using send loop unfolding AppleAgxRtkitSessionCompleteManagementBootstrap_def Let_def
    by (simp split: option.splits prod.splits del: not_None_eq)
  then show ?thesis by blast
qed

section \<open>The crash-log grant\<close>

text \<open>The three fields of a grant on the wire: its kind, its size in pages of 4096 bytes, its address.\<close>

definition grant_kind :: "u64 \<Rightarrow> u64" where "grant_kind w = drop_bit 52 w"
definition grant_bytes :: "u64 \<Rightarrow> u64" where "grant_bytes w = push_bit 12 (drop_bit 44 w AND 0xff)"
definition grant_address :: "u64 \<Rightarrow> u64" where "grant_address w = w AND (push_bit 44 1 - 1)"

text \<open>What the driver asks of its own grant: whole pages of the kernel half, not past its end.\<close>

definition grant_ok :: "APPLE_AGX_RTKIT_SESSION \<Rightarrow> bool" where
  "grant_ok s \<longleftrightarrow>
     (let a = unat (rs_CrashlogGpuAddress s); n = unat (rs_CrashlogCapacityBytes s)
      in 2 ^ 44 - 2 ^ 39 \<le> a \<and> 2 ^ 14 dvd a \<and> 2 ^ 14 dvd n \<and> 0 < n \<and> n \<le> 0xff000 \<and> a + n \<le> 2 ^ 44)"

lemma low14: "(w AND 0x3fff = 0) \<longleftrightarrow> 2 ^ 14 dvd unat w" for w :: "'a::len word"
proof -
  have "(0x3fff :: 'a word) = mask 14" by (simp add: mask_eq_exp_minus_1)
  then have "w AND 0x3fff = take_bit 14 w" by (simp add: take_bit_eq_mask)
  then have "w AND 0x3fff = 0 \<longleftrightarrow> unat (take_bit 14 w) = 0" by (simp add: unat_eq_zero)
  also have "\<dots> \<longleftrightarrow> unat w mod 2 ^ 14 = 0" unfolding unsigned_take_bit_eq take_bit_eq_mod [symmetric] by (rule refl)
  finally show ?thesis by (simp only: dvd_eq_mod_eq_0)
qed

lemma grant_fields:
  fixes a :: u64 and n :: u32
  assumes a: "unat a < 2 ^ 44" and n: "unat n < 2 ^ 20" "2 ^ 14 dvd unat n"
  defines "w \<equiv> push_bit 52 1 OR push_bit 44 (ucast (drop_bit 12 n)) OR a"
  shows "grant_kind w = 1" and "grant_bytes w = ucast n" and "grant_address w = a"
proof -
  note la = low_bits [OF a] and ln = low_bits [OF n(1)]
  have one: "bit (4503599627370496 :: int) k \<longleftrightarrow> k = 52" "bit (1048576 :: int) k \<longleftrightarrow> k = 20" for k
  proof -
    have "(4503599627370496 :: int) = 2 ^ 52" "(1048576 :: int) = 2 ^ 20" by simp_all
    then show "bit (4503599627370496 :: int) k \<longleftrightarrow> k = 52" "bit (1048576 :: int) k \<longleftrightarrow> k = 20"
      by (simp_all only: bit_exp_iff) auto
  qed
  have n12: "\<not> bit n k" if "k < 14" for k
  proof -
    have "n AND 0x3fff = 0" using n(2) by (simp only: low14)
    then have "take_bit 14 n = 0" by (simp add: take_bit_eq_mask mask_eq_exp_minus_1)
    then have "\<not> bit (take_bit 14 n) k" by simp
    with that show ?thesis by (simp add: bit_take_bit_iff)
  qed
  show "grant_kind w = 1"
  proof (unfold grant_kind_def w_def, rule bit_word_eqI)
    fix k assume "k < LENGTH(64)"
    then show "bit (drop_bit 52 (push_bit 52 1 OR push_bit 44 (ucast (drop_bit 12 n)) OR a) :: u64) k = bit (1 :: u64) k"
      using la [of "52 + k"] ln [of "20 + k"] by (auto simp: bit_simps one bit_1_iff)
  qed
  show "grant_address w = a"
  proof (unfold grant_address_def w_def, rule bit_word_eqI)
    fix k assume "k < LENGTH(64)"
    have m: "push_bit 44 1 - 1 = (mask 44 :: u64)" by (simp add: mask_eq_exp_minus_1)
    show "bit ((push_bit 52 1 OR push_bit 44 (ucast (drop_bit 12 n)) OR a) AND (push_bit 44 1 - 1) :: u64) k = bit a k"
      unfolding m using la [of k] by (cases "k < 44") (auto simp: bit_simps one)
  qed
  show "grant_bytes w = ucast n"
  proof (unfold grant_bytes_def w_def, rule bit_word_eqI)
    fix k assume k: "k < LENGTH(64)"
    have m: "0xff = (mask 8 :: u64)" by (simp add: mask_eq_exp_minus_1)
    show "bit (push_bit 12 (drop_bit 44 (push_bit 52 1 OR push_bit 44 (ucast (drop_bit 12 n)) OR a) AND 0xff) :: u64) k = bit (ucast n :: u64) k"
      unfolding m using k la [of "32 + k"] ln [of k] n12 [of k]
      by (cases "k < 12"; cases "k < 20") (auto simp: bit_simps one)
  qed
qed

lemma crashlog_granted:
  assumes "AppleAgxRtkitSessionCrashlog s io payload deadlineMs e = Some (AppleAgxRtkitSessionResultOk, s', e')"
  shows "\<exists>reply. AppleAgxAscSend io reply 1 deadlineMs e = Some (AppleAgxAscResultOk, e') \<and>
    grant_kind payload = 1 \<and> grant_address payload = 0 \<and> grant_bytes payload \<noteq> 0 \<and> grant_ok s \<and>
    grant_kind reply = 1 \<and> grant_address reply = rs_CrashlogGpuAddress s \<and>
    grant_bytes reply = ucast (rs_CrashlogCapacityBytes s) \<and> grant_bytes payload \<le> grant_bytes reply \<and>
    \<not> rs_CrashlogReplySent s \<and> rs_CrashlogReplySent s'"
proof -
  let ?a = "rs_CrashlogGpuAddress s" and ?n = "rs_CrashlogCapacityBytes s"
  let ?req = "push_bit 12 (ucast (drop_bit 44 payload AND 0xff)) :: u32"
  let ?reply = "push_bit 52 1 OR push_bit 44 (ucast (drop_bit 12 ?n)) OR ?a"
  have g: "drop_bit 52 payload = 1" "\<not> rs_CrashlogReplySent s" "payload AND (push_bit 44 1 - 1) = 0" "?req \<noteq> 0"
    "?req \<le> ?n" "?a \<ge> push_bit 44 1 - push_bit 39 1" "?a < push_bit 44 1" "?a AND 0x3fff = 0" "?n \<noteq> 0" "?n \<le> 0xff000"
    "?n AND 0x3fff = 0" "ucast ?n \<le> push_bit 44 1 - ?a"
    "AppleAgxAscSend io ?reply 1 deadlineMs e = Some (AppleAgxAscResultOk, e')" "rs_CrashlogReplySent s'"
    using assms unfolding AppleAgxRtkitSessionCrashlog_def Let_def
    by (auto split: if_splits option.splits prod.splits)
  have req: "ucast ?req = grant_bytes payload"
  proof (unfold grant_bytes_def, rule bit_word_eqI)
    fix k assume "k < LENGTH(64)"
    have m: "0xff = (mask 8 :: u64)" by (simp add: mask_eq_exp_minus_1)
    show "bit (ucast ?req :: u64) k = bit (push_bit 12 (drop_bit 44 payload AND 0xff)) k"
      unfolding m by (auto simp: bit_simps)
  qed
  have a: "unat ?a < 2 ^ 44" using g(7) by (simp add: word_less_nat_alt)
  have n: "unat ?n < 2 ^ 20" "2 ^ 14 dvd unat ?n" "0 < unat ?n" "unat ?n \<le> 0xff000"
    using g(9-11) by (simp_all add: low14 word_le_nat_alt unat_gt_0)
  have "unat (ucast ?n :: u64) \<le> unat (push_bit 44 1 - ?a)" using g(12) by (simp only: word_le_nat_alt)
  also have "unat (push_bit 44 1 - ?a) = 2 ^ 44 - unat ?a" using a by (simp add: unat_sub_if')
  finally have "unat ?n \<le> 2 ^ 44 - unat ?a" by (simp add: unat_ucast_up)
  moreover have "2 ^ 44 - 2 ^ 39 \<le> unat ?a" using g(6) by (simp add: word_le_nat_alt)
  ultimately have ok: "grant_ok s" using a n g(8) by (simp add: grant_ok_def Let_def low14)
  have le: "grant_bytes payload \<le> ucast ?n" using g(5) unfolding req [symmetric] by (simp add: word_le_nat_alt unat_ucast_up)
  have "unat (ucast ?req :: u64) = unat ?req" by (rule unat_ucast_up) simp
  with g(4) have "grant_bytes payload \<noteq> 0" unfolding req [symmetric] by (metis unat_0 unat_eq_zero)
  with g ok le grant_fields [OF a n(1,2)] show ?thesis
    by (intro exI [of _ ?reply]) (simp add: grant_kind_def [of payload] grant_address_def [of payload])
qed

section \<open>Properties\<close>

text \<open>A coprocessor that behaves: the environment is the time and the messages still in its outbox, each with
  its endpoint; it is running, its inbox has room, and every access takes one unit of time.\<close>

definition script_io :: "(nat \<times> (u64 \<times> u32) list) APPLE_AGX_ASC_IO" where
  "script_io = \<lparr>
     io_NowMs = Some (\<lambda>e. (of_nat (min (fst e) (2 ^ 64 - 1)), (fst e + 1, snd e))),
     io_Read32 = Some (\<lambda>offset e. (Some (if offset = ASC_CPU_STATUS_OFFSET then 1
        else if offset = ASC_OUTBOX_CTRL_OFFSET \<and> snd e = [] then ASC_MAILBOX_EMPTY else 0), (fst e + 1, snd e))),
     io_Read64 = Some (\<lambda>offset e. if offset = ASC_OUTBOX0_OFFSET then (Some (fst (hd (snd e))), (fst e + 1, snd e))
        else (Some (ucast (snd (hd (snd e)))), (fst e + 1, tl (snd e)))),
     io_Write32 = Some (\<lambda>offset v e. (True, (fst e + 1, snd e))),
     io_Write64 = Some (\<lambda>offset v e. (True, (fst e + 1, snd e))),
     io_Pause = None \<rparr>"

lemma script_io_advances: "clock_advances script_io fst"
proof -
  have "unat (of_nat (min t (2 ^ 64 - 1)) :: u64) = min t (2 ^ 64 - 1)" for t
    by (simp add: unat_of_nat min_def)
  then show ?thesis unfolding clock_advances_def script_io_def by auto
qed

text \<open>The dialogue of a boot: the hello, the two power acknowledgements around one last endpoint map.\<close>

definition boot_script :: "(u64 \<times> u32) list" where
  "boot_script = [(push_bit 52 1 OR 0x000c000b, 0), (push_bit 52 7 OR 0x20, 0),
     (push_bit 52 8 OR push_bit 51 1 OR 0x51e, 0), (push_bit 52 11 OR 0x20, 0)]"

lemma start_cpu_ends:
  assumes c: "clock_advances io time" and d: "unat deadlineMs < 2 ^ 64 - 1"
  shows "\<exists>r s' e'. AppleAgxRtkitSessionStartCpuAndInitializeHandoff s io None deadlineMs e = Some (r, s', None, e')"
proof -
  have "AppleAgxAscWaitRunning io deadlineMs e \<noteq> None" for e
  proof (cases "io_NowMs io = None \<or> io_Read32 io = None")
    case False
    then obtain r e' where "asc_wait io ASC_CPU_STATUS_OFFSET 
      (\<lambda>status. status AND ASC_CPU_RUNNING \<noteq> 0 \<and> status AND ASC_CPU_STOPPED = 0) deadlineMs e = Some (r, e')"
      using asc_wait_ends [OF c _ _ d] by blast
    then show ?thesis by (simp add: AppleAgxAscWaitRunning_def split: sum.splits if_splits)
  qed (simp add: AppleAgxAscWaitRunning_def)
  then have "case AppleAgxRtkitSessionStartCpuAndInitializeHandoff s io None deadlineMs e of
      None \<Rightarrow> False | Some (r, s', h, e') \<Rightarrow> h = None"
    unfolding AppleAgxRtkitSessionStartCpuAndInitializeHandoff_def Let_def
    by (simp split: option.splits prod.splits sum.splits if_splits del: not_None_eq)
  then show ?thesis by (auto split: option.splits)
qed

lemma boot_ends:
  assumes c: "clock_advances io time" and d: "unat deadlineMs < 2 ^ 64 - 1"
  shows "\<exists>r s' e'. AppleAgxRtkitSessionBoot s io None prepare deadlineMs e = Some (r, s', None, e')"
proof -
  obtain r1 s1 e1 where start:
    "AppleAgxRtkitSessionStartCpuAndInitializeHandoff s io None deadlineMs e = Some (r1, s1, None, e1)"
    using start_cpu_ends [OF c d] by blast
  have "AppleAgxRtkitSessionCompleteManagementBootstrap s io deadlineMs e \<noteq> None" for s e
    using complete_ends [OF c d, of s e] by (metis option.distinct(1))
  then have "case AppleAgxRtkitSessionBoot s io None prepare deadlineMs e of None \<Rightarrow> False | Some (r, s', h, e') \<Rightarrow> h = None"
    unfolding AppleAgxRtkitSessionBoot_def start
    by (simp split: option.splits prod.splits if_splits del: not_None_eq)
  then show ?thesis by (auto split: option.splits)
qed

text \<open>C15. Booting a session that is not running, whatever the coprocessor sends and however the callbacks and
  the hook behave: when the boot returns, either it reports success and the session is running with its
  processor ready, its handshake complete and no stop begun, or it reports an error and the session is no
  longer running; only when switching off itself failed does it report that failure instead.\<close>

theorem session_boot_outcome:
  assumes "AppleAgxRtkitSessionBoot s io handoff prepare deadlineMs e = Some (r, s', h, e')" and "\<not> rs_Running s"
  shows "if r = AppleAgxRtkitSessionResultOk then session_up s'
    else \<not> rs_Running s' \<or> r = AppleAgxRtkitSessionResultCleanupFailed"
  using boot_outcome [OF assms] by (simp add: start_outcome_def)

theorem session_boot_outcome_witness:
  "\<exists>r s' h e'. AppleAgxRtkitSessionBoot AppleAgxRtkitSessionInitialize script_io None None 1000 (0, boot_script) =
      Some (r, s', h, e') \<and>
    (if r = AppleAgxRtkitSessionResultOk then session_up s'
     else \<not> rs_Running s' \<or> r = AppleAgxRtkitSessionResultCleanupFailed)"
proof -
  obtain r s' e' where run:
    "AppleAgxRtkitSessionBoot AppleAgxRtkitSessionInitialize script_io None None 1000 (0, boot_script) = Some (r, s', None, e')"
    using boot_ends [OF script_io_advances, of 1000] by fastforce
  have "\<not> rs_Running AppleAgxRtkitSessionInitialize" by (simp add: AppleAgxRtkitSessionInitialize_def)
  from session_boot_outcome [OF run this] run show ?thesis by blast
qed



text \<open>A crash-log request is granted only out of the driver's own buffer: the request names no address and
  a size that is not zero, the buffer lies in whole pages inside the kernel half and does not pass its end,
  the reply carries exactly its address and its whole size, at least what was asked, and there is one grant
  in a session.\<close>

theorem crashlog_grants_own_buffer:
  assumes "AppleAgxRtkitSessionCrashlog s io payload deadlineMs e = Some (AppleAgxRtkitSessionResultOk, s', e')"
  shows "\<exists>reply. AppleAgxAscSend io reply 1 deadlineMs e = Some (AppleAgxAscResultOk, e') \<and>
    grant_kind payload = 1 \<and> grant_address payload = 0 \<and> grant_bytes payload \<noteq> 0 \<and> grant_ok s \<and>
    grant_kind reply = 1 \<and> grant_address reply = rs_CrashlogGpuAddress s \<and>
    grant_bytes reply = ucast (rs_CrashlogCapacityBytes s) \<and> grant_bytes payload \<le> grant_bytes reply \<and>
    \<not> rs_CrashlogReplySent s \<and> rs_CrashlogReplySent s'"
  by (rule crashlog_granted [OF assms])

definition crashlog_session :: APPLE_AGX_RTKIT_SESSION where
  "crashlog_session = AppleAgxRtkitSessionInitialize
     \<lparr> rs_CrashlogGpuAddress := 0xf8000000000, rs_CrashlogCapacityBytes := 0x8000 \<rparr>"

lemma script_send:
  "t < 1000 \<Longrightarrow> AppleAgxAscSend script_io m 1 1000 (t, ms) = Some (AppleAgxAscResultOk, (t + 4, ms))"
  by (simp add: AppleAgxAscSend_def AppleAgxAscSendIoValid_def asc_wait_def script_io_def asc_poll.simps
      word_less_nat_alt unat_of_nat)

theorem crashlog_grants_own_buffer_witness:
  "\<exists>s' e'. AppleAgxRtkitSessionCrashlog crashlog_session script_io (push_bit 52 1 OR push_bit 44 4) 1000 (0, []) =
      Some (AppleAgxRtkitSessionResultOk, s', e') \<and> rs_CrashlogReplySent s'"
proof -
  obtain s' e' where run: "AppleAgxRtkitSessionCrashlog crashlog_session script_io
      (push_bit 52 1 OR push_bit 44 4) 1000 (0, []) = Some (AppleAgxRtkitSessionResultOk, s', e')"
    by (simp add: AppleAgxRtkitSessionCrashlog_def crashlog_session_def AppleAgxRtkitSessionInitialize_def Let_def script_send)
  from crashlog_grants_own_buffer [OF run] run show ?thesis by blast
qed

text \<open>C37. Stopping is resumable and never goes back: whatever a stop that returns did, the phase reached is not
  before the one it started from, it succeeds exactly when the session is then off, with the stop complete,
  and a failed stop leaves it running so that the next call goes on from the phase reached.\<close>

theorem session_stop_progress:
  assumes "AppleAgxRtkitSessionStop s io deadlineMs e = Some (r, s', e')" and "rs_Running s"
  shows "rank_of s \<le> rank_of s' \<and> (r = AppleAgxRtkitSessionResultOk \<longleftrightarrow> \<not> rs_Running s') \<and>
    (r = AppleAgxRtkitSessionResultOk \<longrightarrow> rs_StopPhase s' = AppleAgxRtkitStopComplete)"
  by (rule stop_outcome [OF assms])

theorem session_stop_progress_witness:
  "\<exists>s' e'. AppleAgxRtkitSessionStop (AppleAgxRtkitSessionInitialize\<lparr> rs_Running := True \<rparr>) script_io 1000 (0, []) =
      Some (AppleAgxRtkitSessionResultOk, s', e') \<and> \<not> rs_Running s' \<and> rs_StopPhase s' = AppleAgxRtkitStopComplete"
proof -
  obtain s' e' where run: "AppleAgxRtkitSessionStop (AppleAgxRtkitSessionInitialize\<lparr> rs_Running := True \<rparr>) script_io 1000 (0, []) =
      Some (AppleAgxRtkitSessionResultOk, s', e')"
    by (simp add: AppleAgxRtkitSessionStop_def AppleAgxRtkitSessionInitialize_def AppleAgxRtkitBootInitialize_def
        AppleAgxRtkitBootIsReady_def AppleAgxRtkitSessionForceRunOff_def AppleAgxAscSetRun_def AppleAgxAscReadIoValid_def
        read_register_def script_io_def)
  from session_stop_progress [OF run] run show ?thesis by auto
qed

end
