(* ===== verification/Firmware.thy ===== *)
theory Firmware
  imports Rtkit "HOL-Library.Sublist"
begin

unbundle bit_operations_syntax

text \<open>
  The firmware phases, \<^verbatim>\<open>drivers/apple-agx/shared/src/apple_agx_firmware.c\<close>: starting the firmware step by step with a
  deadline for every step, and taking everything back when a step fails.  The platform is a record of callbacks on an
  environment; a callback that may be NULL is an option.  The steps the code writes with a macro or spells out in the
  same form are one definition with the callback, the timeout, the phase and the bit as arguments.
\<close>

section \<open>State\<close>

datatype APPLE_AGX_FIRMWARE_PHASE =
  AppleAgxFirmwareOff
| AppleAgxFirmwarePowered
| AppleAgxFirmwareUatReady
| AppleAgxFirmwareAscRunning
| AppleAgxFirmwareEndpointStarted
| AppleAgxDoorbellEndpointStarted
| AppleAgxFirmwareInitdataPublished
| AppleAgxFirmwareInitdataSent
| AppleAgxFirmwareDeviceControlInitialized
| AppleAgxFirmwareIdleTimestampUpdated
| AppleAgxFirmwareRollingBack
| AppleAgxFirmwareStopped
| AppleAgxFirmwareFailed

datatype APPLE_AGX_FIRMWARE_RESULT =
  AppleAgxFirmwareResultOk
| AppleAgxFirmwareResultInvalid
| AppleAgxFirmwareResultDeadlineOverflow
| AppleAgxFirmwareResultTimeout
| AppleAgxFirmwareResultClockRegression
| AppleAgxFirmwareResultTransportFailed
| AppleAgxFirmwareResultCleanupFailed

record APPLE_AGX_FIRMWARE =
  fw_Phase :: APPLE_AGX_FIRMWARE_PHASE
  fw_CompletedMask :: u32
  fw_InitdataAddress :: u64
  fw_LastResult :: APPLE_AGX_FIRMWARE_RESULT
  fw_CleanupMask :: u32

text \<open>Every callback but the clock and the record gets the deadline; \<open>PublishInitdata\<close> also gets what its out parameter
  holds and returns what it leaves there.\<close>

record 'e APPLE_AGX_FIRMWARE_IO =
  fi_NowMs :: "('e \<Rightarrow> u64 \<times> 'e) option"
  fi_PowerOn :: "(u64 \<Rightarrow> 'e \<Rightarrow> bool \<times> 'e) option"
  fi_CreateFirmwareUat :: "(u64 \<Rightarrow> 'e \<Rightarrow> bool \<times> 'e) option"
  fi_BootAsc :: "(u64 \<Rightarrow> 'e \<Rightarrow> bool \<times> 'e) option"
  fi_StartEndpoint :: "(u32 \<Rightarrow> u64 \<Rightarrow> 'e \<Rightarrow> bool \<times> 'e) option"
  fi_PublishInitdata :: "(u64 \<Rightarrow> u64 \<Rightarrow> 'e \<Rightarrow> bool \<times> u64 \<times> 'e) option"
  fi_SendInitdata :: "(u64 \<Rightarrow> u64 \<Rightarrow> 'e \<Rightarrow> bool \<times> 'e) option"
  fi_SendDeviceControlInit :: "(u64 \<Rightarrow> 'e \<Rightarrow> bool \<times> 'e) option"
  fi_UpdateIdleTimestamp :: "(u64 \<Rightarrow> 'e \<Rightarrow> bool \<times> 'e) option"
  fi_UnpublishInitdata :: "(u64 \<Rightarrow> 'e \<Rightarrow> bool \<times> 'e) option"
  fi_StopEndpoint :: "(u32 \<Rightarrow> u64 \<Rightarrow> 'e \<Rightarrow> bool \<times> 'e) option"
  fi_StopAsc :: "(u64 \<Rightarrow> 'e \<Rightarrow> bool \<times> 'e) option"
  fi_DestroyFirmwareUat :: "(u64 \<Rightarrow> 'e \<Rightarrow> bool \<times> 'e) option"
  fi_PowerOff :: "(u64 \<Rightarrow> 'e \<Rightarrow> bool \<times> 'e) option"
  fi_RecordPhase :: "(APPLE_AGX_FIRMWARE_PHASE \<Rightarrow> APPLE_AGX_FIRMWARE_RESULT \<Rightarrow> u32 \<Rightarrow> 'e \<Rightarrow> 'e) option"

abbreviation FW_POWERED :: u32 where "FW_POWERED \<equiv> 1"
abbreviation FW_UAT_READY :: u32 where "FW_UAT_READY \<equiv> 2"
abbreviation FW_ASC_RUNNING :: u32 where "FW_ASC_RUNNING \<equiv> 4"
abbreviation FW_ENDPOINT :: u32 where "FW_ENDPOINT \<equiv> 8"
abbreviation FW_DOORBELL_ENDPOINT :: u32 where "FW_DOORBELL_ENDPOINT \<equiv> 16"
abbreviation FW_INITDATA_PUBLISHED :: u32 where "FW_INITDATA_PUBLISHED \<equiv> 32"
abbreviation FW_INITDATA_SENT :: u32 where "FW_INITDATA_SENT \<equiv> 64"
abbreviation FW_DEVICE_CONTROL :: u32 where "FW_DEVICE_CONTROL \<equiv> 128"
abbreviation FW_IDLE_TIMESTAMP :: u32 where "FW_IDLE_TIMESTAMP \<equiv> 256"
abbreviation FW_ALL_COMPLETED :: u32 where "FW_ALL_COMPLETED \<equiv> 0x1ff"
abbreviation FW_OBSERVATION_BITS :: u32 where
  "FW_OBSERVATION_BITS \<equiv> FW_INITDATA_SENT OR FW_DEVICE_CONTROL OR FW_IDLE_TIMESTAMP"

abbreviation FIRMWARE_ENDPOINT_NUMBER :: u32 where "FIRMWARE_ENDPOINT_NUMBER \<equiv> 0x20"
abbreviation DOORBELL_ENDPOINT_NUMBER :: u32 where "DOORBELL_ENDPOINT_NUMBER \<equiv> 0x21"
abbreviation ASC_BOOT_TIMEOUT_MS :: u32 where "ASC_BOOT_TIMEOUT_MS \<equiv> 3000"
abbreviation ENDPOINT_TIMEOUT_MS :: u32 where "ENDPOINT_TIMEOUT_MS \<equiv> 500"
abbreviation INITDATA_TIMEOUT_MS :: u32 where "INITDATA_TIMEOUT_MS \<equiv> 500"
abbreviation STOP_TIMEOUT_MS :: u32 where "STOP_TIMEOUT_MS \<equiv> 1000"

section \<open>Operations\<close>

definition AppleAgxFirmwareRecord ::
  "APPLE_AGX_FIRMWARE \<Rightarrow> 'e APPLE_AGX_FIRMWARE_IO \<Rightarrow> 'e \<Rightarrow> 'e" where
  "AppleAgxFirmwareRecord fw io e =
     (case fi_RecordPhase io of
        None \<Rightarrow> e
      | Some write \<Rightarrow> write (fw_Phase fw) (fw_LastResult fw) (fw_CompletedMask fw) e)"

definition AppleAgxFirmwareIoValid :: "'e APPLE_AGX_FIRMWARE_IO \<Rightarrow> bool" where
  "AppleAgxFirmwareIoValid io \<longleftrightarrow>
     fi_NowMs io \<noteq> None \<and> fi_PowerOn io \<noteq> None \<and> fi_CreateFirmwareUat io \<noteq> None \<and>
     fi_BootAsc io \<noteq> None \<and> fi_StartEndpoint io \<noteq> None \<and> fi_PublishInitdata io \<noteq> None \<and>
     fi_SendInitdata io \<noteq> None \<and> fi_SendDeviceControlInit io \<noteq> None \<and>
     fi_UpdateIdleTimestamp io \<noteq> None \<and> fi_UnpublishInitdata io \<noteq> None \<and>
     fi_StopEndpoint io \<noteq> None \<and> fi_StopAsc io \<noteq> None \<and>
     fi_DestroyFirmwareUat io \<noteq> None \<and> fi_PowerOff io \<noteq> None"

text \<open>The start and the deadline of an operation.\<close>

definition AppleAgxFirmwareBeginDeadline ::
  "'e APPLE_AGX_FIRMWARE_IO \<Rightarrow> u32 \<Rightarrow> 'e \<Rightarrow> (APPLE_AGX_FIRMWARE_RESULT + u64 \<times> u64) \<times> 'e" where
  "AppleAgxFirmwareBeginDeadline io timeoutMs e =
     (case the (fi_NowMs io) e of (startMs, e1) \<Rightarrow>
        if startMs > NOT 0 - ucast timeoutMs then (Inl AppleAgxFirmwareResultDeadlineOverflow, e1)
        else (Inr (startMs, startMs + ucast timeoutMs), e1))"

definition AppleAgxFirmwareFinishOperation ::
  "'e APPLE_AGX_FIRMWARE_IO \<Rightarrow> u64 \<Rightarrow> u64 \<Rightarrow> bool \<Rightarrow> 'e \<Rightarrow> APPLE_AGX_FIRMWARE_RESULT \<times> 'e" where
  "AppleAgxFirmwareFinishOperation io startMs deadlineMs transportResult e =
     (case the (fi_NowMs io) e of (end_ms, e1) \<Rightarrow>
        (if end_ms < startMs then AppleAgxFirmwareResultClockRegression
         else if end_ms > deadlineMs then AppleAgxFirmwareResultTimeout
         else if \<not> transportResult then AppleAgxFirmwareResultTransportFailed
         else AppleAgxFirmwareResultOk, e1))"

definition AppleAgxFirmwareComplete ::
  "APPLE_AGX_FIRMWARE \<Rightarrow> 'e APPLE_AGX_FIRMWARE_IO \<Rightarrow> APPLE_AGX_FIRMWARE_PHASE \<Rightarrow> u32 \<Rightarrow> 'e
   \<Rightarrow> APPLE_AGX_FIRMWARE \<times> 'e" where
  "AppleAgxFirmwareComplete fw io phase bit' e =
     (let fw1 = fw\<lparr> fw_CompletedMask := fw_CompletedMask fw OR bit', fw_Phase := phase,
                    fw_LastResult := AppleAgxFirmwareResultOk \<rparr>
      in (fw1, AppleAgxFirmwareRecord fw1 io e))"

definition AppleAgxFirmwareInitialize :: "APPLE_AGX_FIRMWARE \<Rightarrow> APPLE_AGX_FIRMWARE" where
  "AppleAgxFirmwareInitialize fw =
     fw\<lparr> fw_Phase := AppleAgxFirmwareOff, fw_CompletedMask := 0, fw_CleanupMask := 0,
         fw_InitdataAddress := 0, fw_LastResult := AppleAgxFirmwareResultOk \<rparr>"

definition AppleAgxFirmwareFail ::
  "APPLE_AGX_FIRMWARE \<Rightarrow> APPLE_AGX_FIRMWARE_RESULT \<Rightarrow> APPLE_AGX_FIRMWARE" where
  "AppleAgxFirmwareFail fw result =
     fw\<lparr> fw_Phase := AppleAgxFirmwareFailed,
         fw_LastResult := if result = AppleAgxFirmwareResultOk then AppleAgxFirmwareResultInvalid
                          else result \<rparr>"

section \<open>Rolling back\<close>

definition AppleAgxFirmwareCleanupFinish ::
  "APPLE_AGX_FIRMWARE \<Rightarrow> 'e APPLE_AGX_FIRMWARE_IO \<Rightarrow> u32 \<Rightarrow> u64 \<Rightarrow> u64 \<Rightarrow> bool \<Rightarrow> 'e
   \<Rightarrow> APPLE_AGX_FIRMWARE_RESULT \<times> APPLE_AGX_FIRMWARE \<times> 'e" where
  "AppleAgxFirmwareCleanupFinish fw io bit' startMs deadlineMs transportResult e =
     (case AppleAgxFirmwareFinishOperation io startMs deadlineMs transportResult e of (result, e1) \<Rightarrow>
        let fw1 = (if result = AppleAgxFirmwareResultOk
                   then fw\<lparr> fw_CompletedMask := fw_CompletedMask fw AND NOT bit',
                            fw_CleanupMask := fw_CleanupMask fw AND NOT bit' \<rparr>
                   else fw\<lparr> fw_LastResult := AppleAgxFirmwareResultCleanupFailed \<rparr>)
        in (result, fw1, AppleAgxFirmwareRecord fw1 io e1))"

text \<open>One release of the rollback, \<open>APPLE_AGX_CLEANUP_SIMPLE\<close>; the flag is \<open>cleanup_failed\<close>.\<close>

definition cleanup_simple ::
  "'e APPLE_AGX_FIRMWARE_IO \<Rightarrow> u32 \<Rightarrow> (u64 \<Rightarrow> 'e \<Rightarrow> bool \<times> 'e) \<Rightarrow> APPLE_AGX_FIRMWARE \<times> bool \<times> 'e
   \<Rightarrow> APPLE_AGX_FIRMWARE \<times> bool \<times> 'e" where
  "cleanup_simple io bit' callback s =
     (case s of (fw, failed, e) \<Rightarrow>
        if (fw_CompletedMask fw OR fw_CleanupMask fw) AND bit' \<noteq> 0
        then case AppleAgxFirmwareBeginDeadline io STOP_TIMEOUT_MS e of
               (Inl _, e1) \<Rightarrow> (fw, True, e1)
             | (Inr (start_ms, deadline_ms), e1) \<Rightarrow>
                 (case callback deadline_ms e1 of (ok, e2) \<Rightarrow>
                    case AppleAgxFirmwareCleanupFinish fw io bit' start_ms deadline_ms ok e2 of
                      (result, fw1, e3) \<Rightarrow> (fw1, failed \<or> result \<noteq> AppleAgxFirmwareResultOk, e3))
        else (fw, failed, e))"

definition clear_unpublished :: "APPLE_AGX_FIRMWARE \<times> bool \<times> 'e \<Rightarrow> APPLE_AGX_FIRMWARE \<times> bool \<times> 'e" where
  "clear_unpublished s =
     (case s of (fw, failed, e) \<Rightarrow>
        (if fw_CompletedMask fw AND FW_INITDATA_PUBLISHED = 0 then fw\<lparr> fw_InitdataAddress := 0 \<rparr> else fw,
         failed, e))"

definition AppleAgxFirmwareRollback ::
  "APPLE_AGX_FIRMWARE \<Rightarrow> 'e APPLE_AGX_FIRMWARE_IO \<Rightarrow> 'e
   \<Rightarrow> APPLE_AGX_FIRMWARE_RESULT \<times> APPLE_AGX_FIRMWARE \<times> 'e" where
  "AppleAgxFirmwareRollback fw io e =
     (if \<not> AppleAgxFirmwareIoValid io
      then (AppleAgxFirmwareResultInvalid, AppleAgxFirmwareFail fw AppleAgxFirmwareResultInvalid, e)
      else if fw_CompletedMask fw AND NOT FW_ALL_COMPLETED \<noteq> 0 \<or>
              fw_CleanupMask fw AND NOT FW_ASC_RUNNING \<noteq> 0
      then let fw1 = AppleAgxFirmwareFail fw AppleAgxFirmwareResultInvalid
           in (AppleAgxFirmwareResultInvalid, fw1, AppleAgxFirmwareRecord fw1 io e)
      else if fw_CompletedMask fw = 0 \<and> fw_CleanupMask fw = 0
      then let fw1 = fw\<lparr> fw_Phase := AppleAgxFirmwareStopped, fw_LastResult := AppleAgxFirmwareResultOk \<rparr>
           in (AppleAgxFirmwareResultOk, fw1, AppleAgxFirmwareRecord fw1 io e)
      else
        let fw1 = fw\<lparr> fw_Phase := AppleAgxFirmwareRollingBack, fw_LastResult := AppleAgxFirmwareResultOk,
                       fw_CompletedMask := fw_CompletedMask fw AND NOT FW_OBSERVATION_BITS \<rparr>;
            s = (fw1, False, AppleAgxFirmwareRecord fw1 io e);
            s = clear_unpublished (cleanup_simple io FW_INITDATA_PUBLISHED (the (fi_UnpublishInitdata io)) s);
            s = cleanup_simple io FW_DOORBELL_ENDPOINT (the (fi_StopEndpoint io) DOORBELL_ENDPOINT_NUMBER) s;
            s = cleanup_simple io FW_ENDPOINT (the (fi_StopEndpoint io) FIRMWARE_ENDPOINT_NUMBER) s;
            s = cleanup_simple io FW_ASC_RUNNING (the (fi_StopAsc io)) s;
            s = cleanup_simple io FW_UAT_READY (the (fi_DestroyFirmwareUat io)) s
        in case cleanup_simple io FW_POWERED (the (fi_PowerOff io)) s of
          (fw2, cleanup_failed, e2) \<Rightarrow>
             if cleanup_failed \<or> fw_CompletedMask fw2 \<noteq> 0 \<or> fw_CleanupMask fw2 \<noteq> 0
             then let fw3 = fw2\<lparr> fw_Phase := AppleAgxFirmwareFailed,
                                 fw_LastResult := AppleAgxFirmwareResultCleanupFailed \<rparr>
                  in (AppleAgxFirmwareResultCleanupFailed, fw3, AppleAgxFirmwareRecord fw3 io e2)
             else let fw3 = fw2\<lparr> fw_Phase := AppleAgxFirmwareStopped,
                                 fw_LastResult := AppleAgxFirmwareResultOk \<rparr>
                  in (AppleAgxFirmwareResultOk, fw3, AppleAgxFirmwareRecord fw3 io e2))"

definition AppleAgxFirmwareAbortStart ::
  "APPLE_AGX_FIRMWARE \<Rightarrow> 'e APPLE_AGX_FIRMWARE_IO \<Rightarrow> APPLE_AGX_FIRMWARE_RESULT \<Rightarrow> 'e
   \<Rightarrow> APPLE_AGX_FIRMWARE_RESULT \<times> APPLE_AGX_FIRMWARE \<times> 'e" where
  "AppleAgxFirmwareAbortStart fw io failure e =
     (let fw1 = AppleAgxFirmwareFail fw failure
      in case AppleAgxFirmwareRollback fw1 io (AppleAgxFirmwareRecord fw1 io e) of (rollback, fw2, e2) \<Rightarrow>
           if rollback \<noteq> AppleAgxFirmwareResultOk then (rollback, fw2, e2)
           else let fw3 = fw2\<lparr> fw_LastResult := failure \<rparr>
                in (failure, fw3, AppleAgxFirmwareRecord fw3 io e2))"

section \<open>Starting\<close>

definition AppleAgxFirmwareValidateStart ::
  "APPLE_AGX_FIRMWARE \<Rightarrow> 'e APPLE_AGX_FIRMWARE_IO \<Rightarrow> 'e
   \<Rightarrow> APPLE_AGX_FIRMWARE_RESULT \<times> APPLE_AGX_FIRMWARE \<times> 'e" where
  "AppleAgxFirmwareValidateStart fw io e =
     (if \<not> AppleAgxFirmwareIoValid io
      then let fw1 = AppleAgxFirmwareFail fw AppleAgxFirmwareResultInvalid
           in (AppleAgxFirmwareResultInvalid, fw1, AppleAgxFirmwareRecord fw1 io e)
      else if fw_Phase fw \<noteq> AppleAgxFirmwareOff \<and> fw_Phase fw \<noteq> AppleAgxFirmwareStopped \<or>
              fw_CompletedMask fw \<noteq> 0 \<or> fw_CleanupMask fw \<noteq> 0
      then (AppleAgxFirmwareResultInvalid, fw, e)
      else (AppleAgxFirmwareResultOk,
            fw\<lparr> fw_Phase := AppleAgxFirmwareOff, fw_InitdataAddress := 0,
                fw_LastResult := AppleAgxFirmwareResultOk \<rparr>, e))"

text \<open>One step of the start, \<open>APPLE_AGX_START_SIMPLE\<close>.\<close>

definition start_simple ::
  "'e APPLE_AGX_FIRMWARE_IO \<Rightarrow> (u64 \<Rightarrow> 'e \<Rightarrow> bool \<times> 'e) \<Rightarrow> u32 \<Rightarrow> APPLE_AGX_FIRMWARE_PHASE \<Rightarrow> u32
   \<Rightarrow> APPLE_AGX_FIRMWARE \<Rightarrow> 'e \<Rightarrow> APPLE_AGX_FIRMWARE_RESULT \<times> APPLE_AGX_FIRMWARE \<times> 'e" where
  "start_simple io callback timeoutMs phase bit' fw e =
     (case AppleAgxFirmwareBeginDeadline io timeoutMs e of
        (Inl result, e1) \<Rightarrow> AppleAgxFirmwareAbortStart fw io result e1
      | (Inr (start_ms, deadline_ms), e1) \<Rightarrow>
          (case callback deadline_ms e1 of (ok, e2) \<Rightarrow>
             case AppleAgxFirmwareFinishOperation io start_ms deadline_ms ok e2 of (result, e3) \<Rightarrow>
               if result \<noteq> AppleAgxFirmwareResultOk then AppleAgxFirmwareAbortStart fw io result e3
               else (AppleAgxFirmwareResultOk, AppleAgxFirmwareComplete fw io phase bit' e3)))"

text \<open>The step that publishes the initial data stores the address it was given.\<close>

definition publish_initdata ::
  "'e APPLE_AGX_FIRMWARE_IO \<Rightarrow> APPLE_AGX_FIRMWARE \<Rightarrow> 'e
   \<Rightarrow> APPLE_AGX_FIRMWARE_RESULT \<times> APPLE_AGX_FIRMWARE \<times> 'e" where
  "publish_initdata io fw e =
     (case AppleAgxFirmwareBeginDeadline io INITDATA_TIMEOUT_MS e of
        (Inl result, e1) \<Rightarrow> AppleAgxFirmwareAbortStart fw io result e1
      | (Inr (start_ms, deadline_ms), e1) \<Rightarrow>
          (case the (fi_PublishInitdata io) deadline_ms 0 e1 of (transport_result, address, e2) \<Rightarrow>
             let fw1 = fw\<lparr> fw_InitdataAddress := address \<rparr>
             in case AppleAgxFirmwareFinishOperation io start_ms deadline_ms transport_result e2 of (result, e3) \<Rightarrow>
               let result = (if result = AppleAgxFirmwareResultOk \<and>
                                (address = 0 \<or> AppleAgxRtkitInitdata address = RTKIT_INVALID_MESSAGE)
                             then AppleAgxFirmwareResultInvalid else result)
               in if result \<noteq> AppleAgxFirmwareResultOk then AppleAgxFirmwareAbortStart fw1 io result e3
                  else (AppleAgxFirmwareResultOk,
                        AppleAgxFirmwareComplete fw1 io AppleAgxFirmwareInitdataPublished
                          FW_INITDATA_PUBLISHED e3)))"

text \<open>The steps one after the other; a step that fails has already rolled back and returns its error.\<close>

fun run_stages ::
  "(APPLE_AGX_FIRMWARE \<Rightarrow> 'e \<Rightarrow> APPLE_AGX_FIRMWARE_RESULT \<times> APPLE_AGX_FIRMWARE \<times> 'e) list
   \<Rightarrow> APPLE_AGX_FIRMWARE \<Rightarrow> 'e \<Rightarrow> APPLE_AGX_FIRMWARE_RESULT \<times> APPLE_AGX_FIRMWARE \<times> 'e" where
  "run_stages [] fw e = (AppleAgxFirmwareResultOk, fw, e)"
| "run_stages (stage # stages) fw e =
     (case stage fw e of (result, fw1, e1) \<Rightarrow>
        if result \<noteq> AppleAgxFirmwareResultOk then (result, fw1, e1) else run_stages stages fw1 e1)"

definition firmware_stages ::
  "'e APPLE_AGX_FIRMWARE_IO
   \<Rightarrow> (APPLE_AGX_FIRMWARE \<Rightarrow> 'e \<Rightarrow> APPLE_AGX_FIRMWARE_RESULT \<times> APPLE_AGX_FIRMWARE \<times> 'e) list" where
  "firmware_stages io =
     [start_simple io (the (fi_PowerOn io)) INITDATA_TIMEOUT_MS AppleAgxFirmwarePowered FW_POWERED,
      start_simple io (the (fi_CreateFirmwareUat io)) INITDATA_TIMEOUT_MS AppleAgxFirmwareUatReady FW_UAT_READY,
      (\<lambda>fw. start_simple io (the (fi_BootAsc io)) ASC_BOOT_TIMEOUT_MS AppleAgxFirmwareAscRunning FW_ASC_RUNNING
               (fw\<lparr> fw_CleanupMask := fw_CleanupMask fw OR FW_ASC_RUNNING \<rparr>)),
      start_simple io (the (fi_StartEndpoint io) FIRMWARE_ENDPOINT_NUMBER) ENDPOINT_TIMEOUT_MS
        AppleAgxFirmwareEndpointStarted FW_ENDPOINT,
      start_simple io (the (fi_StartEndpoint io) DOORBELL_ENDPOINT_NUMBER) ENDPOINT_TIMEOUT_MS
        AppleAgxDoorbellEndpointStarted FW_DOORBELL_ENDPOINT,
      publish_initdata io,
      (\<lambda>fw. start_simple io (the (fi_SendInitdata io) (fw_InitdataAddress fw)) INITDATA_TIMEOUT_MS
               AppleAgxFirmwareInitdataSent FW_INITDATA_SENT fw),
      start_simple io (the (fi_SendDeviceControlInit io)) INITDATA_TIMEOUT_MS
        AppleAgxFirmwareDeviceControlInitialized FW_DEVICE_CONTROL,
      start_simple io (the (fi_UpdateIdleTimestamp io)) INITDATA_TIMEOUT_MS
        AppleAgxFirmwareIdleTimestampUpdated FW_IDLE_TIMESTAMP]"

definition AppleAgxFirmwareStart ::
  "APPLE_AGX_FIRMWARE \<Rightarrow> 'e APPLE_AGX_FIRMWARE_IO \<Rightarrow> 'e
   \<Rightarrow> APPLE_AGX_FIRMWARE_RESULT \<times> APPLE_AGX_FIRMWARE \<times> 'e" where
  "AppleAgxFirmwareStart fw io e =
     (case AppleAgxFirmwareValidateStart fw io e of (result, fw1, e1) \<Rightarrow>
        if result \<noteq> AppleAgxFirmwareResultOk then (result, fw1, e1)
        else run_stages (firmware_stages io) fw1 e1)"


section \<open>Observing the platform\<close>

text \<open>What the platform sees: the operations in the order they are called.  The clock and the record of phases are
  not operations.\<close>

datatype firmware_call =
  CallPowerOn
| CallCreateFirmwareUat
| CallBootAsc
| CallStartEndpoint u32
| CallPublishInitdata
| CallSendInitdata
| CallSendDeviceControlInit
| CallUpdateIdleTimestamp
| CallUnpublishInitdata
| CallStopEndpoint u32
| CallStopAsc
| CallDestroyFirmwareUat
| CallPowerOff

definition logs :: "('e \<Rightarrow> 'l list) \<Rightarrow> 'l \<Rightarrow> ('e \<Rightarrow> bool \<times> 'e) \<Rightarrow> bool" where
  "logs log c f \<longleftrightarrow> (\<forall>e. log (snd (f e)) = log e @ [c])"

text \<open>\<open>log\<close> reads off an environment which operations were called.\<close>

definition firmware_observed :: "'e APPLE_AGX_FIRMWARE_IO \<Rightarrow> ('e \<Rightarrow> firmware_call list) \<Rightarrow> bool" where
  "firmware_observed io log \<longleftrightarrow>
     (\<forall>e. log (snd (the (fi_NowMs io) e)) = log e) \<and>
     (\<forall>write p r m e. fi_RecordPhase io = Some write \<longrightarrow> log (write p r m e) = log e) \<and>
     (\<forall>d. logs log CallPowerOn (the (fi_PowerOn io) d)) \<and>
     (\<forall>d. logs log CallCreateFirmwareUat (the (fi_CreateFirmwareUat io) d)) \<and>
     (\<forall>d. logs log CallBootAsc (the (fi_BootAsc io) d)) \<and>
     (\<forall>n d. logs log (CallStartEndpoint n) (the (fi_StartEndpoint io) n d)) \<and>
     (\<forall>d a e. log (snd (snd (the (fi_PublishInitdata io) d a e))) = log e @ [CallPublishInitdata]) \<and>
     (\<forall>a d. logs log CallSendInitdata (the (fi_SendInitdata io) a d)) \<and>
     (\<forall>d. logs log CallSendDeviceControlInit (the (fi_SendDeviceControlInit io) d)) \<and>
     (\<forall>d. logs log CallUpdateIdleTimestamp (the (fi_UpdateIdleTimestamp io) d)) \<and>
     (\<forall>d. logs log CallUnpublishInitdata (the (fi_UnpublishInitdata io) d)) \<and>
     (\<forall>n d. logs log (CallStopEndpoint n) (the (fi_StopEndpoint io) n d)) \<and>
     (\<forall>d. logs log CallStopAsc (the (fi_StopAsc io) d)) \<and>
     (\<forall>d. logs log CallDestroyFirmwareUat (the (fi_DestroyFirmwareUat io) d)) \<and>
     (\<forall>d. logs log CallPowerOff (the (fi_PowerOff io) d))"

lemma logsD: "logs log c f \<Longrightarrow> f e = (ok, e') \<Longrightarrow> log e' = log e @ [c]"
  by (metis logs_def snd_conv)

text \<open>The steps of a start, and the releases a set of bits asks for, in the order they are made.\<close>

definition start_calls :: "firmware_call list" where
  "start_calls =
     [CallPowerOn, CallCreateFirmwareUat, CallBootAsc, CallStartEndpoint FIRMWARE_ENDPOINT_NUMBER,
      CallStartEndpoint DOORBELL_ENDPOINT_NUMBER, CallPublishInitdata, CallSendInitdata,
      CallSendDeviceControlInit, CallUpdateIdleTimestamp]"

definition releases :: "(u32 \<times> firmware_call) list" where
  "releases =
     [(FW_INITDATA_PUBLISHED, CallUnpublishInitdata),
      (FW_DOORBELL_ENDPOINT, CallStopEndpoint DOORBELL_ENDPOINT_NUMBER),
      (FW_ENDPOINT, CallStopEndpoint FIRMWARE_ENDPOINT_NUMBER),
      (FW_ASC_RUNNING, CallStopAsc), (FW_UAT_READY, CallDestroyFirmwareUat), (FW_POWERED, CallPowerOff)]"

definition undo_calls :: "u32 \<Rightarrow> firmware_call list" where
  "undo_calls m = map snd (filter (\<lambda>(b, _). m AND b \<noteq> 0) releases)"

text \<open>What is still to be released.\<close>

definition obligations :: "APPLE_AGX_FIRMWARE \<Rightarrow> u32" where
  "obligations fw = fw_CompletedMask fw OR fw_CleanupMask fw"

definition fw_masks_ok :: "APPLE_AGX_FIRMWARE \<Rightarrow> bool" where
  "fw_masks_ok fw \<longleftrightarrow> fw_CompletedMask fw AND NOT FW_ALL_COMPLETED = 0 \<and>
     fw_CleanupMask fw AND NOT FW_ASC_RUNNING = 0"


section \<open>What a rollback releases\<close>

definition or_all :: "(u32 \<times> 'c) list \<Rightarrow> u32" where
  "or_all xs = foldr (\<lambda>(b, _) m. b OR m) xs 0"

definition wanted :: "u32 \<Rightarrow> (u32 \<times> 'c) list \<Rightarrow> 'c list" where
  "wanted m xs = map snd (filter (\<lambda>(b, _). m AND b \<noteq> 0) xs)"

lemma or_all_simps [simp]: "or_all [] = 0" "or_all ((b, c) # xs) = b OR or_all xs"
  by (simp_all add: or_all_def)

lemma or_all_snoc [simp]: "or_all (xs @ [(b, c)]) = or_all xs OR b"
  by (induction xs) (auto simp: or.assoc)

lemma wanted_snoc [simp]: "wanted m (xs @ [(b, c)]) = wanted m xs @ (if m AND b \<noteq> 0 then [c] else [])"
  by (simp add: wanted_def)

text \<open>After the releases \<open>rs\<close>: without a failure every wanted one was called and its bit is gone; after a failure some
  bit is still there.  The bits that were not processed are as they were.\<close>

definition unwinding ::
  "('e \<Rightarrow> firmware_call list) \<Rightarrow> u32 \<Rightarrow> firmware_call list \<Rightarrow> (u32 \<times> firmware_call) list
   \<Rightarrow> APPLE_AGX_FIRMWARE \<times> bool \<times> 'e \<Rightarrow> bool" where
  "unwinding log m l0 rs s \<longleftrightarrow>
     (case s of (fw, failed, e) \<Rightarrow>
        (\<exists>cs. log e = l0 @ cs \<and> subseq cs (wanted m rs) \<and> (\<not> failed \<longrightarrow> cs = wanted m rs)) \<and>
        (failed \<longleftrightarrow> obligations fw AND or_all rs \<noteq> 0) \<and>
        (\<forall>b. b AND or_all rs = 0 \<longrightarrow> obligations fw AND b = m AND b) \<and>
        fw_CompletedMask fw AND NOT 0x3f = 0 \<and> fw_CleanupMask fw AND NOT FW_ASC_RUNNING = 0)"

lemma word_disjoint: "x AND y = 0 \<longleftrightarrow> (\<forall>n. \<not> (bit x n \<and> bit y n))" for x y :: "'a::len word"
  by (auto simp: bit_eq_iff bit_simps dest: bit_imp_le_length)

lemma masked_clear:
  fixes x b r q :: "'a::len word"
  shows "b AND r = 0 \<Longrightarrow> (x AND NOT b) AND r = x AND r"
    and "(x AND NOT b) AND (r OR b) = (x AND NOT b) AND r"
    and "x AND b = 0 \<Longrightarrow> x AND (r OR b) = x AND r"
    and "x AND q = 0 \<Longrightarrow> (x AND NOT b) AND q = 0"
    and "q AND (r OR b) = 0 \<Longrightarrow> q AND r = 0"
    and "q AND (r OR b) = 0 \<Longrightarrow> (x AND NOT b) AND q = x AND q"
    and "x AND b \<noteq> 0 \<Longrightarrow> x AND (r OR b) \<noteq> 0"
  by (auto simp: word_disjoint bit_eq_iff bit_simps)

lemma observed_now: "firmware_observed io log \<Longrightarrow> the (fi_NowMs io) e = (t, e') \<Longrightarrow> log e' = log e"
  by (metis firmware_observed_def snd_conv)

lemma observed_record: "firmware_observed io log \<Longrightarrow> log (AppleAgxFirmwareRecord fw io e) = log e"
  by (auto simp: AppleAgxFirmwareRecord_def firmware_observed_def split: option.splits)

lemma observed_begin:
  "firmware_observed io log \<Longrightarrow> AppleAgxFirmwareBeginDeadline io t e = (r, e') \<Longrightarrow> log e' = log e"
  by (auto simp: AppleAgxFirmwareBeginDeadline_def dest: observed_now split: prod.splits if_splits)

lemma observed_finish:
  "firmware_observed io log \<Longrightarrow> AppleAgxFirmwareFinishOperation io s d ok e = (r, e') \<Longrightarrow> log e' = log e"
  by (auto simp: AppleAgxFirmwareFinishOperation_def dest: observed_now split: prod.splits)

lemma cleanup_outcome:
  assumes "cleanup_simple io b cb (fw, failed, e) = (fw', failed', e')"
    and "firmware_observed io log" and "\<And>d. logs log c (cb d)"
  obtains (skipped) "obligations fw AND b = 0" "fw' = fw" "failed' = failed" "log e' = log e"
  | (released) "obligations fw AND b \<noteq> 0" "failed' = failed" "log e' = log e @ [c]"
      "fw_CompletedMask fw' = fw_CompletedMask fw AND NOT b" "fw_CleanupMask fw' = fw_CleanupMask fw AND NOT b"
  | (stuck) cs where "obligations fw AND b \<noteq> 0" failed' "log e' = log e @ cs" "cs = [] \<or> cs = [c]"
      "fw_CompletedMask fw' = fw_CompletedMask fw" "fw_CleanupMask fw' = fw_CleanupMask fw"
proof (cases "obligations fw AND b = 0")
  case True
  with assms(1) show thesis by (intro skipped) (auto simp: cleanup_simple_def obligations_def)
next
  case False
  obtain r1 e1 where b1: "AppleAgxFirmwareBeginDeadline io STOP_TIMEOUT_MS e = (r1, e1)" by force
  show thesis
  proof (cases r1)
    case (Inl x)
    with False assms(1) b1 observed_begin [OF assms(2) b1] show thesis
      by (intro stuck [of "[]"]) (auto simp: cleanup_simple_def obligations_def)
  next
    case (Inr w)
    obtain s d where w: "w = (s, d)" by force
    obtain ok e2 where c2: "cb d e1 = (ok, e2)" by force
    obtain r3 e3 where f3: "AppleAgxFirmwareFinishOperation io s d ok e2 = (r3, e3)" by force
    have l3: "log e3 = log e @ [c]"
      using observed_finish [OF assms(2) f3] logsD [OF assms(3) c2] observed_begin [OF assms(2) b1] by simp
    show thesis
    proof (cases "r3 = AppleAgxFirmwareResultOk")
      case True
      with False assms(1) b1 Inr w c2 f3 l3 observed_record [OF assms(2)] show thesis
        by (intro released) (auto simp: cleanup_simple_def AppleAgxFirmwareCleanupFinish_def obligations_def Let_def)
    next
      case r3: False
      with False assms(1) b1 Inr w c2 f3 l3 observed_record [OF assms(2)] show thesis
        by (intro stuck [of "[c]"]) (auto simp: cleanup_simple_def AppleAgxFirmwareCleanupFinish_def obligations_def Let_def)
    qed
  qed
qed

lemma unwindingI:
  assumes "log e = l0 @ cs" "subseq cs (wanted m rs)" "\<not> failed \<Longrightarrow> cs = wanted m rs"
    "failed \<longleftrightarrow> obligations fw AND or_all rs \<noteq> 0"
    "\<And>b. b AND or_all rs = 0 \<Longrightarrow> obligations fw AND b = m AND b"
    "fw_CompletedMask fw AND NOT 0x3f = 0" "fw_CleanupMask fw AND NOT FW_ASC_RUNNING = 0"
  shows "unwinding log m l0 rs (fw, failed, e)"
  using assms by (auto simp: unwinding_def)

lemma unwinding_step:
  assumes "unwinding log m l0 rs s" and "firmware_observed io log" and "\<And>d. logs log c (cb d)"
    and "b AND or_all rs = 0"
  shows "unwinding log m l0 (rs @ [(b, c)]) (cleanup_simple io b cb s)"
proof -
  obtain fw failed e where s: "s = (fw, failed, e)" by (cases s)
  obtain fw' failed' e' where s': "cleanup_simple io b cb s = (fw', failed', e')" by (cases "cleanup_simple io b cb s")
  obtain cs where u: "log e = l0 @ cs" "subseq cs (wanted m rs)" "\<not> failed \<Longrightarrow> cs = wanted m rs"
    "failed \<longleftrightarrow> obligations fw AND or_all rs \<noteq> 0"
    "\<And>q. q AND or_all rs = 0 \<Longrightarrow> obligations fw AND q = m AND q"
    "fw_CompletedMask fw AND NOT 0x3f = 0" "fw_CleanupMask fw AND NOT FW_ASC_RUNNING = 0"
    using assms(1) by (auto simp: unwinding_def s)
  have mb: "obligations fw AND b = m AND b" by (rule u(5)) (rule assms(4))
  note old = u(5) [OF masked_clear(5)]
  show ?thesis
    unfolding s'
  proof (rule cleanup_outcome [OF s' [unfolded s] assms(2,3)])
    assume k: "obligations fw AND b = 0" "fw' = fw" "failed' = failed" "log e' = log e"
    with mb have m0: "m AND b = 0" by simp
    show "unwinding log m l0 (rs @ [(b, c)]) (fw', failed', e')"
      unfolding k(2)
      by (rule unwindingI [where cs = cs]) (use k m0 u old in \<open>simp_all add: masked_clear(3)\<close>)
  next
    assume k: "obligations fw AND b \<noteq> 0" "failed' = failed" "log e' = log e @ [c]"
      "fw_CompletedMask fw' = fw_CompletedMask fw AND NOT b" "fw_CleanupMask fw' = fw_CleanupMask fw AND NOT b"
    have o: "obligations fw' = obligations fw AND NOT b"
      by (simp add: obligations_def k bit.conj_disj_distrib2)
    have m1: "m AND b \<noteq> 0" using k(1) mb by simp
    show "unwinding log m l0 (rs @ [(b, c)]) (fw', failed', e')"
    proof (rule unwindingI [where cs = "cs @ [c]"])
      show "failed' \<longleftrightarrow> obligations fw' AND or_all (rs @ [(b, c)]) \<noteq> 0"
        using u(4) masked_clear(1) [OF assms(4)] by (simp add: o k(2) masked_clear(2))
    next
      fix q assume "q AND or_all (rs @ [(b, c)]) = 0"
      then have q: "q AND (or_all rs OR b) = 0" by simp
      show "obligations fw' AND q = m AND q" unfolding o masked_clear(6) [OF q] by (rule old) (rule q)
    qed (use k m1 u in \<open>simp_all add: masked_clear(4)\<close>)
  next
    fix ds assume k: "obligations fw AND b \<noteq> 0" failed' "log e' = log e @ ds" "ds = [] \<or> ds = [c]"
      "fw_CompletedMask fw' = fw_CompletedMask fw" "fw_CleanupMask fw' = fw_CleanupMask fw"
    have o: "obligations fw' = obligations fw" by (simp add: obligations_def k)
    have m1: "m AND b \<noteq> 0" using k(1) mb by simp
    have sub: "subseq (cs @ ds) (wanted m rs @ [c])"
      by (rule list_emb_append_mono) (use u(2) k(4) in auto)
    show "unwinding log m l0 (rs @ [(b, c)]) (fw', failed', e')"
      by (rule unwindingI [where cs = "cs @ ds"]) (use k m1 u old sub in \<open>simp_all add: o masked_clear(7)\<close>)
  qed
qed

lemma masked_zero: "x AND r = 0 \<Longrightarrow> x AND NOT r = 0 \<Longrightarrow> x = 0" for x r :: "'a::len word"
  by (metis bit.conj_disj_distrib bit.disj_cancel_right or.left_neutral and.right_neutral)

lemma masked_or: "(x OR y) AND r = 0 \<longleftrightarrow> x AND r = 0 \<and> y AND r = 0" for x y r :: "'a::len word"
  by (auto simp: word_disjoint bit_simps)

lemma masked_sub: "x AND NOT 4 = 0 \<Longrightarrow> x AND NOT 0x3f = 0" for x :: u32
proof -
  assume x: "x AND NOT 4 = 0"
  have "x AND NOT 0x3f = (x AND NOT 4) AND NOT 0x3f"
    by (simp add: and.assoc)
  with x show ?thesis by simp
qed

lemma masked_rest: "b AND q = 0 \<Longrightarrow> ((x AND NOT q) OR y) AND b = (x OR y) AND b" for x y b q :: "'a::len word"
  by (auto simp: word_disjoint bit_eq_iff bit_simps)

lemma or_all_releases: "or_all releases = 0x3f"
  by (simp add: releases_def)

lemma unwinding_unpublished:
  "unwinding log m l0 rs s \<Longrightarrow> unwinding log m l0 rs (clear_unpublished s)"
  by (cases s) (auto simp: unwinding_def clear_unpublished_def obligations_def)

lemma unwinding_all:
  assumes "firmware_observed io log" and "unwinding log m l0 [] s"
  shows "unwinding log m l0 releases
    (cleanup_simple io FW_POWERED (the (fi_PowerOff io))
      (cleanup_simple io FW_UAT_READY (the (fi_DestroyFirmwareUat io))
        (cleanup_simple io FW_ASC_RUNNING (the (fi_StopAsc io))
          (cleanup_simple io FW_ENDPOINT (the (fi_StopEndpoint io) FIRMWARE_ENDPOINT_NUMBER)
            (cleanup_simple io FW_DOORBELL_ENDPOINT (the (fi_StopEndpoint io) DOORBELL_ENDPOINT_NUMBER)
              (clear_unpublished
                (cleanup_simple io FW_INITDATA_PUBLISHED (the (fi_UnpublishInitdata io)) s)))))))"
proof -
  have o: "logs log CallUnpublishInitdata (the (fi_UnpublishInitdata io) d)"
    "logs log (CallStopEndpoint n) (the (fi_StopEndpoint io) n d)" "logs log CallStopAsc (the (fi_StopAsc io) d)"
    "logs log CallDestroyFirmwareUat (the (fi_DestroyFirmwareUat io) d)" "logs log CallPowerOff (the (fi_PowerOff io) d)"
    for n d
    using assms(1) unfolding firmware_observed_def by blast+
  have r: "releases = ((((([] @ [(FW_INITDATA_PUBLISHED, CallUnpublishInitdata)]) @
      [(FW_DOORBELL_ENDPOINT, CallStopEndpoint DOORBELL_ENDPOINT_NUMBER)]) @
      [(FW_ENDPOINT, CallStopEndpoint FIRMWARE_ENDPOINT_NUMBER)]) @ [(FW_ASC_RUNNING, CallStopAsc)]) @
      [(FW_UAT_READY, CallDestroyFirmwareUat)]) @ [(FW_POWERED, CallPowerOff)]"
    by (simp add: releases_def)
  show ?thesis
    unfolding r
    by (intro unwinding_step assms unwinding_unpublished o) simp_all
qed

definition fw_stopped :: "APPLE_AGX_FIRMWARE \<Rightarrow> bool" where
  "fw_stopped fw \<longleftrightarrow> fw_Phase fw = AppleAgxFirmwareStopped \<and> fw_CompletedMask fw = 0 \<and> fw_CleanupMask fw = 0"

text \<open>A rollback that fails says so and keeps a bit for what is left.\<close>

definition fw_stuck :: "APPLE_AGX_FIRMWARE \<Rightarrow> bool" where
  "fw_stuck fw \<longleftrightarrow> fw_Phase fw = AppleAgxFirmwareFailed \<and> fw_LastResult fw = AppleAgxFirmwareResultCleanupFailed \<and>
     obligations fw \<noteq> 0 \<and> fw_masks_ok fw"

lemma undo_wanted: "undo_calls m = wanted m releases"
  by (simp add: undo_calls_def wanted_def)

lemma wanted_rest:
  "(\<And>b c. (b, c) \<in> set xs \<Longrightarrow> b AND q = 0) \<Longrightarrow> wanted ((x AND NOT q) OR y) xs = wanted (x OR y) xs"
  unfolding wanted_def by (rule arg_cong [where f = "map snd"], rule filter_cong) (auto simp: masked_rest)

lemma releases_rest: "(b, c) \<in> set releases \<Longrightarrow> b AND FW_OBSERVATION_BITS = 0"
  by (auto simp: releases_def)

lemma fw_masks_okD: "fw_masks_ok fw \<Longrightarrow> (fw_CompletedMask fw AND NOT FW_OBSERVATION_BITS) AND NOT 0x3f = 0"
  by (simp add: fw_masks_ok_def and.assoc)

lemma rollback_outcome:
  assumes "AppleAgxFirmwareRollback fw io e = (r, fw', e')"
    and "firmware_observed io log" and "AppleAgxFirmwareIoValid io" and "fw_masks_ok fw"
  obtains (finished) "r = AppleAgxFirmwareResultOk" "fw_stopped fw'" "fw_LastResult fw' = AppleAgxFirmwareResultOk"
      "log e' = log e @ undo_calls (obligations fw)"
  | (stuck) cs where "r = AppleAgxFirmwareResultCleanupFailed" "fw_stuck fw'"
      "log e' = log e @ cs" "subseq cs (undo_calls (obligations fw))"
proof (cases "fw_CompletedMask fw = 0 \<and> fw_CleanupMask fw = 0")
  case True
  with assms show thesis
    by (intro finished) (auto simp: AppleAgxFirmwareRollback_def fw_stopped_def Let_def observed_record obligations_def
        undo_calls_def releases_def)
next
  case False
  define fw1 where "fw1 = fw\<lparr> fw_Phase := AppleAgxFirmwareRollingBack, fw_LastResult := AppleAgxFirmwareResultOk,
      fw_CompletedMask := fw_CompletedMask fw AND NOT FW_OBSERVATION_BITS \<rparr>"
  define s where "s = cleanup_simple io FW_POWERED (the (fi_PowerOff io))
      (cleanup_simple io FW_UAT_READY (the (fi_DestroyFirmwareUat io))
        (cleanup_simple io FW_ASC_RUNNING (the (fi_StopAsc io))
          (cleanup_simple io FW_ENDPOINT (the (fi_StopEndpoint io) FIRMWARE_ENDPOINT_NUMBER)
            (cleanup_simple io FW_DOORBELL_ENDPOINT (the (fi_StopEndpoint io) DOORBELL_ENDPOINT_NUMBER)
              (clear_unpublished
                (cleanup_simple io FW_INITDATA_PUBLISHED (the (fi_UnpublishInitdata io))
                  (fw1, False, AppleAgxFirmwareRecord fw1 io e)))))))"
  have k: "fw_CleanupMask fw1 AND NOT FW_ASC_RUNNING = 0" "fw_CompletedMask fw1 AND NOT 0x3f = 0"
    using assms(4) fw_masks_okD [OF assms(4)] by (simp_all add: fw1_def fw_masks_ok_def)
  have "unwinding log (obligations fw1) (log e) [] (fw1, False, AppleAgxFirmwareRecord fw1 io e)"
    by (rule unwindingI [where cs = "[]"]) (use k observed_record [OF assms(2)] in \<open>simp_all add: wanted_def\<close>)
  from unwinding_all [OF assms(2) this]
  have u: "unwinding log (obligations fw1) (log e) releases s" by (simp only: s_def)
  obtain fw2 failed e2 where s2: "s = (fw2, failed, e2)" by (cases s)
  have w: "wanted (obligations fw1) releases = undo_calls (obligations fw)"
    unfolding undo_wanted obligations_def fw1_def
    using wanted_rest [OF releases_rest, where x = "fw_CompletedMask fw" and y = "fw_CleanupMask fw"] by simp
  obtain cs where cs: "log e2 = log e @ cs" "subseq cs (undo_calls (obligations fw))"
    "\<not> failed \<Longrightarrow> cs = undo_calls (obligations fw)" "failed \<longleftrightarrow> obligations fw2 AND 0x3f \<noteq> 0"
    "fw_CompletedMask fw2 AND NOT 0x3f = 0" "fw_CleanupMask fw2 AND NOT FW_ASC_RUNNING = 0"
    using u unfolding unwinding_def s2 w or_all_releases by auto
  have z: "fw_CompletedMask fw2 = 0 \<and> fw_CleanupMask fw2 = 0" if "\<not> failed"
  proof -
    have o: "fw_CompletedMask fw2 AND 0x3f = 0" "fw_CleanupMask fw2 AND 0x3f = 0"
      using that cs(4) by (simp_all add: obligations_def masked_or)
    show ?thesis
      using masked_zero [OF o(1) cs(5)] masked_zero [OF o(2) masked_sub [OF cs(6)]] by blast
  qed
  have run: "AppleAgxFirmwareRollback fw io e =
      (if failed \<or> fw_CompletedMask fw2 \<noteq> 0 \<or> fw_CleanupMask fw2 \<noteq> 0
       then let fw3 = fw2\<lparr> fw_Phase := AppleAgxFirmwareFailed, fw_LastResult := AppleAgxFirmwareResultCleanupFailed \<rparr>
            in (AppleAgxFirmwareResultCleanupFailed, fw3, AppleAgxFirmwareRecord fw3 io e2)
       else let fw3 = fw2\<lparr> fw_Phase := AppleAgxFirmwareStopped, fw_LastResult := AppleAgxFirmwareResultOk \<rparr>
            in (AppleAgxFirmwareResultOk, fw3, AppleAgxFirmwareRecord fw3 io e2))"
    using False assms(3,4) s2 unfolding AppleAgxFirmwareRollback_def s_def fw1_def fw_masks_ok_def Let_def by auto
  show thesis
  proof (cases failed)
    case True
    have o: "obligations fw2 \<noteq> 0" using True cs(4) by auto
    have m: "fw_CompletedMask fw2 AND NOT FW_ALL_COMPLETED = 0"
    proof -
      have "fw_CompletedMask fw2 AND NOT FW_ALL_COMPLETED = (fw_CompletedMask fw2 AND NOT 0x3f) AND NOT FW_ALL_COMPLETED"
        by (simp add: and.assoc)
      with cs(5) show ?thesis by simp
    qed
    from assms(1) True have "r = AppleAgxFirmwareResultCleanupFailed" "e' = AppleAgxFirmwareRecord fw' io e2"
      "fw' = fw2\<lparr> fw_Phase := AppleAgxFirmwareFailed, fw_LastResult := AppleAgxFirmwareResultCleanupFailed \<rparr>"
      by (auto simp: run Let_def)
    with cs o m observed_record [OF assms(2)] show thesis
      by (intro stuck [of cs]) (auto simp: fw_stuck_def fw_masks_ok_def obligations_def)
  next
    case f: False
    from assms(1) f z have "r = AppleAgxFirmwareResultOk" "e' = AppleAgxFirmwareRecord fw' io e2"
      "fw' = fw2\<lparr> fw_Phase := AppleAgxFirmwareStopped, fw_LastResult := AppleAgxFirmwareResultOk \<rparr>"
      by (auto simp: run Let_def)
    with cs f z observed_record [OF assms(2)] show thesis
      by (intro finished) (auto simp: fw_stopped_def)
  qed
qed

text \<open>Aborting a start that had reached the obligations \<open>m\<close>.\<close>

lemma abort_outcome:
  assumes "AppleAgxFirmwareAbortStart fw io failure e = (r, fw', e')"
    and "firmware_observed io log" and "AppleAgxFirmwareIoValid io" and "fw_masks_ok fw"
    and "failure \<noteq> AppleAgxFirmwareResultOk"
  obtains (finished) "r = failure" "fw_stopped fw'" "fw_LastResult fw' = failure"
      "log e' = log e @ undo_calls (obligations fw)"
  | (stuck) cs where "r = AppleAgxFirmwareResultCleanupFailed" "fw_stuck fw'"
      "log e' = log e @ cs" "subseq cs (undo_calls (obligations fw))"
proof -
  define fw1 where "fw1 = AppleAgxFirmwareFail fw failure"
  obtain r2 fw2 e2 where rb: "AppleAgxFirmwareRollback fw1 io (AppleAgxFirmwareRecord fw1 io e) = (r2, fw2, e2)"
    by (metis prod_cases3)
  have k: "fw_masks_ok fw1" "obligations fw1 = obligations fw"
    using assms(4) by (simp_all add: fw1_def fw_masks_ok_def obligations_def AppleAgxFirmwareFail_def)
  have run: "(r, fw', e') = (if r2 \<noteq> AppleAgxFirmwareResultOk then (r2, fw2, e2)
      else (failure, fw2\<lparr> fw_LastResult := failure \<rparr>, AppleAgxFirmwareRecord (fw2\<lparr> fw_LastResult := failure \<rparr>) io e2))"
    using assms(1) rb by (auto simp: AppleAgxFirmwareAbortStart_def Let_def fw1_def)
  show thesis
  proof (rule rollback_outcome [OF rb assms(2,3) k(1)])
    assume "r2 = AppleAgxFirmwareResultOk" "fw_stopped fw2"
      "log e2 = log (AppleAgxFirmwareRecord fw1 io e) @ undo_calls (obligations fw1)"
    with run k observed_record [OF assms(2)] show thesis
      by (intro finished) (auto simp: fw_stopped_def)
  next
    fix cs assume "r2 = AppleAgxFirmwareResultCleanupFailed" "fw_stuck fw2"
      "log e2 = log (AppleAgxFirmwareRecord fw1 io e) @ cs" "subseq cs (undo_calls (obligations fw1))"
    with run k observed_record [OF assms(2)] show thesis
      by (intro stuck [of cs]) auto
  qed
qed

section \<open>What a start does\<close>

text \<open>After \<open>k\<close> steps.  The obligation to stop the processor is there from the moment its boot is attempted.\<close>

definition start_phases :: "APPLE_AGX_FIRMWARE_PHASE list" where
  "start_phases =
     [AppleAgxFirmwareOff, AppleAgxFirmwarePowered, AppleAgxFirmwareUatReady, AppleAgxFirmwareAscRunning,
      AppleAgxFirmwareEndpointStarted, AppleAgxDoorbellEndpointStarted, AppleAgxFirmwareInitdataPublished,
      AppleAgxFirmwareInitdataSent, AppleAgxFirmwareDeviceControlInitialized,
      AppleAgxFirmwareIdleTimestampUpdated]"

definition started :: "nat \<Rightarrow> APPLE_AGX_FIRMWARE \<Rightarrow> bool" where
  "started k fw \<longleftrightarrow>
     fw_Phase fw = start_phases ! k \<and> fw_CompletedMask fw = 2 ^ k - 1 \<and>
     fw_CleanupMask fw = (if 3 \<le> k then FW_ASC_RUNNING else 0) \<and>
     (6 \<le> k \<longrightarrow> fw_InitdataAddress fw \<noteq> 0 \<and>
                AppleAgxRtkitInitdata (fw_InitdataAddress fw) \<noteq> RTKIT_INVALID_MESSAGE)"

definition stage_obligations :: "nat \<Rightarrow> u32" where
  "stage_obligations k = (2 ^ k - 1) OR (if 2 \<le> k then FW_ASC_RUNNING else 0)"

text \<open>The step \<open>k\<close> failed.  Its operation may have been called; then the steps before it are undone, all of them unless
  an operation of the rollback fails too.\<close>

definition aborted ::
  "('e \<Rightarrow> firmware_call list) \<Rightarrow> firmware_call list \<Rightarrow> nat \<Rightarrow> firmware_call
   \<Rightarrow> APPLE_AGX_FIRMWARE_RESULT \<Rightarrow> APPLE_AGX_FIRMWARE \<Rightarrow> 'e \<Rightarrow> bool" where
  "aborted log l k c r fw' e' \<longleftrightarrow>
     r \<noteq> AppleAgxFirmwareResultOk \<and>
     (\<exists>attempt undone. log e' = l @ attempt @ undone \<and> prefix attempt [c] \<and>
        (if r = AppleAgxFirmwareResultCleanupFailed
         then fw_stuck fw' \<and> subseq undone (undo_calls (stage_obligations k))
         else fw_stopped fw' \<and> undone = undo_calls (stage_obligations k)))"

definition stage_ok ::
  "('e \<Rightarrow> firmware_call list) \<Rightarrow> nat \<Rightarrow> firmware_call
   \<Rightarrow> (APPLE_AGX_FIRMWARE \<Rightarrow> 'e \<Rightarrow> APPLE_AGX_FIRMWARE_RESULT \<times> APPLE_AGX_FIRMWARE \<times> 'e) \<Rightarrow> bool" where
  "stage_ok log k c stage \<longleftrightarrow>
     (\<forall>fw e r fw' e'. started k fw \<longrightarrow> stage fw e = (r, fw', e') \<longrightarrow>
        r = AppleAgxFirmwareResultOk \<and> started (Suc k) fw' \<and> log e' = log e @ [c] \<or>
        aborted log (log e) k c r fw' e')"

lemma abortedI:
  assumes "AppleAgxFirmwareAbortStart fw io failure e1 = (r, fw', e')"
    and "firmware_observed io log" and "AppleAgxFirmwareIoValid io" and "fw_masks_ok fw"
    and "failure \<noteq> AppleAgxFirmwareResultOk" and "failure \<noteq> AppleAgxFirmwareResultCleanupFailed"
    and "obligations fw = stage_obligations k" and "log e1 = l @ attempt" and "prefix attempt [c]"
  shows "aborted log l k c r fw' e'"
proof (rule abort_outcome [OF assms(1-5)])
  assume "r = failure" "fw_stopped fw'" "log e' = log e1 @ undo_calls (obligations fw)"
  with assms(5-9) show ?thesis unfolding aborted_def by auto
next
  fix cs assume "r = AppleAgxFirmwareResultCleanupFailed" "fw_stuck fw'" "log e' = log e1 @ cs"
    "subseq cs (undo_calls (obligations fw))"
  with assms(7-9) show ?thesis unfolding aborted_def by auto
qed

lemma begin_error:
  "AppleAgxFirmwareBeginDeadline io t e = (Inl f, e') \<Longrightarrow> f = AppleAgxFirmwareResultDeadlineOverflow"
  by (auto simp: AppleAgxFirmwareBeginDeadline_def split: prod.splits if_splits)

lemma finish_error:
  "AppleAgxFirmwareFinishOperation io s d ok e = (f, e') \<Longrightarrow> f \<noteq> AppleAgxFirmwareResultCleanupFailed"
  by (auto simp: AppleAgxFirmwareFinishOperation_def split: prod.splits if_splits)

text \<open>A step that sets the bit \<open>2 ^ k\<close>, from a state with the obligations of the step.\<close>

lemma start_simple_outcome:
  assumes "start_simple io cb t phase b fw e = (r, fw', e')"
    and "firmware_observed io log" and "AppleAgxFirmwareIoValid io" and "\<And>d. logs log c (cb d)"
    and "fw_masks_ok fw" and "obligations fw = stage_obligations k"
  shows "r = AppleAgxFirmwareResultOk \<and>
      fw' = fw\<lparr> fw_CompletedMask := fw_CompletedMask fw OR b, fw_Phase := phase,
                fw_LastResult := AppleAgxFirmwareResultOk \<rparr> \<and> log e' = log e @ [c] \<or>
    aborted log (log e) k c r fw' e'"
proof -
  obtain r1 e1 where b1: "AppleAgxFirmwareBeginDeadline io t e = (r1, e1)" by force
  have l1: "log e1 = log e" by (rule observed_begin [OF assms(2) b1])
  show ?thesis
  proof (cases r1)
    case (Inl f)
    have "AppleAgxFirmwareAbortStart fw io f e1 = (r, fw', e')"
      using assms(1) b1 Inl by (simp add: start_simple_def)
    from abortedI [OF this assms(2,3,5) _ _ assms(6), of "log e" "[]" c] begin_error [OF b1 [unfolded Inl]] l1
    show ?thesis by simp
  next
    case (Inr w)
    obtain s d where w: "w = (s, d)" by force
    obtain ok e2 where c2: "cb d e1 = (ok, e2)" by force
    obtain r3 e3 where f3: "AppleAgxFirmwareFinishOperation io s d ok e2 = (r3, e3)" by force
    have l3: "log e3 = log e @ [c]"
      using observed_finish [OF assms(2) f3] logsD [OF assms(4) c2] l1 by simp
    show ?thesis
    proof (cases "r3 = AppleAgxFirmwareResultOk")
      case True
      with assms(1) b1 Inr w c2 f3 l3 observed_record [OF assms(2)] show ?thesis
        by (auto simp: start_simple_def AppleAgxFirmwareComplete_def Let_def)
    next
      case False
      then have "AppleAgxFirmwareAbortStart fw io r3 e3 = (r, fw', e')"
        using assms(1) b1 Inr w c2 f3 by (simp add: start_simple_def)
      from abortedI [OF this assms(2,3,5) False finish_error [OF f3] assms(6) l3] show ?thesis by simp
    qed
  qed
qed

lemma started_masks:
  "started k fw \<Longrightarrow> k \<le> 9 \<Longrightarrow> fw_masks_ok fw"
  "started k fw \<Longrightarrow> k \<noteq> 2 \<Longrightarrow> obligations fw = stage_obligations k"
  "started 2 fw \<Longrightarrow> obligations (fw\<lparr> fw_CleanupMask := fw_CleanupMask fw OR FW_ASC_RUNNING \<rparr>) = stage_obligations 2"
proof -
  assume s: "started k fw" "k \<le> 9"
  have "k \<in> {0, 1, 2, 3, 4, 5, 6, 7, 8, 9}" using s(2) by auto
  then have "(2 ^ k - 1 :: u32) AND NOT FW_ALL_COMPLETED = 0" by auto
  with s show "fw_masks_ok fw" by (simp add: started_def fw_masks_ok_def)
qed (auto simp: started_def obligations_def stage_obligations_def)

lemma start_simple_stage:
  assumes "firmware_observed io log" and "AppleAgxFirmwareIoValid io" and "\<And>d. logs log c (cb d)"
    and "started k fw" and "start_simple io cb t phase b fw e = (r, fw', e')"
    and "k \<noteq> 2" and "k \<noteq> 5" and "k < 9" and "b = 2 ^ k" and "phase = start_phases ! Suc k"
  shows "r = AppleAgxFirmwareResultOk \<and> started (Suc k) fw' \<and> log e' = log e @ [c] \<or>
    aborted log (log e) k c r fw' e'"
proof -
  have o: "fw_masks_ok fw" "obligations fw = stage_obligations k"
    using started_masks(1,2) [OF assms(4)] assms(6,8) by simp_all
  have "k \<in> {0, 1, 3, 4, 6, 7, 8}" using assms(6-8) by auto
  then have m: "(2 ^ k - 1) OR 2 ^ k = (2 ^ Suc k - 1 :: u32)" by auto
  show ?thesis
    using start_simple_outcome [OF assms(5,1,2,3) o] assms(4,6,7,9,10) m
    by (auto simp: started_def)
qed

lemma boot_stage:
  assumes "firmware_observed io log" and "AppleAgxFirmwareIoValid io" and "\<And>d. logs log c (cb d)"
  shows "stage_ok log 2 c (\<lambda>fw. start_simple io cb t AppleAgxFirmwareAscRunning FW_ASC_RUNNING
    (fw\<lparr> fw_CleanupMask := fw_CleanupMask fw OR FW_ASC_RUNNING \<rparr>))"
  unfolding stage_ok_def
proof (intro allI impI)
  fix fw e r fw' e'
  assume s: "started 2 fw" and run: "start_simple io cb t AppleAgxFirmwareAscRunning FW_ASC_RUNNING
    (fw\<lparr> fw_CleanupMask := fw_CleanupMask fw OR FW_ASC_RUNNING \<rparr>) e = (r, fw', e')"
  have m: "fw_masks_ok (fw\<lparr> fw_CleanupMask := fw_CleanupMask fw OR FW_ASC_RUNNING \<rparr>)"
    using s by (simp add: started_def fw_masks_ok_def)
  show "r = AppleAgxFirmwareResultOk \<and> started (Suc 2) fw' \<and> log e' = log e @ [c] \<or> aborted log (log e) 2 c r fw' e'"
    using start_simple_outcome [OF run assms m started_masks(3) [OF s]] s
    by (auto simp: started_def start_phases_def)
qed

lemma publish_stage:
  assumes "firmware_observed io log" and "AppleAgxFirmwareIoValid io"
  shows "stage_ok log 5 CallPublishInitdata (publish_initdata io)"
  unfolding stage_ok_def
proof (intro allI impI)
  fix fw e r fw' e'
  assume s: "started 5 fw" and run: "publish_initdata io fw e = (r, fw', e')"
  have o: "fw_masks_ok fw" "obligations fw = stage_obligations 5"
    using started_masks(1,2) [OF s] by simp_all
  obtain r1 e1 where b1: "AppleAgxFirmwareBeginDeadline io INITDATA_TIMEOUT_MS e = (r1, e1)" by force
  have l1: "log e1 = log e" by (rule observed_begin [OF assms(1) b1])
  show "r = AppleAgxFirmwareResultOk \<and> started (Suc 5) fw' \<and> log e' = log e @ [CallPublishInitdata] \<or>
    aborted log (log e) 5 CallPublishInitdata r fw' e'"
  proof (cases r1)
    case (Inl f)
    have "AppleAgxFirmwareAbortStart fw io f e1 = (r, fw', e')"
      using run b1 Inl by (simp add: publish_initdata_def)
    from abortedI [OF this assms o(1) _ _ o(2), of "log e" "[]" CallPublishInitdata]
      begin_error [OF b1 [unfolded Inl]] l1
    show ?thesis by simp
  next
    case (Inr w)
    obtain a d where w: "w = (a, d)" by force
    obtain ok address e2 where c2: "the (fi_PublishInitdata io) d 0 e1 = (ok, address, e2)" by (metis prod_cases3)
    obtain r3 e3 where f3: "AppleAgxFirmwareFinishOperation io a d ok e2 = (r3, e3)" by force
    have "log e2 = log e1 @ [CallPublishInitdata]"
      using assms(1) c2 unfolding firmware_observed_def by (metis snd_conv)
    then have l3: "log e3 = log e @ [CallPublishInitdata]" using observed_finish [OF assms(1) f3] l1 by simp
    define fw1 where "fw1 = fw\<lparr> fw_InitdataAddress := address \<rparr>"
    define f where "f = (if r3 = AppleAgxFirmwareResultOk \<and>
        (address = 0 \<or> AppleAgxRtkitInitdata address = RTKIT_INVALID_MESSAGE)
      then AppleAgxFirmwareResultInvalid else r3)"
    have o1: "fw_masks_ok fw1" "obligations fw1 = stage_obligations 5"
      using o by (simp_all add: fw1_def fw_masks_ok_def obligations_def)
    have step: "publish_initdata io fw e = (if f \<noteq> AppleAgxFirmwareResultOk then AppleAgxFirmwareAbortStart fw1 io f e3
        else (AppleAgxFirmwareResultOk, AppleAgxFirmwareComplete fw1 io AppleAgxFirmwareInitdataPublished
                FW_INITDATA_PUBLISHED e3))"
      using b1 Inr w c2 f3 by (simp add: publish_initdata_def fw1_def f_def Let_def)
    show ?thesis
    proof (cases "f = AppleAgxFirmwareResultOk")
      case True
      then have "address \<noteq> 0" "AppleAgxRtkitInitdata address \<noteq> RTKIT_INVALID_MESSAGE"
        by (auto simp: f_def split: if_splits)
      with run step True l3 s observed_record [OF assms(1)] show ?thesis
        by (auto simp: AppleAgxFirmwareComplete_def Let_def started_def fw1_def start_phases_def)
    next
      case False
      have n: "f \<noteq> AppleAgxFirmwareResultCleanupFailed" using finish_error [OF f3] by (simp add: f_def)
      from run step False have "AppleAgxFirmwareAbortStart fw1 io f e3 = (r, fw', e')" by simp
      from abortedI [OF this assms o1(1) False n o1(2) l3] show ?thesis by simp
    qed
  qed
qed

lemma firmware_stages_ok:
  assumes "firmware_observed io log" and "AppleAgxFirmwareIoValid io" and "k < 9"
  shows "stage_ok log k (start_calls ! k) (firmware_stages io ! k)"
proof -
  have o: "logs log CallPowerOn (the (fi_PowerOn io) d)"
    "logs log CallCreateFirmwareUat (the (fi_CreateFirmwareUat io) d)" "logs log CallBootAsc (the (fi_BootAsc io) d)"
    "logs log (CallStartEndpoint n) (the (fi_StartEndpoint io) n d)"
    "logs log CallSendInitdata (the (fi_SendInitdata io) a d)"
    "logs log CallSendDeviceControlInit (the (fi_SendDeviceControlInit io) d)"
    "logs log CallUpdateIdleTimestamp (the (fi_UpdateIdleTimestamp io) d)" for n a d
    using assms(1) unfolding firmware_observed_def by blast+
  have simple: "stage_ok log k c (\<lambda>fw. start_simple io (cb fw) t (start_phases ! Suc k) (2 ^ k) fw)"
    if "\<And>fw d. logs log c (cb fw d)" "k \<noteq> 2" "k \<noteq> 5" "k < 9" for k c cb t
    unfolding stage_ok_def
    by (intro allI impI) (rule start_simple_stage [OF assms(1,2) that(1) _ _ that(2-4) refl refl]; assumption)
  consider "k = 0" | "k = 1" | "k = 2" | "k = 3" | "k = 4" | "k = 5" | "k = 6" | "k = 7" | "k = 8"
    using assms(3) by linarith
  then show ?thesis
  proof cases
    case 3 with boot_stage [OF assms(1,2) o(3)] show ?thesis by (simp add: start_calls_def firmware_stages_def)
  next
    case 6 with publish_stage [OF assms(1,2)] show ?thesis by (simp add: start_calls_def firmware_stages_def)
  next
    case 1 with simple [where k = 0, OF o(1)] show ?thesis
      by (simp add: start_calls_def firmware_stages_def start_phases_def)
  next
    case 2 with simple [where k = 1, OF o(2)] show ?thesis
      by (simp add: start_calls_def firmware_stages_def start_phases_def)
  next
    case 4 with simple [where k = 3, OF o(4)] show ?thesis
      by (simp add: start_calls_def firmware_stages_def start_phases_def)
  next
    case 5 with simple [where k = 4, OF o(4)] show ?thesis
      by (simp add: start_calls_def firmware_stages_def start_phases_def)
  next
    case 7 with simple [where k = 6, OF o(5)] show ?thesis
      by (simp add: start_calls_def firmware_stages_def start_phases_def)
  next
    case 8 with simple [where k = 7, OF o(6)] show ?thesis
      by (simp add: start_calls_def firmware_stages_def start_phases_def)
  next
    case 9 with simple [where k = 8, OF o(7)] show ?thesis
      by (simp add: start_calls_def firmware_stages_def start_phases_def)
  qed
qed

lemma run_stages_outcome:
  assumes "\<And>i. i < length stages \<Longrightarrow> stage_ok log (k + i) (calls ! i) (stages ! i)"
    and "length calls = length stages" and "started k fw" and "run_stages stages fw e = (r, fw', e')"
  shows "r = AppleAgxFirmwareResultOk \<and> started (k + length stages) fw' \<and> log e' = log e @ calls \<or>
    (\<exists>i<length stages. aborted log (log e @ take i calls) (k + i) (calls ! i) r fw' e')"
  using assms
proof (induction stages arbitrary: k calls fw e)
  case (Cons stage stages)
  obtain c cs where calls: "calls = c # cs" using Cons.prems(2) by (cases calls) auto
  obtain r1 fw1 e1 where run1: "stage fw e = (r1, fw1, e1)" by (metis prod_cases3)
  from Cons.prems(1) [of 0] calls run1 Cons.prems(3)
  consider "r1 = AppleAgxFirmwareResultOk" "started (Suc k) fw1" "log e1 = log e @ [c]"
    | "aborted log (log e) k c r1 fw1 e1"
    unfolding stage_ok_def by simp blast
  then show ?case
  proof cases
    case 1
    have "r = AppleAgxFirmwareResultOk \<and> started (Suc k + length stages) fw' \<and> log e' = log e1 @ cs \<or>
        (\<exists>i<length stages. aborted log (log e1 @ take i cs) (Suc k + i) (cs ! i) r fw' e')"
    proof (rule Cons.IH)
      fix i assume "i < length stages"
      then show "stage_ok log (Suc k + i) (cs ! i) (stages ! i)" using Cons.prems(1) [of "Suc i"] calls by simp
    qed (use Cons.prems calls run1 1 in auto)
    with 1(3) calls show ?thesis by force
  next
    case 2
    have "r1 \<noteq> AppleAgxFirmwareResultOk" using 2 by (simp add: aborted_def)
    with run1 Cons.prems(4) 2 calls show ?thesis by (auto intro: exI [of _ 0])
  qed
qed simp

lemma start_outcome:
  assumes "AppleAgxFirmwareStart fw io e = (r, fw', e')"
    and "firmware_observed io log" and "AppleAgxFirmwareIoValid io"
    and "fw_Phase fw = AppleAgxFirmwareOff \<or> fw_Phase fw = AppleAgxFirmwareStopped"
    and "fw_CompletedMask fw = 0" and "fw_CleanupMask fw = 0"
  shows "r = AppleAgxFirmwareResultOk \<and> started 9 fw' \<and> log e' = log e @ start_calls \<or>
    (\<exists>k<9. aborted log (log e @ take k start_calls) k (start_calls ! k) r fw' e')"
proof -
  define fw0 where "fw0 = fw\<lparr> fw_Phase := AppleAgxFirmwareOff, fw_InitdataAddress := 0,
      fw_LastResult := AppleAgxFirmwareResultOk \<rparr>"
  have run: "run_stages (firmware_stages io) fw0 e = (r, fw', e')"
    using assms(1,3-6) by (auto simp: AppleAgxFirmwareStart_def AppleAgxFirmwareValidateStart_def fw0_def)
  have s: "started 0 fw0" using assms(5,6) by (simp add: started_def start_phases_def fw0_def)
  have n: "length (firmware_stages io) = 9" "length start_calls = 9"
    by (simp_all add: firmware_stages_def start_calls_def)
  from run_stages_outcome [of "firmware_stages io" log 0 start_calls, OF _ _ s run]
    firmware_stages_ok [OF assms(2,3)] show ?thesis
    by (auto simp: n)
qed

section \<open>A platform to run on\<close>

text \<open>It records the calls; the calls for which \<open>bad\<close> holds report a failure.  Every call takes \<open>delay\<close> milliseconds.\<close>

definition scripted :: "(firmware_call \<Rightarrow> bool) \<Rightarrow> u64 \<Rightarrow> firmware_call \<Rightarrow> u64 \<times> firmware_call list
  \<Rightarrow> bool \<times> u64 \<times> firmware_call list" where
  "scripted bad delay c e = (\<not> bad c, fst e + delay, snd e @ [c])"

definition scripted_firmware :: "(firmware_call \<Rightarrow> bool) \<Rightarrow> u64 \<Rightarrow> (u64 \<times> firmware_call list) APPLE_AGX_FIRMWARE_IO" where
  "scripted_firmware bad delay =
     \<lparr> fi_NowMs = Some (\<lambda>e. (fst e, e)),
       fi_PowerOn = Some (\<lambda>_. scripted bad delay CallPowerOn),
       fi_CreateFirmwareUat = Some (\<lambda>_. scripted bad delay CallCreateFirmwareUat),
       fi_BootAsc = Some (\<lambda>_. scripted bad delay CallBootAsc),
       fi_StartEndpoint = Some (\<lambda>n _. scripted bad delay (CallStartEndpoint n)),
       fi_PublishInitdata = Some (\<lambda>_ _ e. case scripted bad delay CallPublishInitdata e of (ok, e') \<Rightarrow> (ok, 0x10000, e')),
       fi_SendInitdata = Some (\<lambda>_ _. scripted bad delay CallSendInitdata),
       fi_SendDeviceControlInit = Some (\<lambda>_. scripted bad delay CallSendDeviceControlInit),
       fi_UpdateIdleTimestamp = Some (\<lambda>_. scripted bad delay CallUpdateIdleTimestamp),
       fi_UnpublishInitdata = Some (\<lambda>_. scripted bad delay CallUnpublishInitdata),
       fi_StopEndpoint = Some (\<lambda>n _. scripted bad delay (CallStopEndpoint n)),
       fi_StopAsc = Some (\<lambda>_. scripted bad delay CallStopAsc),
       fi_DestroyFirmwareUat = Some (\<lambda>_. scripted bad delay CallDestroyFirmwareUat),
       fi_PowerOff = Some (\<lambda>_. scripted bad delay CallPowerOff),
       fi_RecordPhase = None \<rparr>"

lemma scripted_observed: "firmware_observed (scripted_firmware bad delay) snd"
  by (simp add: firmware_observed_def scripted_firmware_def logs_def scripted_def)

lemma scripted_valid: "AppleAgxFirmwareIoValid (scripted_firmware bad delay)"
  by (simp add: AppleAgxFirmwareIoValid_def scripted_firmware_def)

definition firmware_off :: APPLE_AGX_FIRMWARE where
  "firmware_off = \<lparr> fw_Phase = AppleAgxFirmwareOff, fw_CompletedMask = 0, fw_InitdataAddress = 0,
     fw_LastResult = AppleAgxFirmwareResultOk, fw_CleanupMask = 0 \<rparr>"

section \<open>Properties\<close>

text \<open>C1. Starting the firmware is all or nothing.  Either all nine operations are called in order and
  everything is recorded as done; or one step fails and the steps before it are undone, the last first, leaving the
  firmware stopped with nothing recorded; or an operation of the rollback fails as well, which is reported as such and
  leaves a bit for what is still held, so that the rollback can be tried again.\<close>

theorem firmware_start_undoes:
  assumes "AppleAgxFirmwareStart fw io e = (r, fw', e')"
    and "firmware_observed io log" and "AppleAgxFirmwareIoValid io"
    and "fw_Phase fw = AppleAgxFirmwareOff \<or> fw_Phase fw = AppleAgxFirmwareStopped"
    and "fw_CompletedMask fw = 0" and "fw_CleanupMask fw = 0"
  shows "(r = AppleAgxFirmwareResultOk \<and> fw_Phase fw' = AppleAgxFirmwareIdleTimestampUpdated \<and>
      fw_CompletedMask fw' = FW_ALL_COMPLETED \<and> log e' = log e @ start_calls) \<or>
    (\<exists>k<9. r \<noteq> AppleAgxFirmwareResultOk \<and>
       (\<exists>attempt undone. log e' = (log e @ take k start_calls) @ attempt @ undone \<and> prefix attempt [start_calls ! k] \<and>
          (if r = AppleAgxFirmwareResultCleanupFailed
           then fw_stuck fw' \<and> subseq undone (undo_calls (stage_obligations k))
           else fw_stopped fw' \<and> undone = undo_calls (stage_obligations k))))"
  using start_outcome [OF assms] unfolding aborted_def
proof (rule disj_forward)
  assume "r = AppleAgxFirmwareResultOk \<and> started 9 fw' \<and> log e' = log e @ start_calls"
  then show "r = AppleAgxFirmwareResultOk \<and> fw_Phase fw' = AppleAgxFirmwareIdleTimestampUpdated \<and>
      fw_CompletedMask fw' = FW_ALL_COMPLETED \<and> log e' = log e @ start_calls"
    by (simp add: started_def start_phases_def)
qed

theorem firmware_start_undoes_witness:
  "let (r, fw, e) = AppleAgxFirmwareStart firmware_off (scripted_firmware (\<lambda>c. c = CallPublishInitdata) 1) (0, []) in
   r = AppleAgxFirmwareResultTransportFailed \<and> fw_stopped fw \<and>
   (\<exists>k<9. \<exists>attempt undone. prefix attempt [start_calls ! k] \<and> snd e = take k start_calls @ attempt @ undone \<and>
      undone = undo_calls (stage_obligations k))"
proof -
  let ?io = "scripted_firmware (\<lambda>c. c = CallPublishInitdata) 1"
  obtain r fw e where run: "AppleAgxFirmwareStart firmware_off ?io (0, []) = (r, fw, e)" by (metis prod_cases3)
  have "fst (AppleAgxFirmwareStart firmware_off ?io (0, [])) = AppleAgxFirmwareResultTransportFailed" by code_simp
  then have r: "r = AppleAgxFirmwareResultTransportFailed" by (simp add: run)
  from firmware_start_undoes [OF run scripted_observed scripted_valid] r
  have "\<exists>k<9. \<exists>attempt undone. prefix attempt [start_calls ! k] \<and> snd e = take k start_calls @ attempt @ undone \<and>
      fw_stopped fw \<and> undone = undo_calls (stage_obligations k)"
    by (simp add: firmware_off_def conj_ac)
  with r run show ?thesis by auto
qed

text \<open>An operation that succeeds after its deadline counts as failed, and its step is not undone: here the power is on,
  the start reports a timeout, the firmware is stopped with nothing recorded, and nothing was switched off.\<close>

lemma late_power_stays_on:
  "let (r, fw, e) = AppleAgxFirmwareStart firmware_off (scripted_firmware (\<lambda>_. False) 501) (0, []) in
   r = AppleAgxFirmwareResultTimeout \<and> fw_Phase fw = AppleAgxFirmwareStopped \<and>
   obligations fw = 0 \<and> snd e = [CallPowerOn]"
  by code_simp

text \<open>What the releases are for a start that failed while publishing.\<close>

lemma undo_before_publish:
  "undo_calls (stage_obligations 5) =
     [CallStopEndpoint DOORBELL_ENDPOINT_NUMBER, CallStopEndpoint FIRMWARE_ENDPOINT_NUMBER,
      CallStopAsc, CallDestroyFirmwareUat, CallPowerOff]"
  by code_simp

end
