(* ===== verification/Spec2Isabelle.thy ===== *)
theory Spec2Isabelle
  imports Prelude Interfaces Scheduler Submission WorkQueue EventAllocator DeviceState DeviceMemory Uat UatTable UatUnmap UatMemory Residency SpiHid Discovery HidContract Assignment Tracker Ptp Shadow Rtkit Transport Handoff Session Firmware
begin

text \<open>
  The portable C core of the Windows-on-M1 drivers, modelled and verified.

  \<^bold>\<open>The program.\<close>  The repository has two drivers whose logic is written in C that does not depend on
  Windows: the graphics driver (\<^verbatim>\<open>drivers/apple-agx/shared\<close>, below \<open>agx\<close>) and the driver of the internal
  keyboard and trackpad (\<^verbatim>\<open>drivers/apple-input/protocol\<close>, below \<open>input\<close>).  The kernel-mode files around them pass
  callbacks in and forward requests; the logic that can be wrong without the hardware is in these files.

  \<^bold>\<open>The parts and how they work together.\<close>

  \<^item> Bringing the graphics coprocessor up.  \<open>Rtkit\<close> is the codec of the management messages and the boot dialogue
    (\<^verbatim>\<open>agx/src/apple_agx_rtkit.c\<close>, \<^verbatim>\<open>apple_agx_rtkit_boot.c\<close>); \<open>Transport\<close> is the mailbox the messages travel through
    (\<^verbatim>\<open>apple_agx_asc_transport.c\<close>); \<open>Handoff\<close> is the lock in shared memory that driver and firmware hand each
    other (\<^verbatim>\<open>apple_agx_gfx_handoff.c\<close>); \<open>Session\<close> drives all three: it starts the processor, boots it, starts
    endpoints, drains the mailbox, answers crash-log requests and stops (\<^verbatim>\<open>apple_agx_rtkit_session.c\<close>).
  \<^item> Work.  \<open>Submission\<close> is the ring of DMA packets and the transaction that reports a completed fence
    (\<^verbatim>\<open>apple_agx_submission.c\<close>); \<open>Scheduler\<close> orders fences and preempts (\<^verbatim>\<open>apple_agx_scheduler.c\<close>);
    \<open>WorkQueue\<close> is the firmware's ring of job pointers (\<^verbatim>\<open>apple_agx_work_queue.c\<close>); \<open>EventAllocator\<close> leases the
    firmware event numbers a job waits for (\<^verbatim>\<open>apple_agx_event_allocator.c\<close>); \<open>DeviceState\<close> is the phase machine of the
    device with its table of mapped ranges (\<^verbatim>\<open>apple_agx_state.c\<close>); \<open>Shadow\<close> is the log of allocation bytes that
    travels with a DMA buffer (\<^verbatim>\<open>apple_agx_dma_shadow.c\<close>).
  \<^item> Memory.  \<open>DeviceMemory\<close> is one object of device memory and its life cycle (\<^verbatim>\<open>apple_agx_memory.c\<close>); \<open>Uat\<close> encodes
    page-table entries and checks ranges (\<^verbatim>\<open>apple_agx_uat.c\<close>); \<open>UatTable\<close> is the three-level table: walking,
    mapping, replacing, rolling back, destroying (\<^verbatim>\<open>apple_agx_uat_table.c\<close>), with \<open>UatUnmap\<close> for what unmapping and
    pruning do to every translation; \<open>UatMemory\<close> is the owner that gives the tables their pages
    (\<^verbatim>\<open>apple_agx_uat_memory.c\<close>); \<open>Residency\<close> joins objects and tables (\<^verbatim>\<open>apple_agx_residency.c\<close>).
  \<^item> Input.  \<open>SpiHid\<close> is the packet codec with its checksum, the reassembly of messages and the queue between
    interrupt routine and worker (\<^verbatim>\<open>input/src/apple_spihid*.c\<close>); \<open>Discovery\<close> the handshakes that find the device
    and initialise the trackpad; \<open>HidContract\<close> the parser of report descriptors
    (\<^verbatim>\<open>apple_hid_contract.c\<close>); \<open>Assignment\<close> and \<open>Tracker\<close> turn raw contacts into stable identifiers by a minimum-cost
    matching (\<^verbatim>\<open>apple_trackpad_frame.c\<close>); \<open>Ptp\<close> writes precision-touchpad reports and keeps the input mode
    (\<^verbatim>\<open>apple_precision_touchpad.c\<close>).

  \<^bold>\<open>How the code appears.\<close>  A struct is a record with the source's field names behind a two-letter prefix, an enum a
  datatype, an integer a word of its width; an array is a list, and a store to it a list update at the same index.  A
  function that returns a result code and writes through pointers returns the pair.  A function whose only failure comes
  before its first store returns an option.  A pointer argument is the record it points to and is not NULL; a pointer
  \<^emph>\<open>field\<close> or a callback that may be NULL is an option, and the checks against NULL are the code's.  Callbacks of the
  platform are functions on an environment of any type, so that every theorem holds for every answer the platform may
  give.  Definitions carry the C names; the loops of a function are definitions of their own next to it.

  \<^bold>\<open>Contracts.\<close>  \<open>Interfaces\<close> states as locales what several components promise, and each is interpreted on the model's own
  definitions: the wrap-around order of fences (scheduler, submission queue), the bounded queue with other operations in
  between (scheduler, submission queue), the guarded system with an inductive invariant (scheduler, submission queue, work
  queue, device state, device memory, input hand-off, page owner, residency), the machine whose phase never goes back and
  the machine that runs out of steps (completion transaction, discovery, trackpad initialisation).  \<open>UatMemory\<close> states
  what a page-table client needs of its allocator and discharges it for the page owner.

  \<^bold>\<open>What is shown.\<close>

  \<^item> Queues: elements leave in the order they entered under every interleaving of the other operations, across
    preemption, discard and replay; reachable states are well formed; a completion is reported once and in order.
  \<^item> Page tables: a map makes its own range translate as asked and no other; a refused map or a refused batch leaves
    everything as it was; an unmap ends the translations of its range and no others and gives back exactly the tables it
    emptied, so map then unmap is the identity on translations; destroying releases every page once.  Translation is
    the walk of \<open>AppleAgxUatResolvePage\<close>, which reads the descriptors as the code reads them.
  \<^item> Memory: what was allocated is what was freed or is still held, through every failure; an object in flight is
    neither unmapped nor freed.
  \<^item> Boot: the dialogue agrees with a reference automaton; a boot that fails leaves the processor stopped unless stopping
    it failed too; it returns; the lock is held by one side at a time.
  \<^item> Input: what the reassembler delivers was sent in this order and everything sent is delivered; the parser agrees with a
    declarative reading of the descriptor; the assignment has minimum cost among all assignments; identifiers stay with
    their contact; the report a host decodes is the frame the tracker computed.

  \<^bold>\<open>Termination and bounds.\<close>  Loops with a bounded index are folds or structural recursions.  The two loops whose end depends
  on memory (pruning the tables, destroying the page owner) are functions with a measure: the number of pages, of
  objects.  A loop that polls the hardware may run for ever and is a \<open>partial_function (option)\<close>; that it returns is a
  theorem of its own under a stated hypothesis on the clock (\<open>clock_advances\<close>: every pause lets it move, and it never goes
  back).  No model uses fuel.

  \<^bold>\<open>Hypotheses on the platform.\<close>  \<open>clock_advances\<close> for the theorems that say a wait ends; \<open>own_lock_byte\<close> for the lock: what the
  driver writes into its own byte stays there.  \<open>page_source\<close> for the page tables: the allocator hands out zeroed, aligned
  pages it does not hand out twice.  Sizes of caller-supplied buffers are hypotheses where the C signature cannot
  state them.  Each theorem with a hypothesis has a witness that runs the model on concrete data.

  \<^bold>\<open>Not modelled.\<close>  The kernel-mode and user-mode files around the core (the Windows display port driver, the KMDF input
  driver, the UMDs, the ICD, the Mesa port): calls into Windows and Mesa with little logic of their own.  The builders of
  firmware structures (\<^verbatim>\<open>initdata\<close>, \<^verbatim>\<open>regionb\<close>, \<^verbatim>\<open>regionc\<close>, channel tables, the generated render template): constants stored
  at offsets only the firmware interprets, whose model would repeat the constants.  The experimental GPUVA graphs, the
  GDI lowering and the display paths.  Python and shell tools.  The page-table file is modelled as built without
  \<^verbatim>\<open>APPLE_AGX_FULL_CONTEXT0_BROKER\<close>.  Hardware memory ordering is not modelled: barriers are calls on the environment.
\<close>

end
